(* ===== verification/Prelude.thy ===== *)
theory Prelude
  imports Main "HOL-Library.Sublist"
begin

text \<open>
  Shared vocabulary of the development: the C++ value types the components use, the
  exceptions they throw, the error monad in which a throwing function is modelled, the pieces
  of the standard library the sources call (\<^verbatim>\<open>std::to_string\<close>, \<^verbatim>\<open>std::string_view::find\<close>,
  \<^verbatim>\<open>starts_with\<close>), and the generic list lemmas the component proofs share.

  A byte string (\<^verbatim>\<open>std::string\<close>, \<^verbatim>\<open>std::string_view\<close>) is a \<^typ>\<open>string\<close>: a \<^typ>\<open>char\<close> is
  one byte. A \<^verbatim>\<open>std::size_t\<close> is a \<^typ>\<open>nat\<close>; where the code depends on the width of the
  type the bound \<open>size_max\<close> is written out. A subtraction on \<^typ>\<open>nat\<close> stands for the
  unsigned subtraction of the code only where the invariants proved below exclude the
  wrap-around.
\<close>

section \<open>Exceptions and fallible results\<close>

datatype exn =
    InvalidArgument string
  | OutOfRange string
  | LengthError string
  | LogicError string
  | OverflowError string
  | RuntimeError string
  | SystemError nat string
  | JsonTypeError
  | JsonOutOfRange
  | ReplaceConflict string
  | AtomicWriteError nat string bool
  | OtherException string

type_synonym 'a result = "exn + 'a"

definition and_then :: "'e + 'a \<Rightarrow> ('a \<Rightarrow> 'e + 'b) \<Rightarrow> 'e + 'b" where
  "and_then m f = (case m of Inl e \<Rightarrow> Inl e | Inr x \<Rightarrow> f x)"

lemma and_then_simps [simp]:
  "and_then (Inl e) f = Inl e"
  "and_then (Inr x) f = f x"
  by (simp_all add: and_then_def)

lemma and_then_eq_Inr:
  "and_then m f = Inr y \<longleftrightarrow> (\<exists>x. m = Inr x \<and> f x = Inr y)"
  by (cases m) auto

lemma and_then_cong [fundef_cong]:
  "m = m' \<Longrightarrow> (\<And>x. m' = Inr x \<Longrightarrow> f x = g x) \<Longrightarrow> and_then m f = and_then m' g"
  by (cases m') auto

text \<open>A loop over a vector that stops at the first exception.\<close>

fun map_result :: "('a \<Rightarrow> 'e + 'b) \<Rightarrow> 'a list \<Rightarrow> 'e + 'b list" where
  "map_result f [] = Inr []"
| "map_result f (x # xs) =
     and_then (f x) (\<lambda>y. and_then (map_result f xs) (\<lambda>ys. Inr (y # ys)))"

lemma map_result_map:
  "(\<And>x. x \<in> set xs \<Longrightarrow> f (g x) = Inr (h x)) \<Longrightarrow> map_result f (map g xs) = Inr (map h xs)"
  by (induction xs) auto

lemma map_result_length: "map_result f xs = Inr ys \<Longrightarrow> length ys = length xs"
  by (induction xs arbitrary: ys) (auto simp: and_then_eq_Inr)

section \<open>Machine constants\<close>

definition size_max :: nat where
  "size_max = 18446744073709551615"

lemma size_max_eq: "size_max = 2 ^ 64 - 1"
  by (simp add: size_max_def)

abbreviation byte_val :: "char \<Rightarrow> nat" where
  "byte_val c \<equiv> of_char c"

lemma byte_val_less [simp]: "byte_val c < 256"
  by simp

section \<open>Standard-library string functions\<close>

definition starts_with :: "string \<Rightarrow> string \<Rightarrow> bool" where
  "starts_with s p \<longleftrightarrow> take (length p) s = p"

definition ends_with :: "string \<Rightarrow> string \<Rightarrow> bool" where
  "ends_with s p \<longleftrightarrow> length p \<le> length s \<and> drop (length s - length p) s = p"

definition substr :: "string \<Rightarrow> nat \<Rightarrow> nat \<Rightarrow> string" where
  "substr s pos n = take n (drop pos s)"

lemma starts_with_simps [simp]:
  "starts_with s []"
  "\<not> starts_with [] (p # ps)"
  "starts_with (x # xs) (p # ps) \<longleftrightarrow> x = p \<and> starts_with xs ps"
  by (auto simp: starts_with_def)

lemma starts_with_iff_prefix: "starts_with s p \<longleftrightarrow> prefix p s"
  unfolding starts_with_def by (metis prefix_def append_eq_conv_conj take_is_prefix)

lemma ends_with_append [simp]: "ends_with (a @ p) p"
  by (simp add: ends_with_def)

lemma ends_with_iff_suffix: "ends_with s p \<longleftrightarrow> suffix p s"
proof
  assume "ends_with s p"
  then show "suffix p s"
    unfolding ends_with_def by (metis suffix_drop)
next
  assume "suffix p s"
  then show "ends_with s p" by (auto simp: suffix_def)
qed

text \<open>\<^verbatim>\<open>std::to_string\<close> of an unsigned value: its decimal digits.\<close>

definition digit_char :: "nat \<Rightarrow> char" where
  "digit_char d = char_of (48 + d)"

fun to_string :: "nat \<Rightarrow> string" where
  "to_string n = (if n < 10 then [digit_char n] else to_string (n div 10) @ [digit_char (n mod 10)])"

declare to_string.simps [simp del]

lemma to_string_not_Nil [simp]: "to_string n \<noteq> []"
  by (subst to_string.simps) simp

lemma to_string_length_pos [simp]: "0 < length (to_string n)"
  by simp

lemma to_string_length_mono: "m \<le> n \<Longrightarrow> length (to_string m) \<le> length (to_string n)"
proof (induction n arbitrary: m rule: to_string.induct)
  case (1 n)
  show ?case
  proof (cases "n < 10")
    case True
    with 1 show ?thesis by (simp add: to_string.simps [of m] to_string.simps [of n])
  next
    case n: False
    show ?thesis
    proof (cases "m < 10")
      case True
      with n show ?thesis by (simp add: to_string.simps [of m] to_string.simps [of n] Suc_leI)
    next
      case False
      from 1 n have "length (to_string (m div 10)) \<le> length (to_string (n div 10))"
        by (simp add: div_le_mono)
      with n False show ?thesis
        by (simp add: to_string.simps [of m] to_string.simps [of n])
    qed
  qed
qed

section \<open>Generic list lemmas\<close>

lemma drop_eq_Cons_conv: "drop n xs = y # ys \<Longrightarrow> n < length xs \<and> xs ! n = y \<and> drop (Suc n) xs = ys"
  by (metis Cons_nth_drop_Suc drop_eq_Nil linorder_not_le list.distinct(1) list.inject)

lemma take_add_drop: "take (m + n) xs = take m xs @ take n (drop m xs)"
  by (rule take_add)

lemma sum_list_take_le: "sum_list (take n xs) \<le> (sum_list xs :: nat)"
  by (metis append_take_drop_id le_add1 sum_list_append)

lemma sum_list_take_Suc:
  "n < length xs \<Longrightarrow> sum_list (take (Suc n) xs) = sum_list (take n xs) + (xs ! n :: nat)"
  by (simp add: take_Suc_conv_app_nth)

lemma concat_take_length:
  "length (concat (take n xss)) = sum_list (take n (map length xss))"
  by (simp add: length_concat take_map)

lemma take_concat_rows:
  "take (sum_list (take n (map length xss))) (concat xss) = concat (take n xss)"
proof -
  have "concat xss = concat (take n xss) @ concat (drop n xss)"
    by (metis append_take_drop_id concat_append)
  then show ?thesis by (simp add: concat_take_length [symmetric])
qed

lemma drop_concat_rows:
  "drop (sum_list (take n (map length xss))) (concat xss) = concat (drop n xss)"
proof -
  have "concat xss = concat (take n xss) @ concat (drop n xss)"
    by (metis append_take_drop_id concat_append)
  then show ?thesis by (simp add: concat_take_length [symmetric])
qed

end
