(* ===== verification/Text_LineBreak.thy ===== *)
theory Text_LineBreak
  imports Prelude
begin

text \<open>
  \<^verbatim>\<open>textedit/src/line_break.hpp\<close>: recognition of line terminators, the line count, and the
  lookahead probe used when a text arrives in chunks. The section on logical rows gives the
  reference meaning every other component of \<^verbatim>\<open>textedit\<close> is proved against: the text cut
  into rows, each a content and the terminator that ends it.
\<close>

named_theorems row_simps \<open>facts about the logical rows of a text\<close>

section \<open>Terminators\<close>

definition line_break_width :: "string \<Rightarrow> nat" where
  "line_break_width remaining =
     (case remaining of
        [] \<Rightarrow> 0
      | first # rest \<Rightarrow>
          if first = CHR 0x0D then
            (case rest of [] \<Rightarrow> 1 | second # _ \<Rightarrow> if second = CHR 0x0A then 2 else 1)
          else if first = CHR 0x0A \<or> first = CHR 0x0B \<or> first = CHR 0x0C then 1
          else if starts_with remaining [CHR 0xC2, CHR 0x85] then 2
          else if starts_with remaining [CHR 0xE2, CHR 0x80, CHR 0xA8] \<or>
                  starts_with remaining [CHR 0xE2, CHR 0x80, CHR 0xA9] then 3
          else 0)"

text \<open>
  The loop of \<^verbatim>\<open>count_lines\<close>; the first argument is \<^verbatim>\<open>text.substr(offset)\<close>.
\<close>

lemma line_break_width_le: "line_break_width s \<le> length s"
proof (cases s)
  case (Cons a s')
  then show ?thesis
    by (cases s'; cases "tl s'") (auto simp: line_break_width_def)
qed (simp add: line_break_width_def)

lemma line_break_width_le3: "line_break_width s \<le> 3"
  by (auto simp: line_break_width_def split: list.splits)

lemma line_break_width_Nil [simp]: "line_break_width [] = 0"
  by (simp add: line_break_width_def)

function count_lines_loop :: "string \<Rightarrow> nat \<Rightarrow> nat" where
  "count_lines_loop rest lines =
     (if rest = [] then lines
      else let width = line_break_width rest in
        if width = 0 then count_lines_loop (tl rest) lines
        else count_lines_loop (drop width rest) (lines + 1))"
  by pat_completeness auto
termination
  by (relation "measure (\<lambda>(rest, _). length rest)") auto

declare count_lines_loop.simps [simp del]

definition count_lines :: "string \<Rightarrow> nat" where
  "count_lines text = count_lines_loop text 1"

section \<open>Chunked lookahead\<close>

record break_probe =
  bp_width :: nat
  bp_incomplete :: bool

definition probe :: "nat \<Rightarrow> bool \<Rightarrow> break_probe" where
  "probe w i = \<lparr>bp_width = w, bp_incomplete = i\<rparr>"

text \<open>
  \<^verbatim>\<open>window[at]\<close> is read first, so a call needs \<open>at < length window\<close>.
\<close>

definition probe_break :: "string \<Rightarrow> nat \<Rightarrow> break_probe" where
  "probe_break window at =
     (let byte = window ! at in
      if byte = CHR 0x0D then
        (if at + 1 = length window then probe 0 True
         else probe (if window ! (at + 1) = CHR 0x0A then 2 else 1) False)
      else if byte = CHR 0x0A \<or> byte = CHR 0x0B \<or> byte = CHR 0x0C then probe 1 False
      else if byte = CHR 0xC2 then
        (if at + 1 = length window then probe 0 True
         else probe (if window ! (at + 1) = CHR 0x85 then 2 else 0) False)
      else if byte = CHR 0xE2 then
        (if at + 1 = length window then probe 0 True
         else if window ! (at + 1) \<noteq> CHR 0x80 then probe 0 False
         else if at + 2 = length window then probe 0 True
         else probe (if window ! (at + 2) = CHR 0xA8 \<or> window ! (at + 2) = CHR 0xA9
                     then 3 else 0) False)
      else probe 0 False)"

lemma probe_sel [simp]: "bp_width (probe w i) = w" "bp_incomplete (probe w i) = i"
  by (simp_all add: probe_def)

section \<open>Logical rows\<close>

type_synonym row = "string \<times> string"

function split_rows :: "string \<Rightarrow> row list" where
  "split_rows s =
     (case s of
        [] \<Rightarrow> [([], [])]
      | c # cs \<Rightarrow>
          let width = line_break_width s in
          if width = 0 then
            (case split_rows cs of
               [] \<Rightarrow> [([c], [])]
             | (content, ending) # rows \<Rightarrow> (c # content, ending) # rows)
          else ([], take width s) # split_rows (drop width s))"
  by pat_completeness auto
termination
  by (relation "measure length") (auto simp del: drop_Suc_Cons)

declare split_rows.simps [simp del]

definition row_bytes :: "row \<Rightarrow> string" where
  "row_bytes r = fst r @ snd r"

definition row_len :: "row \<Rightarrow> nat" where
  "row_len r = length (fst r) + length (snd r)"

lemma row_len_bytes: "length (row_bytes r) = row_len r"
  by (simp add: row_bytes_def row_len_def)

lemma row_sel [simp]: "row_bytes (c, t) = c @ t" "row_len (c, t) = length c + length t"
  by (simp_all add: row_bytes_def row_len_def)

text \<open>The characteristic equations of \<^const>\<open>split_rows\<close>, used in place of its definition.\<close>

lemma split_rows_Nil [simp]: "split_rows [] = [([], [])]"
  by (subst split_rows.simps) simp

lemma split_rows_not_Nil [simp]: "split_rows s \<noteq> []"
  by (subst split_rows.simps) (auto simp: Let_def split: list.splits)

lemma split_rows_break:
  "line_break_width s \<noteq> 0 \<Longrightarrow>
   split_rows s = ([], take (line_break_width s) s) # split_rows (drop (line_break_width s) s)"
  by (subst split_rows.simps) (auto simp: Let_def split: list.splits)

definition cons_row :: "char \<Rightarrow> row list \<Rightarrow> row list" where
  "cons_row c rows = (c # fst (hd rows), snd (hd rows)) # tl rows"

lemma split_rows_content:
  "line_break_width (c # cs) = 0 \<Longrightarrow> split_rows (c # cs) = cons_row c (split_rows cs)"
  by (subst split_rows.simps)
     (auto simp: Let_def cons_row_def split: list.splits)

lemma rows_induct [case_names Nil Content Break]:
  assumes "P []"
    and "\<And>c cs. line_break_width (c # cs) = 0 \<Longrightarrow> P cs \<Longrightarrow> P (c # cs)"
    and "\<And>s. line_break_width s \<noteq> 0 \<Longrightarrow> P (drop (line_break_width s) s) \<Longrightarrow> P s"
  shows "P s"
proof (induction s rule: length_induct)
  case (1 s)
  show ?case
  proof (cases s)
    case Nil
    with assms(1) show ?thesis by simp
  next
    case (Cons c cs)
    show ?thesis
    proof (cases "line_break_width s = 0")
      case True
      with Cons 1 assms(2) show ?thesis by simp
    next
      case False
      with Cons have "length (drop (line_break_width s) s) < length s" by simp
      with 1 False assms(3) show ?thesis by blast
    qed
  qed
qed

lemma concat_split_rows [row_simps]: "concat (map row_bytes (split_rows s)) = s"
proof (induction s rule: rows_induct)
  case (Content c cs)
  then show ?case
    by (cases "split_rows cs") (auto simp: split_rows_content cons_row_def row_bytes_def)
qed (simp_all add: split_rows_break)

lemma sum_row_len [row_simps]: "sum_list (map row_len (split_rows s)) = length s"
  by (metis concat_split_rows length_concat map_map row_len_bytes comp_def map_cong)

lemma count_lines_loop_rows:
  "count_lines_loop s n = n + length (split_rows s) - 1"
proof (induction s arbitrary: n rule: rows_induct)
  case Nil
  then show ?case by (simp add: count_lines_loop.simps)
next
  case (Content c cs)
  then show ?case
    by (cases "split_rows cs") (auto simp: count_lines_loop.simps [of "c # cs"] split_rows_content cons_row_def)
next
  case (Break s)
  then have "s \<noteq> []" by auto
  with Break show ?case
    by (simp add: count_lines_loop.simps [of s] split_rows_break Let_def)
qed

lemma count_lines_rows [row_simps]: "count_lines s = length (split_rows s)"
  by (simp add: count_lines_def count_lines_loop_rows)

lemma count_lines_pos: "0 < count_lines s"
  by (simp add: count_lines_rows)


subsection \<open>Terminators and contents of rows\<close>

definition terminators :: "string list" where
  "terminators =
     [[CHR 0x0D, CHR 0x0A], [CHR 0xC2, CHR 0x85], [CHR 0xE2, CHR 0x80, CHR 0xA8],
      [CHR 0xE2, CHR 0x80, CHR 0xA9], [CHR 0x0A], [CHR 0x0D], [CHR 0x0B], [CHR 0x0C]]"

definition clean :: "string \<Rightarrow> bool" where
  "clean c \<longleftrightarrow> (\<forall>i < length c. line_break_width (drop i c) = 0)"

lemma line_break_width_append: "line_break_width s \<noteq> 0 \<Longrightarrow> line_break_width (s @ t) \<noteq> 0"
  by (cases s; cases "tl s"; cases "tl (tl s)"; cases t)
     (auto simp: line_break_width_def split: if_splits)

lemma break_is_terminator:
  "line_break_width s \<noteq> 0 \<Longrightarrow> take (line_break_width s) s \<in> set terminators"
  by (cases s; cases "tl s"; cases "tl (tl s)")
     (auto simp: line_break_width_def terminators_def split: if_splits)

lemma clean_Nil [simp]: "clean []"
  by (simp add: clean_def)

lemma clean_Cons: "clean (c # cs) \<longleftrightarrow> line_break_width (c # cs) = 0 \<and> clean cs"
  unfolding clean_def
  by (auto simp: less_Suc_eq_0_disj)

definition break_byte :: "char \<Rightarrow> bool" where
  "break_byte b \<longleftrightarrow> b = CHR 0x0A \<or> b = CHR 0x0B \<or> b = CHR 0x0C \<or> b = CHR 0x0D"

lemma break_byte_width: "break_byte b \<Longrightarrow> line_break_width (b # s) \<noteq> 0"
  by (cases s) (auto simp: break_byte_def line_break_width_def)

lemma clean_no_break_byte: "clean c \<Longrightarrow> b \<in> set c \<Longrightarrow> \<not> break_byte b"
  by (induction c) (auto simp: clean_Cons break_byte_width)

lemma clean_suffix_width: "clean (a @ b) \<Longrightarrow> line_break_width b = 0"
  by (cases b; simp; drule clean_def [THEN iffD1, rule_format, of _ "length a"]; simp)

lemma split_rows_clean: "(c, t) \<in> set (split_rows s) \<Longrightarrow> clean c"
proof (induction s arbitrary: c t rule: rows_induct)
  case (Content b cs)
  obtain c' t' rs where rows: "split_rows cs = (c', t') # rs"
    by (cases "split_rows cs") auto
  have "cs = c' @ t' @ concat (map row_bytes rs)"
    using concat_split_rows [of cs] rows by simp
  then have "line_break_width (b # c') = 0"
    using Content.hyps line_break_width_append [of "b # c'" "t' @ concat (map row_bytes rs)"] by auto
  moreover have "clean c'" using Content.IH [of c' t'] rows by simp
  ultimately show ?case
    using Content rows by (auto simp: split_rows_content cons_row_def clean_Cons)
qed (auto simp: split_rows_break)

text \<open>Every row but the last ends in a terminator; the last has none.\<close>

fun terminated :: "row list \<Rightarrow> bool" where
  "terminated [] = False"
| "terminated [(c, t)] = (t = [])"
| "terminated ((c, t) # r # rs) = (t \<in> set terminators \<and> terminated (r # rs))"

lemma terminated_cons_row: "terminated rows \<Longrightarrow> terminated (cons_row c rows)"
  by (induction rows rule: terminated.induct) (auto simp: cons_row_def)

lemma split_rows_terminated: "terminated (split_rows s)"
proof (induction s rule: rows_induct)
  case (Content c cs)
  then show ?case by (simp add: split_rows_content terminated_cons_row)
next
  case (Break s)
  then show ?case
    by (cases "split_rows (drop (line_break_width s) s)")
       (auto simp: split_rows_break break_is_terminator)
qed simp

lemma terminators_not_Nil: "t \<in> set terminators \<Longrightarrow> t \<noteq> []"
  by (auto simp: terminators_def)

lemma terminated_last: "terminated rows \<Longrightarrow> i < length rows \<Longrightarrow>
  (if Suc i = length rows then snd (rows ! i) = [] else snd (rows ! i) \<in> set terminators)"
proof (induction rows arbitrary: i rule: terminated.induct)
  case (3 c t r rs)
  then show ?case by (cases i) auto
qed auto

text \<open>Cutting the text at the start of a row leaves the remaining rows.\<close>

lemma split_rows_tl:
  assumes "split_rows s = r # rs" and "rs \<noteq> []"
  shows "split_rows (drop (row_len r) s) = rs"
  using assms
proof (induction s arbitrary: r rule: rows_induct)
  case (Content c cs)
  obtain r' rs' where rows: "split_rows cs = r' # rs'"
    by (cases "split_rows cs") auto
  then show ?case using Content
    by (auto simp: split_rows_content cons_row_def row_len_def)
next
  case (Break s)
  then show ?case by (auto simp: split_rows_break row_len_def line_break_width_le min_absorb2)
qed simp

definition row_start :: "string \<Rightarrow> nat \<Rightarrow> nat" where
  "row_start s n = sum_list (take n (map row_len (split_rows s)))"

lemma row_start_0 [simp]: "row_start s 0 = 0"
  by (simp add: row_start_def)

lemma row_start_end [simp]: "length (split_rows s) \<le> n \<Longrightarrow> row_start s n = length s"
  by (simp add: row_start_def sum_row_len)

lemma row_start_Suc:
  "n < length (split_rows s) \<Longrightarrow> row_start s (Suc n) = row_start s n + row_len (split_rows s ! n)"
  by (simp add: row_start_def sum_list_take_Suc del: take_Suc_Cons)

lemma row_start_le: "row_start s n \<le> length s"
  by (metis row_start_def sum_list_take_le sum_row_len)

lemma row_start_mono: "m \<le> n \<Longrightarrow> row_start s m \<le> row_start s n"
  unfolding row_start_def
  by (metis le_add_diff_inverse take_add sum_list_append le_add1)

lemma row_start_concat: "row_start s n = length (concat (take n (map row_bytes (split_rows s))))"
  unfolding row_start_def concat_take_length by (simp add: comp_def row_len_bytes)

lemma split_rows_drop:
  "n < length (split_rows s) \<Longrightarrow> split_rows (drop (row_start s n) s) = drop n (split_rows s)"
proof (induction n)
  case (Suc n)
  then have IH: "split_rows (drop (row_start s n) s) = drop n (split_rows s)"
    and n: "n < length (split_rows s)" by simp_all
  from n have "drop n (split_rows s) = split_rows s ! n # drop (Suc n) (split_rows s)"
    by (rule Cons_nth_drop_Suc [symmetric])
  with IH have "split_rows (drop (row_len (split_rows s ! n)) (drop (row_start s n) s))
      = drop (Suc n) (split_rows s)"
    using Suc.prems split_rows_tl [of "drop (row_start s n) s"] by simp
  with n show ?case by (simp add: row_start_Suc add.commute)
qed simp

lemma take_row_start: "take (row_start s n) s = concat (take n (map row_bytes (split_rows s)))"
  by (metis (no_types) append_eq_conv_conj append_take_drop_id concat_append concat_split_rows row_start_concat)

lemma drop_row_start: "drop (row_start s n) s = concat (drop n (map row_bytes (split_rows s)))"
  by (metis (no_types) append_eq_conv_conj append_take_drop_id concat_append concat_split_rows row_start_concat)

subsection \<open>What the chunk probe decides\<close>

lemma probe_complete:
  assumes "at < length window" and "\<not> bp_incomplete (probe_break window at)"
  shows "line_break_width (drop at window @ t) = bp_width (probe_break window at)"
proof -
  obtain b bs where d: "drop at window = b # bs" "window ! at = b"
    using assms(1) by (metis Cons_nth_drop_Suc)
  have len: "length window = at + Suc (length bs)"
    using d(1) by (metis assms(1) add_diff_inverse_nat length_Cons length_drop less_imp_le_nat not_le)
  have n1: "window ! (at + 1) = hd bs" if "bs \<noteq> []"
    using d(1) that by (metis drop_eq_Cons_conv hd_drop_conv_nth Suc_eq_plus1 drop_eq_Nil not_le)
  have n2: "window ! (at + 2) = hd (tl bs)" if "tl bs \<noteq> []"
    using d(1) that by (metis add_2_eq_Suc' drop_Suc drop_eq_Nil hd_drop_conv_nth list.sel(3) not_le tl_drop)
  show ?thesis
    using assms(2) n1 n2
    by (cases bs; cases "tl bs")
       (auto simp: probe_break_def Let_def d len line_break_width_def split: list.splits if_splits)
qed

lemma probe_incomplete:
  assumes "at < length window" and "bp_incomplete (probe_break window at)"
  shows "drop at window \<in> {[CHR 0x0D], [CHR 0xC2], [CHR 0xE2], [CHR 0xE2, CHR 0x80]}"
proof -
  obtain b bs where d: "drop at window = b # bs" "window ! at = b"
    using assms(1) by (metis Cons_nth_drop_Suc)
  have len: "length window = at + Suc (length bs)"
    using d(1) by (metis assms(1) add_diff_inverse_nat length_Cons length_drop less_imp_le_nat not_le)
  have n1: "window ! (at + 1) = hd bs" if "bs \<noteq> []"
    using d(1) that by (metis drop_eq_Cons_conv hd_drop_conv_nth Suc_eq_plus1 drop_eq_Nil not_le)
  show ?thesis
    using assms(2) n1
    by (cases bs; cases "tl bs") (auto simp: probe_break_def Let_def d len split: if_splits)
qed

end
