(* ===== verification/Text_LineIndex.thy ===== *)
theory Text_LineIndex
  imports Text_LineBreak
begin

text \<open>
  \<^verbatim>\<open>textedit/src/line_index.cpp\<close>: the immutable line layout of a text and its two coordinate
  maps. The index is a record of the two data members; each method is a function of it, and
  the calls that throw return an \<^verbatim>\<open>out_of_range\<close> value.
\<close>

record text_position =
  tp_line :: nat
  tp_column :: nat

definition text_pos :: "nat \<Rightarrow> nat \<Rightarrow> text_position" where
  "text_pos l c = \<lparr>tp_line = l, tp_column = c\<rparr>"

lemma text_pos_sel [simp]: "tp_line (text_pos l c) = l" "tp_column (text_pos l c) = c"
  by (simp_all add: text_pos_def)

lemma text_pos_surj: "text_pos (tp_line p) (tp_column p) = p"
  by (simp add: text_pos_def)

record line_index =
  li_byte_count :: nat
  li_line_starts :: "nat list"

function line_starts_loop :: "string \<Rightarrow> nat \<Rightarrow> nat list \<Rightarrow> nat list" where
  "line_starts_loop rest offset starts =
     (if rest = [] then starts
      else let width = line_break_width rest in
        if width = 0 then line_starts_loop (tl rest) (offset + 1) starts
        else line_starts_loop (drop width rest) (offset + width) (starts @ [offset + width]))"
  by pat_completeness auto
termination
  by (relation "measure (\<lambda>(rest, _, _). length rest)") auto

declare line_starts_loop.simps [simp del]

definition LineIndex :: "string \<Rightarrow> line_index" where
  "LineIndex text = \<lparr>li_byte_count = length text, li_line_starts = line_starts_loop text 0 [0]\<rparr>"

definition byte_count :: "line_index \<Rightarrow> nat" where
  "byte_count idx = li_byte_count idx"

definition line_count :: "line_index \<Rightarrow> nat" where
  "line_count idx = length (li_line_starts idx)"

definition line_start :: "line_index \<Rightarrow> nat \<Rightarrow> nat result" where
  "line_start idx line =
     (if line < length (li_line_starts idx) then Inr (li_line_starts idx ! line)
      else Inl (OutOfRange ''vector::at''))"

definition line_byte_count :: "line_index \<Rightarrow> nat \<Rightarrow> nat result" where
  "line_byte_count idx line =
     and_then (line_start idx line) (\<lambda>start.
       let finish = (if line = length (li_line_starts idx) - 1 then li_byte_count idx
                   else li_line_starts idx ! (line + 1))
       in Inr (finish - start))"

text \<open>\<^verbatim>\<open>std::upper_bound\<close> on a sorted range: the number of elements not above the value.\<close>

definition upper_bound :: "nat list \<Rightarrow> nat \<Rightarrow> nat" where
  "upper_bound xs v = length (takeWhile (\<lambda>x. x \<le> v) xs)"

definition position_at :: "line_index \<Rightarrow> nat \<Rightarrow> text_position result" where
  "position_at idx offset =
     (if offset > li_byte_count idx \<or> li_line_starts idx = [] then
        Inl (OutOfRange ''byte offset is outside the indexed text'')
      else
        let line = upper_bound (li_line_starts idx) offset - 1
        in Inr (text_pos line (offset - li_line_starts idx ! line)))"

definition offset_at :: "line_index \<Rightarrow> text_position \<Rightarrow> nat result" where
  "offset_at idx position =
     and_then (line_byte_count idx (tp_line position)) (\<lambda>count.
       let final_line = (tp_line position = length (li_line_starts idx) - 1) in
       if tp_column position > count \<or> (tp_column position = count \<and> \<not> final_line) then
         Inl (OutOfRange ''byte column is outside the indexed line'')
       else Inr (li_line_starts idx ! tp_line position + tp_column position))"

section \<open>The index lists the row starts\<close>

lemma row_start_content:
  assumes "line_break_width (c # cs) = 0" "0 < n"
  shows "row_start (c # cs) n = Suc (row_start cs n)"
proof -
  obtain r rs where "split_rows cs = r # rs" by (cases "split_rows cs") auto
  with assms show ?thesis
    by (cases n) (simp_all add: row_start_def split_rows_content cons_row_def row_len_def)
qed

lemma row_start_break:
  "line_break_width s \<noteq> 0 \<Longrightarrow>
   row_start s (Suc n) = line_break_width s + row_start (drop (line_break_width s) s) n"
  by (simp add: row_start_def split_rows_break row_len_def line_break_width_le min_absorb2)

lemma line_starts_loop_rows:
  "line_starts_loop s off acc = acc @ map (\<lambda>n. off + row_start s (Suc n)) [0..<length (split_rows s) - 1]"
proof (induction s arbitrary: off acc rule: rows_induct)
  case Nil
  then show ?case by (simp add: line_starts_loop.simps)
next
  case (Content c cs)
  then show ?case
    by (simp add: line_starts_loop.simps [of "c # cs"] row_start_content)
       (simp add: split_rows_content cons_row_def)
next
  case (Break s)
  then have s: "s \<noteq> []" by auto
  let ?s = "drop (line_break_width s) s"
  obtain r rs where rows: "split_rows ?s = r # rs" by (cases "split_rows ?s") auto
  show ?case
    using Break s rows
    by (simp add: line_starts_loop.simps [of s] split_rows_break map_upt_Suc row_start_break add.assoc Let_def
             del: upt_Suc)
qed

lemma LineIndex_starts [row_simps]:
  "li_line_starts (LineIndex s) = map (row_start s) [0..<length (split_rows s)]"
proof -
  obtain m where m: "length (split_rows s) = Suc m" by (cases "split_rows s") auto
  show ?thesis
    unfolding m by (simp add: LineIndex_def line_starts_loop_rows m map_upt_Suc del: upt_Suc)
qed

lemma LineIndex_bytes [simp]: "li_byte_count (LineIndex s) = length s"
  by (simp add: LineIndex_def)

lemma line_count_LineIndex [row_simps]: "line_count (LineIndex s) = length (split_rows s)"
  by (simp add: line_count_def LineIndex_starts)

lemma line_start_LineIndex [row_simps]:
  "line_start (LineIndex s) n =
     (if n < length (split_rows s) then Inr (row_start s n) else Inl (OutOfRange ''vector::at''))"
  by (simp add: line_start_def LineIndex_starts)

lemma line_byte_count_LineIndex [row_simps]:
  "n < length (split_rows s) \<Longrightarrow> line_byte_count (LineIndex s) n = Inr (row_len (split_rows s ! n))"
proof -
  assume n: "n < length (split_rows s)"
  note start = row_start_Suc [OF n]
  show ?thesis
  proof (cases "Suc n < length (split_rows s)")
    case True
    then have "n \<noteq> length (split_rows s) - 1" by simp
    with True n start show ?thesis
      by (simp add: line_byte_count_def line_start_LineIndex LineIndex_starts Let_def)
  next
    case False
    with n have "n = length (split_rows s) - 1" by simp
    moreover have "length s = row_start s n + row_len (split_rows s ! n)"
      using False start by simp
    ultimately show ?thesis
      using n by (simp add: line_byte_count_def line_start_LineIndex LineIndex_starts Let_def)
  qed
qed

section \<open>Which row holds an offset\<close>

lemma row_len_pos: "Suc n < length (split_rows s) \<Longrightarrow> 0 < row_len (split_rows s ! n)"
  using terminated_last [OF split_rows_terminated, of n s]
  by (auto simp: row_len_def dest: terminators_not_Nil)

lemma row_start_strict:
  "m < n \<Longrightarrow> n < length (split_rows s) \<Longrightarrow> row_start s m < row_start s n"
proof (induction n)
  case (Suc n)
  have "row_start s n < row_start s (Suc n)"
    using Suc.prems row_len_pos [of n s] by (simp add: row_start_Suc)
  with Suc show ?case by (cases "m = n") auto
qed simp

definition in_row :: "string \<Rightarrow> nat \<Rightarrow> nat \<Rightarrow> bool" where
  "in_row s n off \<longleftrightarrow> n < length (split_rows s) \<and> row_start s n \<le> off \<and> off \<le> length s \<and>
     (Suc n < length (split_rows s) \<longrightarrow> off < row_start s (Suc n))"

lemma in_row_unique: "in_row s m off \<Longrightarrow> in_row s n off \<Longrightarrow> m = n"
proof (induction m n rule: linorder_wlog)
  case (le m n)
  show ?case
  proof (rule ccontr)
    assume "m \<noteq> n"
    with le have "Suc m \<le> n" by simp
    with le(3) have "row_start s (Suc m) \<le> off"
      using row_start_mono [of "Suc m" n s] by (simp add: in_row_def)
    moreover have "Suc m < length (split_rows s)"
      using le(3) \<open>Suc m \<le> n\<close> by (simp add: in_row_def)
    ultimately show False using le(2) by (simp add: in_row_def)
  qed
qed simp

lemma upper_bound_in_row:
  assumes "off \<le> length s"
  shows "in_row s (upper_bound (map (row_start s) [0..<length (split_rows s)]) off - 1) off"
proof -
  let ?xs = "map (row_start s) [0..<length (split_rows s)]"
  let ?k = "upper_bound ?xs off"
  have "0 < length (split_rows s)" by simp
  then have pos: "0 < ?k"
    by (simp add: upper_bound_def upt_conv_Cons)
  have le: "?k \<le> length (split_rows s)"
    unfolding upper_bound_def using length_takeWhile_le [of _ ?xs] by simp
  have k: "?k - 1 < length (takeWhile (\<lambda>x. x \<le> off) ?xs)"
    using pos by (simp add: upper_bound_def)
  have "?xs ! (?k - 1) \<le> off"
    using takeWhile_nth [OF k] set_takeWhileD [OF nth_mem [OF k]] by simp
  moreover have "off < row_start s ?k" if "?k < length (split_rows s)"
    using nth_length_takeWhile [of "\<lambda>x. x \<le> off" ?xs] that by (simp add: upper_bound_def)
  ultimately show ?thesis
    using assms pos le by (cases ?k) (auto simp: in_row_def)
qed

lemma position_at_in_row:
  assumes "in_row s n off"
  shows "position_at (LineIndex s) off = Inr (text_pos n (off - row_start s n))"
proof -
  have off: "off \<le> length s" and n: "n < length (split_rows s)" using assms by (simp_all add: in_row_def)
  have "upper_bound (map (row_start s) [0..<length (split_rows s)]) off - 1 = n"
    using in_row_unique [OF upper_bound_in_row [OF off] assms] .
  with off n show ?thesis
    by (simp add: position_at_def LineIndex_starts Let_def)
qed

lemma in_row_exists: "off \<le> length s \<Longrightarrow> \<exists>n. in_row s n off"
  using upper_bound_in_row by blast

lemma offset_at_in_row:
  assumes "n < length (split_rows s)"
  shows "offset_at (LineIndex s) (text_pos n col) =
    (if in_row s n (row_start s n + col) then Inr (row_start s n + col)
     else Inl (OutOfRange ''byte column is outside the indexed line''))"
proof -
  note start = row_start_Suc [OF assms]
  show ?thesis
  proof (cases "Suc n < length (split_rows s)")
    case True
    then have "(in_row s n (row_start s n + col)) = (col < row_len (split_rows s ! n))"
      using assms start row_start_le [of s "Suc n"] by (auto simp: in_row_def)
    moreover from True have "n \<noteq> length (split_rows s) - 1" by simp
    ultimately show ?thesis
      using assms by (auto simp add: offset_at_def line_byte_count_LineIndex LineIndex_starts Let_def)
  next
    case False
    then have "length s = row_start s n + row_len (split_rows s ! n)"
      using start by simp
    then have "(in_row s n (row_start s n + col)) = (col \<le> row_len (split_rows s ! n))"
      using False assms by (simp add: in_row_def del: row_start_end)
    moreover from False assms have "n = length (split_rows s) - 1" by simp
    ultimately show ?thesis
      using assms by (simp add: offset_at_def line_byte_count_LineIndex LineIndex_starts Let_def)
  qed
qed

section \<open>Coordinate interface\<close>

text \<open>
  What the coordinate maps of an indexed text promise: inverse bijections between the offsets
  up to and including end of file and the accepted coordinates.
\<close>

locale coordinate_index =
  fixes size :: nat
    and to_pos :: "nat \<Rightarrow> text_position result"
    and to_off :: "text_position \<Rightarrow> nat result"
  assumes to_pos_total: "off \<le> size \<Longrightarrow> \<exists>p. to_pos off = Inr p \<and> to_off p = Inr off"
    and to_off_sound: "to_off p = Inr off \<Longrightarrow> off \<le> size \<and> to_pos off = Inr p"
    and to_pos_bounded: "to_pos off = Inr p \<Longrightarrow> off \<le> size"
begin

lemma coordinates_biject:
  "bij_betw (\<lambda>off. projr (to_pos off)) {off. off \<le> size} {p. \<exists>off. to_off p = Inr off}"
proof (rule bij_betw_byWitness [where f' = "\<lambda>p. projr (to_off p)"])
  show "\<forall>off\<in>{off. off \<le> size}. projr (to_off (projr (to_pos off))) = off"
    using to_pos_total by fastforce
  show "\<forall>p\<in>{p. \<exists>off. to_off p = Inr off}. projr (to_pos (projr (to_off p))) = p"
    using to_off_sound by fastforce
  show "(\<lambda>off. projr (to_pos off)) ` {off. off \<le> size} \<subseteq> {p. \<exists>off. to_off p = Inr off}"
    using to_pos_total by fastforce
  show "(\<lambda>p. projr (to_off p)) ` {p. \<exists>off. to_off p = Inr off} \<subseteq> {off. off \<le> size}"
    using to_off_sound by fastforce
qed

lemma to_pos_inj: "to_pos a = Inr p \<Longrightarrow> to_pos b = Inr p \<Longrightarrow> a = b"
  using to_pos_total [of a] to_pos_total [of b] to_pos_bounded by (metis Inr_inject)

end

interpretation index_coords: coordinate_index "length s" "position_at (LineIndex s)" "offset_at (LineIndex s)"
proof
  fix off
  assume "off \<le> length s"
  then obtain n where n: "in_row s n off" using in_row_exists by blast
  then have "n < length (split_rows s)" "row_start s n \<le> off" by (simp_all add: in_row_def)
  with n show "\<exists>p. position_at (LineIndex s) off = Inr p \<and> offset_at (LineIndex s) p = Inr off"
    by (simp add: position_at_in_row offset_at_in_row)
next
  fix p off
  assume off: "offset_at (LineIndex s) p = Inr off"
  then have line: "tp_line p < length (split_rows s)"
    by (auto simp: offset_at_def line_byte_count_def line_start_LineIndex and_then_eq_Inr split: if_splits)
  then have "in_row s (tp_line p) off" "off = row_start s (tp_line p) + tp_column p"
    using off offset_at_in_row [OF line, of "tp_column p"]
    by (auto simp: text_pos_surj split: if_splits)
  then show "off \<le> length s \<and> position_at (LineIndex s) off = Inr p"
    using position_at_in_row [of s "tp_line p" off] by (auto simp: in_row_def text_pos_surj)
next
  fix off p
  assume "position_at (LineIndex s) off = Inr p"
  then show "off \<le> length s" by (auto simp: position_at_def split: if_splits)
qed

section \<open>Properties\<close>

text \<open>
  The coordinates of a line index are a bijection: every byte offset of the text,
  end of file included, has exactly one coordinate, and \<^const>\<open>offset_at\<close> accepts exactly those
  coordinates and inverts \<^const>\<open>position_at\<close>.
\<close>

theorem line_index_bijection:
  "bij_betw (\<lambda>off. projr (position_at (LineIndex s) off)) {off. off \<le> length s}
     {p. \<exists>off. offset_at (LineIndex s) p = Inr off} \<and>
   (\<forall>p off. (offset_at (LineIndex s) p = Inr off) = (position_at (LineIndex s) off = Inr p))"
proof (intro conjI allI)
  show "bij_betw (\<lambda>off. projr (position_at (LineIndex s) off)) {off. off \<le> length s}
     {p. \<exists>off. offset_at (LineIndex s) p = Inr off}"
    by (rule index_coords.coordinates_biject)
  show "(offset_at (LineIndex s) p = Inr off) = (position_at (LineIndex s) off = Inr p)" for p off
    using index_coords.to_off_sound index_coords.to_pos_total index_coords.to_pos_bounded
    by (metis Inr_inject)
qed

end
