(* ===== verification/Text_Display.thy ===== *)
theory Text_Display
  imports Prelude
begin

text \<open>
  \<^verbatim>\<open>textedit/src/display.hpp\<close>: the writer that renders raw bytes as valid UTF-8 within a byte
  budget. The model keeps the five data members as a record and follows the byte loop of
  \<^verbatim>\<open>append\<close>. The specification side is independent of that loop: the UTF-8 encoding of Unicode
  scalar values.
\<close>

section \<open>Scalar recognition\<close>

definition lead_width :: "nat \<Rightarrow> nat" where
  "lead_width first =
     (if 0xC2 \<le> first \<and> first \<le> 0xDF then 2
      else if 0xE0 \<le> first \<and> first \<le> 0xEF then 3
      else if 0xF0 \<le> first \<and> first \<le> 0xF4 then 4
      else 1)"

definition bad_continuation :: "nat \<Rightarrow> nat \<Rightarrow> nat \<Rightarrow> bool" where
  "bad_continuation first index byte \<longleftrightarrow>
     byte < 0x80 \<or> byte > 0xBF \<or>
     (index = 1 \<and> first = 0xE0 \<and> byte < 0xA0) \<or>
     (index = 1 \<and> first = 0xED \<and> byte > 0x9F) \<or>
     (index = 1 \<and> first = 0xF0 \<and> byte < 0x90) \<or>
     (index = 1 \<and> first = 0xF4 \<and> byte > 0x8F)"

text \<open>Width and validity of the scalar at the front of a nonempty source suffix.\<close>

definition scalar_at :: "string \<Rightarrow> nat \<times> bool" where
  "scalar_at source =
     (let first = byte_val (hd source) in
      if first < 0x80 then (1, True)
      else let width = lead_width first in
        (width,
         width > 1 \<and> length source \<ge> width \<and>
         list_all (\<lambda>index. \<not> bad_continuation first index (byte_val (source ! index))) [1..<width]))"

lemma scalar_at_width: "1 \<le> fst (scalar_at s)" "fst (scalar_at s) \<le> 4"
  by (auto simp: scalar_at_def lead_width_def Let_def)

lemma scalar_at_pos [simp]: "0 < fst (scalar_at s)"
  using scalar_at_width(1) [of s] by simp

lemma scalar_at_valid_length: "s \<noteq> [] \<Longrightarrow> snd (scalar_at s) \<Longrightarrow> fst (scalar_at s) \<le> length s"
  by (cases s) (auto simp: scalar_at_def Let_def)

text \<open>The classification reads at most four bytes.\<close>

lemma scalar_at_take:
  assumes "4 \<le> n"
  shows "scalar_at (take n s) = scalar_at s"
proof (cases s)
  case (Cons c cs)
  have hd: "hd (take n s) = hd s" using assms Cons by (cases n) auto
  have four: "lead_width v \<le> 4" for v by (simp add: lead_width_def)
  have "(length (take n s) \<ge> lead_width v) = (length s \<ge> lead_width v)" for v
    using assms order_trans [OF four, of n v] by auto
  moreover have "list_all (\<lambda>i. \<not> bad_continuation v i (byte_val (take n s ! i))) [1..<lead_width v] =
      list_all (\<lambda>i. \<not> bad_continuation v i (byte_val (s ! i))) [1..<lead_width v]" for v
    by (rule list.pred_cong) (use assms four [of v] in auto)
  ultimately show ?thesis
    unfolding scalar_at_def hd Let_def by simp
qed simp

section \<open>The writer\<close>

record display_writer =
  dw_budget :: nat
  dw_output :: string
  dw_consumed :: nat
  dw_truncated :: bool
  dw_replaced :: bool

definition DisplayWriter :: "nat \<Rightarrow> display_writer" where
  "DisplayWriter budget =
     \<lparr>dw_budget = budget, dw_output = [], dw_consumed = 0, dw_truncated = False, dw_replaced = False\<rparr>"

definition replacement :: string where
  "replacement = [CHR 0xEF, CHR 0xBF, CHR 0xBD]"

function dw_append :: "string \<Rightarrow> display_writer \<Rightarrow> display_writer" where
  "dw_append source w =
     (if source = [] then w
      else let width = fst (scalar_at source); valid = snd (scalar_at source);
               emitted = (if valid then width else 3) in
        if emitted > dw_budget w - length (dw_output w) then w\<lparr>dw_truncated := True\<rparr>
        else if valid then
          dw_append (drop width source)
            (w\<lparr>dw_output := dw_output w @ take width source, dw_consumed := dw_consumed w + width\<rparr>)
        else
          dw_append (drop 1 source)
            (w\<lparr>dw_output := dw_output w @ replacement, dw_replaced := True,
               dw_consumed := dw_consumed w + 1\<rparr>))"
  by pat_completeness auto
termination
  by (relation "measure (\<lambda>(source, _). length source)") auto

declare dw_append.simps [simp del]

definition hex_digit :: "nat \<Rightarrow> char" where
  "hex_digit d = ''0123456789ABCDEF'' ! d"

definition hex_escape :: "char \<Rightarrow> string" where
  "hex_escape c = [CHR 0x5C, CHR ''x'', hex_digit (byte_val c div 16), hex_digit (byte_val c mod 16)]"

definition dw_append_hex :: "string \<Rightarrow> display_writer \<Rightarrow> display_writer" where
  "dw_append_hex source w =
     (let fits = min (length source) ((dw_budget w - length (dw_output w)) div 4) in
      w\<lparr>dw_output := dw_output w @ concat (map hex_escape (take fits source)),
        dw_truncated := (dw_truncated w \<or> fits \<noteq> length source),
        dw_consumed := dw_consumed w + fits\<rparr>)"

definition dw_mark_truncated :: "display_writer \<Rightarrow> display_writer" where
  "dw_mark_truncated w = w\<lparr>dw_truncated := True\<rparr>"

section \<open>The budget invariant\<close>

definition within_budget :: "display_writer \<Rightarrow> bool" where
  "within_budget w \<longleftrightarrow> length (dw_output w) \<le> dw_budget w"

lemma within_budget_new [simp]: "within_budget (DisplayWriter b)"
  by (simp add: within_budget_def DisplayWriter_def)

lemma dw_append_budget [simp]: "dw_budget (dw_append s w) = dw_budget w"
  by (induction s w rule: dw_append.induct) (simp add: dw_append.simps Let_def)

lemma dw_append_within_budget: "within_budget w \<Longrightarrow> within_budget (dw_append s w)"
proof (induction s w rule: dw_append.induct)
  case (1 source w)
  show ?case
  proof (cases "source = []")
    case True
    with 1 show ?thesis by (simp add: dw_append.simps)
  next
    case False
    with 1 scalar_at_valid_length [OF False] show ?thesis
      by (subst dw_append.simps)
         (auto simp: Let_def within_budget_def replacement_def not_less min_absorb2)
  qed
qed

lemma dw_append_hex_within_budget: "within_budget w \<Longrightarrow> within_budget (dw_append_hex s w)"
proof -
  assume w: "within_budget w"
  let ?room = "dw_budget w - length (dw_output w)"
  let ?fits = "min (length s) (?room div 4)"
  have "length (dw_output (dw_append_hex s w)) = length (dw_output w) + ?fits * 4"
    by (simp add: dw_append_hex_def Let_def hex_escape_def length_concat comp_def sum_list_triv)
  also have "\<dots> \<le> length (dw_output w) + ?room" by (simp add: min_def) arith
  also have "\<dots> = dw_budget w" using w by (simp add: within_budget_def)
  finally show ?thesis
    by (simp add: within_budget_def dw_append_hex_def Let_def)
qed

section \<open>UTF-8 as a specification\<close>

definition scalar_value :: "nat \<Rightarrow> bool" where
  "scalar_value cp \<longleftrightarrow> cp < 0xD800 \<or> (0xE000 \<le> cp \<and> cp < 0x110000)"

definition utf8_encode :: "nat \<Rightarrow> string" where
  "utf8_encode cp = map char_of
     (if cp < 0x80 then [cp]
      else if cp < 0x800 then [0xC0 + cp div 64, 0x80 + cp mod 64]
      else if cp < 0x10000 then
        [0xE0 + cp div 4096, 0x80 + cp div 64 mod 64, 0x80 + cp mod 64]
      else
        [0xF0 + cp div 262144, 0x80 + cp div 4096 mod 64, 0x80 + cp div 64 mod 64, 0x80 + cp mod 64])"

definition utf8_text :: "string \<Rightarrow> bool" where
  "utf8_text s \<longleftrightarrow> (\<exists>cps. list_all scalar_value cps \<and> s = concat (map utf8_encode cps))"


lemma width_upts [simp]:
  "[Suc 0..<2] = [1]" "[Suc 0..<3] = [1, 2]" "[Suc 0..<4] = [1, 2, 3]"
  by (simp_all add: upt_rec)

lemma base64_digits2: "(n::nat) = n div 4096 * 4096 + n div 64 mod 64 * 64 + n mod 64"
proof -
  have "n div 64 = n div 64 div 64 * 64 + n div 64 mod 64" by simp
  moreover have "n div 64 div 64 = n div 4096" by (simp add: div_mult2_eq [symmetric])
  moreover have "n = n div 64 * 64 + n mod 64" by simp
  ultimately show ?thesis by linarith
qed

lemma base64_digits3:
  "(n::nat) = n div 262144 * 262144 + n div 4096 mod 64 * 4096 + n div 64 mod 64 * 64 + n mod 64"
proof -
  have "n div 4096 = n div 4096 div 64 * 64 + n div 4096 mod 64" by simp
  moreover have "n div 4096 div 64 = n div 262144" by (simp add: div_mult2_eq [symmetric])
  ultimately show ?thesis using base64_digits2 [of n] by linarith
qed

lemma scalar_at_encode:
  assumes "scalar_value cp"
  shows "scalar_at (utf8_encode cp @ rest) = (length (utf8_encode cp), True)"
proof -
  consider "cp < 0x80" | "0x80 \<le> cp" "cp < 0x800" | "0x800 \<le> cp" "cp < 0x10000" | "0x10000 \<le> cp"
    by linarith
  then show ?thesis
  proof cases
    case 1
    then show ?thesis by (simp add: utf8_encode_def scalar_at_def)
  next
    case 2
    define a where "a = cp div 64"
    define b where "b = cp mod 64"
    have "cp = a * 64 + b" "b < 64" unfolding a_def b_def by presburger+
    with 2 have "2 \<le> a" "a < 32" by linarith+
    with 2 \<open>b < 64\<close> show ?thesis
      unfolding utf8_encode_def a_def [symmetric] b_def [symmetric]
      by (auto simp: scalar_at_def lead_width_def bad_continuation_def Let_def)
  next
    case 3
    define a where "a = cp div 4096"
    define b where "b = cp div 64 mod 64"
    have cp: "cp = a * 4096 + b * 64 + cp mod 64" unfolding a_def b_def by (rule base64_digits2)
    have "b < 64" "cp mod 64 < 64" by (simp_all add: b_def)
    with 3 cp have "a < 16" by linarith
    note \<open>a < 16\<close> \<open>b < 64\<close> \<open>cp mod 64 < 64\<close>
    moreover have "a = 0 \<Longrightarrow> 32 \<le> b" using 3 cp \<open>cp mod 64 < 64\<close> by linarith
    moreover have "a = 13 \<Longrightarrow> b < 32" using assms cp \<open>cp mod 64 < 64\<close> \<open>b < 64\<close>
      unfolding scalar_value_def by linarith
    ultimately show ?thesis
      using 3 unfolding utf8_encode_def a_def [symmetric] b_def [symmetric]
      by (auto simp: scalar_at_def lead_width_def bad_continuation_def Let_def)
  next
    case 4
    define a where "a = cp div 262144"
    define b where "b = cp div 4096 mod 64"
    define c where "c = cp div 64 mod 64"
    have cp: "cp = a * 262144 + b * 4096 + c * 64 + cp mod 64"
      unfolding a_def b_def c_def by (rule base64_digits3)
    have lt: "b < 64" "c < 64" "cp mod 64 < 64" by (simp_all add: b_def c_def)
    have "a < 5" using assms 4 cp lt unfolding scalar_value_def by linarith
    note lt this
    moreover have "a = 0 \<Longrightarrow> 16 \<le> b" using 4 cp lt by linarith
    moreover have "a = 4 \<Longrightarrow> b < 16" using assms cp lt 4
      unfolding scalar_value_def by linarith
    ultimately show ?thesis
      using 4 unfolding utf8_encode_def a_def [symmetric] b_def [symmetric] c_def [symmetric]
      by (auto simp: scalar_at_def lead_width_def bad_continuation_def Let_def)
  qed
qed



lemma char_of_byte: "byte_val c = n \<Longrightarrow> c = char_of n"
  by auto

lemma encode_of_bytes2:
  assumes "byte_val a = 0xC0 + x" "2 \<le> x" "x < 32" "byte_val b = 0x80 + y" "y < 64"
  shows "[a, b] = utf8_encode (x * 64 + y) \<and> scalar_value (x * 64 + y)"
proof -
  from assms have "(x * 64 + y) div 64 = x" "(x * 64 + y) mod 64 = y" by auto
  moreover from assms have "\<not> x * 64 + y < 0x80" "x * 64 + y < 0x800" by linarith+
  ultimately show ?thesis
    using assms by (simp add: utf8_encode_def scalar_value_def char_of_byte)
qed

lemma encode_of_bytes3:
  assumes "byte_val a = 0xE0 + x" "x < 16" "byte_val b = 0x80 + y" "y < 64" "byte_val c = 0x80 + z" "z < 64"
    and "x = 0 \<Longrightarrow> 32 \<le> y" and "x = 13 \<Longrightarrow> y < 32"
  shows "[a, b, c] = utf8_encode (x * 4096 + y * 64 + z) \<and> scalar_value (x * 4096 + y * 64 + z)"
proof -
  let ?cp = "x * 4096 + y * 64 + z"
  have "?cp = z + (x * 64 + y) * 64" by simp
  then have d: "?cp div 64 = x * 64 + y" "?cp mod 64 = z"
    using assms by (simp_all only: div_mult_self1 mod_mult_self1) auto
  have e: "?cp div 4096 = x" using d(1) assms div_mult2_eq [of ?cp 64 64] by simp
  have "?cp div 64 mod 64 = y" using d(1) assms by simp
  moreover have "\<not> ?cp < 0x800" using assms by (cases "x = 0") linarith+
  moreover have "?cp < 0x10000" using assms by linarith
  moreover have "scalar_value ?cp"
    unfolding scalar_value_def using assms by (cases "x = 13"; cases "x < 13") linarith+
  ultimately show ?thesis
    using assms d e by (simp add: utf8_encode_def char_of_byte)
qed

lemma encode_of_bytes4:
  assumes "byte_val a = 0xF0 + x" "x < 5" "byte_val b = 0x80 + y" "y < 64" "byte_val c = 0x80 + z" "z < 64"
    and "byte_val d = 0x80 + v" "v < 64" and "x = 0 \<Longrightarrow> 16 \<le> y" and "x = 4 \<Longrightarrow> y < 16"
  shows "[a, b, c, d] = utf8_encode (x * 262144 + y * 4096 + z * 64 + v) \<and>
         scalar_value (x * 262144 + y * 4096 + z * 64 + v)"
proof -
  let ?cp = "x * 262144 + y * 4096 + z * 64 + v"
  have "?cp = v + (x * 4096 + y * 64 + z) * 64" by simp
  then have d: "?cp div 64 = x * 4096 + y * 64 + z" "?cp mod 64 = v"
    using assms by (simp_all only: div_mult_self1 mod_mult_self1) auto
  have "x * 4096 + y * 64 + z = z + (x * 64 + y) * 64" by simp
  then have e: "?cp div 64 mod 64 = z" using d(1) assms by (simp only: mod_mult_self1) auto
  have f: "?cp div 4096 = x * 64 + y" using d(1) assms div_mult2_eq [of ?cp 64 64] by simp
  have "?cp div 4096 mod 64 = y" using f assms by simp
  moreover have "?cp div 262144 = x" using f assms div_mult2_eq [of ?cp 4096 64] by simp
  moreover have "\<not> ?cp < 0x10000" using assms by (cases "x = 0") linarith+
  moreover have "scalar_value ?cp"
    unfolding scalar_value_def using assms by (cases "x = 0"; cases "x = 4") linarith+
  ultimately show ?thesis
    using assms d e by (simp add: utf8_encode_def char_of_byte)
qed

lemma cont_byte: "\<not> bad_continuation first i byte \<Longrightarrow> \<exists>y < 64. byte = 0x80 + y"
  by (rule exI [of _ "byte - 0x80"]) (auto simp: bad_continuation_def)

lemma scalar_at_sound:
  assumes "s \<noteq> []" and "snd (scalar_at s)"
  shows "\<exists>cp. scalar_value cp \<and> take (fst (scalar_at s)) s = utf8_encode cp"
proof -
  obtain a r where s: "s = a # r" using assms(1) by (cases s) auto
  let ?w = "lead_width (byte_val a)"
  show ?thesis
  proof (cases "byte_val a < 0x80")
    case True
    then have "scalar_value (byte_val a) \<and> take (fst (scalar_at s)) s = utf8_encode (byte_val a)"
      by (simp add: s scalar_at_def utf8_encode_def scalar_value_def)
    then show ?thesis by blast
  next
    case False
    then have v: "1 < ?w" "?w \<le> length s" and fst: "fst (scalar_at s) = ?w"
      and ok: "i \<in> {1..<?w} \<Longrightarrow> \<not> bad_continuation (byte_val a) i (byte_val (s ! i))" for i
      using assms(2) by (auto simp: s scalar_at_def Let_def list_all_iff)
    from v(1) consider "?w = 2" | "?w = 3" | "?w = 4" by (auto simp: lead_width_def split: if_splits)
    then show ?thesis
    proof cases
      case 1
      then obtain b q where r: "r = b # q" using v s by (cases r) auto
      obtain y where y: "y < 64" "byte_val b = 0x80 + y" using cont_byte [OF ok [of 1]] 1 s r by auto
      from 1 have "0xC2 \<le> byte_val a" "byte_val a \<le> 0xDF" by (auto simp: lead_width_def split: if_splits)
      then have "byte_val a = 0xC0 + (byte_val a - 0xC0)" "2 \<le> byte_val a - 0xC0" "byte_val a - 0xC0 < 32"
        by linarith+
      from encode_of_bytes2 [OF this y(2,1)] show ?thesis using 1 fst s r by auto
    next
      case 2
      then obtain b c q where r: "r = b # c # q" using v s by (cases r; cases "tl r") auto
      obtain y where y: "y < 64" "byte_val b = 0x80 + y" using cont_byte [OF ok [of 1]] 2 s r by auto
      obtain z where z: "z < 64" "byte_val c = 0x80 + z" using cont_byte [OF ok [of 2]] 2 s r by auto
      from 2 have "0xE0 \<le> byte_val a" "byte_val a \<le> 0xEF" by (auto simp: lead_width_def split: if_splits)
      then have a: "byte_val a = 0xE0 + (byte_val a - 0xE0)" "byte_val a - 0xE0 < 16" by linarith+
      have "byte_val a - 0xE0 = 0 \<Longrightarrow> 32 \<le> y" "byte_val a - 0xE0 = 13 \<Longrightarrow> y < 32"
        using ok [of 1] 2 s r y a(1) by (auto simp: bad_continuation_def)
      from encode_of_bytes3 [OF a y(2,1) z(2,1) this] show ?thesis using 2 fst s r by auto
    next
      case 3
      then obtain b c d q where r: "r = b # c # d # q"
        using v s by (cases r; cases "tl r"; cases "tl (tl r)") auto
      obtain y where y: "y < 64" "byte_val b = 0x80 + y" using cont_byte [OF ok [of 1]] 3 s r by auto
      obtain z where z: "z < 64" "byte_val c = 0x80 + z" using cont_byte [OF ok [of 2]] 3 s r by auto
      obtain x where x: "x < 64" "byte_val d = 0x80 + x" using cont_byte [OF ok [of 3]] 3 s r by auto
      from 3 have "0xF0 \<le> byte_val a" "byte_val a \<le> 0xF4" by (auto simp: lead_width_def split: if_splits)
      then have a: "byte_val a = 0xF0 + (byte_val a - 0xF0)" "byte_val a - 0xF0 < 5" by linarith+
      have "byte_val a - 0xF0 = 0 \<Longrightarrow> 16 \<le> y" "byte_val a - 0xF0 = 4 \<Longrightarrow> y < 16"
        using ok [of 1] 3 s r y a(1) by (auto simp: bad_continuation_def)
      from encode_of_bytes4 [OF a y(2,1) z(2,1) x(2,1) this] show ?thesis using 3 fst s r by auto
    qed
  qed
qed


section \<open>What the writer emits\<close>

lemma utf8_text_Nil [simp]: "utf8_text []"
  by (auto simp: utf8_text_def intro: exI [of _ "[]"])

lemma utf8_text_append: "utf8_text a \<Longrightarrow> utf8_text b \<Longrightarrow> utf8_text (a @ b)"
  unfolding utf8_text_def by (metis concat_append list_all_append map_append)

lemma utf8_text_encode: "scalar_value cp \<Longrightarrow> utf8_text (utf8_encode cp)"
  by (auto simp: utf8_text_def intro: exI [of _ "[cp]"])

lemma utf8_text_ascii: "list_all (\<lambda>c. byte_val c < 0x80) s \<Longrightarrow> utf8_text s"
proof (induction s)
  case (Cons c s)
  then have "utf8_encode (byte_val c) = [c]" "scalar_value (byte_val c)"
    by (simp_all add: utf8_encode_def scalar_value_def)
  with Cons utf8_text_append [of "[c]" s] utf8_text_encode [of "byte_val c"] show ?case by simp
qed simp

lemma utf8_text_replacement [simp]: "utf8_text replacement"
proof -
  have "[CHR 0xEF, CHR 0xBF, CHR 0xBD] = utf8_encode (15 * 4096 + 63 * 64 + 61) \<and>
      scalar_value (15 * 4096 + 63 * 64 + 61)"
    by (rule encode_of_bytes3) simp_all
  then show ?thesis unfolding replacement_def using utf8_text_encode by metis
qed

lemma utf8_text_scalar:
  "s \<noteq> [] \<Longrightarrow> snd (scalar_at s) \<Longrightarrow> utf8_text (take (fst (scalar_at s)) s)"
  using scalar_at_sound utf8_text_encode by metis

lemma utf8_text_cases:
  assumes "utf8_text s" "s \<noteq> []"
  shows "snd (scalar_at s) \<and> utf8_text (drop (fst (scalar_at s)) s)"
proof -
  obtain cps where cps: "list_all scalar_value cps" "s = concat (map utf8_encode cps)"
    using assms(1) by (auto simp: utf8_text_def)
  with assms(2) obtain cp r where "cps = cp # r" by (cases cps) auto
  with cps show ?thesis
    using scalar_at_encode [of cp "concat (map utf8_encode r)"] by (auto simp: utf8_text_def)
qed

lemma dw_append_induct [case_names Nil Full Valid Invalid]:
  fixes w :: display_writer
  assumes "\<And>w. P [] w"
    and "\<And>s w. s \<noteq> [] \<Longrightarrow>
      (if snd (scalar_at s) then fst (scalar_at s) else 3) > dw_budget w - length (dw_output w) \<Longrightarrow> P s w"
    and "\<And>s w. s \<noteq> [] \<Longrightarrow> snd (scalar_at s) \<Longrightarrow> fst (scalar_at s) \<le> dw_budget w - length (dw_output w) \<Longrightarrow>
      P (drop (fst (scalar_at s)) s)
        (w\<lparr>dw_output := dw_output w @ take (fst (scalar_at s)) s,
           dw_consumed := dw_consumed w + fst (scalar_at s)\<rparr>) \<Longrightarrow> P s w"
    and "\<And>s w. s \<noteq> [] \<Longrightarrow> \<not> snd (scalar_at s) \<Longrightarrow> 3 \<le> dw_budget w - length (dw_output w) \<Longrightarrow>
      P (drop 1 s)
        (w\<lparr>dw_output := dw_output w @ replacement, dw_replaced := True,
           dw_consumed := dw_consumed w + 1\<rparr>) \<Longrightarrow> P s w"
  shows "P s w"
proof (induction s w rule: dw_append.induct)
  case (1 s w)
  show ?case
  proof (cases "s = []")
    case True
    with assms(1) show ?thesis by simp
  next
    case False
    show ?thesis
      using 1 [OF False refl refl refl] assms(2-4) [OF False, of w]
      by (cases "snd (scalar_at s)"; cases "fst (scalar_at s) \<le> dw_budget w - length (dw_output w)";
          cases "3 \<le> dw_budget w - length (dw_output w)") (simp_all add: not_le)
  qed
qed

text \<open>One step of the byte loop, for each way it can go.\<close>

lemma dw_append_Nil [simp]: "dw_append [] w = w"
  by (simp add: dw_append.simps)

lemma dw_append_full:
  "s \<noteq> [] \<Longrightarrow> (if snd (scalar_at s) then fst (scalar_at s) else 3) > dw_budget w - length (dw_output w) \<Longrightarrow>
   dw_append s w = w\<lparr>dw_truncated := True\<rparr>"
  by (subst dw_append.simps) (simp add: Let_def)

lemma dw_append_valid:
  "s \<noteq> [] \<Longrightarrow> snd (scalar_at s) \<Longrightarrow> fst (scalar_at s) \<le> dw_budget w - length (dw_output w) \<Longrightarrow>
   dw_append s w = dw_append (drop (fst (scalar_at s)) s)
     (w\<lparr>dw_output := dw_output w @ take (fst (scalar_at s)) s,
        dw_consumed := dw_consumed w + fst (scalar_at s)\<rparr>)"
  by (subst dw_append.simps) (simp add: Let_def)

lemma dw_append_invalid:
  "s \<noteq> [] \<Longrightarrow> \<not> snd (scalar_at s) \<Longrightarrow> 3 \<le> dw_budget w - length (dw_output w) \<Longrightarrow>
   dw_append s w = dw_append (drop 1 s)
     (w\<lparr>dw_output := dw_output w @ replacement, dw_replaced := True,
        dw_consumed := dw_consumed w + 1\<rparr>)"
  by (subst dw_append.simps) (simp add: Let_def)

lemmas dw_append_steps = dw_append_full dw_append_valid dw_append_invalid

lemma dw_append_utf8: "utf8_text (dw_output w) \<Longrightarrow> utf8_text (dw_output (dw_append s w))"
  by (induction s w rule: dw_append_induct)
     (simp_all add: dw_append_steps utf8_text_append utf8_text_scalar)

lemma dw_append_exact:
  "utf8_text s \<Longrightarrow> length s \<le> dw_budget w - length (dw_output w) \<Longrightarrow>
   dw_append s w = w\<lparr>dw_output := dw_output w @ s, dw_consumed := dw_consumed w + length s\<rparr>"
proof (induction s w rule: dw_append_induct)
  case (Full s w)
  then show ?case using utf8_text_cases [of s] scalar_at_valid_length [of s] by auto
next
  case (Valid s w)
  then show ?case
    using utf8_text_cases [of s] scalar_at_valid_length [of s] by (simp add: dw_append_valid)
next
  case (Invalid s w)
  then show ?case using utf8_text_cases [of s] by simp
qed simp

lemma dw_append_replaced_mono: "dw_replaced w \<Longrightarrow> dw_replaced (dw_append s w)"
  by (induction s w rule: dw_append_induct) (simp_all add: dw_append_steps)

lemma dw_append_truncated_mono: "dw_truncated w \<Longrightarrow> dw_truncated (dw_append s w)"
  by (induction s w rule: dw_append_induct) (simp_all add: dw_append_steps)

lemma dw_append_room:
  "3 * length s \<le> dw_budget w - length (dw_output w) \<Longrightarrow> dw_truncated (dw_append s w) = dw_truncated w"
proof (induction s w rule: dw_append_induct)
  case (Full s w)
  then show ?case using scalar_at_valid_length [of s] by (cases s) (auto split: if_splits)
next
  case (Valid s w)
  then show ?case
    using scalar_at_valid_length [of s] by (simp add: dw_append_valid)
next
  case (Invalid s w)
  then show ?case by (cases s) (simp_all add: dw_append_invalid replacement_def)
qed simp

lemma dw_append_not_replaced:
  "\<not> dw_replaced (dw_append s w) \<Longrightarrow> \<not> dw_truncated (dw_append s w) \<Longrightarrow>
   utf8_text s \<and> dw_output (dw_append s w) = dw_output w @ s"
proof (induction s w rule: dw_append_induct)
  case (Full s w)
  then show ?case by (simp add: dw_append_full)
next
  case (Valid s w)
  then have IH: "utf8_text (drop (fst (scalar_at s)) s)"
      "dw_output (dw_append s w) = (dw_output w @ take (fst (scalar_at s)) s) @ drop (fst (scalar_at s)) s"
    by (simp_all add: dw_append_valid)
  then show ?case
    using utf8_text_append [OF utf8_text_scalar [OF Valid(1,2)] IH(1)] by simp
next
  case (Invalid s w)
  then show ?case by (simp add: dw_append_invalid dw_append_replaced_mono)
qed simp

text \<open>The emitted text is at least as long as the source bytes it stands for.\<close>

lemma dw_append_consumed:
  "dw_consumed (dw_append s w) + length (dw_output w) \<le> dw_consumed w + length (dw_output (dw_append s w))"
proof (induction s w rule: dw_append_induct)
  case (Valid s w)
  then show ?case
    using scalar_at_valid_length [of s] by (simp add: dw_append_valid min_absorb2)
next
  case (Invalid s w)
  then show ?case by (simp add: dw_append_invalid replacement_def)
qed (simp_all add: dw_append_full)

lemma dw_append_all_consumed:
  "\<not> dw_truncated (dw_append s w) \<Longrightarrow> dw_consumed (dw_append s w) = dw_consumed w + length s"
proof (induction s w rule: dw_append_induct)
  case (Valid s w)
  then show ?case using scalar_at_valid_length [of s] by (simp add: dw_append_valid)
next
  case (Invalid s w)
  then show ?case by (cases s) (simp_all add: dw_append_invalid)
qed (simp_all add: dw_append_full)

lemma dw_append_overflow:
  "within_budget w \<Longrightarrow> dw_budget w < length (dw_output w) + length s \<Longrightarrow> dw_truncated (dw_append s w)"
  using dw_append_all_consumed [of s w] dw_append_consumed [of s w] dw_append_within_budget [of w s]
  unfolding within_budget_def by fastforce

text \<open>
  Bytes that lie beyond the room left, plus the three lookahead bytes of a scalar, cannot
  change what is written.
\<close>

lemma dw_append_take:
  "dw_budget w - length (dw_output w) + 3 \<le> n \<Longrightarrow> dw_append (take n s) w = dw_append s w"
proof (induction s w arbitrary: n rule: dw_append_induct)
  case (Full s w)
  have ne: "take n s \<noteq> []" using Full by (cases n) auto
  show ?case
  proof (cases "4 \<le> n")
    case True
    then have sc: "scalar_at (take n s) = scalar_at s" by (rule scalar_at_take)
    show ?thesis
      using dw_append_full [OF Full(1,2)] dw_append_full [OF ne, of w, unfolded sc, OF Full(2)] by simp
  next
    case False
    with Full have room: "dw_budget w - length (dw_output w) = 0" by simp
    have "dw_budget w - length (dw_output w) < (if snd (scalar_at (take n s)) then fst (scalar_at (take n s)) else 3)"
      by (simp add: room)
    from dw_append_full [OF ne this] dw_append_full [OF Full(1,2)] show ?thesis by simp
  qed
next
  case (Valid s w)
  have "4 \<le> n" using Valid scalar_at_width(1) [of s] by simp
  then have sc: "scalar_at (take n s) = scalar_at s" by (rule scalar_at_take)
  have ne: "take n s \<noteq> []" using Valid by (cases n) auto
  have w4: "fst (scalar_at s) \<le> n" using \<open>4 \<le> n\<close> scalar_at_width(2) [of s] by simp
  have IH: "dw_append (take (n - fst (scalar_at s)) (drop (fst (scalar_at s)) s))
        (w\<lparr>dw_output := dw_output w @ take (fst (scalar_at s)) s,
           dw_consumed := dw_consumed w + fst (scalar_at s)\<rparr>) = dw_append s w"
    using Valid scalar_at_valid_length [of s] by (simp add: dw_append_valid min_absorb2)
  show ?case
    using Valid ne sc w4 IH by (simp add: dw_append_valid [of "take n s"] drop_take min_absorb1)
next
  case (Invalid s w)
  have "4 \<le> n" using Invalid by simp
  then have sc: "scalar_at (take n s) = scalar_at s" by (rule scalar_at_take)
  have ne: "take n s \<noteq> []" using Invalid by (cases n) auto
  have IH: "dw_append (take (n - 1) (drop 1 s))
        (w\<lparr>dw_output := dw_output w @ replacement, dw_replaced := True,
           dw_consumed := dw_consumed w + 1\<rparr>) = dw_append s w"
    using Invalid by (simp add: dw_append_invalid replacement_def)
  show ?case
    using Invalid ne sc IH by (simp add: dw_append_invalid [of "take n s"] drop_take)
qed simp

section \<open>Properties\<close>

text \<open>
  Whatever bytes are appended in whatever pieces, the writer's text is well-formed UTF-8
  (a concatenation of encoded Unicode scalar values) and never exceeds the budget.
\<close>

theorem display_output_safe:
  "utf8_text (dw_output (fold dw_append pieces (DisplayWriter budget))) \<and>
   length (dw_output (fold dw_append pieces (DisplayWriter budget))) \<le> budget"
proof -
  have "utf8_text (dw_output (fold dw_append pieces w)) \<and> within_budget (fold dw_append pieces w) \<and>
      dw_budget (fold dw_append pieces w) = dw_budget w"
    if "utf8_text (dw_output w)" "within_budget w" for w
    using that
    by (induction pieces arbitrary: w) (simp_all add: dw_append_utf8 dw_append_within_budget)
  from this [of "DisplayWriter budget"] show ?thesis
    by (simp add: within_budget_def DisplayWriter_def)
qed

text \<open>
  With room for the worst case the writer reports a replacement exactly when the source
  is not well-formed UTF-8, and it copies a well-formed source unchanged.
\<close>

theorem display_replacement_exact:
  assumes "3 * length source \<le> budget"
  shows "(dw_replaced (dw_append source (DisplayWriter budget)) = (\<not> utf8_text source)) \<and>
    (\<not> dw_truncated (dw_append source (DisplayWriter budget))) \<and>
    (utf8_text source \<longrightarrow> dw_output (dw_append source (DisplayWriter budget)) = source)"
proof -
  let ?w = "dw_append source (DisplayWriter budget)"
  have new: "dw_output (DisplayWriter budget) = []" "dw_budget (DisplayWriter budget) = budget"
      "\<not> dw_truncated (DisplayWriter budget)" "\<not> dw_replaced (DisplayWriter budget)"
    by (simp_all add: DisplayWriter_def)
  have nt: "\<not> dw_truncated ?w"
    using dw_append_room [of source "DisplayWriter budget"] assms by (simp add: new)
  have "utf8_text source \<Longrightarrow> \<not> dw_replaced ?w \<and> dw_output ?w = source"
    using dw_append_exact [of source "DisplayWriter budget"] assms by (simp add: new)
  with nt dw_append_not_replaced [of source "DisplayWriter budget"] show ?thesis by blast
qed

theorem display_replacement_exact_witness:
  "3 * length [CHR 0xC3, CHR 0x28] \<le> 6 \<and>
   dw_replaced (dw_append [CHR 0xC3, CHR 0x28] (DisplayWriter 6)) = (\<not> utf8_text [CHR 0xC3, CHR 0x28])"
  using display_replacement_exact [of "[CHR 0xC3, CHR 0x28]" 6] by simp

end
