(* ===== verification/Text_Read.thy ===== *)
theory Text_Read
  imports Text_LineIndex Text_Display
begin

text \<open>
  \<^verbatim>\<open>textedit/src/read.cpp\<close> and \<^verbatim>\<open>textedit/src/bounded_read.cpp\<close>: line and byte selections of
  a text held in memory, once rendered whole and once through the bounded
  \<^const>\<open>DisplayWriter\<close>. Both are proved against the logical rows of the text.
\<close>

section \<open>Results and formats\<close>

datatype line_read_format = PlainLines | LineIndexed | ByteRange | OtherLineFormat int

datatype byte_read_format = PlainBytes | HexEscaped | OtherByteFormat int

record read_result =
  rr_text :: string
  rr_total_bytes :: nat
  rr_total_lines :: nat
  rr_start_byte :: nat
  rr_end_byte :: nat
  rr_reached_end :: bool

record line_read_result = read_result +
  lr_start_line :: nat
  lr_lines_read :: nat

record bounded_read_result = read_result +
  br_output_truncated :: bool
  br_display_replaced :: bool

record bounded_line_read_result = bounded_read_result +
  bl_start_line :: nat
  bl_lines_read :: nat

definition known_line_format :: "line_read_format \<Rightarrow> bool" where
  "known_line_format format \<longleftrightarrow> format = PlainLines \<or> format = LineIndexed \<or> format = ByteRange"

definition known_byte_format :: "byte_read_format \<Rightarrow> bool" where
  "known_byte_format format \<longleftrightarrow> format = PlainBytes \<or> format = HexEscaped"

section \<open>Whole selections\<close>

fun strip_first :: "string list \<Rightarrow> string \<Rightarrow> string" where
  "strip_first [] line = line"
| "strip_first (ending # endings) line =
     (if ends_with line ending then take (length line - length ending) line
      else strip_first endings line)"

definition without_terminator :: "string \<Rightarrow> string" where
  "without_terminator line = strip_first terminators line"

definition append_index :: "string \<Rightarrow> nat \<Rightarrow> nat \<Rightarrow> string" where
  "append_index output value width =
     (let digits = to_string value
      in output @ replicate (width - length digits) CHR '' '' @ digits)"

fun read_lines_loop ::
  "line_index \<Rightarrow> string \<Rightarrow> line_read_format \<Rightarrow> nat \<Rightarrow> nat \<Rightarrow> nat list \<Rightarrow> string \<Rightarrow> string result" where
  "read_lines_loop index text format width start_line [] output = Inr output"
| "read_lines_loop index text format width start_line (line # lines) output =
     and_then (line_start index line) (\<lambda>start.
     and_then (line_byte_count index line) (\<lambda>count.
       let output1 = (if line \<noteq> start_line then output @ [CHR 0x0A] else output);
           output2 = (if format = LineIndexed then append_index output1 line width
                      else append_index (append_index (output1 @ ''['') start width @ '':'')
                             (start + count) width @ '']'');
           output3 = output2 @ '' | '' @ without_terminator (substr text start count)
       in read_lines_loop index text format width start_line lines output3))"

definition read_lines ::
  "string \<Rightarrow> nat \<Rightarrow> nat \<Rightarrow> line_read_format \<Rightarrow> line_read_result result" where
  "read_lines text start_line n_lines format =
     (if \<not> known_line_format format then Inl (InvalidArgument ''unknown line read format'')
      else let index = LineIndex text in
        if start_line > line_count index then
          Inl (OutOfRange ''start line is beyond the indexed text'')
        else
          let lines_read = min n_lines (line_count index - start_line);
              end_line = start_line + lines_read in
          and_then (if start_line = line_count index then Inr (length text)
                    else line_start index start_line) (\<lambda>start_byte.
          and_then (if end_line = line_count index then Inr (length text)
                    else line_start index end_line) (\<lambda>end_byte.
            let result = \<lparr>rr_text = [], rr_total_bytes = length text,
                          rr_total_lines = line_count index, rr_start_byte = start_byte,
                          rr_end_byte = end_byte, rr_reached_end = (end_line = line_count index),
                          lr_start_line = start_line, lr_lines_read = lines_read\<rparr> in
            if lines_read = 0 then Inr result
            else if format = PlainLines then
              Inr (result\<lparr>rr_text := substr text start_byte (end_byte - start_byte)\<rparr>)
            else
              let width = length (to_string (if format = LineIndexed then end_line - 1 else end_byte)) in
              and_then (read_lines_loop index text format width start_line
                          [start_line..<end_line] []) (\<lambda>output.
                Inr (result\<lparr>rr_text := output\<rparr>)))))"

text \<open>\<^verbatim>\<open>max_size\<close> stands for \<^verbatim>\<open>std::string::max_size()\<close>, which the implementation chooses.\<close>

definition read_bytes ::
  "nat \<Rightarrow> string \<Rightarrow> nat \<Rightarrow> nat \<Rightarrow> byte_read_format \<Rightarrow> read_result result" where
  "read_bytes max_size text start_byte n_bytes format =
     (if \<not> known_byte_format format then Inl (InvalidArgument ''unknown byte read format'')
      else if start_byte > length text then Inl (OutOfRange ''start byte is beyond the input'')
      else
        let count = min n_bytes (length text - start_byte);
            selected = substr text start_byte count;
            result = \<lparr>rr_text = [], rr_total_bytes = length text,
                      rr_total_lines = count_lines text, rr_start_byte = start_byte,
                      rr_end_byte = start_byte + count,
                      rr_reached_end = (start_byte + count = length text)\<rparr> in
        if format = PlainBytes then Inr (result\<lparr>rr_text := selected\<rparr>)
        else if count > max_size div 4 then
          Inl (LengthError ''hexadecimal byte output is too large'')
        else Inr (result\<lparr>rr_text := concat (map hex_escape selected)\<rparr>))"

section \<open>Bounded selections\<close>

function line_start_loop :: "string \<Rightarrow> nat \<Rightarrow> nat \<Rightarrow> nat \<Rightarrow> nat" where
  "line_start_loop rest offset line target =
     (if rest = [] then offset
      else let width = line_break_width rest;
               step = (if width = 0 then 1 else width) in
        if width \<noteq> 0 \<and> line + 1 = target then offset + step
        else line_start_loop (drop step rest) (offset + step)
               (if width \<noteq> 0 then line + 1 else line) target)"
  by pat_completeness auto
termination
  by (relation "measure (\<lambda>(rest, _, _, _). length rest)") auto

declare line_start_loop.simps [simp del]

text \<open>
  At the end of the text the loop offset is \<^verbatim>\<open>text.size()\<close>, the value the source returns.
\<close>

definition line_start_at :: "string \<Rightarrow> nat \<Rightarrow> nat" where
  "line_start_at text target = (if target = 0 then 0 else line_start_loop text 0 0 target)"

fun find_line_end_loop :: "string \<Rightarrow> nat \<Rightarrow> nat \<times> nat" where
  "find_line_end_loop [] offset = (offset, offset)"
| "find_line_end_loop (c # cs) offset =
     (let width = line_break_width (c # cs) in
      if width \<noteq> 0 then (offset, offset + width) else find_line_end_loop cs (offset + 1))"

definition find_line_end :: "string \<Rightarrow> nat \<Rightarrow> nat \<times> nat" where
  "find_line_end text start = find_line_end_loop (drop start text) start"

definition padded :: "nat \<Rightarrow> nat \<Rightarrow> string" where
  "padded number width =
     (let digits = to_string number in replicate (width - length digits) CHR '' '' @ digits)"

fun bounded_lines_loop ::
  "string \<Rightarrow> line_read_format \<Rightarrow> nat \<Rightarrow> nat \<Rightarrow> nat \<Rightarrow> nat list \<Rightarrow> display_writer \<Rightarrow> display_writer" where
  "bounded_lines_loop text format width start_line offset [] writer = writer"
| "bounded_lines_loop text format width start_line offset (line # lines) writer =
     (let (content_end, next_start) = find_line_end text offset;
          writer1 = (if line \<noteq> start_line then dw_append [CHR 0x0A] writer else writer) in
      if dw_truncated writer1 then writer1
      else
        let label = (if format = LineIndexed then padded line width @ '' | ''
                     else ''['' @ padded offset width @ '':'' @ padded next_start width @ ''] | '');
            writer2 = dw_append label writer1 in
        if dw_truncated writer2 then writer2
        else
          let writer3 = dw_append (substr text offset (content_end - offset)) writer2 in
          if dw_truncated writer3 then writer3
          else bounded_lines_loop text format width start_line next_start lines writer3)"

definition read_lines_bounded ::
  "string \<Rightarrow> nat \<Rightarrow> nat \<Rightarrow> line_read_format \<Rightarrow> nat \<Rightarrow> bounded_line_read_result result" where
  "read_lines_bounded text start_line n_lines format output_bytes =
     (if \<not> known_line_format format then Inl (InvalidArgument ''unknown line read format'')
      else let total_lines = count_lines text in
        if start_line > total_lines then
          Inl (OutOfRange ''start line is beyond the indexed text'')
        else
          let lines_read = min n_lines (total_lines - start_line);
              end_line = start_line + lines_read;
              start_byte = line_start_at text start_line;
              end_byte = line_start_at text end_line;
              writer =
                (if lines_read \<noteq> 0 then
                   (if format = PlainLines then
                      dw_append (substr text start_byte (end_byte - start_byte)) (DisplayWriter output_bytes)
                    else
                      bounded_lines_loop text format
                        (length (to_string (if format = LineIndexed then end_line - 1 else end_byte)))
                        start_line start_byte [start_line..<end_line] (DisplayWriter output_bytes))
                 else DisplayWriter output_bytes)
          in Inr \<lparr>rr_text = dw_output writer, rr_total_bytes = length text,
                  rr_total_lines = total_lines, rr_start_byte = start_byte,
                  rr_end_byte = end_byte, rr_reached_end = (end_line = total_lines),
                  br_output_truncated = dw_truncated writer,
                  br_display_replaced = dw_replaced writer,
                  bl_start_line = start_line, bl_lines_read = lines_read\<rparr>)"

definition read_bytes_bounded ::
  "string \<Rightarrow> nat \<Rightarrow> nat \<Rightarrow> byte_read_format \<Rightarrow> nat \<Rightarrow> bounded_read_result result" where
  "read_bytes_bounded text start_byte n_bytes format output_bytes =
     (if \<not> known_byte_format format then Inl (InvalidArgument ''unknown byte read format'')
      else if start_byte > length text then Inl (OutOfRange ''start byte is beyond the input'')
      else
        let end_byte = start_byte + min n_bytes (length text - start_byte);
            selected = substr text start_byte (end_byte - start_byte);
            writer = (if format = HexEscaped then dw_append_hex selected (DisplayWriter output_bytes)
                      else dw_append selected (DisplayWriter output_bytes))
        in Inr \<lparr>rr_text = dw_output writer, rr_total_bytes = length text,
                rr_total_lines = count_lines text, rr_start_byte = start_byte,
                rr_end_byte = end_byte, rr_reached_end = (end_byte = length text),
                br_output_truncated = dw_truncated writer,
                br_display_replaced = dw_replaced writer\<rparr>)"


section \<open>The helpers compute the rows\<close>

lemma strip_first_not: "(\<And>e. e \<in> set endings \<Longrightarrow> \<not> ends_with line e) \<Longrightarrow> strip_first endings line = line"
  by (induction endings) auto

lemma clean_not_ends:
  assumes "clean c" "t \<in> set terminators"
  shows "\<not> ends_with c t"
proof
  assume "ends_with c t"
  then obtain a where "c = a @ t" by (auto simp: ends_with_iff_suffix suffix_def)
  with assms(1) have "line_break_width t = 0" using clean_suffix_width by blast
  with assms(2) show False by (auto simp: terminators_def line_break_width_def)
qed

lemma ends_with_snoc:
  "ends_with (s @ [x]) [y] \<longleftrightarrow> x = y"
  "ends_with (s @ [x]) (p @ [y]) \<longleftrightarrow> x = y \<and> ends_with s p"
  by (auto simp: ends_with_iff_suffix)

lemma without_terminator_row:
  assumes "clean c" and "t = [] \<or> t \<in> set terminators"
  shows "without_terminator (c @ t) = c"
  using assms(2)
proof
  assume "t = []"
  then show ?thesis using assms(1) clean_not_ends by (simp add: without_terminator_def strip_first_not)
next
  assume t: "t \<in> set terminators"
  have no_cr: "\<not> ends_with c [CHR 0x0D]"
    using assms(1) by (intro clean_not_ends) (simp_all add: terminators_def)
  have snoc2: "[a, b] = [a] @ [b]" and snoc3: "[a, b, d] = [a, b] @ [d]" for a b d :: char
    by simp_all
  have one: "ends_with (c @ [x]) [y] \<longleftrightarrow> x = y" for x y
    by (rule ends_with_snoc)
  have two: "ends_with (c @ [x]) [a, b] \<longleftrightarrow> x = b \<and> ends_with c [a]" for x a b
    using ends_with_snoc(2) [of c x "[a]" b] by simp
  have three: "ends_with (c @ [x]) [a, b, d] \<longleftrightarrow> x = d \<and> ends_with c [a, b]" for x a b d
    using ends_with_snoc(2) [of c x "[a, b]" d] by simp
  have one': "ends_with (c @ [v, x]) [y] \<longleftrightarrow> x = y" for v x y
    using ends_with_snoc(1) [of "c @ [v]" x y] by simp
  have two': "ends_with (c @ [v, x]) [a, b] \<longleftrightarrow> x = b \<and> v = a" for v x a b
    using ends_with_snoc(2) [of "c @ [v]" x "[a]" b] one by simp
  have one'': "ends_with (c @ [u, v, x]) [y] \<longleftrightarrow> x = y" for u v x y
    using ends_with_snoc(1) [of "c @ [u, v]" x y] by simp
  have two'': "ends_with (c @ [u, v, x]) [a, b] \<longleftrightarrow> x = b \<and> v = a" for u v x a b
    using ends_with_snoc(2) [of "c @ [u, v]" x "[a]" b] one' by simp
  have three'': "ends_with (c @ [u, v, x]) [a, b, d] \<longleftrightarrow> x = d \<and> v = b \<and> u = a" for u v x a b d
    using ends_with_snoc(2) [of "c @ [u, v]" x "[a, b]" d] two' by simp
  show ?thesis
    using t no_cr
    by (auto simp: terminators_def without_terminator_def one two three one' two' one'' two'' three'')
qed

lemma find_line_end_loop_rows:
  "find_line_end_loop s off =
     (off + length (fst (hd (split_rows s))), off + row_len (hd (split_rows s)))"
proof (induction s off rule: find_line_end_loop.induct)
  case (2 c cs off)
  show ?case
  proof (cases "line_break_width (c # cs) = 0")
    case True
    with 2 show ?thesis
      by (cases "split_rows cs") (auto simp: split_rows_content cons_row_def row_len_def)
  next
    case False
    then show ?thesis
      using line_break_width_le [of "c # cs"]
      by (simp add: Let_def split_rows_break row_len_def min_absorb2)
  qed
qed (simp add: row_len_def)

lemma find_line_end_rows:
  assumes "n < length (split_rows s)"
  shows "find_line_end s (row_start s n) =
    (row_start s n + length (fst (split_rows s ! n)), row_start s (Suc n))"
  using assms
  by (simp add: find_line_end_def find_line_end_loop_rows split_rows_drop row_start_Suc hd_drop_conv_nth)

lemma line_start_loop_rows:
  "line < target \<Longrightarrow>
   line_start_loop s off line target = off + row_start s (target - line)"
proof (induction s arbitrary: off line rule: rows_induct)
  case Nil
  then show ?case by (cases "target - line") (simp_all add: line_start_loop.simps row_start_def)
next
  case (Content c cs)
  then show ?case
    by (simp add: line_start_loop.simps [of "c # cs"] row_start_content)
next
  case (Break s)
  let ?w = "line_break_width s"
  have s: "s \<noteq> []" using Break by auto
  obtain k where k: "target - line = Suc k" using Break.prems by (metis Suc_diff_Suc)
  show ?case
  proof (cases "line + 1 = target")
    case True
    with k have "k = 0" by simp
    with True Break k s show ?thesis
      by (simp add: line_start_loop.simps [of s] Let_def row_start_break)
  next
    case False
    with Break.prems have "line + 1 < target" by simp
    then have IH: "line_start_loop (drop ?w s) (off + ?w) (line + 1) target =
        off + ?w + row_start (drop ?w s) (target - (line + 1))"
      by (rule Break.IH)
    have "target - (line + 1) = k" using k by simp
    with IH Break.hyps k s False show ?thesis
      by (simp add: line_start_loop.simps [of s] Let_def row_start_break)
  qed
qed

lemma line_start_at_rows [row_simps]: "line_start_at s n = row_start s n"
  by (simp add: line_start_at_def line_start_loop_rows)

lemma append_index_padded: "append_index out v w = out @ padded v w"
  by (simp add: append_index_def padded_def Let_def)

lemma substr_row:
  assumes "n < length (split_rows s)"
  shows "substr s (row_start s n) (row_len (split_rows s ! n)) = row_bytes (split_rows s ! n)"
    and "substr s (row_start s n) (length (fst (split_rows s ! n))) = fst (split_rows s ! n)"
proof -
  have "drop n (map row_bytes (split_rows s)) =
      row_bytes (split_rows s ! n) # drop (Suc n) (map row_bytes (split_rows s))"
    using assms Cons_nth_drop_Suc [of n "map row_bytes (split_rows s)"] by simp
  then have d: "drop (row_start s n) s =
      row_bytes (split_rows s ! n) @ concat (drop (Suc n) (map row_bytes (split_rows s)))"
    by (simp add: drop_row_start)
  show "substr s (row_start s n) (row_len (split_rows s ! n)) = row_bytes (split_rows s ! n)"
    by (simp add: substr_def d row_len_bytes [symmetric])
  show "substr s (row_start s n) (length (fst (split_rows s ! n))) = fst (split_rows s ! n)"
    by (simp add: substr_def d row_bytes_def)
qed

lemma substr_rows:
  "m \<le> n \<Longrightarrow> substr s (row_start s m) (row_start s n - row_start s m) =
     concat (map row_bytes (drop m (take n (split_rows s))))"
proof -
  assume mn: "m \<le> n"
  let ?B = "map row_bytes (split_rows s)"
  have "take n ?B = take m (take n ?B) @ drop m (take n ?B)"
    by (rule append_take_drop_id [symmetric])
  moreover have "take m (take n ?B) = take m ?B" using mn by (simp add: min_absorb1)
  ultimately have "take (row_start s n) s = concat (take m ?B) @ concat (drop m (take n ?B))"
    unfolding take_row_start by (metis concat_append)
  then have "drop (row_start s m) (take (row_start s n) s) = concat (drop m (take n ?B))"
    by (simp add: row_start_concat)
  then show ?thesis by (simp add: substr_def drop_take take_map drop_map)
qed

section \<open>Line selections as rows\<close>

text \<open>The gutter of one displayed row, and the rows a selection displays.\<close>

definition row_label :: "line_read_format \<Rightarrow> nat \<Rightarrow> nat \<Rightarrow> nat \<Rightarrow> nat \<Rightarrow> string" where
  "row_label format width line start next_start =
     (if format = LineIndexed then padded line width @ '' | ''
      else ''['' @ padded start width @ '':'' @ padded next_start width @ ''] | '')"

definition display_row :: "string \<Rightarrow> line_read_format \<Rightarrow> nat \<Rightarrow> nat \<Rightarrow> string" where
  "display_row s format width line =
     row_label format width line (row_start s line) (row_start s (Suc line)) @ fst (split_rows s ! line)"

fun join_lines :: "string list \<Rightarrow> string" where
  "join_lines [] = []"
| "join_lines [x] = x"
| "join_lines (x # y # ys) = x @ [CHR 0x0A] @ join_lines (y # ys)"

definition line_selection :: "string \<Rightarrow> line_read_format \<Rightarrow> nat \<Rightarrow> nat \<Rightarrow> string" where
  "line_selection s format a b =
     (if format = PlainLines then concat (map row_bytes (drop a (take b (split_rows s))))
      else join_lines
        (map (display_row s format
               (length (to_string (if format = LineIndexed then b - 1 else row_start s b))))
             [a..<b]))"

lemma row_terminator_cases:
  assumes "n < length (split_rows s)"
  shows "snd (split_rows s ! n) = [] \<or> snd (split_rows s ! n) \<in> set terminators"
  using terminated_last [OF split_rows_terminated assms] by (auto split: if_splits)

lemma without_terminator_nth:
  assumes "n < length (split_rows s)"
  shows "without_terminator (row_bytes (split_rows s ! n)) = fst (split_rows s ! n)"
proof -
  have "(fst (split_rows s ! n), snd (split_rows s ! n)) \<in> set (split_rows s)"
    using assms by simp
  then have "clean (fst (split_rows s ! n))" by (rule split_rows_clean)
  with row_terminator_cases [OF assms] show ?thesis
    by (simp add: row_bytes_def without_terminator_row)
qed

lemma read_lines_loop_rows:
  "list_all (\<lambda>line. line < length (split_rows s)) lines \<Longrightarrow> format \<noteq> PlainLines \<Longrightarrow>
   read_lines_loop (LineIndex s) s format width start lines out =
     Inr (out @ concat (map (\<lambda>line. (if line \<noteq> start then [CHR 0x0A] else []) @
                               display_row s format width line) lines))"
proof (induction lines arbitrary: out)
  case (Cons line lines)
  then have n: "line < length (split_rows s)" by simp
  show ?case
    using Cons n
    by (simp add: line_start_LineIndex line_byte_count_LineIndex Let_def append_index_padded
        substr_row(1) without_terminator_nth display_row_def row_label_def row_start_Suc)
qed simp

lemma join_lines_Cons:
  "join_lines (x # xs) = x @ concat (map (\<lambda>y. CHR 0x0A # y) xs)"
  by (induction "x # xs" arbitrary: x xs rule: join_lines.induct) auto

lemma joined_range:
  "a < b \<Longrightarrow> concat (map (\<lambda>line. (if line \<noteq> a then [CHR 0x0A] else []) @ f line) [a..<b]) =
     join_lines (map f [a..<b])"
proof -
  assume "a < b"
  then have r: "[a..<b] = a # [Suc a..<b]" by (rule upt_conv_Cons)
  have "map (\<lambda>line. (if line \<noteq> a then [CHR 0x0A] else []) @ f line) [Suc a..<b] =
      map (\<lambda>y. CHR 0x0A # y) (map f [Suc a..<b])"
    by simp
  then have "concat (map (\<lambda>line. (if line \<noteq> a then [CHR 0x0A] else []) @ f line) [Suc a..<b]) =
      concat (map (\<lambda>y. CHR 0x0A # y) (map f [Suc a..<b]))"
    by (rule arg_cong)
  then show ?thesis unfolding r by (simp only: list.map concat.simps join_lines_Cons) simp
qed

lemma line_selection_empty: "b \<le> a \<Longrightarrow> line_selection s format a b = []"
  by (simp add: line_selection_def)

text \<open>The result of a line read, in terms of the rows alone.\<close>

definition selection_end :: "string \<Rightarrow> nat \<Rightarrow> nat \<Rightarrow> nat" where
  "selection_end s start n = start + min n (length (split_rows s) - start)"

lemma read_lines_rows:
  assumes "known_line_format format" "start \<le> length (split_rows s)"
  shows "read_lines s start n format = Inr
    \<lparr>rr_text = line_selection s format start (selection_end s start n),
     rr_total_bytes = length s, rr_total_lines = length (split_rows s),
     rr_start_byte = row_start s start, rr_end_byte = row_start s (selection_end s start n),
     rr_reached_end = (selection_end s start n = length (split_rows s)),
     lr_start_line = start, lr_lines_read = min n (length (split_rows s) - start)\<rparr>"
proof -
  let ?e = "selection_end s start n"
  have e: "?e \<le> length (split_rows s)" "start \<le> ?e" using assms(2) by (auto simp: selection_end_def)
  have sb: "(if start = length (split_rows s) then Inr (length s) else line_start (LineIndex s) start) =
      Inr (row_start s start)"
    using assms(2) by (simp add: line_start_LineIndex)
  have eb: "(if ?e = length (split_rows s) then Inr (length s) else line_start (LineIndex s) ?e) =
      Inr (row_start s ?e)"
    using e by (simp add: line_start_LineIndex)
  have body: "read_lines_loop (LineIndex s) s format width start [start..<?e] [] =
      Inr (join_lines (map (display_row s format width) [start..<?e]))"
    if "format \<noteq> PlainLines" "start < ?e" for width
    using that e read_lines_loop_rows [of s "[start..<?e]" format width start "[]"] joined_range [OF that(2)]
    by (simp add: list_all_iff)
  show ?thesis
  proof (cases "min n (length (split_rows s) - start) = 0")
    case True
    then have "?e = start" by (simp add: selection_end_def)
    then show ?thesis using assms True sb eb
      by (simp add: read_lines_def Let_def line_count_LineIndex line_selection_empty
          selection_end_def [symmetric] line_start_LineIndex)
  next
    case False
    then have "start < ?e" by (simp add: selection_end_def)
    with assms sb eb body substr_rows [OF e(2), of s] False show ?thesis
      by (auto simp: read_lines_def Let_def line_count_LineIndex line_selection_def
          selection_end_def [symmetric])
  qed
qed


section \<open>Bounded rendering of rows\<close>

lemma if_not_swap: "(if a \<noteq> b then x else y) = (if a = b then y else x)"
  by simp


text \<open>
  The display of a list of rows through the writer; \<open>leading\<close> is false once a row
  separator is due. Both the in-memory and the streaming reader are proved to run this.
\<close>

fun render_rows ::
  "line_read_format \<Rightarrow> nat \<Rightarrow> bool \<Rightarrow> nat \<Rightarrow> nat \<Rightarrow> row list \<Rightarrow> display_writer \<Rightarrow> display_writer" where
  "render_rows format width leading line off [] w = w"
| "render_rows format width leading line off (r # rs) w =
     (let w1 = (if leading then w else dw_append [CHR 0x0A] w) in
      if dw_truncated w1 then w1
      else let w2 = dw_append (row_label format width line off (off + row_len r)) w1 in
        if dw_truncated w2 then w2
        else let w3 = dw_append (fst r) w2 in
          if dw_truncated w3 then w3
          else render_rows format width False (Suc line) (off + row_len r) rs w3)"

lemma bounded_lines_loop_rows:
  assumes "start \<le> a" "b \<le> length (split_rows s)"
  shows "bounded_lines_loop s format width start (row_start s a) [a..<b] w =
    render_rows format width (a = start) a (row_start s a) (drop a (take b (split_rows s))) w"
  using assms(1)
proof (induction "b - a" arbitrary: a w)
  case 0
  then show ?case by simp
next
  case (Suc k)
  then have a: "a < b" and n: "a < length (split_rows s)" using assms(2) by simp_all
  have upt: "[a..<b] = a # [Suc a..<b]" using a by (rule upt_conv_Cons)
  have d: "drop a (take b (split_rows s)) = split_rows s ! a # drop (Suc a) (take b (split_rows s))"
    using a assms(2) Cons_nth_drop_Suc [of a "take b (split_rows s)"] by simp
  have IH: "bounded_lines_loop s format width start (row_start s (Suc a)) [Suc a..<b] w' =
      render_rows format width False (Suc a) (row_start s (Suc a)) (drop (Suc a) (take b (split_rows s))) w'" for w'
    using Suc.hyps(1) [of "Suc a" w'] Suc.hyps(2) Suc.prems by simp
  show ?case
    unfolding upt d bounded_lines_loop.simps render_rows.simps find_line_end_rows [OF n] Let_def
      prod.case add_diff_cancel_left' substr_row(2) [OF n] IH row_start_Suc [OF n, symmetric]
      row_label_def if_not_swap
    by (rule refl)
qed

definition bounded_writer ::
  "string \<Rightarrow> line_read_format \<Rightarrow> nat \<Rightarrow> nat \<Rightarrow> nat \<Rightarrow> display_writer" where
  "bounded_writer s format a b budget =
     (if format = PlainLines then
        dw_append (concat (map row_bytes (drop a (take b (split_rows s))))) (DisplayWriter budget)
      else render_rows format
        (length (to_string (if format = LineIndexed then b - 1 else row_start s b))) True a
        (row_start s a) (drop a (take b (split_rows s))) (DisplayWriter budget))"

lemma read_lines_bounded_rows:
  fixes s :: string and start n budget :: nat
  assumes "known_line_format format" "start \<le> length (split_rows s)"
  defines "w \<equiv> bounded_writer s format start (selection_end s start n) budget"
  shows "read_lines_bounded s start n format budget = Inr
    \<lparr>rr_text = dw_output w,
     rr_total_bytes = length s, rr_total_lines = length (split_rows s),
     rr_start_byte = row_start s start, rr_end_byte = row_start s (selection_end s start n),
     rr_reached_end = (selection_end s start n = length (split_rows s)),
     br_output_truncated = dw_truncated w, br_display_replaced = dw_replaced w,
     bl_start_line = start, bl_lines_read = min n (length (split_rows s) - start)\<rparr>"
proof -
  let ?e = "selection_end s start n"
  have e: "?e \<le> length (split_rows s)" "start \<le> ?e" using assms(2) by (auto simp: selection_end_def)
  have empty: "bounded_writer s format start start budget = DisplayWriter budget"
    by (simp add: bounded_writer_def)
  have rows: "bounded_lines_loop s format width start (row_start s start) [start..<?e] v =
      render_rows format width True start (row_start s start) (drop start (take ?e (split_rows s))) v" for width v
    using bounded_lines_loop_rows [of start start ?e s format width v] e by simp
  show ?thesis
  proof (cases "min n (length (split_rows s) - start) = 0")
    case True
    then have "?e = start" by (simp add: selection_end_def)
    with True assms empty show ?thesis
      by (simp add: read_lines_bounded_def Let_def count_lines_rows line_start_at_rows
          selection_end_def [symmetric])
  next
    case False
    with assms(1,2) rows substr_rows [OF e(2), of s] show ?thesis
      by (simp add: read_lines_bounded_def Let_def count_lines_rows line_start_at_rows
          selection_end_def [symmetric] w_def bounded_writer_def)
  qed
qed

lemma render_rows_safe:
  "utf8_text (dw_output w) \<Longrightarrow> within_budget w \<Longrightarrow>
   utf8_text (dw_output (render_rows format width leading line off rows w)) \<and>
   within_budget (render_rows format width leading line off rows w) \<and>
   dw_budget (render_rows format width leading line off rows w) = dw_budget w"
proof (induction rows arbitrary: leading line off w)
  case (Cons r rs)
  have step: "utf8_text (dw_output (dw_append x v)) \<and> within_budget (dw_append x v) \<and>
      dw_budget (dw_append x v) = dw_budget v"
    if "utf8_text (dw_output v)" "within_budget v" for x v
    using that by (simp add: dw_append_utf8 dw_append_within_budget)
  show ?case using Cons step by (simp add: Let_def)
qed simp

lemma bounded_writer_safe:
  "utf8_text (dw_output (bounded_writer s format a b budget)) \<and>
   length (dw_output (bounded_writer s format a b budget)) \<le> budget"
proof -
  have new: "utf8_text (dw_output (DisplayWriter budget))" "within_budget (DisplayWriter budget)"
      "dw_budget (DisplayWriter budget) = budget"
    by (simp_all add: DisplayWriter_def within_budget_def)
  have rows: "utf8_text (dw_output (render_rows format width leading line off rows (DisplayWriter budget))) \<and>
      length (dw_output (render_rows format width leading line off rows (DisplayWriter budget))) \<le> budget"
    for width leading line off rows
    using render_rows_safe [OF new(1,2), of format width leading line off rows] new(3)
    by (metis within_budget_def)
  show ?thesis
    using rows dw_append_utf8 [OF new(1)] dw_append_within_budget [OF new(2)] new(3)
    by (simp add: bounded_writer_def within_budget_def)
qed

section \<open>Properties\<close>

text \<open>
  A line read is determined by the rows of the text: its coordinates are row starts and
  its text is the selected rows, verbatim or with their gutters; an unknown format and a start
  beyond the last row are refused.
\<close>

theorem read_lines_functional:
  "read_lines s start n format =
    (if \<not> known_line_format format then Inl (InvalidArgument ''unknown line read format'')
     else if length (split_rows s) < start then Inl (OutOfRange ''start line is beyond the indexed text'')
     else Inr
      \<lparr>rr_text = line_selection s format start (selection_end s start n),
       rr_total_bytes = length s, rr_total_lines = length (split_rows s),
       rr_start_byte = row_start s start, rr_end_byte = row_start s (selection_end s start n),
       rr_reached_end = (selection_end s start n = length (split_rows s)),
       lr_start_line = start, lr_lines_read = min n (length (split_rows s) - start)\<rparr>)"
  using read_lines_rows [of format start s n]
  by (auto simp: read_lines_def Let_def line_count_LineIndex)

definition plain_page :: "string \<Rightarrow> nat \<Rightarrow> nat \<Rightarrow> string" where
  "plain_page s start n = (case read_lines s start n PlainLines of Inl _ \<Rightarrow> [] | Inr r \<Rightarrow> rr_text r)"

lemma plain_page_rows:
  "plain_page s a n = concat (map row_bytes (take n (drop a (split_rows s))))"
proof (cases "a \<le> length (split_rows s)")
  case True
  have "drop a (take (selection_end s a n) (split_rows s)) = take n (drop a (split_rows s))"
    by (simp add: drop_take selection_end_def min_def)
  with True show ?thesis
    by (simp add: plain_page_def read_lines_rows known_line_format_def line_selection_def)
next
  case False
  then show ?thesis
    by (simp add: plain_page_def read_lines_def known_line_format_def Let_def line_count_LineIndex)
qed

text \<open>
  Plain line reads page a text without loss: consecutive pages concatenate to the larger
  page, and the page of all lines is the text itself.
\<close>

theorem plain_pages_partition:
  "plain_page s a m @ plain_page s (a + m) n = plain_page s a (m + n) \<and>
   plain_page s 0 (count_lines s) = s"
proof
  show "plain_page s a m @ plain_page s (a + m) n = plain_page s a (m + n)"
    by (simp add: plain_page_rows take_add add.commute flip: concat_append map_append)
  show "plain_page s 0 (count_lines s) = s"
    by (simp add: plain_page_rows count_lines_rows concat_split_rows)
qed

text \<open>
  The bounded line read reports exactly the coordinates of the whole read (and refuses
  exactly the same requests), its text is well-formed UTF-8 within the output budget, and for a
  plain selection of well-formed text that fits the budget nothing is lost.
\<close>

theorem read_lines_bounded_agrees:
  assumes "read_lines s start n format = Inr r"
  shows "\<exists>b. read_lines_bounded s start n format budget = Inr b \<and>
    rr_total_bytes b = rr_total_bytes r \<and> rr_total_lines b = rr_total_lines r \<and>
    rr_start_byte b = rr_start_byte r \<and> rr_end_byte b = rr_end_byte r \<and>
    rr_reached_end b = rr_reached_end r \<and>
    bl_start_line b = lr_start_line r \<and> bl_lines_read b = lr_lines_read r \<and>
    utf8_text (rr_text b) \<and> length (rr_text b) \<le> budget \<and>
    (format = PlainLines \<and> utf8_text (rr_text r) \<and> length (rr_text r) \<le> budget \<longrightarrow>
       rr_text b = rr_text r \<and> \<not> br_output_truncated b \<and> \<not> br_display_replaced b)"
proof -
  have ok: "known_line_format format" "start \<le> length (split_rows s)"
    using assms by (auto simp: read_lines_def Let_def line_count_LineIndex split: if_splits)
  let ?e = "selection_end s start n"
  have exact: "dw_output (bounded_writer s PlainLines start ?e budget) = t \<and>
      \<not> dw_truncated (bounded_writer s PlainLines start ?e budget) \<and>
      \<not> dw_replaced (bounded_writer s PlainLines start ?e budget)"
    if "utf8_text t" "length t \<le> budget" "t = concat (map row_bytes (drop start (take ?e (split_rows s))))" for t
    using dw_append_exact [OF that(1), of "DisplayWriter budget"] that
    by (simp add: bounded_writer_def DisplayWriter_def)
  from assms have r: "rr_text r = line_selection s format start ?e" "rr_total_bytes r = length s"
      "rr_total_lines r = length (split_rows s)" "rr_start_byte r = row_start s start"
      "rr_end_byte r = row_start s ?e" "rr_reached_end r = (?e = length (split_rows s))"
      "lr_start_line r = start" "lr_lines_read r = min n (length (split_rows s) - start)"
    by (auto simp: read_lines_rows [OF ok])
  show ?thesis
    using bounded_writer_safe [of s format start ?e budget] exact [of "rr_text r"] r(1)
    by (simp add: read_lines_bounded_rows [OF ok] r(2-8) line_selection_def)
qed

theorem read_lines_bounded_agrees_witness:
  "\<exists>b. read_lines_bounded ''ab'' 0 1 PlainLines 8 = Inr b \<and> rr_text b = ''ab'' \<and> rr_end_byte b = 2"
proof -
  have rows: "split_rows ''ab'' = [(''ab'', [])]"
    by (simp add: split_rows_content line_break_width_def cons_row_def)
  have read: "read_lines ''ab'' 0 1 PlainLines = Inr
      \<lparr>rr_text = ''ab'', rr_total_bytes = 2, rr_total_lines = 1, rr_start_byte = 0, rr_end_byte = 2,
       rr_reached_end = True, lr_start_line = 0, lr_lines_read = 1\<rparr>"
    by (simp add: read_lines_rows known_line_format_def rows line_selection_def selection_end_def)
  have "utf8_text ''ab''" by (rule utf8_text_ascii) simp
  with read_lines_bounded_agrees [OF read, of 8] show ?thesis by auto
qed

end
