(* ===== verification/Text_StreamRead.thy ===== *)
theory Text_StreamRead
  imports Text_Read
begin

text \<open>
  \<^verbatim>\<open>textedit/src/stream_read.cpp\<close> and \<^verbatim>\<open>textedit/src/stream_read_sinks.hpp\<close>: the same line
  and byte reads over a file scanned once in chunks. The scanner is generic in the sink it
  reports rows to, as the C++ template is; a sink is a record of its four callbacks. A file is
  the list of outcomes of the scan loop's iterations: the bytes \<^verbatim>\<open>SequentialFile::next\<close>
  returned, or the exception thrown there (a read failure, or cancellation seen by
  \<^verbatim>\<open>check_cancelled\<close>); the end of the list is end of file.
\<close>

type_synonym file_source = "exn + (exn + string) list"

section \<open>Sinks\<close>

record 's sink_ops =
  sk_begin_row :: "nat \<Rightarrow> nat \<Rightarrow> 's \<Rightarrow> 's"
  sk_content :: "nat \<Rightarrow> string \<Rightarrow> 's \<Rightarrow> 's"
  sk_terminator :: "nat \<Rightarrow> string \<Rightarrow> 's \<Rightarrow> 's"
  sk_finish :: "nat \<Rightarrow> 's \<Rightarrow> 's"

subsection \<open>PlainSelectionSink\<close>

record plain_sink =
  ps_start_line :: nat
  ps_line_count :: nat
  ps_cap :: nat
  ps_bytes :: string
  ps_started :: bool
  ps_start_byte :: "nat option"
  ps_end_byte :: "nat option"

definition PlainSelectionSink :: "nat \<Rightarrow> nat \<Rightarrow> nat \<Rightarrow> plain_sink" where
  "PlainSelectionSink first_line rows budget =
     \<lparr>ps_start_line = first_line, ps_line_count = rows, ps_cap = budget, ps_bytes = [],
      ps_started = False, ps_start_byte = None, ps_end_byte = None\<rparr>"

definition plain_begin_row :: "nat \<Rightarrow> nat \<Rightarrow> plain_sink \<Rightarrow> plain_sink" where
  "plain_begin_row line start k =
     (let k1 = (if line = ps_start_line k
                then k\<lparr>ps_start_byte := Some start, ps_started := True\<rparr> else k) in
      if ps_started k1 \<and> ps_end_byte k1 = None \<and> line \<ge> ps_start_line k1 \<and>
         line - ps_start_line k1 = ps_line_count k1
      then k1\<lparr>ps_end_byte := Some start\<rparr> else k1)"

definition plain_keep :: "string \<Rightarrow> plain_sink \<Rightarrow> plain_sink" where
  "plain_keep piece k =
     (if \<not> ps_started k \<or> ps_end_byte k \<noteq> None \<or> piece = [] then k
      else let room = ps_cap k - length (ps_bytes k)
           in k\<lparr>ps_bytes := ps_bytes k @ take (min room (length piece)) piece\<rparr>)"

definition plain_finish :: "nat \<Rightarrow> plain_sink \<Rightarrow> plain_sink" where
  "plain_finish n_total k =
     (if \<not> ps_started k then k\<lparr>ps_start_byte := Some n_total, ps_end_byte := Some n_total\<rparr>
      else if ps_end_byte k = None then k\<lparr>ps_end_byte := Some n_total\<rparr> else k)"

definition plain_ops :: "plain_sink sink_ops" where
  "plain_ops = \<lparr>sk_begin_row = plain_begin_row, sk_content = (\<lambda>_. plain_keep),
                sk_terminator = (\<lambda>_. plain_keep), sk_finish = plain_finish\<rparr>"

subsection \<open>RowSelectionSink\<close>

record row_sink =
  rs_start_line :: nat
  rs_line_count :: nat
  rs_cap :: nat
  rs_stored_content :: string
  rs_terminators :: "nat list"
  rs_stored :: nat
  rs_clipped :: bool
  rs_clipped_length :: nat
  rs_clipped_terminator :: nat
  rs_started :: bool
  rs_start_byte :: "nat option"
  rs_end_byte :: "nat option"
  rs_selected :: bool
  rs_clip_recorded :: bool
  rs_length :: nat

definition RowSelectionSink :: "nat \<Rightarrow> nat \<Rightarrow> nat \<Rightarrow> row_sink" where
  "RowSelectionSink first_line rows budget =
     \<lparr>rs_start_line = first_line, rs_line_count = rows, rs_cap = budget, rs_stored_content = [],
      rs_terminators = [], rs_stored = 0, rs_clipped = False, rs_clipped_length = 0,
      rs_clipped_terminator = 0, rs_started = False, rs_start_byte = None, rs_end_byte = None,
      rs_selected = False, rs_clip_recorded = False, rs_length = 0\<rparr>"

definition row_begin_row :: "nat \<Rightarrow> nat \<Rightarrow> row_sink \<Rightarrow> row_sink" where
  "row_begin_row line start k =
     (let k0 = k\<lparr>rs_selected := (line \<ge> rs_start_line k \<and> line - rs_start_line k < rs_line_count k),
                 rs_length := 0\<rparr>;
          k1 = (if line = rs_start_line k0
                then k0\<lparr>rs_start_byte := Some start, rs_started := True\<rparr> else k0) in
      if rs_started k1 \<and> rs_end_byte k1 = None \<and> line \<ge> rs_start_line k1 \<and>
         line - rs_start_line k1 = rs_line_count k1
      then k1\<lparr>rs_end_byte := Some start\<rparr> else k1)"

definition row_content :: "string \<Rightarrow> row_sink \<Rightarrow> row_sink" where
  "row_content piece k =
     (if \<not> rs_selected k \<or> rs_clip_recorded k \<or> piece = [] then k
      else let k1 = k\<lparr>rs_length := rs_length k + length piece\<rparr> in
        if rs_clipped k1 then k1
        else let n = min (rs_cap k1 - rs_stored k1) (length piece);
                 k2 = k1\<lparr>rs_stored_content := rs_stored_content k1 @ take n piece,
                         rs_stored := rs_stored k1 + n\<rparr>
             in if n \<noteq> length piece then k2\<lparr>rs_clipped := True\<rparr> else k2)"

text \<open>The common tail of \<^verbatim>\<open>terminator()\<close> and \<^verbatim>\<open>finish()\<close>: close the current row.\<close>

definition row_close :: "nat \<Rightarrow> row_sink \<Rightarrow> row_sink" where
  "row_close width k =
     (let k1 =
        (if rs_selected k \<and> \<not> rs_clip_recorded k then
           (if \<not> rs_clipped k \<and> rs_stored k < rs_cap k then
              k\<lparr>rs_terminators := rs_terminators k @ [width],
                rs_stored_content := rs_stored_content k @ [CHR 0x0A],
                rs_stored := rs_stored k + 1\<rparr>
            else
              k\<lparr>rs_clipped := True, rs_clipped_length := rs_length k,
                rs_clipped_terminator := width, rs_clip_recorded := True\<rparr>)
         else k)
      in k1\<lparr>rs_selected := False, rs_length := 0\<rparr>)"

definition row_finish :: "nat \<Rightarrow> row_sink \<Rightarrow> row_sink" where
  "row_finish n_total k =
     row_close 0
       (if \<not> rs_started k then k\<lparr>rs_start_byte := Some n_total, rs_end_byte := Some n_total\<rparr>
        else if rs_end_byte k = None then k\<lparr>rs_end_byte := Some n_total\<rparr> else k)"

definition row_ops :: "row_sink sink_ops" where
  "row_ops = \<lparr>sk_begin_row = row_begin_row, sk_content = (\<lambda>_. row_content),
              sk_terminator = (\<lambda>_ t. row_close (length t)), sk_finish = row_finish\<rparr>"

subsection \<open>ByteSelectionSink\<close>

record byte_sink =
  bs_start :: nat
  bs_count :: nat
  bs_cap :: nat
  bs_bytes :: string

definition ByteSelectionSink :: "nat \<Rightarrow> nat \<Rightarrow> nat \<Rightarrow> byte_sink" where
  "ByteSelectionSink first_byte bytes_wanted budget =
     \<lparr>bs_start = first_byte, bs_count = bytes_wanted, bs_cap = budget, bs_bytes = []\<rparr>"

definition byte_keep :: "nat \<Rightarrow> string \<Rightarrow> byte_sink \<Rightarrow> byte_sink" where
  "byte_keep offset piece k =
     (if piece = [] then k
      else let skip = (if offset \<le> bs_start k then bs_start k - offset else 0) in
        if skip \<ge> length piece then k
        else let position = (if offset \<le> bs_start k then 0 else offset - bs_start k) in
          if position \<ge> bs_count k then k
          else let n = min (length piece - skip) (bs_count k - position);
                   room = bs_cap k - length (bs_bytes k)
               in k\<lparr>bs_bytes := bs_bytes k @ take (min n room) (drop skip piece)\<rparr>)"

definition byte_ops :: "byte_sink sink_ops" where
  "byte_ops = \<lparr>sk_begin_row = (\<lambda>_ _ k. k), sk_content = byte_keep,
               sk_terminator = byte_keep, sk_finish = (\<lambda>_ k. k)\<rparr>"

section \<open>The scan\<close>

record 's scan_state =
  sc_bytes :: nat
  sc_lines :: nat
  sc_carry :: string
  sc_line :: nat
  sc_sink :: 's

text \<open>
  The inner loop over one window: \<open>offset\<close> walks the window and \<open>scanned\<close> is the start of
  the content not yet reported. The result is \<open>(offset, scanned, lines, line, sink)\<close>.
\<close>

function scan_window ::
  "'s sink_ops \<Rightarrow> string \<Rightarrow> nat \<Rightarrow> nat \<Rightarrow> nat \<Rightarrow> nat \<Rightarrow> nat \<Rightarrow> 's \<Rightarrow> nat \<times> nat \<times> nat \<times> nat \<times> 's" where
  "scan_window ops window base offset scanned lines line sink =
     (if offset < length window then
        let p = probe_break window offset in
        if bp_incomplete p then (offset, scanned, lines, line, sink)
        else if bp_width p = 0 then scan_window ops window base (offset + 1) scanned lines line sink
        else
          let sink1 = (if offset > scanned
                       then sk_content ops (base + scanned) (substr window scanned (offset - scanned)) sink
                       else sink);
              sink2 = sk_terminator ops (base + offset) (substr window offset (bp_width p)) sink1;
              next_offset = offset + bp_width p
          in scan_window ops window base next_offset next_offset (lines + 1) (line + 1)
               (sk_begin_row ops (line + 1) (base + next_offset) sink2)
      else (offset, scanned, lines, line, sink))"
  by pat_completeness auto
termination
  by (relation "measure (\<lambda>(_, window, _, offset, _, _, _, _). length window - offset)") auto

declare scan_window.simps [simp del]

definition scan_chunk :: "'s sink_ops \<Rightarrow> string \<Rightarrow> 's scan_state \<Rightarrow> 's scan_state" where
  "scan_chunk ops chunk st =
     (let window = sc_carry st @ chunk;
          base = sc_bytes st - (length window - length chunk);
          (offset, scanned, lines, line, sink) =
            scan_window ops window base 0 0 (sc_lines st) (sc_line st) (sc_sink st);
          sink1 = (if offset > scanned
                   then sk_content ops (base + scanned) (substr window scanned (offset - scanned)) sink
                   else sink)
      in \<lparr>sc_bytes = sc_bytes st + length chunk, sc_lines = lines,
          sc_carry = drop offset window, sc_line = line, sc_sink = sink1\<rparr>)"

fun scan_loop ::
  "'s sink_ops \<Rightarrow> nat \<Rightarrow> (exn + string) list \<Rightarrow> nat \<Rightarrow> 's scan_state \<Rightarrow> exn + 's scan_state" where
  "scan_loop ops max_file_bytes [] observed st = Inr st"
| "scan_loop ops max_file_bytes (Inl e # reads) observed st = Inl e"
| "scan_loop ops max_file_bytes (Inr chunk # reads) observed st =
     (if chunk = [] then Inr st
      else let observed1 = observed + length chunk in
        if observed1 > max_file_bytes then
          Inl (LengthError ''file exceeds the configured byte limit'')
        else scan_loop ops max_file_bytes reads observed1 (scan_chunk ops chunk st))"

definition scan_carry :: "'s sink_ops \<Rightarrow> 's scan_state \<Rightarrow> 's scan_state" where
  "scan_carry ops st =
     (if sc_carry st = [] then st
      else
        let base = sc_bytes st - length (sc_carry st);
            width = line_break_width (sc_carry st) in
        if width \<noteq> 0 then
          st\<lparr>sc_lines := sc_lines st + 1, sc_line := sc_line st + 1,
             sc_sink := sk_begin_row ops (sc_line st + 1) (base + width)
                          (sk_terminator ops base (take width (sc_carry st)) (sc_sink st))\<rparr>
        else st\<lparr>sc_sink := sk_content ops base (sc_carry st) (sc_sink st)\<rparr>)"

text \<open>The totals and the finished sink: \<open>(bytes, lines, sink)\<close>.\<close>

definition scan_file ::
  "'s sink_ops \<Rightarrow> file_source \<Rightarrow> nat \<Rightarrow> 's \<Rightarrow> (nat \<times> nat \<times> 's) result" where
  "scan_file ops file max_file_bytes sink =
     and_then file (\<lambda>reads.
     and_then (scan_loop ops max_file_bytes reads 0
                 \<lparr>sc_bytes = 0, sc_lines = 1, sc_carry = [], sc_line = 0,
                  sc_sink = sk_begin_row ops 0 0 sink\<rparr>) (\<lambda>st.
       let st1 = scan_carry ops st
       in Inr (sc_bytes st1, sc_lines st1, sk_finish ops (sc_bytes st1) (sc_sink st1))))"

section \<open>Output\<close>

definition scalar_slack :: nat where
  "scalar_slack = 3"

definition with_slack :: "nat \<Rightarrow> nat \<Rightarrow> nat" where
  "with_slack cap slack = (if cap > size_max - slack then cap else cap + slack)"

record output_text =
  ot_writer :: display_writer
  ot_raw :: string
  ot_repair :: bool

definition OutputText :: "nat \<Rightarrow> bool \<Rightarrow> output_text" where
  "OutputText budget repair = \<lparr>ot_writer = DisplayWriter budget, ot_raw = [], ot_repair = repair\<rparr>"

definition ot_append :: "string \<Rightarrow> output_text \<Rightarrow> output_text" where
  "ot_append bytes t =
     (if ot_repair t then t\<lparr>ot_writer := dw_append bytes (ot_writer t)\<rparr>
      else t\<lparr>ot_raw := ot_raw t @ bytes\<rparr>)"

definition ot_append_hex :: "string \<Rightarrow> output_text \<Rightarrow> output_text" where
  "ot_append_hex bytes t =
     (if ot_repair t then t\<lparr>ot_writer := dw_append_hex bytes (ot_writer t)\<rparr>
      else t\<lparr>ot_raw := ot_raw t @ concat (map hex_escape bytes)\<rparr>)"

definition ot_truncated :: "output_text \<Rightarrow> bool" where
  "ot_truncated t \<longleftrightarrow> ot_repair t \<and> dw_truncated (ot_writer t)"

definition ot_replaced :: "output_text \<Rightarrow> bool" where
  "ot_replaced t \<longleftrightarrow> ot_repair t \<and> dw_replaced (ot_writer t)"

definition ot_mark_truncated :: "output_text \<Rightarrow> output_text" where
  "ot_mark_truncated t =
     (if ot_repair t then t\<lparr>ot_writer := dw_mark_truncated (ot_writer t)\<rparr> else t)"

definition ot_take :: "output_text \<Rightarrow> string" where
  "ot_take t = (if ot_repair t then dw_output (ot_writer t) else ot_raw t)"

section \<open>Streaming reads\<close>

text \<open>
  One call of the \<^verbatim>\<open>render_row\<close> lambda: the new offset, the writer, and whether to go on.
\<close>

definition render_row ::
  "line_read_format \<Rightarrow> nat \<Rightarrow> nat \<Rightarrow> nat \<Rightarrow> nat \<Rightarrow> string \<Rightarrow> nat \<Rightarrow> nat \<Rightarrow> bool \<Rightarrow> output_text
     \<Rightarrow> nat \<times> output_text \<times> bool" where
  "render_row format width start_line row offset piece len terminator clipped_row writer =
     (let writer1 = (if row \<noteq> 0 then ot_append [CHR 0x0A] writer else writer) in
      if row \<noteq> 0 \<and> ot_truncated writer1 then (offset, writer1, False)
      else
        let label = (if format = LineIndexed then append_index [] (start_line + row) width
                     else append_index (append_index ''['' offset width @ '':'')
                            (offset + len + terminator) width @ '']'') @ '' | '';
            writer2 = ot_append label writer1 in
        if ot_truncated writer2 then (offset, writer2, False)
        else
          let writer3 = ot_append piece writer2 in
          if clipped_row then (offset, ot_mark_truncated writer3, False)
          else (offset + len + terminator, writer3, \<not> ot_truncated writer3))"

text \<open>\<^verbatim>\<open>stored_content.find('\n', begin)\<close> up to that newline: the next stored row.\<close>

definition stored_row :: "string \<Rightarrow> string" where
  "stored_row stored = takeWhile (\<lambda>c. c \<noteq> CHR 0x0A) stored"

fun render_stored ::
  "line_read_format \<Rightarrow> nat \<Rightarrow> nat \<Rightarrow> nat list \<Rightarrow> nat \<Rightarrow> nat \<Rightarrow> string \<Rightarrow> output_text
     \<Rightarrow> nat \<times> nat \<times> string \<times> output_text \<times> bool" where
  "render_stored format width start_line [] row offset rest writer = (row, offset, rest, writer, True)"
| "render_stored format width start_line (t # ts) row offset rest writer =
     (let piece = stored_row rest;
          (offset1, writer1, more) =
            render_row format width start_line row offset piece (length piece) t False writer;
          rest1 = drop (length piece + 1) rest in
      if \<not> more then (row, offset1, rest1, writer1, False)
      else render_stored format width start_line ts (row + 1) offset1 rest1 writer1)"

definition read_lines_stream ::
  "file_source \<Rightarrow> nat \<Rightarrow> nat \<Rightarrow> line_read_format \<Rightarrow> nat \<Rightarrow> nat \<Rightarrow> bool \<Rightarrow> bounded_line_read_result result" where
  "read_lines_stream file start_line n_lines format output_bytes max_file_bytes repair =
     (if \<not> known_line_format format then Inl (InvalidArgument ''unknown line read format'')
      else
        let writer = OutputText output_bytes repair;
            result = (\<lambda>total_bytes total_lines start_byte end_byte w.
              let lines_read = min n_lines (total_lines - start_line) in
              \<lparr>rr_text = ot_take w, rr_total_bytes = total_bytes, rr_total_lines = total_lines,
               rr_start_byte = start_byte, rr_end_byte = end_byte,
               rr_reached_end = (start_line + lines_read = total_lines),
               br_output_truncated = ot_truncated w, br_display_replaced = ot_replaced w,
               bl_start_line = start_line, bl_lines_read = lines_read\<rparr>) in
        if format = PlainLines then
          and_then (scan_file plain_ops file max_file_bytes
                      (PlainSelectionSink start_line n_lines (with_slack output_bytes scalar_slack)))
            (\<lambda>(bytes, lines, sink).
              if start_line > lines then Inl (OutOfRange ''start line is beyond the indexed text'')
              else Inr (result bytes lines (the (ps_start_byte sink)) (the (ps_end_byte sink))
                          (ot_append (ps_bytes sink) writer)))
        else
          and_then (scan_file row_ops file max_file_bytes
                      (RowSelectionSink start_line n_lines output_bytes))
            (\<lambda>(bytes, lines, sink).
              if start_line > lines then Inl (OutOfRange ''start line is beyond the indexed text'')
              else
                let lines_read = min n_lines (lines - start_line);
                    end_line = start_line + lines_read;
                    start_byte = the (rs_start_byte sink);
                    end_byte = the (rs_end_byte sink);
                    writer1 =
                      (if lines_read \<noteq> 0 then
                         let width = length (to_string (if format = LineIndexed then end_line - 1 else end_byte));
                             (row, offset, rest, w, more) =
                               render_stored format width start_line (rs_terminators sink) 0 start_byte
                                 (rs_stored_content sink) writer
                         in if row = length (rs_terminators sink) \<and> rs_clipped sink then
                              fst (snd (render_row format width start_line row offset rest
                                (rs_clipped_length sink) (rs_clipped_terminator sink) True w))
                            else w
                       else writer)
                in Inr (result bytes lines start_byte end_byte writer1)))"

definition read_bytes_stream ::
  "file_source \<Rightarrow> nat \<Rightarrow> nat \<Rightarrow> byte_read_format \<Rightarrow> nat \<Rightarrow> nat \<Rightarrow> bool \<Rightarrow> bounded_read_result result" where
  "read_bytes_stream file start_byte n_bytes format output_bytes max_file_bytes repair =
     (if \<not> known_byte_format format then Inl (InvalidArgument ''unknown byte read format'')
      else
        let cap = (if format = HexEscaped then with_slack (output_bytes div 4) scalar_slack
                   else with_slack output_bytes scalar_slack) in
        and_then (scan_file byte_ops file max_file_bytes (ByteSelectionSink start_byte n_bytes cap))
          (\<lambda>(bytes, lines, sink).
            if start_byte > bytes then Inl (OutOfRange ''start byte is beyond the input'')
            else
              let end_byte = start_byte + min n_bytes (bytes - start_byte);
                  writer = OutputText output_bytes repair;
                  writer1 = (if format = HexEscaped then ot_append_hex (bs_bytes sink) writer
                             else ot_append (bs_bytes sink) writer);
                  writer2 = (if length (bs_bytes sink) < min n_bytes (bytes - start_byte)
                             then ot_mark_truncated writer1 else writer1)
              in Inr \<lparr>rr_text = ot_take writer2, rr_total_bytes = bytes, rr_total_lines = lines,
                      rr_start_byte = start_byte, rr_end_byte = end_byte,
                      rr_reached_end = (end_byte = bytes),
                      br_output_truncated = ot_truncated writer2,
                      br_display_replaced = ot_replaced writer2\<rparr>))"

definition check_limit :: "nat \<Rightarrow> unit result" where
  "check_limit max_file_bytes =
     (if max_file_bytes = size_max then
        Inl (InvalidArgument ''file byte limit must leave room for one lookahead byte'')
      else Inr ())"

definition read_file_lines ::
  "file_source \<Rightarrow> nat \<Rightarrow> nat \<Rightarrow> line_read_format \<Rightarrow> nat \<Rightarrow> line_read_result result" where
  "read_file_lines file start_line n_lines format max_file_bytes =
     and_then (check_limit max_file_bytes) (\<lambda>_.
     and_then (read_lines_stream file start_line n_lines format size_max max_file_bytes False)
       (\<lambda>b. Inr \<lparr>rr_text = rr_text b, rr_total_bytes = rr_total_bytes b,
                 rr_total_lines = rr_total_lines b, rr_start_byte = rr_start_byte b,
                 rr_end_byte = rr_end_byte b, rr_reached_end = rr_reached_end b,
                 lr_start_line = bl_start_line b, lr_lines_read = bl_lines_read b\<rparr>))"

definition read_file_bytes ::
  "file_source \<Rightarrow> nat \<Rightarrow> nat \<Rightarrow> byte_read_format \<Rightarrow> nat \<Rightarrow> read_result result" where
  "read_file_bytes file start_byte n_bytes format max_file_bytes =
     and_then (check_limit max_file_bytes) (\<lambda>_.
     and_then (read_bytes_stream file start_byte n_bytes format size_max max_file_bytes False)
       (\<lambda>b. Inr \<lparr>rr_text = rr_text b, rr_total_bytes = rr_total_bytes b,
                 rr_total_lines = rr_total_lines b, rr_start_byte = rr_start_byte b,
                 rr_end_byte = rr_end_byte b, rr_reached_end = rr_reached_end b\<rparr>))"

definition read_file_lines_bounded ::
  "file_source \<Rightarrow> nat \<Rightarrow> nat \<Rightarrow> line_read_format \<Rightarrow> nat \<Rightarrow> nat \<Rightarrow> bounded_line_read_result result" where
  "read_file_lines_bounded file start_line n_lines format output_bytes max_file_bytes =
     and_then (check_limit max_file_bytes) (\<lambda>_.
       read_lines_stream file start_line n_lines format output_bytes max_file_bytes True)"

definition read_file_bytes_bounded ::
  "file_source \<Rightarrow> nat \<Rightarrow> nat \<Rightarrow> byte_read_format \<Rightarrow> nat \<Rightarrow> nat \<Rightarrow> bounded_read_result result" where
  "read_file_bytes_bounded file start_byte n_bytes format output_bytes max_file_bytes =
     and_then (check_limit max_file_bytes) (\<lambda>_.
       read_bytes_stream file start_byte n_bytes format output_bytes max_file_bytes True)"

section \<open>Chunking does not matter\<close>

text \<open>
  The reference scan: the whole text is fed to the sink one byte or one terminator at a time.
\<close>

function feed :: "'s sink_ops \<Rightarrow> nat \<Rightarrow> nat \<Rightarrow> string \<Rightarrow> 's \<Rightarrow> 's" where
  "feed ops base line [] sink = sink"
| "feed ops base line (c # cs) sink =
     (let width = line_break_width (c # cs) in
      if width = 0 then feed ops (base + 1) line cs (sk_content ops base [c] sink)
      else feed ops (base + width) (line + 1) (drop width (c # cs))
             (sk_begin_row ops (line + 1) (base + width)
                (sk_terminator ops base (take width (c # cs)) sink)))"
  by pat_completeness auto
termination
  by (relation "measure (\<lambda>(_, _, _, s, _). length s)") (auto simp del: drop_Suc_Cons)

declare feed.simps(2) [simp del]

lemma feed_content:
  "line_break_width (c # cs) = 0 \<Longrightarrow>
   feed ops base line (c # cs) sink = feed ops (base + 1) line cs (sk_content ops base [c] sink)"
  by (simp add: feed.simps)

lemma feed_break:
  "line_break_width s \<noteq> 0 \<Longrightarrow>
   feed ops base line s sink = feed ops (base + line_break_width s) (line + 1) (drop (line_break_width s) s)
     (sk_begin_row ops (line + 1) (base + line_break_width s)
        (sk_terminator ops base (take (line_break_width s) s) sink))"
  by (cases s) (simp_all add: feed.simps Let_def)

text \<open>The same scan, row by row.\<close>

fun feed_rows :: "'s sink_ops \<Rightarrow> nat \<Rightarrow> nat \<Rightarrow> row list \<Rightarrow> 's \<Rightarrow> 's" where
  "feed_rows ops base line [] sink = sink"
| "feed_rows ops base line [r] sink = sk_content ops base (fst r) sink"
| "feed_rows ops base line (r # q # rows) sink =
     feed_rows ops (base + row_len r) (line + 1) (q # rows)
       (sk_begin_row ops (line + 1) (base + row_len r)
         (sk_terminator ops (base + length (fst r)) (snd r) (sk_content ops base (fst r) sink)))"

text \<open>
  What the scanner relies on in a sink: a row's content may arrive in any number of pieces.
\<close>

locale chunk_sink =
  fixes ops :: "'s sink_ops"
  assumes content_nil: "sk_content ops off [] k = k"
    and content_append: "sk_content ops off (a @ b) k = sk_content ops (off + length a) b (sk_content ops off a k)"
begin

definition pending :: "string \<Rightarrow> nat \<Rightarrow> nat \<Rightarrow> nat \<Rightarrow> 's \<Rightarrow> 's" where
  "pending window base scanned offset sink =
     sk_content ops (base + scanned) (substr window scanned (offset - scanned)) sink"

lemma pending_if:
  "(if offset > scanned then sk_content ops (base + scanned) (substr window scanned (offset - scanned)) sink
    else sink) = pending window base scanned offset sink"
  by (simp add: pending_def content_nil substr_def)

lemma pending_Suc:
  assumes "scanned \<le> offset" "offset < length window"
  shows "pending window base scanned (offset + 1) sink =
    sk_content ops (base + offset) [window ! offset] (pending window base scanned offset sink)"
proof -
  have "substr window scanned (offset + 1 - scanned) =
      substr window scanned (offset - scanned) @ [window ! offset]"
    using assms by (simp add: substr_def Suc_diff_le take_Suc_conv_app_nth)
  with assms show ?thesis
    by (simp add: pending_def content_append substr_def min_absorb2)
qed

text \<open>One window: the scan stops at \<open>offset'\<close> having done the reference scan up to there.\<close>

lemma scan_window_feed:
  assumes "scan_window ops window base offset scanned lines line sink =
      (offset', scanned', lines', line', sink')"
    and "scanned \<le> offset" "offset \<le> length window"
  shows "scanned' \<le> offset' \<and> offset' \<le> length window \<and>
    (offset' = length window \<or> bp_incomplete (probe_break window offset')) \<and>
    feed ops (base + offset) line (drop offset window @ t) (pending window base scanned offset sink) =
    feed ops (base + offset') line' (drop offset' window @ t) (pending window base scanned' offset' sink') \<and>
    lines' + length (split_rows (drop offset' window @ t)) = lines + length (split_rows (drop offset window @ t))"
  using assms
proof (induction "length window - offset" arbitrary: offset scanned lines line sink rule: less_induct)
  case less
  note eqn = less.prems(1) [unfolded scan_window.simps [of ops window base offset]]
  show ?case
  proof (cases "offset < length window \<and> \<not> bp_incomplete (probe_break window offset)")
    case False
    with less.prems eqn show ?thesis by (auto split: if_splits)
  next
    case True
    let ?w = "bp_width (probe_break window offset)"
    have width: "line_break_width (drop offset window @ u) = ?w" for u
      using True probe_complete by blast
    have d: "drop offset window = window ! offset # drop (offset + 1) window"
      using True by (simp add: Cons_nth_drop_Suc)
    show ?thesis
    proof (cases "?w = 0")
      case zero: True
      then have step: "scan_window ops window base (offset + 1) scanned lines line sink =
          (offset', scanned', lines', line', sink')"
        using eqn True by simp
      have "feed ops (base + offset) line (drop offset window @ t) (pending window base scanned offset sink) =
          feed ops (base + (offset + 1)) line (drop (offset + 1) window @ t)
            (pending window base scanned (offset + 1) sink)"
        using width [of t] zero less.prems True unfolding d
        by (simp add: feed_content pending_Suc [simplified])
      moreover have "length (split_rows (drop offset window @ t)) = length (split_rows (drop (offset + 1) window @ t))"
        using width [of t] zero unfolding d by (simp add: split_rows_content cons_row_def)
      ultimately show ?thesis
        using less.hyps [OF diff_less_mono2 step] True less.prems by simp
    next
      case nonzero: False
      let ?n = "offset + ?w"
      have le: "?w \<le> length (drop offset window)"
        using width [of "[]"] line_break_width_le [of "drop offset window"] by simp
      let ?k = "sk_begin_row ops (line + 1) (base + ?n) (sk_terminator ops (base + offset)
          (substr window offset ?w) (pending window base scanned offset sink))"
      from nonzero True have step: "scan_window ops window base ?n ?n (lines + 1) (line + 1) ?k =
          (offset', scanned', lines', line', sink')"
        using eqn unfolding pending_if by (simp add: Let_def)
      have pend: "pending window base ?n ?n ?k = ?k" by (simp add: pending_def substr_def content_nil)
      have "feed ops (base + offset) line (drop offset window @ t) (pending window base scanned offset sink) =
          feed ops (base + ?n) (line + 1) (drop ?n window @ t) (pending window base ?n ?n ?k)"
        using width [of t] nonzero le unfolding pend
        by (simp add: feed_break substr_def add.assoc add.commute)
      moreover have "length (split_rows (drop offset window @ t)) = Suc (length (split_rows (drop ?n window @ t)))"
        using width [of t] nonzero le by (simp add: split_rows_break add.commute)
      ultimately show ?thesis
        using less.hyps [OF diff_less_mono2 step] True nonzero le less.prems by simp
    qed
  qed
qed

text \<open>What remains to be done from a scan state when the text \<open>t\<close> is still to come.\<close>

definition resume :: "'s scan_state \<Rightarrow> string \<Rightarrow> 's" where
  "resume st t = feed ops (sc_bytes st - length (sc_carry st)) (sc_line st) (sc_carry st @ t) (sc_sink st)"

definition carry_ok :: "'s scan_state \<Rightarrow> bool" where
  "carry_ok st \<longleftrightarrow> length (sc_carry st) \<le> sc_bytes st \<and>
     sc_carry st \<in> {[], [CHR 0x0D], [CHR 0xC2], [CHR 0xE2], [CHR 0xE2, CHR 0x80]}"

lemma scan_chunk_resume:
  assumes "carry_ok st"
  shows "carry_ok (scan_chunk ops chunk st) \<and>
    sc_bytes (scan_chunk ops chunk st) = sc_bytes st + length chunk \<and>
    resume (scan_chunk ops chunk st) t = resume st (chunk @ t) \<and>
    sc_lines (scan_chunk ops chunk st) + length (split_rows (sc_carry (scan_chunk ops chunk st) @ t)) =
    sc_lines st + length (split_rows (sc_carry st @ chunk @ t))"
proof -
  define window where "window = sc_carry st @ chunk"
  define base where "base = sc_bytes st - (length window - length chunk)"
  obtain offset scanned lines line sink where scan:
    "scan_window ops window base 0 0 (sc_lines st) (sc_line st) (sc_sink st) =
      (offset, scanned, lines, line, sink)"
    by (metis prod_cases5)
  note w = scan_window_feed [OF scan, of t, simplified]
  have zero: "pending window base 0 0 (sc_sink st) = sc_sink st"
    by (simp add: pending_def substr_def content_nil)
  have state: "scan_chunk ops chunk st =
      \<lparr>sc_bytes = sc_bytes st + length chunk, sc_lines = lines, sc_carry = drop offset window,
       sc_line = line, sc_sink = pending window base scanned offset sink\<rparr>"
    unfolding scan_chunk_def Let_def pending_if window_def [symmetric] base_def [symmetric] scan prod.case ..
  have base: "base = sc_bytes st - length (sc_carry st)" by (simp add: base_def window_def)
  have len: "length window = length (sc_carry st) + length chunk" by (simp add: window_def)
  have off: "sc_bytes st + length chunk - (length window - offset) = base + offset"
    using assms w unfolding len base carry_ok_def by linarith
  have "drop offset window \<in> {[], [CHR 0x0D], [CHR 0xC2], [CHR 0xE2], [CHR 0xE2, CHR 0x80]}"
    using w probe_incomplete [of offset window] by (cases "offset = length window") auto
  moreover have "length window - offset \<le> sc_bytes st + length chunk"
    using assms unfolding len carry_ok_def by linarith
  ultimately have "carry_ok (scan_chunk ops chunk st)"
    unfolding carry_ok_def state by simp
  moreover have join: "sc_carry st @ chunk @ t = window @ t" by (simp add: window_def)
  ultimately show ?thesis
    using w zero off unfolding resume_def join state base [symmetric] by simp
qed

lemma scan_carry_resume:
  assumes "carry_ok st"
  shows "sc_sink (scan_carry ops st) = resume st []" and "sc_bytes (scan_carry ops st) = sc_bytes st"
    and "sc_lines (scan_carry ops st) = sc_lines st + length (split_rows (sc_carry st)) - 1"
proof -
  note facts = scan_carry_def resume_def Let_def line_break_width_def feed.simps
    split_rows_content split_rows_break cons_row_def
  have two: "sk_content ops b [CHR 0xE2, CHR 0x80] k = sk_content ops (b + 1) [CHR 0x80] (sk_content ops b [CHR 0xE2] k)"
    for b k using content_append [of b "[CHR 0xE2]" "[CHR 0x80]"] by simp
  consider "sc_carry st = []" | "sc_carry st = [CHR 0x0D]" | "sc_carry st = [CHR 0xC2]" |
      "sc_carry st = [CHR 0xE2]" | "sc_carry st = [CHR 0xE2, CHR 0x80]"
    using assms by (auto simp: carry_ok_def)
  then have "sc_sink (scan_carry ops st) = resume st [] \<and>
      sc_lines (scan_carry ops st) = sc_lines st + length (split_rows (sc_carry st)) - 1"
    by cases (simp_all add: facts two)
  then show "sc_sink (scan_carry ops st) = resume st []"
    and "sc_lines (scan_carry ops st) = sc_lines st + length (split_rows (sc_carry st)) - 1"
    by simp_all
  show "sc_bytes (scan_carry ops st) = sc_bytes st"
    by (simp add: scan_carry_def Let_def)
qed

lemma scan_loop_resume:
  assumes "carry_ok st" "[] \<notin> set chunks" "observed + length (concat chunks) \<le> max_file_bytes"
  shows "\<exists>st'. scan_loop ops max_file_bytes (map Inr chunks) observed st = Inr st' \<and> carry_ok st' \<and>
    sc_bytes st' = sc_bytes st + length (concat chunks) \<and> resume st' [] = resume st (concat chunks) \<and>
    sc_lines st' + length (split_rows (sc_carry st')) =
    sc_lines st + length (split_rows (sc_carry st @ concat chunks))"
  using assms
proof (induction chunks arbitrary: observed st)
  case (Cons chunk chunks)
  note step = scan_chunk_resume [OF Cons.prems(1), of chunk "concat chunks"]
  with Cons.prems Cons.IH [of "scan_chunk ops chunk st" "observed + length chunk"]
  show ?case by (auto simp: Let_def)
qed simp

lemma scan_loop_limit:
  assumes "[] \<notin> set chunks" "max_file_bytes < observed + length (concat chunks)" "observed \<le> max_file_bytes"
  shows "scan_loop ops max_file_bytes (map Inr chunks @ rest) observed st =
    Inl (LengthError ''file exceeds the configured byte limit'')"
  using assms
  by (induction chunks arbitrary: observed st) (auto simp: Let_def)

theorem scan_file_feed:
  assumes "[] \<notin> set chunks" "length (concat chunks) \<le> max_file_bytes"
  shows "scan_file ops (Inr (map Inr chunks)) max_file_bytes k =
    Inr (length (concat chunks), length (split_rows (concat chunks)),
         sk_finish ops (length (concat chunks)) (feed ops 0 0 (concat chunks) (sk_begin_row ops 0 0 k)))"
proof -
  let ?st = "\<lparr>sc_bytes = 0, sc_lines = 1, sc_carry = [], sc_line = 0, sc_sink = sk_begin_row ops 0 0 k\<rparr>"
  have "carry_ok ?st" by (simp add: carry_ok_def)
  from scan_loop_resume [OF this assms(1), of 0 max_file_bytes] assms(2)
  obtain st' where loop: "scan_loop ops max_file_bytes (map Inr chunks) 0 ?st = Inr st'" and ok: "carry_ok st'"
    and st': "sc_bytes st' = length (concat chunks)" "resume st' [] = resume ?st (concat chunks)"
      "sc_lines st' + length (split_rows (sc_carry st')) = 1 + length (split_rows (concat chunks))"
    by auto
  have "resume ?st (concat chunks) = feed ops 0 0 (concat chunks) (sk_begin_row ops 0 0 k)"
    by (simp add: resume_def)
  with loop st' scan_carry_resume [OF ok] show ?thesis
    by (simp add: scan_file_def Let_def)
qed

text \<open>The reference scan reports the rows of the text.\<close>

lemma feed_rows_cons:
  "rows \<noteq> [] \<Longrightarrow>
   feed_rows ops base line (cons_row c rows) k = feed_rows ops (base + 1) line rows (sk_content ops base [c] k)"
proof (cases rows)
  case (Cons r rs)
  have "sk_content ops base (c # fst r) k = sk_content ops (base + 1) (fst r) (sk_content ops base [c] k)"
    using content_append [of base "[c]" "fst r"] by simp
  with Cons show ?thesis by (cases rs) (simp_all add: cons_row_def row_len_def)
qed simp

lemma feed_split_rows: "feed ops base line s k = feed_rows ops base line (split_rows s) k"
proof (induction s arbitrary: base line k rule: rows_induct)
  case Nil
  then show ?case by (simp add: content_nil)
next
  case (Content c cs)
  then show ?case by (simp add: feed_content split_rows_content feed_rows_cons)
next
  case (Break s)
  obtain r rs where "split_rows (drop (line_break_width s) s) = r # rs"
    by (cases "split_rows (drop (line_break_width s) s)") auto
  with Break show ?case
    by (simp add: feed_break split_rows_break content_nil line_break_width_le min_absorb2)
qed

end

section \<open>The byte sink\<close>

text \<open>The part of a piece at \<open>offset\<close> that lies in the selected range.\<close>

definition in_range :: "nat \<Rightarrow> nat \<Rightarrow> nat \<Rightarrow> string \<Rightarrow> string" where
  "in_range start count offset piece = take (count - (offset - start)) (drop (start - offset) piece)"

lemma in_range_append:
  "in_range start count offset (a @ b) =
   in_range start count offset a @ in_range start count (offset + length a) b"
proof (cases "start - offset \<le> length a")
  case True
  then have "count - (offset - start) - (length a - (start - offset)) = count - (offset + length a - start)"
    by linarith
  with True show ?thesis by (simp add: in_range_def)
next
  case False
  then show ?thesis by (simp add: in_range_def)
qed

lemma take_min_length: "take (min (min (length xs) a) b) xs = take b (take a xs)"
  by (metis length_take min.commute take_all_iff take_take order_refl)

lemma byte_keep_range:
  "byte_keep offset piece k =
   k\<lparr>bs_bytes := bs_bytes k @ take (bs_cap k - length (bs_bytes k)) (in_range (bs_start k) (bs_count k) offset piece)\<rparr>"
  using take_min_length [of "drop (bs_start k - offset) piece" "bs_count k - (offset - bs_start k)"
      "bs_cap k - length (bs_bytes k)"]
  by (cases "offset \<le> bs_start k") (simp_all add: byte_keep_def in_range_def Let_def)

lemma take_room_append:
  "take (cap - length xs) (a @ b) =
   take (cap - length xs) a @ take (cap - length (xs @ take (cap - length xs) a)) b"
  by (auto simp: min_def not_le)

interpretation byte_scan: chunk_sink byte_ops
  by unfold_locales
     (simp_all add: byte_ops_def byte_keep_range in_range_append take_room_append in_range_def [of _ _ _ "[]"]
       del: take_append)

lemma feed_bytes: "feed byte_ops base line s k = byte_keep base s k"
proof (induction s arbitrary: base line k rule: rows_induct)
  case Nil
  show ?case by (simp add: byte_keep_def)
next
  case (Content c cs)
  then show ?case
    using byte_scan.content_append [of base "[c]" cs] by (simp add: feed_content byte_ops_def)
next
  case (Break s)
  have "byte_keep base s k =
      byte_keep (base + line_break_width s) (drop (line_break_width s) s)
        (byte_keep base (take (line_break_width s) s) k)" for k
    using byte_scan.content_append [of base "take (line_break_width s) s" "drop (line_break_width s) s" k]
    by (simp add: byte_ops_def line_break_width_le min_absorb2)
  with Break show ?case by (simp add: feed_break byte_ops_def)
qed

lemma scan_file_bytes:
  assumes "[] \<notin> set chunks" "length (concat chunks) \<le> max_file_bytes"
  shows "scan_file byte_ops (Inr (map Inr chunks)) max_file_bytes (ByteSelectionSink start count cap) =
    Inr (length (concat chunks), count_lines (concat chunks),
         \<lparr>bs_start = start, bs_count = count, bs_cap = cap,
          bs_bytes = take cap (take count (drop start (concat chunks)))\<rparr>)"
proof -
  have "sk_finish byte_ops m k = k" "sk_begin_row byte_ops a b k = k" for m a b k
    by (simp_all add: byte_ops_def)
  then show ?thesis
    by (simp only: byte_scan.scan_file_feed [OF assms] feed_bytes count_lines_rows)
       (simp add: byte_keep_range ByteSelectionSink_def in_range_def)
qed

lemma dw_append_hex_take:
  assumes "(dw_budget w - length (dw_output w)) div 4 < n"
  shows "dw_append_hex (take n s) w = dw_append_hex s w"
  using assms by (auto simp: dw_append_hex_def Let_def min_def)

lemma dw_append_hex_overflow:
  assumes "(dw_budget w - length (dw_output w)) div 4 < length s"
  shows "dw_truncated (dw_append_hex s w)"
  using assms by (auto simp: dw_append_hex_def Let_def)

lemma dw_mark_truncated_again: "dw_truncated w \<Longrightarrow> dw_mark_truncated w = w"
  by (simp add: dw_mark_truncated_def)

lemmas output_text_simps = OutputText_def ot_append_def ot_append_hex_def ot_truncated_def
  ot_replaced_def ot_mark_truncated_def ot_take_def

lemma with_slack_fits [simp]: "cap + 3 \<le> size_max \<Longrightarrow> with_slack cap scalar_slack = cap + 3"
  by (simp add: with_slack_def scalar_slack_def)

text \<open>
  The bounded byte read of a file, however its chunks fall, is the in-memory read of its bytes.
\<close>

lemma read_file_bytes_bounded_memory:
  assumes "[] \<notin> set chunks" "length (concat chunks) \<le> max_file_bytes" "max_file_bytes < size_max"
    and "output_bytes + 3 \<le> size_max"
  shows "read_file_bytes_bounded (Inr (map Inr chunks)) start n format output_bytes max_file_bytes =
    read_bytes_bounded (concat chunks) start n format output_bytes"
proof (cases "known_byte_format format")
  case True
  define s where "s = concat chunks"
  define sel where "sel = take n (drop start s)"
  define c where "c = (if format = HexEscaped then output_bytes div 4 + 3 else output_bytes + 3)"
  let ?w = "DisplayWriter output_bytes"
  have len: "length sel = min n (length s - start)" by (simp add: sel_def)
  have sub: "substr s start (min n (length s - start)) = sel"
    by (simp add: sel_def substr_def min_def)
  have cap: "(if format = HexEscaped then with_slack (output_bytes div 4) scalar_slack
      else with_slack output_bytes scalar_slack) = c"
    using assms(4) by (simp add: c_def)
  have room: "dw_budget ?w - length (dw_output ?w) = output_bytes" "within_budget ?w"
    "dw_budget ?w = output_bytes" "dw_output ?w = []"
    by (simp_all add: DisplayWriter_def within_budget_def)
  let ?app = "if format = HexEscaped then dw_append_hex sel ?w else dw_append sel ?w"
  have app: "(if format = HexEscaped then dw_append_hex (take c sel) ?w else dw_append (take c sel) ?w) = ?app"
    and mark: "length (take c sel) < length sel \<Longrightarrow> dw_truncated ?app"
    using dw_append_take [of ?w c sel] dw_append_hex_take [of ?w c sel]
      dw_append_overflow [of ?w sel] dw_append_hex_overflow [of ?w sel] room
    by (cases "format = HexEscaped"; simp add: c_def)+
  have scan: "scan_file byte_ops (Inr (map Inr chunks)) max_file_bytes (ByteSelectionSink start n c) =
    Inr (length s, count_lines s, \<lparr>bs_start = start, bs_count = n, bs_cap = c, bs_bytes = take c sel\<rparr>)"
    unfolding s_def sel_def by (rule scan_file_bytes [OF assms(1,2)])
  have "read_bytes_stream (Inr (map Inr chunks)) start n format output_bytes max_file_bytes True =
      read_bytes_bounded s start n format output_bytes"
    unfolding read_bytes_stream_def cap Let_def scan read_bytes_bounded_def
    using True app mark sub
    by (cases "format = HexEscaped")
       (auto simp: output_text_simps dw_mark_truncated_again len [symmetric])
  then show ?thesis
    using assms(3) by (simp add: read_file_bytes_bounded_def check_limit_def s_def)
qed (use assms(3) in \<open>simp add: read_file_bytes_bounded_def read_bytes_stream_def read_bytes_bounded_def check_limit_def\<close>)

lemma read_file_bytes_memory:
  assumes "[] \<notin> set chunks" "length (concat chunks) \<le> max_file_bytes" "max_file_bytes < size_max"
    and "format = HexEscaped \<Longrightarrow> 4 * n \<le> max_size" "max_size \<le> size_max"
  shows "read_file_bytes (Inr (map Inr chunks)) start n format max_file_bytes =
    read_bytes max_size (concat chunks) start n format"
proof (cases "known_byte_format format")
  case True
  define s where "s = concat chunks"
  define sel where "sel = take n (drop start s)"
  define c where "c = (if format = HexEscaped then with_slack (size_max div 4) scalar_slack
      else with_slack size_max scalar_slack)"
  have len: "length sel = min n (length s - start)" by (simp add: sel_def)
  have sub: "substr s start (length sel) = sel"
    by (simp add: sel_def substr_def min_def)
  have all: "take c sel = sel"
  proof (cases "format = HexEscaped")
    case True
    with assms(4,5) len show ?thesis by (simp add: c_def with_slack_def scalar_slack_def size_max_def)
  next
    case False
    with assms(2,3) len show ?thesis by (simp add: c_def with_slack_def scalar_slack_def size_max_def s_def)
  qed
  have scan: "scan_file byte_ops (Inr (map Inr chunks)) max_file_bytes (ByteSelectionSink start n c) =
    Inr (length s, count_lines s, \<lparr>bs_start = start, bs_count = n, bs_cap = c, bs_bytes = sel\<rparr>)"
    using scan_file_bytes [OF assms(1,2), of start n c] all unfolding s_def sel_def by simp
  have small: "format = HexEscaped \<Longrightarrow> length sel \<le> max_size div 4"
    using assms(4) len by linarith
  have "and_then (read_bytes_stream (Inr (map Inr chunks)) start n format size_max max_file_bytes False)
      (\<lambda>b. Inr \<lparr>rr_text = rr_text b, rr_total_bytes = rr_total_bytes b, rr_total_lines = rr_total_lines b,
         rr_start_byte = rr_start_byte b, rr_end_byte = rr_end_byte b, rr_reached_end = rr_reached_end b\<rparr>) =
      read_bytes max_size s start n format"
    unfolding read_bytes_stream_def c_def [symmetric] Let_def scan read_bytes_def
    using True sub small
    by (cases format) (auto simp: known_byte_format_def output_text_simps len [symmetric])
  then show ?thesis
    using assms(3) by (simp add: read_file_bytes_def check_limit_def s_def)
qed (use assms(3) in \<open>simp add: read_file_bytes_def read_bytes_stream_def read_bytes_def check_limit_def\<close>)

section \<open>The row sinks\<close>

definition rows_len :: "row list \<Rightarrow> nat" where
  "rows_len rows = sum_list (map row_len rows)"

lemma rows_len_simps [simp]: "rows_len [] = 0" "rows_len (r # rows) = row_len r + rows_len rows"
  by (simp_all add: rows_len_def)

lemma rows_len_take: "rows_len (take n (split_rows s)) = row_start s n"
  by (simp add: rows_len_def row_start_def take_map)

lemma rows_len_split [simp]: "rows_len (split_rows s) = length s"
  by (simp add: rows_len_def sum_row_len)

lemma row_start_plus: "row_start s a + rows_len (take m (drop a (split_rows s))) = row_start s (a + m)"
  by (simp add: rows_len_def row_start_def take_map drop_map take_add)

text \<open>Rows before the selection, and rows after it, leave the sink alone.\<close>

definition inert :: "'s sink_ops \<Rightarrow> (nat \<Rightarrow> bool) \<Rightarrow> 's \<Rightarrow> bool" where
  "inert ops skipped k \<longleftrightarrow> (\<forall>off p. sk_content ops off p k = k) \<and> (\<forall>off t. sk_terminator ops off t k = k) \<and>
     (\<forall>l b. skipped l \<longrightarrow> sk_begin_row ops l b k = k)"

lemma feed_rows_after:
  "inert ops (\<lambda>l. line < l) k \<Longrightarrow> feed_rows ops base line rows k = k"
proof (induction ops base line rows k rule: feed_rows.induct)
  case (3 ops base line r q rows sink)
  moreover from 3 have "inert ops (\<lambda>l. line + 1 < l) sink" by (simp add: inert_def)
  ultimately show ?case by (simp add: inert_def)
qed (simp_all add: inert_def)

lemma feed_rows_before:
  assumes "inert ops (\<lambda>l. l < start) k" "line < start"
  shows "feed_rows ops base line rows k =
    (if start - line < length rows
     then let b = base + rows_len (take (start - line) rows)
          in feed_rows ops b start (drop (start - line) rows) (sk_begin_row ops start b k)
     else k)"
  using assms
proof (induction ops base line rows k rule: feed_rows.induct)
  case (3 ops base line r q rows sink)
  have same: "sk_terminator ops (base + length (fst r)) (snd r) (sk_content ops base (fst r) sink) = sink"
    using 3 by (simp add: inert_def)
  show ?case
  proof (cases "line + 1 < start")
    case True
    then have "start - line = Suc (start - (line + 1))" by simp
    moreover have "sk_begin_row ops (line + 1) (base + row_len r) sink = sink"
      using 3 True by (simp add: inert_def)
    ultimately show ?thesis using 3 True same by (simp add: Let_def add.assoc)
  next
    case False
    with 3 have "start = line + 1" by simp
    then show ?thesis using same by (simp add: Let_def)
  qed
qed (auto simp: inert_def)

lemma feed_rows_from_start:
  assumes "inert ops (\<lambda>l. l < start) k" "rows \<noteq> []"
  shows "feed_rows ops 0 0 rows (sk_begin_row ops 0 0 k) =
    (if start < length rows
     then feed_rows ops (rows_len (take start rows)) start (drop start rows)
            (sk_begin_row ops start (rows_len (take start rows)) k)
     else k)"
proof (cases "start = 0")
  case False
  then have "sk_begin_row ops 0 0 k = k" using assms(1) by (simp add: inert_def)
  with False feed_rows_before [OF assms(1), of 0 0 rows] show ?thesis by (simp add: Let_def)
qed (use assms(2) in simp)

subsection \<open>Plain selections\<close>

lemma plain_keep_eq:
  "plain_keep p k =
   (if ps_started k \<and> ps_end_byte k = None
    then k\<lparr>ps_bytes := ps_bytes k @ take (ps_cap k - length (ps_bytes k)) p\<rparr> else k)"
  by (simp add: plain_keep_def Let_def min_def)

interpretation plain_scan: chunk_sink plain_ops
proof
  fix off and a b :: string and k :: plain_sink
  show "sk_content plain_ops off [] k = k" by (simp add: plain_ops_def plain_keep_def)
  show "sk_content plain_ops off (a @ b) k = sk_content plain_ops (off + length a) b (sk_content plain_ops off a k)"
    using take_room_append [of "ps_cap k" "ps_bytes k" a b] by (auto simp: plain_ops_def plain_keep_eq)
qed

lemma plain_sel [simp]:
  "sk_begin_row plain_ops = plain_begin_row" "sk_content plain_ops off = plain_keep"
  "sk_terminator plain_ops off = plain_keep" "sk_finish plain_ops = plain_finish"
  by (simp_all add: plain_ops_def)

lemma plain_keep_append: "plain_keep b (plain_keep a k) = plain_keep (a @ b) k"
  using plain_scan.content_append [of 0 a b k] by simp

lemma plain_done:
  assumes "ps_started k" "ps_end_byte k = Some e" "ps_start_line k \<le> line"
  shows "feed_rows plain_ops base line rows k = k"
  by (rule feed_rows_after) (use assms in \<open>auto simp: inert_def plain_keep_eq plain_begin_row_def Let_def\<close>)

lemma plain_collect:
  assumes "terminated rows" "ps_started k" "ps_end_byte k = None" "ps_start_line k \<le> line"
    "line < ps_start_line k + ps_line_count k" "n = ps_start_line k + ps_line_count k - line"
  shows "plain_finish (base + rows_len rows) (feed_rows plain_ops base line rows k) =
    (plain_keep (concat (map row_bytes (take n rows))) k)\<lparr>ps_end_byte := Some (base + rows_len (take n rows))\<rparr>"
  using assms
proof (induction rows arbitrary: base line k n)
  case (Cons r rs)
  have n: "n = Suc (n - 1)" using Cons.prems by simp
  show ?case
  proof (cases rs)
    case Nil
    have "take n [r] = [r]" using n by (cases n) auto
    with Nil Cons.prems show ?thesis
      by (cases r) (simp add: plain_finish_def plain_keep_eq)
  next
    case (Cons q qs)
    let ?b = "base + row_len r"
    let ?k = "plain_keep (row_bytes r) k"
    have sel: "ps_started ?k" "ps_end_byte ?k = None" "ps_start_line ?k = ps_start_line k"
        "ps_line_count ?k = ps_line_count k"
      using Cons.prems by (simp_all add: plain_keep_eq)
    have t: "terminated (q # qs)" using Cons.prems(1) Cons by (cases r) simp
    have fed: "feed_rows plain_ops base line (r # rs) k =
        feed_rows plain_ops ?b (line + 1) (q # qs) (plain_begin_row (line + 1) ?b ?k)"
      using Cons by (simp add: plain_keep_append row_bytes_def)
    have "take n (r # rs) = r # take (n - 1) (q # qs)" using Cons by (subst n) simp
    show ?thesis
    proof (cases "n = 1")
      case True
      then have line: "line + 1 = ps_start_line k + ps_line_count k" using Cons.prems by simp
      then have "plain_begin_row (line + 1) ?b ?k = ?k\<lparr>ps_end_byte := Some ?b\<rparr>"
        using sel Cons.prems by (simp add: plain_begin_row_def)
      then show ?thesis using fed sel True line Cons.prems
        by (simp add: plain_done [where e = ?b] plain_finish_def)
    next
      case False
      then have line: "line + 1 < ps_start_line k + ps_line_count k" using Cons.prems by simp
      then have opened: "plain_begin_row (line + 1) ?b ?k = ?k"
        using sel Cons.prems by (auto simp: plain_begin_row_def Let_def)
      have tk: "take n (r # q # qs) = r # take (n - 1) (q # qs)" by (subst n) simp
      have "n - 1 = ps_start_line ?k + ps_line_count ?k - (line + 1)" using sel Cons.prems by simp
      with Cons.IH [of ?k "line + 1" "n - 1" ?b] opened fed sel line t Cons.prems
      show ?thesis unfolding \<open>rs = q # qs\<close> tk by (simp add: plain_keep_append add.assoc)
    qed
  qed
qed simp

lemma scan_file_plain:
  fixes chunks :: "string list" and start n :: nat
  assumes "[] \<notin> set chunks" "length (concat chunks) \<le> max_file_bytes"
  defines "s \<equiv> concat chunks"
  defines "e \<equiv> selection_end s start n"
  assumes "start \<le> length (split_rows s)"
  shows "\<exists>k. scan_file plain_ops (Inr (map Inr chunks)) max_file_bytes (PlainSelectionSink start n cap) =
    Inr (length s, length (split_rows s), k) \<and>
    ps_start_byte k = Some (row_start s start) \<and> ps_end_byte k = Some (row_start s e) \<and>
    ps_bytes k = take cap (concat (map row_bytes (drop start (take e (split_rows s)))))"
proof -
  let ?k = "PlainSelectionSink start n cap"
  let ?rows = "split_rows s"
  have inert: "inert plain_ops (\<lambda>l. l < start) ?k"
    by (auto simp: inert_def PlainSelectionSink_def plain_keep_eq plain_begin_row_def)
  have scan: "scan_file plain_ops (Inr (map Inr chunks)) max_file_bytes ?k =
      Inr (length s, length ?rows, plain_finish (length s) (feed_rows plain_ops 0 0 ?rows (sk_begin_row plain_ops 0 0 ?k)))"
    unfolding s_def
    by (simp only: plain_scan.scan_file_feed [OF assms(1,2)] plain_scan.feed_split_rows plain_sel(4))
  have view: "drop start (take e ?rows) = take n (drop start ?rows)"
    by (simp add: e_def selection_end_def drop_take min_def)
  show ?thesis
  proof (cases "start < length ?rows")
    case False
    with assms(5) have "start = length ?rows" by simp
    moreover from this have "e = length ?rows" by (simp add: e_def selection_end_def)
    ultimately show ?thesis
      using scan feed_rows_from_start [OF inert, of ?rows]
      by (simp add: PlainSelectionSink_def plain_finish_def)
  next
    case True
    let ?b = "row_start s start"
    have fed: "feed_rows plain_ops 0 0 ?rows (sk_begin_row plain_ops 0 0 ?k) =
        feed_rows plain_ops ?b start (drop start ?rows) (plain_begin_row start ?b ?k)"
      using feed_rows_from_start [OF inert, of ?rows] True by (simp add: rows_len_take)
    show ?thesis
    proof (cases "n = 0")
      case n0: True
      then have "e = start" by (simp add: e_def selection_end_def)
      moreover from n0 have "plain_begin_row start ?b ?k =
          ?k\<lparr>ps_start_byte := Some ?b, ps_started := True, ps_end_byte := Some ?b\<rparr>"
        by (simp add: plain_begin_row_def PlainSelectionSink_def)
      ultimately show ?thesis
        using scan fed plain_done [of "plain_begin_row start ?b ?k" ?b start ?b "drop start ?rows"]
        by (simp add: PlainSelectionSink_def plain_finish_def)
    next
      case False
      let ?k1 = "?k\<lparr>ps_start_byte := Some ?b, ps_started := True\<rparr>"
      have opened: "plain_begin_row start ?b ?k = ?k1"
        using False by (simp add: plain_begin_row_def PlainSelectionSink_def)
      have t: "terminated (drop start ?rows)"
        using split_rows_terminated [of "drop ?b s"] split_rows_drop [OF True] by simp
      have len: "?b + rows_len (drop start ?rows) = length s"
        using row_start_plus [of s start "length ?rows"] True by simp
      have stop: "?b + rows_len (take n (drop start ?rows)) = row_start s e"
        using row_start_plus [of s start "min n (length ?rows - start)"]
        by (simp add: e_def selection_end_def min_def split: if_splits)
      have "plain_finish (length s) (feed_rows plain_ops ?b start (drop start ?rows) ?k1) =
          (plain_keep (concat (map row_bytes (take n (drop start ?rows)))) ?k1)\<lparr>ps_end_byte := Some (row_start s e)\<rparr>"
        using plain_collect [OF t, of ?k1 start n ?b] False len stop
        by (simp add: PlainSelectionSink_def)
      then show ?thesis
        using scan fed opened view by (simp add: PlainSelectionSink_def plain_keep_eq)
    qed
  qed
qed

subsection \<open>Labelled rows\<close>

text \<open>
  What the row sink retains of the selected rows within \<open>room\<close> bytes: the rows stored whole,
  and the first one that does not fit, cut, with its true length and terminator width.
\<close>

fun store_rows :: "nat \<Rightarrow> row list \<Rightarrow> row list \<times> (string \<times> nat \<times> nat) option" where
  "store_rows room [] = ([], None)"
| "store_rows room (r # rows) =
     (if length (fst r) < room
      then let (full, clip) = store_rows (room - length (fst r) - 1) rows in (r # full, clip)
      else ([], Some (take room (fst r), length (fst r), length (snd r))))"

definition stored_text :: "row list \<Rightarrow> (string \<times> nat \<times> nat) option \<Rightarrow> string" where
  "stored_text full clip = concat (map (\<lambda>r. fst r @ [CHR 0x0A]) full) @ (case clip of None \<Rightarrow> [] | Some (p, _) \<Rightarrow> p)"

definition row_view :: "row_sink \<Rightarrow> string \<times> nat list \<times> bool \<times> nat \<times> nat" where
  "row_view k = (rs_stored_content k, rs_terminators k, rs_clipped k, rs_clipped_length k, rs_clipped_terminator k)"

definition stored_view :: "row_sink \<Rightarrow> row list \<times> (string \<times> nat \<times> nat) option \<Rightarrow> string \<times> nat list \<times> bool \<times> nat \<times> nat" where
  "stored_view k = (\<lambda>(full, clip).
     (rs_stored_content k @ stored_text full clip, rs_terminators k @ map (length \<circ> snd) full, clip \<noteq> None,
      (case clip of None \<Rightarrow> rs_clipped_length k | Some (_, l, _) \<Rightarrow> l),
      (case clip of None \<Rightarrow> rs_clipped_terminator k | Some (_, _, t) \<Rightarrow> t)))"

lemma row_content_eq:
  "row_content p k =
   (if \<not> rs_selected k \<or> rs_clip_recorded k then k
    else if rs_clipped k then k\<lparr>rs_length := rs_length k + length p\<rparr>
    else k\<lparr>rs_length := rs_length k + length p,
           rs_stored_content := rs_stored_content k @ take (rs_cap k - rs_stored k) p,
           rs_stored := rs_stored k + min (rs_cap k - rs_stored k) (length p),
           rs_clipped := (rs_cap k - rs_stored k < length p)\<rparr>)"
  by (cases "p = []") (auto simp: row_content_def Let_def min_def)

lemma row_content_append: "row_content b (row_content a k) = row_content (a @ b) k"
proof -
  consider "\<not> rs_selected k \<or> rs_clip_recorded k" | "rs_selected k" "\<not> rs_clip_recorded k" "rs_clipped k" |
      "rs_selected k" "\<not> rs_clip_recorded k" "\<not> rs_clipped k" "rs_cap k - rs_stored k < length a" |
      "rs_selected k" "\<not> rs_clip_recorded k" "\<not> rs_clipped k" "length a \<le> rs_cap k - rs_stored k"
    by linarith
  then show ?thesis
  proof cases
    case 4
    then have "min (rs_cap k - rs_stored k) (length a + length b) =
        length a + min (rs_cap k - (rs_stored k + length a)) (length b)"
      "(rs_cap k - rs_stored k < length a + length b) = (rs_cap k - (rs_stored k + length a) < length b)"
      "min (rs_cap k - rs_stored k) (length a) = length a"
      by linarith+
    with 4 show ?thesis by (simp add: row_content_eq)
  qed (simp_all add: row_content_eq)
qed

interpretation row_scan: chunk_sink row_ops
  by unfold_locales (simp_all add: row_ops_def row_content_append, simp add: row_content_eq)

lemma row_ops_sel [simp]:
  "sk_begin_row row_ops = row_begin_row" "sk_content row_ops off = row_content"
  "sk_terminator row_ops off t = row_close (length t)" "sk_finish row_ops = row_finish"
  by (simp_all add: row_ops_def)

definition row_line :: "row \<Rightarrow> row_sink \<Rightarrow> row_sink" where
  "row_line r k = row_close (length (snd r)) (row_content (fst r) k)"

definition storing :: "row_sink \<Rightarrow> bool" where
  "storing k \<longleftrightarrow> rs_selected k \<and> \<not> rs_clipped k \<and> \<not> rs_clip_recorded k \<and> rs_length k = 0 \<and> rs_stored k \<le> rs_cap k"

lemma row_line_full:
  "storing k \<Longrightarrow> length (fst r) < rs_cap k - rs_stored k \<Longrightarrow>
   row_line r k = k\<lparr>rs_terminators := rs_terminators k @ [length (snd r)],
     rs_stored_content := rs_stored_content k @ fst r @ [CHR 0x0A],
     rs_stored := rs_stored k + length (fst r) + 1, rs_selected := False\<rparr>"
  by (auto simp: storing_def row_line_def row_content_def row_close_def Let_def)

lemma row_line_clip:
  "storing k \<Longrightarrow> rs_cap k - rs_stored k \<le> length (fst r) \<Longrightarrow>
   row_line r k = k\<lparr>rs_stored_content := rs_stored_content k @ take (rs_cap k - rs_stored k) (fst r),
     rs_stored := rs_cap k, rs_clipped := True, rs_clipped_length := length (fst r),
     rs_clipped_terminator := length (snd r), rs_clip_recorded := True, rs_selected := False\<rparr>"
  by (auto simp: storing_def row_line_def row_content_def row_close_def Let_def)

lemma row_line_ignored:
  "rs_clip_recorded k \<Longrightarrow> row_line r k = k\<lparr>rs_selected := False, rs_length := 0\<rparr>"
  by (simp add: row_line_def row_content_def row_close_def Let_def)

lemma row_content_end_byte: "row_content p (k\<lparr>rs_end_byte := e\<rparr>) = (row_content p k)\<lparr>rs_end_byte := e\<rparr>"
  by (simp add: row_content_eq)

lemma row_close_end_byte: "row_close w (k\<lparr>rs_end_byte := e\<rparr>) = (row_close w k)\<lparr>rs_end_byte := e\<rparr>"
  unfolding row_close_def Let_def by simp

lemma row_content_keeps: "rs_started (row_content p k) = rs_started k" "rs_end_byte (row_content p k) = rs_end_byte k"
  by (simp_all add: row_content_eq)

lemma row_line_keeps [simp]:
  "rs_started (row_line r k) = rs_started k" "rs_end_byte (row_line r k) = rs_end_byte k"
  "rs_start_byte (row_line r k) = rs_start_byte k" "rs_start_line (row_line r k) = rs_start_line k"
  "rs_line_count (row_line r k) = rs_line_count k" "rs_cap (row_line r k) = rs_cap k"
  "\<not> rs_selected (row_line r k)" "rs_length (row_line r k) = 0"
  unfolding row_line_def row_close_def Let_def by (simp_all add: row_content_eq)

lemma feed_rows_line:
  "feed_rows row_ops base line (r # q # rows) k =
   feed_rows row_ops (base + row_len r) (line + 1) (q # rows)
     (row_begin_row (line + 1) (base + row_len r) (row_line r k))"
  by (simp add: row_line_def)

lemma finish_line:
  "snd r = [] \<Longrightarrow> rs_started k \<Longrightarrow> rs_end_byte k = None \<Longrightarrow>
   row_finish m (feed_rows row_ops base line [r] k) = (row_line r k)\<lparr>rs_end_byte := Some m\<rparr>"
  by (simp add: row_finish_def row_line_def row_content_keeps row_close_end_byte)

lemma row_begin_next:
  assumes "rs_started k" "rs_end_byte k = None" "rs_start_line k \<le> line" "rs_length k = 0" "\<not> rs_selected k"
  shows "line + 1 < rs_start_line k + rs_line_count k \<Longrightarrow> row_begin_row (line + 1) b k = k\<lparr>rs_selected := True\<rparr>"
    and "line + 1 = rs_start_line k + rs_line_count k \<Longrightarrow>
      row_begin_row (line + 1) b k = k\<lparr>rs_end_byte := Some b\<rparr>"
  using assms by (auto simp: row_begin_row_def Let_def)

lemma row_done:
  assumes "rs_started k" "rs_end_byte k = Some e" "rs_start_line k + rs_line_count k \<le> line"
    "\<not> rs_selected k" "rs_length k = 0"
  shows "row_finish m (feed_rows row_ops base line rows k) = k"
proof -
  have close: "row_close w k = k" for w using assms by (simp add: row_close_def Let_def)
  have "feed_rows row_ops base line rows k = k"
    by (rule feed_rows_after)
       (use assms close in \<open>auto simp: inert_def row_content_eq row_begin_row_def Let_def\<close>)
  then show ?thesis using assms close by (simp add: row_finish_def)
qed

lemma collect_step:
  assumes "rs_started k" "rs_end_byte k = None" "rs_start_line k \<le> line"
    "line < rs_start_line k + rs_line_count k" "n = rs_start_line k + rs_line_count k - line"
  shows "n = 1 \<Longrightarrow> row_finish m (feed_rows row_ops base line (r # q # rows) k) = (row_line r k)\<lparr>rs_end_byte := Some (base + row_len r)\<rparr>"
    and "n \<noteq> 1 \<Longrightarrow> row_finish m (feed_rows row_ops base line (r # q # rows) k) =
      row_finish m (feed_rows row_ops (base + row_len r) (line + 1) (q # rows) ((row_line r k)\<lparr>rs_selected := True\<rparr>))"
proof -
  assume "n = 1"
  then have "line + 1 = rs_start_line k + rs_line_count k" using assms by simp
  then show "row_finish m (feed_rows row_ops base line (r # q # rows) k) = (row_line r k)\<lparr>rs_end_byte := Some (base + row_len r)\<rparr>"
    unfolding feed_rows_line using assms row_begin_next(2) [of "row_line r k" line "base + row_len r"]
      row_done [of "(row_line r k)\<lparr>rs_end_byte := Some (base + row_len r)\<rparr>" "base + row_len r" "line + 1"]
    by simp
next
  assume "n \<noteq> 1"
  then have "line + 1 < rs_start_line k + rs_line_count k" using assms by simp
  then show "row_finish m (feed_rows row_ops base line (r # q # rows) k) =
      row_finish m (feed_rows row_ops (base + row_len r) (line + 1) (q # rows) ((row_line r k)\<lparr>rs_selected := True\<rparr>))"
    unfolding feed_rows_line using assms by (simp add: row_begin_next(1) [simplified])
qed

text \<open>After the cut row only the end of the selection is still recorded.\<close>

lemma row_collect_clipped:
  assumes "terminated rows" "rs_started k" "rs_end_byte k = None" "rs_start_line k \<le> line"
    "line < rs_start_line k + rs_line_count k" "n = rs_start_line k + rs_line_count k - line"
    "rs_clip_recorded k"
  shows "row_finish (base + rows_len rows) (feed_rows row_ops base line rows k) =
    k\<lparr>rs_selected := False, rs_length := 0, rs_end_byte := Some (base + rows_len (take n rows))\<rparr>"
  using assms
proof (induction rows arbitrary: base line k n)
  case (Cons r rs)
  have n: "n = Suc (n - 1)" using Cons.prems by simp
  show ?case
  proof (cases rs)
    case Nil
    have "take n [r] = [r]" using n by (cases n) auto
    with Nil Cons.prems show ?thesis
      by (cases r) (simp add: finish_line row_line_ignored del: feed_rows.simps)
  next
    case (Cons q qs)
    have tk: "take n (r # q # qs) = r # take (n - 1) (q # qs)" by (subst n) simp
    have t: "terminated (q # qs)" using Cons.prems(1) Cons by (cases r) simp
    note step = collect_step [OF Cons.prems(2-6), of _ base r q qs]
    show ?thesis
    proof (cases "n = 1")
      case True
      then show ?thesis unfolding Cons tk using step(1) Cons.prems by (simp add: row_line_ignored)
    next
      case False
      then show ?thesis unfolding Cons tk
        using step(2) Cons.IH [of "(row_line r k)\<lparr>rs_selected := True\<rparr>" "line + 1" "n - 1" "base + row_len r"] t Cons Cons.prems
        by (simp add: row_line_ignored add.assoc)
    qed
  qed
qed simp

lemma row_collect:
  assumes "terminated rows" "rs_started k" "rs_end_byte k = None" "rs_start_line k \<le> line"
    "line < rs_start_line k + rs_line_count k" "n = rs_start_line k + rs_line_count k - line"
    "storing k"
  shows "rs_end_byte (row_finish (base + rows_len rows) (feed_rows row_ops base line rows k)) =
      Some (base + rows_len (take n rows)) \<and>
    rs_start_byte (row_finish (base + rows_len rows) (feed_rows row_ops base line rows k)) = rs_start_byte k \<and>
    row_view (row_finish (base + rows_len rows) (feed_rows row_ops base line rows k)) =
      stored_view k (store_rows (rs_cap k - rs_stored k) (take n rows))"
  using assms
proof (induction rows arbitrary: base line k n)
  case (Cons r rs)
  have n: "n = Suc (n - 1)" using Cons.prems by simp
  have line_view: "row_view ((row_line r k)\<lparr>rs_end_byte := e\<rparr>) =
      stored_view k (store_rows (rs_cap k - rs_stored k) [r])" for e
    using row_line_full [OF Cons.prems(7), of r] row_line_clip [OF Cons.prems(7), of r] Cons.prems(7)
    by (cases "length (fst r) < rs_cap k - rs_stored k")
       (auto simp: row_view_def stored_view_def stored_text_def storing_def)
  show ?case
  proof (cases rs)
    case Nil
    have "take n [r] = [r]" using n by (cases n) auto
    with Nil Cons.prems line_view show ?thesis
      by (cases r) (simp add: finish_line del: feed_rows.simps store_rows.simps)
  next
    case (Cons q qs)
    have tk: "take n (r # q # qs) = r # take (n - 1) (q # qs)" by (subst n) simp
    have t: "terminated (q # qs)" using Cons.prems(1) Cons by (cases r) simp
    let ?k = "(row_line r k)\<lparr>rs_selected := True\<rparr>"
    let ?b = "base + row_len r"
    note step = collect_step [OF Cons.prems(2-6), of _ base r q qs]
    show ?thesis
    proof (cases "n = 1")
      case True
      then show ?thesis unfolding Cons tk
        using step(1) Cons.prems line_view by (simp del: store_rows.simps)
    next
      case later: False
      note step2 = step(2) [OF later, of "base + rows_len (r # q # qs)"]
      have n1: "n - 1 = rs_start_line ?k + rs_line_count ?k - (line + 1)" using Cons.prems by simp
      have range: "line + 1 < rs_start_line ?k + rs_line_count ?k" using later Cons.prems by simp
      show ?thesis
      proof (cases "length (fst r) < rs_cap k - rs_stored k")
        case True
        note full = row_line_full [OF Cons.prems(7) True]
        have st: "storing ?k" using Cons.prems(7) True by (auto simp: full storing_def)
        obtain fl cl where store: "store_rows (rs_cap k - rs_stored k - length (fst r) - 1) (take (n - 1) (q # qs)) = (fl, cl)"
          by (meson surj_pair)
        have room: "rs_cap ?k - rs_stored ?k = rs_cap k - rs_stored k - length (fst r) - 1" by (simp add: full)
        have "rs_end_byte (row_finish (?b + rows_len (q # qs)) (feed_rows row_ops ?b (line + 1) (q # qs) ?k)) =
            Some (?b + rows_len (take (n - 1) (q # qs))) \<and>
          rs_start_byte (row_finish (?b + rows_len (q # qs)) (feed_rows row_ops ?b (line + 1) (q # qs) ?k)) = rs_start_byte ?k \<and>
          row_view (row_finish (?b + rows_len (q # qs)) (feed_rows row_ops ?b (line + 1) (q # qs) ?k)) =
            stored_view ?k (store_rows (rs_cap ?k - rs_stored ?k) (take (n - 1) (q # qs)))"
          using Cons.prems by (intro Cons.IH [unfolded Cons] t st n1 range) simp_all
        note this [unfolded room store]
        moreover have "stored_view ?k (fl, cl) = stored_view k (r # fl, cl)"
          by (simp add: full stored_view_def stored_text_def split: option.split)
        ultimately show ?thesis unfolding Cons tk step2 using True store
          by (simp add: add.assoc del: feed_rows.simps)
      next
        case False
        then have le: "rs_cap k - rs_stored k \<le> length (fst r)" by simp
        note clip = row_line_clip [OF Cons.prems(7) le]
        have rec: "rs_clip_recorded ?k" by (simp add: clip)
        have "row_finish (?b + rows_len (q # qs)) (feed_rows row_ops ?b (line + 1) (q # qs) ?k) =
            ?k\<lparr>rs_selected := False, rs_length := 0, rs_end_byte := Some (?b + rows_len (take (n - 1) (q # qs)))\<rparr>"
          using row_collect_clipped [OF t, of ?k "line + 1" "n - 1" ?b] rec n1 range Cons.prems
          by (simp del: feed_rows.simps)
        then show ?thesis unfolding Cons tk step2 using False
          by (simp add: add.assoc clip row_view_def stored_view_def stored_text_def del: feed_rows.simps)
      qed
    qed
  qed
qed simp

lemma scan_file_rows:
  fixes chunks :: "string list" and start n :: nat
  assumes "[] \<notin> set chunks" "length (concat chunks) \<le> max_file_bytes"
  defines "s \<equiv> concat chunks"
  defines "e \<equiv> selection_end s start n"
  assumes "start \<le> length (split_rows s)"
  shows "\<exists>k. scan_file row_ops (Inr (map Inr chunks)) max_file_bytes (RowSelectionSink start n cap) =
    Inr (length s, length (split_rows s), k) \<and>
    rs_start_byte k = Some (row_start s start) \<and> rs_end_byte k = Some (row_start s e) \<and>
    (start < e \<longrightarrow> row_view k = stored_view (RowSelectionSink start n cap)
       (store_rows cap (drop start (take e (split_rows s)))))"
proof -
  let ?k = "RowSelectionSink start n cap"
  let ?rows = "split_rows s"
  have inert: "inert row_ops (\<lambda>l. l < start) ?k"
    by (auto simp: inert_def RowSelectionSink_def row_content_eq row_close_def row_begin_row_def Let_def)
  have scan: "scan_file row_ops (Inr (map Inr chunks)) max_file_bytes ?k =
      Inr (length s, length ?rows, row_finish (length s) (feed_rows row_ops 0 0 ?rows (sk_begin_row row_ops 0 0 ?k)))"
    unfolding s_def
    by (simp only: row_scan.scan_file_feed [OF assms(1,2)] row_scan.feed_split_rows row_ops_sel(4))
  have view: "drop start (take e ?rows) = take n (drop start ?rows)"
    by (simp add: e_def selection_end_def drop_take min_def)
  show ?thesis
  proof (cases "start < length ?rows")
    case False
    with assms(5) have "start = length ?rows" by simp
    moreover from this have "e = length ?rows" by (simp add: e_def selection_end_def)
    ultimately show ?thesis
      using scan feed_rows_from_start [OF inert, of ?rows]
      by (simp add: RowSelectionSink_def row_finish_def row_close_def Let_def)
  next
    case True
    let ?b = "row_start s start"
    have fed: "feed_rows row_ops 0 0 ?rows (sk_begin_row row_ops 0 0 ?k) =
        feed_rows row_ops ?b start (drop start ?rows) (row_begin_row start ?b ?k)"
      using feed_rows_from_start [OF inert, of ?rows] True by (simp add: rows_len_take)
    show ?thesis
    proof (cases "n = 0")
      case n0: True
      then have "e = start" by (simp add: e_def selection_end_def)
      moreover from n0 have "row_begin_row start ?b ?k =
          ?k\<lparr>rs_start_byte := Some ?b, rs_started := True, rs_end_byte := Some ?b\<rparr>"
        by (simp add: row_begin_row_def RowSelectionSink_def)
      ultimately show ?thesis
        using scan fed n0 row_done [of "row_begin_row start ?b ?k" ?b start "length s" ?b "drop start ?rows"]
        by (simp add: RowSelectionSink_def)
    next
      case False
      let ?k1 = "?k\<lparr>rs_start_byte := Some ?b, rs_started := True, rs_selected := True\<rparr>"
      have opened: "row_begin_row start ?b ?k = ?k1"
        using False by (simp add: row_begin_row_def RowSelectionSink_def)
      have t: "terminated (drop start ?rows)"
        using split_rows_terminated [of "drop ?b s"] split_rows_drop [OF True] by simp
      have len: "?b + rows_len (drop start ?rows) = length s"
        using row_start_plus [of s start "length ?rows"] True by simp
      have stop: "?b + rows_len (take n (drop start ?rows)) = row_start s e"
        using row_start_plus [of s start "min n (length ?rows - start)"]
        by (simp add: e_def selection_end_def min_def split: if_splits)
      let ?F = "row_finish (?b + rows_len (drop start ?rows)) (feed_rows row_ops ?b start (drop start ?rows) ?k1)"
      have same: "stored_view ?k1 v = stored_view ?k v" for v
        by (cases v) (simp add: stored_view_def RowSelectionSink_def split: option.split)
      have room: "rs_cap ?k1 - rs_stored ?k1 = cap" "rs_start_byte ?k1 = Some ?b"
        by (simp_all add: RowSelectionSink_def)
      have "rs_end_byte ?F = Some (?b + rows_len (take n (drop start ?rows))) \<and> rs_start_byte ?F = rs_start_byte ?k1 \<and>
          row_view ?F = stored_view ?k1 (store_rows (rs_cap ?k1 - rs_stored ?k1) (take n (drop start ?rows)))"
        by (rule row_collect [OF t]) (use False in \<open>simp_all add: RowSelectionSink_def storing_def\<close>)
      with scan fed opened view show ?thesis
        unfolding len stop room same by simp
    qed
  qed
qed

section \<open>Rendering the retained rows\<close>

lemma dw_append_grows:
  "\<not> dw_truncated (dw_append s w) \<Longrightarrow> length (dw_output w) + length s \<le> length (dw_output (dw_append s w))"
  using dw_append_all_consumed [of s w] dw_append_consumed [of s w] by linarith

definition repairing :: "display_writer \<Rightarrow> output_text" where
  "repairing w = \<lparr>ot_writer = w, ot_raw = [], ot_repair = True\<rparr>"

lemma repairing_simps [simp]:
  "ot_append s (repairing w) = repairing (dw_append s w)" "ot_truncated (repairing w) = dw_truncated w"
  "ot_mark_truncated (repairing w) = repairing (dw_mark_truncated w)" "ot_take (repairing w) = dw_output w"
  "ot_replaced (repairing w) = dw_replaced w" "OutputText b True = repairing (DisplayWriter b)"
  by (simp_all add: repairing_def output_text_simps)

lemma row_label_append_index:
  "(if format = LineIndexed then append_index [] line width
    else append_index (append_index ''['' off width @ '':'') off' width @ '']'') @ '' | '' =
   row_label format width line off off'"
  by (simp add: row_label_def append_index_padded)

lemma row_label_length: "4 \<le> length (row_label format width line off off')"
proof -
  have "1 \<le> length (to_string v)" for v by (subst to_string.simps) simp
  from this [of line] this [of off] show ?thesis by (simp add: row_label_def padded_def Let_def)
qed

lemma render_row_repairing:
  "render_row format width start row off piece len t clipd (repairing w) =
   (let w1 = (if row = 0 then w else dw_append [CHR 0x0A] w) in
    if row \<noteq> 0 \<and> dw_truncated w1 then (off, repairing w1, False)
    else let w2 = dw_append (row_label format width (start + row) off (off + len + t)) w1 in
      if dw_truncated w2 then (off, repairing w2, False)
      else let w3 = dw_append piece w2 in
        if clipd then (off, repairing (dw_mark_truncated w3), False)
        else (off + len + t, repairing w3, \<not> dw_truncated w3))"
  unfolding render_row_def Let_def row_label_append_index by simp

lemma stored_row_piece:
  "CHR 0x0A \<notin> set c \<Longrightarrow> stored_row (c @ CHR 0x0A # rest) = c"
  unfolding stored_row_def by (subst takeWhile_append2) auto

definition render_selection ::
  "line_read_format \<Rightarrow> nat \<Rightarrow> nat \<Rightarrow> nat list \<Rightarrow> bool \<Rightarrow> nat \<Rightarrow> nat \<Rightarrow> nat \<Rightarrow> nat \<Rightarrow> string \<Rightarrow> output_text \<Rightarrow> output_text" where
  "render_selection format width start ts clipd clen cterm row off rest w =
     (let (row', off', rest', w', more) = render_stored format width start ts row off rest w
      in if row' = row + length ts \<and> clipd
         then fst (snd (render_row format width start row' off' rest' clen cterm True w')) else w')"

lemma render_selection_Cons:
  "render_selection format width start (t # ts) clipd clen cterm row off rest w =
     (let piece = stored_row rest;
          (off1, w1, more) = render_row format width start row off piece (length piece) t False w in
      if \<not> more then w1
      else render_selection format width start ts clipd clen cterm (row + 1) off1 (drop (length piece + 1) rest) w1)"
  by (simp add: render_selection_def Let_def split: prod.split)

lemma render_selection_rows:
  assumes "store_rows room rows = (full, clip)" "list_all (\<lambda>r. CHR 0x0A \<notin> set (fst r)) rows"
    and "\<not> dw_truncated w" "within_budget w" "dw_budget w \<le> length (dw_output w) + room"
    and "case clip of None \<Rightarrow> True | Some (p, l, t) \<Rightarrow> clen = l \<and> cterm = t"
  shows "render_selection format width start (map (length \<circ> snd) full) (clip \<noteq> None) clen cterm
      row off (stored_text full clip) (repairing w) =
    repairing (render_rows format width (row = 0) (start + row) off rows w)"
  using assms
proof (induction rows arbitrary: room full clip row off w)
  case Nil
  then show ?case by (simp add: render_selection_def stored_text_def)
next
  case (Cons r rows)
  define w1 where "w1 = (if row = 0 then w else dw_append [CHR 0x0A] w)"
  define w2 where "w2 = dw_append (row_label format width (start + row) off (off + row_len r)) w1"
  define w3 where "w3 = dw_append (fst r) w2"
  have b: "dw_budget w1 = dw_budget w" "dw_budget w2 = dw_budget w" "dw_budget w3 = dw_budget w"
    "within_budget w1" "within_budget w2" "within_budget w3"
    using Cons.prems(4) by (simp_all add: w1_def w2_def w3_def dw_append_within_budget)
  have g1: "\<not> dw_truncated w1 \<Longrightarrow> length (dw_output w) \<le> length (dw_output w1)"
    using dw_append_grows [of "[CHR 0x0A]" w] by (auto simp: w1_def split: if_splits)
  have g2: "\<not> dw_truncated w2 \<Longrightarrow> length (dw_output w1) + 4 \<le> length (dw_output w2)"
    using dw_append_grows [of "row_label format width (start + row) off (off + row_len r)" w1]
      row_label_length [of format width "start + row" off "off + row_len r"] by (simp add: w2_def)
  have g3: "\<not> dw_truncated w3 \<Longrightarrow> length (dw_output w2) + length (fst r) \<le> length (dw_output w3)"
    using dw_append_grows [of "fst r" w2] by (simp add: w3_def)
  have t1: "row = 0 \<Longrightarrow> \<not> dw_truncated w1" using Cons.prems(3) by (simp add: w1_def)
  have rr: "render_rows format width (row = 0) (start + row) off (r # rows) w =
      (if dw_truncated w1 then w1 else if dw_truncated w2 then w2 else if dw_truncated w3 then w3
       else render_rows format width False (start + row + 1) (off + row_len r) rows w3)"
    unfolding w3_def w2_def w1_def by (simp add: Let_def)
  show ?case
  proof (cases "length (fst r) < room")
    case True
    obtain fl cl where store: "store_rows (room - length (fst r) - 1) rows = (fl, cl)" by (meson surj_pair)
    with True Cons.prems(1) have fc: "full = r # fl" "clip = cl" by auto
    have rest: "stored_text (r # fl) cl = fst r @ CHR 0x0A # stored_text fl cl" by (simp add: stored_text_def)
    have piece: "stored_row (stored_text (r # fl) cl) = fst r"
      unfolding rest using Cons.prems(2) by (intro stored_row_piece) simp
    have step: "render_row format width start row off (fst r) (length (fst r)) (length (snd r)) False (repairing w) =
        (if dw_truncated w1 then (off, repairing w1, False)
         else if dw_truncated w2 then (off, repairing w2, False)
         else (off + row_len r, repairing w3, \<not> dw_truncated w3))"
      unfolding render_row_repairing Let_def w1_def [symmetric] add.assoc row_len_def [symmetric]
        w2_def [symmetric] w3_def [symmetric] using t1 by auto
    have IH: "render_selection format width start (map (length \<circ> snd) fl) (cl \<noteq> None) clen cterm
        (row + 1) (off + row_len r) (stored_text fl cl) (repairing w3) =
        repairing (render_rows format width False (start + row + 1) (off + row_len r) rows w3)"
      if "\<not> dw_truncated w1" "\<not> dw_truncated w2" "\<not> dw_truncated w3"
    proof -
      have le: "dw_budget w3 \<le> length (dw_output w3) + (room - length (fst r) - 1)"
        using that g1 g2 g3 b(3) Cons.prems(5) True by linarith
      show ?thesis
        using Cons.IH [OF store _ that(3) b(6) le, of "row + 1" "off + row_len r"] Cons.prems(2,6) fc
        by (simp add: comp_def)
    qed
    show ?thesis
      unfolding fc rr list.map render_selection_Cons piece comp_apply step Let_def
      using IH by (auto simp: rest comp_def)
  next
    case False
    with Cons.prems(1) have fc: "full = []" "clip = Some (take room (fst r), length (fst r), length (snd r))" by auto
    with Cons.prems(6) have cl: "clen = length (fst r)" "cterm = length (snd r)" by auto
    have same: "dw_append (take room (fst r)) w2 = w3" "dw_truncated w3"
      if "\<not> dw_truncated w1" "\<not> dw_truncated w2"
    proof -
      have "dw_budget w2 - length (dw_output w2) + 3 \<le> room"
        using that g1 g2 b Cons.prems(5) by (simp add: within_budget_def)
      then show "dw_append (take room (fst r)) w2 = w3" by (simp add: w3_def dw_append_take)
      show "dw_truncated w3" unfolding w3_def
        using that g1 g2 b Cons.prems(5) False by (intro dw_append_overflow) simp_all
    qed
    have "render_row format width start row off (take room (fst r)) clen cterm True (repairing w) =
        (if dw_truncated w1 then (off, repairing w1, False)
         else if dw_truncated w2 then (off, repairing w2, False) else (off, repairing w3, False))"
      unfolding render_row_repairing Let_def w1_def [symmetric] add.assoc cl row_len_def [symmetric]
        w2_def [symmetric] using t1 same by (auto simp: dw_mark_truncated_again)
    then show ?thesis
      unfolding fc rr using same by (simp add: render_selection_def stored_text_def)
  qed
qed

text \<open>Without repair nothing is ever cut, so long as the sink had room for every row.\<close>

fun raw_rows :: "line_read_format \<Rightarrow> nat \<Rightarrow> bool \<Rightarrow> nat \<Rightarrow> nat \<Rightarrow> row list \<Rightarrow> string" where
  "raw_rows format width leading line off [] = []"
| "raw_rows format width leading line off (r # rows) =
     (if leading then [] else [CHR 0x0A]) @ row_label format width line off (off + row_len r) @ fst r @
     raw_rows format width False (line + 1) (off + row_len r) rows"

definition raw :: "nat \<Rightarrow> string \<Rightarrow> output_text" where
  "raw b t = \<lparr>ot_writer = DisplayWriter b, ot_raw = t, ot_repair = False\<rparr>"

lemma raw_simps [simp]:
  "ot_append s (raw b t) = raw b (t @ s)" "\<not> ot_truncated (raw b t)" "\<not> ot_replaced (raw b t)"
  "ot_take (raw b t) = t" "OutputText b False = raw b []"
  by (simp_all add: raw_def output_text_simps)

lemma store_rows_all:
  "sum_list (map (\<lambda>r. length (fst r) + 1) rows) \<le> room \<Longrightarrow> store_rows room rows = (rows, None)"
  by (induction rows arbitrary: room) auto

lemma render_selection_raw:
  assumes "list_all (\<lambda>r. CHR 0x0A \<notin> set (fst r)) rows"
  shows "render_selection format width start (map (length \<circ> snd) rows) False clen cterm
      row off (stored_text rows None) (raw b t) =
    raw b (t @ raw_rows format width (row = 0) (start + row) off rows)"
  using assms
proof (induction rows arbitrary: row off t)
  case Nil
  then show ?case by (simp add: render_selection_def)
next
  case (Cons r rows)
  have rest: "stored_text (r # rows) None = fst r @ CHR 0x0A # stored_text rows None" by (simp add: stored_text_def)
  have piece: "stored_row (stored_text (r # rows) None) = fst r"
    unfolding rest using Cons.prems by (intro stored_row_piece) simp
  have "render_row format width start row off (fst r) (length (fst r)) (length (snd r)) False (raw b t) =
      (off + row_len r, raw b (t @ (if row = 0 then [] else [CHR 0x0A]) @
        row_label format width (start + row) off (off + row_len r) @ fst r), True)"
    unfolding render_row_def Let_def row_label_append_index add.assoc row_len_def [symmetric] by simp
  with Cons show ?case
    unfolding list.map render_selection_Cons piece comp_apply Let_def by (simp add: rest comp_def)
qed

lemma raw_rows_display:
  assumes "start \<le> a" "b \<le> length (split_rows s)"
  shows "raw_rows format width (a = start) a (row_start s a) (drop a (take b (split_rows s))) =
    concat (map (\<lambda>line. (if line \<noteq> start then [CHR 0x0A] else []) @ display_row s format width line) [a..<b])"
  using assms(1)
proof (induction "b - a" arbitrary: a)
  case 0
  then show ?case by simp
next
  case (Suc k)
  then have a: "a < b" and n: "a < length (split_rows s)" using assms(2) by simp_all
  have "drop a (take b (split_rows s)) = split_rows s ! a # drop (Suc a) (take b (split_rows s))"
    using a assms(2) Cons_nth_drop_Suc [of a "take b (split_rows s)"] by simp
  with Suc.hyps(1) [of "Suc a"] Suc.hyps(2) Suc.prems n show ?case
    unfolding upt_conv_Cons [OF a] by (simp add: row_start_Suc [symmetric] display_row_def)
qed

lemma rows_no_newline: "list_all (\<lambda>r. CHR 0x0A \<notin> set (fst r)) (drop a (take b (split_rows s)))"
proof -
  have "CHR 0x0A \<notin> set (fst r)" if "r \<in> set (split_rows s)" for r
    using that split_rows_clean [of "fst r" "snd r" s] clean_no_break_byte [of "fst r" "CHR 0x0A"]
    by (auto simp: break_byte_def)
  then show ?thesis by (auto simp: list_all_iff dest!: in_set_dropD in_set_takeD)
qed

lemma rows_need:
  "terminated rows \<Longrightarrow> sum_list (map (\<lambda>r. length (fst r) + 1) rows) \<le> rows_len rows + 1"
proof (induction rows rule: terminated.induct)
  case (3 c t r rs)
  then show ?case using terminators_not_Nil [of t] by (cases t) auto
qed auto

section \<open>Streaming reads are in-memory reads\<close>

text \<open>The accumulated output of a streaming line read, over the rows of the text.\<close>

definition stream_output ::
  "string \<Rightarrow> line_read_format \<Rightarrow> nat \<Rightarrow> nat \<Rightarrow> nat \<Rightarrow> bool \<Rightarrow> output_text" where
  "stream_output s format a b budget repair =
     (if format = PlainLines then
        ot_append (take (with_slack budget scalar_slack) (concat (map row_bytes (drop a (take b (split_rows s))))))
          (OutputText budget repair)
      else if a < b then
        let (full, clip) = store_rows budget (drop a (take b (split_rows s))) in
        render_selection format (length (to_string (if format = LineIndexed then b - 1 else row_start s b))) a
          (map (length \<circ> snd) full) (clip \<noteq> None)
          (case clip of None \<Rightarrow> 0 | Some (_, l, _) \<Rightarrow> l) (case clip of None \<Rightarrow> 0 | Some (_, _, t) \<Rightarrow> t)
          0 (row_start s a) (stored_text full clip) (OutputText budget repair)
      else OutputText budget repair)"

lemma read_lines_stream_rows:
  fixes chunks :: "string list" and start n budget :: nat and repair :: bool
  assumes "[] \<notin> set chunks" "length (concat chunks) \<le> max_file_bytes" "known_line_format format"
  defines "s \<equiv> concat chunks"
  defines "e \<equiv> selection_end s start n"
  defines "W \<equiv> stream_output s format start e budget repair"
  shows "start \<le> length (split_rows s) \<Longrightarrow>
    read_lines_stream (Inr (map Inr chunks)) start n format budget max_file_bytes repair = Inr
    \<lparr>rr_text = ot_take W, rr_total_bytes = length s, rr_total_lines = length (split_rows s),
     rr_start_byte = row_start s start, rr_end_byte = row_start s e,
     rr_reached_end = (e = length (split_rows s)),
     br_output_truncated = ot_truncated W, br_display_replaced = ot_replaced W,
     bl_start_line = start, bl_lines_read = min n (length (split_rows s) - start)\<rparr>"
    and "length (split_rows s) < start \<Longrightarrow>
    read_lines_stream (Inr (map Inr chunks)) start n format budget max_file_bytes repair =
      Inl (OutOfRange ''start line is beyond the indexed text'')"
proof -
  have lr: "start + min n (length (split_rows s) - start) = e" by (simp add: e_def selection_end_def)
  assume start: "start \<le> length (split_rows s)"
  show "read_lines_stream (Inr (map Inr chunks)) start n format budget max_file_bytes repair = Inr
    \<lparr>rr_text = ot_take W, rr_total_bytes = length s, rr_total_lines = length (split_rows s),
     rr_start_byte = row_start s start, rr_end_byte = row_start s e,
     rr_reached_end = (e = length (split_rows s)),
     br_output_truncated = ot_truncated W, br_display_replaced = ot_replaced W,
     bl_start_line = start, bl_lines_read = min n (length (split_rows s) - start)\<rparr>"
  proof (cases "format = PlainLines")
    case True
    obtain k where scan: "scan_file plain_ops (Inr (map Inr chunks)) max_file_bytes
          (PlainSelectionSink start n (with_slack budget scalar_slack)) = Inr (length s, length (split_rows s), k)"
      and k: "ps_start_byte k = Some (row_start s start)" "ps_end_byte k = Some (row_start s e)"
        "ps_bytes k = take (with_slack budget scalar_slack) (concat (map row_bytes (drop start (take e (split_rows s)))))"
      using scan_file_plain [OF assms(1,2), of start n "with_slack budget scalar_slack"] start
      unfolding s_def e_def by auto
    from True assms(3) start k lr show ?thesis
      unfolding read_lines_stream_def Let_def scan by (simp add: W_def stream_output_def)
  next
    case False
    obtain k where scan: "scan_file row_ops (Inr (map Inr chunks)) max_file_bytes
          (RowSelectionSink start n budget) = Inr (length s, length (split_rows s), k)"
      and k: "rs_start_byte k = Some (row_start s start)" "rs_end_byte k = Some (row_start s e)"
      and view: "start < e \<Longrightarrow> row_view k = stored_view (RowSelectionSink start n budget)
         (store_rows budget (drop start (take e (split_rows s))))"
      using scan_file_rows [OF assms(1,2), of start n budget] start unfolding s_def e_def by auto
    obtain full clip where store: "store_rows budget (drop start (take e (split_rows s))) = (full, clip)"
      by (meson surj_pair)
    have fields: "rs_stored_content k = stored_text full clip" "rs_terminators k = map (length \<circ> snd) full"
      "rs_clipped k = (clip \<noteq> None)" "rs_clipped_length k = (case clip of None \<Rightarrow> 0 | Some (_, l, _) \<Rightarrow> l)"
      "rs_clipped_terminator k = (case clip of None \<Rightarrow> 0 | Some (_, _, t) \<Rightarrow> t)" if "start < e"
      using view [OF that] unfolding store
      by (simp_all add: row_view_def stored_view_def RowSelectionSink_def split: option.splits)
    have lines: "(min n (length (split_rows s) - start) \<noteq> 0) = (start < e)" using lr by linarith
    have out: "(if start < e then
        let width = length (to_string (if format = LineIndexed then e - 1 else row_start s e));
            (row, offset, rest, w, more) = render_stored format width start (rs_terminators k) 0 (row_start s start)
                (rs_stored_content k) (OutputText budget repair)
        in if row = length (rs_terminators k) \<and> rs_clipped k
           then fst (snd (render_row format width start row offset rest (rs_clipped_length k)
                  (rs_clipped_terminator k) True w)) else w
        else OutputText budget repair) = W"
    proof (cases "start < e")
      case True
      show ?thesis
        unfolding W_def stream_output_def store Let_def prod.case render_selection_def fields [OF True]
        using False True by simp
    qed (simp add: W_def stream_output_def False)
    from False assms(3) start k show ?thesis
      unfolding read_lines_stream_def Let_def scan and_then_simps prod.case lr k option.sel lines
        out [unfolded Let_def] by simp
  qed
next
  assume start: "length (split_rows s) < start"
  have "\<exists>k. scan_file plain_ops (Inr (map Inr chunks)) max_file_bytes
      (PlainSelectionSink start n (with_slack budget scalar_slack)) = Inr (length s, length (split_rows s), k)"
    "\<exists>k. scan_file row_ops (Inr (map Inr chunks)) max_file_bytes
      (RowSelectionSink start n budget) = Inr (length s, length (split_rows s), k)"
    using plain_scan.scan_file_feed [OF assms(1,2)] row_scan.scan_file_feed [OF assms(1,2)]
    unfolding s_def by auto
  with start assms(3) show "read_lines_stream (Inr (map Inr chunks)) start n format budget max_file_bytes repair =
      Inl (OutOfRange ''start line is beyond the indexed text'')"
    by (auto simp: read_lines_stream_def Let_def)
qed

lemma stream_output_repair:
  assumes "budget + 3 \<le> size_max" "known_line_format format" "a \<le> b"
  shows "stream_output s format a b budget True = repairing (bounded_writer s format a b budget)"
proof (cases "format = PlainLines")
  case True
  then show ?thesis
    using assms(1) dw_append_take [of "DisplayWriter budget" "budget + 3"]
    by (simp add: stream_output_def bounded_writer_def DisplayWriter_def)
next
  case False
  obtain full clip where store: "store_rows budget (drop a (take b (split_rows s))) = (full, clip)"
    by (meson surj_pair)
  have new: "\<not> dw_truncated (DisplayWriter budget)" "within_budget (DisplayWriter budget)"
      "dw_budget (DisplayWriter budget) \<le> length (dw_output (DisplayWriter budget)) + budget"
    by (simp_all add: DisplayWriter_def within_budget_def)
  let ?l = "case clip of None \<Rightarrow> 0 | Some (_, l, _) \<Rightarrow> l" and ?t = "case clip of None \<Rightarrow> 0 | Some (_, _, t) \<Rightarrow> t"
  have "case clip of None \<Rightarrow> True | Some (p, l, t) \<Rightarrow> ?l = l \<and> ?t = t" by (simp split: option.split)
  from render_selection_rows [OF store rows_no_newline new this, where start = a and row = 0] False assms(3)
  show ?thesis by (auto simp: stream_output_def store bounded_writer_def)
qed

lemma stream_output_raw:
  assumes "length s < size_max" "known_line_format format" "a \<le> b" "b \<le> length (split_rows s)"
  shows "stream_output s format a b size_max False = raw size_max (line_selection s format a b)"
proof (cases "format = PlainLines")
  case True
  have "length (concat (map row_bytes (drop a (take b (split_rows s))))) \<le> length s"
    unfolding substr_rows [OF assms(3), symmetric] by (simp add: substr_def)
  with assms(1) True show ?thesis
    by (simp add: stream_output_def line_selection_def with_slack_def scalar_slack_def size_max_def)
next
  case False
  let ?rows = "drop a (take b (split_rows s))"
  let ?need = "\<lambda>rows. sum_list (map (\<lambda>r. length (fst r) + 1) rows)"
  have "?need (split_rows s) \<le> length s + 1" using rows_need [OF split_rows_terminated, of s] by simp
  moreover have "?need (take b (split_rows s)) \<le> ?need (split_rows s)"
    by (metis append_take_drop_id le_add1 map_append sum_list_append)
  moreover have "?need ?rows \<le> ?need (take b (split_rows s))"
    by (metis append_take_drop_id le_add2 map_append sum_list_append)
  ultimately have "?need ?rows \<le> size_max" using assms(1) by linarith
  note store = store_rows_all [OF this]
  have "raw_rows format width True a (row_start s a) ?rows = join_lines (map (display_row s format width) [a..<b])"
    if "a < b" for width
    using raw_rows_display [of a a b s format width] joined_range [OF that] assms(4) by simp
  with False store render_selection_raw [OF rows_no_newline, where start = a and row = 0 and off = "row_start s a"] assms(3)
  show ?thesis by (auto simp: stream_output_def line_selection_def)
qed

section \<open>Properties\<close>

text \<open>
  C31. Reading lines of a file through the chunked, display-bounded reader gives exactly the result
  of the in-memory bounded reader on the whole text, whatever the chunk boundaries (they may cut
  CRLF or a multi-byte separator), for every format, error and cut-off case. The sink retains only
  as many bytes as the display budget; no retained byte that matters is lost.
\<close>

theorem read_file_lines_bounded_memory:
  assumes "[] \<notin> set chunks" "length (concat chunks) \<le> max_file_bytes" "max_file_bytes < size_max"
    and "output_bytes + 3 \<le> size_max"
  shows "read_file_lines_bounded (Inr (map Inr chunks)) start n format output_bytes max_file_bytes =
    read_lines_bounded (concat chunks) start n format output_bytes"
proof (cases "known_line_format format")
  case True
  note stream = read_lines_stream_rows [OF assms(1,2) True, of start n output_bytes True]
  show ?thesis
  proof (cases "start \<le> length (split_rows (concat chunks))")
    case le: True
    have "start \<le> selection_end (concat chunks) start n" by (simp add: selection_end_def)
    from stream_output_repair [OF assms(4) True this]
    show ?thesis unfolding read_lines_bounded_rows [OF True le]
      using stream(1) [OF le] assms(3) by (simp add: read_file_lines_bounded_def check_limit_def)
  next
    case False
    with stream(2) assms(3) True show ?thesis
      by (simp add: read_file_lines_bounded_def check_limit_def read_lines_bounded_def count_lines_rows Let_def)
  qed
qed (use assms(3) in \<open>simp add: read_file_lines_bounded_def read_lines_stream_def read_lines_bounded_def check_limit_def\<close>)

theorem read_file_lines_bounded_memory_witness:
  "read_file_lines_bounded (Inr (map Inr [[CHR ''a'', CHR 0x0D], [CHR 0x0A, CHR ''b'']])) 1 1 LineIndexed 8 100 =
    read_lines_bounded [CHR ''a'', CHR 0x0D, CHR 0x0A, CHR ''b''] 1 1 LineIndexed 8"
  using read_file_lines_bounded_memory [of "[[CHR ''a'', CHR 0x0D], [CHR 0x0A, CHR ''b'']]" 100 8 1 1 LineIndexed]
  by (simp add: size_max_def)

text \<open>
  Reading lines of a file without a display budget gives exactly the in-memory result on the
  whole text, whatever the chunk boundaries.
\<close>

theorem read_file_lines_memory:
  assumes "[] \<notin> set chunks" "length (concat chunks) \<le> max_file_bytes" "max_file_bytes < size_max"
  shows "read_file_lines (Inr (map Inr chunks)) start n format max_file_bytes =
    read_lines (concat chunks) start n format"
proof (cases "known_line_format format")
  case True
  note stream = read_lines_stream_rows [OF assms(1,2) True, of start n size_max False]
  have short: "length (concat chunks) < size_max" using assms(2,3) by simp
  show ?thesis
  proof (cases "start \<le> length (split_rows (concat chunks))")
    case le: True
    have e: "start \<le> selection_end (concat chunks) start n"
      "selection_end (concat chunks) start n \<le> length (split_rows (concat chunks))"
      using le by (simp_all add: selection_end_def)
    from stream_output_raw [OF short True e] show ?thesis
      unfolding read_lines_rows [OF True le]
      using stream(1) [OF le] assms(3) by (simp add: read_file_lines_def check_limit_def)
  next
    case False
    with stream(2) assms(3) True show ?thesis
      by (simp add: read_file_lines_def check_limit_def read_lines_def line_count_LineIndex Let_def)
  qed
qed (use assms(3) in \<open>simp add: read_file_lines_def read_lines_stream_def read_lines_def check_limit_def\<close>)

theorem read_file_lines_memory_witness:
  "read_file_lines (Inr (map Inr [[CHR ''a'', CHR 0xE2], [CHR 0x80], [CHR 0xA8, CHR ''b'']])) 0 2 ByteRange 100 =
    read_lines [CHR ''a'', CHR 0xE2, CHR 0x80, CHR 0xA8, CHR ''b''] 0 2 ByteRange"
  using read_file_lines_memory [of "[[CHR ''a'', CHR 0xE2], [CHR 0x80], [CHR 0xA8, CHR ''b'']]" 100 0 2 ByteRange]
  by (simp add: size_max_def)

text \<open>
  The byte limit is enforced on the bytes read, whatever the reads return afterwards: as soon
  as they exceed it, a bounded line read fails with a length error, so growth of the file during
  the scan cannot extend it; an invalid format is refused before the file is touched.
\<close>

theorem read_file_lines_bounded_limit:
  assumes "[] \<notin> set chunks" "max_file_bytes < length (concat chunks)" "max_file_bytes < size_max"
  shows "read_file_lines_bounded (Inr (map Inr chunks @ rest)) start n format output_bytes max_file_bytes =
    (if known_line_format format then Inl (LengthError ''file exceeds the configured byte limit'')
     else Inl (InvalidArgument ''unknown line read format''))"
  using assms
  by (simp add: read_file_lines_bounded_def check_limit_def read_lines_stream_def scan_file_def
      plain_scan.scan_loop_limit row_scan.scan_loop_limit Let_def)

theorem read_file_lines_bounded_limit_witness:
  "read_file_lines_bounded (Inr (map Inr [''abc'', ''d''] @ [Inl (RuntimeError ''read failed'')])) 0 1 PlainLines 8 3 =
    Inl (LengthError ''file exceeds the configured byte limit'')"
  using read_file_lines_bounded_limit [of "[''abc'', ''d'']" 3]
  by (simp add: size_max_def known_line_format_def)

end
