(* ===== verification/Text_Utf8Probe.thy ===== *)
theory Text_Utf8Probe
  imports Text_Display
begin

text \<open>
  \<^verbatim>\<open>textedit/src/utf8_probe.cpp\<close>: the advisory classification of a file prefix. Reading the
  prefix (\<^verbatim>\<open>fileio::read_prefix\<close>) is an argument: either the error code of the
  \<^verbatim>\<open>system_error\<close> it threw or the bytes it returned.
\<close>

datatype utf8_text_likelihood = Likely | Unlikely | Unknown

record utf8_probe_result =
  pr_likelihood :: utf8_text_likelihood
  pr_sampled_bytes :: nat
  pr_truncated :: bool
  pr_incomplete_suffix :: bool
  pr_invalid_utf8_offset :: "nat option"
  pr_suspicious_control_bytes :: nat
  pr_error :: "nat option"

definition probe_result_init :: utf8_probe_result where
  "probe_result_init =
     \<lparr>pr_likelihood = Unknown, pr_sampled_bytes = 0, pr_truncated = False,
      pr_incomplete_suffix = False, pr_invalid_utf8_offset = None,
      pr_suspicious_control_bytes = 0, pr_error = None\<rparr>"

definition suspicious_control :: "char \<Rightarrow> bool" where
  "suspicious_control c \<longleftrightarrow>
     (byte_val c < 0x20 \<and> c \<noteq> CHR 0x09 \<and> c \<noteq> CHR 0x0A \<and> c \<noteq> CHR 0x0D \<and> c \<noteq> CHR 0x0C) \<or>
     byte_val c = 0x7F"

text \<open>
  The UTF-8 scan of \<^verbatim>\<open>inspect_prefix\<close>. The first argument is the sample from \<^verbatim>\<open>offset\<close> on;
  the result is the invalid offset and the incomplete-suffix flag.
\<close>

function scan_utf8 :: "string \<Rightarrow> nat \<Rightarrow> bool \<Rightarrow> nat option \<times> bool" where
  "scan_utf8 rest offset truncated =
     (if rest = [] then (None, False)
      else let first = byte_val (hd rest) in
        if first < 0x80 then scan_utf8 (drop 1 rest) (offset + 1) truncated
        else let width = lead_width first in
          if width \<le> 1 then (Some offset, False)
          else if list_ex (\<lambda>index. bad_continuation first index (byte_val (rest ! index)))
                    [1..<min width (length rest)] then (Some offset, False)
          else if length rest < width then (if truncated then (None, True) else (Some offset, False))
          else scan_utf8 (drop width rest) (offset + width) truncated)"
  by pat_completeness auto
termination
  by (relation "measure (\<lambda>(rest, _, _). length rest)") auto

declare scan_utf8.simps [simp del]

definition inspect_prefix :: "string \<Rightarrow> utf8_probe_result \<Rightarrow> utf8_probe_result" where
  "inspect_prefix bytes result =
     (let controls = pr_suspicious_control_bytes result + length (filter suspicious_control bytes);
          scan = scan_utf8 bytes 0 (pr_truncated result);
          invalid = (case fst scan of None \<Rightarrow> pr_invalid_utf8_offset result | Some off \<Rightarrow> Some off);
          incomplete = (pr_incomplete_suffix result \<or> snd scan)
      in result\<lparr>pr_suspicious_control_bytes := controls,
                pr_invalid_utf8_offset := invalid,
                pr_incomplete_suffix := incomplete,
                pr_likelihood := (if invalid \<noteq> None \<or> controls \<noteq> 0 then Unlikely else Likely)\<rparr>)"

definition probe_utf8_file ::
  "string \<Rightarrow> nat \<Rightarrow> (nat \<Rightarrow> nat + string) \<Rightarrow> utf8_probe_result result" where
  "probe_utf8_file path sample_bytes read_prefix =
     (if sample_bytes = 0 \<or> sample_bytes > 1024 * 1024 then
        Inl (InvalidArgument ''UTF-8 sample size must be between 1 and 1048576 bytes'')
      else if CHR 0x00 \<in> set path then
        Inr (probe_result_init\<lparr>pr_error := Some 22\<rparr>)
      else
        case read_prefix (sample_bytes + 1) of
          Inl code \<Rightarrow> Inr (probe_result_init\<lparr>pr_error := Some code\<rparr>)
        | Inr bytes \<Rightarrow>
            let truncated = length bytes > sample_bytes;
                sampled = (if truncated then sample_bytes else length bytes)
            in Inr (inspect_prefix (take sampled bytes)
                 (probe_result_init\<lparr>pr_truncated := truncated, pr_sampled_bytes := sampled\<rparr>)))"

section \<open>The scan accepts exactly the samples that well-formed text can start with\<close>

definition utf8_prefix :: "string \<Rightarrow> bool" where
  "utf8_prefix s \<longleftrightarrow> (\<exists>ext. utf8_text (s @ ext))"

lemma utf8_text_step:
  assumes "snd (scalar_at s)" "s \<noteq> []"
  shows "utf8_text s = utf8_text (drop (fst (scalar_at s)) s)"
  by (metis append_take_drop_id assms utf8_text_append utf8_text_cases utf8_text_scalar)

lemma scalar_at_append:
  assumes "snd (scalar_at s)" "s \<noteq> []"
  shows "scalar_at (s @ ext) = scalar_at s"
proof -
  have "i < fst (scalar_at s) \<Longrightarrow> (s @ ext) ! i = s ! i" for i
    using scalar_at_valid_length [OF assms(2,1)] by (simp add: nth_append)
  with assms show ?thesis
    by (auto simp: scalar_at_def Let_def list_all_iff split: if_splits)
qed

lemma utf8_prefix_step:
  assumes "snd (scalar_at s)" "s \<noteq> []"
  shows "utf8_prefix s = utf8_prefix (drop (fst (scalar_at s)) s)"
proof -
  have "utf8_text (s @ ext) = utf8_text (drop (fst (scalar_at s)) s @ ext)" for ext
    using utf8_text_step [of "s @ ext"] scalar_at_append [OF assms, of ext]
      scalar_at_valid_length [OF assms(2,1)] assms by simp
  then show ?thesis by (simp add: utf8_prefix_def)
qed

text \<open>A sequence already damaged stays damaged under every extension.\<close>

lemma bad_lead_never:
  assumes "s \<noteq> []" "\<not> byte_val (hd s) < 0x80" "lead_width (byte_val (hd s)) \<le> 1"
  shows "\<not> utf8_prefix s"
  unfolding utf8_prefix_def
proof
  assume "\<exists>ext. utf8_text (s @ ext)"
  then obtain ext where "snd (scalar_at (s @ ext))" using utf8_text_cases assms(1) by blast
  with assms show False by (auto simp: scalar_at_def Let_def)
qed

lemma bad_byte_never:
  assumes "s \<noteq> []" "\<not> byte_val (hd s) < 0x80"
    and "i < lead_width (byte_val (hd s))" "i < length s" "1 \<le> i"
    and "bad_continuation (byte_val (hd s)) i (byte_val (s ! i))"
  shows "\<not> utf8_prefix s"
  unfolding utf8_prefix_def
proof
  assume "\<exists>ext. utf8_text (s @ ext)"
  then obtain ext where "snd (scalar_at (s @ ext))" using utf8_text_cases assms(1) by blast
  with assms have "\<not> bad_continuation (byte_val (hd s)) i (byte_val ((s @ ext) ! i))"
    by (auto simp: scalar_at_def Let_def list_all_iff split: if_splits)
  with assms show False by (simp add: nth_append)
qed

text \<open>An undamaged but unfinished sequence can be completed.\<close>

definition filler :: "nat \<Rightarrow> nat \<Rightarrow> char" where
  "filler first index =
     (if index = 1 \<and> first = 0xE0 then CHR 0xA0
      else if index = 1 \<and> first = 0xF0 then CHR 0x90 else CHR 0x80)"

lemma filler_ok: "1 \<le> index \<Longrightarrow> \<not> bad_continuation first index (byte_val (filler first index))"
  by (auto simp: filler_def bad_continuation_def)

lemma unfinished_completes:
  assumes "s \<noteq> []" "\<not> byte_val (hd s) < 0x80" "1 < lead_width (byte_val (hd s))"
    and "length s < lead_width (byte_val (hd s))"
    and "\<And>i. 1 \<le> i \<Longrightarrow> i < length s \<Longrightarrow> \<not> bad_continuation (byte_val (hd s)) i (byte_val (s ! i))"
  shows "utf8_prefix s"
proof -
  let ?f = "byte_val (hd s)"
  let ?w = "lead_width ?f"
  let ?u = "s @ map (filler ?f) [length s..<?w]"
  have len: "length ?u = ?w" using assms(4) by simp
  have "\<not> bad_continuation ?f i (byte_val (?u ! i))" if "1 \<le> i" "i < ?w" for i
    using that assms(5) filler_ok [of i ?f] by (cases "i < length s") (auto simp: nth_append)
  then have "scalar_at ?u = (?w, True)"
    using assms(1-3) len by (auto simp: scalar_at_def Let_def list_all_iff)
  then have "utf8_text ?u" using utf8_text_scalar [of ?u] assms(1) len by simp
  then show ?thesis unfolding utf8_prefix_def by blast
qed

lemma scan_utf8_exact:
  "(fst (scan_utf8 s off trunc) = None) = (if trunc then utf8_prefix s else utf8_text s)"
proof (induction s off trunc rule: scan_utf8.induct)
  case (1 s off trunc)
  let ?f = "byte_val (hd s)"
  let ?w = "lead_width ?f"
  consider (Nil) "s = []" | (Ascii) "s \<noteq> []" "?f < 0x80"
    | (Lead) "s \<noteq> []" "\<not> ?f < 0x80" "?w \<le> 1"
    | (Bad) i where "s \<noteq> []" "\<not> ?f < 0x80" "1 < ?w" "1 \<le> i" "i < ?w" "i < length s"
        "bad_continuation ?f i (byte_val (s ! i))"
    | (Good) "s \<noteq> []" "\<not> ?f < 0x80" "1 < ?w"
        "\<And>i. 1 \<le> i \<Longrightarrow> i < ?w \<Longrightarrow> i < length s \<Longrightarrow> \<not> bad_continuation ?f i (byte_val (s ! i))"
    by (metis not_le)
  then show ?case
  proof cases
    case Nil
    then show ?thesis by (auto simp: scan_utf8.simps utf8_prefix_def intro: exI [of _ "[]"])
  next
    case Ascii
    then have sc: "scalar_at s = (1, True)" by (simp add: scalar_at_def)
    with Ascii 1(1) [OF Ascii(1) refl Ascii(2)] show ?thesis
      using utf8_text_step [of s] utf8_prefix_step [of s] by (simp add: scan_utf8.simps [of s])
  next
    case Lead
    moreover from Lead have "\<not> utf8_prefix s" by (rule bad_lead_never)
    moreover from this have "\<not> utf8_text s" unfolding utf8_prefix_def by (metis append_Nil2)
    ultimately show ?thesis by (simp add: scan_utf8.simps [of s])
  next
    case Bad
    then have "list_ex (\<lambda>i. bad_continuation ?f i (byte_val (s ! i))) [1..<min ?w (length s)]"
      by (auto simp: list_ex_iff)
    moreover from Bad have "\<not> utf8_prefix s" using bad_byte_never by blast
    moreover from this have "\<not> utf8_text s" unfolding utf8_prefix_def by (metis append_Nil2)
    ultimately show ?thesis using Bad by (simp add: scan_utf8.simps [of s])
  next
    case Good
    then have ok: "\<not> list_ex (\<lambda>i. bad_continuation ?f i (byte_val (s ! i))) [1..<min ?w (length s)]"
      by (auto simp: list_ex_iff)
    show ?thesis
    proof (cases "length s < ?w")
      case True
      then have "\<not> snd (scalar_at s)" using Good by (auto simp: scalar_at_def Let_def)
      then have "\<not> utf8_text s" using utf8_text_cases Good(1) by blast
      moreover have "utf8_prefix s" using unfinished_completes Good True by simp
      ultimately show ?thesis using Good ok True by (simp add: scan_utf8.simps [of s])
    next
      case False
      then have sc: "scalar_at s = (?w, True)"
        using Good by (auto simp: scalar_at_def Let_def list_all_iff)
      have "\<not> ?w \<le> 1" using Good(3) by simp
      note IH = 1(2) [OF Good(1) refl Good(2) refl this ok False]
      show ?thesis
        using IH Good(1-3) ok False sc utf8_text_step [of s] utf8_prefix_step [of s]
        by (simp add: scan_utf8.simps [of s] Let_def)
    qed
  qed
qed

section \<open>Properties\<close>

text \<open>
  A probe that reached end of file says \<^const>\<open>Likely\<close> exactly for well-formed UTF-8 free
  of suspicious control bytes; a probe cut off by its sample size says so exactly when some
  continuation of the sample would be well-formed.
\<close>

theorem probe_likelihood_exact:
  assumes "0 < sample_bytes" "sample_bytes \<le> 1048576" "CHR 0x00 \<notin> set path"
    and "read_prefix (sample_bytes + 1) = Inr bytes"
  shows "\<exists>result. probe_utf8_file path sample_bytes read_prefix = Inr result \<and>
    pr_sampled_bytes result = min sample_bytes (length bytes) \<and>
    (pr_likelihood result = Likely) =
      ((if length bytes > sample_bytes then utf8_prefix (take sample_bytes bytes) else utf8_text bytes) \<and>
       list_all (\<lambda>c. \<not> suspicious_control c) (take sample_bytes bytes))"
proof -
  have none: "(length (filter suspicious_control xs) = 0) = list_all (\<lambda>c. \<not> suspicious_control c) xs" for xs
    by (simp add: filter_empty_conv list_all_iff)
  let ?t = "sample_bytes < length bytes"
  let ?s = "take sample_bytes bytes"
  have "probe_utf8_file path sample_bytes read_prefix =
      Inr (inspect_prefix ?s (probe_result_init\<lparr>pr_truncated := ?t,
        pr_sampled_bytes := min sample_bytes (length bytes)\<rparr>))"
    using assms by (auto simp: probe_utf8_file_def Let_def min_def)
  moreover have "(fst (scan_utf8 ?s 0 ?t) = None) =
      (if ?t then utf8_prefix ?s else utf8_text ?s)"
    by (rule scan_utf8_exact)
  ultimately show ?thesis
    using none [of ?s]
    by (auto simp: inspect_prefix_def Let_def probe_result_init_def split: option.splits if_splits)
qed

theorem probe_likelihood_exact_witness:
  "\<exists>result. probe_utf8_file ''a.txt'' 4 (\<lambda>n. Inr ''ok'') = Inr result \<and>
     pr_sampled_bytes result = min 4 (length ''ok'') \<and>
     (pr_likelihood result = Likely) =
       ((if length ''ok'' > 4 then utf8_prefix (take 4 ''ok'') else utf8_text ''ok'') \<and>
        list_all (\<lambda>c. \<not> suspicious_control c) (take 4 ''ok''))"
  by (rule probe_likelihood_exact [where read_prefix = "\<lambda>n. Inr ''ok''"]) simp_all

end
