(* ===== verification/Text_Edit.thy ===== *)
theory Text_Edit
  imports Text_Read
begin

text \<open>
  The in-memory string replacement of \<^verbatim>\<open>textedit/src/edit.cpp\<close> and the excerpt renderer of
  \<^verbatim>\<open>textedit/src/rows.hpp\<close> it shares with the streaming edit. The renderer works on any row cursor:
  the cursor's operations are a record, its contract is the locale \<open>row_cursor\<close>, and
  \<^verbatim>\<open>TextViewCursor\<close> is one instance.
\<close>

section \<open>Positions\<close>

text \<open>The loop of \<^verbatim>\<open>position_of\<close>; \<open>rest\<close> is the text from \<open>offset\<close> on.\<close>

function position_loop :: "string \<Rightarrow> nat \<Rightarrow> nat \<Rightarrow> nat \<Rightarrow> nat \<Rightarrow> nat \<times> nat" where
  "position_loop rest byte offset line start =
     (if offset < byte then
        (let width = line_break_width rest in
         if width = 0 then position_loop (tl rest) byte (offset + 1) line start
         else if offset + width \<le> byte then
           position_loop (drop width rest) byte (offset + width) (line + 1) (offset + width)
         else (line, start))
      else (line, start))"
  by pat_completeness auto
termination
  by (relation "measure (\<lambda>(_, byte, offset, _, _). byte - offset)") auto

declare position_loop.simps [simp del]

definition position_of :: "string \<Rightarrow> nat \<Rightarrow> text_position" where
  "position_of text byte = (let (line, start) = position_loop text byte 0 0 0 in text_pos line (byte - start))"

definition kMaxContextLines :: nat where "kMaxContextLines = 20"

definition kMaxShownLines :: nat where "kMaxShownLines = 48"

definition kMaxLineDisplayBytes :: nat where "kMaxLineDisplayBytes = 512"

definition kRowWindowBytes :: nat where "kRowWindowBytes = kMaxLineDisplayBytes + 4"

record excerpt_rows =
  er_first :: nat
  er_last :: nat
  er_changed_first :: nat
  er_changed_last :: nat

definition excerpt_range :: "string \<Rightarrow> nat \<Rightarrow> nat \<Rightarrow> nat \<Rightarrow> excerpt_rows" where
  "excerpt_range text start_byte changed_bytes context =
     (let number = count_lines text;
          first_changed = tp_line (position_of text start_byte);
          last_changed = (if changed_bytes = 0 then first_changed
                          else tp_line (position_of text (start_byte + changed_bytes - 1))) in
      \<lparr>er_first = (if first_changed > context then first_changed - context else 0),
       er_last = last_changed + min context (number - 1 - last_changed),
       er_changed_first = first_changed, er_changed_last = last_changed\<rparr>)"

section \<open>Row cursors\<close>

definition focus_window_start :: "nat \<Rightarrow> nat \<Rightarrow> nat" where
  "focus_window_start len focus_column =
     (if len > kMaxLineDisplayBytes \<and> focus_column > 128 then focus_column - 128 else 0)"

text \<open>The virtual operations of \<^verbatim>\<open>RowCursor\<close>; seeking may throw.\<close>

record 'c cursor_ops =
  cu_seek :: "nat \<Rightarrow> 'c \<Rightarrow> 'c result"
  cu_start :: "'c \<Rightarrow> nat"
  cu_length :: "'c \<Rightarrow> nat"
  cu_content :: "nat \<Rightarrow> 'c \<Rightarrow> string"

record text_view_cursor =
  tv_text :: string
  tv_current :: nat
  tv_start :: nat
  tv_row_end :: nat
  tv_next :: nat

text \<open>The scan of \<^verbatim>\<open>measure\<close>: the end of the row and the start of the next, with their defaults at the end.\<close>

function measure_loop :: "string \<Rightarrow> nat \<Rightarrow> nat \<times> nat" where
  "measure_loop rest offset =
     (if rest = [] then (offset, offset)
      else let width = line_break_width rest in
        if width = 0 then measure_loop (tl rest) (offset + 1) else (offset, offset + width))"
  by pat_completeness auto
termination
  by (relation "measure (\<lambda>(rest, _). length rest)") auto

declare measure_loop.simps [simp del]

definition tv_measure :: "text_view_cursor \<Rightarrow> text_view_cursor" where
  "tv_measure c = (let (e, n) = measure_loop (drop (tv_start c) (tv_text c)) (tv_start c)
                   in c\<lparr>tv_row_end := e, tv_next := n\<rparr>)"

definition TextViewCursor :: "string \<Rightarrow> text_view_cursor" where
  "TextViewCursor text =
     tv_measure \<lparr>tv_text = text, tv_current = 0, tv_start = 0, tv_row_end = 0, tv_next = 0\<rparr>"

function tv_seek :: "nat \<Rightarrow> text_view_cursor \<Rightarrow> text_view_cursor" where
  "tv_seek line c =
     (if tv_current c < line \<and> tv_next c > tv_start c then
        tv_seek line (tv_measure (c\<lparr>tv_start := tv_next c, tv_current := tv_current c + 1\<rparr>))
      else c)"
  by pat_completeness auto
termination
  by (relation "measure (\<lambda>(line, c). line - tv_current c)") (auto simp: tv_measure_def split: prod.split)

declare tv_seek.simps [simp del]

definition tv_length :: "text_view_cursor \<Rightarrow> nat" where
  "tv_length c = tv_row_end c - tv_start c"

definition tv_content :: "nat \<Rightarrow> text_view_cursor \<Rightarrow> string" where
  "tv_content from c =
     (if from \<ge> tv_length c then []
      else substr (tv_text c) (tv_start c + from) (min kRowWindowBytes (tv_length c - from)))"

definition text_view_ops :: "text_view_cursor cursor_ops" where
  "text_view_ops = \<lparr>cu_seek = (\<lambda>line c. Inr (tv_seek line c)), cu_start = tv_start, cu_length = tv_length, cu_content = tv_content\<rparr>"

section \<open>Excerpts\<close>

text \<open>One row of an excerpt; the second component is the \<^verbatim>\<open>clipped\<close> flag.\<close>

definition append_line ::
  "'c cursor_ops \<Rightarrow> 'c \<Rightarrow> nat \<Rightarrow> nat \<Rightarrow> char \<Rightarrow> nat \<Rightarrow> string \<times> bool \<Rightarrow> string \<times> bool" where
  "append_line ops cursor number width marker focus_column = (\<lambda>(output, clipped).
     (let len = cu_length ops cursor;
          shown_from = focus_window_start len focus_column;
          head = (if output \<noteq> [] then output @ [CHR 0x0A] else output) @ [marker] @ '' '' @ padded number width @ '' | '';
          skipped = (if shown_from > 0 then ''[... '' @ to_string shown_from @ '' bytes skipped ...] '' else []);
          writer = dw_append (cu_content ops shown_from cursor) (DisplayWriter kMaxLineDisplayBytes);
          cut_short = dw_truncated writer \<or> shown_from + dw_consumed writer < len in
      (head @ skipped @ dw_output writer @ (if cut_short then '' ... [line clipped]'' else []),
       clipped \<or> shown_from > 0 \<or> cut_short)))"

definition omission_row :: "nat \<Rightarrow> nat \<Rightarrow> string \<times> bool \<Rightarrow> string \<times> bool" where
  "omission_row width omitted = (\<lambda>(output, clipped).
     ((if output \<noteq> [] then output @ [CHR 0x0A] else output) @ ''! '' @ replicate width CHR '' '' @ '' | ... '' @
      to_string omitted @ '' lines omitted ...'', True))"

definition focus_of :: "excerpt_rows \<Rightarrow> nat \<Rightarrow> nat \<Rightarrow> nat \<Rightarrow> nat \<Rightarrow> nat" where
  "focus_of rows changed_start_byte changed_bytes number start =
     (if number = er_changed_first rows then
        (if changed_start_byte \<ge> start then changed_start_byte - start else 0)
      else if number = er_changed_last rows \<and> changed_bytes > 0 then
        (let final = changed_start_byte + changed_bytes - 1 in if final \<ge> start then final - start else 0)
      else 0)"

definition row_marker :: "excerpt_rows \<Rightarrow> char \<Rightarrow> nat \<Rightarrow> char" where
  "row_marker rows changed_marker number =
     (if number \<ge> er_changed_first rows \<and> number \<le> er_changed_last rows then changed_marker else CHR '' '')"

text \<open>The rows from \<open>number\<close> to the last; each turn shows, omits or skips one row.\<close>

function excerpt_loop ::
  "'c cursor_ops \<Rightarrow> excerpt_rows \<Rightarrow> nat \<Rightarrow> char \<Rightarrow> nat \<Rightarrow> nat \<Rightarrow> nat \<Rightarrow> 'c \<Rightarrow> string \<times> bool \<Rightarrow> (string \<times> bool) result" where
  "excerpt_loop ops rows width changed_marker changed_start_byte changed_bytes number cursor out =
     (let omit_middle = er_last rows - er_first rows + 1 > kMaxShownLines;
          head_end = er_first rows + kMaxShownLines div 2;
          tail_start = er_last rows - kMaxShownLines div 2 + 1;
          out1 = (if omit_middle \<and> number = head_end then omission_row width (tail_start - head_end) out else out) in
      and_then
        (if \<not> omit_middle \<or> number < head_end \<or> number \<ge> tail_start then
           and_then (cu_seek ops number cursor) (\<lambda>c.
             Inr (c, append_line ops c number width (row_marker rows changed_marker number)
                       (focus_of rows changed_start_byte changed_bytes number (cu_start ops c)) out1))
         else Inr (cursor, out1))
        (\<lambda>(cursor', out2).
          if number \<ge> er_last rows then Inr out2
          else excerpt_loop ops rows width changed_marker changed_start_byte changed_bytes (number + 1) cursor' out2))"
  by pat_completeness auto
termination
  by (relation "measure (\<lambda>(ops, rows, _, _, _, _, number, _). er_last rows - number)") (auto simp: Let_def)

declare excerpt_loop.simps [simp del]

definition render_excerpt ::
  "'c cursor_ops \<Rightarrow> 'c \<Rightarrow> excerpt_rows \<Rightarrow> nat \<Rightarrow> char \<Rightarrow> nat \<Rightarrow> nat \<Rightarrow> bool \<Rightarrow> (string \<times> bool) result" where
  "render_excerpt ops cursor rows width changed_marker changed_start_byte changed_bytes clipped =
     excerpt_loop ops rows width changed_marker changed_start_byte changed_bytes (er_first rows) cursor ([], clipped)"

section \<open>The edit\<close>

datatype edit_status = Modified | Unchanged | NotFound | Ambiguous | Conflict | PublishedSyncFailed

fun edit_status_name :: "edit_status \<Rightarrow> string" where
  "edit_status_name Modified = ''modified''"
| "edit_status_name Unchanged = ''unchanged''"
| "edit_status_name NotFound = ''not_found''"
| "edit_status_name Ambiguous = ''ambiguous''"
| "edit_status_name Conflict = ''conflict''"
| "edit_status_name PublishedSyncFailed = ''published_sync_failed''"

record edit_result =
  ed_status :: edit_status
  ed_matches_at_least :: nat
  ed_second_match_byte :: "nat option"
  ed_match_byte :: nat
  ed_before_position :: text_position
  ed_after_position :: text_position
  ed_before_bytes :: nat
  ed_after_bytes :: nat
  ed_before_excerpt :: string
  ed_after_excerpt :: string
  ed_preview_truncated :: bool
  ed_persistence_error :: "nat option"

definition EditResult :: edit_result where
  "EditResult =
     \<lparr>ed_status = NotFound, ed_matches_at_least = 0, ed_second_match_byte = None, ed_match_byte = 0,
      ed_before_position = text_pos 0 0, ed_after_position = text_pos 0 0, ed_before_bytes = 0, ed_after_bytes = 0,
      ed_before_excerpt = [], ed_after_excerpt = [], ed_preview_truncated = False, ed_persistence_error = None\<rparr>"

record prepared_edit =
  pe_result :: edit_result
  pe_updated_text :: string

text \<open>\<^verbatim>\<open>std::string_view::find(pattern, pos)\<close> for a nonempty pattern.\<close>

fun find_loop :: "string \<Rightarrow> string \<Rightarrow> nat \<Rightarrow> nat option" where
  "find_loop pattern [] at = None"
| "find_loop pattern (c # cs) at =
     (if starts_with (c # cs) pattern then Some at else find_loop pattern cs (at + 1))"

definition find_from :: "string \<Rightarrow> string \<Rightarrow> nat \<Rightarrow> nat option" where
  "find_from text pattern pos = find_loop pattern (drop pos text) pos"

definition prepare_str_replace :: "string \<Rightarrow> string \<Rightarrow> string \<Rightarrow> nat \<Rightarrow> nat \<Rightarrow> prepared_edit result" where
  "prepare_str_replace original old_text new_text context_lines max_file_bytes =
     (if old_text = [] then Inl (InvalidArgument ''old_text must not be empty'')
      else if context_lines > kMaxContextLines then Inl (InvalidArgument ''context_lines must not exceed 20'')
      else if length original > max_file_bytes then
        Inl (LengthError ''original text exceeds the configured byte limit'')
      else
        let result0 = EditResult\<lparr>ed_before_bytes := length original, ed_after_bytes := length original\<rparr> in
        case find_from original old_text 0 of
          None \<Rightarrow> Inr \<lparr>pe_result = result0, pe_updated_text = []\<rparr>
        | Some first \<Rightarrow>
            let result1 = result0\<lparr>ed_matches_at_least := 1, ed_match_byte := first\<rparr> in
            case find_from original old_text (first + 1) of
              Some second \<Rightarrow>
                Inr \<lparr>pe_result = result1\<lparr>ed_status := Ambiguous, ed_matches_at_least := 2,
                       ed_second_match_byte := Some second\<rparr>,
                     pe_updated_text = []\<rparr>
            | None \<Rightarrow>
                let base = length original - length old_text in
                if base > max_file_bytes \<or> length new_text > max_file_bytes - base then
                  Inl (LengthError ''edited text exceeds the configured byte limit'')
                else
                  let changed = (old_text \<noteq> new_text);
                      updated = (if changed then take first original @ new_text @ drop (first + length old_text) original else []);
                      after = (if changed then updated else original);
                      before_range = excerpt_range original first (length old_text) context_lines;
                      after_range = excerpt_range after first (length new_text) context_lines;
                      width = max (length (to_string (er_last before_range))) (length (to_string (er_last after_range)));
                      mark = (\<lambda>c. if changed then c else CHR ''='') in
                  and_then (render_excerpt text_view_ops (TextViewCursor original) before_range width
                    (mark CHR ''-'') first (length old_text) False) (\<lambda>(before_excerpt, clipped1).
                  and_then (render_excerpt text_view_ops (TextViewCursor after) after_range width
                    (mark CHR ''+'') first (length new_text) clipped1) (\<lambda>(after_excerpt, clipped2).
                  Inr \<lparr>pe_result = result1\<lparr>ed_status := (if changed then Modified else Unchanged),
                         ed_after_bytes := base + length new_text,
                         ed_before_position := position_of original first, ed_after_position := position_of after first,
                         ed_before_excerpt := before_excerpt, ed_after_excerpt := after_excerpt,
                         ed_preview_truncated := clipped2\<rparr>,
                       pe_updated_text = updated\<rparr>)))"

section \<open>Positions agree with the line index\<close>

lemma in_row_first: "in_row s n 0 \<Longrightarrow> n = 0"
  by (rule in_row_unique [of s n 0 0]) (auto simp: in_row_def intro: row_len_pos simp: row_start_Suc)

lemma in_row_content:
  assumes "line_break_width (c # cs) = 0" "in_row (c # cs) n (Suc k)"
  shows "in_row cs n k"
proof -
  have len: "length (split_rows (c # cs)) = length (split_rows cs)"
    by (cases "split_rows cs") (auto simp: split_rows_content [OF assms(1)] cons_row_def)
  show ?thesis
    using assms(2) row_start_content [OF assms(1), of n] row_start_content [OF assms(1), of "Suc n"]
    by (cases n) (auto simp: in_row_def len)
qed

lemma in_row_break:
  assumes w: "line_break_width s \<noteq> 0" and r: "in_row s n k"
  shows "if k < line_break_width s then n = 0
    else \<exists>m. n = Suc m \<and> in_row (drop (line_break_width s) s) m (k - line_break_width s)"
proof -
  let ?w = "line_break_width s" let ?d = "drop ?w s"
  have rows: "split_rows s = ([], take ?w s) # split_rows ?d" by (rule split_rows_break [OF w])
  show ?thesis
  proof (cases n)
    case 0
    have "row_start s (Suc 0) = ?w" by (simp add: row_start_break [OF w])
    then have "k < ?w" using r 0 by (auto simp: in_row_def rows)
    then show ?thesis using 0 by simp
  next
    case (Suc m)
    have "row_start s n = ?w + row_start ?d m" "row_start s (Suc n) = ?w + row_start ?d (Suc m)"
      by (simp_all add: Suc row_start_break [OF w])
    then show ?thesis using r Suc line_break_width_le [of s] by (auto simp: in_row_def rows)
  qed
qed

lemma position_loop_rows:
  assumes "in_row rest n (byte - offset)" "offset \<le> byte"
  shows "position_loop rest byte offset line start =
    (line + n, if n = 0 then start else offset + row_start rest n)"
  using assms
proof (induction rest arbitrary: offset line start n rule: rows_induct)
  case Nil
  then have "byte = offset" "n = 0" by (auto simp: in_row_def)
  then show ?case by (simp add: position_loop.simps)
next
  case (Content c cs)
  show ?case
  proof (cases "offset = byte")
    case True
    then show ?thesis using Content.prems in_row_first by (auto simp: position_loop.simps)
  next
    case False
    then have lt: "offset < byte" using Content.prems by simp
    have "in_row cs n (byte - (offset + 1))"
      by (rule in_row_content [OF Content.hyps]) (use Content.prems(1) lt in \<open>simp add: Suc_diff_Suc\<close>)
    then show ?thesis
      using Content.IH [of n "offset + 1" line start] Content.hyps lt
      by (subst position_loop.simps) (simp add: row_start_content [OF Content.hyps])
  qed
next
  case (Break s)
  let ?w = "line_break_width s"
  show ?case
  proof (cases "offset + ?w \<le> byte")
    case True
    then obtain m where m: "n = Suc m" "in_row (drop ?w s) m (byte - (offset + ?w))"
      using in_row_break [OF Break.hyps Break.prems(1)] by (auto simp: less_diff_conv2 not_less [symmetric])
    then show ?thesis
      using Break.IH [of m "offset + ?w" "line + 1" "offset + ?w"] True Break.hyps
      by (subst position_loop.simps) (auto simp: Let_def row_start_break)
  next
    case False
    then have "byte - offset < ?w" using Break.prems(2) by linarith
    then have "n = 0" using in_row_break [OF Break.hyps Break.prems(1)] by simp
    then show ?thesis using False Break.hyps by (subst position_loop.simps) simp
  qed
qed

lemma position_of_in_row: "in_row s n byte \<Longrightarrow> position_of s byte = text_pos n (byte - row_start s n)"
  using position_loop_rows [of s n byte 0 0 0] by (auto simp: position_of_def)

section \<open>Searching\<close>

definition occurs_at :: "string \<Rightarrow> string \<Rightarrow> nat \<Rightarrow> bool" where
  "occurs_at text pattern i \<longleftrightarrow> i + length pattern \<le> length text \<and> substr text i (length pattern) = pattern"

lemma occurs_at_Nil: "pattern \<noteq> [] \<Longrightarrow> \<not> occurs_at [] pattern i"
  by (simp add: occurs_at_def)

lemma occurs_at_0: "occurs_at s pattern 0 \<longleftrightarrow> starts_with s pattern"
  by (auto simp: occurs_at_def starts_with_def substr_def) (metis length_take min.cobounded1)

lemma occurs_at_Suc: "occurs_at (c # cs) pattern (Suc i) \<longleftrightarrow> occurs_at cs pattern i"
  by (simp add: occurs_at_def substr_def)

lemma occurs_at_drop: "pos \<le> length s \<Longrightarrow> occurs_at (drop pos s) pattern i \<longleftrightarrow> occurs_at s pattern (pos + i)"
  by (auto simp: occurs_at_def substr_def add.commute)

lemma find_loop_exact:
  assumes "pattern \<noteq> []"
  shows "case find_loop pattern s at of
     None \<Rightarrow> \<forall>i. \<not> occurs_at s pattern i
   | Some i \<Rightarrow> at \<le> i \<and> occurs_at s pattern (i - at) \<and> (\<forall>j < i - at. \<not> occurs_at s pattern j)"
proof (induction s arbitrary: at)
  case Nil then show ?case by (simp add: occurs_at_Nil [OF assms])
next
  case (Cons c cs)
  have all: "(\<forall>i. \<not> occurs_at (c # cs) pattern i) \<longleftrightarrow> \<not> starts_with (c # cs) pattern \<and> (\<forall>i. \<not> occurs_at cs pattern i)"
    by (metis not0_implies_Suc occurs_at_0 occurs_at_Suc)
  show ?case
  proof (cases "starts_with (c # cs) pattern")
    case True then show ?thesis by (simp add: occurs_at_0)
  next
    case False
    show ?thesis
    proof (cases "find_loop pattern cs (at + 1)")
      case None then show ?thesis using Cons.IH [of "at + 1"] False all by simp
    next
      case (Some i)
      then have "at + 1 \<le> i" "occurs_at cs pattern (i - (at + 1))" "\<forall>j < i - (at + 1). \<not> occurs_at cs pattern j"
        using Cons.IH [of "at + 1"] by simp_all
      moreover have "i - at = Suc (i - (at + 1))" using calculation by simp
      ultimately show ?thesis
        using Some False by (auto simp: occurs_at_Suc occurs_at_0 less_Suc_eq_0_disj)
    qed
  qed
qed

lemma find_from_exact:
  assumes "pattern \<noteq> []" "pos \<le> length s"
  shows "case find_from s pattern pos of
     None \<Rightarrow> \<forall>i\<ge>pos. \<not> occurs_at s pattern i
   | Some i \<Rightarrow> pos \<le> i \<and> occurs_at s pattern i \<and> (\<forall>j\<ge>pos. j < i \<longrightarrow> \<not> occurs_at s pattern j)"
  using find_loop_exact [OF assms(1), of "drop pos s" pos]
  by (auto simp: find_from_def occurs_at_drop [OF assms(2)] split: option.splits)
     (metis le_add_diff_inverse, metis add.commute le_add_diff_inverse less_diff_conv)

section \<open>The cursor contract\<close>

text \<open>
  What the renderer relies on. \<open>at n c\<close> says that cursor \<open>c\<close> stands on row \<open>n\<close> of the text \<open>s\<close>,
  \<open>ready m c\<close> that it has not passed row \<open>m\<close>. A cursor moves forward to any available row, and there
  reports the row's start, its content length, and its content from the start of the row and from the
  row's focus window.
\<close>

locale row_cursor =
  fixes ops :: "'c cursor_ops" and s :: string and at ready :: "nat \<Rightarrow> 'c \<Rightarrow> bool"
    and available :: "nat \<Rightarrow> bool" and window :: "nat \<Rightarrow> nat"
  assumes seek_at: "ready m c \<Longrightarrow> m \<le> n \<Longrightarrow> available n \<Longrightarrow> \<exists>c'. cu_seek ops n c = Inr c' \<and> at n c'"
    and at_ready: "at n c \<Longrightarrow> ready n c"
    and start_at: "at n c \<Longrightarrow> cu_start ops c = row_start s n"
    and length_at: "at n c \<Longrightarrow> cu_length ops c = length (fst (split_rows s ! n))"
    and content_at: "at n c \<Longrightarrow> from = 0 \<or> from = window n \<Longrightarrow>
      cu_content ops from c = take kRowWindowBytes (drop from (fst (split_rows s ! n)))"

lemma measure_loop_rows:
  "measure_loop s off = (off + length (fst (hd (split_rows s))), off + row_len (hd (split_rows s)))"
proof (induction s arbitrary: off rule: rows_induct)
  case Nil then show ?case by (simp add: measure_loop.simps row_len_def)
next
  case (Content c cs)
  then show ?case
    by (subst measure_loop.simps) (simp add: split_rows_content cons_row_def row_len_def)
next
  case (Break s)
  then show ?case
    using line_break_width_le [of s]
    by (subst measure_loop.simps) (auto simp: split_rows_break row_len_def Let_def)
qed

definition tv_at :: "string \<Rightarrow> nat \<Rightarrow> text_view_cursor \<Rightarrow> bool" where
  "tv_at s n c \<longleftrightarrow> n < length (split_rows s) \<and> tv_text c = s \<and> tv_current c = n \<and> tv_start c = row_start s n \<and>
     tv_row_end c = row_start s n + length (fst (split_rows s ! n)) \<and> tv_next c = row_start s (Suc n)"

lemma tv_measure_at:
  assumes "n < length (split_rows (tv_text c))" "tv_current c = n" "tv_start c = row_start (tv_text c) n"
  shows "tv_at (tv_text c) n (tv_measure c)"
  using assms by (simp add: tv_measure_def tv_at_def measure_loop_rows split_rows_drop hd_drop_conv_nth row_start_Suc)

lemma TextViewCursor_at: "tv_at s 0 (TextViewCursor s)"
  unfolding TextViewCursor_def
  using tv_measure_at [of 0 "\<lparr>tv_text = s, tv_current = 0, tv_start = 0, tv_row_end = 0, tv_next = 0\<rparr>"]
  by simp

lemma tv_seek_at: "tv_at s m c \<Longrightarrow> m \<le> n \<Longrightarrow> n < length (split_rows s) \<Longrightarrow> tv_at s n (tv_seek n c)"
proof (induction "n - m" arbitrary: m c)
  case 0
  then show ?case by (subst tv_seek.simps) (simp add: tv_at_def)
next
  case (Suc d)
  then have lt: "m < n" by simp
  let ?c = "c\<lparr>tv_start := tv_next c, tv_current := tv_current c + 1\<rparr>"
  have c: "tv_text c = s" "tv_current c = m" "tv_start c = row_start s m" "tv_next c = row_start s (Suc m)"
    using Suc.prems(1) by (simp_all add: tv_at_def)
  have "row_start s m < row_start s (Suc m)" using lt Suc.prems(3) by (intro row_start_strict) auto
  then have step: "tv_seek n c = tv_seek n (tv_measure ?c)"
    using lt c by (subst tv_seek.simps) simp
  have "tv_at s (Suc m) (tv_measure ?c)"
    using tv_measure_at [of "Suc m" ?c] lt Suc.prems(3) c by simp
  then show ?case using Suc.hyps(1) [of "Suc m" "tv_measure ?c"] Suc.hyps(2) lt Suc.prems(3) step by simp
qed

lemma row_content_window:
  assumes "n < length (split_rows s)" "from + k \<le> length (fst (split_rows s ! n))"
  shows "substr s (row_start s n + from) k = take k (drop from (fst (split_rows s ! n)))"
proof -
  have d: "drop (row_start s n) s = fst (split_rows s ! n) @ snd (split_rows s ! n) @
      concat (drop (Suc n) (map row_bytes (split_rows s)))"
    unfolding drop_row_start using assms(1) by (simp add: Cons_nth_drop_Suc [symmetric] row_bytes_def del: Cons_nth_drop_Suc)
  have "substr s (row_start s n + from) k = take k (drop from (drop (row_start s n) s))"
    by (simp add: substr_def add.commute)
  then show ?thesis using assms(2) by (simp add: d)
qed

lemma tv_content_at:
  assumes "tv_at s n c"
  shows "tv_content from c = take kRowWindowBytes (drop from (fst (split_rows s ! n)))"
proof -
  have len: "tv_length c = length (fst (split_rows s ! n))" using assms by (simp add: tv_at_def tv_length_def)
  show ?thesis
  proof (cases "from \<ge> tv_length c")
    case True then show ?thesis by (simp add: tv_content_def len)
  next
    case False
    then have "substr s (row_start s n + from) (min kRowWindowBytes (tv_length c - from)) =
        take (min kRowWindowBytes (tv_length c - from)) (drop from (fst (split_rows s ! n)))"
      by (intro row_content_window) (use assms in \<open>auto simp: tv_at_def len\<close>)
    then show ?thesis using False assms by (simp add: tv_content_def tv_at_def len [symmetric] min_def)
  qed
qed

interpretation text_view: row_cursor text_view_ops s "tv_at s" "tv_at s" "\<lambda>n. n < length (split_rows s)" window for s window
  by unfold_locales
     (auto simp: text_view_ops_def tv_seek_at tv_content_at, auto simp: tv_at_def tv_length_def)

section \<open>What an excerpt shows\<close>

text \<open>An excerpt is a list of rows and at most one omission, each rendered as one line.\<close>

datatype excerpt_item = ShownRow nat | OmittedRows nat

definition row_window :: "string \<Rightarrow> excerpt_rows \<Rightarrow> nat \<Rightarrow> nat \<Rightarrow> nat \<Rightarrow> nat" where
  "row_window s rows changed_start_byte changed_bytes n =
     focus_window_start (length (fst (split_rows s ! n)))
       (focus_of rows changed_start_byte changed_bytes n (row_start s n))"

definition row_writer :: "string \<Rightarrow> excerpt_rows \<Rightarrow> nat \<Rightarrow> nat \<Rightarrow> nat \<Rightarrow> display_writer" where
  "row_writer s rows changed_start_byte changed_bytes n =
     dw_append (take kRowWindowBytes (drop (row_window s rows changed_start_byte changed_bytes n) (fst (split_rows s ! n))))
       (DisplayWriter kMaxLineDisplayBytes)"

definition row_cut :: "string \<Rightarrow> excerpt_rows \<Rightarrow> nat \<Rightarrow> nat \<Rightarrow> nat \<Rightarrow> bool" where
  "row_cut s rows b k n \<longleftrightarrow> dw_truncated (row_writer s rows b k n) \<or>
     row_window s rows b k n + dw_consumed (row_writer s rows b k n) < length (fst (split_rows s ! n))"

fun item_line :: "string \<Rightarrow> excerpt_rows \<Rightarrow> nat \<Rightarrow> char \<Rightarrow> nat \<Rightarrow> nat \<Rightarrow> excerpt_item \<Rightarrow> string" where
  "item_line s rows width mark b k (OmittedRows m) =
     ''! '' @ replicate width CHR '' '' @ '' | ... '' @ to_string m @ '' lines omitted ...''"
| "item_line s rows width mark b k (ShownRow n) =
     [row_marker rows mark n] @ '' '' @ padded n width @ '' | '' @
     (if row_window s rows b k n > 0 then ''[... '' @ to_string (row_window s rows b k n) @ '' bytes skipped ...] '' else []) @
     dw_output (row_writer s rows b k n) @ (if row_cut s rows b k n then '' ... [line clipped]'' else [])"

fun item_clipped :: "string \<Rightarrow> excerpt_rows \<Rightarrow> nat \<Rightarrow> nat \<Rightarrow> excerpt_item \<Rightarrow> bool" where
  "item_clipped s rows b k (OmittedRows m) = True"
| "item_clipped s rows b k (ShownRow n) = (row_window s rows b k n > 0 \<or> row_cut s rows b k n)"

definition row_items :: "excerpt_rows \<Rightarrow> nat \<Rightarrow> excerpt_item list" where
  "row_items rows n =
     (let omit_middle = er_last rows - er_first rows + 1 > kMaxShownLines;
          head_end = er_first rows + kMaxShownLines div 2;
          tail_start = er_last rows - kMaxShownLines div 2 + 1 in
      (if omit_middle \<and> n = head_end then [OmittedRows (tail_start - head_end)] else []) @
      (if \<not> omit_middle \<or> n < head_end \<or> n \<ge> tail_start then [ShownRow n] else []))"

definition emit_item :: "string \<Rightarrow> excerpt_rows \<Rightarrow> nat \<Rightarrow> char \<Rightarrow> nat \<Rightarrow> nat \<Rightarrow> excerpt_item \<Rightarrow> string \<times> bool \<Rightarrow> string \<times> bool" where
  "emit_item s rows width mark b k item out =
     ((if fst out \<noteq> [] then fst out @ [CHR 0x0A] else fst out) @ item_line s rows width mark b k item,
      snd out \<or> item_clipped s rows b k item)"

lemma omission_row_item: "omission_row width m out = emit_item s rows width mark b k (OmittedRows m) out"
  by (cases out) (simp add: omission_row_def emit_item_def)

context row_cursor
begin

lemma append_line_item:
  assumes "at n c" "row_window s rows b k n = 0 \<or> row_window s rows b k n = window n"
  shows "append_line ops c n width (row_marker rows mark n) (focus_of rows b k n (cu_start ops c)) out =
    emit_item s rows width mark b k (ShownRow n) out"
proof -
  have "cu_content ops (row_window s rows b k n) c =
      take kRowWindowBytes (drop (row_window s rows b k n) (fst (split_rows s ! n)))"
    by (rule content_at [OF assms])
  then show ?thesis
    unfolding append_line_def emit_item_def
    by (cases out) (auto simp: start_at [OF assms(1)] length_at [OF assms(1)] Let_def
        row_window_def [symmetric] row_writer_def [symmetric] row_cut_def)
qed

definition covers :: "excerpt_rows \<Rightarrow> nat \<Rightarrow> nat \<Rightarrow> bool" where
  "covers rows b k \<longleftrightarrow> (\<forall>n. er_first rows \<le> n \<and> n \<le> er_last rows \<and> ShownRow n \<in> set (row_items rows n) \<longrightarrow>
     available n \<and> (row_window s rows b k n = 0 \<or> row_window s rows b k n = window n))"

lemma excerpt_loop_items:
  assumes "ready m c" "m \<le> number" "er_first rows \<le> number" "number \<le> er_last rows" "covers rows b k"
  shows "excerpt_loop ops rows width mark b k number c out =
    Inr (fold (emit_item s rows width mark b k) (concat (map (row_items rows) [number..<Suc (er_last rows)])) out)"
  using assms(1-4)
proof (induction "er_last rows - number" arbitrary: number m c out rule: less_induct)
  case (less number m c out)
  define omit_middle where "omit_middle \<longleftrightarrow> er_last rows - er_first rows + 1 > kMaxShownLines"
  define head_end where "head_end = er_first rows + kMaxShownLines div 2"
  define tail_start where "tail_start = er_last rows - kMaxShownLines div 2 + 1"
  define shown where "shown \<longleftrightarrow> \<not> omit_middle \<or> number < head_end \<or> number \<ge> tail_start"
  define gap where "gap = (if omit_middle \<and> number = head_end then [OmittedRows (tail_start - head_end)] else [])"
  let ?emit = "fold (emit_item s rows width mark b k)"
  have items: "row_items rows number = gap @ (if shown then [ShownRow number] else [])"
    by (simp add: row_items_def Let_def omit_middle_def head_end_def tail_start_def shown_def gap_def)
  have out1: "(if omit_middle \<and> number = head_end then omission_row width (tail_start - head_end) out else out) = ?emit gap out"
    by (simp add: gap_def omission_row_item [of _ _ _ s rows mark b k])
  obtain c' where c': "(if shown then and_then (cu_seek ops number c) (\<lambda>c. Inr (c, append_line ops c number width (row_marker rows mark number)
        (focus_of rows b k number (cu_start ops c)) (?emit gap out))) else Inr (c, ?emit gap out)) = Inr (c', ?emit (row_items rows number) out)"
    and ready': "ready (if shown then number else m) c'"
  proof (cases shown)
    case True
    then have cov: "available number" "row_window s rows b k number = 0 \<or> row_window s rows b k number = window number"
      using assms(5) less.prems(3,4) by (auto simp: covers_def items)
    obtain c1 where "cu_seek ops number c = Inr c1" "at number c1" using seek_at [OF less.prems(1,2) cov(1)] by blast
    then show ?thesis using that [of c1] append_line_item [OF _ cov(2)] at_ready True by (simp add: items)
  next
    case False then show ?thesis using that [of c] less.prems(1) by (simp add: items)
  qed
  have step: "excerpt_loop ops rows width mark b k number c out =
      (if number \<ge> er_last rows then Inr (?emit (row_items rows number) out)
       else excerpt_loop ops rows width mark b k (number + 1) c' (?emit (row_items rows number) out))"
    by (subst excerpt_loop.simps, unfold Let_def, fold omit_middle_def head_end_def tail_start_def, fold shown_def, unfold out1 c')
       simp
  show ?case
  proof (cases "number = er_last rows")
    case True then show ?thesis using step by simp
  next
    case False
    then have "number < er_last rows" using less.prems(4) by simp
    then have "excerpt_loop ops rows width mark b k (number + 1) c' (?emit (row_items rows number) out) =
        Inr (?emit (concat (map (row_items rows) [number + 1..<Suc (er_last rows)])) (?emit (row_items rows number) out))"
      by (intro less.hyps [OF _ ready']) (use less.prems in auto)
    then show ?thesis using \<open>number < er_last rows\<close> by (simp add: step upt_conv_Cons [of number])
  qed
qed

end

lemma item_line_not_Nil: "item_line s rows width mark b k item \<noteq> []"
  by (cases item) simp_all

text \<open>The items of a whole excerpt: every row, or the two ends around one omission.\<close>

definition excerpt_items :: "excerpt_rows \<Rightarrow> excerpt_item list" where
  "excerpt_items rows =
     (if er_last rows - er_first rows + 1 > 48 then
        map ShownRow [er_first rows..<er_first rows + 24] @
        [OmittedRows (er_last rows + 1 - er_first rows - 48)] @
        map ShownRow [er_last rows - 23..<Suc (er_last rows)]
      else map ShownRow [er_first rows..<Suc (er_last rows)])"

lemma upt_split: "a \<le> b \<Longrightarrow> b \<le> c \<Longrightarrow> [a..<c] = [a..<b] @ [b..<c]"
  using upt_add_eq_append [of a b "c - b"] by simp

lemma concat_map_single: "(\<And>x. x \<in> set xs \<Longrightarrow> f x = [g x]) \<Longrightarrow> concat (map f xs) = map g xs"
  by (induction xs) auto

lemma concat_map_empty: "(\<And>x. x \<in> set xs \<Longrightarrow> f x = []) \<Longrightarrow> concat (map f xs) = []"
  by (induction xs) auto

lemma row_items_all:
  assumes "er_first rows \<le> er_last rows"
  shows "concat (map (row_items rows) [er_first rows..<Suc (er_last rows)]) = excerpt_items rows"
proof (cases "er_last rows - er_first rows + 1 > 48")
  case True
  let ?h = "er_first rows + 24" and ?t = "er_last rows - 23"
  have ord: "er_first rows \<le> ?h" "?h < ?t" "?t \<le> Suc (er_last rows)" using True by auto
  have split: "[er_first rows..<Suc (er_last rows)] = [er_first rows..<?h] @ (?h # [Suc ?h..<?t]) @ [?t..<Suc (er_last rows)]"
    using ord upt_split [of "er_first rows" ?h "Suc (er_last rows)"] upt_split [of ?h ?t "Suc (er_last rows)"]
    by (simp add: upt_conv_Cons [of ?h ?t] del: upt_Suc)
  have head: "concat (map (row_items rows) [er_first rows..<?h]) = map ShownRow [er_first rows..<?h]"
    by (rule concat_map_single) (use True in \<open>auto simp: row_items_def kMaxShownLines_def Let_def\<close>)
  have mid: "row_items rows ?h = [OmittedRows (er_last rows + 1 - er_first rows - 48)]"
    using True ord by (auto simp: row_items_def kMaxShownLines_def Let_def)
  have gap: "concat (map (row_items rows) [Suc ?h..<?t]) = []"
    by (rule concat_map_empty) (use True in \<open>auto simp: row_items_def kMaxShownLines_def Let_def\<close>)
  have tail: "concat (map (row_items rows) [?t..<Suc (er_last rows)]) = map ShownRow [?t..<Suc (er_last rows)]"
    by (rule concat_map_single) (use True ord in \<open>auto simp: row_items_def kMaxShownLines_def Let_def\<close>)
  show ?thesis
    using True by (simp only: split map_append list.map concat_append concat.simps head mid gap tail excerpt_items_def if_True) simp
next
  case False
  then have "concat (map (row_items rows) [er_first rows..<Suc (er_last rows)]) = map ShownRow [er_first rows..<Suc (er_last rows)]"
    by (intro concat_map_single) (auto simp: row_items_def kMaxShownLines_def Let_def)
  then show ?thesis using False by (simp add: excerpt_items_def)
qed

lemma excerpt_items_count: "er_first rows \<le> er_last rows \<Longrightarrow> length (excerpt_items rows) \<le> 49"
  by (simp add: excerpt_items_def)

text \<open>The excerpt around the bytes \<open>start\<close> to \<open>start + changed\<close> of a text.\<close>

definition excerpt_of ::
  "string \<Rightarrow> nat \<Rightarrow> nat \<Rightarrow> nat \<Rightarrow> nat \<Rightarrow> char \<Rightarrow> bool \<Rightarrow> string \<times> bool" where
  "excerpt_of s start changed ctx width mark clipped =
     (let rows = excerpt_range s start changed ctx in
      fold (emit_item s rows width mark start changed) (excerpt_items rows) ([], clipped))"

context row_cursor
begin

lemma render_excerpt_of:
  assumes "ready m c" "rows = excerpt_range s b k ctx" "m \<le> er_first rows" "er_first rows \<le> er_last rows" "covers rows b k"
  shows "render_excerpt ops c rows width mark b k clipped = Inr (excerpt_of s b k ctx width mark clipped)"
  unfolding render_excerpt_def excerpt_of_def Let_def
  using excerpt_loop_items [OF assms(1,3) le_refl assms(4,5)] row_items_all [OF assms(4)] assms(2) by simp

end

lemma ascii_digits: "utf8_text (to_string n)"
proof (rule utf8_text_ascii, induction n rule: to_string.induct)
  case (1 n)
  have "byte_val (digit_char d) < 0x80" if "d < 10" for d
    using that by (simp add: digit_char_def)
  then show ?case using 1 by (subst to_string.simps) (auto simp: list_all_append)
qed

lemma utf8_ascii_append: "list_all (\<lambda>c. byte_val c < 0x80) a \<Longrightarrow> utf8_text b \<Longrightarrow> utf8_text (a @ b)"
  by (simp add: utf8_text_append utf8_text_ascii)

lemma utf8_padded: "utf8_text (padded n width)"
  unfolding padded_def Let_def by (rule utf8_ascii_append) (simp_all add: ascii_digits list_all_iff)

lemma row_writer_safe: "utf8_text (dw_output (row_writer s rows b k n)) \<and> length (dw_output (row_writer s rows b k n)) \<le> 512"
  using dw_append_within_budget [OF within_budget_new, of _ 512] dw_append_utf8 [of "DisplayWriter 512"]
  by (simp add: row_writer_def kMaxLineDisplayBytes_def within_budget_def) (simp add: DisplayWriter_def)

lemma item_line_utf8:
  assumes "byte_val mark < 0x80"
  shows "utf8_text (item_line s rows width mark b k item)"
proof (cases item)
  case (OmittedRows m)
  show ?thesis unfolding OmittedRows item_line.simps
    by (intro utf8_text_append ascii_digits utf8_text_ascii) (simp_all add: list_all_iff)
next
  case (ShownRow n)
  have m: "utf8_text [row_marker rows mark n]" using assms by (intro utf8_text_ascii) (simp add: row_marker_def)
  have lit: "utf8_text '' ''" "utf8_text '' | ''" by (simp_all add: utf8_text_ascii)
  have skip: "utf8_text (if row_window s rows b k n > 0 then
      ''[... '' @ to_string (row_window s rows b k n) @ '' bytes skipped ...] '' else [])"
    using utf8_ascii_append [of "''[... ''"] utf8_text_append [OF ascii_digits, of "'' bytes skipped ...] ''"]
    by (simp add: utf8_text_ascii)
  have cut: "utf8_text (if row_cut s rows b k n then '' ... [line clipped]'' else [])" by (simp add: utf8_text_ascii)
  show ?thesis unfolding ShownRow item_line.simps
    using row_writer_safe [of s rows b k n] by (intro utf8_text_append utf8_padded m lit skip cut) simp
qed

lemma item_line_length:
  assumes "\<And>n. item = ShownRow n \<Longrightarrow> n \<le> N \<and> row_window s rows b k n \<le> N" "\<And>m. item = OmittedRows m \<Longrightarrow> m \<le> N"
    and "width \<le> length (to_string N)"
  shows "length (item_line s rows width mark b k item) \<le> 570 + 2 * length (to_string N)"
proof (cases item)
  case (OmittedRows m)
  then show ?thesis using assms(2) [OF OmittedRows] assms(3) to_string_length_mono [of m N] by simp
next
  case (ShownRow n)
  have "length (padded n width) \<le> length (to_string N)"
    using assms(1) [OF ShownRow] assms(3) to_string_length_mono [of n N] by (auto simp: padded_def Let_def)
  moreover have "length (to_string (row_window s rows b k n)) \<le> length (to_string N)"
    using assms(1) [OF ShownRow] by (simp add: to_string_length_mono)
  ultimately show ?thesis
    using row_writer_safe [of s rows b k n] unfolding ShownRow by simp
qed

lemma emit_utf8:
  assumes "byte_val mark < 0x80" "utf8_text (fst out)"
  shows "utf8_text (fst (fold (emit_item s rows width mark b k) items out))"
  using assms(2)
proof (induction items arbitrary: out)
  case (Cons item items)
  have "utf8_text (fst (emit_item s rows width mark b k item out))"
    using Cons.prems item_line_utf8 [OF assms(1), of s rows width b k item]
      utf8_text_ascii [of "[CHR 0x0A]"]
    by (simp add: emit_item_def utf8_text_append)
  then show ?case using Cons.IH by simp
qed simp

lemma emit_length:
  assumes "\<And>item. item \<in> set items \<Longrightarrow> length (item_line s rows width mark b k item) \<le> L"
  shows "length (fst (fold (emit_item s rows width mark b k) items out)) \<le> length (fst out) + length items * Suc L"
  using assms
proof (induction items arbitrary: out)
  case (Cons item items)
  have "length (fst (emit_item s rows width mark b k item out)) \<le> length (fst out) + Suc L"
    using Cons.prems [of item] by (simp add: emit_item_def)
  then show ?case using Cons.IH [of "emit_item s rows width mark b k item out"] Cons.prems by simp
qed simp

section \<open>The rows around a change\<close>

lemma position_of_row: "byte \<le> length s \<Longrightarrow> in_row s (tp_line (position_of s byte)) byte"
  using in_row_exists [of byte s] position_of_in_row by auto

lemma in_row_mono: "in_row s m a \<Longrightarrow> in_row s n b \<Longrightarrow> a \<le> b \<Longrightarrow> m \<le> n"
proof (rule ccontr)
  assume r: "in_row s m a" "in_row s n b" "a \<le> b" and "\<not> m \<le> n"
  then have "row_start s (Suc n) \<le> row_start s m" by (intro row_start_mono) simp
  then show False using r \<open>\<not> m \<le> n\<close> by (auto simp: in_row_def)
qed

lemma rows_le_length: "length (split_rows s) \<le> Suc (length s)"
proof (induction s rule: rows_induct)
  case (Content c cs)
  then show ?case by (cases "split_rows cs") (auto simp: split_rows_content cons_row_def)
next
  case (Break s)
  then show ?case using line_break_width_le [of s] by (simp add: split_rows_break)
qed simp

lemma excerpt_range_ok:
  assumes "start + changed \<le> length s"
  shows "er_first (excerpt_range s start changed context) \<le> er_last (excerpt_range s start changed context)"
    "er_last (excerpt_range s start changed context) < length (split_rows s)"
proof -
  let ?f = "tp_line (position_of s start)"
  let ?e = "if changed = 0 then start else start + changed - 1"
  let ?l = "tp_line (position_of s ?e)"
  have "in_row s ?f start" "in_row s ?l ?e" using assms by (auto intro!: position_of_row)
  then have "?f \<le> ?l" "?l < length (split_rows s)" using in_row_mono [of s ?f start ?l ?e] by (auto simp: in_row_def)
  moreover have "er_last (excerpt_range s start changed context) = ?l + min context (length (split_rows s) - 1 - ?l)"
    "er_first (excerpt_range s start changed context) = (if ?f > context then ?f - context else 0)"
    by (auto simp: excerpt_range_def Let_def count_lines_rows)
  moreover have "(if f > c then f - c else 0) \<le> l + min c (r - 1 - l)" "l + min c (r - 1 - l) < r"
    if "f \<le> l" "l < r" for f l r c :: nat
    using that by (auto simp: min_def)
  ultimately show "er_first (excerpt_range s start changed context) \<le> er_last (excerpt_range s start changed context)"
    "er_last (excerpt_range s start changed context) < length (split_rows s)"
    by presburger+
qed

section \<open>What a replacement guarantees\<close>

lemma excerpt_item_bounds:
  assumes "start + changed \<le> length s" "length s \<le> N" "item \<in> set (excerpt_items (excerpt_range s start changed ctx))"
  defines "rows \<equiv> excerpt_range s start changed ctx"
  shows "item = ShownRow n \<Longrightarrow> n \<le> N \<and> row_window s rows start changed n \<le> N"
    and "item = OmittedRows m \<Longrightarrow> m \<le> N"
proof -
  have last: "er_first rows \<le> er_last rows" "er_last rows \<le> N"
    using excerpt_range_ok [OF assms(1), of ctx] rows_le_length [of s] assms(2) by (auto simp: rows_def)
  have "row_window s rows start changed n \<le> start + changed"
    using focus_window_start_def [of "length (fst (split_rows s ! n))"] by (auto simp: row_window_def focus_of_def Let_def)
  then have window: "row_window s rows start changed n \<le> N" using assms(1,2) by simp
  show "item = ShownRow n \<Longrightarrow> n \<le> N \<and> row_window s rows start changed n \<le> N"
    "item = OmittedRows m \<Longrightarrow> m \<le> N"
    using assms(3) last window unfolding rows_def [symmetric] excerpt_items_def by (auto split: if_splits)
qed

lemma excerpt_preview:
  assumes "start + changed \<le> length s" "length s \<le> N" "width \<le> length (to_string N)" "byte_val mark < 0x80"
  shows "utf8_text (fst (excerpt_of s start changed ctx width mark clipped)) \<and>
    length (fst (excerpt_of s start changed ctx width mark clipped)) \<le> 49 * (571 + 2 * length (to_string N))"
proof -
  let ?rows = "excerpt_range s start changed ctx"
  have "length (item_line s ?rows width mark start changed item) \<le> 570 + 2 * length (to_string N)"
    if "item \<in> set (excerpt_items ?rows)" for item
    by (rule item_line_length) (use excerpt_item_bounds [OF assms(1,2) that] assms(3) in blast)+
  from emit_length [OF this, of "excerpt_items ?rows" "([], clipped)"]
  have "length (fst (excerpt_of s start changed ctx width mark clipped)) \<le>
      length (excerpt_items ?rows) * (571 + 2 * length (to_string N))" by (simp add: excerpt_of_def Let_def)
  also have "\<dots> \<le> 49 * (571 + 2 * length (to_string N))"
    by (rule mult_le_mono1) (rule excerpt_items_count [OF excerpt_range_ok(1) [OF assms(1)]])
  finally show ?thesis using emit_utf8 [OF assms(4), of "([], clipped)"] by (simp add: excerpt_of_def Let_def)
qed

lemma text_view_excerpt:
  assumes "start + changed \<le> length s"
  shows "render_excerpt text_view_ops (TextViewCursor s) (excerpt_range s start changed ctx) width mark start changed clipped =
    Inr (excerpt_of s start changed ctx width mark clipped)"
proof (rule text_view.render_excerpt_of [OF TextViewCursor_at refl, where window = "row_window s (excerpt_range s start changed ctx) start changed"])
  show "text_view.covers s (row_window s (excerpt_range s start changed ctx) start changed) (excerpt_range s start changed ctx) start changed"
    using excerpt_range_ok(2) [OF assms, of ctx] by (simp add: text_view.covers_def)
qed (use excerpt_range_ok [OF assms, of ctx] in auto)

text \<open>The branch that renders, with the edit it describes.\<close>

definition replaced :: "string \<Rightarrow> string \<Rightarrow> string \<Rightarrow> nat \<Rightarrow> string" where
  "replaced original old_text new_text i = take i original @ new_text @ drop (i + length old_text) original"

lemma replaced_same: "occurs_at original old i \<Longrightarrow> replaced original old old i = original"
  unfolding replaced_def occurs_at_def substr_def
  by (metis append_take_drop_id drop_drop add.commute)

lemma replaced_length: "occurs_at original old i \<Longrightarrow> length (replaced original old new i) = length original - length old + length new"
  by (simp add: replaced_def occurs_at_def)

definition edit_view :: "string \<Rightarrow> string \<Rightarrow> string \<Rightarrow> nat \<Rightarrow> nat \<Rightarrow> edit_result" where
  "edit_view original old_text new_text ctx i =
     (let changed = (old_text \<noteq> new_text);
          after = replaced original old_text new_text i;
          width = max (length (to_string (er_last (excerpt_range original i (length old_text) ctx))))
                      (length (to_string (er_last (excerpt_range after i (length new_text) ctx))));
          before_view = excerpt_of original i (length old_text) ctx width (if changed then CHR ''-'' else CHR ''='') False;
          after_view = excerpt_of after i (length new_text) ctx width (if changed then CHR ''+'' else CHR ''='') (snd before_view) in
      EditResult\<lparr>ed_status := (if changed then Modified else Unchanged), ed_matches_at_least := 1, ed_match_byte := i,
        ed_before_bytes := length original, ed_after_bytes := length after,
        ed_before_position := position_of original i, ed_after_position := position_of after i,
        ed_before_excerpt := fst before_view, ed_after_excerpt := fst after_view, ed_preview_truncated := snd after_view\<rparr>)"

definition missing_view :: "nat \<Rightarrow> edit_result" where
  "missing_view n = EditResult\<lparr>ed_before_bytes := n, ed_after_bytes := n\<rparr>"

definition ambiguous_view :: "nat \<Rightarrow> nat \<Rightarrow> nat \<Rightarrow> edit_result" where
  "ambiguous_view n i j = EditResult\<lparr>ed_status := Ambiguous, ed_matches_at_least := 2, ed_match_byte := i,
     ed_second_match_byte := Some j, ed_before_bytes := n, ed_after_bytes := n\<rparr>"

text \<open>\<open>j\<close> is the second occurrence and \<open>i\<close> the first.\<close>

definition first_two :: "string \<Rightarrow> string \<Rightarrow> nat \<Rightarrow> nat \<Rightarrow> bool" where
  "first_two s p i j \<longleftrightarrow> i < j \<and> occurs_at s p i \<and> occurs_at s p j \<and> (\<forall>k. occurs_at s p k \<and> k < j \<longrightarrow> k = i)"

lemma occurrences_cases:
  obtains (none) "\<And>i. \<not> occurs_at s p i"
  | (two) i j where "first_two s p i j"
  | (one) i where "\<And>k. occurs_at s p k \<longleftrightarrow> k = i"
proof (cases "\<exists>i. occurs_at s p i")
  case True
  define i where "i = (LEAST i. occurs_at s p i)"
  have i: "occurs_at s p i" "\<And>k. occurs_at s p k \<Longrightarrow> i \<le> k"
    unfolding i_def using True by (auto intro: LeastI Least_le)
  show thesis
  proof (cases "\<exists>j. occurs_at s p j \<and> j \<noteq> i")
    case True
    define j where "j = (LEAST j. occurs_at s p j \<and> j \<noteq> i)"
    have j: "occurs_at s p j \<and> j \<noteq> i" "\<And>k. occurs_at s p k \<and> k \<noteq> i \<Longrightarrow> j \<le> k"
      unfolding j_def using LeastI_ex [OF True] by (auto intro: Least_le)
    have "i < j" using j(1) i(2) by (simp add: le_neq_implies_less)
    moreover have "\<forall>k. occurs_at s p k \<and> k < j \<longrightarrow> k = i" using j(2) by (metis not_le)
    ultimately have "first_two s p i j" unfolding first_two_def using i(1) j(1) by blast
    then show thesis by (rule two)
  next
    case False
    then have "occurs_at s p k \<longleftrightarrow> k = i" for k using i(1) by blast
    then show thesis by (rule one)
  qed
qed (use none in blast)

text \<open>The whole decision: by the number of occurrences, then by the size of the edited text.\<close>

lemma prepare_str_replace_exact:
  assumes "old \<noteq> []" "ctx \<le> kMaxContextLines" "length original \<le> limit"
  shows "(\<forall>i. \<not> occurs_at original old i) \<Longrightarrow> prepare_str_replace original old new ctx limit =
      Inr \<lparr>pe_result = missing_view (length original), pe_updated_text = []\<rparr>"
    and "first_two original old i j \<Longrightarrow> prepare_str_replace original old new ctx limit =
      Inr \<lparr>pe_result = ambiguous_view (length original) i j, pe_updated_text = []\<rparr>"
    and "(\<And>k. occurs_at original old k \<longleftrightarrow> k = i) \<Longrightarrow> prepare_str_replace original old new ctx limit =
      (if length (replaced original old new i) > limit then Inl (LengthError ''edited text exceeds the configured byte limit'')
       else Inr \<lparr>pe_result = edit_view original old new ctx i,
         pe_updated_text = (if old \<noteq> new then replaced original old new i else [])\<rparr>)"
proof -
  note body = prepare_str_replace_def [of original old new ctx limit]
  have pre: "\<not> ctx > kMaxContextLines" "\<not> length original > limit" using assms by simp_all
  note first = find_from_exact [OF assms(1), of 0 original]
  show "prepare_str_replace original old new ctx limit = Inr \<lparr>pe_result = missing_view (length original), pe_updated_text = []\<rparr>"
    if none: "\<forall>i. \<not> occurs_at original old i"
  proof -
    have "find_from original old 0 = None" using first none by (auto split: option.splits)
    then show ?thesis unfolding body using assms(1) pre by (simp add: Let_def missing_view_def)
  qed
  have at_first: "find_from original old 0 = Some i \<and> i + 1 \<le> length original"
    if i: "occurs_at original old i" "\<And>k. occurs_at original old k \<Longrightarrow> i \<le> k" for i
  proof -
    have "find_from original old 0 = Some i"
      using first i by (cases "find_from original old 0") (auto, metis le_neq_implies_less)
    moreover have "i + 1 \<le> length original" using i(1) assms(1) by (cases old) (auto simp: occurs_at_def)
    ultimately show ?thesis by simp
  qed
  show "prepare_str_replace original old new ctx limit = Inr \<lparr>pe_result = ambiguous_view (length original) i j, pe_updated_text = []\<rparr>"
    if two: "first_two original old i j"
  proof -
    have occ: "i < j" "occurs_at original old i" "occurs_at original old j" "\<And>k. occurs_at original old k \<Longrightarrow> k < j \<Longrightarrow> k = i"
      using two by (auto simp: first_two_def)
    have "i \<le> k" if "occurs_at original old k" for k
      using occ(1) occ(4) [OF that] by (cases "k < j") auto
    then have f: "find_from original old 0 = Some i" "i + 1 \<le> length original" using at_first [OF occ(2)] by auto
    have "find_from original old (i + 1) = Some j"
    proof (cases "find_from original old (i + 1)")
      case None
      then show ?thesis using find_from_exact [OF assms(1) f(2)] occ(1,3) by auto
    next
      case (Some k)
      then have k: "i + 1 \<le> k" "occurs_at original old k" "\<not> (i + 1 \<le> j \<and> j < k)"
        using find_from_exact [OF assms(1) f(2)] occ(3) by auto
      have "\<not> k < j" using occ(4) [OF k(2)] k(1) by auto
      then show ?thesis using Some k(3) occ(1) by simp
    qed
    then show ?thesis
      unfolding body using assms(1) pre f(1) by (simp add: Let_def ambiguous_view_def EditResult_def)
  qed
  show "prepare_str_replace original old new ctx limit =
      (if length (replaced original old new i) > limit then Inl (LengthError ''edited text exceeds the configured byte limit'')
       else Inr \<lparr>pe_result = edit_view original old new ctx i,
         pe_updated_text = (if old \<noteq> new then replaced original old new i else [])\<rparr>)"
    if one: "\<And>k. occurs_at original old k \<longleftrightarrow> k = i"
  proof -
    have occ: "occurs_at original old i" using one by simp
    have f: "find_from original old 0 = Some i" "i + 1 \<le> length original" using at_first [OF occ] one by auto
    have none: "find_from original old (i + 1) = None"
      using find_from_exact [OF assms(1) f(2)] one by (cases "find_from original old (i + 1)") auto
    have len: "length (replaced original old new i) = length original - length old + length new"
      by (rule replaced_length [OF occ])
    have after: "(if old \<noteq> new then (if old \<noteq> new then take i original @ new @ drop (i + length old) original else []) else original)
        = replaced original old new i"
      using replaced_same [OF occ] by (cases "old = new") (simp_all add: replaced_def)
    have b: "i + length old \<le> length original" and a: "i + length new \<le> length (replaced original old new i)"
      using occ len by (auto simp: occurs_at_def)
    show ?thesis
      unfolding body Let_def after text_view_excerpt [OF b] text_view_excerpt [OF a] f(1) none option.case
      using assms(1) pre len b
      by (auto simp: edit_view_def Let_def EditResult_def replaced_def split: prod.split)
  qed
qed

lemma prepare_cases:
  assumes "prepare_str_replace original old new ctx limit = Inr p"
  obtains
    (none) "\<And>i. \<not> occurs_at original old i" "p = \<lparr>pe_result = missing_view (length original), pe_updated_text = []\<rparr>"
  | (two) i j where "first_two original old i j" "p = \<lparr>pe_result = ambiguous_view (length original) i j, pe_updated_text = []\<rparr>"
  | (one) i where "\<And>k. occurs_at original old k \<longleftrightarrow> k = i" "length (replaced original old new i) \<le> limit"
      "p = \<lparr>pe_result = edit_view original old new ctx i,
            pe_updated_text = (if old \<noteq> new then replaced original old new i else [])\<rparr>"
proof -
  have pre: "old \<noteq> []" "ctx \<le> kMaxContextLines" "length original \<le> limit"
    using assms by (auto simp: prepare_str_replace_def split: if_splits)
  show thesis
  proof (rule occurrences_cases [of original old])
    assume n: "\<And>i. \<not> occurs_at original old i"
    show thesis using none [OF n] prepare_str_replace_exact(1) [OF pre, of new] n assms by simp
  next
    fix i j assume t: "first_two original old i j"
    show thesis using two [OF t] prepare_str_replace_exact(2) [OF pre t, of new] assms by simp
  next
    fix i assume o: "\<And>k. occurs_at original old k \<longleftrightarrow> k = i"
    note e = prepare_str_replace_exact(3) [OF pre o, of new]
    then have "length (replaced original old new i) \<le> limit" using assms by (auto split: if_splits)
    then show thesis using one [OF o] e assms by simp
  qed
qed

text \<open>
  C13. A replacement is byte-exact and unambiguous: a prepared edit says not found exactly when the old text
  does not occur, ambiguous with its first two (possibly overlapping) occurrences when there are several, and
  otherwise replaces the single occurrence, leaves every other byte alone and stays within the size limit.
\<close>

theorem str_replace_exact:
  assumes "prepare_str_replace original old new ctx limit = Inr p"
  shows "case ed_status (pe_result p) of
     NotFound \<Rightarrow> (\<forall>i. \<not> occurs_at original old i) \<and> pe_updated_text p = []
   | Ambiguous \<Rightarrow> (\<exists>i j. i < j \<and> occurs_at original old i \<and> occurs_at original old j \<and>
       (\<forall>k. occurs_at original old k \<and> k < j \<longrightarrow> k = i) \<and> ed_match_byte (pe_result p) = i \<and>
       ed_second_match_byte (pe_result p) = Some j \<and> pe_updated_text p = [])
   | Unchanged \<Rightarrow> old = new \<and> (\<forall>k. occurs_at original old k \<longleftrightarrow> k = ed_match_byte (pe_result p)) \<and> pe_updated_text p = []
   | Modified \<Rightarrow> old \<noteq> new \<and> (\<forall>k. occurs_at original old k \<longleftrightarrow> k = ed_match_byte (pe_result p)) \<and>
       (\<exists>before after. original = before @ old @ after \<and> pe_updated_text p = before @ new @ after \<and>
          length before = ed_match_byte (pe_result p)) \<and>
       length (pe_updated_text p) = ed_after_bytes (pe_result p) \<and> ed_after_bytes (pe_result p) \<le> limit
   | _ \<Rightarrow> False"
  using assms
proof (cases rule: prepare_cases)
  case none
  then show ?thesis by (simp add: missing_view_def EditResult_def)
next
  case (two i j)
  have v: "ed_status (ambiguous_view n i j) = Ambiguous" "ed_match_byte (ambiguous_view n i j) = i"
    "ed_second_match_byte (ambiguous_view n i j) = Some j" for n by (simp_all add: ambiguous_view_def EditResult_def)
  show ?thesis
    unfolding two(2) prepared_edit.select_convs v edit_status.case using two(1) unfolding first_two_def by blast
next
  case (one i)
  have occ: "occurs_at original old i" using one(1) by blast
  have v: "ed_status (edit_view original old new ctx i) = (if old \<noteq> new then Modified else Unchanged)"
    "ed_match_byte (edit_view original old new ctx i) = i"
    "ed_after_bytes (edit_view original old new ctx i) = length (replaced original old new i)"
    by (simp_all add: edit_view_def Let_def EditResult_def)
  have orig: "original = take i original @ old @ drop (i + length old) original"
    using replaced_same [OF occ] by (simp add: replaced_def)
  have len: "length (take i original) = i" using occ by (simp add: occurs_at_def)
  have split: "\<exists>before after. original = before @ old @ after \<and> replaced original old new i = before @ new @ after \<and> length before = i"
    using orig len unfolding replaced_def by blast
  have only: "\<forall>k. occurs_at original old k \<longleftrightarrow> k = i" using one(1) by blast
  show ?thesis
  proof (cases "old = new")
    case True
    then show ?thesis unfolding one(3) prepared_edit.select_convs v using only by simp
  next
    case False
    then show ?thesis unfolding one(3) prepared_edit.select_convs v using only one(2) split by simp
  qed
qed

theorem str_replace_exact_witness:
  "\<exists>p. prepare_str_replace ''a-b'' ''-'' ''+'' 3 100 = Inr p \<and> pe_updated_text p = ''a+b''"
proof -
  have "occurs_at ''a-b'' ''-'' k \<longleftrightarrow> k = 1" for k
    by (auto simp: occurs_at_def substr_def less_Suc_eq take_Cons' drop_Cons' numeral_3_eq_3)
  from prepare_str_replace_exact(3) [of "''-''" 3 "''a-b''" 100, OF _ _ _ this, of "''+''"]
  obtain p where p: "prepare_str_replace ''a-b'' ''-'' ''+'' 3 100 = Inr p" "pe_result p = edit_view ''a-b'' ''-'' ''+'' 3 1"
    by (auto simp: kMaxContextLines_def replaced_def)
  then have "ed_status (pe_result p) = Modified \<and> ed_match_byte (pe_result p) = 1"
    by (simp add: edit_view_def Let_def EditResult_def)
  with str_replace_exact [OF p(1)] obtain b a where "''a-b'' = b @ ''-'' @ a" "pe_updated_text p = b @ ''+'' @ a" "length b = 1"
    by auto
  then show ?thesis using p by (auto simp: length_Suc_conv)
qed

text \<open>
  Locating a byte by one forward scan gives the same line and column as the line index of the whole
  text, for every byte offset including the end.
\<close>

lemma position_of_line_index:
  assumes "byte \<le> length s"
  shows "position_at (LineIndex s) byte = Inr (position_of s byte)"
  using in_row_exists [OF assms] position_at_in_row position_of_in_row by auto

text \<open>
  Previews are safe to show: both excerpts are well-formed UTF-8 whatever the bytes of the file, and
  their size is bounded by 49 short lines, growing only with the digits of the line numbers.
\<close>

theorem edit_preview_safe:
  assumes "prepare_str_replace original old new ctx limit = Inr p"
  shows "utf8_text (ed_before_excerpt (pe_result p)) \<and> utf8_text (ed_after_excerpt (pe_result p)) \<and>
    length (ed_before_excerpt (pe_result p)) \<le> 49 * (571 + 2 * length (to_string (length original + length new))) \<and>
    length (ed_after_excerpt (pe_result p)) \<le> 49 * (571 + 2 * length (to_string (length original + length new)))"
  using assms
proof (cases rule: prepare_cases)
  case none
  then show ?thesis by (simp add: missing_view_def EditResult_def)
next
  case (two i j)
  then show ?thesis by (simp add: ambiguous_view_def EditResult_def)
next
  case (one i)
  let ?N = "length original + length new" and ?after = "replaced original old new i"
  let ?w = "max (length (to_string (er_last (excerpt_range original i (length old) ctx))))
    (length (to_string (er_last (excerpt_range ?after i (length new) ctx))))"
  have occ: "occurs_at original old i" using one(1) by blast
  have b: "i + length old \<le> length original" using occ by (simp add: occurs_at_def)
  have a: "i + length new \<le> length ?after" "length ?after \<le> ?N"
    using b replaced_length [OF occ, of new] by auto
  have "er_last (excerpt_range original i (length old) ctx) \<le> ?N" "er_last (excerpt_range ?after i (length new) ctx) \<le> ?N"
    using excerpt_range_ok(2) [OF b, of ctx] excerpt_range_ok(2) [OF a(1), of ctx] rows_le_length [of original]
      rows_le_length [of ?after] a(2) by linarith+
  then have w: "?w \<le> length (to_string ?N)" by (simp add: to_string_length_mono)
  have marks: "byte_val (if old \<noteq> new then CHR ''-'' else CHR ''='') < 0x80" "byte_val (if old \<noteq> new then CHR ''+'' else CHR ''='') < 0x80"
    by simp_all
  have len: "length original \<le> ?N" by simp
  obtain c where v: "ed_before_excerpt (edit_view original old new ctx i) =
      fst (excerpt_of original i (length old) ctx ?w (if old \<noteq> new then CHR ''-'' else CHR ''='') False)"
    "ed_after_excerpt (edit_view original old new ctx i) =
      fst (excerpt_of ?after i (length new) ctx ?w (if old \<noteq> new then CHR ''+'' else CHR ''='') c)"
    by (simp add: edit_view_def Let_def)
  show ?thesis
    unfolding one(3) prepared_edit.select_convs v
    using excerpt_preview [OF b len w marks(1), of ctx False] excerpt_preview [OF a w marks(2), of ctx c] by blast
qed

theorem edit_preview_safe_witness:
  "\<exists>p. prepare_str_replace [CHR 0xFF, CHR ''-''] ''-'' ''+'' 3 100 = Inr p \<and> utf8_text (ed_before_excerpt (pe_result p))"
proof -
  have "occurs_at [CHR 0xFF, CHR ''-''] ''-'' k \<longleftrightarrow> k = 1" for k
    by (auto simp: occurs_at_def substr_def less_Suc_eq take_Cons' drop_Cons')
  from prepare_str_replace_exact(3) [of "''-''" 3 "[CHR 0xFF, CHR ''-'']" 100, OF _ _ _ this, of "''+''"]
  obtain p where p: "prepare_str_replace [CHR 0xFF, CHR ''-''] ''-'' ''+'' 3 100 = Inr p"
    by (auto simp: kMaxContextLines_def replaced_def)
  with edit_preview_safe [OF p] show ?thesis by blast
qed

end
