(* ===== verification/Text_Matcher.thy ===== *)
theory Text_Matcher
  imports Text_Edit
begin

text \<open>
  The streaming exact matcher and the candidate writer of \<^verbatim>\<open>textedit/src/stream_edit_scan.hpp\<close>. The matcher is Knuth-Morris-Pratt over a byte stream; its
  two loops step through a table, so they are partial functions whose value \<^const>\<open>None\<close> would be
  divergence, and are shown to return. The staged file that receives the candidate is an interface
  (\<^verbatim>\<open>fileio::StagedReplacement\<close>), with its contract as a locale.
\<close>

section \<open>The failure table\<close>

partial_function (option) kmp_loop :: "string \<Rightarrow> nat \<Rightarrow> nat \<Rightarrow> nat list \<Rightarrow> nat list option" where
  "kmp_loop pattern index len table =
     (if index < length pattern then
        if pattern ! index = pattern ! len then kmp_loop pattern (index + 1) (len + 1) (table[index := len + 1])
        else if len \<noteq> 0 then kmp_loop pattern index (table ! (len - 1)) table
        else kmp_loop pattern (index + 1) 0 (table[index := 0])
      else Some table)"

declare kmp_loop.simps [code]

definition kmp_prefix :: "string \<Rightarrow> nat list option" where
  "kmp_prefix pattern = kmp_loop pattern 1 0 (replicate (length pattern) 0)"

section \<open>The candidate writer\<close>

text \<open>The two operations of the staged file that the writer uses; each may throw.\<close>

record 's staged_ops =
  so_copy_prefix :: "nat \<Rightarrow> 's \<Rightarrow> 's result"
  so_write :: "string \<Rightarrow> 's \<Rightarrow> 's result"

record 's candidate_writer =
  cw_staged :: 's
  cw_limit :: nat
  cw_written :: nat
  cw_buffer :: string
  cw_enabled :: bool

definition CandidateWriter :: "'s \<Rightarrow> nat \<Rightarrow> 's candidate_writer" where
  "CandidateWriter staged limit =
     \<lparr>cw_staged = staged, cw_limit = limit, cw_written = 0, cw_buffer = [], cw_enabled = True\<rparr>"

definition kFlushBytes :: nat where "kFlushBytes = 64 * 1024"

definition cw_flush :: "'s staged_ops \<Rightarrow> 's candidate_writer \<Rightarrow> 's candidate_writer result" where
  "cw_flush ops w =
     (if cw_buffer w = [] then Inr w
      else and_then (so_write ops (cw_buffer w) (cw_staged w)) (\<lambda>st. Inr (w\<lparr>cw_staged := st, cw_buffer := []\<rparr>)))"

definition cw_append :: "'s staged_ops \<Rightarrow> string \<Rightarrow> 's candidate_writer \<Rightarrow> 's candidate_writer result" where
  "cw_append ops bytes w =
     (if \<not> cw_enabled w then Inr w
      else if length bytes > cw_limit w - cw_written w then
        Inl (LengthError ''edited text exceeds the configured byte limit'')
      else
        let w1 = w\<lparr>cw_written := cw_written w + length bytes\<rparr> in
        if length (cw_buffer w1) + length bytes < kFlushBytes then Inr (w1\<lparr>cw_buffer := cw_buffer w1 @ bytes\<rparr>)
        else and_then (cw_flush ops w1) (\<lambda>w2.
          if length bytes \<ge> kFlushBytes then
            and_then (so_write ops bytes (cw_staged w2)) (\<lambda>st. Inr (w2\<lparr>cw_staged := st\<rparr>))
          else Inr (w2\<lparr>cw_buffer := cw_buffer w2 @ bytes\<rparr>)))"

definition cw_begin :: "'s staged_ops \<Rightarrow> nat \<Rightarrow> string \<Rightarrow> 's candidate_writer \<Rightarrow> 's candidate_writer result" where
  "cw_begin ops prefix_bytes new_text w =
     (if \<not> cw_enabled w then Inr w
      else if prefix_bytes > cw_limit w then Inl (LengthError ''edited text exceeds the configured byte limit'')
      else and_then (so_copy_prefix ops prefix_bytes (cw_staged w)) (\<lambda>st.
        cw_append ops new_text (w\<lparr>cw_staged := st, cw_written := prefix_bytes\<rparr>)))"

definition cw_enable :: "bool \<Rightarrow> 's candidate_writer \<Rightarrow> 's candidate_writer" where
  "cw_enable v w = w\<lparr>cw_enabled := v\<rparr>"

section \<open>The matcher\<close>

record 's streaming_matcher =
  sm_pattern :: string
  sm_replacement :: string
  sm_writer :: "'s candidate_writer"
  sm_prefix :: "nat list"
  sm_pending :: string
  sm_span :: string
  sm_begin :: nat
  sm_q :: nat
  sm_match_byte :: nat
  sm_second_match_byte :: nat
  sm_found :: bool
  sm_ambiguous :: bool
  sm_stopped :: bool

definition StreamingMatcher :: "string \<Rightarrow> string \<Rightarrow> 's candidate_writer \<Rightarrow> 's streaming_matcher option" where
  "StreamingMatcher pattern new_text writer =
     (case kmp_prefix pattern of
        None \<Rightarrow> None
      | Some table \<Rightarrow> Some
          \<lparr>sm_pattern = pattern, sm_replacement = new_text, sm_writer = writer, sm_prefix = table,
           sm_pending = [], sm_span = [], sm_begin = 0, sm_q = 0, sm_match_byte = 0, sm_second_match_byte = 0,
           sm_found = False, sm_ambiguous = False, sm_stopped = False\<rparr>)"

text \<open>\<^verbatim>\<open>drop\<close>: forget the front of the pending buffer, compacting it now and then.\<close>

definition drop_pending :: "nat \<Rightarrow> string \<times> nat \<Rightarrow> string \<times> nat" where
  "drop_pending count = (\<lambda>(pending, front).
     (let f = front + count in if f > 4096 \<and> f * 2 > length pending then (drop f pending, 0) else (pending, f)))"

text \<open>The fallback loop before the first match: shorten the partial match until the byte fits or nothing is left.\<close>

partial_function (option) fall_pending ::
  "string \<Rightarrow> nat list \<Rightarrow> char \<Rightarrow> nat \<Rightarrow> string \<times> nat \<Rightarrow> (nat \<times> string \<times> nat) option" where
  "fall_pending pattern table byte q buf =
     (if q > 0 \<and> pattern ! q \<noteq> byte then
        fall_pending pattern table byte (table ! (q - 1)) (drop_pending (q - table ! (q - 1)) buf)
      else Some (q, buf))"

text \<open>The same loop after the first match, where no bytes are pending.\<close>

partial_function (option) fall :: "string \<Rightarrow> nat list \<Rightarrow> char \<Rightarrow> nat \<Rightarrow> nat option" where
  "fall pattern table byte q =
     (if q > 0 \<and> pattern ! q \<noteq> byte then fall pattern table byte (table ! (q - 1)) else Some q)"

declare fall_pending.simps [code] fall.simps [code]

definition sm_complete :: "'s staged_ops \<Rightarrow> nat \<Rightarrow> 's streaming_matcher \<Rightarrow> 's streaming_matcher result" where
  "sm_complete ops offset m =
     (let start = offset + 1 - length (sm_pattern m) in
      if \<not> sm_found m then
        let m1 = m\<lparr>sm_found := True, sm_match_byte := start,
                   sm_span := substr (sm_pending m) (sm_begin m) (length (sm_pattern m)),
                   sm_pending := [], sm_begin := 0\<rparr> in
        and_then (cw_begin ops start (sm_replacement m) (sm_writer m)) (\<lambda>w.
          Inr (m1\<lparr>sm_writer := w, sm_q := sm_prefix m ! (length (sm_pattern m) - 1)\<rparr>))
      else
        Inr (m\<lparr>sm_ambiguous := True, sm_second_match_byte := start, sm_q := 0, sm_stopped := True,
               sm_writer := cw_enable False (sm_writer m)\<rparr>))"

definition sm_step ::
  "'s staged_ops \<Rightarrow> char \<Rightarrow> nat \<Rightarrow> 's streaming_matcher \<Rightarrow> 's streaming_matcher result option" where
  "sm_step ops byte offset m =
     (if sm_stopped m then Some (Inr m)
      else
        let finish = (\<lambda>m. if sm_q m = length (sm_pattern m) then sm_complete ops offset m else Inr m) in
        if \<not> sm_found m then
          (case fall_pending (sm_pattern m) (sm_prefix m) byte (sm_q m) (sm_pending m, sm_begin m) of
             None \<Rightarrow> None
           | Some (q, pending, front) \<Rightarrow>
               Some (finish (if sm_pattern m ! q = byte
                 then m\<lparr>sm_q := q + 1, sm_pending := pending @ [byte], sm_begin := front\<rparr>
                 else m\<lparr>sm_q := q, sm_pending := pending, sm_begin := front\<rparr>)))
        else
          (case cw_append ops [byte] (sm_writer m) of
             Inl e \<Rightarrow> Some (Inl e)
           | Inr w \<Rightarrow>
               (case fall (sm_pattern m) (sm_prefix m) byte (sm_q m) of
                  None \<Rightarrow> None
                | Some q \<Rightarrow> Some (finish
                    (m\<lparr>sm_writer := w, sm_q := (if sm_pattern m ! q = byte then q + 1 else q)\<rparr>)))))"

text \<open>The bytes of one chunk, from \<open>offset\<close> on.\<close>

fun sm_feed ::
  "'s staged_ops \<Rightarrow> string \<Rightarrow> nat \<Rightarrow> 's streaming_matcher \<Rightarrow> 's streaming_matcher result option" where
  "sm_feed ops [] offset m = Some (Inr m)"
| "sm_feed ops (byte # bytes) offset m =
     (case sm_step ops byte offset m of
        None \<Rightarrow> None
      | Some (Inl e) \<Rightarrow> Some (Inl e)
      | Some (Inr m') \<Rightarrow> sm_feed ops bytes (offset + 1) m')"

section \<open>Borders and the failure table\<close>

definition greatest :: "(nat \<Rightarrow> bool) \<Rightarrow> nat \<Rightarrow> bool" where
  "greatest P k \<longleftrightarrow> P k \<and> (\<forall>j. P j \<longrightarrow> j \<le> k)"

lemma greatest_unique: "greatest P k \<Longrightarrow> greatest P k' \<Longrightarrow> k = k'"
  by (simp add: greatest_def le_antisym)

text \<open>\<open>overlap p t k\<close>: the first \<open>k\<close> bytes of the pattern, not all of it, are the last \<open>k\<close> of \<open>t\<close>.\<close>

definition overlap :: "string \<Rightarrow> string \<Rightarrow> nat \<Rightarrow> bool" where
  "overlap p t k \<longleftrightarrow> k < length p \<and> suffix (take k p) t"

text \<open>\<open>border p i k\<close>: the first \<open>k \<le> i\<close> bytes of the pattern end its first \<open>i + 1\<close>.\<close>

definition border :: "string \<Rightarrow> nat \<Rightarrow> nat \<Rightarrow> bool" where
  "border p i k \<longleftrightarrow> k \<le> i \<and> suffix (take k p) (take (Suc i) p)"

definition good_table :: "string \<Rightarrow> nat list \<Rightarrow> nat \<Rightarrow> bool" where
  "good_table p table n \<longleftrightarrow> length table = length p \<and> (\<forall>i<n. greatest (border p i) (table ! i))"

lemma border_0: "border p i 0"
  by (simp add: border_def)

lemma good_table_le: "good_table p table n \<Longrightarrow> i < n \<Longrightarrow> table ! i \<le> i"
  by (simp add: good_table_def greatest_def border_def)

lemma good_table_mono: "good_table p table n \<Longrightarrow> m \<le> n \<Longrightarrow> good_table p table m"
  by (simp add: good_table_def)

lemma suffix_same_length: "suffix a t \<Longrightarrow> suffix b t \<Longrightarrow> length a \<le> length b \<Longrightarrow> suffix a b"
  using suffix_length_suffix by blast

lemma suffix_snoc_take:
  assumes "k < length p"
  shows "suffix (take (Suc k) p) (t @ [b]) \<longleftrightarrow> suffix (take k p) t \<and> p ! k = b"
  using assms by (auto simp: take_Suc_conv_app_nth)

text \<open>Below a partial match, overlaps with the text are borders of the match.\<close>

lemma overlap_border:
  assumes "overlap p t q" "0 < q" "j < q"
  shows "overlap p t j \<longleftrightarrow> border p (q - 1) j"
proof -
  have q: "suffix (take q p) t" "q < length p" using assms(1) by (simp_all add: overlap_def)
  have "suffix (take j p) t \<longleftrightarrow> suffix (take j p) (take q p)"
    using q assms(3) suffix_same_length [of "take j p" t "take q p"] suffix_order.trans [of "take j p" "take q p" t] by auto
  then show ?thesis using q assms by (auto simp: overlap_def border_def)
qed

text \<open>The fallback loops find the longest overlap that the next byte extends, if there is one.\<close>

definition extends :: "string \<Rightarrow> string \<Rightarrow> char \<Rightarrow> nat \<Rightarrow> bool" where
  "extends p t b j \<longleftrightarrow> overlap p t j \<and> p ! j = b"

definition fallen :: "string \<Rightarrow> string \<Rightarrow> char \<Rightarrow> nat \<Rightarrow> bool" where
  "fallen p t b q \<longleftrightarrow> overlap p t q \<and> (if p ! q = b then greatest (extends p t b) q else q = 0 \<and> (\<forall>j. \<not> extends p t b j))"

lemma fall_exact:
  assumes "good_table p table (length p)" "overlap p t q" "\<forall>j. extends p t b j \<longrightarrow> j \<le> q"
  shows "\<exists>r. fall p table b q = Some r \<and> fallen p t b r"
  using assms(2,3)
proof (induction q rule: less_induct)
  case (less q)
  show ?case
  proof (cases "q > 0 \<and> p ! q \<noteq> b")
    case True
    let ?r = "table ! (q - 1)"
    have q: "q < length p" using less.prems(1) by (simp add: overlap_def)
    have g: "greatest (border p (q - 1)) ?r" using assms(1) True q by (simp add: good_table_def)
    then have lt: "?r < q" using True by (auto simp: greatest_def border_def)
    have ov: "overlap p t ?r" using overlap_border [OF less.prems(1)] True lt g by (auto simp: greatest_def)
    have "j \<le> ?r" if "extends p t b j" for j
    proof -
      have "j \<le> q" "j \<noteq> q" using less.prems(2) that True by (auto simp: extends_def)
      then have "border p (q - 1) j" using overlap_border [OF less.prems(1)] True that by (auto simp: extends_def)
      then show ?thesis using g by (simp add: greatest_def)
    qed
    then show ?thesis using less.IH [OF lt ov] True by (subst fall.simps) auto
  next
    case False
    then have "fall p table b q = Some q" by (subst fall.simps) auto
    moreover have "fallen p t b q"
    proof (cases "p ! q = b")
      case True
      then show ?thesis using less.prems by (simp add: fallen_def greatest_def extends_def)
    next
      case c: False
      then have "q = 0" using False by simp
      moreover have "\<not> extends p t b j" for j
        using less.prems(2) c \<open>q = 0\<close> by (auto simp: extends_def)
      ultimately show ?thesis using less.prems(1) c by (simp add: fallen_def)
    qed
    ultimately show ?thesis by blast
  qed
qed

lemma overlap_snoc:
  assumes "p \<noteq> []"
  shows "overlap p (t @ [b]) k \<longleftrightarrow> k = 0 \<or> (\<exists>j. k = Suc j \<and> extends p t b j \<and> Suc j < length p)"
proof (cases k)
  case 0 then show ?thesis using assms by (simp add: overlap_def)
next
  case (Suc j)
  then show ?thesis using suffix_snoc_take [of j p t b] by (auto simp: overlap_def extends_def)
qed

text \<open>Where the loop ends decides the next partial match and whether the whole pattern has been seen.\<close>

lemma fallen_next:
  assumes "fallen p t b q" "p \<noteq> []"
  defines "r \<equiv> if p ! q = b then q + 1 else q"
  shows "r = length p \<longleftrightarrow> suffix p (t @ [b])" and "r \<noteq> length p \<Longrightarrow> greatest (overlap p (t @ [b])) r"
proof -
  have q: "q < length p" using assms(1) by (simp add: fallen_def overlap_def)
  have full: "suffix p (t @ [b]) \<longleftrightarrow> extends p t b (length p - 1)"
    using suffix_snoc_take [of "length p - 1" p t b] assms(2) by (cases p) (auto simp: extends_def overlap_def)
  show "r = length p \<longleftrightarrow> suffix p (t @ [b])"
  proof (cases "p ! q = b")
    case True
    then have g: "greatest (extends p t b) q" using assms(1) by (simp add: fallen_def)
    show ?thesis
    proof
      assume "r = length p" then have "q = length p - 1" using True by (simp add: r_def)
      then show "suffix p (t @ [b])" using g full by (simp add: greatest_def)
    next
      assume "suffix p (t @ [b])"
      then have "length p - 1 \<le> q" using g full by (simp add: greatest_def)
      then show "r = length p" using q True by (simp add: r_def)
    qed
  next
    case False
    then show ?thesis using assms(1) full q by (auto simp: fallen_def r_def)
  qed
  show "greatest (overlap p (t @ [b])) r" if "r \<noteq> length p"
  proof (cases "p ! q = b")
    case True
    then have g: "greatest (extends p t b) q" using assms(1) by (simp add: fallen_def)
    then show ?thesis using True that q unfolding greatest_def overlap_snoc [OF assms(2)] r_def by auto
  next
    case False
    then show ?thesis using assms(1) unfolding greatest_def overlap_snoc [OF assms(2)] r_def by (auto simp: fallen_def)
  qed
qed

lemma border_Suc:
  assumes "i < length p" "j < i"
  shows "border p i (Suc j) \<longleftrightarrow> suffix (take j p) (take i p) \<and> p ! j = p ! i"
  using assms suffix_snoc_take [of j p "take i p" "p ! i"] by (simp add: border_def take_Suc_conv_app_nth [of i])

lemma good_table_update:
  assumes "good_table p table i" "i < length p" "greatest (border p i) k"
  shows "good_table p (table[i := k]) (Suc i)"
  using assms by (auto simp: good_table_def less_Suc_eq)

text \<open>The invariant of the table loop: \<open>len\<close> is the longest border still possible for the next entry.\<close>

definition kmp_inv :: "string \<Rightarrow> nat \<Rightarrow> nat \<Rightarrow> nat list \<Rightarrow> bool" where
  "kmp_inv p i len table \<longleftrightarrow> 1 \<le> i \<and> i \<le> length p \<and> good_table p table i \<and> len < i \<and>
     suffix (take len p) (take i p) \<and>
     (i < length p \<longrightarrow> (\<forall>j<i. suffix (take j p) (take i p) \<and> p ! j = p ! i \<longrightarrow> j \<le> len))"

lemma kmp_inv_next:
  assumes inv: "kmp_inv p i len table" and i: "i < length p" and k: "greatest (border p i) k"
  shows "kmp_inv p (Suc i) k (table[i := k])"
proof -
  have "k \<le> i" "suffix (take k p) (take (Suc i) p)" using k by (auto simp: greatest_def border_def)
  moreover have "j \<le> k" if "j < Suc i" "suffix (take j p) (take (Suc i) p)" for j
    using k that by (simp add: greatest_def border_def)
  ultimately show ?thesis
    using inv i good_table_update [OF _ i k] by (auto simp: kmp_inv_def)
qed

lemma kmp_loop_good:
  "kmp_inv p i len table \<Longrightarrow> \<exists>tab. kmp_loop p i len table = Some tab \<and> good_table p tab (length p)"
proof (induction "(length p - i, len)" arbitrary: i len table rule: wf_induct_rule [OF wf_lex_prod [OF wf_less wf_less]])
  case (1 i len table)
  note inv = "1.prems"
  show ?case
  proof (cases "i < length p")
    case False
    then show ?thesis using inv by (subst kmp_loop.simps) (auto simp: kmp_inv_def)
  next
    case i: True
    have max: "j \<le> len" if "j < i" "suffix (take j p) (take i p)" "p ! j = p ! i" for j
      using inv i that by (simp add: kmp_inv_def)
    show ?thesis
    proof (cases "p ! i = p ! len")
      case True
      have "border p i (Suc len)" using border_Suc [OF i, of len] inv True by (simp add: kmp_inv_def)
      moreover have "j \<le> Suc len" if "border p i j" for j
      proof (cases j)
        case (Suc j')
        then have "j' < i" using that by (simp add: border_def)
        then show ?thesis using border_Suc [OF i, of j'] that max Suc by simp
      qed simp
      ultimately have "kmp_inv p (Suc i) (Suc len) (table[i := Suc len])"
        by (intro kmp_inv_next [OF inv i]) (simp add: greatest_def)
      then show ?thesis using "1.hyps" [of "Suc i" "Suc len"] i True by (subst kmp_loop.simps) simp
    next
      case ne: False
      show ?thesis
      proof (cases "len = 0")
        case False
        let ?r = "table ! (len - 1)"
        have g: "greatest (border p (len - 1)) ?r"
        proof -
          have "good_table p table i" "len - 1 < i" using inv by (auto simp: kmp_inv_def)
          then show ?thesis by (simp add: good_table_def)
        qed
        have lt: "?r < len" and sfx: "suffix (take ?r p) (take len p)" using g False by (auto simp: greatest_def border_def)
        have "j \<le> ?r" if j: "j < i" "suffix (take j p) (take i p)" "p ! j = p ! i" for j
        proof -
          have "j \<noteq> len" using j(3) ne by metis
          then have "j < len" using max [OF j] by simp
          moreover have "suffix (take j p) (take len p)"
            by (rule suffix_same_length [OF j(2)]) (use inv calculation in \<open>auto simp: kmp_inv_def\<close>)
          ultimately have "border p (len - 1) j" using False by (simp add: border_def)
          then show ?thesis using g by (simp add: greatest_def)
        qed
        then have "kmp_inv p i ?r table"
          using inv lt suffix_order.trans [OF sfx] by (auto simp: kmp_inv_def)
        then show ?thesis using "1.hyps" [of i ?r] i ne False lt by (subst kmp_loop.simps) simp
      next
        case True
        have "\<not> border p i (Suc j)" for j
        proof
          assume b: "border p i (Suc j)"
          then have j: "j < i" by (simp add: border_def)
          then have "p ! j = p ! i" "j \<le> len" using b border_Suc [OF i j] max by auto
          then show False using ne True by simp
        qed
        then have "greatest (border p i) 0" using border_0 by (metis greatest_def le0 not0_implies_Suc)
        then have "kmp_inv p (Suc i) 0 (table[i := 0])" by (rule kmp_inv_next [OF inv i])
        then show ?thesis using "1.hyps" [of "Suc i" 0] i ne True by (subst kmp_loop.simps) simp
      qed
    qed
  qed
qed

lemma kmp_prefix_good:
  assumes "p \<noteq> []"
  shows "\<exists>table. kmp_prefix p = Some table \<and> good_table p table (length p)"
proof -
  have "kmp_inv p 1 0 (replicate (length p) 0)"
    using assms by (cases p) (auto simp: kmp_inv_def good_table_def greatest_def border_def)
  then show ?thesis unfolding kmp_prefix_def by (rule kmp_loop_good)
qed

text \<open>The pending bytes before the first match are exactly the partial match.\<close>

definition holds :: "string \<times> nat \<Rightarrow> string \<Rightarrow> bool" where
  "holds buf x \<longleftrightarrow> snd buf \<le> length (fst buf) \<and> drop (snd buf) (fst buf) = x"

lemma holds_drop:
  assumes "holds buf x" "n \<le> length x"
  shows "holds (drop_pending n buf) (drop n x)"
proof -
  obtain pending front where b: "buf = (pending, front)" by (cases buf)
  have "front + n \<le> length pending" using assms by (auto simp: holds_def b)
  moreover have "drop (front + n) pending = drop n x" using assms(1) by (auto simp: holds_def b add.commute)
  ultimately show ?thesis by (auto simp: drop_pending_def holds_def b Let_def)
qed

lemma suffix_drop_length: "suffix a b \<Longrightarrow> drop (length b - length a) b = a"
  by (auto simp: suffix_def)

lemma fall_pending_exact:
  assumes "good_table p table (length p)" "q < length p" "holds buf (take q p)" "fall p table b q = Some r"
  shows "\<exists>buf'. fall_pending p table b q buf = Some (r, buf') \<and> holds buf' (take r p)"
  using assms(2-4)
proof (induction q arbitrary: buf rule: less_induct)
  case (less q)
  show ?case
  proof (cases "q > 0 \<and> p ! q \<noteq> b")
    case True
    let ?r = "table ! (q - 1)"
    have g: "greatest (border p (q - 1)) ?r" using assms(1) True less.prems(1) by (simp add: good_table_def)
    then have lt: "?r < q" and sfx: "suffix (take ?r p) (take q p)" using True by (auto simp: greatest_def border_def)
    have "holds (drop_pending (q - ?r) buf) (drop (q - ?r) (take q p))"
      by (rule holds_drop [OF less.prems(2)]) (use less.prems(1) in auto)
    moreover have "drop (q - ?r) (take q p) = take ?r p"
      using suffix_drop_length [OF sfx] less.prems(1) lt by simp
    ultimately have "holds (drop_pending (q - ?r) buf) (take ?r p)" by simp
    moreover have "fall p table b ?r = Some r" using less.prems(3) True by (subst (asm) fall.simps) simp
    ultimately show ?thesis using less.IH [OF lt] lt less.prems(1) True by (subst fall_pending.simps) auto
  next
    case False
    then show ?thesis using less.prems by (cases buf) (subst fall_pending.simps, subst (asm) fall.simps, auto)
  qed
qed

section \<open>The staged file contract\<close>

text \<open>
  What the writer relies on: copying a prefix into a fresh candidate puts there exactly the first bytes of
  the source, and writing appends.
\<close>

locale staged_file =
  fixes ops :: "'s staged_ops" and candidate :: "'s \<Rightarrow> string" and source :: string
  assumes copy_prefix: "candidate st = [] \<Longrightarrow> so_copy_prefix ops n st = Inr st' \<Longrightarrow> candidate st' = take n source"
    and copied_length: "so_copy_prefix ops n st = Inr st' \<Longrightarrow> n \<le> length source"
    and staged_write: "so_write ops bytes st = Inr st' \<Longrightarrow> candidate st' = candidate st @ bytes"
begin

definition contents :: "'s candidate_writer \<Rightarrow> string" where
  "contents w = candidate (cw_staged w) @ cw_buffer w"

lemma cw_flush_contents:
  "cw_flush ops w = Inr w' \<Longrightarrow> contents w' = contents w \<and> cw_buffer w' = [] \<and> cw_written w' = cw_written w \<and>
     cw_limit w' = cw_limit w \<and> cw_enabled w' = cw_enabled w"
  by (auto simp: cw_flush_def contents_def and_then_eq_Inr staged_write split: if_splits)

lemma cw_append_contents:
  assumes "cw_enabled w" "cw_append ops bytes w = Inr w'"
  shows "contents w' = contents w @ bytes \<and> cw_enabled w' \<and> cw_limit w' = cw_limit w \<and>
    cw_written w' = cw_written w + length bytes \<and> length bytes \<le> cw_limit w - cw_written w"
proof -
  let ?w1 = "w\<lparr>cw_written := cw_written w + length bytes\<rparr>"
  have lim: "length bytes \<le> cw_limit w - cw_written w" using assms by (auto simp: cw_append_def split: if_splits)
  show ?thesis
  proof (cases "length (cw_buffer w) + length bytes < kFlushBytes")
    case True
    then show ?thesis using assms lim by (auto simp: cw_append_def Let_def contents_def)
  next
    case False
    then obtain w2 where w2: "cw_flush ops ?w1 = Inr w2"
      "(if length bytes \<ge> kFlushBytes then
          and_then (so_write ops bytes (cw_staged w2)) (\<lambda>st. Inr (w2\<lparr>cw_staged := st\<rparr>))
        else Inr (w2\<lparr>cw_buffer := cw_buffer w2 @ bytes\<rparr>)) = Inr w'"
      using assms lim by (auto simp: cw_append_def Let_def and_then_eq_Inr)
    from cw_flush_contents [OF w2(1)] w2(2) assms(1) lim show ?thesis
      by (auto simp: contents_def and_then_eq_Inr staged_write split: if_splits)
  qed
qed

lemma cw_begin_contents:
  assumes "cw_enabled w" "contents w = []" "cw_begin ops n new w = Inr w'"
  shows "contents w' = take n source @ new \<and> cw_enabled w' \<and> n \<le> length source"
proof -
  obtain st where st: "so_copy_prefix ops n (cw_staged w) = Inr st"
    "cw_append ops new (w\<lparr>cw_staged := st, cw_written := n\<rparr>) = Inr w'"
    using assms by (auto simp: cw_begin_def and_then_eq_Inr split: if_splits)
  have "candidate st = take n source" "cw_buffer w = []"
    using copy_prefix [OF _ st(1)] assms(2) by (auto simp: contents_def)
  then show ?thesis using cw_append_contents [OF _ st(2)] assms(1) copied_length [OF st(1)] by (simp add: contents_def)
qed

end

lemma cw_disabled:
  "\<not> cw_enabled w \<Longrightarrow> cw_append ops bytes w = Inr w" "\<not> cw_enabled w \<Longrightarrow> cw_begin ops n new w = Inr w"
  by (simp_all add: cw_append_def cw_begin_def)

section \<open>The matcher's invariant\<close>

lemma occurs_at_end:
  assumes "length u = k + length p"
  shows "occurs_at u p k \<longleftrightarrow> suffix p u"
proof -
  have "substr u k (length p) = drop k u" using assms by (simp add: substr_def)
  moreover have "suffix p u \<longleftrightarrow> drop k u = p"
    using assms suffix_drop_length [of p u] suffix_drop [of k u] by auto
  ultimately show ?thesis using assms by (simp add: occurs_at_def)
qed

lemma occurs_at_snoc:
  assumes "p \<noteq> []"
  shows "occurs_at (t @ [b]) p k \<longleftrightarrow> occurs_at t p k \<or> k + length p = Suc (length t) \<and> suffix p (t @ [b])"
proof (cases "k + length p \<le> length t")
  case True
  then have "k \<le> length t" by simp
  then show ?thesis using True by (simp add: occurs_at_def substr_def)
next
  case False
  then show ?thesis using occurs_at_end [of "t @ [b]" k p] by (auto simp: occurs_at_def [of t] occurs_at_def [of "t @ [b]"])
qed

text \<open>
  The state after reading \<open>t\<close>: before the first match, after exactly one, or stopped at the second. The
  writer holds the edited text so far, unless it is disabled.
\<close>

context staged_file
begin

definition searching :: "string \<Rightarrow> bool \<Rightarrow> string \<Rightarrow> 's streaming_matcher \<Rightarrow> bool" where
  "searching p on t m \<longleftrightarrow> \<not> sm_found m \<and> sm_match_byte m = 0 \<and> \<not> sm_ambiguous m \<and> \<not> sm_stopped m \<and>
     cw_enabled (sm_writer m) = on \<and> contents (sm_writer m) = [] \<and>
     (\<forall>i. \<not> occurs_at t p i) \<and> greatest (overlap p t) (sm_q m) \<and> holds (sm_pending m, sm_begin m) (take (sm_q m) p)"

definition matched_once :: "string \<Rightarrow> string \<Rightarrow> bool \<Rightarrow> string \<Rightarrow> 's streaming_matcher \<Rightarrow> bool" where
  "matched_once p new on t m \<longleftrightarrow> sm_found m \<and> \<not> sm_ambiguous m \<and> \<not> sm_stopped m \<and> sm_span m = p \<and>
     (\<forall>i. occurs_at t p i \<longleftrightarrow> i = sm_match_byte m) \<and> greatest (overlap p t) (sm_q m) \<and>
     cw_enabled (sm_writer m) = on \<and> (on \<longrightarrow>
       sm_match_byte m \<le> length source \<and> contents (sm_writer m) = take (sm_match_byte m) source @ new @ drop (sm_match_byte m + length p) t)"

definition matched_twice :: "string \<Rightarrow> string \<Rightarrow> 's streaming_matcher \<Rightarrow> bool" where
  "matched_twice p t m \<longleftrightarrow> sm_found m \<and> sm_ambiguous m \<and> sm_stopped m \<and> \<not> cw_enabled (sm_writer m) \<and>
     first_two t p (sm_match_byte m) (sm_second_match_byte m)"

definition tracking :: "string \<Rightarrow> string \<Rightarrow> bool \<Rightarrow> string \<Rightarrow> 's streaming_matcher \<Rightarrow> bool" where
  "tracking p new on t m \<longleftrightarrow> sm_pattern m = p \<and> sm_replacement m = new \<and> good_table p (sm_prefix m) (length p) \<and>
     (searching p on t m \<or> matched_once p new on t m \<or> matched_twice p t m)"

end

lemma full_match_overlap:
  assumes "good_table p table (length p)" "p \<noteq> []" "suffix p t"
  shows "greatest (overlap p t) (table ! (length p - 1))"
proof -
  have g: "greatest (border p (length p - 1)) (table ! (length p - 1))"
    using assms(1,2) by (simp add: good_table_def)
  have iff: "overlap p t k \<longleftrightarrow> border p (length p - 1) k" for k
  proof -
    have "suffix (take k p) t \<longleftrightarrow> suffix (take k p) p" if "k < length p"
      using assms(3) that suffix_same_length [of "take k p" t p] suffix_order.trans [of "take k p" p t] by auto
    then show ?thesis using assms(2) by (cases p) (auto simp: overlap_def border_def)
  qed
  show ?thesis using g by (simp add: greatest_def iff)
qed

lemma holds_snoc: "holds (pending, front) x \<Longrightarrow> holds (pending @ [b], front) (x @ [b])"
  by (auto simp: holds_def)

lemma holds_substr: "holds (pending, front) x \<Longrightarrow> substr pending front (length x) = x"
  by (auto simp: holds_def substr_def)

context staged_file
begin

lemma step_searching:
  assumes p: "p \<noteq> []"
    and m: "sm_pattern m = p" "sm_replacement m = new" "good_table p (sm_prefix m) (length p)" "searching p on t m"
  shows "\<exists>r. sm_step ops b (length t) m = Some r \<and> (\<forall>m'. r = Inr m' \<longrightarrow> tracking p new on (t @ [b]) m')"
proof -
  have s: "\<not> sm_found m" "\<not> sm_ambiguous m" "\<not> sm_stopped m" "\<And>i. \<not> occurs_at t p i"
    "greatest (overlap p t) (sm_q m)" "holds (sm_pending m, sm_begin m) (take (sm_q m) p)"
    and w0: "cw_enabled (sm_writer m) = on" "contents (sm_writer m) = []"
    using m(4) by (simp_all add: searching_def)
  have q: "overlap p t (sm_q m)" "sm_q m < length p" "\<forall>j. extends p t b j \<longrightarrow> j \<le> sm_q m"
    using s(5) by (auto simp: greatest_def overlap_def extends_def)
  obtain r where r: "fall p (sm_prefix m) b (sm_q m) = Some r" "fallen p t b r" using fall_exact [OF m(3) q(1,3)] by blast
  obtain pending front where f: "fall_pending p (sm_prefix m) b (sm_q m) (sm_pending m, sm_begin m) = Some (r, pending, front)"
    "holds (pending, front) (take r p)"
    using fall_pending_exact [OF m(3) q(2) s(6) r(1)] by auto
  have rlt: "r < length p" using r(2) by (simp add: fallen_def overlap_def)
  define q' where "q' = (if p ! r = b then r + 1 else r)"
  define pending' where "pending' = (if p ! r = b then pending @ [b] else pending)"
  define m1 where "m1 = m\<lparr>sm_q := q', sm_pending := pending', sm_begin := front\<rparr>"
  have held: "holds (pending', front) (take q' p)"
    using f(2) holds_snoc [OF f(2), of b] rlt by (auto simp: pending'_def q'_def take_Suc_conv_app_nth)
  have step: "sm_step ops b (length t) m = Some (if q' = length p then sm_complete ops (length t) m1 else Inr m1)"
    using s m(1) f(1) rlt by (cases "p ! r = b") (simp_all add: sm_step_def Let_def m1_def q'_def pending'_def)
  note next_q = fallen_next [OF r(2) p, folded q'_def]
  show ?thesis
  proof (cases "q' = length p")
    case True
    let ?start = "Suc (length t) - length p"
    have sfx: "suffix p (t @ [b])" using next_q(1) True by simp
    then have len: "length p \<le> Suc (length t)" using suffix_length_le [OF sfx] by simp
    have occ: "occurs_at (t @ [b]) p i \<longleftrightarrow> i = ?start" for i
      using occurs_at_snoc [OF p, of t b i] s(4) sfx len by auto
    have over: "greatest (overlap p (t @ [b])) (sm_prefix m ! (length p - 1))" by (rule full_match_overlap [OF m(3) p sfx])
    have span: "substr pending' front (length p) = p" using holds_substr [OF held] True by simp
    have completed: "tracking p new on (t @ [b]) m'" if c: "sm_complete ops (length t) m1 = Inr m'" for m'
    proof -
      obtain w where w: "cw_begin ops ?start new (sm_writer m) = Inr w" and m': "m' = m1\<lparr>sm_found := True, sm_match_byte := ?start,
          sm_span := p, sm_pending := [], sm_begin := 0, sm_writer := w, sm_q := sm_prefix m ! (length p - 1)\<rparr>"
        using c s(1) m(1,2) span by (auto simp: sm_complete_def Let_def m1_def and_then_eq_Inr)
      have "cw_enabled w = on \<and> (on \<longrightarrow> ?start \<le> length source \<and> contents w = take ?start source @ new)"
        using cw_begin_contents [OF _ w0(2) w] w w0 cw_disabled(2) [of "sm_writer m" ops ?start new] by auto
      then have "matched_once p new on (t @ [b]) m'"
        using s occ over len by (auto simp: matched_once_def m' m1_def)
      then show ?thesis using m by (simp add: tracking_def m' m1_def)
    qed
    then show ?thesis using step True by simp
  next
    case False
    then have "\<not> suffix p (t @ [b])" using next_q(1) by simp
    then have "\<not> occurs_at (t @ [b]) p i" for i using occurs_at_snoc [OF p, of t b i] s(4) [of i] by blast
    then have "searching p on (t @ [b]) m1"
      using s w0 m(4) next_q(2) [OF False] held by (simp add: searching_def m1_def)
    then show ?thesis using step False m by (simp add: tracking_def m1_def)
  qed
qed

lemma step_matched:
  assumes p: "p \<noteq> []"
    and m: "sm_pattern m = p" "sm_replacement m = new" "good_table p (sm_prefix m) (length p)" "matched_once p new on t m"
  shows "\<exists>r. sm_step ops b (length t) m = Some r \<and> (\<forall>m'. r = Inr m' \<longrightarrow> tracking p new on (t @ [b]) m')"
proof -
  let ?i = "sm_match_byte m"
  have s: "sm_found m" "\<not> sm_ambiguous m" "\<not> sm_stopped m" "sm_span m = p" "\<And>i. occurs_at t p i \<longleftrightarrow> i = ?i"
    "greatest (overlap p t) (sm_q m)"
    and out: "cw_enabled (sm_writer m) = on"
      "on \<longrightarrow> ?i \<le> length source \<and> contents (sm_writer m) = take ?i source @ new @ drop (?i + length p) t"
    using m(4) by (simp_all add: matched_once_def)
  have q: "overlap p t (sm_q m)" "\<forall>j. extends p t b j \<longrightarrow> j \<le> sm_q m"
    using s(6) by (auto simp: greatest_def extends_def)
  obtain r where r: "fall p (sm_prefix m) b (sm_q m) = Some r" "fallen p t b r" using fall_exact [OF m(3) q] by blast
  define q' where "q' = (if p ! r = b then r + 1 else r)"
  note next_q = fallen_next [OF r(2) p, folded q'_def]
  show ?thesis
  proof (cases "cw_append ops [b] (sm_writer m)")
    case (Inl e)
    then show ?thesis using s by (simp add: sm_step_def)
  next
    case (Inr w)
    define m1 where "m1 = m\<lparr>sm_writer := w, sm_q := q'\<rparr>"
    have step: "sm_step ops b (length t) m = Some (if q' = length p then sm_complete ops (length t) m1 else Inr m1)"
      using s m(1) Inr r(1) by (simp add: sm_step_def Let_def m1_def q'_def)
    have i: "occurs_at t p ?i" using s(5) by simp
    then have le: "?i + length p \<le> length t" by (simp add: occurs_at_def)
    have out': "cw_enabled w = on \<and> (on \<longrightarrow> ?i \<le> length source \<and> contents w = take ?i source @ new @ drop (?i + length p) (t @ [b]))"
      using out cw_append_contents [OF _ Inr] Inr cw_disabled(1) [of "sm_writer m" ops "[b]"] le by auto
    show ?thesis
    proof (cases "q' = length p")
      case True
      let ?start = "Suc (length t) - length p"
      have sfx: "suffix p (t @ [b])" using next_q(1) True by simp
      then have len: "length p \<le> Suc (length t)" using suffix_length_le [OF sfx] by simp
      have "k + length p = Suc (length t) \<longleftrightarrow> k = ?start" for k using len by linarith
      then have occ: "occurs_at (t @ [b]) p k \<longleftrightarrow> k = ?i \<or> k = ?start" for k
        using occurs_at_snoc [OF p, of t b k] s(5) [of k] sfx by simp
      define m2 where "m2 = m1\<lparr>sm_ambiguous := True, sm_second_match_byte := ?start, sm_q := 0, sm_stopped := True,
        sm_writer := cw_enable False w\<rparr>"
      have "matched_twice p (t @ [b]) m2"
        using s(1) occ le len by (auto simp: matched_twice_def first_two_def m2_def m1_def cw_enable_def)
      moreover have "sm_complete ops (length t) m1 = Inr m2" using s(1) m(1) by (simp add: sm_complete_def m1_def m2_def)
      ultimately show ?thesis using step True m by (simp add: tracking_def m2_def m1_def)
    next
      case False
      then have "\<not> suffix p (t @ [b])" using next_q(1) by simp
      then have "occurs_at (t @ [b]) p k \<longleftrightarrow> k = ?i" for k using occurs_at_snoc [OF p, of t b k] s(5) [of k] by blast
      then have "matched_once p new on (t @ [b]) m1"
        using s next_q(2) [OF False] out' by (simp add: matched_once_def m1_def)
      then show ?thesis using step False m by (simp add: tracking_def m1_def)
    qed
  qed
qed

lemma step_stopped:
  assumes "p \<noteq> []" "matched_twice p t m"
  shows "sm_step ops b (length t) m = Some (Inr m) \<and> matched_twice p (t @ [b]) m"
proof -
  have "occurs_at (t @ [b]) p i \<and> i < sm_second_match_byte m \<longleftrightarrow> occurs_at t p i \<and> i < sm_second_match_byte m" for i
    using occurs_at_snoc [OF assms(1), of t b i] assms(2) by (auto simp: matched_twice_def first_two_def occurs_at_def)
  then show ?thesis
    using assms occurs_at_snoc [OF assms(1), of t b] by (auto simp: matched_twice_def first_two_def sm_step_def)
qed

lemma step_tracking:
  assumes "p \<noteq> []" "tracking p new on t m"
  shows "\<exists>r. sm_step ops b (length t) m = Some r \<and> (\<forall>m'. r = Inr m' \<longrightarrow> tracking p new on (t @ [b]) m')"
  using assms(2) step_searching [OF assms(1), of m new on t b] step_matched [OF assms(1), of m new on t b]
    step_stopped [OF assms(1), of t m b]
  unfolding tracking_def by auto

lemma feed_tracking:
  assumes "p \<noteq> []" "tracking p new on t m"
  shows "\<exists>r. sm_feed ops bytes (length t) m = Some r \<and> (\<forall>m'. r = Inr m' \<longrightarrow> tracking p new on (t @ bytes) m')"
  using assms(2)
proof (induction bytes arbitrary: t m)
  case Nil then show ?case by simp
next
  case (Cons b bytes)
  obtain r where r: "sm_step ops b (length t) m = Some r" "\<And>m'. r = Inr m' \<Longrightarrow> tracking p new on (t @ [b]) m'"
    using step_tracking [OF assms(1) Cons.prems] by blast
  show ?case
  proof (cases r)
    case (Inl e) then show ?thesis using r(1) by simp
  next
    case (Inr m1)
    then show ?thesis using r Cons.IH [of "t @ [b]" m1] by simp
  qed
qed

lemma new_tracking:
  assumes "p \<noteq> []" "contents w = []" "cw_enabled w = on"
  shows "\<exists>m. StreamingMatcher p new w = Some m \<and> tracking p new on [] m \<and> sm_writer m = w"
proof -
  obtain table where "kmp_prefix p = Some table" "good_table p table (length p)" using kmp_prefix_good [OF assms(1)] by blast
  then show ?thesis
    using assms by (auto simp: StreamingMatcher_def tracking_def searching_def occurs_at_def greatest_def overlap_def holds_def)
qed

end

section \<open>What the scan leaves alone\<close>

text \<open>A part of the staged file that its two operations keep is kept by the whole scan.\<close>

locale staged_frame =
  fixes ops :: "'s staged_ops" and part :: "'s \<Rightarrow> 'p"
  assumes copy_prefix_part: "so_copy_prefix ops n st = Inr st' \<Longrightarrow> part st' = part st"
    and write_part: "so_write ops bytes st = Inr st' \<Longrightarrow> part st' = part st"
begin

lemma cw_flush_part: "cw_flush ops w = Inr w' \<Longrightarrow> part (cw_staged w') = part (cw_staged w)"
  by (auto simp: cw_flush_def and_then_eq_Inr write_part split: if_splits)

lemma cw_append_part: "cw_append ops bytes w = Inr w' \<Longrightarrow> part (cw_staged w') = part (cw_staged w)"
  using cw_flush_part [of "w\<lparr>cw_written := cw_written w + length bytes\<rparr>"]
  by (auto simp: cw_append_def Let_def and_then_eq_Inr write_part split: if_splits)

lemma cw_begin_part: "cw_begin ops n new w = Inr w' \<Longrightarrow> part (cw_staged w') = part (cw_staged w)"
  by (auto simp: cw_begin_def and_then_eq_Inr dest!: cw_append_part copy_prefix_part split: if_splits)

lemma sm_complete_part: "sm_complete ops n m = Inr m' \<Longrightarrow> part (cw_staged (sm_writer m')) = part (cw_staged (sm_writer m))"
  by (auto simp: sm_complete_def Let_def and_then_eq_Inr cw_enable_def dest!: cw_begin_part split: if_splits)

lemma sm_step_part: "sm_step ops b n m = Some (Inr m') \<Longrightarrow> part (cw_staged (sm_writer m')) = part (cw_staged (sm_writer m))"
  by (auto simp: sm_step_def Let_def dest!: sm_complete_part cw_append_part split: if_splits option.splits sum.splits)

lemma sm_feed_part: "sm_feed ops bytes n m = Some (Inr m') \<Longrightarrow> part (cw_staged (sm_writer m')) = part (cw_staged (sm_writer m))"
proof (induction bytes arbitrary: n m)
  case (Cons b bytes)
  then show ?case by (auto dest: sm_step_part split: option.splits sum.splits)
qed simp

end

section \<open>When the calls succeed\<close>

text \<open>
  A provider in good order: \<open>healthy n st\<close> says that writing succeeds and a prefix of up to \<open>n\<close> bytes can be
  copied, and that this stays so.
\<close>

locale staged_total = staged_file ops candidate source
  for ops :: "'s staged_ops" and candidate :: "'s \<Rightarrow> string" and source :: string +
  fixes healthy :: "nat \<Rightarrow> 's \<Rightarrow> bool"
  assumes copy_ok: "healthy n st \<Longrightarrow> k \<le> n \<Longrightarrow> \<exists>st'. so_copy_prefix ops k st = Inr st' \<and> healthy n st'"
    and write_ok: "healthy n st \<Longrightarrow> \<exists>st'. so_write ops bytes st = Inr st' \<and> healthy n st'"
begin

lemma cw_flush_ok: "healthy n (cw_staged w) \<Longrightarrow> \<exists>w'. cw_flush ops w = Inr w' \<and> healthy n (cw_staged w')"
  using write_ok [of n "cw_staged w" "cw_buffer w"] by (auto simp: cw_flush_def)

lemma cw_append_ok:
  assumes "healthy n (cw_staged w)" "length bytes \<le> cw_limit w - cw_written w"
  shows "\<exists>w'. cw_append ops bytes w = Inr w' \<and> healthy n (cw_staged w')"
proof -
  let ?w = "w\<lparr>cw_written := cw_written w + length bytes\<rparr>"
  obtain w2 where w2: "cw_flush ops ?w = Inr w2" "healthy n (cw_staged w2)" using cw_flush_ok [of n ?w] assms(1) by auto
  obtain st where "so_write ops bytes (cw_staged w2) = Inr st" "healthy n st" using write_ok [OF w2(2)] by blast
  then show ?thesis using assms w2 by (auto simp: cw_append_def Let_def)
qed

lemma cw_begin_ok:
  assumes "healthy n (cw_staged w)" "k \<le> n" "k + length new \<le> cw_limit w"
  shows "\<exists>w'. cw_begin ops k new w = Inr w' \<and> healthy n (cw_staged w')"
proof -
  obtain st where st: "so_copy_prefix ops k (cw_staged w) = Inr st" "healthy n st" using copy_ok [OF assms(1,2)] by blast
  then show ?thesis
    using assms cw_append_ok [of n "w\<lparr>cw_staged := st, cw_written := k\<rparr>" new] by (auto simp: cw_begin_def)
qed

text \<open>After the match every byte of the edited text so far has been charged to the limit.\<close>

definition in_budget :: "string \<Rightarrow> string \<Rightarrow> nat \<Rightarrow> nat \<Rightarrow> string \<Rightarrow> 's streaming_matcher \<Rightarrow> bool" where
  "in_budget p new limit n t m \<longleftrightarrow> healthy n (cw_staged (sm_writer m)) \<and> cw_limit (sm_writer m) = limit \<and>
     (sm_found m \<and> cw_enabled (sm_writer m) \<longrightarrow> cw_written (sm_writer m) + length p = length t + length new)"

lemma cw_append_written:
  assumes "cw_append ops bytes w = Inr w'"
  shows "cw_limit w' = cw_limit w" "cw_enabled w' = cw_enabled w"
    "cw_enabled w \<Longrightarrow> cw_written w' = cw_written w + length bytes"
  using assms cw_append_contents [of w bytes w'] cw_disabled(1) [of w ops bytes] by (cases "cw_enabled w"; simp)+

lemma cw_begin_written:
  assumes "cw_begin ops k new w = Inr w'"
  shows "cw_limit w' = cw_limit w" "cw_enabled w' = cw_enabled w" "cw_enabled w \<Longrightarrow> cw_written w' = k + length new"
proof -
  have "cw_limit w' = cw_limit w \<and> cw_enabled w' = cw_enabled w \<and> (cw_enabled w \<longrightarrow> cw_written w' = k + length new)"
  proof (cases "cw_enabled w")
    case True
    then obtain st where "cw_append ops new (w\<lparr>cw_staged := st, cw_written := k\<rparr>) = Inr w'"
      using assms by (auto simp: cw_begin_def and_then_eq_Inr split: if_splits)
    from cw_append_written [OF this] show ?thesis using True by simp
  qed (use assms cw_disabled(2) [of w ops k new] in simp)
  then show "cw_limit w' = cw_limit w" "cw_enabled w' = cw_enabled w" "cw_enabled w \<Longrightarrow> cw_written w' = k + length new" by auto
qed

lemma found_length:
  assumes "tracking p new on t m" "sm_found m" shows "length p \<le> length t"
proof -
  have "\<exists>i. occurs_at t p i"
    using assms by (auto simp: tracking_def searching_def matched_once_def matched_twice_def first_two_def)
  then show ?thesis by (auto simp: occurs_at_def)
qed

lemma step_in_budget:
  assumes p: "p \<noteq> []" and tr: "tracking p new on t m" and b: "in_budget p new limit n t m"
    and n: "length t < n" and room: "Suc (length t) - length p + length new \<le> limit"
  shows "\<exists>m'. sm_step ops b (length t) m = Some (Inr m') \<and> tracking p new on (t @ [b]) m' \<and> in_budget p new limit n (t @ [b]) m'"
proof -
  let ?w = "sm_writer m"
  have w: "healthy n (cw_staged ?w)" "cw_limit ?w = limit" using b by (simp_all add: in_budget_def)
  have pat: "sm_pattern m = p" "sm_replacement m = new" using tr by (simp_all add: tracking_def)
  obtain r where r: "sm_step ops b (length t) m = Some r" "\<And>m'. r = Inr m' \<Longrightarrow> tracking p new on (t @ [b]) m'"
    using step_tracking [OF p tr] by blast
  have "\<exists>m'. r = Inr m' \<and> (length p \<le> length (t @ [b]) \<or> \<not> sm_found m' \<longrightarrow> in_budget p new limit n (t @ [b]) m')"
  proof (cases "sm_stopped m \<or> \<not> sm_found m")
    case True
    show ?thesis
    proof (cases "sm_stopped m")
      case True
      then have "\<not> cw_enabled ?w" using tr by (auto simp: tracking_def searching_def matched_once_def matched_twice_def)
      then show ?thesis using True r(1) b by (auto simp: sm_step_def in_budget_def)
    next
      case False
      have "Suc (length t) - length p \<le> n" using n by simp
      moreover have "Suc (length t) - length p + length new \<le> cw_limit ?w" using room w(2) by simp
      ultimately obtain w' where w': "cw_begin ops (Suc (length t) - length p) new ?w = Inr w'" "healthy n (cw_staged w')"
        using cw_begin_ok [OF w(1)] by blast
      show ?thesis
        using False True r(1) w w' cw_begin_written [OF w'(1)] pat
        by (auto simp: sm_step_def Let_def sm_complete_def in_budget_def split: option.splits if_splits)
    qed
  next
    case False
    then have "cw_enabled ?w \<Longrightarrow> cw_written ?w + length p = length t + length new" "length p \<le> length t"
      using b found_length [OF tr] by (simp_all add: in_budget_def)
    then have "length [b] \<le> cw_limit ?w - cw_written ?w" if "cw_enabled ?w" using room w(2) that by auto
    then obtain w' where w': "cw_append ops [b] ?w = Inr w'" "healthy n (cw_staged w')"
      using cw_append_ok [OF w(1), of "[b]"] cw_disabled(1) [of ?w ops "[b]"] w(1) by (cases "cw_enabled ?w") auto
    show ?thesis
      using False r(1) b w w' cw_append_written [OF w'(1)] pat
      by (auto simp: sm_step_def Let_def sm_complete_def in_budget_def cw_enable_def split: option.splits if_splits)
  qed
  then obtain m' where m': "r = Inr m'" "length p \<le> length (t @ [b]) \<or> \<not> sm_found m' \<longrightarrow> in_budget p new limit n (t @ [b]) m'" by blast
  then show ?thesis using r found_length [OF r(2) [OF m'(1)]] by auto
qed

lemma feed_in_budget:
  assumes "p \<noteq> []" "tracking p new on t m" "in_budget p new limit n t m"
    and "length (t @ bytes) \<le> n" "length (t @ bytes) - length p + length new \<le> limit"
  shows "\<exists>m'. sm_feed ops bytes (length t) m = Some (Inr m') \<and> tracking p new on (t @ bytes) m' \<and> in_budget p new limit n (t @ bytes) m'"
  using assms(2-5)
proof (induction bytes arbitrary: t m)
  case (Cons b bytes)
  obtain m' where m': "sm_step ops b (length t) m = Some (Inr m')" "tracking p new on (t @ [b]) m'" "in_budget p new limit n (t @ [b]) m'"
  proof -
    have "Suc (length t) - length p + length new \<le> limit" using Cons.prems(4) by (simp add: diff_le_mono le_diff_conv)
    then show thesis using that step_in_budget [OF assms(1) Cons.prems(1,2), of b] Cons.prems(3) by auto
  qed
  then show ?case using Cons.IH [OF m'(2,3)] Cons.prems(3,4) by simp
qed auto

end

end
