(* ===== verification/Staged_Replace.thy ===== *)
theory Staged_Replace
  imports Text_Matcher
begin

text \<open>
  The streaming replacement transaction of \<^verbatim>\<open>utils/fileio/src/staged_replace.cpp\<close> with the POSIX
  helpers of \<^verbatim>\<open>posix_identity.hpp\<close>. The operating system is a parameter: a descriptor is the list of the
  outcomes of the read calls still to come, so short reads, interrupted calls, failures and any change of
  the file by another process are all covered, and the outcome of every other system call is a field of
  \<open>replace_env\<close>. A stop token is the number of polls after which it reports a stop.
\<close>

section \<open>System calls\<close>

datatype read_outcome = Interrupted | ReadFailed nat | Delivered string

type_synonym descriptor = "read_outcome list"

text \<open>A descriptor whose outcomes are used up is at the end of its file.\<close>

fun delivered :: "descriptor \<Rightarrow> string" where
  "delivered [] = []"
| "delivered (Delivered s # d) = s @ delivered d"
| "delivered (_ # d) = delivered d"

definition unread :: "string \<Rightarrow> descriptor \<Rightarrow> descriptor" where
  "unread s d = (if s = [] then d else Delivered s # d)"

datatype write_outcome = WriteInterrupted | WriteFailed nat | Wrote nat

text \<open>\<^term>\<open>Wrote n\<close> is a count of \<open>n + 1\<close>, clipped to what is left; past the list every call takes all bytes.\<close>

fun write_all :: "string \<Rightarrow> write_outcome list \<Rightarrow> write_outcome list result" where
  "write_all bytes [] = Inr []"
| "write_all bytes (out # ws) =
     (if bytes = [] then Inr (out # ws)
      else case out of
        WriteInterrupted \<Rightarrow> write_all bytes ws
      | WriteFailed e \<Rightarrow> Inl (SystemError e ''write replacement file'')
      | Wrote n \<Rightarrow> write_all (drop (Suc n) bytes) ws)"

fun read_some :: "nat \<Rightarrow> descriptor \<Rightarrow> (string \<times> descriptor) result" where
  "read_some count [] = Inr ([], [])"
| "read_some count (out # d) =
     (if count = 0 then Inr ([], out # d)
      else case out of
        Interrupted \<Rightarrow> read_some count d
      | ReadFailed e \<Rightarrow> Inl (SystemError e ''read replacement file'')
      | Delivered s \<Rightarrow>
          if s = [] then Inr ([], d)
          else if length s < count then and_then (read_some (count - length s) d) (\<lambda>(t, d'). Inr (s @ t, d'))
          else Inr (take count s, unread (drop count s) d))"

type_synonym stop_token = "nat option"

definition ECANCELED :: nat where "ECANCELED = 125"

definition ENOENT :: nat where "ENOENT = 2"

definition EOPNOTSUPP :: nat where "EOPNOTSUPP = 95"

definition EIO :: nat where "EIO = 5"

fun check_cancelled :: "stop_token \<Rightarrow> stop_token result" where
  "check_cancelled None = Inr None"
| "check_cancelled (Some 0) = Inl (SystemError ECANCELED ''file operation cancelled before completion/publication'')"
| "check_cancelled (Some (Suc n)) = Inr (Some n)"

record file_stat =
  st_dev :: nat
  st_ino :: nat
  st_size :: nat
  st_mode :: nat
  st_uid :: nat
  st_gid :: nat
  st_nlink :: nat
  st_mtim :: "int \<times> int"
  st_ctim :: "int \<times> int"

text \<open>\<^verbatim>\<open>S_ISREG\<close>: the file type bits; \<^verbatim>\<open>07000\<close>: the set-id and sticky bits.\<close>

definition s_isreg :: "nat \<Rightarrow> bool" where "s_isreg mode \<longleftrightarrow> mode div 4096 mod 16 = 8"

definition special_bits :: "nat \<Rightarrow> bool" where "special_bits mode \<longleftrightarrow> mode div 512 mod 8 \<noteq> 0"

record file_identity =
  fi_device :: nat
  fi_inode :: nat
  fi_size :: nat
  fi_mode :: nat
  fi_owner :: nat
  fi_group :: nat
  fi_links :: nat
  fi_modified :: "int \<times> int"
  fi_changed :: "int \<times> int"

definition identity_of :: "file_stat \<Rightarrow> file_identity" where
  "identity_of info =
     \<lparr>fi_device = st_dev info, fi_inode = st_ino info, fi_size = st_size info, fi_mode = st_mode info,
      fi_owner = st_uid info, fi_group = st_gid info, fi_links = st_nlink info,
      fi_modified = st_mtim info, fi_changed = st_ctim info\<rparr>"

definition same_file :: "file_stat \<Rightarrow> file_stat \<Rightarrow> bool" where
  "same_file left right \<longleftrightarrow> s_isreg (st_mode right) \<and> st_nlink right = 1 \<and>
     st_dev left = st_dev right \<and> st_ino left = st_ino right \<and> st_size left = st_size right \<and>
     st_mode left = st_mode right \<and> st_uid left = st_uid right \<and> st_gid left = st_gid right \<and>
     st_mtim left = st_mtim right \<and> st_ctim left = st_ctim right"

text \<open>A call that returns a value or an error number.\<close>

definition os :: "nat + 'a \<Rightarrow> string \<Rightarrow> 'a result" where
  "os outcome operation = (case outcome of Inl e \<Rightarrow> Inl (SystemError e operation) | Inr x \<Rightarrow> Inr x)"

definition os_ok :: "nat option \<Rightarrow> string \<Rightarrow> unit result" where
  "os_ok failure operation = (case failure of Some e \<Rightarrow> Inl (SystemError e operation) | None \<Rightarrow> Inr ())"

definition checked_regular :: "nat + file_stat \<Rightarrow> file_stat result" where
  "checked_regular fstat =
     and_then (os fstat ''inspect editable file'') (\<lambda>info.
       if \<not> s_isreg (st_mode info) \<or> st_nlink info \<noteq> 1 \<or> special_bits (st_mode info) then
         Inl (SystemError EOPNOTSUPP ''editing requires a single-link regular file without special mode bits'')
       else Inr info)"

text \<open>The path's bytes before they are made absolute.\<close>

definition checked_path :: "string \<Rightarrow> unit result" where
  "checked_path path = (if CHR 0x00 \<in> set path then Inl (InvalidArgument ''file path contains NUL'') else Inr ())"

text \<open>
  What the calls around one transaction return; a field of type \<^typ>\<open>nat option\<close> is the error number of a
  call that can only fail, and the calls on the private file depend on its content.
\<close>

record replace_env =
  se_errno :: nat
  se_open_source :: "nat + descriptor"
  se_opened_stat :: "nat + file_stat"
  se_open_directory :: "nat option"
  se_mkostemp :: "nat option"
  se_prefix_reads :: descriptor
  se_lseek :: "nat option"
  se_second_reads :: descriptor
  se_created_stat :: "string \<Rightarrow> nat + file_stat"
  se_fchown :: "nat option"
  se_fchmod :: "nat option"
  se_fsync :: "nat option"
  se_close :: "nat option"
  se_source_stat :: "nat + file_stat"
  se_reopen :: "nat + descriptor"
  se_regular_stat :: "nat + file_stat"
  se_reopened_stat :: "nat + file_stat"
  se_open_candidate :: "nat option"
  se_candidate_reads :: "string \<Rightarrow> descriptor"
  se_after_stat :: "nat + file_stat"
  se_original_stat :: "nat + file_stat"
  se_current_stat :: "nat + file_stat"
  se_rename :: "nat option"
  se_sync_directory :: "nat option"

section \<open>Comparing while reading\<close>

definition kCompareChunk :: nat where "kCompareChunk = 64 * 1024"

lemma advance_less: "k < n \<Longrightarrow> xs \<noteq> [] \<Longrightarrow> n - (k + length xs) < n - k"
  by (cases xs) auto

type_synonym 'o observer = "nat \<Rightarrow> string \<Rightarrow> 'o \<Rightarrow> 'o"

function compare_exact ::
  "'o observer \<Rightarrow> nat \<Rightarrow> nat \<Rightarrow> nat \<Rightarrow> descriptor \<times> descriptor \<times> 'o \<times> stop_token \<Rightarrow>
   (descriptor \<times> descriptor \<times> 'o \<times> stop_token) result" where
  "compare_exact observe bytes base compared (left, right, obs, stop) =
     (if compared < bytes then
        and_then (check_cancelled stop) (\<lambda>stop'.
        and_then (read_some (min kCompareChunk (bytes - compared)) left) (\<lambda>(a, left').
        and_then (read_some (min kCompareChunk (bytes - compared)) right) (\<lambda>(b, right').
          if length a \<noteq> length b \<or> a = [] then Inl (ReplaceConflict ''file changed before replacement'')
          else if a \<noteq> b then Inl (ReplaceConflict ''file contents changed before replacement'')
          else compare_exact observe bytes base (compared + length a)
                 (left', right', observe (base + compared) a obs, stop'))))
      else Inr (left, right, obs, stop))"
  by pat_completeness auto
termination
  by (relation "measure (\<lambda>(_, bytes, _, compared, _). bytes - compared)") (auto intro: advance_less)

declare compare_exact.simps [simp del]

function compare_expected :: "nat \<Rightarrow> string \<Rightarrow> nat \<Rightarrow> descriptor \<times> stop_token \<Rightarrow> (descriptor \<times> stop_token) result" where
  "compare_expected bytes expected consumed (d, stop) =
     (if consumed < bytes then
        and_then (check_cancelled stop) (\<lambda>stop'.
        and_then (read_some (min kCompareChunk (bytes - consumed)) d) (\<lambda>(a, d').
          if a = [] \<or> a \<noteq> substr expected consumed (length a) then
            Inl (ReplaceConflict ''matched region changed before replacement'')
          else compare_expected bytes expected (consumed + length a) (d', stop')))
      else Inr (d, stop))"
  by pat_completeness auto
termination
  by (relation "measure (\<lambda>(bytes, _, consumed, _). bytes - consumed)") (auto intro: advance_less)

declare compare_expected.simps [simp del]

function skip_bytes :: "nat \<Rightarrow> nat \<Rightarrow> descriptor \<times> stop_token \<Rightarrow> (descriptor \<times> stop_token) result" where
  "skip_bytes bytes skipped (d, stop) =
     (if skipped < bytes then
        and_then (check_cancelled stop) (\<lambda>stop'.
        and_then (read_some (min kCompareChunk (bytes - skipped)) d) (\<lambda>(a, d').
          if a = [] then Inl (ReplaceConflict ''replacement region is missing'')
          else skip_bytes bytes (skipped + length a) (d', stop')))
      else Inr (d, stop))"
  by pat_completeness auto
termination
  by (relation "measure (\<lambda>(bytes, skipped, _). bytes - skipped)") (auto intro: advance_less)

declare skip_bytes.simps [simp del]

lemma read_some_delivered:
  "read_some count d = Inr (a, d') \<Longrightarrow> delivered d = a @ delivered d' \<and> length a \<le> count"
proof (induction count d arbitrary: a rule: read_some.induct)
  case (2 count out d)
  show ?case
  proof (cases out)
    case (Delivered s)
    show ?thesis
    proof (cases "count = 0 \<or> s = [] \<or> length s \<ge> count")
      case True
      then show ?thesis using "2.prems" Delivered by (auto simp: unread_def split: if_splits)
    next
      case False
      then obtain t where t: "read_some (count - length s) d = Inr (t, d')" "a = s @ t"
        using "2.prems" Delivered by (auto simp: and_then_eq_Inr)
      then show ?thesis using "2.IH"(2) [OF _ Delivered _ _ t(1)] False Delivered by auto
    qed
  qed (use 2 in \<open>auto split: if_splits\<close>)
qed simp

lemma compare_to_end_dom:
  "read_some count d = Inr (a, d') \<Longrightarrow> a \<noteq> [] \<Longrightarrow> length (delivered d') < length (delivered d)"
  by (auto dest!: read_some_delivered)

function compare_to_end ::
  "'o observer \<Rightarrow> nat \<Rightarrow> nat \<Rightarrow> descriptor \<times> descriptor \<times> 'o \<times> stop_token \<Rightarrow>
   (descriptor \<times> descriptor \<times> 'o \<times> stop_token) result" where
  "compare_to_end observe base compared (left, right, obs, stop) =
     and_then (check_cancelled stop) (\<lambda>stop'.
     and_then (read_some kCompareChunk left) (\<lambda>(a, left').
     and_then (read_some kCompareChunk right) (\<lambda>(b, right').
       if length a \<noteq> length b then Inl (ReplaceConflict ''file length changed before replacement'')
       else if a = [] then Inr (left', right', obs, stop')
       else if a \<noteq> b then Inl (ReplaceConflict ''file contents changed before replacement'')
       else compare_to_end observe base (compared + length a)
              (left', right', observe (base + compared) a obs, stop'))))"
  by pat_completeness auto
termination
  by (relation "measure (\<lambda>(_, _, _, left, _). length (delivered left))") (auto dest: compare_to_end_dom)

declare compare_to_end.simps [simp del]

section \<open>The transaction\<close>

text \<open>
  The private file behind \<^verbatim>\<open>candidate_\<close> and \<^verbatim>\<open>temporary_path_\<close>: none, one that is still open for writing,
  or one that is complete and closed; \<open>sr_meta\<close> is its owner, group and permission bits once complete.
\<close>

datatype private_file = NoFile | OpenFile string | ClosedFile string

record staged =
  sr_identity :: file_identity
  sr_buffer_bytes :: nat
  sr_source_bytes :: nat
  sr_candidate_bytes :: nat
  sr_source :: descriptor
  sr_writes :: "write_outcome list"
  sr_private :: private_file
  sr_meta :: "nat \<times> nat \<times> nat"
  sr_consumed :: bool
  sr_stop :: stop_token

definition kMinBufferBytes :: nat where "kMinBufferBytes = 4"

definition kMaxBufferBytes :: nat where "kMaxBufferBytes = 1024 * 1024"

definition StagedReplacement ::
  "replace_env \<Rightarrow> string \<Rightarrow> nat \<Rightarrow> write_outcome list \<Rightarrow> stop_token \<Rightarrow> staged result" where
  "StagedReplacement env path buffer_bytes ws stop =
     and_then (check_cancelled stop) (\<lambda>stop'.
     if buffer_bytes < kMinBufferBytes \<or> buffer_bytes > kMaxBufferBytes then
       Inl (InvalidArgument ''stream buffer must be between 4 bytes and 1 MiB'')
     else
       and_then (checked_path path) (\<lambda>_.
       and_then (os (se_open_source env) ''open editable file'') (\<lambda>source.
       and_then (checked_regular (se_opened_stat env)) (\<lambda>opened.
       and_then (os_ok (se_open_directory env) ''open editable file directory'') (\<lambda>_.
         Inr \<lparr>sr_identity = identity_of opened, sr_buffer_bytes = buffer_bytes, sr_source_bytes = 0,
              sr_candidate_bytes = 0, sr_source = source, sr_writes = ws, sr_private = NoFile,
              sr_meta = (0, 0, 0), sr_consumed = False, sr_stop = stop'\<rparr>)))))"

definition ensure_candidate :: "replace_env \<Rightarrow> staged \<Rightarrow> staged result" where
  "ensure_candidate env st =
     (case sr_private st of
        OpenFile _ \<Rightarrow> Inr st
      | _ \<Rightarrow> and_then (os_ok (se_mkostemp env) ''create replacement file'') (\<lambda>_.
          Inr (st\<lparr>sr_private := OpenFile []\<rparr>)))"

text \<open>The loop of \<^verbatim>\<open>next_source\<close>: one read of at most the buffer, repeated while interrupted.\<close>

fun next_read :: "nat \<Rightarrow> descriptor \<Rightarrow> stop_token \<Rightarrow> (string \<times> descriptor \<times> stop_token) result" where
  "next_read n [] stop = and_then (check_cancelled stop) (\<lambda>stop'. Inr ([], [], stop'))"
| "next_read n (out # d) stop =
     and_then (check_cancelled stop) (\<lambda>stop'.
       case out of
         Interrupted \<Rightarrow> next_read n d stop'
       | ReadFailed e \<Rightarrow> Inl (SystemError e ''read editable file'')
       | Delivered s \<Rightarrow> Inr (take n s, unread (drop n s) d, stop'))"

definition next_source :: "staged \<Rightarrow> (string \<times> staged) result" where
  "next_source st =
     and_then (check_cancelled (sr_stop st)) (\<lambda>stop.
     and_then (next_read (sr_buffer_bytes st) (sr_source st) stop) (\<lambda>(bytes, d, stop').
       Inr (bytes, st\<lparr>sr_source := d, sr_stop := stop', sr_source_bytes := sr_source_bytes st + length bytes\<rparr>)))"

definition restart_source :: "replace_env \<Rightarrow> staged \<Rightarrow> staged result" where
  "restart_source env st =
     and_then (os_ok (se_lseek env) ''rewind editable file'') (\<lambda>_.
       Inr (st\<lparr>sr_source := se_second_reads env, sr_source_bytes := 0\<rparr>))"

text \<open>
  \<^verbatim>\<open>copy_prefix\<close> first lets the kernel copy and goes on with \<^verbatim>\<open>pread\<close> from where that stopped; the
  outcomes of both are \<open>se_prefix_reads\<close>, in order. The first loop also gives what is left to copy.
\<close>

function copy_range :: "nat \<Rightarrow> descriptor \<Rightarrow> stop_token \<Rightarrow> (string \<times> nat \<times> descriptor \<times> stop_token) result" where
  "copy_range n d stop =
     (if n = 0 then Inr ([], 0, d, stop)
      else
        and_then (check_cancelled stop) (\<lambda>stop'.
        case d of
          [] \<Rightarrow> Inr ([], n, [], stop')
        | Interrupted # d' \<Rightarrow> copy_range n d' stop'
        | ReadFailed e # d' \<Rightarrow> Inr ([], n, d', stop')
        | Delivered s # d' \<Rightarrow>
            (let a = take (min n kCompareChunk) s in
             if a = [] then Inr ([], n, d', stop')
             else and_then (copy_range (n - length a) (unread (drop (length a) s) d') stop') (\<lambda>(b, left_over, d'', stop'').
               Inr (a @ b, left_over, d'', stop'')))))"
  by pat_completeness auto
termination
  by (relation "measures [\<lambda>(n, _). n, \<lambda>(_, d, _). length d]") (auto simp: min_def kCompareChunk_def)

declare copy_range.simps [simp del]

function copy_pread ::
  "nat \<Rightarrow> nat \<Rightarrow> descriptor \<Rightarrow> write_outcome list \<Rightarrow> stop_token \<Rightarrow>
   (string \<times> write_outcome list \<times> stop_token) result" where
  "copy_pread errno n d ws stop =
     (if n = 0 then Inr ([], ws, stop)
      else
        and_then (check_cancelled stop) (\<lambda>stop'.
        case d of
          [] \<Rightarrow> Inl (SystemError errno ''copy editable file prefix'')
        | Interrupted # d' \<Rightarrow> copy_pread errno n d' ws stop'
        | ReadFailed e # d' \<Rightarrow> Inl (SystemError e ''copy editable file prefix'')
        | Delivered s # d' \<Rightarrow>
            (let a = take (min kCompareChunk n) s in
             if a = [] then Inl (SystemError errno ''copy editable file prefix'')
             else and_then (write_all a ws) (\<lambda>ws'.
               and_then (copy_pread errno (n - length a) (unread (drop (length a) s) d') ws' stop') (\<lambda>(b, ws'', stop'').
                 Inr (a @ b, ws'', stop''))))))"
  by pat_completeness auto
termination
  by (relation "measures [\<lambda>(_, n, _). n, \<lambda>(_, _, d, _). length d]") (auto simp: min_def kCompareChunk_def)

declare copy_pread.simps [simp del]

fun private_text :: "private_file \<Rightarrow> string" where
  "private_text NoFile = []"
| "private_text (OpenFile c) = c"
| "private_text (ClosedFile c) = c"

definition append_candidate :: "string \<Rightarrow> staged \<Rightarrow> staged" where
  "append_candidate bytes st =
     st\<lparr>sr_private := (case sr_private st of OpenFile c \<Rightarrow> OpenFile (c @ bytes) | f \<Rightarrow> f), sr_candidate_bytes := sr_candidate_bytes st + length bytes\<rparr>"

definition copy_prefix :: "replace_env \<Rightarrow> nat \<Rightarrow> staged \<Rightarrow> staged result" where
  "copy_prefix env bytes st =
     (if bytes > sr_source_bytes st then Inl (LogicError ''prefix copy exceeds the scanned source'')
      else if bytes = 0 then Inr st
      else
        and_then (ensure_candidate env st) (\<lambda>st1.
        and_then (copy_range bytes (se_prefix_reads env) (sr_stop st1)) (\<lambda>(a, left_over, d, stop).
        and_then (copy_pread (se_errno env) left_over d (sr_writes st1) stop) (\<lambda>(b, ws, stop').
          Inr (append_candidate (a @ b) (st1\<lparr>sr_writes := ws, sr_stop := stop'\<rparr>))))))"

function write_chunks :: "string \<Rightarrow> staged \<Rightarrow> staged result" where
  "write_chunks bytes st =
     (if bytes = [] then Inr st
      else
        and_then (check_cancelled (sr_stop st)) (\<lambda>stop.
        and_then (write_all (take kCompareChunk bytes) (sr_writes st)) (\<lambda>ws.
          write_chunks (drop kCompareChunk bytes)
            (append_candidate (take kCompareChunk bytes) (st\<lparr>sr_writes := ws, sr_stop := stop\<rparr>)))))"
  by pat_completeness auto
termination
  by (relation "measure (\<lambda>(bytes, _). length bytes)") (auto simp: kCompareChunk_def)

declare write_chunks.simps [simp del]

definition staged_write :: "replace_env \<Rightarrow> string \<Rightarrow> staged \<Rightarrow> staged result" where
  "staged_write env bytes st =
     (if sr_consumed st then Inl (LogicError ''replacement candidate is closed'')
      else and_then (ensure_candidate env st) (write_chunks bytes))"

definition staged_file_ops :: "replace_env \<Rightarrow> staged staged_ops" where
  "staged_file_ops env = \<lparr>so_copy_prefix = copy_prefix env, so_write = staged_write env\<rparr>"

definition finish_candidate :: "replace_env \<Rightarrow> staged \<Rightarrow> staged result" where
  "finish_candidate env st =
     and_then (ensure_candidate env st) (\<lambda>st1.
     and_then (os (se_created_stat env (private_text (sr_private st1))) ''inspect replacement file'') (\<lambda>created.
     if st_size created \<noteq> sr_candidate_bytes st1 then
       Inl (SystemError EIO ''replacement file does not match the written byte count'')
     else
       let owner = fi_owner (sr_identity st1); group = fi_group (sr_identity st1) in
       and_then
         (if st_uid created \<noteq> owner \<or> st_gid created \<noteq> group then
            and_then (os_ok (se_fchown env) ''preserve editable file owner'') (\<lambda>_. Inr (owner, group))
          else Inr (st_uid created, st_gid created)) (\<lambda>(uid, gid).
       and_then (os_ok (se_fchmod env) ''preserve editable file permissions'') (\<lambda>_.
       and_then (check_cancelled (sr_stop st1)) (\<lambda>stop.
       and_then (os_ok (se_fsync env) ''sync replacement file'') (\<lambda>_.
       and_then (os_ok (se_close env) ''close replacement file'') (\<lambda>_.
         Inr (st1\<lparr>sr_private := ClosedFile (private_text (sr_private st1)), sr_stop := stop, sr_meta := (uid, gid, fi_mode (sr_identity st1) mod 512)\<rparr>))))))))"

definition confirm_source_unchanged :: "nat + file_stat \<Rightarrow> staged \<Rightarrow> unit result" where
  "confirm_source_unchanged fstat st =
     and_then (os fstat ''inspect editable file'') (\<lambda>current.
       if identity_of current \<noteq> sr_identity st \<or> st_size current \<noteq> sr_source_bytes st then
         Inl (ReplaceConflict ''file changed during the edit'')
       else Inr ())"

definition verify_against_source ::
  "replace_env \<Rightarrow> nat \<Rightarrow> string \<Rightarrow> 'o observer \<Rightarrow> staged \<Rightarrow> 'o \<Rightarrow> (staged \<times> 'o) result" where
  "verify_against_source env match_byte matched_source observe st obs =
     (if match_byte > sr_source_bytes st \<or> length matched_source > sr_source_bytes st - match_byte then
        Inl (ReplaceConflict ''matched region is outside the scanned source'')
      else if sr_candidate_bytes st < sr_source_bytes st - length matched_source then
        Inl (ReplaceConflict ''replacement output is shorter than the removed span'')
      else
        let fresh = sr_candidate_bytes st - (sr_source_bytes st - length matched_source) in
        and_then (os (se_reopen env) ''open editable file'') (\<lambda>reopened.
        and_then (checked_regular (se_regular_stat env)) (\<lambda>_.
        and_then (confirm_source_unchanged (se_reopened_stat env) st) (\<lambda>_.
        and_then (os_ok (se_open_candidate env) ''open editable file'') (\<lambda>_.
        and_then (compare_exact observe match_byte 0 0
          (reopened, se_candidate_reads env (private_text (sr_private st)), obs, sr_stop st)) (\<lambda>(l1, r1, obs1, stop1).
        and_then (skip_bytes fresh 0 (r1, stop1)) (\<lambda>(r2, stop2).
        and_then (compare_expected (length matched_source) matched_source 0 (l1, stop2)) (\<lambda>(l2, stop3).
        and_then (compare_to_end observe (match_byte + length matched_source) 0 (l2, r2, obs1, stop3)) (\<lambda>(l3, r3, obs2, stop4).
        and_then (os (se_after_stat env) ''inspect compared file'') (\<lambda>after.
          if identity_of after \<noteq> sr_identity st then Inl (ReplaceConflict ''file changed during comparison'')
          else Inr (st\<lparr>sr_stop := stop4\<rparr>, obs2)))))))))))"

text \<open>
  The end of \<^verbatim>\<open>publish\<close>: it throws with the destination untouched, or the destination holds the candidate
  and the directory is synchronized or not.
\<close>

datatype 'o publication =
    NotPublished exn
  | Published staged string 'o
  | PublishedUnsynced staged string 'o exn

definition prepare_publish ::
  "replace_env \<Rightarrow> nat \<Rightarrow> string \<Rightarrow> 'o observer \<Rightarrow> staged \<Rightarrow> 'o \<Rightarrow> (staged \<times> 'o) result" where
  "prepare_publish env match_byte matched_source observe st obs =
     and_then (check_cancelled (sr_stop st)) (\<lambda>stop.
     if sr_consumed st then Inl (LogicError ''replacement candidate is already consumed'')
     else
       and_then (ensure_candidate env (st\<lparr>sr_stop := stop\<rparr>)) (\<lambda>st1.
       and_then (finish_candidate env st1) (\<lambda>st2.
       and_then (confirm_source_unchanged (se_source_stat env) st2) (\<lambda>_.
       and_then (verify_against_source env match_byte matched_source observe st2 obs) (\<lambda>(st3, obs').
       and_then (os (se_original_stat env) ''inspect editable file'') (\<lambda>original.
       and_then
         (case se_current_stat env of
            Inl e \<Rightarrow> if e = ENOENT then Inl (ReplaceConflict ''file disappeared before replacement'')
                    else Inl (SystemError e ''inspect file before replacement'')
          | Inr current \<Rightarrow> Inr current) (\<lambda>current.
       if \<not> same_file original current then Inl (ReplaceConflict ''file changed before replacement'')
       else and_then (check_cancelled (sr_stop st3)) (\<lambda>stop'. Inr (st3\<lparr>sr_stop := stop'\<rparr>, obs')))))))))"

definition publish ::
  "replace_env \<Rightarrow> nat \<Rightarrow> string \<Rightarrow> 'o observer \<Rightarrow> staged \<Rightarrow> 'o \<Rightarrow> 'o publication" where
  "publish env match_byte matched_source observe st obs =
     (case prepare_publish env match_byte matched_source observe st obs of
        Inl e \<Rightarrow> NotPublished e
      | Inr (st1, obs') \<Rightarrow>
          (case se_rename env of
             Some e \<Rightarrow> NotPublished (SystemError e ''publish replacement file'')
           | None \<Rightarrow>
               let new_file = private_text (sr_private st1); st2 = st1\<lparr>sr_private := NoFile, sr_consumed := True\<rparr> in
               (case se_sync_directory env of
                  Some e \<Rightarrow> PublishedUnsynced st2 new_file obs'
                    (AtomicWriteError e ''replacement published, but directory sync failed'' True)
                | None \<Rightarrow> Published st2 new_file obs')))"

text \<open>\<^verbatim>\<open>discard\<close>, also run by the destructor: close and unlink the private file.\<close>

definition discard :: "staged \<Rightarrow> staged" where
  "discard st = st\<lparr>sr_private := NoFile\<rparr>"

section \<open>Reading, copying and writing\<close>

lemma and_then_InrE:
  assumes "and_then r f = Inr y" obtains x where "r = Inr x" "f x = Inr y"
  using assms by (auto simp: and_then_eq_Inr)

lemma unread_delivered [simp]: "delivered (unread s d) = s @ delivered d"
  by (simp add: unread_def)

lemma next_read_delivered: "next_read n d stop = Inr (bytes, d', stop') \<Longrightarrow> delivered d = bytes @ delivered d'"
proof (induction n d stop rule: next_read.induct)
  case (2 n out d stop)
  then show ?case by (cases out) (auto simp: and_then_eq_Inr)
qed (auto simp: and_then_eq_Inr)

lemma next_source_delivered:
  assumes "next_source st = Inr (bytes, st')"
  shows "delivered (sr_source st) = bytes @ delivered (sr_source st')" "sr_source_bytes st' = sr_source_bytes st + length bytes"
    "\<exists>d stop. st' = st\<lparr>sr_source := d, sr_stop := stop, sr_source_bytes := sr_source_bytes st + length bytes\<rparr>"
  using assms by (auto simp: next_source_def and_then_eq_Inr dest: next_read_delivered)

lemma copy_range_steps:
  "copy_range 0 d stop = Inr ([], 0, d, stop)"
  "0 < n \<Longrightarrow> copy_range n [] stop = and_then (check_cancelled stop) (\<lambda>stop'. Inr ([], n, [], stop'))"
  "0 < n \<Longrightarrow> copy_range n (Interrupted # d) stop = and_then (check_cancelled stop) (copy_range n d)"
  "0 < n \<Longrightarrow> copy_range n (ReadFailed e # d) stop = and_then (check_cancelled stop) (\<lambda>stop'. Inr ([], n, d, stop'))"
  "0 < n \<Longrightarrow> copy_range n (Delivered s # d) stop = and_then (check_cancelled stop) (\<lambda>stop'.
     (let a = take (min n kCompareChunk) s in
      if a = [] then Inr ([], n, d, stop')
      else and_then (copy_range (n - length a) (unread (drop (length a) s) d) stop') (\<lambda>(b, left_over, d'', stop'').
        Inr (a @ b, left_over, d'', stop''))))"
  by (subst copy_range.simps, simp)+

lemma copy_pread_steps:
  "copy_pread e0 0 d ws stop = Inr ([], ws, stop)"
  "0 < n \<Longrightarrow> copy_pread e0 n [] ws stop =
     and_then (check_cancelled stop) (\<lambda>stop'. Inl (SystemError e0 ''copy editable file prefix''))"
  "0 < n \<Longrightarrow> copy_pread e0 n (Interrupted # d) ws stop = and_then (check_cancelled stop) (copy_pread e0 n d ws)"
  "0 < n \<Longrightarrow> copy_pread e0 n (ReadFailed e # d) ws stop =
     and_then (check_cancelled stop) (\<lambda>stop'. Inl (SystemError e ''copy editable file prefix''))"
  "0 < n \<Longrightarrow> copy_pread e0 n (Delivered s # d) ws stop = and_then (check_cancelled stop) (\<lambda>stop'.
     (let a = take (min kCompareChunk n) s in
      if a = [] then Inl (SystemError e0 ''copy editable file prefix'')
      else and_then (write_all a ws) (\<lambda>ws'.
        and_then (copy_pread e0 (n - length a) (unread (drop (length a) s) d) ws' stop') (\<lambda>(b, ws'', stop'').
          Inr (a @ b, ws'', stop'')))))"
  by (subst copy_pread.simps, simp)+

text \<open>One copied piece, shared by both loops.\<close>

lemma copied_piece:
  fixes n :: nat
  assumes "a = take m s" "m \<le> n" "delivered (unread (drop (length a) s) d) = b @ rest" "length b + left_over = n - length a"
  shows "s @ delivered d = (a @ b) @ rest" "length (a @ b) + left_over = n"
proof -
  have "a @ drop (length a) s = s" using assms(1) by (cases "m \<le> length s") auto
  then show "s @ delivered d = (a @ b) @ rest" using assms(3) by (metis append.assoc unread_delivered)
  show "length (a @ b) + left_over = n" using assms by auto
qed

lemma copy_range_prefix:
  "copy_range n d stop = Inr (a, left_over, d', stop') \<Longrightarrow>
     delivered d = a @ delivered d' \<and> length a + left_over = n"
proof (induction n d stop arbitrary: a rule: copy_range.induct)
  case (1 n d stop)
  show ?case
  proof (cases "n = 0")
    case True then show ?thesis using "1.prems" by (simp add: copy_range_steps)
  next
    case False
    then have n: "0 < n" by simp
    obtain stop1 where c: "check_cancelled stop = Inr stop1"
      using "1.prems" n by (subst (asm) copy_range.simps) (auto simp: and_then_eq_Inr)
    show ?thesis
    proof (cases d)
      case Nil then show ?thesis using "1.prems" c n by (simp add: copy_range_steps)
    next
      case (Cons out d1)
      show ?thesis
      proof (cases out)
        case Interrupted
        then show ?thesis using "1.IH"(1) [OF False c Cons] "1.prems" c n Cons by (simp add: copy_range_steps)
      next
        case (ReadFailed e)
        then show ?thesis using "1.prems" c n Cons by (simp add: copy_range_steps)
      next
        case (Delivered s)
        let ?a = "take (min n kCompareChunk) s"
        show ?thesis
        proof (cases "?a = []")
          case True
          then have "s = []" using n by (cases s) (auto simp: kCompareChunk_def)
          then show ?thesis using "1.prems" c n Cons Delivered by (simp add: copy_range_steps)
        next
          case ne: False
          obtain b where b: "copy_range (n - length ?a) (unread (drop (length ?a) s) d1) stop1 = Inr (b, left_over, d', stop')"
            "a = ?a @ b"
            using "1.prems" ne unfolding Cons Delivered copy_range_steps(5) [OF n] c Let_def and_then_simps if_not_P [OF ne]
            by (elim and_then_InrE) (auto split: prod.splits)
          have ih: "delivered (unread (drop (length ?a) s) d1) = b @ delivered d' \<and> length b + left_over = n - length ?a"
            by (rule "1.IH"(2) [OF False c Cons Delivered refl ne b(1)])
          show ?thesis using copied_piece [OF refl _ conjunct1 [OF ih] conjunct2 [OF ih]] b(2) Cons Delivered by simp
        qed
      qed
    qed
  qed
qed

lemma copy_pread_prefix:
  "copy_pread e0 n d ws stop = Inr (a, ws', stop') \<Longrightarrow> \<exists>rest. delivered d = a @ rest \<and> length a = n"
proof (induction e0 n d ws stop arbitrary: a rule: copy_pread.induct)
  case (1 e0 n d ws stop)
  show ?case
  proof (cases "n = 0")
    case True then show ?thesis using "1.prems" by (simp add: copy_pread_steps)
  next
    case False
    then have n: "0 < n" by simp
    obtain stop1 where c: "check_cancelled stop = Inr stop1"
      using "1.prems" n by (subst (asm) copy_pread.simps) (auto simp: and_then_eq_Inr)
    show ?thesis
    proof (cases d)
      case Nil then show ?thesis using "1.prems" c n by (simp add: copy_pread_steps)
    next
      case (Cons out d1)
      show ?thesis
      proof (cases out)
        case Interrupted
        then show ?thesis using "1.IH"(1) [OF False c Cons] "1.prems" c n Cons by (simp add: copy_pread_steps)
      next
        case (ReadFailed e)
        then show ?thesis using "1.prems" c n Cons by (simp add: copy_pread_steps)
      next
        case (Delivered s)
        let ?a = "take (min kCompareChunk n) s"
        have ne: "?a \<noteq> []" using "1.prems" c n Cons Delivered by (auto simp: copy_pread_steps kCompareChunk_def Let_def)
        obtain ws1 b where w: "write_all ?a ws = Inr ws1"
          and b: "copy_pread e0 (n - length ?a) (unread (drop (length ?a) s) d1) ws1 stop1 = Inr (b, ws', stop')" "a = ?a @ b"
          using "1.prems" ne unfolding Cons Delivered copy_pread_steps(5) [OF n] c Let_def and_then_simps if_not_P [OF ne]
          by (elim and_then_InrE) (auto split: prod.splits)
        obtain rest where ih: "delivered (unread (drop (length ?a) s) d1) = b @ rest" "length b = n - length ?a"
          using "1.IH"(2) [OF False c Cons Delivered refl ne w b(1)] by blast
        have "s @ delivered d1 = a @ rest" "length a = n"
          using copied_piece [of ?a "min kCompareChunk n" s n d1 b rest 0, OF refl _ ih(1)] ih(2) b(2) by simp_all
        then show ?thesis using Cons Delivered by auto
      qed
    qed
  qed
qed

text \<open>What has been written to the open candidate.\<close>

definition candidate_text :: "staged \<Rightarrow> string" where
  "candidate_text st = (case sr_private st of OpenFile c \<Rightarrow> c | _ \<Rightarrow> [])"

definition candidate_open :: "staged \<Rightarrow> bool" where
  "candidate_open st \<longleftrightarrow> (\<exists>c. sr_private st = OpenFile c)"

text \<open>
  What the candidate operations leave alone: the source side, and the difference between the count of
  candidate bytes and the size of the open candidate.
\<close>

definition source_part :: "staged \<Rightarrow> descriptor \<times> nat \<times> nat \<times> file_identity \<times> bool \<times> int" where
  "source_part st = (sr_source st, sr_source_bytes st, sr_buffer_bytes st, sr_identity st, sr_consumed st,
     int (sr_candidate_bytes st) - int (length (candidate_text st)))"

lemma ensure_candidate_keeps:
  "ensure_candidate env st = Inr st' \<Longrightarrow>
     candidate_open st' \<and> candidate_text st' = candidate_text st \<and> source_part st' = source_part st"
  by (cases "sr_private st")
     (auto simp: ensure_candidate_def source_part_def candidate_open_def candidate_text_def and_then_eq_Inr)

lemma append_candidate_keeps:
  "candidate_open st \<Longrightarrow> candidate_open (append_candidate bytes st) \<and>
     candidate_text (append_candidate bytes st) = candidate_text st @ bytes \<and>
     source_part (append_candidate bytes st) = source_part st"
  by (auto simp: append_candidate_def source_part_def candidate_open_def candidate_text_def)

lemma outcome_update_keeps:
  "candidate_open (st\<lparr>sr_writes := ws, sr_stop := stop\<rparr>) = candidate_open st"
  "candidate_text (st\<lparr>sr_writes := ws, sr_stop := stop\<rparr>) = candidate_text st"
  "source_part (st\<lparr>sr_writes := ws, sr_stop := stop\<rparr>) = source_part st"
  by (simp_all add: source_part_def candidate_open_def candidate_text_def)

lemma write_chunks_keeps:
  "write_chunks bytes st = Inr st' \<Longrightarrow> candidate_open st \<Longrightarrow>
     candidate_text st' = candidate_text st @ bytes \<and> source_part st' = source_part st"
proof (induction bytes st rule: write_chunks.induct)
  case (1 bytes st)
  show ?case
  proof (cases "bytes = []")
    case True then show ?thesis using "1.prems" by (simp add: write_chunks.simps)
  next
    case False
    let ?st = "\<lambda>ws stop. st\<lparr>sr_writes := ws, sr_stop := stop\<rparr>"
    obtain stop ws where s: "check_cancelled (sr_stop st) = Inr stop" "write_all (take kCompareChunk bytes) (sr_writes st) = Inr ws"
      "write_chunks (drop kCompareChunk bytes) (append_candidate (take kCompareChunk bytes) (?st ws stop)) = Inr st'"
      using "1.prems"(1) False by (subst (asm) write_chunks.simps) (auto simp: and_then_eq_Inr)
    show ?thesis
      using append_candidate_keeps [of "?st ws stop" "take kCompareChunk bytes"] "1.IH" [OF False s] "1.prems"(2)
      by (simp add: outcome_update_keeps)
  qed
qed

lemma staged_write_keeps:
  "staged_write env bytes st = Inr st' \<Longrightarrow> candidate_text st' = candidate_text st @ bytes \<and> source_part st' = source_part st"
  unfolding staged_write_def
  by (auto elim!: and_then_InrE dest!: ensure_candidate_keeps write_chunks_keeps split: if_splits)

lemma copy_prefix_keeps:
  assumes "copy_prefix env n st = Inr st'"
  shows "candidate_text st' = candidate_text st @ take n (delivered (se_prefix_reads env)) \<and> source_part st' = source_part st \<and>
    n \<le> length (delivered (se_prefix_reads env))"
proof (cases "n = 0")
  case True
  then show ?thesis using assms by (simp add: copy_prefix_def)
next
  case False
  then obtain st1 a left_over d stop b ws stop' where s: "ensure_candidate env st = Inr st1"
    "copy_range n (se_prefix_reads env) (sr_stop st1) = Inr (a, left_over, d, stop)"
    "copy_pread (se_errno env) left_over d (sr_writes st1) stop = Inr (b, ws, stop')"
    "st' = append_candidate (a @ b) (st1\<lparr>sr_writes := ws, sr_stop := stop'\<rparr>)"
    using assms unfolding copy_prefix_def
    by (auto simp: and_then_eq_Inr split: if_splits prod.splits)
  obtain rest where "delivered (se_prefix_reads env) = (a @ b) @ rest" "length (a @ b) = n"
    using copy_range_prefix [OF s(2)] copy_pread_prefix [OF s(3)] by auto
  then have "take n (delivered (se_prefix_reads env)) = a @ b" "n \<le> length (delivered (se_prefix_reads env))" by simp_all
  then show ?thesis
    using ensure_candidate_keeps [OF s(1)] append_candidate_keeps [of "st1\<lparr>sr_writes := ws, sr_stop := stop'\<rparr>" "a @ b"] s(4)
    by (simp add: outcome_update_keeps)
qed

interpretation staged_candidate: staged_file "staged_file_ops env" candidate_text "delivered (se_prefix_reads env)" for env
  by unfold_locales (auto simp: staged_file_ops_def dest: staged_write_keeps copy_prefix_keeps)

interpretation staged_source: staged_frame "staged_file_ops env" source_part for env
  by unfold_locales (auto simp: staged_file_ops_def dest: staged_write_keeps copy_prefix_keeps)

section \<open>What the comparison establishes\<close>

fun observe_chunks :: "'o observer \<Rightarrow> nat \<Rightarrow> string list \<Rightarrow> 'o \<Rightarrow> 'o" where
  "observe_chunks observe base [] obs = obs"
| "observe_chunks observe base (c # cs) obs = observe_chunks observe (base + length c) cs (observe base c obs)"

text \<open>\<open>steady\<close>: a read returns no bytes only at the end. \<open>faultless\<close>: moreover no read fails.\<close>

definition steady :: "descriptor \<Rightarrow> bool" where "steady d \<longleftrightarrow> Delivered [] \<notin> set d"

definition faultless :: "descriptor \<Rightarrow> bool" where "faultless d \<longleftrightarrow> steady d \<and> (\<forall>e. ReadFailed e \<notin> set d)"

lemma steady_simps [simp]:
  "steady []" "steady (Interrupted # d) = steady d" "steady (ReadFailed e # d) = steady d"
  "steady (Delivered s # d) \<longleftrightarrow> s \<noteq> [] \<and> steady d" "steady (unread s d) = steady d"
  by (auto simp: steady_def unread_def)

lemma faultless_simps [simp]:
  "faultless []" "faultless (Interrupted # d) = faultless d" "\<not> faultless (ReadFailed e # d)"
  "faultless (Delivered s # d) \<longleftrightarrow> s \<noteq> [] \<and> faultless d" "faultless (unread s d) = faultless d"
  by (auto simp: faultless_def unread_def)

lemma faultless_steady: "faultless d \<Longrightarrow> steady d"
  by (simp add: faultless_def)

lemma read_some_end:
  assumes "read_some count d = Inr ([], d')" "0 < count" "steady d" shows "delivered d = []"
  using assms
proof (induction d)
  case (Cons out d)
  then show ?case by (cases out) (auto simp: and_then_eq_Inr split: if_splits)
qed simp

lemma read_some_steady: "read_some count d = Inr (a, d') \<Longrightarrow> steady d \<Longrightarrow> steady d'"
proof (induction count d arbitrary: a rule: read_some.induct)
  case (2 count out d)
  show ?case
  proof (cases out)
    case (Delivered s)
    show ?thesis
    proof (cases "count = 0 \<or> length s \<ge> count")
      case True
      then show ?thesis using "2.prems" Delivered by (auto split: if_splits)
    next
      case False
      then obtain t where t: "read_some (count - length s) d = Inr (t, d')"
        using "2.prems" Delivered by (auto simp: and_then_eq_Inr)
      show ?thesis by (rule "2.IH"(2) [OF _ Delivered _ _ t]) (use False Delivered "2.prems"(2) in auto)
    qed
  qed (use 2 in \<open>auto split: if_splits\<close>)
qed simp

lemma read_some_faultless:
  "faultless d \<Longrightarrow> \<exists>d'. read_some count d = Inr (take count (delivered d), d') \<and> faultless d' \<and> delivered d' = drop count (delivered d)"
proof (induction count d rule: read_some.induct)
  case (2 count out d)
  show ?case
  proof (cases "count = 0")
    case False
    show ?thesis
    proof (cases out)
      case Interrupted
      then show ?thesis using "2.IH"(1) "2.prems" False by simp
    next
      case (Delivered s)
      have s: "s \<noteq> []" "faultless d" using "2.prems" Delivered by auto
      show ?thesis
      proof (cases "length s < count")
        case True
        then obtain d' where "read_some (count - length s) d = Inr (take (count - length s) (delivered d), d')" "faultless d'"
          "delivered d' = drop (count - length s) (delivered d)"
          using "2.IH"(2) [OF False Delivered s(1) True s(2)] by blast
        then show ?thesis using s True False Delivered by simp
      next
        case ge: False
        then show ?thesis using s False Delivered by simp
      qed
    qed (use "2.prems" in simp)
  qed (use "2.prems" in simp)
qed simp

lemma compare_exact_spec:
  "compare_exact observe bytes base compared (left, right, obs, stop) = Inr (left', right', obs', stop') \<Longrightarrow>
   compared \<le> bytes \<Longrightarrow> steady right \<Longrightarrow>
   \<exists>cs. [] \<notin> set cs \<and> length (concat cs) = bytes - compared \<and> steady right' \<and>
     (steady left \<longrightarrow> steady left') \<and>
     delivered left = concat cs @ delivered left' \<and> delivered right = concat cs @ delivered right' \<and>
     obs' = observe_chunks observe (base + compared) cs obs"
proof (induction observe bytes base compared "(left, right, obs, stop)" arbitrary: left right obs stop rule: compare_exact.induct)
  case (1 observe bytes base compared left right obs stop)
  show ?case
  proof (cases "compared < bytes")
    case False
    then show ?thesis using "1.prems" by (auto simp: compare_exact.simps intro!: exI [of _ "[]"])
  next
    case True
    let ?n = "min kCompareChunk (bytes - compared)"
    obtain s1 a l1 r1 where s: "check_cancelled stop = Inr s1" "read_some ?n left = Inr (a, l1)" "read_some ?n right = Inr (a, r1)"
      "a \<noteq> []" and rec: "compare_exact observe bytes base (compared + length a) (l1, r1, observe (base + compared) a obs, s1) =
        Inr (left', right', obs', stop')"
      using "1.prems"(1) True by (subst (asm) compare_exact.simps) (auto simp: and_then_eq_Inr split: if_splits)
    note dl = read_some_delivered [OF s(2)] and dr = read_some_delivered [OF s(3)]
    have "\<exists>cs. [] \<notin> set cs \<and> length (concat cs) = bytes - (compared + length a) \<and> steady right' \<and> (steady l1 \<longrightarrow> steady left') \<and>
        delivered l1 = concat cs @ delivered left' \<and> delivered r1 = concat cs @ delivered right' \<and>
        obs' = observe_chunks observe (base + (compared + length a)) cs (observe (base + compared) a obs)"
      by (rule "1.hyps" [OF True s(1,2) refl s(3) refl _ _ rec])
         (use s(4) dl True read_some_steady [OF s(3) "1.prems"(3)] in auto)
    then obtain cs where cs: "[] \<notin> set cs" "length (concat cs) = bytes - (compared + length a)" "steady right'"
      "steady l1 \<longrightarrow> steady left'" "delivered l1 = concat cs @ delivered left'" "delivered r1 = concat cs @ delivered right'"
      "obs' = observe_chunks observe (base + (compared + length a)) cs (observe (base + compared) a obs)" by blast
    have "length a \<le> bytes - compared" using dl by simp
    then show ?thesis
      using cs dl dr s(4) read_some_steady [OF s(2)] True by (intro exI [of _ "a # cs"]) (auto simp: add.assoc)
  qed
qed

lemma compare_to_end_spec:
  "compare_to_end observe base compared (left, right, obs, stop) = Inr (left', right', obs', stop') \<Longrightarrow> steady right \<Longrightarrow>
   \<exists>cs. [] \<notin> set cs \<and> delivered left = concat cs @ delivered left' \<and> delivered right = concat cs \<and>
     (steady left \<longrightarrow> delivered left' = []) \<and> obs' = observe_chunks observe (base + compared) cs obs"
proof (induction observe base compared "(left, right, obs, stop)" arbitrary: left right obs stop rule: compare_to_end.induct)
  case (1 observe base compared left right obs stop)
  obtain s1 a b l1 r1 where s: "check_cancelled stop = Inr s1" "read_some kCompareChunk left = Inr (a, l1)"
    "read_some kCompareChunk right = Inr (b, r1)" "length a = length b"
    and rec: "(if a = [] then Inr (l1, r1, obs, s1) else if a \<noteq> b then Inl (ReplaceConflict ''file contents changed before replacement'')
      else compare_to_end observe base (compared + length a) (l1, r1, observe (base + compared) a obs, s1)) =
        Inr (left', right', obs', stop')"
    using "1.prems"(1) by (subst (asm) compare_to_end.simps) (auto simp: and_then_eq_Inr split: if_splits)
  note dl = read_some_delivered [OF s(2)] and dr = read_some_delivered [OF s(3)]
  show ?case
  proof (cases "a = []")
    case True
    have "0 < kCompareChunk" by (simp add: kCompareChunk_def)
    then have "delivered right = []" "steady left \<longrightarrow> delivered left = []"
      using read_some_end [of kCompareChunk right r1] read_some_end [of kCompareChunk left l1] s True "1.prems"(2) by auto
    then show ?thesis using rec True dl by (intro exI [of _ "[]"]) auto
  next
    case False
    then have ab: "a = b" using rec by (auto split: if_splits)
    have "\<exists>cs. [] \<notin> set cs \<and> delivered l1 = concat cs @ delivered left' \<and> delivered r1 = concat cs \<and>
        (steady l1 \<longrightarrow> delivered left' = []) \<and>
        obs' = observe_chunks observe (base + (compared + length a)) cs (observe (base + compared) a obs)"
      by (rule "1.hyps" [OF s(1,2) refl s(3) refl])
         (use s(4) False ab rec read_some_steady [OF s(3) "1.prems"(2)] in auto)
    then show ?thesis
      using dl dr False ab read_some_steady [OF s(2)] by (elim exE) (rule exI [of _ "a # _"], auto simp: add.assoc)
  qed
qed

lemma skip_bytes_spec:
  "skip_bytes bytes skipped (d, stop) = Inr (d', stop') \<Longrightarrow> skipped \<le> bytes \<Longrightarrow> steady d \<Longrightarrow>
   steady d' \<and> delivered d' = drop (bytes - skipped) (delivered d) \<and> bytes - skipped \<le> length (delivered d)"
proof (induction bytes skipped "(d, stop)" arbitrary: d stop rule: skip_bytes.induct)
  case (1 bytes skipped d stop)
  show ?case
  proof (cases "skipped < bytes")
    case False then show ?thesis using "1.prems" by (auto simp: skip_bytes.simps)
  next
    case True
    obtain s1 a d1 where s: "check_cancelled stop = Inr s1" "read_some (min kCompareChunk (bytes - skipped)) d = Inr (a, d1)"
      "a \<noteq> []" "skip_bytes bytes (skipped + length a) (d1, s1) = Inr (d', stop')"
      using "1.prems"(1) True by (subst (asm) skip_bytes.simps) (auto simp: and_then_eq_Inr split: if_splits)
    note dl = read_some_delivered [OF s(2)]
    have "steady d' \<and> delivered d' = drop (bytes - (skipped + length a)) (delivered d1) \<and>
        bytes - (skipped + length a) \<le> length (delivered d1)"
      by (rule "1.hyps" [OF True s(1,2) refl s(3,4)]) (use dl True read_some_steady [OF s(2) "1.prems"(3)] in auto)
    then show ?thesis using dl by auto
  qed
qed

lemma compare_expected_spec:
  "compare_expected bytes expected consumed (d, stop) = Inr (d', stop') \<Longrightarrow> consumed \<le> bytes \<Longrightarrow>
   delivered d = substr expected consumed (bytes - consumed) @ delivered d' \<and> (steady d \<longrightarrow> steady d')"
proof (induction bytes expected consumed "(d, stop)" arbitrary: d stop rule: compare_expected.induct)
  case (1 bytes expected consumed d stop)
  show ?case
  proof (cases "consumed < bytes")
    case False then show ?thesis using "1.prems" by (auto simp: compare_expected.simps substr_def)
  next
    case True
    obtain s1 a d1 where s: "check_cancelled stop = Inr s1" "read_some (min kCompareChunk (bytes - consumed)) d = Inr (a, d1)"
      "a \<noteq> []" "a = substr expected consumed (length a)"
      "compare_expected bytes expected (consumed + length a) (d1, s1) = Inr (d', stop')"
      using "1.prems"(1) True by (subst (asm) compare_expected.simps) (auto simp: and_then_eq_Inr split: if_splits)
    note dl = read_some_delivered [OF s(2)]
    have len: "length a \<le> bytes - consumed" using dl by simp
    have ih: "delivered d1 = substr expected (consumed + length a) (bytes - (consumed + length a)) @ delivered d' \<and>
        (steady d1 \<longrightarrow> steady d')"
      by (rule "1.hyps" [OF True s(1,2) refl _ s(5)]) (use s(3,4) len True in auto)
    have "substr expected consumed (bytes - consumed) =
        substr expected consumed (length a) @ substr expected (consumed + length a) (bytes - (consumed + length a))"
    proof -
      have "bytes - consumed = length a + (bytes - (consumed + length a))" using len by simp
      then show ?thesis using take_add [of "length a" "bytes - (consumed + length a)" "drop consumed expected"]
        by (simp add: substr_def add.commute)
    qed
    then show ?thesis using ih dl s(4) read_some_steady [OF s(2)] by auto
  qed
qed

text \<open>
  The reading of the private file is honest: its bytes come back, and only its end reads as empty.
\<close>

definition reads_back :: "replace_env \<Rightarrow> bool" where
  "reads_back env \<longleftrightarrow> (\<forall>c. delivered (se_candidate_reads env c) = c \<and> steady (se_candidate_reads env c))"

lemma verify_spec:
  fixes st :: staged and obs :: 'o
  assumes v: "verify_against_source env i span observe st obs = Inr (st', obs')" and r: "reads_back env"
  defines "c \<equiv> private_text (sr_private st)"
  defines "fresh \<equiv> sr_candidate_bytes st - (sr_source_bytes st - length span)"
  obtains d pre suf rest where "se_reopen env = Inr d" "[] \<notin> set pre" "[] \<notin> set suf"
    "concat pre = take i c" "i \<le> length c" "concat suf = drop (i + fresh) c" "i + fresh \<le> length c"
    "delivered d = concat pre @ span @ concat suf @ rest" "steady d \<longrightarrow> rest = []"
    "obs' = observe_chunks observe (i + length span) suf (observe_chunks observe 0 pre obs)"
    "st' = st\<lparr>sr_stop := sr_stop st'\<rparr>"
proof -
  have honest: "delivered (se_candidate_reads env c) = c" "steady (se_candidate_reads env c)" using r by (simp_all add: reads_back_def)
  obtain d l1 r1 obs1 stop1 r2 stop2 l2 stop3 l3 r3 stop4 where s: "se_reopen env = Inr d"
    "compare_exact observe i 0 0 (d, se_candidate_reads env c, obs, sr_stop st) = Inr (l1, r1, obs1, stop1)"
    "skip_bytes fresh 0 (r1, stop1) = Inr (r2, stop2)"
    "compare_expected (length span) span 0 (l1, stop2) = Inr (l2, stop3)"
    "compare_to_end observe (i + length span) 0 (l2, r2, obs1, stop3) = Inr (l3, r3, obs', stop4)"
    "st' = st\<lparr>sr_stop := stop4\<rparr>"
    using v unfolding verify_against_source_def Let_def fresh_def [symmetric] c_def [symmetric]
    by (auto simp: and_then_eq_Inr os_def split: if_splits prod.splits sum.splits)
  obtain pre where pre: "[] \<notin> set pre" "length (concat pre) = i" "steady r1" "steady d \<longrightarrow> steady l1"
    "delivered d = concat pre @ delivered l1" "c = concat pre @ delivered r1" "obs1 = observe_chunks observe 0 pre obs"
    using compare_exact_spec [OF s(2) _ honest(2)] honest(1) by auto
  have skip: "steady r2" "delivered r2 = drop fresh (delivered r1)" "fresh \<le> length (delivered r1)"
    using skip_bytes_spec [OF s(3) _ pre(3)] by auto
  have mid: "delivered l1 = span @ delivered l2" "steady l1 \<longrightarrow> steady l2"
    using compare_expected_spec [OF s(4)] by (auto simp: substr_def)
  obtain suf where suf: "[] \<notin> set suf" "delivered l2 = concat suf @ delivered l3" "delivered r2 = concat suf"
    "steady l2 \<longrightarrow> delivered l3 = []" "obs' = observe_chunks observe (i + length span) suf obs1"
    using compare_to_end_spec [OF s(5) skip(1)] by auto
  have "take i c = concat pre" using pre(2,6) by simp
  moreover have "i \<le> length c" "i + fresh \<le> length c" using pre(2,6) skip(3) by (auto simp del: length_concat)
  moreover have "drop (i + fresh) c = concat suf" using pre(2,6) skip(2) suf(3) by (simp del: length_concat)
  moreover have "delivered d = concat pre @ span @ concat suf @ delivered l3" using pre(5) mid(1) suf(2) by simp
  moreover have "steady d \<longrightarrow> delivered l3 = []" using pre(4) mid(2) suf(4) by blast
  ultimately show thesis
    using that [OF s(1) pre(1) suf(1), of "delivered l3"] suf(5) pre(7) s(6) by simp
qed

lemma finish_candidate_spec:
  assumes "finish_candidate env st = Inr st'" "candidate_open st"
  shows "sr_private st' = ClosedFile (candidate_text st)" "sr_source_bytes st' = sr_source_bytes st"
    "sr_candidate_bytes st' = sr_candidate_bytes st" "sr_identity st' = sr_identity st"
    "sr_meta st' = (fi_owner (sr_identity st), fi_group (sr_identity st), fi_mode (sr_identity st) mod 512)"
proof -
  obtain c where c: "sr_private st = OpenFile c" using assms(2) by (auto simp: candidate_open_def)
  then have "ensure_candidate env st = Inr st" by (simp add: ensure_candidate_def)
  then have r: "\<exists>stop uid gid. st' = st\<lparr>sr_private := ClosedFile c, sr_stop := stop, sr_meta := (uid, gid, fi_mode (sr_identity st) mod 512)\<rparr> \<and>
      uid = fi_owner (sr_identity st) \<and> gid = fi_group (sr_identity st)"
    using assms(1) c unfolding finish_candidate_def Let_def
    by (auto simp: and_then_eq_Inr split: if_splits)
  then show "sr_private st' = ClosedFile (candidate_text st)" "sr_source_bytes st' = sr_source_bytes st"
    "sr_candidate_bytes st' = sr_candidate_bytes st" "sr_identity st' = sr_identity st"
    "sr_meta st' = (fi_owner (sr_identity st), fi_group (sr_identity st), fi_mode (sr_identity st) mod 512)"
    using c by (auto simp: candidate_text_def)
qed

fun published_as :: "'o publication \<Rightarrow> (staged \<times> string \<times> 'o) option" where
  "published_as (NotPublished e) = None"
| "published_as (Published st c obs) = Some (st, c, obs)"
| "published_as (PublishedUnsynced st c obs e) = Some (st, c, obs)"

lemma publish_spec:
  fixes st :: staged and obs :: 'o
  assumes p: "published_as (publish env i span observe st obs) = Some (st', c, obs')" and r: "reads_back env"
  defines "fresh \<equiv> sr_candidate_bytes st - (sr_source_bytes st - length span)"
  obtains d pre suf rest where "c = candidate_text st" "se_reopen env = Inr d" "[] \<notin> set pre" "[] \<notin> set suf"
    "concat pre = take i c" "i \<le> length c" "concat suf = drop (i + fresh) c" "i + fresh \<le> length c"
    "delivered d = concat pre @ span @ concat suf @ rest" "steady d \<longrightarrow> rest = []"
    "obs' = observe_chunks observe (i + length span) suf (observe_chunks observe 0 pre obs)"
    "sr_meta st' = (fi_owner (sr_identity st), fi_group (sr_identity st), fi_mode (sr_identity st) mod 512)"
proof -
  obtain st1 where pp: "prepare_publish env i span observe st obs = Inr (st1, obs')" "c = private_text (sr_private st1)"
    "sr_meta st' = sr_meta st1"
    using p by (auto simp: publish_def Let_def split: sum.splits option.splits)
  obtain stop st2 st3 st4 stop5 where s: "ensure_candidate env (st\<lparr>sr_stop := stop\<rparr>) = Inr st2" "finish_candidate env st2 = Inr st3"
    "verify_against_source env i span observe st3 obs = Inr (st4, obs')" "st1 = st4\<lparr>sr_stop := stop5\<rparr>"
    using pp(1) unfolding prepare_publish_def by (auto simp: and_then_eq_Inr split: if_splits)
  have e: "candidate_open st2" "candidate_text st2 = candidate_text st" "sr_source_bytes st2 = sr_source_bytes st"
    "sr_candidate_bytes st2 = sr_candidate_bytes st" "sr_identity st2 = sr_identity st"
    using ensure_candidate_keeps [OF s(1)] by (auto simp: source_part_def candidate_text_def)
  note f = finish_candidate_spec [OF s(2) e(1)]
  obtain d pre suf rest where v: "se_reopen env = Inr d" "[] \<notin> set pre" "[] \<notin> set suf"
    "concat pre = take i (candidate_text st)" "i \<le> length (candidate_text st)" "concat suf = drop (i + fresh) (candidate_text st)"
    "i + fresh \<le> length (candidate_text st)"
    "delivered d = concat pre @ span @ concat suf @ rest" "steady d \<longrightarrow> rest = []"
    "obs' = observe_chunks observe (i + length span) suf (observe_chunks observe 0 pre obs)"
    "st4 = st3\<lparr>sr_stop := sr_stop st4\<rparr>"
    using verify_spec [OF s(3) r] unfolding f e private_text.simps fresh_def [symmetric] by blast
  have "sr_private st1 = sr_private st3" "sr_meta st1 = sr_meta st3" using s(4) by (simp_all, (subst v(11), simp)+)
  then have "c = candidate_text st"
    "sr_meta st' = (fi_owner (sr_identity st), fi_group (sr_identity st), fi_mode (sr_identity st) mod 512)"
    using pp(2,3) f e by auto
  then show thesis using that [OF _ v(1-3)] v(4-10) by simp
qed

section \<open>What is published\<close>

text \<open>
  C14. A destination is replaced only by a verified candidate: the file opened again by its path read
  exactly the candidate's bytes around the removed span, with the span itself at the match, and the new file
  has the owner, the group and the permission bits of the edited one.
\<close>

theorem publish_verified:
  assumes "published_as (publish env i span observe st obs) = Some (st', c, obs')" "reads_back env"
  shows "\<exists>d before fresh after rest. se_reopen env = Inr d \<and> c = before @ fresh @ after \<and>
    delivered d = before @ span @ after @ rest \<and> length before = i \<and> (steady d \<longrightarrow> rest = []) \<and>
    sr_meta st' = (fi_owner (sr_identity st), fi_group (sr_identity st), fi_mode (sr_identity st) mod 512)"
proof -
  let ?n = "sr_candidate_bytes st - (sr_source_bytes st - length span)"
  from publish_spec [OF assms] obtain d pre suf rest where v: "se_reopen env = Inr d" "concat pre = take i c" "i \<le> length c"
    "concat suf = drop (i + ?n) c" "delivered d = concat pre @ span @ concat suf @ rest" "steady d \<longrightarrow> rest = []"
    "sr_meta st' = (fi_owner (sr_identity st), fi_group (sr_identity st), fi_mode (sr_identity st) mod 512)" by metis
  have "c = take i c @ take ?n (drop i c) @ drop (i + ?n) c"
    by (metis append_take_drop_id drop_drop add.commute)
  then show ?thesis
    using v by (intro exI [of _ d] exI [of _ "take i c"] exI [of _ "take ?n (drop i c)"] exI [of _ "drop (i + ?n) c"] exI [of _ rest]) simp
qed

text \<open>The calls on a file with content \<open>s\<close> and status \<open>info\<close> that nobody else touches.\<close>

definition undisturbed_env :: "string \<Rightarrow> file_stat \<Rightarrow> replace_env" where
  "undisturbed_env s info =
     \<lparr>se_errno = 0, se_open_source = Inr (unread s []), se_opened_stat = Inr info, se_open_directory = None,
      se_mkostemp = None, se_prefix_reads = unread s [], se_lseek = None, se_second_reads = unread s [],
      se_created_stat = (\<lambda>c. Inr (info\<lparr>st_size := length c\<rparr>)), se_fchown = None, se_fchmod = None, se_fsync = None,
      se_close = None, se_source_stat = Inr info, se_reopen = Inr (unread s []), se_regular_stat = Inr info,
      se_reopened_stat = Inr info, se_open_candidate = None, se_candidate_reads = (\<lambda>c. unread c []),
      se_after_stat = Inr info, se_original_stat = Inr info, se_current_stat = Inr info, se_rename = None,
      se_sync_directory = None\<rparr>"

definition plain_stat :: "nat \<Rightarrow> file_stat" where
  "plain_stat n = \<lparr>st_dev = 1, st_ino = 2, st_size = n, st_mode = 33188, st_uid = 1000, st_gid = 1000, st_nlink = 1,
     st_mtim = (0, 0), st_ctim = (0, 0)\<rparr>"

definition edited_abc :: staged where
  "edited_abc = \<lparr>sr_identity = identity_of (plain_stat 3), sr_buffer_bytes = 4, sr_source_bytes = 3,
     sr_candidate_bytes = 4, sr_source = [], sr_writes = [], sr_private = OpenFile ''aXYc'', sr_meta = (0, 0, 0),
     sr_consumed = False, sr_stop = None\<rparr>"

lemma undisturbed_reads_back: "reads_back (undisturbed_env s info)"
  by (simp add: reads_back_def undisturbed_env_def)

lemma edited_abc_published:
  "published_as (publish (undisturbed_env ''abc'' (plain_stat 3)) 1 ''b'' (\<lambda>_ _ obs. obs) edited_abc ()) =
     Some (edited_abc\<lparr>sr_private := NoFile, sr_consumed := True, sr_meta := (1000, 1000, 420)\<rparr>, ''aXYc'', ())"
  by (simp add: publish_def prepare_publish_def edited_abc_def undisturbed_env_def plain_stat_def ensure_candidate_def
      finish_candidate_def os_def os_ok_def confirm_source_unchanged_def identity_of_def verify_against_source_def
      checked_regular_def s_isreg_def special_bits_def same_file_def compare_exact.simps compare_expected.simps skip_bytes.simps
      compare_to_end.simps kCompareChunk_def unread_def substr_def Let_def)

theorem publish_verified_witness:
  "\<exists>before fresh after. ''aXYc'' = before @ fresh @ after \<and> ''abc'' = before @ ''b'' @ after \<and> length before = 1"
proof -
  obtain d before fresh after rest where
    r: "se_reopen (undisturbed_env ''abc'' (plain_stat 3)) = Inr d" "''aXYc'' = before @ fresh @ after"
    "delivered d = before @ ''b'' @ after @ rest" "length before = 1" "steady d \<longrightarrow> rest = []"
    using publish_verified [OF edited_abc_published undisturbed_reads_back] by blast
  then have "d = unread ''abc'' []" by (simp add: undisturbed_env_def)
  then have "''abc'' = before @ ''b'' @ after" using r(3,5) by simp
  then show ?thesis using r(2,4) by blast
qed

section \<open>An undisturbed transaction\<close>

text \<open>Without a stop request and without failing calls, reading, copying and writing succeed.\<close>

definition cooperative :: "write_outcome list \<Rightarrow> bool" where "cooperative ws \<longleftrightarrow> (\<forall>e. WriteFailed e \<notin> set ws)"

lemma write_all_ok: "cooperative ws \<Longrightarrow> \<exists>ws'. write_all bytes ws = Inr ws' \<and> cooperative ws'"
proof (induction bytes ws rule: write_all.induct)
  case (2 bytes out ws)
  then show ?case by (cases out) (auto simp: cooperative_def)
qed (simp add: cooperative_def)

lemma copy_range_ok: "faultless d \<Longrightarrow> \<exists>a k d'. copy_range n d None = Inr (a, k, d', None) \<and> faultless d'"
proof (induction n d "None :: stop_token" rule: copy_range.induct)
  case (1 n d)
  show ?case
  proof (cases "n = 0")
    case True then show ?thesis using "1.prems" by (simp add: copy_range_steps)
  next
    case False
    then have n: "0 < n" by simp
    show ?thesis
    proof (cases d)
      case Nil then show ?thesis using n by (simp add: copy_range_steps)
    next
      case (Cons out d1)
      show ?thesis
      proof (cases out)
        case Interrupted
        then show ?thesis using "1.hyps"(1) [OF False _ Cons] "1.prems" n Cons by (simp add: copy_range_steps)
      next
        case (ReadFailed e) then show ?thesis using "1.prems" Cons by simp
      next
        case (Delivered s)
        let ?a = "take (min n kCompareChunk) s"
        have s: "s \<noteq> []" "faultless d1" using "1.prems" Cons Delivered by auto
        then have ne: "?a \<noteq> []" using n by (simp add: kCompareChunk_def)
        obtain b k d' where "copy_range (n - length ?a) (unread (drop (length ?a) s) d1) None = Inr (b, k, d', None)" "faultless d'"
          using "1.hyps"(2) [OF False _ Cons Delivered refl ne] s by auto
        then show ?thesis using ne s(2) by (simp add: Cons Delivered copy_range_steps(5) [OF n] Let_def)
      qed
    qed
  qed
qed

lemma copy_pread_ok:
  "faultless d \<Longrightarrow> n \<le> length (delivered d) \<Longrightarrow> cooperative ws \<Longrightarrow>
     \<exists>b ws'. copy_pread e0 n d ws None = Inr (b, ws', None) \<and> cooperative ws'"
proof (induction e0 n d ws "None :: stop_token" rule: copy_pread.induct)
  case (1 e0 n d ws)
  show ?case
  proof (cases "n = 0")
    case True then show ?thesis using "1.prems" by (simp add: copy_pread_steps)
  next
    case False
    then have n: "0 < n" by simp
    show ?thesis
    proof (cases d)
      case Nil then show ?thesis using n "1.prems" by simp
    next
      case (Cons out d1)
      show ?thesis
      proof (cases out)
        case Interrupted
        then show ?thesis using "1.hyps"(1) [OF False _ Cons] "1.prems" n Cons by (simp add: copy_pread_steps)
      next
        case (ReadFailed e) then show ?thesis using "1.prems" Cons by simp
      next
        case (Delivered s)
        let ?a = "take (min kCompareChunk n) s"
        have s: "s \<noteq> []" "faultless d1" using "1.prems" Cons Delivered by auto
        then have ne: "?a \<noteq> []" using n by (simp add: kCompareChunk_def)
        obtain ws1 where ws1: "write_all ?a ws = Inr ws1" "cooperative ws1" using write_all_ok [OF "1.prems"(3)] by blast
        have "n - length ?a \<le> length (delivered (unread (drop (length ?a) s) d1))" using "1.prems"(2) Cons Delivered by auto
        then obtain b ws' where "copy_pread e0 (n - length ?a) (unread (drop (length ?a) s) d1) ws1 None = Inr (b, ws', None)" "cooperative ws'"
          using "1.hyps"(2) [OF False _ Cons Delivered refl ne ws1(1)] s ws1(2) by auto
        then show ?thesis using ne ws1 by (simp add: Cons Delivered copy_pread_steps(5) [OF n] Let_def)
      qed
    qed
  qed
qed

definition healthy :: "replace_env \<Rightarrow> nat \<Rightarrow> staged \<Rightarrow> bool" where
  "healthy env n st \<longleftrightarrow> se_mkostemp env = None \<and> faultless (se_prefix_reads env) \<and> n \<le> length (delivered (se_prefix_reads env)) \<and>
     sr_stop st = None \<and> cooperative (sr_writes st) \<and> \<not> sr_consumed st \<and> n \<le> sr_source_bytes st"

lemma healthy_candidate:
  assumes "healthy env n st"
  shows "\<exists>st'. ensure_candidate env st = Inr st' \<and> healthy env n st' \<and> candidate_open st'"
  using assms by (cases "sr_private st") (auto simp: ensure_candidate_def healthy_def candidate_open_def os_ok_def)

lemma write_chunks_ok:
  "sr_stop st = None \<Longrightarrow> cooperative (sr_writes st) \<Longrightarrow>
     \<exists>st'. write_chunks bytes st = Inr st' \<and> sr_stop st' = None \<and> cooperative (sr_writes st')"
proof (induction bytes st rule: write_chunks.induct)
  case (1 bytes st)
  show ?case
  proof (cases "bytes = []")
    case True then show ?thesis using "1.prems" by (simp add: write_chunks.simps)
  next
    case False
    obtain ws where ws: "write_all (take kCompareChunk bytes) (sr_writes st) = Inr ws" "cooperative ws"
      using write_all_ok [OF "1.prems"(2)] by blast
    then show ?thesis
      using "1.IH" [OF False _ ws(1), of None] False "1.prems" by (subst write_chunks.simps) (simp add: append_candidate_def)
  qed
qed

lemma staged_write_ok:
  assumes "healthy env n st"
  shows "\<exists>st'. staged_write env bytes st = Inr st' \<and> healthy env n st'"
proof -
  obtain st1 where st1: "ensure_candidate env st = Inr st1" "healthy env n st1" "candidate_open st1"
    using healthy_candidate [OF assms] by blast
  obtain st' where st': "write_chunks bytes st1 = Inr st'" "sr_stop st' = None" "cooperative (sr_writes st')"
    using write_chunks_ok [of st1 bytes] st1(2) by (auto simp: healthy_def)
  have "healthy env n st'" using write_chunks_keeps [OF st'(1) st1(3)] st1(2) st' by (simp add: healthy_def source_part_def)
  then show ?thesis using assms st1(1) st'(1) by (auto simp: staged_write_def healthy_def)
qed

lemma copy_prefix_ok:
  assumes "healthy env n st" "k \<le> n"
  shows "\<exists>st'. copy_prefix env k st = Inr st' \<and> healthy env n st'"
proof (cases "k = 0")
  case True then show ?thesis using assms by (simp add: copy_prefix_def)
next
  case False
  obtain st1 where st1: "ensure_candidate env st = Inr st1" "healthy env n st1" "candidate_open st1"
    using healthy_candidate [OF assms(1)] by blast
  then have h: "faultless (se_prefix_reads env)" "n \<le> length (delivered (se_prefix_reads env))" "sr_stop st1 = None" "cooperative (sr_writes st1)"
    by (simp_all add: healthy_def)
  obtain a l d where a: "copy_range k (se_prefix_reads env) None = Inr (a, l, d, None)" "faultless d" using copy_range_ok [OF h(1)] by blast
  have "l \<le> length (delivered d)" using copy_range_prefix [OF a(1)] h(2) assms(2) by auto
  then obtain b ws where b: "copy_pread (se_errno env) l d (sr_writes st1) None = Inr (b, ws, None)" "cooperative ws"
    using copy_pread_ok [OF a(2) _ h(4)] by blast
  have "healthy env n (append_candidate (a @ b) (st1\<lparr>sr_writes := ws, sr_stop := None\<rparr>))"
    using st1(2) b(2) by (simp add: healthy_def append_candidate_def)
  then show ?thesis using assms False st1(1) a(1) b(1) h(3) by (simp add: copy_prefix_def healthy_def)
qed

interpretation staged_calls: staged_total "staged_file_ops env" candidate_text "delivered (se_prefix_reads env)" "healthy env" for env
  by unfold_locales (simp_all add: staged_file_ops_def copy_prefix_ok staged_write_ok)
lemma compare_exact_ok:
  "faultless left \<Longrightarrow> faultless right \<Longrightarrow> bytes \<le> compared + length x \<Longrightarrow> compared + length x \<le> bytes \<Longrightarrow>
   delivered left = x @ a \<Longrightarrow> delivered right = x @ b \<Longrightarrow>
   \<exists>l r obs1. compare_exact observe bytes base compared (left, right, obs, None) = Inr (l, r, obs1, None) \<and>
     faultless l \<and> faultless r \<and> delivered l = a \<and> delivered r = b"
proof (induction observe bytes base compared "(left, right, obs, None :: stop_token)" arbitrary: left right obs x rule: compare_exact.induct)
  case (1 observe bytes base compared left right obs)
  show ?case
  proof (cases "compared < bytes")
    case False
    then have "x = []" using "1.prems"(4) by (cases x) auto
    then show ?thesis using False "1.prems" by (simp add: compare_exact.simps)
  next
    case True
    let ?n = "min kCompareChunk (bytes - compared)"
    let ?x = "take ?n x"
    have len: "?n \<le> length x" using "1.prems"(3) by simp
    then have x: "?x \<noteq> []" "length ?x = ?n" using True by (auto simp: kCompareChunk_def)
    obtain l1 r1 where l1: "read_some ?n left = Inr (?x, l1)" "faultless l1" "delivered l1 = drop ?n x @ a"
      and r1: "read_some ?n right = Inr (?x, r1)" "faultless r1" "delivered r1 = drop ?n x @ b"
      using read_some_faultless [OF "1.prems"(1), of ?n] read_some_faultless [OF "1.prems"(2), of ?n] "1.prems"(5,6) len by auto
    have "\<exists>l r obs1. compare_exact observe bytes base (compared + length ?x) (l1, r1, observe (base + compared) ?x obs, None) = Inr (l, r, obs1, None) \<and>
        faultless l \<and> faultless r \<and> delivered l = a \<and> delivered r = b"
      by (rule "1.hyps" [OF True _ l1(1) refl r1(1) refl, of "drop ?n x"]) (use x "1.prems" l1 r1 len True in auto)
    then show ?thesis using True x l1(1) r1(1) by (subst compare_exact.simps) (simp del: length_take)
  qed
qed

lemma skip_bytes_ok:
  "faultless d \<Longrightarrow> skipped \<le> bytes \<Longrightarrow> bytes - skipped \<le> length (delivered d) \<Longrightarrow>
   \<exists>d'. skip_bytes bytes skipped (d, None) = Inr (d', None) \<and> faultless d' \<and> delivered d' = drop (bytes - skipped) (delivered d)"
proof (induction bytes skipped "(d, None :: stop_token)" arbitrary: d rule: skip_bytes.induct)
  case (1 bytes skipped d)
  show ?case
  proof (cases "skipped < bytes")
    case False then show ?thesis using "1.prems" by (simp add: skip_bytes.simps)
  next
    case True
    let ?n = "min kCompareChunk (bytes - skipped)"
    let ?x = "take ?n (delivered d)"
    have x: "?x \<noteq> []" "length ?x = ?n" using True "1.prems"(3) by (auto simp: kCompareChunk_def)
    obtain d1 where d1: "read_some ?n d = Inr (?x, d1)" "faultless d1" "delivered d1 = drop ?n (delivered d)"
      using read_some_faultless [OF "1.prems"(1), of ?n] by blast
    have "\<exists>d'. skip_bytes bytes (skipped + length ?x) (d1, None) = Inr (d', None) \<and> faultless d' \<and>
        delivered d' = drop (bytes - (skipped + length ?x)) (delivered d1)"
      by (rule "1.hyps" [OF True _ d1(1) refl x(1)]) (use x "1.prems" d1 True in auto)
    moreover have "drop (bytes - (skipped + length ?x)) (delivered d1) = drop (bytes - skipped) (delivered d)"     proof -
      have "bytes - (skipped + ?n) + ?n = bytes - skipped" by simp
      then show ?thesis unfolding d1(3) x(2) drop_drop by simp
    qed
    ultimately show ?thesis using True x(1) d1(1) by (subst skip_bytes.simps) (simp del: length_take)
  qed
qed

lemma compare_expected_ok:
  "faultless d \<Longrightarrow> consumed \<le> length expected \<Longrightarrow> delivered d = drop consumed expected @ a \<Longrightarrow>
   \<exists>d'. compare_expected (length expected) expected consumed (d, None) = Inr (d', None) \<and> faultless d' \<and> delivered d' = a"
proof (induction "length expected" expected consumed "(d, None :: stop_token)" arbitrary: d rule: compare_expected.induct)
  case (1 expected consumed d)
  show ?case
  proof (cases "consumed < length expected")
    case False then show ?thesis using "1.prems" by (simp add: compare_expected.simps)
  next
    case True
    let ?n = "min kCompareChunk (length expected - consumed)"
    let ?x = "take ?n (drop consumed expected)"
    have x: "?x \<noteq> []" "length ?x = ?n" using True by (auto simp: kCompareChunk_def)
    obtain d1 where d1: "read_some ?n d = Inr (?x, d1)" "faultless d1" "delivered d1 = drop (consumed + ?n) expected @ a"
      using read_some_faultless [OF "1.prems"(1), of ?n] "1.prems"(3) by (auto simp: add.commute)
    have eq: "?x = substr expected consumed (length ?x)" unfolding substr_def x(2) ..
    have "\<exists>d'. compare_expected (length expected) expected (consumed + length ?x) (d1, None) = Inr (d', None) \<and> faultless d' \<and> delivered d' = a"
      by (rule "1.hyps" [OF True _ d1(1) refl]) (use x "1.prems" d1 True eq in \<open>auto simp: substr_def\<close>)
    then show ?thesis using True x(1) d1(1) eq by (subst compare_expected.simps) (simp del: length_take)
  qed
qed

lemma compare_to_end_ok:
  "faultless left \<Longrightarrow> faultless right \<Longrightarrow> delivered right = delivered left \<Longrightarrow>
   \<exists>l r obs1. compare_to_end observe base compared (left, right, obs, None) = Inr (l, r, obs1, None)"
proof (induction observe base compared "(left, right, obs, None :: stop_token)" arbitrary: left right obs rule: compare_to_end.induct)
  case (1 observe base compared left right obs)
  let ?x = "take kCompareChunk (delivered left)"
  obtain l1 r1 where l1: "read_some kCompareChunk left = Inr (?x, l1)" "faultless l1" "delivered l1 = drop kCompareChunk (delivered left)"
    and r1: "read_some kCompareChunk right = Inr (?x, r1)" "faultless r1" "delivered r1 = drop kCompareChunk (delivered left)"
    using read_some_faultless [OF "1.prems"(1), of kCompareChunk] read_some_faultless [OF "1.prems"(2), of kCompareChunk] "1.prems"(3) by auto
  show ?case
  proof (cases "?x = []")
    case True
    then show ?thesis using l1(1) r1(1) by (subst compare_to_end.simps) (simp del: take_eq_Nil take_eq_Nil2)
  next
    case False
    have "\<exists>l r obs1. compare_to_end observe base (compared + length ?x) (l1, r1, observe (base + compared) ?x obs, None) = Inr (l, r, obs1, None)"
      by (rule "1.hyps" [OF _ l1(1) refl r1(1) refl]) (use False l1 r1 in auto)
    then show ?thesis using False l1(1) r1(1) by (subst compare_to_end.simps) (simp del: take_eq_Nil take_eq_Nil2 length_take)
  qed
qed
text \<open>
  The calls on a regular file with content \<open>s\<close> that nobody else touches, none of which fails; reads may be
  short or interrupted.
\<close>

definition reads_as :: "descriptor \<Rightarrow> string \<Rightarrow> bool" where "reads_as d s \<longleftrightarrow> faultless d \<and> delivered d = s"

definition editable_stat :: "file_stat \<Rightarrow> nat \<Rightarrow> bool" where
  "editable_stat info n \<longleftrightarrow> s_isreg (st_mode info) \<and> st_nlink info = 1 \<and> \<not> special_bits (st_mode info) \<and> st_size info = n"

definition untouched :: "replace_env \<Rightarrow> file_stat \<Rightarrow> string \<Rightarrow> bool" where
  "untouched env info s \<longleftrightarrow> editable_stat info (length s) \<and>
     (\<forall>stat \<in> {se_opened_stat env, se_source_stat env, se_regular_stat env, se_reopened_stat env, se_after_stat env,
        se_original_stat env, se_current_stat env}. stat = Inr info) \<and>
     (\<exists>d. se_open_source env = Inr d \<and> reads_as d s) \<and> (\<exists>d. se_reopen env = Inr d \<and> reads_as d s) \<and>
     reads_as (se_prefix_reads env) s \<and> reads_as (se_second_reads env) s \<and>
     (\<forall>c. reads_as (se_candidate_reads env c) c \<and> (\<exists>created. se_created_stat env c = Inr created \<and> st_size created = length c)) \<and>
     (\<forall>call \<in> {se_open_directory env, se_mkostemp env, se_lseek env, se_fchown env, se_fchmod env, se_fsync env, se_close env,
        se_open_candidate env, se_rename env, se_sync_directory env}. call = None)"

lemma untouched_reads_back: "untouched env info s \<Longrightarrow> reads_back env"
  by (simp add: untouched_def reads_back_def reads_as_def faultless_steady)

lemma undisturbed_untouched: "untouched (undisturbed_env s (plain_stat (length s))) (plain_stat (length s)) s"
  by (simp add: untouched_def undisturbed_env_def plain_stat_def editable_stat_def s_isreg_def special_bits_def reads_as_def)

lemma verify_ok:
  fixes st :: staged and obs :: 'o
  assumes u: "untouched env info s" and s: "s = before @ span @ after" "private_text (sr_private st) = before @ fresh @ after"
    and st: "sr_source_bytes st = length s" "sr_candidate_bytes st = length (before @ fresh @ after)" "sr_identity st = identity_of info" "sr_stop st = None"
  shows "\<exists>obs'. verify_against_source env (length before) span observe st obs = Inr (st, obs')"
proof -
  let ?c = "before @ fresh @ after"
  obtain d where d: "se_reopen env = Inr d" "faultless d" "delivered d = before @ span @ after"
    using u s(1) by (auto simp: untouched_def reads_as_def)
  have c: "faultless (se_candidate_reads env ?c)" "delivered (se_candidate_reads env ?c) = before @ fresh @ after"
    using u by (simp_all add: untouched_def reads_as_def)
  obtain l1 r1 o1 where 1: "compare_exact observe (length before) 0 0 (d, se_candidate_reads env ?c, obs, None) = Inr (l1, r1, o1, None)"
    "faultless l1" "faultless r1" "delivered l1 = span @ after" "delivered r1 = fresh @ after"
    using compare_exact_ok [OF d(2) c(1) _ _ d(3) c(2), of "length before" 0 observe 0 obs] by auto
  obtain r2 where 2: "skip_bytes (length fresh) 0 (r1, None) = Inr (r2, None)" "faultless r2" "delivered r2 = after"
    using skip_bytes_ok [OF 1(3), of 0 "length fresh"] 1(5) by auto
  obtain l2 where 3: "compare_expected (length span) span 0 (l1, None) = Inr (l2, None)" "faultless l2" "delivered l2 = after"
    using compare_expected_ok [OF 1(2), of 0 span after] 1(4) by auto
  obtain l3 r3 o2 where 4: "compare_to_end observe (length before + length span) 0 (l2, r2, o1, None) = Inr (l3, r3, o2, None)"
    using compare_to_end_ok [OF 3(2) 2(2), of observe "length before + length span" 0 o1] 2(3) 3(3) by auto
  have stats: "se_regular_stat env = Inr info" "se_reopened_stat env = Inr info" "se_after_stat env = Inr info" "se_open_candidate env = None"
    "editable_stat info (length s)"
    using u by (simp_all add: untouched_def)
  have "length before + length fresh + length after - (length s - length span) = length fresh" using s(1) by simp
  then show ?thesis
    unfolding verify_against_source_def s(2) st d(1) stats Let_def
    using 1(1) 2(1) 3(1) 4 s(1) stats(5) st(1,3,4)
    by (simp add: os_def os_ok_def checked_regular_def confirm_source_unchanged_def editable_stat_def identity_of_def)
qed

lemma publish_ok:
  fixes st :: staged and obs :: 'o
  assumes u: "untouched env info s" and s: "s = before @ span @ after" "candidate_text st = before @ fresh @ after"
    and h: "healthy env n st" and st: "sr_source_bytes st = length s" "sr_candidate_bytes st = length (candidate_text st)" "sr_identity st = identity_of info"
  shows "\<exists>st' obs'. publish env (length before) span observe st obs = Published st' (candidate_text st) obs'"
proof -
  have stop: "sr_stop st = None" "\<not> sr_consumed st" using h by (simp_all add: healthy_def)
  then have "st\<lparr>sr_stop := None\<rparr> = st" by simp
  moreover obtain st1 where st1: "ensure_candidate env st = Inr st1" "healthy env n st1" "candidate_open st1"
    using healthy_candidate [OF h] by blast
  ultimately have e: "ensure_candidate env (st\<lparr>sr_stop := None\<rparr>) = Inr st1" by simp
  note keep = ensure_candidate_keeps [OF st1(1)]
  obtain c where c: "sr_private st1 = OpenFile c" using st1(3) by (auto simp: candidate_open_def)
  have c': "c = before @ fresh @ after" using keep s(2) c by (simp add: candidate_text_def)
  have same: "sr_source_bytes st1 = length s" "sr_candidate_bytes st1 = length c" "sr_identity st1 = identity_of info" "sr_stop st1 = None"
    using keep st s(2) st1(2) c' by (auto simp: source_part_def healthy_def)
  obtain created where cr: "se_created_stat env c = Inr created" "st_size created = length c" using u by (auto simp: untouched_def)
  have ok: "se_fchown env = None" "se_fchmod env = None" "se_fsync env = None" "se_close env = None" "se_rename env = None" "se_sync_directory env = None"
    "se_source_stat env = Inr info" "se_original_stat env = Inr info" "se_current_stat env = Inr info" "editable_stat info (length s)"
    using u by (simp_all add: untouched_def)
  have "ensure_candidate env st1 = Inr st1" using c by (simp add: ensure_candidate_def)
  then have "\<exists>st2. finish_candidate env st1 = Inr st2 \<and> sr_private st2 = ClosedFile c \<and> sr_stop st2 = None"
    using c cr same ok
    by (cases "st_uid created = fi_owner (sr_identity st1) \<and> st_gid created = fi_group (sr_identity st1)")
       (simp_all add: finish_candidate_def os_def os_ok_def Let_def)
  then obtain st2 where st2: "finish_candidate env st1 = Inr st2" "sr_private st2 = ClosedFile c" "sr_stop st2 = None" by blast
  note f = finish_candidate_spec [OF st2(1) st1(3)]
  have "\<exists>obs'. verify_against_source env (length before) span observe st2 obs = Inr (st2, obs')"
    by (rule verify_ok [OF u s(1)]) (use st2 f same c' in auto)
  then obtain obs' where v: "verify_against_source env (length before) span observe st2 obs = Inr (st2, obs')" by blast
  have "prepare_publish env (length before) span observe st obs = Inr (st2, obs')"
    using stop e st2 v f same ok
    by (simp add: prepare_publish_def os_def confirm_source_unchanged_def same_file_def editable_stat_def identity_of_def)
  then show ?thesis using ok st2(2) c' s(2) by (simp add: publish_def Let_def)
qed

end
