(* ===== verification/Edit_Preview.thy ===== *)
theory Edit_Preview
  imports Text_Edit
begin

text \<open>
  The preview of a streamed edit: the row tracker of \<^verbatim>\<open>textedit/src/stream_edit_scan.hpp\<close> and the capture
  of \<^verbatim>\<open>stream_edit_preview.hpp\<close>. Both texts, before and after the edit, are tracked byte by byte in
  bounded memory; the captured rows are then rendered through a second row cursor, and are shown to give the
  excerpts of the in-memory edit.
\<close>

section \<open>Captured rows\<close>

definition kFocusTailBytes :: nat where "kFocusTailBytes = 128 + 4"

definition kSuffixCaptureBytes :: nat where "kSuffixCaptureBytes = kRowWindowBytes + 4"

record captured_row =
  cr_line :: nat
  cr_start :: nat
  cr_length :: nat
  cr_head :: string
  cr_window_from :: nat
  cr_window :: string

record table_cursor =
  tc_rows :: "captured_row list"
  tc_index :: nat

definition TableCursor :: "captured_row list \<Rightarrow> table_cursor" where
  "TableCursor rows = \<lparr>tc_rows = rows, tc_index = 0\<rparr>"

function tc_skip :: "nat \<Rightarrow> table_cursor \<Rightarrow> table_cursor" where
  "tc_skip line c =
     (if tc_index c < length (tc_rows c) \<and> cr_line (tc_rows c ! tc_index c) < line
      then tc_skip line (c\<lparr>tc_index := tc_index c + 1\<rparr>) else c)"
  by pat_completeness auto
termination
  by (relation "measure (\<lambda>(_, c). length (tc_rows c) - tc_index c)") auto

declare tc_skip.simps [simp del]

definition tc_seek :: "nat \<Rightarrow> table_cursor \<Rightarrow> table_cursor result" where
  "tc_seek line c =
     (let c' = tc_skip line c in
      if tc_index c' \<ge> length (tc_rows c') \<or> cr_line (tc_rows c' ! tc_index c') \<noteq> line then
        Inl (LogicError ''preview row is missing from the captured table'')
      else Inr c')"

definition tc_row :: "table_cursor \<Rightarrow> captured_row" where
  "tc_row c = tc_rows c ! tc_index c"

definition tc_content :: "nat \<Rightarrow> table_cursor \<Rightarrow> string" where
  "tc_content from c =
     (if from = 0 then cr_head (tc_row c)
      else if from = cr_window_from (tc_row c) then cr_window (tc_row c) else [])"

definition table_ops :: "table_cursor cursor_ops" where
  "table_ops = \<lparr>cu_seek = tc_seek, cu_start = (\<lambda>c. cr_start (tc_row c)), cu_length = (\<lambda>c. cr_length (tc_row c)),
     cu_content = tc_content\<rparr>"

section \<open>The byte ring\<close>

record byte_ring =
  br_bytes :: string
  br_next :: nat
  br_count :: nat

definition ByteRing :: "nat \<Rightarrow> byte_ring" where
  "ByteRing capacity = \<lparr>br_bytes = replicate capacity (CHR 0x00), br_next = 0, br_count = 0\<rparr>"

definition br_push :: "char \<Rightarrow> byte_ring \<Rightarrow> byte_ring" where
  "br_push byte r =
     r\<lparr>br_bytes := (br_bytes r)[br_next r := byte], br_next := (br_next r + 1) mod length (br_bytes r),
       br_count := (if br_count r < length (br_bytes r) then br_count r + 1 else br_count r)\<rparr>"

definition br_clear :: "byte_ring \<Rightarrow> byte_ring" where
  "br_clear r = r\<lparr>br_next := 0, br_count := 0\<rparr>"

definition br_ordered :: "byte_ring \<Rightarrow> string" where
  "br_ordered r = map (\<lambda>index. br_bytes r ! ((br_next r + length (br_bytes r) - br_count r + index) mod length (br_bytes r)))
     [0..<br_count r]"

section \<open>The row tracker\<close>

record row_tracker =
  rt_offset :: nat
  rt_row_start :: nat
  rt_line :: nat
  rt_length :: nat
  rt_pending_left :: nat
  rt_head :: string
  rt_tail :: byte_ring
  rt_carry :: string

record snapshot =
  sn_line :: nat
  sn_start :: nat
  sn_length :: nat
  sn_head :: string
  sn_tail :: string

definition RowTracker :: "nat \<Rightarrow> row_tracker" where
  "RowTracker start_offset =
     \<lparr>rt_offset = start_offset, rt_row_start = start_offset, rt_line = 0, rt_length = 0, rt_pending_left = 0,
      rt_head = [], rt_tail = ByteRing kFocusTailBytes, rt_carry = []\<rparr>"

definition rt_snapshot :: "row_tracker \<Rightarrow> snapshot" where
  "rt_snapshot t = \<lparr>sn_line = rt_line t, sn_start = rt_row_start t, sn_length = rt_length t, sn_head = rt_head t,
     sn_tail = br_ordered (rt_tail t)\<rparr>"

definition current_row :: "row_tracker \<Rightarrow> captured_row" where
  "current_row t = \<lparr>cr_line = rt_line t, cr_start = rt_row_start t, cr_length = rt_length t, cr_head = rt_head t,
     cr_window_from = 0, cr_window = []\<rparr>"

text \<open>The listener is a function on its own state, threaded beside the tracker.\<close>

type_synonym 'l listener = "captured_row \<Rightarrow> 'l \<Rightarrow> 'l"

definition complete_row :: "'l listener \<Rightarrow> row_tracker \<times> 'l \<Rightarrow> row_tracker \<times> 'l" where
  "complete_row notify = (\<lambda>(t, l).
     (t\<lparr>rt_line := rt_line t + 1, rt_row_start := rt_offset t + 1, rt_length := 0, rt_head := [],
        rt_tail := br_clear (rt_tail t)\<rparr>,
      notify (current_row t) l))"

text \<open>The common body of \<^verbatim>\<open>push\<close> and \<^verbatim>\<open>push_final\<close>, which differ in how the terminator at the byte is found.\<close>

definition push_byte :: "'l listener \<Rightarrow> char \<Rightarrow> nat \<Rightarrow> row_tracker \<times> 'l \<Rightarrow> row_tracker \<times> 'l" where
  "push_byte notify byte found = (\<lambda>(t, l).
     (let width = (if rt_pending_left t = 0 then found else 0);
          t1 = (if rt_pending_left t = 0 \<and> width = 0 then
                  t\<lparr>rt_length := rt_length t + 1,
                    rt_head := (if length (rt_head t) < kRowWindowBytes then rt_head t @ [byte] else rt_head t),
                    rt_tail := br_push byte (rt_tail t)\<rparr>
                else t);
          left_bytes = (if rt_pending_left t = 0 \<and> width \<noteq> 0 then width else rt_pending_left t);
          t2 = t1\<lparr>rt_pending_left := left_bytes - 1\<rparr>;
          (t3, l') = (if left_bytes > 0 \<and> left_bytes - 1 = 0 then complete_row notify (t2, l) else (t2, l)) in
      (t3\<lparr>rt_offset := rt_offset t3 + 1\<rparr>, l')))"

definition push :: "'l listener \<Rightarrow> string \<Rightarrow> nat \<Rightarrow> row_tracker \<times> 'l \<Rightarrow> row_tracker \<times> 'l" where
  "push notify window at = push_byte notify (window ! at) (bp_width (probe_break window at))"

definition push_final :: "'l listener \<Rightarrow> string \<Rightarrow> nat \<Rightarrow> row_tracker \<times> 'l \<Rightarrow> row_tracker \<times> 'l" where
  "push_final notify window at = push_byte notify (window ! at) (line_break_width (drop at window))"

definition kNoStop :: nat where "kNoStop = size_max"

text \<open>The loops of \<^verbatim>\<open>feed_until\<close> and \<^verbatim>\<open>finish_until\<close> over the positions of the carried bytes.\<close>

function push_loop ::
  "(nat \<Rightarrow> row_tracker \<times> 'l \<Rightarrow> row_tracker \<times> 'l) \<Rightarrow> nat \<Rightarrow> nat \<Rightarrow> nat \<Rightarrow> row_tracker \<times> 'l \<Rightarrow> nat \<times> row_tracker \<times> 'l" where
  "push_loop f usable stop index st =
     (if index < usable \<and> rt_offset (fst st) < stop then push_loop f usable stop (index + 1) (f index st) else (index, st))"
  by pat_completeness auto
termination
  by (relation "measure (\<lambda>(_, usable, _, index, _). usable - index)") auto

declare push_loop.simps [simp del]

definition feed_until :: "'l listener \<Rightarrow> string \<Rightarrow> nat \<Rightarrow> row_tracker \<times> 'l \<Rightarrow> row_tracker \<times> 'l" where
  "feed_until notify bytes stop = (\<lambda>(t, l).
     (let buffer = rt_carry t @ bytes;
          usable = (if length buffer > 2 then length buffer - 2 else 0);
          (index, t', l') = push_loop (push notify buffer) usable stop 0 (t\<lparr>rt_carry := []\<rparr>, l) in
      (t'\<lparr>rt_carry := drop index buffer\<rparr>, l')))"

definition finish_until :: "'l listener \<Rightarrow> nat \<Rightarrow> row_tracker \<times> 'l \<Rightarrow> row_tracker \<times> 'l" where
  "finish_until notify stop = (\<lambda>(t, l).
     (let (index, t', l') = push_loop (push_final notify (rt_carry t)) (length (rt_carry t)) stop 0 (t, l) in
      (t'\<lparr>rt_carry := drop index (rt_carry t)\<rparr>, l')))"

definition rt_finish :: "'l listener \<Rightarrow> row_tracker \<times> 'l \<Rightarrow> row_tracker \<times> 'l" where
  "rt_finish notify st =
     (let (t, l) = finish_until notify kNoStop st in (t, notify (current_row t) l))"

section \<open>One side of the preview\<close>

definition range_for :: "nat \<Rightarrow> nat \<Rightarrow> nat \<Rightarrow> nat \<Rightarrow> excerpt_rows" where
  "range_for total_lines first_changed last_changed context =
     \<lparr>er_first = (if first_changed > context then first_changed - context else 0),
      er_last = last_changed + min context (total_lines - 1 - last_changed),
      er_changed_first = first_changed, er_changed_last = last_changed\<rparr>"

text \<open>\<^verbatim>\<open>std::unique\<close> on the line number.\<close>

fun unique_rows :: "captured_row list \<Rightarrow> captured_row list" where
  "unique_rows (a # b # rows) =
     (if cr_line a = cr_line b then unique_rows (a # rows) else a # unique_rows (b # rows))"
| "unique_rows rows = rows"

definition merge_rows :: "captured_row list \<Rightarrow> captured_row list" where
  "merge_rows rows = unique_rows (sort_key cr_line rows)"

record preview_rows =
  pr_before :: "captured_row list"
  pr_head :: "captured_row list"
  pr_tail :: "captured_row list"
  pr_after :: "captured_row list"

record preview_side =
  ps_middle :: string
  ps_changed_bytes :: nat
  ps_tracker :: row_tracker
  ps_rows :: preview_rows
  ps_position :: "snapshot option"
  ps_next_stop :: nat
  ps_last_stop :: nat
  ps_last_changed :: nat
  ps_last_taken :: bool

definition PreviewSide :: "string \<Rightarrow> nat \<Rightarrow> preview_side" where
  "PreviewSide middle changed_bytes =
     \<lparr>ps_middle = middle, ps_changed_bytes = changed_bytes, ps_tracker = RowTracker 0,
      ps_rows = \<lparr>pr_before = [], pr_head = [], pr_tail = [], pr_after = []\<rparr>, ps_position = None,
      ps_next_stop = kNoStop, ps_last_stop = kNoStop, ps_last_changed = 0, ps_last_taken = False\<rparr>"

text \<open>A deque that keeps its last \<open>n\<close> entries: \<^verbatim>\<open>push_back\<close>, then \<^verbatim>\<open>pop_front\<close> when it is too long.\<close>

definition push_bounded :: "nat \<Rightarrow> 'a list \<Rightarrow> 'a \<Rightarrow> 'a list" where
  "push_bounded n xs x = (if length (xs @ [x]) > n then tl (xs @ [x]) else xs @ [x])"

definition completed :: "preview_side \<Rightarrow> preview_rows listener" where
  "completed s row rows =
     (if ps_position s = None then rows\<lparr>pr_before := push_bounded kMaxContextLines (pr_before rows) row\<rparr>
      else if ps_last_taken s \<and> cr_line row > ps_last_changed s then
        (if length (pr_after rows) < kMaxContextLines then rows\<lparr>pr_after := pr_after rows @ [row]\<rparr> else rows)
      else if length (pr_head rows) < kMaxShownLines div 2 then rows\<lparr>pr_head := pr_head rows @ [row]\<rparr>
      else rows\<lparr>pr_tail := push_bounded (kMaxShownLines div 2) (pr_tail rows) row\<rparr>)"

definition ps_advance :: "preview_side \<Rightarrow> preview_side" where
  "ps_advance s =
     (if ps_position s = None then s\<lparr>ps_position := Some (rt_snapshot (ps_tracker s)), ps_next_stop := ps_last_stop s\<rparr>
      else
        (if \<not> ps_last_taken s \<and> ps_last_stop s \<noteq> kNoStop
         then s\<lparr>ps_last_taken := True, ps_last_changed := rt_line (ps_tracker s)\<rparr> else s)
        \<lparr>ps_next_stop := kNoStop\<rparr>)"

definition ps_start :: "nat \<Rightarrow> preview_side \<Rightarrow> preview_side" where
  "ps_start match_byte s =
     (let s1 = s\<lparr>ps_next_stop := match_byte,
                 ps_last_stop := (if ps_changed_bytes s = 0 then kNoStop else match_byte + ps_changed_bytes s - 1)\<rparr> in
      if match_byte = 0 then ps_advance s1 else s1)"

text \<open>Run the tracker with this side as its listener.\<close>

definition ps_track :: "(preview_rows listener \<Rightarrow> row_tracker \<times> preview_rows \<Rightarrow> row_tracker \<times> preview_rows) \<Rightarrow>
    preview_side \<Rightarrow> preview_side" where
  "ps_track f s = (let (t, rows) = f (completed s) (ps_tracker s, ps_rows s) in s\<lparr>ps_tracker := t, ps_rows := rows\<rparr>)"

definition ps_waits :: "preview_side \<Rightarrow> bool" where
  "ps_waits s \<longleftrightarrow> ps_next_stop s = kNoStop \<or> rt_offset (ps_tracker s) \<noteq> ps_next_stop s"

lemma ps_track_keeps [simp]:
  "ps_middle (ps_track f s) = ps_middle s" "ps_changed_bytes (ps_track f s) = ps_changed_bytes s"
  "ps_position (ps_track f s) = ps_position s" "ps_next_stop (ps_track f s) = ps_next_stop s"
  "ps_last_stop (ps_track f s) = ps_last_stop s" "ps_last_changed (ps_track f s) = ps_last_changed s"
  "ps_last_taken (ps_track f s) = ps_last_taken s"
  by (simp_all add: ps_track_def split: prod.split)

definition stops_left :: "preview_side \<Rightarrow> nat" where
  "stops_left s = (if ps_position s = None then 2 else if ps_next_stop s \<noteq> kNoStop then 1 else 0)"

lemma ps_advance_stops: "\<not> ps_waits s \<Longrightarrow> stops_left (ps_advance s) < stops_left s"
  by (auto simp: stops_left_def ps_advance_def ps_waits_def)

lemma stops_left_track [simp]: "stops_left (ps_track f s) = stops_left s"
  by (simp add: stops_left_def)

function ps_feed :: "string \<Rightarrow> preview_side \<Rightarrow> preview_side" where
  "ps_feed bytes s =
     (let s1 = ps_track (\<lambda>notify. feed_until notify bytes (ps_next_stop s)) s in
      if ps_waits s1 then s1 else ps_feed [] (ps_advance s1))"
  by pat_completeness auto
termination
  by (relation "measure (\<lambda>(_, s). stops_left s)")
     (auto simp: Let_def dest: ps_advance_stops)

declare ps_feed.simps [simp del]

function ps_settle :: "preview_side \<Rightarrow> preview_side" where
  "ps_settle s =
     (let s1 = (if ps_next_stop s \<noteq> kNoStop \<and> rt_offset (ps_tracker s) < ps_next_stop s
                then ps_track (\<lambda>notify. finish_until notify (ps_next_stop s)) s else s) in
      if ps_waits s1 then s1 else ps_settle (ps_advance s1))"
  by pat_completeness auto
termination
proof (relation "measure stops_left")
  show "(ps_advance x, s) \<in> measure stops_left"
    if "x = (if ps_next_stop s \<noteq> kNoStop \<and> rt_offset (ps_tracker s) < ps_next_stop s
      then ps_track (\<lambda>notify. finish_until notify (ps_next_stop s)) s else s)" "\<not> ps_waits x" for s x
    using ps_advance_stops [OF that(2)] that(1) by (auto split: if_splits)
qed simp

declare ps_settle.simps [simp del]

definition ps_finish :: "preview_side \<Rightarrow> preview_side" where
  "ps_finish s = ps_track rt_finish (ps_settle s)"

definition ps_total_lines :: "preview_side \<Rightarrow> nat" where
  "ps_total_lines s = rt_line (ps_tracker s) + 1"

definition ps_assume_last_changed :: "preview_side \<Rightarrow> preview_side" where
  "ps_assume_last_changed s =
     (case ps_position s of
        Some p \<Rightarrow> if \<not> ps_last_taken s then s\<lparr>ps_last_changed := sn_line p\<rparr> else s
      | None \<Rightarrow> s)"

text \<open>The part of a piece, lying at \<open>offset\<close> of a row, that falls into the columns \<open>from\<close> to \<open>till\<close>.\<close>

definition clip_piece :: "nat \<Rightarrow> nat \<Rightarrow> string \<Rightarrow> nat \<Rightarrow> string" where
  "clip_piece from till piece offset =
     (if piece = [] then []
      else let front = max from offset; stop = min till (offset + length piece) in
        if front < stop then substr piece (front - offset) (stop - front) else [])"

definition window_of :: "snapshot \<Rightarrow> string \<Rightarrow> nat \<Rightarrow> string \<Rightarrow> captured_row \<Rightarrow> nat \<Rightarrow> string" where
  "window_of position middle match_byte suffix_head row from =
     (let till = min (cr_length row) (from + kRowWindowBytes) in
      if from \<ge> till then []
      else
        let available = min (sn_length position) (length (sn_tail position));
            (front_piece, front_bytes) =
              (if cr_start row < match_byte
               then (drop (length (sn_tail position) - available) (sn_tail position), sn_length position - available)
               else ([], 0));
            middle_from = (if cr_start row < match_byte then 0 else cr_start row - match_byte);
            middle_bytes = (if cr_start row < match_byte then sn_length position else 0);
            suffix_offset = (if cr_start row < match_byte then middle_bytes + length middle else length middle - middle_from) in
        clip_piece from till front_piece front_bytes @
        clip_piece from till (drop (min middle_from (length middle)) middle) middle_bytes @
        clip_piece from till suffix_head suffix_offset)"

definition focus_row :: "snapshot \<Rightarrow> string \<Rightarrow> nat \<Rightarrow> nat \<Rightarrow> string \<Rightarrow> captured_row \<Rightarrow> captured_row" where
  "focus_row position middle last_line match_byte suffix_head row =
     (let last_byte = (if middle = [] then match_byte else match_byte + length middle - 1);
          focus = (if cr_line row = sn_line position then Some (match_byte - cr_start row)
                   else if cr_line row = last_line \<and> last_byte \<ge> cr_start row then Some (last_byte - cr_start row)
                   else None) in
      case focus of
        None \<Rightarrow> row
      | Some column \<Rightarrow>
          (let from = focus_window_start (cr_length row) column in
           if from = 0 then row
           else row\<lparr>cr_window_from := from, cr_window := window_of position middle match_byte suffix_head row from\<rparr>))"

definition ps_focus_windows :: "nat \<Rightarrow> string \<Rightarrow> preview_side \<Rightarrow> preview_side" where
  "ps_focus_windows match_byte suffix_head s =
     (case ps_position s of
        None \<Rightarrow> s
      | Some position \<Rightarrow>
          (let focus = focus_row position (ps_middle s) (ps_last_changed s) match_byte suffix_head in
           s\<lparr>ps_rows := (ps_rows s)\<lparr>pr_head := map focus (pr_head (ps_rows s)), pr_tail := map focus (pr_tail (ps_rows s))\<rparr>\<rparr>))"

section \<open>The capture\<close>

record edit_preview =
  ep_before_position :: text_position
  ep_after_position :: text_position
  ep_before_range :: excerpt_rows
  ep_after_range :: excerpt_rows
  ep_before_rows :: "captured_row list"
  ep_after_rows :: "captured_row list"

record preview_capture =
  pc_match_byte :: nat
  pc_source :: preview_side
  pc_edited :: preview_side
  pc_suffix_head :: string
  pc_before_position :: text_position
  pc_after_position :: text_position
  pc_before_total :: nat
  pc_after_total :: nat
  pc_span_fed :: bool

definition PreviewCapture :: "nat \<Rightarrow> string \<Rightarrow> string \<Rightarrow> preview_capture" where
  "PreviewCapture match_byte old_text new_text =
     \<lparr>pc_match_byte = match_byte, pc_source = ps_start match_byte (PreviewSide old_text (length old_text)),
      pc_edited = ps_start match_byte (PreviewSide new_text (length new_text)), pc_suffix_head = [],
      pc_before_position = text_pos 0 0, pc_after_position = text_pos 0 0, pc_before_total = 1, pc_after_total = 1,
      pc_span_fed = False\<rparr>"

definition feed_both :: "string \<Rightarrow> preview_capture \<Rightarrow> preview_capture" where
  "feed_both piece c = c\<lparr>pc_source := ps_feed piece (pc_source c), pc_edited := ps_feed piece (pc_edited c)\<rparr>"

definition begin_span :: "preview_capture \<Rightarrow> preview_capture" where
  "begin_span c =
     (if pc_span_fed c then c
      else c\<lparr>pc_span_fed := True, pc_source := ps_feed (ps_middle (pc_source c)) (pc_source c),
             pc_edited := ps_feed (ps_middle (pc_edited c)) (pc_edited c)\<rparr>)"

definition pc_observe :: "nat \<Rightarrow> string \<Rightarrow> preview_capture \<Rightarrow> preview_capture" where
  "pc_observe offset bytes c =
     (let span_end = pc_match_byte c + length (ps_middle (pc_source c));
          used1 = (if offset < pc_match_byte c then min (length bytes) (pc_match_byte c - offset) else 0);
          c1 = (if offset < pc_match_byte c then feed_both (take used1 bytes) c else c);
          used2 = (if offset + used1 < span_end then used1 + min (span_end - (offset + used1)) (length bytes - used1) else used1) in
      if used2 \<ge> length bytes then c1
      else
        let c2 = feed_both (drop used2 bytes) (begin_span c1) in
        if length (pc_suffix_head c2) < kSuffixCaptureBytes then
          c2\<lparr>pc_suffix_head := pc_suffix_head c2 @
               substr bytes used2 (min (kSuffixCaptureBytes - length (pc_suffix_head c2)) (length bytes - used2))\<rparr>
        else c2)"

definition pc_finish :: "preview_capture \<Rightarrow> preview_capture result" where
  "pc_finish c0 =
     (let c = begin_span c0; source = ps_finish (pc_source c); edited = ps_finish (pc_edited c) in
      case (ps_position source, ps_position edited) of
        (Some before, Some after) \<Rightarrow>
          Inr (c\<lparr>pc_source := ps_focus_windows (pc_match_byte c) (pc_suffix_head c) (ps_assume_last_changed source),
                 pc_edited := ps_focus_windows (pc_match_byte c) (pc_suffix_head c) (ps_assume_last_changed edited),
                 pc_before_position := text_pos (sn_line before) (pc_match_byte c - sn_start before),
                 pc_after_position := text_pos (sn_line after) (pc_match_byte c - sn_start after),
                 pc_before_total := ps_total_lines source, pc_after_total := ps_total_lines edited\<rparr>)
      | _ \<Rightarrow> Inl (LogicError ''edit preview could not locate the match''))"

definition capture_table :: "preview_rows \<Rightarrow> nat \<Rightarrow> nat \<Rightarrow> nat \<Rightarrow> captured_row list" where
  "capture_table rows first_line last_line context =
     merge_rows (pr_head rows @ pr_tail rows @
       take context (filter (\<lambda>r. \<not> cr_line r \<ge> first_line) (rev (pr_before rows))) @
       take context (filter (\<lambda>r. \<not> cr_line r \<le> last_line) (pr_after rows)))"

definition pc_take :: "nat \<Rightarrow> preview_capture \<Rightarrow> edit_preview" where
  "pc_take context c =
     (let before_line = tp_line (pc_before_position c); after_line = tp_line (pc_after_position c);
          before_last = ps_last_changed (pc_source c); after_last = ps_last_changed (pc_edited c) in
      \<lparr>ep_before_position = pc_before_position c, ep_after_position = pc_after_position c,
       ep_before_range = range_for (pc_before_total c) before_line before_last context,
       ep_after_range = range_for (pc_after_total c) after_line after_last context,
       ep_before_rows = capture_table (ps_rows (pc_source c)) before_line before_last context,
       ep_after_rows = capture_table (ps_rows (pc_edited c)) after_line after_last context\<rparr>)"

section \<open>The ring keeps the last bytes\<close>

definition lastn :: "nat \<Rightarrow> 'a list \<Rightarrow> 'a list" where
  "lastn n xs = drop (length xs - n) xs"

lemma lastn_length [simp]: "length (lastn n xs) = min n (length xs)"
  by (simp add: lastn_def)

lemma lastn_all: "length xs \<le> n \<Longrightarrow> lastn n xs = xs"
  by (simp add: lastn_def)

lemma lastn_snoc: "0 < n \<Longrightarrow> lastn n (xs @ [x]) = (if length xs < n then lastn n xs else tl (lastn n xs)) @ [x]"
proof (cases "length xs < n")
  case False
  assume "0 < n"
  then have "Suc (length xs) - n = Suc (length xs - n)" "Suc (length xs - n) \<le> length xs" using False by auto
  then show ?thesis using False by (simp add: lastn_def tl_drop drop_Suc)
qed (simp add: lastn_def)

lemma push_bounded_lastn:
  assumes "0 < n" shows "push_bounded n (lastn n xs) x = lastn n (xs @ [x])"
proof (cases "length xs < n")
  case False
  then have "lastn n xs \<noteq> []" using assms by (metis lastn_length min.absorb1 not_less list.size(3) not_less_iff_gr_or_eq)
  then show ?thesis using False assms by (simp add: push_bounded_def lastn_snoc tl_append split: list.split)
qed (use assms in \<open>simp add: push_bounded_def lastn_snoc\<close>)

definition ring_ok :: "nat \<Rightarrow> byte_ring \<Rightarrow> bool" where
  "ring_ok n r \<longleftrightarrow> 0 < n \<and> length (br_bytes r) = n \<and> br_next r < n \<and> br_count r \<le> n \<and> (br_count r < n \<longrightarrow> br_next r = br_count r)"

lemma ring_new: "0 < n \<Longrightarrow> ring_ok n (ByteRing n) \<and> br_ordered (ByteRing n) = []"
  by (simp add: ring_ok_def ByteRing_def br_ordered_def)

lemma ring_clear: "ring_ok n r \<Longrightarrow> ring_ok n (br_clear r) \<and> br_ordered (br_clear r) = []"
  by (simp add: ring_ok_def br_clear_def br_ordered_def)

lemma ring_push:
  assumes "ring_ok n r"
  shows "ring_ok n (br_push b r) \<and>
    br_ordered (br_push b r) = (if br_count r < n then br_ordered r else tl (br_ordered r)) @ [b]"
proof -
  have r: "0 < n" "length (br_bytes r) = n" "br_next r < n" "br_count r \<le> n" using assms by (simp_all add: ring_ok_def)
  have ok: "ring_ok n (br_push b r)"
    using assms by (auto simp: ring_ok_def br_push_def mod_Suc)
  show ?thesis
  proof (cases "br_count r < n")
    case True
    then have next_eq: "br_next r = br_count r" using assms by (simp add: ring_ok_def)
    have "br_ordered (br_push b r) = br_ordered r @ [b]"
    proof (rule nth_equalityI)
      fix i assume "i < length (br_ordered (br_push b r))"
      then have i: "i < Suc (br_count r)" using True r by (simp add: br_ordered_def br_push_def)
      have idx: "((br_count r + 1) mod n + n - (br_count r + 1) + i) mod n = i"
      proof (cases "br_count r + 1 = n")
        case c: True then show ?thesis using i by simp
      next
        case False
        then have "(br_count r + 1) mod n = br_count r + 1" using True by simp
        then show ?thesis using i True by simp
      qed
      have "br_ordered (br_push b r) ! i = (br_bytes r)[br_count r := b] ! i"
        using i True r next_eq idx by (simp add: br_ordered_def br_push_def del: upt_Suc)
      also have "\<dots> = (br_ordered r @ [b]) ! i"
        using i True r next_eq by (cases "i = br_count r") (auto simp: br_ordered_def nth_append)
      finally show "br_ordered (br_push b r) ! i = (br_ordered r @ [b]) ! i" .
    qed (use True r in \<open>simp add: br_ordered_def br_push_def\<close>)
    then show ?thesis using ok True by simp
  next
    case False
    then have full: "br_count r = n" using r by simp
    have "br_ordered (br_push b r) = tl (br_ordered r) @ [b]"
    proof (rule nth_equalityI)
      fix i assume "i < length (br_ordered (br_push b r))"
      then have i: "i < n" using full r by (simp add: br_ordered_def br_push_def)
      have idx: "(Suc (br_next r) mod n + i) mod n = (Suc (br_next r) + i) mod n" by (simp add: mod_add_left_eq)
      have lhs: "br_ordered (br_push b r) ! i = (br_bytes r)[br_next r := b] ! ((Suc (br_next r) + i) mod n)"
        using i full r idx by (simp add: br_ordered_def br_push_def)
      show "br_ordered (br_push b r) ! i = (tl (br_ordered r) @ [b]) ! i"
      proof (cases "i = n - 1")
        case True
        then have "(Suc (br_next r) + i) mod n = br_next r" using r by simp
        then show ?thesis using lhs True r full by (simp add: nth_append br_ordered_def)
      next
        case ne: False
        then have "i < n - 1" using i by simp
        moreover have "(Suc (br_next r) + i) mod n \<noteq> br_next r"
        proof
          assume e: "(Suc (br_next r) + i) mod n = br_next r"
          have "(Suc (br_next r) + i) div n \<le> 1"
            using less_mult_imp_div_less [of "Suc (br_next r) + i" 2 n] r \<open>i < n - 1\<close> by linarith
          then have "Suc (br_next r) + i = br_next r \<or> Suc (br_next r) + i = n + br_next r"
            using e div_mult_mod_eq [of "Suc (br_next r) + i" n] by (cases "(Suc (br_next r) + i) div n") auto
          then show False using \<open>i < n - 1\<close> by simp
        qed
        ultimately show ?thesis using lhs r full i by (simp add: nth_append br_ordered_def nth_tl)
      qed
    qed (use full r in \<open>simp add: br_ordered_def br_push_def\<close>)
    then show ?thesis using ok False by simp
  qed
qed

lemma ring_push_lastn:
  assumes "ring_ok n r" "br_ordered r = lastn n xs"
  shows "ring_ok n (br_push b r) \<and> br_ordered (br_push b r) = lastn n (xs @ [b])"
proof -
  have "0 < n" using assms(1) by (simp add: ring_ok_def)
  have "br_count r = min n (length xs)" using arg_cong [OF assms(2), of length] by (simp add: br_ordered_def)
  then show ?thesis using ring_push [OF assms(1), of b] assms(2) lastn_snoc [OF \<open>0 < n\<close>, of xs b] by auto
qed

section \<open>The tracker follows the rows\<close>

lemma row_width:
  "j \<le> length (fst (hd (split_rows u))) \<Longrightarrow>
   line_break_width (drop j u) = (if j < length (fst (hd (split_rows u))) then 0 else length (snd (hd (split_rows u))))"
proof (induction u arbitrary: j rule: rows_induct)
  case (Content c cs)
  obtain x y rs where r: "split_rows cs = (x, y) # rs" by (cases "split_rows cs") auto
  show ?case
  proof (cases j)
    case (Suc k)
    then show ?thesis using Content r by (simp add: split_rows_content cons_row_def)
  qed (use Content r in \<open>simp add: split_rows_content cons_row_def\<close>)
next
  case (Break s)
  then show ?case using line_break_width_le [of s] by (simp add: split_rows_break)
qed simp

definition row_at :: "string \<Rightarrow> nat \<Rightarrow> captured_row" where
  "row_at s n = \<lparr>cr_line = n, cr_start = row_start s n, cr_length = length (fst (split_rows s ! n)),
     cr_head = take kRowWindowBytes (fst (split_rows s ! n)), cr_window_from = 0, cr_window = []\<rparr>"

text \<open>The state of a tracker that has consumed a part of \<open>s\<close>: it is in a row, with the row's bytes so far.\<close>

definition seen_of_row :: "string \<Rightarrow> nat \<Rightarrow> nat \<Rightarrow> string" where
  "seen_of_row s n off = take (off - row_start s n) (fst (split_rows s ! n))"

definition tracks :: "string \<Rightarrow> row_tracker \<Rightarrow> bool" where
  "tracks s t \<longleftrightarrow>
     (let n = rt_line t; off = rt_offset t; seen = seen_of_row s n off in
      in_row s n off \<and> rt_row_start t = row_start s n \<and> rt_length t = length seen \<and>
      rt_head t = take kRowWindowBytes seen \<and> ring_ok kFocusTailBytes (rt_tail t) \<and>
      br_ordered (rt_tail t) = lastn kFocusTailBytes seen \<and>
      rt_pending_left t = (if off - row_start s n \<le> length (fst (split_rows s ! n)) then 0
        else row_len (split_rows s ! n) - (off - row_start s n)))"

lemma tracks_new: "tracks s (RowTracker 0)"
  using ring_new [of kFocusTailBytes]
  by (auto simp: tracks_def RowTracker_def Let_def in_row_def seen_of_row_def kFocusTailBytes_def lastn_def
      intro: row_len_pos simp: row_start_Suc)

lemma last_row_end:
  assumes "n < length (split_rows s)" "\<not> Suc n < length (split_rows s)"
  shows "row_start s n + length (fst (split_rows s ! n)) = length s" "snd (split_rows s ! n) = []"
proof -
  show t: "snd (split_rows s ! n) = []" using terminated_last [OF split_rows_terminated, of n s] assms by auto
  have "row_start s (Suc n) = length s" using assms by simp
  then show "row_start s n + length (fst (split_rows s ! n)) = length s"
    using row_start_Suc [OF assms(1)] t by (simp add: row_len_def)
qed

lemma inner_row_end:
  assumes "Suc n < length (split_rows s)"
  shows "snd (split_rows s ! n) \<noteq> []" "row_start s (Suc n) = row_start s n + row_len (split_rows s ! n)"
  using terminated_last [OF split_rows_terminated, of n s] terminators_not_Nil row_start_Suc [of n s] assms by auto

text \<open>What stands at an offset of a row: a content byte, or a byte of the terminator.\<close>

lemma width_in_row:
  assumes "n < length (split_rows s)" "off = row_start s n + j" "j \<le> length (fst (split_rows s ! n))"
  shows "line_break_width (drop off s) =
    (if j < length (fst (split_rows s ! n)) then 0 else length (snd (split_rows s ! n)))"
proof -
  have "hd (split_rows (drop (row_start s n) s)) = split_rows s ! n"
    using assms(1) by (simp add: split_rows_drop hd_drop_conv_nth)
  then show ?thesis using row_width [of j "drop (row_start s n) s"] assms(2,3) by (simp add: add.commute)
qed

lemma byte_in_row:
  assumes "n < length (split_rows s)" "j < length (fst (split_rows s ! n))"
  shows "s ! (row_start s n + j) = fst (split_rows s ! n) ! j"
proof -
  have "substr s (row_start s n + j) 1 = take 1 (drop j (fst (split_rows s ! n)))"
    by (rule row_content_window) (use assms in auto)
  moreover have "row_start s n + j < length s"
    using assms row_start_Suc [OF assms(1)] row_start_le [of s "Suc n"] by (simp add: row_len_def)
  ultimately show ?thesis using assms(2) by (simp add: substr_def take_Suc_conv_app_nth hd_drop_conv_nth take_Suc)
qed

lemma push_byte_terminator:
  assumes "k = (if rt_pending_left t = 0 then w else rt_pending_left t)" "0 < k"
  shows "push_byte notify b w (t, l) =
    (let t2 = t\<lparr>rt_pending_left := k - 1\<rparr>; (t3, l') = (if k = 1 then complete_row notify (t2, l) else (t2, l)) in
     (t3\<lparr>rt_offset := rt_offset t3 + 1\<rparr>, l'))"
proof -
  have "(0 < k \<and> k - 1 = 0) = (k = 1)" using assms(2) by auto
  then show ?thesis using assms by (cases "rt_pending_left t = 0") (auto simp: push_byte_def Let_def)
qed

text \<open>One byte: the tracker moves on, and tells the listener when it ends a row.\<close>

lemma push_byte_tracks:
  assumes t: "tracks s t" and off: "rt_offset t < length s"
    and st': "push_byte notify (s ! rt_offset t) (line_break_width (drop (rt_offset t) s)) (t, l) = (t', l')"
  shows "tracks s t'" "rt_offset t' = Suc (rt_offset t)" "rt_carry t' = rt_carry t" "rt_line t \<le> rt_line t'"
    "l' = fold notify (map (row_at s) [rt_line t..<rt_line t']) l"
proof -
  define n j c e where "n = rt_line t" and "j = rt_offset t - row_start s n" and "c = fst (split_rows s ! n)"
    and "e = snd (split_rows s ! n)"
  have inr: "in_row s n (rt_offset t)" "n < length (split_rows s)" and o: "rt_offset t = row_start s n + j"
    using t by (auto simp: tracks_def Let_def n_def j_def in_row_def)
  have len: "row_len (split_rows s ! n) = length c + length e" by (simp add: c_def e_def row_len_def)
  have T: "rt_row_start t = row_start s n" "rt_length t = length (take j c)" "rt_head t = take kRowWindowBytes (take j c)"
    "ring_ok kFocusTailBytes (rt_tail t)" "br_ordered (rt_tail t) = lastn kFocusTailBytes (take j c)"
    "rt_pending_left t = (if j \<le> length c then 0 else length c + length e - j)"
    using t len by (auto simp: tracks_def Let_def n_def j_def c_def seen_of_row_def)
  have "tracks s t' \<and> rt_offset t' = Suc (rt_offset t) \<and> rt_carry t' = rt_carry t \<and> rt_line t \<le> rt_line t' \<and>
    l' = fold notify (map (row_at s) [rt_line t..<rt_line t']) l"
  proof (cases "j < length c")
    case True
    have w: "line_break_width (drop (rt_offset t) s) = 0" using width_in_row [OF inr(2) o] True by (simp add: c_def)
    have b: "s ! rt_offset t = c ! j" using byte_in_row [OF inr(2), of j] True o by (simp add: c_def)
    have stay: "in_row s n (Suc (rt_offset t))"
    proof (cases "Suc n < length (split_rows s)")
      case inner: True
      have "0 < length e" using inner_row_end(1) [OF inner] by (simp add: e_def)
      then have "Suc j < length c + length e" using True by linarith
      then show ?thesis using inner_row_end(2) [OF inner] inr off o len by (auto simp: in_row_def)
    next
      case False then show ?thesis using inr off by (simp add: in_row_def)
    qed
    have seen: "take (Suc j) c = take j c @ [c ! j]" using True by (simp add: take_Suc_conv_app_nth)
    have j': "Suc (rt_offset t) - row_start s n = Suc j" using o by simp
    have r: "t' = t\<lparr>rt_length := rt_length t + 1,
          rt_head := (if length (rt_head t) < kRowWindowBytes then rt_head t @ [c ! j] else rt_head t),
          rt_tail := br_push (c ! j) (rt_tail t), rt_pending_left := 0, rt_offset := Suc (rt_offset t)\<rparr>" "l' = l"
      using st' T(6) True w b by (auto simp: push_byte_def Let_def)
    have "(if length (rt_head t) < kRowWindowBytes then rt_head t @ [c ! j] else rt_head t) = take (min kRowWindowBytes (Suc j)) c"
    proof (cases "j < kRowWindowBytes")
      case lt: True
      then have "min kRowWindowBytes (Suc j) = Suc j" by simp
      then show ?thesis using T(3) True lt seen by simp
    qed (use T(3) True in \<open>simp add: min_def\<close>)
    then show ?thesis
      using stay ring_push_lastn [OF T(4,5), of "c ! j"] T(1,2) True
      by (auto simp: r tracks_def Let_def n_def [symmetric] seen_of_row_def j' c_def [symmetric] seen [symmetric])
  next
    case False
    have inner: "Suc n < length (split_rows s)"
    proof (rule ccontr)
      assume last: "\<not> Suc n < length (split_rows s)"
      show False using last_row_end [OF inr(2) last] False off o by (simp add: c_def)
    qed
    note ie = inner_row_end [OF inner]
    have jlt: "j < length c + length e" using inr(1) inner ie(2) len o by (auto simp: in_row_def)
    define k where "k = length c + length e - j"
    have k: "0 < k" using jlt by (simp add: k_def)
    have w: "rt_pending_left t = 0 \<Longrightarrow> line_break_width (drop (rt_offset t) s) = k"
      using width_in_row [OF inr(2) o] T(6) False jlt by (auto simp: c_def [symmetric] e_def [symmetric] k_def split: if_splits)
    have p: "rt_pending_left t = 0 \<or> rt_pending_left t = k" using T(6) by (simp add: k_def)
    have step: "(t', l') = (let t2 = t\<lparr>rt_pending_left := k - 1\<rparr>; (t3, l'') = (if k = 1 then complete_row notify (t2, l) else (t2, l)) in
        (t3\<lparr>rt_offset := rt_offset t3 + 1\<rparr>, l''))"
      unfolding st' [symmetric] by (rule push_byte_terminator [OF _ k]) (use w p k in auto)
    show ?thesis
    proof (cases "k = 1")
      case True
      have nx: "Suc (rt_offset t) = row_start s (Suc n)" using ie(2) len o True jlt by (simp add: k_def)
      have row: "current_row (t\<lparr>rt_pending_left := 0\<rparr>) = row_at s n"
        using T(1-3) False by (simp add: current_row_def row_at_def c_def [symmetric] n_def [symmetric])
      have r: "t' = t\<lparr>rt_pending_left := 0, rt_line := Suc n, rt_row_start := row_start s (Suc n), rt_length := 0, rt_head := [],
          rt_tail := br_clear (rt_tail t), rt_offset := row_start s (Suc n)\<rparr>" "l' = notify (row_at s n) l"
        using step True row nx by (auto simp: complete_row_def n_def Let_def)
      have "in_row s (Suc n) (row_start s (Suc n))"
        using inner row_start_le [of s "Suc n"] row_start_strict [of "Suc n" "Suc (Suc n)" s] by (auto simp: in_row_def)
      then show ?thesis
        using ring_clear [OF T(4)] nx by (simp add: r tracks_def Let_def seen_of_row_def lastn_def n_def [symmetric])
    next
      case more: False
      have j': "Suc (rt_offset t) - row_start s n = Suc j" using o by simp
      have r: "t' = t\<lparr>rt_pending_left := k - 1, rt_offset := Suc (rt_offset t)\<rparr>" "l' = l" using step more by (simp_all add: Let_def)
      have "in_row s n (Suc (rt_offset t))" using inr inner ie(2) len o more k off by (auto simp: in_row_def k_def)
      moreover have "take (min kRowWindowBytes (Suc j)) c = take kRowWindowBytes c" using False by (simp add: min_def)
      ultimately show ?thesis
        using T(1-5) False k more len
        by (simp add: r tracks_def Let_def n_def [symmetric] seen_of_row_def j' c_def [symmetric] k_def)
    qed
  qed
  then show "tracks s t'" "rt_offset t' = Suc (rt_offset t)" "rt_carry t' = rt_carry t" "rt_line t \<le> rt_line t'"
    "l' = fold notify (map (row_at s) [rt_line t..<rt_line t']) l" by auto
qed

text \<open>A run of pushes, stopped at an offset or at the end of the usable bytes.\<close>

lemma push_loop_tracks:
  assumes f: "\<And>i t l. i < usable \<Longrightarrow> tracks s t \<Longrightarrow> rt_offset t = base + i \<Longrightarrow>
      f i (t, l) = push_byte notify (s ! (base + i)) (line_break_width (drop (base + i) s)) (t, l)"
    and le: "base + usable \<le> length s"
    and t: "tracks s t" "rt_offset t = base + index" "index \<le> usable"
  shows "\<exists>index' t'. push_loop f usable stop index (t, l) = (index', t', fold notify (map (row_at s) [rt_line t..<rt_line t']) l) \<and>
    tracks s t' \<and> rt_offset t' = base + index' \<and> rt_carry t' = rt_carry t \<and> rt_line t \<le> rt_line t' \<and>
    index' = max index (min usable (stop - base))"
  using t
proof (induction "usable - index" arbitrary: index t l)
  case 0
  then show ?case by (subst push_loop.simps) auto
next
  case (Suc d)
  then have lt: "index < usable" by simp
  show ?case
  proof (cases "base + index < stop")
    case False
    then show ?thesis using Suc.prems by (subst push_loop.simps) auto
  next
    case True
    have off: "rt_offset t < length s" using Suc.prems lt le by simp
    obtain t1 l1 where p: "push_byte notify (s ! (base + index)) (line_break_width (drop (base + index) s)) (t, l) = (t1, l1)" by fastforce
    note step = push_byte_tracks [OF Suc.prems(1) off, unfolded Suc.prems(2), OF p]
    have loop: "push_loop f usable stop index (t, l) = push_loop f usable stop (Suc index) (t1, l1)"
      using f [OF lt Suc.prems(1,2)] p lt True Suc.prems(2) by (subst push_loop.simps) simp
    have "d = usable - Suc index" "rt_offset t1 = base + Suc index" "Suc index \<le> usable"
      using Suc.hyps(2) step(2) Suc.prems(2) lt by simp_all
    from Suc.hyps(1) [OF this(1) step(1) this(2,3), of l1]
    obtain index' t' where r: "push_loop f usable stop (Suc index) (t1, l1) =
        (index', t', fold notify (map (row_at s) [rt_line t1..<rt_line t']) l1)" "tracks s t'" "rt_offset t' = base + index'"
      "rt_carry t' = rt_carry t1" "rt_line t1 \<le> rt_line t'" "index' = max (Suc index) (min usable (stop - base))"
      by blast
    have "[rt_line t..<rt_line t'] = [rt_line t..<rt_line t1] @ [rt_line t1..<rt_line t']"
      using step(4) r(5) by (rule upt_split)
    then show ?thesis using loop r step lt True by (auto simp: max_def min_def)
  qed
qed

text \<open>
  The bytes fed so far are a prefix \<open>fed\<close> of the text; those the tracker has not consumed are its carry.
\<close>

definition follows :: "string \<Rightarrow> string \<Rightarrow> row_tracker \<Rightarrow> bool" where
  "follows s fed t \<longleftrightarrow> tracks s t \<and> prefix fed s \<and> rt_offset t \<le> length fed \<and> rt_carry t = drop (rt_offset t) fed"

lemma probe_two_ahead:
  assumes "i + 2 < length w" shows "bp_width (probe_break w i) = line_break_width (drop i w @ rest)"
proof -
  have "\<not> bp_incomplete (probe_break w i)" using assms by (auto simp: probe_break_def Let_def)
  then show ?thesis using probe_complete [of i w rest] assms by simp
qed

lemma follows_rest: "follows s fed t \<Longrightarrow> \<exists>rest. s = fed @ rest \<and> drop (rt_offset t) s = rt_carry t @ rest"
  by (auto simp: follows_def prefix_def)

lemma feed_until_follows:
  assumes t: "follows s fed t" and fed': "prefix (fed @ bytes) s"
  shows "\<exists>t'. feed_until notify bytes stop (t, l) = (t', fold notify (map (row_at s) [rt_line t..<rt_line t']) l) \<and>
    follows s (fed @ bytes) t' \<and> rt_line t \<le> rt_line t' \<and> rt_offset t \<le> rt_offset t' \<and>
    (rt_offset t \<le> stop \<longrightarrow> rt_offset t' \<le> stop)"
proof -
  let ?k = "rt_offset t" and ?buffer = "rt_carry t @ bytes"
  let ?usable = "if length ?buffer > 2 then length ?buffer - 2 else 0"
  have carry: "rt_carry t = drop ?k fed" "?k \<le> length fed" using t by (auto simp: follows_def)
  then have buf: "?buffer = drop ?k (fed @ bytes)" by simp
  obtain rest where s: "s = (fed @ bytes) @ rest" using fed' by (auto simp: prefix_def)
  have dropped: "drop (?k + i) s = drop i ?buffer @ rest" if "i \<le> length ?buffer" for i
    using that carry s buf by (simp add: drop_drop [symmetric] add.commute [of ?k] del: drop_drop)
  have blen: "?k + length ?buffer \<le> length s" using s carry by simp
  have f: "push notify ?buffer i (u, m) = push_byte notify (s ! (?k + i)) (line_break_width (drop (?k + i) s)) (u, m)"
    if "i < ?usable" for i u and m :: 'a
  proof -
    have i: "i + 2 < length ?buffer" using that by (simp split: if_splits)
    have "?k \<le> length s" using s carry by simp
    then have "s ! (?k + i) = drop ?k s ! i" by simp
    also have "drop ?k s = ?buffer @ rest" using dropped [of 0] by simp
    also have "(?buffer @ rest) ! i = ?buffer ! i" by (rule nth_append_left) (use i in simp)
    finally have "s ! (?k + i) = ?buffer ! i" .
    then show ?thesis using probe_two_ahead [OF i, of rest] dropped [of i] i by (simp add: push_def)
  qed
  have t0: "tracks s (t\<lparr>rt_carry := []\<rparr>)" "rt_offset (t\<lparr>rt_carry := []\<rparr>) = ?k + 0"
    using t by (auto simp: follows_def tracks_def Let_def)
  have ule: "?k + ?usable \<le> length s" using blen by (simp split: if_split) linarith
  from push_loop_tracks [of ?usable s ?k "push notify ?buffer" notify "t\<lparr>rt_carry := []\<rparr>" 0 stop l, OF f ule t0 le0 [of ?usable]]
  obtain index' t' where r: "push_loop (push notify ?buffer) ?usable stop 0 (t\<lparr>rt_carry := []\<rparr>, l) =
      (index', t', fold notify (map (row_at s) [rt_line (t\<lparr>rt_carry := []\<rparr>)..<rt_line t']) l)"
    "tracks s t'" "rt_offset t' = ?k + index'" "rt_line (t\<lparr>rt_carry := []\<rparr>) \<le> rt_line t'" "index' = max 0 (min ?usable (stop - ?k))"
    by blast
  have out: "feed_until notify bytes stop (t, l) =
      (t'\<lparr>rt_carry := drop index' ?buffer\<rparr>, fold notify (map (row_at s) [rt_line t..<rt_line t']) l)"
    using r(1) by (simp add: feed_until_def Let_def)
  have idx: "index' \<le> length ?buffer" "index' \<le> stop - ?k" using r(5) by (auto split: if_splits)
  have "tracks s (t'\<lparr>rt_carry := drop index' ?buffer\<rparr>)" using r(2) by (simp add: tracks_def Let_def)
  moreover have "drop index' ?buffer = drop (?k + index') (fed @ bytes)" unfolding buf drop_drop by (simp only: add.commute)
  moreover have "?k + index' \<le> length (fed @ bytes)" using idx(1) carry by simp
  ultimately have "follows s (fed @ bytes) (t'\<lparr>rt_carry := drop index' ?buffer\<rparr>)"
    using r(3) fed' by (simp add: follows_def)
  then show ?thesis using out r(3,4) idx(2) by (intro exI [of _ "t'\<lparr>rt_carry := drop index' ?buffer\<rparr>"]) auto
qed

lemma finish_until_follows:
  assumes t: "follows s s t"
  shows "\<exists>t'. finish_until notify stop (t, l) = (t', fold notify (map (row_at s) [rt_line t..<rt_line t']) l) \<and>
    follows s s t' \<and> rt_line t \<le> rt_line t' \<and> rt_offset t' = max (rt_offset t) (min (length s) stop)"
proof -
  let ?k = "rt_offset t"
  have carry: "rt_carry t = drop ?k s" "?k \<le> length s" and tr: "tracks s t" using t by (auto simp: follows_def)
  have f: "push_final notify (rt_carry t) i (u, m) = push_byte notify (s ! (?k + i)) (line_break_width (drop (?k + i) s)) (u, m)"
    for i u and m :: 'a
    using carry by (cases "?k + i < length s") (auto simp: push_final_def add.commute)
  obtain index' t' where r: "push_loop (push_final notify (rt_carry t)) (length (rt_carry t)) stop 0 (t, l) =
      (index', t', fold notify (map (row_at s) [rt_line t..<rt_line t']) l)"
    "tracks s t'" "rt_offset t' = ?k + index'" "rt_line t \<le> rt_line t'" "index' = max 0 (min (length (rt_carry t)) (stop - ?k))"
    using push_loop_tracks [of "length (rt_carry t)" s ?k "push_final notify (rt_carry t)" notify t 0 stop l, OF _ _ tr]
      f carry by auto
  have "tracks s (t'\<lparr>rt_carry := drop index' (rt_carry t)\<rparr>)" using r(2) by (simp add: tracks_def Let_def)
  moreover have "finish_until notify stop (t, l) =
      (t'\<lparr>rt_carry := drop index' (rt_carry t)\<rparr>, fold notify (map (row_at s) [rt_line t..<rt_line t']) l)"
    using r(1) by (simp add: finish_until_def Let_def)
  moreover have "?k + index' = max ?k (min (length s) stop)" "?k + index' \<le> length s" using r(5) carry by auto
  ultimately show ?thesis
    using r(3,4) carry by (intro exI [of _ "t'\<lparr>rt_carry := drop index' (rt_carry t)\<rparr>"]) (auto simp: follows_def add.commute)
qed

section \<open>The rows kept around a change\<close>

definition line_of :: "string \<Rightarrow> nat \<Rightarrow> nat" where
  "line_of s off = tp_line (position_of s off)"

lemma line_of_in_row: "in_row s n off \<Longrightarrow> line_of s off = n"
  by (simp add: line_of_def position_of_in_row)

lemma tracks_line: "tracks s t \<Longrightarrow> rt_line t = line_of s (rt_offset t)"
  by (auto simp: tracks_def Let_def line_of_in_row)

lemma row_at_line [simp]: "cr_line (row_at s n) = n"
  by (simp add: row_at_def)

lemma lastn_Nil [simp]: "lastn n [] = []"
  by (simp add: lastn_def)

definition rows_at :: "string \<Rightarrow> nat \<Rightarrow> nat \<Rightarrow> captured_row list" where
  "rows_at s a b = map (row_at s) [a..<b]"

lemma rows_at_snoc: "a \<le> b \<Longrightarrow> rows_at s a (Suc b) = rows_at s a b @ [row_at s b]"
  by (simp add: rows_at_def)

lemma rows_at_empty [simp]: "b \<le> a \<Longrightarrow> rows_at s a b = []"
  by (simp add: rows_at_def)

lemma rows_at_length [simp]: "length (rows_at s a b) = b - a"
  by (simp add: rows_at_def)

text \<open>What is kept of rows \<open>0\<close> to \<open>n\<close> when the change starts in row \<open>first\<close> and ends in row \<open>final\<close>.\<close>

definition kept_rows :: "string \<Rightarrow> nat \<Rightarrow> nat \<Rightarrow> nat \<Rightarrow> preview_rows" where
  "kept_rows s first final n =
     \<lparr>pr_before = lastn 20 (rows_at s 0 first), pr_head = take 24 (rows_at s first (min n (Suc final))),
      pr_tail = lastn 24 (drop 24 (rows_at s first (min n (Suc final)))), pr_after = take 20 (rows_at s (Suc final) n)\<rparr>"

lemma completed_changed:
  assumes "first \<le> n" "n \<le> final" "ps_position S \<noteq> None" "ps_last_taken S \<longrightarrow> n \<le> ps_last_changed S"
  shows "completed S (row_at s n) (kept_rows s first final n) = kept_rows s first final (Suc n)"
proof -
  have m: "min n (Suc final) = n" "min (Suc n) (Suc final) = Suc n" using assms(2) by simp_all
  show ?thesis
  proof (cases "n - first < 24")
    case True
    then show ?thesis
      using assms by (simp add: completed_def kept_rows_def m kMaxShownLines_def rows_at_snoc) auto
  next
    case False
    then have "drop 24 (rows_at s first n @ [row_at s n]) = drop 24 (rows_at s first n) @ [row_at s n]" by simp
    then show ?thesis
      using assms False
      by (simp add: completed_def kept_rows_def m kMaxShownLines_def rows_at_snoc push_bounded_lastn) auto
  qed
qed

lemma completed_before:
  assumes "ps_position S = None"
  shows "completed S (row_at s n) (kept_rows s n n n) = kept_rows s (Suc n) (Suc n) (Suc n)"
  using assms by (simp add: completed_def kept_rows_def kMaxContextLines_def rows_at_snoc push_bounded_lastn)

lemma completed_after:
  assumes "final < n" "ps_position S \<noteq> None" "ps_last_taken S" "ps_last_changed S = final"
  shows "completed S (row_at s n) (kept_rows s first final n) = kept_rows s first final (Suc n)"
proof -
  have m: "min n (Suc final) = Suc final" "min (Suc n) (Suc final) = Suc final" using assms(1) by simp_all
  show ?thesis
    using assms by (simp add: completed_def kept_rows_def m kMaxContextLines_def rows_at_snoc) auto
qed

text \<open>Until a final row is known, every completed row counts as changed.\<close>

lemma kept_rows_final: "n \<le> final \<Longrightarrow> kept_rows s first final n = kept_rows s first n n"
  by (simp add: kept_rows_def)

lemma fold_completed:
  assumes "n \<le> n'"
  shows "ps_position S = None \<Longrightarrow>
      fold (completed S) (map (row_at s) [n..<n']) (kept_rows s n n n) = kept_rows s n' n' n'"
    and "first \<le> n \<Longrightarrow> ps_position S \<noteq> None \<Longrightarrow> \<not> ps_last_taken S \<Longrightarrow>
      fold (completed S) (map (row_at s) [n..<n']) (kept_rows s first n n) = kept_rows s first n' n'"
    and "first \<le> n \<Longrightarrow> ps_position S \<noteq> None \<Longrightarrow> ps_last_taken S \<Longrightarrow> ps_last_changed S = final \<Longrightarrow>
      fold (completed S) (map (row_at s) [n..<n']) (kept_rows s first final n) = kept_rows s first final n'"
  using assms
proof (induction n' rule: dec_induct)
  case (step n')
  case 1 then show ?case using step by (simp add: completed_before)
next
  case (step n')
  case 2
  have "kept_rows s first n' n' = kept_rows s first (Suc n') n'" by (simp add: kept_rows_final [of n' "Suc n'"])
  then show ?case using 2 step completed_changed [of first n' "Suc n'" S s] by simp
next
  case (step n')
  case 3
  have "completed S (row_at s n') (kept_rows s first final n') = kept_rows s first final (Suc n')"
    using completed_changed [of first n' final S s] completed_after [of final n' S s first] 3 step.hyps by (cases "n' \<le> final") auto
  then show ?case using 3 step by simp
qed simp_all

section \<open>One side, from the first byte to the last\<close>

definition at_match :: "string \<Rightarrow> nat \<Rightarrow> snapshot \<Rightarrow> bool" where
  "at_match s i p \<longleftrightarrow> sn_line p = line_of s i \<and> sn_start p = row_start s (line_of s i) \<and>
     sn_length p = length (seen_of_row s (line_of s i) i) \<and> sn_tail p = lastn kFocusTailBytes (seen_of_row s (line_of s i) i)"

definition last_stop :: "nat \<Rightarrow> nat \<Rightarrow> nat" where
  "last_stop i k = (if k = 0 then kNoStop else i + k - 1)"

text \<open>
  The state of a side that tracks \<open>s\<close> with the change at \<open>i\<close>, \<open>k\<close> bytes long: before the match, inside
  the change, or past its last byte.
\<close>

definition side_at :: "string \<Rightarrow> nat \<Rightarrow> nat \<Rightarrow> preview_side \<Rightarrow> bool" where
  "side_at s i k S \<longleftrightarrow>
     (let t = ps_tracker S; off = rt_offset t; n = rt_line t; first = line_of s i; final = line_of s (last_stop i k) in
      ps_last_stop S = last_stop i k \<and>
      (case ps_position S of
         None \<Rightarrow> ps_next_stop S = i \<and> \<not> ps_last_taken S \<and> off \<le> i \<and> ps_rows S = kept_rows s n n n
       | Some p \<Rightarrow> at_match s i p \<and> i \<le> off \<and> first \<le> n \<and>
           (if ps_last_taken S
            then k \<noteq> 0 \<and> last_stop i k \<le> off \<and> ps_next_stop S = kNoStop \<and> ps_last_changed S = final \<and>
              ps_rows S = kept_rows s first final n
            else ps_next_stop S = last_stop i k \<and> off \<le> last_stop i k \<and> ps_rows S = kept_rows s first n n)))"

text \<open>What a run of the tracker up to the next stop did.\<close>

definition ran :: "string \<Rightarrow> preview_side \<Rightarrow> row_tracker \<times> preview_rows \<Rightarrow> bool" where
  "ran s S out \<longleftrightarrow> tracks s (fst out) \<and> rt_line (ps_tracker S) \<le> rt_line (fst out) \<and>
     rt_offset (ps_tracker S) \<le> rt_offset (fst out) \<and>
     (rt_offset (ps_tracker S) \<le> ps_next_stop S \<longrightarrow> rt_offset (fst out) \<le> ps_next_stop S) \<and>
     snd out = fold (completed S) (map (row_at s) [rt_line (ps_tracker S)..<rt_line (fst out)]) (ps_rows S)"

lemma side_at_track:
  assumes "side_at s i k S" "ran s S (f (completed S) (ps_tracker S, ps_rows S))"
  shows "side_at s i k (ps_track f S)"
proof -
  obtain t rows where out: "f (completed S) (ps_tracker S, ps_rows S) = (t, rows)" by fastforce
  have r: "rt_line (ps_tracker S) \<le> rt_line t" "rt_offset (ps_tracker S) \<le> rt_offset t"
    "rt_offset (ps_tracker S) \<le> ps_next_stop S \<longrightarrow> rt_offset t \<le> ps_next_stop S"
    "rows = fold (completed S) (map (row_at s) [rt_line (ps_tracker S)..<rt_line t]) (ps_rows S)"
    using assms(2) by (simp_all add: ran_def out)
  have S': "ps_track f S = S\<lparr>ps_tracker := t, ps_rows := rows\<rparr>" by (simp add: ps_track_def out)
  show ?thesis
  proof (cases "ps_position S")
    case None
    then show ?thesis
      using assms(1) r fold_completed(1) [OF r(1), of S s] by (auto simp: side_at_def Let_def S')
  next
    case (Some p)
    then have n: "line_of s i \<le> rt_line (ps_tracker S)" "ps_position S \<noteq> None" using assms(1) by (auto simp: side_at_def Let_def)
    show ?thesis
    proof (cases "ps_last_taken S")
      case True
      then show ?thesis
        using assms(1) r Some fold_completed(3) [OF r(1) n True] by (auto simp: side_at_def Let_def S')
    next
      case False
      then show ?thesis
        using assms(1) r Some fold_completed(2) [OF r(1) n False, of s] by (auto simp: side_at_def Let_def S')
    qed
  qed
qed

lemma tracks_at_match:
  assumes "tracks s t" shows "at_match s (rt_offset t) (rt_snapshot t)"
proof -
  have "line_of s (rt_offset t) = rt_line t" using tracks_line [OF assms] by simp
  then show ?thesis using assms by (simp add: tracks_def Let_def at_match_def rt_snapshot_def)
qed

lemma tracks_offset: "tracks s t \<Longrightarrow> rt_offset t \<le> length s"
  by (auto simp: tracks_def Let_def in_row_def)

lemma side_at_advance:
  assumes "side_at s i k S" "\<not> ps_waits S" "tracks s (ps_tracker S)" "length s < kNoStop"
  shows "side_at s i k (ps_advance S)"
proof (cases "ps_position S")
  case None
  then have off: "rt_offset (ps_tracker S) = i"
    using assms(1,2) by (auto simp: side_at_def Let_def ps_waits_def)
  moreover have "line_of s i = rt_line (ps_tracker S)" using tracks_line [OF assms(3)] off by simp
  moreover have "i \<le> last_stop i k \<or> k = 0" by (auto simp: last_stop_def)
  moreover have "i \<le> kNoStop" using tracks_offset [OF assms(3)] assms(4) off by simp
  ultimately show ?thesis
    using assms None tracks_at_match [OF assms(3)] by (auto simp: side_at_def Let_def ps_advance_def last_stop_def)
next
  case (Some p)
  then have st: "\<not> ps_last_taken S" "rt_offset (ps_tracker S) = last_stop i k" "last_stop i k \<noteq> kNoStop"
    using assms(1,2) by (auto simp: side_at_def Let_def ps_waits_def split: if_splits)
  moreover have "line_of s (last_stop i k) = rt_line (ps_tracker S)" using tracks_line [OF assms(3)] st by simp
  moreover have "k \<noteq> 0" using st(3) by (cases "k = 0") (simp_all add: last_stop_def)
  ultimately show ?thesis using assms(1) Some by (auto simp: side_at_def Let_def ps_advance_def)
qed

lemma feed_ran:
  assumes "follows s fed (ps_tracker S)" "prefix (fed @ bytes) s"
  defines "out \<equiv> feed_until (completed S) bytes (ps_next_stop S) (ps_tracker S, ps_rows S)"
  shows "ran s S out" "follows s (fed @ bytes) (fst out)"
  using feed_until_follows [OF assms(1,2), of "completed S" "ps_next_stop S" "ps_rows S"]
  by (auto simp: ran_def out_def follows_def)

lemma finish_ran:
  assumes "follows s s (ps_tracker S)"
  defines "out \<equiv> finish_until (completed S) (ps_next_stop S) (ps_tracker S, ps_rows S)"
  shows "ran s S out" "follows s s (fst out)"
    "rt_offset (fst out) = max (rt_offset (ps_tracker S)) (min (length s) (ps_next_stop S))"
  using finish_until_follows [OF assms(1), of "completed S" "ps_next_stop S" "ps_rows S"]
  by (auto simp: ran_def out_def follows_def)

lemma ps_track_tracker [simp]: "ps_tracker (ps_track f S) = fst (f (completed S) (ps_tracker S, ps_rows S))"
  by (simp add: ps_track_def split: prod.split)

lemma ps_advance_keeps [simp]:
  "ps_tracker (ps_advance S) = ps_tracker S" "ps_middle (ps_advance S) = ps_middle S"
  by (simp_all add: ps_advance_def)

lemma ps_feed_side:
  assumes "side_at s i k S" "follows s fed (ps_tracker S)" "prefix (fed @ bytes) s" "length s < kNoStop"
  shows "side_at s i k (ps_feed bytes S) \<and> follows s (fed @ bytes) (ps_tracker (ps_feed bytes S)) \<and>
    ps_middle (ps_feed bytes S) = ps_middle S"
  using assms(1-3)
proof (induction bytes S arbitrary: fed rule: ps_feed.induct)
  case (1 bytes S)
  let ?S1 = "ps_track (\<lambda>notify. feed_until notify bytes (ps_next_stop S)) S"
  have ran: "ran s S (feed_until (completed S) bytes (ps_next_stop S) (ps_tracker S, ps_rows S))"
    and fol: "follows s (fed @ bytes) (ps_tracker ?S1)"
    using feed_ran [OF "1.prems"(2,3)] by simp_all
  have side: "side_at s i k ?S1" by (rule side_at_track [OF "1.prems"(1)]) (use ran in simp)
  show ?case
  proof (cases "ps_waits ?S1")
    case True
    then show ?thesis using side fol by (subst (1 2 3) ps_feed.simps) (simp add: Let_def)
  next
    case False
    have "side_at s i k (ps_advance ?S1)"
      by (rule side_at_advance [OF side False _ assms(4)]) (use fol in \<open>simp add: follows_def\<close>)
    then have "side_at s i k (ps_feed [] (ps_advance ?S1)) \<and> follows s (fed @ bytes) (ps_tracker (ps_feed [] (ps_advance ?S1))) \<and>
        ps_middle (ps_feed [] (ps_advance ?S1)) = ps_middle S"
      using "1.IH" [OF refl False, of "fed @ bytes"] fol "1.prems"(3) by simp
    then show ?thesis using False by (subst (1 2 3) ps_feed.simps) (simp add: Let_def)
  qed
qed

text \<open>At the end of the text both stops have been reached.\<close>

lemma ps_settle_side:
  assumes "side_at s i k S" "follows s s (ps_tracker S)" "length s < kNoStop" "i + k \<le> length s"
  shows "side_at s i k (ps_settle S) \<and> follows s s (ps_tracker (ps_settle S)) \<and> ps_middle (ps_settle S) = ps_middle S \<and>
    ps_position (ps_settle S) \<noteq> None \<and> (k \<noteq> 0 \<longrightarrow> ps_last_taken (ps_settle S))"
  using assms(1,2)
proof (induction S rule: ps_settle.induct)
  case (1 S)
  let ?cond = "ps_next_stop S \<noteq> kNoStop \<and> rt_offset (ps_tracker S) < ps_next_stop S"
  let ?S1 = "if ?cond then ps_track (\<lambda>notify. finish_until notify (ps_next_stop S)) S else S"
  note ran = finish_ran [OF "1.prems"(2)]
  have side: "side_at s i k ?S1"
    using "1.prems"(1) side_at_track [OF "1.prems"(1), of "\<lambda>notify. finish_until notify (ps_next_stop S)"] ran(1) by simp
  have fol: "follows s s (ps_tracker ?S1)" using "1.prems"(2) ran(2) by simp
  have off: "rt_offset (ps_tracker ?S1) = (if ?cond then min (length s) (ps_next_stop S) else rt_offset (ps_tracker S))"
    using ran(3) tracks_offset [of s "ps_tracker S"] "1.prems"(2) by (auto simp: follows_def)
  show ?case
  proof (cases "ps_waits ?S1")
    case True
    have stop: "ps_next_stop S = i \<or> ps_next_stop S = last_stop i k \<and> k \<noteq> 0 \<Longrightarrow> ps_next_stop S \<le> length s \<and> ps_next_stop S \<noteq> kNoStop"
      using assms(3,4) by (auto simp: last_stop_def)
    have reached: "ps_next_stop S = kNoStop \<or> \<not> ps_next_stop S \<le> length s \<or> rt_offset (ps_tracker S) > ps_next_stop S"
      using True off by (auto simp: ps_waits_def split: if_splits)
    have pos: "ps_position S \<noteq> None"
    proof
      assume "ps_position S = None"
      then have "ps_next_stop S = i" "rt_offset (ps_tracker S) \<le> i" using "1.prems"(1) by (auto simp: side_at_def Let_def)
      then show False using stop reached by auto
    qed
    moreover have "ps_last_taken S" if "k \<noteq> 0"
    proof (rule ccontr)
      assume "\<not> ps_last_taken S"
      then have "ps_next_stop S = last_stop i k" "rt_offset (ps_tracker S) \<le> last_stop i k"
        using "1.prems"(1) pos by (auto simp: side_at_def Let_def)
      then show False using stop reached that by auto
    qed
    ultimately show ?thesis
      using True side fol by (subst (1 2 3 4 5) ps_settle.simps) (simp add: Let_def)
  next
    case False
    have "side_at s i k (ps_advance ?S1)"
      by (rule side_at_advance [OF side False _ assms(3)]) (use fol in \<open>simp add: follows_def\<close>)
    note ih = "1.IH" [OF refl False this]
    have step: "ps_settle S = ps_settle (ps_advance ?S1)" using False by (subst ps_settle.simps) (simp only: Let_def if_False)
    show ?thesis using ih fol unfolding step by simp
  qed
qed

lemma current_row_last:
  assumes "tracks s t" "rt_offset t = length s"
  shows "rt_line t = length (split_rows s) - 1 \<and> current_row t = row_at s (rt_line t)"
proof -
  let ?n = "rt_line t"
  have n: "in_row s ?n (length s)" using assms by (auto simp: tracks_def Let_def)
  have last: "\<not> Suc ?n < length (split_rows s)"
  proof
    assume "Suc ?n < length (split_rows s)"
    then have "length s < row_start s (Suc ?n)" using n by (simp add: in_row_def)
    then show False using row_start_le [of s "Suc ?n"] by simp
  qed
  have lt: "?n < length (split_rows s)" using n by (simp add: in_row_def)
  have "seen_of_row s ?n (length s) = fst (split_rows s ! ?n)"
    using last_row_end(1) [OF lt last] by (simp add: seen_of_row_def)
  then show ?thesis using assms lt last by (auto simp: tracks_def Let_def current_row_def row_at_def)
qed

text \<open>The finished side: the snapshot at the match, the last changed line, and the rows kept.\<close>

lemma ps_finish_side:
  assumes "side_at s i k S" "follows s s (ps_tracker S)" "length s < kNoStop" "i + k \<le> length s"
  defines "S' \<equiv> ps_assume_last_changed (ps_finish S)" and "N \<equiv> length (split_rows s)"
  shows "\<exists>p. ps_position S' = Some p \<and> at_match s i p" "ps_total_lines S' = N" "ps_middle S' = ps_middle S"
    "ps_last_changed S' = (if k = 0 then line_of s i else line_of s (i + k - 1))"
    "ps_rows S' = kept_rows s (line_of s i) (if k = 0 then N else line_of s (i + k - 1)) N"
    "ps_position (ps_finish S) = ps_position S'" "ps_total_lines (ps_finish S) = N"
proof -
  let ?S = "ps_settle S"
  note st = ps_settle_side [OF assms(1-4)]
  then obtain p where p: "ps_position ?S = Some p" by auto
  let ?t = "ps_tracker ?S" and ?rows = "ps_rows ?S"
  obtain t where t: "finish_until (completed ?S) kNoStop (?t, ?rows) =
      (t, fold (completed ?S) (map (row_at s) [rt_line ?t..<rt_line t]) ?rows)" "follows s s t" "rt_line ?t \<le> rt_line t"
    "rt_offset t = max (rt_offset ?t) (min (length s) kNoStop)"
    using finish_until_follows [of s ?t "completed ?S" kNoStop ?rows] st by auto
  have "rt_offset t = length s" using t(2,4) assms(3) tracks_offset [of s ?t] st by (auto simp: follows_def)
  then have last: "rt_line t = N - 1" "current_row t = row_at s (rt_line t)"
    using current_row_last [of s t] t(2) by (auto simp: follows_def N_def)
  have N: "Suc (rt_line t) = N" using last(1) by (cases "split_rows s") (auto simp: N_def)
  have upt: "[rt_line ?t..<N] = [rt_line ?t..<rt_line t] @ [rt_line t]" using t(3) N [symmetric] by simp
  have fin: "ps_finish S = ?S\<lparr>ps_tracker := t, ps_rows := fold (completed ?S) (map (row_at s) [rt_line ?t..<N]) ?rows\<rparr>"
    by (simp add: ps_finish_def ps_track_def rt_finish_def t(1) last(2) upt)
  have le: "rt_line ?t \<le> N" using t(3) N by simp
  have n: "line_of s i \<le> rt_line ?t" "ps_position ?S \<noteq> None" using st p by (auto simp: side_at_def Let_def)
  have fold: "fold (completed ?S) (map (row_at s) [rt_line ?t..<N]) ?rows =
      kept_rows s (line_of s i) (if k = 0 then N else line_of s (i + k - 1)) N"
  proof (cases "ps_last_taken ?S")
    case True
    then show ?thesis using st p fold_completed(3) [OF le n True] by (auto simp: side_at_def Let_def last_stop_def)
  next
    case False
    then show ?thesis using st p fold_completed(2) [OF le n False, of s] by (auto simp: side_at_def Let_def)
  qed
  show "\<exists>p. ps_position S' = Some p \<and> at_match s i p" "ps_total_lines S' = N" "ps_middle S' = ps_middle S"
    "ps_last_changed S' = (if k = 0 then line_of s i else line_of s (i + k - 1))"
    "ps_rows S' = kept_rows s (line_of s i) (if k = 0 then N else line_of s (i + k - 1)) N"
    "ps_position (ps_finish S) = ps_position S'" "ps_total_lines (ps_finish S) = N"
    using st p N fold
    by (auto simp: S'_def fin ps_assume_last_changed_def ps_total_lines_def side_at_def Let_def at_match_def last_stop_def split: if_splits)
qed

section \<open>Focus windows\<close>

lemma clip_piece_append:
  assumes "col \<le> till"
  shows "clip_piece col till a off @ clip_piece col till b (off + length a) = clip_piece col till (a @ b) off"
proof -
  have clip: "clip_piece col till p off = take (till - max col off) (drop (max col off - off) p)" if "off \<le> till" for p off
    using that by (auto simp: clip_piece_def substr_def Let_def min_def max_def)
  show ?thesis
  proof (cases "off \<le> till")
    case off: True
    show ?thesis
    proof (cases "off + length a \<le> till")
      case True
      then show ?thesis
        by (cases "col \<le> off"; cases "col \<le> off + length a") (auto simp: clip [OF off] clip [OF True] max_def add.commute)
    next
      case False
      then have "clip_piece col till b (off + length a) = []" using assms by (simp add: clip_piece_def Let_def)
      then show ?thesis using False assms by (auto simp: clip [OF off] max_def)
    qed
  qed (auto simp: clip_piece_def Let_def)
qed

text \<open>
  Pieces laid end to end from column \<open>off\<close> give the window of a row whose content they agree with.
\<close>

lemma clip_window:
  assumes "off \<le> col" "col < till" "till \<le> length c" "take till (y @ piece) = take till c" "length y = off"
  shows "clip_piece col till piece off = take (till - col) (drop col c)"
proof -
  have len: "till \<le> off + length piece" using arg_cong [OF assms(4), of length] assms(3,5) by simp
  have "clip_piece col till piece off = take (till - col) (drop (col - off) piece)"
    using assms(1,2) len by (auto simp: clip_piece_def substr_def Let_def min_def max_def)
  also have "\<dots> = drop col (take till (y @ piece))" using assms(1,2,5) by (simp add: drop_take min_def)
  also have "\<dots> = take (till - col) (drop col c)" unfolding assms(4) by (simp add: drop_take)
  finally show ?thesis .
qed

lemma row_content_rest:
  assumes "n < length (split_rows s)" "m \<le> length (fst (split_rows s ! n))"
  shows "take (length (fst (split_rows s ! n)) - m) (drop (row_start s n + m) s) = drop m (fst (split_rows s ! n))"
  using row_content_window [of n s m "length (fst (split_rows s ! n)) - m"] assms by (simp add: substr_def)

text \<open>The text around the change: the middle, then what the suffix capture holds of the rest.\<close>

lemma take_captured:
  assumes "x \<le> length a + kSuffixCaptureBytes"
  shows "take x (a @ take kSuffixCaptureBytes z) = take x (a @ z)"
  using assms by (simp add: min_def)

text \<open>An offset lies at most two bytes past the content of its row, inside the terminator.\<close>

lemma row_columns:
  assumes "in_row s n off" shows "off - row_start s n \<le> length (fst (split_rows s ! n)) + 2"
proof (cases "Suc n < length (split_rows s)")
  case True
  have n: "n < length (split_rows s)" using assms by (simp add: in_row_def)
  have "length (snd (split_rows s ! n)) \<le> 3"
    using width_in_row [OF n refl, of "length (fst (split_rows s ! n))"] line_break_width_le3 by (metis le_refl less_irrefl)
  then show ?thesis using assms True inner_row_end(2) [OF True] by (auto simp: in_row_def row_len_def)
next
  case False
  have n: "n < length (split_rows s)" using assms by (simp add: in_row_def)
  show ?thesis using assms last_row_end(1) [OF n False] by (auto simp: in_row_def)
qed

lemma window_first_row:
  fixes s :: string and i k n :: nat and p :: snapshot
  defines "c \<equiv> fst (split_rows s ! n)" and "rs \<equiv> row_start s n"
  assumes m: "at_match s i p" "n = line_of s i" "i + k \<le> length s" and fw: "col = focus_window_start (length c) (i - rs)" "col > 0"
  shows "window_of p (take k (drop i s)) i (take kSuffixCaptureBytes (drop (i + k) s)) (row_at s n) col =
    take kRowWindowBytes (drop col c)"
proof -
  let ?mid = "take k (drop i s)" and ?suf = "take kSuffixCaptureBytes (drop (i + k) s)"
  have inr: "in_row s n i" using position_of_row [of i s] m(2,3) by (simp add: line_of_def)
  then have n: "n < length (split_rows s)" "rs \<le> i" by (auto simp: in_row_def rs_def)
  have f: "length c > 512" "i - rs > 128" "col = i - rs - 128"
    using fw by (auto simp: focus_window_start_def kMaxLineDisplayBytes_def split: if_splits)
  define seen where "seen = take (i - rs) c"
  have p: "sn_length p = length seen" "sn_tail p = lastn 132 seen"
    using m(1,2) by (simp_all add: at_match_def seen_of_row_def seen_def c_def rs_def kFocusTailBytes_def)
  have over: "i - rs \<le> length c + 2"
    using row_columns [OF inr] by (simp add: rs_def c_def)
  define off where "off = length seen - 132"
  have tail: "lastn 132 seen = drop off seen" by (simp add: lastn_def off_def)
  define till where "till = min (length c) (col + kRowWindowBytes)"
  have lt: "col < till" using f over by (auto simp: till_def kRowWindowBytes_def kMaxLineDisplayBytes_def)
  have offs: "off \<le> col" "off + length (drop off seen) = length seen" using f over by (auto simp: off_def seen_def min_def)
  have avail: "min (length seen) (length (lastn 132 seen)) = length (lastn 132 seen)" "length seen - length (lastn 132 seen) = off"
    by (simp_all add: off_def min_def)
  have rsi: "rs < i" and off_eq: "length seen - (length seen - off) = off" using f(2) by (simp_all add: off_def)
  have w: "window_of p ?mid i ?suf (row_at s n) col =
      clip_piece col till (drop off seen) off @ clip_piece col till ?mid (length seen) @ clip_piece col till ?suf (length seen + length ?mid)"
    using lt rsi off_eq unfolding window_of_def Let_def p
    by (simp add: row_at_def rs_def [symmetric] c_def [symmetric] till_def [symmetric] avail tail)
  also have "\<dots> = clip_piece col till (drop off seen @ ?mid @ ?suf) off"
    using clip_piece_append [of col till "drop off seen" off "?mid @ ?suf"] clip_piece_append [of col till ?mid "length seen" ?suf]
      lt offs(2) by simp
  also have "\<dots> = take (till - col) (drop col c)"
  proof (rule clip_window [OF offs(1) lt])
    show "till \<le> length c" by (simp add: till_def)
    show "length (take off seen) = off" by (simp add: off_def)
    have "take till (seen @ ?mid @ ?suf) = take till c"
    proof (cases "i - rs \<le> length c")
      case True
      have "drop i s = ?mid @ drop (i + k) s" using append_take_drop_id [of k "drop i s"] by (simp add: add.commute)
      then have rest: "drop (i - rs) c = take (length c - (i - rs)) (?mid @ drop (i + k) s)"
        using row_content_rest [OF n(1), of "i - rs"] True n(2) by (simp add: c_def rs_def)
      have x: "min (till - (i - rs)) (length c - (i - rs)) = till - (i - rs)" by (simp add: till_def)
      have "till - (i - rs) \<le> length ?mid + kSuffixCaptureBytes"
        using f by (auto simp: till_def kSuffixCaptureBytes_def kRowWindowBytes_def kMaxLineDisplayBytes_def)
      then have "take (till - (i - rs)) (?mid @ ?suf) = take (till - (i - rs)) (drop (i - rs) c)"
        unfolding rest take_take x by (rule take_captured)
      moreover have "till \<ge> i - rs" using lt f True by (auto simp: till_def kRowWindowBytes_def kMaxLineDisplayBytes_def)
      ultimately have "take till (seen @ ?mid @ ?suf) = take (i - rs) c @ take (till - (i - rs)) (drop (i - rs) c)"
        using True by (simp add: seen_def)
      also have "\<dots> = take till c" using \<open>till \<ge> i - rs\<close> by (metis le_add_diff_inverse take_add)
      finally show ?thesis .
    next
      case False
      then show ?thesis by (simp add: seen_def till_def)
    qed
    then show "take till (take off seen @ drop off seen @ ?mid @ ?suf) = take till c" by (metis append.assoc append_take_drop_id)
  qed
  also have "\<dots> = take kRowWindowBytes (drop col c)" by (simp add: till_def min_def)
  finally show ?thesis .
qed

lemma window_last_row:
  fixes s :: string and i k n :: nat and p :: snapshot
  defines "c \<equiv> fst (split_rows s ! n)" and "rs \<equiv> row_start s n"
  assumes k: "0 < k" "i + k \<le> length s" "n = line_of s (i + k - 1)" "i < rs"
    and fw: "col = focus_window_start (length c) (i + k - 1 - rs)" "col > 0"
  shows "window_of p (take k (drop i s)) i (take kSuffixCaptureBytes (drop (i + k) s)) (row_at s n) col =
    take kRowWindowBytes (drop col c)"
proof -
  let ?mid = "take k (drop i s)" and ?suf = "take kSuffixCaptureBytes (drop (i + k) s)"
  have inr: "in_row s n (i + k - 1)" using position_of_row [of "i + k - 1" s] k by (simp add: line_of_def)
  then have n: "n < length (split_rows s)" "rs \<le> i + k - 1" by (auto simp: in_row_def rs_def)
  have f: "length c > 512" "i + k - 1 - rs > 128" "col = i + k - 1 - rs - 128"
    using fw by (auto simp: focus_window_start_def kMaxLineDisplayBytes_def split: if_splits)
  have over: "i + k - 1 - rs \<le> length c + 2"
    using row_columns [OF inr] by (simp add: rs_def c_def)
  define till where "till = min (length c) (col + kRowWindowBytes)"
  have lt: "col < till" using f over by (auto simp: till_def kRowWindowBytes_def kMaxLineDisplayBytes_def)
  let ?rest = "drop (rs - i) ?mid"
  have mlen: "length ?mid = k" "rs - i < k" using k n by auto
  have w: "window_of p ?mid i ?suf (row_at s n) col = clip_piece col till ?rest 0 @ clip_piece col till ?suf (length ?rest)"
    using lt k(4) mlen unfolding window_of_def Let_def
    by (simp add: row_at_def rs_def [symmetric] c_def [symmetric] till_def [symmetric] clip_piece_def)
  also have "\<dots> = clip_piece col till (?rest @ ?suf) 0"
    using clip_piece_append [of col till ?rest 0 ?suf] lt by simp
  also have "\<dots> = take (till - col) (drop col c)"
  proof (rule clip_window [OF _ lt, where y = "[]"])
    show "till \<le> length c" by (simp add: till_def)
    have split: "drop i s = ?mid @ drop (i + k) s" using append_take_drop_id [of k "drop i s"] by (simp add: add.commute)
    have "drop rs s = drop (rs - i) (drop i s)" using k(4) by simp
    also have "\<dots> = drop (rs - i) (?mid @ drop (i + k) s)" by (rule arg_cong [OF split])
    also have "\<dots> = ?rest @ drop (i + k) s"
      using mlen by (simp only: drop_append mlen(1)) simp
    finally have "drop rs s = ?rest @ drop (i + k) s" .
    then have ceq: "take (length c) (?rest @ drop (i + k) s) = c"
      using row_content_rest [OF n(1), of 0] by (simp add: c_def rs_def)
    have "take till (?rest @ drop (i + k) s) = take till (take (length c) (?rest @ drop (i + k) s))"
      unfolding take_take by (simp add: till_def)
    then have "take till (?rest @ drop (i + k) s) = take till c" by (simp only: ceq)
    moreover have "till \<le> length ?rest + kSuffixCaptureBytes"
      using f mlen k(4) by (auto simp: till_def kSuffixCaptureBytes_def kRowWindowBytes_def kMaxLineDisplayBytes_def)
    ultimately show "take till ([] @ ?rest @ ?suf) = take till c" using take_captured [of till ?rest "drop (i + k) s"] by simp
  qed simp_all
  also have "\<dots> = take kRowWindowBytes (drop col c)" by (simp add: till_def min_def)
  finally show ?thesis .
qed

section \<open>The captured table as a row cursor\<close>

text \<open>A captured row agrees with the text, and has the row's focus window if there is one.\<close>

definition good_row :: "string \<Rightarrow> (nat \<Rightarrow> nat) \<Rightarrow> captured_row \<Rightarrow> bool" where
  "good_row s window r \<longleftrightarrow>
     (let n = cr_line r; c = fst (split_rows s ! n) in
      cr_start r = row_start s n \<and> cr_length r = length c \<and> cr_head r = take kRowWindowBytes c \<and>
      (window n = 0 \<or> cr_window_from r = window n \<and> cr_window r = take kRowWindowBytes (drop (window n) c)))"

definition table_for :: "string \<Rightarrow> nat set \<Rightarrow> (nat \<Rightarrow> nat) \<Rightarrow> captured_row list \<Rightarrow> bool" where
  "table_for s shown window rows \<longleftrightarrow> sorted_wrt (<) (map cr_line rows) \<and> (\<forall>r\<in>set rows. good_row s window r) \<and>
     shown \<subseteq> cr_line ` set rows"

definition tc_ready :: "string \<Rightarrow> nat set \<Rightarrow> (nat \<Rightarrow> nat) \<Rightarrow> nat \<Rightarrow> table_cursor \<Rightarrow> bool" where
  "tc_ready s shown window m c \<longleftrightarrow> table_for s shown window (tc_rows c) \<and>
     (\<forall>j<tc_index c. j < length (tc_rows c) \<longrightarrow> cr_line (tc_rows c ! j) < m)"

definition tc_at :: "string \<Rightarrow> nat set \<Rightarrow> (nat \<Rightarrow> nat) \<Rightarrow> nat \<Rightarrow> table_cursor \<Rightarrow> bool" where
  "tc_at s shown window n c \<longleftrightarrow> table_for s shown window (tc_rows c) \<and> tc_index c < length (tc_rows c) \<and> cr_line (tc_row c) = n"

lemma tc_skip_spec:
  assumes "sorted_wrt (<) (map cr_line (tc_rows c))" "j < length (tc_rows c)" "cr_line (tc_rows c ! j) = n" "tc_index c \<le> j"
  shows "tc_skip n c = c\<lparr>tc_index := j\<rparr>"
  using assms
proof (induction n c rule: tc_skip.induct)
  case (1 n c)
  show ?case
  proof (cases "tc_index c = j")
    case True then show ?thesis using "1.prems" by (subst tc_skip.simps) simp
  next
    case False
    then have lt: "tc_index c < j" using "1.prems"(4) by simp
    have less: "cr_line (tc_rows c ! tc_index c) < n"
      using sorted_wrt_nth_less [OF "1.prems"(1), of "tc_index c" j] lt "1.prems"(2,3) by simp
    then have "tc_skip n (c\<lparr>tc_index := tc_index c + 1\<rparr>) = c\<lparr>tc_index := j\<rparr>"
      using "1.IH" "1.prems" lt by simp
    then show ?thesis using less lt "1.prems"(2) by (subst tc_skip.simps) simp
  qed
qed

interpretation captured: row_cursor table_ops s "tc_at s shown window" "tc_ready s shown window" "\<lambda>n. n \<in> shown" window
  for s shown window
proof
  fix m n :: nat and c
  assume c: "tc_ready s shown window m c" "m \<le> n" "n \<in> shown"
  then have t: "table_for s shown window (tc_rows c)" by (simp add: tc_ready_def)
  then obtain r where "r \<in> set (tc_rows c)" "cr_line r = n" using c(3) by (auto simp: table_for_def)
  then obtain j where j: "j < length (tc_rows c)" "cr_line (tc_rows c ! j) = n" by (auto simp: in_set_conv_nth)
  have "tc_index c \<le> j"
  proof (rule ccontr)
    assume "\<not> tc_index c \<le> j"
    then have "cr_line (tc_rows c ! j) < m" using c(1) j(1) by (simp add: tc_ready_def)
    then show False using c(2) j(2) by simp
  qed
  then have "tc_skip n c = c\<lparr>tc_index := j\<rparr>" using tc_skip_spec j t by (simp add: table_for_def)
  then show "\<exists>c'. cu_seek table_ops n c = Inr c' \<and> tc_at s shown window n c'"
    using j t by (simp add: table_ops_def tc_seek_def Let_def tc_at_def tc_row_def)
next
  fix n and c
  assume c: "tc_at s shown window n c"
  then have sorted: "sorted_wrt (<) (map cr_line (tc_rows c))" and good: "good_row s window (tc_row c)"
    by (auto simp: tc_at_def table_for_def tc_row_def)
  have "cr_line (tc_rows c ! j) < n" if "j < tc_index c" for j
    using sorted_wrt_nth_less [OF sorted, of j "tc_index c"] that c by (simp add: tc_at_def tc_row_def)
  then show "tc_ready s shown window n c" using c by (simp add: tc_ready_def tc_at_def)
  have n: "cr_line (tc_row c) = n" using c by (simp add: tc_at_def)
  note g = good [unfolded good_row_def Let_def n]
  show "cu_start table_ops c = row_start s n" "cu_length table_ops c = length (fst (split_rows s ! n))"
    unfolding table_ops_def cursor_ops.select_convs using g by blast+
  show "cu_content table_ops col c = take kRowWindowBytes (drop col (fst (split_rows s ! n)))" if col: "col = 0 \<or> col = window n" for col
  proof (cases "col = 0")
    case True then show ?thesis unfolding table_ops_def cursor_ops.select_convs tc_content_def using g by simp
  next
    case False
    then have "cr_window_from (tc_row c) = col" "cr_window (tc_row c) = take kRowWindowBytes (drop col (fst (split_rows s ! n)))"
      using g col by auto
    then show ?thesis unfolding table_ops_def cursor_ops.select_convs tc_content_def using False by simp
  qed
qed

lemma TableCursor_ready: "table_for s shown window rows \<Longrightarrow> tc_ready s shown window m (TableCursor rows)"
  by (simp add: tc_ready_def TableCursor_def)

section \<open>The table covers the excerpt\<close>

lemma good_row_at: "window n = 0 \<Longrightarrow> good_row s window (row_at s n)"
  by (simp add: good_row_def row_at_def Let_def)

lemma focus_row_keeps [simp]:
  "cr_line (focus_row p middle final i suf r) = cr_line r" "cr_start (focus_row p middle final i suf r) = cr_start r"
  "cr_length (focus_row p middle final i suf r) = cr_length r" "cr_head (focus_row p middle final i suf r) = cr_head r"
  by (simp_all add: focus_row_def Let_def split: option.split)

text \<open>The last changed line, as \<^verbatim>\<open>excerpt_range\<close> and the capture have it.\<close>

definition last_line :: "string \<Rightarrow> nat \<Rightarrow> nat \<Rightarrow> nat" where
  "last_line s i k = (if k = 0 then line_of s i else line_of s (i + k - 1))"

lemma excerpt_range_lines:
  "excerpt_range s i k ctx = range_for (length (split_rows s)) (line_of s i) (last_line s i k) ctx"
  by (simp add: excerpt_range_def range_for_def Let_def count_lines_rows line_of_def last_line_def)

lemma line_of_row: "off \<le> length s \<Longrightarrow> in_row s (line_of s off) off"
  unfolding line_of_def by (rule position_of_row)

lemma line_of_mono: "a \<le> b \<Longrightarrow> b \<le> length s \<Longrightarrow> line_of s a \<le> line_of s b"
  using in_row_mono [OF line_of_row line_of_row] by simp

lemma focus_row_good:
  fixes s :: string and i k ctx :: nat
  assumes p: "at_match s i p" and k: "i + k \<le> length s"
  defines "W \<equiv> row_window s (excerpt_range s i k ctx) i k"
  shows "good_row s W (focus_row p (take k (drop i s)) (last_line s i k) i (take kSuffixCaptureBytes (drop (i + k) s)) (row_at s n))"
    (is "good_row s W (focus_row p ?mid _ i ?suf _)")
proof -
  let ?c = "fst (split_rows s ! n)" and ?rs = "row_start s n"
  have first: "sn_line p = line_of s i" using p by (simp add: at_match_def)
  have mid: "?mid = [] \<longleftrightarrow> k = 0" "length ?mid = k" using k by auto
  have W: "W n = focus_window_start (length ?c)
      (if n = line_of s i then i - ?rs else if n = last_line s i k \<and> k > 0 then i + k - 1 - ?rs else 0)"
    by (auto simp: W_def row_window_def focus_of_def excerpt_range_lines range_for_def Let_def)
  show ?thesis
  proof (cases "W n = 0")
    case True
    then show ?thesis unfolding good_row_def Let_def by (simp add: row_at_def)
  next
    case False
    then have in_change: "n = line_of s i \<or> n = last_line s i k \<and> k > 0"
      unfolding W by (auto simp: focus_window_start_def split: if_splits)
    show ?thesis
    proof (cases "n = line_of s i")
      case True
      then have w: "W n = focus_window_start (length ?c) (i - ?rs)" using W by simp
      have "window_of p ?mid i ?suf (row_at s n) (W n) = take kRowWindowBytes (drop (W n) ?c)"
        by (rule window_first_row [OF p True k w]) (use False in simp)
      then show ?thesis
        using True first False w by (simp add: focus_row_def Let_def good_row_def row_at_def)
    next
      case ne: False
      then have n: "n = line_of s (i + k - 1)" "0 < k" using in_change by (auto simp: last_line_def)
      then have w: "W n = focus_window_start (length ?c) (i + k - 1 - ?rs)" using ne W by (simp add: last_line_def)
      have "in_row s n (i + k - 1)" using line_of_row [of "i + k - 1" s] n k by simp
      then have rs: "?rs \<le> i + k - 1" by (simp add: in_row_def)
      have "i < ?rs"
      proof (rule ccontr)
        assume "\<not> i < ?rs"
        then have "in_row s n i" using \<open>in_row s n (i + k - 1)\<close> n(2) by (auto simp: in_row_def)
        then show False using ne line_of_in_row by blast
      qed
      then have "window_of p ?mid i ?suf (row_at s n) (W n) = take kRowWindowBytes (drop (W n) ?c)"
        by (intro window_last_row [OF n(2) k n(1) _ w]) (use False in auto)
      moreover have "sn_line p \<noteq> n" "last_line s i k = n" "(if ?mid = [] then i else i + length ?mid - 1) = i + k - 1"
        using ne first n mid by (auto simp: last_line_def)
      ultimately show ?thesis
        using False w rs by (simp add: focus_row_def Let_def good_row_def row_at_def)
    qed
  qed
qed

lemma unique_rows_distinct: "distinct (map cr_line rows) \<Longrightarrow> unique_rows rows = rows"
  by (induction rows rule: unique_rows.induct) auto

lemma merge_rows_distinct:
  assumes "distinct (map cr_line rows)"
  shows "sorted_wrt (<) (map cr_line (merge_rows rows))" "set (merge_rows rows) = set rows"
proof -
  have "distinct (map cr_line (sort_key cr_line rows))" using assms by (simp add: distinct_map)
  then have "merge_rows rows = sort_key cr_line rows" "sorted_wrt (<) (map cr_line (sort_key cr_line rows))"
    by (simp_all add: merge_rows_def unique_rows_distinct strict_sorted_iff)
  then show "sorted_wrt (<) (map cr_line (merge_rows rows))" "set (merge_rows rows) = set rows" by simp_all
qed

lemma rows_at_lines: "map cr_line (rows_at s a b) = [a..<b]"
  by (simp add: rows_at_def comp_def)

lemma lastn_map: "lastn n (map f xs) = map f (lastn n xs)"
  by (simp add: lastn_def drop_map)

lemma lastn_upt: "lastn n [a..<b] = [max a (b - n)..<b]"
proof (cases "a \<le> b")
  case True
  then have "a + (b - a - n) = max a (b - n)" unfolding max_def by presburger
  then show ?thesis by (simp add: lastn_def drop_upt)
qed (simp add: lastn_def)

lemma take_upt_min: "take n [a..<b] = [a..<min b (a + n)]"
  by (cases "a + n \<le> b") (auto simp: take_upt min_def)

lemma take_rev_lastn: "take n (rev xs) = rev (lastn n xs)"
  by (simp add: lastn_def take_rev)

text \<open>The lines of the captured table: two ends of the change and the context on both sides.\<close>

lemma capture_lines:
  fixes focus :: "captured_row \<Rightarrow> captured_row" and s :: string and first final N :: nat
  assumes "ctx \<le> 20" and le: "first \<le> Suc final" and "final' \<le> final" "\<And>r. cr_line (focus r) = cr_line r"
  defines "K \<equiv> kept_rows s first final N"
  defines "rows \<equiv> K\<lparr>pr_head := map focus (pr_head K), pr_tail := map focus (pr_tail K)\<rparr>"
    and "M \<equiv> min N (Suc final)"
  shows "sorted_wrt (<) (map cr_line (capture_table rows first final' ctx))"
    "cr_line ` set (capture_table rows first final' ctx) =
      {n. first \<le> n \<and> n < M \<and> (n < first + 24 \<or> M \<le> n + 24)} \<union> {n. n < first \<and> first \<le> n + ctx} \<union>
      {n. final < n \<and> n < N \<and> n \<le> final + ctx}"
    "\<And>r. r \<in> set (capture_table rows first final' ctx) \<Longrightarrow>
      (\<exists>n. r = focus (row_at s n)) \<or> (\<exists>n. r = row_at s n \<and> (n < first \<or> final < n))"
proof -
  let ?R = "rows_at s first M"
  let ?B = "rev (rows_at s (first - ctx) first)" and ?A = "rows_at s (Suc final) (min N (Suc final + ctx))"
  have B: "take ctx (filter (\<lambda>r. \<not> cr_line r \<ge> first) (rev (lastn 20 (rows_at s 0 first)))) = ?B"
  proof -
    have "filter (\<lambda>r. \<not> cr_line r \<ge> first) (rev (lastn 20 (rows_at s 0 first))) = rev (lastn 20 (rows_at s 0 first))"
      by (rule filter_True) (auto simp: lastn_def rows_at_def drop_map dest!: in_set_dropD)
    then show ?thesis
      using assms(1) by (simp add: take_rev_lastn rows_at_def lastn_map lastn_upt max_def)
  qed
  have A: "take ctx (filter (\<lambda>r. \<not> cr_line r \<le> final') (take 20 (rows_at s (Suc final) N))) = ?A"
  proof -
    have "filter (\<lambda>r. \<not> cr_line r \<le> final') (take 20 (rows_at s (Suc final) N)) = take 20 (rows_at s (Suc final) N)"
      using assms(3) by (intro filter_True) (auto simp: rows_at_def take_map dest!: in_set_takeD)
    then show ?thesis using assms(1) by (cases "Suc final + ctx \<le> N") (auto simp: rows_at_def take_map min_def)
  qed
  define all where "all = map focus (take 24 ?R) @ map focus (lastn 24 (drop 24 ?R)) @ ?B @ ?A"
  have table: "capture_table rows first final' ctx = merge_rows all"
    by (simp add: capture_table_def rows_def K_def kept_rows_def all_def M_def B A)
  have lines: "map cr_line all = take 24 [first..<M] @ lastn 24 (drop 24 [first..<M]) @ rev [first - ctx..<first] @
      [Suc final..<min N (Suc final + ctx)]"
  proof -
    have "cr_line \<circ> focus = cr_line" by (rule ext) (simp add: assms(4))
    then show ?thesis
      by (simp add: all_def take_map [symmetric] drop_map [symmetric] lastn_map [symmetric] rev_map [symmetric] rows_at_lines)
  qed
  have ends: "take 24 [first..<M] = [first..<min M (first + 24)]" "lastn 24 (drop 24 [first..<M]) = [max (first + 24) (M - 24)..<M]"
    by (simp_all only: take_upt_min drop_upt lastn_upt)
  have M: "M \<le> Suc final" by (simp add: M_def)
  have "distinct [first..<min M (first + 24)]" "distinct [max (first + 24) (M - 24)..<M]" "distinct (rev [first - ctx..<first])"
    "distinct [Suc final..<min N (Suc final + ctx)]" by simp_all
  moreover have "{first..<min M (first + 24)} \<inter> {max (first + 24) (M - 24)..<M} = {}" by auto
  moreover have "({first..<min M (first + 24)} \<union> {max (first + 24) (M - 24)..<M}) \<inter> {first - ctx..<first} = {}" by auto
  moreover have "({first..<min M (first + 24)} \<union> {max (first + 24) (M - 24)..<M} \<union> {first - ctx..<first}) \<inter>
      {Suc final..<min N (Suc final + ctx)} = {} \<or> \<not> first \<le> Suc final" using M by auto
  ultimately have dist: "distinct (map cr_line all)"
    unfolding lines ends distinct_append set_append set_upt set_rev using le by blast
  note merged = merge_rows_distinct [OF dist, folded table]
  show "sorted_wrt (<) (map cr_line (capture_table rows first final' ctx))" by (rule merged(1))
  have "cr_line ` set (capture_table rows first final' ctx) = set (map cr_line all)" by (simp add: merged(2))
  also have "\<dots> = {n. first \<le> n \<and> n < M \<and> (n < first + 24 \<or> M \<le> n + 24)} \<union> {n. n < first \<and> first \<le> n + ctx} \<union>
      {n. final < n \<and> n < N \<and> n \<le> final + ctx}"
    unfolding lines ends by auto
  finally show "cr_line ` set (capture_table rows first final' ctx) =
      {n. first \<le> n \<and> n < M \<and> (n < first + 24 \<or> M \<le> n + 24)} \<union> {n. n < first \<and> first \<le> n + ctx} \<union>
      {n. final < n \<and> n < N \<and> n \<le> final + ctx}" .
  show "(\<exists>n. r = focus (row_at s n)) \<or> (\<exists>n. r = row_at s n \<and> (n < first \<or> final < n))"
    if "r \<in> set (capture_table rows first final' ctx)" for r
    using that unfolding merged(2) all_def
    by (auto simp: rows_at_def lastn_def drop_map take_map dest!: in_set_takeD in_set_dropD)
qed

section \<open>The preview of one side\<close>

lemma last_line_bounds:
  assumes "i + k \<le> length s"
  shows "line_of s i \<le> last_line s i k" "last_line s i k < length (split_rows s)"
proof -
  have "in_row s (last_line s i k) (if k = 0 then i else i + k - 1)"
    using line_of_row [of i s] line_of_row [of "i + k - 1" s] assms by (auto simp: last_line_def)
  then show "last_line s i k < length (split_rows s)" by (simp add: in_row_def)
  show "line_of s i \<le> last_line s i k" using line_of_mono [of i "i + k - 1" s] assms by (auto simp: last_line_def)
qed

text \<open>Every row the excerpt shows has been captured.\<close>

lemma shown_captured:
  fixes s :: string and i k ctx n :: nat
  assumes "i + k \<le> length s" "ctx \<le> 20"
  defines "rows \<equiv> excerpt_range s i k ctx" and "N \<equiv> length (split_rows s)"
  defines "final \<equiv> if k = 0 then N else last_line s i k"
  assumes "er_first rows \<le> n" "n \<le> er_last rows" "ShownRow n \<in> set (row_items rows n)"
  shows "line_of s i \<le> n \<and> n < min N (Suc final) \<and> (n < line_of s i + 24 \<or> min N (Suc final) \<le> n + 24) \<or>
    n < line_of s i \<and> line_of s i \<le> n + ctx \<or> final < n \<and> n < N \<and> n \<le> final + ctx"
proof -
  let ?f = "line_of s i" and ?l = "last_line s i k"
  note lb = last_line_bounds [OF assms(1), folded N_def]
  have r: "er_first rows = (if ?f > ctx then ?f - ctx else 0)" "er_last rows = ?l + min ctx (N - 1 - ?l)"
    by (simp_all add: rows_def excerpt_range_lines range_for_def N_def)
  have shown: "\<not> er_last rows - er_first rows + 1 > 48 \<or> n < er_first rows + 24 \<or> n \<ge> er_last rows - 24 + 1"
    using assms(8) by (auto simp: row_items_def Let_def kMaxShownLines_def split: if_splits)
  have first: "?f \<le> er_first rows + ctx" "er_first rows \<le> ?f" using r(1) by (auto split: if_splits)
  have last: "?l \<le> er_last rows" "er_last rows \<le> ?l + ctx" "er_last rows < N" using r(2) lb by auto
  have n: "er_first rows \<le> n" "n \<le> er_last rows" by fact+
  show ?thesis
  proof (cases "n < ?f")
    case True then show ?thesis using first n by linarith
  next
    case ge: False
    show ?thesis
    proof (cases "k = 0")
      case True
      then have "?l = ?f" "final = N" by (simp_all add: last_line_def final_def)
      then show ?thesis using ge n last assms(2) by auto
    next
      case False
      then have fin: "final = ?l" "min N (Suc final) = Suc ?l" using lb by (simp_all add: final_def)
      show ?thesis
      proof (cases "n \<le> ?l")
        case True
        then have "n < ?f + 24 \<or> Suc ?l \<le> n + 24" using shown first(2) last(1) ge by linarith
        then show ?thesis using ge True fin by simp
      next
        case gt: False then show ?thesis using fin n last by simp
      qed
    qed
  qed
qed

lemma side_preview:
  fixes s :: string and i k :: nat
  assumes side: "side_at s i k S" "follows s s (ps_tracker S)" "length s < kNoStop" "i + k \<le> length s"
    "ps_middle S = take k (drop i s)"
    and suf: "suf = take kSuffixCaptureBytes (drop (i + k) s)" and ctx: "ctx \<le> kMaxContextLines"
  defines "S' \<equiv> ps_focus_windows i suf (ps_assume_last_changed (ps_finish S))"
  shows "\<exists>p. ps_position (ps_finish S) = Some p \<and> text_pos (sn_line p) (i - sn_start p) = position_of s i"
    "ps_total_lines (ps_finish S) = length (split_rows s)" "ps_last_changed S' = last_line s i k"
    "render_excerpt table_ops (TableCursor (capture_table (ps_rows S') (line_of s i) (last_line s i k) ctx))
       (excerpt_range s i k ctx) width mark i k clipped = Inr (excerpt_of s i k ctx width mark clipped)"
proof -
  let ?N = "length (split_rows s)" and ?T = "ps_assume_last_changed (ps_finish S)"
  note fin = ps_finish_side [OF side(1-4)]
  obtain p where p: "ps_position ?T = Some p" "at_match s i p" using fin(1) by auto
  have "in_row s (line_of s i) i" using line_of_row [of i s] side(4) by simp
  then have "text_pos (sn_line p) (i - sn_start p) = position_of s i"
    using p(2) by (simp add: at_match_def position_of_in_row)
  then show "\<exists>p. ps_position (ps_finish S) = Some p \<and> text_pos (sn_line p) (i - sn_start p) = position_of s i"
    using fin(6) p(1) by auto
  show "ps_total_lines (ps_finish S) = ?N" by (rule fin(7))
  let ?final = "if k = 0 then ?N else last_line s i k"
  let ?K = "kept_rows s (line_of s i) ?final ?N"
  let ?focus = "focus_row p (take k (drop i s)) (last_line s i k) i suf"
  have lastc: "ps_last_changed ?T = last_line s i k" using fin(4) by (simp add: last_line_def)
  then show "ps_last_changed S' = last_line s i k" by (simp add: S'_def ps_focus_windows_def p(1) Let_def)
  have "ps_rows ?T = ?K" using fin(5) by (simp add: last_line_def)
  then have rows: "ps_rows S' = ?K\<lparr>pr_head := map ?focus (pr_head ?K), pr_tail := map ?focus (pr_tail ?K)\<rparr>"
    using fin(3) side(5) lastc by (simp add: S'_def ps_focus_windows_def p(1) Let_def)
  note lb = last_line_bounds [OF side(4)]
  let ?rows = "excerpt_range s i k ctx"
  define W where "W = row_window s ?rows i k"
  define shown where "shown = {n. er_first ?rows \<le> n \<and> n \<le> er_last ?rows \<and> ShownRow n \<in> set (row_items ?rows n)}"
  have c20: "ctx \<le> 20" using ctx by (simp add: kMaxContextLines_def)
  have le: "line_of s i \<le> Suc ?final" "last_line s i k \<le> ?final" using lb by auto
  note lines = capture_lines [where focus = ?focus and s = s and first = "line_of s i" and final = ?final and N = ?N,
      OF c20 le focus_row_keeps(1), folded rows]
  have good: "good_row s W r" if "r \<in> set (capture_table (ps_rows S') (line_of s i) (last_line s i k) ctx)" for r
  proof -
    have "W n = 0" if "n < line_of s i \<or> ?final < n" for n
    proof -
      have "n \<noteq> line_of s i" "\<not> (n = last_line s i k \<and> 0 < k)" using that le lb by (auto split: if_splits)
      then show ?thesis
        by (auto simp: W_def row_window_def focus_of_def excerpt_range_lines range_for_def focus_window_start_def)
    qed
    then show ?thesis
      using lines(3) [OF that] good_row_at [of W _ s] focus_row_good [OF p(2) side(4), where ctx = ctx] by (auto simp: W_def suf)
  qed
  have "shown \<subseteq> cr_line ` set (capture_table (ps_rows S') (line_of s i) (last_line s i k) ctx)"
  proof
    fix n assume "n \<in> shown"
    then have "er_first ?rows \<le> n" "n \<le> er_last ?rows" "ShownRow n \<in> set (row_items ?rows n)" by (simp_all add: shown_def)
    from shown_captured [OF side(4) c20 this]
    show "n \<in> cr_line ` set (capture_table (ps_rows S') (line_of s i) (last_line s i k) ctx)"
      unfolding lines(2) Un_iff mem_Collect_eq by blast
  qed
  then have table: "table_for s shown W (capture_table (ps_rows S') (line_of s i) (last_line s i k) ctx)"
    using lines(1) good by (simp add: table_for_def)
  have "captured.covers s shown W ?rows i k" unfolding captured.covers_def by (simp add: shown_def W_def)
  with table show "render_excerpt table_ops (TableCursor (capture_table (ps_rows S') (line_of s i) (last_line s i k) ctx))
       ?rows width mark i k clipped = Inr (excerpt_of s i k ctx width mark clipped)"
    by (rule captured.render_excerpt_of [OF TableCursor_ready refl le0 excerpt_range_ok(1) [OF side(4)]])
qed

section \<open>Both sides from one pass over the source\<close>

text \<open>
  \<open>pre @ old @ suf\<close> is the source and \<open>pre @ new @ suf\<close> the edited text. After the pass has reached offset
  \<open>q\<close> of the source, both sides have been fed the same way: up to the match, or past the span.
\<close>

definition captured_upto :: "string \<Rightarrow> string \<Rightarrow> string \<Rightarrow> string \<Rightarrow> nat \<Rightarrow> preview_capture \<Rightarrow> bool" where
  "captured_upto pre old new suf q c \<longleftrightarrow>
     (let i = length pre; past = i + length old < q; x = take (q - (i + length old)) suf;
          fed = (\<lambda>mid. if past then pre @ mid @ x else take q pre) in
      pc_match_byte c = i \<and> pc_span_fed c = past \<and> pc_suffix_head c = (if past then take kSuffixCaptureBytes x else []) \<and>
      ps_middle (pc_source c) = old \<and> side_at (pre @ old @ suf) i (length old) (pc_source c) \<and>
      follows (pre @ old @ suf) (fed old) (ps_tracker (pc_source c)) \<and>
      ps_middle (pc_edited c) = new \<and> side_at (pre @ new @ suf) i (length new) (pc_edited c) \<and>
      follows (pre @ new @ suf) (fed new) (ps_tracker (pc_edited c)))"

lemma new_side:
  fixes s mid :: string
  assumes "i + length mid \<le> length s" "length s < kNoStop"
  defines "S \<equiv> ps_start i (PreviewSide mid (length mid))"
  shows "side_at s i (length mid) S \<and> follows s [] (ps_tracker S) \<and> ps_middle S = mid"
proof -
  let ?t = "RowTracker 0"
  have t: "tracks s ?t" "rt_offset ?t = 0" "rt_line ?t = 0" "rt_carry ?t = []" by (simp_all add: tracks_new) (simp_all add: RowTracker_def)
  have l0: "line_of s 0 = 0" using tracks_line [OF t(1)] t by simp
  have m: "at_match s 0 (rt_snapshot ?t)" using tracks_at_match [OF t(1)] t by simp
  have rows: "kept_rows s 0 0 0 = \<lparr>pr_before = [], pr_head = [], pr_tail = [], pr_after = []\<rparr>" by (simp add: kept_rows_def)
  have "ps_tracker S = ?t" "ps_middle S = mid" by (simp_all add: S_def ps_start_def PreviewSide_def ps_advance_def Let_def)
  moreover have "side_at s i (length mid) S"
    using t l0 m rows assms(2)
    by (auto simp: S_def side_at_def ps_start_def PreviewSide_def ps_advance_def Let_def last_stop_def)
  ultimately show ?thesis using t by (simp add: follows_def)
qed

lemma captured_new:
  assumes "length (pre @ old @ suf) < kNoStop" "length (pre @ new @ suf) < kNoStop"
  shows "captured_upto pre old new suf 0 (PreviewCapture (length pre) old new)"
  using new_side [of "length pre" old "pre @ old @ suf"] new_side [of "length pre" new "pre @ new @ suf"] assms
  by (simp add: captured_upto_def PreviewCapture_def Let_def)

text \<open>Between the match and the end of the span nothing is fed.\<close>

lemma captured_skip:
  assumes "captured_upto pre old new suf q c" "length pre \<le> q" "q \<le> q'" "q' \<le> length pre + length old"
  shows "captured_upto pre old new suf q' c"
  using assms by (auto simp: captured_upto_def Let_def)

definition texts_fit :: "string \<Rightarrow> string \<Rightarrow> string \<Rightarrow> string \<Rightarrow> bool" where
  "texts_fit pre old new suf \<longleftrightarrow> length (pre @ old @ suf) < kNoStop \<and> length (pre @ new @ suf) < kNoStop"

lemma feed_both_captured:
  fixes pre old new suf :: string
  assumes "texts_fit pre old new suf"
    and "side_at (pre @ old @ suf) i k (pc_source c)" "follows (pre @ old @ suf) fed (ps_tracker (pc_source c))" "prefix (fed @ bytes) (pre @ old @ suf)"
    and "side_at (pre @ new @ suf) i k' (pc_edited c)" "follows (pre @ new @ suf) fed' (ps_tracker (pc_edited c))" "prefix (fed' @ bytes) (pre @ new @ suf)"
  defines "c' \<equiv> feed_both bytes c"
  shows "side_at (pre @ old @ suf) i k (pc_source c')" "follows (pre @ old @ suf) (fed @ bytes) (ps_tracker (pc_source c'))"
    "side_at (pre @ new @ suf) i k' (pc_edited c')" "follows (pre @ new @ suf) (fed' @ bytes) (ps_tracker (pc_edited c'))"
    "ps_middle (pc_source c') = ps_middle (pc_source c)" "ps_middle (pc_edited c') = ps_middle (pc_edited c)"
    "pc_match_byte c' = pc_match_byte c" "pc_span_fed c' = pc_span_fed c" "pc_suffix_head c' = pc_suffix_head c"
  using ps_feed_side [OF assms(2-4)] ps_feed_side [OF assms(5-7)] assms(1)
  by (simp_all add: c'_def feed_both_def texts_fit_def)

lemma begin_span_captured:
  assumes "texts_fit pre old new suf" "captured_upto pre old new suf q c" "length pre \<le> q"
  defines "i \<equiv> length pre" and "x \<equiv> take (q - (length pre + length old)) suf" and "c' \<equiv> begin_span c"
  shows "side_at (pre @ old @ suf) i (length old) (pc_source c')" "follows (pre @ old @ suf) (pre @ old @ x) (ps_tracker (pc_source c'))"
    "side_at (pre @ new @ suf) i (length new) (pc_edited c')" "follows (pre @ new @ suf) (pre @ new @ x) (ps_tracker (pc_edited c'))"
    "ps_middle (pc_source c') = old" "ps_middle (pc_edited c') = new" "pc_match_byte c' = i" "pc_span_fed c'"
    "pc_suffix_head c' = take kSuffixCaptureBytes x"
proof -
  have fit: "length (pre @ old @ suf) < kNoStop" "length (pre @ new @ suf) < kNoStop" using assms(1) by (simp_all add: texts_fit_def)
  have "side_at (pre @ old @ suf) i (length old) (pc_source c') \<and> follows (pre @ old @ suf) (pre @ old @ x) (ps_tracker (pc_source c')) \<and>
    side_at (pre @ new @ suf) i (length new) (pc_edited c') \<and> follows (pre @ new @ suf) (pre @ new @ x) (ps_tracker (pc_edited c')) \<and>
    ps_middle (pc_source c') = old \<and> ps_middle (pc_edited c') = new \<and> pc_match_byte c' = i \<and> pc_span_fed c' \<and>
    pc_suffix_head c' = take kSuffixCaptureBytes x"
  proof (cases "i + length old < q")
    case True
    then show ?thesis using assms(2) by (simp add: captured_upto_def Let_def c'_def begin_span_def i_def x_def)
  next
    case False
    then have "x = []" by (simp add: x_def i_def)
    then show ?thesis
      using assms(2,3) False ps_feed_side [of "pre @ old @ suf" i "length old" "pc_source c" pre old]
        ps_feed_side [of "pre @ new @ suf" i "length new" "pc_edited c" pre new] fit
      by (simp add: captured_upto_def Let_def c'_def begin_span_def i_def)
  qed
  then show "side_at (pre @ old @ suf) i (length old) (pc_source c')" "follows (pre @ old @ suf) (pre @ old @ x) (ps_tracker (pc_source c'))"
    "side_at (pre @ new @ suf) i (length new) (pc_edited c')" "follows (pre @ new @ suf) (pre @ new @ x) (ps_tracker (pc_edited c'))"
    "ps_middle (pc_source c') = old" "ps_middle (pc_edited c') = new" "pc_match_byte c' = i" "pc_span_fed c'"
    "pc_suffix_head c' = take kSuffixCaptureBytes x" by blast+
qed

lemma piece_drop: "bytes = take n (drop q s) \<Longrightarrow> drop u bytes = take (n - u) (drop (q + u) s)"
  by (simp add: drop_take add.commute)

lemma piece_append:
  assumes "a @ b = take (length a + length b) (drop q s)"
  shows "a = take (length a) (drop q s)" "b = take (length b) (drop (q + length a) s)"
proof -
  have "take (length a) (a @ b) = take (length a) (take (length a + length b) (drop q s))" using assms by simp
  then show "a = take (length a) (drop q s)" by (simp add: min_def)
  have "drop (length a) (a @ b) = take (length a + length b - length a) (drop (q + length a) s)" by (rule piece_drop [OF assms])
  then show "b = take (length b) (drop (q + length a) s)" by simp
qed

lemma suffix_capture:
  assumes "head = take n x"
  shows "(if length head < n then head @ substr bytes used (min (n - length head) (length bytes - used)) else head) =
    take n (x @ drop used bytes)"
proof (cases "length x < n")
  case True
  then show ?thesis using assms by (simp add: substr_def min_def)
qed (use assms in simp)

text \<open>The bytes of the source between two offsets.\<close>

lemma observe_captured:
  fixes pre old new suf :: string
  assumes fit: "texts_fit pre old new suf" and c: "captured_upto pre old new suf q c"
    and bytes: "bytes \<noteq> []" "bytes = take (length bytes) (drop q (pre @ old @ suf))"
  shows "captured_upto pre old new suf (q + length bytes) (pc_observe q bytes c)"
proof -
  let ?i = "length pre" and ?e = "length pre + length old" and ?q' = "q + length bytes"
  define used1 where "used1 = (if q < ?i then min (length bytes) (?i - q) else 0)"
  define c1 where "c1 = (if q < ?i then feed_both (take used1 bytes) c else c)"
  define used2 where "used2 = (if q + used1 < ?e then used1 + min (?e - (q + used1)) (length bytes - used1) else used1)"
  have base: "pc_match_byte c = ?i" "ps_middle (pc_source c) = old" using c by (simp_all add: captured_upto_def Let_def)
  have c1: "captured_upto pre old new suf (q + used1) c1"
  proof (cases "q < ?i")
    case True
    then have u: "used1 = min (length bytes) (?i - q)" by (simp add: used1_def)
    have "take used1 bytes = take used1 (take (length bytes) (drop q (pre @ old @ suf)))" using bytes(2) by simp
    also have "\<dots> = take used1 (drop q pre)" unfolding take_take by (simp add: u min_def)
    finally have piece: "take q pre @ take used1 bytes = take (q + used1) pre" by (simp add: take_add)
    have le: "q + used1 \<le> ?i" "\<not> ?e < q" "\<not> ?e < q + used1" using True u by auto
    have st: "side_at (pre @ old @ suf) ?i (length old) (pc_source c)" "follows (pre @ old @ suf) (take q pre) (ps_tracker (pc_source c))"
      "side_at (pre @ new @ suf) ?i (length new) (pc_edited c)" "follows (pre @ new @ suf) (take q pre) (ps_tracker (pc_edited c))"
      using c le by (simp_all add: captured_upto_def Let_def)
    have "prefix (take q pre @ take used1 bytes) (pre @ z)" for z unfolding piece by (simp add: prefix_append take_is_prefix)
    from feed_both_captured [OF fit st(1,2) this st(3,4) this] show ?thesis
      using True c le piece by (simp add: captured_upto_def Let_def c1_def)
  qed (use c in \<open>simp add: c1_def used1_def\<close>)
  have obs: "pc_observe q bytes c = (if used2 \<ge> length bytes then c1
      else let c2 = feed_both (drop used2 bytes) (begin_span c1) in
        if length (pc_suffix_head c2) < kSuffixCaptureBytes then
          c2\<lparr>pc_suffix_head := pc_suffix_head c2 @
               substr bytes used2 (min (kSuffixCaptureBytes - length (pc_suffix_head c2)) (length bytes - used2))\<rparr>
        else c2)"
    unfolding pc_observe_def Let_def base used1_def [symmetric] c1_def [symmetric] used2_def [symmetric] ..
  show ?thesis
  proof (cases "used2 \<ge> length bytes")
    case True
    have q': "?q' \<le> ?e" "used1 = length bytes \<or> ?i \<le> q + used1" using True bytes(1) by (auto simp: used1_def used2_def min_def split: if_splits)
    have "used1 \<le> length bytes" by (simp add: used1_def)
    then have "captured_upto pre old new suf ?q' c1" using captured_skip [OF c1, of ?q'] q' c1 by auto
    then show ?thesis using True obs by simp
  next
    case False
    have u: "q + used2 = max q ?e" "?e < ?q'" "?i \<le> q + used1" "q + used1 \<le> max q ?e"
      using False by (auto simp: used1_def used2_def min_def max_def split: if_splits)
    define x where "x = take (q + used1 - ?e) suf"
    have x: "x = take (q - ?e) suf" using u(4) by (auto simp: x_def used1_def split: if_splits)
    note b = begin_span_captured [OF fit c1 u(3), folded x_def]
    have rest: "x @ drop used2 bytes = take (?q' - ?e) suf"
    proof -
      have "drop used2 bytes = take (length bytes - used2) (drop (q + used2) (pre @ old @ suf))"
        by (rule piece_drop [OF bytes(2)])
      also have "drop (q + used2) (pre @ old @ suf) = drop (q - ?e) suf" unfolding u(1) by (simp add: max_def)
      also have "length bytes - used2 = ?q' - max q ?e" using u(1) by linarith
      finally have "drop used2 bytes = take (?q' - max q ?e) (drop (q - ?e) suf)" .
      moreover have "?q' - ?e = (q - ?e) + (?q' - max q ?e)" using u(2) by (simp add: max_def)
      ultimately show ?thesis by (simp only: x take_add)
    qed
    have "prefix ((pre @ mid @ x) @ drop used2 bytes) (pre @ mid @ suf)" for mid
      using rest by (simp add: take_is_prefix)
    note f = feed_both_captured [OF fit b(1,2) this b(3,4) this]
    define c2 where "c2 = feed_both (drop used2 bytes) (begin_span c1)"
    have head: "(if length (pc_suffix_head c2) < kSuffixCaptureBytes then pc_suffix_head c2 @
        substr bytes used2 (min (kSuffixCaptureBytes - length (pc_suffix_head c2)) (length bytes - used2)) else pc_suffix_head c2) =
        take kSuffixCaptureBytes (take (?q' - ?e) suf)"
      using suffix_capture [of "pc_suffix_head c2" kSuffixCaptureBytes x bytes used2] f(9) b(9) rest by (simp add: c2_def)
    have "pc_observe q bytes c = c2\<lparr>pc_suffix_head := take kSuffixCaptureBytes (take (?q' - ?e) suf)\<rparr>"
      using False head unfolding obs by (simp add: Let_def c2_def [symmetric] split: if_splits)
    then show ?thesis
      using u(2) f b rest by (simp add: captured_upto_def Let_def c2_def)
  qed
qed

fun in_order :: "nat \<Rightarrow> string list \<Rightarrow> preview_capture \<Rightarrow> preview_capture" where
  "in_order off [] c = c"
| "in_order off (b # bs) c = in_order (off + length b) bs (pc_observe off b c)"

text \<open>A pass over the chunks of a part of the source.\<close>

lemma in_order_captured:
  assumes "texts_fit pre old new suf" "captured_upto pre old new suf q c" "[] \<notin> set bs"
    and "concat bs = take (length (concat bs)) (drop q (pre @ old @ suf))"
  shows "captured_upto pre old new suf (q + length (concat bs)) (in_order q bs c)"
  using assms(2-4)
proof (induction bs arbitrary: q c)
  case (Cons b bs)
  let ?s = "pre @ old @ suf"
  have all: "b @ concat bs = take (length b + length (concat bs)) (drop q ?s)" using Cons.prems(3) by simp
  have "b \<noteq> []" "[] \<notin> set bs" using Cons.prems(2) by auto
  note step = observe_captured [OF assms(1) Cons.prems(1) \<open>b \<noteq> []\<close> piece_append(1) [OF all]]
  show ?case
    using Cons.IH [OF step \<open>[] \<notin> set bs\<close> piece_append(2) [OF all]] by (simp add: add.assoc)
qed simp

definition edit_shown :: "string \<Rightarrow> string \<Rightarrow> string \<Rightarrow> string \<Rightarrow> nat \<Rightarrow> edit_preview \<Rightarrow> bool" where
  "edit_shown pre old new suf ctx preview \<longleftrightarrow>
     (let i = length pre; s = pre @ old @ suf; s' = pre @ new @ suf in
      ep_before_position preview = position_of s i \<and> ep_after_position preview = position_of s' i \<and>
      ep_before_range preview = excerpt_range s i (length old) ctx \<and> ep_after_range preview = excerpt_range s' i (length new) ctx \<and>
      (\<forall>width mark clipped. render_excerpt table_ops (TableCursor (ep_before_rows preview)) (ep_before_range preview) width mark i
         (length old) clipped = Inr (excerpt_of s i (length old) ctx width mark clipped)) \<and>
      (\<forall>width mark clipped. render_excerpt table_ops (TableCursor (ep_after_rows preview)) (ep_after_range preview) width mark i
         (length new) clipped = Inr (excerpt_of s' i (length new) ctx width mark clipped)))"

lemma finish_captured:
  assumes fit: "texts_fit pre old new suf" and c: "captured_upto pre old new suf (length (pre @ old @ suf)) c"
    and ctx: "ctx \<le> kMaxContextLines"
  shows "\<exists>c'. pc_finish c = Inr c' \<and> edit_shown pre old new suf ctx (pc_take ctx c')"
proof -
  let ?i = "length pre" and ?s = "pre @ old @ suf" and ?s' = "pre @ new @ suf"
  define d where "d = begin_span c"
  have b': "side_at ?s ?i (length old) (pc_source d)" "follows ?s ?s (ps_tracker (pc_source d))"
    "side_at ?s' ?i (length new) (pc_edited d)" "follows ?s' ?s' (ps_tracker (pc_edited d))"
    "ps_middle (pc_source d) = take (length old) (drop ?i ?s)" "ps_middle (pc_edited d) = take (length new) (drop ?i ?s')"
    "pc_match_byte d = ?i" "pc_suffix_head d = take kSuffixCaptureBytes (drop (?i + length old) ?s)"
    "pc_suffix_head d = take kSuffixCaptureBytes (drop (?i + length new) ?s')"
    using begin_span_captured [OF fit c] by (simp_all add: d_def)
  have len: "length ?s < kNoStop" "length ?s' < kNoStop" using fit by (simp_all add: texts_fit_def)
  have le: "?i + length old \<le> length ?s" "?i + length new \<le> length ?s'" by simp_all
  note src = side_preview [OF b'(1,2) len(1) le(1) b'(5,8) ctx]
  note edt = side_preview [OF b'(3,4) len(2) le(2) b'(6,9) ctx]
  obtain p where p: "ps_position (ps_finish (pc_source d)) = Some p" "text_pos (sn_line p) (?i - sn_start p) = position_of ?s ?i"
    using src(1) by blast
  obtain p' where p': "ps_position (ps_finish (pc_edited d)) = Some p'" "text_pos (sn_line p') (?i - sn_start p') = position_of ?s' ?i"
    using edt(1) by blast
  have lines: "tp_line (position_of ?s ?i) = line_of ?s ?i" "tp_line (position_of ?s' ?i) = line_of ?s' ?i" by (simp_all add: line_of_def)
  show ?thesis
    using p p' src(2,3,4) edt(2,3,4) b'(7)
    by (simp add: pc_finish_def d_def [symmetric] Let_def edit_shown_def pc_take_def lines excerpt_range_lines [symmetric])
qed

end
