(* ===== verification/Stream_Edit.thy ===== *)
theory Stream_Edit
  imports Staged_Replace Edit_Preview
begin

text \<open>
  \<^verbatim>\<open>str_replace_file\<close> of \<^verbatim>\<open>textedit/src/stream_edit.cpp\<close>: one scan of the file by the streaming matcher,
  the candidate written on the way, its publication, and the preview taken from the verifying pass. The
  result is what the call returns or throws, with the new content of the destination when it was replaced.
\<close>

type_synonym edit_run = "edit_result result \<times> string option"

definition kStreamBufferBytes :: nat where "kStreamBufferBytes = 64 * 1024"

definition with_staged :: "'s \<Rightarrow> 's streaming_matcher \<Rightarrow> 's streaming_matcher" where
  "with_staged st m = m\<lparr>sm_writer := (sm_writer m)\<lparr>cw_staged := st\<rparr>\<rparr>"

lemma next_source_less:
  "next_source st = Inr (chunk, st') \<Longrightarrow> chunk \<noteq> [] \<Longrightarrow> length (delivered (sr_source st')) < length (delivered (sr_source st))"
  using next_source_delivered(1) [of st chunk st'] by (cases chunk) auto

lemma sm_feed_source:
  "sm_feed (staged_file_ops env) bytes n m = Some (Inr m') \<Longrightarrow>
     sr_source (cw_staged (sm_writer m')) = sr_source (cw_staged (sm_writer m))"
  by (drule staged_source.sm_feed_part) (simp add: source_part_def)

section \<open>The scan\<close>

text \<open>The loop over \<^verbatim>\<open>next_source\<close>; the staged file the loop reads is the one the matcher's writer holds.\<close>

function scan_source :: "replace_env \<Rightarrow> nat \<Rightarrow> nat \<Rightarrow> staged streaming_matcher \<Rightarrow> staged streaming_matcher result option" where
  "scan_source env max_file_bytes offset m =
     (case next_source (cw_staged (sm_writer m)) of
        Inl e \<Rightarrow> Some (Inl e)
      | Inr (chunk, st) \<Rightarrow>
          if chunk = [] then Some (Inr (with_staged st m))
          else if sr_source_bytes st > max_file_bytes then
            Some (Inl (LengthError ''file exceeds the configured byte limit''))
          else
            (case sm_feed (staged_file_ops env) chunk offset (with_staged st m) of
               None \<Rightarrow> None
             | Some (Inl e) \<Rightarrow> Some (Inl e)
             | Some (Inr m') \<Rightarrow> scan_source env max_file_bytes (offset + length chunk) m'))"
  by pat_completeness auto
termination
  by (relation "measure (\<lambda>(_, _, _, m). length (delivered (sr_source (cw_staged (sm_writer m)))))")
     (auto dest!: sm_feed_source dest: next_source_less simp: with_staged_def)

declare scan_source.simps [simp del]

text \<open>The second pass over an unchanged file, for the preview only.\<close>

function preview_pass :: "staged \<Rightarrow> preview_capture \<Rightarrow> (staged \<times> preview_capture) result" where
  "preview_pass st capture =
     and_then (next_source st) (\<lambda>(chunk, st').
       if chunk = [] then Inr (st', capture)
       else preview_pass st' (pc_observe (sr_source_bytes st' - length chunk) chunk capture))"
  by pat_completeness auto
termination
  by (relation "measure (\<lambda>(st, _). length (delivered (sr_source st)))") (auto dest: next_source_less)

declare preview_pass.simps [simp del]

section \<open>The edit\<close>

definition show_edit :: "string \<Rightarrow> string \<Rightarrow> nat \<Rightarrow> edit_result \<Rightarrow> preview_capture \<Rightarrow> edit_result result" where
  "show_edit old_text new_text context_lines result capture0 =
     and_then (pc_finish capture0) (\<lambda>capture.
     let preview = pc_take context_lines capture;
         changed = (old_text \<noteq> new_text);
         width = max (length (to_string (er_last (ep_before_range preview)))) (length (to_string (er_last (ep_after_range preview)))) in
     and_then (render_excerpt table_ops (TableCursor (ep_before_rows preview)) (ep_before_range preview) width
       (if changed then CHR ''-'' else CHR ''='') (ed_match_byte result) (length old_text) (ed_preview_truncated result))
       (\<lambda>(before_excerpt, clipped1).
     and_then (render_excerpt table_ops (TableCursor (ep_after_rows preview)) (ep_after_range preview) width
       (if changed then CHR ''+'' else CHR ''='') (ed_match_byte result) (length new_text) clipped1)
       (\<lambda>(after_excerpt, clipped2).
     Inr (result\<lparr>ed_before_position := ep_before_position preview, ed_after_position := ep_after_position preview,
       ed_before_excerpt := before_excerpt, ed_after_excerpt := after_excerpt, ed_preview_truncated := clipped2\<rparr>))))"

text \<open>An exception around the publication: a conflict is reported as a status, anything else is thrown on.\<close>

definition publication_failed :: "edit_result \<Rightarrow> exn \<Rightarrow> edit_run" where
  "publication_failed result e =
     (case e of
        ReplaceConflict _ \<Rightarrow>
          (Inr (result\<lparr>ed_status := Conflict, ed_before_excerpt := [], ed_after_excerpt := [], ed_preview_truncated := False\<rparr>), None)
      | _ \<Rightarrow> (Inl e, None))"

fun error_code :: "exn \<Rightarrow> nat" where
  "error_code (AtomicWriteError code _ _) = code"
| "error_code (SystemError code _) = code"
| "error_code _ = 0"

definition commit_edit :: "replace_env \<Rightarrow> string \<Rightarrow> string \<Rightarrow> nat \<Rightarrow> edit_result \<Rightarrow> staged streaming_matcher \<Rightarrow> edit_run" where
  "commit_edit env old_text new_text context_lines result m =
     (let capture = PreviewCapture (sm_match_byte m) old_text new_text in
      if old_text \<noteq> new_text then
        (case cw_flush (staged_file_ops env) (sm_writer m) of
           Inl e \<Rightarrow> publication_failed result e
         | Inr writer \<Rightarrow>
             (case publish env (sm_match_byte m) (sm_span m) pc_observe (cw_staged writer) capture of
                NotPublished e \<Rightarrow> publication_failed result e
              | Published st new_file capture' \<Rightarrow>
                  (show_edit old_text new_text context_lines result capture', Some new_file)
              | PublishedUnsynced st new_file capture' e \<Rightarrow>
                  (show_edit old_text new_text context_lines
                     (result\<lparr>ed_status := PublishedSyncFailed, ed_persistence_error := Some (error_code e)\<rparr>) capture',
                   Some new_file)))
      else
        (case and_then (restart_source env (cw_staged (sm_writer m))) (\<lambda>st. preview_pass st capture) of
           Inl e \<Rightarrow> (Inl e, None)
         | Inr (st, capture') \<Rightarrow>
             if sr_source_bytes st \<noteq> ed_before_bytes result then (Inr (result\<lparr>ed_status := Conflict\<rparr>), None)
             else (show_edit old_text new_text context_lines result capture', None)))"

definition finish_edit ::
  "replace_env \<Rightarrow> string \<Rightarrow> string \<Rightarrow> nat \<Rightarrow> nat \<Rightarrow> staged streaming_matcher \<Rightarrow> edit_run" where
  "finish_edit env old_text new_text context_lines max_file_bytes m =
     (let source_bytes = sr_source_bytes (cw_staged (sm_writer m));
          result = EditResult\<lparr>ed_before_bytes := source_bytes, ed_after_bytes := source_bytes, ed_match_byte := sm_match_byte m,
            ed_matches_at_least := (if sm_found m then if sm_ambiguous m then 2 else 1 else 0)\<rparr> in
      if sm_ambiguous m then
        (Inr (result\<lparr>ed_status := Ambiguous, ed_second_match_byte := Some (sm_second_match_byte m)\<rparr>), None)
      else if \<not> sm_found m then (Inr (result\<lparr>ed_status := NotFound\<rparr>), None)
      else if length (sm_span m) \<noteq> length old_text then (Inl (LogicError ''streaming matcher lost the matched span''), None)
      else if length (sm_span m) > source_bytes then (Inl (LogicError ''matched span exceeds the scanned source''), None)
      else
        let base_size = source_bytes - length (sm_span m) in
        if base_size > max_file_bytes \<or> length new_text > max_file_bytes - base_size then
          (Inl (LengthError ''edited text exceeds the configured byte limit''), None)
        else
          commit_edit env old_text new_text context_lines
            (result\<lparr>ed_after_bytes := base_size + length new_text,
              ed_status := (if old_text \<noteq> new_text then Modified else Unchanged)\<rparr>) m)"

definition str_replace_file ::
  "replace_env \<Rightarrow> string \<Rightarrow> string \<Rightarrow> string \<Rightarrow> nat \<Rightarrow> nat \<Rightarrow> write_outcome list \<Rightarrow> stop_token \<Rightarrow> edit_run option" where
  "str_replace_file env path old_text new_text context_lines max_file_bytes ws stop =
     (if old_text = [] then Some (Inl (InvalidArgument ''old_text must not be empty''), None)
      else if context_lines > kMaxContextLines then Some (Inl (InvalidArgument ''context_lines must not exceed 20''), None)
      else if max_file_bytes = size_max then
        Some (Inl (InvalidArgument ''file byte limit must leave room for one lookahead byte''), None)
      else if length new_text > max_file_bytes then
        Some (Inl (LengthError ''edited text exceeds the configured byte limit''), None)
      else
        (case StagedReplacement env path kStreamBufferBytes ws stop of
           Inl e \<Rightarrow> Some (Inl e, None)
         | Inr staged \<Rightarrow>
             let writer0 = CandidateWriter staged max_file_bytes;
                 writer = (if old_text = new_text then cw_enable False writer0 else writer0) in
             (case StreamingMatcher old_text new_text writer of
                None \<Rightarrow> None
              | Some m \<Rightarrow>
                  (case scan_source env max_file_bytes 0 m of
                     None \<Rightarrow> None
                   | Some (Inl e) \<Rightarrow> Some (Inl e, None)
                   | Some (Inr m') \<Rightarrow> Some (finish_edit env old_text new_text context_lines max_file_bytes m')))))"

section \<open>What the scan finds\<close>

lemma contents_with_staged:
  "candidate_text st = candidate_text (cw_staged (sm_writer m)) \<Longrightarrow>
     staged_candidate.contents (sm_writer (with_staged st m)) = staged_candidate.contents (sm_writer m)"
  by (simp add: with_staged_def staged_candidate.contents_def)

lemma tracking_with_staged:
  "candidate_text st = candidate_text (cw_staged (sm_writer m)) \<Longrightarrow>
     staged_candidate.tracking env p new on t (with_staged st m) = staged_candidate.tracking env p new on t m"
  using contents_with_staged [of st m]
  by (simp add: staged_candidate.tracking_def staged_candidate.searching_def staged_candidate.matched_once_def
      staged_candidate.matched_twice_def) (simp add: with_staged_def)

text \<open>The staged file after a scan of \<open>t\<close>, with \<open>rest\<close> still to come.\<close>

definition scanned :: "string \<Rightarrow> string \<Rightarrow> staged \<Rightarrow> bool" where
  "scanned t rest st \<longleftrightarrow> sr_source_bytes st = length t \<and> delivered (sr_source st) = rest \<and>
     sr_candidate_bytes st = length (candidate_text st)"

lemma scanned_part: "source_part st' = source_part st \<Longrightarrow> scanned t rest st' = scanned t rest st"
  by (auto simp: scanned_def source_part_def)

lemma next_source_scanned:
  assumes "next_source st = Inr (chunk, st')" "scanned t rest st"
  shows "\<exists>rest'. rest = chunk @ rest' \<and> scanned (t @ chunk) rest' st' \<and> candidate_text st' = candidate_text st \<and>
    sr_identity st' = sr_identity st"
proof -
  obtain d stop where st': "st' = st\<lparr>sr_source := d, sr_stop := stop, sr_source_bytes := sr_source_bytes st + length chunk\<rparr>"
    using next_source_delivered(3) [OF assms(1)] by blast
  show ?thesis using next_source_delivered(1) [OF assms(1)] assms(2) by (auto simp: scanned_def st' candidate_text_def)
qed

lemma scan_source_tracking:
  assumes "p \<noteq> []" "staged_candidate.tracking env p new on t m" "scanned t rest (cw_staged (sm_writer m))"
  shows "\<exists>r. scan_source env limit (length t) m = Some r \<and> (\<forall>m'. r = Inr m' \<longrightarrow>
    (\<exists>t' rest'. t @ rest = t' @ rest' \<and> staged_candidate.tracking env p new on t' m' \<and>
       scanned t' rest' (cw_staged (sm_writer m')) \<and> (length t \<le> limit \<longrightarrow> length t' \<le> limit)))"
  using assms(2,3)
proof (induction "length rest" arbitrary: t rest m rule: less_induct)
  case less
  let ?st = "cw_staged (sm_writer m)"
  show ?case
  proof (cases "next_source ?st")
    case (Inl e) then show ?thesis by (subst scan_source.simps) simp
  next
    case (Inr cs)
    obtain chunk st where cs: "cs = (chunk, st)" by (cases cs)
    obtain rest' where n: "rest = chunk @ rest'" "scanned (t @ chunk) rest' st" "candidate_text st = candidate_text ?st"
      using next_source_scanned [OF Inr [unfolded cs] less.prems(2)] by blast
    have tr: "staged_candidate.tracking env p new on t (with_staged st m)" using tracking_with_staged [OF n(3)] less.prems(1) by simp
    show ?thesis
    proof (cases "chunk = []")
      case True
      then have "scan_source env limit (length t) m = Some (Inr (with_staged st m))" using Inr cs by (subst scan_source.simps) simp
      moreover have "cw_staged (sm_writer (with_staged st m)) = st" by (simp add: with_staged_def)
      ultimately show ?thesis using tr n True by (intro exI [of _ "Inr (with_staged st m)"]) auto
    next
      case ne: False
      show ?thesis
      proof (cases "sr_source_bytes st > limit")
        case True then show ?thesis using Inr cs ne by (subst scan_source.simps) simp
      next
        case False
        obtain r where r: "sm_feed (staged_file_ops env) chunk (length t) (with_staged st m) = Some r"
          "\<And>m'. r = Inr m' \<Longrightarrow> staged_candidate.tracking env p new on (t @ chunk) m'"
          using staged_candidate.feed_tracking [OF assms(1) tr] by blast
        show ?thesis
        proof (cases r)
          case (Inl e) then show ?thesis using r(1) Inr cs ne False by (subst scan_source.simps) simp
        next
          case m1: (Inr m1)
          have "source_part (cw_staged (sm_writer m1)) = source_part st"
            using staged_source.sm_feed_part [OF r(1) [unfolded m1]] by (simp add: with_staged_def)
          then have sc: "scanned (t @ chunk) rest' (cw_staged (sm_writer m1))"
            using scanned_part [of "cw_staged (sm_writer m1)" st "t @ chunk" rest'] n(2) by blast
          have lt: "length rest' < length rest" using n(1) ne by (cases chunk) auto
          have le: "length (t @ chunk) \<le> limit" using False n(2) by (simp add: scanned_def)
          have "scan_source env limit (length t) m = scan_source env limit (length (t @ chunk)) m1"
            using r(1) m1 ne False by (subst scan_source.simps) (simp add: Inr cs)
          moreover obtain r' where r': "scan_source env limit (length (t @ chunk)) m1 = Some r'"
            "\<And>m'. r' = Inr m' \<Longrightarrow> \<exists>t' rest''. (t @ chunk) @ rest' = t' @ rest'' \<and> staged_candidate.tracking env p new on t' m' \<and>
               scanned t' rest'' (cw_staged (sm_writer m')) \<and> length t' \<le> limit"
            using less.hyps [OF lt r(2) [OF m1] sc] le by blast
          moreover have "t @ rest = (t @ chunk) @ rest'" using n(1) by simp
          ultimately show ?thesis by (intro exI [of _ r']) (metis (no_types, lifting))
        qed
      qed
    qed
  qed
qed

text \<open>A new transaction, and the matcher over it.\<close>

lemma StagedReplacement_new:
  assumes "StagedReplacement env path n ws stop = Inr st"
  obtains d where "se_open_source env = Inr d" "scanned [] (delivered d) st" "candidate_text st = []" "\<not> sr_consumed st"
  using assms that
  by (auto simp: StagedReplacement_def and_then_eq_Inr os_def scanned_def candidate_text_def split: if_splits sum.splits)

lemma new_matcher:
  fixes new :: string and limit :: nat
  assumes "p \<noteq> []" "candidate_text st = []" "scanned [] rest st"
  defines "w \<equiv> if p = new then cw_enable False (CandidateWriter st limit) else CandidateWriter st limit"
  shows "\<exists>m. StreamingMatcher p new w = Some m \<and> staged_candidate.tracking env p new (p \<noteq> new) [] m \<and>
    scanned [] rest (cw_staged (sm_writer m)) \<and> sm_writer m = w"
proof -
  have "staged_candidate.contents w = []" "cw_enabled w = (p \<noteq> new)" "cw_staged w = st"
    using assms(2) by (simp_all add: w_def CandidateWriter_def cw_enable_def staged_candidate.contents_def)
  then show ?thesis using staged_candidate.new_tracking [OF assms(1), of w "p \<noteq> new" new] assms(3) by auto
qed

text \<open>Past the checks, the edit is one complete scan of what the source delivered.\<close>

lemma str_replace_file_runs:
  obtains (refused) e where "str_replace_file env path old new ctx limit ws stop = Some (Inl e, None)"
  | (complete) d t rest m where "str_replace_file env path old new ctx limit ws stop = Some (finish_edit env old new ctx limit m)"
      "old \<noteq> []" "ctx \<le> kMaxContextLines" "limit \<noteq> size_max" "se_open_source env = Inr d" "delivered d = t @ rest" "length t \<le> limit"
      "staged_candidate.tracking env old new (old \<noteq> new) t m" "scanned t rest (cw_staged (sm_writer m))"
proof (cases "old = [] \<or> ctx > kMaxContextLines \<or> limit = size_max \<or> length new > limit")
  case True
  then have "\<exists>e. str_replace_file env path old new ctx limit ws stop = Some (Inl e, None)"
    by (simp add: str_replace_file_def) blast
  then show thesis using refused by blast
next
  case ok: False
  show thesis
  proof (cases "StagedReplacement env path kStreamBufferBytes ws stop")
    case (Inl e) then show thesis using refused [of e] ok by (simp add: str_replace_file_def)
  next
    case (Inr st)
    then obtain d where d: "se_open_source env = Inr d" "scanned [] (delivered d) st" "candidate_text st = []"
      by (rule StagedReplacement_new)
    let ?w = "if old = new then cw_enable False (CandidateWriter st limit) else CandidateWriter st limit"
    obtain m0 where m0: "StreamingMatcher old new ?w = Some m0" "staged_candidate.tracking env old new (old \<noteq> new) [] m0"
      "scanned [] (delivered d) (cw_staged (sm_writer m0))"
      using new_matcher [of old st "delivered d" new limit env] ok d by auto
    obtain r where r: "scan_source env limit 0 m0 = Some r"
      "\<And>m'. r = Inr m' \<Longrightarrow> \<exists>t rest. delivered d = t @ rest \<and> staged_candidate.tracking env old new (old \<noteq> new) t m' \<and>
         scanned t rest (cw_staged (sm_writer m')) \<and> length t \<le> limit"
      using scan_source_tracking [OF _ m0(2,3), of limit] ok by auto
    show thesis
    proof (cases r)
      case Inl2: (Inl e)
      then show thesis using refused [of e] ok Inr m0(1) r(1) by (simp add: str_replace_file_def)
    next
      case m: (Inr m)
      then have "str_replace_file env path old new ctx limit ws stop = Some (finish_edit env old new ctx limit m)"
        using ok Inr m0(1) r(1) by (simp add: str_replace_file_def)
      then show thesis using complete ok d(1) r(2) [OF m] by (metis leI)
    qed
  qed
qed

section \<open>What an edit reports\<close>

lemma observe_chunks_in_order: "observe_chunks pc_observe off cs c = in_order off cs c"
  by (induction cs arbitrary: off c) simp_all

text \<open>The verifying pass shows the capture the whole source around the span.\<close>

lemma verified_capture:
  assumes fit: "texts_fit pre old new suf" and ne: "[] \<notin> set cs" "[] \<notin> set ds" and cs: "concat cs = pre" and ds: "concat ds = suf"
  shows "captured_upto pre old new suf (length (pre @ old @ suf))
    (observe_chunks pc_observe (length pre + length old) ds (observe_chunks pc_observe 0 cs (PreviewCapture (length pre) old new)))"
proof -
  let ?c = "PreviewCapture (length pre) old new" and ?e = "length pre + length old"
  have "captured_upto pre old new suf (0 + length (concat cs)) (in_order 0 cs ?c)"
    by (rule in_order_captured [OF fit captured_new ne(1)]) (use fit cs in \<open>simp_all add: texts_fit_def\<close>)
  then have "captured_upto pre old new suf ?e (in_order 0 cs ?c)"
    using captured_skip [of pre old new suf "length pre" _ ?e] cs by simp
  then have "captured_upto pre old new suf (?e + length (concat ds)) (in_order ?e ds (in_order 0 cs ?c))"
    by (rule in_order_captured [OF fit _ ne(2)]) (use ds in simp)
  then show ?thesis using ds by (simp add: observe_chunks_in_order add.assoc)
qed

lemma replaced_middle: "replaced (pre @ old @ suf) old new (length pre) = pre @ new @ suf"
  by (simp add: replaced_def)

text \<open>The excerpts drawn from the capture are the ones drawn from the two texts.\<close>

lemma show_edit_view:
  fixes pre old new suf :: string
  assumes fit: "texts_fit pre old new suf" and c: "captured_upto pre old new suf (length (pre @ old @ suf)) c" and ctx: "ctx \<le> kMaxContextLines"
    and res: "ed_match_byte res = length pre" "\<not> ed_preview_truncated res"
  defines "v \<equiv> edit_view (pre @ old @ suf) old new ctx (length pre)"
  shows "show_edit old new ctx res c = Inr (res\<lparr>ed_before_position := ed_before_position v, ed_after_position := ed_after_position v,
    ed_before_excerpt := ed_before_excerpt v, ed_after_excerpt := ed_after_excerpt v, ed_preview_truncated := ed_preview_truncated v\<rparr>)"
proof -
  obtain c' where c': "pc_finish c = Inr c'" "edit_shown pre old new suf ctx (pc_take ctx c')"
    using finish_captured [OF fit c ctx] by blast
  note shown = c'(2) [unfolded edit_shown_def Let_def]
  have f: "ed_preview_truncated res = False" using res(2) by simp
  show ?thesis
    unfolding show_edit_def c'(1) and_then_simps Let_def res(1) f v_def edit_view_def replaced_middle
    using shown by (auto split: prod.splits simp: EditResult_def)
qed

lemma unique_rest:
  assumes "occurs_at t p i" shows "t = take i t @ p @ drop (i + length p) t" "i + length p \<le> length t"
proof -
  show "i + length p \<le> length t" using assms by (simp add: occurs_at_def)
  then have "take (length p) (drop i t) = p" using assms by (simp add: occurs_at_def substr_def)
  then show "t = take i t @ p @ drop (i + length p) t" by (metis append_take_drop_id drop_drop add.commute)
qed


lemma unsynced_code:
  "publish env i span observe st obs = PublishedUnsynced st' c obs' e \<Longrightarrow> \<exists>n. se_sync_directory env = Some n \<and> error_code e = n"
  by (auto simp: publish_def Let_def split: sum.splits option.splits)

lemma published_synced:
  "publish env i span observe st obs = Published st' c obs' \<Longrightarrow> se_sync_directory env = None"
  by (auto simp: publish_def Let_def split: sum.splits option.splits)

text \<open>How the report of a published edit records a directory that could not be synchronized.\<close>

definition synced_result :: "nat option \<Rightarrow> edit_result \<Rightarrow> edit_result" where
  "synced_result failure result = (case failure of None \<Rightarrow> result
     | Some e \<Rightarrow> result\<lparr>ed_status := PublishedSyncFailed, ed_persistence_error := Some e\<rparr>)"

lemma commit_edit_publishes:
  assumes "commit_edit env old new ctx result m = (r, Some c)"
  obtains w st obs where "old \<noteq> new" "cw_flush (staged_file_ops env) (sm_writer m) = Inr w"
    "published_as (publish env (sm_match_byte m) (sm_span m) pc_observe (cw_staged w) (PreviewCapture (sm_match_byte m) old new)) =
       Some (st, c, obs)"
    "r = show_edit old new ctx (synced_result (se_sync_directory env) result) obs"
proof -
  let ?p = "\<lambda>w. publish env (sm_match_byte m) (sm_span m) pc_observe (cw_staged w) (PreviewCapture (sm_match_byte m) old new)"
  obtain w where w: "old \<noteq> new" "cw_flush (staged_file_ops env) (sm_writer m) = Inr w"
    "(case ?p w of NotPublished e \<Rightarrow> publication_failed result e
      | Published st new_file capture' \<Rightarrow> (show_edit old new ctx result capture', Some new_file)
      | PublishedUnsynced st new_file capture' e \<Rightarrow>
          (show_edit old new ctx (result\<lparr>ed_status := PublishedSyncFailed, ed_persistence_error := Some (error_code e)\<rparr>) capture',
           Some new_file)) = (r, Some c)"
    using assms by (auto simp: commit_edit_def Let_def publication_failed_def split: if_splits sum.splits exn.splits prod.splits)
  show thesis
  proof (cases "?p w")
    case (NotPublished e)
    then show thesis using w(3) by (auto simp: publication_failed_def split: exn.splits)
  next
    case (Published st c' obs)
    then show thesis using that [OF w(1,2)] w(3) published_synced [OF Published] by (simp add: synced_result_def)
  next
    case (PublishedUnsynced st c' obs e)
    then show thesis using that [OF w(1,2)] w(3) unsynced_code [OF PublishedUnsynced] by (auto simp: synced_result_def)
  qed
qed

text \<open>What is known of a unique match before it is committed.\<close>

definition match_result :: "string \<Rightarrow> string \<Rightarrow> nat \<Rightarrow> nat \<Rightarrow> edit_result" where
  "match_result old new n i = EditResult\<lparr>ed_before_bytes := n, ed_after_bytes := n - length old + length new, ed_match_byte := i,
     ed_matches_at_least := 1, ed_status := (if old \<noteq> new then Modified else Unchanged)\<rparr>"

lemma finish_edit_once:
  assumes "staged_candidate.matched_once env old new on t m" "scanned t rest (cw_staged (sm_writer m))"
  shows "finish_edit env old new ctx limit m = (if length t - length old + length new > limit
    then (Inl (LengthError ''edited text exceeds the configured byte limit''), None)
    else commit_edit env old new ctx (match_result old new (length t) (sm_match_byte m)) m)"
proof -
  have "occurs_at t old (sm_match_byte m)" "sm_span m = old" "sm_found m" "\<not> sm_ambiguous m"
    using assms(1) by (simp_all add: staged_candidate.matched_once_def)
  moreover from this have "length old \<le> length t" by (simp add: occurs_at_def)
  ultimately show ?thesis
    using assms(2) by (auto simp: finish_edit_def Let_def scanned_def match_result_def EditResult_def)
qed

text \<open>The three ways a scan ends.\<close>

lemma finish_edit_cases:
  assumes "staged_candidate.tracking env old new on t m" "scanned t rest (cw_staged (sm_writer m))"
  obtains (none) "\<And>i. \<not> occurs_at t old i" "finish_edit env old new ctx limit m = (Inr (missing_view (length t)), None)"
  | (two) i j where "first_two t old i j" "finish_edit env old new ctx limit m = (Inr (ambiguous_view (length t) i j), None)"
  | (one) "staged_candidate.matched_once env old new on t m"
proof -
  consider "staged_candidate.searching old on t m" | "staged_candidate.matched_twice old t m" | "staged_candidate.matched_once env old new on t m"
    using assms(1) by (auto simp: staged_candidate.tracking_def)
  then show thesis
  proof cases
    case 1
    then have "\<not> sm_found m" "\<not> sm_ambiguous m" "sm_match_byte m = 0" "\<And>i. \<not> occurs_at t old i" by (simp_all add: staged_candidate.searching_def)
    moreover then have "finish_edit env old new ctx limit m = (Inr (missing_view (length t)), None)"
      using assms(2) by (simp add: finish_edit_def Let_def scanned_def missing_view_def EditResult_def)
    ultimately show thesis using none by blast
  next
    case 2
    then have "sm_found m" "sm_ambiguous m" "first_two t old (sm_match_byte m) (sm_second_match_byte m)"
      by (simp_all add: staged_candidate.matched_twice_def)
    then show thesis using two assms(2) by (simp add: finish_edit_def Let_def scanned_def ambiguous_view_def EditResult_def)
  next
    case 3 then show thesis by (rule one)
  qed
qed
lemma show_match_result:
  fixes pre old new suf :: string
  assumes "texts_fit pre old new suf" "captured_upto pre old new suf (length (pre @ old @ suf)) c" "ctx \<le> kMaxContextLines"
  shows "show_edit old new ctx (synced_result failure (match_result old new (length (pre @ old @ suf)) (length pre))) c =
    Inr (synced_result failure (edit_view (pre @ old @ suf) old new ctx (length pre)))"
proof -
  let ?r = "synced_result failure (match_result old new (length (pre @ old @ suf)) (length pre))"
  have "ed_match_byte ?r = length pre" "\<not> ed_preview_truncated ?r"
    by (simp_all add: synced_result_def match_result_def EditResult_def split: option.split)
  from show_edit_view [OF assms this] show ?thesis
    by (simp add: synced_result_def match_result_def EditResult_def edit_view_def Let_def replaced_middle split: option.split)
qed

text \<open>
  A publication seen from the edit: the new content, what was read again before it, and the report.
\<close>

lemma commit_edit_published:
  assumes once: "staged_candidate.matched_once env old new on t m" and sc: "scanned t rest (cw_staged (sm_writer m))"
    and on: "on \<longleftrightarrow> old \<noteq> new" and c: "commit_edit env old new ctx (match_result old new (length t) (sm_match_byte m)) m = (r, Some c)"
    and rb: "reads_back env"
  obtains d before after rest' where "se_reopen env = Inr d" "delivered d = before @ old @ after @ rest'" "steady d \<longrightarrow> rest' = []"
    "c = before @ new @ after" "old \<noteq> new" "length before = sm_match_byte m" "after = drop (length before + length old) t"
    "length t = length (before @ old @ after)"
    "ctx \<le> kMaxContextLines \<and> texts_fit before old new after \<longrightarrow>
       r = Inr (synced_result (se_sync_directory env) (edit_view (before @ old @ after) old new ctx (length before)))"
proof -
  let ?i = "sm_match_byte m" and ?copied = "delivered (se_prefix_reads env)"
  obtain w st obs where p: "old \<noteq> new" "cw_flush (staged_file_ops env) (sm_writer m) = Inr w"
    "published_as (publish env ?i (sm_span m) pc_observe (cw_staged w) (PreviewCapture ?i old new)) = Some (st, c, obs)"
    "r = show_edit old new ctx (synced_result (se_sync_directory env) (match_result old new (length t) ?i)) obs"
    by (rule commit_edit_publishes [OF c])
  let ?st = "cw_staged w"
  have occ: "occurs_at t old ?i" and span: "sm_span m = old" and le: "?i \<le> length ?copied"
    and out: "staged_candidate.contents (sm_writer m) = take ?i ?copied @ new @ drop (?i + length old) t"
    using once on p(1) by (simp_all add: staged_candidate.matched_once_def)
  define before after where "before = take ?i ?copied" and "after = drop (?i + length old) t"
  have b: "length before = ?i" using le by (simp add: before_def)
  have cand: "candidate_text ?st = before @ new @ after"
    using staged_candidate.cw_flush_contents [OF p(2)] out unfolding before_def after_def
    by (metis append_Nil2 staged_candidate.contents_def)
  have "scanned t rest ?st" using scanned_part [OF staged_source.cw_flush_part [OF p(2)], of t rest] sc by blast
  then have n: "sr_source_bytes ?st = length t" "sr_candidate_bytes ?st = length (candidate_text ?st)" by (simp_all add: scanned_def)
  have len: "length t = length (before @ old @ after)" using unique_rest(2) [OF occ] b by (simp add: after_def)
  have fresh: "sr_candidate_bytes ?st - (sr_source_bytes ?st - length old) = length new" using n cand len by simp
  obtain d pre suf rest' where v: "c = candidate_text ?st" "se_reopen env = Inr d" "[] \<notin> set pre" "[] \<notin> set suf"
    "concat pre = take ?i c" "concat suf = drop (?i + length new) c" "delivered d = concat pre @ old @ concat suf @ rest'"
    "steady d \<longrightarrow> rest' = []" "obs = observe_chunks pc_observe (?i + length old) suf (observe_chunks pc_observe 0 pre (PreviewCapture ?i old new))"
    using publish_spec [OF p(3) rb] unfolding span fresh by metis
  have c': "c = before @ new @ after" "concat pre = before" "concat suf = after" using v(1,5,6) cand b by simp_all
  have "r = Inr (synced_result (se_sync_directory env) (edit_view (before @ old @ after) old new ctx (length before)))"
    if "ctx \<le> kMaxContextLines" "texts_fit before old new after"
  proof -
    have "captured_upto before old new after (length (before @ old @ after)) obs"
      using verified_capture [OF that(2) v(3,4) c'(2,3)] unfolding v(9) b .
    from show_match_result [OF that(2) this that(1), of "se_sync_directory env"] show ?thesis unfolding p(4) len b .
  qed
  moreover have "delivered d = before @ old @ after @ rest'" using v(7) unfolding c'(2,3) .
  moreover have "after = drop (length before + length old) t" unfolding b after_def ..
  ultimately show thesis using that v(2,8) c'(1) p(1) b len by blast
qed

text \<open>Nothing published: a conflict, an unchanged text or a throw.\<close>

lemma show_edit_status: "show_edit old new ctx result c = Inr res \<Longrightarrow> ed_status res = ed_status result"
  by (auto simp: show_edit_def Let_def and_then_eq_Inr split: prod.splits)

lemma commit_edit_silent:
  assumes "commit_edit env old new ctx result m = (r, None)" "r = Inr res" "ed_status result = (if old \<noteq> new then Modified else Unchanged)"
  shows "ed_status res \<in> {Conflict, Unchanged}"
  using assms
  by (auto simp: commit_edit_def Let_def publication_failed_def dest!: show_edit_status split: if_splits sum.splits publication.splits exn.splits prod.splits)

section \<open>What an edit does to the file\<close>

text \<open>
  C12. An edit always comes to an end: whatever the system calls deliver and however the stop token behaves,
  the call returns a result or throws.
\<close>

theorem str_replace_file_returns:
  "\<exists>run. str_replace_file env path old new ctx limit ws stop = Some run"
  by (rule str_replace_file_runs [of env path old new ctx limit ws stop]) auto

text \<open>
  C10. What a successful edit leaves in the file: the old text occurred exactly once in what was scanned; the
  file, opened and read again just before, held the same bytes around it, with the old text in place; and the
  new content is that text with the one occurrence replaced, within the byte limit.
\<close>

theorem str_replace_file_publishes:
  assumes "str_replace_file env path old new ctx limit ws stop = Some (r, Some c)" "reads_back env"
  shows "\<exists>d d' t rest before after rest'. se_open_source env = Inr d \<and> delivered d = t @ rest \<and>
    (\<forall>k. occurs_at t old k \<longleftrightarrow> k = length before) \<and> after = drop (length before + length old) t \<and>
    se_reopen env = Inr d' \<and> delivered d' = before @ old @ after @ rest' \<and> (steady d' \<longrightarrow> rest' = []) \<and>
    c = before @ new @ after \<and> old \<noteq> new \<and> length c \<le> limit"
proof (rule str_replace_file_runs [of env path old new ctx limit ws stop])
  fix e assume "str_replace_file env path old new ctx limit ws stop = Some (Inl e, None)"
  then show ?thesis using assms(1) by simp
next
  fix d t rest m
  assume f: "str_replace_file env path old new ctx limit ws stop = Some (finish_edit env old new ctx limit m)"
    and d: "se_open_source env = Inr d" "delivered d = t @ rest"
    and tr: "staged_candidate.tracking env old new (old \<noteq> new) t m" and sc: "scanned t rest (cw_staged (sm_writer m))"
  have fe: "finish_edit env old new ctx limit m = (r, Some c)" using assms(1) f by simp
  have once: "staged_candidate.matched_once env old new (old \<noteq> new) t m"
    by (rule finish_edit_cases [OF tr sc, of ctx limit]) (simp_all add: fe)
  then have occ: "\<forall>k. occurs_at t old k \<longleftrightarrow> k = sm_match_byte m" by (simp add: staged_candidate.matched_once_def)
  have fits: "length t - length old + length new \<le> limit"
    and c: "commit_edit env old new ctx (match_result old new (length t) (sm_match_byte m)) m = (r, Some c)"
    using fe finish_edit_once [OF once sc, of ctx limit] by (auto split: if_splits)
  obtain d' before after rest' where p: "se_reopen env = Inr d'" "delivered d' = before @ old @ after @ rest'" "steady d' \<longrightarrow> rest' = []"
    "c = before @ new @ after" "old \<noteq> new" "length before = sm_match_byte m" "after = drop (length before + length old) t"
    "length t = length (before @ old @ after)"
    "ctx \<le> kMaxContextLines \<and> texts_fit before old new after \<longrightarrow>
       r = Inr (synced_result (se_sync_directory env) (edit_view (before @ old @ after) old new ctx (length before)))"
    by (rule commit_edit_published [OF once sc refl c assms(2)])
  have "length c \<le> limit" using p(4,8) fits by simp
  then show ?thesis using d occ [folded p(6)] p(1-5,7) by blast
qed

text \<open>
  C11. The report and the file agree: the destination was replaced exactly when the call returns with status
  modified or published-but-not-synchronized; every throw and every other status leaves it untouched.
\<close>

theorem str_replace_file_reports:
  assumes "str_replace_file env path old new ctx limit ws stop = Some (r, c)" "reads_back env" "limit \<le> size_max"
  shows "c \<noteq> None \<longleftrightarrow> (\<exists>result. r = Inr result \<and> ed_status result \<in> {Modified, PublishedSyncFailed})"
proof (rule str_replace_file_runs [of env path old new ctx limit ws stop])
  fix e assume "str_replace_file env path old new ctx limit ws stop = Some (Inl e, None)"
  then show ?thesis using assms(1) by simp
next
  fix d t rest m
  assume f: "str_replace_file env path old new ctx limit ws stop = Some (finish_edit env old new ctx limit m)"
    and pre: "ctx \<le> kMaxContextLines" "limit \<noteq> size_max" "length t \<le> limit"
    and tr: "staged_candidate.tracking env old new (old \<noteq> new) t m" and sc: "scanned t rest (cw_staged (sm_writer m))"
  have fe: "finish_edit env old new ctx limit m = (r, c)" using assms(1) f by simp
  show ?thesis
  proof (cases rule: finish_edit_cases [OF tr sc, of ctx limit])
    case 1 then show ?thesis using fe by (auto simp: missing_view_def EditResult_def)
  next
    case (2 i j) then show ?thesis using fe by (auto simp: ambiguous_view_def EditResult_def)
  next
    case 3
    let ?res = "match_result old new (length t) (sm_match_byte m)"
    show ?thesis
    proof (cases "length t - length old + length new > limit")
      case True
      then show ?thesis using fe finish_edit_once [OF 3 sc, of ctx limit] by auto
    next
      case False
      then have ce: "commit_edit env old new ctx ?res m = (r, c)" using fe finish_edit_once [OF 3 sc, of ctx limit] by simp
      show ?thesis
      proof (cases c)
        case None
        then show ?thesis using ce commit_edit_silent [of env old new ctx ?res m r] by (auto simp: match_result_def)
      next
        case (Some c')
        obtain d' before after rest' where p: "se_reopen env = Inr d'" "delivered d' = before @ old @ after @ rest'" "steady d' \<longrightarrow> rest' = []"
          "c' = before @ new @ after" "old \<noteq> new" "length before = sm_match_byte m" "after = drop (length before + length old) t"
          "length t = length (before @ old @ after)"
          "ctx \<le> kMaxContextLines \<and> texts_fit before old new after \<longrightarrow>
             r = Inr (synced_result (se_sync_directory env) (edit_view (before @ old @ after) old new ctx (length before)))"
          by (rule commit_edit_published [OF 3 sc refl ce [unfolded Some] assms(2)])
        have "texts_fit before old new after" using p(8) pre(2,3) False assms(3) by (auto simp: texts_fit_def kNoStop_def)
        then show ?thesis using p(5,9) pre(1) Some
          by (auto simp: synced_result_def edit_view_def Let_def split: option.split)
      qed
    qed
  qed
qed

section \<open>The reference semantics\<close>

text \<open>On a file that nobody touches, no call of the edit fails and each pass reads all of it.\<close>

lemma next_read_ok:
  "faultless d \<Longrightarrow> 0 < n \<Longrightarrow> \<exists>bytes d'. next_read n d None = Inr (bytes, d', None) \<and> faultless d' \<and> (bytes = [] \<longrightarrow> delivered d = [])"
proof (induction d)
  case (Cons out d)
  then show ?case by (cases out) auto
qed simp

definition readable :: "staged \<Rightarrow> bool" where
  "readable st \<longleftrightarrow> sr_stop st = None \<and> faultless (sr_source st) \<and> 0 < sr_buffer_bytes st"

lemma next_source_ok:
  assumes "readable st"
  shows "\<exists>chunk d. next_source st = Inr (chunk, st\<lparr>sr_source := d, sr_stop := None, sr_source_bytes := sr_source_bytes st + length chunk\<rparr>) \<and>
    faultless d \<and> delivered (sr_source st) = chunk @ delivered d \<and> (chunk = [] \<longrightarrow> delivered (sr_source st) = [])"
proof -
  obtain chunk d where r: "next_read (sr_buffer_bytes st) (sr_source st) None = Inr (chunk, d, None)" "faultless d"
    "chunk = [] \<longrightarrow> delivered (sr_source st) = []"
    using next_read_ok [of "sr_source st" "sr_buffer_bytes st"] assms by (auto simp: readable_def)
  then show ?thesis using assms next_read_delivered [OF r(1)] by (auto simp: next_source_def readable_def)
qed

lemma preview_pass_ok:
  assumes "readable st"
  shows "\<exists>st' cs. preview_pass st c = Inr (st', in_order (sr_source_bytes st) cs c) \<and> [] \<notin> set cs \<and>
    concat cs = delivered (sr_source st) \<and> sr_source_bytes st' = sr_source_bytes st + length (concat cs)"
  using assms
proof (induction "length (delivered (sr_source st))" arbitrary: st c rule: less_induct)
  case less
  obtain chunk d where n: "next_source st = Inr (chunk, st\<lparr>sr_source := d, sr_stop := None, sr_source_bytes := sr_source_bytes st + length chunk\<rparr>)"
    "faultless d" "delivered (sr_source st) = chunk @ delivered d" "chunk = [] \<longrightarrow> delivered (sr_source st) = []"
    using next_source_ok [OF less.prems] by blast
  let ?st = "st\<lparr>sr_source := d, sr_stop := None, sr_source_bytes := sr_source_bytes st + length chunk\<rparr>"
  show ?case
  proof (cases "chunk = []")
    case True
    then show ?thesis using n by (subst preview_pass.simps) (auto intro!: exI [of _ "[]"])
  next
    case False
    have "readable ?st" using less.prems n(2) by (simp add: readable_def)
    moreover have "length (delivered (sr_source ?st)) < length (delivered (sr_source st))" using n(3) False by simp
    ultimately obtain st' cs where r: "preview_pass ?st (pc_observe (sr_source_bytes st) chunk c) =
        Inr (st', in_order (sr_source_bytes st + length chunk) cs (pc_observe (sr_source_bytes st) chunk c))" "[] \<notin> set cs"
      "concat cs = delivered d" "sr_source_bytes st' = sr_source_bytes st + length chunk + length (concat cs)"
      using less.hyps [of ?st "pc_observe (sr_source_bytes st) chunk c"] by auto
    have "preview_pass st c = Inr (st', in_order (sr_source_bytes st) (chunk # cs) c)"
      using r(1) n(1) False by (subst preview_pass.simps) simp
    then show ?thesis using r n(3) False by (intro exI [of _ st'] exI [of _ "chunk # cs"]) simp
  qed
qed

lemma in_budget_with_staged:
  assumes "staged_calls.in_budget env p new limit n t m" "healthy env n' st"
  shows "staged_calls.in_budget env p new limit n' t (with_staged st m)"
  using assms by (simp add: staged_calls.in_budget_def with_staged_def)

lemma scan_source_ok:
  fixes t rest :: string
  assumes "p \<noteq> []" "reads_as (se_prefix_reads env) (t @ rest)" "length (t @ rest) \<le> limit" "length (t @ rest) - length p + length new \<le> limit"
    and "staged_candidate.tracking env p new on t m" "staged_calls.in_budget env p new limit (length t) t m"
    and "scanned t rest (cw_staged (sm_writer m))" "readable (cw_staged (sm_writer m))" "sr_identity (cw_staged (sm_writer m)) = ident"
  shows "\<exists>m'. scan_source env limit (length t) m = Some (Inr m') \<and> staged_candidate.tracking env p new on (t @ rest) m' \<and>
    healthy env (length (t @ rest)) (cw_staged (sm_writer m')) \<and> scanned (t @ rest) [] (cw_staged (sm_writer m')) \<and>
    0 < sr_buffer_bytes (cw_staged (sm_writer m')) \<and> sr_identity (cw_staged (sm_writer m')) = ident"
  using assms(2-9)
proof (induction "length rest" arbitrary: t rest m rule: less_induct)
  case less
  let ?st = "cw_staged (sm_writer m)"
  obtain chunk d where n: "next_source ?st = Inr (chunk, ?st\<lparr>sr_source := d, sr_stop := None, sr_source_bytes := sr_source_bytes ?st + length chunk\<rparr>)"
    "faultless d" "delivered (sr_source ?st) = chunk @ delivered d" "chunk = [] \<longrightarrow> delivered (sr_source ?st) = []"
    using next_source_ok [OF less.prems(7)] by blast
  define st where "st = ?st\<lparr>sr_source := d, sr_stop := None, sr_source_bytes := sr_source_bytes ?st + length chunk\<rparr>"
  note nxt = n(1) [folded st_def]
  obtain rest' where sc: "rest = chunk @ rest'" "scanned (t @ chunk) rest' st" "candidate_text st = candidate_text ?st" "sr_identity st = sr_identity ?st"
    using next_source_scanned [OF nxt less.prems(6)] by blast
  have tr: "staged_candidate.tracking env p new on t (with_staged st m)" using tracking_with_staged [OF sc(3)] less.prems(4) by simp
  have "healthy env (length (t @ chunk)) st"
    using less.prems(1,5) sc(1,2) by (simp add: staged_calls.in_budget_def healthy_def reads_as_def scanned_def st_def)
  note b = in_budget_with_staged [OF less.prems(5) this] and h = this
  have rd: "faultless (sr_source st)" "0 < sr_buffer_bytes st" "sr_stop st = None" using n(2) less.prems(7) by (simp_all add: st_def readable_def)
  show ?case
  proof (cases "chunk = []")
    case True
    then have "rest = []" using n(4) less.prems(6) by (simp add: scanned_def)
    moreover have "scan_source env limit (length t) m = Some (Inr (with_staged st m))" using nxt True by (subst scan_source.simps) simp
    moreover have "cw_staged (sm_writer (with_staged st m)) = st" by (simp add: with_staged_def)
    ultimately show ?thesis using tr sc h rd less.prems(8) True by simp
  next
    case False
    have le: "length (t @ chunk) \<le> limit" "length (t @ chunk) - length p + length new \<le> limit"
      using less.prems(2,3) sc(1) by auto
    obtain m1 where m1: "sm_feed (staged_file_ops env) chunk (length t) (with_staged st m) = Some (Inr m1)"
      "staged_candidate.tracking env p new on (t @ chunk) m1" "staged_calls.in_budget env p new limit (length (t @ chunk)) (t @ chunk) m1"
      using staged_calls.feed_in_budget [OF assms(1) tr b] le(2) by blast
    have part: "source_part (cw_staged (sm_writer m1)) = source_part st"
      using staged_source.sm_feed_part [OF m1(1)] by (simp add: with_staged_def)
    then have sc1: "scanned (t @ chunk) rest' (cw_staged (sm_writer m1))"
      using scanned_part [of "cw_staged (sm_writer m1)" st "t @ chunk" rest'] sc(2) by blast
    have "sr_stop (cw_staged (sm_writer m1)) = None" using m1(3) by (simp add: staged_calls.in_budget_def healthy_def)
    then have rd1: "readable (cw_staged (sm_writer m1))" "sr_identity (cw_staged (sm_writer m1)) = ident"
      using part rd sc(4) less.prems(8) by (simp_all add: readable_def source_part_def)
    have all: "t @ rest = (t @ chunk) @ rest'" using sc(1) by simp
    have "\<not> sr_source_bytes st > limit" using le(1) sc(2) by (simp add: scanned_def)
    then have "scan_source env limit (length t) m = scan_source env limit (length (t @ chunk)) m1"
      using m1(1) False by (subst scan_source.simps) (simp add: nxt)
    moreover have "length rest' < length rest" using sc(1) False by simp
    ultimately show ?thesis
      using less.hyps [of rest' "t @ chunk" m1] less.prems(1-3) m1(2,3) sc1 rd1 unfolding all by simp
  qed
qed
lemma StagedReplacement_ok:
  assumes "untouched env info s" "CHR 0x00 \<notin> set path" "cooperative ws"
  shows "\<exists>st. StagedReplacement env path kStreamBufferBytes ws None = Inr st \<and> scanned [] s st \<and> candidate_text st = [] \<and>
    healthy env 0 st \<and> readable st \<and> sr_identity st = identity_of info"
proof -
  obtain d where d: "se_open_source env = Inr d" "faultless d" "delivered d = s" using assms(1) by (auto simp: untouched_def reads_as_def)
  have "se_opened_stat env = Inr info" "se_open_directory env = None" "se_mkostemp env = None" "faultless (se_prefix_reads env)"
    "editable_stat info (length s)"
    using assms(1) by (simp_all add: untouched_def reads_as_def)
  then show ?thesis
    using d assms(2,3)
    by (simp add: StagedReplacement_def kStreamBufferBytes_def kMinBufferBytes_def kMaxBufferBytes_def checked_path_def os_def os_ok_def
        checked_regular_def editable_stat_def scanned_def candidate_text_def healthy_def readable_def)
qed

text \<open>The two ends of a unique match: a publication, or a second pass when nothing changes.\<close>

lemma commit_changed_ok:
  fixes t :: string
  assumes u: "untouched env info t" and once: "staged_candidate.matched_once env old new True t m" and ne: "old \<noteq> new"
    and sc: "scanned t [] (cw_staged (sm_writer m))" and h: "healthy env (length t) (cw_staged (sm_writer m))"
    and ident: "sr_identity (cw_staged (sm_writer m)) = identity_of info" and ctx: "ctx \<le> kMaxContextLines"
    and fit: "length t < kNoStop" "length t - length old + length new < kNoStop"
  shows "commit_edit env old new ctx (match_result old new (length t) (sm_match_byte m)) m =
    (Inr (edit_view t old new ctx (sm_match_byte m)), Some (replaced t old new (sm_match_byte m)))"
proof -
  let ?i = "sm_match_byte m"
  have occ: "occurs_at t old ?i" and span: "sm_span m = old"
    and out: "staged_candidate.contents (sm_writer m) = take ?i t @ new @ drop (?i + length old) t"
    using once u by (simp_all add: staged_candidate.matched_once_def untouched_def reads_as_def)
  define before after where "before = take ?i t" and "after = drop (?i + length old) t"
  have t: "t = before @ old @ after" "?i \<le> length t" using unique_rest [OF occ] by (simp_all add: before_def after_def)
  then have b: "length before = ?i" by (simp add: before_def)
  obtain w where w: "cw_flush (staged_file_ops env) (sm_writer m) = Inr w" "healthy env (length t) (cw_staged w)"
    using staged_calls.cw_flush_ok [OF h] by blast
  let ?st = "cw_staged w"
  have cand: "candidate_text ?st = before @ new @ after"
    using staged_candidate.cw_flush_contents [OF w(1)] out unfolding before_def after_def
    by (metis append_Nil2 staged_candidate.contents_def)
  have part: "source_part ?st = source_part (cw_staged (sm_writer m))" by (rule staged_source.cw_flush_part [OF w(1)])
  have "scanned t [] ?st" using scanned_part [OF part, of t "[]"] sc by blast
  then have n: "sr_source_bytes ?st = length t" "sr_candidate_bytes ?st = length (candidate_text ?st)" by (simp_all add: scanned_def)
  have id: "sr_identity ?st = identity_of info" using part ident by (simp add: source_part_def)
  obtain st' obs where p: "publish env ?i old pc_observe ?st (PreviewCapture ?i old new) = Published st' (candidate_text ?st) obs"
    using publish_ok [OF u t(1) cand w(2) n id, of pc_observe] b by metis
  have c: "commit_edit env old new ctx (match_result old new (length t) ?i) m =
      (show_edit old new ctx (match_result old new (length t) ?i) obs, Some (before @ new @ after))"
    using ne w(1) p cand span by (simp add: commit_edit_def Let_def)
  obtain d before' after' rest' where q: "se_reopen env = Inr d" "delivered d = before' @ old @ after' @ rest'" "steady d \<longrightarrow> rest' = []"
    "before @ new @ after = before' @ new @ after'" "old \<noteq> new" "length before' = ?i" "after' = drop (length before' + length old) t"
    "length t = length (before' @ old @ after')"
    "ctx \<le> kMaxContextLines \<and> texts_fit before' old new after' \<longrightarrow> show_edit old new ctx (match_result old new (length t) ?i) obs =
       Inr (synced_result (se_sync_directory env) (edit_view (before' @ old @ after') old new ctx (length before')))"
    using commit_edit_published [OF once sc _ c untouched_reads_back [OF u]] ne by metis
  have same: "before' = before" "after' = after" using q(4,6) b by auto
  have "texts_fit before old new after" using fit t(1) by (simp add: texts_fit_def)
  then have "show_edit old new ctx (match_result old new (length t) ?i) obs = Inr (edit_view t old new ctx ?i)"
    using q(9) ctx u b unfolding same t(1) [symmetric] by (simp add: synced_result_def untouched_def)
  then show ?thesis unfolding c replaced_def before_def after_def by simp
qed

lemma commit_unchanged_ok:
  fixes t :: string
  assumes u: "untouched env info t" and once: "staged_candidate.matched_once env old old False t m"
    and sc: "scanned t [] (cw_staged (sm_writer m))" and h: "healthy env (length t) (cw_staged (sm_writer m))"
    and buf: "0 < sr_buffer_bytes (cw_staged (sm_writer m))" and ctx: "ctx \<le> kMaxContextLines" and fit: "length t < kNoStop"
  shows "commit_edit env old old ctx (match_result old old (length t) (sm_match_byte m)) m =
    (Inr (edit_view t old old ctx (sm_match_byte m)), None)"
proof -
  let ?i = "sm_match_byte m" and ?st = "cw_staged (sm_writer m)"
  have occ: "occurs_at t old ?i" using once by (simp add: staged_candidate.matched_once_def)
  define before after where "before = take ?i t" and "after = drop (?i + length old) t"
  have t: "t = before @ old @ after" "?i \<le> length t" using unique_rest [OF occ] by (simp_all add: before_def after_def)
  then have b: "length before = ?i" by (simp add: before_def)
  let ?st1 = "?st\<lparr>sr_source := se_second_reads env, sr_source_bytes := 0\<rparr>"
  have rs: "restart_source env ?st = Inr ?st1" using u by (simp add: restart_source_def untouched_def os_ok_def)
  have second: "reads_as (se_second_reads env) t" using u by (simp add: untouched_def)
  then have "readable ?st1" using h buf by (simp add: readable_def healthy_def reads_as_def)
  from preview_pass_ok [OF this, of "PreviewCapture ?i old old"]
  obtain st' cs where p: "preview_pass ?st1 (PreviewCapture ?i old old) = Inr (st', in_order 0 cs (PreviewCapture ?i old old))"
    "[] \<notin> set cs" "concat cs = t" "sr_source_bytes st' = length t"
    using second by (auto simp: reads_as_def)
  have tf: "texts_fit before old old after" using fit t(1) by (simp add: texts_fit_def)
  then have c0: "captured_upto before old old after 0 (PreviewCapture ?i old old)"
    using captured_new [of before old after old] b by (simp add: texts_fit_def)
  have "captured_upto before old old after (0 + length (concat cs)) (in_order 0 cs (PreviewCapture ?i old old))"
    by (rule in_order_captured [OF tf c0 p(2)]) (simp add: p(3) flip: t(1))
  then have cap: "captured_upto before old old after (length (before @ old @ after)) (in_order 0 cs (PreviewCapture ?i old old))"
    unfolding p(3) t(1) [symmetric] by simp
  have bytes: "ed_before_bytes (match_result old old (length t) ?i) = length t" by (simp add: match_result_def)
  have "commit_edit env old old ctx (match_result old old (length t) ?i) m =
      (show_edit old old ctx (match_result old old (length t) ?i) (in_order 0 cs (PreviewCapture ?i old old)), None)"
    using rs p(1,4) bytes by (simp add: commit_edit_def Let_def)
  also have "show_edit old old ctx (match_result old old (length t) ?i) (in_order 0 cs (PreviewCapture ?i old old)) =
      Inr (edit_view t old old ctx ?i)"
    using show_match_result [OF tf cap ctx, of None] unfolding t(1) [symmetric] b by (simp add: synced_result_def)
  finally show ?thesis .
qed

lemma str_replace_file_untouched:
  assumes u: "untouched env info s" and ok: "CHR 0x00 \<notin> set path" "cooperative ws" "old \<noteq> []" "ctx \<le> 20"
    and lim: "length s \<le> limit" "length s - length old + length new \<le> limit" "limit < size_max"
  shows "\<exists>p. prepare_str_replace s old new ctx limit = Inr p \<and>
    str_replace_file env path old new ctx limit ws None =
      Some (Inr (pe_result p), if ed_status (pe_result p) = Modified then Some (pe_updated_text p) else None)"
proof -
  have ctx: "ctx \<le> kMaxContextLines" using ok(4) by (simp add: kMaxContextLines_def)
  obtain st where st: "StagedReplacement env path kStreamBufferBytes ws None = Inr st" "scanned [] s st" "candidate_text st = []"
    "healthy env 0 st" "readable st" "sr_identity st = identity_of info"
    using StagedReplacement_ok [OF u ok(1,2)] by blast
  let ?w = "if old = new then cw_enable False (CandidateWriter st limit) else CandidateWriter st limit"
  obtain m0 where m0: "StreamingMatcher old new ?w = Some m0" "staged_candidate.tracking env old new (old \<noteq> new) [] m0" "sm_writer m0 = ?w"
    using new_matcher [OF ok(3) st(3,2), of new limit env] by auto
  have w: "cw_staged ?w = st" "cw_limit ?w = limit" by (simp_all add: CandidateWriter_def cw_enable_def)
  have "\<not> sm_found m0" using m0(1) by (auto simp: StreamingMatcher_def split: option.splits)
  then have b: "staged_calls.in_budget env old new limit 0 [] m0" using st(4) w m0(3) by (simp add: staged_calls.in_budget_def)
  have pre: "reads_as (se_prefix_reads env) ([] @ s)" using u by (simp add: untouched_def)
  obtain m where m: "scan_source env limit 0 m0 = Some (Inr m)" "staged_candidate.tracking env old new (old \<noteq> new) s m"
    "healthy env (length s) (cw_staged (sm_writer m))" "scanned s [] (cw_staged (sm_writer m))"
    "0 < sr_buffer_bytes (cw_staged (sm_writer m))" "sr_identity (cw_staged (sm_writer m)) = identity_of info"
    using scan_source_ok [OF ok(3) pre, of limit new "old \<noteq> new" m0 "identity_of info"] lim b m0(2,3) w(1) st by auto
  have run: "str_replace_file env path old new ctx limit ws None = Some (finish_edit env old new ctx limit m)"
    using ok(3) ctx lim st(1) m0(1) m(1) by (simp add: str_replace_file_def)
  note reference = prepare_str_replace_exact [OF ok(3) ctx lim(1)]
  show ?thesis
  proof (cases rule: finish_edit_cases [OF m(2,4), of ctx limit])
    case 1
    then show ?thesis using run reference(1) [of new] by (simp add: missing_view_def EditResult_def)
  next
    case (2 i j)
    then show ?thesis using run reference(2) [OF 2(1), of new] by (simp add: ambiguous_view_def EditResult_def)
  next
    case 3
    let ?i = "sm_match_byte m"
    have occ: "\<And>k. occurs_at s old k \<longleftrightarrow> k = ?i" using 3 by (simp add: staged_candidate.matched_once_def)
    then have len: "length (replaced s old new ?i) = length s - length old + length new" by (intro replaced_length) blast
    have f: "finish_edit env old new ctx limit m = commit_edit env old new ctx (match_result old new (length s) ?i) m"
      using finish_edit_once [OF 3 m(4), of ctx limit] lim(2) by simp
    have p: "prepare_str_replace s old new ctx limit = Inr \<lparr>pe_result = edit_view s old new ctx ?i,
        pe_updated_text = (if old \<noteq> new then replaced s old new ?i else [])\<rparr>"
      using reference(3) [OF occ, of new] len lim(2) by simp
    have status: "ed_status (edit_view s old new ctx ?i) = (if old \<noteq> new then Modified else Unchanged)" by (simp add: edit_view_def Let_def)
    have "commit_edit env old new ctx (match_result old new (length s) ?i) m =
        (Inr (edit_view s old new ctx ?i), if old \<noteq> new then Some (replaced s old new ?i) else None)"
    proof (cases "old = new")
      case True
      then show ?thesis using commit_unchanged_ok [OF u _ m(4,3,5) ctx] 3 lim by (simp add: kNoStop_def)
    next
      case False
      then show ?thesis using commit_changed_ok [OF u _ False m(4,3,6) ctx] 3 lim by (simp add: kNoStop_def)
    qed
    then show ?thesis using run f p status by simp
  qed
qed

text \<open>
  C9. The streamed edit is the in-memory edit: on a file that nobody else touches, whatever the sizes in
  which the system delivers and takes bytes, editing the file returns exactly what the reference computes on
  its whole content (status, coordinates, both excerpts), and a modified file holds the updated text.
\<close>

theorem str_replace_file_reference:
  assumes "untouched env info s" and "CHR 0x00 \<notin> set path" "cooperative ws" "old \<noteq> []" "ctx \<le> 20"
    and "length s \<le> limit" "length s - length old + length new \<le> limit" "limit < size_max"
  shows "\<exists>p. prepare_str_replace s old new ctx limit = Inr p \<and>
    str_replace_file env path old new ctx limit ws None =
      Some (Inr (pe_result p), if ed_status (pe_result p) = Modified then Some (pe_updated_text p) else None)"
  by (rule str_replace_file_untouched [OF assms])

text \<open>A small run of it.\<close>

lemma dash_occurs: "occurs_at ''a-b'' ''-'' k \<longleftrightarrow> k = 1"
  by (auto simp: occurs_at_def substr_def less_Suc_eq take_Cons' drop_Cons' numeral_3_eq_3)

lemma dash_prepared:
  "prepare_str_replace ''a-b'' ''-'' ''+'' 3 100 = Inr \<lparr>pe_result = edit_view ''a-b'' ''-'' ''+'' 3 1, pe_updated_text = ''a+b''\<rparr>"
  using prepare_str_replace_exact(3) [of "''-''" 3 "''a-b''" 100, OF _ _ _ dash_occurs, of "''+''"]
  by (simp add: kMaxContextLines_def replaced_def)

lemma dash_status: "ed_status (edit_view ''a-b'' ''-'' ''+'' 3 1) = Modified"
  by (simp add: edit_view_def Let_def)

lemma dash_untouched: "untouched (undisturbed_env ''a-b'' (plain_stat 3)) (plain_stat 3) ''a-b''"
  using undisturbed_untouched [of "''a-b''"] by (simp add: numeral_3_eq_3)

lemma dash_run:
  "str_replace_file (undisturbed_env ''a-b'' (plain_stat 3)) ''f'' ''-'' ''+'' 3 100 [Wrote 0] None =
     Some (Inr (edit_view ''a-b'' ''-'' ''+'' 3 1), Some ''a+b'')"
  using str_replace_file_untouched [OF dash_untouched, of "''f''" "[Wrote 0]" "''-''" 3 100 "''+''"] dash_prepared dash_status
  by (auto simp: cooperative_def size_max_def)

theorem str_replace_file_reference_witness:
  "str_replace_file (undisturbed_env ''a-b'' (plain_stat 3)) ''f'' ''-'' ''+'' 3 100 [WriteInterrupted, Wrote 0] None =
     Some (Inr (edit_view ''a-b'' ''-'' ''+'' 3 1), Some ''a+b'')"
  using str_replace_file_reference [OF dash_untouched, of "''f''" "[WriteInterrupted, Wrote 0]" "''-''" 3 100 "''+''"] dash_prepared dash_status
  by (auto simp: cooperative_def size_max_def)

theorem str_replace_file_publishes_witness:
  "\<exists>before after. ''a+b'' = before @ ''+'' @ after \<and> ''a-b'' = before @ ''-'' @ after"
proof -
  obtain d' before after rest' where p: "se_reopen (undisturbed_env ''a-b'' (plain_stat 3)) = Inr d'"
    "delivered d' = before @ ''-'' @ after @ rest'" "steady d' \<longrightarrow> rest' = []" "''a+b'' = before @ ''+'' @ after"
    using str_replace_file_publishes [OF dash_run undisturbed_reads_back] by blast
  then have "d' = unread ''a-b'' []" by (simp add: undisturbed_env_def)
  then show ?thesis using p by auto
qed

theorem str_replace_file_reports_witness:
  "\<exists>result. Inr (edit_view ''a-b'' ''-'' ''+'' 3 1) = (Inr result :: edit_result result) \<and> ed_status result \<in> {Modified, PublishedSyncFailed}"
  using str_replace_file_reports [OF dash_run undisturbed_reads_back] by (simp add: size_max_def)

text \<open>
  Where the two differ: a replacement that stops fitting at the first of several matches is refused by the
  streamed edit, while the reference reports the ambiguity.
\<close>

lemma overflow_before_ambiguity:
  "str_replace_file (undisturbed_env ''aa'' (plain_stat 2)) ''f'' ''a'' ''bbb'' 3 3 [] None =
     Some (Inl (LengthError ''edited text exceeds the configured byte limit''), None)"
  "prepare_str_replace ''aa'' ''a'' ''bbb'' 3 3 = Inr \<lparr>pe_result = ambiguous_view 2 0 1, pe_updated_text = []\<rparr>"
proof -
  have "first_two ''aa'' ''a'' 0 1" by (auto simp: first_two_def occurs_at_def substr_def)
  then show "prepare_str_replace ''aa'' ''a'' ''bbb'' 3 3 = Inr \<lparr>pe_result = ambiguous_view 2 0 1, pe_updated_text = []\<rparr>"
    using prepare_str_replace_exact(2) [of "''a''" 3 "''aa''" 3 0 1 "''bbb''"] by (simp add: kMaxContextLines_def numeral_2_eq_2)
  show "str_replace_file (undisturbed_env ''aa'' (plain_stat 2)) ''f'' ''a'' ''bbb'' 3 3 [] None =
     Some (Inl (LengthError ''edited text exceeds the configured byte limit''), None)"
    by (simp add: str_replace_file_def kMaxContextLines_def size_max_def StagedReplacement_def kStreamBufferBytes_def kMinBufferBytes_def
      kMaxBufferBytes_def checked_path_def undisturbed_env_def os_def os_ok_def checked_regular_def plain_stat_def s_isreg_def special_bits_def
      StreamingMatcher_def kmp_prefix_def kmp_loop.simps CandidateWriter_def Let_def scan_source.simps next_source_def unread_def
      with_staged_def sm_step_def sm_complete_def fall_pending.simps substr_def cw_begin_def cw_append_def staged_file_ops_def
      copy_prefix_def kFlushBytes_def)
qed

end
