(* ===== verification/Loop_Hooks.thy ===== *)
theory Loop_Hooks
  imports Prelude "HOL-Library.Multiset"
begin

text \<open>
  The synchronous event bus (\<^verbatim>\<open>utils/eventbus/include/eventbus/event_bus.hpp\<close>) and the registry of loop hooks on it
  (\<^verbatim>\<open>loop/src/hook_registry.cpp\<close>, \<^verbatim>\<open>hook_interface.cpp\<close>). A signal keeps its slots in the order of their groups, so a slot
  with the next group goes to the end; a holder has an identity, since a connection outlives the registry entry that
  \<^verbatim>\<open>clear\<close> removes. What the virtual \<^verbatim>\<open>subscribe\<close> of a hook does to the bus is a parameter; the locale \<open>hook_contract\<close>
  says what the interface asks of it, and it is interpreted on hooks that adopt each connection as they make it.
\<close>

section \<open>The bus\<close>

type_synonym connection = "nat \<times> nat"

record 'c signal =
  sg_next_group :: nat
  sg_slots :: "(nat \<times> 'c) list"

record ('ev, 'c) bus =
  bus_holders :: "'ev \<rightharpoonup> nat"
  bus_signals :: "nat \<Rightarrow> 'c signal"
  bus_fresh :: nat

definition EventBus :: "('ev, 'c) bus" where
  "EventBus = \<lparr>bus_holders = Map.empty, bus_signals = (\<lambda>_. \<lparr>sg_next_group = 0, sg_slots = []\<rparr>), bus_fresh = 0\<rparr>"

definition holder_for :: "'ev \<Rightarrow> ('ev, 'c) bus \<Rightarrow> nat \<times> ('ev, 'c) bus" where
  "holder_for ev b =
     (case bus_holders b ev of
        Some i \<Rightarrow> (i, b)
      | None \<Rightarrow>
          (bus_fresh b,
           b\<lparr>bus_holders := (bus_holders b)(ev \<mapsto> bus_fresh b),
             bus_signals := (bus_signals b)(bus_fresh b := \<lparr>sg_next_group = 0, sg_slots = []\<rparr>),
             bus_fresh := bus_fresh b + 1\<rparr>))"

definition bus_subscribe :: "'ev \<Rightarrow> 'c \<Rightarrow> ('ev, 'c) bus \<Rightarrow> connection \<times> ('ev, 'c) bus" where
  "bus_subscribe ev slot b =
     (let (i, b1) = holder_for ev b; s = bus_signals b1 i; group = sg_next_group s in
      ((i, group),
       b1\<lparr>bus_signals := (bus_signals b1)(i := \<lparr>sg_next_group = group + 1, sg_slots = sg_slots s @ [(group, slot)]\<rparr>)\<rparr>))"

text \<open>The destructor of a scoped subscription.\<close>

definition disconnect :: "connection \<Rightarrow> ('ev, 'c) bus \<Rightarrow> ('ev, 'c) bus" where
  "disconnect k b =
     b\<lparr>bus_signals := (bus_signals b)(fst k := (bus_signals b (fst k))
       \<lparr>sg_slots := filter (\<lambda>s. fst s \<noteq> snd k) (sg_slots (bus_signals b (fst k)))\<rparr>)\<rparr>"

definition connected_slots :: "('ev, 'c) bus \<Rightarrow> 'ev \<Rightarrow> 'c list" where
  "connected_slots b ev = (case bus_holders b ev of None \<Rightarrow> [] | Some i \<Rightarrow> map snd (sg_slots (bus_signals b i)))"

text \<open>The slots run in order on the state they share; an exception skips the rest.\<close>

fun deliver :: "('c \<Rightarrow> 'w \<Rightarrow> exn option \<times> 'w) \<Rightarrow> 'c list \<Rightarrow> 'w \<Rightarrow> exn option \<times> 'w" where
  "deliver call [] w = (None, w)"
| "deliver call (slot # slots) w =
     (let (failure, w') = call slot w in if failure = None then deliver call slots w' else (failure, w'))"

definition bus_publish :: "('c \<Rightarrow> 'w \<Rightarrow> exn option \<times> 'w) \<Rightarrow> 'ev \<Rightarrow> ('ev, 'c) bus \<Rightarrow> 'w \<Rightarrow> exn option \<times> 'w" where
  "bus_publish call ev b w =
     (case bus_holders b ev of
        None \<Rightarrow> (None, w)
      | Some i \<Rightarrow> deliver call (map snd (sg_slots (bus_signals b i))) w)"

definition subscriber_count :: "'ev \<Rightarrow> ('ev, 'c) bus \<Rightarrow> nat" where
  "subscriber_count ev b = (case bus_holders b ev of None \<Rightarrow> 0 | Some i \<Rightarrow> length (sg_slots (bus_signals b i)))"

definition bus_clear :: "('ev, 'c) bus \<Rightarrow> ('ev, 'c) bus" where
  "bus_clear b =
     b\<lparr>bus_holders := Map.empty,
       bus_signals := (\<lambda>i. if i \<in> ran (bus_holders b) then (bus_signals b i)\<lparr>sg_slots := []\<rparr> else bus_signals b i)\<rparr>"

section \<open>The registry\<close>

text \<open>\<open>subscribe\<close> is the virtual member of a hook, which may throw; an entry owns the connections it returned.\<close>

type_synonym ('ev, 'c, 'h) subscriber = "'h \<Rightarrow> ('ev, 'c) bus \<Rightarrow> connection list result \<times> ('ev, 'c) bus"

record 'h hook_entry =
  en_name :: string
  en_hook :: 'h
  en_subscriptions :: "connection list"

type_synonym ('ev, 'c, 'h) hook_registry = "'h hook_entry list \<times> ('ev, 'c) bus"

definition release :: "connection list \<Rightarrow> ('ev, 'c) bus \<Rightarrow> ('ev, 'c) bus" where
  "release ks b = fold disconnect ks b"

definition find_hook :: "string \<Rightarrow> 'h hook_entry list \<Rightarrow> 'h hook_entry option" where
  "find_hook name entries = find (\<lambda>en. en_name en = name) entries"

definition hooks_contains :: "string \<Rightarrow> 'h hook_entry list \<Rightarrow> bool" where
  "hooks_contains name entries \<longleftrightarrow> find_hook name entries \<noteq> None"

definition hooks_get :: "string \<Rightarrow> 'h hook_entry list \<Rightarrow> 'h option" where
  "hooks_get name entries = map_option en_hook (find_hook name entries)"

text \<open>\<^const>\<open>None\<close> is a null pointer.\<close>

definition attach :: "('ev, 'c, 'h) subscriber \<Rightarrow> 'h option \<Rightarrow> ('ev, 'c) bus \<Rightarrow> connection list result \<times> ('ev, 'c) bus" where
  "attach subscribe hook b =
     (case hook of
        None \<Rightarrow> (Inl (InvalidArgument ''loop hook must not be null''), b)
      | Some h \<Rightarrow> subscribe h b)"

definition hooks_add ::
  "('h \<Rightarrow> string) \<Rightarrow> ('ev, 'c, 'h) subscriber \<Rightarrow> 'h option \<Rightarrow> ('ev, 'c, 'h) hook_registry \<Rightarrow> unit result \<times> ('ev, 'c, 'h) hook_registry" where
  "hooks_add name_of subscribe hook reg =
     (let (entries, b) = reg in
      case hook of
        None \<Rightarrow> (Inl (InvalidArgument ''LoopHookRegistry::add received a null hook''), reg)
      | Some h \<Rightarrow>
          if name_of h = [] then (Inl (InvalidArgument ''LoopHookRegistry::add received an unnamed hook''), reg)
          else if hooks_contains (name_of h) entries then
            (Inl (RuntimeError (''loop hook already registered: '' @ name_of h)), reg)
          else
            (case attach subscribe hook b of
               (Inl e, b') \<Rightarrow> (Inl e, entries, b')
             | (Inr ks, b') \<Rightarrow>
                 (Inr (), entries @ [\<lparr>en_name = name_of h, en_hook = h, en_subscriptions = ks\<rparr>], b')))"

text \<open>The move assignment of a binding: disconnect the old callbacks, then take the new ones.\<close>

fun replace_entry :: "string \<Rightarrow> 'h \<Rightarrow> connection list \<Rightarrow> 'h hook_entry list \<times> ('ev, 'c) bus \<Rightarrow> 'h hook_entry list \<times> ('ev, 'c) bus" where
  "replace_entry name h ks ([], b) = ([], b)"
| "replace_entry name h ks (en # entries, b) =
     (if en_name en = name then (en\<lparr>en_hook := h, en_subscriptions := ks\<rparr> # entries, release (en_subscriptions en) b)
      else let (entries', b') = replace_entry name h ks (entries, b) in (en # entries', b'))"

definition hooks_set ::
  "('h \<Rightarrow> string) \<Rightarrow> ('ev, 'c, 'h) subscriber \<Rightarrow> 'h option \<Rightarrow> ('ev, 'c, 'h) hook_registry \<Rightarrow> bool result \<times> ('ev, 'c, 'h) hook_registry" where
  "hooks_set name_of subscribe hook reg =
     (let (entries, b) = reg in
      case hook of
        None \<Rightarrow> (Inl (InvalidArgument ''LoopHookRegistry::set received a null hook''), reg)
      | Some h \<Rightarrow>
          if name_of h = [] then (Inl (InvalidArgument ''LoopHookRegistry::set received an unnamed hook''), reg)
          else if \<not> hooks_contains (name_of h) entries then
            (let (r, reg') = hooks_add name_of subscribe hook reg in (and_then r (\<lambda>_. Inr False), reg'))
          else
            (case attach subscribe hook b of
               (Inl e, b') \<Rightarrow> (Inl e, entries, b')
             | (Inr ks, b') \<Rightarrow> (Inr True, replace_entry (name_of h) h ks (entries, b'))))"

fun remove_entry :: "string \<Rightarrow> 'h hook_entry list \<times> ('ev, 'c) bus \<Rightarrow> 'h hook_entry list \<times> ('ev, 'c) bus" where
  "remove_entry name ([], b) = ([], b)"
| "remove_entry name (en # entries, b) =
     (if en_name en = name then (entries, release (en_subscriptions en) b)
      else let (entries', b') = remove_entry name (entries, b) in (en # entries', b'))"

definition hooks_remove :: "string \<Rightarrow> ('ev, 'c, 'h) hook_registry \<Rightarrow> bool \<times> ('ev, 'c, 'h) hook_registry" where
  "hooks_remove name reg =
     (if \<not> hooks_contains name (fst reg) then (False, reg) else (True, remove_entry name reg))"

definition owned :: "'h hook_entry list \<Rightarrow> connection list" where
  "owned entries = concat (map en_subscriptions entries)"

definition hooks_clear :: "('ev, 'c, 'h) hook_registry \<Rightarrow> ('ev, 'c, 'h) hook_registry" where
  "hooks_clear reg = ([], release (owned (fst reg)) (snd reg))"

definition get_registered :: "('ev, 'c, 'h) hook_registry \<Rightarrow> 'h list" where
  "get_registered reg = map en_hook (fst reg)"

section \<open>The slots of a set of connections\<close>

text \<open>The callbacks of an event whose connection satisfies \<open>P\<close>, in the order they run.\<close>

definition select :: "(connection \<Rightarrow> bool) \<Rightarrow> ('ev, 'c) bus \<Rightarrow> 'ev \<Rightarrow> 'c list" where
  "select P b ev =
     (case bus_holders b ev of
        None \<Rightarrow> []
      | Some i \<Rightarrow> map snd (filter (\<lambda>s. P (i, fst s)) (sg_slots (bus_signals b i))))"

lemma select_all: "select (\<lambda>_. True) b ev = connected_slots b ev"
  by (simp add: select_def connected_slots_def split: option.splits)

text \<open>Publication runs them in order up to the first exception; clearing the bus leaves none.\<close>

lemma bus_slots:
  "bus_publish call ev b w = deliver call (connected_slots b ev) w"
  "subscriber_count ev b = length (connected_slots b ev)"
  "connected_slots (bus_clear b) ev = []"
  by (simp_all add: bus_publish_def subscriber_count_def bus_clear_def connected_slots_def split: option.splits)

lemma deliver_stops:
  "deliver call (xs @ ys) w = (case deliver call xs w of (None, w') \<Rightarrow> deliver call ys w' | (Some e, w') \<Rightarrow> (Some e, w'))"
  by (induction xs arbitrary: w) (auto simp: Let_def split: prod.splits option.splits)

definition bus_ok :: "('ev, 'c) bus \<Rightarrow> bool" where
  "bus_ok b \<longleftrightarrow>
     (\<forall>ev i. bus_holders b ev = Some i \<longrightarrow> i < bus_fresh b) \<and>
     (\<forall>ev ev' i. bus_holders b ev = Some i \<and> bus_holders b ev' = Some i \<longrightarrow> ev = ev') \<and>
     (\<forall>i s. s \<in> set (sg_slots (bus_signals b i)) \<longrightarrow> fst s < sg_next_group (bus_signals b i))"

text \<open>A connection that the bus has handed out.\<close>

definition issued :: "('ev, 'c) bus \<Rightarrow> connection \<Rightarrow> bool" where
  "issued b k \<longleftrightarrow> fst k < bus_fresh b \<and> snd k < sg_next_group (bus_signals b (fst k))"

definition keeps_issued :: "('ev, 'c) bus \<Rightarrow> ('ev, 'c) bus \<Rightarrow> bool" where
  "keeps_issued b b' \<longleftrightarrow> (\<forall>k. issued b k \<longrightarrow> issued b' k)"

lemma keeps_issued_trans [trans]: "keeps_issued a b \<Longrightarrow> keeps_issued b c \<Longrightarrow> keeps_issued a c"
  by (simp add: keeps_issued_def)

lemma select_cong:
  assumes "bus_ok b" "\<And>k. issued b k \<Longrightarrow> P k = Q k"
  shows "select P b = select Q b"
proof
  fix ev
  have "filter (\<lambda>s. P (i, fst s)) (sg_slots (bus_signals b i)) = filter (\<lambda>s. Q (i, fst s)) (sg_slots (bus_signals b i))"
    if "bus_holders b ev = Some i" for i
    using assms that unfolding bus_ok_def issued_def by (intro filter_cong) fastforce+
  then show "select P b ev = select Q b ev" by (simp add: select_def split: option.splits)
qed

lemma disconnect_facts:
  "bus_ok b \<Longrightarrow> bus_ok (disconnect k b)" "keeps_issued b (disconnect k b)"
  "select P (disconnect k b) = select (\<lambda>x. P x \<and> x \<noteq> k) b"
proof -
  show "bus_ok b \<Longrightarrow> bus_ok (disconnect k b)" by (auto simp: bus_ok_def disconnect_def)
  show "keeps_issued b (disconnect k b)" by (auto simp: keeps_issued_def issued_def disconnect_def)
  show "select P (disconnect k b) = select (\<lambda>x. P x \<and> x \<noteq> k) b"
    by (cases k) (auto simp: select_def disconnect_def fun_eq_iff intro!: filter_cong arg_cong [where f = "map snd"] split: option.splits)
qed

lemma release_facts:
  assumes "bus_ok b"
  shows "bus_ok (release ks b)" "keeps_issued b (release ks b)"
    and "select P (release ks b) = select (\<lambda>x. P x \<and> x \<notin> set ks) b"
proof -
  have "bus_ok (release ks b) \<and> keeps_issued b (release ks b) \<and> select P (release ks b) = select (\<lambda>x. P x \<and> x \<notin> set ks) b"
    using assms
  proof (induction ks arbitrary: b)
    case (Cons k ks)
    note ih = Cons.IH [OF disconnect_facts(1) [OF Cons.prems]]
    have "select P (release ks (disconnect k b)) = select (\<lambda>x. P x \<and> x \<notin> set (k # ks)) b"
      using ih by (auto simp: disconnect_facts(3) intro!: arg_cong [where f = "\<lambda>p. select p b"])
    then show ?case
      using ih keeps_issued_trans [OF disconnect_facts(2) [of b k]] by (metis fold_simps(2) release_def)
  qed (simp add: release_def keeps_issued_def)
  then show "bus_ok (release ks b)" "keeps_issued b (release ks b)"
    "select P (release ks b) = select (\<lambda>x. P x \<and> x \<notin> set ks) b" by auto
qed

lemma holder_for_facts:
  assumes "bus_ok b" "holder_for ev b = (i, b')"
  shows "bus_ok b'" "keeps_issued b b'" "bus_holders b' ev = Some i" "select P b' = select P b" "i < bus_fresh b'"
proof -
  have "bus_ok b' \<and> keeps_issued b b' \<and> bus_holders b' ev = Some i \<and> select P b' = select P b \<and> i < bus_fresh b'"
  proof (cases "bus_holders b ev")
    case None
    with assms have b': "i = bus_fresh b" "b' = b\<lparr>bus_holders := (bus_holders b)(ev \<mapsto> bus_fresh b),
        bus_signals := (bus_signals b)(bus_fresh b := \<lparr>sg_next_group = 0, sg_slots = []\<rparr>), bus_fresh := bus_fresh b + 1\<rparr>"
      by (auto simp: holder_for_def)
    have "bus_ok b'" using assms(1) unfolding b' bus_ok_def by (auto simp: less_Suc_eq)
    moreover have "keeps_issued b b'" unfolding b' keeps_issued_def issued_def by auto
    moreover have "bus_holders b ev' \<noteq> Some (bus_fresh b)" for ev' using assms(1) by (auto simp: bus_ok_def)
    then have "select P b' = select P b"
      using None unfolding b' select_def by (auto simp: fun_eq_iff split: option.splits)
    ultimately show ?thesis unfolding b' by simp
  next
    case (Some j)
    with assms show ?thesis by (auto simp: holder_for_def keeps_issued_def bus_ok_def)
  qed
  then show "bus_ok b'" "keeps_issued b b'" "bus_holders b' ev = Some i" "select P b' = select P b" "i < bus_fresh b'" by auto
qed

lemma connect_facts:
  assumes "bus_ok b" "bus_holders b ev = Some i" "i < bus_fresh b"
    and "b' = b\<lparr>bus_signals := (bus_signals b)(i := \<lparr>sg_next_group = sg_next_group (bus_signals b i) + 1,
      sg_slots = sg_slots (bus_signals b i) @ [(sg_next_group (bus_signals b i), c)]\<rparr>)\<rparr>"
    and "k = (i, sg_next_group (bus_signals b i))"
  shows "bus_ok b'" "keeps_issued b b'" "issued b' k" "\<not> issued b k"
    and "select P b' ev' = select P b ev' @ (if ev' = ev \<and> P k then [c] else [])"
proof -
  show "bus_ok b'" using assms(1) unfolding assms(4) bus_ok_def by (auto simp: less_Suc_eq) blast
  show "keeps_issued b b'" "issued b' k" "\<not> issued b k"
    using assms(3) unfolding assms(4,5) keeps_issued_def issued_def by auto
  have other: "bus_holders b ev' = Some i \<Longrightarrow> ev' = ev" for ev' using assms(1,2) unfolding bus_ok_def by blast
  show "select P b' ev' = select P b ev' @ (if ev' = ev \<and> P k then [c] else [])"
  proof (cases "bus_holders b ev' = Some i")
    case True
    with other have "ev' = ev" by blast
    with True show ?thesis by (simp add: select_def assms(4,5))
  next
    case False
    with assms(2) have "ev' \<noteq> ev" by auto
    with False show ?thesis by (simp add: select_def assms(4) split: option.splits)
  qed
qed

lemma subscribe_facts:
  assumes "bus_ok b" "bus_subscribe ev c b = (k, b')"
  shows "bus_ok b'" "keeps_issued b b'" "issued b' k" "\<not> issued b k"
    and "select P b' ev' = select P b ev' @ (if ev' = ev \<and> P k then [c] else [])"
proof -
  obtain i b1 where h: "holder_for ev b = (i, b1)" by fastforce
  note f = holder_for_facts [OF assms(1) h]
  have b': "b' = b1\<lparr>bus_signals := (bus_signals b1)(i := \<lparr>sg_next_group = sg_next_group (bus_signals b1 i) + 1,
      sg_slots = sg_slots (bus_signals b1 i) @ [(sg_next_group (bus_signals b1 i), c)]\<rparr>)\<rparr>"
    "k = (i, sg_next_group (bus_signals b1 i))"
    using assms(2) h by (auto simp: bus_subscribe_def Let_def)
  note c = connect_facts [OF f(1,3,5) b']
  show "bus_ok b'" "keeps_issued b b'" "issued b' k" "\<not> issued b k"
    using c(1-4) f(2) unfolding keeps_issued_def by blast+
  show "select P b' ev' = select P b ev' @ (if ev' = ev \<and> P k then [c] else [])" using c(5) f(4) by metis
qed

section \<open>The registry accounts for every slot\<close>

text \<open>
  \<open>wants h\<close> are the callbacks of the hook \<open>h\<close> per event. In a registry in order the names are distinct, every entry owns
  connections of its own whose slots are exactly its hook's callbacks, and the remaining slots are \<open>others\<close>.
\<close>

definition registry_ok ::
  "('h \<Rightarrow> string) \<Rightarrow> ('h \<Rightarrow> 'ev \<Rightarrow> 'c list) \<Rightarrow> ('ev \<Rightarrow> 'c list) \<Rightarrow> ('ev, 'c, 'h) hook_registry \<Rightarrow> bool" where
  "registry_ok name_of wants others reg \<longleftrightarrow>
     (let (entries, b) = reg in
      bus_ok b \<and> (\<forall>k \<in> set (owned entries). issued b k) \<and>
      select (\<lambda>k. k \<notin> set (owned entries)) b = others \<and>
      (\<forall>en \<in> set entries. select (\<lambda>k. k \<in> set (en_subscriptions en)) b = wants (en_hook en) \<and>
         name_of (en_hook en) = en_name en \<and> en_name en \<noteq> []) \<and>
      sorted_wrt (\<lambda>x y. set (en_subscriptions x) \<inter> set (en_subscriptions y) = {}) entries \<and>
      distinct (map en_name entries))"

lemma contains_iff: "hooks_contains name entries \<longleftrightarrow> name \<in> en_name ` set entries"
  by (auto simp: hooks_contains_def find_hook_def find_None_iff)

lemma owned_simps [simp]:
  "owned [] = []" "owned (en # entries) = en_subscriptions en @ owned entries" "owned (xs @ ys) = owned xs @ owned ys"
  by (simp_all add: owned_def)

lemma set_owned: "set (owned entries) = (\<Union>en \<in> set entries. set (en_subscriptions en))"
  by (simp add: owned_def)

lemma replace_entry_split:
  assumes "en_name en = name" "name \<notin> en_name ` set before"
  shows "replace_entry name h ks (before @ en # after, b) =
    (before @ en\<lparr>en_hook := h, en_subscriptions := ks\<rparr> # after, release (en_subscriptions en) b)"
  using assms by (induction before) auto

lemma remove_entry_split:
  assumes "en_name en = name" "name \<notin> en_name ` set before"
  shows "remove_entry name (before @ en # after, b) = (before @ after, release (en_subscriptions en) b)"
  using assms by (induction before) auto

lemma split_at_name:
  assumes "name \<in> en_name ` set entries"
  obtains before en after where "entries = before @ en # after" "en_name en = name" "name \<notin> en_name ` set before"
  using assms split_list_first_prop [of entries "\<lambda>en. en_name en = name"] by fastforce

lemma issued_release: "issued (release ks b) x = issued b x"
proof (induction ks arbitrary: b)
  case (Cons k ks)
  have "issued (disconnect k b) x = issued b x" by (simp add: issued_def disconnect_def)
  with Cons.IH [of "disconnect k b"] show ?case by (simp add: release_def)
qed (simp add: release_def)

text \<open>An entry leaves: its connections are released, the slots of everybody else stay.\<close>

lemma registry_drop:
  assumes "registry_ok name_of wants others (before @ en # after, b)"
  shows "registry_ok name_of wants others (before @ after, release (en_subscriptions en) b)"
proof -
  let ?b = "release (en_subscriptions en) b"
  note ok = assms [unfolded registry_ok_def Let_def prod.case]
  then have "bus_ok b" by blast
  note rel = release_facts [OF this, where ks = "en_subscriptions en"]
  have apart: "set (en_subscriptions x) \<inter> set (en_subscriptions en) = {}" if "x \<in> set (before @ after)" for x
    using ok that by (auto simp: sorted_wrt_append)
  then have disj: "set (owned (before @ after)) \<inter> set (en_subscriptions en) = {}" by (auto simp: set_owned)
  have "select (\<lambda>k. k \<notin> set (owned (before @ after))) ?b = others"
  proof -
    have "(\<lambda>k. k \<notin> set (owned (before @ after)) \<and> k \<notin> set (en_subscriptions en)) = (\<lambda>k. k \<notin> set (owned (before @ en # after)))"
      by auto
    with ok rel(3) [of "\<lambda>k. k \<notin> set (owned (before @ after))"] show ?thesis by simp
  qed
  moreover have "select (\<lambda>k. k \<in> set (en_subscriptions x)) ?b = wants (en_hook x)" if "x \<in> set (before @ after)" for x
  proof -
    have "(\<lambda>k. k \<in> set (en_subscriptions x) \<and> k \<notin> set (en_subscriptions en)) = (\<lambda>k. k \<in> set (en_subscriptions x))"
      using apart [OF that] by auto
    with ok that rel(3) [of "\<lambda>k. k \<in> set (en_subscriptions x)"] show ?thesis by auto
  qed
  moreover have "\<forall>k \<in> set (owned (before @ after)). issued ?b k"
    using ok rel(2) unfolding keeps_issued_def by auto
  moreover have "sorted_wrt (\<lambda>x y. set (en_subscriptions x) \<inter> set (en_subscriptions y) = {}) (before @ after)"
    "distinct (map en_name (before @ after))"
    using ok by (auto simp: sorted_wrt_append)
  moreover have "\<forall>x \<in> set (before @ after). name_of (en_hook x) = en_name x \<and> en_name x \<noteq> []"
  proof -
    have "set (before @ after) \<subseteq> set (before @ en # after)" by auto
    with ok show ?thesis by blast
  qed
  ultimately show ?thesis
    using rel(1) unfolding registry_ok_def Let_def prod.case by blast
qed

text \<open>New connections come with the callbacks \<open>wants h\<close>; until an entry owns them they are slots of nobody.\<close>

lemma registry_join:
  assumes ok: "registry_ok name_of wants others (before @ after, b)" and name: "name_of h \<noteq> []" "name_of h \<notin> en_name ` set (before @ after)"
    and bus: "bus_ok b'" "keeps_issued b b'" "\<forall>k \<in> set new. issued b' k \<and> \<not> issued b k"
    and slots: "\<And>P. select (\<lambda>k. P k \<and> k \<notin> set new) b' = select P b" "select (\<lambda>k. k \<in> set new) b' = wants h"
  shows "registry_ok name_of wants others (before @ \<lparr>en_name = name_of h, en_hook = h, en_subscriptions = new\<rparr> # after, b')"
proof -
  note ok' = ok [unfolded registry_ok_def Let_def prod.case]
  let ?en = "\<lparr>en_name = name_of h, en_hook = h, en_subscriptions = new\<rparr>"
  have apart: "set (en_subscriptions x) \<inter> set new = {}" if "x \<in> set (before @ after)" for x
    using ok' bus(3) that by (auto simp: set_owned)
  have "select (\<lambda>k. k \<notin> set (owned (before @ ?en # after))) b' = others"
  proof -
    have "(\<lambda>k. k \<notin> set (owned (before @ ?en # after))) = (\<lambda>k. k \<notin> set (owned (before @ after)) \<and> k \<notin> set new)" by auto
    with ok' slots(1) [of "\<lambda>k. k \<notin> set (owned (before @ after))"] show ?thesis by simp
  qed
  moreover have "select (\<lambda>k. k \<in> set (en_subscriptions x)) b' = wants (en_hook x)" if "x \<in> set (before @ after)" for x
  proof -
    have "(\<lambda>k. k \<in> set (en_subscriptions x)) = (\<lambda>k. k \<in> set (en_subscriptions x) \<and> k \<notin> set new)" using apart [OF that] by auto
    then have "select (\<lambda>k. k \<in> set (en_subscriptions x)) b' = select (\<lambda>k. k \<in> set (en_subscriptions x)) b"
      by (subst slots(1) [symmetric]) (rule arg_cong [where f = "\<lambda>p. select p b'"])
    also have "\<dots> = wants (en_hook x)" using ok' that by blast
    finally show ?thesis .
  qed
  moreover have "\<forall>k \<in> set (owned (before @ ?en # after)). issued b' k"
    using ok' bus(2,3) unfolding keeps_issued_def by auto
  moreover have "sorted_wrt (\<lambda>x y. set (en_subscriptions x) \<inter> set (en_subscriptions y) = {}) (before @ ?en # after)"
    using ok' apart by (auto simp: sorted_wrt_append)
  moreover have "distinct (map en_name (before @ ?en # after))" using ok' name(2) by auto
  moreover have "\<forall>x \<in> set (before @ after). name_of (en_hook x) = en_name x \<and> en_name x \<noteq> []" using ok' by blast
  ultimately show ?thesis
    using bus(1) slots(2) name(1) unfolding registry_ok_def Let_def prod.case by auto
qed

section \<open>The contract of a hook\<close>

text \<open>
  What the registry relies on: subscribing keeps the bus in order; a successful one returns exactly the connections it
  made, which carry the callbacks of the hook; a failed one leaves no slot behind.
\<close>

locale hook_contract =
  fixes subscribe :: "('ev, 'c, 'h) subscriber"
    and name_of :: "'h \<Rightarrow> string"
    and wants :: "'h \<Rightarrow> 'ev \<Rightarrow> 'c list"
  assumes keeps_bus: "bus_ok b \<Longrightarrow> subscribe h b = (r, b') \<Longrightarrow> bus_ok b' \<and> keeps_issued b b'"
    and returns_all: "bus_ok b \<Longrightarrow> subscribe h b = (Inr new, b') \<Longrightarrow>
      (\<forall>k \<in> set new. issued b' k \<and> \<not> issued b k) \<and> (\<forall>P. select (\<lambda>k. P k \<and> k \<notin> set new) b' = select P b) \<and>
      select (\<lambda>k. k \<in> set new) b' = wants h"
    and cleans_up: "bus_ok b \<Longrightarrow> subscribe h b = (Inl e, b') \<Longrightarrow> select P b' = select P b"
begin

lemma failed_ok:
  assumes "registry_ok name_of wants others (entries, b)" "subscribe h b = (Inl e, b')"
  shows "registry_ok name_of wants others (entries, b')"
proof -
  have ok: "bus_ok b" using assms(1) by (simp add: registry_ok_def)
  with keeps_bus [OF ok assms(2)] cleans_up [OF ok assms(2)] assms(1) show ?thesis
    by (auto simp: registry_ok_def keeps_issued_def)
qed

lemma joined_ok:
  assumes "registry_ok name_of wants others (before @ after, b)" "subscribe h b = (Inr new, b')"
    and "name_of h \<noteq> []" "name_of h \<notin> en_name ` set (before @ after)"
  shows "registry_ok name_of wants others (before @ \<lparr>en_name = name_of h, en_hook = h, en_subscriptions = new\<rparr> # after, b')"
proof -
  have ok: "bus_ok b" using assms(1) by (simp add: registry_ok_def)
  from keeps_bus [OF ok assms(2)] returns_all [OF ok assms(2)] show ?thesis
    by (intro registry_join [OF assms(1,3,4)]) simp_all
qed

text \<open>Replacing attaches the new hook while the old one is still connected; the same slots remain as after a removal followed by an addition.\<close>

lemma replaced_ok:
  assumes "registry_ok name_of wants others (before @ en # after, b)" "subscribe h b = (Inr new, b')"
    and "name_of h \<noteq> []" "en_name en = name_of h"
  shows "registry_ok name_of wants others
    (before @ en\<lparr>en_hook := h, en_subscriptions := new\<rparr> # after, release (en_subscriptions en) b')"
proof -
  note ok = assms(1) [unfolded registry_ok_def Let_def prod.case]
  then have b: "bus_ok b" by blast
  note k = keeps_bus [OF b assms(2)] and r = returns_all [OF b assms(2)]
  have b': "bus_ok b'" using k by blast
  note rel = release_facts [OF b, where ks = "en_subscriptions en"] and rel' = release_facts [OF b', where ks = "en_subscriptions en"]
  have new: "set new \<inter> set (en_subscriptions en) = {}" using ok r by auto
  have "registry_ok name_of wants others
    (before @ \<lparr>en_name = name_of h, en_hook = h, en_subscriptions = new\<rparr> # after, release (en_subscriptions en) b')"
  proof (rule registry_join [OF registry_drop [OF assms(1)] assms(3)])
    show "name_of h \<notin> en_name ` set (before @ after)" using ok assms(4) by auto
    show "bus_ok (release (en_subscriptions en) b')" using rel'(1) .
    have earlier: "issued b x" if "issued (release (en_subscriptions en) b) x" for x
      using that by (simp add: issued_release)
    show "keeps_issued (release (en_subscriptions en) b) (release (en_subscriptions en) b')"
      using earlier k rel'(2) unfolding keeps_issued_def by blast
    show "\<forall>x \<in> set new. issued (release (en_subscriptions en) b') x \<and> \<not> issued (release (en_subscriptions en) b) x"
      using r earlier rel'(2) unfolding keeps_issued_def by blast
    show "select (\<lambda>x. P x \<and> x \<notin> set new) (release (en_subscriptions en) b') = select P (release (en_subscriptions en) b)" for P
    proof -
      have "select (\<lambda>x. P x \<and> x \<notin> set new) (release (en_subscriptions en) b') =
          select (\<lambda>x. (P x \<and> x \<notin> set (en_subscriptions en)) \<and> x \<notin> set new) b'"
        unfolding rel'(3) by (rule arg_cong [where f = "\<lambda>p. select p b'"]) auto
      also have "\<dots> = select (\<lambda>x. P x \<and> x \<notin> set (en_subscriptions en)) b" 
        by (rule spec [OF conjunct1 [OF conjunct2 [OF r]]])
      finally show ?thesis unfolding rel(3) .
    qed
    have "(\<lambda>x. x \<in> set new \<and> x \<notin> set (en_subscriptions en)) = (\<lambda>x. x \<in> set new)" using new by auto
    then show "select (\<lambda>x. x \<in> set new) (release (en_subscriptions en) b') = wants h" unfolding rel'(3) using r by simp
  qed
  moreover have "en\<lparr>en_hook := h, en_subscriptions := new\<rparr> = \<lparr>en_name = name_of h, en_hook = h, en_subscriptions = new\<rparr>"
    using assms(4) by simp
  ultimately show ?thesis by simp
qed

lemma add_ok:
  assumes "registry_ok name_of wants others reg" "hooks_add name_of subscribe hook reg = (r, reg')"
  shows "registry_ok name_of wants others reg'"
proof -
  obtain entries b where reg: "reg = (entries, b)" by fastforce
  show ?thesis
  proof (cases "\<exists>h. hook = Some h \<and> name_of h \<noteq> [] \<and> \<not> hooks_contains (name_of h) entries")
    case True
    then obtain h where h: "hook = Some h" "name_of h \<noteq> []" "name_of h \<notin> en_name ` set entries" by (auto simp: contains_iff)
    obtain q b' where q: "subscribe h b = (q, b')" by fastforce
    show ?thesis
    proof (cases q)
      case (Inl e)
      with assms h q reg show ?thesis by (auto simp: hooks_add_def attach_def contains_iff intro: failed_ok)
    next
      case (Inr new)
      with joined_ok [of others entries "[]" b h new b'] assms h q reg show ?thesis
        by (auto simp: hooks_add_def attach_def contains_iff)
    qed
  next
    case False
    with assms reg show ?thesis by (auto simp: hooks_add_def split: option.splits if_splits)
  qed
qed

lemma set_ok:
  assumes "registry_ok name_of wants others reg" "hooks_set name_of subscribe hook reg = (r, reg')"
  shows "registry_ok name_of wants others reg'"
proof -
  obtain entries b where reg: "reg = (entries, b)" by fastforce
  show ?thesis
  proof (cases "\<exists>h. hook = Some h \<and> name_of h \<noteq> [] \<and> hooks_contains (name_of h) entries")
    case True
    then obtain h where h: "hook = Some h" "name_of h \<noteq> []" "hooks_contains (name_of h) entries" by blast
    obtain q b' where q: "subscribe h b = (q, b')" by fastforce
    show ?thesis
    proof (cases q)
      case (Inl e)
      with assms h q reg show ?thesis by (auto simp: hooks_set_def attach_def intro: failed_ok)
    next
      case (Inr new)
      obtain before en after where entries: "entries = before @ en # after" "en_name en = name_of h" "name_of h \<notin> en_name ` set before"
        using h(3) split_at_name unfolding contains_iff by metis
      have "reg' = (before @ en\<lparr>en_hook := h, en_subscriptions := new\<rparr> # after, release (en_subscriptions en) b')"
        using assms(2) h q Inr reg replace_entry_split [OF entries(2,3), of h new after b']
        by (auto simp: hooks_set_def attach_def entries(1))
      with replaced_ok [OF _ q [unfolded Inr] h(2) entries(2)] assms(1) reg entries(1) show ?thesis by simp
    qed
  next
    case False
    show ?thesis
    proof (cases "\<exists>h. hook = Some h \<and> name_of h \<noteq> []")
      case True
      obtain s where "hooks_add name_of subscribe hook reg = (s, reg')"
        using True False assms(2) reg by (auto simp: hooks_set_def split: prod.splits)
      with add_ok [OF assms(1)] show ?thesis by blast
    next
      case none: False
      with assms reg show ?thesis by (auto simp: hooks_set_def split: option.splits if_splits)
    qed
  qed
qed

end

lemma remove_ok:
  assumes "registry_ok name_of wants others reg"
  shows "registry_ok name_of wants others (snd (hooks_remove name reg))"
proof (cases "name \<in> en_name ` set (fst reg)")
  case True
  then obtain before en after where entries: "fst reg = before @ en # after" "en_name en = name" "name \<notin> en_name ` set before"
    using split_at_name by metis
  then have reg: "reg = (before @ en # after, snd reg)" by (simp add: prod_eq_iff)
  from True have "snd (hooks_remove name reg) = remove_entry name reg" by (simp add: hooks_remove_def contains_iff)
  also have "\<dots> = (before @ after, release (en_subscriptions en) (snd reg))"
    using remove_entry_split [OF entries(2,3), of after "snd reg"] reg by simp
  finally show ?thesis using registry_drop assms reg by metis
qed (use assms in \<open>simp add: hooks_remove_def contains_iff\<close>)

lemma clear_ok:
  assumes "registry_ok name_of wants others reg"
  shows "registry_ok name_of wants others (hooks_clear reg)" "connected_slots (snd (hooks_clear reg)) = others"
proof -
  have ok: "bus_ok (snd reg)" "select (\<lambda>k. k \<notin> set (owned (fst reg))) (snd reg) = others"
    using assms by (auto simp: registry_ok_def split: prod.splits)
  note rel = release_facts [OF ok(1), where ks = "owned (fst reg)"]
  show "registry_ok name_of wants others (hooks_clear reg)"
    using rel(1) rel(3) [of "\<lambda>_. True"] ok(2) by (simp add: registry_ok_def hooks_clear_def)
  show "connected_slots (snd (hooks_clear reg)) = others"
    using rel(3) [of "\<lambda>_. True"] ok(2) by (simp add: hooks_clear_def fun_eq_iff select_all [symmetric])
qed

section \<open>Hooks that adopt their connections\<close>

text \<open>
  The way every hook of the repository subscribes (\<^verbatim>\<open>ContextStatisticHook::subscribe\<close>, \<^verbatim>\<open>NoopHook::subscribe\<close>): connect one callback,
  take the connection into a scoped subscription, push it, go on; when something throws in between, the subscriptions
  made so far are destroyed. A hook is its name, its callbacks, and the point at which it throws, if it does.
\<close>

record ('ev, 'c) scoped_hook =
  sh_name :: string
  sh_callbacks :: "('ev \<times> 'c) list"
  sh_throws :: "(nat \<times> exn) option"

fun scoped_loop :: "('ev \<times> 'c) list \<Rightarrow> (nat \<times> exn) option \<Rightarrow> connection list \<Rightarrow> ('ev, 'c) bus \<Rightarrow> connection list result \<times> ('ev, 'c) bus" where
  "scoped_loop [] throws adopted b =
     (case throws of Some (0, e) \<Rightarrow> (Inl e, release adopted b) | _ \<Rightarrow> (Inr adopted, b))"
| "scoped_loop (want # rest) throws adopted b =
     (case throws of
        Some (0, e) \<Rightarrow> (Inl e, release adopted b)
      | _ \<Rightarrow>
          let (k, b') = bus_subscribe (fst want) (snd want) b in
          scoped_loop rest (map_option (map_prod (\<lambda>n. n - 1) id) throws) (adopted @ [k]) b')"

definition scoped_subscribe :: "('ev, 'c) scoped_hook \<Rightarrow> ('ev, 'c) bus \<Rightarrow> connection list result \<times> ('ev, 'c) bus" where
  "scoped_subscribe h b = scoped_loop (sh_callbacks h) (sh_throws h) [] b"

definition callbacks_of :: "('ev \<times> 'c) list \<Rightarrow> 'ev \<Rightarrow> 'c list" where
  "callbacks_of wanted ev = map snd (filter (\<lambda>p. fst p = ev) wanted)"

definition context_statistic_hook :: "(string, string) scoped_hook" where
  "context_statistic_hook =
     \<lparr>sh_name = ''context_statistic'',
      sh_callbacks = [(''BeforeModel'', ''before_model''), (''EditOnStepFinished'', ''on_step_finished''), (''EditOnRunFinished'', ''on_run_finished'')],
      sh_throws = None\<rparr>"

definition noop_hook :: "(string, string) scoped_hook" where
  "noop_hook = \<lparr>sh_name = ''noop_hook'', sh_callbacks = [(''RunStarted'', ''noop'')], sh_throws = None\<rparr>"

lemma scoped_loop_facts:
  assumes "bus_ok b" "\<forall>k \<in> set adopted. issued b k" "scoped_loop wanted throws adopted b = (r, b')"
  shows "bus_ok b' \<and> keeps_issued b b' \<and>
    (case r of
       Inr new \<Rightarrow> \<exists>more. new = adopted @ more \<and> (\<forall>k \<in> set more. issued b' k \<and> \<not> issued b k) \<and>
         (\<forall>P ev. select (\<lambda>k. P k \<and> k \<notin> set more) b' ev = select P b ev \<and>
           select (\<lambda>k. k \<in> set new) b' ev = select (\<lambda>k. k \<in> set adopted) b ev @ callbacks_of wanted ev)
     | Inl e \<Rightarrow> \<forall>P. select P b' = select (\<lambda>k. P k \<and> k \<notin> set adopted) b)"
  using assms
proof (induction wanted arbitrary: throws adopted b)
  case Nil
  then show ?case
    using release_facts [where b = b and ks = adopted]
    by (cases throws) (auto simp: keeps_issued_def callbacks_of_def split: nat.splits)
next
  case (Cons want rest)
  show ?case
  proof (cases "\<exists>e. throws = Some (0, e)")
    case True
    with Cons.prems show ?thesis using release_facts [where b = b and ks = adopted] by auto
  next
    case False
    obtain k b1 where k: "bus_subscribe (fst want) (snd want) b = (k, b1)" by fastforce
    have loop: "scoped_loop rest (map_option (map_prod (\<lambda>n. n - 1) id) throws) (adopted @ [k]) b1 = (r, b')"
      using Cons.prems(3) False k by (auto split: option.splits nat.splits)
    note f = subscribe_facts [OF Cons.prems(1) k]
    have issued: "\<forall>x \<in> set (adopted @ [k]). issued b1 x"
      using Cons.prems(2) f(2,3) unfolding keeps_issued_def by auto
    note ih = Cons.IH [OF f(1) issued loop]
    have keeps: "keeps_issued b b'" using ih keeps_issued_trans [OF f(2)] by blast
    have k_new: "k \<notin> set adopted" using Cons.prems(2) f(4) by auto
    show ?thesis
    proof (cases r)
      case (Inl e)
      have "select P b' = select (\<lambda>x. P x \<and> x \<notin> set adopted) b" for P
      proof -
        have "select P b' = select (\<lambda>x. P x \<and> x \<notin> set (adopted @ [k])) b1" using ih Inl by simp
        also have "\<dots> = select (\<lambda>x. P x \<and> x \<notin> set (adopted @ [k])) b" by (rule ext) (simp add: f(5))
        also have "\<dots> = select (\<lambda>x. P x \<and> x \<notin> set adopted) b" using f(4) by (intro select_cong [OF Cons.prems(1)]) auto
        finally show ?thesis .
      qed
      with ih keeps Inl show ?thesis by simp
    next
      case (Inr new)
      with ih obtain more where more: "new = (adopted @ [k]) @ more" "\<forall>x \<in> set more. issued b' x \<and> \<not> issued b1 x"
        "\<And>P ev. select (\<lambda>x. P x \<and> x \<notin> set more) b' ev = select P b1 ev"
        "\<And>ev. select (\<lambda>x. x \<in> set new) b' ev = select (\<lambda>x. x \<in> set (adopted @ [k])) b1 ev @ callbacks_of rest ev" by auto
      have "new = adopted @ k # more" using more(1) by simp
      moreover have "\<forall>x \<in> set (k # more). issued b' x \<and> \<not> issued b x"
        using more(2) ih f(2,3,4) unfolding keeps_issued_def by (cases k) auto
      moreover have "select (\<lambda>x. P x \<and> x \<notin> set (k # more)) b' ev = select P b ev" for P ev
      proof -
        have "select (\<lambda>x. P x \<and> x \<notin> set (k # more)) b' ev = select (\<lambda>x. (P x \<and> x \<noteq> k) \<and> x \<notin> set more) b' ev"
          by (rule arg_cong [where f = "\<lambda>p. select p b' ev"]) auto
        also have "\<dots> = select (\<lambda>x. P x \<and> x \<noteq> k) b ev" by (simp only: more(3) f(5)) simp
        also have "\<dots> = select P b ev" using f(4) by (intro fun_cong [OF select_cong [OF Cons.prems(1)]]) auto
        finally show ?thesis .
      qed
      moreover have "select (\<lambda>x. x \<in> set new) b' ev = select (\<lambda>x. x \<in> set adopted) b ev @ callbacks_of (want # rest) ev" for ev
      proof -
        have "select (\<lambda>x. x \<in> set (adopted @ [k])) b = select (\<lambda>x. x \<in> set adopted) b"
          using f(4) by (intro select_cong [OF Cons.prems(1)]) auto
        with more(4) [of ev] show ?thesis by (auto simp: f(5) callbacks_of_def)
      qed
      ultimately show ?thesis using ih keeps Inr by auto
    qed
  qed
qed

lemma scoped_contract:
  assumes "bus_ok b" "scoped_subscribe h b = (r, b')"
  shows "bus_ok b' \<and> keeps_issued b b'"
    and "r = Inr new \<Longrightarrow> (\<forall>k \<in> set new. issued b' k \<and> \<not> issued b k) \<and>
      (\<forall>P. select (\<lambda>k. P k \<and> k \<notin> set new) b' = select P b) \<and>
      select (\<lambda>k. k \<in> set new) b' = callbacks_of (sh_callbacks h)"
    and "r = Inl e \<Longrightarrow> select P b' = select P b"
proof -
  note facts = scoped_loop_facts [OF assms(1) _ assms(2) [unfolded scoped_subscribe_def], simplified]
  show "bus_ok b' \<and> keeps_issued b b'" using facts by blast
  have none: "select (\<lambda>k. False) b ev = []" for ev by (simp add: select_def split: option.splits)
  show "(\<forall>k \<in> set new. issued b' k \<and> \<not> issued b k) \<and>
      (\<forall>P. select (\<lambda>k. P k \<and> k \<notin> set new) b' = select P b) \<and>
      select (\<lambda>k. k \<in> set new) b' = callbacks_of (sh_callbacks h)" if "r = Inr new"
    using facts that none by (auto simp: fun_eq_iff)
  show "select P b' = select P b" if "r = Inl e" using facts that by simp
qed

interpretation scoped: hook_contract scoped_subscribe sh_name "\<lambda>h. callbacks_of (sh_callbacks h)"
proof (unfold_locales, goal_cases)
  case (1 b h r b')
  then show ?case by (rule scoped_contract(1))
next
  case (2 b h new b')
  show ?case by (rule scoped_contract(2) [OF 2 refl])
next
  case (3 b h e b' P)
  show ?case by (rule scoped_contract(3) [OF 3 refl])
qed

section \<open>Sequences of operations\<close>

datatype 'h hook_op = AddHook "'h option" | SetHook "'h option" | RemoveHook string | ClearHooks

fun hook_step :: "('h \<Rightarrow> string) \<Rightarrow> ('ev, 'c, 'h) subscriber \<Rightarrow> 'h hook_op \<Rightarrow> ('ev, 'c, 'h) hook_registry \<Rightarrow> ('ev, 'c, 'h) hook_registry" where
  "hook_step name_of subscribe (AddHook hook) reg = snd (hooks_add name_of subscribe hook reg)"
| "hook_step name_of subscribe (SetHook hook) reg = snd (hooks_set name_of subscribe hook reg)"
| "hook_step name_of subscribe (RemoveHook name) reg = snd (hooks_remove name reg)"
| "hook_step name_of subscribe ClearHooks reg = hooks_clear reg"

context hook_contract
begin

lemma steps_ok:
  assumes "registry_ok name_of wants others reg"
  shows "registry_ok name_of wants others (fold (hook_step name_of subscribe) ops reg)"
  using assms
proof (induction ops arbitrary: reg)
  case (Cons operation ops)
  have "registry_ok name_of wants others (hook_step name_of subscribe operation reg)"
    using add_ok [OF Cons.prems surjective_pairing] set_ok [OF Cons.prems surjective_pairing]
      remove_ok [OF Cons.prems] clear_ok(1) [OF Cons.prems] by (cases operation) simp_all
  from Cons.IH [OF this] show ?case by simp
qed simp

end

text \<open>A bus on which other components have subscribed already.\<close>

definition connect_all :: "('ev \<times> 'c) list \<Rightarrow> ('ev, 'c) bus \<Rightarrow> ('ev, 'c) bus" where
  "connect_all = fold (\<lambda>p b. snd (bus_subscribe (fst p) (snd p) b))"

lemma connect_all_facts:
  assumes "bus_ok b"
  shows "bus_ok (connect_all ps b) \<and> connected_slots (connect_all ps b) ev = connected_slots b ev @ callbacks_of ps ev"
  using assms
proof (induction ps arbitrary: b)
  case (Cons p ps)
  obtain k b1 where k: "bus_subscribe (fst p) (snd p) b = (k, b1)" by fastforce
  note f = subscribe_facts [OF Cons.prems k]
  from Cons.IH [OF f(1)] f(5) [of "\<lambda>_. True" ev] k show ?case
    by (auto simp: connect_all_def callbacks_of_def select_all)
qed (simp add: connect_all_def callbacks_of_def)

lemma mset_select_Un:
  fixes b :: "('ev, 'c) bus"
  assumes "\<And>k. P k \<Longrightarrow> \<not> Q k"
  shows "mset (select (\<lambda>k. P k \<or> Q k) b ev) = mset (select P b ev) + mset (select Q b ev)"
proof (cases "bus_holders b ev")
  case (Some i)
  have "mset (map snd (filter (\<lambda>s. P (i, fst s) \<or> Q (i, fst s)) xs)) =
      mset (map snd (filter (\<lambda>s. P (i, fst s)) xs)) + mset (map snd (filter (\<lambda>s. Q (i, fst s)) xs))" for xs :: "(nat \<times> 'c) list"
    using assms by (induction xs) auto
  with Some show ?thesis by (simp add: select_def)
qed (simp add: select_def)

lemma mset_owned:
  assumes "sorted_wrt (\<lambda>x y. set (en_subscriptions x) \<inter> set (en_subscriptions y) = {}) entries"
  shows "mset (select (\<lambda>k. k \<in> set (owned entries)) b ev) = (\<Sum>en\<leftarrow>entries. mset (select (\<lambda>k. k \<in> set (en_subscriptions en)) b ev))"
  using assms
proof (induction entries)
  case (Cons en entries)
  have "k \<notin> set (owned entries)" if "k \<in> set (en_subscriptions en)" for k
    using Cons.prems that by (auto simp: set_owned)
  from mset_select_Un [of "\<lambda>k. k \<in> set (en_subscriptions en)" "\<lambda>k. k \<in> set (owned entries)" b ev, OF this] Cons show ?case by simp
qed (simp add: select_def split: option.splits)

lemma registry_slots:
  assumes "registry_ok name_of wants others reg"
  shows "mset (connected_slots (snd reg) ev) = mset (others ev) + (\<Sum>en\<leftarrow>fst reg. mset (wants (en_hook en) ev))"
proof -
  obtain entries b where reg: "reg = (entries, b)" by fastforce
  note ok = assms [unfolded registry_ok_def reg Let_def prod.case]
  have "mset (select (\<lambda>k. k \<notin> set (owned entries) \<or> k \<in> set (owned entries)) b ev) =
      mset (others ev) + mset (select (\<lambda>k. k \<in> set (owned entries)) b ev)"
    using ok by (subst mset_select_Un) auto
  moreover have "(\<Sum>en\<leftarrow>entries. mset (select (\<lambda>k. k \<in> set (en_subscriptions en)) b ev)) = (\<Sum>en\<leftarrow>entries. mset (wants (en_hook en) ev))"
    using ok by (intro arg_cong [where f = sum_list] map_cong) auto
  ultimately show ?thesis using ok mset_owned [of entries b ev] reg by (simp add: select_all)
qed

definition hooks_after :: "('ev \<times> 'c) list \<Rightarrow> ('ev, 'c) scoped_hook hook_op list \<Rightarrow> ('ev, 'c, ('ev, 'c) scoped_hook) hook_registry" where
  "hooks_after foreign ops = fold (hook_step sh_name scoped_subscribe) ops ([], connect_all foreign EventBus)"

text \<open>
  C33. Whatever the registry is asked to do, in whatever order, and wherever the hooks fail: the callbacks that a
  publication runs are those that others subscribed, in their order, and those of the hooks in the registry, each
  exactly once; the names of the entries are distinct and are the names of their hooks; and clearing the registry leaves
  exactly the callbacks of the others. So a replaced, removed or failed hook leaves no callback behind, and no
  operation takes one away from somebody else.
\<close>

theorem registered_callbacks_exact:
  fixes foreign :: "('ev \<times> 'c) list"
  shows "mset (connected_slots (snd (hooks_after foreign ops)) ev) =
      mset (callbacks_of foreign ev) + (\<Sum>en\<leftarrow>fst (hooks_after foreign ops). mset (callbacks_of (sh_callbacks (en_hook en)) ev)) \<and>
    select (\<lambda>k. k \<notin> set (owned (fst (hooks_after foreign ops)))) (snd (hooks_after foreign ops)) ev = callbacks_of foreign ev \<and>
    distinct (map en_name (fst (hooks_after foreign ops))) \<and> map en_name (fst (hooks_after foreign ops)) = map sh_name (get_registered (hooks_after foreign ops)) \<and>
    connected_slots (snd (hooks_clear (hooks_after foreign ops))) ev = callbacks_of foreign ev"
proof -
  have "bus_ok (EventBus :: ('ev, 'c) bus)" by (simp add: bus_ok_def EventBus_def)
  note c = connect_all_facts [OF this, of foreign]
  then have slots: "connected_slots (connect_all foreign EventBus) = callbacks_of foreign"
    by (auto simp: fun_eq_iff connected_slots_def EventBus_def)
  have "registry_ok sh_name (\<lambda>h. callbacks_of (sh_callbacks h)) (callbacks_of foreign) ([], connect_all foreign EventBus)"
    using c slots by (auto simp: registry_ok_def select_all fun_eq_iff)
  from scoped.steps_ok [OF this, of ops] have ok: "registry_ok sh_name (\<lambda>h. callbacks_of (sh_callbacks h)) (callbacks_of foreign) (hooks_after foreign ops)"
    unfolding hooks_after_def .
  then have "\<forall>en \<in> set (fst (hooks_after foreign ops)). en_name en = sh_name (en_hook en)" "distinct (map en_name (fst (hooks_after foreign ops)))"
    "select (\<lambda>k. k \<notin> set (owned (fst (hooks_after foreign ops)))) (snd (hooks_after foreign ops)) = callbacks_of foreign"
    by (auto simp: registry_ok_def split: prod.splits)
  with registry_slots [OF ok, of ev] clear_ok(2) [OF ok] show ?thesis
    by (simp add: get_registered_def)
qed

end
