(* ===== verification/Prompt_Template.thy ===== *)
theory Prompt_Template
  imports Prelude
begin

text \<open>
  \<^verbatim>\<open>dataclass/include/dataclass/prompt_template.hpp\<close>: the system prompt as ordered
  sections with stability tiers. The operations are translated with their exceptions; the
  lemmas show the layout invariant (unique names, non-decreasing tiers, canonical bodies),
  and what byte-prefix caches rely on: which leading bytes of the rendering each mutation
  leaves alone.
\<close>

section \<open>Data\<close>

datatype section_stability = Immutable | Growing | Volatile

record prompt_section =
  sec_name :: string
  sec_title :: string
  sec_stability :: section_stability
  sec_text :: string

record section_span =
  span_name :: string
  span_stability :: section_stability
  span_begin :: nat
  span_end :: nat

record rendered_prompt =
  rp_markdown :: string
  rp_spans :: "section_span list"

record prompt_template =
  heading_level :: int
  tpl_sections :: "prompt_section list"

definition PromptTemplate :: prompt_template where
  "PromptTemplate = \<lparr>heading_level = 2, tpl_sections = []\<rparr>"

primrec stability_rank :: "section_stability \<Rightarrow> nat" where
  "stability_rank Immutable = 0"
| "stability_rank Growing = 1"
| "stability_rank Volatile = 2"

primrec stability_name :: "section_stability \<Rightarrow> string" where
  "stability_name Immutable = ''immutable''"
| "stability_name Growing = ''growing''"
| "stability_name Volatile = ''volatile''"

section \<open>Canonicalisation\<close>

abbreviation lf :: char where
  "lf \<equiv> CHR 0x0A"

function lf_lines :: "string \<Rightarrow> string list" where
  "lf_lines rest =
     (if lf \<in> set rest
      then let line = takeWhile (\<lambda>c. c \<noteq> lf) rest
           in line # lf_lines (drop (length line + 1) rest)
      else [rest])"
  by pat_completeness auto
termination
  by (relation "measure length") (auto intro!: diff_less length_pos_if_in_set)

declare lf_lines.simps [simp del]

definition trailing_blank :: "char \<Rightarrow> bool" where
  "trailing_blank c \<longleftrightarrow> c = CHR 0x20 \<or> c = CHR 0x09 \<or> c = CHR 0x0D"

definition rstrip :: "string \<Rightarrow> string" where
  "rstrip line = rev (dropWhile trailing_blank (rev line))"

fun canonical_loop :: "string list \<Rightarrow> string \<Rightarrow> string" where
  "canonical_loop [] out = out"
| "canonical_loop (line # lines) out =
     (let stripped = rstrip line in
      if out = [] \<and> stripped = [] then canonical_loop lines out
      else canonical_loop lines ((if out \<noteq> [] then out @ [lf] else out) @ stripped))"

definition canonicalize :: "string \<Rightarrow> string" where
  "canonicalize text = rev (dropWhile (\<lambda>c. c = lf) (rev (canonical_loop (lf_lines text) [])))"

section \<open>Operations\<close>

definition quoted :: "string \<Rightarrow> string" where
  "quoted name = [CHR 0x27] @ name @ [CHR 0x27]"

fun find_section :: "prompt_section list \<Rightarrow> string \<Rightarrow> nat option" where
  "find_section [] name = None"
| "find_section (s # secs) name =
     (if sec_name s = name then Some 0 else map_option Suc (find_section secs name))"

definition contains_section :: "prompt_template \<Rightarrow> string \<Rightarrow> bool" where
  "contains_section t name \<longleftrightarrow> find_section (tpl_sections t) name \<noteq> None"

definition add_section ::
  "string \<Rightarrow> string \<Rightarrow> string \<Rightarrow> section_stability \<Rightarrow> prompt_template \<Rightarrow> prompt_template result" where
  "add_section name title body stability t =
     (if contains_section t name then
        Inl (LogicError (''PromptTemplate::add_section: duplicate section name '' @ quoted name))
      else if tpl_sections t \<noteq> [] \<and>
              stability_rank stability < stability_rank (sec_stability (last (tpl_sections t))) then
        Inl (LogicError (''PromptTemplate::add_section: stability cannot go backwards ('' @ quoted name @ '' is '' @
          stability_name stability @ '', last section '' @ quoted (sec_name (last (tpl_sections t))) @ '' is '' @
          stability_name (sec_stability (last (tpl_sections t))) @ '')''))
      else Inr (t\<lparr>tpl_sections := tpl_sections t @
        [\<lparr>sec_name = name, sec_title = title, sec_stability = stability, sec_text = canonicalize body\<rparr>]\<rparr>))"

definition locate :: "string \<Rightarrow> string \<Rightarrow> prompt_template \<Rightarrow> nat result" where
  "locate who name t =
     (case find_section (tpl_sections t) name of
        None \<Rightarrow> Inl (LogicError (''PromptTemplate::'' @ who @ '': no section named '' @ quoted name))
      | Some i \<Rightarrow> Inr i)"

definition wrong_tier :: "string \<Rightarrow> string \<Rightarrow> section_stability \<Rightarrow> string \<Rightarrow> exn" where
  "wrong_tier who name actual expected =
     LogicError (''PromptTemplate::'' @ who @ '': section '' @ quoted name @ '' is '' @
       stability_name actual @ '', not '' @ expected)"

definition append_text :: "string \<Rightarrow> string \<Rightarrow> prompt_template \<Rightarrow> prompt_template result" where
  "append_text name body t =
     and_then (locate ''append'' name t) (\<lambda>i.
       let s = tpl_sections t ! i in
       if sec_stability s \<noteq> Growing then Inl (wrong_tier ''append'' name (sec_stability s) ''growing'')
       else let chunk = canonicalize body in
         if chunk = [] then Inr t
         else Inr (t\<lparr>tpl_sections := (tpl_sections t)[i := s\<lparr>sec_text :=
                (if sec_text s \<noteq> [] then sec_text s @ [lf, lf] else sec_text s) @ chunk\<rparr>]\<rparr>))"

definition rewrite_text :: "string \<Rightarrow> string \<Rightarrow> prompt_template \<Rightarrow> prompt_template result" where
  "rewrite_text name body t =
     and_then (locate ''rewrite'' name t) (\<lambda>i.
       let s = tpl_sections t ! i in
       if sec_stability s \<noteq> Volatile then Inl (wrong_tier ''rewrite'' name (sec_stability s) ''volatile'')
       else Inr (t\<lparr>tpl_sections := (tpl_sections t)[i := s\<lparr>sec_text := canonicalize body\<rparr>]\<rparr>))"

definition erase_section :: "string \<Rightarrow> prompt_template \<Rightarrow> prompt_template result" where
  "erase_section name t =
     and_then (locate ''erase'' name t) (\<lambda>i.
       let s = tpl_sections t ! i in
       if sec_stability s \<noteq> Volatile then Inl (wrong_tier ''erase'' name (sec_stability s) ''volatile'')
       else Inr (t\<lparr>tpl_sections := take i (tpl_sections t) @ drop (i + 1) (tpl_sections t)\<rparr>))"

section \<open>Rendering\<close>

definition section_part :: "string \<Rightarrow> prompt_section \<Rightarrow> string" where
  "section_part hashes s =
     (let part = (if sec_title s \<noteq> [] then hashes @ '' '' @ sec_title s else []) in
      if sec_text s \<noteq> [] then (if part \<noteq> [] then part @ [lf, lf] else part) @ sec_text s else part)"

fun render_loop :: "string \<Rightarrow> prompt_section list \<Rightarrow> string \<Rightarrow> section_span list \<Rightarrow> string \<times> section_span list" where
  "render_loop hashes [] md spans = (md, spans)"
| "render_loop hashes (s # secs) md spans =
     (let part = section_part hashes s in
      if part = [] then render_loop hashes secs md spans
      else
        let md1 = (if md \<noteq> [] then md @ [lf, lf] else md);
            md2 = md1 @ part
        in render_loop hashes secs md2 (spans @
             [\<lparr>span_name = sec_name s, span_stability = sec_stability s,
               span_begin = length md1, span_end = length md2\<rparr>]))"

definition render :: "prompt_template \<Rightarrow> rendered_prompt result" where
  "render t =
     (if heading_level t < 1 \<or> heading_level t > 6 then
        Inl (LogicError ''PromptTemplate::render: heading_level must be within 1..6'')
      else
        let (md, spans) = render_loop (replicate (nat (heading_level t)) CHR ''#'') (tpl_sections t) [] []
        in Inr \<lparr>rp_markdown = (if md \<noteq> [] then md @ [lf] else md), rp_spans = spans\<rparr>)"

section \<open>Canonical bodies\<close>

text \<open>
  A stored body: no line ends in blanks, and it neither starts nor ends with a line feed.
\<close>

fun trimmed :: "string \<Rightarrow> bool" where
  "trimmed [] = True"
| "trimmed [c] = (\<not> trailing_blank c)"
| "trimmed (c # d # cs) = ((trailing_blank c \<longrightarrow> d \<noteq> lf) \<and> trimmed (d # cs))"

definition canonical :: "string \<Rightarrow> bool" where
  "canonical s \<longleftrightarrow> trimmed s \<and> (s \<noteq> [] \<longrightarrow> hd s \<noteq> lf \<and> last s \<noteq> lf)"

lemma not_blank_lf [simp]: "\<not> trailing_blank lf"
  by (simp add: trailing_blank_def)

lemma trimmed_join: "trimmed a \<Longrightarrow> trimmed b \<Longrightarrow> trimmed (a @ lf # b)"
proof (induction a rule: trimmed.induct)
  case 1
  then show ?case by (cases b) auto
next
  case (2 c)
  then show ?case by (cases b) auto
qed auto

lemma trimmed_line:
  "trimmed (a @ lf # b) \<Longrightarrow> (a \<noteq> [] \<longrightarrow> \<not> trailing_blank (last a)) \<and> trimmed b"
proof (induction a rule: trimmed.induct)
  case 1
  then show ?case by (cases b) auto
next
  case (2 c)
  then show ?case by (cases b) auto
qed auto

lemma trimmed_no_lf: "lf \<notin> set a \<Longrightarrow> trimmed a \<longleftrightarrow> (a \<noteq> [] \<longrightarrow> \<not> trailing_blank (last a))"
  by (induction a rule: trimmed.induct) auto

lemma trimmed_drop_lf: "trimmed (s @ [lf]) \<Longrightarrow> trimmed s"
proof (induction s rule: trimmed.induct)
  case (2 c)
  then show ?case by simp
qed auto

lemma rstrip_prefix: "\<exists>t. line = rstrip line @ t"
proof -
  have "line = rev (rev line)" by simp
  also have "\<dots> = rev (dropWhile trailing_blank (rev line)) @ rev (takeWhile trailing_blank (rev line))"
    by (metis rev_append takeWhile_dropWhile_id)
  finally show ?thesis unfolding rstrip_def by blast
qed

lemma rstrip_no_lf: "lf \<notin> set line \<Longrightarrow> lf \<notin> set (rstrip line)"
  using rstrip_prefix [of line] by (metis UnCI set_append)

lemma rstrip_last: "rstrip line \<noteq> [] \<Longrightarrow> \<not> trailing_blank (last (rstrip line))"
  unfolding rstrip_def by (metis hd_dropWhile last_rev rev_is_Nil_conv)

lemma rstrip_same: "line \<noteq> [] \<longrightarrow> \<not> trailing_blank (last line) \<Longrightarrow> rstrip line = line"
  unfolding rstrip_def by (cases line rule: rev_cases) auto

lemma lf_lines_no_lf: "l \<in> set (lf_lines s) \<Longrightarrow> lf \<notin> set l"
proof (induction s rule: lf_lines.induct)
  case (1 s)
  show ?case
  proof (cases "lf \<in> set s")
    case True
    with 1 show ?thesis
      by (subst (asm) lf_lines.simps [of s]) (auto simp: Let_def dest: set_takeWhileD)
  qed (use 1 in \<open>simp add: lf_lines.simps [of s]\<close>)
qed

lemma lf_lines_line: "lf \<notin> set a \<Longrightarrow> lf_lines (a @ lf # b) = a # lf_lines b"
proof -
  assume "lf \<notin> set a"
  then have "takeWhile (\<lambda>c. c \<noteq> lf) (a @ lf # b) = a" by (subst takeWhile_append2) auto
  then show ?thesis by (subst lf_lines.simps) (simp add: Let_def)
qed

lemma lf_lines_last: "lf \<notin> set a \<Longrightarrow> lf_lines a = [a]"
  by (subst lf_lines.simps) simp

lemma lf_split_cases:
  obtains (last) "lf \<notin> set s" | (line) a b where "lf \<notin> set a" "s = a @ lf # b"
  by (metis split_list_first)

text \<open>The loop once output has started, and before.\<close>

lemma canonical_loop_started:
  "out \<noteq> [] \<Longrightarrow> canonical_loop lines out = out @ concat (map (\<lambda>l. lf # rstrip l) lines)"
  by (induction lines arbitrary: out) (auto simp: Let_def)

lemma canonical_loop_trimmed:
  "trimmed out \<Longrightarrow> (out \<noteq> [] \<longrightarrow> hd out \<noteq> lf) \<Longrightarrow> list_all (\<lambda>l. lf \<notin> set l) lines \<Longrightarrow>
   trimmed (canonical_loop lines out) \<and> (canonical_loop lines out \<noteq> [] \<longrightarrow> hd (canonical_loop lines out) \<noteq> lf)"
proof (induction lines arbitrary: out)
  case (Cons l ls)
  have l: "lf \<notin> set (rstrip l)" "trimmed (rstrip l)"
    using Cons.prems rstrip_no_lf [of l] rstrip_last [of l] by (simp_all add: trimmed_no_lf)
  show ?case
  proof (cases "out = [] \<and> rstrip l = []")
    case True
    with Cons show ?thesis by (simp add: Let_def)
  next
    case False
    let ?out = "(if out \<noteq> [] then out @ [lf] else out) @ rstrip l"
    have "trimmed ?out" using Cons.prems l trimmed_join [of out "rstrip l"] by simp
    moreover have "?out \<noteq> [] \<longrightarrow> hd ?out \<noteq> lf"
      using Cons.prems l by (cases out; cases "rstrip l") auto
    ultimately show ?thesis using Cons False by (simp add: Let_def)
  qed
qed simp

lemma canonical_strip_lf:
  assumes "trimmed s" "s \<noteq> [] \<longrightarrow> hd s \<noteq> lf"
  shows "canonical (rev (dropWhile (\<lambda>c. c = lf) (rev s)))"
  using assms
proof (induction s rule: rev_induct)
  case (snoc c s)
  show ?case
  proof (cases "c = lf")
    case True
    with snoc.prems have "trimmed s" "s \<noteq> [] \<longrightarrow> hd s \<noteq> lf"
      using trimmed_drop_lf [of s] by (auto simp: hd_append)
    with snoc.IH True show ?thesis by simp
  next
    case False
    with snoc.prems show ?thesis by (simp add: canonical_def)
  qed
qed (simp add: canonical_def)

lemma canonicalize_canonical: "canonical (canonicalize s)"
proof -
  have "list_all (\<lambda>l. lf \<notin> set l) (lf_lines s)" using lf_lines_no_lf by (auto simp: list_all_iff)
  from canonical_loop_trimmed [OF _ _ this, of "[]"] canonical_strip_lf show ?thesis
    unfolding canonicalize_def by simp
qed

lemma trimmed_lines: "trimmed s \<Longrightarrow> l \<in> set (lf_lines s) \<Longrightarrow> rstrip l = l"
proof (induction s arbitrary: l rule: length_induct)
  case (1 s)
  show ?case
  proof (cases s rule: lf_split_cases)
    case last
    with 1 show ?thesis by (simp add: lf_lines_last trimmed_no_lf rstrip_same)
  next
    case (line a b)
    with 1 trimmed_line [of a b] have "rstrip a = a" "trimmed b" by (simp_all add: rstrip_same)
    with 1 line show ?thesis using "1.IH" [rule_format, of b l] by (auto simp: lf_lines_line)
  qed
qed

lemma lf_lines_join: "concat (map (\<lambda>l. lf # l) (lf_lines s)) = lf # s"
proof (induction s rule: length_induct)
  case (1 s)
  show ?case
  proof (cases s rule: lf_split_cases)
    case last
    then show ?thesis by (simp add: lf_lines_last)
  next
    case (line a b)
    with 1 show ?thesis by (simp add: lf_lines_line)
  qed
qed

lemma canonicalize_fixed:
  assumes "canonical s"
  shows "canonicalize s = s"
proof (cases "s = []")
  case True
  then show ?thesis by (simp add: canonicalize_def lf_lines_last rstrip_def)
next
  case False
  have strip: "map (\<lambda>l. lf # rstrip l) (lf_lines s) = map (\<lambda>l. lf # l) (lf_lines s)"
    using trimmed_lines assms by (auto simp: canonical_def)
  have "canonical_loop (lf_lines s) [] = s"
  proof (cases s rule: lf_split_cases)
    case last
    with False trimmed_lines [of s s] assms show ?thesis
      by (simp add: lf_lines_last Let_def canonical_def)
  next
    case (line a b)
    with assms False have "a \<noteq> []" by (cases a) (auto simp: canonical_def)
    moreover have "rstrip a = a" using trimmed_lines [of s a] assms line by (simp add: canonical_def lf_lines_line)
    moreover have "concat (map (\<lambda>l. lf # rstrip l) (lf_lines b)) = lf # b"
      using lf_lines_join [of b] strip line by (simp add: lf_lines_line cong: map_cong)
    ultimately show ?thesis using line by (simp add: lf_lines_line canonical_loop_started Let_def)
  qed
  with assms False show ?thesis
    by (cases s rule: rev_cases) (auto simp: canonicalize_def canonical_def)
qed

lemma canonical_Nil [simp]: "canonical []"
  by (simp add: canonical_def)

lemma canonical_append:
  assumes "canonical a" "canonical b" "a \<noteq> []" "b \<noteq> []"
  shows "canonical (a @ [lf, lf] @ b)"
proof -
  have "trimmed ([] @ lf # b)" using assms by (intro trimmed_join) (simp_all add: canonical_def)
  then have "trimmed (a @ lf # lf # b)" using assms by (intro trimmed_join) (simp_all add: canonical_def)
  with assms show ?thesis by (simp add: canonical_def)
qed

section \<open>The layout invariant\<close>

definition wf_sections :: "prompt_section list \<Rightarrow> bool" where
  "wf_sections secs \<longleftrightarrow> distinct (map sec_name secs) \<and>
     sorted (map (\<lambda>s. stability_rank (sec_stability s)) secs) \<and>
     list_all (\<lambda>s. canonical (sec_text s)) secs"

definition wf_template :: "prompt_template \<Rightarrow> bool" where
  "wf_template t \<longleftrightarrow> wf_sections (tpl_sections t)"

lemma wf_PromptTemplate [simp]: "wf_template PromptTemplate"
  by (simp add: wf_template_def PromptTemplate_def wf_sections_def)

lemma find_section_None: "find_section secs name = None \<longleftrightarrow> name \<notin> sec_name ` set secs"
  by (induction secs) auto

lemma find_section_Some:
  "find_section secs name = Some i \<Longrightarrow> i < length secs \<and> sec_name (secs ! i) = name"
  by (induction secs arbitrary: i) (auto split: if_splits)

lemma locate_Inr:
  "locate who name t = Inr i \<longleftrightarrow> find_section (tpl_sections t) name = Some i"
  by (simp add: locate_def split: option.split)

lemma sorted_snoc: "sorted (xs @ [x]) \<longleftrightarrow> sorted xs \<and> (xs \<noteq> [] \<longrightarrow> last xs \<le> (x :: nat))"
  by (induction xs rule: rev_induct) (auto simp: sorted_append intro: order_trans)

lemma add_section_Inr:
  assumes "add_section name title body stability t = Inr t'"
  shows "\<not> contains_section t name"
    and "tpl_sections t \<noteq> [] \<Longrightarrow> stability_rank (sec_stability (last (tpl_sections t))) \<le> stability_rank stability"
    and "t' = t\<lparr>tpl_sections := tpl_sections t @
        [\<lparr>sec_name = name, sec_title = title, sec_stability = stability, sec_text = canonicalize body\<rparr>]\<rparr>"
  using assms by (auto simp: add_section_def split: if_splits)

lemma add_section_wf:
  assumes "wf_template t" "add_section name title body stability t = Inr t'"
  shows "wf_template t'"
  using assms(1) add_section_Inr [OF assms(2)]
  by (auto simp: wf_template_def wf_sections_def sorted_snoc last_map canonicalize_canonical
      contains_section_def find_section_None)

lemma wf_update_text:
  assumes "wf_sections secs" "canonical body" "i < length secs"
  shows "wf_sections (secs[i := (secs ! i)\<lparr>sec_text := body\<rparr>])"
proof -
  have "map sec_name (secs[i := (secs ! i)\<lparr>sec_text := body\<rparr>]) = map sec_name secs"
    "map (\<lambda>s. stability_rank (sec_stability s)) (secs[i := (secs ! i)\<lparr>sec_text := body\<rparr>]) =
     map (\<lambda>s. stability_rank (sec_stability s)) secs"
    using assms(3) by (simp_all add: map_update list_update_same_conv)
  with assms show ?thesis
    by (auto simp: wf_sections_def list_all_iff dest: set_update_subset_insert [THEN subsetD])
qed

text \<open>What a successful mutation does: one section changes, at an index whose tier allows it.\<close>

lemma append_text_Inr:
  assumes "append_text name body t = Inr t'"
  obtains i where "find_section (tpl_sections t) name = Some i" "i < length (tpl_sections t)"
    "sec_stability (tpl_sections t ! i) = Growing"
    "t' = t\<lparr>tpl_sections := (tpl_sections t)[i := (tpl_sections t ! i)\<lparr>sec_text :=
        (let old = sec_text (tpl_sections t ! i); chunk = canonicalize body in
         if chunk = [] then old else if old = [] then chunk else old @ [lf, lf] @ chunk)\<rparr>]\<rparr>"
  using assms find_section_Some [of "tpl_sections t" name]
  by (auto simp: append_text_def and_then_eq_Inr locate_Inr Let_def list_update_id split: if_splits intro: that)

lemma rewrite_text_Inr:
  assumes "rewrite_text name body t = Inr t'"
  obtains i where "find_section (tpl_sections t) name = Some i" "i < length (tpl_sections t)"
    "sec_stability (tpl_sections t ! i) = Volatile"
    "t' = t\<lparr>tpl_sections := (tpl_sections t)[i := (tpl_sections t ! i)\<lparr>sec_text := canonicalize body\<rparr>]\<rparr>"
  using assms find_section_Some [of "tpl_sections t" name]
  by (auto simp: rewrite_text_def and_then_eq_Inr locate_Inr Let_def split: if_splits intro: that)

lemma erase_section_Inr:
  assumes "erase_section name t = Inr t'"
  obtains i where "find_section (tpl_sections t) name = Some i" "i < length (tpl_sections t)"
    "sec_stability (tpl_sections t ! i) = Volatile"
    "t' = t\<lparr>tpl_sections := take i (tpl_sections t) @ drop (i + 1) (tpl_sections t)\<rparr>"
  using assms find_section_Some [of "tpl_sections t" name]
  by (auto simp: erase_section_def and_then_eq_Inr locate_Inr Let_def split: if_splits intro: that)

lemma append_text_wf:
  assumes "wf_template t" "append_text name body t = Inr t'"
  shows "wf_template t'"
  using assms(2)
proof (rule append_text_Inr)
  fix i
  assume i: "i < length (tpl_sections t)"
    and t': "t' = t\<lparr>tpl_sections := (tpl_sections t)[i := (tpl_sections t ! i)\<lparr>sec_text :=
        (let old = sec_text (tpl_sections t ! i); chunk = canonicalize body in
         if chunk = [] then old else if old = [] then chunk else old @ [lf, lf] @ chunk)\<rparr>]\<rparr>"
  have "canonical (sec_text (tpl_sections t ! i))"
    using assms(1) i by (auto simp: wf_template_def wf_sections_def list_all_iff)
  then have "canonical (let old = sec_text (tpl_sections t ! i); chunk = canonicalize body in
         if chunk = [] then old else if old = [] then chunk else old @ [lf, lf] @ chunk)"
    using canonicalize_canonical [of body] canonical_append [of "sec_text (tpl_sections t ! i)" "canonicalize body"]
    by (auto simp: Let_def)
  from wf_update_text [OF _ this i] assms(1) show ?thesis unfolding t' by (simp add: wf_template_def)
qed

lemma rewrite_text_wf:
  assumes "wf_template t" "rewrite_text name body t = Inr t'"
  shows "wf_template t'"
  using assms(2)
  by (rule rewrite_text_Inr)
     (use assms(1) wf_update_text canonicalize_canonical in \<open>auto simp: wf_template_def\<close>)

lemma wf_remove: "wf_sections (a @ s # b) \<Longrightarrow> wf_sections (a @ b)"
  by (auto simp: wf_sections_def sorted_append)

lemma erase_section_wf:
  assumes "wf_template t" "erase_section name t = Inr t'"
  shows "wf_template t'"
  using assms(2)
proof (rule erase_section_Inr)
  fix i
  assume i: "i < length (tpl_sections t)"
    and t': "t' = t\<lparr>tpl_sections := take i (tpl_sections t) @ drop (i + 1) (tpl_sections t)\<rparr>"
  from assms(1) id_take_nth_drop [OF i] wf_remove [of "take i (tpl_sections t)" "tpl_sections t ! i" "drop (Suc i) (tpl_sections t)"]
  show ?thesis unfolding t' wf_template_def by simp
qed

section \<open>Rendering\<close>

text \<open>The rendering as a join of the contributing parts.\<close>

definition join_parts :: "string list \<Rightarrow> string" where
  "join_parts parts = (case filter (\<lambda>p. p \<noteq> []) parts of [] \<Rightarrow> [] | p # ps \<Rightarrow> p @ concat (map (\<lambda>q. [lf, lf] @ q) ps))"

definition prompt_body :: "string \<Rightarrow> prompt_section list \<Rightarrow> string" where
  "prompt_body hashes secs = join_parts (map (section_part hashes) secs)"

definition hashes_of :: "prompt_template \<Rightarrow> string" where
  "hashes_of t = replicate (nat (heading_level t)) CHR ''#''"

lemma join_parts_append:
  "join_parts (ps @ qs) =
   (if join_parts ps = [] then join_parts qs else if join_parts qs = [] then join_parts ps
    else join_parts ps @ [lf, lf] @ join_parts qs)"
  by (cases "filter (\<lambda>p. p \<noteq> []) ps"; cases "filter (\<lambda>p. p \<noteq> []) qs") (auto simp: join_parts_def dest: filter_eq_ConsD)

lemma join_parts_simps [simp]: "join_parts [] = []" "join_parts [p] = p"
  by (simp_all add: join_parts_def)

lemma prompt_body_append:
  "prompt_body h (xs @ ys) =
   (if prompt_body h xs = [] then prompt_body h ys else if prompt_body h ys = [] then prompt_body h xs
    else prompt_body h xs @ [lf, lf] @ prompt_body h ys)"
  by (simp add: prompt_body_def join_parts_append)

lemma prompt_body_simps [simp]: "prompt_body h [] = []" "prompt_body h [s] = section_part h s"
  by (simp_all add: prompt_body_def)

lemma prompt_body_prefix: "prefix (prompt_body h xs) (prompt_body h (xs @ ys))"
  by (simp add: prompt_body_append)

lemma render_loop_body:
  "fst (render_loop h secs md spans) =
   (if md = [] then prompt_body h secs else if prompt_body h secs = [] then md
    else md @ [lf, lf] @ prompt_body h secs)"
proof (induction secs arbitrary: md spans)
  case (Cons s secs)
  then show ?case using prompt_body_append [of h "[s]" secs] by (auto simp: Let_def)
qed simp

lemma render_markdown:
  assumes "render t = Inr r"
  shows "rp_markdown r = (let b = prompt_body (hashes_of t) (tpl_sections t) in if b = [] then [] else b @ [lf])"
  using assms render_loop_body [of "hashes_of t" "tpl_sections t" "[]" "[]"]
  by (auto simp: render_def hashes_of_def Let_def split: if_splits prod.splits)

lemma render_Inr: "(\<exists>r. render t = Inr r) \<longleftrightarrow> 1 \<le> heading_level t \<and> heading_level t \<le> 6"
  by (auto simp: render_def split: prod.splits)

text \<open>Each span is the byte range of its section.\<close>

lemma substr_append_left: "e \<le> length md \<Longrightarrow> substr (md @ x) b (e - b) = substr md b (e - b)"
  using diff_le_mono [of e "length md" b] by (simp add: substr_def)

lemma render_loop_spans:
  assumes "\<forall>sp \<in> set spans. span_end sp \<le> length md"
  shows "let (md', spans') = render_loop h secs md spans in
    prefix md md' \<and> (\<forall>sp \<in> set spans'. span_end sp \<le> length md') \<and>
    map (\<lambda>sp. (span_name sp, span_stability sp, substr md' (span_begin sp) (span_end sp - span_begin sp))) spans' =
    map (\<lambda>sp. (span_name sp, span_stability sp, substr md (span_begin sp) (span_end sp - span_begin sp))) spans @
    map (\<lambda>s. (sec_name s, sec_stability s, section_part h s)) (filter (\<lambda>s. section_part h s \<noteq> []) secs)"
  using assms
proof (induction secs arbitrary: md spans)
  case Nil
  then show ?case by simp
next
  case (Cons s secs)
  show ?case
  proof (cases "section_part h s = []")
    case True
    with Cons show ?thesis by simp
  next
    case False
    define md1 where "md1 = (if md \<noteq> [] then md @ [lf, lf] else md)"
    define md2 where "md2 = md1 @ section_part h s"
    let ?spans = "spans @ [\<lparr>span_name = sec_name s, span_stability = sec_stability s,
        span_begin = length md1, span_end = length md2\<rparr>]"
    let ?cut = "\<lambda>md sp. (span_name sp, span_stability sp, substr md (span_begin sp) (span_end sp - span_begin sp))"
    have ext: "md2 = md @ ((if md \<noteq> [] then [lf, lf] else []) @ section_part h s)"
      by (simp add: md1_def md2_def)
    have ok: "\<forall>sp \<in> set ?spans. span_end sp \<le> length md2" using Cons.prems ext by auto
    have old: "map (?cut md2) spans = map (?cut md) spans"
      unfolding ext using Cons.prems substr_append_left by (intro map_cong) (simp_all del: append_assoc)
    have new: "substr md2 (length md1) (length md2 - length md1) = section_part h s"
      by (simp add: substr_def md2_def)
    obtain md' spans' where loop: "render_loop h secs md2 ?spans = (md', spans')" by (meson surj_pair)
    have step: "render_loop h (s # secs) md spans = (md', spans')"
      using False loop by (simp add: md1_def md2_def Let_def)
    have "prefix md md2" by (simp add: ext)
    with Cons.IH [OF ok] False old new show ?thesis
      unfolding step loop by (auto simp: Let_def intro: prefix_order.trans)
  qed
qed

section \<open>What a mutation leaves alone\<close>

lemma section_part_extends:
  "prefix (sec_text s) body \<Longrightarrow> prefix (section_part h s) (section_part h (s\<lparr>sec_text := body\<rparr>))"
  by (auto simp: section_part_def Let_def prefix_def)

lemma prompt_body_extends:
  "prefix (section_part h s) (section_part h s') \<Longrightarrow> prefix (prompt_body h (xs @ [s])) (prompt_body h (xs @ [s']))"
  by (auto simp: prompt_body_append prefix_def)

definition stable_sections :: "prompt_section list \<Rightarrow> prompt_section list" where
  "stable_sections secs = filter (\<lambda>s. sec_stability s \<noteq> Volatile) secs"

lemma rank_le_2: "stability_rank st \<le> 2" "stability_rank st = 2 \<longleftrightarrow> st = Volatile"
  by (cases st; simp)+

lemma stable_sections_prefix:
  assumes "wf_sections secs" "i < length secs" "sec_stability (secs ! i) = Volatile"
  shows "\<exists>k \<le> i. stable_sections secs = take k secs"
  using assms
proof (induction secs arbitrary: i)
  case (Cons s secs)
  show ?case
  proof (cases "sec_stability s = Volatile")
    case True
    have "sec_stability x = Volatile" if "x \<in> set secs" for x
      using Cons.prems(1) that True rank_le_2 [of "sec_stability x"] by (fastforce simp: wf_sections_def)
    then have "stable_sections (s # secs) = take 0 (s # secs)"
      using True by (auto simp: stable_sections_def filter_empty_conv)
    then show ?thesis by blast
  next
    case False
    with Cons.prems(2,3) obtain j where j: "i = Suc j" "j < length secs" "sec_stability (secs ! j) = Volatile"
      by (cases i) auto
    moreover have "wf_sections secs" using Cons.prems(1) by (simp add: wf_sections_def)
    ultimately obtain k where "k \<le> j" "stable_sections secs = take k secs" using Cons.IH by blast
    with j False have "Suc k \<le> i \<and> stable_sections (s # secs) = take (Suc k) (s # secs)"
      by (simp add: stable_sections_def)
    then show ?thesis by blast
  qed
qed simp

lemma markdown_prefix:
  assumes "render t = Inr r" "tpl_sections t = xs @ ys"
  shows "prefix (prompt_body (hashes_of t) xs) (rp_markdown r)"
  using render_markdown [OF assms(1)] prompt_body_prefix [of "hashes_of t" xs ys] assms(2)
  by (auto simp: Let_def split: if_splits intro: prefix_order.trans)

lemma markdown_prefix_trans:
  assumes "render t = Inr r" "tpl_sections t = xs @ ys" "prefix b (prompt_body (hashes_of t) xs)"
  shows "prefix b (rp_markdown r)"
  using assms markdown_prefix prefix_order.trans by blast

lemma volatile_edit:
  assumes "rewrite_text name body t = Inr t' \<or> erase_section name t = Inr t'"
  obtains i where "i < length (tpl_sections t)" "sec_stability (tpl_sections t ! i) = Volatile"
    "hashes_of t' = hashes_of t" "\<And>k. k \<le> i \<Longrightarrow> \<exists>ys. tpl_sections t' = take k (tpl_sections t) @ ys"
  using assms
proof
  assume "rewrite_text name body t = Inr t'"
  then show ?thesis
  proof (rule rewrite_text_Inr)
    fix i
    assume i: "i < length (tpl_sections t)" "sec_stability (tpl_sections t ! i) = Volatile"
      and t': "t' = t\<lparr>tpl_sections := (tpl_sections t)[i := (tpl_sections t ! i)\<lparr>sec_text := canonicalize body\<rparr>]\<rparr>"
    show ?thesis
    proof (rule that [OF i])
      show "\<exists>ys. tpl_sections t' = take k (tpl_sections t) @ ys" if "k \<le> i" for k
        using t' append_take_drop_id [of k "tpl_sections t'", symmetric] that by auto
    qed (simp add: t' hashes_of_def)
  qed
next
  assume "erase_section name t = Inr t'"
  then show ?thesis
  proof (rule erase_section_Inr)
    fix i
    assume i: "i < length (tpl_sections t)" "sec_stability (tpl_sections t ! i) = Volatile"
      and t': "t' = t\<lparr>tpl_sections := take i (tpl_sections t) @ drop (i + 1) (tpl_sections t)\<rparr>"
    show ?thesis
    proof (rule that [OF i])
      show "\<exists>ys. tpl_sections t' = take k (tpl_sections t) @ ys" if "k \<le> i" for k
      proof -
        have "take i (tpl_sections t) = take k (tpl_sections t) @ drop k (take i (tpl_sections t))"
          using append_take_drop_id [of k "take i (tpl_sections t)", symmetric] that by (simp add: min_absorb1)
        then have "tpl_sections t' = take k (tpl_sections t) @ (drop k (take i (tpl_sections t)) @ drop (i + 1) (tpl_sections t))"
          unfolding t' by simp
        then show ?thesis by blast
      qed
    qed (simp add: t' hashes_of_def)
  qed
qed

section \<open>Sessions of edits\<close>

inductive reachable_prompt :: "prompt_template \<Rightarrow> bool" where
  initial: "reachable_prompt (PromptTemplate\<lparr>heading_level := n\<rparr>)"
| added: "reachable_prompt t \<Longrightarrow> add_section name title body stability t = Inr t' \<Longrightarrow> reachable_prompt t'"
| appended: "reachable_prompt t \<Longrightarrow> append_text name body t = Inr t' \<Longrightarrow> reachable_prompt t'"
| rewritten: "reachable_prompt t \<Longrightarrow> rewrite_text name body t = Inr t' \<Longrightarrow> reachable_prompt t'"
| erased: "reachable_prompt t \<Longrightarrow> erase_section name t = Inr t' \<Longrightarrow> reachable_prompt t'"

lemma reachable_prompt_wf: "reachable_prompt t \<Longrightarrow> wf_template t"
proof (induction rule: reachable_prompt.induct)
  case (initial n)
  then show ?case by (simp add: wf_template_def wf_sections_def PromptTemplate_def)
qed (blast intro: add_section_wf append_text_wf rewrite_text_wf erase_section_wf)+

section \<open>Properties\<close>

text \<open>
  Every prompt built through the public operations, however they are interleaved, has unique
  section names, tiers in cache order (immutable, then growing, then volatile), and bodies that
  canonicalisation leaves unchanged, so a stored body re-enters byte for byte.
\<close>

theorem prompt_layout_invariant:
  assumes "reachable_prompt t"
  shows "distinct (map sec_name (tpl_sections t)) \<and>
    sorted (map (\<lambda>s. stability_rank (sec_stability s)) (tpl_sections t)) \<and>
    (\<forall>s \<in> set (tpl_sections t). canonicalize (sec_text s) = sec_text s)"
  using reachable_prompt_wf [OF assms]
  by (auto simp: wf_template_def wf_sections_def list_all_iff canonicalize_fixed)

definition sample_prompt :: prompt_template where
  "sample_prompt = PromptTemplate\<lparr>tpl_sections :=
     [\<lparr>sec_name = ''id'', sec_title = [], sec_stability = Immutable, sec_text = ''x''\<rparr>]\<rparr>"

lemma canonical_x [simp]: "canonicalize ''x'' = ''x''"
  by (simp add: canonicalize_fixed canonical_def trailing_blank_def)

lemma sample_prompt_reachable: "reachable_prompt sample_prompt"
proof (rule reachable_prompt.added)
  show "reachable_prompt PromptTemplate"
    using reachable_prompt.initial [of 2] by (simp add: PromptTemplate_def)
  show "add_section ''id'' [] ''x'' Immutable PromptTemplate = Inr sample_prompt"
    by (simp add: add_section_def contains_section_def PromptTemplate_def sample_prompt_def)
qed

theorem prompt_layout_invariant_witness:
  "distinct (map sec_name (tpl_sections sample_prompt)) \<and> tpl_sections sample_prompt \<noteq> []"
  using prompt_layout_invariant [OF sample_prompt_reachable] by (simp add: sample_prompt_def)

text \<open>
  C8. Cache stability. Adding a section keeps every byte already rendered; appending to a growing
  section keeps every byte up to the end of that section; rewriting or erasing a volatile section
  keeps every byte of the immutable and growing tiers, which come first in the rendering.
\<close>

theorem prompt_mutation_keeps_prefix:
  assumes "reachable_prompt t" "render t = Inr r" "render t' = Inr r'"
  shows "(add_section name title body stability t = Inr t' \<longrightarrow>
      prefix (prompt_body (hashes_of t) (tpl_sections t)) (rp_markdown r')) \<and>
    (append_text name body t = Inr t' \<longrightarrow> (\<exists>i. find_section (tpl_sections t) name = Some i \<and>
      prefix (prompt_body (hashes_of t) (take (Suc i) (tpl_sections t))) (rp_markdown r) \<and>
      prefix (prompt_body (hashes_of t) (take (Suc i) (tpl_sections t))) (rp_markdown r'))) \<and>
    (rewrite_text name body t = Inr t' \<or> erase_section name t = Inr t' \<longrightarrow>
      prefix (prompt_body (hashes_of t) (stable_sections (tpl_sections t))) (rp_markdown r) \<and>
      prefix (prompt_body (hashes_of t) (stable_sections (tpl_sections t))) (rp_markdown r'))"
proof (intro conjI impI)
  assume "add_section name title body stability t = Inr t'"
  from add_section_Inr(3) [OF this] markdown_prefix [OF assms(3)]
  show "prefix (prompt_body (hashes_of t) (tpl_sections t)) (rp_markdown r')"
    by (simp add: hashes_of_def)
next
  assume "append_text name body t = Inr t'"
  then show "\<exists>i. find_section (tpl_sections t) name = Some i \<and>
      prefix (prompt_body (hashes_of t) (take (Suc i) (tpl_sections t))) (rp_markdown r) \<and>
      prefix (prompt_body (hashes_of t) (take (Suc i) (tpl_sections t))) (rp_markdown r')"
  proof (rule append_text_Inr)
    fix i
    let ?s = "tpl_sections t ! i"
    let ?text = "let old = sec_text ?s; chunk = canonicalize body in
         if chunk = [] then old else if old = [] then chunk else old @ [lf, lf] @ chunk"
    assume f: "find_section (tpl_sections t) name = Some i" and i: "i < length (tpl_sections t)"
      and t': "t' = t\<lparr>tpl_sections := (tpl_sections t)[i := ?s\<lparr>sec_text := ?text\<rparr>]\<rparr>"
    have "prefix (sec_text ?s) ?text" by (simp add: Let_def)
    from section_part_extends [OF this] prompt_body_extends
    have ext: "prefix (prompt_body (hashes_of t) (take i (tpl_sections t) @ [?s]))
        (prompt_body (hashes_of t) (take i (tpl_sections t) @ [?s\<lparr>sec_text := ?text\<rparr>]))" by blast
    have "prefix (prompt_body (hashes_of t) (take (Suc i) (tpl_sections t))) (rp_markdown r)"
      by (rule markdown_prefix [OF assms(2)]) (rule append_take_drop_id [symmetric])
    moreover have "tpl_sections t' = (take i (tpl_sections t) @ [?s\<lparr>sec_text := ?text\<rparr>]) @ drop (Suc i) (tpl_sections t)"
      using i t' by (simp add: upd_conv_take_nth_drop)
    from markdown_prefix_trans [OF assms(3) this] ext
    have "prefix (prompt_body (hashes_of t) (take (Suc i) (tpl_sections t))) (rp_markdown r')"
      using i t' by (simp add: take_Suc_conv_app_nth hashes_of_def)
    ultimately show ?thesis using f by blast
  qed
next
  assume "rewrite_text name body t = Inr t' \<or> erase_section name t = Inr t'"
  then obtain i where i: "i < length (tpl_sections t)" "sec_stability (tpl_sections t ! i) = Volatile"
    and t': "hashes_of t' = hashes_of t" "\<And>k. k \<le> i \<Longrightarrow> \<exists>ys. tpl_sections t' = take k (tpl_sections t) @ ys"
    by (rule volatile_edit) blast
  obtain k where k: "k \<le> i" "stable_sections (tpl_sections t) = take k (tpl_sections t)"
    using stable_sections_prefix [OF _ i] reachable_prompt_wf [OF assms(1)] by (auto simp: wf_template_def)
  show "prefix (prompt_body (hashes_of t) (stable_sections (tpl_sections t))) (rp_markdown r)"
    unfolding k(2) by (rule markdown_prefix [OF assms(2)]) (rule append_take_drop_id [symmetric])
  from t'(2) [OF k(1)] markdown_prefix [OF assms(3)] t'(1)
  show "prefix (prompt_body (hashes_of t) (stable_sections (tpl_sections t))) (rp_markdown r')"
    unfolding k(2) by auto
qed

theorem prompt_mutation_keeps_prefix_witness:
  "prefix (prompt_body (hashes_of sample_prompt) (tpl_sections sample_prompt)) [CHR ''x'', lf, lf, CHR ''x'', lf]"
proof -
  let ?t' = "sample_prompt\<lparr>tpl_sections := tpl_sections sample_prompt @
      [\<lparr>sec_name = ''d'', sec_title = [], sec_stability = Volatile, sec_text = ''x''\<rparr>]\<rparr>"
  have t: "render sample_prompt = Inr \<lparr>rp_markdown = [CHR ''x'', lf],
      rp_spans = [\<lparr>span_name = ''id'', span_stability = Immutable, span_begin = 0, span_end = 1\<rparr>]\<rparr>"
    by (simp add: render_def sample_prompt_def PromptTemplate_def section_part_def Let_def)
  have t': "render ?t' = Inr \<lparr>rp_markdown = [CHR ''x'', lf, lf, CHR ''x'', lf],
      rp_spans = [\<lparr>span_name = ''id'', span_stability = Immutable, span_begin = 0, span_end = 1\<rparr>,
                  \<lparr>span_name = ''d'', span_stability = Volatile, span_begin = 3, span_end = 4\<rparr>]\<rparr>"
    by (simp add: render_def sample_prompt_def PromptTemplate_def section_part_def Let_def)
  have "add_section ''d'' [] ''x'' Volatile sample_prompt = Inr ?t'"
    by (simp add: add_section_def contains_section_def sample_prompt_def PromptTemplate_def)
  with prompt_mutation_keeps_prefix [OF sample_prompt_reachable t t', of "''d''" "[]" "''x''" Volatile]
  show ?thesis by simp
qed

text \<open>
  The spans of a rendering list exactly the contributing sections in order, and each span
  cuts out of the markdown exactly the bytes of its section.
\<close>

theorem render_spans_exact:
  assumes "render t = Inr r"
  shows "map (\<lambda>sp. (span_name sp, span_stability sp, substr (rp_markdown r) (span_begin sp) (span_end sp - span_begin sp)))
      (rp_spans r) =
    map (\<lambda>s. (sec_name s, sec_stability s, section_part (hashes_of t) s))
      (filter (\<lambda>s. section_part (hashes_of t) s \<noteq> []) (tpl_sections t))"
proof -
  obtain md spans where loop: "render_loop (hashes_of t) (tpl_sections t) [] [] = (md, spans)"
    by (meson surj_pair)
  with assms have r: "rp_markdown r = (if md \<noteq> [] then md @ [lf] else md)" "rp_spans r = spans"
    by (auto simp: render_def hashes_of_def Let_def split: if_splits)
  note spans = render_loop_spans [of "[]" "[]" "hashes_of t" "tpl_sections t", unfolded loop]
  have "substr (rp_markdown r) (span_begin sp) (span_end sp - span_begin sp) =
      substr md (span_begin sp) (span_end sp - span_begin sp)" if "sp \<in> set spans" for sp
    using spans that substr_append_left [of "span_end sp" md] by (auto simp: r)
  with spans show ?thesis unfolding r(2) by (simp cong: map_cong)
qed

theorem render_spans_exact_witness:
  "\<exists>r. render sample_prompt = Inr r \<and>
    map (\<lambda>sp. (span_name sp, span_stability sp, substr (rp_markdown r) (span_begin sp) (span_end sp - span_begin sp)))
      (rp_spans r) = [(''id'', Immutable, ''x'')]"
proof -
  obtain r where r: "render sample_prompt = Inr r"
    using render_Inr [of sample_prompt] by (auto simp: sample_prompt_def PromptTemplate_def)
  from render_spans_exact [OF r] r show ?thesis
    by (simp add: sample_prompt_def section_part_def)
qed

end
