(* ===== verification/Json_Api.thy ===== *)
theory Json_Api
  imports Prelude
begin

text \<open>
  The JSON library \<^verbatim>\<open>nlohmann::json\<close> is not part of the repository. The operations the sources
  use are the fields of a record, an argument of every definition that serialises; what the
  library documents about them is the locale \<open>json_laws\<close>. The decoding helpers are those of
  the sources (\<^verbatim>\<open>detail::read_optional\<close> of \<^verbatim>\<open>dataclass/include/dataclass/model_io.hpp\<close> and the
  \<^verbatim>\<open>find\<close>-guarded reads). A concrete JSON value type interprets the locale.
\<close>

section \<open>The library interface\<close>

record 'j json_lib =
  js_null :: 'j
  js_bool :: "bool \<Rightarrow> 'j"
  js_string :: "string \<Rightarrow> 'j"
  js_number :: "int \<Rightarrow> 'j"
  js_array :: "'j list \<Rightarrow> 'j"
  js_object :: "(string \<times> 'j) list \<Rightarrow> 'j"
  js_set :: "string \<Rightarrow> 'j \<Rightarrow> 'j \<Rightarrow> 'j"
  js_find :: "'j \<Rightarrow> string \<Rightarrow> 'j option"
  js_is_null :: "'j \<Rightarrow> bool"
  js_is_object :: "'j \<Rightarrow> bool"
  js_is_array :: "'j \<Rightarrow> bool"
  js_is_string :: "'j \<Rightarrow> bool"
  js_get_string :: "'j \<Rightarrow> string result"
  js_get_uint64 :: "'j \<Rightarrow> nat result"
  js_get_uint32 :: "'j \<Rightarrow> nat result"
  js_get_int :: "'j \<Rightarrow> int result"
  js_get_array :: "'j \<Rightarrow> 'j list result"
  js_equal :: "'j \<Rightarrow> 'j \<Rightarrow> bool"

text \<open>
  \<^verbatim>\<open>js_object\<close> is construction from a braced list of pairs, \<^verbatim>\<open>js_set k v j\<close> is \<^verbatim>\<open>j[k] = v\<close> on an
  object, \<^verbatim>\<open>js_find\<close> is \<^verbatim>\<open>find\<close> (\<^const>\<open>None\<close> for \<^verbatim>\<open>end()\<close>, also on a value that is no object),
  \<^verbatim>\<open>js_get_array\<close> iterates an array, and the typed reads fail with a type error.
\<close>

locale json_laws =
  fixes J :: "'j json_lib"
  assumes find_object: "distinct (map fst kvs) \<Longrightarrow> js_find J (js_object J kvs) k = map_of kvs k"
    and object_kind: "js_is_object J (js_object J kvs)" "\<not> js_is_null J (js_object J kvs)"
      "\<not> js_is_array J (js_object J kvs)"
    and set_object: "js_is_object J j \<Longrightarrow> js_is_object J (js_set J k v j)"
    and find_set: "js_is_object J j \<Longrightarrow> js_find J (js_set J k v j) k' = (if k' = k then Some v else js_find J j k')"
    and object_not_null: "js_is_object J j \<Longrightarrow> \<not> js_is_null J j"
    and object_not_array: "js_is_object J j \<Longrightarrow> \<not> js_is_array J j"
    and null_kind: "js_is_null J (js_null J)"
    and null_not_array: "js_is_null J j \<Longrightarrow> \<not> js_is_array J j"
    and string_read: "js_get_string J (js_string J s) = Inr s"
    and string_kind: "js_is_string J (js_string J s)" "\<not> js_is_null J (js_string J s)"
    and uint64_read: "n \<le> size_max \<Longrightarrow> js_get_uint64 J (js_number J (int n)) = Inr n"
    and uint32_read: "n < 2 ^ 32 \<Longrightarrow> js_get_uint32 J (js_number J (int n)) = Inr n"
    and int_read: "- (2 ^ 31) \<le> i \<Longrightarrow> i < 2 ^ 31 \<Longrightarrow> js_get_int J (js_number J i) = Inr i"
    and array_read: "js_get_array J (js_array J xs) = Inr xs"
    and array_kind: "js_is_array J (js_array J xs)" "\<not> js_is_null J (js_array J xs)"
    and number_not_null: "\<not> js_is_null J (js_number J i)"

section \<open>Decoding helpers\<close>

text \<open>\<^verbatim>\<open>if (auto it = j.find(key); it != j.end()) it->get_to(member)\<close>\<close>

definition read_field :: "'j json_lib \<Rightarrow> 'j \<Rightarrow> string \<Rightarrow> ('j \<Rightarrow> 'a result) \<Rightarrow> 'a \<Rightarrow> 'a result" where
  "read_field J j key decode member =
     (case js_find J j key of None \<Rightarrow> Inr member | Some v \<Rightarrow> decode v)"

text \<open>\<^verbatim>\<open>j.at(key)\<close>\<close>

definition read_at :: "'j json_lib \<Rightarrow> 'j \<Rightarrow> string \<Rightarrow> ('j \<Rightarrow> 'a result) \<Rightarrow> 'a result" where
  "read_at J j key decode =
     (if \<not> js_is_object J j then Inl JsonTypeError
      else case js_find J j key of None \<Rightarrow> Inl JsonOutOfRange | Some v \<Rightarrow> decode v)"

definition read_optional :: "'j json_lib \<Rightarrow> 'j \<Rightarrow> string \<Rightarrow> ('j \<Rightarrow> 'a result) \<Rightarrow> 'a option result" where
  "read_optional J j key decode =
     (case js_find J j key of
        None \<Rightarrow> Inr None
      | Some v \<Rightarrow> if js_is_null J v then Inr None else and_then (decode v) (\<lambda>x. Inr (Some x)))"

text \<open>\<^verbatim>\<open>get_to\<close> into a vector: every element by \<^verbatim>\<open>get<T>()\<close>.\<close>

definition read_vector :: "'j json_lib \<Rightarrow> ('j \<Rightarrow> 'a result) \<Rightarrow> 'j \<Rightarrow> 'a list result" where
  "read_vector J decode j = and_then (js_get_array J j) (map_result decode)"

definition write_vector :: "'j json_lib \<Rightarrow> ('a \<Rightarrow> 'j) \<Rightarrow> 'a list \<Rightarrow> 'j" where
  "write_vector J encode xs = js_array J (map encode xs)"

definition write_optional :: "'j json_lib \<Rightarrow> string \<Rightarrow> ('a \<Rightarrow> 'j) \<Rightarrow> 'a option \<Rightarrow> 'j \<Rightarrow> 'j" where
  "write_optional J key encode m j = (case m of None \<Rightarrow> j | Some x \<Rightarrow> js_set J key (encode x) j)"

text \<open>
  \<^verbatim>\<open>NLOHMANN_JSON_SERIALIZE_ENUM\<close>: a table of values and names; reading falls back to the
  first entry.
\<close>

definition enum_to_json :: "'j json_lib \<Rightarrow> ('e \<times> string) list \<Rightarrow> 'e \<Rightarrow> 'j" where
  "enum_to_json J table e = js_string J (case map_of table e of None \<Rightarrow> snd (hd table) | Some n \<Rightarrow> n)"

definition enum_from_json :: "'j json_lib \<Rightarrow> ('e \<times> string) list \<Rightarrow> 'j \<Rightarrow> 'e result" where
  "enum_from_json J table j = Inr (case js_get_string J j of
       Inl _ \<Rightarrow> fst (hd table)
     | Inr s \<Rightarrow> (case map_of (map (\<lambda>(e, n). (n, e)) table) s of None \<Rightarrow> fst (hd table) | Some e \<Rightarrow> e))"

section \<open>What the laws give\<close>

context json_laws
begin

definition has_fields :: "'j \<Rightarrow> (string \<rightharpoonup> 'j) \<Rightarrow> bool" where
  "has_fields j m \<longleftrightarrow> js_is_object J j \<and> (\<forall>k. js_find J j k = m k)"

lemma has_fields_object:
  "distinct (map fst kvs) \<Longrightarrow> has_fields (js_object J kvs) (map_of kvs)"
  by (simp add: has_fields_def object_kind find_object)

lemma has_fields_set: "has_fields j m \<Longrightarrow> has_fields (js_set J k v j) (m(k \<mapsto> v))"
  by (simp add: has_fields_def set_object find_set)

lemma has_fields_optional:
  "has_fields j m \<Longrightarrow>
   has_fields (write_optional J k enc x j) (case x of None \<Rightarrow> m | Some y \<Rightarrow> m(k \<mapsto> enc y))"
  by (simp add: write_optional_def has_fields_set split: option.split)

lemma has_fields_not_null: "has_fields j m \<Longrightarrow> \<not> js_is_null J j"
  by (simp add: has_fields_def object_not_null)

lemma read_field_has: "has_fields j m \<Longrightarrow> read_field J j k dec d = (case m k of None \<Rightarrow> Inr d | Some v \<Rightarrow> dec v)"
  by (simp add: has_fields_def read_field_def)

lemma read_at_has:
  "has_fields j m \<Longrightarrow> read_at J j k dec = (case m k of None \<Rightarrow> Inl JsonOutOfRange | Some v \<Rightarrow> dec v)"
  by (simp add: has_fields_def read_at_def)

lemma read_optional_has:
  "has_fields j m \<Longrightarrow> read_optional J j k dec =
     (case m k of None \<Rightarrow> Inr None
      | Some v \<Rightarrow> if js_is_null J v then Inr None else and_then (dec v) (\<lambda>x. Inr (Some x)))"
  by (simp add: has_fields_def read_optional_def)

text \<open>An optional member written and read back.\<close>

lemma read_optional_written:
  assumes "\<And>y. x = Some y \<Longrightarrow> dec (enc y) = Inr y \<and> \<not> js_is_null J (enc y)"
  shows "(case map_option enc x of None \<Rightarrow> Inr None
     | Some v \<Rightarrow> if js_is_null J v then Inr None else and_then (dec v) (\<lambda>y. Inr (Some y))) = Inr x"
  using assms by (cases x) auto

lemma read_vector_written:
  "(\<And>x. x \<in> set xs \<Longrightarrow> dec (enc x) = Inr x) \<Longrightarrow> read_vector J dec (write_vector J enc xs) = Inr xs"
  using map_result_map [of xs dec enc "\<lambda>x. x"] by (simp add: read_vector_def write_vector_def array_read)

lemma write_vector_not_null: "\<not> js_is_null J (write_vector J enc xs)"
  by (simp add: write_vector_def array_kind)

lemma enum_written:
  assumes "distinct (map snd table)" "e \<in> fst ` set table"
  shows "enum_from_json J table (enum_to_json J table e) = Inr e"
proof -
  from assms(2) obtain n where n: "map_of table e = Some n"
    by (metis domIff dom_map_of_conv_image_fst not_None_eq)
  then have "(n, e) \<in> set (map (\<lambda>(e, n). (n, e)) table)" using map_of_SomeD by force
  moreover have "distinct (map fst (map (\<lambda>(e, n). (n, e)) table))"
    using assms(1) by (simp add: comp_def case_prod_unfold)
  ultimately have "map_of (map (\<lambda>(e, n). (n, e)) table) n = Some e" by (rule map_of_is_SomeI [rotated])
  with n show ?thesis by (simp add: enum_from_json_def enum_to_json_def string_read)
qed

lemma enum_not_null: "\<not> js_is_null J (enum_to_json J table e)"
  by (simp add: enum_to_json_def string_kind)

end

section \<open>JSON values\<close>

datatype json =
    JNull
  | JBool bool
  | JNumber int
  | JString string
  | JArray "json list"
  | JObject "(string \<times> json) list"

fun json_set :: "string \<Rightarrow> json \<Rightarrow> (string \<times> json) list \<Rightarrow> (string \<times> json) list" where
  "json_set k v [] = [(k, v)]"
| "json_set k v ((k', v') # kvs) = (if k' = k then (k, v) # kvs else (k', v') # json_set k v kvs)"

definition json_values :: "json json_lib" where
  "json_values =
     \<lparr>js_null = JNull, js_bool = JBool, js_string = JString, js_number = JNumber, js_array = JArray,
      js_object = JObject,
      js_set = (\<lambda>k v j. case j of JObject kvs \<Rightarrow> JObject (json_set k v kvs) | _ \<Rightarrow> JObject [(k, v)]),
      js_find = (\<lambda>j k. case j of JObject kvs \<Rightarrow> map_of kvs k | _ \<Rightarrow> None),
      js_is_null = (\<lambda>j. case j of JNull \<Rightarrow> True | _ \<Rightarrow> False),
      js_is_object = (\<lambda>j. case j of JObject _ \<Rightarrow> True | _ \<Rightarrow> False),
      js_is_array = (\<lambda>j. case j of JArray _ \<Rightarrow> True | _ \<Rightarrow> False),
      js_is_string = (\<lambda>j. case j of JString _ \<Rightarrow> True | _ \<Rightarrow> False),
      js_get_string = (\<lambda>j. case j of JString s \<Rightarrow> Inr s | _ \<Rightarrow> Inl JsonTypeError),
      js_get_uint64 = (\<lambda>j. case j of JNumber n \<Rightarrow> Inr (nat (n mod 2 ^ 64)) | _ \<Rightarrow> Inl JsonTypeError),
      js_get_uint32 = (\<lambda>j. case j of JNumber n \<Rightarrow> Inr (nat (n mod 2 ^ 32)) | _ \<Rightarrow> Inl JsonTypeError),
      js_get_int = (\<lambda>j. case j of JNumber n \<Rightarrow> Inr n | _ \<Rightarrow> Inl JsonTypeError),
      js_get_array = (\<lambda>j. case j of JArray xs \<Rightarrow> Inr xs | _ \<Rightarrow> Inl JsonTypeError),
      js_equal = (=)\<rparr>"

lemma map_of_json_set: "map_of (json_set k v kvs) k' = (if k' = k then Some v else map_of kvs k')"
  by (induction kvs) auto

interpretation json_values: json_laws json_values
  by unfold_locales
     (auto simp: json_values_def map_of_json_set size_max_def split: json.splits)

end
