(* ===== verification/Model_IO.thy ===== *)
theory Model_IO
  imports Prompt_Template Json_Api
begin

text \<open>
  \<^verbatim>\<open>dataclass/include/dataclass/model_io.hpp\<close>: the records of a conversation, their JSON
  encoding and decoding, and the reserved \<^verbatim>\<open>extras\<close> regions hooks write to. Every
  \<^verbatim>\<open>from_json(j, x)\<close> decodes in place, so it takes the prior value of \<open>x\<close>; \<^verbatim>\<open>get<T>()\<close> starts
  from the default-constructed value. The type parameter \<open>'j\<close> is the JSON value type.
\<close>

section \<open>Enumerations\<close>

datatype content_type = TextContent | BinaryContent | ExternalRef

datatype modality = TextModality | Image | Audio | Video | Document

datatype invoke_type = ReadOnly | ParallWrite | SerialWrite

datatype invoke_security = DefaultDeny | RequireConfirm | Trusted

datatype message_item_type = UserInput | ModelResponse | InvokeReturnItem

datatype retain_priority = NormalRetain | Discardable | Pinned

datatype session_status = ActiveSession | CompletedSession | FailedSession

datatype loop_status =
    LoopIdle | LoopRunning | LoopCompleted | LoopCancelled | LoopExchangeLimit | LoopFailed
  | LoopAutoCompactRequired

datatype loop_phase = ReadyPhase | ModelPhase | ToolsPhase | ProjectionPhase | BlockedPhase

definition content_type_names :: "(content_type \<times> string) list" where
  "content_type_names = [(TextContent, ''text''), (BinaryContent, ''binary''), (ExternalRef, ''external_ref'')]"

definition invoke_type_names :: "(invoke_type \<times> string) list" where
  "invoke_type_names = [(ReadOnly, ''read_only''), (ParallWrite, ''parall_write''), (SerialWrite, ''serial_write'')]"

definition invoke_security_names :: "(invoke_security \<times> string) list" where
  "invoke_security_names =
     [(DefaultDeny, ''default_deny''), (RequireConfirm, ''require_confirm''), (Trusted, ''trusted'')]"

definition message_item_type_names :: "(message_item_type \<times> string) list" where
  "message_item_type_names =
     [(UserInput, ''user_input''), (ModelResponse, ''model_response''), (InvokeReturnItem, ''invoke_return'')]"

definition retain_priority_names :: "(retain_priority \<times> string) list" where
  "retain_priority_names =
     [(NormalRetain, ''normal''), (Discardable, ''discardable''), (Pinned, ''pinned'')]"

definition session_status_names :: "(session_status \<times> string) list" where
  "session_status_names =
     [(ActiveSession, ''active''), (CompletedSession, ''completed''), (FailedSession, ''failed'')]"

definition section_stability_names :: "(section_stability \<times> string) list" where
  "section_stability_names =
     [(Immutable, ''immutable''), (Growing, ''growing''), (Volatile, ''volatile'')]"

text \<open>The enumerations with a hand-written pair refuse an unknown name.\<close>

definition modality_to_json :: "'j json_lib \<Rightarrow> modality \<Rightarrow> 'j" where
  "modality_to_json J value = js_string J
     (case value of TextModality \<Rightarrow> ''text'' | Image \<Rightarrow> ''image'' | Audio \<Rightarrow> ''audio''
      | Video \<Rightarrow> ''video'' | Document \<Rightarrow> ''document'')"

definition modality_from_json :: "'j json_lib \<Rightarrow> 'j \<Rightarrow> modality result" where
  "modality_from_json J j =
     and_then (js_get_string J j) (\<lambda>name.
       if name = ''text'' then Inr TextModality
       else if name = ''image'' then Inr Image
       else if name = ''audio'' then Inr Audio
       else if name = ''video'' then Inr Video
       else if name = ''document'' then Inr Document
       else Inl (InvalidArgument (''unknown Modality name: '' @ name)))"

definition loop_status_to_json :: "'j json_lib \<Rightarrow> loop_status \<Rightarrow> 'j" where
  "loop_status_to_json J value = js_string J
     (case value of
        LoopAutoCompactRequired \<Rightarrow> ''auto_compact_required'' | LoopIdle \<Rightarrow> ''idle''
      | LoopRunning \<Rightarrow> ''running'' | LoopCompleted \<Rightarrow> ''completed'' | LoopCancelled \<Rightarrow> ''cancelled''
      | LoopExchangeLimit \<Rightarrow> ''exchange_limit'' | LoopFailed \<Rightarrow> ''failed'')"

definition loop_status_from_json :: "'j json_lib \<Rightarrow> 'j \<Rightarrow> loop_status result" where
  "loop_status_from_json J j =
     and_then (js_get_string J j) (\<lambda>name.
       if name = ''idle'' then Inr LoopIdle
       else if name = ''running'' then Inr LoopRunning
       else if name = ''completed'' then Inr LoopCompleted
       else if name = ''cancelled'' then Inr LoopCancelled
       else if name = ''exchange_limit'' then Inr LoopExchangeLimit
       else if name = ''failed'' then Inr LoopFailed
       else if name = ''auto_compact_required'' then Inr LoopAutoCompactRequired
       else Inl (InvalidArgument (''unknown LoopStatus name: '' @ name)))"

definition loop_phase_to_json :: "'j json_lib \<Rightarrow> loop_phase \<Rightarrow> 'j" where
  "loop_phase_to_json J value = js_string J
     (case value of ReadyPhase \<Rightarrow> ''ready'' | ModelPhase \<Rightarrow> ''model'' | ToolsPhase \<Rightarrow> ''tools''
      | ProjectionPhase \<Rightarrow> ''projection'' | BlockedPhase \<Rightarrow> ''blocked'')"

definition loop_phase_from_json :: "'j json_lib \<Rightarrow> 'j \<Rightarrow> loop_phase result" where
  "loop_phase_from_json J j =
     and_then (js_get_string J j) (\<lambda>name.
       if name = ''ready'' then Inr ReadyPhase
       else if name = ''model'' then Inr ModelPhase
       else if name = ''tools'' then Inr ToolsPhase
       else if name = ''projection'' then Inr ProjectionPhase
       else if name = ''blocked'' then Inr BlockedPhase
       else Inl (InvalidArgument (''unknown LoopPhase name: '' @ name)))"

section \<open>Records\<close>

record 'j content =
  cn_type :: content_type
  cn_raw :: string
  cn_extras :: "'j option"
  cn_modality :: modality

definition default_content :: "'j content" where
  "default_content = \<lparr>cn_type = TextContent, cn_raw = [], cn_extras = None, cn_modality = TextModality\<rparr>"

record 'j invoke_query =
  iq_type :: invoke_type
  iq_security :: invoke_security
  iq_id :: string
  iq_name :: string
  iq_arguments :: 'j
  iq_extras :: "'j option"

definition default_query :: "'j json_lib \<Rightarrow> 'j invoke_query" where
  "default_query J =
     \<lparr>iq_type = ReadOnly, iq_security = DefaultDeny, iq_id = [], iq_name = [],
      iq_arguments = js_object J [], iq_extras = None\<rparr>"

record 'j invoke_return =
  ir_query :: "'j invoke_query"
  ir_output :: "'j content"
  ir_extras :: "'j option"

definition default_return :: "'j json_lib \<Rightarrow> 'j invoke_return" where
  "default_return J = \<lparr>ir_query = default_query J, ir_output = default_content, ir_extras = None\<rparr>"

record token_cost =
  tc_prompt :: nat
  tc_generated :: nat
  tc_cache_hit :: nat

definition default_cost :: token_cost where
  "default_cost = \<lparr>tc_prompt = 0, tc_generated = 0, tc_cache_hit = 0\<rparr>"

record 'j message_item =
  mi_type :: message_item_type
  mi_role :: string
  mi_content :: "'j content list"
  mi_reasoning :: "'j content option"
  mi_action_status :: "'j content option"
  mi_invokes :: "'j invoke_query list option"
  mi_cost :: "token_cost option"
  mi_invoke_return :: "'j invoke_return option"
  mi_extras :: "'j option"

definition default_message :: "'j message_item" where
  "default_message =
     \<lparr>mi_type = UserInput, mi_role = [], mi_content = [], mi_reasoning = None, mi_action_status = None,
      mi_invokes = None, mi_cost = None, mi_invoke_return = None, mi_extras = None\<rparr>"

record 'j agent_loop_step =
  as_model_response :: "'j message_item"
  as_invoke_returns :: "'j message_item list option"
  as_extras :: "'j option"
  as_commit_sequence :: nat
  as_retain_priority :: retain_priority

definition default_agent_step :: "'j agent_loop_step" where
  "default_agent_step =
     \<lparr>as_model_response = default_message, as_invoke_returns = None, as_extras = None,
      as_commit_sequence = 0, as_retain_priority = NormalRetain\<rparr>"

record 'j user_loop_step =
  us_user_input :: "'j message_item"
  us_agent_loop_step :: "'j agent_loop_step list"
  us_extras :: "'j option"
  us_retain_priority :: retain_priority

definition default_user_step :: "'j user_loop_step" where
  "default_user_step =
     \<lparr>us_user_input = default_message, us_agent_loop_step = [], us_extras = None,
      us_retain_priority = NormalRetain\<rparr>"

record 'j invocable =
  iv_name :: string
  iv_description :: string
  iv_argument_schema :: 'j
  iv_remote_type :: "string option"
  iv_extras :: "'j option"

definition default_invocable :: "'j json_lib \<Rightarrow> 'j invocable" where
  "default_invocable J =
     \<lparr>iv_name = [], iv_description = [], iv_argument_schema = js_object J [],
      iv_remote_type = None, iv_extras = None\<rparr>"

record 'j meta_info =
  mt_schema_version :: nat
  mt_session_id :: string
  mt_created_at :: string
  mt_updated_at :: string
  mt_status :: session_status
  mt_error :: "'j option"

definition default_meta :: "'j meta_info" where
  "default_meta =
     \<lparr>mt_schema_version = 1, mt_session_id = [], mt_created_at = [], mt_updated_at = [],
      mt_status = ActiveSession, mt_error = None\<rparr>"

record 'j loop_progress =
  lp_status :: loop_status
  lp_phase :: loop_phase
  lp_completed_exchanges :: nat
  lp_committed_response_sequence :: nat
  lp_error :: string
  lp_pending_results :: "'j invoke_return list"

definition default_progress :: "'j loop_progress" where
  "default_progress =
     \<lparr>lp_status = LoopIdle, lp_phase = ReadyPhase, lp_completed_exchanges = 0,
      lp_committed_response_sequence = 0, lp_error = [], lp_pending_results = []\<rparr>"

record 'j agent_input_state =
  st_loop :: "'j loop_progress option"
  st_meta :: "'j meta_info"
  st_system_prompt :: prompt_template
  st_tools :: "'j invocable list"
  st_turns :: "'j user_loop_step list"
  st_extras :: "'j option"

definition default_state :: "'j agent_input_state" where
  "default_state =
     \<lparr>st_loop = None, st_meta = default_meta, st_system_prompt = PromptTemplate, st_tools = [],
      st_turns = [], st_extras = None\<rparr>"

record 'j hook_event =
  he_source :: string
  he_key :: string
  he_at :: string
  he_detail :: 'j

definition default_event :: "'j json_lib \<Rightarrow> 'j hook_event" where
  "default_event J = \<lparr>he_source = [], he_key = [], he_at = [], he_detail = js_object J []\<rparr>"

section \<open>Encoding and decoding\<close>

subsection \<open>Content\<close>

definition legacy_provider_file_part :: "'j json_lib \<Rightarrow> 'j option \<Rightarrow> bool" where
  "legacy_provider_file_part J extras =
     (case extras of
        None \<Rightarrow> False
      | Some e \<Rightarrow>
          if \<not> js_is_object J e then False
          else case js_find J e ''type'' of
                 None \<Rightarrow> False
               | Some t \<Rightarrow> js_is_string J t \<and> js_get_string J t = Inr ''input_file'')"

definition content_to_json :: "'j json_lib \<Rightarrow> 'j content \<Rightarrow> 'j" where
  "content_to_json J c =
     write_optional J ''extras'' (\<lambda>e. e) (cn_extras c)
       (js_object J [(''type'', enum_to_json J content_type_names (cn_type c)),
                     (''raw'', js_string J (cn_raw c)),
                     (''modality'', modality_to_json J (cn_modality c))])"

definition legacy_file_message :: string where
  "legacy_file_message =
     ''content part has no '' @ quoted ''modality'' @ '', and its '' @ quoted ''extras.type'' @ '' of '' @
     [CHR 0x22] @ ''input_file'' @ [CHR 0x22] @ '' makes it ambiguous: the pre-modality Responses '' @
     ''adapter sent it as a provider file and Chat Completions sent it '' @
     ''as an image, so add an explicit modality (image or document)''"

definition legacy_binary_message :: string where
  "legacy_binary_message =
     ''content part has no '' @ quoted ''modality'' @ '', and a binary payload cannot be recovered: '' @
     ''the pre-modality protocol sent it as text in one adapter and as file data '' @
     ''in the other, so add an explicit modality''"

definition content_from_json :: "'j json_lib \<Rightarrow> 'j \<Rightarrow> 'j content \<Rightarrow> 'j content result" where
  "content_from_json J j c =
     and_then (read_field J j ''type'' (enum_from_json J content_type_names) (cn_type c)) (\<lambda>ty.
     and_then (read_field J j ''raw'' (js_get_string J) (cn_raw c)) (\<lambda>raw.
     and_then (read_optional J j ''extras'' Inr) (\<lambda>extras.
       let done = (\<lambda>m. Inr \<lparr>cn_type = ty, cn_raw = raw, cn_extras = extras, cn_modality = m\<rparr>) in
       case js_find J j ''modality'' of
         Some v \<Rightarrow> and_then (modality_from_json J v) done
       | None \<Rightarrow>
           if ty = TextContent then done TextModality
           else if ty = ExternalRef then
             (if legacy_provider_file_part J extras then Inl (InvalidArgument legacy_file_message)
              else done Image)
           else Inl (InvalidArgument legacy_binary_message))))"

definition get_content :: "'j json_lib \<Rightarrow> 'j \<Rightarrow> 'j content result" where
  "get_content J j = content_from_json J j default_content"

subsection \<open>Tool calls and results\<close>

definition query_to_json :: "'j json_lib \<Rightarrow> 'j invoke_query \<Rightarrow> 'j" where
  "query_to_json J q =
     write_optional J ''extras'' (\<lambda>e. e) (iq_extras q)
       (js_object J [(''type'', enum_to_json J invoke_type_names (iq_type q)),
                     (''security'', enum_to_json J invoke_security_names (iq_security q)),
                     (''id'', js_string J (iq_id q)), (''name'', js_string J (iq_name q)),
                     (''arguments'', iq_arguments q)])"

definition query_from_json :: "'j json_lib \<Rightarrow> 'j \<Rightarrow> 'j invoke_query \<Rightarrow> 'j invoke_query result" where
  "query_from_json J j q =
     and_then (read_field J j ''type'' (enum_from_json J invoke_type_names) (iq_type q)) (\<lambda>ty.
     and_then (read_field J j ''security'' (enum_from_json J invoke_security_names) (iq_security q)) (\<lambda>sec.
     and_then (read_field J j ''id'' (js_get_string J) (iq_id q)) (\<lambda>call_id.
     and_then (read_field J j ''name'' (js_get_string J) (iq_name q)) (\<lambda>name.
     and_then (read_field J j ''arguments'' Inr (iq_arguments q)) (\<lambda>args.
     and_then (read_optional J j ''extras'' Inr) (\<lambda>extras.
       Inr \<lparr>iq_type = ty, iq_security = sec, iq_id = call_id, iq_name = name, iq_arguments = args,
            iq_extras = extras\<rparr>))))))"

definition get_query :: "'j json_lib \<Rightarrow> 'j \<Rightarrow> 'j invoke_query result" where
  "get_query J j = query_from_json J j (default_query J)"

definition return_to_json :: "'j json_lib \<Rightarrow> 'j invoke_return \<Rightarrow> 'j" where
  "return_to_json J r =
     write_optional J ''extras'' (\<lambda>e. e) (ir_extras r)
       (js_object J [(''query'', query_to_json J (ir_query r)), (''output'', content_to_json J (ir_output r))])"

definition return_from_json :: "'j json_lib \<Rightarrow> 'j \<Rightarrow> 'j invoke_return \<Rightarrow> 'j invoke_return result" where
  "return_from_json J j r =
     and_then (read_field J j ''query'' (\<lambda>v. query_from_json J v (ir_query r)) (ir_query r)) (\<lambda>q.
     and_then (read_field J j ''output'' (\<lambda>v. content_from_json J v (ir_output r)) (ir_output r)) (\<lambda>out.
     and_then (read_optional J j ''extras'' Inr) (\<lambda>extras.
       Inr \<lparr>ir_query = q, ir_output = out, ir_extras = extras\<rparr>)))"

definition get_return :: "'j json_lib \<Rightarrow> 'j \<Rightarrow> 'j invoke_return result" where
  "get_return J j = return_from_json J j (default_return J)"

definition cost_to_json :: "'j json_lib \<Rightarrow> token_cost \<Rightarrow> 'j" where
  "cost_to_json J c =
     js_object J [(''prompt'', js_number J (int (tc_prompt c))), (''generated'', js_number J (int (tc_generated c))),
                  (''cache_hit'', js_number J (int (tc_cache_hit c)))]"

definition cost_from_json :: "'j json_lib \<Rightarrow> 'j \<Rightarrow> token_cost \<Rightarrow> token_cost result" where
  "cost_from_json J j c =
     and_then (read_field J j ''prompt'' (js_get_uint64 J) (tc_prompt c)) (\<lambda>p.
     and_then (read_field J j ''generated'' (js_get_uint64 J) (tc_generated c)) (\<lambda>g.
     and_then (read_field J j ''cache_hit'' (js_get_uint64 J) (tc_cache_hit c)) (\<lambda>h.
       Inr \<lparr>tc_prompt = p, tc_generated = g, tc_cache_hit = h\<rparr>)))"

subsection \<open>Messages\<close>

definition message_to_json :: "'j json_lib \<Rightarrow> 'j message_item \<Rightarrow> 'j" where
  "message_to_json J m =
     write_optional J ''extras'' (\<lambda>e. e) (mi_extras m)
     (write_optional J ''invoke_return'' (return_to_json J) (mi_invoke_return m)
     (write_optional J ''cost'' (cost_to_json J) (mi_cost m)
     (write_optional J ''invokes'' (write_vector J (query_to_json J)) (mi_invokes m)
     (write_optional J ''action_status'' (content_to_json J) (mi_action_status m)
     (write_optional J ''reasoning'' (content_to_json J) (mi_reasoning m)
       (js_object J [(''type'', enum_to_json J message_item_type_names (mi_type m)),
                     (''role'', js_string J (mi_role m)),
                     (''content'', write_vector J (content_to_json J) (mi_content m))]))))))"

definition message_content :: "'j json_lib \<Rightarrow> 'j \<Rightarrow> 'j content list result" where
  "message_content J v =
     (if js_is_array J v then read_vector J (get_content J) v
      else if \<not> js_is_null J v then and_then (get_content J v) (\<lambda>c. Inr [c])
      else Inr [])"

definition message_from_json :: "'j json_lib \<Rightarrow> 'j \<Rightarrow> 'j message_item \<Rightarrow> 'j message_item result" where
  "message_from_json J j m =
     and_then (read_field J j ''type'' (enum_from_json J message_item_type_names) (mi_type m)) (\<lambda>ty.
     and_then (read_field J j ''role'' (js_get_string J) (mi_role m)) (\<lambda>role.
     and_then (read_field J j ''content'' (message_content J) (mi_content m)) (\<lambda>content.
     and_then (read_optional J j ''reasoning'' (get_content J)) (\<lambda>reasoning.
     and_then (read_optional J j ''action_status'' (get_content J)) (\<lambda>status.
     and_then (read_optional J j ''invokes'' (read_vector J (get_query J))) (\<lambda>invokes.
     and_then (read_optional J j ''cost'' (\<lambda>v. cost_from_json J v default_cost)) (\<lambda>cost.
     and_then (read_optional J j ''invoke_return'' (get_return J)) (\<lambda>ret.
     and_then (read_optional J j ''extras'' Inr) (\<lambda>extras.
       Inr \<lparr>mi_type = ty, mi_role = role, mi_content = content, mi_reasoning = reasoning,
            mi_action_status = status, mi_invokes = invokes, mi_cost = cost, mi_invoke_return = ret,
            mi_extras = extras\<rparr>)))))))))"

definition get_message :: "'j json_lib \<Rightarrow> 'j \<Rightarrow> 'j message_item result" where
  "get_message J j = message_from_json J j default_message"

subsection \<open>Loop steps\<close>

definition agent_step_to_json :: "'j json_lib \<Rightarrow> 'j agent_loop_step \<Rightarrow> 'j" where
  "agent_step_to_json J s =
     write_optional J ''extras'' (\<lambda>e. e) (as_extras s)
     (write_optional J ''invoke_returns'' (write_vector J (message_to_json J)) (as_invoke_returns s)
     (write_optional J ''commit_sequence'' (\<lambda>n. js_number J (int n))
        (if as_commit_sequence s \<noteq> 0 then Some (as_commit_sequence s) else None)
       (js_object J [(''model_response'', message_to_json J (as_model_response s)),
                     (''retain_priority'', enum_to_json J retain_priority_names (as_retain_priority s))])))"

definition agent_step_from_json :: "'j json_lib \<Rightarrow> 'j \<Rightarrow> 'j agent_loop_step \<Rightarrow> 'j agent_loop_step result" where
  "agent_step_from_json J j s =
     and_then (read_field J j ''model_response'' (\<lambda>v. message_from_json J v (as_model_response s)) (as_model_response s)) (\<lambda>resp.
     and_then (read_optional J j ''invoke_returns'' (read_vector J (get_message J))) (\<lambda>rets.
     and_then (read_optional J j ''extras'' Inr) (\<lambda>extras.
     and_then (read_field J j ''commit_sequence'' (js_get_uint64 J) (as_commit_sequence s)) (\<lambda>seq.
     and_then (read_field J j ''retain_priority'' (enum_from_json J retain_priority_names) (as_retain_priority s)) (\<lambda>prio.
       Inr \<lparr>as_model_response = resp, as_invoke_returns = rets, as_extras = extras,
            as_commit_sequence = seq, as_retain_priority = prio\<rparr>)))))"

definition user_step_to_json :: "'j json_lib \<Rightarrow> 'j user_loop_step \<Rightarrow> 'j" where
  "user_step_to_json J u =
     write_optional J ''extras'' (\<lambda>e. e) (us_extras u)
       (js_object J [(''user_input'', message_to_json J (us_user_input u)),
                     (''agent_loop_step'', write_vector J (agent_step_to_json J) (us_agent_loop_step u)),
                     (''retain_priority'', enum_to_json J retain_priority_names (us_retain_priority u))])"

definition user_step_from_json :: "'j json_lib \<Rightarrow> 'j \<Rightarrow> 'j user_loop_step \<Rightarrow> 'j user_loop_step result" where
  "user_step_from_json J j u =
     and_then (read_field J j ''user_input'' (\<lambda>v. message_from_json J v (us_user_input u)) (us_user_input u)) (\<lambda>inp.
     and_then (read_field J j ''agent_loop_step''
        (read_vector J (\<lambda>v. agent_step_from_json J v default_agent_step)) (us_agent_loop_step u)) (\<lambda>steps.
     and_then (read_optional J j ''extras'' Inr) (\<lambda>extras.
     and_then (read_field J j ''retain_priority'' (enum_from_json J retain_priority_names) (us_retain_priority u)) (\<lambda>prio.
       Inr \<lparr>us_user_input = inp, us_agent_loop_step = steps, us_extras = extras, us_retain_priority = prio\<rparr>))))"

subsection \<open>Tools and session records\<close>

definition invocable_to_json :: "'j json_lib \<Rightarrow> 'j invocable \<Rightarrow> 'j" where
  "invocable_to_json J v =
     write_optional J ''extras'' (\<lambda>e. e) (iv_extras v)
     (write_optional J ''remote_type'' (js_string J) (iv_remote_type v)
       (js_object J [(''name'', js_string J (iv_name v)), (''description'', js_string J (iv_description v)),
                     (''argument_schema'', iv_argument_schema v)]))"

definition invocable_from_json :: "'j json_lib \<Rightarrow> 'j \<Rightarrow> 'j invocable \<Rightarrow> 'j invocable result" where
  "invocable_from_json J j v =
     and_then (read_field J j ''name'' (js_get_string J) (iv_name v)) (\<lambda>name.
     and_then (read_field J j ''description'' (js_get_string J) (iv_description v)) (\<lambda>desc.
     and_then (read_field J j ''argument_schema'' Inr (iv_argument_schema v)) (\<lambda>schema.
     and_then (read_optional J j ''remote_type'' (js_get_string J)) (\<lambda>remote.
     and_then (read_optional J j ''extras'' Inr) (\<lambda>extras.
       Inr \<lparr>iv_name = name, iv_description = desc, iv_argument_schema = schema, iv_remote_type = remote,
            iv_extras = extras\<rparr>)))))"

definition meta_to_json :: "'j json_lib \<Rightarrow> 'j meta_info \<Rightarrow> 'j" where
  "meta_to_json J m =
     write_optional J ''error'' (\<lambda>e. e) (mt_error m)
       (js_object J [(''schema_version'', js_number J (int (mt_schema_version m))),
                     (''session_id'', js_string J (mt_session_id m)),
                     (''created_at'', js_string J (mt_created_at m)),
                     (''updated_at'', js_string J (mt_updated_at m)),
                     (''status'', enum_to_json J session_status_names (mt_status m))])"

definition meta_from_json :: "'j json_lib \<Rightarrow> 'j \<Rightarrow> 'j meta_info \<Rightarrow> 'j meta_info result" where
  "meta_from_json J j m =
     and_then (read_field J j ''schema_version'' (js_get_uint32 J) (mt_schema_version m)) (\<lambda>ver.
     and_then (read_field J j ''session_id'' (js_get_string J) (mt_session_id m)) (\<lambda>sid.
     and_then (read_field J j ''created_at'' (js_get_string J) (mt_created_at m)) (\<lambda>created.
     and_then (read_field J j ''updated_at'' (js_get_string J) (mt_updated_at m)) (\<lambda>updated.
     and_then (read_field J j ''status'' (enum_from_json J session_status_names) (mt_status m)) (\<lambda>status.
     and_then (read_optional J j ''error'' Inr) (\<lambda>err.
       Inr \<lparr>mt_schema_version = ver, mt_session_id = sid, mt_created_at = created, mt_updated_at = updated,
            mt_status = status, mt_error = err\<rparr>))))))"

definition section_to_json :: "'j json_lib \<Rightarrow> prompt_section \<Rightarrow> 'j" where
  "section_to_json J s =
     js_object J [(''name'', js_string J (sec_name s)), (''title'', js_string J (sec_title s)),
                  (''stability'', enum_to_json J section_stability_names (sec_stability s)),
                  (''text'', js_string J (sec_text s))]"

definition default_section :: prompt_section where
  "default_section = \<lparr>sec_name = [], sec_title = [], sec_stability = Immutable, sec_text = []\<rparr>"

definition section_from_json :: "'j json_lib \<Rightarrow> 'j \<Rightarrow> prompt_section \<Rightarrow> prompt_section result" where
  "section_from_json J j s =
     and_then (read_field J j ''name'' (js_get_string J) (sec_name s)) (\<lambda>name.
     and_then (read_field J j ''title'' (js_get_string J) (sec_title s)) (\<lambda>title.
     and_then (read_field J j ''stability'' (enum_from_json J section_stability_names) (sec_stability s)) (\<lambda>st.
     and_then (read_field J j ''text'' (js_get_string J) (sec_text s)) (\<lambda>body.
       Inr \<lparr>sec_name = name, sec_title = title, sec_stability = st, sec_text = body\<rparr>))))"

definition prompt_to_json :: "'j json_lib \<Rightarrow> prompt_template \<Rightarrow> 'j" where
  "prompt_to_json J t =
     js_set J ''sections'' (js_array J (map (section_to_json J) (tpl_sections t)))
       (js_object J [(''heading_level'', js_number J (heading_level t))])"

fun rebuild_sections :: "'j json_lib \<Rightarrow> 'j list \<Rightarrow> prompt_template \<Rightarrow> prompt_template result" where
  "rebuild_sections J [] t = Inr t"
| "rebuild_sections J (e # es) t =
     and_then (section_from_json J e default_section) (\<lambda>s.
     and_then (add_section (sec_name s) (sec_title s) (sec_text s) (sec_stability s) t) (\<lambda>t'.
       rebuild_sections J es t'))"

text \<open>The template is rebuilt on the side; the prior value only receives the finished one.\<close>

definition prompt_from_json :: "'j json_lib \<Rightarrow> 'j \<Rightarrow> prompt_template result" where
  "prompt_from_json J j =
     and_then (read_field J j ''heading_level'' (js_get_int J) (heading_level PromptTemplate)) (\<lambda>level.
       let rebuilt = PromptTemplate\<lparr>heading_level := level\<rparr> in
       case js_find J j ''sections'' of
         None \<Rightarrow> Inr rebuilt
       | Some v \<Rightarrow> if js_is_array J v then and_then (js_get_array J v) (\<lambda>es. rebuild_sections J es rebuilt)
                   else Inr rebuilt)"

definition progress_to_json :: "'j json_lib \<Rightarrow> 'j loop_progress \<Rightarrow> 'j" where
  "progress_to_json J p =
     js_object J [(''status'', loop_status_to_json J (lp_status p)), (''phase'', loop_phase_to_json J (lp_phase p)),
                  (''completed_exchanges'', js_number J (int (lp_completed_exchanges p))),
                  (''committed_response_sequence'', js_number J (int (lp_committed_response_sequence p))),
                  (''error'', js_string J (lp_error p)),
                  (''pending_results'', write_vector J (return_to_json J) (lp_pending_results p))]"

definition progress_from_json :: "'j json_lib \<Rightarrow> 'j \<Rightarrow> 'j loop_progress \<Rightarrow> 'j loop_progress result" where
  "progress_from_json J j p =
     and_then (read_at J j ''status'' (loop_status_from_json J)) (\<lambda>status.
     and_then (read_at J j ''phase'' (loop_phase_from_json J)) (\<lambda>phase.
     and_then (read_at J j ''completed_exchanges'' (js_get_uint64 J)) (\<lambda>completed.
     and_then (read_field J j ''committed_response_sequence'' (js_get_uint64 J) (lp_committed_response_sequence p)) (\<lambda>seq.
     and_then (read_at J j ''error'' (js_get_string J)) (\<lambda>err.
     and_then (read_at J j ''pending_results'' (read_vector J (get_return J))) (\<lambda>pending.
       Inr \<lparr>lp_status = status, lp_phase = phase, lp_completed_exchanges = completed,
            lp_committed_response_sequence = seq, lp_error = err, lp_pending_results = pending\<rparr>))))))"

definition state_to_json :: "'j json_lib \<Rightarrow> 'j agent_input_state \<Rightarrow> 'j" where
  "state_to_json J s =
     write_optional J ''loop'' (progress_to_json J) (st_loop s)
     (write_optional J ''extras'' (\<lambda>e. e) (st_extras s)
       (js_object J [(''meta'', meta_to_json J (st_meta s)),
                     (''system_prompt'', prompt_to_json J (st_system_prompt s)),
                     (''tools'', write_vector J (invocable_to_json J) (st_tools s)),
                     (''turns'', write_vector J (user_step_to_json J) (st_turns s))]))"

definition state_from_json :: "'j json_lib \<Rightarrow> 'j \<Rightarrow> 'j agent_input_state \<Rightarrow> 'j agent_input_state result" where
  "state_from_json J j s =
     and_then (read_optional J j ''loop'' (\<lambda>v. progress_from_json J v default_progress)) (\<lambda>progress.
     and_then (read_field J j ''meta'' (\<lambda>v. meta_from_json J v (st_meta s)) (st_meta s)) (\<lambda>meta.
     and_then (read_field J j ''system_prompt'' (prompt_from_json J) (st_system_prompt s)) (\<lambda>prompt.
     and_then (read_field J j ''tools'' (read_vector J (\<lambda>v. invocable_from_json J v (default_invocable J))) (st_tools s)) (\<lambda>tools.
     and_then (read_field J j ''turns'' (read_vector J (\<lambda>v. user_step_from_json J v default_user_step)) (st_turns s)) (\<lambda>turns.
     and_then (read_optional J j ''extras'' Inr) (\<lambda>extras.
       Inr \<lparr>st_loop = progress, st_meta = meta, st_system_prompt = prompt, st_tools = tools, st_turns = turns,
            st_extras = extras\<rparr>))))))"

definition event_to_json :: "'j json_lib \<Rightarrow> 'j hook_event \<Rightarrow> 'j" where
  "event_to_json J e =
     js_object J [(''source'', js_string J (he_source e)), (''key'', js_string J (he_key e)),
                  (''at'', js_string J (he_at e)), (''detail'', he_detail e)]"

definition event_from_json :: "'j json_lib \<Rightarrow> 'j \<Rightarrow> 'j hook_event \<Rightarrow> 'j hook_event result" where
  "event_from_json J j e =
     and_then (read_field J j ''source'' (js_get_string J) (he_source e)) (\<lambda>source.
     and_then (read_field J j ''key'' (js_get_string J) (he_key e)) (\<lambda>key.
     and_then (read_field J j ''at'' (js_get_string J) (he_at e)) (\<lambda>at.
     and_then (read_field J j ''detail'' (\<lambda>v. Inr (if js_is_null J v then he_detail e else v)) (he_detail e)) (\<lambda>detail.
       Inr \<lparr>he_source = source, he_key = key, he_at = at, he_detail = detail\<rparr>))))"

section \<open>The reserved regions of \<^verbatim>\<open>extras\<close>\<close>

definition em_dash :: string where
  "em_dash = [CHR 0xE2, CHR 0x80, CHR 0x94]"

definition events_key :: string where
  "events_key = ''events''"

definition external_status_key :: string where
  "external_status_key = ''external_status''"

text \<open>\<^verbatim>\<open>(*state.extras)[key]\<close>: a missing member is created as null.\<close>

definition region_of :: "'j json_lib \<Rightarrow> 'j \<Rightarrow> string \<Rightarrow> 'j" where
  "region_of J extras key = (case js_find J extras key of None \<Rightarrow> js_null J | Some v \<Rightarrow> v)"

definition publish_hook_event ::
  "'j json_lib \<Rightarrow> 'j agent_input_state \<Rightarrow> 'j hook_event \<Rightarrow> 'j agent_input_state result" where
  "publish_hook_event J state event =
     (if he_source event = [] then
        Inl (LogicError (''publish_hook_event: every event needs a non-empty source '' @ em_dash @ '' the identity that owns the write''))
      else if he_key event = [] then
        Inl (LogicError (''publish_hook_event: every event needs a non-empty key '' @ em_dash @ '' the name of what happened''))
      else
        let extras = (case st_extras state of None \<Rightarrow> js_object J [] | Some e \<Rightarrow> e) in
        if \<not> js_is_object J extras then Inl (LogicError ''publish_hook_event: extras is not an object'')
        else
          let region = region_of J extras events_key in
          if js_is_null J region then
            Inr (state\<lparr>st_extras := Some (js_set J events_key (js_array J [event_to_json J event]) extras)\<rparr>)
          else if \<not> js_is_array J region then
            Inl (LogicError (''publish_hook_event: extras[events] is not an array '' @ em_dash @ '' the reserved region is corrupt''))
          else and_then (js_get_array J region) (\<lambda>es.
            Inr (state\<lparr>st_extras := Some (js_set J events_key (js_array J (es @ [event_to_json J event])) extras)\<rparr>)))"

definition event_region :: "'j json_lib \<Rightarrow> 'j agent_input_state \<Rightarrow> 'j list" where
  "event_region J state =
     (case st_extras state of
        None \<Rightarrow> []
      | Some extras \<Rightarrow>
          if \<not> js_is_object J extras then []
          else case js_find J extras events_key of
                 None \<Rightarrow> []
               | Some region \<Rightarrow> if js_is_array J region
                                then (case js_get_array J region of Inl _ \<Rightarrow> [] | Inr es \<Rightarrow> es) else [])"

fun latest_loop ::
  "'j json_lib \<Rightarrow> string \<Rightarrow> string \<Rightarrow> 'j list \<Rightarrow> 'j hook_event option result" where
  "latest_loop J key source [] = Inr None"
| "latest_loop J key source (entry # entries) =
     (if \<not> js_is_object J entry then latest_loop J key source entries
      else and_then (event_from_json J entry (default_event J)) (\<lambda>e.
        if he_key e \<noteq> key then latest_loop J key source entries
        else if source \<noteq> [] \<and> he_source e \<noteq> source then latest_loop J key source entries
        else Inr (Some e)))"

definition latest_hook_event ::
  "'j json_lib \<Rightarrow> 'j agent_input_state \<Rightarrow> string \<Rightarrow> string \<Rightarrow> 'j hook_event option result" where
  "latest_hook_event J state key source = latest_loop J key source (rev (event_region J state))"

fun events_loop :: "'j json_lib \<Rightarrow> string \<Rightarrow> 'j list \<Rightarrow> 'j hook_event list result" where
  "events_loop J source [] = Inr []"
| "events_loop J source (entry # entries) =
     (if \<not> js_is_object J entry then events_loop J source entries
      else and_then (event_from_json J entry (default_event J)) (\<lambda>e.
        if source \<noteq> [] \<and> he_source e \<noteq> source then events_loop J source entries
        else and_then (events_loop J source entries) (\<lambda>es. Inr (e # es))))"

definition hook_events :: "'j json_lib \<Rightarrow> 'j agent_input_state \<Rightarrow> string \<Rightarrow> 'j hook_event list result" where
  "hook_events J state source = events_loop J source (event_region J state)"

definition sync_external_status ::
  "'j json_lib \<Rightarrow> 'j agent_input_state \<Rightarrow> string \<Rightarrow> 'j \<Rightarrow> 'j agent_input_state result" where
  "sync_external_status J state source status =
     (if source = [] then
        Inl (LogicError (''sync_external_status: a status sync needs a non-empty source '' @ em_dash @ '' the identity that owns the slot''))
      else if \<not> js_is_object J status then
        Inl (LogicError ''sync_external_status: a status document must be a JSON object'')
      else
        let extras = (case st_extras state of None \<Rightarrow> js_object J [] | Some e \<Rightarrow> e) in
        if \<not> js_is_object J extras then Inl (LogicError ''sync_external_status: extras is not an object'')
        else
          let region = region_of J extras external_status_key;
              slots = (if js_is_null J region then js_object J [] else region) in
          if \<not> js_is_object J slots then
            Inl (LogicError (''sync_external_status: extras[external_status] is not an object '' @ em_dash @ '' the reserved region is corrupt''))
          else Inr (state\<lparr>st_extras :=
            Some (js_set J external_status_key (js_set J source status slots) extras)\<rparr>))"

definition external_status :: "'j json_lib \<Rightarrow> 'j agent_input_state \<Rightarrow> string \<Rightarrow> 'j option" where
  "external_status J state source =
     (case st_extras state of
        None \<Rightarrow> None
      | Some extras \<Rightarrow>
          if \<not> js_is_object J extras then None
          else case js_find J extras external_status_key of
                 None \<Rightarrow> None
               | Some region \<Rightarrow>
                   if \<not> js_is_object J region then None
                   else case js_find J region source of
                          None \<Rightarrow> None
                        | Some slot \<Rightarrow> if js_is_null J slot \<or> \<not> js_is_object J slot then None else Some slot)"

section \<open>Call labels\<close>

definition key_safe :: "char \<Rightarrow> bool" where
  "key_safe byte \<longleftrightarrow> byte \<in> set ''abcdefghijklmnopqrstuvwxyz'' \<or> byte \<in> set ''ABCDEFGHIJKLMNOPQRSTUVWXYZ'' \<or>
     byte \<in> set ''0123456789'' \<or> byte = CHR ''_'' \<or> byte = CHR ''-''"

definition append_field :: "string \<Rightarrow> string \<Rightarrow> string" where
  "append_field raw mangled =
     (if raw = [] then mangled
      else (if mangled \<noteq> [] then mangled @ ''__'' else mangled) @
           map (\<lambda>byte. if key_safe byte then byte else CHR ''_'') (take 64 raw))"

definition mangled_name :: "'j invoke_query \<Rightarrow> string" where
  "mangled_name q = append_field (iq_id q) (append_field (iq_name q) [])"

section \<open>Round trips\<close>

text \<open>
  What a value must satisfy to come back: a JSON null under an optional key reads as absent, and
  the integers fit their C++ types.
\<close>

definition no_null :: "'j json_lib \<Rightarrow> 'j option \<Rightarrow> bool" where
  "no_null J x = (case x of None \<Rightarrow> True | Some e \<Rightarrow> \<not> js_is_null J e)"

definition all_opt :: "('a \<Rightarrow> bool) \<Rightarrow> 'a option \<Rightarrow> bool" where
  "all_opt P x = (case x of None \<Rightarrow> True | Some y \<Rightarrow> P y)"

definition wf_query :: "'j json_lib \<Rightarrow> 'j invoke_query \<Rightarrow> bool" where
  "wf_query J q \<longleftrightarrow> no_null J (iq_extras q)"

definition wf_return :: "'j json_lib \<Rightarrow> 'j invoke_return \<Rightarrow> bool" where
  "wf_return J r \<longleftrightarrow> wf_query J (ir_query r) \<and> no_null J (cn_extras (ir_output r)) \<and> no_null J (ir_extras r)"

definition wf_cost :: "token_cost \<Rightarrow> bool" where
  "wf_cost c \<longleftrightarrow> tc_prompt c \<le> size_max \<and> tc_generated c \<le> size_max \<and> tc_cache_hit c \<le> size_max"

definition wf_message :: "'j json_lib \<Rightarrow> 'j message_item \<Rightarrow> bool" where
  "wf_message J m \<longleftrightarrow>
     list_all (\<lambda>c. no_null J (cn_extras c)) (mi_content m) \<and>
     all_opt (\<lambda>c. no_null J (cn_extras c)) (mi_reasoning m) \<and>
     all_opt (\<lambda>c. no_null J (cn_extras c)) (mi_action_status m) \<and>
     all_opt (list_all (wf_query J)) (mi_invokes m) \<and> all_opt wf_cost (mi_cost m) \<and>
     all_opt (wf_return J) (mi_invoke_return m) \<and> no_null J (mi_extras m)"

definition wf_agent_step :: "'j json_lib \<Rightarrow> 'j agent_loop_step \<Rightarrow> bool" where
  "wf_agent_step J s \<longleftrightarrow> wf_message J (as_model_response s) \<and> all_opt (list_all (wf_message J)) (as_invoke_returns s) \<and>
     no_null J (as_extras s) \<and> as_commit_sequence s \<le> size_max"

definition wf_user_step :: "'j json_lib \<Rightarrow> 'j user_loop_step \<Rightarrow> bool" where
  "wf_user_step J u \<longleftrightarrow> wf_message J (us_user_input u) \<and> list_all (wf_agent_step J) (us_agent_loop_step u) \<and>
     no_null J (us_extras u)"

definition wf_progress :: "'j json_lib \<Rightarrow> 'j loop_progress \<Rightarrow> bool" where
  "wf_progress J p \<longleftrightarrow> lp_completed_exchanges p \<le> size_max \<and> lp_committed_response_sequence p \<le> size_max \<and>
     list_all (wf_return J) (lp_pending_results p)"

definition wf_state :: "'j json_lib \<Rightarrow> 'j agent_input_state \<Rightarrow> bool" where
  "wf_state J s \<longleftrightarrow> all_opt (wf_progress J) (st_loop s) \<and>
     mt_schema_version (st_meta s) < 2 ^ 32 \<and> no_null J (mt_error (st_meta s)) \<and>
     wf_template (st_system_prompt s) \<and> - (2 ^ 31) \<le> heading_level (st_system_prompt s) \<and>
     heading_level (st_system_prompt s) < 2 ^ 31 \<and>
     list_all (\<lambda>v. no_null J (iv_extras v)) (st_tools s) \<and>
     list_all (wf_user_step J) (st_turns s) \<and> no_null J (st_extras s)"

definition names_ok :: "('e \<times> string) list \<Rightarrow> 'e \<Rightarrow> bool" where
  "names_ok table e \<longleftrightarrow> distinct (map snd table) \<and> e \<in> fst ` set table"

lemma content_type_table: "names_ok content_type_names e"
  by (cases e) (simp_all add: names_ok_def content_type_names_def)

lemma invoke_type_table: "names_ok invoke_type_names e"
  by (cases e) (simp_all add: names_ok_def invoke_type_names_def)

lemma invoke_security_table: "names_ok invoke_security_names e"
  by (cases e) (simp_all add: names_ok_def invoke_security_names_def)

lemma message_item_type_table: "names_ok message_item_type_names e"
  by (cases e) (simp_all add: names_ok_def message_item_type_names_def)

lemma retain_priority_table: "names_ok retain_priority_names e"
  by (cases e) (simp_all add: names_ok_def retain_priority_names_def)

lemma session_status_table: "names_ok session_status_names e"
  by (cases e) (simp_all add: names_ok_def session_status_names_def)

lemma section_stability_table: "names_ok section_stability_names e"
  by (cases e) (simp_all add: names_ok_def section_stability_names_def)

lemmas enum_tables = content_type_table invoke_type_table invoke_security_table message_item_type_table retain_priority_table session_status_table section_stability_table

context json_laws
begin

lemma write_optional_object: "js_is_object J j \<Longrightarrow> js_is_object J (write_optional J k enc x j)"
  by (simp add: write_optional_def set_object split: option.split)

lemma find_write_optional:
  "js_is_object J j \<Longrightarrow> js_find J (write_optional J k enc x j) k' =
     (if k' = k then (case x of None \<Rightarrow> js_find J j k | Some y \<Rightarrow> Some (enc y)) else js_find J j k')"
  by (simp add: write_optional_def find_set split: option.split)

lemma read_field_found: "js_find J j k = Some v \<Longrightarrow> read_field J j k dec d = dec v"
  by (simp add: read_field_def)

lemma read_at_found: "js_is_object J j \<Longrightarrow> js_find J j k = Some v \<Longrightarrow> read_at J j k dec = dec v"
  by (simp add: read_at_def)

lemma read_optional_found:
  assumes "js_find J j k = (case x of None \<Rightarrow> None | Some y \<Rightarrow> Some (enc y))"
    and "all_opt (\<lambda>y. dec (enc y) = Inr y \<and> \<not> js_is_null J (enc y)) x"
  shows "read_optional J j k dec = Inr x"
  using assms by (cases x) (auto simp: read_optional_def all_opt_def)

lemmas json_find = find_write_optional write_optional_object find_object object_kind find_set set_object

lemma table_written: "names_ok table e \<Longrightarrow> enum_from_json J table (enum_to_json J table e) = Inr e"
  by (simp add: names_ok_def enum_written)

lemmas enums_written = enum_tables [THEN table_written]

lemma written_objects [simp]:
  "js_is_object J (content_to_json J c)" "js_is_object J (query_to_json J q)"
  "js_is_object J (return_to_json J r)" "js_is_object J (cost_to_json J tc)"
  "js_is_object J (message_to_json J m)" "js_is_object J (agent_step_to_json J s)"
  "js_is_object J (user_step_to_json J u)" "js_is_object J (invocable_to_json J v)"
  "js_is_object J (meta_to_json J mt)" "js_is_object J (prompt_to_json J t)"
  "js_is_object J (progress_to_json J p)" "js_is_object J (state_to_json J st)"
  "js_is_object J (event_to_json J e)" "js_is_object J (section_to_json J sec)"
  by (simp_all add: content_to_json_def query_to_json_def return_to_json_def cost_to_json_def
      message_to_json_def agent_step_to_json_def user_step_to_json_def invocable_to_json_def meta_to_json_def
      prompt_to_json_def progress_to_json_def state_to_json_def event_to_json_def section_to_json_def json_find)

lemma written_not_null [simp]:
  "\<not> js_is_null J (content_to_json J c)" "\<not> js_is_null J (return_to_json J r)"
  "\<not> js_is_null J (cost_to_json J tc)" "\<not> js_is_null J (progress_to_json J p)"
  by (simp_all add: object_not_null)

lemma extras_found:
  assumes "js_find J j k = (case x of None \<Rightarrow> None | Some y \<Rightarrow> Some y)" "no_null J x"
  shows "read_optional J j k Inr = Inr x"
  using assms by (cases x) (auto simp: read_optional_def no_null_def)

lemma modality_written: "modality_from_json J (modality_to_json J m) = Inr m"
  by (cases m) (simp_all add: modality_from_json_def modality_to_json_def string_read)

lemma content_written:
  assumes "no_null J (cn_extras c)"
  shows "content_from_json J (content_to_json J c) d = Inr c"
proof -
  let ?j = "content_to_json J c"
  have f: "js_find J ?j ''type'' = Some (enum_to_json J content_type_names (cn_type c))"
    "js_find J ?j ''raw'' = Some (js_string J (cn_raw c))"
    "js_find J ?j ''modality'' = Some (modality_to_json J (cn_modality c))"
    "js_find J ?j ''extras'' = (case cn_extras c of None \<Rightarrow> None | Some y \<Rightarrow> Some y)"
    by (simp_all add: content_to_json_def json_find cong: option.case_cong)
  show ?thesis
    by (simp add: content_from_json_def read_field_found [OF f(1)] read_field_found [OF f(2)] f(3)
        extras_found [OF f(4) assms] enums_written string_read modality_written)
qed

lemma get_content_written: "no_null J (cn_extras c) \<Longrightarrow> get_content J (content_to_json J c) = Inr c"
  by (simp add: get_content_def content_written)

lemma query_written:
  assumes "wf_query J q"
  shows "query_from_json J (query_to_json J q) d = Inr q"
proof -
  let ?j = "query_to_json J q"
  have f: "js_find J ?j ''type'' = Some (enum_to_json J invoke_type_names (iq_type q))"
    "js_find J ?j ''security'' = Some (enum_to_json J invoke_security_names (iq_security q))"
    "js_find J ?j ''id'' = Some (js_string J (iq_id q))"
    "js_find J ?j ''name'' = Some (js_string J (iq_name q))"
    "js_find J ?j ''arguments'' = Some (iq_arguments q)"
    "js_find J ?j ''extras'' = (case iq_extras q of None \<Rightarrow> None | Some y \<Rightarrow> Some y)"
    by (simp_all add: query_to_json_def json_find cong: option.case_cong)
  show ?thesis
    using assms
    by (simp add: query_from_json_def f(1-5) [THEN read_field_found] extras_found [OF f(6)]
        wf_query_def enums_written string_read)
qed

lemma return_written:
  assumes "wf_return J r"
  shows "return_from_json J (return_to_json J r) d = Inr r"
proof -
  let ?j = "return_to_json J r"
  have f: "js_find J ?j ''query'' = Some (query_to_json J (ir_query r))"
    "js_find J ?j ''output'' = Some (content_to_json J (ir_output r))"
    "js_find J ?j ''extras'' = (case ir_extras r of None \<Rightarrow> None | Some y \<Rightarrow> Some y)"
    by (simp_all add: return_to_json_def json_find cong: option.case_cong)
  show ?thesis
    using assms
    by (simp add: return_from_json_def f(1-2) [THEN read_field_found] extras_found [OF f(3)]
        wf_return_def query_written content_written)
qed

lemma cost_written: "wf_cost c \<Longrightarrow> cost_from_json J (cost_to_json J c) d = Inr c"
  by (simp add: cost_from_json_def cost_to_json_def read_field_def json_find uint64_read wf_cost_def)
end

context json_laws
begin

lemma get_query_written: "wf_query J q \<Longrightarrow> get_query J (query_to_json J q) = Inr q"
  by (simp add: get_query_def query_written)

lemma get_return_written: "wf_return J r \<Longrightarrow> get_return J (return_to_json J r) = Inr r"
  by (simp add: get_return_def return_written)

lemma all_opt_mono: "all_opt P x \<Longrightarrow> (\<And>y. P y \<Longrightarrow> Q y) \<Longrightarrow> all_opt Q x"
  by (cases x) (auto simp: all_opt_def)

lemma vector_written:
  "list_all P xs \<Longrightarrow> (\<And>x. P x \<Longrightarrow> dec (enc x) = Inr x) \<Longrightarrow> read_vector J dec (write_vector J enc xs) = Inr xs"
  by (rule read_vector_written) (auto simp: list_all_iff)

lemma message_content_written:
  "list_all (\<lambda>c. no_null J (cn_extras c)) cs \<Longrightarrow>
   message_content J (write_vector J (content_to_json J) cs) = Inr cs"
  using vector_written [OF _ get_content_written]
  by (simp add: message_content_def) (simp add: write_vector_def array_kind)

lemma message_written:
  assumes "wf_message J m"
  shows "message_from_json J (message_to_json J m) d = Inr m"
proof -
  let ?j = "message_to_json J m"
  have f: "js_find J ?j ''type'' = Some (enum_to_json J message_item_type_names (mi_type m))"
    "js_find J ?j ''role'' = Some (js_string J (mi_role m))"
    "js_find J ?j ''content'' = Some (write_vector J (content_to_json J) (mi_content m))"
    by (simp_all add: message_to_json_def json_find)
  have g: "js_find J ?j ''reasoning'' = (case mi_reasoning m of None \<Rightarrow> None | Some y \<Rightarrow> Some (content_to_json J y))"
    "js_find J ?j ''action_status'' = (case mi_action_status m of None \<Rightarrow> None | Some y \<Rightarrow> Some (content_to_json J y))"
    "js_find J ?j ''invokes'' = (case mi_invokes m of None \<Rightarrow> None | Some y \<Rightarrow> Some (write_vector J (query_to_json J) y))"
    "js_find J ?j ''cost'' = (case mi_cost m of None \<Rightarrow> None | Some y \<Rightarrow> Some (cost_to_json J y))"
    "js_find J ?j ''invoke_return'' = (case mi_invoke_return m of None \<Rightarrow> None | Some y \<Rightarrow> Some (return_to_json J y))"
    "js_find J ?j ''extras'' = (case mi_extras m of None \<Rightarrow> None | Some y \<Rightarrow> Some y)"
    by (simp_all add: message_to_json_def json_find cong: option.case_cong)
  have o: "read_optional J ?j ''reasoning'' (get_content J) = Inr (mi_reasoning m)"
    "read_optional J ?j ''action_status'' (get_content J) = Inr (mi_action_status m)"
    "read_optional J ?j ''invokes'' (read_vector J (get_query J)) = Inr (mi_invokes m)"
    "read_optional J ?j ''cost'' (\<lambda>v. cost_from_json J v default_cost) = Inr (mi_cost m)"
    "read_optional J ?j ''invoke_return'' (get_return J) = Inr (mi_invoke_return m)"
    using assms unfolding wf_message_def
    by (auto intro!: read_optional_found [OF g(1)] read_optional_found [OF g(2)] read_optional_found [OF g(3)]
        read_optional_found [OF g(4)] read_optional_found [OF g(5)] vector_written
        elim!: all_opt_mono simp: get_content_written get_query_written get_return_written cost_written
        write_vector_not_null)
  show ?thesis
    using assms unfolding wf_message_def
    by (simp add: message_from_json_def f [THEN read_field_found] o extras_found [OF g(6)]
        enums_written string_read message_content_written)
qed

lemma get_message_written: "wf_message J m \<Longrightarrow> get_message J (message_to_json J m) = Inr m"
  by (simp add: get_message_def message_written)

lemma agent_step_written:
  assumes "wf_agent_step J s"
  shows "agent_step_from_json J (agent_step_to_json J s) default_agent_step = Inr s"
proof -
  let ?j = "agent_step_to_json J s"
  have f: "js_find J ?j ''model_response'' = Some (message_to_json J (as_model_response s))"
    "js_find J ?j ''retain_priority'' = Some (enum_to_json J retain_priority_names (as_retain_priority s))"
    by (simp_all add: agent_step_to_json_def json_find)
  have g: "js_find J ?j ''invoke_returns'' =
      (case as_invoke_returns s of None \<Rightarrow> None | Some y \<Rightarrow> Some (write_vector J (message_to_json J) y))"
    "js_find J ?j ''extras'' = (case as_extras s of None \<Rightarrow> None | Some y \<Rightarrow> Some y)"
    "js_find J ?j ''commit_sequence'' =
      (if as_commit_sequence s \<noteq> 0 then Some (js_number J (int (as_commit_sequence s))) else None)"
    by (simp_all add: agent_step_to_json_def json_find cong: option.case_cong)
  have o: "read_optional J ?j ''invoke_returns'' (read_vector J (get_message J)) = Inr (as_invoke_returns s)"
    using assms unfolding wf_agent_step_def
    by (auto intro!: read_optional_found [OF g(1)] vector_written elim!: all_opt_mono
        simp: get_message_written write_vector_not_null)
  have c: "read_field J ?j ''commit_sequence'' (js_get_uint64 J) (as_commit_sequence default_agent_step) =
      Inr (as_commit_sequence s)"
    using assms by (simp add: read_field_def g(3) uint64_read wf_agent_step_def default_agent_step_def)
  show ?thesis
    using assms unfolding wf_agent_step_def
    by (simp add: agent_step_from_json_def f [THEN read_field_found] o c extras_found [OF g(2)]
        enums_written message_written)
qed

lemma agent_steps_written:
  "list_all (wf_agent_step J) xs \<Longrightarrow>
   read_vector J (\<lambda>v. agent_step_from_json J v default_agent_step) (write_vector J (agent_step_to_json J) xs) = Inr xs"
  by (rule read_vector_written) (simp add: list_all_iff agent_step_written)

lemma user_step_written:
  assumes "wf_user_step J u"
  shows "user_step_from_json J (user_step_to_json J u) d = Inr u"
proof -
  let ?j = "user_step_to_json J u"
  have f: "js_find J ?j ''user_input'' = Some (message_to_json J (us_user_input u))"
    "js_find J ?j ''agent_loop_step'' = Some (write_vector J (agent_step_to_json J) (us_agent_loop_step u))"
    "js_find J ?j ''retain_priority'' = Some (enum_to_json J retain_priority_names (us_retain_priority u))"
    "js_find J ?j ''extras'' = (case us_extras u of None \<Rightarrow> None | Some y \<Rightarrow> Some y)"
    by (simp_all add: user_step_to_json_def json_find cong: option.case_cong)
  show ?thesis
    using assms unfolding wf_user_step_def
    by (simp add: user_step_from_json_def f(1-3) [THEN read_field_found] extras_found [OF f(4)]
        enums_written message_written agent_steps_written)
qed

lemma user_steps_written:
  "list_all (wf_user_step J) xs \<Longrightarrow>
   read_vector J (\<lambda>v. user_step_from_json J v default_user_step) (write_vector J (user_step_to_json J) xs) = Inr xs"
  by (rule read_vector_written) (simp add: list_all_iff user_step_written)

lemma returns_written:
  "list_all (wf_return J) xs \<Longrightarrow> read_vector J (get_return J) (write_vector J (return_to_json J) xs) = Inr xs"
  by (rule read_vector_written) (simp add: list_all_iff get_return_written)

lemma invocable_written:
  assumes "no_null J (iv_extras v)"
  shows "invocable_from_json J (invocable_to_json J v) d = Inr v"
proof -
  let ?j = "invocable_to_json J v"
  have f: "js_find J ?j ''name'' = Some (js_string J (iv_name v))"
    "js_find J ?j ''description'' = Some (js_string J (iv_description v))"
    "js_find J ?j ''argument_schema'' = Some (iv_argument_schema v)"
    "js_find J ?j ''remote_type'' = (case iv_remote_type v of None \<Rightarrow> None | Some y \<Rightarrow> Some (js_string J y))"
    "js_find J ?j ''extras'' = (case iv_extras v of None \<Rightarrow> None | Some y \<Rightarrow> Some y)"
    by (simp_all add: invocable_to_json_def json_find cong: option.case_cong)
  have o: "read_optional J ?j ''remote_type'' (js_get_string J) = Inr (iv_remote_type v)"
    by (rule read_optional_found [OF f(4)])
       (simp add: all_opt_def string_read string_kind split: option.split)
  show ?thesis
    by (simp add: invocable_from_json_def f(1-3) [THEN read_field_found] o extras_found [OF f(5) assms] string_read)
qed

lemma invocables_written:
  "list_all (\<lambda>v. no_null J (iv_extras v)) xs \<Longrightarrow>
   read_vector J (\<lambda>v. invocable_from_json J v (default_invocable J)) (write_vector J (invocable_to_json J) xs) = Inr xs"
  by (rule read_vector_written) (simp add: list_all_iff invocable_written)

lemma meta_written:
  assumes "mt_schema_version m < 2 ^ 32" "no_null J (mt_error m)"
  shows "meta_from_json J (meta_to_json J m) d = Inr m"
proof -
  let ?j = "meta_to_json J m"
  have f: "js_find J ?j ''schema_version'' = Some (js_number J (int (mt_schema_version m)))"
    "js_find J ?j ''session_id'' = Some (js_string J (mt_session_id m))"
    "js_find J ?j ''created_at'' = Some (js_string J (mt_created_at m))"
    "js_find J ?j ''updated_at'' = Some (js_string J (mt_updated_at m))"
    "js_find J ?j ''status'' = Some (enum_to_json J session_status_names (mt_status m))"
    "js_find J ?j ''error'' = (case mt_error m of None \<Rightarrow> None | Some y \<Rightarrow> Some y)"
    by (simp_all add: meta_to_json_def json_find cong: option.case_cong)
  show ?thesis
    by (simp add: meta_from_json_def f(1-5) [THEN read_field_found] extras_found [OF f(6) assms(2)]
        enums_written string_read uint32_read [OF assms(1)])
qed

lemma section_written: "section_from_json J (section_to_json J s) d = Inr s"
  by (simp add: section_from_json_def section_to_json_def read_field_def json_find string_read enums_written)

lemma rebuild_written:
  assumes "wf_sections (tpl_sections t @ secs)"
  shows "rebuild_sections J (map (section_to_json J) secs) t = Inr (t\<lparr>tpl_sections := tpl_sections t @ secs\<rparr>)"
  using assms
proof (induction secs arbitrary: t)
  case (Cons s secs)
  have "add_section (sec_name s) (sec_title s) (sec_text s) (sec_stability s) t =
      Inr (t\<lparr>tpl_sections := tpl_sections t @ [s]\<rparr>)"
    using Cons.prems last_in_set [of "tpl_sections t"]
    by (fastforce simp: add_section_def contains_section_def find_section_None wf_sections_def sorted_append
        canonicalize_fixed)
  with Cons show ?case by (simp add: section_written)
qed simp

lemma prompt_written:
  assumes "wf_template t" "- (2 ^ 31) \<le> heading_level t" "heading_level t < 2 ^ 31"
  shows "prompt_from_json J (prompt_to_json J t) = Inr t"
proof -
  have "rebuild_sections J (map (section_to_json J) (tpl_sections t)) (PromptTemplate\<lparr>heading_level := heading_level t\<rparr>) =
      Inr t"
    using assms(1) rebuild_written [of "PromptTemplate\<lparr>heading_level := heading_level t\<rparr>" "tpl_sections t"]
    by (simp add: wf_template_def PromptTemplate_def)
  then show ?thesis
    by (simp add: prompt_from_json_def prompt_to_json_def read_field_def json_find int_read [OF assms(2,3)]
        array_read array_kind)
qed

lemma status_written: "loop_status_from_json J (loop_status_to_json J x) = Inr x"
  by (cases x) (simp_all add: loop_status_from_json_def loop_status_to_json_def string_read)

lemma phase_written: "loop_phase_from_json J (loop_phase_to_json J x) = Inr x"
  by (cases x) (simp_all add: loop_phase_from_json_def loop_phase_to_json_def string_read)

lemma progress_written:
  assumes "wf_progress J p"
  shows "progress_from_json J (progress_to_json J p) d = Inr p"
proof -
  let ?j = "progress_to_json J p"
  have f: "js_find J ?j ''status'' = Some (loop_status_to_json J (lp_status p))"
    "js_find J ?j ''phase'' = Some (loop_phase_to_json J (lp_phase p))"
    "js_find J ?j ''completed_exchanges'' = Some (js_number J (int (lp_completed_exchanges p)))"
    "js_find J ?j ''error'' = Some (js_string J (lp_error p))"
    "js_find J ?j ''pending_results'' = Some (write_vector J (return_to_json J) (lp_pending_results p))"
    "js_find J ?j ''committed_response_sequence'' = Some (js_number J (int (lp_committed_response_sequence p)))"
    by (simp_all add: progress_to_json_def json_find)
  show ?thesis
    using assms unfolding wf_progress_def
    by (simp add: progress_from_json_def f(1-5) [THEN read_at_found [rotated]] read_field_found [OF f(6)]
        status_written phase_written uint64_read string_read returns_written)
qed

lemma state_written:
  assumes "wf_state J s"
  shows "state_from_json J (state_to_json J s) d = Inr s"
proof -
  let ?j = "state_to_json J s"
  have f: "js_find J ?j ''meta'' = Some (meta_to_json J (st_meta s))"
    "js_find J ?j ''system_prompt'' = Some (prompt_to_json J (st_system_prompt s))"
    "js_find J ?j ''tools'' = Some (write_vector J (invocable_to_json J) (st_tools s))"
    "js_find J ?j ''turns'' = Some (write_vector J (user_step_to_json J) (st_turns s))"
    "js_find J ?j ''extras'' = (case st_extras s of None \<Rightarrow> None | Some y \<Rightarrow> Some y)"
    "js_find J ?j ''loop'' = (case st_loop s of None \<Rightarrow> None | Some y \<Rightarrow> Some (progress_to_json J y))"
    by (simp_all add: state_to_json_def json_find cong: option.case_cong)
  have o: "read_optional J ?j ''loop'' (\<lambda>v. progress_from_json J v default_progress) = Inr (st_loop s)"
    using assms unfolding wf_state_def
    by (auto intro!: read_optional_found [OF f(6)] elim!: all_opt_mono simp: progress_written)
  show ?thesis
    using assms unfolding wf_state_def
    by (simp add: state_from_json_def f(1-4) [THEN read_field_found] o extras_found [OF f(5)]
        meta_written prompt_written invocables_written user_steps_written)
qed

end

section \<open>The reserved regions\<close>

context json_laws
begin

lemma event_written:
  "\<not> js_is_null J (he_detail e) \<Longrightarrow> event_from_json J (event_to_json J e) d = Inr e"
  by (simp add: event_from_json_def event_to_json_def read_field_def json_find string_read)

lemma keys_differ: "external_status_key \<noteq> events_key" "events_key \<noteq> external_status_key"
  by (simp_all add: external_status_key_def events_key_def)

lemma empty_object_find [simp]: "js_find J (js_object J []) k = None"
  using find_object [of "[]" k] by simp

text \<open>Both regions are read off the \<^verbatim>\<open>extras\<close> object, absent extras counting as an empty one.\<close>

definition extras_of :: "'j agent_input_state \<Rightarrow> 'j" where
  "extras_of s = (case st_extras s of None \<Rightarrow> js_object J [] | Some e \<Rightarrow> e)"

definition listed :: "'j \<Rightarrow> 'j list" where
  "listed x = (case js_find J x events_key of None \<Rightarrow> []
     | Some r \<Rightarrow> if js_is_array J r then (case js_get_array J r of Inl _ \<Rightarrow> [] | Inr es \<Rightarrow> es) else [])"

definition slot :: "'j \<Rightarrow> string \<Rightarrow> 'j option" where
  "slot x w = (case js_find J x external_status_key of None \<Rightarrow> None
     | Some r \<Rightarrow> if \<not> js_is_object J r then None
         else case js_find J r w of None \<Rightarrow> None
              | Some v \<Rightarrow> if js_is_null J v \<or> \<not> js_is_object J v then None else Some v)"

lemma regions_of_extras:
  assumes "js_is_object J (extras_of s)"
  shows "event_region J s = listed (extras_of s)" "external_status J s w = slot (extras_of s) w"
  using assms by (cases "st_extras s"; simp add: extras_of_def event_region_def external_status_def listed_def slot_def)+

lemma extras_of_update [simp]: "extras_of (s\<lparr>st_extras := Some x\<rparr>) = x"
  by (simp add: extras_of_def)

lemma listed_set: "js_is_object J x \<Longrightarrow>
  listed (js_set J k v x) = (if k = events_key then (if js_is_array J v then (case js_get_array J v of Inl _ \<Rightarrow> [] | Inr es \<Rightarrow> es) else [])
    else listed x)"
  by (simp add: listed_def find_set)

lemma slot_set: "js_is_object J x \<Longrightarrow> k \<noteq> external_status_key \<Longrightarrow> slot (js_set J k v x) w = slot x w"
  by (simp add: slot_def find_set)

text \<open>A published event goes to the end of the region and nothing else changes.\<close>

lemma publish_Inr:
  assumes "publish_hook_event J s e = Inr s'"
  shows "js_is_object J (extras_of s)"
    and "s' = s\<lparr>st_extras := Some (js_set J events_key (js_array J (listed (extras_of s) @ [event_to_json J e])) (extras_of s))\<rparr>"
proof -
  note eqn = assms [unfolded publish_hook_event_def Let_def extras_of_def [symmetric]]
  from eqn show obj: "js_is_object J (extras_of s)" by (auto split: if_splits)
  show "s' = s\<lparr>st_extras := Some (js_set J events_key (js_array J (listed (extras_of s) @ [event_to_json J e])) (extras_of s))\<rparr>"
  proof (cases "js_find J (extras_of s) events_key")
    case None
    with eqn obj show ?thesis by (auto simp: region_of_def null_kind listed_def split: if_splits)
  next
    case (Some r)
    show ?thesis
    proof (cases "js_is_null J r")
      case True
      with eqn obj Some show ?thesis
        by (auto simp: region_of_def listed_def null_not_array split: if_splits)
    next
      case False
      with eqn obj Some show ?thesis
        by (auto simp: region_of_def listed_def and_then_eq_Inr split: if_splits)
    qed
  qed
qed

lemma publish_region:
  assumes "publish_hook_event J s e = Inr s'"
  shows "event_region J s' = event_region J s @ [event_to_json J e]"
    and "external_status J s' w = external_status J s w"
    and "s' = s\<lparr>st_extras := st_extras s'\<rparr>"
proof -
  note p = publish_Inr [OF assms]
  have o': "js_is_object J (extras_of s')" unfolding p(2) using p(1) by (simp add: set_object)
  have x': "extras_of s' = js_set J events_key (js_array J (listed (extras_of s) @ [event_to_json J e])) (extras_of s)"
    unfolding p(2) by simp
  show "event_region J s' = event_region J s @ [event_to_json J e]"
    unfolding regions_of_extras [OF p(1)] regions_of_extras [OF o'] x'
    using p(1) by (simp add: listed_set array_kind array_read)
  show "external_status J s' w = external_status J s w"
    unfolding regions_of_extras [OF p(1)] regions_of_extras [OF o'] x'
    using p(1) by (simp add: slot_set keys_differ)
  from p show "s' = s\<lparr>st_extras := st_extras s'\<rparr>" by simp
qed

lemma events_loop_append:
  "events_loop J src es = Inr xs \<Longrightarrow> events_loop J src es' = Inr ys \<Longrightarrow> events_loop J src (es @ es') = Inr (xs @ ys)"
  by (induction es arbitrary: xs) (auto simp: and_then_eq_Inr split: if_splits)

lemma sync_Inr:
  assumes "sync_external_status J s src st = Inr s'"
  shows "js_is_object J (extras_of s)" "js_is_object J st"
    and "\<exists>slots. js_is_object J slots \<and> (\<forall>w. (case js_find J slots w of None \<Rightarrow> None
        | Some v \<Rightarrow> if js_is_null J v \<or> \<not> js_is_object J v then None else Some v) = slot (extras_of s) w) \<and>
      s' = s\<lparr>st_extras := Some (js_set J external_status_key (js_set J src st slots) (extras_of s))\<rparr>"
proof -
  note eqn = assms [unfolded sync_external_status_def Let_def extras_of_def [symmetric]]
  from eqn show obj: "js_is_object J (extras_of s)" and "js_is_object J st" by (auto split: if_splits)
  let ?r = "region_of J (extras_of s) external_status_key"
  let ?slots = "if js_is_null J ?r then js_object J [] else ?r"
  have "slot (extras_of s) w = (case js_find J ?slots w of None \<Rightarrow> None
        | Some v \<Rightarrow> if js_is_null J v \<or> \<not> js_is_object J v then None else Some v)" if "js_is_object J ?slots" for w
    using that object_not_null [of ?r]
    by (cases "js_find J (extras_of s) external_status_key") (auto simp: slot_def region_of_def null_kind split: if_splits)
  moreover from eqn obj have "js_is_object J ?slots"
    "s' = s\<lparr>st_extras := Some (js_set J external_status_key (js_set J src st ?slots) (extras_of s))\<rparr>"
    by (auto split: if_splits)
  ultimately show "\<exists>slots. js_is_object J slots \<and> (\<forall>w. (case js_find J slots w of None \<Rightarrow> None
        | Some v \<Rightarrow> if js_is_null J v \<or> \<not> js_is_object J v then None else Some v) = slot (extras_of s) w) \<and>
      s' = s\<lparr>st_extras := Some (js_set J external_status_key (js_set J src st slots) (extras_of s))\<rparr>"
    by (intro exI [of _ ?slots]) simp
qed

lemma sync_region:
  assumes "sync_external_status J s src st = Inr s'"
  shows "external_status J s' src = Some st" "w \<noteq> src \<Longrightarrow> external_status J s' w = external_status J s w"
    "event_region J s' = event_region J s" "s' = s\<lparr>st_extras := st_extras s'\<rparr>"
proof -
  note p = sync_Inr [OF assms]
  from p(3) obtain slots where slots: "js_is_object J slots"
      "\<forall>w. (case js_find J slots w of None \<Rightarrow> None
        | Some v \<Rightarrow> if js_is_null J v \<or> \<not> js_is_object J v then None else Some v) = slot (extras_of s) w"
      "s' = s\<lparr>st_extras := Some (js_set J external_status_key (js_set J src st slots) (extras_of s))\<rparr>"
    by blast
  have o': "js_is_object J (extras_of s')" unfolding slots(3) using p(1) by (simp add: set_object)
  have new: "slot (extras_of s') w = (if w = src then Some st else slot (extras_of s) w)" for w
    using p(1,2) slots by (simp add: slot_def [of "js_set J _ _ _"] find_set set_object object_not_null)
  from new [of src] show "external_status J s' src = Some st" by (simp add: regions_of_extras [OF o'])
  from new [of w] show "external_status J s' w = external_status J s w" if "w \<noteq> src"
    using that by (simp add: regions_of_extras [OF o'] regions_of_extras [OF p(1)])
  show "event_region J s' = event_region J s"
    unfolding regions_of_extras [OF o'] regions_of_extras [OF p(1)] using slots(3) p(1)
    by (simp add: listed_set keys_differ)
  from slots(3) show "s' = s\<lparr>st_extras := st_extras s'\<rparr>" by simp
qed

end

section \<open>Properties\<close>

text \<open>
  C7. The serialisation round trip the header promises: a whole session (recovery state, prompt
  structure, tools, turns with nested messages, calls and results) decodes from its JSON to the
  identical value, provided no optional JSON member holds null, the prompt was built through its
  public operations and the integers fit their C++ types.
\<close>

theorem state_json_roundtrip:
  assumes "json_laws J" "wf_state J s"
  shows "state_from_json J (state_to_json J s) default_state = Inr s"
  using json_laws.state_written [OF assms] .

definition sample_state :: "json agent_input_state" where
  "sample_state = default_state\<lparr>
     st_loop := Some (default_progress\<lparr>lp_phase := ProjectionPhase, lp_committed_response_sequence := 7\<rparr>),
     st_system_prompt := sample_prompt,
     st_turns := [default_user_step\<lparr>us_user_input := default_message\<lparr>mi_role := ''user'',
        mi_content := [default_content\<lparr>cn_raw := ''hi''\<rparr>]\<rparr>\<rparr>],
     st_extras := Some (JObject [])\<rparr>"

theorem state_json_roundtrip_witness:
  "state_from_json json_values (state_to_json json_values sample_state) default_state = Inr sample_state"
proof (rule state_json_roundtrip)
  show "json_laws json_values" by (rule json_values.json_laws_axioms)
  show "wf_state json_values sample_state"
    using reachable_prompt_wf [OF sample_prompt_reachable]
    by (simp add: sample_state_def default_state_def wf_state_def all_opt_def wf_progress_def default_progress_def
        default_meta_def no_null_def sample_prompt_def PromptTemplate_def wf_user_step_def default_user_step_def
        wf_message_def default_message_def default_content_def size_max_def json_values_def)
qed

text \<open>
  Publishing appends: the new event is the last of the history and the latest for its key,
  with or without its source; earlier events keep their order; no status slot and no other part
  of the session changes.
\<close>

theorem publish_hook_event_appends:
  assumes "json_laws J" "publish_hook_event J s e = Inr s'" "\<not> js_is_null J (he_detail e)"
  shows "latest_hook_event J s' (he_key e) [] = Inr (Some e) \<and>
    latest_hook_event J s' (he_key e) (he_source e) = Inr (Some e) \<and>
    (\<forall>es. hook_events J s [] = Inr es \<longrightarrow> hook_events J s' [] = Inr (es @ [e])) \<and>
    (\<forall>w. external_status J s' w = external_status J s w) \<and>
    s' = s\<lparr>st_extras := st_extras s'\<rparr>"
proof -
  note region = json_laws.publish_region [OF assms(1,2)]
  note written = json_laws.event_written [OF assms(1,3)] json_laws.written_objects(13) [OF assms(1)]
  have "hook_events J s' [] = Inr (es @ [e])" if "hook_events J s [] = Inr es" for es
    using that json_laws.events_loop_append [OF assms(1), of "[]" "event_region J s" es "[event_to_json J e]" "[e]"]
      written region(1) by (simp add: hook_events_def)
  with region written show ?thesis by (simp add: latest_hook_event_def)
qed

definition sample_event :: "json hook_event" where
  "sample_event = \<lparr>he_source = ''p'', he_key = ''k'', he_at = ''t'', he_detail = JObject []\<rparr>"

theorem publish_hook_event_appends_witness:
  "\<exists>s'. publish_hook_event json_values sample_state sample_event = Inr s' \<and>
     latest_hook_event json_values s' ''k'' [] = Inr (Some sample_event)"
proof -
  obtain s' where s': "publish_hook_event json_values sample_state sample_event = Inr s'"
    by (simp add: publish_hook_event_def sample_state_def sample_event_def json_values_def region_of_def Let_def)
  have "\<not> js_is_null json_values (he_detail sample_event)"
    by (simp add: sample_event_def json_values_def)
  from publish_hook_event_appends [OF json_values.json_laws_axioms s' this] s' show ?thesis
    by (auto simp: sample_event_def)
qed

text \<open>
  A status sync writes exactly its own slot: the writer reads back what it stored, every other
  writer's slot and the whole event history are untouched.
\<close>

theorem sync_external_status_isolated:
  assumes "json_laws J" "sync_external_status J s source status = Inr s'"
  shows "external_status J s' source = Some status \<and>
    (\<forall>w. w \<noteq> source \<longrightarrow> external_status J s' w = external_status J s w) \<and>
    event_region J s' = event_region J s \<and> s' = s\<lparr>st_extras := st_extras s'\<rparr>"
  using json_laws.sync_region [OF assms] by blast

theorem sync_external_status_isolated_witness:
  "\<exists>s'. sync_external_status json_values sample_state ''p'' (JObject [(''a'', JNumber 1)]) = Inr s' \<and>
     external_status json_values s' ''p'' = Some (JObject [(''a'', JNumber 1)])"
proof -
  obtain s' where s': "sync_external_status json_values sample_state ''p'' (JObject [(''a'', JNumber 1)]) = Inr s'"
    by (simp add: sync_external_status_def sample_state_def json_values_def region_of_def Let_def)
  from sync_external_status_isolated [OF json_values.json_laws_axioms s'] s' show ?thesis by blast
qed

text \<open>
  Decoding a content part never turns an unlabelled or mislabelled attachment into text: a
  decoded part without a label is text only if its encoding is text, is otherwise an image
  reference, and an unlabelled binary part or an unknown label is refused.
\<close>

theorem content_modality_never_guessed:
  assumes "content_from_json J j c0 = Inr c"
  shows "(js_find J j ''modality'' = None \<longrightarrow>
      (cn_type c = TextContent \<and> cn_modality c = TextModality) \<or> (cn_type c = ExternalRef \<and> cn_modality c = Image)) \<and>
    (\<forall>v. js_find J j ''modality'' = Some v \<longrightarrow> modality_from_json J v = Inr (cn_modality c))"
  using assms
  by (auto simp: content_from_json_def and_then_eq_Inr Let_def split: option.splits if_splits)

theorem content_modality_never_guessed_witness:
  "\<exists>c. content_from_json json_values (JObject [(''type'', JString ''external_ref''), (''raw'', JString ''u'')]) default_content =
     Inr c \<and> cn_type c = ExternalRef \<and> cn_modality c = Image"
proof -
  let ?j = "JObject [(''type'', JString ''external_ref''), (''raw'', JString ''u'')]"
  obtain c where c: "content_from_json json_values ?j default_content = Inr c" "cn_type c = ExternalRef"
    by (simp add: content_from_json_def json_values_def read_field_def read_optional_def enum_from_json_def
        content_type_names_def legacy_provider_file_part_def default_content_def Let_def)
  have "js_find json_values ?j ''modality'' = None" by (simp add: json_values_def)
  with content_modality_never_guessed [OF c(1)] c show ?thesis by auto
qed

text \<open>
  A call label is short and safe as a file name or metrics tag: at most 130 characters, all
  of them letters, digits, underscore or hyphen.
\<close>

theorem mangled_name_safe:
  "length (mangled_name q) \<le> 130 \<and> list_all key_safe (mangled_name q)"
  by (auto simp: mangled_name_def append_field_def list_all_iff key_safe_def)

text \<open>
  The comment on \<^verbatim>\<open>latest_hook_event\<close> says malformed entries are skipped; an entry that is an
  object with a mistyped member is not skipped, decoding it throws.
\<close>

lemma latest_hook_event_mistyped_entry:
  "latest_hook_event json_values
     (default_state\<lparr>st_extras := Some (JObject [(''events'', JArray [event_to_json json_values sample_event,
        JObject [(''source'', JNumber 1)]])])\<rparr>) ''k'' [] = Inl JsonTypeError"
  by (simp add: latest_hook_event_def event_region_def json_values_def events_key_def event_from_json_def
      read_field_def)

text \<open>
  The header promises that decoding reproduces the value; an engaged optional JSON member that
  holds null comes back absent.
\<close>

lemma null_extras_not_reproduced:
  "content_from_json json_values (content_to_json json_values (default_content\<lparr>cn_extras := Some JNull\<rparr>)) default_content =
     Inr default_content"
  by (simp add: content_from_json_def content_to_json_def json_values_def read_field_def read_optional_def
      write_optional_def enum_from_json_def enum_to_json_def content_type_names_def modality_from_json_def
      modality_to_json_def default_content_def Let_def)

end
