(* ===== verification/Loop_State.thy ===== *)
theory Loop_State
  imports Model_IO
begin

text \<open>
  The pure half of \<^verbatim>\<open>loop/src/loop.cpp\<close>: the contracts of \<^verbatim>\<open>loop/include/loop/contracts.hpp\<close>, the
  validation of call lists, histories and state edits, the non-execution results, and the
  generic \<^verbatim>\<open>LLMModel::integrate\<close> of \<^verbatim>\<open>llm/include/llm/models.hpp\<close>.
\<close>

section \<open>Contracts\<close>

datatype run_status = RunCompleted | RunCancelled | RunExchangeLimit | RunFailed | RunAutoCompactRequired

datatype run_failure_stage = OtherStage | ModelRequest

datatype auto_compact_reason = NoCompact | TokenThreshold | ExchangeLimitReached

datatype checkpoint = BeforeTools | ResultsReady | StepFinishedPoint | RunFinishedPoint

record run_result =
  rn_status :: run_status
  rn_completed_exchanges :: nat
  rn_error :: string
  rn_last_exchange_tokens :: "nat option"
  rn_auto_compact_reason :: auto_compact_reason
  rn_failure_stage :: run_failure_stage

definition default_run_result :: run_result where
  "default_run_result =
     \<lparr>rn_status = RunFailed, rn_completed_exchanges = 0, rn_error = [], rn_last_exchange_tokens = None,
      rn_auto_compact_reason = NoCompact, rn_failure_stage = OtherStage\<rparr>"

record run_options =
  op_max_exchanges :: "nat option"
  op_auto_compact_threshold :: nat

text \<open>An exception that reaches the loop: a standard one, or the loop's own \<^verbatim>\<open>RecoveryRequired\<close>.\<close>

datatype loop_exn = Exn exn | RecoveryRequired loop_phase string

text \<open>
  \<^verbatim>\<open>error_text\<close>: the message of a standard exception; the JSON library composes its own texts,
  here only named.
\<close>

fun what :: "exn \<Rightarrow> string" where
  "what (InvalidArgument s) = s"
| "what (OutOfRange s) = s"
| "what (LengthError s) = s"
| "what (LogicError s) = s"
| "what (OverflowError s) = s"
| "what (RuntimeError s) = s"
| "what (SystemError code s) = s"
| "what JsonTypeError = ''json.exception.type_error''"
| "what JsonOutOfRange = ''json.exception.out_of_range''"
| "what (OtherException s) = ''unknown exception''"

fun error_text :: "loop_exn \<Rightarrow> string" where
  "error_text (Exn e) = what e"
| "error_text (RecoveryRequired phase message) = message"

fun progress_status :: "run_status \<Rightarrow> loop_status" where
  "progress_status RunCompleted = LoopCompleted"
| "progress_status RunCancelled = LoopCancelled"
| "progress_status RunExchangeLimit = LoopExchangeLimit"
| "progress_status RunAutoCompactRequired = LoopAutoCompactRequired"
| "progress_status RunFailed = LoopFailed"

section \<open>Integration\<close>

text \<open>\<^verbatim>\<open>xs.back() = f(xs.back())\<close> on a nonempty vector.\<close>

definition update_back :: "('a \<Rightarrow> 'a) \<Rightarrow> 'a list \<Rightarrow> 'a list" where
  "update_back f xs = (if xs = [] then [] else butlast xs @ [f (last xs)])"

definition llm_integrate :: "'j agent_input_state \<Rightarrow> 'j message_item \<Rightarrow> 'j agent_input_state" where
  "llm_integrate state item =
     (case mi_type item of
        UserInput \<Rightarrow>
          state\<lparr>st_turns := st_turns state @ [default_user_step\<lparr>us_user_input := item\<rparr>]\<rparr>
      | ModelResponse \<Rightarrow>
          let turns = (if st_turns state = [] then [default_user_step] else st_turns state)
          in state\<lparr>st_turns := update_back (\<lambda>turn. turn\<lparr>us_agent_loop_step :=
               us_agent_loop_step turn @ [default_agent_step\<lparr>as_model_response := item\<rparr>]\<rparr>) turns\<rparr>
      | InvokeReturnItem \<Rightarrow>
          let turns = (if st_turns state = [] then [default_user_step] else st_turns state)
          in state\<lparr>st_turns := update_back (\<lambda>turn.
               let steps = (if us_agent_loop_step turn = [] then [default_agent_step] else us_agent_loop_step turn)
               in turn\<lparr>us_agent_loop_step := update_back (\<lambda>step. step\<lparr>as_invoke_returns :=
                    Some ((case as_invoke_returns step of None \<Rightarrow> [] | Some rs \<Rightarrow> rs) @ [item])\<rparr>) steps\<rparr>) turns\<rparr>)"

section \<open>Validation\<close>

fun validate_calls_loop :: "string set \<Rightarrow> 'j invoke_query list \<Rightarrow> unit result" where
  "validate_calls_loop ids [] = Inr ()"
| "validate_calls_loop ids (call # calls) =
     (if iq_id call = [] \<or> iq_name call = [] \<or> iq_id call \<in> ids then
        Inl (InvalidArgument ''empty tool identity or duplicate tool id'')
      else validate_calls_loop (insert (iq_id call) ids) calls)"

definition validate_calls :: "'j message_item \<Rightarrow> unit result" where
  "validate_calls item =
     (case mi_invokes item of None \<Rightarrow> Inr () | Some calls \<Rightarrow> validate_calls_loop {} calls)"

text \<open>The pairwise identity checks; both lists have the same length where they are called.\<close>

fun check_pending :: "'j invoke_return list \<Rightarrow> 'j invoke_query list \<Rightarrow> unit result" where
  "check_pending (p # pending) (c # calls) =
     (if iq_id (ir_query p) \<noteq> iq_id c \<or> iq_name (ir_query p) \<noteq> iq_name c then
        Inl (LogicError ''projection result identity mismatch'')
      else check_pending pending calls)"
| "check_pending pending calls = Inr ()"

fun check_returns :: "'j message_item list \<Rightarrow> 'j invoke_query list \<Rightarrow> unit result" where
  "check_returns (item # items) (c # calls) =
     (if mi_type item \<noteq> InvokeReturnItem \<or> mi_invokes item \<noteq> None then
        Inl (LogicError ''invalid tool result in loop history'')
      else case mi_invoke_return item of
             None \<Rightarrow> Inl (LogicError ''tool history identity mismatch'')
           | Some r \<Rightarrow>
               if iq_id (ir_query r) \<noteq> iq_id c \<or> iq_name (ir_query r) \<noteq> iq_name c then
                 Inl (LogicError ''tool history identity mismatch'')
               else check_returns items calls)"
| "check_returns items calls = Inr ()"

definition state_phase :: "'j agent_input_state \<Rightarrow> loop_phase" where
  "state_phase state = (case st_loop state of None \<Rightarrow> ReadyPhase | Some p \<Rightarrow> lp_phase p)"

definition check_step :: "'j agent_input_state \<Rightarrow> bool \<Rightarrow> 'j agent_loop_step \<Rightarrow> unit result" where
  "check_step state last_step step =
     (if mi_type (as_model_response step) \<noteq> ModelResponse \<or> mi_invoke_return (as_model_response step) \<noteq> None then
        Inl (LogicError ''invalid model response in loop history'')
      else and_then (validate_calls (as_model_response step)) (\<lambda>_.
        let calls = (case mi_invokes (as_model_response step) of None \<Rightarrow> [] | Some cs \<Rightarrow> cs);
            returns = (case as_invoke_returns step of None \<Rightarrow> [] | Some rs \<Rightarrow> rs) in
        if length returns \<noteq> length calls then
          let phase = state_phase state;
              recovering = (phase = ToolsPhase \<or> phase = BlockedPhase \<or> phase = ProjectionPhase) in
          if \<not> last_step \<or> \<not> recovering \<or> length returns \<noteq> 0 \<or> length calls = 0 then
            Inl (LogicError ''unresolved tool history requires inspection'')
          else if phase = ProjectionPhase then
            let pending = lp_pending_results (the (st_loop state)) in
            if length pending \<noteq> length calls then Inl (LogicError ''projection results do not match calls'')
            else check_pending pending calls
          else Inr ()
        else check_returns returns calls))"

fun check_steps :: "'j agent_input_state \<Rightarrow> bool \<Rightarrow> 'j agent_loop_step list \<Rightarrow> unit result" where
  "check_steps state last_turn [] = Inr ()"
| "check_steps state last_turn (step # steps) =
     and_then (check_step state (last_turn \<and> steps = []) step) (\<lambda>_. check_steps state last_turn steps)"

fun check_turns :: "'j agent_input_state \<Rightarrow> 'j user_loop_step list \<Rightarrow> unit result" where
  "check_turns state [] = Inr ()"
| "check_turns state (turn # turns) =
     (if mi_type (us_user_input turn) \<noteq> UserInput \<or> mi_invokes (us_user_input turn) \<noteq> None \<or>
         mi_invoke_return (us_user_input turn) \<noteq> None then
        Inl (LogicError ''invalid user message in loop history'')
      else and_then (check_steps state (turns = []) (us_agent_loop_step turn)) (\<lambda>_. check_turns state turns))"

definition validate_state_structure :: "'j agent_input_state \<Rightarrow> unit result" where
  "validate_state_structure state =
     and_then (render (st_system_prompt state)) (\<lambda>_. check_turns state (st_turns state))"

definition validate_state_edit ::
  "'j json_lib \<Rightarrow> 'j agent_input_state \<Rightarrow> 'j agent_input_state \<Rightarrow> unit result" where
  "validate_state_edit J state before =
     (case (st_loop state, st_loop before) of
        (Some current, Some previous) \<Rightarrow>
          if lp_status current \<noteq> lp_status previous \<or> lp_phase current \<noteq> lp_phase previous \<or>
             lp_completed_exchanges current \<noteq> lp_completed_exchanges previous \<or>
             lp_committed_response_sequence current \<noteq> lp_committed_response_sequence previous \<or>
             lp_error current \<noteq> lp_error previous \<or>
             length (lp_pending_results current) \<noteq> length (lp_pending_results previous) then
            Inl (LogicError ''state hook changed loop progress'')
          else if lp_pending_results previous \<noteq> [] \<and>
                  \<not> js_equal J (write_vector J (return_to_json J) (lp_pending_results current))
                       (write_vector J (return_to_json J) (lp_pending_results previous)) then
            Inl (LogicError ''state hook changed pending tool results'')
          else and_then (validate_state_structure state) (\<lambda>_.
            if lp_phase previous \<noteq> ReadyPhase then
              (if \<not> js_equal J (write_vector J (user_step_to_json J) (st_turns state))
                     (write_vector J (user_step_to_json J) (st_turns before)) then
                 Inl (LogicError ''state hook changed history requiring recovery'')
               else Inr ())
            else if st_turns before \<noteq> [] \<and> st_turns state = [] then
              Inl (LogicError ''state hook removed every conversation turn'')
            else Inr ())
      | _ \<Rightarrow> Inl (LogicError ''state hook removed loop progress''))"

section \<open>Results without execution\<close>

definition skipped_result :: "'j json_lib \<Rightarrow> 'j invoke_query \<Rightarrow> 'j invoke_return" where
  "skipped_result J call =
     (default_return J)\<lparr>ir_query := call,
       ir_output := default_content\<lparr>cn_raw := ''Not executed: loop stopped before tool dispatch.''\<rparr>,
       ir_extras := Some (js_object J [(''loop_skipped'', js_bool J True)])\<rparr>"

definition skipped :: "'j json_lib \<Rightarrow> 'j invoke_query list \<Rightarrow> 'j invoke_return list" where
  "skipped J calls = map (skipped_result J) calls"

text \<open>The tool message that carries one record into the conversation.\<close>

definition result_item :: "'j invoke_return \<Rightarrow> 'j message_item" where
  "result_item r =
     default_message\<lparr>mi_type := InvokeReturnItem, mi_role := ''tool'', mi_content := [ir_output r],
       mi_invoke_return := Some r\<rparr>"

end
