(* ===== verification/Loop_Run.thy ===== *)
theory Loop_Run
  imports Loop_State
begin

text \<open>
  \<^verbatim>\<open>loop::run\<close> of \<^verbatim>\<open>loop/src/loop.cpp\<close>, whole: recovery, admission, exchanges, tool batches,
  settlement and terminal notification. What the loop calls (the model, the tool registry, the
  event bus of \<^verbatim>\<open>loop/include/loop/events.hpp\<close>, the checkpoint callback, the stop token) is a
  record of operations over a world state that each may change, so a stop request may arrive at
  any observation point and a callback may throw anything.

  A step of the coroutine is a function on a configuration that returns or throws; exceptions
  keep the configuration, as C++ exceptions keep the objects the frame had already changed.
\<close>

section \<open>Environment\<close>

datatype 'j notice =
    RunStarted "'j agent_input_state"
  | InputCommitted "'j agent_input_state"
  | ModelCommitted "'j agent_input_state"
  | BeforeToolBatch "'j invoke_query list"
  | ToolDispatchCheckpoint "'j agent_input_state"
  | ToolResultsCheckpoint "'j agent_input_state"
  | ToolResultsCommitted "'j agent_input_state"
  | StepFinished "'j agent_input_state"
  | RunFinished "'j agent_input_state" run_result

datatype edit_point = EditOnStepFinished | EditOnRunFinished run_result

record 'j model_context =
  mc_system_prompt :: prompt_template
  mc_tools :: "'j invocable list"
  mc_extras :: "'j option"

record ('w, 'j) loop_env =
  le_integrate :: "'j agent_input_state \<Rightarrow> 'j message_item \<Rightarrow> 'w \<Rightarrow> (loop_exn + 'j agent_input_state) \<times> 'w"
  le_converse :: "'j agent_input_state \<Rightarrow> 'w \<Rightarrow> (loop_exn + 'j message_item) \<times> 'w"
  le_execute :: "'j invoke_query list \<Rightarrow> 'w \<Rightarrow> (loop_exn + 'j invoke_return list) \<times> 'w"
  le_publish :: "'j notice \<Rightarrow> 'w \<Rightarrow> (loop_exn + unit) \<times> 'w"
  le_before_input :: "'j message_item \<Rightarrow> 'w \<Rightarrow> (loop_exn + 'j message_item) \<times> 'w"
  le_before_model :: "'j agent_input_state \<Rightarrow> 'j model_context \<Rightarrow> 'w \<Rightarrow> (loop_exn + 'j model_context) \<times> 'w"
  le_subscribers :: "edit_point \<Rightarrow> 'w \<Rightarrow> nat"
  le_edit :: "edit_point \<Rightarrow> 'j agent_input_state \<Rightarrow> 'w \<Rightarrow> (loop_exn + unit) \<times> 'j agent_input_state \<times> 'w"
  le_checkpoint :: "(checkpoint \<Rightarrow> 'w \<Rightarrow> (loop_exn + unit) \<times> 'w) option"
  le_stop :: "'w \<Rightarrow> bool \<times> 'w"

record ('w, 'j) run_cfg =
  cf_world :: 'w
  cf_state :: "'j agent_input_state"
  cf_result :: run_result
  cf_admitted :: bool

section \<open>Coroutine steps\<close>

type_synonym ('w, 'j, 'a) step = "('w, 'j) run_cfg \<Rightarrow> (loop_exn + 'a) \<times> ('w, 'j) run_cfg"

definition ret :: "'a \<Rightarrow> ('w, 'j, 'a) step" where
  "ret x c = (Inr x, c)"

definition throw :: "loop_exn \<Rightarrow> ('w, 'j, 'a) step" where
  "throw e c = (Inl e, c)"

definition bind_step :: "('w, 'j, 'a) step \<Rightarrow> ('a \<Rightarrow> ('w, 'j, 'b) step) \<Rightarrow> ('w, 'j, 'b) step" where
  "bind_step m f c = (case m c of (Inl e, c') \<Rightarrow> (Inl e, c') | (Inr x, c') \<Rightarrow> f x c')"

definition then_step :: "('w, 'j, 'a) step \<Rightarrow> ('w, 'j, 'b) step \<Rightarrow> ('w, 'j, 'b) step" where
  "then_step m k = bind_step m (\<lambda>_. k)"

text \<open>\<^verbatim>\<open>try { m } catch (...) { h }\<close>\<close>

definition catch_step :: "('w, 'j, 'a) step \<Rightarrow> (loop_exn \<Rightarrow> ('w, 'j, 'a) step) \<Rightarrow> ('w, 'j, 'a) step" where
  "catch_step m h c = (case m c of (Inl e, c') \<Rightarrow> h e c' | (Inr x, c') \<Rightarrow> (Inr x, c'))"

definition require :: "unit result \<Rightarrow> ('w, 'j, unit) step" where
  "require r = (case r of Inl e \<Rightarrow> throw (Exn e) | Inr _ \<Rightarrow> ret ())"

definition get_state :: "('w, 'j, 'j agent_input_state) step" where
  "get_state c = (Inr (cf_state c), c)"

definition put_state :: "'j agent_input_state \<Rightarrow> ('w, 'j, unit) step" where
  "put_state s c = (Inr (), c\<lparr>cf_state := s\<rparr>)"

definition get_result :: "('w, 'j, run_result) step" where
  "get_result c = (Inr (cf_result c), c)"

definition modify_result :: "(run_result \<Rightarrow> run_result) \<Rightarrow> ('w, 'j, unit) step" where
  "modify_result f c = (Inr (), c\<lparr>cf_result := f (cf_result c)\<rparr>)"

definition update_loop :: "('j loop_progress \<Rightarrow> 'j loop_progress) \<Rightarrow> 'j agent_input_state \<Rightarrow> 'j agent_input_state" where
  "update_loop f s = s\<lparr>st_loop := map_option f (st_loop s)\<rparr>"

definition modify_loop :: "('j loop_progress \<Rightarrow> 'j loop_progress) \<Rightarrow> ('w, 'j, unit) step" where
  "modify_loop f c = (Inr (), c\<lparr>cf_state := update_loop f (cf_state c)\<rparr>)"

definition set_phase :: "loop_phase \<Rightarrow> ('w, 'j, unit) step" where
  "set_phase ph = modify_loop (\<lambda>p. p\<lparr>lp_phase := ph\<rparr>)"

definition set_status :: "run_status \<Rightarrow> ('w, 'j, unit) step" where
  "set_status st = modify_result (\<lambda>r. r\<lparr>rn_status := st\<rparr>)"

text \<open>A call that may change the world and return or throw.\<close>

definition call :: "('w \<Rightarrow> (loop_exn + 'a) \<times> 'w) \<Rightarrow> ('w, 'j, 'a) step" where
  "call f c = (let (r, w) = f (cf_world c) in (r, c\<lparr>cf_world := w\<rparr>))"

definition stop_requested :: "('w, 'j) loop_env \<Rightarrow> ('w, 'j, bool) step" where
  "stop_requested env c = (let (b, w) = le_stop env (cf_world c) in (Inr b, c\<lparr>cf_world := w\<rparr>))"

definition publish :: "('w, 'j) loop_env \<Rightarrow> ('j agent_input_state \<Rightarrow> 'j notice) \<Rightarrow> ('w, 'j, unit) step" where
  "publish env ev = bind_step get_state (\<lambda>s. call (le_publish env (ev s)))"

definition await_checkpoint :: "('w, 'j) loop_env \<Rightarrow> checkpoint \<Rightarrow> ('w, 'j, unit) step" where
  "await_checkpoint env point =
     (case le_checkpoint env of None \<Rightarrow> ret () | Some f \<Rightarrow> call (f point))"

section \<open>Commits\<close>

definition integrate :: "('w, 'j) loop_env \<Rightarrow> 'j message_item \<Rightarrow> ('w, 'j, unit) step" where
  "integrate env item =
     bind_step get_state (\<lambda>s. bind_step (call (le_integrate env s item)) put_state)"

definition integrate_response :: "('w, 'j) loop_env \<Rightarrow> 'j message_item \<Rightarrow> ('w, 'j, unit) step" where
  "integrate_response env item =
     bind_step get_state (\<lambda>s.
       if lp_committed_response_sequence (the (st_loop s)) = size_max then
         throw (Exn (OverflowError ''model response commit sequence overflow''))
       else bind_step (call (le_integrate env s item)) (\<lambda>draft.
         if st_turns draft = [] \<or> us_agent_loop_step (last (st_turns draft)) = [] then
           throw (Exn (LogicError ''model did not append a response step''))
         else
           let sequence = lp_committed_response_sequence (the (st_loop draft)) + 1 in
           put_state ((update_loop (\<lambda>p. p\<lparr>lp_committed_response_sequence := sequence\<rparr>) draft)\<lparr>st_turns :=
             update_back (\<lambda>turn. turn\<lparr>us_agent_loop_step :=
               update_back (\<lambda>step. step\<lparr>as_commit_sequence := sequence\<rparr>) (us_agent_loop_step turn)\<rparr>)
             (st_turns draft)\<rparr>)))"

fun integrate_all ::
  "('w, 'j) loop_env \<Rightarrow> 'j invoke_return list \<Rightarrow> 'j agent_input_state \<Rightarrow> ('w, 'j, 'j agent_input_state) step" where
  "integrate_all env [] draft = ret draft"
| "integrate_all env (r # records) draft =
     bind_step (call (le_integrate env draft (result_item r))) (integrate_all env records)"

definition project :: "('w, 'j) loop_env \<Rightarrow> ('w, 'j, unit) step" where
  "project env =
     bind_step get_state (\<lambda>s.
     bind_step (integrate_all env (lp_pending_results (the (st_loop s))) s) (\<lambda>draft.
     then_step (require (validate_state_structure draft))
       (put_state (update_loop (\<lambda>p. p\<lparr>lp_pending_results := [], lp_phase := ReadyPhase\<rparr>) draft))))"

definition edit_state :: "'j json_lib \<Rightarrow> ('w, 'j) loop_env \<Rightarrow> edit_point \<Rightarrow> ('w, 'j, unit) step" where
  "edit_state J env point c =
     (if le_subscribers env point (cf_world c) = 0 then (Inr (), c)
      else
        let before = cf_state c;
            (r, s, w) = le_edit env point before (cf_world c);
            c' = c\<lparr>cf_world := w\<rparr> in
        case r of
          Inl e \<Rightarrow> (Inl e, c'\<lparr>cf_state := before\<rparr>)
        | Inr _ \<Rightarrow>
            (case validate_state_edit J s before of
               Inl e \<Rightarrow> (Inl (Exn e), c'\<lparr>cf_state := before\<rparr>)
             | Inr _ \<Rightarrow> (Inr (), c'\<lparr>cf_state := s\<rparr>)))"

section \<open>Model exchange\<close>

text \<open>\<^verbatim>\<open>boost::asio::error::operation_aborted\<close> is \<^verbatim>\<open>ECANCELED\<close>.\<close>

definition operation_aborted :: nat where
  "operation_aborted = 125"

definition converse_interruptibly :: "('w, 'j) loop_env \<Rightarrow> ('w, 'j, 'j message_item) step" where
  "converse_interruptibly env =
     bind_step get_state (\<lambda>snapshot.
     bind_step (stop_requested env) (\<lambda>stop.
       if stop then throw (Exn (SystemError operation_aborted ''Operation canceled''))
       else call (le_converse env snapshot)))"

datatype control = Continue | Break

text \<open>The request and its error classification: a response, or the end of the loop.\<close>

definition request :: "('w, 'j) loop_env \<Rightarrow> ('w, 'j, 'j message_item option) step" where
  "request env =
     catch_step (bind_step (converse_interruptibly env) (\<lambda>m. ret (Some m))) (\<lambda>e.
       let fail = then_step (modify_result (\<lambda>r. r\<lparr>rn_failure_stage := ModelRequest\<rparr>)) (throw e) in
       case e of
         Exn (SystemError code message) \<Rightarrow>
           bind_step (stop_requested env) (\<lambda>stop.
             if stop \<and> code = operation_aborted then
               then_step (set_phase ReadyPhase) (then_step (set_status RunCancelled) (ret None))
             else fail)
       | _ \<Rightarrow> fail)"

definition exchange_tokens :: "'j message_item \<Rightarrow> nat option" where
  "exchange_tokens response =
     (case mi_cost response of
        None \<Rightarrow> None
      | Some cost \<Rightarrow>
          if tc_generated cost \<le> size_max - tc_prompt cost
          then Some (tc_prompt cost + tc_generated cost) else None)"

definition calls_of :: "'j message_item \<Rightarrow> 'j invoke_query list" where
  "calls_of response = (case mi_invokes response of None \<Rightarrow> [] | Some cs \<Rightarrow> cs)"

definition commit_response :: "('w, 'j) loop_env \<Rightarrow> 'j message_item \<Rightarrow> ('w, 'j, unit) step" where
  "commit_response env response =
     (if mi_type response \<noteq> ModelResponse \<or> mi_invoke_return response \<noteq> None then
        throw (Exn (LogicError ''model returned an invalid response type''))
      else
        then_step (require (validate_calls response))
        (then_step (integrate_response env response)
        (then_step (set_phase ReadyPhase)
        (then_step (modify_result (\<lambda>r. r\<lparr>rn_completed_exchanges := rn_completed_exchanges r + 1\<rparr>))
        (then_step (bind_step get_result (\<lambda>r. modify_loop (\<lambda>p. p\<lparr>lp_completed_exchanges := rn_completed_exchanges r\<rparr>)))
                   (modify_result (\<lambda>r. r\<lparr>rn_last_exchange_tokens := exchange_tokens response\<rparr>)))))))"

text \<open>The observers of a committed response; the value is the caught diagnostic, empty if none.\<close>

definition notify_response :: "('w, 'j) loop_env \<Rightarrow> 'j message_item \<Rightarrow> ('w, 'j, string) step" where
  "notify_response env response =
     catch_step
       (then_step (publish env ModelCommitted)
       (then_step (if calls_of response \<noteq> [] then publish env (\<lambda>_. BeforeToolBatch (calls_of response)) else ret ())
                  (ret [])))
       (\<lambda>e. ret (error_text e))"

definition tool_batch ::
  "'j json_lib \<Rightarrow> ('w, 'j) loop_env \<Rightarrow> 'j invoke_query list \<Rightarrow> string \<Rightarrow> ('w, 'j, unit) step" where
  "tool_batch J env calls hook_error =
     then_step (set_phase ToolsPhase)
     (then_step (publish env ToolDispatchCheckpoint)
     (then_step (await_checkpoint env BeforeTools)
     (bind_step
       (bind_step (stop_requested env) (\<lambda>stop.
          if stop \<or> hook_error \<noteq> [] then ret (skipped J calls) else call (le_execute env calls)))
       (\<lambda>records.
     then_step (modify_loop (\<lambda>p. p\<lparr>lp_pending_results := records\<rparr>))
     (then_step (set_phase ProjectionPhase)
     (then_step (publish env ToolResultsCheckpoint)
     (then_step (await_checkpoint env ResultsReady)
     (then_step (project env)
     (then_step (if hook_error \<noteq> [] then throw (Exn (RuntimeError hook_error)) else ret ())
     (then_step (publish env ToolResultsCommitted)
     (then_step (edit_state J env EditOnStepFinished)
     (then_step (publish env StepFinished)
                (await_checkpoint env StepFinishedPoint)))))))))))))"

definition compaction :: "run_options \<Rightarrow> run_result \<Rightarrow> auto_compact_reason option" where
  "compaction options result =
     (if op_auto_compact_threshold options = 0 then None
      else
        let tokens = (case rn_last_exchange_tokens result of
                        None \<Rightarrow> False | Some t \<Rightarrow> t > op_auto_compact_threshold options);
            exchanges = (case op_max_exchanges options of
                           None \<Rightarrow> False | Some m \<Rightarrow> rn_completed_exchanges result \<ge> m) in
        if tokens \<or> exchanges then Some (if tokens then TokenThreshold else ExchangeLimitReached) else None)"

definition commit_context :: "'j model_context \<Rightarrow> 'j agent_input_state \<Rightarrow> 'j agent_input_state" where
  "commit_context context s =
     s\<lparr>st_system_prompt := mc_system_prompt context, st_tools := mc_tools context, st_extras := mc_extras context\<rparr>"

definition after_response ::
  "'j json_lib \<Rightarrow> ('w, 'j) loop_env \<Rightarrow> run_options \<Rightarrow> 'j message_item \<Rightarrow> ('w, 'j, control) step" where
  "after_response J env options response =
     then_step (commit_response env response)
     (bind_step (notify_response env response) (\<lambda>hook_error.
     then_step
       (if calls_of response \<noteq> [] then tool_batch J env (calls_of response) hook_error
        else if hook_error \<noteq> [] then throw (Exn (RuntimeError hook_error)) else ret ())
       (if calls_of response = [] then then_step (set_status RunCompleted) (ret Break)
        else bind_step (stop_requested env) (\<lambda>stop.
          if stop then then_step (set_status RunCancelled) (ret Break)
          else bind_step get_result (\<lambda>result.
            case compaction options result of
              None \<Rightarrow> ret Continue
            | Some reason \<Rightarrow>
                then_step (set_status RunAutoCompactRequired)
                (then_step (modify_result (\<lambda>r. r\<lparr>rn_auto_compact_reason := reason\<rparr>)) (ret Break)))))))"

definition exchange :: "'j json_lib \<Rightarrow> ('w, 'j) loop_env \<Rightarrow> run_options \<Rightarrow> ('w, 'j, control) step" where
  "exchange J env options =
     bind_step (stop_requested env) (\<lambda>stop.
     if stop then then_step (set_status RunCancelled) (ret Break)
     else bind_step get_state (\<lambda>s.
       bind_step (call (le_before_model env s
          \<lparr>mc_system_prompt = st_system_prompt s, mc_tools = st_tools s, mc_extras = st_extras s\<rparr>)) (\<lambda>context.
       then_step (require (and_then (render (mc_system_prompt context)) (\<lambda>_. Inr ())))
       (bind_step (stop_requested env) (\<lambda>stop.
       if stop then then_step (set_status RunCancelled) (ret Break)
       else
         then_step (put_state (commit_context context s))
         (then_step (set_phase ModelPhase)
         (bind_step (request env) (\<lambda>response.
           case response of None \<Rightarrow> ret Break | Some m \<Rightarrow> after_response J env options m))))))))"

section \<open>The run\<close>

definition check_request ::
  "bool \<Rightarrow> 'j message_item \<Rightarrow> run_options \<Rightarrow> 'j agent_input_state \<Rightarrow> loop_exn option" where
  "check_request has_message message options s =
     (if op_max_exchanges options = Some 0 then Some (Exn (InvalidArgument ''max_exchanges must be positive''))
      else if has_message \<and> (mi_type message \<noteq> UserInput \<or> mi_invokes message \<noteq> None \<or> mi_invoke_return message \<noteq> None) then
        Some (Exn (InvalidArgument ''new message requires a user message without tool calls''))
      else if \<not> has_message \<and> st_turns s = [] then Some (Exn (InvalidArgument ''no turn to continue''))
      else case st_loop s of
             Some p \<Rightarrow>
               if lp_phase p = ToolsPhase \<or> lp_phase p = BlockedPhase then
                 Some (RecoveryRequired (lp_phase p) ''previous tool execution requires host inspection'')
               else None
           | None \<Rightarrow> None)"

definition recover :: "('w, 'j) loop_env \<Rightarrow> ('w, 'j, unit) step" where
  "recover env =
     bind_step get_state (\<lambda>s.
     case st_loop s of
       None \<Rightarrow> ret ()
     | Some p \<Rightarrow>
         if lp_phase p \<noteq> ReadyPhase \<and> lp_phase p \<noteq> ModelPhase \<and> lp_phase p \<noteq> ProjectionPhase then
           throw (Exn (LogicError ''unknown loop recovery phase''))
         else if lp_phase p \<noteq> ProjectionPhase \<and> lp_pending_results p \<noteq> [] then
           throw (Exn (LogicError ''pending results outside projection phase''))
         else if lp_phase p = ProjectionPhase then
           (if lp_pending_results p = [] then throw (Exn (LogicError ''projection phase has no results''))
            else then_step (require (validate_state_structure s)) (project env))
         else ret ())"

text \<open>Up to admission; the value says whether the run goes on (a stop request ends it).\<close>

definition admission ::
  "('w, 'j) loop_env \<Rightarrow> bool \<Rightarrow> 'j message_item \<Rightarrow> run_options \<Rightarrow> ('w, 'j, bool) step" where
  "admission env has_message message options =
     bind_step get_state (\<lambda>s.
     case check_request has_message message options s of
       Some e \<Rightarrow> throw e
     | None \<Rightarrow>
         bind_step (stop_requested env) (\<lambda>stop.
         if stop then then_step (set_status RunCancelled) (ret False)
         else then_step (recover env)
           (then_step (bind_step get_state (\<lambda>s. require (validate_state_structure s)))
           (bind_step (stop_requested env) (\<lambda>stop.
              if stop then then_step (set_status RunCancelled) (ret False) else ret True)))))"

definition fresh_progress :: "'j agent_input_state \<Rightarrow> 'j loop_progress" where
  "fresh_progress s =
     default_progress\<lparr>lp_committed_response_sequence :=
       (case st_loop s of None \<Rightarrow> 0 | Some p \<Rightarrow> lp_committed_response_sequence p),
       lp_status := LoopRunning\<rparr>"

definition admit :: "('w, 'j, unit) step" where
  "admit c = (Inr (), c\<lparr>cf_state := (cf_state c)\<lparr>st_loop := Some (fresh_progress (cf_state c))\<rparr>, cf_admitted := True\<rparr>)"

definition accept_input :: "('w, 'j) loop_env \<Rightarrow> bool \<Rightarrow> 'j message_item \<Rightarrow> ('w, 'j, unit) step" where
  "accept_input env has_message message =
     then_step (publish env RunStarted)
     (if \<not> has_message then ret ()
      else bind_step (call (le_before_input env message)) (\<lambda>m.
        if mi_type m \<noteq> UserInput \<or> mi_invokes m \<noteq> None \<or> mi_invoke_return m \<noteq> None then
          throw (Exn (InvalidArgument ''input hook produced an invalid user message''))
        else bind_step (stop_requested env) (\<lambda>stop.
          if stop then ret () else then_step (integrate env m) (publish env InputCommitted))))"

text \<open>
  The exchange loop. Without a cap it need not end, so it takes fuel: \<^const>\<open>None\<close> is "not finished
  within \<open>fuel\<close> iterations".
\<close>

fun exchange_loop ::
  "'j json_lib \<Rightarrow> ('w, 'j) loop_env \<Rightarrow> run_options \<Rightarrow> nat \<Rightarrow> nat \<Rightarrow> ('w, 'j) run_cfg
     \<Rightarrow> ((loop_exn + unit) \<times> ('w, 'j) run_cfg) option" where
  "exchange_loop J env options step 0 c = None"
| "exchange_loop J env options step (Suc fuel) c =
     (if (case op_max_exchanges options of None \<Rightarrow> True | Some m \<Rightarrow> step < m) then
        (case exchange J env options c of
           (Inl e, c') \<Rightarrow> Some (Inl e, c')
         | (Inr Break, c') \<Rightarrow> Some (Inr (), c')
         | (Inr Continue, c') \<Rightarrow> exchange_loop J env options (Suc step) fuel c')
      else Some (Inr (), c))"

text \<open>The admitted part of the try block.\<close>

definition run_body ::
  "'j json_lib \<Rightarrow> ('w, 'j) loop_env \<Rightarrow> bool \<Rightarrow> 'j message_item \<Rightarrow> run_options \<Rightarrow> nat \<Rightarrow> ('w, 'j) run_cfg
     \<Rightarrow> ((loop_exn + unit) \<times> ('w, 'j) run_cfg) option" where
  "run_body J env has_message message options fuel c =
     (case then_step admit (then_step (accept_input env has_message message) (set_status RunExchangeLimit)) c of
        (Inl e, c') \<Rightarrow> Some (Inl e, c')
      | (Inr _, c') \<Rightarrow> exchange_loop J env options 0 fuel c')"

definition record_failure :: "loop_exn \<Rightarrow> ('w, 'j) run_cfg \<Rightarrow> ('w, 'j) run_cfg" where
  "record_failure e c = c\<lparr>cf_result := (cf_result c)\<lparr>rn_status := RunFailed, rn_error := error_text e\<rparr>\<rparr>"

definition settle :: "('w, 'j, unit) step" where
  "settle =
     then_step (modify_loop (\<lambda>p. if lp_phase p = ToolsPhase then p\<lparr>lp_phase := BlockedPhase\<rparr> else p))
     (then_step (modify_loop (\<lambda>p. if lp_phase p = ModelPhase then p\<lparr>lp_phase := ReadyPhase\<rparr> else p))
     (bind_step get_result (\<lambda>r.
        modify_loop (\<lambda>p. p\<lparr>lp_status := progress_status (rn_status r), lp_error := rn_error r\<rparr>))))"

definition finish_edits :: "'j json_lib \<Rightarrow> ('w, 'j) loop_env \<Rightarrow> ('w, 'j, unit) step" where
  "finish_edits J env =
     bind_step get_result (\<lambda>r.
     catch_step (edit_state J env (EditOnRunFinished r)) (\<lambda>e.
       then_step (modify_result (\<lambda>r. r\<lparr>rn_status := RunFailed,
          rn_error := rn_error r @ (if rn_error r = [] then [] else ''; '') @ ''EditOnRunFinished: '' @ error_text e\<rparr>))
       (bind_step get_result (\<lambda>r. modify_loop (\<lambda>p. p\<lparr>lp_status := LoopFailed, lp_error := rn_error r\<rparr>)))))"

definition notify_finished :: "('w, 'j) loop_env \<Rightarrow> ('w, 'j, unit) step" where
  "notify_finished env =
     bind_step get_result (\<lambda>r. catch_step (publish env (\<lambda>s. RunFinished s r)) (\<lambda>_. ret ()))"

definition finalize :: "'j json_lib \<Rightarrow> ('w, 'j) loop_env \<Rightarrow> ('w, 'j, unit) step" where
  "finalize J env =
     then_step settle (then_step (finish_edits J env)
     (then_step (notify_finished env) (await_checkpoint env RunFinishedPoint)))"

text \<open>
  The outcome: the returned result or the propagated exception, with the conversation state and
  the world it leaves.
\<close>

definition run ::
  "'j json_lib \<Rightarrow> ('w, 'j) loop_env \<Rightarrow> 'j agent_input_state \<Rightarrow> bool \<Rightarrow> 'j message_item \<Rightarrow> run_options \<Rightarrow> nat \<Rightarrow> 'w
     \<Rightarrow> ((loop_exn + run_result) \<times> 'j agent_input_state \<times> 'w) option" where
  "run J env state has_message message options fuel w =
     (let c0 = \<lparr>cf_world = w, cf_state = state, cf_result = default_run_result, cf_admitted = False\<rparr>;
          outcome = (\<lambda>c. (Inr (cf_result c), cf_state c, cf_world c)) in
      case admission env has_message message options c0 of
        (Inl (RecoveryRequired phase message), c) \<Rightarrow>
          Some (Inl (RecoveryRequired phase message), cf_state c, cf_world c)
      | (Inl e, c) \<Rightarrow> Some (outcome (record_failure e c))
      | (Inr False, c) \<Rightarrow> Some (outcome c)
      | (Inr True, c) \<Rightarrow>
          (case run_body J env has_message message options fuel c of
             None \<Rightarrow> None
           | Some (r, c1) \<Rightarrow>
               let c2 = (case r of Inl e \<Rightarrow> record_failure e c1 | Inr _ \<Rightarrow> c1) in
               case finalize J env c2 of
                 (Inl e, c3) \<Rightarrow> Some (Inl e, cf_state c3, cf_world c3)
               | (Inr _, c3) \<Rightarrow> Some (outcome c3)))"

section \<open>Assertions about steps\<close>

text \<open>
  An assertion speaks of the conversation state and the result; \<open>triple A m B E\<close> says that from
  \<open>A\<close> the step returns with \<open>B\<close> or throws with \<open>E\<close>. Calls into the environment change neither.
\<close>

type_synonym 'j assertion = "'j agent_input_state \<Rightarrow> run_result \<Rightarrow> bool"

definition triple :: "'j assertion \<Rightarrow> ('w, 'j, 'a) step \<Rightarrow> ('a \<Rightarrow> 'j assertion) \<Rightarrow> 'j assertion \<Rightarrow> bool" where
  "triple A m B E \<longleftrightarrow> (\<forall>c. A (cf_state c) (cf_result c) \<longrightarrow>
     (case m c of (Inl e, c') \<Rightarrow> E (cf_state c') (cf_result c') | (Inr x, c') \<Rightarrow> B x (cf_state c') (cf_result c')))"

lemma triple_ret: "(\<And>s r. A s r \<Longrightarrow> B x s r) \<Longrightarrow> triple A (ret x) B E"
  by (simp add: triple_def ret_def)

lemma triple_throw: "(\<And>s r. A s r \<Longrightarrow> E s r) \<Longrightarrow> triple A (throw e) B E"
  by (simp add: triple_def throw_def)

lemma triple_bind: "triple A m B E \<Longrightarrow> (\<And>x. triple (B x) (f x) C E) \<Longrightarrow> triple A (bind_step m f) C E"
  unfolding triple_def bind_step_def by (fastforce split: prod.splits sum.splits)

lemma triple_then: "triple A m (\<lambda>_. B) E \<Longrightarrow> triple B k C E \<Longrightarrow> triple A (then_step m k) C E"
  unfolding then_step_def by (rule triple_bind)

lemma triple_catch: "triple A m B F \<Longrightarrow> (\<And>e. triple F (h e) B E) \<Longrightarrow> triple A (catch_step m h) B E"
  unfolding triple_def catch_step_def by (fastforce split: prod.splits sum.splits)

lemma triple_weaken:
  "triple A' m B' E' \<Longrightarrow> (\<And>s r. A s r \<Longrightarrow> A' s r) \<Longrightarrow> (\<And>x s r. B' x s r \<Longrightarrow> B x s r) \<Longrightarrow>
   (\<And>s r. E' s r \<Longrightarrow> E s r) \<Longrightarrow> triple A m B E"
  unfolding triple_def by (fastforce split: prod.splits sum.splits)

lemma triple_call: "triple A (call f) (\<lambda>_. A) A"
  by (auto simp: triple_def call_def split: prod.splits sum.splits)

lemma triple_stop: "triple A (stop_requested env) (\<lambda>_. A) E"
  by (auto simp: triple_def stop_requested_def split: prod.splits)

lemma triple_get_state: "triple A get_state (\<lambda>x s r. A s r \<and> x = s) E"
  by (simp add: triple_def get_state_def)

lemma triple_get_result: "triple A get_result (\<lambda>x s r. A s r \<and> x = r) E"
  by (simp add: triple_def get_result_def)

lemma triple_put_state: "(\<And>s r. A s r \<Longrightarrow> B s' r) \<Longrightarrow> triple A (put_state s') (\<lambda>_. B) E"
  by (simp add: triple_def put_state_def)

lemma triple_modify_result: "(\<And>s r. A s r \<Longrightarrow> B s (f r)) \<Longrightarrow> triple A (modify_result f) (\<lambda>_. B) E"
  by (simp add: triple_def modify_result_def)

lemma triple_modify_loop: "(\<And>s r. A s r \<Longrightarrow> B (update_loop f s) r) \<Longrightarrow> triple A (modify_loop f) (\<lambda>_. B) E"
  by (simp add: triple_def modify_loop_def)

lemma triple_set_phase:
  "(\<And>s r. A s r \<Longrightarrow> B (update_loop (\<lambda>p. p\<lparr>lp_phase := ph\<rparr>) s) r) \<Longrightarrow> triple A (set_phase ph) (\<lambda>_. B) E"
  unfolding set_phase_def by (rule triple_modify_loop)

lemma triple_set_status:
  "(\<And>s r. A s r \<Longrightarrow> B s (r\<lparr>rn_status := st\<rparr>)) \<Longrightarrow> triple A (set_status st) (\<lambda>_. B) E"
  unfolding set_status_def by (rule triple_modify_result)

lemma triple_require: "(\<And>s r. A s r \<Longrightarrow> E s r) \<Longrightarrow> triple A (require v) (\<lambda>_. A) E"
  by (cases v) (simp_all add: require_def triple_ret triple_throw)

lemma triple_publish: "triple A (publish env ev) (\<lambda>_. A) A"
  unfolding publish_def
  by (rule triple_bind [OF triple_get_state], rule triple_weaken [OF triple_call]) auto

lemma triple_checkpoint: "triple A (await_checkpoint env point) (\<lambda>_. A) A"
  by (auto simp: await_checkpoint_def triple_ret triple_call split: option.split)

lemmas triple_environment = triple_call triple_publish triple_checkpoint

section \<open>The model adapter\<close>

text \<open>
  What the loop relies on in a model: integration places a message in the conversation and does
  not touch the loop's own progress record.
\<close>

locale model_adapter =
  fixes env :: "('w, 'j) loop_env"
  assumes integrate_loop: "fst (le_integrate env s item w) = Inr s' \<Longrightarrow> st_loop s' = st_loop s"

definition generic_integrate ::
  "'j agent_input_state \<Rightarrow> 'j message_item \<Rightarrow> 'w \<Rightarrow> (loop_exn + 'j agent_input_state) \<times> 'w" where
  "generic_integrate s item w = (Inr (llm_integrate s item), w)"

lemma llm_integrate_loop: "st_loop (llm_integrate s item) = st_loop s"
  by (simp add: llm_integrate_def Let_def split: message_item_type.split)

interpretation generic_adapter: model_adapter "env\<lparr>le_integrate := generic_integrate\<rparr>" for env :: "('w, 'j) loop_env"
  by unfold_locales (auto simp: generic_integrate_def llm_integrate_loop)

section \<open>The progress invariant\<close>

text \<open>
  \<open>progress b n phases statuses\<close>: \<open>n\<close> responses committed by this run on top of \<open>b\<close> earlier ones,
  the recovery phase, no results buffered outside projection, and the result's status so far.
\<close>

definition progress :: "nat \<Rightarrow> nat \<Rightarrow> loop_phase set \<Rightarrow> run_status set \<Rightarrow> 'j assertion" where
  "progress b n phases statuses s r \<longleftrightarrow> rn_completed_exchanges r = n \<and> rn_status r \<in> statuses \<and>
     (\<exists>p. st_loop s = Some p \<and> lp_committed_response_sequence p = b + n \<and> lp_completed_exchanges p = n \<and>
        lp_phase p \<in> phases \<and> (lp_phase p \<noteq> ProjectionPhase \<longrightarrow> lp_pending_results p = []))"

text \<open>What holds wherever an exception may leave the run: nothing beyond \<open>N\<close> committed responses.\<close>

definition within :: "nat \<Rightarrow> nat \<Rightarrow> 'j assertion" where
  "within b N s r \<longleftrightarrow> (\<exists>n\<le>N. progress b n (- {BlockedPhase}) UNIV s r)"

lemma progress_mono: "progress b n X T s r \<Longrightarrow> X \<subseteq> Y \<Longrightarrow> T \<subseteq> U \<Longrightarrow> progress b n Y U s r"
  by (auto simp: progress_def)

lemma progress_status: "progress b n X T s r \<Longrightarrow> st \<in> U \<Longrightarrow> progress b n X U s (r\<lparr>rn_status := st\<rparr>)"
  by (simp add: progress_def)

lemma progress_other [simp]:
  "progress b n X T s (r\<lparr>rn_last_exchange_tokens := t\<rparr>) = progress b n X T s r"
  "progress b n X T s (r\<lparr>rn_auto_compact_reason := a\<rparr>) = progress b n X T s r"
  "progress b n X T s (r\<lparr>rn_failure_stage := f\<rparr>) = progress b n X T s r"
  "progress b n X T (commit_context ctx s) r = progress b n X T s r"
  by (simp_all add: progress_def commit_context_def)

lemma progress_loop: "st_loop s' = st_loop s \<Longrightarrow> progress b n X T s' r = progress b n X T s r"
  by (simp add: progress_def)

lemma progress_set_phase:
  "progress b n X T s r \<Longrightarrow> ProjectionPhase \<notin> X \<Longrightarrow>
   progress b n {ph} T (update_loop (\<lambda>p. p\<lparr>lp_phase := ph\<rparr>) s) r"
  by (auto simp: progress_def update_loop_def)

lemma progress_within: "progress b n X T s r \<Longrightarrow> BlockedPhase \<notin> X \<Longrightarrow> n \<le> N \<Longrightarrow> within b N s r"
  unfolding within_def by (rule exI [of _ n]) (auto elim: progress_mono)

lemma within_failure_stage [simp]: "within b N s (r\<lparr>rn_failure_stage := f\<rparr>) = within b N s r"
  by (simp add: within_def)

lemma within_mono: "within b N s r \<Longrightarrow> N \<le> M \<Longrightarrow> within b M s r"
  unfolding within_def using le_trans by blast

text \<open>Environment calls between \<open>progress\<close> assertions, with failures landing in \<open>within\<close>.\<close>

lemma triple_quiet:
  assumes "triple A m (\<lambda>_. A) A" "\<And>s r. A s r \<Longrightarrow> E s r"
  shows "triple A m (\<lambda>_. A) E"
  using assms(1) by (rule triple_weaken) (simp_all add: assms(2))

context model_adapter
begin

lemma triple_integrate_call:
  assumes B: "\<And>s r x. A s r \<Longrightarrow> st_loop x = st_loop s0 \<Longrightarrow> B x s r"
  shows "triple A (call (le_integrate env s0 item) :: ('w, 'j, 'j agent_input_state) step) B A"
  unfolding triple_def
proof (intro allI impI)
  fix c :: "('w, 'j) run_cfg" assume A: "A (cf_state c) (cf_result c)"
  obtain q w where f: "le_integrate env s0 item (cf_world c) = (q, w)" by (cases "le_integrate env s0 item (cf_world c)")
  show "case call (le_integrate env s0 item) c of (Inl e, c') \<Rightarrow> A (cf_state c') (cf_result c')
        | (Inr x, c') \<Rightarrow> B x (cf_state c') (cf_result c')"
  proof (cases q)
    case (Inl e) then show ?thesis using A f by (simp add: call_def)
  next
    case (Inr x)
    have "st_loop x = st_loop s0" using integrate_loop [of s0 item "cf_world c" x] f Inr by simp
    then show ?thesis using B [OF A] f Inr by (simp add: call_def)
  qed
qed

lemma triple_integrate: "triple (progress b n X T) (integrate env m) (\<lambda>_. progress b n X T) (progress b n X T)"
  unfolding integrate_def
proof (rule triple_bind [OF triple_get_state])
  fix s0 :: "'j agent_input_state"
  let ?A = "\<lambda>s r. progress b n X T s r \<and> s0 = s"
  have "triple ?A (call (le_integrate env s0 m)) (\<lambda>x s r. progress b n X T x r) ?A"
    by (rule triple_integrate_call) (auto simp: progress_def)
  then have "triple ?A (call (le_integrate env s0 m)) (\<lambda>x s r. progress b n X T x r) (progress b n X T)"
    by (rule triple_weaken) auto
  then show "triple ?A (bind_step (call (le_integrate env s0 m)) put_state) (\<lambda>_. progress b n X T) (progress b n X T)"
    by (rule triple_bind) (rule triple_put_state)
qed

end

context model_adapter
begin

lemma triple_integrate_response:
  "triple (progress b n X T) (integrate_response env m)
     (\<lambda>_ s r. rn_completed_exchanges r = n \<and>
        progress b (Suc n) X T (update_loop (\<lambda>p. p\<lparr>lp_completed_exchanges := Suc n\<rparr>) s)
          (r\<lparr>rn_completed_exchanges := Suc n\<rparr>))
     (progress b n X T)"
  unfolding integrate_response_def
proof (rule triple_bind [OF triple_get_state])
  fix s0 :: "'j agent_input_state"
  let ?A = "\<lambda>s r. progress b n X T s r \<and> s0 = s"
  let ?D = "\<lambda>x s r. progress b n X T s r \<and> progress b n X T x r"
  let ?Q = "\<lambda>_ s r. rn_completed_exchanges r = n \<and>
        progress b (Suc n) X T (update_loop (\<lambda>p. p\<lparr>lp_completed_exchanges := Suc n\<rparr>) s)
          (r\<lparr>rn_completed_exchanges := Suc n\<rparr>)"
  let ?rest = "\<lambda>draft. if st_turns draft = [] \<or> us_agent_loop_step (last (st_turns draft)) = [] then
           throw (Exn (LogicError ''model did not append a response step''))
         else
           let sequence = lp_committed_response_sequence (the (st_loop draft)) + 1 in
           put_state ((update_loop (\<lambda>p. p\<lparr>lp_committed_response_sequence := sequence\<rparr>) draft)\<lparr>st_turns :=
             update_back (\<lambda>turn. turn\<lparr>us_agent_loop_step :=
               update_back (\<lambda>step. step\<lparr>as_commit_sequence := sequence\<rparr>) (us_agent_loop_step turn)\<rparr>)
             (st_turns draft)\<rparr>)"
  have "triple ?A (call (le_integrate env s0 m)) ?D (progress b n X T)"
    by (rule triple_weaken [OF triple_integrate_call [where A = ?A and B = ?D]]) (auto simp: progress_def)
  moreover have "triple (?D x) (?rest x) ?Q (progress b n X T)" for x
    unfolding Let_def
    by (auto intro!: triple_throw triple_put_state simp: progress_def update_loop_def)
  ultimately have "triple ?A (bind_step (call (le_integrate env s0 m)) ?rest) ?Q (progress b n X T)"
    by (rule triple_bind)
  then show "triple ?A (if lp_committed_response_sequence (the (st_loop s0)) = size_max then
         throw (Exn (OverflowError ''model response commit sequence overflow''))
       else bind_step (call (le_integrate env s0 m)) ?rest) ?Q (progress b n X T)"
    by (auto intro: triple_throw)
qed

lemma triple_commit_response:
  assumes X: "ProjectionPhase \<notin> X" "BlockedPhase \<notin> X"
  shows "triple (progress b n X T) (commit_response env m) (\<lambda>_. progress b (Suc n) {ReadyPhase} T) (within b (Suc n))"
proof -
  let ?done = "\<lambda>s. update_loop (\<lambda>p. p\<lparr>lp_completed_exchanges := Suc n\<rparr>) s"
  let ?B = "\<lambda>Y s r. rn_completed_exchanges r = n \<and>
        progress b (Suc n) Y T (?done s) (r\<lparr>rn_completed_exchanges := Suc n\<rparr>)"
  have E: "progress b n X T s r \<Longrightarrow> within b (Suc n) s r" for s :: "'j agent_input_state" and r
    using X by (auto intro: progress_within)
  have 1: "triple (progress b n X T) (integrate_response env m) (\<lambda>_. ?B X) (within b (Suc n))"
    by (rule triple_weaken [OF triple_integrate_response]) (auto intro: E)
  have 2: "triple (?B X) (set_phase ReadyPhase) (\<lambda>_. ?B {ReadyPhase}) (within b (Suc n))"
    using X(1) by (intro triple_set_phase) (auto simp: progress_def update_loop_def)
  have 3: "triple (?B {ReadyPhase}) (modify_result (\<lambda>r. r\<lparr>rn_completed_exchanges := rn_completed_exchanges r + 1\<rparr>))
     (\<lambda>_ s r. rn_completed_exchanges r = Suc n \<and> progress b (Suc n) {ReadyPhase} T (?done s) r) (within b (Suc n))"
    by (rule triple_modify_result) auto
  have 4: "triple (\<lambda>s r. rn_completed_exchanges r = Suc n \<and> progress b (Suc n) {ReadyPhase} T (?done s) r)
     (bind_step get_result (\<lambda>r. modify_loop (\<lambda>p. p\<lparr>lp_completed_exchanges := rn_completed_exchanges r\<rparr>)))
     (\<lambda>_. progress b (Suc n) {ReadyPhase} T) (within b (Suc n))"
    by (rule triple_bind [OF triple_get_result], rule triple_modify_loop) auto
  have 5: "triple (progress b (Suc n) {ReadyPhase} T)
     (modify_result (\<lambda>r. r\<lparr>rn_last_exchange_tokens := exchange_tokens m\<rparr>))
     (\<lambda>_. progress b (Suc n) {ReadyPhase} T) (within b (Suc n))"
    by (rule triple_modify_result) simp
  have "triple (progress b n X T) (require (validate_calls m) :: ('w, 'j, unit) step) (\<lambda>_. progress b n X T) (within b (Suc n))"
    by (rule triple_require) (rule E)
  note chain = triple_then [OF this triple_then [OF 1 triple_then [OF 2 triple_then [OF 3 triple_then [OF 4 5]]]]]
  show ?thesis
    unfolding commit_response_def using chain by (auto intro: triple_throw E)
qed

end

lemma triple_notify_response:
  "triple (progress b n X T) (notify_response env m) (\<lambda>_. progress b n X T) E"
  unfolding notify_response_def
  by (rule triple_catch [where F = "progress b n X T"])
     (auto intro!: triple_then [OF triple_publish] triple_ret triple_then [OF triple_ret [where B = "\<lambda>_. progress b n X T"]])

lemma triple_converse: "triple A (converse_interruptibly env) (\<lambda>_. A) A"
  unfolding converse_interruptibly_def
  by (rule triple_bind [OF triple_get_state], rule triple_bind [OF triple_stop])
     (auto intro: triple_throw triple_weaken [OF triple_call])

text \<open>A request either yields a response with nothing changed, or ends the run cancelled.\<close>

lemma triple_request:
  "triple (progress b n {ModelPhase} T) (request env)
     (\<lambda>x. case x of None \<Rightarrow> progress b n {ReadyPhase} {RunCancelled} | Some _ \<Rightarrow> progress b n {ModelPhase} T)
     (within b n)"
proof -
  let ?A = "progress b n {ModelPhase} T"
  let ?B = "\<lambda>x. case x of None \<Rightarrow> progress b n {ReadyPhase} {RunCancelled} | Some _ \<Rightarrow> ?A"
  have fail: "triple ?A (then_step (modify_result (\<lambda>r. r\<lparr>rn_failure_stage := ModelRequest\<rparr>)) (throw e)) ?B (within b n)" for e
    by (rule triple_then [OF triple_modify_result [where B = ?A] triple_throw]) (auto intro: progress_within)
  have cancel: "triple ?A (then_step (set_phase ReadyPhase) (then_step (set_status RunCancelled) (ret None))) ?B (within b n)"
    by (rule triple_then [OF triple_set_phase [where B = "progress b n {ReadyPhase} T"]
             triple_then [OF triple_set_status [where B = "progress b n {ReadyPhase} {RunCancelled}"] triple_ret]])
       (auto intro: progress_set_phase progress_status)
  have handler: "triple ?A (bind_step (stop_requested env) (\<lambda>stop.
       if stop \<and> code = operation_aborted then
         then_step (set_phase ReadyPhase) (then_step (set_status RunCancelled) (ret None))
       else then_step (modify_result (\<lambda>r. r\<lparr>rn_failure_stage := ModelRequest\<rparr>)) (throw e))) ?B (within b n)" for code e
    by (rule triple_bind [OF triple_stop]) (auto intro: fail cancel)
  show ?thesis
    unfolding request_def
  proof (rule triple_catch)
    show "triple ?A (bind_step (converse_interruptibly env) (\<lambda>m. ret (Some m))) ?B ?A"
      by (rule triple_bind [OF triple_converse], rule triple_ret) simp
  next
    fix e
    show "triple ?A (let fail = then_step (modify_result (\<lambda>r. r\<lparr>rn_failure_stage := ModelRequest\<rparr>)) (throw e) in
       case e of
         Exn (SystemError code message) \<Rightarrow>
           bind_step (stop_requested env) (\<lambda>stop.
             if stop \<and> code = operation_aborted then
               then_step (set_phase ReadyPhase) (then_step (set_status RunCancelled) (ret None))
             else fail)
       | _ \<Rightarrow> fail) ?B (within b n)"
      unfolding Let_def by (auto intro: fail handler split: loop_exn.split exn.split)
  qed
qed

text \<open>A state edit is a transaction: it commits a state whose progress record agrees, or nothing.\<close>

lemma validate_state_edit_progress:
  assumes "validate_state_edit J s before = Inr ()" "progress b n X T before r"
  shows "progress b n X T s r"
  using assms unfolding validate_state_edit_def progress_def
  by (auto split: option.splits if_splits)

lemma triple_edit_state:
  "triple (progress b n X T) (edit_state J env point) (\<lambda>_. progress b n X T) (progress b n X T)"
  unfolding triple_def edit_state_def Let_def
  by (auto split: prod.splits sum.splits intro: validate_state_edit_progress)

context model_adapter
begin

lemma triple_integrate_all:
  assumes "st_loop draft = l"
  shows "triple A (integrate_all env records draft :: ('w, 'j, 'j agent_input_state) step) (\<lambda>x s r. A s r \<and> st_loop x = l) A"
  using assms
proof (induction records arbitrary: draft)
  case Nil then show ?case by (auto intro: triple_ret)
next
  case (Cons rec records)
  let ?B = "\<lambda>x s r. A s r \<and> st_loop x = l"
  have 1: "triple A (call (le_integrate env draft (result_item rec))) ?B A"
    by (rule triple_integrate_call) (simp add: Cons.prems)
  have 2: "triple (?B x) (integrate_all env records x) ?B A" for x
  proof (cases "st_loop x = l")
    case True
    from Cons.IH [OF True] show ?thesis by (rule triple_weaken) auto
  next
    case False then show ?thesis by (simp add: triple_def)
  qed
  show ?case by (simp add: triple_bind [OF 1 2])
qed

lemma triple_project:
  "triple (progress b n {ProjectionPhase} T) (project env) (\<lambda>_. progress b n {ReadyPhase} T)
     (progress b n {ProjectionPhase} T)"
  unfolding project_def
proof (rule triple_bind [OF triple_get_state])
  fix s0 :: "'j agent_input_state"
  let ?P = "progress b n {ProjectionPhase} T"
  let ?A = "\<lambda>s r. ?P s r \<and> s0 = s"
  let ?B = "\<lambda>x s r. ?P s r \<and> ?P x r"
  have "triple ?A (integrate_all env (lp_pending_results (the (st_loop s0))) s0) ?B ?P"
    by (rule triple_weaken [OF triple_integrate_all [OF refl, of ?A]]) (auto simp: progress_def)
  then show "triple ?A (bind_step (integrate_all env (lp_pending_results (the (st_loop s0))) s0)
      (\<lambda>draft. then_step (require (validate_state_structure draft))
        (put_state (update_loop (\<lambda>p. p\<lparr>lp_pending_results := [], lp_phase := ReadyPhase\<rparr>) draft))))
      (\<lambda>_. progress b n {ReadyPhase} T) ?P"
    by (rule triple_bind, intro triple_then [OF triple_require triple_put_state])
       (auto simp: progress_def update_loop_def)
qed

lemma triple_tool_batch:
  "triple (progress b n {ReadyPhase} T) (tool_batch J env calls err) (\<lambda>_. progress b n {ReadyPhase} T) (within b n)"
proof -
  let ?R = "progress b n {ReadyPhase} T" and ?T = "progress b n {ToolsPhase} T"
    and ?P = "progress b n {ProjectionPhase} T"
  let ?buffered = "\<lambda>s r. ?P (update_loop (\<lambda>p. p\<lparr>lp_phase := ProjectionPhase\<rparr>) s) r"
  have E: "progress b n {ph} T s r \<Longrightarrow> ph \<noteq> BlockedPhase \<Longrightarrow> within b n s r" for ph and s :: "'j agent_input_state" and r
    by (rule progress_within) auto
  have quiet: "triple (progress b n {ph} T) m (\<lambda>_. progress b n {ph} T) (progress b n {ph} T) \<Longrightarrow> ph \<noteq> BlockedPhase \<Longrightarrow>
      triple (progress b n {ph} T) m (\<lambda>_. progress b n {ph} T) (within b n)" for ph and m :: "('w, 'j, 'x) step"
    by (rule triple_quiet) (auto intro: E)
  have tools: "triple ?R (set_phase ToolsPhase) (\<lambda>_. ?T) (within b n)"
    by (rule triple_set_phase, rule progress_set_phase) auto
  have dispatch: "triple ?T (bind_step (stop_requested env) (\<lambda>stop.
      if stop \<or> err \<noteq> [] then ret (skipped J calls) else call (le_execute env calls))) (\<lambda>_. ?T) (within b n)"
    by (rule triple_bind [OF triple_stop]) (auto intro: triple_ret quiet [OF triple_call])
  have buffer: "triple ?T (modify_loop (\<lambda>p. p\<lparr>lp_pending_results := records\<rparr>)) (\<lambda>_. ?buffered) (within b n)" for records
    by (rule triple_modify_loop) (auto simp: progress_def update_loop_def)
  have projection: "triple ?buffered (set_phase ProjectionPhase) (\<lambda>_. ?P) (within b n)"
    by (rule triple_set_phase) simp
  have project: "triple ?P (project env) (\<lambda>_. ?R) (within b n)"
    by (rule triple_weaken [OF triple_project]) (auto intro: E)
  have failure: "triple ?R (if err \<noteq> [] then throw (Exn (RuntimeError err)) else ret () :: ('w, 'j, unit) step)
      (\<lambda>_. ?R) (within b n)"
    by (auto intro: triple_throw triple_ret E)
  show ?thesis
    unfolding tool_batch_def
    by (intro triple_then [OF tools] triple_bind [OF dispatch] triple_then [OF buffer] triple_then [OF projection]
        triple_then [OF project] triple_then [OF failure]
        triple_then [OF quiet [OF triple_publish]] triple_then [OF quiet [OF triple_checkpoint]]
        triple_then [OF quiet [OF triple_edit_state]] quiet [OF triple_checkpoint]) simp_all
qed

end

section \<open>Exchanges and the run\<close>

text \<open>How the loop body ends without an exception: at \<open>Ready\<close>, with a deliberate status.\<close>

abbreviation deliberate :: "run_status set" where
  "deliberate \<equiv> {RunCompleted, RunCancelled, RunAutoCompactRequired}"

definition ended :: "nat \<Rightarrow> nat \<Rightarrow> 'j assertion" where
  "ended b N s r \<longleftrightarrow> (\<exists>n\<le>N. progress b n {ReadyPhase} deliberate s r)"

lemma progress_ended: "progress b n {ReadyPhase} T s r \<Longrightarrow> T \<subseteq> deliberate \<Longrightarrow> n \<le> N \<Longrightarrow> ended b N s r"
  unfolding ended_def by (rule exI [of _ n]) (auto elim: progress_mono)

definition exchanged :: "nat \<Rightarrow> nat \<Rightarrow> control \<Rightarrow> 'j assertion" where
  "exchanged b n x = (case x of Continue \<Rightarrow> progress b (Suc n) {ReadyPhase} {RunExchangeLimit} | Break \<Rightarrow> ended b (Suc n))"

lemma triple_break:
  assumes "st \<in> deliberate" "n \<le> Suc N"
  shows "triple (progress b n {ReadyPhase} T) (then_step (set_status st) (ret Break)) (exchanged b N) E"
  by (rule triple_then [OF triple_set_status [where B = "progress b n {ReadyPhase} {st}"] triple_ret])
     (use assms in \<open>auto simp: exchanged_def intro: progress_status progress_ended\<close>)

lemma triple_compact:
  assumes "n \<le> Suc N"
  shows "triple (progress b n {ReadyPhase} T) (then_step (set_status RunAutoCompactRequired)
    (then_step (modify_result (\<lambda>r. r\<lparr>rn_auto_compact_reason := reason\<rparr>)) (ret Break))) (exchanged b N) E"
  by (rule triple_then [OF triple_set_status [where B = "progress b n {ReadyPhase} {RunAutoCompactRequired}"]
        triple_then [OF triple_modify_result [where B = "progress b n {ReadyPhase} {RunAutoCompactRequired}"] triple_ret]])
     (use assms in \<open>auto simp: exchanged_def intro: progress_status progress_ended\<close>)

context model_adapter
begin

lemma triple_after_response:
  "triple (progress b n {ModelPhase} {RunExchangeLimit}) (after_response J env options m)
     (exchanged b n) (within b (Suc n))"
proof -
  let ?R = "progress b (Suc n) {ReadyPhase} {RunExchangeLimit}"
  let ?E = "within b (Suc n)"
  let ?tools = "\<lambda>err. if calls_of m \<noteq> [] then tool_batch J env (calls_of m) err
    else if err \<noteq> [] then throw (Exn (RuntimeError err)) else ret ()"
  let ?next = "if calls_of m = [] then then_step (set_status RunCompleted) (ret Break)
        else bind_step (stop_requested env) (\<lambda>stop.
          if stop then then_step (set_status RunCancelled) (ret Break)
          else bind_step get_result (\<lambda>result.
            case compaction options result of
              None \<Rightarrow> ret Continue
            | Some reason \<Rightarrow>
                then_step (set_status RunAutoCompactRequired)
                (then_step (modify_result (\<lambda>r. r\<lparr>rn_auto_compact_reason := reason\<rparr>)) (ret Break))))"
  have commit: "triple (progress b n {ModelPhase} {RunExchangeLimit}) (commit_response env m) (\<lambda>_. ?R) ?E"
    by (rule triple_commit_response) auto
  have tools: "triple ?R (?tools err) (\<lambda>_. ?R) ?E" for err
    using triple_tool_batch [of b "Suc n" "{RunExchangeLimit}" J "calls_of m" err]
    by (auto intro!: triple_ret triple_throw intro: progress_within)
  have compact: "triple (\<lambda>s r. ?R s r \<and> result = r) (case compaction options result of
              None \<Rightarrow> ret Continue
            | Some reason \<Rightarrow>
                then_step (set_status RunAutoCompactRequired)
                (then_step (modify_result (\<lambda>r. r\<lparr>rn_auto_compact_reason := reason\<rparr>)) (ret Break)))
      (exchanged b n) ?E" for result
  proof (cases "compaction options result")
    case None then show ?thesis by (auto simp: exchanged_def intro: triple_ret)
  next
    case (Some reason)
    have "triple ?R (then_step (set_status RunAutoCompactRequired)
      (then_step (modify_result (\<lambda>r. r\<lparr>rn_auto_compact_reason := reason\<rparr>)) (ret Break))) (exchanged b n) ?E"
      by (rule triple_compact) simp
    then show ?thesis unfolding Some by (simp, rule triple_weaken) auto
  qed
  have go_on: "triple ?R (if stop then then_step (set_status RunCancelled) (ret Break)
      else bind_step get_result (\<lambda>result. case compaction options result of
              None \<Rightarrow> ret Continue
            | Some reason \<Rightarrow>
                then_step (set_status RunAutoCompactRequired)
                (then_step (modify_result (\<lambda>r. r\<lparr>rn_auto_compact_reason := reason\<rparr>)) (ret Break))))
      (exchanged b n) ?E" for stop
    by (cases stop) (auto intro: triple_break triple_bind [OF triple_get_result compact])
  have "triple ?R ?next (exchanged b n) ?E"
    by (cases "calls_of m = []") (auto intro: triple_break triple_bind [OF triple_stop go_on])
  then show ?thesis
    unfolding after_response_def
    by (rule triple_then [OF commit triple_bind [OF triple_notify_response triple_then [OF tools]]])
qed

lemma triple_exchange:
  "triple (progress b n {ReadyPhase} {RunExchangeLimit}) (exchange J env options)
     (exchanged b n) (within b (Suc n))"
proof -
  let ?R = "progress b n {ReadyPhase} {RunExchangeLimit}" and ?M = "progress b n {ModelPhase} {RunExchangeLimit}"
  let ?E = "within b (Suc n)"
  have E: "?R s r \<Longrightarrow> ?E s r" for s :: "'j agent_input_state" and r
    by (rule progress_within) auto
  have stop: "triple ?R (then_step (set_status RunCancelled) (ret Break) :: ('w, 'j, control) step) (exchanged b n) ?E"
    by (rule triple_break) auto
  have response: "triple (case x of None \<Rightarrow> progress b n {ReadyPhase} {RunCancelled} | Some _ \<Rightarrow> ?M)
      (case x of None \<Rightarrow> ret Break | Some m \<Rightarrow> after_response J env options m) (exchanged b n) ?E" for x
  proof (cases x)
    case None
    have "progress b n {ReadyPhase} {RunCancelled} s r \<Longrightarrow> exchanged b n Break s r" for s :: "'j agent_input_state" and r
      unfolding exchanged_def using progress_ended by fastforce
    then show ?thesis unfolding None by (auto intro: triple_ret)
  next
    case (Some m) then show ?thesis using triple_after_response by simp
  qed
  have req: "triple ?M (request env)
      (\<lambda>x. case x of None \<Rightarrow> progress b n {ReadyPhase} {RunCancelled} | Some _ \<Rightarrow> ?M) ?E"
    by (rule triple_weaken [OF triple_request [of b n "{RunExchangeLimit}"]]) (auto elim: within_mono)
  have model: "triple ?R (set_phase ModelPhase) (\<lambda>_. ?M) ?E"
    by (rule triple_set_phase, rule progress_set_phase) auto
  let ?A = "\<lambda>s0 s r. ?R s r \<and> s0 = s"
  have put: "triple (?A s0) (put_state (commit_context ctx s0)) (\<lambda>_. ?R) ?E" for s0 :: "'j agent_input_state" and ctx
    by (rule triple_put_state) auto
  have go: "triple (?A s0) (if stop then then_step (set_status RunCancelled) (ret Break)
      else then_step (put_state (commit_context ctx s0)) (then_step (set_phase ModelPhase)
         (bind_step (request env) (\<lambda>response.
           case response of None \<Rightarrow> ret Break | Some m \<Rightarrow> after_response J env options m)))) (exchanged b n) ?E"
    for s0 :: "'j agent_input_state" and ctx stop
    using triple_then [OF put triple_then [OF model triple_bind [OF req response]]]
      triple_weaken [OF stop, of "?A s0" "exchanged b n" ?E] by auto
  have hook: "triple (?A s0) (call (le_before_model env s0 ctx)) (\<lambda>_. ?A s0) ?E" for s0 :: "'j agent_input_state" and ctx
    by (rule triple_quiet [OF triple_call]) (auto intro: E)
  have rendered: "triple (?A s0) (require v) (\<lambda>_. ?A s0) ?E" for s0 :: "'j agent_input_state" and v
    by (rule triple_require) (auto intro: E)
  have body: "triple ?R (bind_step get_state (\<lambda>s.
       bind_step (call (le_before_model env s
          \<lparr>mc_system_prompt = st_system_prompt s, mc_tools = st_tools s, mc_extras = st_extras s\<rparr>)) (\<lambda>context.
       then_step (require (and_then (render (mc_system_prompt context)) (\<lambda>_. Inr ())))
       (bind_step (stop_requested env) (\<lambda>stop.
       if stop then then_step (set_status RunCancelled) (ret Break)
       else
         then_step (put_state (commit_context context s))
         (then_step (set_phase ModelPhase)
         (bind_step (request env) (\<lambda>response.
           case response of None \<Rightarrow> ret Break | Some m \<Rightarrow> after_response J env options m)))))))) (exchanged b n) ?E"
    by (rule triple_bind [OF triple_get_state triple_bind [OF hook triple_then [OF rendered triple_bind [OF triple_stop go]]]])
  show ?thesis
    unfolding exchange_def using stop body by (intro triple_bind [OF triple_stop]) simp
qed

text \<open>The loop ends deliberately, or at its cap with exactly that many responses committed.\<close>

lemma exchange_loop_progress:
  assumes "progress b n {ReadyPhase} {RunExchangeLimit} (cf_state c) (cf_result c)"
    and "\<And>m. op_max_exchanges options = Some m \<Longrightarrow> n \<le> m"
    and "exchange_loop J env options n fuel c = Some (q, c')"
  shows "\<exists>N. (\<forall>m. op_max_exchanges options = Some m \<longrightarrow> N \<le> m) \<and>
    (case q of
       Inl e \<Rightarrow> within b N (cf_state c') (cf_result c')
     | Inr _ \<Rightarrow> ended b N (cf_state c') (cf_result c') \<or>
         op_max_exchanges options = Some N \<and> progress b N {ReadyPhase} {RunExchangeLimit} (cf_state c') (cf_result c'))"
  using assms
proof (induction fuel arbitrary: n c)
  case 0 then show ?case by simp
next
  case (Suc fuel)
  let ?go = "case op_max_exchanges options of None \<Rightarrow> True | Some m \<Rightarrow> n < m"
  show ?case
  proof (cases ?go)
    case False
    then obtain m where "op_max_exchanges options = Some m" "n = m"
      using Suc.prems(2) by (auto split: option.splits simp: not_less)
    then show ?thesis using Suc.prems(1,3) by auto
  next
    case True
    then have bound: "\<forall>m. op_max_exchanges options = Some m \<longrightarrow> Suc n \<le> m" by auto
    obtain x c1 where ex: "exchange J env options c = (x, c1)" by fastforce
    have t: "case x of Inl e \<Rightarrow> within b (Suc n) (cf_state c1) (cf_result c1)
        | Inr k \<Rightarrow> exchanged b n k (cf_state c1) (cf_result c1)"
      using triple_exchange [of b n J options] Suc.prems(1) ex
      unfolding triple_def by (auto dest!: spec [of _ c] split: sum.splits)
    have loop: "(case (x, c1) of (Inl e, c') \<Rightarrow> Some (Inl e, c') | (Inr Break, c') \<Rightarrow> Some (Inr (), c')
        | (Inr Continue, c') \<Rightarrow> exchange_loop J env options (Suc n) fuel c') = Some (q, c')"
      using Suc.prems(3) True ex by simp
    show ?thesis
    proof (cases x)
      case (Inl e) then show ?thesis using loop t bound by (auto intro!: exI [of _ "Suc n"])
    next
      case (Inr k)
      show ?thesis
      proof (cases k)
        case Break then show ?thesis using loop t bound Inr by (auto intro!: exI [of _ "Suc n"] simp: exchanged_def)
      next
        case Continue
        show ?thesis
          by (rule Suc.IH [of "Suc n" c1]) (use loop t bound Inr Continue in \<open>auto simp: exchanged_def\<close>)
      qed
    qed
  qed
qed

end

text \<open>The persisted terminal record repeats the returned result.\<close>

definition reported :: "'j assertion" where
  "reported s r \<longleftrightarrow> (\<exists>p. st_loop s = Some p \<and> lp_status p = progress_status (rn_status r) \<and> lp_error p = rn_error r)"

definition settled_phase :: "loop_phase \<Rightarrow> loop_phase" where
  "settled_phase ph = (case ph of ToolsPhase \<Rightarrow> BlockedPhase | ModelPhase \<Rightarrow> ReadyPhase | _ \<Rightarrow> ph)"

definition settled :: "nat \<Rightarrow> nat \<Rightarrow> loop_phase set \<Rightarrow> run_status set \<Rightarrow> 'j assertion" where
  "settled b n X T s r \<longleftrightarrow> progress b n X T s r \<and> reported s r"

lemma triple_settle:
  assumes "\<And>ph. ph \<in> X \<Longrightarrow> settled_phase ph \<in> Y"
  shows "triple (progress b n X T) settle (\<lambda>_. settled b n Y T) E"
proof -
  let ?f = "\<lambda>p. if lp_phase p = ToolsPhase then p\<lparr>lp_phase := BlockedPhase\<rparr> else p"
  let ?g = "\<lambda>p. if lp_phase p = ModelPhase then p\<lparr>lp_phase := ReadyPhase\<rparr> else p"
  have 1: "progress b n Y T (update_loop ?g (update_loop ?f s)) r" if pre: "progress b n X T s r" for s r
  proof -
    obtain p where p: "st_loop s = Some p" "lp_phase p \<in> X" using pre by (auto simp: progress_def)
    show ?thesis
      using pre assms [OF p(2)] p
      by (cases "lp_phase p") (auto simp: progress_def update_loop_def settled_phase_def)
  qed
  have 2: "settled b n Y T (update_loop (\<lambda>p. p\<lparr>lp_status := progress_status (rn_status r), lp_error := rn_error r\<rparr>) s) r"
    if "progress b n Y T s r" for s r
    using that by (auto simp: settled_def reported_def progress_def update_loop_def)
  show ?thesis
    unfolding settle_def
    by (rule triple_then [OF triple_modify_loop [where B = "\<lambda>s r. progress b n Y T (update_loop ?g s) r"]
          triple_then [OF triple_modify_loop [where B = "progress b n Y T"] triple_bind [OF triple_get_result triple_modify_loop]]])
       (auto intro: 1 2)
qed

lemma validate_state_edit_settled:
  assumes "validate_state_edit J s before = Inr ()" "settled b n X T before r"
  shows "settled b n X T s r"
  using assms validate_state_edit_progress [OF assms(1), of b n X T r]
  unfolding settled_def reported_def validate_state_edit_def
  by (auto split: option.splits if_splits)

lemma triple_finish_edits:
  "triple (settled b n X T) (finish_edits J env) (\<lambda>_. settled b n X (insert RunFailed T)) E"
proof -
  let ?F = "settled b n X (insert RunFailed T)"
  have edit: "triple (\<lambda>s r. settled b n X T s r \<and> r0 = r) (edit_state J env point) (\<lambda>_. ?F) (settled b n X T)" for r0 point
    unfolding triple_def edit_state_def Let_def
    by (auto split: prod.splits sum.splits
        simp: settled_def [of b n X "insert RunFailed T"] settled_def [of b n X T]
        dest: validate_state_edit_settled [unfolded settled_def, where b = b and n = n and X = X and T = T]
        elim: progress_mono)
  show ?thesis
    unfolding finish_edits_def
    by (rule triple_bind [OF triple_get_result triple_catch [OF edit]],
        rule triple_then [OF triple_modify_result [where B = "\<lambda>s r. progress b n X (insert RunFailed T) s r \<and> rn_status r = RunFailed"]
          triple_bind [OF triple_get_result triple_modify_loop]])
       (auto simp: settled_def progress_def reported_def update_loop_def)
qed

lemma triple_notify_finished: "triple A (notify_finished env) (\<lambda>_. A) E"
proof -
  have "triple (\<lambda>s r. A s r \<and> r0 = r) (publish env ev) (\<lambda>_. A) A" for r0 ev
    by (rule triple_weaken [OF triple_publish]) auto
  then show ?thesis
    unfolding notify_finished_def by (intro triple_bind [OF triple_get_result] triple_catch) (auto intro: triple_ret)
qed

lemma triple_finalize:
  assumes "\<And>ph. ph \<in> X \<Longrightarrow> settled_phase ph \<in> Y"
  shows "triple (progress b n X T) (finalize J env) (\<lambda>_. settled b n Y (insert RunFailed T)) (settled b n Y (insert RunFailed T))"
  unfolding finalize_def
  by (rule triple_then [OF triple_settle [OF assms] triple_then [OF triple_finish_edits
        triple_then [OF triple_notify_finished triple_checkpoint]]])

text \<open>Before admission only the count of earlier commits matters.\<close>

definition sequence_of :: "'j agent_input_state \<Rightarrow> nat" where
  "sequence_of s = (case st_loop s of None \<Rightarrow> 0 | Some p \<Rightarrow> lp_committed_response_sequence p)"

definition before_run :: "nat \<Rightarrow> 'j assertion" where
  "before_run b s r \<longleftrightarrow> sequence_of s = b \<and> rn_completed_exchanges r = 0"

context model_adapter
begin

lemma triple_recover: "triple (before_run b) (recover env) (\<lambda>_. before_run b) (before_run b)"
  unfolding recover_def
proof (rule triple_bind [OF triple_get_state])
  fix s0 :: "'j agent_input_state"
  let ?A = "\<lambda>s r. before_run b s r \<and> s0 = s"
  have project: "triple ?A (project env) (\<lambda>_. before_run b) (before_run b)"
    unfolding project_def
  proof (rule triple_bind [OF triple_get_state])
    fix s1 :: "'j agent_input_state"
    let ?A1 = "\<lambda>s r. ?A s r \<and> s1 = s"
    have "triple ?A1 (integrate_all env (lp_pending_results (the (st_loop s1))) s1)
        (\<lambda>x s r. before_run b s r \<and> before_run b x r) (before_run b)"
      by (rule triple_weaken [OF triple_integrate_all [OF refl, of ?A1]]) (auto simp: before_run_def sequence_of_def)
    then show "triple ?A1 (bind_step (integrate_all env (lp_pending_results (the (st_loop s1))) s1)
        (\<lambda>draft. then_step (require (validate_state_structure draft))
          (put_state (update_loop (\<lambda>p. p\<lparr>lp_pending_results := [], lp_phase := ReadyPhase\<rparr>) draft))))
        (\<lambda>_. before_run b) (before_run b)"
      by (rule triple_bind, intro triple_then [OF triple_require triple_put_state])
         (auto simp: before_run_def sequence_of_def update_loop_def split: option.splits)
  qed
  have *: "triple ?A (then_step (require (validate_state_structure s0)) (project env)) (\<lambda>_. before_run b) (before_run b)"
    by (rule triple_then [OF triple_require project]) simp
  show "triple ?A (case st_loop s0 of
       None \<Rightarrow> ret ()
     | Some p \<Rightarrow>
         if lp_phase p \<noteq> ReadyPhase \<and> lp_phase p \<noteq> ModelPhase \<and> lp_phase p \<noteq> ProjectionPhase then
           throw (Exn (LogicError ''unknown loop recovery phase''))
         else if lp_phase p \<noteq> ProjectionPhase \<and> lp_pending_results p \<noteq> [] then
           throw (Exn (LogicError ''pending results outside projection phase''))
         else if lp_phase p = ProjectionPhase then
           (if lp_pending_results p = [] then throw (Exn (LogicError ''projection phase has no results''))
            else then_step (require (validate_state_structure s0)) (project env))
         else ret ()) (\<lambda>_. before_run b) (before_run b)"
    by (auto split: option.split intro!: * triple_ret triple_throw)
qed

lemma triple_admission:
  "triple (before_run b) (admission env has_message message options) (\<lambda>_. before_run b) (before_run b)"
proof -
  let ?B = "before_run b :: 'j assertion"
  have cancel: "triple ?B (then_step (set_status RunCancelled) (ret x)) (\<lambda>_. ?B) ?B" for x
    by (rule triple_then [OF triple_set_status [where B = ?B] triple_ret]) (auto simp: before_run_def)
  have valid: "triple ?B (bind_step get_state (\<lambda>s. require (validate_state_structure s))) (\<lambda>_. ?B) ?B"
    by (rule triple_bind [OF triple_get_state], rule triple_weaken [OF triple_require]) auto
  have "triple ?B (if stop then then_step (set_status RunCancelled) (ret False) else ret True) (\<lambda>_. ?B) ?B" for stop
    using cancel by (auto intro: triple_ret)
  note tail = triple_then [OF triple_recover triple_then [OF valid triple_bind [OF triple_stop this]]]
  have "triple ?B (if stop then then_step (set_status RunCancelled) (ret False)
      else then_step (recover env) (then_step (bind_step get_state (\<lambda>s. require (validate_state_structure s)))
        (bind_step (stop_requested env) (\<lambda>stop. if stop then then_step (set_status RunCancelled) (ret False) else ret True))))
      (\<lambda>_. ?B) ?B" for stop
    using cancel tail by auto
  note go = triple_bind [OF triple_stop this]
  show ?thesis
    unfolding admission_def
    by (rule triple_bind [OF triple_get_state])
       (auto split: option.split intro!: triple_throw intro: triple_weaken [OF go])
qed

lemma triple_accept_input:
  "triple (progress b 0 {ReadyPhase} T) (accept_input env has_message message)
     (\<lambda>_. progress b 0 {ReadyPhase} T) (progress b 0 {ReadyPhase} T)"
proof -
  let ?P = "progress b 0 {ReadyPhase} T"
  have "triple ?P (if stop then ret () else then_step (integrate env m) (publish env InputCommitted)) (\<lambda>_. ?P) ?P" for m stop
    by (auto intro: triple_ret triple_then [OF triple_integrate triple_publish])
  then have "triple ?P (if mi_type m \<noteq> UserInput \<or> mi_invokes m \<noteq> None \<or> mi_invoke_return m \<noteq> None then
          throw (Exn (InvalidArgument ''input hook produced an invalid user message''))
        else bind_step (stop_requested env) (\<lambda>stop.
          if stop then ret () else then_step (integrate env m) (publish env InputCommitted))) (\<lambda>_. ?P) ?P" for m
    by (auto intro: triple_throw triple_bind [OF triple_stop])
  then show ?thesis
    unfolding accept_input_def
    by (intro triple_then [OF triple_publish]) (auto intro: triple_ret triple_bind [OF triple_call])
qed

end

lemma tripleD:
  assumes "triple A m B E" "A (cf_state c) (cf_result c)" "m c = (q, c')"
  shows "case q of Inl e \<Rightarrow> E (cf_state c') (cf_result c') | Inr x \<Rightarrow> B x (cf_state c') (cf_result c')"
  using assms unfolding triple_def by (auto dest!: spec [of _ c] split: sum.splits)

text \<open>Where a run starts, and whether it gets past recovery and validation.\<close>

definition initial_cfg :: "'j agent_input_state \<Rightarrow> 'w \<Rightarrow> ('w, 'j) run_cfg" where
  "initial_cfg state w = \<lparr>cf_world = w, cf_state = state, cf_result = default_run_result, cf_admitted = False\<rparr>"

definition admitted ::
  "('w, 'j) loop_env \<Rightarrow> 'j agent_input_state \<Rightarrow> bool \<Rightarrow> 'j message_item \<Rightarrow> run_options \<Rightarrow> 'w \<Rightarrow> bool" where
  "admitted env state has_message message options w \<longleftrightarrow>
     fst (admission env has_message message options (initial_cfg state w)) = Inr True"

lemma run_admitted_cases:
  assumes "run J env state has_message message options fuel w = Some (outcome, s', w')"
    and "admitted env state has_message message options w"
  obtains c q c1 q' c3 where
    "admission env has_message message options (initial_cfg state w) = (Inr True, c)"
    "run_body J env has_message message options fuel c = Some (q, c1)"
    "finalize J env (case q of Inl e \<Rightarrow> record_failure e c1 | Inr _ \<Rightarrow> c1) = (q', c3)"
    "outcome = (case q' of Inl e \<Rightarrow> Inl e | Inr _ \<Rightarrow> Inr (cf_result c3))" "s' = cf_state c3" "w' = cf_world c3"
proof -
  obtain c where c: "admission env has_message message options (initial_cfg state w) = (Inr True, c)"
    using assms(2) by (cases "admission env has_message message options (initial_cfg state w)") (auto simp: admitted_def)
  obtain q c1 where b: "run_body J env has_message message options fuel c = Some (q, c1)"
    using assms(1) c unfolding run_def Let_def initial_cfg_def [symmetric] by (auto split: option.splits)
  obtain q' c3 where f: "finalize J env (case q of Inl e \<Rightarrow> record_failure e c1 | Inr _ \<Rightarrow> c1) = (q', c3)" by fastforce
  have "outcome = (case q' of Inl e \<Rightarrow> Inl e | Inr _ \<Rightarrow> Inr (cf_result c3)) \<and> s' = cf_state c3 \<and> w' = cf_world c3"
    using assms(1) c b f unfolding run_def Let_def initial_cfg_def [symmetric] by (cases q') auto
  then show thesis using that c b f by blast
qed

text \<open>The three ways an admitted run ends: deliberately, at the exchange cap, or failed.\<close>

definition terminal_case :: "run_options \<Rightarrow> nat \<Rightarrow> loop_phase set \<Rightarrow> run_status set \<Rightarrow> bool" where
  "terminal_case options n X T \<longleftrightarrow>
     (\<forall>m. op_max_exchanges options = Some m \<longrightarrow> n \<le> m) \<and>
     (X = {ReadyPhase} \<and> T = insert RunFailed deliberate \<or>
      X = {ReadyPhase} \<and> T = {RunFailed, RunExchangeLimit} \<and> op_max_exchanges options = Some n \<or>
      X = {ReadyPhase, ProjectionPhase, BlockedPhase} \<and> T = {RunFailed})"

context model_adapter
begin

lemma run_body_progress:
  assumes "before_run b (cf_state c) (cf_result c)"
    and "op_max_exchanges options \<noteq> Some 0"
    and "run_body J env has_message message options fuel c = Some (q, c')"
  shows "\<exists>N. (\<forall>m. op_max_exchanges options = Some m \<longrightarrow> N \<le> m) \<and>
    (case q of
       Inl e \<Rightarrow> within b N (cf_state c') (cf_result c')
     | Inr _ \<Rightarrow> ended b N (cf_state c') (cf_result c') \<or>
         op_max_exchanges options = Some N \<and> progress b N {ReadyPhase} {RunExchangeLimit} (cf_state c') (cf_result c'))"
proof -
  let ?R = "progress b 0 {ReadyPhase}"
  have "triple (before_run b) admit (\<lambda>_. ?R UNIV) (within b 0)"
    unfolding triple_def admit_def
    by (auto simp: before_run_def sequence_of_def progress_def fresh_progress_def default_progress_def split: option.splits)
  moreover have "triple (?R UNIV) (accept_input env has_message message) (\<lambda>_. ?R UNIV) (within b 0)"
    by (rule triple_weaken [OF triple_accept_input]) (auto intro: progress_within)
  moreover have "triple (?R UNIV) (set_status RunExchangeLimit) (\<lambda>_. ?R {RunExchangeLimit}) (within b 0)"
    by (rule triple_set_status) (auto intro: progress_status)
  ultimately have pre: "triple (before_run b) (then_step admit (then_step (accept_input env has_message message) (set_status RunExchangeLimit)))
      (\<lambda>_. ?R {RunExchangeLimit}) (within b 0)"
    by (intro triple_then)
  obtain x c1 where x: "then_step admit (then_step (accept_input env has_message message) (set_status RunExchangeLimit)) c = (x, c1)"
    by fastforce
  note * = tripleD [OF pre assms(1) x]
  show ?thesis
  proof (cases x)
    case (Inl e)
    then show ?thesis using * assms(3) x by (auto simp: run_body_def intro!: exI [of _ 0])
  next
    case (Inr u)
    then have "exchange_loop J env options 0 fuel c1 = Some (q, c')" using assms(3) x by (simp add: run_body_def)
    then show ?thesis using * Inr by (intro exchange_loop_progress) auto
  qed
qed

lemma run_body_terminal:
  assumes "before_run b (cf_state c) (cf_result c)"
    and "op_max_exchanges options \<noteq> Some 0"
    and body: "run_body J env has_message message options fuel c = Some (q, c1)"
    and c2: "c2 = (case q of Inl e \<Rightarrow> record_failure e c1 | Inr _ \<Rightarrow> c1)"
  shows "\<exists>n X Y T. progress b n X T (cf_state c2) (cf_result c2) \<and> (\<forall>ph\<in>X. settled_phase ph \<in> Y) \<and>
    terminal_case options n Y (insert RunFailed T)"
proof -
  obtain N where N: "\<forall>m. op_max_exchanges options = Some m \<longrightarrow> N \<le> m"
    and q: "case q of
       Inl e \<Rightarrow> within b N (cf_state c1) (cf_result c1)
     | Inr _ \<Rightarrow> ended b N (cf_state c1) (cf_result c1) \<or>
         op_max_exchanges options = Some N \<and> progress b N {ReadyPhase} {RunExchangeLimit} (cf_state c1) (cf_result c1)"
    using run_body_progress [OF assms(1-3)] by blast
  have cap: "n \<le> N \<Longrightarrow> \<forall>m. op_max_exchanges options = Some m \<longrightarrow> n \<le> m" for n
    using N le_trans by blast
  show ?thesis
  proof (cases q)
    case (Inl e)
    then obtain n where n: "n \<le> N" "progress b n (- {BlockedPhase}) UNIV (cf_state c1) (cf_result c1)"
      using q by (auto simp: within_def)
    have "progress b n (- {BlockedPhase}) {RunFailed} (cf_state c2) (cf_result c2)"
      using n(2) Inl c2 by (auto simp: record_failure_def progress_def)
    moreover have "\<forall>ph\<in>- {BlockedPhase}. settled_phase ph \<in> {ReadyPhase, ProjectionPhase, BlockedPhase}"
      by (auto simp: settled_phase_def split: loop_phase.splits)
    moreover have "terminal_case options n {ReadyPhase, ProjectionPhase, BlockedPhase} (insert RunFailed {RunFailed})"
      unfolding terminal_case_def using cap [OF n(1)] by auto
    ultimately show ?thesis by blast
  next
    case (Inr u)
    have ready: "\<forall>ph\<in>{ReadyPhase}. settled_phase ph \<in> {ReadyPhase}" by (simp add: settled_phase_def)
    have "ended b N (cf_state c2) (cf_result c2) \<or>
         op_max_exchanges options = Some N \<and> progress b N {ReadyPhase} {RunExchangeLimit} (cf_state c2) (cf_result c2)"
      using q c2 Inr by simp
    then show ?thesis
    proof (elim disjE conjE)
      assume "ended b N (cf_state c2) (cf_result c2)"
      then obtain n where n: "n \<le> N" "progress b n {ReadyPhase} deliberate (cf_state c2) (cf_result c2)"
        by (auto simp: ended_def)
      have "terminal_case options n {ReadyPhase} (insert RunFailed deliberate)"
        unfolding terminal_case_def using cap [OF n(1)] by auto
      then show ?thesis using n(2) ready by blast
    next
      assume l: "op_max_exchanges options = Some N" "progress b N {ReadyPhase} {RunExchangeLimit} (cf_state c2) (cf_result c2)"
      have "terminal_case options N {ReadyPhase} (insert RunFailed {RunExchangeLimit})"
        unfolding terminal_case_def using l(1) by auto
      then show ?thesis using l(2) ready by blast
    qed
  qed
qed

text \<open>The state an admitted run leaves, whatever the environment did.\<close>

lemma run_settled:
  assumes run: "run J env state has_message message options fuel w = Some (outcome, s', w')"
    and adm: "admitted env state has_message message options w"
  shows "\<exists>n X T r. settled (sequence_of state) n X T s' r \<and> terminal_case options n X T \<and>
    (\<forall>r'. outcome = Inr r' \<longrightarrow> r' = r)"
proof -
  let ?b = "sequence_of state"
  obtain c q c1 q' c3 where r:
    "admission env has_message message options (initial_cfg state w) = (Inr True, c)"
    "run_body J env has_message message options fuel c = Some (q, c1)"
    "finalize J env (case q of Inl e \<Rightarrow> record_failure e c1 | Inr _ \<Rightarrow> c1) = (q', c3)"
    "outcome = (case q' of Inl e \<Rightarrow> Inl e | Inr _ \<Rightarrow> Inr (cf_result c3))" "s' = cf_state c3"
    using run_admitted_cases [OF run adm] by metis
  have "before_run ?b (cf_state (initial_cfg state w)) (cf_result (initial_cfg state w))"
    by (simp add: before_run_def initial_cfg_def default_run_result_def)
  from tripleD [OF triple_admission this r(1)]
  have before: "before_run ?b (cf_state c) (cf_result c)" by simp
  have "op_max_exchanges options \<noteq> Some 0"
    using r(1) by (auto simp: admission_def bind_step_def get_state_def check_request_def throw_def)
  from run_body_terminal [OF before this r(2) refl]
  obtain n X Y T where t: "progress ?b n X T (cf_state (case q of Inl e \<Rightarrow> record_failure e c1 | Inr _ \<Rightarrow> c1))
      (cf_result (case q of Inl e \<Rightarrow> record_failure e c1 | Inr _ \<Rightarrow> c1))"
    "\<forall>ph\<in>X. settled_phase ph \<in> Y" "terminal_case options n Y (insert RunFailed T)" by blast
  have "settled ?b n Y (insert RunFailed T) s' (cf_result c3)"
    using tripleD [OF triple_finalize t(1) r(3), of Y] t(2) r(5) by (simp split: sum.splits)
  then show ?thesis using t(3) r(4) by (auto split: sum.splits)
qed

end

section \<open>What a run guarantees\<close>

lemma exchange_loop_ends:
  assumes "op_max_exchanges options = Some m" "step \<le> m" "m < step + fuel"
  shows "\<exists>out. exchange_loop J env options step fuel c = Some out"
  using assms(2,3)
proof (induction fuel arbitrary: step c)
  case 0
  then show ?case by simp
next
  case (Suc fuel)
  show ?case using Suc.IH [of "Suc step"] Suc.prems assms(1)
    by (auto split: prod.split sum.split control.split)
qed

text \<open>Independence of the tool registry, one operation at a time.\<close>

abbreviation with_execute where
  "with_execute f env \<equiv> env\<lparr>le_execute := f\<rparr>"

lemma with_execute_fields:
  "le_integrate (with_execute f env) = le_integrate env"
  "le_converse (with_execute f env) = le_converse env"
  "le_publish (with_execute f env) = le_publish env"
  "le_before_input (with_execute f env) = le_before_input env"
  "le_before_model (with_execute f env) = le_before_model env"
  "le_subscribers (with_execute f env) = le_subscribers env"
  "le_edit (with_execute f env) = le_edit env"
  "le_checkpoint (with_execute f env) = le_checkpoint env"
  "le_stop (with_execute f env) = le_stop env"
  by simp_all

lemma with_execute_primitives:
  "stop_requested (with_execute f env) = stop_requested env"
  "publish (with_execute f env) = publish env"
  "await_checkpoint (with_execute f env) = await_checkpoint env"
  "integrate (with_execute f env) = integrate env"
  "integrate_response (with_execute f env) = integrate_response env"
  "edit_state J (with_execute f env) = edit_state J env"
  unfolding fun_eq_iff stop_requested_def publish_def await_checkpoint_def integrate_def
    integrate_response_def edit_state_def with_execute_fields by simp_all

lemma with_execute_integrate_all: "integrate_all (with_execute f env) records draft = integrate_all env records draft"
proof (induction records arbitrary: draft)
  case (Cons r records)
  then have "integrate_all (with_execute f env) records = integrate_all env records" by blast
  then show ?case by simp
qed simp

lemma with_execute_steps:
  "project (with_execute f env) = project env"
  "request (with_execute f env) = request env"
  "commit_response (with_execute f env) = commit_response env"
  "notify_response (with_execute f env) = notify_response env"
  "accept_input (with_execute f env) = accept_input env"
  "finish_edits J (with_execute f env) = finish_edits J env"
  "notify_finished (with_execute f env) = notify_finished env"
  unfolding fun_eq_iff project_def request_def converse_interruptibly_def commit_response_def notify_response_def
    accept_input_def finish_edits_def notify_finished_def with_execute_primitives with_execute_integrate_all with_execute_fields
  by simp_all

lemma with_execute_admission: "admission (with_execute f env) = admission env"
  unfolding fun_eq_iff admission_def recover_def with_execute_primitives with_execute_steps by simp

lemma with_execute_finalize: "finalize J (with_execute f env) = finalize J env"
  by (simp add: finalize_def with_execute_primitives with_execute_steps)

lemmas with_execute_simps =
  with_execute_primitives with_execute_steps with_execute_admission with_execute_finalize

lemma then_step_cong: "(\<And>x c'. m c = (Inr x, c') \<Longrightarrow> k c' = k' c') \<Longrightarrow> then_step m k c = then_step m k' c"
  by (auto simp: then_step_def bind_step_def split: prod.split sum.split)

lemma tool_batch_undispatched:
  fixes env :: "('w, 'j) loop_env"
  assumes "\<And>s w. \<exists>e. fst (le_publish env (ToolDispatchCheckpoint s) w) = Inl e"
  shows "tool_batch J (with_execute f env) calls err = tool_batch J env calls err"
proof -
  have stuck: "then_step (publish env ToolDispatchCheckpoint) k c = then_step (publish env ToolDispatchCheckpoint) k' c"
    for k k' :: "('w, 'j, unit) step" and c
  proof (rule then_step_cong)
    fix x c' assume "publish env ToolDispatchCheckpoint c = (Inr x, c')"
    then show "k c' = k' c'"
      using assms [of "cf_state c" "cf_world c"]
      by (auto simp: publish_def bind_step_def get_state_def call_def split: prod.splits)
  qed
  show ?thesis
    unfolding tool_batch_def with_execute_simps
    by (rule ext, rule then_step_cong, rule stuck)
qed

text \<open>A scripted environment: the model first calls a tool, then answers; the world counts its requests.\<close>

definition scripted_call :: "json invoke_query" where
  "scripted_call = (default_query json_values)\<lparr>iq_id := ''c1'', iq_name := ''read''\<rparr>"

definition scripted_env :: "(nat, json) loop_env" where
  "scripted_env =
     \<lparr>le_integrate = generic_integrate,
      le_converse = (\<lambda>s w. (Inr (default_message\<lparr>mi_type := ModelResponse,
         mi_invokes := (if w = 0 then Some [scripted_call] else None)\<rparr>), Suc w)),
      le_execute = (\<lambda>calls w. (Inr (map (\<lambda>c. (default_return json_values)\<lparr>ir_query := c\<rparr>) calls), w)),
      le_publish = (\<lambda>ev w. (Inr (), w)),
      le_before_input = (\<lambda>m w. (Inr m, w)),
      le_before_model = (\<lambda>s context w. (Inr context, w)),
      le_subscribers = (\<lambda>point w. 0),
      le_edit = (\<lambda>point s w. (Inr (), s, w)),
      le_checkpoint = None,
      le_stop = (\<lambda>w. (False, w))\<rparr>"

definition scripted_options :: run_options where
  "scripted_options = \<lparr>op_max_exchanges = Some 3, op_auto_compact_threshold = 0\<rparr>"

definition scripted_input :: "json message_item" where
  "scripted_input = default_message\<lparr>mi_type := UserInput\<rparr>"

lemma scripted_generic: "scripted_env\<lparr>le_integrate := generic_integrate\<rparr> = scripted_env"
  by (simp add: scripted_env_def)

lemma scripted_admitted: "admitted scripted_env default_state True scripted_input scripted_options 0"
  by code_simp

lemma run_body_ends:
  assumes "op_max_exchanges options = Some m" "m < fuel"
  shows "\<exists>out. run_body J env has_message message options fuel c = Some out"
  unfolding run_body_def using exchange_loop_ends [OF assms(1), of 0 fuel J env] assms(2)
  by (auto split: prod.split sum.split)

lemma run_ends:
  assumes "op_max_exchanges options = Some m" "m < fuel"
  shows "run J env state has_message message options fuel w \<noteq> None"
proof -
  obtain x c where x: "admission env has_message message options (initial_cfg state w) = (x, c)" by fastforce
  obtain q c1 where b: "run_body J env has_message message options fuel c = Some (q, c1)"
    using run_body_ends [OF assms, of J env has_message message c] by auto
  obtain q' c3 where f: "finalize J env (case q of Inl e \<Rightarrow> record_failure e c1 | Inr _ \<Rightarrow> c1) = (q', c3)" by fastforce
  note unfolded = run_def Let_def initial_cfg_def [symmetric] x prod.case
  show ?thesis
  proof (cases x)
    case (Inl e) show ?thesis unfolding unfolded Inl by (cases e) simp_all
  next
    case (Inr go) show ?thesis unfolding unfolded Inr by (cases go; cases q') (simp_all add: b f)
  qed
qed

lemma scripted_run: "\<exists>outcome s' w'. run json_values scripted_env default_state True scripted_input scripted_options 4 0 = Some (outcome, s', w')"
  using run_ends [of scripted_options 3 4 json_values scripted_env default_state True scripted_input 0]
  by (auto simp: scripted_options_def)

text \<open>
  C1. Every admitted run settles. Whatever the model, the tools, the observers and the stop token
  do, the state it leaves (returned or thrown) has a terminal status, is ready, holds buffered
  results awaiting projection, or is blocked for inspection; results are buffered only for
  projection; a run that did not fail is ready for the next one; and a returned result agrees with
  the persisted record.
\<close>

theorem run_settles:
  assumes "run J (env\<lparr>le_integrate := generic_integrate\<rparr>) state has_message message options fuel w =
      Some (outcome, s', w')"
    and "admitted (env\<lparr>le_integrate := generic_integrate\<rparr>) state has_message message options w"
  shows "\<exists>p. st_loop s' = Some p \<and> lp_phase p \<in> {ReadyPhase, ProjectionPhase, BlockedPhase} \<and>
    (lp_phase p \<noteq> ProjectionPhase \<longrightarrow> lp_pending_results p = []) \<and>
    lp_status p \<notin> {LoopIdle, LoopRunning} \<and>
    (lp_status p \<noteq> LoopFailed \<longrightarrow> lp_phase p = ReadyPhase) \<and>
    (\<forall>r. outcome = Inr r \<longrightarrow> lp_status p = progress_status (rn_status r) \<and> lp_error p = rn_error r \<and>
       lp_completed_exchanges p = rn_completed_exchanges r)"
proof -
  obtain n X T r where s: "settled (sequence_of state) n X T s' r" "terminal_case options n X T"
    "\<forall>r'. outcome = Inr r' \<longrightarrow> r' = r"
    using generic_adapter.run_settled [OF assms] by blast
  obtain p where p: "st_loop s' = Some p" "lp_phase p \<in> X" "lp_phase p \<noteq> ProjectionPhase \<longrightarrow> lp_pending_results p = []"
    "lp_completed_exchanges p = rn_completed_exchanges r" "rn_status r \<in> T"
    "lp_status p = progress_status (rn_status r)" "lp_error p = rn_error r"
    using s(1) by (auto simp: settled_def progress_def reported_def)
  have "X \<subseteq> {ReadyPhase, ProjectionPhase, BlockedPhase}" "T = {RunFailed} \<or> X = {ReadyPhase}"
    using s(2) by (auto simp: terminal_case_def)
  then have phase: "lp_phase p \<in> {ReadyPhase, ProjectionPhase, BlockedPhase}" "rn_status r \<noteq> RunFailed \<Longrightarrow> lp_phase p = ReadyPhase"
    using p(2,5) by auto
  have status: "progress_status st \<notin> {LoopIdle, LoopRunning}" "progress_status st \<noteq> LoopFailed \<Longrightarrow> st \<noteq> RunFailed" for st
    by (cases st; simp)+
  show ?thesis
    using p(1,3) phase status [of "rn_status r"] p(4,6,7) s(3) by (intro exI [of _ p]) simp
qed

theorem run_settles_witness:
  "\<exists>outcome s' w' p. run json_values scripted_env default_state True scripted_input scripted_options 4 0 =
       Some (outcome, s', w') \<and> st_loop s' = Some p \<and> lp_phase p \<in> {ReadyPhase, ProjectionPhase, BlockedPhase}"
proof -
  obtain outcome s' w' where r: "run json_values scripted_env default_state True scripted_input scripted_options 4 0 =
      Some (outcome, s', w')"
    using scripted_run by blast
  with run_settles [where env = scripted_env, unfolded scripted_generic, OF r scripted_admitted] show ?thesis by blast
qed

text \<open>
  C2. Commit accounting. After an admitted run the committed-response sequence has grown by exactly
  the exchanges the run completed; these never exceed the cap, and the exchange-limit status means
  that the cap was reached exactly.
\<close>

theorem run_accounts:
  assumes "run J (env\<lparr>le_integrate := generic_integrate\<rparr>) state has_message message options fuel w =
      Some (outcome, s', w')"
    and "admitted (env\<lparr>le_integrate := generic_integrate\<rparr>) state has_message message options w"
  shows "\<exists>p. st_loop s' = Some p \<and>
    lp_committed_response_sequence p = sequence_of state + lp_completed_exchanges p \<and>
    (\<forall>m. op_max_exchanges options = Some m \<longrightarrow> lp_completed_exchanges p \<le> m) \<and>
    (lp_status p = LoopExchangeLimit \<longrightarrow> op_max_exchanges options = Some (lp_completed_exchanges p))"
proof -
  obtain n X T r where s: "settled (sequence_of state) n X T s' r" "terminal_case options n X T"
    using generic_adapter.run_settled [OF assms] by blast
  then show ?thesis
    by (auto simp: settled_def progress_def reported_def terminal_case_def)
qed

theorem run_accounts_witness:
  "\<exists>outcome s' w' p. run json_values scripted_env default_state True scripted_input scripted_options 4 0 =
       Some (outcome, s', w') \<and> st_loop s' = Some p \<and>
     lp_committed_response_sequence p = lp_completed_exchanges p \<and> lp_completed_exchanges p \<le> 3"
proof -
  obtain outcome s' w' where r: "run json_values scripted_env default_state True scripted_input scripted_options 4 0 =
      Some (outcome, s', w')"
    using scripted_run by blast
  with run_accounts [where env = scripted_env, unfolded scripted_generic, OF r scripted_admitted] show ?thesis
    by (auto simp: sequence_of_def default_state_def scripted_options_def)
qed

text \<open>
  C6. A capped run ends: with any environment whose own calls return, fuel for the cap and one more
  test is enough, so the loop always produces a result or an exception.
\<close>

theorem run_terminates:
  assumes "op_max_exchanges options = Some m" "m < fuel"
  shows "\<exists>outcome s' w'. run J env state has_message message options fuel w = Some (outcome, s', w')"
  using run_ends [OF assms, of J env state has_message message w] by auto

theorem run_terminates_witness:
  "\<exists>outcome s' w'. run json_values scripted_env default_state True scripted_input scripted_options 4 0 =
     Some (outcome, s', w')"
  by (rule run_terminates [where m = 3]) (simp_all add: scripted_options_def)

text \<open>
  C4. A tool batch of unknown outcome is never retried: a well-formed request against a state whose
  last run stopped in tool execution, or was blocked, is refused with \<^verbatim>\<open>RecoveryRequired\<close>; nothing
  is called and nothing changes.
\<close>

theorem recovery_required:
  assumes "st_loop state = Some p" "lp_phase p = ToolsPhase \<or> lp_phase p = BlockedPhase"
    and "op_max_exchanges options \<noteq> Some 0"
    and "has_message \<Longrightarrow> mi_type message = UserInput \<and> mi_invokes message = None \<and> mi_invoke_return message = None"
    and "\<not> has_message \<Longrightarrow> st_turns state \<noteq> []"
  shows "run J env state has_message message options fuel w =
    Some (Inl (RecoveryRequired (lp_phase p) ''previous tool execution requires host inspection''), state, w)"
proof -
  have "check_request has_message message options state =
      Some (RecoveryRequired (lp_phase p) ''previous tool execution requires host inspection'')"
    using assms by (auto simp: check_request_def)
  then have "admission env has_message message options (initial_cfg state w) =
      (Inl (RecoveryRequired (lp_phase p) ''previous tool execution requires host inspection''), initial_cfg state w)"
    by (simp add: admission_def bind_step_def get_state_def throw_def initial_cfg_def)
  then show ?thesis unfolding run_def Let_def initial_cfg_def [symmetric] by (simp add: initial_cfg_def)
qed

theorem recovery_required_witness:
  "run json_values scripted_env (default_state\<lparr>st_loop := Some (default_progress\<lparr>lp_phase := BlockedPhase\<rparr>)\<rparr>) True
     scripted_input scripted_options 4 0 =
   Some (Inl (RecoveryRequired BlockedPhase ''previous tool execution requires host inspection''),
     default_state\<lparr>st_loop := Some (default_progress\<lparr>lp_phase := BlockedPhase\<rparr>)\<rparr>, 0)"
  using recovery_required [of "default_state\<lparr>st_loop := Some (default_progress\<lparr>lp_phase := BlockedPhase\<rparr>)\<rparr>"
      "default_progress\<lparr>lp_phase := BlockedPhase\<rparr>" scripted_options True scripted_input json_values scripted_env 4 0]
  by (simp add: scripted_options_def scripted_input_def default_message_def)

text \<open>Runs that cannot publish the dispatch checkpoint, step by step.\<close>

lemma after_response_undispatched:
  assumes "\<And>s w. \<exists>e. fst (le_publish env (ToolDispatchCheckpoint s) w) = Inl e"
  shows "after_response J (with_execute f env) options m = after_response J env options m"
  unfolding after_response_def with_execute_simps tool_batch_undispatched [OF assms] by (rule refl)

lemma exchange_undispatched:
  assumes "\<And>s w. \<exists>e. fst (le_publish env (ToolDispatchCheckpoint s) w) = Inl e"
  shows "exchange J (with_execute f env) options = exchange J env options"
  unfolding exchange_def with_execute_simps with_execute_fields after_response_undispatched [OF assms] by (rule refl)

lemma exchange_loop_undispatched:
  assumes "\<And>s w. \<exists>e. fst (le_publish env (ToolDispatchCheckpoint s) w) = Inl e"
  shows "exchange_loop J (with_execute f env) options step fuel c = exchange_loop J env options step fuel c"
  by (induction fuel arbitrary: step c)
     (simp_all add: exchange_undispatched [OF assms] split: prod.split sum.split control.split)

text \<open>
  C3. Tools run only after the dispatch checkpoint: where publishing \<^verbatim>\<open>ToolDispatchCheckpoint\<close> (the
  subscriber that makes the batch durable) always throws, the whole run is the same for every tool
  registry, so no tool was invoked.
\<close>

theorem no_tool_before_dispatch:
  assumes "\<And>s w. \<exists>e. fst (le_publish env (ToolDispatchCheckpoint s) w) = Inl e"
  shows "run J (env\<lparr>le_execute := f\<rparr>) state has_message message options fuel w =
    run J env state has_message message options fuel w"
  unfolding run_def run_body_def with_execute_simps exchange_loop_undispatched [OF assms] by (rule refl)

definition undurable_env :: "(nat, json) loop_env" where
  "undurable_env = scripted_env\<lparr>le_publish := (\<lambda>ev w. (case ev of
     ToolDispatchCheckpoint s \<Rightarrow> Inl (Exn (RuntimeError ''disk full'')) | _ \<Rightarrow> Inr (), w))\<rparr>"

theorem no_tool_before_dispatch_witness:
  "run json_values (undurable_env\<lparr>le_execute := \<lambda>calls w. (Inr [], w + 100)\<rparr>) default_state True scripted_input
     scripted_options 4 0 =
   run json_values undurable_env default_state True scripted_input scripted_options 4 0"
  by (rule no_tool_before_dispatch) (simp add: undurable_env_def)

lemma tool_batch_hook_error:
  assumes "err \<noteq> []"
  shows "tool_batch J (with_execute f env) calls err = tool_batch J env calls err"
    "\<exists>e c'. tool_batch J env calls err c = (Inl e, c')"
proof -
  show "tool_batch J (with_execute f env) calls err = tool_batch J env calls err"
    unfolding tool_batch_def with_execute_simps using assms by simp
  have throws: "\<exists>e c'. then_step m k c = (Inl e, c')" if "\<And>c. \<exists>e c'. k c = (Inl e, c')" for m k c
    using that by (auto simp: then_step_def bind_step_def split: prod.split sum.split)
  have throws': "\<exists>e c'. bind_step m k c = (Inl e, c')" if "\<And>x c. \<exists>e c'. k x c = (Inl e, c')" for m k c
    using that by (auto simp: bind_step_def split: prod.split sum.split)
  have now: "\<exists>e c'. then_step (if err \<noteq> [] then throw (Exn (RuntimeError err)) else ret ()) k c = (Inl e, c')" for k c
    using assms by (simp add: then_step_def bind_step_def throw_def)
  show "\<exists>e c'. tool_batch J env calls err c = (Inl e, c')"
    unfolding tool_batch_def by (intro throws throws' now)
qed

text \<open>
  A failed observer of a committed response suppresses its tools: when notification caught a
  diagnostic, the rest of the exchange is the same for every tool registry and ends in an exception.
\<close>

theorem failed_hook_skips_tools:
  assumes "commit_response env m c = (Inr (), c1)" "notify_response env m c1 = (Inr err, c2)" "err \<noteq> []"
  shows "after_response J (env\<lparr>le_execute := f\<rparr>) options m c = after_response J env options m c \<and>
    (\<exists>e c'. after_response J env options m c = (Inl e, c'))"
proof -
  note run = then_step_def [of "commit_response env m"] bind_step_def [of "commit_response env m"]
    bind_step_def [of "notify_response env m"]
  have "after_response J (with_execute f env) options m c = after_response J env options m c"
    using assms tool_batch_hook_error(1) [OF assms(3), of J f env]
    by (simp add: after_response_def with_execute_simps run)
  moreover obtain e c' where "tool_batch J env (calls_of m) err c2 = (Inl e, c')"
    using tool_batch_hook_error(2) [OF assms(3)] by blast
  then have "\<exists>e c'. after_response J env options m c = (Inl e, c')"
    using assms by (simp add: after_response_def run) (simp add: then_step_def bind_step_def throw_def)
  ultimately show ?thesis by blast
qed

definition failing_hook_env :: "(nat, json) loop_env" where
  "failing_hook_env = scripted_env\<lparr>le_publish := (\<lambda>ev w. (case ev of
     ModelCommitted s \<Rightarrow> Inl (Exn (RuntimeError ''veto'')) | _ \<Rightarrow> Inr (), w))\<rparr>"

definition committing_cfg :: "(nat, json) run_cfg" where
  "committing_cfg = initial_cfg (default_state\<lparr>st_loop := Some default_progress\<rparr>) 0"

definition calling_message :: "json message_item" where
  "calling_message = default_message\<lparr>mi_type := ModelResponse, mi_invokes := Some [scripted_call]\<rparr>"

lemma failing_hook_commit:
  "\<exists>c1. commit_response failing_hook_env calling_message committing_cfg = (Inr (), c1) \<and>
     notify_response failing_hook_env calling_message c1 = (Inr ''veto'', c1)"
  by (simp add: commit_response_def calling_message_def default_message_def validate_calls_def scripted_call_def
      default_query_def require_def then_step_def bind_step_def ret_def integrate_response_def get_state_def
      committing_cfg_def initial_cfg_def default_progress_def size_max_def call_def failing_hook_env_def scripted_env_def
      generic_integrate_def llm_integrate_def update_back_def default_state_def put_state_def Let_def set_phase_def
      modify_loop_def modify_result_def get_result_def notify_response_def catch_step_def publish_def)

theorem failed_hook_skips_tools_witness:
  "\<exists>e c'. after_response json_values failing_hook_env scripted_options calling_message committing_cfg = (Inl e, c')"
proof -
  obtain c1 where "commit_response failing_hook_env calling_message committing_cfg = (Inr (), c1)"
    "notify_response failing_hook_env calling_message c1 = (Inr ''veto'', c1)"
    using failing_hook_commit by blast
  from failed_hook_skips_tools [OF this, of json_values "le_execute scripted_env" scripted_options] show ?thesis by simp
qed









lemma integrate_all_generic:
  "integrate_all (env\<lparr>le_integrate := generic_integrate\<rparr>) records draft c =
     (Inr (foldl llm_integrate draft (map result_item records)), c)"
  by (induction records arbitrary: draft) (simp_all add: ret_def bind_step_def call_def generic_integrate_def)

text \<open>The returns of a step, and the history with further results in its last step.\<close>

definition returns_of :: "'j agent_loop_step \<Rightarrow> 'j message_item list" where
  "returns_of step = (case as_invoke_returns step of None \<Rightarrow> [] | Some rs \<Rightarrow> rs)"

lemma integrate_return_item:
  assumes "st_turns s = ts @ [turn]" "us_agent_loop_step turn = ss @ [step]"
  shows "llm_integrate s (result_item r) = s\<lparr>st_turns := ts @ [turn\<lparr>us_agent_loop_step :=
    ss @ [step\<lparr>as_invoke_returns := Some (returns_of step @ [result_item r])\<rparr>]\<rparr>]\<rparr>"
  using assms by (simp add: llm_integrate_def result_item_def default_message_def update_back_def returns_of_def Let_def)

lemma integrate_results:
  assumes "records \<noteq> []" "st_turns s = ts @ [turn]" "us_agent_loop_step turn = ss @ [step]"
  shows "foldl llm_integrate s (map result_item records) = s\<lparr>st_turns := ts @ [turn\<lparr>us_agent_loop_step :=
    ss @ [step\<lparr>as_invoke_returns := Some (returns_of step @ map result_item records)\<rparr>]\<rparr>]\<rparr>"
  using assms
proof (induction records arbitrary: s turn step)
  case (Cons r records)
  let ?step = "step\<lparr>as_invoke_returns := Some (returns_of step @ [result_item r])\<rparr>"
  let ?turn = "turn\<lparr>us_agent_loop_step := ss @ [?step]\<rparr>"
  let ?s = "s\<lparr>st_turns := ts @ [?turn]\<rparr>"
  show ?case
  proof (cases "records = []")
    case True then show ?thesis using integrate_return_item [OF Cons.prems(2,3)] by simp
  next
    case False
    from Cons.IH [OF this, of ?s ?turn ?step] show ?thesis
      using integrate_return_item [OF Cons.prems(2,3)] by (simp add: returns_of_def)
  qed
qed simp

text \<open>
  Projection moves the buffered results into the conversation, all of them or none: on success
  the last step ends with the tool messages of exactly those results, in order, the buffer is empty,
  the phase is ready and nothing else changed; on failure the whole configuration is unchanged.
\<close>

theorem project_exact:
  assumes "st_loop (cf_state c) = Some p" "lp_pending_results p \<noteq> []"
    and "st_turns (cf_state c) = ts @ [turn]" "us_agent_loop_step turn = ss @ [step]"
    and "project (env\<lparr>le_integrate := generic_integrate\<rparr>) c = (q, c')"
  shows "case q of
     Inl e \<Rightarrow> c' = c
   | Inr _ \<Rightarrow> c' = c\<lparr>cf_state := (cf_state c)\<lparr>
       st_loop := Some (p\<lparr>lp_pending_results := [], lp_phase := ReadyPhase\<rparr>),
       st_turns := ts @ [turn\<lparr>us_agent_loop_step := ss @ [step\<lparr>as_invoke_returns :=
         Some (returns_of step @ map result_item (lp_pending_results p))\<rparr>]\<rparr>]\<rparr>\<rparr>"
proof -
  let ?draft = "(cf_state c)\<lparr>st_turns := ts @ [turn\<lparr>us_agent_loop_step := ss @ [step\<lparr>as_invoke_returns :=
         Some (returns_of step @ map result_item (lp_pending_results p))\<rparr>]\<rparr>]\<rparr>"
  have "project (env\<lparr>le_integrate := generic_integrate\<rparr>) c =
      then_step (require (validate_state_structure ?draft))
        (put_state (update_loop (\<lambda>p. p\<lparr>lp_pending_results := [], lp_phase := ReadyPhase\<rparr>) ?draft)) c"
    by (simp add: project_def bind_step_def get_state_def integrate_all_generic assms(1) integrate_results [OF assms(2-4)])
  with assms(5) show ?thesis
    by (cases "validate_state_structure ?draft")
       (auto simp: require_def throw_def ret_def then_step_def bind_step_def put_state_def update_loop_def assms(1))
qed

definition awaiting_projection :: "json agent_input_state" where
  "awaiting_projection = default_state\<lparr>
     st_loop := Some (default_progress\<lparr>lp_phase := ProjectionPhase,
       lp_pending_results := [(default_return json_values)\<lparr>ir_query := scripted_call\<rparr>]\<rparr>),
     st_turns := [default_user_step\<lparr>us_user_input := scripted_input,
       us_agent_loop_step := [default_agent_step\<lparr>as_model_response := calling_message\<rparr>]\<rparr>]\<rparr>"

theorem project_exact_witness:
  "\<exists>c'. project scripted_env (initial_cfg awaiting_projection 0) = (Inr (), c') \<and>
     map lp_pending_results (case st_loop (cf_state c') of None \<Rightarrow> [] | Some p \<Rightarrow> [p]) = [[]]"
proof -
  let ?c = "initial_cfg awaiting_projection 0"
  have ok: "fst (project scripted_env ?c) = Inr ()" by code_simp
  obtain c' where c': "project scripted_env ?c = (Inr (), c')"
    using ok by (cases "project scripted_env ?c") simp
  from project_exact [of ?c "the (st_loop awaiting_projection)" "[]" "hd (st_turns awaiting_projection)" "[]"
      "hd (us_agent_loop_step (hd (st_turns awaiting_projection)))" scripted_env, unfolded scripted_generic, OF _ _ _ _ c']
  show ?thesis using c'
    by (simp add: initial_cfg_def awaiting_projection_def)
qed

end
