(* ===== verification/Loop_Statistic.thy ===== *)
theory Loop_Statistic
  imports Loop_Run
begin

text \<open>
  The hook that accounts token usage (\<^verbatim>\<open>loop/intrinsic/hooks/context_statistic/src/hook.cpp\<close>). Its counters are a JSON object in
  the slot \<^verbatim>\<open>context_statistic\<close> of the session's external status, with the sequence number of the last response they
  include. The ledger of a session, the usage of each committed response, is the abstract state: the lemmas show that
  the counters are the sums, maxima and counts over the ledger up to the checkpoint.
\<close>

section \<open>Numbers\<close>

text \<open>
  What the JSON library offers for numbers: the value of an integer, the size of an object, the serialised text; and
  the two floating-point results, a quotient computed in \<^verbatim>\<open>long double\<close> and one computed in \<^verbatim>\<open>double\<close>, as JSON numbers.
\<close>

record 'j number_lib =
  nl_integer :: "'j \<Rightarrow> int option"
  nl_is_unsigned :: "'j \<Rightarrow> bool"
  nl_size :: "'j \<Rightarrow> nat"
  nl_dump :: "'j \<Rightarrow> string"
  nl_long_quotient :: "int \<Rightarrow> nat \<Rightarrow> 'j"
  nl_quotient :: "nat \<Rightarrow> nat \<Rightarrow> 'j"

definition add_checked :: "nat \<Rightarrow> nat \<Rightarrow> nat result" where
  "add_checked left right =
     (if right > size_max - left then Inl (OverflowError ''context statistic token count overflow'') else Inr (left + right))"

definition stat_count :: "'j json_lib \<Rightarrow> 'j number_lib \<Rightarrow> 'j \<Rightarrow> string \<Rightarrow> nat result" where
  "stat_count J N status key =
     read_at J status key (\<lambda>v.
       case nl_integer N v of
         None \<Rightarrow> Inl (LogicError (''context statistic has invalid field: '' @ key))
       | Some i \<Rightarrow>
           if i < 0 then Inl (LogicError (''context statistic has invalid field: '' @ key)) else Inr (nat i))"

definition uint :: "'j json_lib \<Rightarrow> nat \<Rightarrow> 'j" where
  "uint J n = js_number J (int n)"

definition remaining_ratio :: "'j number_lib \<Rightarrow> nat \<Rightarrow> nat \<Rightarrow> 'j" where
  "remaining_ratio N window total_tokens = nl_long_quotient N (int window - int total_tokens) window"

definition refresh_last_ratio :: "'j json_lib \<Rightarrow> 'j number_lib \<Rightarrow> 'j \<Rightarrow> nat \<Rightarrow> 'j result" where
  "refresh_last_ratio J N status window =
     (case js_find J status ''last_exchange_total_tokens'' of
        None \<Rightarrow> Inl (LogicError ''context statistic last exchange field is missing'')
      | Some v \<Rightarrow>
          if js_is_null J v then Inr (js_set J ''last_window_remaining_ratio'' (js_null J) status)
          else and_then (stat_count J N status ''last_exchange_total_tokens'') (\<lambda>n.
            Inr (js_set J ''last_window_remaining_ratio'' (remaining_ratio N window n) status)))"

definition clear_last :: "'j json_lib \<Rightarrow> 'j \<Rightarrow> 'j" where
  "clear_last J status =
     js_set J ''last_window_remaining_ratio'' (js_null J)
    (js_set J ''last_exchange_total_tokens'' (js_null J)
    (js_set J ''last_exchange_cache_hit_tokens'' (js_null J)
    (js_set J ''last_exchange_generated_tokens'' (js_null J)
    (js_set J ''last_exchange_prompt_tokens'' (js_null J) status))))"

definition empty_status :: "'j json_lib \<Rightarrow> nat \<Rightarrow> 'j" where
  "empty_status J window =
     clear_last J (js_object J
       [(''context_window_tokens'', uint J window),
        (''estimated_zero_request_tokens'', uint J 0),
        (''max_exchange_prompt_tokens'', uint J 0),
        (''max_exchange_generated_tokens'', uint J 0),
        (''max_exchange_cache_hit_tokens'', uint J 0),
        (''max_exchange_total_tokens'', uint J 0),
        (''cumulative_exchange_prompt_tokens'', uint J 0),
        (''cumulative_exchange_generated_tokens'', uint J 0),
        (''cumulative_exchange_cache_hit_tokens'', uint J 0),
        (''cumulative_exchange_total_tokens'', uint J 0),
        (''average_cache_hit_probability'', js_null J),
        (''sampled_exchange_count'', uint J 0),
        (''accounted_exchanges_in_run'', uint J 0),
        (''accounted_commit_sequence'', uint J 0)])"

section \<open>Accounting one response\<close>

definition cumulative_key :: "string \<Rightarrow> string" where
  "cumulative_key f = ''cumulative_exchange_'' @ f @ ''_tokens''"

definition max_key :: "string \<Rightarrow> string" where
  "max_key f = ''max_exchange_'' @ f @ ''_tokens''"

fun account_fields :: "'j json_lib \<Rightarrow> 'j number_lib \<Rightarrow> (string \<times> nat) list \<Rightarrow> 'j \<Rightarrow> 'j result" where
  "account_fields J N [] status = Inr status"
| "account_fields J N ((field, amount) # rest) status =
     (let maximum = max_key field; cumulative = cumulative_key field in
      and_then (stat_count J N status maximum) (\<lambda>m.
      let status1 = js_set J maximum (uint J (max m amount)) status in
      and_then (stat_count J N status1 cumulative) (\<lambda>c.
      and_then (add_checked c amount) (\<lambda>c'.
        account_fields J N rest (js_set J cumulative (uint J c') status1)))))"

definition note_last :: "'j json_lib \<Rightarrow> 'j number_lib \<Rightarrow> token_cost \<Rightarrow> nat \<Rightarrow> nat \<Rightarrow> 'j \<Rightarrow> 'j" where
  "note_last J N cost total_tokens window status =
     js_set J ''last_window_remaining_ratio'' (remaining_ratio N window total_tokens)
    (js_set J ''last_exchange_total_tokens'' (uint J total_tokens)
    (js_set J ''last_exchange_cache_hit_tokens'' (uint J (tc_cache_hit cost))
    (js_set J ''last_exchange_generated_tokens'' (uint J (tc_generated cost))
    (js_set J ''last_exchange_prompt_tokens'' (uint J (tc_prompt cost)) status))))"

definition note_average :: "'j json_lib \<Rightarrow> 'j number_lib \<Rightarrow> 'j \<Rightarrow> 'j result" where
  "note_average J N status =
     and_then (stat_count J N status ''sampled_exchange_count'') (\<lambda>n.
     and_then (add_checked n 1) (\<lambda>n'.
     let status1 = js_set J ''sampled_exchange_count'' (uint J n') status in
     and_then (stat_count J N status1 ''cumulative_exchange_prompt_tokens'') (\<lambda>prompt.
     and_then (stat_count J N status1 ''cumulative_exchange_cache_hit_tokens'') (\<lambda>hits.
       Inr (js_set J ''average_cache_hit_probability'' (if prompt = 0 then js_null J else nl_quotient N hits prompt) status1)))))"

definition account :: "'j json_lib \<Rightarrow> 'j number_lib \<Rightarrow> 'j \<Rightarrow> token_cost option \<Rightarrow> nat \<Rightarrow> 'j result" where
  "account J N status cost window =
     (let status = clear_last J status in
      case cost of
        None \<Rightarrow> Inr status
      | Some t \<Rightarrow>
          if tc_cache_hit t > tc_prompt t then Inl (LogicError ''cache-hit tokens exceed prompt tokens'')
          else and_then (add_checked (tc_prompt t) (tc_generated t)) (\<lambda>total_tokens.
               and_then (account_fields J N
                   [(''prompt'', tc_prompt t), (''generated'', tc_generated t), (''cache_hit'', tc_cache_hit t), (''total'', total_tokens)]
                   (note_last J N t total_tokens window status)) (note_average J N)))"

section \<open>Catching up with the committed responses\<close>

definition retained_steps :: "'j agent_input_state \<Rightarrow> 'j agent_loop_step list" where
  "retained_steps state = concat (map us_agent_loop_step (st_turns state))"

definition committed_sequence :: "'j agent_input_state \<Rightarrow> nat" where
  "committed_sequence state = (case st_loop state of None \<Rightarrow> 0 | Some p \<Rightarrow> lp_committed_response_sequence p)"

fun bootstrap_loop :: "'j json_lib \<Rightarrow> 'j number_lib \<Rightarrow> nat \<Rightarrow> 'j agent_loop_step list \<Rightarrow> 'j \<Rightarrow> nat \<Rightarrow> ('j \<times> nat) result" where
  "bootstrap_loop J N window [] status checkpoint = Inr (status, checkpoint)"
| "bootstrap_loop J N window (step # steps) status checkpoint =
     and_then
       (if as_commit_sequence step \<noteq> 0 then
          and_then (add_checked checkpoint 1) (\<lambda>expected.
            if as_commit_sequence step \<noteq> expected then Inl (LogicError ''context statistic cannot bootstrap pruned response usage'')
            else Inr (as_commit_sequence step))
        else Inr checkpoint)
       (\<lambda>checkpoint'.
          and_then (account J N status (mi_cost (as_model_response step)) window) (\<lambda>status'.
            bootstrap_loop J N window steps status' checkpoint'))"

definition bootstrap :: "'j json_lib \<Rightarrow> 'j number_lib \<Rightarrow> 'j agent_input_state \<Rightarrow> nat \<Rightarrow> 'j result" where
  "bootstrap J N state window =
     and_then (bootstrap_loop J N window (retained_steps state) (empty_status J window) 0) (\<lambda>(status, checkpoint).
       if checkpoint \<noteq> committed_sequence state then Inl (LogicError ''context statistic cannot bootstrap missing response usage'')
       else Inr (js_set J ''accounted_commit_sequence'' (uint J checkpoint) status))"

fun reconcile_loop :: "'j json_lib \<Rightarrow> 'j number_lib \<Rightarrow> nat \<Rightarrow> 'j agent_loop_step list \<Rightarrow> 'j \<Rightarrow> nat \<Rightarrow> ('j \<times> nat) result" where
  "reconcile_loop J N window [] status checkpoint = Inr (status, checkpoint)"
| "reconcile_loop J N window (step # steps) status checkpoint =
     (let sequence = as_commit_sequence step in
      if sequence = 0 \<or> sequence \<le> checkpoint then reconcile_loop J N window steps status checkpoint
      else and_then (add_checked checkpoint 1) (\<lambda>expected.
        if sequence \<noteq> expected then Inl (LogicError ''context statistic committed response accounting gap'')
        else if mi_type (as_model_response step) \<noteq> ModelResponse then Inl (LogicError ''context statistic expected a model response'')
        else and_then (account J N status (mi_cost (as_model_response step)) window) (\<lambda>status'.
          reconcile_loop J N window steps status' sequence)))"

definition reconcile :: "'j json_lib \<Rightarrow> 'j number_lib \<Rightarrow> 'j \<Rightarrow> 'j agent_input_state \<Rightarrow> nat \<Rightarrow> 'j result" where
  "reconcile J N status state window =
     and_then (stat_count J N status ''accounted_commit_sequence'') (\<lambda>checkpoint.
       if checkpoint > committed_sequence state then
         Inl (LogicError ''context statistic checkpoint exceeds committed responses'')
       else and_then (reconcile_loop J N window (retained_steps state) status checkpoint) (\<lambda>(status', checkpoint').
         if checkpoint' \<noteq> committed_sequence state then
           Inl (LogicError ''context statistic response was pruned before accounting'')
         else Inr (js_set J ''accounted_commit_sequence'' (uint J checkpoint') status')))"

definition read_statistics :: "'j json_lib \<Rightarrow> 'j number_lib \<Rightarrow> 'j agent_input_state \<Rightarrow> 'j option \<Rightarrow> nat \<Rightarrow> 'j result" where
  "read_statistics J N state existing window =
     (case existing of
        None \<Rightarrow> bootstrap J N state window
      | Some candidate \<Rightarrow>
          and_then (stat_count J N candidate ''cumulative_exchange_prompt_tokens'') (\<lambda>prompt.
          and_then (stat_count J N candidate ''cumulative_exchange_generated_tokens'') (\<lambda>generated.
          and_then (stat_count J N candidate ''cumulative_exchange_cache_hit_tokens'') (\<lambda>hits.
          and_then (stat_count J N candidate ''cumulative_exchange_total_tokens'') (\<lambda>total_tokens.
          and_then (if hits > prompt then Inr True else and_then (add_checked prompt generated) (\<lambda>s. Inr (s \<noteq> total_tokens))) (\<lambda>bad.
          if bad then Inl (LogicError ''context statistic has inconsistent cumulative usage'')
          else and_then (stat_count J N candidate ''sampled_exchange_count'') (\<lambda>_.
            reconcile J N candidate state window)))))))"

section \<open>The callbacks\<close>

definition estimated_zero_request_tokens :: "'j json_lib \<Rightarrow> 'j number_lib \<Rightarrow> prompt_template \<Rightarrow> 'j invocable list \<Rightarrow> nat result" where
  "estimated_zero_request_tokens J N prompt tools =
     and_then (render prompt) (\<lambda>r.
     and_then
       (if tools = [] then Inr (length (rp_markdown r))
        else add_checked (length (rp_markdown r)) (length (nl_dump N (js_array J (map (\<lambda>t. js_object J
          [(''name'', js_string J (iv_name t)), (''description'', js_string J (iv_description t)), (''parameters'', iv_argument_schema t)]) tools)))))
       (\<lambda>bytes. Inr (bytes div 4 + (if bytes mod 4 \<noteq> 0 then 1 else 0))))"

definition refresh_fixed_fields ::
  "'j json_lib \<Rightarrow> 'j number_lib \<Rightarrow> 'j \<Rightarrow> prompt_template \<Rightarrow> 'j invocable list \<Rightarrow> nat \<Rightarrow> 'j result" where
  "refresh_fixed_fields J N status prompt tools window =
     and_then (estimated_zero_request_tokens J N prompt tools) (\<lambda>n.
       refresh_last_ratio J N
         (js_set J ''estimated_zero_request_tokens'' (uint J n) (js_set J ''context_window_tokens'' (uint J window) status)) window)"

definition context_statistic_source :: string where
  "context_statistic_source = ''context_statistic''"

definition context_window :: "'j json_lib \<Rightarrow> 'j number_lib \<Rightarrow> string \<Rightarrow> 'j \<Rightarrow> nat result" where
  "context_window J N name options =
     (if name \<noteq> context_statistic_source then
        Inl (InvalidArgument (''ContextStatisticHook requires name '' @ [CHR 0x27] @ ''context_statistic'' @ [CHR 0x27]))
      else if nl_size N options \<noteq> 1 \<or> js_find J options ''context_window_tokens'' = None then
        Inl (InvalidArgument ''context_statistic config requires only context_window_tokens'')
      else
        read_at J options ''context_window_tokens'' (\<lambda>v.
          case nl_integer N v of
            None \<Rightarrow> Inl (InvalidArgument ''context_window_tokens must be a positive integer'')
          | Some i \<Rightarrow>
              if \<not> nl_is_unsigned N v \<and> i \<le> 0 then Inl (InvalidArgument ''context_window_tokens must be a positive integer'')
              else if i = 0 then Inl (InvalidArgument ''context_window_tokens must be positive'')
              else Inr (nat i)))"

definition stat_update :: "'j json_lib \<Rightarrow> 'j number_lib \<Rightarrow> nat \<Rightarrow> 'j agent_input_state \<Rightarrow> 'j agent_input_state result" where
  "stat_update J N window state =
     and_then (read_statistics J N state (external_status J state context_statistic_source) window) (\<lambda>status.
     let n = (case st_loop state of None \<Rightarrow> 0 | Some p \<Rightarrow> lp_completed_exchanges p) in
     and_then (refresh_fixed_fields J N (js_set J ''accounted_exchanges_in_run'' (uint J n) status)
         (st_system_prompt state) (st_tools state) window)
       (sync_external_status J state context_statistic_source))"

definition stat_before_model ::
  "'j json_lib \<Rightarrow> 'j number_lib \<Rightarrow> nat \<Rightarrow> 'j agent_input_state \<Rightarrow> 'j model_context \<Rightarrow> 'j model_context result" where
  "stat_before_model J N window state ctx =
     (let candidate = default_state\<lparr>st_extras := mc_extras ctx\<rparr> in
      and_then (read_statistics J N state (external_status J candidate context_statistic_source) window) (\<lambda>status.
      let status1 = (case st_loop state of
             Some p \<Rightarrow> if lp_completed_exchanges p = 0 then js_set J ''accounted_exchanges_in_run'' (uint J 0) status else status
           | None \<Rightarrow> status) in
      and_then (refresh_fixed_fields J N status1 (mc_system_prompt ctx) (mc_tools ctx) window) (\<lambda>status2.
      and_then (sync_external_status J candidate context_statistic_source status2) (\<lambda>candidate'.
        Inr (ctx\<lparr>mc_extras := st_extras candidate'\<rparr>)))))"

section \<open>The ledger\<close>

text \<open>
  The usage of every committed response, by its sequence number. What the counters of the first \<open>c\<close> responses have to
  be: the sum, the maximum and the number of the reported usages.
\<close>

type_synonym ledger = "nat \<Rightarrow> token_cost option"

definition stat_fields :: "string list" where
  "stat_fields = [''prompt'', ''generated'', ''cache_hit'', ''total'']"

definition used :: "string \<Rightarrow> token_cost option \<Rightarrow> nat" where
  "used f cost =
     (case cost of
        None \<Rightarrow> 0
      | Some t \<Rightarrow>
          if f = ''prompt'' then tc_prompt t
          else if f = ''generated'' then tc_generated t
          else if f = ''cache_hit'' then tc_cache_hit t
          else tc_prompt t + tc_generated t)"

primrec spent :: "ledger \<Rightarrow> string \<Rightarrow> nat \<Rightarrow> nat" where
  "spent l f 0 = 0"
| "spent l f (Suc c) = spent l f c + used f (l (Suc c))"

primrec peak :: "ledger \<Rightarrow> string \<Rightarrow> nat \<Rightarrow> nat" where
  "peak l f 0 = 0"
| "peak l f (Suc c) = max (peak l f c) (used f (l (Suc c)))"

primrec sampled :: "ledger \<Rightarrow> nat \<Rightarrow> nat" where
  "sampled l 0 = 0"
| "sampled l (Suc c) = sampled l c + (if l (Suc c) = None then 0 else 1)"

lemma stat_keys_differ [simp]:
  "cumulative_key f = cumulative_key g \<longleftrightarrow> f = g" "max_key f = max_key g \<longleftrightarrow> f = g"
  "cumulative_key f \<noteq> max_key g" "max_key g \<noteq> cumulative_key f"
  by (simp_all add: cumulative_key_def max_key_def)

text \<open>A status object with the given counters.\<close>

definition counters :: "'j json_lib \<Rightarrow> 'j number_lib \<Rightarrow> 'j \<Rightarrow> (string \<Rightarrow> nat) \<Rightarrow> (string \<Rightarrow> nat) \<Rightarrow> nat \<Rightarrow> bool" where
  "counters J N status sums peaks n \<longleftrightarrow>
     js_is_object J status \<and>
     list_all (\<lambda>f. stat_count J N status (cumulative_key f) = Inr (sums f) \<and>
       stat_count J N status (max_key f) = Inr (peaks f)) stat_fields \<and>
     stat_count J N status ''sampled_exchange_count'' = Inr n"

definition tallies :: "'j json_lib \<Rightarrow> 'j number_lib \<Rightarrow> ledger \<Rightarrow> nat \<Rightarrow> 'j \<Rightarrow> bool" where
  "tallies J N l c status \<longleftrightarrow> counters J N status (\<lambda>f. spent l f c) (\<lambda>f. peak l f c) (sampled l c)"

definition accounts_for :: "'j json_lib \<Rightarrow> 'j number_lib \<Rightarrow> ledger \<Rightarrow> nat \<Rightarrow> 'j \<Rightarrow> bool" where
  "accounts_for J N l c status \<longleftrightarrow>
     tallies J N l c status \<and> stat_count J N status ''accounted_commit_sequence'' = Inr c"

section \<open>What the numbers promise\<close>

locale number_laws = json_laws J for J :: "'j json_lib" +
  fixes N :: "'j number_lib"
  assumes integer_read: "n \<le> size_max \<Longrightarrow> nl_integer N (js_number J (int n)) = Some (int n)"
    and integer_range: "nl_integer N v = Some i \<Longrightarrow> i \<le> int size_max"
begin

lemma count_bound: "stat_count J N status k = Inr n \<Longrightarrow> n \<le> size_max"
  using integer_range by (auto simp: stat_count_def read_at_def split: if_splits option.splits) fastforce

lemma count_find:
  "js_is_object J s \<Longrightarrow> js_is_object J s' \<Longrightarrow> js_find J s' k = js_find J s k \<Longrightarrow> stat_count J N s' k = stat_count J N s k"
  by (simp add: stat_count_def read_at_def)

lemma count_other [simp]: "js_is_object J s \<Longrightarrow> k \<noteq> k' \<Longrightarrow> stat_count J N (js_set J k v s) k' = stat_count J N s k'"
  by (simp add: stat_count_def read_at_def find_set set_object)

lemma count_same [simp]: "js_is_object J s \<Longrightarrow> n \<le> size_max \<Longrightarrow> stat_count J N (js_set J k (uint J n) s) k = Inr n"
  by (simp add: stat_count_def read_at_def find_set set_object uint_def integer_read)

lemma add_checked_Inr: "add_checked a b = Inr c \<longleftrightarrow> (c = a + b \<and> b \<le> size_max - a)"
  by (auto simp: add_checked_def)

lemma account_fields_Inr:
  assumes "js_is_object J status" "account_fields J N fs status = Inr status'" "distinct (map fst fs)"
    and "\<forall>p \<in> set fs. stat_count J N status (cumulative_key (fst p)) = Inr (sums (fst p)) \<and>
      stat_count J N status (max_key (fst p)) = Inr (peaks (fst p))"
  shows "js_is_object J status' \<and>
    (\<forall>p \<in> set fs. stat_count J N status' (cumulative_key (fst p)) = Inr (sums (fst p) + snd p) \<and>
      stat_count J N status' (max_key (fst p)) = Inr (max (peaks (fst p)) (snd p))) \<and>
    (\<forall>k. (\<forall>p \<in> set fs. k \<noteq> cumulative_key (fst p) \<and> k \<noteq> max_key (fst p)) \<longrightarrow> js_find J status' k = js_find J status k)"
  using assms
proof (induction fs arbitrary: status)
  case (Cons p fs)
  obtain f a where p: "p = (f, a)" by fastforce
  have c: "stat_count J N status (cumulative_key f) = Inr (sums f)" "stat_count J N status (max_key f) = Inr (peaks f)"
    using Cons.prems(4) p by auto
  let ?s1 = "js_set J (max_key f) (uint J (max (peaks f) a)) status"
  let ?s2 = "js_set J (cumulative_key f) (uint J (sums f + a)) ?s1"
  have rest: "account_fields J N fs ?s2 = Inr status'" and a: "sums f + a \<le> size_max"
    using Cons.prems(1,2) c count_bound [OF c(1)] p
    by (auto simp: and_then_eq_Inr Let_def add_checked_Inr)
  have o1: "js_is_object J ?s1" "js_is_object J ?s2" using Cons.prems(1) by (simp_all add: set_object)
  have m: "max (peaks f) a \<le> size_max" using count_bound [OF c(2)] a by simp
  have f: "f \<notin> fst ` set fs" using Cons.prems(3) p by simp
  have "\<forall>q \<in> set fs. stat_count J N ?s2 (cumulative_key (fst q)) = Inr (sums (fst q)) \<and>
      stat_count J N ?s2 (max_key (fst q)) = Inr (peaks (fst q))"
    using Cons.prems(1,4) f o1 by (auto simp: image_iff)
  from Cons.IH [OF o1(2) rest _ this] Cons.prems(3)
  have ih: "js_is_object J status'" "\<forall>q \<in> set fs. stat_count J N status' (cumulative_key (fst q)) = Inr (sums (fst q) + snd q) \<and>
      stat_count J N status' (max_key (fst q)) = Inr (max (peaks (fst q)) (snd q))"
    "\<And>k. (\<forall>q \<in> set fs. k \<noteq> cumulative_key (fst q) \<and> k \<noteq> max_key (fst q)) \<Longrightarrow> js_find J status' k = js_find J ?s2 k"
    by auto
  have keep: "stat_count J N status' k = stat_count J N ?s2 k" if "k = cumulative_key f \<or> k = max_key f" for k
  proof -
    have "\<forall>q \<in> set fs. k \<noteq> cumulative_key (fst q) \<and> k \<noteq> max_key (fst q)" using that f by (auto simp: image_iff)
    from count_find [OF o1(2) ih(1) ih(3) [OF this]] show ?thesis .
  qed
  have "stat_count J N status' (cumulative_key f) = Inr (sums f + a)"
    "stat_count J N status' (max_key f) = Inr (max (peaks f) a)"
    using keep [of "cumulative_key f"] keep [of "max_key f"] Cons.prems(1) o1 a m by simp_all
  moreover have "js_find J status' k = js_find J status k"
    if "\<forall>q \<in> set (p # fs). k \<noteq> cumulative_key (fst q) \<and> k \<noteq> max_key (fst q)" for k
    using ih(3) [of k] that p Cons.prems(1) o1 by (simp add: find_set)
  ultimately show ?case using ih(1,2) p by auto
qed simp

end

definition plain_keys :: "string list" where
  "plain_keys =
     [''last_window_remaining_ratio'', ''last_exchange_total_tokens'', ''last_exchange_cache_hit_tokens'', ''last_exchange_generated_tokens'',
      ''last_exchange_prompt_tokens'', ''average_cache_hit_probability'', ''sampled_exchange_count'', ''accounted_exchanges_in_run'',
      ''accounted_commit_sequence'', ''context_window_tokens'', ''estimated_zero_request_tokens'']"

lemma plain_keys_differ:
  "k \<in> set plain_keys \<Longrightarrow> k \<noteq> cumulative_key f \<and> k \<noteq> max_key f"
  by (auto simp: plain_keys_def cumulative_key_def max_key_def)

text \<open>The field that \<^const>\<open>refresh_last_ratio\<close> reads is in order.\<close>

definition last_ok :: "'j json_lib \<Rightarrow> 'j number_lib \<Rightarrow> 'j \<Rightarrow> bool" where
  "last_ok J N status \<longleftrightarrow>
     (case js_find J status ''last_exchange_total_tokens'' of
        None \<Rightarrow> False
      | Some v \<Rightarrow> js_is_null J v \<or> stat_count J N status ''last_exchange_total_tokens'' \<in> range Inr)"

context number_laws
begin

lemma counters_set:
  assumes "counters J N status sums peaks n" "k \<in> set plain_keys" "k \<noteq> ''sampled_exchange_count''"
  shows "counters J N (js_set J k v status) sums peaks n"
  using assms plain_keys_differ [OF assms(2)] by (auto simp: counters_def set_object list_all_iff)

lemma counters_object: "counters J N status sums peaks n \<Longrightarrow> js_is_object J status"
  by (simp add: counters_def)

lemma account_frame:
  assumes "js_is_object J status"
  shows "js_is_object J (clear_last J status)" "js_is_object J (note_last J N t a window status)"
    and "stat_count J N (clear_last J status) ''accounted_commit_sequence'' = stat_count J N status ''accounted_commit_sequence''"
    and "stat_count J N (note_last J N t a window status) ''accounted_commit_sequence'' = stat_count J N status ''accounted_commit_sequence''"
    and "last_ok J N (clear_last J status)" "a \<le> size_max \<Longrightarrow> last_ok J N (note_last J N t a window status)"
  using assms by (simp_all add: clear_last_def note_last_def set_object last_ok_def find_set null_kind)

lemma counters_last:
  assumes "counters J N status sums peaks n"
  shows "counters J N (clear_last J status) sums peaks n" "counters J N (note_last J N t a window status) sums peaks n"
  using assms unfolding clear_last_def note_last_def by (intro counters_set; simp add: plain_keys_def)+

lemma last_ok_number:
  "js_is_object J s \<Longrightarrow> js_find J s ''last_exchange_total_tokens'' = Some (uint J m) \<Longrightarrow> m \<le> size_max \<Longrightarrow> last_ok J N s"
  by (simp add: last_ok_def stat_count_def read_at_def uint_def integer_read)

lemma stat_fields_costs:
  "[(''prompt'', tc_prompt t), (''generated'', tc_generated t), (''cache_hit'', tc_cache_hit t), (''total'', tc_prompt t + tc_generated t)] =
   map (\<lambda>f. (f, used f (Some t))) stat_fields"
  by (simp add: stat_fields_def used_def)

lemma account_fields_counters:
  assumes "counters J N status sums peaks n"
    and "account_fields J N (map (\<lambda>f. (f, used f (Some t))) stat_fields) status = Inr status'"
  shows "counters J N status' (\<lambda>f. sums f + used f (Some t)) (\<lambda>f. max (peaks f) (used f (Some t))) n"
    and "k \<in> set plain_keys \<Longrightarrow> js_find J status' k = js_find J status k"
proof -
  have dist: "distinct (map fst (map (\<lambda>f. (f, used f (Some t))) stat_fields))"
    by (simp add: stat_fields_def)
  have counts: "\<forall>p \<in> set (map (\<lambda>f. (f, used f (Some t))) stat_fields).
      stat_count J N status (cumulative_key (fst p)) = Inr (sums (fst p)) \<and> stat_count J N status (max_key (fst p)) = Inr (peaks (fst p))"
    using assms(1) by (auto simp: counters_def list_all_iff)
  note f = account_fields_Inr [OF counters_object [OF assms(1)] assms(2) dist counts]
  have frame: "js_find J status' k = js_find J status k" if "k \<in> set plain_keys" for k
    using f plain_keys_differ [OF that] by blast
  have "stat_count J N status' ''sampled_exchange_count'' = stat_count J N status ''sampled_exchange_count''"
    using f counters_object [OF assms(1)] frame [of "''sampled_exchange_count''"] by (intro count_find) (auto simp: plain_keys_def)
  with f assms(1) show "counters J N status' (\<lambda>f. sums f + used f (Some t)) (\<lambda>f. max (peaks f) (used f (Some t))) n"
    by (auto simp: counters_def list_all_iff)
  show "js_find J status' k = js_find J status k" if "k \<in> set plain_keys" using frame [OF that] .
qed

lemma note_average_Inr:
  assumes "counters J N status sums peaks n" "n < size_max"
  obtains v where "note_average J N status = Inr (js_set J ''average_cache_hit_probability'' v (js_set J ''sampled_exchange_count'' (uint J (n + 1)) status))"
    and "counters J N (js_set J ''average_cache_hit_probability'' v (js_set J ''sampled_exchange_count'' (uint J (n + 1)) status)) sums peaks (n + 1)"
proof -
  let ?s = "js_set J ''sampled_exchange_count'' (uint J (n + 1)) status"
  have o: "js_is_object J status" "stat_count J N status ''sampled_exchange_count'' = Inr n"
    using assms(1) by (auto simp: counters_def)
  have lits: "''cumulative_exchange_prompt_tokens'' = cumulative_key ''prompt''" "''cumulative_exchange_cache_hit_tokens'' = cumulative_key ''cache_hit''"
    by (simp_all add: cumulative_key_def)
  have s: "counters J N ?s sums peaks (n + 1)"
    using assms plain_keys_differ [of "''sampled_exchange_count''"] by (auto simp: counters_def set_object list_all_iff plain_keys_def)
  then have "stat_count J N ?s (cumulative_key ''prompt'') = Inr (sums ''prompt'')"
    "stat_count J N ?s (cumulative_key ''cache_hit'') = Inr (sums ''cache_hit'')" by (auto simp: counters_def stat_fields_def)
  then have "note_average J N status = Inr (js_set J ''average_cache_hit_probability''
      (if sums ''prompt'' = 0 then js_null J else nl_quotient N (sums ''cache_hit'') (sums ''prompt'')) ?s)"
    using o assms(2) unfolding note_average_def lits by (simp add: Let_def add_checked_def)
  then show ?thesis using that counters_set [OF s] by (simp add: plain_keys_def)
qed

lemma account_Inr:
  assumes "counters J N status sums peaks n" "account J N status cost window = Inr status'"
  shows "counters J N status' (\<lambda>f. sums f + used f cost) (\<lambda>f. max (peaks f) (used f cost)) (n + (if cost = None then 0 else 1))"
    and "stat_count J N status' ''accounted_commit_sequence'' = stat_count J N status ''accounted_commit_sequence''"
    and "last_ok J N status'"
proof -
  note o = counters_object [OF assms(1)]
  have "counters J N status' (\<lambda>f. sums f + used f cost) (\<lambda>f. max (peaks f) (used f cost)) (n + (if cost = None then 0 else 1)) \<and>
    stat_count J N status' ''accounted_commit_sequence'' = stat_count J N status ''accounted_commit_sequence'' \<and> last_ok J N status'"
  proof (cases cost)
    case None
    with assms(2) have "status' = clear_last J status" by (simp add: account_def)
    with None counters_last(1) [OF assms(1)] account_frame(3,5) [OF o] show ?thesis by (simp add: used_def)
  next
    case (Some t)
    let ?total = "tc_prompt t + tc_generated t"
    let ?s = "note_last J N t ?total window (clear_last J status)"
    from Some assms(2) obtain s1 where s1: "account_fields J N (map (\<lambda>f. (f, used f (Some t))) stat_fields) ?s = Inr s1"
      "note_average J N s1 = Inr status'"
      by (auto simp: account_def Let_def and_then_eq_Inr add_checked_Inr stat_fields_costs simp del: account_fields.simps split: if_splits)
    have s: "counters J N ?s sums peaks n" using counters_last assms(1) by blast
    note c1 = account_fields_counters [OF s s1(1)]
    have n: "n < size_max"
      using s1(2) c1(1) unfolding note_average_def counters_def by (auto simp: and_then_eq_Inr add_checked_Inr Let_def)
    obtain v where avg: "note_average J N s1 =
        Inr (js_set J ''average_cache_hit_probability'' v (js_set J ''sampled_exchange_count'' (uint J (n + 1)) s1))"
      and new: "counters J N (js_set J ''average_cache_hit_probability'' v (js_set J ''sampled_exchange_count'' (uint J (n + 1)) s1))
        (\<lambda>f. sums f + used f (Some t)) (\<lambda>f. max (peaks f) (used f (Some t))) (n + 1)"
      by (rule note_average_Inr [OF c1(1) n])
    have v: "status' = js_set J ''average_cache_hit_probability'' v (js_set J ''sampled_exchange_count'' (uint J (n + 1)) s1)"
      using s1(2) avg by simp
    note new = new [folded v]
    note o1 = counters_object [OF c1(1)] and os = counters_object [OF s]
    have "stat_count J N status' ''accounted_commit_sequence'' = stat_count J N s1 ''accounted_commit_sequence''"
      unfolding v using o1 by (simp add: set_object)
    also have "\<dots> = stat_count J N ?s ''accounted_commit_sequence''"
      by (rule count_find [OF os o1]) (rule c1(2), simp add: plain_keys_def)
    also have "\<dots> = stat_count J N status ''accounted_commit_sequence''"
      using account_frame [OF o] account_frame(4) [OF account_frame(1) [OF o]] by simp
    finally have seq: "stat_count J N status' ''accounted_commit_sequence'' = stat_count J N status ''accounted_commit_sequence''" .
    have "js_find J status' ''last_exchange_total_tokens'' = Some (uint J ?total)"
      unfolding v using o1 c1(2) [of "''last_exchange_total_tokens''"] account_frame(1) [OF o]
      by (simp add: find_set set_object plain_keys_def note_last_def)
    moreover have "?total \<le> size_max"
      using c1(1) count_bound [of s1 "cumulative_key ''total''"] by (fastforce simp: counters_def stat_fields_def used_def)
    ultimately have "last_ok J N status'" using counters_object [OF new] last_ok_number by blast
    with new seq Some show ?thesis by simp
  qed
  then show "counters J N status' (\<lambda>f. sums f + used f cost) (\<lambda>f. max (peaks f) (used f cost)) (n + (if cost = None then 0 else 1))"
    and "stat_count J N status' ''accounted_commit_sequence'' = stat_count J N status ''accounted_commit_sequence''"
    and "last_ok J N status'" by auto
qed

end

section \<open>The loops\<close>

context number_laws
begin

lemma reconcile_loop_Inr:
  assumes "reconcile_loop J N window steps status c = Inr (status', c')" "tallies J N l c status"
    and "\<forall>s \<in> set steps. as_commit_sequence s \<noteq> 0 \<longrightarrow> l (as_commit_sequence s) = mi_cost (as_model_response s)"
    and "c \<le> size_max"
  shows "tallies J N l c' status' \<and> c' \<le> size_max \<and> c \<le> c' \<and> (last_ok J N status \<longrightarrow> last_ok J N status')"
  using assms
proof (induction steps arbitrary: status c)
  case (Cons step steps)
  show ?case
  proof (cases "as_commit_sequence step = 0 \<or> as_commit_sequence step \<le> c")
    case True
    with Cons show ?thesis by simp
  next
    case False
    with Cons.prems(1) obtain s where s: "account J N status (mi_cost (as_model_response step)) window = Inr s"
      "reconcile_loop J N window steps s (Suc c) = Inr (status', c')" and seq: "as_commit_sequence step = Suc c" "Suc c \<le> size_max"
      by (auto simp: Let_def and_then_eq_Inr add_checked_Inr split: if_splits)
    have cost: "mi_cost (as_model_response step) = l (Suc c)" using Cons.prems(3) seq(1) by auto
    note a = account_Inr [OF Cons.prems(2) [unfolded tallies_def] s(1)]
    have "tallies J N l (Suc c) s" using a(1) unfolding tallies_def cost by simp
    from Cons.IH [OF s(2) this] Cons.prems(3) a(3) seq(2) show ?thesis by auto
  qed
qed simp

lemma bootstrap_loop_Inr:
  assumes "bootstrap_loop J N window steps status c = Inr (status', c')" "tallies J N l c status" "last_ok J N status"
    and "\<forall>s \<in> set steps. as_commit_sequence s \<noteq> 0 \<and> l (as_commit_sequence s) = mi_cost (as_model_response s)"
    and "c \<le> size_max"
  shows "tallies J N l c' status' \<and> c' \<le> size_max \<and> last_ok J N status'"
  using assms
proof (induction steps arbitrary: status c)
  case (Cons step steps)
  from Cons.prems(1,4,5) obtain s where s: "account J N status (mi_cost (as_model_response step)) window = Inr s"
    "bootstrap_loop J N window steps s (Suc c) = Inr (status', c')" and seq: "as_commit_sequence step = Suc c" "Suc c \<le> size_max"
    by (auto simp: and_then_eq_Inr add_checked_Inr split: if_splits)
  have cost: "mi_cost (as_model_response step) = l (Suc c)" using Cons.prems(4) seq(1) by auto
  note a = account_Inr [OF Cons.prems(2) [unfolded tallies_def] s(1)]
  have "tallies J N l (Suc c) s" using a(1) unfolding tallies_def cost by simp
  from Cons.IH [OF s(2) this a(3)] Cons.prems(4) seq(2) show ?case by auto
qed simp

lemma empty_status_tallies: "tallies J N l 0 (empty_status J window)" "last_ok J N (empty_status J window)"
proof -
  define kvs where "kvs = [(''context_window_tokens'', uint J window),
        (''estimated_zero_request_tokens'', uint J 0),
        (''max_exchange_prompt_tokens'', uint J 0),
        (''max_exchange_generated_tokens'', uint J 0),
        (''max_exchange_cache_hit_tokens'', uint J 0),
        (''max_exchange_total_tokens'', uint J 0),
        (''cumulative_exchange_prompt_tokens'', uint J 0),
        (''cumulative_exchange_generated_tokens'', uint J 0),
        (''cumulative_exchange_cache_hit_tokens'', uint J 0),
        (''cumulative_exchange_total_tokens'', uint J 0),
        (''average_cache_hit_probability'', js_null J),
        (''sampled_exchange_count'', uint J 0),
        (''accounted_exchanges_in_run'', uint J 0),
        (''accounted_commit_sequence'', uint J 0)]"
  have dist: "distinct (map fst kvs)" by (simp add: kvs_def)
  have zero: "stat_count J N (js_object J kvs) k = Inr 0" if "map_of kvs k = Some (uint J 0)" for k
    using that integer_read [of 0] by (simp add: stat_count_def read_at_def object_kind find_object [OF dist] uint_def)
  have "list_all (\<lambda>f. map_of kvs (cumulative_key f) = Some (uint J 0) \<and> map_of kvs (max_key f) = Some (uint J 0)) stat_fields"
    "map_of kvs ''sampled_exchange_count'' = Some (uint J 0)"
    by (simp_all add: stat_fields_def cumulative_key_def max_key_def kvs_def)
  then have "counters J N (js_object J kvs) (\<lambda>_. 0) (\<lambda>_. 0) 0"
    by (auto simp: counters_def object_kind zero list_all_iff)
  from counters_last(1) [OF this] show "tallies J N l 0 (empty_status J window)"
    by (simp add: tallies_def empty_status_def kvs_def)
  show "last_ok J N (empty_status J window)"
    unfolding empty_status_def by (rule account_frame(5)) (simp add: object_kind)
qed

lemma checkpoint_set:
  assumes "tallies J N l c s" "c \<le> size_max"
  shows "accounts_for J N l c (js_set J ''accounted_commit_sequence'' (uint J c) s)"
  using assms counters_set [OF assms(1) [unfolded tallies_def], of "''accounted_commit_sequence''"] counters_object
  by (auto simp: accounts_for_def tallies_def plain_keys_def)

lemma accounts_for_set:
  assumes "accounts_for J N l c s" "k \<in> set plain_keys" "k \<notin> {''sampled_exchange_count'', ''accounted_commit_sequence''}"
  shows "accounts_for J N l c (js_set J k v s)"
  using assms counters_set [OF _ assms(2)] counters_object [of s] by (auto simp: accounts_for_def tallies_def)

lemma read_statistics_Inr:
  assumes "read_statistics J N state existing window = Inr status"
    and ledger: "\<forall>s \<in> set (retained_steps state). as_commit_sequence s \<noteq> 0 \<and> l (as_commit_sequence s) = mi_cost (as_model_response s)"
    and start: "\<And>old. existing = Some old \<Longrightarrow> accounts_for J N l c old"
  shows "accounts_for J N l (committed_sequence state) status"
proof (cases existing)
  case None
  with assms(1) obtain s where s: "bootstrap_loop J N window (retained_steps state) (empty_status J window) 0 = Inr (s, committed_sequence state)"
    "status = js_set J ''accounted_commit_sequence'' (uint J (committed_sequence state)) s"
    by (auto simp: read_statistics_def bootstrap_def and_then_eq_Inr split: if_splits)
  show ?thesis
    using bootstrap_loop_Inr [OF s(1) empty_status_tallies ledger] s(2) checkpoint_set by blast
next
  case (Some old)
  then have old: "tallies J N l c old" "stat_count J N old ''accounted_commit_sequence'' = Inr c"
    using start by (auto simp: accounts_for_def)
  from Some assms(1) old(2) obtain s where s: "reconcile_loop J N window (retained_steps state) old c = Inr (s, committed_sequence state)"
    "status = js_set J ''accounted_commit_sequence'' (uint J (committed_sequence state)) s"
    by (auto simp: read_statistics_def reconcile_def and_then_eq_Inr split: if_splits)
  show ?thesis
    using reconcile_loop_Inr [OF s(1) old(1) _ count_bound [OF old(2)]] ledger s(2) checkpoint_set by blast
qed

lemma refresh_fixed_Inr:
  assumes "refresh_fixed_fields J N status prompt tools window = Inr status'" "accounts_for J N l c status"
  shows "accounts_for J N l c status'"
proof -
  obtain n where n: "refresh_last_ratio J N (js_set J ''estimated_zero_request_tokens'' (uint J n)
      (js_set J ''context_window_tokens'' (uint J window) status)) window = Inr status'"
    using assms(1) by (auto simp: refresh_fixed_fields_def and_then_eq_Inr)
  have "accounts_for J N l c (js_set J ''estimated_zero_request_tokens'' (uint J n) (js_set J ''context_window_tokens'' (uint J window) status))"
    using assms(2) by (intro accounts_for_set) (simp_all add: plain_keys_def)
  then show ?thesis
    using n by (auto simp: refresh_last_ratio_def and_then_eq_Inr plain_keys_def intro!: accounts_for_set split: option.splits if_splits)
qed

end

section \<open>When the accounting succeeds\<close>

definition sane :: "token_cost option \<Rightarrow> bool" where
  "sane cost \<longleftrightarrow> (case cost of None \<Rightarrow> True | Some t \<Rightarrow> tc_cache_hit t \<le> tc_prompt t)"

lemma used_le_total: "sane cost \<Longrightarrow> used f cost \<le> used ''total'' cost"
  by (auto simp: used_def sane_def split: option.splits)

lemma spent_le_total: "\<forall>i. sane (l i) \<Longrightarrow> spent l f c \<le> spent l ''total'' c"
  by (induction c) (auto intro: add_mono used_le_total)

lemma spent_total: "spent l ''total'' c = spent l ''prompt'' c + spent l ''generated'' c"
  by (induction c) (auto simp: used_def split: option.splits)

lemma spent_hits: "\<forall>i. sane (l i) \<Longrightarrow> spent l ''cache_hit'' c \<le> spent l ''prompt'' c"
proof (induction c)
  case (Suc c)
  have "used ''cache_hit'' (l (Suc c)) \<le> used ''prompt'' (l (Suc c))"
    using Suc.prems by (cases "l (Suc c)") (auto simp: used_def sane_def dest: spec [of _ "Suc c"])
  with Suc show ?case by (simp add: add_mono)
qed simp

lemma spent_mono: "c \<le> c' \<Longrightarrow> spent l f c \<le> spent l f c'" "c \<le> c' \<Longrightarrow> sampled l c \<le> sampled l c'"
  by (induction rule: dec_induct) auto

lemma sampled_le: "sampled l c \<le> c"
  by (induction c) auto

context number_laws
begin

lemma account_fields_ok:
  assumes "js_is_object J status" "distinct (map fst fs)"
    and "\<forall>p \<in> set fs. stat_count J N status (cumulative_key (fst p)) = Inr (sums (fst p)) \<and>
      stat_count J N status (max_key (fst p)) = Inr (peaks (fst p)) \<and> sums (fst p) + snd p \<le> size_max"
  shows "\<exists>status'. account_fields J N fs status = Inr status'"
  using assms
proof (induction fs arbitrary: status)
  case (Cons p fs)
  obtain f a where p: "p = (f, a)" by fastforce
  have c: "stat_count J N status (cumulative_key f) = Inr (sums f)" "stat_count J N status (max_key f) = Inr (peaks f)" "sums f + a \<le> size_max"
    using Cons.prems(3) p by auto
  let ?s1 = "js_set J (max_key f) (uint J (max (peaks f) a)) status"
  let ?s2 = "js_set J (cumulative_key f) (uint J (sums f + a)) ?s1"
  have o1: "js_is_object J ?s1" "js_is_object J ?s2" using Cons.prems(1) by (simp_all add: set_object)
  have f: "f \<notin> fst ` set fs" using Cons.prems(2) p by simp
  have "\<forall>q \<in> set fs. stat_count J N ?s2 (cumulative_key (fst q)) = Inr (sums (fst q)) \<and>
      stat_count J N ?s2 (max_key (fst q)) = Inr (peaks (fst q)) \<and> sums (fst q) + snd q \<le> size_max"
    using Cons.prems(1,3) f o1 by (auto simp: image_iff)
  from Cons.IH [OF o1(2) _ this] Cons.prems(1,2) c p show ?case
    by (auto simp: Let_def add_checked_def)
qed simp

lemma account_ok:
  assumes "counters J N status sums peaks n" "sane cost" "n < size_max"
    and "\<forall>f \<in> set stat_fields. sums f + used f cost \<le> size_max"
  shows "\<exists>status'. account J N status cost window = Inr status'"
proof (cases cost)
  case (Some t)
  let ?s = "note_last J N t (tc_prompt t + tc_generated t) window (clear_last J status)"
  have s: "counters J N ?s sums peaks n" using counters_last assms(1) by blast
  have "\<exists>s1. account_fields J N (map (\<lambda>f. (f, used f (Some t))) stat_fields) ?s = Inr s1"
    using s assms(4) Some by (intro account_fields_ok [OF counters_object [OF s]]) (auto simp: counters_def list_all_iff stat_fields_def)
  then obtain s1 where s1: "account_fields J N (map (\<lambda>f. (f, used f (Some t))) stat_fields) ?s = Inr s1" by blast
  from note_average_Inr [OF account_fields_counters(1) [OF s s1] assms(3)]
  obtain s2 where s2: "note_average J N s1 = Inr s2" by blast
  have "used ''total'' cost \<le> size_max" using assms(4) by (auto simp: stat_fields_def)
  then have "add_checked (tc_prompt t) (tc_generated t) = Inr (tc_prompt t + tc_generated t)"
    using Some by (simp add: used_def add_checked_def)
  with Some assms(2) s1 s2 show ?thesis
    by (simp add: account_def sane_def stat_fields_costs del: account_fields.simps)
qed (simp add: account_def)

lemma reconcile_loop_ok:
  assumes "tallies J N l c status" "\<forall>i. sane (l i)" "spent l ''total'' m \<le> size_max" "m \<le> size_max" "c \<le> m"
    and "map as_commit_sequence (filter (\<lambda>s. as_commit_sequence s > c) steps) = [Suc c..<Suc m]"
    and "\<forall>s \<in> set steps. as_commit_sequence s \<noteq> 0 \<longrightarrow>
      l (as_commit_sequence s) = mi_cost (as_model_response s) \<and> mi_type (as_model_response s) = ModelResponse"
  shows "\<exists>status'. reconcile_loop J N window steps status c = Inr (status', m)"
  using assms(1,5,6,7)
proof (induction steps arbitrary: status c)
  case Nil
  then show ?case by (auto split: if_splits)
next
  case (Cons step steps)
  show ?case
  proof (cases "as_commit_sequence step > c")
    case False
    with Cons.prems Cons.IH [of c status] show ?thesis by simp
  next
    case True
    with Cons.prems(3) have "[Suc c..<Suc m] = as_commit_sequence step # map as_commit_sequence (filter (\<lambda>s. as_commit_sequence s > c) steps)"
      by simp
    moreover from this have cm: "c < m" by (cases "c < m") simp_all
    ultimately have seq: "as_commit_sequence step = Suc c"
      and rest: "map as_commit_sequence (filter (\<lambda>s. as_commit_sequence s > c) steps) = [Suc (Suc c)..<Suc m]"
      by (auto simp: upt_conv_Cons simp del: upt_Suc)
    have cost: "l (Suc c) = mi_cost (as_model_response step)" "mi_type (as_model_response step) = ModelResponse"
      using Cons.prems(4) seq by auto
    have n: "sampled l c < size_max" using cm assms(4) sampled_le [of l c] by simp
    have "\<forall>f \<in> set stat_fields. spent l f c + used f (l (Suc c)) \<le> size_max"
      using spent_le_total [OF assms(2), of _ "Suc c"] spent_mono(1) [of "Suc c" m l "''total''"] cm assms(3) by (fastforce intro: order_trans)
    then obtain s where s: "account J N status (mi_cost (as_model_response step)) window = Inr s"
      using account_ok [OF Cons.prems(1) [unfolded tallies_def]] n assms(2) cost(1) by metis
    have t: "tallies J N l (Suc c) s"
      using account_Inr(1) [OF Cons.prems(1) [unfolded tallies_def] s] unfolding tallies_def cost(1) [symmetric] by simp
    have "filter (\<lambda>s. as_commit_sequence s > c) steps = filter (\<lambda>s. as_commit_sequence s > Suc c) steps"
    proof (rule filter_cong [OF refl])
      fix x assume x: "x \<in> set steps"
      have "as_commit_sequence x \<in> set [Suc (Suc c)..<Suc m]" if "as_commit_sequence x > c"
        using that x rest [symmetric] by auto
      then show "(as_commit_sequence x > c) = (as_commit_sequence x > Suc c)" by auto
    qed
    with Cons.IH [OF t] Cons.prems(4) rest cm obtain s' where "reconcile_loop J N window steps s (Suc c) = Inr (s', m)" by auto
    moreover have "add_checked c 1 = Inr (Suc c)" using cm assms(4) by (simp add: add_checked_def)
    ultimately show ?thesis using seq s cost(2) by (simp add: Let_def)
  qed
qed

end

context number_laws
begin

lemma sync_ok:
  assumes "external_status J s w = Some old" "js_is_object J status" "src \<noteq> []"
  shows "\<exists>s'. sync_external_status J s src status = Inr s'"
  using assms object_not_null
  by (auto simp: external_status_def sync_external_status_def region_of_def Let_def split: option.splits if_splits)

lemma read_statistics_ok:
  assumes old: "accounts_for J N l c old" "last_ok J N old" and l: "\<forall>i. sane (l i)" "spent l ''total'' (committed_sequence s) \<le> size_max"
    and seq: "committed_sequence s \<le> size_max" "c \<le> committed_sequence s"
      "map as_commit_sequence (filter (\<lambda>x. as_commit_sequence x > c) (retained_steps s)) = [Suc c..<Suc (committed_sequence s)]"
    and steps: "\<forall>x \<in> set (retained_steps s). as_commit_sequence x \<noteq> 0 \<longrightarrow>
      l (as_commit_sequence x) = mi_cost (as_model_response x) \<and> mi_type (as_model_response x) = ModelResponse"
  shows "\<exists>status. read_statistics J N s (Some old) window = Inr status \<and> last_ok J N status"
proof -
  let ?m = "committed_sequence s"
  have t: "tallies J N l c old" "stat_count J N old ''accounted_commit_sequence'' = Inr c" using old(1) by (auto simp: accounts_for_def)
  from reconcile_loop_ok [OF t(1) l seq steps, of window]
  obtain status where r: "reconcile_loop J N window (retained_steps s) old c = Inr (status, ?m)" by blast
  have ledger: "\<forall>x \<in> set (retained_steps s). as_commit_sequence x \<noteq> 0 \<longrightarrow> l (as_commit_sequence x) = mi_cost (as_model_response x)"
    using steps by blast
  note f = reconcile_loop_Inr [OF r t(1) ledger count_bound [OF t(2)]]
  have lits: "''cumulative_exchange_prompt_tokens'' = cumulative_key ''prompt''" "''cumulative_exchange_generated_tokens'' = cumulative_key ''generated''"
    "''cumulative_exchange_cache_hit_tokens'' = cumulative_key ''cache_hit''" "''cumulative_exchange_total_tokens'' = cumulative_key ''total''"
    by (simp_all add: cumulative_key_def)
  have counts: "stat_count J N old (cumulative_key ''prompt'') = Inr (spent l ''prompt'' c)"
    "stat_count J N old (cumulative_key ''generated'') = Inr (spent l ''generated'' c)"
    "stat_count J N old (cumulative_key ''cache_hit'') = Inr (spent l ''cache_hit'' c)"
    "stat_count J N old (cumulative_key ''total'') = Inr (spent l ''total'' c)"
    "stat_count J N old ''sampled_exchange_count'' = Inr (sampled l c)"
    using t(1) by (auto simp: tallies_def counters_def stat_fields_def)
  have sum: "add_checked (spent l ''prompt'' c) (spent l ''generated'' c) = Inr (spent l ''total'' c)"
    using l(2) spent_mono(1) [OF seq(2), of l "''total''"] by (auto simp: add_checked_def spent_total)
  have "read_statistics J N s (Some old) window = Inr (js_set J ''accounted_commit_sequence'' (uint J ?m) status)"
    unfolding read_statistics_def lits using counts sum spent_hits [OF l(1), of c] t(2) seq(2) r
    by (simp add: reconcile_def)
  moreover have "last_ok J N (js_set J ''accounted_commit_sequence'' (uint J ?m) status)"
    using f old(2) counters_object by (auto simp: last_ok_def find_set tallies_def split: option.splits)
  ultimately show ?thesis by blast
qed

lemma refresh_fixed_ok:
  assumes "estimated_zero_request_tokens J N prompt tools = Inr n" "js_is_object J status" "last_ok J N status"
  shows "\<exists>status'. refresh_fixed_fields J N status prompt tools window = Inr status'"
proof -
  let ?s = "js_set J ''estimated_zero_request_tokens'' (uint J n) (js_set J ''context_window_tokens'' (uint J window) status)"
  have "last_ok J N ?s" using assms(2,3) by (auto simp: last_ok_def find_set set_object split: option.splits)
  with assms(1) show ?thesis
    by (auto simp: refresh_fixed_fields_def refresh_last_ratio_def last_ok_def split: option.splits)
qed

lemma update_ok:
  assumes "external_status J s context_statistic_source = Some old" "estimated_zero_request_tokens J N (st_system_prompt s) (st_tools s) = Inr n"
    and "read_statistics J N s (Some old) window = Inr status" "last_ok J N status" "js_is_object J status"
  shows "\<exists>s'. stat_update J N window s = Inr s'"
proof -
  let ?s = "js_set J ''accounted_exchanges_in_run'' (uint J (case st_loop s of None \<Rightarrow> 0 | Some p \<Rightarrow> lp_completed_exchanges p)) status"
  have o: "js_is_object J ?s" "last_ok J N ?s" using assms(4,5) by (auto simp: last_ok_def find_set set_object split: option.splits)
  from refresh_fixed_ok [OF assms(2) o, of window] obtain st where
    st: "refresh_fixed_fields J N ?s (st_system_prompt s) (st_tools s) window = Inr st" by blast
  have "js_is_object J st"
    using st o(1) by (auto simp: refresh_fixed_fields_def refresh_last_ratio_def and_then_eq_Inr set_object split: option.splits if_splits)
  from sync_ok [OF assms(1) this, of context_statistic_source] assms(1,3) st show ?thesis
    by (auto simp: stat_update_def Let_def context_statistic_source_def)
qed

lemma update_Inr:
  assumes "stat_update J N window s = Inr s'"
    and "\<forall>x \<in> set (retained_steps s). as_commit_sequence x \<noteq> 0 \<and> l (as_commit_sequence x) = mi_cost (as_model_response x)"
    and "\<And>old. external_status J s context_statistic_source = Some old \<Longrightarrow> accounts_for J N l c old"
  shows "\<exists>st. external_status J s' context_statistic_source = Some st \<and> accounts_for J N l (committed_sequence s) st"
    and "s' = s\<lparr>st_extras := st_extras s'\<rparr>" "w \<noteq> context_statistic_source \<Longrightarrow> external_status J s' w = external_status J s w"
proof -
  obtain status st where u: "read_statistics J N s (external_status J s context_statistic_source) window = Inr status"
    "refresh_fixed_fields J N (js_set J ''accounted_exchanges_in_run'' (uint J (case st_loop s of None \<Rightarrow> 0 | Some p \<Rightarrow> lp_completed_exchanges p)) status)
      (st_system_prompt s) (st_tools s) window = Inr st"
    "sync_external_status J s context_statistic_source st = Inr s'"
    using assms(1) by (auto simp: stat_update_def Let_def and_then_eq_Inr)
  have "accounts_for J N l (committed_sequence s) status" using read_statistics_Inr [OF u(1) assms(2,3)] .
  then have "accounts_for J N l (committed_sequence s) st"
    using refresh_fixed_Inr [OF u(2)] accounts_for_set by (simp add: plain_keys_def)
  with sync_region(1) [OF u(3)]
  show "\<exists>st. external_status J s' context_statistic_source = Some st \<and> accounts_for J N l (committed_sequence s) st" by blast
  show "s' = s\<lparr>st_extras := st_extras s'\<rparr>" using sync_region(4) [OF u(3)] .
  show "external_status J s' w = external_status J s w" if "w \<noteq> context_statistic_source" using sync_region(2) [OF u(3) that] .
qed

end

section \<open>Properties\<close>

text \<open>A JSON library with these numbers: the values of \<^const>\<open>json_values\<close>, quotients rounded to integers.\<close>

definition json_numbers :: "json number_lib" where
  "json_numbers =
     \<lparr>nl_integer = (\<lambda>j. case j of JNumber i \<Rightarrow> if i \<le> int size_max then Some i else None | _ \<Rightarrow> None),
      nl_is_unsigned = (\<lambda>j. case j of JNumber i \<Rightarrow> 0 \<le> i | _ \<Rightarrow> False),
      nl_size = (\<lambda>j. case j of JObject kvs \<Rightarrow> length kvs | JArray xs \<Rightarrow> length xs | JNull \<Rightarrow> 0 | _ \<Rightarrow> 1),
      nl_dump = (\<lambda>_. []),
      nl_long_quotient = (\<lambda>a b. JNumber (a div int b)),
      nl_quotient = (\<lambda>a b. JNumber (int (a div b)))\<rparr>"

interpretation json_numbers: number_laws json_values json_numbers
  by unfold_locales (auto simp: json_numbers_def json_values_def split: json.splits if_splits)

text \<open>
  C32. Token usage is counted exactly once. Let the ledger give the usage of every committed response, and let the
  counters that the session carries be those of its first \<open>c\<close> responses (whatever was pruned since, and whether or not
  a later update was rolled back). When the hook updates the session, the counters are the sums, the maxima and the
  number of reported usages over all committed responses; no other slot and no other part of the session changes. The
  update does succeed when every response after the checkpoint is still retained, in order, the usages are consistent and
  the sum fits the counters.
\<close>

theorem statistics_exact:
  assumes laws: "number_laws J N" and old: "external_status J s context_statistic_source = Some old" "accounts_for J N l c old"
    and steps: "\<forall>x \<in> set (retained_steps s). as_commit_sequence x \<noteq> 0 \<and> l (as_commit_sequence x) = mi_cost (as_model_response x)"
  shows "(\<forall>s'. stat_update J N window s = Inr s' \<longrightarrow>
      (\<exists>st. external_status J s' context_statistic_source = Some st \<and> accounts_for J N l (committed_sequence s) st) \<and>
      s' = s\<lparr>st_extras := st_extras s'\<rparr> \<and> (\<forall>w. w \<noteq> context_statistic_source \<longrightarrow> external_status J s' w = external_status J s w)) \<and>
    (last_ok J N old \<and> (\<forall>i. sane (l i)) \<and> spent l ''total'' (committed_sequence s) \<le> size_max \<and>
      committed_sequence s \<le> size_max \<and> c \<le> committed_sequence s \<and>
      map as_commit_sequence (filter (\<lambda>x. as_commit_sequence x > c) (retained_steps s)) = [Suc c..<Suc (committed_sequence s)] \<and>
      (\<forall>x \<in> set (retained_steps s). mi_type (as_model_response x) = ModelResponse) \<and>
      estimated_zero_request_tokens J N (st_system_prompt s) (st_tools s) = Inr n \<longrightarrow>
      (\<exists>s'. stat_update J N window s = Inr s'))"
proof (intro conjI allI impI)
  fix s' w
  assume u: "stat_update J N window s = Inr s'"
  have acc: "accounts_for J N l c x" if "external_status J s context_statistic_source = Some x" for x using that old by simp
  note f = number_laws.update_Inr [OF laws u steps acc]
  show "\<exists>st. external_status J s' context_statistic_source = Some st \<and> accounts_for J N l (committed_sequence s) st" by (rule f(1))
  show "s' = s\<lparr>st_extras := st_extras s'\<rparr>" by (rule f(2))
  show "w \<noteq> context_statistic_source \<Longrightarrow> external_status J s' w = external_status J s w" by (rule f(3))
next
  assume *: "last_ok J N old \<and> (\<forall>i. sane (l i)) \<and> spent l ''total'' (committed_sequence s) \<le> size_max \<and>
      committed_sequence s \<le> size_max \<and> c \<le> committed_sequence s \<and>
      map as_commit_sequence (filter (\<lambda>x. as_commit_sequence x > c) (retained_steps s)) = [Suc c..<Suc (committed_sequence s)] \<and>
      (\<forall>x \<in> set (retained_steps s). mi_type (as_model_response x) = ModelResponse) \<and>
      estimated_zero_request_tokens J N (st_system_prompt s) (st_tools s) = Inr n"
  then obtain status where r: "read_statistics J N s (Some old) window = Inr status" "last_ok J N status"
    using number_laws.read_statistics_ok [OF laws old(2), of s window] steps by blast
  have "accounts_for J N l (committed_sequence s) status"
    using number_laws.read_statistics_Inr [OF laws r(1) steps] old(2) by blast
  then have "js_is_object J status" by (simp add: accounts_for_def tallies_def counters_def)
  with * show "\<exists>s'. stat_update J N window s = Inr s'"
    using number_laws.update_ok [OF laws old(1) _ r] by blast
qed

definition sample_ledger :: ledger where
  "sample_ledger i = (if i = 1 then Some \<lparr>tc_prompt = 10, tc_generated = 5, tc_cache_hit = 4\<rparr> else None)"

definition sample_accounted :: "json agent_input_state" where
  "sample_accounted = default_state
     \<lparr>st_loop := Some (default_progress\<lparr>lp_committed_response_sequence := 1, lp_completed_exchanges := 1\<rparr>),
      st_turns := [default_user_step\<lparr>us_agent_loop_step := [default_agent_step
        \<lparr>as_commit_sequence := 1, as_model_response := default_message\<lparr>mi_type := ModelResponse, mi_cost := sample_ledger 1\<rparr>\<rparr>]\<rparr>],
      st_extras := Some (JObject [(external_status_key, JObject [(context_statistic_source, empty_status json_values 100)])])\<rparr>"

theorem statistics_exact_witness:
  "\<exists>s'. stat_update json_values json_numbers 100 sample_accounted = Inr s' \<and>
     (\<exists>st. external_status json_values s' context_statistic_source = Some st \<and> accounts_for json_values json_numbers sample_ledger 1 st)"
proof -
  have obj: "js_is_object json_values (empty_status json_values 100)"
    using json_numbers.empty_status_tallies(1) [of sample_ledger 100] by (simp add: tallies_def counters_def)
  have jv: "js_find json_values (JObject kvs) k = map_of kvs k" "js_is_object json_values (JObject kvs)" for kvs k
    by (simp_all add: json_values_def)
  have ext: "external_status json_values sample_accounted context_statistic_source = Some (empty_status json_values 100)"
    using obj json_values.object_not_null [OF obj] by (simp add: external_status_def sample_accounted_def jv default_state_def)
  have "stat_count json_values json_numbers (empty_status json_values 100) ''accounted_commit_sequence'' = Inr 0"
    by (simp add: stat_count_def read_at_def json_values_def json_numbers_def empty_status_def clear_last_def uint_def)
  then have acc: "accounts_for json_values json_numbers sample_ledger 0 (empty_status json_values 100)"
    using json_numbers.empty_status_tallies(1) by (simp add: accounts_for_def)
  have steps: "retained_steps sample_accounted = [default_agent_step
        \<lparr>as_commit_sequence := 1, as_model_response := default_message\<lparr>mi_type := ModelResponse, mi_cost := sample_ledger 1\<rparr>\<rparr>]"
    by (simp add: retained_steps_def sample_accounted_def default_user_step_def)
  have committed: "committed_sequence sample_accounted = 1"
    by (simp add: committed_sequence_def sample_accounted_def default_progress_def)
  have est: "estimated_zero_request_tokens json_values json_numbers (st_system_prompt sample_accounted) (st_tools sample_accounted) = Inr 0"
    by (simp add: sample_accounted_def default_state_def estimated_zero_request_tokens_def render_def PromptTemplate_def)
  have ledger: "\<forall>x \<in> set (retained_steps sample_accounted). as_commit_sequence x \<noteq> 0 \<and>
      sample_ledger (as_commit_sequence x) = mi_cost (as_model_response x)"
    by (simp add: steps)
  have "\<forall>i. sane (sample_ledger i)" "spent sample_ledger ''total'' 1 \<le> size_max" "1 \<le> size_max"
    by (simp_all add: sane_def sample_ledger_def used_def size_max_def)
  then have "\<exists>s'. stat_update json_values json_numbers 100 sample_accounted = Inr s'"
    using statistics_exact [OF json_numbers.number_laws_axioms ext acc ledger, of 100 0] json_numbers.empty_status_tallies(2) est
    by (simp add: steps committed)
  with statistics_exact [OF json_numbers.number_laws_axioms ext acc ledger, of 100 0] committed show ?thesis by auto
qed

end
