(* ===== verification/Tool_Failure.thy ===== *)
theory Tool_Failure
  imports Model_IO
begin

text \<open>
  \<^verbatim>\<open>tools/include/tools/invoke_exception.hpp\<close>: the failure of one checkpoint of a tool invocation, its
  rendering, the record it stands for and the rule that a record always answers the call the layer was
  given. An error code is its message when it is set.
\<close>

section \<open>Failures\<close>

datatype stage = Dispatch | ArgumentParse | SecurityCheck | Invoke | ResultCheck | UnknownStage

fun stage_phrase :: "stage \<Rightarrow> string" where
  "stage_phrase Dispatch = ''while dispatching the invocation to a tool''"
| "stage_phrase ArgumentParse = ''while parsing the invocation arguments''"
| "stage_phrase SecurityCheck = ''while validating the invocation's security''"
| "stage_phrase Invoke = ''while invoking the tool''"
| "stage_phrase ResultCheck = ''while validating the tool result''"
| "stage_phrase UnknownStage = ''at an unknown stage''"

fun stage_key :: "stage \<Rightarrow> string" where
  "stage_key Dispatch = ''dispatch''"
| "stage_key ArgumentParse = ''argument_parse''"
| "stage_key SecurityCheck = ''security_check''"
| "stage_key Invoke = ''invoke''"
| "stage_key ResultCheck = ''result_check''"
| "stage_key UnknownStage = ''unknown''"

definition stage_from_key :: "string \<Rightarrow> stage option" where
  "stage_from_key key =
     (if key = stage_key Dispatch then Some Dispatch
      else if key = stage_key ArgumentParse then Some ArgumentParse
      else if key = stage_key SecurityCheck then Some SecurityCheck
      else if key = stage_key Invoke then Some Invoke
      else if key = stage_key ResultCheck then Some ResultCheck
      else if key = stage_key UnknownStage then Some UnknownStage
      else None)"

record 'j invoke_exception =
  ie_stage :: stage
  ie_message :: string
  ie_query :: "'j invoke_query"
  ie_code :: "string option"
  ie_cause :: "'j invoke_query option"

definition InvokeException :: "stage \<Rightarrow> string \<Rightarrow> 'j invoke_query \<Rightarrow> string option \<Rightarrow> 'j invoke_exception" where
  "InvokeException st message query code =
     \<lparr>ie_stage = st, ie_message = message, ie_query = query, ie_code = code, ie_cause = None\<rparr>"

text \<open>The context fields that are set gather into one parenthetical.\<close>

fun render_context :: "string list \<Rightarrow> string" where
  "render_context [] = []"
| "render_context (piece # pieces) = '' ('' @ piece @ concat (map (\<lambda>p. ''; '' @ p) pieces) @ '')''"

definition render_failure :: "stage \<Rightarrow> string \<Rightarrow> string option \<Rightarrow> 'j invoke_query \<Rightarrow> string" where
  "render_failure st message code query =
     ''Failed '' @ stage_phrase st @ '': '' @ message @
       render_context
         ((case code of None \<Rightarrow> [] | Some m \<Rightarrow> [m]) @
          (if iq_name query = [] then [] else [''tool '' @ iq_name query]) @
          (if iq_id query = [] then [] else [''call '' @ iq_id query]))"

definition what_of :: "'j invoke_exception \<Rightarrow> string" where
  "what_of e = render_failure (ie_stage e) (ie_message e) (ie_code e) (ie_query e)"

definition names_a_different_call :: "'j invoke_exception \<Rightarrow> 'j invoke_query \<Rightarrow> bool" where
  "names_a_different_call e call \<longleftrightarrow> iq_id (ie_query e) \<noteq> [] \<and> iq_id (ie_query e) \<noteq> iq_id call"

definition effective_cause :: "'j invoke_exception \<Rightarrow> 'j invoke_query \<Rightarrow> 'j invoke_query option" where
  "effective_cause e answering =
     (if names_a_different_call e answering then Some (ie_query e) else ie_cause e)"

definition build_record ::
  "'j json_lib \<Rightarrow> 'j invoke_exception \<Rightarrow> 'j invoke_query \<Rightarrow> 'j invoke_query option \<Rightarrow> 'j invoke_return" where
  "build_record J e answering cause =
     \<lparr>ir_query = answering, ir_output = default_content\<lparr>cn_raw := what_of e\<rparr>,
      ir_extras = Some (write_optional J ''cause_query'' (query_to_json J) cause
        (js_set J ''error''
          (js_object J [(''stage'', js_string J (stage_key (ie_stage e))), (''message'', js_string J (ie_message e))])
          (js_object J [])))\<rparr>"

definition to_invoke_return :: "'j json_lib \<Rightarrow> 'j invoke_exception \<Rightarrow> 'j invoke_return" where
  "to_invoke_return J e = build_record J e (ie_query e) (effective_cause e (ie_query e))"

definition correlated_to :: "'j invoke_exception \<Rightarrow> 'j invoke_query \<Rightarrow> 'j invoke_exception" where
  "correlated_to e call =
     (let rebuilt = InvokeException (ie_stage e) (ie_message e) call (ie_code e) in
      case effective_cause e call of None \<Rightarrow> rebuilt | Some c \<Rightarrow> rebuilt\<lparr>ie_cause := Some c\<rparr>)"

text \<open>\<^verbatim>\<open>to_invoke_return(call)\<close>\<close>

definition answer_failure :: "'j json_lib \<Rightarrow> 'j invoke_exception \<Rightarrow> 'j invoke_query \<Rightarrow> 'j invoke_return" where
  "answer_failure J e call = to_invoke_return J (correlated_to e call)"

section \<open>Reading and correlating records\<close>

definition error_marker :: "'j json_lib \<Rightarrow> 'j invoke_return \<Rightarrow> 'j option" where
  "error_marker J r =
     (case ir_extras r of
        None \<Rightarrow> None
      | Some extras \<Rightarrow>
          if \<not> js_is_object J extras then None
          else (case js_find J extras ''error'' of
             None \<Rightarrow> None
           | Some m \<Rightarrow> if js_is_object J m then Some m else None))"

definition is_error :: "'j json_lib \<Rightarrow> 'j invoke_return \<Rightarrow> bool" where
  "is_error J r \<longleftrightarrow> error_marker J r \<noteq> None"

definition error_stage :: "'j json_lib \<Rightarrow> 'j invoke_return \<Rightarrow> stage option" where
  "error_stage J r =
     (case error_marker J r of
        None \<Rightarrow> None
      | Some marker \<Rightarrow>
          (case js_find J marker ''stage'' of
             None \<Rightarrow> None
           | Some v \<Rightarrow>
               if \<not> js_is_string J v then None
               else (case js_get_string J v of Inl _ \<Rightarrow> None | Inr key \<Rightarrow> stage_from_key key)))"

definition correlate :: "'j json_lib \<Rightarrow> 'j invoke_return \<Rightarrow> 'j invoke_query \<Rightarrow> 'j invoke_return" where
  "correlate J r call =
     (let named = ir_query r;
          extras = (if iq_id named \<noteq> [] \<and> iq_id named \<noteq> iq_id call then
            Some (js_set J ''cause_query'' (query_to_json J named)
              (case ir_extras r of
                 Some e \<Rightarrow> if js_is_object J e then e else js_object J []
               | None \<Rightarrow> js_object J []))
          else ir_extras r) in
      r\<lparr>ir_query := call, ir_extras := extras\<rparr>)"

section \<open>What the records say\<close>

lemma stage_from_key_key [simp]: "stage_from_key (stage_key st) = Some st"
  by (cases st) (simp_all add: stage_from_key_def)

lemma correlated_query [simp]: "ie_query (correlated_to e call) = call"
  by (simp add: correlated_to_def InvokeException_def Let_def split: option.split)

lemma correlated_stage [simp]: "ie_stage (correlated_to e call) = ie_stage e" "ie_message (correlated_to e call) = ie_message e"
  by (simp_all add: correlated_to_def InvokeException_def Let_def split: option.split)

lemma answers_call [simp]:
  "ir_query (to_invoke_return J e) = ie_query e" "ir_query (answer_failure J e call) = call" "ir_query (correlate J r call) = call"
  by (simp_all add: to_invoke_return_def answer_failure_def build_record_def correlate_def Let_def)

lemma correlated_idem: "correlated_to (correlated_to e call) call = correlated_to e call"
  by (simp add: correlated_to_def effective_cause_def names_a_different_call_def InvokeException_def Let_def split: option.split)

lemma correlate_same: "ir_query r = call \<Longrightarrow> correlate J r call = r"
  by (simp add: correlate_def)

context json_laws
begin

lemma error_stage_of_failure: "error_stage J (to_invoke_return J e) = Some (ie_stage e)"
proof -
  let ?m = "js_object J [(''stage'', js_string J (stage_key (ie_stage e))), (''message'', js_string J (ie_message e))]"
  have "js_is_object J (js_set J ''error'' ?m (js_object J []))" by (simp add: set_object object_kind)
  then have "error_marker J (to_invoke_return J e) = Some ?m"
    by (simp add: error_marker_def to_invoke_return_def build_record_def write_optional_def set_object find_set object_kind split: option.split)
  moreover have "js_find J ?m ''stage'' = Some (js_string J (stage_key (ie_stage e)))" by (simp add: find_object)
  ultimately show ?thesis by (simp add: error_stage_def string_kind string_read)
qed

lemma failure_is_error: "is_error J (to_invoke_return J e)"
  using error_stage_of_failure [of e] by (auto simp: error_stage_def is_error_def split: option.splits)

lemma error_stage_correlate: "error_stage J (correlate J r call) = error_stage J r"
proof -
  have "error_marker J (correlate J r call) = error_marker J r"
    by (simp add: error_marker_def correlate_def Let_def set_object find_set object_kind find_object split: option.split)
  then show ?thesis by (simp add: error_stage_def)
qed

end

end
