(* ===== verification/Tool_Sets.thy ===== *)
theory Tool_Sets
  imports Tool_Failure
begin

text \<open>
  One tool call: \<^verbatim>\<open>tools/include/tools/toolsets.hpp\<close> (the hooks of a tool, settling and running a call),
  \<^verbatim>\<open>security_check.hpp\<close> (the default gate) and the propagating \<^verbatim>\<open>publish\<close> of
  \<^verbatim>\<open>utils/async_eventbus/include/eventbus/async_event_bus.hpp\<close> that the gate asks through.

  A coroutine is a tree of segments: what runs between two suspensions is one function of the world, and
  between segments others may run. A tool, a confirmation handler and the subscriptions of the bus are
  parameters.
\<close>

section \<open>Coroutines\<close>

datatype ('w, 'a) task = Done 'a | Suspend "'w \<Rightarrow> 'w \<times> ('w, 'a) task"

primrec bind_task :: "('w, 'a) task \<Rightarrow> ('a \<Rightarrow> ('w, 'b) task) \<Rightarrow> ('w, 'b) task" where
  "bind_task (Done x) f = f x"
| "bind_task (Suspend k) f = Suspend (\<lambda>w. map_prod id (\<lambda>t. bind_task t f) (k w))"

text \<open>A look at the world.\<close>

definition ask :: "('w \<Rightarrow> ('w, 'a) task) \<Rightarrow> ('w, 'a) task" where
  "ask f = Suspend (\<lambda>w. (w, f w))"

text \<open>Running alone to the end.\<close>

primrec run_task :: "('w, 'a) task \<Rightarrow> 'w \<Rightarrow> 'w \<times> 'a" where
  "run_task (Done x) = (\<lambda>w. (w, x))"
| "run_task (Suspend k) = (\<lambda>w. (case map_prod id run_task (k w) of (w', g) \<Rightarrow> g w'))"

text \<open>What a hook may throw.\<close>

datatype 'j thrown = InvokeFailure "'j invoke_exception" | StdException string | ForeignThrow

section \<open>The confirmation gate\<close>

datatype confirm_decision = Unanswered | Approved | Denied

record 'j confirm_event =
  ce_query :: "'j invoke_query"
  ce_decision :: confirm_decision
  ce_reason :: string

definition for_query :: "'j invoke_query \<Rightarrow> 'j confirm_event" where
  "for_query query = \<lparr>ce_query = query, ce_decision = Unanswered, ce_reason = []\<rparr>"

text \<open>The bus as the gate sees it: the slots of the event, which of them are connected, and their handlers.\<close>

record ('w, 'j) confirm_bus =
  cb_slots :: "'w \<Rightarrow> nat list"
  cb_connected :: "'w \<Rightarrow> nat \<Rightarrow> bool"
  cb_handler :: "nat \<Rightarrow> 'j confirm_event \<Rightarrow> ('w, 'j thrown + 'j confirm_event) task"

definition subscriber_count :: "('w, 'j) confirm_bus \<Rightarrow> 'w \<Rightarrow> nat" where
  "subscriber_count B w = length (filter (cb_connected B w) (cb_slots B w))"

fun publish_fold :: "('w, 'j) confirm_bus \<Rightarrow> nat list \<Rightarrow> 'j confirm_event \<Rightarrow> ('w, 'j thrown + 'j confirm_event) task" where
  "publish_fold B [] current = Done (Inr current)"
| "publish_fold B (slot # slots) current = ask (\<lambda>w.
     if cb_connected B w slot then
       bind_task (cb_handler B slot current) (\<lambda>r.
         case r of Inl thrown \<Rightarrow> Done (Inl thrown) | Inr next_event \<Rightarrow> publish_fold B slots next_event)
     else publish_fold B slots current)"

definition publish_event :: "('w, 'j) confirm_bus \<Rightarrow> 'j confirm_event \<Rightarrow> ('w, 'j thrown + 'j confirm_event) task" where
  "publish_event B event = ask (\<lambda>w. publish_fold B (cb_slots B w) event)"

definition default_security_check ::
  "('w, 'j) confirm_bus \<Rightarrow> 'j invoke_query \<Rightarrow> ('w, 'j thrown + bool \<times> string) task" where
  "default_security_check B query =
     (case iq_security query of
        Trusted \<Rightarrow> Done (Inr (True, ''the invocation is trusted and runs without confirmation''))
      | DefaultDeny \<Rightarrow>
          Done (Inr (False, ''the invocation's security level is default deny, so it was never cleared to run''))
      | RequireConfirm \<Rightarrow> ask (\<lambda>w.
          let anyone_listening = subscriber_count B w > 0 in
          bind_task (publish_event B (for_query query)) (\<lambda>r.
            case r of
              Inl thrown \<Rightarrow> Done (Inl thrown)
            | Inr answered \<Rightarrow> Done (Inr
                (case ce_decision answered of
                   Approved \<Rightarrow> (True, if ce_reason answered = []
                     then ''the confirmation handler approved the invocation'' else ce_reason answered)
                 | Denied \<Rightarrow> (False, if ce_reason answered = []
                     then ''the confirmation handler denied the invocation'' else ce_reason answered)
                 | Unanswered \<Rightarrow> (False, if anyone_listening
                     then ''no subscribed handler answered the confirmation request''
                     else ''no handler is subscribed to confirm the invocation''))))))"

section \<open>Tools\<close>

text \<open>
  The hooks of \<^verbatim>\<open>ToolInterface\<close>. The settling hooks work on the query in place, so a throw leaves what was
  written before it.
\<close>

record ('w, 'j) tool =
  tl_name :: string
  tl_ensure_arguments :: "'j invoke_query \<Rightarrow> 'j thrown option \<times> 'j invoke_query"
  tl_write_attributes :: "'j invoke_query \<Rightarrow> 'j thrown option \<times> 'j invoke_query"
  tl_security_check :: "'j invoke_query \<Rightarrow> ('w, 'j thrown + bool \<times> string) task"
  tl_invoke :: "'j invoke_query \<Rightarrow> ('w, 'j thrown + 'j content) task"
  tl_check_result :: "'j invoke_query \<Rightarrow> 'j content \<Rightarrow> 'j thrown + 'j invoke_return"

definition dquoted :: "string \<Rightarrow> string" where
  "dquoted s = [CHR 0x22] @ s @ [CHR 0x22]"

text \<open>A tool that overrides nothing.\<close>

definition default_write_attributes :: "'j invoke_query \<Rightarrow> 'j thrown option \<times> 'j invoke_query" where
  "default_write_attributes query = (None, query\<lparr>iq_type := SerialWrite, iq_security := RequireConfirm\<rparr>)"

definition default_invoke :: "'j json_lib \<Rightarrow> string \<Rightarrow> 'j invoke_query \<Rightarrow> ('w, 'j thrown + 'j content) task" where
  "default_invoke J name query =
     Done (Inl (InvokeFailure (InvokeException Invoke (''tool '' @ dquoted name @ '' does not implement invoke()'') (default_query J) None)))"

definition default_check_result :: "'j invoke_query \<Rightarrow> 'j content \<Rightarrow> 'j thrown + 'j invoke_return" where
  "default_check_result query content = Inr \<lparr>ir_query = query, ir_output = content, ir_extras = None\<rparr>"

definition default_tool :: "'j json_lib \<Rightarrow> ('w, 'j) confirm_bus \<Rightarrow> string \<Rightarrow> ('w, 'j) tool" where
  "default_tool J B name =
     \<lparr>tl_name = name, tl_ensure_arguments = (\<lambda>q. (None, q)), tl_write_attributes = default_write_attributes,
      tl_security_check = default_security_check B, tl_invoke = default_invoke J name, tl_check_result = default_check_result\<rparr>"

section \<open>Tool sets\<close>

text \<open>The failure a throw at a checkpoint becomes, always about the call of the layer.\<close>

fun settle_failure :: "stage \<Rightarrow> 'j thrown \<Rightarrow> 'j invoke_query \<Rightarrow> 'j invoke_exception" where
  "settle_failure st (InvokeFailure e) query = correlated_to e query"
| "settle_failure st (StdException m) query = InvokeException st m query None"
| "settle_failure st ForeignThrow query = InvokeException st ''an unknown error, not a std::exception'' query None"

definition prepare_call ::
  "string \<Rightarrow> ('j invoke_query \<Rightarrow> 'j thrown + ('w, 'j) tool option) \<Rightarrow> 'j invoke_query \<Rightarrow>
   ('j thrown + ('w, 'j) tool option) \<times> 'j invoke_query" where
  "prepare_call set_name dispatch query =
     (case dispatch query of
        Inl th \<Rightarrow> (Inl (InvokeFailure (settle_failure Dispatch th query)), query)
      | Inr None \<Rightarrow>
          (Inl (InvokeFailure (settle_failure Dispatch (InvokeFailure (InvokeException Dispatch
             (''no tool named '' @ dquoted (iq_name query) @ '' in toolset '' @ dquoted set_name) query None)) query)), query)
      | Inr (Some tool) \<Rightarrow>
          (case tl_ensure_arguments tool query of
             (Some th, query1) \<Rightarrow> (Inl (InvokeFailure (settle_failure ArgumentParse th query1)), query1)
           | (None, query1) \<Rightarrow>
               (case tl_write_attributes tool query1 of
                  (Some th, query2) \<Rightarrow> (Inl (InvokeFailure (settle_failure ArgumentParse th query2)), query2)
                | (None, query2) \<Rightarrow> (Inr (Some tool), query2))))"

definition failure_record :: "'j json_lib \<Rightarrow> stage \<Rightarrow> 'j thrown \<Rightarrow> 'j invoke_query \<Rightarrow> 'j invoke_return" where
  "failure_record J st th query = to_invoke_return J (settle_failure st th query)"

text \<open>What follows the gate, and the whole of the running phase.\<close>

definition after_gate ::
  "'j json_lib \<Rightarrow> ('w, 'j) tool \<Rightarrow> 'j invoke_query \<Rightarrow> 'j thrown + bool \<times> string \<Rightarrow> ('w, 'j thrown + 'j invoke_return) task" where
  "after_gate J tool query gate =
     (case gate of
        Inl th \<Rightarrow> Done (Inr (failure_record J SecurityCheck th query))
      | Inr (passed, reason) \<Rightarrow>
          if \<not> passed then
            Done (Inr (failure_record J SecurityCheck (InvokeFailure (InvokeException SecurityCheck
              (''security check denied: '' @ reason) query None)) query))
          else
            bind_task (tl_invoke tool query) (\<lambda>out.
              case out of
                Inl th \<Rightarrow> Done (Inr (failure_record J Invoke th query))
              | Inr content \<Rightarrow>
                  (case tl_check_result tool query content of
                     Inl th \<Rightarrow> Done (Inr (failure_record J ResultCheck th query))
                   | Inr r \<Rightarrow> Done (Inr (correlate J r query)))))"

definition execute_call ::
  "'j json_lib \<Rightarrow> ('w, 'j) tool option \<Rightarrow> 'j invoke_query \<Rightarrow> ('w, 'j thrown + 'j invoke_return) task" where
  "execute_call J handle query =
     (case handle of
        None \<Rightarrow> Done (Inr (failure_record J SecurityCheck (InvokeFailure (InvokeException Dispatch
          ''the call was never settled: execute() needs the tool prepare() returned'' query None)) query))
      | Some tool \<Rightarrow> bind_task (tl_security_check tool query) (after_gate J tool query))"

record tool_skill =
  sk_name :: string
  sk_title :: string
  sk_description :: string
  sk_keywords :: "string list"
  sk_text :: string

definition skill_section_name :: "string \<Rightarrow> string" where
  "skill_section_name name = ''skill.'' @ name"

text \<open>
  A tool set as the registry holds it: both phases are virtual, so they are fields; \<open>standard_set\<close> is a set
  that overrides neither. A handle is what settling returns for running.
\<close>

record ('w, 'j, 'h) tool_set =
  ts_name :: string
  ts_tools :: "'j invocable list"
  ts_skill :: "tool_skill option"
  ts_prepare :: "'j invoke_query \<Rightarrow> ('j thrown + 'h) \<times> 'j invoke_query"
  ts_execute :: "'h \<Rightarrow> 'j invoke_query \<Rightarrow> ('w, 'j thrown + 'j invoke_return) task"

definition supported_names :: "('w, 'j, 'h) tool_set \<Rightarrow> string list" where
  "supported_names ts = map iv_name (ts_tools ts)"

definition inject_skill :: "('w, 'j, 'h) tool_set \<Rightarrow> prompt_template \<Rightarrow> (bool \<times> prompt_template) result" where
  "inject_skill ts prompt =
     (case ts_skill ts of
        None \<Rightarrow> Inr (False, prompt)
      | Some carried \<Rightarrow>
          if sk_text carried = [] then Inr (False, prompt)
          else and_then (add_section (skill_section_name (sk_name carried)) (sk_title carried) (sk_text carried) Growing prompt)
            (\<lambda>prompt'. Inr (True, prompt')))"

definition standard_set ::
  "'j json_lib \<Rightarrow> string \<Rightarrow> 'j invocable list \<Rightarrow> ('j invoke_query \<Rightarrow> 'j thrown + ('w, 'j) tool option) \<Rightarrow>
   ('w, 'j, ('w, 'j) tool option) tool_set" where
  "standard_set J name tools dispatch =
     \<lparr>ts_name = name, ts_tools = tools, ts_skill = None, ts_prepare = prepare_call name dispatch, ts_execute = execute_call J\<rparr>"

section \<open>Running tasks\<close>

lemma task_induct [case_names Done Suspend]:
  assumes "\<And>x. P (Done x)" "\<And>k. (\<And>w. P (snd (k w))) \<Longrightarrow> P (Suspend k)"
  shows "P t"
  by (induction t) (auto intro!: assms simp: prod_set_simps, metis assms(2) prod.collapse rangeI snds.intros)

lemma run_Suspend [simp]: "run_task (Suspend k) w = run_task (snd (k w)) (fst (k w))"
  by (cases "k w") simp

declare run_task.simps(2) [simp del]

lemma run_bind [simp]: "run_task (bind_task t f) w = run_task (f (snd (run_task t w))) (fst (run_task t w))"
  by (induction t arbitrary: w rule: task_induct) auto

lemma run_ask [simp]: "run_task (ask f) w = run_task (f w) w"
  by (simp add: ask_def)

lemma settle_failure_query [simp]: "ie_query (settle_failure st th query) = query"
  by (cases th) (simp_all add: InvokeException_def)

lemma failure_record_query [simp]: "ir_query (failure_record J st th query) = query"
  by (simp add: failure_record_def)

section \<open>Every way a task can end\<close>

text \<open>
  Between two segments anything may happen to the world, so the outcomes of a task are those over all the
  worlds its segments can meet.
\<close>

primrec outcomes :: "('w, 'a) task \<Rightarrow> 'a set" where
  "outcomes (Done x) = {x}"
| "outcomes (Suspend k) = (\<Union>w. snd (map_prod id outcomes (k w)))"

lemma outcomes_Suspend [simp]: "outcomes (Suspend k) = (\<Union>w. outcomes (snd (k w)))"
  by (simp add: snd_map_prod)

declare outcomes.simps(2) [simp del]

lemma outcomes_bind [simp]: "outcomes (bind_task t f) = (\<Union>x\<in>outcomes t. outcomes (f x))"
  by (induction t rule: task_induct) auto

lemma outcomes_bind_sum:
  "r \<in> outcomes (bind_task t (case_sum f g)) \<longleftrightarrow>
     (\<exists>x. Inl x \<in> outcomes t \<and> r \<in> outcomes (f x)) \<or> (\<exists>y. Inr y \<in> outcomes t \<and> r \<in> outcomes (g y))"
proof -
  have "r \<in> outcomes (bind_task t (case_sum f g)) \<longleftrightarrow> (\<exists>x. x \<in> outcomes t \<and> r \<in> outcomes (case_sum f g x))" by auto
  then show ?thesis by (metis sum.case sum.exhaust)
qed

lemma outcomes_ask [simp]: "outcomes (ask f) = (\<Union>w. outcomes (f w))"
  by (simp add: ask_def)

lemma run_outcome: "snd (run_task t w) \<in> outcomes t"
  by (induction t arbitrary: w rule: task_induct) auto

text \<open>Continuations that agree on what a task can end with are interchangeable.\<close>

lemma bind_cong: "(\<And>x. x \<in> outcomes t \<Longrightarrow> f x = g x) \<Longrightarrow> bind_task t f = bind_task t g"
proof (induction t rule: task_induct)
  case (Suspend k)
  have "bind_task (snd (k w)) f = bind_task (snd (k w)) g" for w
    by (rule Suspend.IH) (use Suspend.prems in auto)
  then show ?case by (simp add: map_prod_def split_beta)
qed simp

section \<open>The default gate\<close>

definition never_approves :: "('w, 'j) confirm_bus \<Rightarrow> bool" where
  "never_approves B \<longleftrightarrow> (\<forall>slot event answered. Inr answered \<in> outcomes (cb_handler B slot event) \<longrightarrow> ce_decision answered \<noteq> Approved)"

lemma publish_fold_unapproved:
  assumes "never_approves B" "Inr answered \<in> outcomes (publish_fold B slots event)" "ce_decision event \<noteq> Approved"
  shows "ce_decision answered \<noteq> Approved"
  using assms(2, 3)
proof (induction slots arbitrary: event)
  case (Cons slot slots)
  have "ce_decision event' \<noteq> Approved" if "Inr event' \<in> outcomes (cb_handler B slot event)" for event'
    using that assms(1) by (auto simp: never_approves_def)
  with Cons show ?case by (auto split: if_splits simp: outcomes_bind_sum simp del: outcomes_bind)
qed simp

lemma unconfirmed_gate:
  assumes "never_approves B" "iq_security query \<noteq> Trusted"
  shows "Inr (True, reason) \<notin> outcomes (default_security_check B query)"
proof (cases "iq_security query")
  case RequireConfirm
  have "ce_decision answered \<noteq> Approved" if "Inr answered \<in> outcomes (publish_event B (for_query query))" for answered
    using that publish_fold_unapproved [OF assms(1), of answered _ "for_query query"]
    by (auto simp: publish_event_def for_query_def)
  then have "(True, reason) \<noteq> (case ce_decision answered of Approved \<Rightarrow> (True, x) | Denied \<Rightarrow> (False, y) | Unanswered \<Rightarrow> (False, z))"
    if "Inr answered \<in> outcomes (publish_event B (for_query query))" for answered x y z
    using that by (cases "ce_decision answered") auto
  then show ?thesis
    by (auto simp: default_security_check_def RequireConfirm outcomes_bind_sum simp del: outcomes_bind)
qed (use assms in \<open>simp_all add: default_security_check_def\<close>)

text \<open>A record that says the call failed, answering it.\<close>

definition refusal :: "'j json_lib \<Rightarrow> 'j invoke_query \<Rightarrow> 'j thrown + 'j invoke_return \<Rightarrow> bool" where
  "refusal J query r \<longleftrightarrow> (case r of Inl _ \<Rightarrow> False | Inr record \<Rightarrow> is_error J record \<and> ir_query record = query)"

lemma refusal_failure [simp]: "json_laws J \<Longrightarrow> refusal J query (Inr (failure_record J st th query))"
  by (simp add: refusal_def failure_record_def json_laws.failure_is_error)

text \<open>
  C18. The default gate fails closed. A call whose tool keeps the default gate and that was not settled as
  trusted, put to handlers none of which ever approves (none connected, unanswered, denied, throwing), is
  answered by an error record for that very call, whatever the world does between the segments, and the
  tool's \<^verbatim>\<open>invoke()\<close> is never reached: replacing it changes nothing.
\<close>

theorem fail_closed:
  assumes "json_laws J"
    and "tl_security_check tool = default_security_check B"
    and "iq_security query \<noteq> Trusted"
    and "never_approves B"
  shows "(\<forall>r. r \<in> outcomes (execute_call J (Some tool) query) \<longrightarrow> refusal J query r) \<and>
         execute_call J (Some (tool\<lparr>tl_invoke := invoke'\<rparr>)) query = execute_call J (Some tool) query"
proof (intro conjI allI impI)
  note closed = unconfirmed_gate [OF assms(4, 3)]
  fix r assume "r \<in> outcomes (execute_call J (Some tool) query)"
  then obtain gate where "gate \<in> outcomes (default_security_check B query)" and "r \<in> outcomes (after_gate J tool query gate)"
    by (auto simp: execute_call_def assms(2))
  then show "refusal J query r"
    using closed assms(1) by (auto simp: after_gate_def simp del: outcomes_bind split: sum.split_asm if_split_asm)
next
  note closed = unconfirmed_gate [OF assms(4, 3)]
  have "after_gate J (tool\<lparr>tl_invoke := invoke'\<rparr>) query gate = after_gate J tool query gate"
    if "gate \<in> outcomes (default_security_check B query)" for gate
    using closed that by (auto simp: after_gate_def split: sum.split)
  then show "execute_call J (Some (tool\<lparr>tl_invoke := invoke'\<rparr>)) query = execute_call J (Some tool) query"
    by (auto simp: execute_call_def assms(2) intro!: bind_cong)
qed

text \<open>A handler that leaves the question open, and one that throws.\<close>

definition reluctant_bus :: "(nat, json) confirm_bus" where
  "reluctant_bus =
     \<lparr>cb_slots = (\<lambda>w. [0, 1]), cb_connected = (\<lambda>w slot. slot \<le> w),
      cb_handler = (\<lambda>slot event. Suspend (\<lambda>w. (w + 1,
        Done (if slot = 0 then Inr (event\<lparr>ce_decision := Denied\<rparr>) else Inl (StdException ''busy'')))))\<rparr>"

theorem fail_closed_witness:
  "refusal json_values ((default_query json_values)\<lparr>iq_security := RequireConfirm\<rparr>)
     (snd (run_task (execute_call json_values (Some (default_tool json_values reluctant_bus ''t'')) ((default_query json_values)\<lparr>iq_security := RequireConfirm\<rparr>)) 0))"
proof -
  have "iq_security ((default_query json_values)\<lparr>iq_security := RequireConfirm\<rparr>) \<noteq> Trusted" by simp
  moreover have "never_approves reluctant_bus" by (auto simp: never_approves_def reluctant_bus_def split: if_splits)
  ultimately show ?thesis
    using fail_closed [OF json_values.json_laws_axioms, of "default_tool json_values reluctant_bus ''t''" reluctant_bus "(default_query json_values)\<lparr>iq_security := RequireConfirm\<rparr>"]
      run_outcome [of "execute_call json_values (Some (default_tool json_values reluctant_bus ''t'')) ((default_query json_values)\<lparr>iq_security := RequireConfirm\<rparr>)" 0]
    by (auto simp: default_tool_def)
qed

end
