(* ===== verification/Tool_Registry.thy ===== *)
theory Tool_Registry
  imports Tool_Sets
begin

text \<open>
  The routing table of \<^verbatim>\<open>tools/include/tools/registry.hpp\<close>: registration, removal and lookup.

  Sets are shared objects, so the registry holds pointers (numbers) into a heap of sets, and two entries are
  the same set when the pointers are. The heap is an argument: a set's name, catalogue and phases are what
  the heap says, for as long as it is registered.
\<close>

section \<open>The registry\<close>

type_synonym ('w, 'j, 'h) set_heap = "nat \<Rightarrow> ('w, 'j, 'h) tool_set"

record tool_registry =
  toolset_list :: "nat list"
  lookup_table :: "string \<rightharpoonup> nat"

definition empty_registry :: tool_registry where
  "empty_registry = \<lparr>toolset_list = [], lookup_table = Map.empty\<rparr>"

text \<open>The loop of \<^verbatim>\<open>add()\<close> over the offered names, before anything is changed.\<close>

fun check_offer :: "('w, 'j, 'h) set_heap \<Rightarrow> tool_registry \<Rightarrow> nat \<Rightarrow> string list \<Rightarrow> string list \<Rightarrow> exn option" where
  "check_offer H R p offered [] = None"
| "check_offer H R p offered (name # names) =
     (if name = [] then
        Some (InvalidArgument (''toolset '' @ dquoted (ts_name (H p)) @ '' offers a tool with no name, which no call could route to''))
      else if name \<in> set offered then
        Some (InvalidArgument (''toolset '' @ dquoted (ts_name (H p)) @ '' offers the tool name '' @ dquoted name @
          '' twice: one name must resolve to one tool''))
      else case lookup_table R name of
        Some occupied \<Rightarrow>
          Some (RuntimeError (''duplicated tool name: '' @ name @ '', occupied by: '' @ ts_name (H occupied) @
            '', offered by: '' @ ts_name (H p)))
      | None \<Rightarrow> check_offer H R p (name # offered) names)"

text \<open>\<^verbatim>\<open>emplace\<close> keeps an entry that is there.\<close>

definition emplace :: "nat \<Rightarrow> string \<Rightarrow> (string \<rightharpoonup> nat) \<Rightarrow> (string \<rightharpoonup> nat)" where
  "emplace p name table = (if table name = None then table(name \<mapsto> p) else table)"

definition registry_add :: "('w, 'j, 'h) set_heap \<Rightarrow> nat option \<Rightarrow> tool_registry \<Rightarrow> exn option \<times> tool_registry" where
  "registry_add H tool_set R =
     (case tool_set of
        None \<Rightarrow> (Some (InvalidArgument ''ToolRegistry::add() was given a null toolset''), R)
      | Some p \<Rightarrow>
          let names = supported_names (H p) in
          case check_offer H R p [] names of
            Some e \<Rightarrow> (Some e, R)
          | None \<Rightarrow> (None, \<lparr>toolset_list = toolset_list R @ [p], lookup_table = fold (emplace p) names (lookup_table R)\<rparr>))"

definition registry_remove :: "string \<Rightarrow> tool_registry \<Rightarrow> bool \<times> tool_registry" where
  "registry_remove name R =
     (case lookup_table R name of
        None \<Rightarrow> (False, R)
      | Some removed \<Rightarrow>
          (True, \<lparr>toolset_list = removeAll removed (toolset_list R),
                  lookup_table = (\<lambda>n. if lookup_table R n = Some removed then None else lookup_table R n)\<rparr>))"

definition registry_clear :: "tool_registry \<Rightarrow> tool_registry" where
  "registry_clear R = R\<lparr>lookup_table := Map.empty, toolset_list := []\<rparr>"

definition registry_size :: "tool_registry \<Rightarrow> nat" where
  "registry_size R = length (toolset_list R)"

definition registry_empty :: "tool_registry \<Rightarrow> bool" where
  "registry_empty R \<longleftrightarrow> toolset_list R = []"

definition registry_contains :: "tool_registry \<Rightarrow> string \<Rightarrow> bool" where
  "registry_contains R name \<longleftrightarrow> lookup_table R name \<noteq> None"

definition registry_find :: "tool_registry \<Rightarrow> string \<Rightarrow> nat option" where
  "registry_find R name = lookup_table R name"

fun registry_get_tools :: "('w, 'j, 'h) set_heap \<Rightarrow> nat list \<Rightarrow> 'j invocable list" where
  "registry_get_tools H [] = []"
| "registry_get_tools H (p # ps) = ts_tools (H p) @ registry_get_tools H ps"

fun registry_supported_names :: "('w, 'j, 'h) set_heap \<Rightarrow> nat list \<Rightarrow> string list" where
  "registry_supported_names H [] = []"
| "registry_supported_names H (p # ps) = supported_names (H p) @ registry_supported_names H ps"

text \<open>
  Injecting the sets' skills, in registration order. A throw of \<^verbatim>\<open>add_section\<close> unwinds and leaves the sections
  already injected.
\<close>

fun registry_inject_skills ::
  "('w, 'j, 'h) set_heap \<Rightarrow> nat list \<Rightarrow> prompt_template \<Rightarrow> (exn + nat) \<times> prompt_template" where
  "registry_inject_skills H [] prompt = (Inr 0, prompt)"
| "registry_inject_skills H (p # ps) prompt =
     (case inject_skill (H p) prompt of
        Inl e \<Rightarrow> (Inl e, prompt)
      | Inr (injected, prompt') \<Rightarrow>
          (case registry_inject_skills H ps prompt' of
             (Inl e, prompt'') \<Rightarrow> (Inl e, prompt'')
           | (Inr n, prompt'') \<Rightarrow> (Inr ((if injected then 1 else 0) + n), prompt'')))"

section \<open>Reachable registries\<close>

inductive registry_reach :: "('w, 'j, 'h) set_heap \<Rightarrow> tool_registry \<Rightarrow> bool" for H where
  reach_new: "registry_reach H empty_registry"
| reach_add: "registry_reach H R \<Longrightarrow> registry_reach H (snd (registry_add H tool_set R))"
| reach_remove: "registry_reach H R \<Longrightarrow> registry_reach H (snd (registry_remove name R))"
| reach_clear: "registry_reach H R \<Longrightarrow> registry_reach H (registry_clear R)"

definition registry_ok :: "('w, 'j, 'h) set_heap \<Rightarrow> tool_registry \<Rightarrow> bool" where
  "registry_ok H R \<longleftrightarrow>
     (\<forall>name p. lookup_table R name = Some p \<longleftrightarrow> p \<in> set (toolset_list R) \<and> name \<in> set (supported_names (H p))) \<and>
     distinct (registry_supported_names H (toolset_list R)) \<and>
     [] \<notin> set (registry_supported_names H (toolset_list R))"

text \<open>What \<^verbatim>\<open>add()\<close> asks of an offer.\<close>

definition fresh_offer :: "tool_registry \<Rightarrow> string list \<Rightarrow> bool" where
  "fresh_offer R names \<longleftrightarrow> distinct names \<and> [] \<notin> set names \<and> (\<forall>name \<in> set names. lookup_table R name = None)"

lemma check_offer_None:
  "check_offer H R p offered names = None \<longleftrightarrow> fresh_offer R names \<and> set names \<inter> set offered = {}"
  by (induction names arbitrary: offered) (auto simp: fresh_offer_def split: option.splits)

lemma fold_emplace: "fold (emplace p) names table name =
   (if table name = None \<and> name \<in> set names then Some p else table name)"
  by (induction names arbitrary: table) (auto simp: emplace_def)

lemma registry_names_append [simp]:
  "registry_supported_names H (ps @ qs) = registry_supported_names H ps @ registry_supported_names H qs"
  by (induction ps) auto

lemma registry_names_set: "set (registry_supported_names H ps) = (\<Union>p\<in>set ps. set (supported_names (H p)))"
  by (induction ps) auto

lemma registry_names_tools: "registry_supported_names H ps = map iv_name (registry_get_tools H ps)"
  by (induction ps) (auto simp: supported_names_def)

lemma registry_names_removeAll:
  assumes "distinct (registry_supported_names H ps)"
  shows "distinct (registry_supported_names H (removeAll p ps))" and
    "set (registry_supported_names H (removeAll p ps)) \<subseteq> set (registry_supported_names H ps)"
proof -
  show sub: "set (registry_supported_names H (removeAll p ps)) \<subseteq> set (registry_supported_names H ps)" for ps
    by (auto simp: registry_names_set)
  from assms show "distinct (registry_supported_names H (removeAll p ps))"
    by (induction ps) (use sub in auto)
qed

lemma registry_ok_lookup:
  "registry_ok H R \<Longrightarrow> lookup_table R name = Some p \<longleftrightarrow> p \<in> set (toolset_list R) \<and> name \<in> set (supported_names (H p))"
  by (simp add: registry_ok_def)

lemma registry_ok_names:
  assumes "registry_ok H R"
  shows "lookup_table R name = None \<longleftrightarrow> name \<notin> set (registry_supported_names H (toolset_list R))"
proof -
  have "lookup_table R name = None \<longleftrightarrow> (\<forall>p. lookup_table R name \<noteq> Some p)" by auto
  also have "\<dots> \<longleftrightarrow> name \<notin> set (registry_supported_names H (toolset_list R))"
    unfolding registry_ok_lookup [OF assms] registry_names_set by blast
  finally show ?thesis .
qed

lemma add_success:
  "fst (registry_add H tool_set R) = None \<longleftrightarrow> (\<exists>p. tool_set = Some p \<and> fresh_offer R (supported_names (H p)))"
  by (auto simp: registry_add_def Let_def check_offer_None split: option.splits)
     (metis check_offer_None inf_bot_right list.set(1) option.distinct(1))+

lemma add_failure: "fst (registry_add H tool_set R) \<noteq> None \<Longrightarrow> snd (registry_add H tool_set R) = R"
  by (auto simp: registry_add_def Let_def split: option.splits)

section \<open>The table always agrees with the sets\<close>

lemma registry_ok_add:
  assumes "registry_ok H R"
  shows "registry_ok H (snd (registry_add H tool_set R))"
proof (cases "fst (registry_add H tool_set R)")
  case None
  then obtain p where p: "tool_set = Some p" and fresh: "fresh_offer R (supported_names (H p))"
    by (auto simp: add_success)
  from None p have added: "snd (registry_add H tool_set R) =
      \<lparr>toolset_list = toolset_list R @ [p], lookup_table = fold (emplace p) (supported_names (H p)) (lookup_table R)\<rparr>"
    by (auto simp: registry_add_def Let_def split: option.splits)
  have disjoint: "set (supported_names (H p)) \<inter> set (registry_supported_names H (toolset_list R)) = {}"
    using fresh registry_ok_names [OF assms] by (auto simp: fresh_offer_def)
  have "fold (emplace p) (supported_names (H p)) (lookup_table R) name = Some q \<longleftrightarrow>
      q \<in> set (toolset_list R @ [p]) \<and> name \<in> set (supported_names (H q))" for name q
    using registry_ok_lookup [OF assms, of name q] fresh
    by (cases "name \<in> set (supported_names (H p))") (auto simp: fold_emplace fresh_offer_def)
  with disjoint fresh assms show ?thesis by (auto simp: added registry_ok_def fresh_offer_def)
qed (use assms add_failure in force)

lemma registry_ok_remove:
  assumes "registry_ok H R"
  shows "registry_ok H (snd (registry_remove name R))"
proof (cases "lookup_table R name")
  case (Some removed)
  then have after: "snd (registry_remove name R) = \<lparr>toolset_list = removeAll removed (toolset_list R),
      lookup_table = (\<lambda>n. if lookup_table R n = Some removed then None else lookup_table R n)\<rparr>"
    by (simp add: registry_remove_def)
  have "(if lookup_table R n = Some removed then None else lookup_table R n) = Some p \<longleftrightarrow>
      p \<in> set (removeAll removed (toolset_list R)) \<and> n \<in> set (supported_names (H p))" for n p
    using registry_ok_lookup [OF assms, of n p] by auto
  with assms registry_names_removeAll [of H "toolset_list R" removed]
  show ?thesis by (auto simp: registry_ok_def after simp del: set_removeAll)
qed (use assms in \<open>simp add: registry_remove_def\<close>)

lemma registry_reach_ok: "registry_reach H R \<Longrightarrow> registry_ok H R"
proof (induction rule: registry_reach.induct)
  case reach_new
  show ?case by (simp add: registry_ok_def empty_registry_def)
next
  case (reach_clear R)
  show ?case by (simp add: registry_ok_def registry_clear_def)
qed (simp_all add: registry_ok_add registry_ok_remove)

text \<open>
  C19. Routing is well formed in every registry that registration, removal and clearing can produce: a name
  routes to a set exactly when that set is registered and advertises it, the names of the flattened
  catalogue are pairwise distinct and none is empty, and a name is known exactly when the catalogue has it.
\<close>

theorem registry_routes:
  assumes "registry_reach H R"
  shows "(\<forall>name p. registry_find R name = Some p \<longleftrightarrow> p \<in> set (toolset_list R) \<and> name \<in> set (supported_names (H p))) \<and>
         distinct (map iv_name (registry_get_tools H (toolset_list R))) \<and>
         [] \<notin> set (map iv_name (registry_get_tools H (toolset_list R))) \<and>
         (\<forall>name. registry_contains R name \<longleftrightarrow> name \<in> set (map iv_name (registry_get_tools H (toolset_list R))))"
  using registry_reach_ok [OF assms] registry_ok_names [OF registry_reach_ok [OF assms]]
  unfolding registry_find_def registry_contains_def registry_names_tools [symmetric]
  by (simp add: registry_ok_def)

text \<open>Two sets: a reader and a writer of one tool each.\<close>

definition tools_named :: "string list \<Rightarrow> json invocable list" where
  "tools_named names = map (\<lambda>name. (default_invocable json_values)\<lparr>iv_name := name\<rparr>) names"

definition two_sets :: "(nat, json, (nat, json) tool option) set_heap" where
  "two_sets p = standard_set json_values (if p = 0 then ''files'' else ''shell'')
     (tools_named (if p = 0 then [''read'', ''write''] else [''run''])) (\<lambda>query. Inr None)"

definition two_registered :: tool_registry where
  "two_registered = snd (registry_add two_sets (Some 1) (snd (registry_add two_sets (Some 0) empty_registry)))"

lemma two_registered_reach: "registry_reach two_sets two_registered"
  unfolding two_registered_def by (intro registry_reach.intros)

lemma two_sets_names: "supported_names (two_sets p) = (if p = 0 then [''read'', ''write''] else [''run''])"
  by (simp add: two_sets_def supported_names_def standard_set_def tools_named_def)

lemma two_registered_value: "two_registered = \<lparr>toolset_list = [0, 1], lookup_table = [''read'' \<mapsto> 0, ''write'' \<mapsto> 0, ''run'' \<mapsto> 1]\<rparr>"
  by (simp add: two_registered_def registry_add_def two_sets_names Let_def empty_registry_def emplace_def)

theorem registry_routes_witness:
  "registry_find two_registered ''run'' = Some 1 \<and> \<not> registry_contains two_registered ''list''"
  using registry_routes [OF two_registered_reach]
  unfolding registry_names_tools [symmetric] by (simp add: two_registered_value two_sets_names)

text \<open>
  Registration is all or nothing, and removal undoes it. \<^verbatim>\<open>add()\<close> succeeds exactly on a set that exists,
  whose names are distinct, non-empty and all free; when it throws, the registry is as it was; and after a
  successful \<^verbatim>\<open>add()\<close>, removing any one name of the set restores the registry exactly.
\<close>

theorem add_remove_roundtrip:
  assumes "registry_reach H R"
  shows "(fst (registry_add H tool_set R) = None \<longleftrightarrow> (\<exists>p. tool_set = Some p \<and> fresh_offer R (supported_names (H p)))) \<and>
         (fst (registry_add H tool_set R) \<noteq> None \<longrightarrow> snd (registry_add H tool_set R) = R) \<and>
         (\<forall>p name. tool_set = Some p \<and> fst (registry_add H tool_set R) = None \<and> name \<in> set (supported_names (H p)) \<longrightarrow>
            registry_remove name (snd (registry_add H tool_set R)) = (True, R))"
proof (intro conjI allI impI)
  fix p name
  assume *: "tool_set = Some p \<and> fst (registry_add H tool_set R) = None \<and> name \<in> set (supported_names (H p))"
  note ok = registry_reach_ok [OF assms]
  from * have fresh: "fresh_offer R (supported_names (H p))" by (auto simp: add_success)
  with * have new: "p \<notin> set (toolset_list R)"
    using registry_ok_lookup [OF ok, of name p] by (auto simp: fresh_offer_def)
  then have unused: "lookup_table R n \<noteq> Some p" for n using registry_ok_lookup [OF ok] by simp
  from * have added: "snd (registry_add H tool_set R) =
      \<lparr>toolset_list = toolset_list R @ [p], lookup_table = fold (emplace p) (supported_names (H p)) (lookup_table R)\<rparr>"
    by (auto simp: registry_add_def Let_def split: option.splits)
  have "(\<lambda>n. if fold (emplace p) (supported_names (H p)) (lookup_table R) n = Some p then None
      else fold (emplace p) (supported_names (H p)) (lookup_table R) n) = lookup_table R"
    using fresh unused by (auto simp: fold_emplace fresh_offer_def fun_eq_iff)
  moreover have "fold (emplace p) (supported_names (H p)) (lookup_table R) name = Some p"
    using * fresh by (simp add: fold_emplace fresh_offer_def)
  ultimately show "registry_remove name (snd (registry_add H tool_set R)) = (True, R)"
    using new by (simp add: registry_remove_def added cong: if_cong)
qed (simp_all add: add_success add_failure)

theorem add_remove_roundtrip_witness:
  "registry_remove ''write'' (snd (registry_add two_sets (Some 0) empty_registry)) = (True, empty_registry) \<and>
   snd (registry_add two_sets None two_registered) = two_registered"
proof -
  have "fst (registry_add two_sets (Some 0) empty_registry) = None"
    by (simp add: registry_add_def two_sets_names Let_def empty_registry_def)
  moreover have "fst (registry_add two_sets None two_registered) \<noteq> None" by (simp add: registry_add_def)
  ultimately show ?thesis
    using add_remove_roundtrip [OF reach_new, of two_sets "Some 0"] add_remove_roundtrip [OF two_registered_reach, of None]
    by (simp add: two_sets_names)
qed

end
