(* ===== verification/Tool_Batch.thy ===== *)
theory Tool_Batch
  imports Tool_Registry "HOL-Library.Multiset"
begin

text \<open>
  \<^verbatim>\<open>ToolRegistry::execute\<close> of \<^verbatim>\<open>tools/include/tools/registry.hpp\<close>: one batch of calls, settled, run and
  assembled.

  Settling is synchronous and a function. Running is a step relation on the world and the batch: a segment of
  a call is one step, the segments of parallel branches interleave in any order, and \<open>Outside\<close> is whatever
  else the host does. The report channel has room for every branch, so a report never waits; a send that
  throws leaves an empty message.
\<close>

section \<open>Settling\<close>

record ('j, 'h) prepared_call =
  pc_index :: nat
  pc_set :: nat
  pc_tool :: 'h
  pc_query :: "'j invoke_query"

fun may_run_in_parallel :: "invoke_type \<Rightarrow> bool" where
  "may_run_in_parallel ReadOnly = True"
| "may_run_in_parallel ParallWrite = True"
| "may_run_in_parallel SerialWrite = False"

definition broken_set ::
  "'j json_lib \<Rightarrow> ('w, 'j, 'h) tool_set \<Rightarrow> string \<Rightarrow> string \<Rightarrow> 'j invoke_query \<Rightarrow> 'j invoke_return" where
  "broken_set J ts phase what query =
     to_invoke_return J (InvokeException UnknownStage
       (''toolset '' @ dquoted (ts_name ts) @ '' broke its contract '' @ phase @ '': '' @ what) query None)"

text \<open>What the catch clauses report of a throw.\<close>

fun thrown_what :: "'j thrown \<Rightarrow> string" where
  "thrown_what (InvokeFailure e) = what_of e"
| "thrown_what (StdException m) = m"
| "thrown_what ForeignThrow = ''an unknown error, not a std::exception''"

text \<open>The body of the settling loop: the query as it is left, and the record or the prepared call.\<close>

definition settle_call ::
  "'j json_lib \<Rightarrow> ('w, 'j, 'h) set_heap \<Rightarrow> tool_registry \<Rightarrow> nat \<Rightarrow> 'j invoke_query \<Rightarrow>
   'j invoke_query \<times> ('j invoke_return + ('j, 'h) prepared_call)" where
  "settle_call J H R index query =
     (case registry_find R (iq_name query) of
        None \<Rightarrow> (query, Inl (to_invoke_return J (InvokeException Dispatch
          (''no toolset in the registry provides a tool named '' @ dquoted (iq_name query)) query None)))
      | Some p \<Rightarrow>
          (case ts_prepare (H p) query of
             (Inr tool, settled) \<Rightarrow> (settled, Inr \<lparr>pc_index = index, pc_set = p, pc_tool = tool, pc_query = settled\<rparr>)
           | (Inl (InvokeFailure failure), left) \<Rightarrow> (left, Inl (answer_failure J failure left))
           | (Inl th, left) \<Rightarrow> (left, Inl (broken_set J (H p) ''while settling the call'' (thrown_what th) left))))"

record ('j, 'h) settled_batch =
  sb_queries :: "'j invoke_query list"
  sb_records :: "'j invoke_return option list"
  sb_serial :: "('j, 'h) prepared_call list"
  sb_parallel :: "('j, 'h) prepared_call list"

fun settle_calls ::
  "'j json_lib \<Rightarrow> ('w, 'j, 'h) set_heap \<Rightarrow> tool_registry \<Rightarrow> nat \<Rightarrow> 'j invoke_query list \<Rightarrow> ('j, 'h) settled_batch" where
  "settle_calls J H R index [] = \<lparr>sb_queries = [], sb_records = [], sb_serial = [], sb_parallel = []\<rparr>"
| "settle_calls J H R index (query # queries) =
     (let (settled, outcome) = settle_call J H R index query;
          rest = settle_calls J H R (Suc index) queries in
      case outcome of
        Inl r \<Rightarrow> rest\<lparr>sb_queries := settled # sb_queries rest, sb_records := Some r # sb_records rest\<rparr>
      | Inr c \<Rightarrow>
          let rest' = rest\<lparr>sb_queries := settled # sb_queries rest, sb_records := None # sb_records rest\<rparr> in
          if may_run_in_parallel (iq_type settled) then rest'\<lparr>sb_parallel := c # sb_parallel rest\<rparr>
          else rest'\<lparr>sb_serial := c # sb_serial rest\<rparr>)"

section \<open>Running\<close>

definition run_settled :: "'j json_lib \<Rightarrow> ('w, 'j, 'h) set_heap \<Rightarrow> ('j, 'h) prepared_call \<Rightarrow> ('w, 'j invoke_return) task" where
  "run_settled J H c =
     bind_task (ts_execute (H (pc_set c)) (pc_tool c) (pc_query c)) (\<lambda>r.
       case r of
         Inr answer \<Rightarrow> Done (correlate J answer (pc_query c))
       | Inl th \<Rightarrow> Done (broken_set J (H (pc_set c)) ''out of execute()'' (thrown_what th) (pc_query c)))"

definition missing_record :: "'j json_lib \<Rightarrow> 'j invoke_query \<Rightarrow> 'j invoke_return" where
  "missing_record J query = to_invoke_return J (InvokeException UnknownStage ''the batch produced no record for this call'' query None)"

fun assemble :: "'j json_lib \<Rightarrow> 'j invoke_query list \<Rightarrow> 'j invoke_return option list \<Rightarrow> 'j invoke_return list" where
  "assemble J (query # queries) (Some r # records) = r # assemble J queries records"
| "assemble J (query # queries) (None # records) = missing_record J query # assemble J queries records"
| "assemble J queries records = []"

text \<open>
  Where a batch is: running the serial calls (those left, the one in flight, the parallel calls waiting),
  joining the branches (those in flight, the channel, the receives left), or done.
\<close>

datatype ('w, 'j, 'h) batch_phase =
    Serial "('j, 'h) prepared_call list" "(nat \<times> ('w, 'j invoke_return) task) option" "('j, 'h) prepared_call list"
  | Joining "(nat \<times> ('w, 'j invoke_return) task) list" "(nat \<times> 'j invoke_return) option list" nat
  | Assembled "'j invoke_return list"

record ('w, 'j, 'h) batch =
  bt_queries :: "'j invoke_query list"
  bt_records :: "'j invoke_return option list"
  bt_phase :: "('w, 'j, 'h) batch_phase"

definition start_batch ::
  "'j json_lib \<Rightarrow> ('w, 'j, 'h) set_heap \<Rightarrow> tool_registry \<Rightarrow> 'j invoke_query list \<Rightarrow> ('w, 'j, 'h) batch" where
  "start_batch J H R queries =
     (let s = settle_calls J H R 0 queries in
      \<lparr>bt_queries = sb_queries s, bt_records = sb_records s, bt_phase = Serial (sb_serial s) None (sb_parallel s)\<rparr>)"

definition spawn_calls ::
  "'j json_lib \<Rightarrow> ('w, 'j, 'h) set_heap \<Rightarrow> ('j, 'h) prepared_call list \<Rightarrow> (nat \<times> ('w, 'j invoke_return) task) list" where
  "spawn_calls J H calls = map (\<lambda>c. (pc_index c, run_settled J H c)) calls"

definition file_report :: "(nat \<times> 'j invoke_return) option \<Rightarrow> 'j invoke_return option list \<Rightarrow> 'j invoke_return option list" where
  "file_report report records = (case report of None \<Rightarrow> records | Some (index, r) \<Rightarrow> records[index := Some r])"

datatype batch_event = Segment nat | Lost nat | Tick | Outside

inductive batch_step ::
  "'j json_lib \<Rightarrow> ('w, 'j, 'h) set_heap \<Rightarrow> 'w \<times> ('w, 'j, 'h) batch \<Rightarrow> batch_event \<Rightarrow> 'w \<times> ('w, 'j, 'h) batch \<Rightarrow> bool"
  for J H where
  step_outside: "batch_step J H (w, b) Outside (w', b)"
| step_serial_start: "bt_phase b = Serial (c # calls) None waiting \<Longrightarrow>
    batch_step J H (w, b) Tick (w, b\<lparr>bt_phase := Serial calls (Some (pc_index c, run_settled J H c)) waiting\<rparr>)"
| step_serial_segment: "bt_phase b = Serial calls (Some (i, Suspend k)) waiting \<Longrightarrow>
    batch_step J H (w, b) (Segment i) (fst (k w), b\<lparr>bt_phase := Serial calls (Some (i, snd (k w))) waiting\<rparr>)"
| step_serial_filed: "bt_phase b = Serial calls (Some (i, Done r)) waiting \<Longrightarrow>
    batch_step J H (w, b) Tick (w, b\<lparr>bt_records := (bt_records b)[i := Some r], bt_phase := Serial calls None waiting\<rparr>)"
| step_spawn: "bt_phase b = Serial [] None waiting \<Longrightarrow> waiting \<noteq> [] \<Longrightarrow>
    batch_step J H (w, b) Tick (w, b\<lparr>bt_phase := Joining (spawn_calls J H waiting) [] (length waiting)\<rparr>)"
| step_no_parallel: "bt_phase b = Serial [] None [] \<Longrightarrow>
    batch_step J H (w, b) Tick (w, b\<lparr>bt_phase := Assembled (assemble J (bt_queries b) (bt_records b))\<rparr>)"
| step_branch_segment: "bt_phase b = Joining (xs @ (i, Suspend k) # ys) channel n \<Longrightarrow>
    batch_step J H (w, b) (Segment i) (fst (k w), b\<lparr>bt_phase := Joining (xs @ (i, snd (k w)) # ys) channel n\<rparr>)"
| step_branch_report: "bt_phase b = Joining (xs @ (i, Done r) # ys) channel n \<Longrightarrow>
    batch_step J H (w, b) Tick (w, b\<lparr>bt_phase := Joining (xs @ ys) (channel @ [Some (i, r)]) n\<rparr>)"
| step_branch_lost: "bt_phase b = Joining (xs @ (i, Done r) # ys) channel n \<Longrightarrow>
    batch_step J H (w, b) (Lost i) (w, b\<lparr>bt_phase := Joining (xs @ ys) (channel @ [None]) n\<rparr>)"
| step_collect: "bt_phase b = Joining branches (report # channel) (Suc n) \<Longrightarrow>
    batch_step J H (w, b) Tick
      (w, b\<lparr>bt_records := file_report report (bt_records b), bt_phase := Joining branches channel n\<rparr>)"
| step_joined: "bt_phase b = Joining branches channel 0 \<Longrightarrow>
    batch_step J H (w, b) Tick (w, b\<lparr>bt_phase := Assembled (assemble J (bt_queries b) (bt_records b))\<rparr>)"

inductive batch_run ::
  "'j json_lib \<Rightarrow> ('w, 'j, 'h) set_heap \<Rightarrow> 'w \<times> ('w, 'j, 'h) batch \<Rightarrow> batch_event list \<Rightarrow> 'w \<times> ('w, 'j, 'h) batch \<Rightarrow> bool"
  for J H s where
  run_none: "batch_run J H s [] s"
| run_more: "batch_run J H s events s' \<Longrightarrow> batch_step J H s' e s'' \<Longrightarrow> batch_run J H s (events @ [e]) s''"

section \<open>What settling leaves\<close>

definition settled_query :: "'j json_lib \<Rightarrow> ('w, 'j, 'h) set_heap \<Rightarrow> tool_registry \<Rightarrow> 'j invoke_query list \<Rightarrow> nat \<Rightarrow> 'j invoke_query" where
  "settled_query J H R queries i = fst (settle_call J H R i (queries ! i))"

definition settled_outcome ::
  "'j json_lib \<Rightarrow> ('w, 'j, 'h) set_heap \<Rightarrow> tool_registry \<Rightarrow> 'j invoke_query list \<Rightarrow> nat \<Rightarrow> 'j invoke_return + ('j, 'h) prepared_call" where
  "settled_outcome J H R queries i = snd (settle_call J H R i (queries ! i))"

lemma record_queries [simp]: "ir_query (broken_set J ts phase what query) = query" "ir_query (missing_record J query) = query"
  by (simp_all add: broken_set_def missing_record_def InvokeException_def)

lemma settle_call_answer: "snd (settle_call J H R i query) = Inl r \<Longrightarrow> ir_query r = fst (settle_call J H R i query)"
  by (auto simp: settle_call_def InvokeException_def split: option.splits prod.splits sum.splits thrown.splits)

lemma settle_call_prepared:
  "snd (settle_call J H R i query) = Inr c \<Longrightarrow> pc_index c = i \<and> pc_query c = fst (settle_call J H R i query)"
  by (auto simp: settle_call_def split: option.splits prod.splits sum.splits thrown.splits)

lemma run_settled_answer: "r \<in> outcomes (run_settled J H c) \<Longrightarrow> ir_query r = pc_query c"
  by (auto simp: run_settled_def outcomes_bind_sum simp del: outcomes_bind)

text \<open>The fields of a settled batch, by position.\<close>

lemma settle_calls_Cons:
  assumes "settle_call J H R k query = (settled, outcome)"
  shows "sb_queries (settle_calls J H R k (query # queries)) = settled # sb_queries (settle_calls J H R (Suc k) queries)"
    and "sb_records (settle_calls J H R k (query # queries)) =
      (case outcome of Inl r \<Rightarrow> Some r | Inr _ \<Rightarrow> None) # sb_records (settle_calls J H R (Suc k) queries)"
    and "sb_serial (settle_calls J H R k (query # queries)) =
      (case outcome of Inr c \<Rightarrow> (if may_run_in_parallel (iq_type settled) then [] else [c]) | Inl _ \<Rightarrow> []) @
        sb_serial (settle_calls J H R (Suc k) queries)"
    and "sb_parallel (settle_calls J H R k (query # queries)) =
      (case outcome of Inr c \<Rightarrow> (if may_run_in_parallel (iq_type settled) then [c] else []) | Inl _ \<Rightarrow> []) @
        sb_parallel (settle_calls J H R (Suc k) queries)"
  using assms by (simp_all add: Let_def split: sum.split)

lemma settle_calls_shape:
  "length (sb_queries (settle_calls J H R k queries)) = length queries \<and>
   length (sb_records (settle_calls J H R k queries)) = length queries \<and>
   (\<forall>i < length queries.
      sb_queries (settle_calls J H R k queries) ! i = fst (settle_call J H R (k + i) (queries ! i)) \<and>
      sb_records (settle_calls J H R k queries) ! i =
        (case snd (settle_call J H R (k + i) (queries ! i)) of Inl r \<Rightarrow> Some r | Inr _ \<Rightarrow> None))"
proof (induction queries arbitrary: k)
  case (Cons query queries)
  obtain settled outcome where eq: "settle_call J H R k query = (settled, outcome)" by fastforce
  from Cons [of "Suc k"] show ?case
    by (simp add: settle_calls_Cons [OF eq] eq All_less_Suc2 del: settle_calls.simps)
qed simp

lemma settle_calls_groups:
  "set (sb_serial (settle_calls J H R k queries)) =
     {c. \<exists>i < length queries. snd (settle_call J H R (k + i) (queries ! i)) = Inr c \<and> \<not> may_run_in_parallel (iq_type (pc_query c))} \<and>
   set (sb_parallel (settle_calls J H R k queries)) =
     {c. \<exists>i < length queries. snd (settle_call J H R (k + i) (queries ! i)) = Inr c \<and> may_run_in_parallel (iq_type (pc_query c))}"
proof (induction queries arbitrary: k)
  case (Cons query queries)
  obtain settled outcome where eq: "settle_call J H R k query = (settled, outcome)" by fastforce
  have "pc_query c = settled" if "outcome = Inr c" for c using settle_call_prepared [of J H R k query c] eq that by simp
  then show ?case
    by (auto simp: settle_calls_Cons [OF eq] Cons.IH [of "Suc k"] eq Ex_less_Suc2 simp del: settle_calls.simps split: sum.splits)
qed simp

lemma settle_calls_order: "sorted_wrt (<) (map pc_index (sb_serial (settle_calls J H R k queries)))"
proof (induction queries arbitrary: k)
  case (Cons query queries)
  obtain settled outcome where eq: "settle_call J H R k query = (settled, outcome)" by fastforce
  have "pc_index c = k" if "outcome = Inr c" for c using settle_call_prepared [of J H R k query c] eq that by simp
  moreover have "k < pc_index c" if "c \<in> set (sb_serial (settle_calls J H R (Suc k) queries))" for c
    using that settle_call_prepared by (fastforce simp: settle_calls_groups)
  ultimately show ?case using Cons.IH [of "Suc k"]
    by (auto simp: settle_calls_Cons [OF eq] simp del: settle_calls.simps split: sum.split)
qed simp

section \<open>The invariant of a running batch\<close>

text \<open>A task in flight for position \<open>i\<close> can only end the way running the call settled there can.\<close>

definition task_ok ::
  "'j json_lib \<Rightarrow> ('w, 'j, 'h) set_heap \<Rightarrow> tool_registry \<Rightarrow> 'j invoke_query list \<Rightarrow> nat \<times> ('w, 'j invoke_return) task \<Rightarrow> bool" where
  "task_ok J H R queries x \<longleftrightarrow> fst x < length queries \<and>
     (\<exists>c. settled_outcome J H R queries (fst x) = Inr c \<and> outcomes (snd x) \<subseteq> outcomes (run_settled J H c))"

definition planned ::
  "'j json_lib \<Rightarrow> ('w, 'j, 'h) set_heap \<Rightarrow> tool_registry \<Rightarrow> 'j invoke_query list \<Rightarrow> ('j, 'h) prepared_call \<Rightarrow> bool" where
  "planned J H R queries c \<longleftrightarrow> pc_index c < length queries \<and> settled_outcome J H R queries (pc_index c) = Inr c"

fun phase_ok ::
  "'j json_lib \<Rightarrow> ('w, 'j, 'h) set_heap \<Rightarrow> tool_registry \<Rightarrow> 'j invoke_query list \<Rightarrow> ('w, 'j, 'h) batch_phase \<Rightarrow> bool" where
  "phase_ok J H R queries (Serial calls current waiting) \<longleftrightarrow>
     (\<forall>c \<in> set calls \<union> set waiting. planned J H R queries c) \<and> (\<forall>x \<in> set_option current. task_ok J H R queries x)"
| "phase_ok J H R queries (Joining branches channel n) \<longleftrightarrow>
     (\<forall>x \<in> set branches. task_ok J H R queries x) \<and>
     (\<forall>i r. Some (i, r) \<in> set channel \<longrightarrow> task_ok J H R queries (i, Done r)) \<and> n = length branches + length channel"
| "phase_ok J H R queries (Assembled results) \<longleftrightarrow> True"

text \<open>The positions a phase still has to file.\<close>

fun unfiled :: "('w, 'j, 'h) batch_phase \<Rightarrow> nat set" where
  "unfiled (Serial calls current waiting) = pc_index ` (set calls \<union> set waiting) \<union> fst ` set_option current"
| "unfiled (Joining branches channel n) = fst ` set branches \<union> {i. \<exists>r. Some (i, r) \<in> set channel}"
| "unfiled (Assembled results) = {}"

definition slot_ok ::
  "'j json_lib \<Rightarrow> ('w, 'j, 'h) set_heap \<Rightarrow> 'j invoke_return + ('j, 'h) prepared_call \<Rightarrow> bool \<Rightarrow> 'j invoke_return option \<Rightarrow> bool" where
  "slot_ok J H outcome excused slot \<longleftrightarrow>
     (case outcome of
        Inl r \<Rightarrow> slot = Some r
      | Inr c \<Rightarrow> (case slot of None \<Rightarrow> excused | Some r \<Rightarrow> r \<in> outcomes (run_settled J H c)))"

definition batch_ok ::
  "'j json_lib \<Rightarrow> ('w, 'j, 'h) set_heap \<Rightarrow> tool_registry \<Rightarrow> 'j invoke_query list \<Rightarrow> batch_event list \<Rightarrow> ('w, 'j, 'h) batch \<Rightarrow> bool" where
  "batch_ok J H R queries events b \<longleftrightarrow>
     bt_queries b = map (settled_query J H R queries) [0..<length queries] \<and>
     length (bt_records b) = length queries \<and>
     (\<forall>i < length queries. slot_ok J H (settled_outcome J H R queries i) (i \<in> unfiled (bt_phase b) \<or> Lost i \<in> set events) (bt_records b ! i)) \<and>
     phase_ok J H R queries (bt_phase b) \<and>
     (\<forall>results. bt_phase b = Assembled results \<longrightarrow> results = assemble J (bt_queries b) (bt_records b))"

lemma slot_ok_mono: "slot_ok J H outcome e slot \<Longrightarrow> (e \<Longrightarrow> e') \<Longrightarrow> slot_ok J H outcome e' slot"
  by (auto simp: slot_ok_def split: sum.splits option.splits)

lemma slot_ok_filed: "task_ok J H R queries (i, Done r) \<Longrightarrow> slot_ok J H (settled_outcome J H R queries i) e (Some r)"
  by (auto simp: slot_ok_def task_ok_def)

lemma slot_ok_update:
  assumes "task_ok J H R queries (i, Done r)" "slot_ok J H (settled_outcome J H R queries j) e (records ! j)" "j < length records" "e \<Longrightarrow> j = i \<or> e'"
  shows "slot_ok J H (settled_outcome J H R queries j) e' (records[i := Some r] ! j)"
  using assms by (cases "j = i") (auto simp: slot_ok_filed elim!: slot_ok_mono)

lemma planned_task: "planned J H R queries c \<Longrightarrow> task_ok J H R queries (pc_index c, run_settled J H c)"
  by (auto simp: planned_def task_ok_def)

lemma task_ok_segment: "task_ok J H R queries (i, Suspend k) \<Longrightarrow> task_ok J H R queries (i, snd (k w))"
  by (fastforce simp: task_ok_def)

lemma batch_ok_start: "batch_ok J H R queries [] (start_batch J H R queries)"
proof -
  let ?s = "settle_calls J H R 0 queries"
  note shape = settle_calls_shape [of J H R 0 queries] and groups = settle_calls_groups [of J H R 0 queries]
  have planned: "planned J H R queries c" if "c \<in> set (sb_serial ?s) \<union> set (sb_parallel ?s)" for c
    using that groups settle_call_prepared by (fastforce simp: planned_def settled_outcome_def)
  have "slot_ok J H (settled_outcome J H R queries i) (i \<in> pc_index ` (set (sb_serial ?s) \<union> set (sb_parallel ?s))) (sb_records ?s ! i)"
    if "i < length queries" for i
  proof (cases "settled_outcome J H R queries i")
    case (Inr c)
    then have "c \<in> set (sb_serial ?s) \<union> set (sb_parallel ?s)" and "pc_index c = i"
      using that groups settle_call_prepared [of J H R i "queries ! i" c] by (auto simp: settled_outcome_def)
    with Inr that shape show ?thesis by (auto simp: slot_ok_def settled_outcome_def)
  qed (use that shape in \<open>auto simp: slot_ok_def settled_outcome_def\<close>)
  with shape planned show ?thesis
    by (auto simp: batch_ok_def start_batch_def Let_def settled_query_def intro!: nth_equalityI)
qed

lemma batch_ok_step:
  assumes "batch_step J H s e s'" "batch_ok J H R queries events (snd s)"
  shows "batch_ok J H R queries (events @ [e]) (snd s')"
  using assms
proof (cases rule: batch_step.cases)
  case (step_outside w b w')
  then show ?thesis using assms(2) by (auto simp: batch_ok_def elim: slot_ok_mono)
next
  case (step_serial_start b c calls waiting w)
  then show ?thesis using assms(2) by (auto simp: batch_ok_def planned_task elim!: slot_ok_mono)
next
  case (step_serial_segment b calls i k waiting w)
  then show ?thesis using assms(2) by (auto simp: batch_ok_def task_ok_segment elim!: slot_ok_mono)
next
  case (step_serial_filed b calls i r waiting w)
  then show ?thesis using assms(2) by (auto simp: batch_ok_def intro!: slot_ok_update)
next
  case (step_spawn b waiting w)
  then show ?thesis using assms(2) by (auto simp: batch_ok_def spawn_calls_def planned_task image_image elim!: slot_ok_mono)
next
  case (step_no_parallel b w)
  then show ?thesis using assms(2) by (auto simp: batch_ok_def elim!: slot_ok_mono)
next
  case (step_branch_segment b xs i k ys channel n w)
  then show ?thesis using assms(2) by (auto simp: batch_ok_def task_ok_segment elim!: slot_ok_mono)
next
  case (step_branch_report b xs i r ys channel n w)
  then show ?thesis using assms(2) by (auto simp: batch_ok_def elim!: slot_ok_mono)
next
  case (step_branch_lost b xs i r ys channel n w)
  then show ?thesis using assms(2) by (auto simp: batch_ok_def elim!: slot_ok_mono)
next
  case (step_collect b branches report channel n w)
  then show ?thesis using assms(2)
    by (cases report) (auto simp: batch_ok_def file_report_def intro!: slot_ok_update)
next
  case (step_joined b branches channel w)
  then show ?thesis using assms(2) by (auto simp: batch_ok_def elim!: slot_ok_mono)
qed

lemma batch_ok_run:
  "batch_run J H (w, start_batch J H R queries) events s \<Longrightarrow> batch_ok J H R queries events (snd s)"
  by (induction rule: batch_run.induct) (auto intro: batch_ok_start batch_ok_step)
section \<open>Every call is answered\<close>

lemma assemble_nth:
  "length records = length queries \<Longrightarrow> length (assemble J queries records) = length queries \<and>
     (\<forall>i < length queries. assemble J queries records ! i = (case records ! i of Some r \<Rightarrow> r | None \<Rightarrow> missing_record J (queries ! i)))"
proof (induction J queries records rule: assemble.induct)
qed (auto simp: All_less_Suc2 split: option.split)

text \<open>
  C15. Every call of a batch is answered exactly once, by position, whatever the interleaving. When a batch is
  assembled there is one record per call; the record at \<open>i\<close> carries the query as settled at \<open>i\<close>; a call that
  failed to settle (an unknown tool, a failing or broken set) has the record made then; any other call has a
  record its own run produced, unless the send of its report failed, and then the record that says so.
\<close>

theorem batch_answers:
  assumes "batch_run J H (w, start_batch J H R queries) events (w', b)"
    and "bt_phase b = Assembled results"
  shows "length results = length queries \<and>
         (\<forall>i < length queries.
            ir_query (results ! i) = settled_query J H R queries i \<and>
            (case settled_outcome J H R queries i of
               Inl r \<Rightarrow> results ! i = r
             | Inr c \<Rightarrow> results ! i \<in> outcomes (run_settled J H c) \<or>
                 Lost i \<in> set events \<and> results ! i = missing_record J (pc_query c)))"
proof -
  from batch_ok_run [OF assms(1)] assms(2)
  have results: "results = assemble J (bt_queries b) (bt_records b)"
    and queries: "bt_queries b = map (settled_query J H R queries) [0..<length queries]"
    and records: "length (bt_records b) = length queries"
    and slots: "\<forall>i < length queries. slot_ok J H (settled_outcome J H R queries i) (Lost i \<in> set events) (bt_records b ! i)"
    by (auto simp: batch_ok_def)
  from records queries have len: "length (bt_records b) = length (bt_queries b)" by simp
  have "ir_query (results ! i) = settled_query J H R queries i \<and>
      (case settled_outcome J H R queries i of
         Inl r \<Rightarrow> results ! i = r
       | Inr c \<Rightarrow> results ! i \<in> outcomes (run_settled J H c) \<or> Lost i \<in> set events \<and> results ! i = missing_record J (pc_query c))"
    if "i < length queries" for i
  proof (cases "settled_outcome J H R queries i")
    case (Inl r)
    with that slots show ?thesis
      using assemble_nth [OF len] queries settle_call_answer [of J H R i "queries ! i" r]
      by (auto simp: results slot_ok_def settled_outcome_def settled_query_def)
  next
    case (Inr c)
    then have "pc_query c = settled_query J H R queries i"
      using settle_call_prepared [of J H R i "queries ! i" c] by (simp add: settled_outcome_def settled_query_def)
    with that slots Inr show ?thesis
      using assemble_nth [OF len] queries run_settled_answer [of _ J H c]
      by (auto simp: results slot_ok_def split: option.splits)
  qed
  then show ?thesis using assemble_nth [OF len] queries by (simp add: results)
qed

section \<open>Serial calls have the batch to themselves\<close>

definition serial_at :: "'j json_lib \<Rightarrow> ('w, 'j, 'h) set_heap \<Rightarrow> tool_registry \<Rightarrow> 'j invoke_query list \<Rightarrow> nat \<Rightarrow> bool" where
  "serial_at J H R queries i \<longleftrightarrow> \<not> may_run_in_parallel (iq_type (settled_query J H R queries i))"

fun segments :: "batch_event list \<Rightarrow> nat list" where
  "segments [] = []"
| "segments (Segment i # events) = i # segments events"
| "segments (e # events) = segments events"

lemma segments_append [simp]: "segments (xs @ ys) = segments xs @ segments ys"
  by (induction xs rule: segments.induct) auto

text \<open>Which segments may come before which.\<close>

definition before_ok :: "'j json_lib \<Rightarrow> ('w, 'j, 'h) set_heap \<Rightarrow> tool_registry \<Rightarrow> 'j invoke_query list \<Rightarrow> nat \<Rightarrow> nat \<Rightarrow> bool" where
  "before_ok J H R queries i j \<longleftrightarrow> (serial_at J H R queries j \<longrightarrow> serial_at J H R queries i \<and> i \<le> j)"

text \<open>The serial positions still to come, in order.\<close>

fun upcoming :: "(nat \<times> ('w, 'a) task) option \<Rightarrow> ('j, 'h) prepared_call list \<Rightarrow> nat list" where
  "upcoming None calls = map pc_index calls"
| "upcoming (Some (i, t)) calls = i # map pc_index calls"

fun schedule_ok ::
  "'j json_lib \<Rightarrow> ('w, 'j, 'h) set_heap \<Rightarrow> tool_registry \<Rightarrow> 'j invoke_query list \<Rightarrow> nat list \<Rightarrow> ('w, 'j, 'h) batch_phase \<Rightarrow> bool" where
  "schedule_ok J H R queries past (Serial calls current waiting) \<longleftrightarrow>
     (\<forall>c \<in> set waiting. \<not> serial_at J H R queries (pc_index c)) \<and>
     (\<forall>i \<in> set past \<union> set (upcoming current calls). serial_at J H R queries i) \<and>
     sorted_wrt (<) (upcoming current calls) \<and>
     (\<forall>i \<in> set past. \<forall>j \<in> set (upcoming current calls). i \<le> j)"
| "schedule_ok J H R queries past (Joining branches channel n) \<longleftrightarrow> (\<forall>x \<in> set branches. \<not> serial_at J H R queries (fst x))"
| "schedule_ok J H R queries past (Assembled results) \<longleftrightarrow> True"

lemma schedule_ok_start: "schedule_ok J H R queries [] (bt_phase (start_batch J H R queries))"
proof -
  note groups = settle_calls_groups [of J H R 0 queries]
  have "serial_at J H R queries (pc_index c) \<longleftrightarrow> \<not> may_run_in_parallel (iq_type (pc_query c))"
    if "snd (settle_call J H R i (queries ! i)) = Inr c" for i c
    using settle_call_prepared [OF that] by (simp add: serial_at_def settled_query_def)
  with groups settle_calls_order [of J H R 0 queries] show ?thesis
    by (auto simp: start_batch_def Let_def)
qed

lemma schedule_ok_step:
  assumes "batch_step J H s e s'" "schedule_ok J H R queries past (bt_phase (snd s))" "sorted_wrt (before_ok J H R queries) past"
  shows "schedule_ok J H R queries (past @ segments [e]) (bt_phase (snd s')) \<and> sorted_wrt (before_ok J H R queries) (past @ segments [e])"
  using assms
  by (cases rule: batch_step.cases)
     (auto simp: sorted_wrt_append before_ok_def spawn_calls_def)

lemma schedule_ok_run:
  assumes "batch_run J H (w, start_batch J H R queries) events s"
  shows "schedule_ok J H R queries (segments events) (bt_phase (snd s)) \<and> sorted_wrt (before_ok J H R queries) (segments events)"
  using assms
proof (induction rule: batch_run.induct)
  case (run_more events s' e s'')
  with schedule_ok_step [OF run_more.hyps(2), of R queries "segments events"] show ?case by auto
qed (simp add: schedule_ok_start)

text \<open>
  C16. A serial call has the batch to itself. In every run, of two segments in this order, if the later one
  belongs to a call settled as serial then so does the earlier one, and it is not of a later call. So each
  serial call runs without interruption by the batch, in the order of the calls, and nothing that may run
  in parallel starts before the last serial call is finished.
\<close>

theorem serial_exclusive:
  assumes "batch_run J H (w, start_batch J H R queries) events s"
  shows "\<forall>m n. m < n \<and> n < length (segments events) \<and> serial_at J H R queries (segments events ! n) \<longrightarrow>
           serial_at J H R queries (segments events ! m) \<and> segments events ! m \<le> segments events ! n"
  using schedule_ok_run [OF assms] by (auto simp: sorted_wrt_iff_nth_less before_ok_def)

section \<open>A batch finishes\<close>

text \<open>
  The work a batch has left, as a multiset: each step replaces one piece by smaller ones. A task is ordered by
  its continuations, over every world they may meet.
\<close>

datatype ('w, 'a) work = Unstarted | Working "('w, 'a) task" | Reported | Closing

inductive_set work_less :: "(('w, 'a) work \<times> ('w, 'a) work) set" where
  work_segment: "(Working (snd (k w)), Working (Suspend k)) \<in> work_less"
| work_report: "(Reported, Working t) \<in> work_less"
| work_start: "(Working t, Unstarted) \<in> work_less"

inductive_cases work_less_cases: "(x, Reported) \<in> work_less" "(x, Closing) \<in> work_less" "(x, Working t) \<in> work_less" "(x, Unstarted) \<in> work_less"

lemma wf_work_less: "wf (work_less :: (('w, 'a) work \<times> ('w, 'a) work) set)"
proof (rule wfUNIVI)
  fix P :: "('w, 'a) work \<Rightarrow> bool" and x
  assume "\<forall>x. (\<forall>y. (y, x) \<in> work_less \<longrightarrow> P y) \<longrightarrow> P x"
  then have up: "P x" if "\<And>y. (y, x) \<in> work_less \<Longrightarrow> P y" for x using that by blast
  have leaf: "P Reported" "P Closing" by (rule up; auto elim: work_less_cases)+
  have task: "P (Working t)" for t
    by (induction t rule: task_induct; rule up; auto elim!: work_less_cases simp: leaf)
  have "P Unstarted" by (rule up) (auto elim!: work_less_cases simp: task)
  with leaf task show "P x" by (cases x) auto
qed

fun work_left :: "('w, 'j, 'h) batch_phase \<Rightarrow> ('w, 'j invoke_return) work multiset" where
  "work_left (Serial calls current waiting) =
     add_mset Closing (replicate_mset (length calls + length waiting) Unstarted +
       (case current of None \<Rightarrow> {#} | Some (i, t) \<Rightarrow> {#Working t#}))"
| "work_left (Joining branches channel n) =
     add_mset Closing (mset (map (Working \<circ> snd) branches) + replicate_mset (length channel) Reported)"
| "work_left (Assembled results) = {#}"

lemma mult_drop: "(M, add_mset x M) \<in> mult r"
  using one_step_implies_mult [of "{#x#}" "{#}" r M] by simp

lemma mult_swap: "(y, x) \<in> r \<Longrightarrow> (add_mset y M, add_mset x M) \<in> mult r"
  using one_step_implies_mult [of "{#x#}" "{#y#}" r M] by simp

lemma work_left_step:
  assumes "batch_step J H s e s'" "e \<noteq> Outside"
  shows "(work_left (bt_phase (snd s')), work_left (bt_phase (snd s))) \<in> mult work_less"
  using assms
proof (cases rule: batch_step.cases)
  case (step_serial_start b c calls waiting w)
  then show ?thesis
    using mult_swap [OF work_start [of "run_settled J H c"], of "add_mset Closing (replicate_mset (length calls + length waiting) Unstarted)"]
    by (simp add: add_mset_commute)
next
  case (step_serial_segment b calls i k waiting w)
  then show ?thesis
    using mult_swap [OF work_segment [of k w], of "add_mset Closing (replicate_mset (length calls + length waiting) Unstarted)"]
    by (simp add: add_mset_commute)
next
  case (step_serial_filed b calls i r waiting w)
  then show ?thesis
    using mult_drop [of "add_mset Closing (replicate_mset (length calls + length waiting) Unstarted)" "Working (Done r)"]
    by (simp add: add_mset_commute)
next
  case (step_spawn b waiting w)
  then show ?thesis
    using one_step_implies_mult [of "replicate_mset (length waiting) Unstarted" "mset (map (Working \<circ> snd) (spawn_calls J H waiting))"
        work_less "{#Closing#}"]
    by (auto simp: spawn_calls_def work_start)
next
  case (step_no_parallel b w)
  then show ?thesis using mult_drop [of "{#}"] by simp
next
  case (step_branch_segment b xs i k ys channel n w)
  then show ?thesis
    using mult_swap [OF work_segment [of k w], of "add_mset Closing (mset (map (Working \<circ> snd) (xs @ ys)) + replicate_mset (length channel) Reported)"]
    by (simp add: add_mset_commute)
next
  case (step_branch_report b xs i r ys channel n w)
  then show ?thesis
    using mult_swap [OF work_report [of "Done r"], of "add_mset Closing (mset (map (Working \<circ> snd) (xs @ ys)) + replicate_mset (length channel) Reported)"]
    by (simp add: add_mset_commute)
next
  case (step_branch_lost b xs i r ys channel n w)
  then show ?thesis
    using mult_swap [OF work_report [of "Done r"], of "add_mset Closing (mset (map (Working \<circ> snd) (xs @ ys)) + replicate_mset (length channel) Reported)"]
    by (simp add: add_mset_commute)
next
  case (step_collect b branches report channel n w)
  then show ?thesis
    using mult_drop [of "add_mset Closing (mset (map (Working \<circ> snd) branches) + replicate_mset (length channel) Reported)" Reported]
    by (simp add: add_mset_commute)
next
  case (step_joined b branches channel w)
  then show ?thesis
    using one_step_implies_mult [of "work_left (Joining branches channel 0)" "{#}" work_less "{#}"] by simp
qed simp

lemma batch_progress:
  assumes "phase_ok J H R queries (bt_phase b)"
  shows "(\<exists>results. bt_phase b = Assembled results) \<or> (\<exists>e s'. e \<noteq> Outside \<and> batch_step J H (w, b) e s')"
proof (cases "bt_phase b")
  case (Serial calls current waiting)
  show ?thesis
  proof (cases current)
    case None
    then show ?thesis using Serial
      by (cases calls; cases "waiting = []") (blast intro: step_serial_start step_spawn step_no_parallel)+
  next
    case (Some x)
    obtain i t where "x = (i, t)" by (cases x)
    with Serial Some show ?thesis by (cases t) (blast intro: step_serial_segment step_serial_filed)+
  qed
next
  case (Joining branches channel n)
  consider "n = 0" | report channel' n' where "channel = report # channel'" "n = Suc n'" | x branches' where "branches = x # branches'"
    using assms Joining by (cases channel; cases branches) auto
  then show ?thesis
  proof cases
    case 1
    from step_joined [OF Joining [unfolded 1]] show ?thesis by blast
  next
    case (2 report channel' n')
    from step_collect [OF Joining [unfolded 2]] show ?thesis by blast
  next
    case (3 x branches')
    obtain i t where "x = (i, t)" by (cases x)
    then have phase: "bt_phase b = Joining ([] @ (i, t) # branches') channel n" using Joining 3 by simp
    show ?thesis
    proof (cases t)
      case (Done r)
      from step_branch_report [OF phase [unfolded Done]] show ?thesis by blast
    next
      case (Suspend k)
      from step_branch_segment [OF phase [unfolded Suspend]] show ?thesis by blast
    qed
  qed
qed blast

text \<open>
  C17. A batch finishes. Nothing a batch does can go on forever, in any interleaving and whatever the rest of
  the host does to the world in between: the steps of the batch itself are well founded. And a batch that
  is not assembled yet is never stuck: in every state it can reach, in every world, it has a step of its own
  to take. So every call that comes back lets the batch come back, lost reports included.
\<close>

theorem batch_finishes:
  assumes "batch_run J H (w, start_batch J H R queries) events (w', b)"
  shows "wf {(b2, b1). \<exists>w1 e w2. e \<noteq> Outside \<and> batch_step J H (w1, b1) e (w2, b2)} \<and>
         ((\<exists>results. bt_phase b = Assembled results) \<or>
          (\<forall>w''. \<exists>e s. e \<noteq> Outside \<and> batch_step J H (w'', b) e s))"
proof
  let ?work = "\<lambda>b. work_left (bt_phase b)"
  have "wf (inv_image (mult work_less) ?work)" by (rule wf_inv_image [OF wf_mult [OF wf_work_less]])
  then show "wf {(b2, b1). \<exists>w1 e w2. e \<noteq> Outside \<and> batch_step J H (w1, b1) e (w2, b2)}"
    by (rule wf_subset) (use work_left_step in \<open>force simp: in_inv_image\<close>)
  have "phase_ok J H R queries (bt_phase b)" using batch_ok_run [OF assms] by (simp add: batch_ok_def)
  from batch_progress [OF this]
  show "(\<exists>results. bt_phase b = Assembled results) \<or> (\<forall>w''. \<exists>e s. e \<noteq> Outside \<and> batch_step J H (w'', b) e s)" by auto
qed
section \<open>One schedule\<close>

text \<open>The schedule that always lets the first branch go on and loses no report, as a function.\<close>

fun next_phase ::
  "'j json_lib \<Rightarrow> ('w, 'j, 'h) set_heap \<Rightarrow> 'w \<Rightarrow> ('w, 'j, 'h) batch \<Rightarrow> ('w, 'j, 'h) batch_phase \<Rightarrow>
   (batch_event \<times> 'w \<times> ('w, 'j, 'h) batch) option" where
  "next_phase J H w b (Serial calls (Some (i, Suspend k)) waiting) =
     Some (Segment i, fst (k w), b\<lparr>bt_phase := Serial calls (Some (i, snd (k w))) waiting\<rparr>)"
| "next_phase J H w b (Serial calls (Some (i, Done r)) waiting) =
     Some (Tick, w, b\<lparr>bt_records := (bt_records b)[i := Some r], bt_phase := Serial calls None waiting\<rparr>)"
| "next_phase J H w b (Serial (c # calls) None waiting) =
     Some (Tick, w, b\<lparr>bt_phase := Serial calls (Some (pc_index c, run_settled J H c)) waiting\<rparr>)"
| "next_phase J H w b (Serial [] None []) =
     Some (Tick, w, b\<lparr>bt_phase := Assembled (assemble J (bt_queries b) (bt_records b))\<rparr>)"
| "next_phase J H w b (Serial [] None (c # waiting)) =
     Some (Tick, w, b\<lparr>bt_phase := Joining (spawn_calls J H (c # waiting)) [] (length (c # waiting))\<rparr>)"
| "next_phase J H w b (Joining ((i, Suspend k) # branches) channel n) =
     Some (Segment i, fst (k w), b\<lparr>bt_phase := Joining ((i, snd (k w)) # branches) channel n\<rparr>)"
| "next_phase J H w b (Joining ((i, Done r) # branches) channel n) =
     Some (Tick, w, b\<lparr>bt_phase := Joining branches (channel @ [Some (i, r)]) n\<rparr>)"
| "next_phase J H w b (Joining [] (report # channel) (Suc n)) =
     Some (Tick, w, b\<lparr>bt_records := file_report report (bt_records b), bt_phase := Joining [] channel n\<rparr>)"
| "next_phase J H w b (Joining [] channel 0) =
     Some (Tick, w, b\<lparr>bt_phase := Assembled (assemble J (bt_queries b) (bt_records b))\<rparr>)"
| "next_phase J H w b phase = None"

fun drive ::
  "'j json_lib \<Rightarrow> ('w, 'j, 'h) set_heap \<Rightarrow> nat \<Rightarrow> 'w \<Rightarrow> ('w, 'j, 'h) batch \<Rightarrow> batch_event list \<times> 'w \<times> ('w, 'j, 'h) batch" where
  "drive J H 0 w b = ([], w, b)"
| "drive J H (Suc fuel) w b =
     (case next_phase J H w b (bt_phase b) of
        None \<Rightarrow> ([], w, b)
      | Some (e, w', b') \<Rightarrow> (case drive J H fuel w' b' of (events, s) \<Rightarrow> (e # events, s)))"

lemma next_phase_step: "next_phase J H w b (bt_phase b) = Some (e, s') \<Longrightarrow> batch_step J H (w, b) e s'"
proof (cases "(J, H, w, b, bt_phase b)" rule: next_phase.cases)
  case (6 J' H' w' b' i k branches channel n)
  then show "batch_step J H (w, b) e s'" if "next_phase J H w b (bt_phase b) = Some (e, s')"
    using that step_branch_segment [where xs = "[]" and ys = branches] by fastforce
next
  case (5 J' H' w' b' c waiting)
  then show "batch_step J H (w, b) e s'" if "next_phase J H w b (bt_phase b) = Some (e, s')"
    using that step_spawn [of b "c # waiting" J H w] by auto
next
  case (7 J' H' w' b' i r branches channel n)
  then show "batch_step J H (w, b) e s'" if "next_phase J H w b (bt_phase b) = Some (e, s')"
    using that step_branch_report [where xs = "[]" and ys = branches] by fastforce
qed (auto intro: batch_step.intros)

lemma batch_run_front:
  assumes "batch_run J H s' events s''" "batch_step J H s e s'"
  shows "batch_run J H s (e # events) s''"
  using assms(1)
proof (induction rule: batch_run.induct)
  case run_none
  show ?case using run_more [OF batch_run.run_none assms(2)] by simp
next
  case (run_more events t e' t')
  from batch_run.run_more [OF run_more.IH run_more.hyps(2)] show ?case by simp
qed

lemma drive_run: "batch_run J H (w, b) (fst (drive J H fuel w b)) (snd (drive J H fuel w b))"
proof (induction fuel arbitrary: w b)
  case (Suc fuel)
  show ?case
  proof (cases "next_phase J H w b (bt_phase b)")
    case (Some x)
    obtain e w' b' where x: "x = (e, w', b')" by (cases x)
    from batch_run_front [OF Suc next_phase_step [OF Some [unfolded x]]] show ?thesis
      by (simp add: Some x split_beta)
  qed (simp add: run_none)
qed (simp add: run_none)

text \<open>A reader and a writer that each take one segment, called together with a tool nobody provides.\<close>

definition stepping_tool :: "invoke_type \<Rightarrow> string \<Rightarrow> (nat, json) tool" where
  "stepping_tool type name =
     \<lparr>tl_name = name, tl_ensure_arguments = (\<lambda>q. (None, q)),
      tl_write_attributes = (\<lambda>q. (None, q\<lparr>iq_type := type, iq_security := Trusted\<rparr>)),
      tl_security_check = (\<lambda>q. Done (Inr (True, []))),
      tl_invoke = (\<lambda>q. Suspend (\<lambda>w. (w + 1, Done (Inr default_content)))),
      tl_check_result = default_check_result\<rparr>"

definition stepping_sets :: "(nat, json, (nat, json) tool option) set_heap" where
  "stepping_sets p = standard_set json_values ''files'' (tools_named [''read'', ''write''])
     (\<lambda>query. Inr (Some (stepping_tool (if iq_name query = ''read'' then ReadOnly else SerialWrite) (iq_name query))))"

definition stepping_registry :: tool_registry where
  "stepping_registry = snd (registry_add stepping_sets (Some 0) empty_registry)"

definition stepping_calls :: "json invoke_query list" where
  "stepping_calls = map (\<lambda>(id, name). (default_query json_values)\<lparr>iq_id := id, iq_name := name\<rparr>)
     [(''a'', ''write''), (''b'', ''read''), (''c'', ''list''), (''d'', ''write'')]"

lemma stepping_table: "lookup_table stepping_registry = [''read'' \<mapsto> 0, ''write'' \<mapsto> 0]"
  by (simp add: stepping_registry_def registry_add_def Let_def supported_names_def stepping_sets_def standard_set_def
      tools_named_def empty_registry_def emplace_def)

lemmas stepping_defs = stepping_calls_def stepping_sets_def standard_set_def prepare_call_def stepping_tool_def settle_call_def
  registry_find_def stepping_table start_batch_def spawn_calls_def run_settled_def execute_call_def after_gate_def default_check_result_def

lemma stepping_events:
  "fst (drive json_values stepping_sets 11 0 (start_batch json_values stepping_sets stepping_registry stepping_calls)) =
     [Tick, Segment 0, Tick, Tick, Segment 3, Tick, Tick, Segment 1, Tick, Tick, Tick]"
  by (simp add: stepping_defs numeral_eq_Suc)

abbreviation "stepping_start \<equiv> start_batch json_values stepping_sets stepping_registry stepping_calls"

lemma stepping_done: "\<exists>results. bt_phase (snd (snd (drive json_values stepping_sets 11 0 stepping_start))) = Assembled results"
  by (simp add: stepping_defs numeral_eq_Suc)

lemma stepping_settled:
  "iq_id (settled_query json_values stepping_sets stepping_registry stepping_calls 2) = ''c''"
  "iq_type (settled_query json_values stepping_sets stepping_registry stepping_calls 3) = SerialWrite"
  by (simp_all add: settled_query_def stepping_defs)

lemma stepping_run:
  "batch_run json_values stepping_sets (0, stepping_start) [Tick, Segment 0, Tick, Tick, Segment 3, Tick, Tick, Segment 1, Tick, Tick, Tick]
     (snd (drive json_values stepping_sets 11 0 stepping_start))"
  using drive_run [of json_values stepping_sets 0 stepping_start 11] by (simp only: stepping_events)

theorem batch_answers_witness:
  "\<exists>results. bt_phase (snd (snd (drive json_values stepping_sets 11 0 stepping_start))) = Assembled results \<and>
     length results = 4 \<and> iq_id (ir_query (results ! 2)) = ''c''"
proof -
  obtain w b where s: "snd (drive json_values stepping_sets 11 0 stepping_start) = (w, b)" by (rule prod.exhaust)
  obtain results where results: "bt_phase b = Assembled results" using stepping_done s by auto
  have four: "length stepping_calls = 4" by (simp add: stepping_calls_def)
  from batch_answers [OF stepping_run [unfolded s] results, unfolded four]
  have "length results = 4" and "ir_query (results ! 2) = settled_query json_values stepping_sets stepping_registry stepping_calls 2"
    by simp_all
  with results stepping_settled(1) show ?thesis by (simp add: s)
qed

theorem serial_exclusive_witness:
  "segments [Tick, Segment 0, Tick, Tick, Segment 3, Tick, Tick, Segment 1, Tick, Tick, Tick] = [0, 3, 1] \<and>
   serial_at json_values stepping_sets stepping_registry stepping_calls 3 \<and>
   serial_at json_values stepping_sets stepping_registry stepping_calls 0"
proof -
  have last: "serial_at json_values stepping_sets stepping_registry stepping_calls 3"
    by (simp add: serial_at_def stepping_settled(2))
  with serial_exclusive [OF stepping_run, rule_format, of 0 1] show ?thesis by simp
qed

theorem batch_finishes_witness:
  "(\<exists>results. bt_phase stepping_start = Assembled results) \<or>
   (\<exists>e s. e \<noteq> Outside \<and> batch_step json_values stepping_sets (7, stepping_start) e s)"
  using batch_finishes [OF run_none, where J = json_values and H = stepping_sets and R = stepping_registry and queries = stepping_calls]
  by blast

end
