(* ===== verification/Wire_Codec.thy ===== *)
theory Wire_Codec
  imports Json_Api
begin

text \<open>
  \<^verbatim>\<open>protocol/include/protocol/descriptor.hpp\<close> and \<^verbatim>\<open>codec.hpp\<close>: the descriptor-driven codec of the wire records.

  A described record is a value of \<open>wire_record\<close>: the tuple \<^verbatim>\<open>wire_fields()\<close> returns, its unknown-field
  policy, forbidden fields, rules and final validation. The codec, templates over those tuples in the source,
  is one family of functions over descriptors. A record instance is the list of its members in field order, an
  optional member being \<open>None\<close> or \<open>Some\<close>. An enumerator is its spelling. Summaries and published defaults
  feed the manifest only and are left out.
\<close>

section \<open>Descriptors\<close>

datatype presence = Inferred | RequiredPresence | OptionalPresence

record wire_constraints =
  wc_min_length :: "nat option"
  wc_max_length :: "nat option"
  wc_minimum :: "nat option"
  wc_maximum :: "nat option"
  wc_object_only :: bool
  wc_empty_object :: bool
  wc_non_empty :: bool
  wc_constant :: "string option"

definition no_constraints :: wire_constraints where
  "no_constraints = \<lparr>wc_min_length = None, wc_max_length = None, wc_minimum = None, wc_maximum = None,
     wc_object_only = False, wc_empty_object = False, wc_non_empty = False, wc_constant = None\<rparr>"

record wire_rule =
  ru_when_field :: string
  ru_when_equals :: string
  ru_requires :: "string list"
  ru_forbids :: "string list"
  ru_closed :: bool
  ru_ignores :: "string list"

text \<open>The member initialisers that occur.\<close>

datatype member_default = ValueInit | DefTrue | DefEnum string | DefObject | DefArray | DefString

datatype wire_type =
    WText | WInteger | WBoolean | WJson | WEnum "string list" | WVector wire_type | WRecord wire_record
and wire_record =
    WireRecord (wr_name: string) (wr_fields: "wire_field list") (wr_rejects_unknown: bool)
      (wr_forbidden: "string list") (wr_rules: "wire_rule list") (wr_expects: "(string \<times> string) option")
and wire_field =
    WireField (wf_name: string) (wf_type: wire_type) (wf_optional: bool) (wf_presence: presence) (wf_nullable: bool)
      (wf_constraints: wire_constraints) (wf_shape: wire_shape) (wf_default: member_default)
and wire_shape = AnyShape | TextOrRecord wire_record | ProjectedBatch wire_record wire_record

datatype 'j wire_value =
    VText string | VInteger nat | VBoolean bool | VJson 'j | VEnum string | VVector "'j wire_value list"
  | VRecord "'j wire_value option list"

definition is_required :: "wire_field \<Rightarrow> bool" where
  "is_required f =
     (case wf_presence f of RequiredPresence \<Rightarrow> True | OptionalPresence \<Rightarrow> False | Inferred \<Rightarrow> \<not> wf_optional f)"

section \<open>The JSON library\<close>

record 'j json_wire =
  jw_json :: "'j json_lib"
  jw_get_bool :: "'j \<Rightarrow> bool option"
  jw_get_integer :: "'j \<Rightarrow> int option"
  jw_keys :: "'j \<Rightarrow> string list"

text \<open>
  \<open>jw_get_bool\<close> and \<open>jw_get_integer\<close> are the kind tests with the typed reads, \<open>jw_keys\<close> the keys \<^verbatim>\<open>items()\<close> yields.
\<close>

definition validation_error :: "string \<Rightarrow> string \<Rightarrow> exn" where
  "validation_error path message = RuntimeError (if path = [] then message else path @ '': '' @ message)"

definition join_path :: "string \<Rightarrow> string \<Rightarrow> string" where
  "join_path path name = (if path = [] then name else path @ ''.'' @ name)"

definition element_path :: "string \<Rightarrow> nat \<Rightarrow> string" where
  "element_path path index = path @ ''['' @ to_string index @ '']''"

section \<open>Records and their members\<close>

fun default_value :: "'j json_lib \<Rightarrow> wire_type \<Rightarrow> member_default \<Rightarrow> 'j wire_value"
  and default_members :: "'j json_lib \<Rightarrow> wire_field list \<Rightarrow> 'j wire_value option list" where
  "default_value J WText d = VText []"
| "default_value J WInteger d = VInteger 0"
| "default_value J WBoolean d = VBoolean (d = DefTrue)"
| "default_value J WJson d =
     VJson (case d of DefObject \<Rightarrow> js_object J [] | DefArray \<Rightarrow> js_array J [] | DefString \<Rightarrow> js_string J [] | _ \<Rightarrow> js_null J)"
| "default_value J (WEnum spellings) d = VEnum (case d of DefEnum s \<Rightarrow> s | _ \<Rightarrow> [])"
| "default_value J (WVector ty) d = VVector []"
| "default_value J (WRecord (WireRecord n fs u fb rs ex)) d = VRecord (default_members J fs)"
| "default_members J [] = []"
| "default_members J (WireField n ty opt pr nul cs sh d # fs) =
     (if opt then None else Some (default_value J ty d)) # default_members J fs"

text \<open>Only an enumeration or a string that is no optional selects a rule.\<close>

fun rule_scan :: "bool \<Rightarrow> wire_rule \<Rightarrow> wire_field list \<Rightarrow> 'j wire_value option list \<Rightarrow> bool" where
  "rule_scan matched rule (f # fs) (m # members) =
     rule_scan
       (if wf_name f = ru_when_field rule \<and> \<not> wf_optional f then
          (case m of Some (VEnum s) \<Rightarrow> s = ru_when_equals rule | Some (VText s) \<Rightarrow> s = ru_when_equals rule | _ \<Rightarrow> matched)
        else matched) rule fs members"
| "rule_scan matched rule _ _ = matched"

definition rule_matches :: "wire_field list \<Rightarrow> 'j wire_value option list \<Rightarrow> wire_rule \<Rightarrow> bool" where
  "rule_matches fs members rule = rule_scan False rule fs members"

fun present_scan :: "bool \<Rightarrow> string \<Rightarrow> wire_field list \<Rightarrow> 'j wire_value option list \<Rightarrow> bool" where
  "present_scan present name (f # fs) (m # members) =
     present_scan (if wf_name f = name then (wf_optional f \<longrightarrow> m \<noteq> None) else present) name fs members"
| "present_scan present name _ _ = present"

definition field_present :: "wire_field list \<Rightarrow> 'j wire_value option list \<Rightarrow> string \<Rightarrow> bool" where
  "field_present fs members name = present_scan False name fs members"

definition ignored_field :: "wire_field list \<Rightarrow> wire_rule list \<Rightarrow> 'j wire_value option list \<Rightarrow> string \<Rightarrow> bool" where
  "ignored_field fs rules members name \<longleftrightarrow>
     (\<exists>rule \<in> set rules. rule_matches fs members rule \<and> name \<in> set (ru_ignores rule))"

definition closed_scope :: "bool \<Rightarrow> wire_field list \<Rightarrow> wire_rule list \<Rightarrow> 'j wire_value option list \<Rightarrow> bool" where
  "closed_scope rejects_unknown fs rules members \<longleftrightarrow>
     rejects_unknown \<or> (\<exists>rule \<in> set rules. ru_closed rule \<and> rule_matches fs members rule)"

section \<open>Encoding\<close>

fun encode_one :: "'j json_lib \<Rightarrow> wire_type \<Rightarrow> 'j wire_value \<Rightarrow> 'j"
  and encode_list :: "'j json_lib \<Rightarrow> wire_type \<Rightarrow> 'j wire_value list \<Rightarrow> 'j list"
  and encode_fields :: "'j json_lib \<Rightarrow> wire_field list \<Rightarrow> 'j wire_value option list \<Rightarrow> 'j \<Rightarrow> 'j" where
  "encode_one J WJson (VJson j) = j"
| "encode_one J WText (VText s) = js_string J s"
| "encode_one J WBoolean (VBoolean v) = js_bool J v"
| "encode_one J WInteger (VInteger n) = js_number J (int n)"
| "encode_one J (WEnum spellings) (VEnum s) = js_string J s"
| "encode_one J (WRecord (WireRecord n fs u fb rs ex)) (VRecord members) = encode_fields J fs members (js_object J [])"
| "encode_one J (WVector ty) (VVector vs) = js_array J (encode_list J ty vs)"
| "encode_one J _ _ = js_null J"
| "encode_list J ty [] = []"
| "encode_list J ty (v # vs) = encode_one J ty v # encode_list J ty vs"
| "encode_fields J (WireField name ty opt pr nul cs sh d # fs) (m # members) output =
     encode_fields J fs members
       (case m of
          Some v \<Rightarrow> js_set J name (encode_one J ty v) output
        | None \<Rightarrow> if is_required (WireField name ty opt pr nul cs sh d) \<and> nul then js_set J name (js_null J) output else output)"
| "encode_fields J _ _ output = output"

definition wire_to_json :: "'j json_lib \<Rightarrow> wire_record \<Rightarrow> 'j wire_value option list \<Rightarrow> 'j" where
  "wire_to_json J r members = encode_fields J (wr_fields r) members (js_object J [])"

section \<open>Decoding\<close>

fun comma_list :: "string list \<Rightarrow> string" where
  "comma_list [] = []"
| "comma_list [s] = s"
| "comma_list (s # t # rest) = s @ '', '' @ comma_list (t # rest)"

definition enum_from :: "string list \<Rightarrow> string \<Rightarrow> string \<Rightarrow> string result" where
  "enum_from spellings s path =
     (if s \<in> set spellings then Inr s
      else Inl (validation_error path (''expected one of '' @ comma_list spellings)))"

definition decode_text :: "'j json_wire \<Rightarrow> 'j \<Rightarrow> string \<Rightarrow> string \<Rightarrow> string result" where
  "decode_text W input path message =
     (if js_is_string (jw_json W) input then js_get_string (jw_json W) input else Inl (validation_error path message))"

definition decode_integer :: "'j json_wire \<Rightarrow> 'j \<Rightarrow> string \<Rightarrow> nat result" where
  "decode_integer W input path =
     (case jw_get_integer W input of
        None \<Rightarrow> Inl (validation_error path ''expected an integer'')
      | Some i \<Rightarrow>
          if i < 0 then Inl (validation_error path ''expected a nonnegative integer'')
          else if nat i > size_max then Inl (validation_error path ''integer is out of range'')
          else Inr (nat i))"

text \<open>The tests of \<^verbatim>\<open>check_constraints\<close> after the shape, in order.\<close>

definition check_object :: "'j json_wire \<Rightarrow> wire_constraints \<Rightarrow> 'j \<Rightarrow> string \<Rightarrow> unit result" where
  "check_object W cs value path =
     (if (wc_object_only cs \<or> wc_empty_object cs) \<and> \<not> js_is_object (jw_json W) value then
        Inl (validation_error path ''expected a JSON object'')
      else if wc_empty_object cs \<and> jw_keys W value \<noteq> [] then Inl (validation_error path ''must be an empty object'')
      else if wc_non_empty cs \<and> js_is_array (jw_json W) value \<and> js_get_array (jw_json W) value = Inr [] then
        Inl (validation_error path ''must be a nonempty array'')
      else Inr ())"

definition check_length :: "'j json_wire \<Rightarrow> wire_constraints \<Rightarrow> 'j \<Rightarrow> string \<Rightarrow> unit result" where
  "check_length W cs value path =
     (if (wc_min_length cs \<noteq> None \<or> wc_max_length cs \<noteq> None) \<and> js_is_string (jw_json W) value then
        and_then (js_get_string (jw_json W) value) (\<lambda>s.
          if (case wc_min_length cs of None \<Rightarrow> False | Some n \<Rightarrow> length s < n) then
            Inl (validation_error path ''value is shorter than the minimum length'')
          else if (case wc_max_length cs of None \<Rightarrow> False | Some n \<Rightarrow> length s > n) then
            Inl (validation_error path ''value is longer than the maximum length'')
          else Inr ())
      else Inr ())"

definition check_range :: "'j json_wire \<Rightarrow> wire_constraints \<Rightarrow> 'j \<Rightarrow> string \<Rightarrow> unit result" where
  "check_range W cs value path =
     (case jw_get_integer W value of
        Some i \<Rightarrow>
          if wc_minimum cs = None \<and> wc_maximum cs = None then Inr ()
          else if i < 0 then Inl (validation_error path ''expected a nonnegative integer'')
          else if (case wc_minimum cs of None \<Rightarrow> False | Some n \<Rightarrow> nat i < n) then Inl (validation_error path ''value is below the minimum'')
          else if (case wc_maximum cs of None \<Rightarrow> False | Some n \<Rightarrow> nat i > n) then Inl (validation_error path ''value is above the maximum'')
          else Inr ()
      | None \<Rightarrow> Inr ())"

definition check_constant :: "'j json_wire \<Rightarrow> wire_constraints \<Rightarrow> 'j \<Rightarrow> string \<Rightarrow> unit result" where
  "check_constant W cs value path =
     (case wc_constant cs of
        None \<Rightarrow> Inr ()
      | Some spelling \<Rightarrow>
          if js_is_string (jw_json W) value then
            and_then (js_get_string (jw_json W) value) (\<lambda>s.
              if s = spelling then Inr () else Inl (validation_error path (''must be '' @ [CHR 0x22] @ spelling @ [CHR 0x22])))
          else Inr ())"

definition check_constraints :: "'j json_wire \<Rightarrow> wire_constraints \<Rightarrow> 'j \<Rightarrow> string \<Rightarrow> unit result" where
  "check_constraints W cs value path =
     and_then (check_object W cs value path) (\<lambda>_.
     and_then (check_length W cs value path) (\<lambda>_.
     and_then (check_range W cs value path) (\<lambda>_.
     check_constant W cs value path)))"

text \<open>What \<^verbatim>\<open>from_json\<close> checks once the members are read.\<close>

fun check_forbidden :: "'j json_lib \<Rightarrow> string list \<Rightarrow> 'j \<Rightarrow> string \<Rightarrow> unit result" where
  "check_forbidden J [] input path = Inr ()"
| "check_forbidden J (name # names) input path =
     (if js_find J input name \<noteq> None then Inl (validation_error (join_path path name) ''this record does not accept that field'')
      else check_forbidden J names input path)"

fun check_known :: "string list \<Rightarrow> string list \<Rightarrow> string \<Rightarrow> unit result" where
  "check_known known [] path = Inr ()"
| "check_known known (key # keys) path =
     (if key \<in> set known then check_known known keys path else Inl (validation_error (join_path path key) ''unknown field''))"

fun check_required :: "wire_field list \<Rightarrow> 'j wire_value option list \<Rightarrow> wire_rule \<Rightarrow> string list \<Rightarrow> string \<Rightarrow> unit result" where
  "check_required fs members rule [] path = Inr ()"
| "check_required fs members rule (name # names) path =
     (if field_present fs members name then check_required fs members rule names path
      else Inl (validation_error (join_path path name) (''required when '' @ ru_when_field rule @ '' is '' @ ru_when_equals rule)))"

fun check_absent :: "wire_field list \<Rightarrow> 'j wire_value option list \<Rightarrow> wire_rule \<Rightarrow> string list \<Rightarrow> string \<Rightarrow> unit result" where
  "check_absent fs members rule [] path = Inr ()"
| "check_absent fs members rule (name # names) path =
     (if \<not> field_present fs members name then check_absent fs members rule names path
      else Inl (validation_error (join_path path name) (''not accepted when '' @ ru_when_field rule @ '' is '' @ ru_when_equals rule)))"

fun check_rules :: "wire_field list \<Rightarrow> 'j wire_value option list \<Rightarrow> wire_rule list \<Rightarrow> string \<Rightarrow> unit result" where
  "check_rules fs members [] path = Inr ()"
| "check_rules fs members (rule # rules) path =
     and_then
       (if rule_matches fs members rule then
          and_then (check_required fs members rule (ru_requires rule) path) (\<lambda>_. check_absent fs members rule (ru_forbids rule) path)
        else Inr ())
       (\<lambda>_. check_rules fs members rules path)"

text \<open>\<^verbatim>\<open>wire_validate\<close> of the envelopes: one enumeration member has one value.\<close>

definition check_expected :: "wire_field list \<Rightarrow> 'j wire_value option list \<Rightarrow> (string \<times> string) option \<Rightarrow> unit result" where
  "check_expected fs members expects =
     (case expects of
        None \<Rightarrow> Inr ()
      | Some (name, spelling) \<Rightarrow>
          if (\<exists>(f, m) \<in> set (zip fs members). wf_name f = name \<and> m = Some (VEnum spelling)) then Inr ()
          else Inl (validation_error name (''expected '' @ [CHR 0x22] @ spelling @ [CHR 0x22])))"

definition finish_record ::
  "'j json_wire \<Rightarrow> wire_field list \<Rightarrow> bool \<Rightarrow> string list \<Rightarrow> wire_rule list \<Rightarrow> (string \<times> string) option \<Rightarrow> 'j \<Rightarrow> string \<Rightarrow>
   'j wire_value option list \<Rightarrow> 'j wire_value option list result" where
  "finish_record W fs rejects_unknown forbidden rules expects input path members =
     and_then (check_forbidden (jw_json W) forbidden input path) (\<lambda>_.
     and_then (if closed_scope rejects_unknown fs rules members then check_known (map wf_name fs) (jw_keys W input) path else Inr ()) (\<lambda>_.
     and_then (check_rules fs members rules path) (\<lambda>_.
     and_then (check_expected fs members expects) (\<lambda>_. Inr members))))"

function (sequential) decode_one :: "'j json_wire \<Rightarrow> wire_type \<Rightarrow> 'j \<Rightarrow> string \<Rightarrow> 'j wire_value result"
  and decode_list :: "'j json_wire \<Rightarrow> wire_type \<Rightarrow> 'j list \<Rightarrow> nat \<Rightarrow> string \<Rightarrow> 'j wire_value list result"
  and wire_from_json :: "'j json_wire \<Rightarrow> wire_record \<Rightarrow> 'j \<Rightarrow> string \<Rightarrow> 'j wire_value option list result"
  and read_fields :: "'j json_wire \<Rightarrow> wire_field list \<Rightarrow> wire_field list \<Rightarrow> wire_rule list \<Rightarrow> nat \<Rightarrow> 'j \<Rightarrow> string \<Rightarrow>
    'j wire_value option list \<Rightarrow> 'j wire_value option list result"
  and check_shape :: "'j json_wire \<Rightarrow> wire_shape \<Rightarrow> 'j \<Rightarrow> string \<Rightarrow> unit result"
  and check_batch :: "'j json_wire \<Rightarrow> wire_record \<Rightarrow> wire_record \<Rightarrow> 'j list \<Rightarrow> nat \<Rightarrow> string \<Rightarrow> unit result" where
  "decode_one W WJson input path = Inr (VJson input)"
| "decode_one W WText input path = and_then (decode_text W input path ''expected a string'') (\<lambda>s. Inr (VText s))"
| "decode_one W WBoolean input path =
     (case jw_get_bool W input of None \<Rightarrow> Inl (validation_error path ''expected a boolean'') | Some v \<Rightarrow> Inr (VBoolean v))"
| "decode_one W WInteger input path = and_then (decode_integer W input path) (\<lambda>n. Inr (VInteger n))"
| "decode_one W (WEnum spellings) input path =
     and_then (decode_text W input path ''expected an enumeration spelling'') (\<lambda>s.
     and_then (enum_from spellings s path) (\<lambda>e. Inr (VEnum e)))"
| "decode_one W (WRecord r) input path = and_then (wire_from_json W r input path) (\<lambda>members. Inr (VRecord members))"
| "decode_one W (WVector ty) input path =
     (if \<not> js_is_array (jw_json W) input then Inl (validation_error path ''expected an array'')
      else and_then (js_get_array (jw_json W) input) (\<lambda>items.
        and_then (decode_list W ty items 0 path) (\<lambda>vs. Inr (VVector vs))))"
| "decode_list W ty [] index path = Inr []"
| "decode_list W ty (item # items) index path =
     and_then (decode_one W ty item (element_path path index)) (\<lambda>v.
     and_then (decode_list W ty items (Suc index) path) (\<lambda>vs. Inr (v # vs)))"
| "wire_from_json W (WireRecord n fs u fb rs ex) input path =
     (if \<not> js_is_object (jw_json W) input then Inl (validation_error path ''expected a JSON object'')
      else and_then (read_fields W fs fs rs 0 input path (default_members (jw_json W) fs))
        (\<lambda>members. finish_record W fs u fb rs ex input path members))"
| "read_fields W [] all rules i input path members = Inr members"
| "read_fields W (WireField name ty opt pr nul cs sh d # fs) all rules i input path members =
     and_then
       (if ignored_field all rules members name then Inr members
        else case js_find (jw_json W) input name of
          None \<Rightarrow>
            if is_required (WireField name ty opt pr nul cs sh d) then
              Inl (validation_error (join_path path name) ''missing required field'')
            else Inr members
        | Some found \<Rightarrow>
            if js_is_null (jw_json W) found then
              if \<not> nul then Inl (validation_error (join_path path name) ''explicit null is not accepted'')
              else Inr (if \<not> opt \<and> ty = WJson then members[i := Some (VJson (js_null (jw_json W)))] else members)
            else
              and_then (decode_one W ty found (join_path path name)) (\<lambda>v.
              and_then (check_shape W sh found (join_path path name)) (\<lambda>_.
              and_then (check_constraints W cs found (join_path path name)) (\<lambda>_.
              Inr (members[i := Some v])))))
       (\<lambda>members'. read_fields W fs all rules (Suc i) input path members')"
| "check_shape W AnyShape input path = Inr ()"
| "check_shape W (TextOrRecord r) input path =
     (if js_is_string (jw_json W) input then Inr () else and_then (wire_from_json W r input path) (\<lambda>_. Inr ()))"
| "check_shape W (ProjectedBatch r marker) input path =
     (if \<not> js_is_array (jw_json W) input then Inl (validation_error path ''expected an array'')
      else and_then (js_get_array (jw_json W) input) (\<lambda>items. check_batch W r marker items 0 path))"
| "check_batch W r marker [] index path = Inr ()"
| "check_batch W r marker (item # items) index path =
     and_then
       (if js_is_object (jw_json W) item \<and> js_find (jw_json W) item ''display_omitted'' \<noteq> None then
          if items \<noteq> [] then Inl (validation_error (element_path path index) ''an omission marker must be the final element'')
          else and_then (wire_from_json W marker item (element_path path index)) (\<lambda>_. Inr ())
        else and_then (wire_from_json W r item (element_path path index)) (\<lambda>_. Inr ()))
       (\<lambda>_. check_batch W r marker items (Suc index) path)"
  by pat_completeness auto
termination
  by (relation "inv_image (less_than <*lex*> less_than) (\<lambda>x. case x of
        Inl (Inl (W, ty, input, path)) \<Rightarrow> (size ty, 0)
      | Inl (Inr (Inl (W, ty, items, index, path))) \<Rightarrow> (size ty, Suc (length items))
      | Inl (Inr (Inr (W, r, input, path))) \<Rightarrow> (size r, 0)
      | Inr (Inl (W, fs, all, rules, i, input, path, members)) \<Rightarrow> (size_list size fs, 0)
      | Inr (Inr (Inl (W, sh, input, path))) \<Rightarrow> (size sh, 0)
      | Inr (Inr (Inr (W, r, marker, items, index, path))) \<Rightarrow> (size r + size marker, Suc (length items)))") auto

section \<open>Records that conform to their descriptor\<close>

definition rules_hold :: "wire_field list \<Rightarrow> wire_rule list \<Rightarrow> 'j wire_value option list \<Rightarrow> bool" where
  "rules_hold fs rules members \<longleftrightarrow>
     (\<forall>rule \<in> set rules. rule_matches fs members rule \<longrightarrow>
        (\<forall>name \<in> set (ru_requires rule). field_present fs members name) \<and>
        (\<forall>name \<in> set (ru_forbids rule). \<not> field_present fs members name))"

text \<open>A member a selected operation does not read is absent.\<close>

definition nothing_ignored :: "wire_field list \<Rightarrow> wire_rule list \<Rightarrow> 'j wire_value option list \<Rightarrow> bool" where
  "nothing_ignored fs rules members \<longleftrightarrow>
     (\<forall>rule \<in> set rules. rule_matches fs members rule \<longrightarrow> (\<forall>name \<in> set (ru_ignores rule). \<not> field_present fs members name))"

definition json_fits :: "'j json_wire \<Rightarrow> wire_constraints \<Rightarrow> wire_shape \<Rightarrow> 'j \<Rightarrow> bool" where
  "json_fits W cs sh value \<longleftrightarrow> check_shape W sh value [] = Inr () \<and> check_constraints W cs value [] = Inr ()"

fun value_ok :: "'j json_wire \<Rightarrow> wire_type \<Rightarrow> 'j wire_value \<Rightarrow> bool"
  and values_ok :: "'j json_wire \<Rightarrow> wire_type \<Rightarrow> 'j wire_value list \<Rightarrow> bool"
  and record_ok :: "'j json_wire \<Rightarrow> wire_record \<Rightarrow> 'j wire_value option list \<Rightarrow> bool"
  and members_ok :: "'j json_wire \<Rightarrow> wire_field list \<Rightarrow> 'j wire_value option list \<Rightarrow> bool" where
  "value_ok W WText (VText s) \<longleftrightarrow> True"
| "value_ok W WInteger (VInteger n) \<longleftrightarrow> n \<le> size_max"
| "value_ok W WBoolean (VBoolean v) \<longleftrightarrow> True"
| "value_ok W WJson (VJson j) \<longleftrightarrow> True"
| "value_ok W (WEnum spellings) (VEnum s) \<longleftrightarrow> s \<in> set spellings"
| "value_ok W (WVector ty) (VVector vs) \<longleftrightarrow> values_ok W ty vs"
| "value_ok W (WRecord r) (VRecord members) \<longleftrightarrow> record_ok W r members"
| "value_ok W _ _ \<longleftrightarrow> False"
| "values_ok W ty [] \<longleftrightarrow> True"
| "values_ok W ty (v # vs) \<longleftrightarrow> value_ok W ty v \<and> values_ok W ty vs"
| "record_ok W (WireRecord n fs u fb rs ex) members \<longleftrightarrow>
     members_ok W fs members \<and> rules_hold fs rs members \<and> nothing_ignored fs rs members \<and> check_expected fs members ex = Inr ()"
| "members_ok W [] [] \<longleftrightarrow> True"
| "members_ok W (WireField name ty opt pr nul cs sh d # fs) (m # members) \<longleftrightarrow>
     (case m of
        None \<Rightarrow> opt \<and> (is_required (WireField name ty opt pr nul cs sh d) \<longrightarrow> nul)
      | Some v \<Rightarrow> value_ok W ty v \<and>
          (let j = encode_one (jw_json W) ty v in
           if js_is_null (jw_json W) j then nul \<and> \<not> opt \<and> ty = WJson else json_fits W cs sh j)) \<and>
     members_ok W fs members"
| "members_ok W _ _ \<longleftrightarrow> False"

text \<open>
  What a descriptor has to satisfy: names are distinct, no described field is forbidden, and a rule that
  ignores fields is selected by the first field, which it does not ignore.
\<close>

fun wf_type_ok :: "wire_type \<Rightarrow> bool" and wf_record_ok :: "wire_record \<Rightarrow> bool" and wf_fields_ok :: "wire_field list \<Rightarrow> bool" where
  "wf_type_ok (WVector ty) \<longleftrightarrow> wf_type_ok ty"
| "wf_type_ok (WRecord r) \<longleftrightarrow> wf_record_ok r"
| "wf_type_ok _ \<longleftrightarrow> True"
| "wf_record_ok (WireRecord n fs u fb rs ex) \<longleftrightarrow>
     distinct (map wf_name fs) \<and> (\<forall>name \<in> set fb. name \<notin> set (map wf_name fs)) \<and>
     (\<forall>rule \<in> set rs. ru_ignores rule \<noteq> [] \<longrightarrow>
        (case fs of [] \<Rightarrow> True | f # _ \<Rightarrow> ru_when_field rule = wf_name f \<and> wf_name f \<notin> set (ru_ignores rule))) \<and>
     wf_fields_ok fs"
| "wf_fields_ok [] \<longleftrightarrow> True"
| "wf_fields_ok (WireField n ty opt pr nul cs sh d # fs) \<longleftrightarrow> wf_type_ok ty \<and> wf_fields_ok fs"

section \<open>Where a value stands does not matter\<close>

lemma checks_anywhere: "check_constraints W cs value path = Inr () \<longleftrightarrow> check_constraints W cs value path' = Inr ()"
  by (simp add: check_constraints_def and_then_eq_Inr check_object_def check_length_def check_range_def check_constant_def split: option.split)

lemma finish_anywhere: "finish_record W fs u fb rs ex input path members = Inr r \<longleftrightarrow> finish_record W fs u fb rs ex input path' members = Inr r"
proof -
  have "check_forbidden J fb input path = Inr () \<longleftrightarrow> check_forbidden J fb input path' = Inr ()" for J :: "'a json_lib"
    by (induction fb) auto
  moreover have "check_known known keys path = Inr () \<longleftrightarrow> check_known known keys path' = Inr ()" for known keys
    by (induction keys) auto
  moreover have "check_required fs members rule names path = Inr () \<longleftrightarrow> check_required fs members rule names path' = Inr ()" for rule names
    by (induction names) auto
  moreover have "check_absent fs members rule names path = Inr () \<longleftrightarrow> check_absent fs members rule names path' = Inr ()" for rule names
    by (induction names) auto
  moreover have "check_rules fs members rs path = Inr () \<longleftrightarrow> check_rules fs members rs path' = Inr ()"
    using calculation(3, 4) by (induction rs) (simp_all add: and_then_eq_Inr)
  ultimately show ?thesis by (simp add: finish_record_def and_then_eq_Inr)
qed
lemma decode_leaf_anywhere:
  "decode_text W input path message = Inr s \<Longrightarrow> decode_text W input path' message = Inr s"
  "decode_integer W input path = Inr n \<Longrightarrow> decode_integer W input path' = Inr n"
  "enum_from spellings s path = Inr e \<Longrightarrow> enum_from spellings s path' = Inr e"
  by (auto simp: decode_text_def decode_integer_def enum_from_def split: if_splits option.splits)

lemma decode_anywhere:
  "decode_one W ty input path = Inr v \<Longrightarrow> decode_one W ty input path' = Inr v"
  "decode_list W ty items index path = Inr vs \<Longrightarrow> decode_list W ty items index' path' = Inr vs"
  "wire_from_json W r input path = Inr members \<Longrightarrow> wire_from_json W r input path' = Inr members"
  "read_fields W fs all rules i input path before = Inr members \<Longrightarrow> read_fields W fs all rules i input path' before = Inr members"
  "check_shape W sh input path = Inr u \<Longrightarrow> check_shape W sh input path' = Inr u"
  "check_batch W r marker items index path = Inr u \<Longrightarrow> check_batch W r marker items index' path' = Inr u"
proof (induction W ty input path and W ty items index path and W r input path and W fs all rules i input path before
    and W sh input path and W r marker items index path
    arbitrary: v path' and vs index' path' and members path' and members path' and u path' and u index' path'
    rule: decode_one_decode_list_wire_from_json_read_fields_check_shape_check_batch.induct)
  case (12 W name ty opt pr nul cs sh d fs all rules i input path members membersa path')
  let ?f = "WireField name ty opt pr nul cs sh d"
  let ?step = "\<lambda>path. if ignored_field all rules members name then Inr members
        else case js_find (jw_json W) input name of
          None \<Rightarrow> if is_required ?f then Inl (validation_error (join_path path name) ''missing required field'') else Inr members
        | Some found \<Rightarrow>
            if js_is_null (jw_json W) found then
              if \<not> nul then Inl (validation_error (join_path path name) ''explicit null is not accepted'')
              else Inr (if \<not> opt \<and> ty = WJson then members[i := Some (VJson (js_null (jw_json W)))] else members)
            else and_then (decode_one W ty found (join_path path name)) (\<lambda>v.
              and_then (check_shape W sh found (join_path path name)) (\<lambda>_.
              and_then (check_constraints W cs found (join_path path name)) (\<lambda>_. Inr (members[i := Some v]))))"
  from "12.prems" obtain mid where mid: "?step path = Inr mid" and rest: "read_fields W fs all rules (Suc i) input path mid = Inr membersa"
    by (auto simp only: read_fields.simps and_then_eq_Inr)
  have "?step path' = Inr mid"
  proof (cases "ignored_field all rules members name \<or> js_find (jw_json W) input name = None \<or>
      (\<exists>found. js_find (jw_json W) input name = Some found \<and> js_is_null (jw_json W) found)")
    case True
    with mid show ?thesis by (auto split: if_splits option.splits)
  next
    case False
    then obtain found where found: "\<not> ignored_field all rules members name" "js_find (jw_json W) input name = Some found" "\<not> js_is_null (jw_json W) found"
      by auto
    with mid obtain v where v: "decode_one W ty found (join_path path name) = Inr v" "check_shape W sh found (join_path path name) = Inr ()"
      "check_constraints W cs found (join_path path name) = Inr ()" "mid = members[i := Some v]"
      by (auto simp: and_then_eq_Inr)
    from "12.IH"(1) [OF found v(1)] "12.IH"(2) [OF found v(1, 2)] v(3, 4) found show ?thesis
      by (simp add: checks_anywhere [of W cs found "join_path path name" "join_path path' name"])
  qed
  with "12.IH"(3) [OF mid rest] show ?case by (simp only: read_fields.simps and_then_simps)
next
  case (10 W n fs u fb rs ex input path members path')
  from "10.prems" obtain mid where object: "js_is_object (jw_json W) input"
    and read: "read_fields W fs fs rs 0 input path (default_members (jw_json W) fs) = Inr mid"
    and finish: "finish_record W fs u fb rs ex input path mid = Inr members"
    by (auto simp: and_then_eq_Inr split: if_splits)
  from object have "\<not> \<not> js_is_object (jw_json W) input" by simp
  from "10.IH" [OF this read] finish_anywhere [THEN iffD1, OF finish] object show ?case by simp
next
  case (17 W r marker item items index path u index' path')
  show ?case
  proof (cases "js_is_object (jw_json W) item \<and> js_find (jw_json W) item ''display_omitted'' \<noteq> None")
    case True
    with "17.prems" obtain members where "items = []" "wire_from_json W marker item (element_path path index) = Inr members"
      by (auto simp: and_then_eq_Inr split: if_splits)
    with "17.IH"(1) [OF True _ this(2), of "element_path path' index'"] "17.prems" True show ?thesis
      by (auto simp: and_then_eq_Inr)
  next
    case False
    with "17.prems" obtain members where "wire_from_json W r item (element_path path index) = Inr members"
      and rest: "check_batch W r marker items (Suc index) path = Inr u" by (auto simp: and_then_eq_Inr)
    with "17.IH"(2) [OF False this(1), of "element_path path' index'"] "17.IH"(3) [OF _ rest, of "()" "Suc index'" path'] False show ?thesis
      by auto
  qed
next
  case (2 W input path)
  then show ?case using decode_leaf_anywhere(1) [of W input path _ _ path'] by (auto simp: and_then_eq_Inr)
next
  case (4 W input path)
  then show ?case using decode_leaf_anywhere(2) [of W input path _ path'] by (auto simp: and_then_eq_Inr)
next
  case (5 W spellings input path)
  then show ?case using decode_leaf_anywhere(1) [of W input path _ _ path'] decode_leaf_anywhere(3) [of spellings _ path _ path']
    by (auto simp: and_then_eq_Inr)
next
  case (6 W r input path v path')
  from "6.prems" obtain members where "wire_from_json W r input path = Inr members" "v = VRecord members"
    by (auto simp: and_then_eq_Inr)
  with "6.IH" [OF this(1), of path'] show ?case by simp
next
  case (7 W ty input path v path')
  from "7.prems" obtain items vs where array: "\<not> \<not> js_is_array (jw_json W) input" and items: "js_get_array (jw_json W) input = Inr items"
    and vs: "decode_list W ty items 0 path = Inr vs" and v: "v = VVector vs"
    by (auto simp: and_then_eq_Inr split: if_splits)
  from "7.IH" [OF array items vs, of 0 path'] array items v show ?case by simp
next
  case (9 W ty item items index path vs index' path')
  from "9.prems" obtain w ws where w: "decode_one W ty item (element_path path index) = Inr w"
    and ws: "decode_list W ty items (Suc index) path = Inr ws" and vs: "vs = w # ws"
    by (auto simp: and_then_eq_Inr)
  from "9.IH"(1) [OF w, of "element_path path' index'"] "9.IH"(2) [OF w ws, of "Suc index'" path'] vs show ?case by simp
next
  case (14 W r input path u path')
  show ?case
  proof (cases "js_is_string (jw_json W) input")
    case False
    with "14.prems" obtain members where "wire_from_json W r input path = Inr members" by (auto simp: and_then_eq_Inr)
    from "14.IH" [OF False this, of path'] False show ?thesis by simp
  qed (use "14.prems" in simp)
next
  case (15 W r marker input path u path')
  from "15.prems" obtain items where array: "\<not> \<not> js_is_array (jw_json W) input" and items: "js_get_array (jw_json W) input = Inr items"
    and rest: "check_batch W r marker items 0 path = Inr u" by (auto simp: and_then_eq_Inr split: if_splits)
  from "15.IH" [OF array items rest, of 0 path'] array items show ?case by simp
qed (simp_all split: option.splits)
section \<open>The round trip\<close>

locale wire_laws = json_laws "jw_json W" for W :: "'j json_wire" +
  assumes bool_read: "jw_get_bool W (js_bool (jw_json W) v) = Some v"
    and integer_read: "n \<le> size_max \<Longrightarrow> jw_get_integer W (js_number (jw_json W) (int n)) = Some (int n)"
    and bool_not_null: "\<not> js_is_null (jw_json W) (js_bool (jw_json W) v)"
    and object_not_string: "js_is_object (jw_json W) j \<Longrightarrow> \<not> js_is_string (jw_json W) j"
    and null_unique: "js_is_null (jw_json W) j \<Longrightarrow> j = js_null (jw_json W)"
    and keys_find: "js_is_object (jw_json W) j \<Longrightarrow> k \<in> set (jw_keys W j) \<longleftrightarrow> js_find (jw_json W) j k \<noteq> None"

text \<open>What a member leaves in the object.\<close>

definition written :: "'j json_lib \<Rightarrow> wire_field \<Rightarrow> 'j wire_value option \<Rightarrow> 'j option" where
  "written J f m =
     (case m of
        Some v \<Rightarrow> Some (encode_one J (wf_type f) v)
      | None \<Rightarrow> if is_required f \<and> wf_nullable f then Some (js_null J) else None)"

lemma rule_scan_other: "ru_when_field rule \<notin> set (map wf_name fs) \<Longrightarrow> rule_scan matched rule fs members = matched"
  by (induction matched rule fs members rule: rule_scan.induct) auto

lemma present_scan_other: "name \<notin> set (map wf_name fs) \<Longrightarrow> present_scan present name fs members = present"
  by (induction present name fs members rule: present_scan.induct) auto

text \<open>A rule on the first field looks at the first member only.\<close>

lemma rule_matches_head:
  assumes "distinct (map wf_name (f # fs))" "ru_when_field rule = wf_name f"
  shows "rule_matches (f # fs) (m # members) rule = rule_matches (f # fs) (m # members') rule"
  using assms by (simp add: rule_matches_def rule_scan_other)

lemma field_present_at:
  assumes "distinct (map wf_name (pre @ f # fs))" "length before = length pre"
  shows "field_present (pre @ f # fs) (before @ m # members) (wf_name f) \<longleftrightarrow> (wf_optional f \<longrightarrow> m \<noteq> None)"
proof -
  have "present_scan present (wf_name f) (pre @ f # fs) (before @ m # members) = (wf_optional f \<longrightarrow> m \<noteq> None)" for present
    using assms
  proof (induction pre arbitrary: before present)
    case Nil
    then show ?case by (simp add: present_scan_other)
  next
    case (Cons g pre)
    then show ?case by (cases before) auto
  qed
  then show ?thesis by (simp add: field_present_def)
qed

lemma default_members_length [simp]: "length (default_members J fs) = length fs"
  by (induction fs) (auto, metis default_members.simps(2) length_Cons wire_field.exhaust)

lemma members_ok_length: "members_ok W fs members \<Longrightarrow> length members = length fs"
proof (induction fs arbitrary: members)
  case (Cons f fs)
  then show ?case by (cases f; cases members) auto
qed (auto elim: members_ok.elims)

context json_laws
begin

lemma encode_fields_object: "js_is_object J out \<Longrightarrow> js_is_object J (encode_fields J fs members out)"
proof (induction fs arbitrary: members out)
  case (Cons f fs)
  then show ?case by (cases f; cases members) (auto simp: set_object split: option.split)
qed simp

lemma encode_fields_other: "js_is_object J out \<Longrightarrow> k \<notin> set (map wf_name fs) \<Longrightarrow>
    js_find J (encode_fields J fs members out) k = js_find J out k"
proof (induction fs arbitrary: members out)
  case (Cons f fs)
  then show ?case by (cases f; cases members) (auto simp: set_object find_set split: option.split)
qed simp

lemma encode_fields_at:
  assumes "js_is_object J out" "distinct (map wf_name (pre @ f # fs))" "length before = length pre" "js_find J out (wf_name f) = None"
  shows "js_find J (encode_fields J (pre @ f # fs) (before @ m # members) out) (wf_name f) = written J f m"
  using assms
proof (induction pre arbitrary: before out)
  case Nil
  then show ?case
    by (cases f) (auto simp: encode_fields_other set_object find_set written_def split: option.split)
next
  case (Cons g pre)
  then show ?case by (cases g; cases before) (auto simp: set_object find_set split: option.split)
qed

lemma written_found:
  assumes "distinct (map wf_name (pre @ f # fs))" "length before = length pre"
  shows "js_find J (encode_fields J (pre @ f # fs) (before @ m # members) (js_object J [])) (wf_name f) = written J f m"
  by (rule encode_fields_at) (use assms in \<open>simp_all add: object_kind find_object\<close>)

end
definition selectors_first :: "wire_field list \<Rightarrow> wire_rule list \<Rightarrow> bool" where
  "selectors_first fs rules \<longleftrightarrow>
     (\<forall>rule \<in> set rules. ru_ignores rule \<noteq> [] \<longrightarrow>
        (case fs of [] \<Rightarrow> True | f # _ \<Rightarrow> ru_when_field rule = wf_name f \<and> wf_name f \<notin> set (ru_ignores rule)))"

lemma ignored_absent:
  assumes "distinct (map wf_name (pre @ f # fs))" "length before = length pre" "selectors_first (pre @ f # fs) rules"
    "nothing_ignored (pre @ f # fs) rules (before @ m # members)"
    "ignored_field (pre @ f # fs) rules (before @ partial) (wf_name f)"
  shows "wf_optional f \<and> m = None"
proof -
  from assms(5) obtain rule where rule: "rule \<in> set rules" "rule_matches (pre @ f # fs) (before @ partial) rule" "wf_name f \<in> set (ru_ignores rule)"
    by (auto simp: ignored_field_def)
  then have "ru_ignores rule \<noteq> []" by auto
  with assms(3) rule(1) have sel: "case pre @ f # fs of [] \<Rightarrow> True | g # _ \<Rightarrow> ru_when_field rule = wf_name g \<and> wf_name g \<notin> set (ru_ignores rule)"
    by (auto simp: selectors_first_def)
  obtain g pre' b0 before' where pre: "pre = g # pre'" "before = b0 # before'"
    using sel rule(3) assms(2) by (cases pre; cases before) auto
  have "rule_matches (pre @ f # fs) (before @ m # members) rule"
    using rule(2) rule_matches_head [of g "pre' @ f # fs" rule b0 "before' @ partial" "before' @ m # members"] sel assms(1) pre by simp
  with assms(4) rule(1, 3) have "\<not> field_present (pre @ f # fs) (before @ m # members) (wf_name f)"
    by (auto simp: nothing_ignored_def)
  with field_present_at [OF assms(1, 2)] show ?thesis by simp
qed

context wire_laws
begin

lemma read_fields_written:
  assumes "distinct (map wf_name (pre @ fs))" "length before = length pre" "members_ok W fs members"
    "selectors_first (pre @ fs) rules" "nothing_ignored (pre @ fs) rules (before @ members)"
    "\<And>f v path. f \<in> set fs \<Longrightarrow> value_ok W (wf_type f) v \<Longrightarrow> decode_one W (wf_type f) (encode_one (jw_json W) (wf_type f) v) path = Inr v"
    "\<And>f m. (f, m) \<in> set (zip fs members) \<Longrightarrow> js_find (jw_json W) input (wf_name f) = written (jw_json W) f m"
  shows "read_fields W fs (pre @ fs) rules (length pre) input path (before @ default_members (jw_json W) fs) = Inr (before @ members)"
  using assms
proof (induction fs arbitrary: pre before members)
  case Nil
  then show ?case by (cases members) auto
next
  case (Cons f fs)
  obtain name ty opt pr nul cs sh d where f: "f = WireField name ty opt pr nul cs sh d" by (cases f)
  from Cons.prems(3) obtain m members' where members: "members = m # members'" and rest: "members_ok W fs members'"
    by (cases members) (auto simp: f)
  let ?J = "jw_json W" and ?d = "if opt then None else Some (default_value (jw_json W) ty d)"
  let ?partial = "before @ ?d # default_members ?J fs"
  have slot: "?partial[length pre := x] = before @ x # default_members ?J fs" for x
    using Cons.prems(2) by (simp add: list_update_append)
  have find: "js_find ?J input name = written ?J f m" using Cons.prems(7) [of f m] by (simp add: members f)
  have ignored: "opt \<and> m = None" if "ignored_field (pre @ f # fs) rules ?partial name"
    using ignored_absent [OF Cons.prems(1, 2, 4) Cons.prems(5) [unfolded members], of "?d # default_members ?J fs"] that
    by (simp add: f)
  have step: "read_fields W (f # fs) (pre @ f # fs) rules (length pre) input path ?partial =
      read_fields W fs (pre @ f # fs) rules (Suc (length pre)) input path (before @ m # default_members ?J fs)"
  proof (cases m)
    case None
    with Cons.prems(3) have "opt" "is_required f \<longrightarrow> nul" by (auto simp: members f)
    then show ?thesis using find None by (auto simp: f written_def null_kind)
  next
    case (Some v)
    with ignored have read: "\<not> ignored_field (pre @ f # fs) rules ?partial name" by auto
    from Cons.prems(3) Some have v: "value_ok W ty v"
      and fit: "if js_is_null ?J (encode_one ?J ty v) then nul \<and> \<not> opt \<and> ty = WJson else json_fits W cs sh (encode_one ?J ty v)"
      by (auto simp: members f Let_def)
    show ?thesis
    proof (cases "js_is_null ?J (encode_one ?J ty v)")
      case True
      with fit have "nul" "\<not> opt" "ty = WJson" by auto
      moreover from this v obtain j where "v = VJson j" by (cases v) auto
      ultimately have "v = VJson (js_null ?J)" using null_unique True by simp
      with True fit find Some read show ?thesis by (simp add: f written_def slot list_update_append Cons.prems(2))
    next
      case False
      have decode: "decode_one W ty (encode_one ?J ty v) p = Inr v" for p using Cons.prems(6) [of f v p] v by (simp add: f)
      have shape: "check_shape W sh (encode_one ?J ty v) p = Inr ()" for p
        using fit False decode_anywhere(5) by (auto simp: json_fits_def)
      have limits: "check_constraints W cs (encode_one ?J ty v) p = Inr ()" for p
        using fit False checks_anywhere [of W cs _ "[]" p] by (auto simp: json_fits_def)
      show ?thesis using False find Some read decode shape limits by (simp add: f written_def slot)
    qed
  qed
  have "read_fields W fs ((pre @ [f]) @ fs) rules (length (pre @ [f])) input path ((before @ [m]) @ default_members ?J fs) = Inr ((before @ [m]) @ members')"
    by (rule Cons.IH) (use Cons.prems rest in \<open>auto simp: members\<close>)
  with step show ?case by (simp add: members f)
qed

lemma check_forbidden_none: "(\<And>name. name \<in> set names \<Longrightarrow> js_find (jw_json W) input name = None) \<Longrightarrow> check_forbidden (jw_json W) names input path = Inr ()"
  by (induction names) auto

lemma check_known_all: "set keys \<subseteq> set known \<Longrightarrow> check_known known keys path = Inr ()"
  by (induction keys) auto

lemma check_rules_hold: "rules_hold fs rules members \<Longrightarrow> check_rules fs members rules path = Inr ()"
proof (induction rules)
  case (Cons rule rules)
  have "check_required fs members rule names path = Inr ()" if "\<forall>name \<in> set names. field_present fs members name" for names
    using that by (induction names) auto
  moreover have "check_absent fs members rule names path = Inr ()" if "\<forall>name \<in> set names. \<not> field_present fs members name" for names
    using that by (induction names) auto
  ultimately show ?case using Cons by (auto simp: rules_hold_def)
qed simp

lemma record_written:
  assumes "wf_record_ok r" "record_ok W r members"
    "\<And>f v path. f \<in> set (wr_fields r) \<Longrightarrow> value_ok W (wf_type f) v \<Longrightarrow> decode_one W (wf_type f) (encode_one (jw_json W) (wf_type f) v) path = Inr v"
  shows "wire_from_json W r (wire_to_json (jw_json W) r members) path = Inr members"
proof -
  obtain n fs u fb rs ex where r: "r = WireRecord n fs u fb rs ex" by (cases r)
  let ?J = "jw_json W"
  let ?j = "encode_fields ?J fs members (js_object ?J [])"
  have distinct: "distinct (map wf_name fs)" and first: "selectors_first fs rs" and forbidden: "\<forall>name \<in> set fb. name \<notin> set (map wf_name fs)"
    using assms(1) by (auto simp: r selectors_first_def)
  have ok: "members_ok W fs members" "rules_hold fs rs members" "nothing_ignored fs rs members" "check_expected fs members ex = Inr ()"
    using assms(2) by (simp_all add: r)
  have object: "js_is_object ?J ?j" by (simp add: encode_fields_object object_kind)
  have other: "js_find ?J ?j k = None" if "k \<notin> set (map wf_name fs)" for k
    using that by (simp add: encode_fields_other object_kind find_object)
  have found: "js_find ?J ?j (wf_name f) = written ?J f m" if "(f, m) \<in> set (zip fs members)" for f m
  proof -
    from that obtain i where i: "i < length fs" "i < length members" "f = fs ! i" "m = members ! i" by (auto simp: set_zip)
    with written_found [of "take i fs" f "drop (Suc i) fs" "take i members" m "drop (Suc i) members"] distinct show ?thesis
      by (simp add: id_take_nth_drop [symmetric])
  qed
  have "read_fields W fs fs rs 0 ?j path (default_members ?J fs) = Inr members"
    using read_fields_written [of "[]" fs "[]" members rs ?j path] distinct first ok assms(3) found by (simp add: r)
  moreover have "set (jw_keys W ?j) \<subseteq> set (map wf_name fs)" using keys_find [OF object] other by blast
  moreover have "check_forbidden ?J fb ?j path = Inr ()" by (rule check_forbidden_none) (use forbidden other in blast)
  ultimately show ?thesis
    using object ok check_known_all [of "jw_keys W ?j" "map wf_name fs" path] check_rules_hold [of fs rs members path]
    by (simp add: r wire_to_json_def finish_record_def)
qed

lemma value_written:
  assumes "wf_type_ok ty" "value_ok W ty v"
  shows "decode_one W ty (encode_one (jw_json W) ty v) path = Inr v"
  using assms
proof (induction "size ty" arbitrary: ty v path rule: less_induct)
  case less
  show ?case
  proof (cases ty)
    case (WVector ty')
    with less.prems obtain vs where vs: "v = VVector vs" "values_ok W ty' vs" by (cases v) auto
    have "decode_list W ty' (encode_list (jw_json W) ty' vs) index p = Inr vs" if "values_ok W ty' vs" for vs index p
      using that
    proof (induction vs arbitrary: index)
      case (Cons w ws)
      have "decode_one W ty' (encode_one (jw_json W) ty' w) q = Inr w" for q
        by (rule less.hyps) (use less.prems(1) Cons.prems WVector in auto)
      with Cons show ?case by simp
    qed simp
    with vs show ?thesis by (simp add: WVector array_kind array_read)
  next
    case (WRecord r)
    obtain n fs u fb rs ex where r: "r = WireRecord n fs u fb rs ex" by (cases r)
    from less.prems WRecord obtain members where v: "v = VRecord members" "record_ok W r members" by (cases v) auto
    have "wire_from_json W r (wire_to_json (jw_json W) r members) path = Inr members"
    proof (rule record_written)
      show "wf_record_ok r" "record_ok W r members" using less.prems WRecord v by auto
      fix f w p
      assume f: "f \<in> set (wr_fields r)" and "value_ok W (wf_type f) w"
      moreover have "wf_type_ok (wf_type f)" if "wf_fields_ok gs" "f \<in> set gs" for gs
        using that
      proof (induction gs)
        case (Cons g gs)
        then show ?case by (cases g) auto
      qed simp
      with f less.prems(1) have "wf_type_ok (wf_type f)" by (auto simp: WRecord r)
      moreover have "size (wf_type f) < size f" by (cases f) auto
      moreover have "size f \<le> size_list size fs" using f by (simp add: r size_list_estimation')
      ultimately show "decode_one W (wf_type f) (encode_one (jw_json W) (wf_type f) w) p = Inr w"
        by (intro less.hyps) (auto simp: WRecord r)
    qed
    with v show ?thesis by (simp add: WRecord r wire_to_json_def)
  qed (use less.prems in \<open>cases v; auto simp: decode_text_def decode_integer_def enum_from_def string_kind string_read bool_read integer_read\<close>)+
qed

end

section \<open>What is accepted\<close>

fun value_typed :: "wire_type \<Rightarrow> 'j wire_value \<Rightarrow> bool"
  and values_typed :: "wire_type \<Rightarrow> 'j wire_value list \<Rightarrow> bool"
  and record_typed :: "wire_record \<Rightarrow> 'j wire_value option list \<Rightarrow> bool"
  and members_typed :: "wire_field list \<Rightarrow> 'j wire_value option list \<Rightarrow> bool" where
  "value_typed WText (VText s) \<longleftrightarrow> True"
| "value_typed WInteger (VInteger n) \<longleftrightarrow> n \<le> size_max"
| "value_typed WBoolean (VBoolean v) \<longleftrightarrow> True"
| "value_typed WJson (VJson j) \<longleftrightarrow> True"
| "value_typed (WEnum spellings) (VEnum s) \<longleftrightarrow> s \<in> set spellings"
| "value_typed (WVector ty) (VVector vs) \<longleftrightarrow> values_typed ty vs"
| "value_typed (WRecord r) (VRecord members) \<longleftrightarrow> record_typed r members"
| "value_typed _ _ \<longleftrightarrow> False"
| "values_typed ty [] \<longleftrightarrow> True"
| "values_typed ty (v # vs) \<longleftrightarrow> value_typed ty v \<and> values_typed ty vs"
| "record_typed (WireRecord n fs u fb rs ex) members \<longleftrightarrow>
     members_typed fs members \<and> rules_hold fs rs members \<and> check_expected fs members ex = Inr ()"
| "members_typed [] [] \<longleftrightarrow> True"
| "members_typed (WireField name ty opt pr nul cs sh d # fs) (m # members) \<longleftrightarrow>
     (case m of None \<Rightarrow> opt | Some v \<Rightarrow> value_typed ty v) \<and> members_typed fs members"
| "members_typed _ _ \<longleftrightarrow> False"

text \<open>A member that is no optional is always read: it is required, no rule ignores it, and null is a value of it or refused.\<close>

definition always_read :: "wire_rule list \<Rightarrow> wire_field \<Rightarrow> bool" where
  "always_read rules f \<longleftrightarrow> wf_optional f \<or>
     is_required f \<and> (\<forall>rule \<in> set rules. wf_name f \<notin> set (ru_ignores rule)) \<and> (wf_nullable f \<longrightarrow> wf_type f = WJson)"

fun strict_type :: "wire_type \<Rightarrow> bool" and strict_record :: "wire_record \<Rightarrow> bool" and strict_fields :: "wire_rule list \<Rightarrow> wire_field list \<Rightarrow> bool" where
  "strict_type (WVector ty) \<longleftrightarrow> strict_type ty"
| "strict_type (WRecord r) \<longleftrightarrow> strict_record r"
| "strict_type _ \<longleftrightarrow> True"
| "strict_record (WireRecord n fs u fb rs ex) \<longleftrightarrow> strict_fields rs fs"
| "strict_fields rs [] \<longleftrightarrow> True"
| "strict_fields rs (WireField n ty opt pr nul cs sh d # fs) \<longleftrightarrow>
     strict_type ty \<and> always_read rs (WireField n ty opt pr nul cs sh d) \<and> strict_fields rs fs"

lemma read_fields_typed:
  assumes "read_fields W fs all rules (length before) input path (before @ rest) = Inr members" "strict_fields rules fs"
    "length rest = length fs" "\<And>f m. (f, m) \<in> set (zip fs rest) \<Longrightarrow> wf_optional f \<Longrightarrow> m = None"
    "\<And>f j v path. f \<in> set fs \<Longrightarrow> decode_one W (wf_type f) j path = Inr v \<Longrightarrow> value_typed (wf_type f) v"
  shows "\<exists>read. members = before @ read \<and> members_typed fs read"
  using assms
proof (induction fs arbitrary: before rest)
  case Nil
  then show ?case by simp
next
  case (Cons f fs)
  obtain name ty opt pr nul cs sh d where f: "f = WireField name ty opt pr nul cs sh d" by (cases f)
  from Cons.prems(3) obtain x rest' where rest: "rest = x # rest'" by (cases rest) auto
  have unset: "opt \<Longrightarrow> x = None" using Cons.prems(4) [of f x] by (simp add: rest f)
  have slot: "(before @ x # rest')[length before := y] = before @ y # rest'" for y by simp
  have strict: "opt \<or> is_required f \<and> (\<forall>rule \<in> set rules. name \<notin> set (ru_ignores rule)) \<and> (nul \<longrightarrow> ty = WJson)"
    using Cons.prems(2) by (auto simp: f always_read_def)
  have decoded: "value_typed ty v" if "decode_one W ty j p = Inr v" for j p v using Cons.prems(5) [of f j p v] that by (simp add: f)
  have "\<exists>m. (case m of None \<Rightarrow> opt | Some v \<Rightarrow> value_typed ty v) \<and>
      read_fields W fs all rules (Suc (length before)) input path (before @ m # rest') = Inr members"
  proof (cases "ignored_field all rules (before @ x # rest') name")
    case True
    with strict have "opt" by (auto simp: ignored_field_def)
    with True Cons.prems(1) unset show ?thesis by (auto simp: rest f intro!: exI [of _ None])
  next
    case read: False
    show ?thesis
    proof (cases "js_find (jw_json W) input name")
      case None
      with Cons.prems(1) read strict have "opt" by (auto simp: rest f split: if_splits)
      with None read Cons.prems(1) unset show ?thesis by (auto simp: rest f split: if_splits intro!: exI [of _ None])
    next
      case (Some found)
      show ?thesis
      proof (cases "js_is_null (jw_json W) found")
        case True
        with Some read Cons.prems(1) have "nul" by (auto simp: rest f split: if_splits)
        with True Some read Cons.prems(1) strict unset slot show ?thesis
          by (cases opt) (auto simp: rest f intro: exI [of _ None] exI [of _ "Some (VJson (js_null (jw_json W)))"])
      next
        case False
        with Some read Cons.prems(1) obtain v where "decode_one W ty found (join_path path name) = Inr v"
          "read_fields W fs all rules (Suc (length before)) input path (before @ Some v # rest') = Inr members"
          by (auto simp: rest f and_then_eq_Inr slot)
        with decoded show ?thesis by (intro exI [of _ "Some v"]) auto
      qed
    qed
  qed
  then obtain m where m: "case m of None \<Rightarrow> opt | Some v \<Rightarrow> value_typed ty v"
    "read_fields W fs all rules (length (before @ [m])) input path ((before @ [m]) @ rest') = Inr members" by auto
  have "\<exists>read. members = (before @ [m]) @ read \<and> members_typed fs read"
    by (rule Cons.IH [OF m(2)]) (use Cons.prems in \<open>auto simp: rest f\<close>)
  with m(1) show ?case by (auto simp: f)
qed
lemma check_rules_read: "check_rules fs members rules path = Inr () \<Longrightarrow> rules_hold fs rules members"
proof (induction rules)
  case (Cons rule rules)
  have "\<forall>name \<in> set names. field_present fs members name" if "check_required fs members rule names path = Inr ()" for names
    using that by (induction names) (auto split: if_splits)
  moreover have "\<forall>name \<in> set names. \<not> field_present fs members name" if "check_absent fs members rule names path = Inr ()" for names
    using that by (induction names) (auto split: if_splits)
  ultimately show ?case using Cons by (auto simp: rules_hold_def and_then_eq_Inr split: if_splits)
qed (simp add: rules_hold_def)

lemma check_forbidden_read: "check_forbidden J names input path = Inr () \<Longrightarrow> name \<in> set names \<Longrightarrow> js_find J input name = None"
  by (induction names) (auto split: if_splits)

lemma check_known_read: "check_known known keys path = Inr () \<Longrightarrow> set keys \<subseteq> set known"
  by (induction keys) (auto split: if_splits)

lemma default_unset: "(f, m) \<in> set (zip fs (default_members J fs)) \<Longrightarrow> wf_optional f \<Longrightarrow> m = None"
proof (induction fs)
  case (Cons g fs)
  then show ?case by (cases g) auto
qed simp

lemma record_read:
  assumes "wire_from_json W r input path = Inr members" "strict_record r"
    "\<And>f j v path. f \<in> set (wr_fields r) \<Longrightarrow> decode_one W (wf_type f) j path = Inr v \<Longrightarrow> value_typed (wf_type f) v"
  shows "record_typed r members" and "\<forall>name \<in> set (wr_forbidden r). js_find (jw_json W) input name = None"
    and "closed_scope (wr_rejects_unknown r) (wr_fields r) (wr_rules r) members \<longrightarrow> set (jw_keys W input) \<subseteq> set (map wf_name (wr_fields r))"
proof -
  obtain n fs u fb rs ex where r: "r = WireRecord n fs u fb rs ex" by (cases r)
  from assms(1) have read: "read_fields W fs fs rs 0 input path (default_members (jw_json W) fs) = Inr members"
    and finish: "finish_record W fs u fb rs ex input path members = Inr members"
    by (auto simp: r and_then_eq_Inr finish_record_def split: if_splits)
  have "\<exists>read. members = [] @ read \<and> members_typed fs read"
    by (rule read_fields_typed [of W fs fs rs "[]" input path "default_members (jw_json W) fs" members])
      (use read assms(2, 3) default_unset in \<open>auto simp: r\<close>)
  with finish show "record_typed r members" "\<forall>name \<in> set (wr_forbidden r). js_find (jw_json W) input name = None"
    "closed_scope (wr_rejects_unknown r) (wr_fields r) (wr_rules r) members \<longrightarrow> set (jw_keys W input) \<subseteq> set (map wf_name (wr_fields r))"
    using check_forbidden_read [of "jw_json W" fb input path] check_known_read [of "map wf_name fs" "jw_keys W input" path]
    by (auto simp: r finish_record_def and_then_eq_Inr check_rules_read split: if_splits)
qed

lemma strict_fields_type: "strict_fields rs fs \<Longrightarrow> f \<in> set fs \<Longrightarrow> strict_type (wf_type f)"
proof (induction fs)
  case (Cons g fs)
  then show ?case by (cases g) auto
qed simp

lemma field_size: "f \<in> set fs \<Longrightarrow> size (wf_type f) < size (WireRecord n fs u fb rs ex)"
proof -
  assume "f \<in> set fs"
  then have "size f \<le> size_list size fs" by (simp add: size_list_estimation')
  moreover have "size (wf_type f) < size f" by (cases f) auto
  ultimately show ?thesis by simp
qed

lemma value_read: "decode_one W ty j path = Inr v \<Longrightarrow> strict_type ty \<Longrightarrow> value_typed ty v"
proof (induction "size ty" arbitrary: ty v j path rule: less_induct)
  case less
  show ?case
  proof (cases ty)
    case (WVector ty')
    have "values_typed ty' vs" if "decode_list W ty' items index p = Inr vs" for items index p vs
      using that
    proof (induction items arbitrary: index vs)
      case (Cons item items)
      then show ?case using less.hyps [of ty'] less.prems(2) WVector by (auto simp: and_then_eq_Inr)
    qed simp
    with less.prems(1) show ?thesis by (auto simp: WVector and_then_eq_Inr split: if_splits)
  next
    case (WRecord r)
    obtain n fs u fb rs ex where r: "r = WireRecord n fs u fb rs ex" by (cases r)
    from less.prems(1) obtain members where members: "wire_from_json W r j path = Inr members" "v = VRecord members"
      by (auto simp: WRecord and_then_eq_Inr)
    have "record_typed r members"
    proof (rule record_read(1) [OF members(1)])
      show "strict_record r" using less.prems(2) by (simp add: WRecord)
      fix f j' v' p
      assume f: "f \<in> set (wr_fields r)" and "decode_one W (wf_type f) j' p = Inr v'"
      then show "value_typed (wf_type f) v'"
        using less.hyps [of "wf_type f"] field_size [of f fs n u fb rs ex] strict_fields_type [of rs fs f] less.prems(2) by (simp add: WRecord r)
    qed
    with members show ?thesis by (simp add: WRecord)
  qed (use less.prems in \<open>auto simp: and_then_eq_Inr decode_integer_def enum_from_def split: if_splits option.splits\<close>)
qed

lemma record_accepted:
  assumes "wire_from_json W r input path = Inr members" "strict_record r"
  shows "record_typed r members \<and> (\<forall>name \<in> set (wr_forbidden r). js_find (jw_json W) input name = None) \<and>
    (closed_scope (wr_rejects_unknown r) (wr_fields r) (wr_rules r) members \<longrightarrow> set (jw_keys W input) \<subseteq> set (map wf_name (wr_fields r)))"
proof -
  obtain n fs u fb rs ex where r: "r = WireRecord n fs u fb rs ex" by (cases r)
  have "value_typed (wf_type f) v" if "f \<in> set (wr_fields r)" "decode_one W (wf_type f) j p = Inr v" for f j v p
    using value_read [OF that(2)] strict_fields_type [of rs fs f] that(1) assms(2) by (simp add: r)
  with record_read [OF assms] show ?thesis by blast
qed

section \<open>JSON values\<close>

definition json_wire_values :: "json json_wire" where
  "json_wire_values =
     \<lparr>jw_json = json_values, jw_get_bool = (\<lambda>j. case j of JBool v \<Rightarrow> Some v | _ \<Rightarrow> None),
      jw_get_integer = (\<lambda>j. case j of JNumber i \<Rightarrow> Some i | _ \<Rightarrow> None),
      jw_keys = (\<lambda>j. case j of JObject kvs \<Rightarrow> map fst kvs | _ \<Rightarrow> [])\<rparr>"

lemma keys_of_alist: "(k \<in> fst ` set kvs) = (\<exists>v. map_of kvs k = Some v)"
  using map_of_eq_None_iff [of kvs k] by auto

interpretation json_wire_values: wire_laws json_wire_values
proof -
  have "json_laws (jw_json json_wire_values)" by (simp add: json_wire_values_def json_values.json_laws_axioms)
  then show "wire_laws json_wire_values"
    by (rule wire_laws.intro, unfold_locales)
      (simp_all add: json_wire_values_def json_values_def keys_of_alist split: json.splits)
qed

end
