(* ===== verification/Core_Outbox.thy ===== *)
theory Core_Outbox
  imports Json_Api
begin

text \<open>
  \<^verbatim>\<open>core/include/core/event_outbox.hpp\<close> and \<^verbatim>\<open>event_admission.hpp\<close>: the ledger that admits events of a session for
  the transport, with the event names and the envelope of \<^verbatim>\<open>protocol/include/protocol/wire.hpp\<close>.

  Encoding to bytes (\<^verbatim>\<open>dump\<close>) and the typed read of a boolean belong to the JSON library and are fields of
  \<open>json_io\<close>. Byte counts, omission counters and the sequence number are \<open>nat\<close>: a session stays far below
  \<^verbatim>\<open>2^64\<close> events.
\<close>

section \<open>Events and envelopes\<close>

record 'j json_io =
  io_json :: "'j json_lib"
  io_get_bool :: "'j \<Rightarrow> bool result"
  io_dump :: "'j \<Rightarrow> string result"

datatype event_name =
    ready_ev | status_ev | options_ev | history_ev | answer_ev | answer_error_ev | history_error_ev
  | input_admitted_ev | input_rejected_ev | run_started_ev | input_committed_ev | model_response_ev
  | tool_calls_ev | tool_results_ev | persisted_ev | compact_finished_ev | export_error_ev | error_ev
  | run_finished_ev

fun event_spelling :: "event_name \<Rightarrow> string" where
  "event_spelling ready_ev = ''ready''"
| "event_spelling status_ev = ''status''"
| "event_spelling options_ev = ''options''"
| "event_spelling history_ev = ''history''"
| "event_spelling answer_ev = ''answer''"
| "event_spelling answer_error_ev = ''answer_error''"
| "event_spelling history_error_ev = ''history_error''"
| "event_spelling input_admitted_ev = ''input_admitted''"
| "event_spelling input_rejected_ev = ''input_rejected''"
| "event_spelling run_started_ev = ''run_started''"
| "event_spelling input_committed_ev = ''input_committed''"
| "event_spelling model_response_ev = ''model_response''"
| "event_spelling tool_calls_ev = ''tool_calls''"
| "event_spelling tool_results_ev = ''tool_results''"
| "event_spelling persisted_ev = ''persisted''"
| "event_spelling compact_finished_ev = ''compact_finished''"
| "event_spelling export_error_ev = ''export_error''"
| "event_spelling error_ev = ''error''"
| "event_spelling run_finished_ev = ''run_finished''"

record 'j event_envelope =
  ev_event :: event_name
  ev_session_id :: string
  ev_worker_id :: string
  ev_request_id :: string
  ev_run_id :: string
  ev_sequence :: nat
  ev_data :: 'j

definition envelope_to_json :: "'j json_lib \<Rightarrow> 'j event_envelope \<Rightarrow> 'j" where
  "envelope_to_json J e =
     js_set J ''data'' (ev_data e)
    (js_set J ''sequence'' (js_number J (int (ev_sequence e)))
    (js_set J ''run_id'' (js_string J (ev_run_id e))
    (js_set J ''request_id'' (js_string J (ev_request_id e))
    (js_set J ''worker_id'' (js_string J (ev_worker_id e))
    (js_set J ''session_id'' (js_string J (ev_session_id e))
    (js_set J ''event'' (js_string J (event_spelling (ev_event e)))
    (js_set J ''type'' (js_string J ''event'')
    (js_object J []))))))))"

text \<open>\<^verbatim>\<open>j.value(key, default)\<close> and \<^verbatim>\<open>j[key] = v\<close> on any value.\<close>

definition value_or :: "'j json_lib \<Rightarrow> 'j \<Rightarrow> string \<Rightarrow> ('j \<Rightarrow> 'a result) \<Rightarrow> 'a \<Rightarrow> 'a result" where
  "value_or J j key decode fallback =
     (if \<not> js_is_object J j then Inl JsonTypeError
      else case js_find J j key of None \<Rightarrow> Inr fallback | Some v \<Rightarrow> decode v)"

definition put_field :: "'j json_lib \<Rightarrow> string \<Rightarrow> 'j \<Rightarrow> 'j \<Rightarrow> 'j result" where
  "put_field J key v j =
     (if js_is_object J j then Inr (js_set J key v j)
      else if js_is_null J j then Inr (js_set J key v (js_object J []))
      else Inl JsonTypeError)"

section \<open>Admission classes\<close>

datatype kind = Preview | Query | Feedback | Metadata | Lifecycle

datatype outbox_admission = Added | Replaced | Omitted

definition classify_event :: "'j json_lib \<Rightarrow> event_name \<Rightarrow> 'j \<Rightarrow> bool \<Rightarrow> kind result" where
  "classify_event J name data storage_failed =
     (case name of
        model_response_ev \<Rightarrow> Inr Preview | tool_calls_ev \<Rightarrow> Inr Preview | tool_results_ev \<Rightarrow> Inr Preview
      | history_ev \<Rightarrow> Inr Query | answer_ev \<Rightarrow> Inr Query | history_error_ev \<Rightarrow> Inr Query | answer_error_ev \<Rightarrow> Inr Query
      | persisted_ev \<Rightarrow> Inr Metadata | status_ev \<Rightarrow> Inr Metadata | options_ev \<Rightarrow> Inr Metadata | export_error_ev \<Rightarrow> Inr Metadata
      | error_ev \<Rightarrow> Inr (if storage_failed then Lifecycle else Metadata)
      | compact_finished_ev \<Rightarrow>
          and_then (value_or J data ''origin'' (js_get_string J) []) (\<lambda>origin.
            Inr (if origin = ''automatic'' then Metadata else Lifecycle))
      | ready_ev \<Rightarrow> Inr Lifecycle | input_admitted_ev \<Rightarrow> Inr Lifecycle | run_started_ev \<Rightarrow> Inr Lifecycle
      | input_committed_ev \<Rightarrow> Inr Lifecycle | run_finished_ev \<Rightarrow> Inr Lifecycle
      | input_rejected_ev \<Rightarrow> Inr Feedback)"

section \<open>The ledger\<close>

definition default_write_byte_capacity :: nat where
  "default_write_byte_capacity = 16 * 1024 * 1024"

definition display_event_max_bytes :: nat where
  "display_event_max_bytes = 1024 * 1024"

definition history_event_max_bytes :: nat where
  "history_event_max_bytes = 256 * 1024"

definition lifecycle_slots :: nat where
  "lifecycle_slots = 8"

definition metadata_slots :: nat where
  "metadata_slots = 6"

definition soft_bytes :: nat where
  "soft_bytes = default_write_byte_capacity - (lifecycle_slots + 1) * display_event_max_bytes"

record 'j outbox_entry =
  oe_message :: 'j
  oe_bytes :: nat
  oe_kind :: kind

record 'j outbox =
  ob_queue :: "'j outbox_entry list"
  ob_capacity :: nat
  ob_bytes :: nat
  ob_ordinary_count :: nat
  ob_metadata_count :: nat
  ob_lifecycle_count :: nat
  ob_omitted_display :: nat
  ob_omitted_queries :: nat
  ob_coalesced_metadata :: nat
  ob_omitted_feedback :: nat
  ob_sequence :: nat
  ob_in_flight :: bool
  ob_noncritical_paused :: bool
  ob_closed :: bool

definition EventOutbox :: "nat \<Rightarrow> 'j outbox result" where
  "EventOutbox capacity =
     (if capacity = 0 then Inl (InvalidArgument ''event_capacity must be positive'')
      else Inr \<lparr>ob_queue = [], ob_capacity = capacity, ob_bytes = 0, ob_ordinary_count = 0, ob_metadata_count = 0,
        ob_lifecycle_count = 0, ob_omitted_display = 0, ob_omitted_queries = 0, ob_coalesced_metadata = 0,
        ob_omitted_feedback = 0, ob_sequence = 0, ob_in_flight = False, ob_noncritical_paused = False, ob_closed = False\<rparr>)"

definition fits :: "nat \<Rightarrow> nat \<Rightarrow> nat \<Rightarrow> nat \<Rightarrow> bool" where
  "fits own transport added limit \<longleftrightarrow> own \<le> limit \<and> transport \<le> limit - own \<and> added \<le> limit - own - transport"

fun count_of :: "kind \<Rightarrow> 'j outbox \<Rightarrow> nat" where
  "count_of Lifecycle b = ob_lifecycle_count b"
| "count_of Metadata b = ob_metadata_count b"
| "count_of _ b = ob_ordinary_count b"

fun set_count :: "kind \<Rightarrow> nat \<Rightarrow> 'j outbox \<Rightarrow> 'j outbox" where
  "set_count Lifecycle n b = b\<lparr>ob_lifecycle_count := n\<rparr>"
| "set_count Metadata n b = b\<lparr>ob_metadata_count := n\<rparr>"
| "set_count _ n b = b\<lparr>ob_ordinary_count := n\<rparr>"

fun note_omission :: "kind \<Rightarrow> 'j outbox \<Rightarrow> 'j outbox" where
  "note_omission Preview b = b\<lparr>ob_omitted_display := ob_omitted_display b + 1\<rparr>"
| "note_omission Query b = b\<lparr>ob_omitted_queries := ob_omitted_queries b + 1\<rparr>"
| "note_omission Metadata b = b\<lparr>ob_coalesced_metadata := ob_coalesced_metadata b + 1\<rparr>"
| "note_omission _ b = b\<lparr>ob_omitted_feedback := ob_omitted_feedback b + 1\<rparr>"

definition omit_query_when_congested :: "nat \<Rightarrow> 'j outbox \<Rightarrow> bool \<times> 'j outbox" where
  "omit_query_when_congested transport_bytes b =
     (if ob_closed b then (True, b)
      else if ob_noncritical_paused b \<or> ob_ordinary_count b \<ge> ob_capacity b
              \<or> \<not> fits (ob_bytes b) transport_bytes history_event_max_bytes soft_bytes
      then (True, note_omission Query b)
      else (False, b))"

text \<open>A settlement reports the counters that are not zero.\<close>

definition is_settlement :: "'j json_io \<Rightarrow> 'j event_envelope \<Rightarrow> bool result" where
  "is_settlement I e =
     (if ev_event e = run_finished_ev then Inr True
      else if ev_event e = error_ev then
        and_then (value_or (io_json I) (ev_data e) ''durable'' (io_get_bool I) True) (\<lambda>durable. Inr (\<not> durable))
      else Inr False)"

definition report_count :: "'j json_lib \<Rightarrow> string \<Rightarrow> nat \<Rightarrow> 'j \<Rightarrow> 'j result" where
  "report_count J key n data = (if n = 0 then Inr data else put_field J key (js_number J (int n)) data)"

definition settled_data :: "'j json_lib \<Rightarrow> 'j outbox \<Rightarrow> 'j \<Rightarrow> 'j result" where
  "settled_data J b data =
     and_then (report_count J ''omitted_display_events'' (ob_omitted_display b) data) (\<lambda>d1.
     and_then (report_count J ''omitted_query_events'' (ob_omitted_queries b) d1) (\<lambda>d2.
     and_then (report_count J ''coalesced_metadata_events'' (ob_coalesced_metadata b) d2) (\<lambda>d3.
     report_count J ''omitted_feedback_events'' (ob_omitted_feedback b) d3)))"

text \<open>Whether a queued entry is the latest value the message replaces; \<^verbatim>\<open>at()\<close> throws on a missing field.\<close>

definition same_field :: "'j json_lib \<Rightarrow> string \<Rightarrow> 'j \<Rightarrow> 'j \<Rightarrow> bool result" where
  "same_field J key x y = and_then (read_at J x key Inr) (\<lambda>a. and_then (read_at J y key Inr) (\<lambda>b. Inr (js_equal J a b)))"

definition replaces :: "'j json_lib \<Rightarrow> 'j outbox_entry \<Rightarrow> 'j \<Rightarrow> bool result" where
  "replaces J old message =
     (if oe_kind old \<noteq> Metadata then Inr False
      else and_then (same_field J ''event'' (oe_message old) message) (\<lambda>same_event.
        if \<not> same_event then Inr False
        else and_then (same_field J ''request_id'' (oe_message old) message) (\<lambda>same_request.
          if \<not> same_request then Inr False
          else same_field J ''run_id'' (oe_message old) message)))"

fun find_replaced :: "'j json_lib \<Rightarrow> 'j outbox_entry list \<Rightarrow> 'j \<Rightarrow> nat option result" where
  "find_replaced J [] message = Inr None"
| "find_replaced J (old # queue) message =
     and_then (replaces J old message) (\<lambda>found.
       if found then Inr (Some 0)
       else and_then (find_replaced J queue message) (\<lambda>rest. Inr (map_option Suc rest)))"

definition slot_free :: "kind \<Rightarrow> 'j outbox \<Rightarrow> bool" where
  "slot_free k b \<longleftrightarrow>
     (case k of
        Lifecycle \<Rightarrow> ob_lifecycle_count b < lifecycle_slots
      | Metadata \<Rightarrow> ob_metadata_count b < metadata_slots
      | _ \<Rightarrow> ob_ordinary_count b < ob_capacity b)"

text \<open>The end of \<^verbatim>\<open>admit()\<close>: a message with a slot and room is appended.\<close>

definition append_or_omit :: "bool \<Rightarrow> kind \<Rightarrow> nat \<Rightarrow> 'j \<Rightarrow> nat \<Rightarrow> 'j outbox \<Rightarrow> outbox_admission \<times> 'j outbox" where
  "append_or_omit settlement k transport_bytes message bytes b =
     (let limit = (if k = Lifecycle then default_write_byte_capacity else soft_bytes) in
      if \<not> slot_free k b \<or> \<not> fits (ob_bytes b) transport_bytes bytes limit then
        (Omitted, if k = Lifecycle then b else note_omission k b)
      else
        let b1 = b\<lparr>ob_queue := ob_queue b @ [\<lparr>oe_message = message, oe_bytes = bytes, oe_kind = k\<rparr>], ob_bytes := ob_bytes b + bytes\<rparr>;
            b2 = (set_count k (count_of k b1 + 1) b1)\<lparr>ob_sequence := ob_sequence b + 1\<rparr> in
        (Added, if settlement
           then b2\<lparr>ob_omitted_display := 0, ob_omitted_queries := 0, ob_coalesced_metadata := 0, ob_omitted_feedback := 0\<rparr>
           else b2))"

definition replace_metadata ::
  "'j json_io \<Rightarrow> bool \<Rightarrow> nat \<Rightarrow> 'j \<Rightarrow> nat \<Rightarrow> nat \<Rightarrow> 'j outbox \<Rightarrow> (outbox_admission \<times> 'j outbox) result" where
  "replace_metadata I settlement transport_bytes message bytes i b =
     (let old = ob_queue b ! i in
      and_then (read_at (io_json I) (oe_message old) ''sequence'' Inr) (\<lambda>sequence.
      let message' = js_set (io_json I) ''sequence'' sequence message in
      and_then (io_dump I message') (\<lambda>encoded.
      let bytes' = length encoded in
      if fits (ob_bytes b - oe_bytes old) transport_bytes bytes' soft_bytes then
        Inr (Replaced, b\<lparr>ob_bytes := ob_bytes b - oe_bytes old + bytes',
          ob_queue := (ob_queue b)[i := \<lparr>oe_message = message', oe_bytes = bytes', oe_kind = Metadata\<rparr>],
          ob_coalesced_metadata := ob_coalesced_metadata b + 1\<rparr>)
      else Inr (append_or_omit settlement Metadata transport_bytes message' bytes' b))))"

definition admit_encoded ::
  "'j json_io \<Rightarrow> bool \<Rightarrow> kind \<Rightarrow> nat \<Rightarrow> 'j \<Rightarrow> nat \<Rightarrow> 'j outbox \<Rightarrow> (outbox_admission \<times> 'j outbox) result" where
  "admit_encoded I settlement k transport_bytes message bytes b =
     (if ob_closed b then Inr (Omitted, b)
      else if ob_noncritical_paused b \<and> k \<noteq> Lifecycle then Inr (Omitted, note_omission k b)
      else if k = Metadata then
        let first = (if ob_in_flight b then 1 else 0) in
        and_then (find_replaced (io_json I) (drop first (ob_queue b)) message) (\<lambda>found.
          case found of
            None \<Rightarrow> Inr (append_or_omit settlement k transport_bytes message bytes b)
          | Some i \<Rightarrow> replace_metadata I settlement transport_bytes message bytes (first + i) b)
      else Inr (append_or_omit settlement k transport_bytes message bytes b))"

definition admit_event :: "'j json_io \<Rightarrow> 'j event_envelope \<Rightarrow> kind \<Rightarrow> nat \<Rightarrow> 'j outbox \<Rightarrow> (outbox_admission \<times> 'j outbox) result" where
  "admit_event I envelope k transport_bytes b =
     and_then (is_settlement I envelope) (\<lambda>settlement.
     and_then (if settlement then settled_data (io_json I) b (ev_data envelope) else Inr (ev_data envelope)) (\<lambda>data.
     let message = envelope_to_json (io_json I) (envelope\<lparr>ev_data := data, ev_sequence := ob_sequence b + 1\<rparr>) in
     and_then (io_dump I message) (\<lambda>encoded.
     let bytes = length encoded in
     if bytes > display_event_max_bytes then Inl (LengthError ''display event exceeds the transport budget'')
     else if ev_event envelope = history_ev \<and> bytes > history_event_max_bytes then
       Inl (LengthError ''history event exceeds the display budget'')
     else admit_encoded I settlement k transport_bytes message bytes b)))"

definition begin_send :: "'j json_lib \<Rightarrow> 'j outbox \<Rightarrow> ('j \<times> 'j outbox) result" where
  "begin_send J b =
     (case ob_queue b of
        [] \<Rightarrow> Inl (LogicError ''invalid outbox send'')
      | front # queue \<Rightarrow>
          if ob_in_flight b then Inl (LogicError ''invalid outbox send'')
          else Inr (oe_message front, b\<lparr>ob_in_flight := True, ob_queue := front\<lparr>oe_message := js_null J\<rparr> # queue\<rparr>))"

definition complete_send :: "'j outbox \<Rightarrow> 'j outbox result" where
  "complete_send b =
     (if \<not> ob_in_flight b then Inl (LogicError ''outbox has no active send'')
      else
        let front = hd (ob_queue b); b1 = b\<lparr>ob_bytes := ob_bytes b - oe_bytes front\<rparr> in
        Inr ((set_count (oe_kind front) (count_of (oe_kind front) b1 - 1) b1)\<lparr>ob_queue := tl (ob_queue b), ob_in_flight := False\<rparr>))"

definition close_outbox :: "'j outbox \<Rightarrow> 'j outbox" where
  "close_outbox b = b\<lparr>ob_closed := True\<rparr>"

definition pause_noncritical :: "bool \<Rightarrow> 'j outbox \<Rightarrow> 'j outbox" where
  "pause_noncritical paused b = b\<lparr>ob_noncritical_paused := paused\<rparr>"

section \<open>Runs of the ledger\<close>

text \<open>
  What a run of the ledger shows: an omission or coalescing that is counted, a settlement with the counters
  it takes over, a message handed to the transport.
\<close>

datatype 'j ledger_note = Counted kind | Settled "kind \<Rightarrow> nat" | Sent 'j | Quiet

fun counter :: "'j outbox \<Rightarrow> kind \<Rightarrow> nat" where
  "counter b Preview = ob_omitted_display b"
| "counter b Query = ob_omitted_queries b"
| "counter b Metadata = ob_coalesced_metadata b"
| "counter b _ = ob_omitted_feedback b"

definition admission_note :: "'j json_io \<Rightarrow> 'j event_envelope \<Rightarrow> kind \<Rightarrow> outbox_admission \<Rightarrow> 'j outbox \<Rightarrow> 'j ledger_note" where
  "admission_note I envelope k a b =
     (case a of
        Added \<Rightarrow> if is_settlement I envelope = Inr True then Settled (counter b) else Quiet
      | Replaced \<Rightarrow> Counted Metadata
      | Omitted \<Rightarrow> if ob_closed b \<or> k = Lifecycle then Quiet else Counted k)"

inductive outbox_run :: "'j json_io \<Rightarrow> 'j ledger_note list \<Rightarrow> 'j outbox \<Rightarrow> bool" for I where
  run_new: "EventOutbox capacity = Inr b \<Longrightarrow> outbox_run I [] b"
| run_admit: "outbox_run I trail b \<Longrightarrow> admit_event I envelope k transport_bytes b = Inr (a, b') \<Longrightarrow>
    outbox_run I (trail @ [admission_note I envelope k a b]) b'"
| run_query: "outbox_run I trail b \<Longrightarrow> omit_query_when_congested transport_bytes b = (skipped, b') \<Longrightarrow>
    outbox_run I (trail @ [if skipped \<and> \<not> ob_closed b then Counted Query else Quiet]) b'"
| run_begin: "outbox_run I trail b \<Longrightarrow> begin_send (io_json I) b = Inr (message, b') \<Longrightarrow> outbox_run I (trail @ [Sent message]) b'"
| run_complete: "outbox_run I trail b \<Longrightarrow> complete_send b = Inr b' \<Longrightarrow> outbox_run I (trail @ [Quiet]) b'"
| run_close: "outbox_run I trail b \<Longrightarrow> outbox_run I (trail @ [Quiet]) (close_outbox b)"
| run_pause: "outbox_run I trail b \<Longrightarrow> outbox_run I (trail @ [Quiet]) (pause_noncritical paused b)"

section \<open>The bounds\<close>

definition ordinary :: "kind \<Rightarrow> bool" where
  "ordinary k \<longleftrightarrow> k \<noteq> Lifecycle \<and> k \<noteq> Metadata"

definition bytes_of :: "(kind \<Rightarrow> bool) \<Rightarrow> 'j outbox_entry list \<Rightarrow> nat" where
  "bytes_of P queue = sum_list (map oe_bytes (filter (\<lambda>x. P (oe_kind x)) queue))"

definition entries_of :: "(kind \<Rightarrow> bool) \<Rightarrow> 'j outbox_entry list \<Rightarrow> nat" where
  "entries_of P queue = length (filter (\<lambda>x. P (oe_kind x)) queue)"

text \<open>Counters agree with the queue, and every class keeps to its share.\<close>

definition ledger_ok :: "'j outbox \<Rightarrow> bool" where
  "ledger_ok b \<longleftrightarrow>
     ob_bytes b = sum_list (map oe_bytes (ob_queue b)) \<and>
     ob_lifecycle_count b = entries_of (\<lambda>k. k = Lifecycle) (ob_queue b) \<and>
     ob_metadata_count b = entries_of (\<lambda>k. k = Metadata) (ob_queue b) \<and>
     ob_ordinary_count b = entries_of ordinary (ob_queue b) \<and>
     ob_lifecycle_count b \<le> lifecycle_slots \<and> ob_metadata_count b \<le> metadata_slots \<and> ob_ordinary_count b \<le> ob_capacity b \<and>
     bytes_of (\<lambda>k. k \<noteq> Lifecycle) (ob_queue b) \<le> soft_bytes \<and>
     (\<forall>x \<in> set (ob_queue b). oe_kind x = Lifecycle \<longrightarrow> oe_bytes x \<le> display_event_max_bytes) \<and>
     (ob_in_flight b \<longrightarrow> ob_queue b \<noteq> [])"

lemma fits_iff: "fits own transport added limit \<longleftrightarrow> own + transport + added \<le> limit"
  by (auto simp: fits_def)

lemma queue_sums [simp]:
  "bytes_of P [] = 0" "bytes_of P (x # queue) = (if P (oe_kind x) then oe_bytes x else 0) + bytes_of P queue"
  "bytes_of P (queue @ queue') = bytes_of P queue + bytes_of P queue'"
  "entries_of P [] = 0" "entries_of P (x # queue) = (if P (oe_kind x) then 1 else 0) + entries_of P queue"
  "entries_of P (queue @ queue') = entries_of P queue + entries_of P queue'"
  by (simp_all add: bytes_of_def entries_of_def)

lemma bytes_of_le: "bytes_of P queue \<le> sum_list (map oe_bytes queue)"
  by (induction queue) auto

lemma note_omission_fields [simp]:
  "ob_queue (note_omission k b) = ob_queue b" "ob_bytes (note_omission k b) = ob_bytes b"
  "ob_lifecycle_count (note_omission k b) = ob_lifecycle_count b" "ob_metadata_count (note_omission k b) = ob_metadata_count b"
  "ob_ordinary_count (note_omission k b) = ob_ordinary_count b" "ob_capacity (note_omission k b) = ob_capacity b"
  "ob_in_flight (note_omission k b) = ob_in_flight b" "ob_sequence (note_omission k b) = ob_sequence b"
  "ob_closed (note_omission k b) = ob_closed b"
  by (cases k; simp)+

lemma note_omission_counter [simp]: "k \<noteq> Lifecycle \<Longrightarrow> k' \<noteq> Lifecycle \<Longrightarrow> counter (note_omission k b) k' = counter b k' + (if k' = k then 1 else 0)"
  by (cases k; cases k'; simp)

lemma ledger_ok_note [simp]: "ledger_ok (note_omission k b) \<longleftrightarrow> ledger_ok b"
  by (simp add: ledger_ok_def)

text \<open>What an admission can do to the ledger.\<close>

lemma append_cases:
  assumes "append_or_omit settlement k transport message bytes b = (a, b')"
  obtains (omitted) "a = Omitted" "b' = (if k = Lifecycle then b else note_omission k b)"
  | (added) "a = Added" "slot_free k b"
      "ob_bytes b + transport + bytes \<le> (if k = Lifecycle then default_write_byte_capacity else soft_bytes)"
      "ob_queue b' = ob_queue b @ [\<lparr>oe_message = message, oe_bytes = bytes, oe_kind = k\<rparr>]" "ob_bytes b' = ob_bytes b + bytes"
      "ob_lifecycle_count b' = ob_lifecycle_count b + (if k = Lifecycle then 1 else 0)"
      "ob_metadata_count b' = ob_metadata_count b + (if k = Metadata then 1 else 0)"
      "ob_ordinary_count b' = ob_ordinary_count b + (if ordinary k then 1 else 0)"
      "ob_capacity b' = ob_capacity b" "ob_in_flight b' = ob_in_flight b" "ob_closed b' = ob_closed b"
      "ob_sequence b' = ob_sequence b + 1" "\<forall>k'. counter b' k' = (if settlement then 0 else counter b k')"
proof (cases "slot_free k b \<and> fits (ob_bytes b) transport bytes (if k = Lifecycle then default_write_byte_capacity else soft_bytes)")
  case False
  with assms show ?thesis by (intro omitted) (auto simp: append_or_omit_def Let_def split: if_splits)
next
  case True
  have counters: "counter (b\<lparr>ob_omitted_display := 0, ob_omitted_queries := 0, ob_coalesced_metadata := 0, ob_omitted_feedback := 0\<rparr>) k' = 0"
    for b :: "'a outbox" and k' by (cases k') auto
  have kept: "counter (b\<lparr>ob_queue := q, ob_bytes := n, ob_lifecycle_count := x, ob_sequence := s\<rparr>) k' = counter b k'"
    "counter (b\<lparr>ob_queue := q, ob_bytes := n, ob_metadata_count := x, ob_sequence := s\<rparr>) k' = counter b k'"
    "counter (b\<lparr>ob_queue := q, ob_bytes := n, ob_ordinary_count := x, ob_sequence := s\<rparr>) k' = counter b k'"
    for b :: "'a outbox" and k' q n x s by (cases k'; simp)+
  from True assms show ?thesis
    by (intro added; cases k) (auto simp: append_or_omit_def Let_def fits_iff ordinary_def counters kept split: if_splits)
qed
lemma find_replaced_Some:
  "find_replaced J queue message = Inr (Some i) \<Longrightarrow> i < length queue \<and> oe_kind (queue ! i) = Metadata"
  by (induction queue arbitrary: i) (auto simp: and_then_eq_Inr replaces_def split: if_splits)

text \<open>
  A queued value that cannot be replaced for lack of room is never appended either, so the message that
  already carries the old sequence number goes nowhere.
\<close>

lemma crowded_omitted:
  assumes "\<not> fits (ob_bytes b - n) transport bytes soft_bytes"
  shows "append_or_omit settlement Metadata transport message bytes b = (Omitted, note_omission Metadata b)"
  using assms by (auto simp: append_or_omit_def fits_iff)

lemma append_not_replaced [simp]: "append_or_omit settlement k transport message bytes b \<noteq> (Replaced, b')"
  by (auto simp: append_or_omit_def Let_def)

definition numbered :: "'j json_io \<Rightarrow> 'j event_envelope \<Rightarrow> 'j \<Rightarrow> 'j outbox \<Rightarrow> 'j" where
  "numbered I envelope data b = envelope_to_json (io_json I) (envelope\<lparr>ev_data := data, ev_sequence := ob_sequence b + 1\<rparr>)"

lemma admit_cases:
  assumes "admit_event I envelope k transport b = Inr (a, b')"
  obtains (closed) "ob_closed b" "a = Omitted" "b' = b"
  | (omitted) "\<not> ob_closed b" "k \<noteq> Lifecycle" "a = Omitted" "b' = note_omission k b"
  | (appended) settlement data bytes where "\<not> ob_closed b" "is_settlement I envelope = Inr settlement"
      "(if settlement then settled_data (io_json I) b (ev_data envelope) else Inr (ev_data envelope)) = Inr data"
      "bytes \<le> display_event_max_bytes"
      "append_or_omit settlement k transport (numbered I envelope data b) bytes b = (a, b')"
  | (replaced) data i sequence bytes where "\<not> ob_closed b" "k = Metadata" "a = Replaced"
      "i < length (ob_queue b)" "ob_in_flight b \<longrightarrow> 0 < i" "oe_kind (ob_queue b ! i) = Metadata"
      "read_at (io_json I) (oe_message (ob_queue b ! i)) ''sequence'' Inr = Inr sequence"
      "ob_bytes b - oe_bytes (ob_queue b ! i) + transport + bytes \<le> soft_bytes"
      "b' = b\<lparr>ob_bytes := ob_bytes b - oe_bytes (ob_queue b ! i) + bytes,
         ob_queue := (ob_queue b)[i := \<lparr>oe_message = js_set (io_json I) ''sequence'' sequence (numbered I envelope data b),
           oe_bytes = bytes, oe_kind = Metadata\<rparr>],
         ob_coalesced_metadata := ob_coalesced_metadata b + 1\<rparr>"
proof -
  obtain settlement where settlement: "is_settlement I envelope = Inr settlement"
    using assms by (cases "is_settlement I envelope") (auto simp: admit_event_def)
  let ?data = "if settlement then settled_data (io_json I) b (ev_data envelope) else Inr (ev_data envelope)"
  obtain data where data: "?data = Inr data"
    using assms unfolding admit_event_def settlement and_then_simps by (cases ?data) (simp_all only: and_then_simps sum.simps)
  note start = assms [unfolded admit_event_def settlement and_then_simps data Let_def, folded numbered_def]
  obtain encoded where encoded: "io_dump I (numbered I envelope data b) = Inr encoded"
    using start by (cases "io_dump I (numbered I envelope data b)") auto
  from start [unfolded encoded and_then_simps] have size: "length encoded \<le> display_event_max_bytes"
    and rest: "admit_encoded I settlement k transport (numbered I envelope data b) (length encoded) b = Inr (a, b')"
    by (auto split: if_split_asm)
  let ?m = "numbered I envelope data b"
  consider "ob_closed b" | "\<not> ob_closed b" "ob_noncritical_paused b" "k \<noteq> Lifecycle"
    | "\<not> ob_closed b" "append_or_omit settlement k transport ?m (length encoded) b = (a, b')"
    | i where "\<not> ob_closed b" "k = Metadata" "replace_metadata I settlement transport ?m (length encoded) i b = Inr (a, b')"
        "i < length (ob_queue b)" "ob_in_flight b \<longrightarrow> 0 < i" "oe_kind (ob_queue b ! i) = Metadata"
  proof (cases "k = Metadata \<and> \<not> ob_closed b \<and> \<not> ob_noncritical_paused b")
    case False
    then show thesis using rest that(1,2,3) by (cases "ob_closed b") (auto simp: admit_encoded_def split: if_splits)
  next
    case True
    let ?first = "if ob_in_flight b then 1 else 0 :: nat"
    from True rest obtain found where found: "find_replaced (io_json I) (drop ?first (ob_queue b)) ?m = Inr found"
      and outcome: "(case found of None \<Rightarrow> Inr (append_or_omit settlement k transport ?m (length encoded) b)
         | Some i \<Rightarrow> replace_metadata I settlement transport ?m (length encoded) (?first + i) b) = Inr (a, b')"
      by (auto simp: admit_encoded_def and_then_eq_Inr Let_def)
    show thesis
    proof (cases found)
      case None
      with outcome True show thesis by (intro that(3)) auto
    next
      case (Some i)
      from find_replaced_Some [OF found [unfolded Some]] have "i < length (ob_queue b) - ?first" and
        "oe_kind (ob_queue b ! (?first + i)) = Metadata" by (auto simp: nth_drop split: if_splits)
      with Some outcome True show thesis by (intro that(4) [of "?first + i"]) auto
    qed
  qed
  then show thesis
  proof cases
    case 1
    with rest show thesis by (intro closed) (auto simp: admit_encoded_def)
  next
    case 2
    with rest show thesis by (intro omitted) (auto simp: admit_encoded_def)
  next
    case 3
    with settlement data size show thesis by (intro appended)
  next
    case (4 i)
    show thesis
    proof (cases "a = Replaced")
      case True
      with 4 show thesis
        by (auto simp: replace_metadata_def and_then_eq_Inr Let_def fits_iff crowded_omitted split: if_splits intro!: replaced)
    next
      case False
      with 4 show thesis
        by (auto simp: replace_metadata_def and_then_eq_Inr Let_def crowded_omitted split: if_splits intro!: omitted)
    qed
  qed
qed

lemma queue_update:
  assumes "i < length queue"
  shows "sum_list (map oe_bytes (queue[i := x])) + oe_bytes (queue ! i) = sum_list (map oe_bytes queue) + oe_bytes x"
    and "oe_kind x = oe_kind (queue ! i) \<Longrightarrow> entries_of P (queue[i := x]) = entries_of P queue"
    and "oe_kind x = oe_kind (queue ! i) \<Longrightarrow> P (oe_kind x) \<Longrightarrow> bytes_of P (queue[i := x]) + oe_bytes (queue ! i) = bytes_of P queue + oe_bytes x"
proof -
  have split: "queue = take i queue @ queue ! i # drop (Suc i) queue" "queue[i := x] = take i queue @ x # drop (Suc i) queue"
    using assms by (simp_all add: id_take_nth_drop upd_conv_take_nth_drop)
  show "sum_list (map oe_bytes (queue[i := x])) + oe_bytes (queue ! i) = sum_list (map oe_bytes queue) + oe_bytes x"
    by (subst split(2), subst (3) split(1)) simp
  show "entries_of P (queue[i := x]) = entries_of P queue" if "oe_kind x = oe_kind (queue ! i)"
    using that by (subst split(2), subst (3) split(1)) simp
  show "bytes_of P (queue[i := x]) + oe_bytes (queue ! i) = bytes_of P queue + oe_bytes x"
    if "oe_kind x = oe_kind (queue ! i)" "P (oe_kind x)"
    using that by (subst split(2), subst (3) split(1)) simp
qed
lemma ledger_ok_append:
  assumes "ledger_ok b" "append_or_omit settlement k transport message bytes b = (a, b')" "bytes \<le> display_event_max_bytes"
  shows "ledger_ok b'"
  using assms(2)
proof (cases rule: append_cases)
  case omitted
  with assms(1) show ?thesis by auto
next
  case added
  have "bytes_of (\<lambda>k. k \<noteq> Lifecycle) (ob_queue b) + (if k \<noteq> Lifecycle then bytes else 0) \<le> soft_bytes"
    using added(3) assms(1) bytes_of_le [of "\<lambda>k. k \<noteq> Lifecycle" "ob_queue b"] by (auto simp: ledger_ok_def)
  with added(2, 4-) assms(1, 3) show ?thesis
    by (cases k) (auto simp: ledger_ok_def slot_free_def ordinary_def)
qed

lemma ledger_ok_admit:
  assumes "ledger_ok b" "admit_event I envelope k transport b = Inr (a, b')"
  shows "ledger_ok b'"
  using assms(2)
proof (cases rule: admit_cases)
  case (replaced data i sequence bytes)
  let ?x = "\<lparr>oe_message = js_set (io_json I) ''sequence'' sequence (numbered I envelope data b), oe_bytes = bytes, oe_kind = Metadata\<rparr>"
  let ?q = "(ob_queue b)[i := ?x]"
  have kind: "oe_kind ?x = oe_kind (ob_queue b ! i)" using replaced by simp
  note sums = queue_update(1) [OF replaced(4), of ?x] queue_update(3) [OF replaced(4) kind, of "\<lambda>k. k \<noteq> Lifecycle"]
    and counts = queue_update(2) [OF replaced(4) kind]
  have "oe_bytes (ob_queue b ! i) \<le> ob_bytes b"
    using assms(1) replaced(4) by (auto simp: ledger_ok_def intro: member_le_sum_list)
  then have "sum_list (map oe_bytes ?q) = ob_bytes b - oe_bytes (ob_queue b ! i) + bytes"
    using sums(1) assms(1) by (simp add: ledger_ok_def)
  moreover have "bytes_of (\<lambda>k. k \<noteq> Lifecycle) ?q \<le> soft_bytes"
    using bytes_of_le [of "\<lambda>k. k \<noteq> Lifecycle" ?q] calculation replaced(8) by linarith
  moreover have "oe_bytes y \<le> display_event_max_bytes" if "y \<in> set ?q" "oe_kind y = Lifecycle" for y
    using that assms(1) set_update_subset_insert [of "ob_queue b" i ?x] by (auto simp: ledger_ok_def)
  ultimately show ?thesis using assms(1) replaced(9) by (simp add: ledger_ok_def counts)
qed (use assms ledger_ok_append in auto)

lemma ledger_ok_complete:
  assumes "ledger_ok b" "complete_send b = Inr b'"
  shows "ledger_ok b'"
proof -
  from assms obtain front queue where queue: "ob_queue b = front # queue"
    by (cases "ob_queue b") (auto simp: complete_send_def ledger_ok_def split: if_splits)
  with assms show ?thesis
    by (cases "oe_kind front") (auto simp: complete_send_def ledger_ok_def Let_def ordinary_def split: if_splits)
qed

lemma ledger_ok_run: "outbox_run I trail b \<Longrightarrow> ledger_ok b"
proof (induction rule: outbox_run.induct)
  case (run_new capacity b)
  then show ?case by (auto simp: EventOutbox_def ledger_ok_def split: if_splits)
next
  case (run_query trail b transport_bytes skipped b')
  then show ?case by (auto simp: omit_query_when_congested_def simp del: note_omission.simps split: if_splits)
next
  case (run_begin trail b message b')
  then show ?case by (auto simp: begin_send_def ledger_ok_def split: list.splits if_splits)
next
  case (run_close trail b)
  then show ?case by (simp add: close_outbox_def ledger_ok_def)
next
  case (run_pause trail b paused)
  then show ?case by (simp add: pause_noncritical_def ledger_ok_def)
qed (auto intro: ledger_ok_admit ledger_ok_complete)

lemma ledger_bytes_room:
  assumes "ledger_ok b"
  shows "ob_bytes b \<le> soft_bytes + entries_of (\<lambda>k. k = Lifecycle) (ob_queue b) * display_event_max_bytes"
proof -
  have "sum_list (map oe_bytes queue) = bytes_of (\<lambda>k. k \<noteq> Lifecycle) queue + bytes_of (\<lambda>k. k = Lifecycle) queue"
    for queue :: "'a outbox_entry list" by (induction queue) auto
  moreover have "bytes_of (\<lambda>k. k = Lifecycle) queue \<le> entries_of (\<lambda>k. k = Lifecycle) queue * display_event_max_bytes"
    if "\<forall>x \<in> set queue. oe_kind x = Lifecycle \<longrightarrow> oe_bytes x \<le> display_event_max_bytes" for queue :: "'a outbox_entry list"
    using that by (induction queue) auto
  ultimately show ?thesis using assms by (metis add_mono ledger_ok_def)
qed

text \<open>
  C20. The books of the ledger are right in every reachable state: the byte total and the three counters are
  those of the queue, every class stays within its slots, everything but lifecycle events together stays
  within the soft byte budget, and the whole queue within the write capacity of the transport.
\<close>

theorem outbox_bounds:
  assumes "outbox_run I trail b"
  shows "ob_bytes b = sum_list (map oe_bytes (ob_queue b)) \<and>
         ob_lifecycle_count b + ob_metadata_count b + ob_ordinary_count b = length (ob_queue b) \<and>
         entries_of (\<lambda>k. k = Lifecycle) (ob_queue b) \<le> lifecycle_slots \<and>
         entries_of (\<lambda>k. k = Metadata) (ob_queue b) \<le> metadata_slots \<and>
         entries_of ordinary (ob_queue b) \<le> ob_capacity b \<and>
         bytes_of (\<lambda>k. k \<noteq> Lifecycle) (ob_queue b) \<le> soft_bytes \<and>
         ob_bytes b \<le> default_write_byte_capacity"
proof -
  note ok = ledger_ok_run [OF assms, unfolded ledger_ok_def]
  have "entries_of (\<lambda>k. k = Lifecycle) queue + entries_of (\<lambda>k. k = Metadata) queue + entries_of ordinary queue = length queue"
    for queue :: "'a outbox_entry list"
    by (induction queue) (auto simp: ordinary_def)
  moreover have "ob_bytes b \<le> soft_bytes + lifecycle_slots * display_event_max_bytes"
    using ledger_bytes_room [OF ledger_ok_run [OF assms]] ok by (auto elim!: order_trans)
  ultimately show ?thesis using ok by (simp add: soft_bytes_def default_write_byte_capacity_def lifecycle_slots_def display_event_max_bytes_def)
qed

section \<open>The order\<close>

definition waiting :: "'j outbox \<Rightarrow> 'j outbox_entry list" where
  "waiting b = drop (if ob_in_flight b then 1 else 0) (ob_queue b)"

fun sent :: "'j ledger_note list \<Rightarrow> 'j list" where
  "sent [] = []"
| "sent (Sent m # trail) = m # sent trail"
| "sent (note # trail) = sent trail"

lemma sent_append [simp]: "sent (xs @ ys) = sent xs @ sent ys"
  by (induction xs rule: sent.induct) auto

lemma sent_admission [simp]: "sent [admission_note I envelope k a b] = []"
  by (cases a) (auto simp: admission_note_def)

definition sequence_at :: "'j json_lib \<Rightarrow> 'j \<Rightarrow> nat \<Rightarrow> bool" where
  "sequence_at J message n \<longleftrightarrow> js_is_object J message \<and> js_find J message ''sequence'' = Some (js_number J (int n))"

text \<open>What was sent and what waits carry ascending sequence numbers, up to the last one given.\<close>

definition order_ok :: "'j json_lib \<Rightarrow> 'j ledger_note list \<Rightarrow> 'j outbox \<Rightarrow> bool" where
  "order_ok J trail b \<longleftrightarrow>
     (\<exists>ns. list_all2 (sequence_at J) (sent trail @ map oe_message (waiting b)) ns \<and> sorted_wrt (<) ns \<and> (\<forall>n \<in> set ns. n \<le> ob_sequence b))"

context json_laws
begin

lemma envelope_sequence: "sequence_at J (envelope_to_json J envelope) (ev_sequence envelope)"
  by (simp add: sequence_at_def envelope_to_json_def set_object find_set object_kind)

lemma sequence_at_set: "sequence_at J message n \<Longrightarrow> js_is_object J message' \<Longrightarrow>
    read_at J message ''sequence'' Inr = Inr s \<Longrightarrow> sequence_at J (js_set J ''sequence'' s message') n"
  by (auto simp: sequence_at_def read_at_def set_object find_set)

end

lemma numbered_sequence: "json_laws (io_json I) \<Longrightarrow> sequence_at (io_json I) (numbered I envelope data b) (ob_sequence b + 1)"
  using json_laws.envelope_sequence [of "io_json I" "envelope\<lparr>ev_data := data, ev_sequence := ob_sequence b + 1\<rparr>"]
  by (simp add: numbered_def)

lemma order_ok_keep: "order_ok J trail b \<Longrightarrow> sent trail' = [] \<Longrightarrow> waiting b' = waiting b \<Longrightarrow> ob_sequence b' = ob_sequence b \<Longrightarrow>
    order_ok J (trail @ trail') b'"
  by (simp add: order_ok_def)

lemma order_ok_admit:
  assumes "json_laws (io_json I)" "order_ok (io_json I) trail b" "ledger_ok b" "admit_event I envelope k transport b = Inr (a, b')"
  shows "order_ok (io_json I) (trail @ [admission_note I envelope k a b]) b'"
  using assms(4)
proof (cases rule: admit_cases)
  case closed
  with assms(2) show ?thesis by (auto intro: order_ok_keep)
next
  case omitted
  with assms(2) show ?thesis by (auto intro!: order_ok_keep simp: waiting_def)
next
  case (appended settlement data bytes)
  from appended(5) show ?thesis
  proof (cases rule: append_cases)
    case omitted
    with assms(2) show ?thesis by (auto intro!: order_ok_keep simp: waiting_def)
  next
    case added
    from assms(2) obtain ns where ns: "list_all2 (sequence_at (io_json I)) (sent trail @ map oe_message (waiting b)) ns"
      "sorted_wrt (<) ns" "\<forall>n \<in> set ns. n \<le> ob_sequence b" by (auto simp: order_ok_def)
    have "waiting b' = waiting b @ [\<lparr>oe_message = numbered I envelope data b, oe_bytes = bytes, oe_kind = k\<rparr>]"
      using added(4, 10) assms(3) by (cases "ob_queue b") (auto simp: waiting_def ledger_ok_def)
    with ns added(12) numbered_sequence [OF assms(1), of envelope data b] show ?thesis
      unfolding order_ok_def by (intro exI [of _ "ns @ [ob_sequence b + 1]"])
        (auto simp: sorted_wrt_append list_all2_append simp flip: append_assoc intro: le_imp_less_Suc list_all2_appendI)
  qed
next
  case (replaced data i sequence bytes)
  define j where "j = i - (if ob_in_flight b then 1 else 0)"
  have j: "j < length (waiting b)" "waiting b ! j = ob_queue b ! i" and
    after: "map oe_message (waiting b') = (map oe_message (waiting b))[j := js_set (io_json I) ''sequence'' sequence (numbered I envelope data b)]"
    using replaced(4, 5) by (auto simp: j_def waiting_def replaced(9) map_update drop_update_swap nth_drop)
  from assms(2) obtain ns where ns: "list_all2 (sequence_at (io_json I)) (sent trail @ map oe_message (waiting b)) ns"
    "sorted_wrt (<) ns" "\<forall>n \<in> set ns. n \<le> ob_sequence b" by (auto simp: order_ok_def)
  let ?l = "length (sent trail)"
  have old: "sequence_at (io_json I) (oe_message (ob_queue b ! i)) (ns ! (?l + j))"
    using list_all2_nthD [OF ns(1), of "?l + j"] j by (simp add: nth_append)
  have object: "js_is_object (io_json I) (numbered I envelope data b)"
    using numbered_sequence [OF assms(1)] by (simp add: sequence_at_def)
  have "list_all2 (sequence_at (io_json I)) ((sent trail @ map oe_message (waiting b))
      [?l + j := js_set (io_json I) ''sequence'' sequence (numbered I envelope data b)]) (ns[?l + j := ns ! (?l + j)])"
    by (rule list_all2_update_cong [OF ns(1)]) (rule json_laws.sequence_at_set [OF assms(1) old object replaced(7)])
  then have "list_all2 (sequence_at (io_json I)) (sent trail @ map oe_message (waiting b')) ns"
    by (simp add: list_update_append after)
  with ns(2, 3) replaced(9) show ?thesis by (auto simp: order_ok_def)
qed

lemma order_ok_run:
  assumes "outbox_run I trail b" "json_laws (io_json I)"
  shows "order_ok (io_json I) trail b"
  using assms(1)
proof (induction rule: outbox_run.induct)
  case (run_new capacity b)
  then show ?case by (auto simp: EventOutbox_def order_ok_def waiting_def split: if_splits)
next
  case (run_admit trail b envelope k transport_bytes a b')
  then show ?case using order_ok_admit [OF assms(2)] ledger_ok_run by blast
next
  case (run_query trail b transport_bytes skipped b')
  then show ?case
    by (auto simp: omit_query_when_congested_def waiting_def simp del: note_omission.simps split: if_splits intro!: order_ok_keep)
next
  case (run_begin trail b message b')
  then obtain front queue where "ob_queue b = front # queue" "message = oe_message front" "\<not> ob_in_flight b"
    "b' = b\<lparr>ob_in_flight := True, ob_queue := front\<lparr>oe_message := js_null (io_json I)\<rparr> # queue\<rparr>"
    by (auto simp: begin_send_def split: list.splits if_splits)
  with run_begin.IH show ?case by (simp add: order_ok_def waiting_def)
next
  case (run_complete trail b b')
  then have "waiting b' = waiting b \<and> ob_sequence b' = ob_sequence b"
    by (cases "oe_kind (hd (ob_queue b))") (auto simp: complete_send_def waiting_def Let_def drop_Suc split: if_splits)
  with run_complete show ?case by (auto intro: order_ok_keep)
next
  case (run_close trail b)
  then show ?case by (auto simp: close_outbox_def waiting_def intro!: order_ok_keep)
next
  case (run_pause trail b paused)
  then show ?case by (auto simp: pause_noncritical_def waiting_def intro!: order_ok_keep)
qed

text \<open>
  C22. Events leave in the order of their sequence numbers. Over a whole run, whatever is admitted, coalesced,
  omitted or refused in between, the messages handed to the transport carry strictly increasing sequence
  numbers, all of them numbers the ledger has given: replacing queued metadata keeps its place and its number.
\<close>

theorem outbox_order:
  assumes "outbox_run I trail b"
    and "json_laws (io_json I)"
  shows "\<exists>ns. sorted_wrt (<) ns \<and> (\<forall>n \<in> set ns. n \<le> ob_sequence b) \<and>
           map (\<lambda>message. js_find (io_json I) message ''sequence'') (sent trail) = map (\<lambda>n. Some (js_number (io_json I) (int n))) ns"
proof -
  from order_ok_run [OF assms] obtain ns where
    "list_all2 (sequence_at (io_json I)) (sent trail @ map oe_message (waiting b)) ns" "sorted_wrt (<) ns" "\<forall>n \<in> set ns. n \<le> ob_sequence b"
    by (auto simp: order_ok_def)
  then obtain ns1 ns2 where "ns = ns1 @ ns2" "list_all2 (sequence_at (io_json I)) (sent trail) ns1"
    by (auto simp: list_all2_append1)
  moreover from this(2) have "map (\<lambda>message. js_find (io_json I) message ''sequence'') (sent trail) = map (\<lambda>n. Some (js_number (io_json I) (int n))) ns1"
    by (induction rule: list_all2_induct) (auto simp: sequence_at_def)
  ultimately show ?thesis using \<open>sorted_wrt (<) ns\<close> \<open>\<forall>n \<in> set ns. n \<le> ob_sequence b\<close> by (auto simp: sorted_wrt_append)
qed
section \<open>The accounts\<close>

fun counted :: "kind \<Rightarrow> 'j ledger_note list \<Rightarrow> nat" where
  "counted k [] = 0"
| "counted k (Counted k' # trail) = (if k' = k then 1 else 0) + counted k trail"
| "counted k (note # trail) = counted k trail"

fun reported_losses :: "kind \<Rightarrow> 'j ledger_note list \<Rightarrow> nat" where
  "reported_losses k [] = 0"
| "reported_losses k (Settled counters # trail) = counters k + reported_losses k trail"
| "reported_losses k (note # trail) = reported_losses k trail"

lemma accounts_append [simp]: "counted k (xs @ ys) = counted k xs + counted k ys" "reported_losses k (xs @ ys) = reported_losses k xs + reported_losses k ys"
  by (induction xs rule: counted.induct; simp)+

lemma admit_accounts:
  assumes "admit_event I envelope k transport b = Inr (a, b')" "k' \<noteq> Lifecycle"
  shows "counter b k' + counted k' [admission_note I envelope k a b] = counter b' k' + reported_losses k' [admission_note I envelope k a b]"
  using assms(1)
proof (cases rule: admit_cases)
  case (appended settlement data bytes)
  from appended(5) show ?thesis
    by (cases rule: append_cases) (use appended assms(2) in \<open>auto simp: admission_note_def\<close>)
next
  case (replaced data i sequence bytes)
  then show ?thesis using assms(2) by (cases k') (auto simp: admission_note_def)
qed (use assms(2) in \<open>auto simp: admission_note_def\<close>)

lemma accounts_run:
  assumes "outbox_run I trail b" "k \<noteq> Lifecycle"
  shows "counted k trail = counter b k + reported_losses k trail"
  using assms
proof (induction rule: outbox_run.induct)
  case (run_new capacity b)
  then show ?case by (cases k) (auto simp: EventOutbox_def split: if_splits)
next
  case (run_admit trail b envelope k' transport_bytes a b')
  then show ?case using admit_accounts [OF run_admit.hyps(2), of k] by simp
next
  case (run_query trail b transport_bytes skipped b')
  then show ?case by (cases k) (auto simp: omit_query_when_congested_def split: if_splits)
next
  case (run_begin trail b message b')
  then show ?case by (cases k) (auto simp: begin_send_def split: list.splits if_splits)
next
  case (run_complete trail b b')
  then show ?case by (cases k; cases "oe_kind (hd (ob_queue b))") (auto simp: complete_send_def Let_def split: if_splits)
next
  case (run_close trail b)
  then show ?case by (cases k) (auto simp: close_outbox_def)
next
  case (run_pause trail b paused)
  then show ?case by (cases k) (auto simp: pause_noncritical_def)
qed

text \<open>The field a counter is reported_losses under.\<close>

fun counter_key :: "kind \<Rightarrow> string" where
  "counter_key Preview = ''omitted_display_events''"
| "counter_key Query = ''omitted_query_events''"
| "counter_key Metadata = ''coalesced_metadata_events''"
| "counter_key _ = ''omitted_feedback_events''"

context json_laws
begin

lemma settled_data_find:
  assumes "js_is_object J data" "settled_data J b data = Inr d" "counter b k \<noteq> 0"
  shows "js_find J d (counter_key k) = Some (js_number J (int (counter b k)))"
  using assms by (cases k) (auto simp: settled_data_def report_count_def put_field_def set_object find_set split: if_splits)

lemma envelope_data: "js_find J (envelope_to_json J envelope) ''data'' = Some (ev_data envelope)"
  by (simp add: envelope_to_json_def set_object find_set object_kind)

end

text \<open>
  C23. No omission is forgotten. Over a whole run, for each kind of loss, the events counted as omitted or
  coalesced are those still on the counter plus those the settlements have taken over; and a settlement that
  is admitted carries every counter that is not zero in its data and starts all of them again at zero.
\<close>

theorem omissions_accounted:
  assumes "outbox_run I trail b"
    and "json_laws (io_json I)"
    and "k \<noteq> Lifecycle"
  shows "counted k trail = counter b k + reported_losses k trail \<and>
         (\<forall>envelope k' transport_bytes b'.
            js_is_object (io_json I) (ev_data envelope) \<and> is_settlement I envelope = Inr True \<and>
            admit_event I envelope k' transport_bytes b = Inr (Added, b') \<longrightarrow>
            counter b' k = 0 \<and>
            (counter b k \<noteq> 0 \<longrightarrow>
               (\<exists>data. js_find (io_json I) (oe_message (last (ob_queue b'))) ''data'' = Some data \<and>
                  js_find (io_json I) data (counter_key k) = Some (js_number (io_json I) (int (counter b k))))))"
proof (intro conjI allI impI)
  show "counted k trail = counter b k + reported_losses k trail" by (rule accounts_run [OF assms(1, 3)])
next
  fix envelope k' transport_bytes b'
  assume *: "js_is_object (io_json I) (ev_data envelope) \<and> is_settlement I envelope = Inr True \<and>
            admit_event I envelope k' transport_bytes b = Inr (Added, b')"
  from * have "admit_event I envelope k' transport_bytes b = Inr (Added, b')" by simp
  then obtain data bytes where data: "settled_data (io_json I) b (ev_data envelope) = Inr data"
    and added: "append_or_omit True k' transport_bytes (numbered I envelope data b) bytes b = (Added, b')"
    by (cases rule: admit_cases) (use * in auto)
  from added show "counter b' k = 0" by (cases rule: append_cases) auto
  from added have queue: "ob_queue b' = ob_queue b @ [\<lparr>oe_message = numbered I envelope data b, oe_bytes = bytes, oe_kind = k'\<rparr>]"
    by (cases rule: append_cases) auto
  assume "counter b k \<noteq> 0"
  then show "\<exists>data. js_find (io_json I) (oe_message (last (ob_queue b'))) ''data'' = Some data \<and>
      js_find (io_json I) data (counter_key k) = Some (js_number (io_json I) (int (counter b k)))"
    using json_laws.settled_data_find [OF assms(2) _ data] * by (simp add: queue numbered_def json_laws.envelope_data [OF assms(2)])
qed

section \<open>A small ledger\<close>

text \<open>A ledger of one ordinary slot over plain JSON values, every message of which encodes to three bytes.\<close>

definition small_io :: "json json_io" where
  "small_io = \<lparr>io_json = json_values, io_get_bool = (\<lambda>j. case j of JBool v \<Rightarrow> Inr v | _ \<Rightarrow> Inl JsonTypeError), io_dump = (\<lambda>j. Inr ''abc'')\<rparr>"

definition small_event :: "event_name \<Rightarrow> json event_envelope" where
  "small_event name = \<lparr>ev_event = name, ev_session_id = ''s'', ev_worker_id = ''w'', ev_request_id = ''r'', ev_run_id = ''u'',
     ev_sequence = 0, ev_data = JObject []\<rparr>"

fun small_run :: "(event_name \<times> kind) list \<Rightarrow> json ledger_note list \<times> json outbox \<Rightarrow> json ledger_note list \<times> json outbox" where
  "small_run [] s = s"
| "small_run ((name, k) # events) (trail, b) =
     (case admit_event small_io (small_event name) k 0 b of
        Inl _ \<Rightarrow> (trail, b)
      | Inr (a, b') \<Rightarrow> small_run events (trail @ [admission_note small_io (small_event name) k a b], b'))"

definition small_empty :: "json outbox" where
  "small_empty = (case EventOutbox 1 of Inr b \<Rightarrow> b)"

definition small_state :: "json ledger_note list \<times> json outbox" where
  "small_state = small_run [(model_response_ev, Preview), (tool_calls_ev, Preview), (status_ev, Metadata), (status_ev, Metadata)] ([], small_empty)"

lemma small_run_reach: "outbox_run small_io trail b \<Longrightarrow> outbox_run small_io (fst (small_run events (trail, b))) (snd (small_run events (trail, b)))"
proof (induction events arbitrary: trail b)
  case (Cons event events)
  then show ?case by (cases event) (auto split: sum.split intro: run_admit)
qed simp

lemma small_reach: "outbox_run small_io (fst small_state) (snd small_state)"
proof -
  have "outbox_run small_io [] small_empty" by (rule run_new [of 1]) (simp add: small_empty_def EventOutbox_def)
  then show ?thesis unfolding small_state_def by (rule small_run_reach)
qed

lemma small_laws: "json_laws (io_json small_io)"
  by (simp add: small_io_def json_values.json_laws_axioms)

lemmas small_defs = small_state_def small_empty_def EventOutbox_def admit_event_def is_settlement_def small_event_def small_io_def Let_def
  admit_encoded_def append_or_omit_def slot_free_def fits_def soft_bytes_def default_write_byte_capacity_def lifecycle_slots_def
  metadata_slots_def display_event_max_bytes_def history_event_max_bytes_def admission_note_def envelope_to_json_def json_values_def
  replaces_def same_field_def read_at_def replace_metadata_def

lemma small_value:
  "map oe_kind (ob_queue (snd small_state)) = [Preview, Metadata]" "\<not> ob_closed (snd small_state)" "\<not> ob_in_flight (snd small_state)"
  "ob_sequence (snd small_state) = 2" "counter (snd small_state) Preview = 1"
  by (simp_all add: small_defs)

theorem outbox_bounds_witness:
  "ob_bytes (snd small_state) = sum_list (map oe_bytes (ob_queue (snd small_state))) \<and> length (ob_queue (snd small_state)) = 2 \<and>
   ob_lifecycle_count (snd small_state) + ob_metadata_count (snd small_state) + ob_ordinary_count (snd small_state) = 2 \<and>
   ob_bytes (snd small_state) \<le> default_write_byte_capacity"
proof -
  have "length (ob_queue (snd small_state)) = 2" using arg_cong [OF small_value(1), of length] by simp
  with outbox_bounds [OF small_reach] show ?thesis by simp
qed


theorem outbox_order_witness:
  "\<exists>n \<le> 2. js_find json_values (oe_message (hd (ob_queue (snd small_state)))) ''sequence'' = Some (js_number json_values (int n))"
proof -
  obtain front queue where queue: "ob_queue (snd small_state) = front # queue"
    using small_value(1) by (auto simp: map_eq_Cons_conv)
  then obtain b' where send: "begin_send (io_json small_io) (snd small_state) = Inr (oe_message front, b')" and same: "ob_sequence b' = 2"
    using small_value(3, 4) by (auto simp: begin_send_def)
  have "sent (fst small_state) = []" by (simp add: small_defs)
  then show ?thesis
    using outbox_order [OF run_begin [OF small_reach send] small_laws] same queue by (auto simp: small_io_def)
qed

theorem omissions_accounted_witness:
  "counted Preview (fst small_state) = 1 + reported_losses Preview (fst small_state)"
  using omissions_accounted [OF small_reach small_laws, of Preview] small_value(5) by simp

end
