(* ===== verification/Wire_Records.thy ===== *)
theory Wire_Records
  imports Wire_Codec Core_Outbox
begin

text \<open>
  \<^verbatim>\<open>protocol/include/protocol/wire.hpp\<close> and \<^verbatim>\<open>protocol/src/wire.cpp\<close>: the vocabularies and records of the wire, in the
  order their descriptors need each other, the rules of requests and responses, and the registry that gives each
  event the shape of its data. The field builders are those of \<^verbatim>\<open>descriptor.hpp\<close>.
\<close>

section \<open>Field builders\<close>

definition plain_field :: "wire_type \<Rightarrow> wire_shape \<Rightarrow> string \<Rightarrow> wire_field" where
  "plain_field ty shape name = WireField name ty False Inferred False no_constraints shape ValueInit"

definition text_field :: "string \<Rightarrow> wire_field" where
  "text_field = plain_field WText AnyShape"

definition integer_field :: "string \<Rightarrow> wire_field" where
  "integer_field = plain_field WInteger AnyShape"

definition boolean_field :: "string \<Rightarrow> wire_field" where
  "boolean_field = plain_field WBoolean AnyShape"

definition opaque_field :: "string \<Rightarrow> wire_field" where
  "opaque_field = plain_field WJson AnyShape"

definition enumeration_field :: "string list \<Rightarrow> string \<Rightarrow> wire_field" where
  "enumeration_field spellings = plain_field (WEnum spellings) AnyShape"

definition record_field :: "wire_record \<Rightarrow> string \<Rightarrow> wire_field" where
  "record_field r = plain_field (WRecord r) AnyShape"

definition records_field :: "wire_record \<Rightarrow> string \<Rightarrow> wire_field" where
  "records_field r = plain_field (WVector (WRecord r)) AnyShape"

definition texts_field :: "string \<Rightarrow> wire_field" where
  "texts_field = plain_field (WVector WText) AnyShape"

definition text_or_record_field :: "wire_record \<Rightarrow> string \<Rightarrow> wire_field" where
  "text_or_record_field r = plain_field WJson (TextOrRecord r)"

definition projected_batch_field :: "wire_record \<Rightarrow> wire_record \<Rightarrow> string \<Rightarrow> wire_field" where
  "projected_batch_field r marker = plain_field WJson (ProjectedBatch r marker)"

text \<open>A member of type \<^verbatim>\<open>std::optional\<close>, the modifiers of a field, and a member initialiser.\<close>

primrec optional :: "wire_field \<Rightarrow> wire_field" where
  "optional (WireField n ty opt pr nul cs sh d) = WireField n ty True pr nul cs sh d"

primrec nullable_value :: "wire_field \<Rightarrow> wire_field" where
  "nullable_value (WireField n ty opt pr nul cs sh d) = WireField n ty opt pr True cs sh d"

primrec required :: "wire_field \<Rightarrow> wire_field" where
  "required (WireField n ty opt pr nul cs sh d) = WireField n ty opt RequiredPresence nul cs sh d"

primrec object_only :: "wire_field \<Rightarrow> wire_field" where
  "object_only (WireField n ty opt pr nul cs sh d) = WireField n ty opt pr nul (cs\<lparr>wc_object_only := True\<rparr>) sh d"

primrec pinned_to :: "string \<Rightarrow> wire_field \<Rightarrow> wire_field" where
  "pinned_to s (WireField n ty opt pr nul cs sh d) = WireField n ty opt pr nul (cs\<lparr>wc_constant := Some s\<rparr>) sh d"

primrec default_to :: "member_default \<Rightarrow> wire_field \<Rightarrow> wire_field" where
  "default_to d (WireField n ty opt pr nul cs sh d') = WireField n ty opt pr nul cs sh d"

section \<open>Vocabularies\<close>

definition EnvelopeType_spellings :: "string list" where
  "EnvelopeType_spellings = [''event'', ''payload'', ''signal'', ''confirmation_request'', ''confirmation_response'', ''tool_request'', ''tool_response'']"

definition InputOperation_spellings :: "string list" where
  "InputOperation_spellings = [''message'', ''continue'', ''compact'', ''history'', ''answer'']"

definition SignalOperation_spellings :: "string list" where
  "SignalOperation_spellings = [''status'', ''options'', ''cancel'', ''shutdown'']"

definition ContentType_spellings :: "string list" where
  "ContentType_spellings = [''text'', ''binary'', ''external_ref'']"

definition Modality_spellings :: "string list" where
  "Modality_spellings = [''text'', ''image'', ''audio'', ''video'', ''document'']"

definition MessageType_spellings :: "string list" where
  "MessageType_spellings = [''user_input'', ''model_response'', ''invoke_return'']"

definition CallScheduling_spellings :: "string list" where
  "CallScheduling_spellings = [''read_only'', ''parall_write'', ''serial_write'']"

definition CallSecurity_spellings :: "string list" where
  "CallSecurity_spellings = [''default_deny'', ''require_confirm'', ''trusted'']"

definition ConfirmationDecision_spellings :: "string list" where
  "ConfirmationDecision_spellings = [''approved'', ''denied'']"

definition EventName_spellings :: "string list" where
  "EventName_spellings = [''ready'', ''status'', ''options'', ''history'', ''answer'', ''answer_error'', ''history_error'', ''input_admitted'', ''input_rejected'', ''run_started'', ''input_committed'', ''model_response'', ''tool_calls'', ''tool_results'', ''persisted'', ''compact_finished'', ''export_error'', ''error'', ''run_finished'']"

definition LoopStatus_spellings :: "string list" where
  "LoopStatus_spellings = [''idle'', ''running'', ''completed'', ''cancelled'', ''exchange_limit'', ''failed'', ''auto_compact_required'']"

definition LoopPhase_spellings :: "string list" where
  "LoopPhase_spellings = [''ready'', ''model'', ''tools'', ''projection'', ''blocked'']"

definition RunStatus_spellings :: "string list" where
  "RunStatus_spellings = [''completed'', ''cancelled'', ''exchange_limit'', ''failed'']"

definition PersistBoundary_spellings :: "string list" where
  "PersistBoundary_spellings = [''before_tools'', ''results_ready'', ''step_finished'', ''run_finished'', ''compact'', ''cancelled'', ''shutdown'']"

definition StorageKind_spellings :: "string list" where
  "StorageKind_spellings = [''json'', ''sqlite'']"

definition RejectionCode_spellings :: "string list" where
  "RejectionCode_spellings = [''invalid_options'', ''payload_queue_full'']"

definition FailureStage_spellings :: "string list" where
  "FailureStage_spellings = [''model_request'', ''other'']"

definition ToolStatus_spellings :: "string list" where
  "ToolStatus_spellings = [''succeeded'', ''rejected'']"

section \<open>Rules\<close>

definition operation_rule :: "string \<Rightarrow> string \<Rightarrow> string list \<Rightarrow> string list \<Rightarrow> bool \<Rightarrow> string list \<Rightarrow> wire_rule" where
  "operation_rule when_field when_equals requires_fields forbids_fields closed ignores_fields =
     \<lparr>ru_when_field = when_field, ru_when_equals = when_equals, ru_requires = requires_fields, ru_forbids = forbids_fields,
      ru_closed = closed, ru_ignores = ignores_fields\<rparr>"

definition payload_rules :: "wire_rule list" where
  "payload_rules =
     (let message_ignored = [''start'', ''step'', ''limit'', ''source'', ''part'', ''offset''];
          history_ignored = [''source'', ''part'', ''offset''] in
      [operation_rule ''operation'' ''message'' [''content''] [] False message_ignored,
       operation_rule ''operation'' ''continue'' [] [''content''] False message_ignored,
       operation_rule ''operation'' ''compact'' [] [''content''] False message_ignored,
       operation_rule ''operation'' ''history'' [] [''content'', ''options''] False history_ignored,
       operation_rule ''operation'' ''answer'' [''source''] [''content'', ''options'', ''start'', ''step'', ''limit''] True []])"

definition payload_forbidden :: "string list" where
  "payload_forbidden = [''role'', ''invokes'', ''invoke_return'', ''type'', ''text'']"

definition signal_rules :: "wire_rule list" where
  "signal_rules =
     [operation_rule ''operation'' ''cancel'' [''run_id''] [] False [],
      operation_rule ''operation'' ''status'' [] [''run_id''] False [],
      operation_rule ''operation'' ''options'' [] [''run_id''] False [],
      operation_rule ''operation'' ''shutdown'' [] [''run_id''] False []]"

definition tool_response_rules :: "wire_rule list" where
  "tool_response_rules =
     [operation_rule ''status'' ''succeeded'' [''result''] [''error''] False [],
      operation_rule ''status'' ''rejected'' [''error''] [''result''] False []]"

section \<open>Records\<close>

definition Content_record :: wire_record where
  "Content_record = WireRecord ''Content''
     [default_to (DefEnum ''text'') (enumeration_field ContentType_spellings ''type''),
      default_to (DefEnum ''text'') (enumeration_field Modality_spellings ''modality''),
      text_field ''raw'',
      optional (opaque_field ''extras''),
      optional (boolean_field ''truncated''),
      optional (integer_field ''bytes''),
      optional (boolean_field ''omitted'')]
     False [] [] None"

definition Usage_record :: wire_record where
  "Usage_record = WireRecord ''Usage''
     [integer_field ''prompt'',
      integer_field ''generated'',
      integer_field ''cache_hit'']
     False [] [] None"

definition AnswerSource_record :: wire_record where
  "AnswerSource_record = WireRecord ''AnswerSource''
     [text_field ''worker_id'',
      integer_field ''turn'',
      integer_field ''step'',
      text_field ''commit_sequence'',
      text_field ''fingerprint'']
     True [] [] None"

definition ExecutionIdentity_record :: wire_record where
  "ExecutionIdentity_record = WireRecord ''ExecutionIdentity''
     [text_field ''worker_id'',
      text_field ''request_id'',
      text_field ''run_id'']
     False [] [] None"

definition Call_record :: wire_record where
  "Call_record = WireRecord ''Call''
     [text_field ''id'',
      text_field ''name'',
      default_to DefObject (nullable_value (opaque_field ''arguments'')),
      default_to (DefEnum ''read_only'') (enumeration_field CallScheduling_spellings ''type''),
      default_to (DefEnum ''trusted'') (enumeration_field CallSecurity_spellings ''security''),
      optional (opaque_field ''extras'')]
     False [] [] None"

definition Result_record :: wire_record where
  "Result_record = WireRecord ''Result''
     [record_field Call_record ''query'',
      record_field Content_record ''output'',
      optional (opaque_field ''extras'')]
     False [] [] None"

definition RequestContent_record :: wire_record where
  "RequestContent_record = WireRecord ''RequestContent''
     [default_to (DefEnum ''text'') (enumeration_field ContentType_spellings ''type''),
      default_to (DefEnum ''text'') (enumeration_field Modality_spellings ''modality''),
      text_field ''raw'',
      optional (object_only (opaque_field ''extras''))]
     False [] [] None"

definition OmissionMarker_record :: wire_record where
  "OmissionMarker_record = WireRecord ''OmissionMarker''
     [default_to DefTrue (boolean_field ''display_omitted''),
      integer_field ''omitted_items'']
     False [] [] None"

definition ResponseProjection_record :: wire_record where
  "ResponseProjection_record = WireRecord ''ResponseProjection''
     [integer_field ''index'',
      default_to (DefEnum ''model_response'') (enumeration_field MessageType_spellings ''type''),
      text_field ''role'',
      records_field Content_record ''content'',
      integer_field ''tool_calls'',
      integer_field ''omitted_parts'',
      optional (record_field Content_record ''reasoning''),
      optional (text_field ''commit_sequence''),
      optional (record_field AnswerSource_record ''answer_source''),
      optional (record_field Usage_record ''cost''),
      optional (projected_batch_field Call_record OmissionMarker_record ''invokes'')]
     False [] [] None"

definition ToolResultMessage_record :: wire_record where
  "ToolResultMessage_record = WireRecord ''ToolResultMessage''
     [default_to (DefEnum ''invoke_return'') (enumeration_field MessageType_spellings ''type''),
      text_field ''role'',
      records_field Content_record ''content'',
      optional (integer_field ''omitted_parts''),
      optional (record_field Result_record ''invoke_return''),
      optional (opaque_field ''extras'')]
     False [] [] None"

definition OptionChoice_record :: wire_record where
  "OptionChoice_record = WireRecord ''OptionChoice''
     [text_field ''name'',
      texts_field ''options'']
     False [] [] None"

definition OptionCategory_record :: wire_record where
  "OptionCategory_record = WireRecord ''OptionCategory''
     [records_field OptionChoice_record ''available'',
      default_to DefObject (opaque_field ''current'')]
     False [] [] None"

definition OptionsData_record :: wire_record where
  "OptionsData_record = WireRecord ''OptionsData''
     [optional (record_field OptionCategory_record ''model''),
      optional (record_field OptionCategory_record ''tools''),
      optional (record_field OptionCategory_record ''confirmation'')]
     False [] [] None"

definition EventQueue_record :: wire_record where
  "EventQueue_record = WireRecord ''EventQueue''
     [optional (integer_field ''count''),
      optional (integer_field ''bytes''),
      optional (integer_field ''transport_bytes'')]
     False [] [] None"

definition MemoryRetention_record :: wire_record where
  "MemoryRetention_record = WireRecord ''MemoryRetention''
     [integer_field ''max_archives'']
     False [] [] None"

definition AutoCompact_record :: wire_record where
  "AutoCompact_record = WireRecord ''AutoCompact''
     [integer_field ''attempts'',
      integer_field ''succeeded'',
      integer_field ''limit'',
      integer_field ''threshold'']
     False [] [] None"

definition LoopProgress_record :: wire_record where
  "LoopProgress_record = WireRecord ''LoopProgress''
     [default_to (DefEnum ''idle'') (enumeration_field LoopStatus_spellings ''status''),
      default_to (DefEnum ''ready'') (enumeration_field LoopPhase_spellings ''phase''),
      integer_field ''completed_exchanges'',
      integer_field ''committed_response_sequence'',
      text_field ''error'',
      default_to DefArray (opaque_field ''pending_results'')]
     False [] [] None"

definition StatusData_record :: wire_record where
  "StatusData_record = WireRecord ''StatusData''
     [boolean_field ''active'',
      boolean_field ''stopping'',
      boolean_field ''storage_failed'',
      integer_field ''rejected_payloads'',
      optional (integer_field ''rejected_queries''),
      optional (integer_field ''unreported_rejections''),
      optional (record_field EventQueue_record ''event_queue''),
      optional (record_field MemoryRetention_record ''memory_retention''),
      optional (record_field AutoCompact_record ''auto_compact''),
      texts_field ''capabilities'',
      optional (record_field LoopProgress_record ''loop'')]
     False [] [] None"

definition PayloadRequest_record :: wire_record where
  "PayloadRequest_record = WireRecord ''PayloadRequest''
     [default_to (DefEnum ''message'') (enumeration_field InputOperation_spellings ''operation''),
      text_field ''request_id'',
      optional (records_field RequestContent_record ''content''),
      optional (object_only (opaque_field ''options'')),
      optional (integer_field ''start''),
      optional (integer_field ''step''),
      optional (integer_field ''limit''),
      optional (record_field AnswerSource_record ''source''),
      optional (integer_field ''part''),
      optional (integer_field ''offset'')]
     False payload_forbidden payload_rules None"

definition SignalRequest_record :: wire_record where
  "SignalRequest_record = WireRecord ''SignalRequest''
     [default_to (DefEnum ''status'') (enumeration_field SignalOperation_spellings ''operation''),
      optional (text_field ''run_id'')]
     False [] signal_rules None"

definition ConfirmationRequest_record :: wire_record where
  "ConfirmationRequest_record = WireRecord ''ConfirmationRequest''
     [text_field ''worker_id'',
      text_field ''session_id'',
      text_field ''run_id'',
      text_field ''confirmation_id'',
      record_field Call_record ''call'']
     False [] [] None"

definition ConfirmationResponse_record :: wire_record where
  "ConfirmationResponse_record = WireRecord ''ConfirmationResponse''
     [text_field ''worker_id'',
      text_field ''session_id'',
      text_field ''run_id'',
      text_field ''confirmation_id'',
      default_to (DefEnum ''denied'') (enumeration_field ConfirmationDecision_spellings ''decision''),
      optional (text_field ''reason'')]
     False [] [] None"

definition ToolError_record :: wire_record where
  "ToolError_record = WireRecord ''ToolError''
     [text_field ''code'',
      text_field ''message'']
     False [] [] None"

definition ToolRequest_record :: wire_record where
  "ToolRequest_record = WireRecord ''ToolRequest''
     [text_field ''worker_id'',
      text_field ''session_id'',
      text_field ''run_id'',
      text_field ''request_id'',
      default_to DefObject (object_only (opaque_field ''arguments''))]
     False [] [] None"

definition ToolResponse_record :: wire_record where
  "ToolResponse_record = WireRecord ''ToolResponse''
     [text_field ''worker_id'',
      text_field ''session_id'',
      text_field ''run_id'',
      text_field ''request_id'',
      text_field ''route'',
      default_to (DefEnum ''succeeded'') (enumeration_field ToolStatus_spellings ''status''),
      optional (record_field ToolError_record ''error''),
      optional (object_only (opaque_field ''result''))]
     False [] tool_response_rules None"

definition HistoryStep_record :: wire_record where
  "HistoryStep_record = WireRecord ''HistoryStep''
     [integer_field ''index'',
      records_field Content_record ''content'',
      integer_field ''tool_calls'',
      integer_field ''omitted_parts'',
      optional (record_field Content_record ''reasoning''),
      optional (text_field ''commit_sequence''),
      optional (record_field AnswerSource_record ''answer_source''),
      optional (record_field ExecutionIdentity_record ''execution'')]
     False [] [] None"

definition HistoryTurn_record :: wire_record where
  "HistoryTurn_record = WireRecord ''HistoryTurn''
     [integer_field ''index'',
      records_field Content_record ''user'',
      records_field HistoryStep_record ''steps'',
      integer_field ''omitted_user_parts'',
      integer_field ''omitted_steps'',
      optional (record_field ExecutionIdentity_record ''source''),
      optional (text_field ''internal_input'')]
     False [] [] None"

definition HistoryPage_record :: wire_record where
  "HistoryPage_record = WireRecord ''HistoryPage''
     [text_field ''request_id'',
      integer_field ''revision'',
      integer_field ''start'',
      integer_field ''step'',
      integer_field ''next'',
      integer_field ''next_step'',
      integer_field ''total'',
      records_field HistoryTurn_record ''turns'']
     False [] [] None"

definition AnswerPage_record :: wire_record where
  "AnswerPage_record = WireRecord ''AnswerPage''
     [text_field ''request_id'',
      record_field AnswerSource_record ''source'',
      integer_field ''part'',
      integer_field ''offset'',
      text_field ''raw'',
      default_to (DefEnum ''text'') (enumeration_field ContentType_spellings ''type''),
      default_to (DefEnum ''text'') (enumeration_field Modality_spellings ''modality''),
      integer_field ''bytes'',
      integer_field ''next_offset'',
      integer_field ''next_part'',
      integer_field ''total_parts'',
      boolean_field ''done'']
     False [] [] None"

definition EmptyData_record :: wire_record where
  "EmptyData_record = WireRecord ''EmptyData''
     []
     False [] [] None"

definition QueryErrorData_record :: wire_record where
  "QueryErrorData_record = WireRecord ''QueryErrorData''
     [nullable_value (opaque_field ''request_id''),
      text_field ''message'',
      optional (text_field ''code'')]
     False [] [] None"

definition InputAdmittedData_record :: wire_record where
  "InputAdmittedData_record = WireRecord ''InputAdmittedData''
     [optional (enumeration_field InputOperation_spellings ''operation'')]
     False [] [] None"

definition InputRejectedData_record :: wire_record where
  "InputRejectedData_record = WireRecord ''InputRejectedData''
     [nullable_value (opaque_field ''request_id''),
      text_field ''message'',
      optional (enumeration_field InputOperation_spellings ''operation''),
      optional (enumeration_field RejectionCode_spellings ''code'')]
     False [] [] None"

definition ArchiveRef_record :: wire_record where
  "ArchiveRef_record = WireRecord ''ArchiveRef''
     [text_field ''session_id'',
      text_field ''archive_id'',
      default_to (DefEnum ''json'') (enumeration_field StorageKind_spellings ''storage_kind''),
      default_to DefTrue (boolean_field ''restorable'')]
     False [] [] None"

definition ArchiveCleanup_record :: wire_record where
  "ArchiveCleanup_record = WireRecord ''ArchiveCleanup''
     [integer_field ''removed_archives'',
      integer_field ''removed_bytes'']
     False [] [] None"

definition OmissionSummary_record :: wire_record where
  "OmissionSummary_record = WireRecord ''OmissionSummary''
     [default_to DefTrue (boolean_field ''display_omitted''),
      integer_field ''bytes'',
      text_field ''reason'']
     False [] [] None"

definition CompactFinishedData_record :: wire_record where
  "CompactFinishedData_record = WireRecord ''CompactFinishedData''
     [default_to DefString (text_or_record_field OmissionSummary_record ''summary''),
      optional (text_field ''memory_file''),
      optional (record_field ArchiveRef_record ''archive''),
      integer_field ''removed_turns'',
      integer_field ''revision'',
      default_to DefTrue (boolean_field ''durable''),
      optional (text_field ''origin''),
      optional (integer_field ''cycle''),
      optional (text_field ''call_id''),
      optional (record_field ArchiveCleanup_record ''archive_cleanup''),
      optional (text_field ''archive_cleanup_error'')]
     False [] [] None"

definition PersistedData_record :: wire_record where
  "PersistedData_record = WireRecord ''PersistedData''
     [default_to (DefEnum ''before_tools'') (enumeration_field PersistBoundary_spellings ''boundary''),
      default_to (DefEnum ''json'') (enumeration_field StorageKind_spellings ''backend''),
      optional (required (nullable_value (integer_field ''revision''))),
      text_field ''operation_id'']
     False [] [] None"

definition ExportErrorData_record :: wire_record where
  "ExportErrorData_record = WireRecord ''ExportErrorData''
     [text_field ''operation'',
      text_field ''message'']
     False [] [] None"

definition FailureData_record :: wire_record where
  "FailureData_record = WireRecord ''FailureData''
     [default_to (DefEnum ''other'') (enumeration_field FailureStage_spellings ''stage''),
      text_field ''operation'',
      boolean_field ''can_continue'']
     False [] [] None"

definition RunOutcomeData_record :: wire_record where
  "RunOutcomeData_record = WireRecord ''RunOutcomeData''
     [default_to (DefEnum ''completed'') (enumeration_field RunStatus_spellings ''status''),
      text_field ''error'',
      integer_field ''exchanges'',
      optional (integer_field ''task_exchanges''),
      optional (integer_field ''compact_exchanges''),
      optional (record_field AutoCompact_record ''auto_compact''),
      boolean_field ''durable'',
      optional (record_field FailureData_record ''failure''),
      optional (integer_field ''omitted_display_events''),
      optional (integer_field ''omitted_query_events''),
      optional (integer_field ''omitted_feedback_events''),
      optional (integer_field ''coalesced_metadata_events''),
      optional (integer_field ''rejected_queries''),
      optional (integer_field ''unreported_rejections'')]
     False [] [] None"

definition ErrorData_record :: wire_record where
  "ErrorData_record = WireRecord ''ErrorData''
     [text_field ''message'',
      optional (boolean_field ''durable''),
      optional (opaque_field ''primary_outcome''),
      optional (text_field ''storage_error''),
      optional (integer_field ''rejected_queries''),
      optional (integer_field ''unreported_rejections'')]
     False [] [] None"

definition EventEnvelope_record :: wire_record where
  "EventEnvelope_record = WireRecord ''EventEnvelope''
     [default_to (DefEnum ''event'') (pinned_to ''event'' (enumeration_field EnvelopeType_spellings ''type'')),
      default_to (DefEnum ''ready'') (enumeration_field EventName_spellings ''event''),
      text_field ''session_id'',
      text_field ''worker_id'',
      text_field ''request_id'',
      text_field ''run_id'',
      integer_field ''sequence'',
      default_to DefObject (opaque_field ''data'')]
     False [] [] (Some (''type'', ''event''))"

definition PayloadEnvelope_record :: wire_record where
  "PayloadEnvelope_record = WireRecord ''PayloadEnvelope''
     [default_to (DefEnum ''payload'') (pinned_to ''payload'' (enumeration_field EnvelopeType_spellings ''type'')),
      record_field PayloadRequest_record ''data'']
     False [] [] (Some (''type'', ''payload''))"

definition SignalEnvelope_record :: wire_record where
  "SignalEnvelope_record = WireRecord ''SignalEnvelope''
     [default_to (DefEnum ''signal'') (pinned_to ''signal'' (enumeration_field EnvelopeType_spellings ''type'')),
      record_field SignalRequest_record ''data'']
     False [] [] (Some (''type'', ''signal''))"

definition ConfirmationRequestEnvelope_record :: wire_record where
  "ConfirmationRequestEnvelope_record = WireRecord ''ConfirmationRequestEnvelope''
     [default_to (DefEnum ''confirmation_request'') (pinned_to ''confirmation_request'' (enumeration_field EnvelopeType_spellings ''type'')),
      record_field ConfirmationRequest_record ''data'']
     False [] [] None"

definition ConfirmationResponseEnvelope_record :: wire_record where
  "ConfirmationResponseEnvelope_record = WireRecord ''ConfirmationResponseEnvelope''
     [default_to (DefEnum ''confirmation_response'') (pinned_to ''confirmation_response'' (enumeration_field EnvelopeType_spellings ''type'')),
      record_field ConfirmationResponse_record ''data'']
     False [] [] None"

definition ToolRequestEnvelope_record :: wire_record where
  "ToolRequestEnvelope_record = WireRecord ''ToolRequestEnvelope''
     [default_to (DefEnum ''tool_request'') (pinned_to ''tool_request'' (enumeration_field EnvelopeType_spellings ''type'')),
      record_field ToolRequest_record ''data'']
     False [] [] None"

definition ToolResponseEnvelope_record :: wire_record where
  "ToolResponseEnvelope_record = WireRecord ''ToolResponseEnvelope''
     [default_to (DefEnum ''tool_response'') (pinned_to ''tool_response'' (enumeration_field EnvelopeType_spellings ''type'')),
      record_field ToolResponse_record ''data'']
     False [] [] None"

definition wire_records :: "wire_record list" where
  "wire_records = [
     Content_record, Usage_record, AnswerSource_record, ExecutionIdentity_record, Call_record, Result_record,
     RequestContent_record, ResponseProjection_record, ToolResultMessage_record, OptionChoice_record,
     OptionCategory_record, OptionsData_record, EventQueue_record, MemoryRetention_record, AutoCompact_record,
     LoopProgress_record, StatusData_record, PayloadRequest_record, SignalRequest_record, ConfirmationRequest_record,
     ConfirmationResponse_record, ToolError_record, ToolRequest_record, ToolResponse_record, HistoryStep_record,
     HistoryTurn_record, HistoryPage_record, AnswerPage_record, EmptyData_record, QueryErrorData_record,
     InputAdmittedData_record, InputRejectedData_record, ArchiveRef_record, ArchiveCleanup_record,
     OmissionSummary_record, CompactFinishedData_record, PersistedData_record, ExportErrorData_record,
     FailureData_record, RunOutcomeData_record, ErrorData_record, OmissionMarker_record, EventEnvelope_record,
     PayloadEnvelope_record, SignalEnvelope_record, ConfirmationRequestEnvelope_record,
     ConfirmationResponseEnvelope_record, ToolRequestEnvelope_record, ToolResponseEnvelope_record]"

section \<open>Event data\<close>

fun event_data_registry :: "event_name \<Rightarrow> wire_record \<times> bool" where
  "event_data_registry ready_ev = (StatusData_record, False)"
| "event_data_registry status_ev = (StatusData_record, False)"
| "event_data_registry options_ev = (OptionsData_record, False)"
| "event_data_registry history_ev = (HistoryPage_record, False)"
| "event_data_registry answer_ev = (AnswerPage_record, False)"
| "event_data_registry answer_error_ev = (QueryErrorData_record, False)"
| "event_data_registry history_error_ev = (QueryErrorData_record, False)"
| "event_data_registry input_admitted_ev = (InputAdmittedData_record, False)"
| "event_data_registry input_rejected_ev = (InputRejectedData_record, False)"
| "event_data_registry run_started_ev = (EmptyData_record, False)"
| "event_data_registry input_committed_ev = (EmptyData_record, False)"
| "event_data_registry model_response_ev = (ResponseProjection_record, False)"
| "event_data_registry tool_calls_ev = (Call_record, True)"
| "event_data_registry tool_results_ev = (ToolResultMessage_record, True)"
| "event_data_registry persisted_ev = (PersistedData_record, False)"
| "event_data_registry compact_finished_ev = (CompactFinishedData_record, False)"
| "event_data_registry export_error_ev = (ExportErrorData_record, False)"
| "event_data_registry error_ev = (ErrorData_record, False)"
| "event_data_registry run_finished_ev = (RunOutcomeData_record, False)"

definition message_registry :: "(string \<times> wire_record) list" where
  "message_registry =
     [(''connection'', EventEnvelope_record), (''connection'', PayloadEnvelope_record), (''connection'', SignalEnvelope_record),
      (''confirmation'', ConfirmationRequestEnvelope_record), (''confirmation'', ConfirmationResponseEnvelope_record),
      (''remote_tool'', ToolRequestEnvelope_record), (''remote_tool'', ToolResponseEnvelope_record)]"

text \<open>A batch: its entries and the trailing omission marker.\<close>

fun parse_items ::
  "'j json_wire \<Rightarrow> wire_record \<Rightarrow> 'j list \<Rightarrow> nat \<Rightarrow> string \<Rightarrow> ('j wire_value option list list \<times> 'j wire_value option list option) result" where
  "parse_items W r [] index path = Inr ([], None)"
| "parse_items W r (entry # entries) index path =
     (if js_is_object (jw_json W) entry \<and> js_find (jw_json W) entry ''display_omitted'' \<noteq> None then
        if entries \<noteq> [] then Inl (validation_error (element_path path index) ''an omission marker must be the final element'')
        else and_then (wire_from_json W OmissionMarker_record entry (element_path path index)) (\<lambda>marker. Inr ([], Some marker))
      else
        and_then (wire_from_json W r entry (element_path path index)) (\<lambda>item.
        and_then (parse_items W r entries (Suc index) path) (\<lambda>(items, omitted). Inr (item # items, omitted))))"

definition parse_batch ::
  "'j json_wire \<Rightarrow> wire_record \<Rightarrow> 'j \<Rightarrow> string \<Rightarrow> ('j wire_value option list list \<times> 'j wire_value option list option) result" where
  "parse_batch W r value path =
     and_then (check_shape W (ProjectedBatch r OmissionMarker_record) value path) (\<lambda>_.
     and_then (js_get_array (jw_json W) value) (\<lambda>entries. parse_items W r entries 0 path))"

definition accept_record :: "'j json_wire \<Rightarrow> wire_record \<Rightarrow> 'j \<Rightarrow> unit result" where
  "accept_record W r data = and_then (wire_from_json W r data ''data'') (\<lambda>_. Inr ())"

definition accept_batch :: "'j json_wire \<Rightarrow> wire_record \<Rightarrow> 'j \<Rightarrow> unit result" where
  "accept_batch W r data = and_then (parse_batch W r data ''data'') (\<lambda>_. Inr ())"

definition validate_event_data :: "'j json_wire \<Rightarrow> event_name \<Rightarrow> 'j \<Rightarrow> unit result" where
  "validate_event_data W event data =
     (case event of
        ready_ev \<Rightarrow> accept_record W StatusData_record data
      | status_ev \<Rightarrow> accept_record W StatusData_record data
      | options_ev \<Rightarrow> accept_record W OptionsData_record data
      | history_ev \<Rightarrow> accept_record W HistoryPage_record data
      | answer_ev \<Rightarrow> accept_record W AnswerPage_record data
      | answer_error_ev \<Rightarrow> accept_record W QueryErrorData_record data
      | history_error_ev \<Rightarrow> accept_record W QueryErrorData_record data
      | input_admitted_ev \<Rightarrow> accept_record W InputAdmittedData_record data
      | input_rejected_ev \<Rightarrow> accept_record W InputRejectedData_record data
      | run_started_ev \<Rightarrow> accept_record W EmptyData_record data
      | input_committed_ev \<Rightarrow> accept_record W EmptyData_record data
      | model_response_ev \<Rightarrow> accept_record W ResponseProjection_record data
      | tool_calls_ev \<Rightarrow> accept_batch W Call_record data
      | tool_results_ev \<Rightarrow> accept_batch W ToolResultMessage_record data
      | persisted_ev \<Rightarrow> accept_record W PersistedData_record data
      | compact_finished_ev \<Rightarrow> accept_record W CompactFinishedData_record data
      | export_error_ev \<Rightarrow> accept_record W ExportErrorData_record data
      | error_ev \<Rightarrow> accept_record W ErrorData_record data
      | run_finished_ev \<Rightarrow> accept_record W RunOutcomeData_record data)"

section \<open>The descriptors are in order\<close>

lemma wire_records_wf: "list_all wf_record_ok wire_records"
  by code_simp

lemma wire_records_strict: "list_all strict_record wire_records"
  by code_simp

section \<open>Every published record\<close>

lemma published_record: "r \<in> set wire_records \<Longrightarrow> wf_record_ok r \<and> strict_record r"
  using wire_records_wf wire_records_strict by (simp add: list_all_iff)

lemma published_roundtrip:
  assumes "wire_laws W" "r \<in> set wire_records" "record_ok W r members"
  shows "wire_from_json W r (wire_to_json (jw_json W) r members) path = Inr members"
proof -
  obtain n fs u fb rs ex where r: "r = WireRecord n fs u fb rs ex" by (cases r)
  have "decode_one W (WRecord r) (encode_one (jw_json W) (WRecord r) (VRecord members)) path = Inr (VRecord members)"
    by (rule wire_laws.value_written [OF assms(1)]) (use assms(2, 3) published_record in simp_all)
  then show ?thesis by (simp add: r and_then_eq_Inr wire_to_json_def)
qed

text \<open>
  C24. Round trip of the protocol: for each of the 49 records the wire publishes, an instance that conforms to its
  descriptor is encoded to an object that the decoder accepts and reads back, member by member, wherever in a
  message it stands.
\<close>

theorem wire_roundtrip:
  assumes "wire_laws W" "r \<in> set wire_records" "record_ok W r members"
  shows "wire_from_json W r (wire_to_json (jw_json W) r members) path = Inr members"
  using assms by (rule published_roundtrip)

text \<open>
  C25. Type safety of decoding: whatever the input, an instance of a published record that the decoder returns has
  the members of its descriptor, each of its type (enumerators among the spellings, integers in range), satisfies
  every rule its selected operation imposes, and was read from an object with no forbidden field and, in a closed
  scope, no unknown one.
\<close>

theorem wire_accepts_typed:
  assumes "r \<in> set wire_records" "wire_from_json W r input path = Inr members"
  shows "record_typed r members \<and>
    (\<forall>name \<in> set (wr_forbidden r). js_find (jw_json W) input name = None) \<and>
    (closed_scope (wr_rejects_unknown r) (wr_fields r) (wr_rules r) members \<longrightarrow>
       set (jw_keys W input) \<subseteq> set (map wf_name (wr_fields r)))"
  using record_accepted [OF assms(2)] published_record [OF assms(1)] by simp

section \<open>Payload requests\<close>

lemmas field_defs = plain_field_def text_field_def integer_field_def boolean_field_def opaque_field_def
  enumeration_field_def record_field_def records_field_def texts_field_def

lemma payload_members:
  assumes "record_typed PayloadRequest_record members"
  obtains op request content options start step limit source part offset
  where "members = [Some (VEnum op), request, content, options, start, step, limit, source, part, offset]"
    "op \<in> set InputOperation_spellings"
  using assms
  by (cases members) (auto simp: PayloadRequest_record_def field_defs neq_Nil_conv split: option.splits list.splits elim!: value_typed.elims members_typed.elims)

lemmas payload_defs = PayloadRequest_record_def payload_rules_def operation_rule_def payload_forbidden_def Let_def field_defs
  rules_hold_def rule_matches_def field_present_def closed_scope_def InputOperation_spellings_def

lemma payload_rules_read:
  assumes "rules_hold (wr_fields PayloadRequest_record) payload_rules
    [Some (VEnum op), request, content, options, start, step, limit, source, part, offset]"
  shows "op = ''message'' \<Longrightarrow> content \<noteq> None" 
  "op = ''continue'' \<Longrightarrow> content = None"
  "op = ''compact'' \<Longrightarrow> content = None"
  "op = ''history'' \<Longrightarrow> content = None \<and> options = None"
  "op = ''answer'' \<Longrightarrow> source \<noteq> None \<and> content = None \<and> options = None \<and> start = None \<and> step = None \<and> limit = None"
  using assms by (simp_all add: payload_defs)
text \<open>
  A payload request that is accepted has one of the five operations, carries content exactly when it is a
  message, carries no options when it is a query, and none of the field names reserved for conversation records.
  An answer query names its source, has no history cursor, and comes from an object with known fields only.
\<close>

theorem payload_request_shape:
  assumes "wire_from_json W PayloadRequest_record input path = Inr members"
  shows "\<exists>op request content options start step limit source part offset.
    members = [Some (VEnum op), request, content, options, start, step, limit, source, part, offset] \<and>
    op \<in> {''message'', ''continue'', ''compact'', ''history'', ''answer''} \<and>
    (content \<noteq> None \<longleftrightarrow> op = ''message'') \<and>
    (op \<in> {''history'', ''answer''} \<longrightarrow> options = None) \<and>
    (op = ''answer'' \<longrightarrow> source \<noteq> None \<and> start = None \<and> step = None \<and> limit = None \<and>
       set (jw_keys W input) \<subseteq> {''operation'', ''request_id'', ''content'', ''options'', ''start'', ''step'', ''limit'', ''source'', ''part'', ''offset''}) \<and>
    (\<forall>name \<in> {''role'', ''invokes'', ''invoke_return'', ''type'', ''text''}. js_find (jw_json W) input name = None)"
proof -
  have "strict_record PayloadRequest_record" using published_record [of PayloadRequest_record] by (simp add: wire_records_def)
  from record_accepted [OF assms this] have typed: "record_typed PayloadRequest_record members"
    and forbidden: "\<forall>name \<in> set payload_forbidden. js_find (jw_json W) input name = None"
    and closed: "closed_scope False (wr_fields PayloadRequest_record) payload_rules members \<longrightarrow>
      set (jw_keys W input) \<subseteq> set (map wf_name (wr_fields PayloadRequest_record))"
    by (simp_all add: PayloadRequest_record_def)
  from typed obtain op request content options start step limit source part offset where
    members: "members = [Some (VEnum op), request, content, options, start, step, limit, source, part, offset]"
    and op: "op \<in> set InputOperation_spellings" by (rule payload_members)
  have rules: "rules_hold (wr_fields PayloadRequest_record) payload_rules members" using typed by (simp add: PayloadRequest_record_def)
  have op: "op \<in> {''message'', ''continue'', ''compact'', ''history'', ''answer''}" using op by (simp add: InputOperation_spellings_def)
  note selected = payload_rules_read [OF rules [unfolded members]]
  have known: "op = ''answer'' \<longrightarrow> set (jw_keys W input) \<subseteq>
      {''operation'', ''request_id'', ''content'', ''options'', ''start'', ''step'', ''limit'', ''source'', ''part'', ''offset''}"
    using closed by (simp add: members payload_defs)
  have content: "content \<noteq> None \<longleftrightarrow> op = ''message''" using op by (elim insertE) (simp_all add: selected)
  have query: "op \<in> {''history'', ''answer''} \<longrightarrow> options = None"
    and answer: "op = ''answer'' \<longrightarrow> source \<noteq> None \<and> start = None \<and> step = None \<and> limit = None"
    using selected(4, 5) by auto
  show ?thesis
    using members op content known query answer forbidden by (simp add: payload_forbidden_def)
qed

section \<open>Event data\<close>

text \<open>Reading a batch that was validated cannot fail, and every entry is read.\<close>

lemma parse_validated:
  assumes "check_batch W r OmissionMarker_record entries index path = Inr ()"
  shows "\<exists>items omitted. parse_items W r entries index path = Inr (items, omitted) \<and>
    length items + (case omitted of None \<Rightarrow> 0 | Some _ \<Rightarrow> 1) = length entries"
  using assms
proof (induction entries arbitrary: index)
  case (Cons entry entries)
  show ?case
  proof (cases "js_is_object (jw_json W) entry \<and> js_find (jw_json W) entry ''display_omitted'' \<noteq> None")
    case True
    with Cons.prems obtain marker where "entries = []" "wire_from_json W OmissionMarker_record entry (element_path path index) = Inr marker"
      by (auto simp: and_then_eq_Inr split: if_splits)
    with True show ?thesis by simp
  next
    case False
    with Cons.prems obtain item where "wire_from_json W r entry (element_path path index) = Inr item"
      "check_batch W r OmissionMarker_record entries (Suc index) path = Inr ()"
      by (auto simp: and_then_eq_Inr)
    with Cons.IH [OF this(2)] False show ?thesis by auto
  qed
qed simp

lemma accept_batch_checks: "accept_batch W r data = check_shape W (ProjectedBatch r OmissionMarker_record) data ''data''"
proof (cases "check_shape W (ProjectedBatch r OmissionMarker_record) data ''data''")
  case (Inl e)
  then show ?thesis by (simp add: accept_batch_def parse_batch_def)
next
  case (Inr u)
  then obtain entries where "js_get_array (jw_json W) data = Inr entries"
    "check_batch W r OmissionMarker_record entries 0 ''data'' = Inr ()"
    by (auto simp: and_then_eq_Inr split: if_splits)
  with Inr parse_validated [OF this(2)] show ?thesis by (auto simp: accept_batch_def parse_batch_def)
qed

text \<open>
  The dispatch that validates the data of an event agrees with the published registry: for every event name the
  verdict is that of the registered record's decoder, or of the batch shape over it where the registry says array;
  a batch that passes its shape is never refused afterwards.
\<close>

theorem event_registry_agrees:
  "validate_event_data W event data =
     (let (r, array) = event_data_registry event in
      if array then check_shape W (ProjectedBatch r OmissionMarker_record) data ''data''
      else and_then (wire_from_json W r data ''data'') (\<lambda>_. Inr ()))"
  by (cases event) (simp_all add: validate_event_data_def accept_batch_checks accept_record_def)

section \<open>Events of the outbox on the wire\<close>

definition envelope_members :: "'j event_envelope \<Rightarrow> 'j wire_value option list" where
  "envelope_members e =
     [Some (VEnum ''event''), Some (VEnum (event_spelling (ev_event e))), Some (VText (ev_session_id e)), Some (VText (ev_worker_id e)),
      Some (VText (ev_request_id e)), Some (VText (ev_run_id e)), Some (VInteger (ev_sequence e)), Some (VJson (ev_data e))]"

lemma envelope_encoded: "envelope_to_json J e = wire_to_json J EventEnvelope_record (envelope_members e)"
  by (simp add: envelope_to_json_def wire_to_json_def EventEnvelope_record_def envelope_members_def field_defs)

lemma event_spelled: "event_spelling e \<in> set EventName_spellings"
  by (cases e) (simp_all add: EventName_spellings_def)

lemma envelope_conforms:
  assumes "wire_laws W" "ev_sequence e \<le> size_max" "\<not> js_is_null (jw_json W) (ev_data e)"
  shows "record_ok W EventEnvelope_record (envelope_members e)"
proof -
  have "json_laws (jw_json W)" using assms(1) by (simp add: wire_laws_def)
  note laws = json_laws.string_kind [OF this] json_laws.string_read [OF this] json_laws.number_not_null [OF this]
  have "check_constraints W no_constraints j [] = Inr ()" for j
    by (simp add: check_constraints_def check_object_def check_length_def check_range_def check_constant_def no_constraints_def split: option.split)
  moreover have "check_constraints W (no_constraints\<lparr>wc_constant := Some ''event''\<rparr>) (js_string (jw_json W) ''event'') [] = Inr ()"
    by (simp add: check_constraints_def check_object_def check_length_def check_range_def check_constant_def no_constraints_def laws split: option.split)
  ultimately show ?thesis
    using assms event_spelled [of "ev_event e"]
    by (simp add: EventEnvelope_record_def envelope_members_def field_defs laws json_fits_def EnvelopeType_spellings_def
        rules_hold_def nothing_ignored_def check_expected_def)
qed

lemma put_not_null: "json_laws J \<Longrightarrow> put_field J key v data = Inr d \<Longrightarrow> \<not> js_is_null J d"
  using json_laws.object_not_null [of J] json_laws.set_object [of J] json_laws.object_kind(1) [of J]
  by (auto simp: put_field_def split: if_splits)

lemma settled_not_null:
  assumes "json_laws J" "settled_data J b data = Inr d" "\<not> js_is_null J data"
  shows "\<not> js_is_null J d"
proof -
  have "report_count J key n x = Inr y \<Longrightarrow> \<not> js_is_null J x \<Longrightarrow> \<not> js_is_null J y" for key n x y
    using put_not_null [OF assms(1)] by (auto simp: report_count_def split: if_splits)
  with assms(2, 3) show ?thesis by (auto simp: settled_data_def and_then_eq_Inr)
qed

text \<open>
  C26. What the outbox queues, the peer can decode: an event admitted by appending is at the end of the queue as an
  envelope that the wire decoder accepts and reads back with the same identifiers and event, the next sequence
  number, and the given data (for a settlement, the data with the loss counters added).
\<close>

theorem admitted_event_decodes:
  assumes "wire_laws W" "io_json I = jw_json W" "ob_sequence b < size_max"
    and "\<not> js_is_null (jw_json W) (ev_data envelope)"
    and "admit_event I envelope k transport_bytes b = Inr (Added, b')"
  shows "\<exists>entry data settlement. ob_queue b' = ob_queue b @ [entry] \<and>
    wire_from_json W EventEnvelope_record (oe_message entry) path =
      Inr (envelope_members (envelope\<lparr>ev_data := data, ev_sequence := ob_sequence b + 1\<rparr>)) \<and>
    is_settlement I envelope = Inr settlement \<and>
    (if settlement then settled_data (jw_json W) b (ev_data envelope) else Inr (ev_data envelope)) = Inr data"
  using assms(5)
proof (cases rule: admit_cases)
  case (appended settlement data bytes)
  let ?e = "envelope\<lparr>ev_data := data, ev_sequence := ob_sequence b + 1\<rparr>"
  have "json_laws (jw_json W)" using assms(1) by (simp add: wire_laws_def)
  then have data: "\<not> js_is_null (jw_json W) data"
    using appended(3) settled_not_null [of "jw_json W" b "ev_data envelope" data] assms(2, 4) by (auto split: if_splits)
  have queue: "ob_queue b' = ob_queue b @ [\<lparr>oe_message = numbered I envelope data b, oe_bytes = bytes, oe_kind = k\<rparr>]"
    using appended(5) by (cases k) (auto simp: append_or_omit_def Let_def split: if_splits)
  have "wire_from_json W EventEnvelope_record (envelope_to_json (jw_json W) ?e) path = Inr (envelope_members ?e)"
    unfolding envelope_encoded
    by (rule published_roundtrip [OF assms(1)])
      (use assms(1, 3) data in \<open>simp_all add: wire_records_def envelope_conforms\<close>)
  then show ?thesis
    using queue appended(2, 3) assms(2)
    by (intro exI [of _ "\<lparr>oe_message = numbered I envelope data b, oe_bytes = bytes, oe_kind = k\<rparr>"] exI [of _ data] exI [of _ settlement])
      (simp add: numbered_def split: if_splits)
qed simp_all

section \<open>Examples\<close>

definition cancel_members :: "json wire_value option list" where
  "cancel_members = [Some (VEnum ''cancel''), Some (VText ''r1'')]"

definition continue_json :: json where
  "continue_json = JObject [(''operation'', JString ''continue''), (''request_id'', JString ''q1''), (''start'', JNull), (''hint'', JNull)]"

definition continue_members :: "json wire_value option list" where
  "continue_members = [Some (VEnum ''continue''), Some (VText ''q1''), None, None, None, None, None, None, None, None]"

lemma cancel_conforms: "record_ok json_wire_values SignalRequest_record cancel_members"
  by code_simp

lemma and_then_head: "x = y \<Longrightarrow> and_then x f = and_then y f"
  by simp

lemma continue_read: "wire_from_json json_wire_values PayloadRequest_record continue_json [] = Inr continue_members"
  by (simp add: PayloadRequest_record_def payload_rules_def operation_rule_def payload_forbidden_def Let_def field_defs continue_json_def
      continue_members_def json_wire_values_def json_values_def ignored_field_def rule_matches_def is_required_def decode_text_def
      enum_from_def InputOperation_spellings_def no_constraints_def check_constraints_def check_object_def check_length_def check_range_def
      check_constant_def finish_record_def closed_scope_def field_present_def check_expected_def cong: and_then_head)

theorem wire_roundtrip_witness:
  "wire_from_json json_wire_values SignalRequest_record (wire_to_json json_values SignalRequest_record cancel_members) ''data'' = Inr cancel_members"
  using wire_roundtrip [OF json_wire_values.wire_laws_axioms _ cancel_conforms, of "''data''"]
  by (simp add: wire_records_def json_wire_values_def)

theorem wire_accepts_typed_witness: "record_typed PayloadRequest_record continue_members"
  using wire_accepts_typed [OF _ continue_read] by (simp add: wire_records_def)

theorem payload_request_shape_witness:
  "\<exists>op. continue_members ! 0 = Some (VEnum op) \<and> op \<in> {''message'', ''continue'', ''compact'', ''history'', ''answer''} \<and>
     js_find json_values continue_json ''role'' = None"
  using payload_request_shape [OF continue_read] by (simp add: json_wire_values_def continue_members_def)

theorem admitted_event_decodes_witness:
  "\<exists>b' entry. admit_event small_io (small_event run_started_ev) Lifecycle 5 small_empty = Inr (Added, b') \<and> ob_queue b' = [entry] \<and>
     wire_from_json json_wire_values EventEnvelope_record (oe_message entry) [] =
       Inr (envelope_members ((small_event run_started_ev)\<lparr>ev_sequence := 1\<rparr>))"
proof -
  have empty: "ob_sequence small_empty = 0" "ob_queue small_empty = []" by (simp_all add: small_empty_def EventOutbox_def)
  obtain b' where admitted: "admit_event small_io (small_event run_started_ev) Lifecycle 5 small_empty = Inr (Added, b')"
    by (simp add: small_defs)
  have "io_json small_io = jw_json json_wire_values" "ob_sequence small_empty < size_max"
    "\<not> js_is_null (jw_json json_wire_values) (ev_data (small_event run_started_ev))"
    "is_settlement small_io (small_event run_started_ev) = Inr False"
    by (simp_all add: small_io_def json_wire_values_def empty size_max_def small_event_def json_values_def is_settlement_def)
  with admitted_event_decodes [OF json_wire_values.wire_laws_axioms this(1-3) admitted, of "[]"] admitted empty show ?thesis
    by (auto simp: small_event_def)
qed

end
