(* ===== verification/Core_Wire.thy ===== *)
theory Core_Wire
  imports Wire_Records Tool_Sets
begin

text \<open>
  \<^verbatim>\<open>core/src/wire.cpp\<close> and \<^verbatim>\<open>core/src/protocol.cpp\<close>: the conversions between stored model types and wire records,
  and what the worker accepts as input: messages, continuations, compactions and history queries.

  A wire record in the hands of the application is the list of its members; \<open>member_at\<close> and \<open>record_with\<close> are
  reading and assigning a member by name.
\<close>

section \<open>Members by name\<close>

definition member_at :: "wire_record \<Rightarrow> 'j wire_value option list \<Rightarrow> string \<Rightarrow> 'j wire_value option" where
  "member_at r members name =
     (case map_of (zip (map wf_name (wr_fields r)) members) name of None \<Rightarrow> None | Some m \<Rightarrow> m)"

fun text_of :: "'j wire_value option \<Rightarrow> string" where
  "text_of (Some (VText s)) = s"
| "text_of (Some (VEnum s)) = s"
| "text_of _ = []"

fun integer_or :: "nat \<Rightarrow> 'j wire_value option \<Rightarrow> nat" where
  "integer_or n (Some (VInteger i)) = i"
| "integer_or n _ = n"

fun json_of :: "'j wire_value option \<Rightarrow> 'j option" where
  "json_of (Some (VJson j)) = Some j"
| "json_of _ = None"

fun record_members :: "'j wire_value \<Rightarrow> 'j wire_value option list" where
  "record_members (VRecord members) = members"
| "record_members _ = []"

fun records_of :: "'j wire_value option \<Rightarrow> 'j wire_value option list list" where
  "records_of (Some (VVector vs)) = map record_members vs"
| "records_of _ = []"

definition set_member :: "wire_record \<Rightarrow> string \<times> 'j wire_value option \<Rightarrow> 'j wire_value option list \<Rightarrow> 'j wire_value option list" where
  "set_member r a members = map (\<lambda>(f, m). if wf_name f = fst a then snd a else m) (zip (wr_fields r) members)"

definition record_with :: "'j json_lib \<Rightarrow> wire_record \<Rightarrow> (string \<times> 'j wire_value option) list \<Rightarrow> 'j wire_value option list" where
  "record_with J r assignments = fold (set_member r) assignments (default_members J (wr_fields r))"

section \<open>Spellings\<close>

definition wire_content_type :: "content_type \<Rightarrow> string" where
  "wire_content_type t = (case t of TextContent \<Rightarrow> ''text'' | BinaryContent \<Rightarrow> ''binary'' | ExternalRef \<Rightarrow> ''external_ref'')"

definition wire_modality :: "modality \<Rightarrow> string" where
  "wire_modality m =
     (case m of TextModality \<Rightarrow> ''text'' | Image \<Rightarrow> ''image'' | Audio \<Rightarrow> ''audio'' | Video \<Rightarrow> ''video'' | Document \<Rightarrow> ''document'')"

definition wire_message_type :: "message_item_type \<Rightarrow> string" where
  "wire_message_type t = (case t of UserInput \<Rightarrow> ''user_input'' | ModelResponse \<Rightarrow> ''model_response'' | InvokeReturnItem \<Rightarrow> ''invoke_return'')"

definition wire_scheduling :: "invoke_type \<Rightarrow> string" where
  "wire_scheduling t = (case t of ReadOnly \<Rightarrow> ''read_only'' | ParallWrite \<Rightarrow> ''parall_write'' | SerialWrite \<Rightarrow> ''serial_write'')"

definition wire_security :: "invoke_security \<Rightarrow> string" where
  "wire_security s = (case s of DefaultDeny \<Rightarrow> ''default_deny'' | RequireConfirm \<Rightarrow> ''require_confirm'' | Trusted \<Rightarrow> ''trusted'')"

definition wire_content :: "'j json_lib \<Rightarrow> 'j content \<Rightarrow> 'j wire_value option list" where
  "wire_content J part =
     record_with J Content_record
       [(''type'', Some (VEnum (wire_content_type (cn_type part)))), (''modality'', Some (VEnum (wire_modality (cn_modality part)))),
        (''raw'', Some (VText (cn_raw part))), (''extras'', map_option VJson (cn_extras part))]"

definition model_content :: "'j wire_value option list \<Rightarrow> 'j content result" where
  "model_content part =
     (let type = text_of (member_at RequestContent_record part ''type'');
          modality = text_of (member_at RequestContent_record part ''modality'') in
      and_then
        (if type = ''text'' then Inr TextContent else if type = ''binary'' then Inr BinaryContent
         else if type = ''external_ref'' then Inr ExternalRef
         else Inl (LogicError ''no wire spelling for content type'')) (\<lambda>t.
      and_then
        (if modality = ''text'' then Inr TextModality else if modality = ''image'' then Inr Image
         else if modality = ''audio'' then Inr Audio else if modality = ''video'' then Inr Video
         else if modality = ''document'' then Inr Document
         else Inl (LogicError ''no wire spelling for modality'')) (\<lambda>m.
      Inr \<lparr>cn_type = t, cn_raw = text_of (member_at RequestContent_record part ''raw''),
        cn_extras = json_of (member_at RequestContent_record part ''extras''), cn_modality = m\<rparr>)))"

definition wire_call :: "'j json_lib \<Rightarrow> 'j invoke_query \<Rightarrow> 'j wire_value option list" where
  "wire_call J query =
     record_with J Call_record
       [(''id'', Some (VText (iq_id query))), (''name'', Some (VText (iq_name query))), (''arguments'', Some (VJson (iq_arguments query))),
        (''type'', Some (VEnum (wire_scheduling (iq_type query)))), (''security'', Some (VEnum (wire_security (iq_security query)))),
        (''extras'', map_option VJson (iq_extras query))]"

section \<open>Session identities\<close>

definition session_id_chars :: string where
  "session_id_chars = ''ABCDEFGHIJKLMNOPQRSTUVWXYZabcdefghijklmnopqrstuvwxyz0123456789_-''"

definition validate_session_id :: "string \<Rightarrow> unit result" where
  "validate_session_id session =
     (if session = [] \<or> length session > 128 \<or> session = ''.'' \<or> session = ''..'' \<or> (\<exists>c \<in> set session. c \<notin> set session_id_chars)
      then Inl (InvalidArgument ''session ID must contain 1..128 ASCII letters, digits, underscores or hyphens'')
      else Inr ())"

section \<open>Input\<close>

datatype input_operation = MessageInput | ContinueInput | CompactInput

definition operation_name :: "input_operation \<Rightarrow> string" where
  "operation_name operation =
     (case operation of MessageInput \<Rightarrow> ''message'' | ContinueInput \<Rightarrow> ''continue'' | CompactInput \<Rightarrow> ''compact'')"

record 'j input =
  in_request_id :: string
  in_operation :: input_operation
  in_has_message :: bool
  in_message :: "'j message_item"
  in_options :: 'j

text \<open>\<^verbatim>\<open>InputOptionsError\<close> is told apart from the other failures.\<close>

datatype input_error = InputOptionsError string | InputFailure exn

definition failing :: "'a result \<Rightarrow> input_error + 'a" where
  "failing m = (case m of Inl e \<Rightarrow> Inl (InputFailure e) | Inr x \<Rightarrow> Inr x)"

text \<open>\<^verbatim>\<open>catch (const ValidationError& error) { throw std::invalid_argument(error.what()); }\<close>\<close>

definition refused :: "'a result \<Rightarrow> 'a result" where
  "refused m = (case m of Inl (RuntimeError message) \<Rightarrow> Inl (InvalidArgument message) | _ \<Rightarrow> m)"

definition check_request_id :: "string \<Rightarrow> unit result" where
  "check_request_id request_id =
     (if request_id = [] \<or> length request_id > 128 then Inl (InvalidArgument ''request_id must contain 1..128 bytes'') else Inr ())"

definition input_operation_of :: "string \<Rightarrow> input_operation result" where
  "input_operation_of operation =
     (if operation = ''message'' then Inr MessageInput
      else if operation = ''continue'' then Inr ContinueInput
      else if operation = ''compact'' then Inr CompactInput
      else Inl (InvalidArgument ''operation must be message, continue, or compact''))"

definition input_content :: "'j wire_value option list list option \<Rightarrow> 'j content list result" where
  "input_content content =
     (case content of
        None \<Rightarrow> Inl (InvalidArgument ''content must be a nonempty array'')
      | Some parts \<Rightarrow>
          if parts = [] then Inl (InvalidArgument ''content must be a nonempty array'')
          else map_result (\<lambda>part.
            if text_of (member_at RequestContent_record part ''raw'') = [] then Inl (InvalidArgument ''content raw must not be empty'')
            else model_content part) parts)"

fun check_categories :: "'j json_wire \<Rightarrow> (string \<times> 'j) list \<Rightarrow> input_error + unit" where
  "check_categories W [] = Inr ()"
| "check_categories W ((category, values) # rest) =
     (if \<not> js_is_object (jw_json W) values then Inl (InputOptionsError ''each options category must be an object'')
      else if category = ''model'' \<or> category = ''confirmation'' then check_categories W rest
      else if category \<noteq> ''tools'' \<or> jw_keys W values \<noteq> [] then Inl (InputOptionsError (''unsupported options category: '' @ category))
      else check_categories W rest)"

definition json_items :: "'j json_wire \<Rightarrow> 'j \<Rightarrow> (string \<times> 'j) list" where
  "json_items W j = map (\<lambda>key. (key, case js_find (jw_json W) j key of None \<Rightarrow> js_null (jw_json W) | Some v \<Rightarrow> v)) (jw_keys W j)"

definition bad_options :: "'j json_wire \<Rightarrow> 'j \<Rightarrow> bool" where
  "bad_options W payload \<longleftrightarrow> js_is_object (jw_json W) payload \<and>
     (case js_find (jw_json W) payload ''options'' of None \<Rightarrow> False | Some options \<Rightarrow> \<not> js_is_object (jw_json W) options)"

definition input_options :: "'j json_wire \<Rightarrow> 'j option \<Rightarrow> 'j input \<Rightarrow> input_error + 'j input" where
  "input_options W options input =
     (case options of
        None \<Rightarrow> Inr input
      | Some values \<Rightarrow> and_then (check_categories W (json_items W values)) (\<lambda>_. Inr (input\<lparr>in_options := values\<rparr>)))"

definition parse_input :: "'j json_wire \<Rightarrow> 'j \<Rightarrow> input_error + 'j input" where
  "parse_input W payload =
     (if bad_options W payload then Inl (InputOptionsError ''options must be an object'')
      else and_then (failing (refused (wire_from_json W PayloadRequest_record payload []))) (\<lambda>request.
        let request_id = text_of (member_at PayloadRequest_record request ''request_id'') in
        and_then (failing (check_request_id request_id)) (\<lambda>_.
        and_then (failing (input_operation_of (text_of (member_at PayloadRequest_record request ''operation'')))) (\<lambda>operation.
        and_then
          (if operation = MessageInput then
             failing (input_content (map_option (\<lambda>v. records_of (Some v)) (member_at PayloadRequest_record request ''content'')))
           else Inr []) (\<lambda>content.
        input_options W (json_of (member_at PayloadRequest_record request ''options''))
          \<lparr>in_request_id = request_id, in_operation = operation, in_has_message = (operation = MessageInput),
           in_message = default_message\<lparr>mi_role := ''user'', mi_content := content\<rparr>, in_options = js_object (jw_json W) []\<rparr>)))))"

section \<open>History queries\<close>

record history_request =
  hr_request_id :: string
  hr_start :: nat
  hr_step :: nat
  hr_limit :: nat

definition narrow :: "nat \<Rightarrow> string \<Rightarrow> nat result" where
  "narrow value subject = (if value > size_max then Inl (InvalidArgument (subject @ '' is out of range'')) else Inr value)"

definition parse_history_request :: "'j json_wire \<Rightarrow> 'j \<Rightarrow> history_request result" where
  "parse_history_request W payload =
     and_then (refused (wire_from_json W PayloadRequest_record payload [])) (\<lambda>request.
     if text_of (member_at PayloadRequest_record request ''operation'') \<noteq> ''history'' then
       Inl (InvalidArgument ''history request must be an object with operation history'')
     else
       let request_id = text_of (member_at PayloadRequest_record request ''request_id'') in
       and_then (check_request_id request_id) (\<lambda>_.
       and_then (narrow (integer_or 0 (member_at PayloadRequest_record request ''start'')) ''history start'') (\<lambda>start.
       and_then (narrow (integer_or 0 (member_at PayloadRequest_record request ''step'')) ''history step'') (\<lambda>step.
       and_then (narrow (integer_or 10 (member_at PayloadRequest_record request ''limit'')) ''history limit'') (\<lambda>limit.
       if limit = 0 \<or> limit > 10 then Inl (InvalidArgument ''history limit must be between 1 and 10'')
       else Inr \<lparr>hr_request_id = request_id, hr_start = start, hr_step = step, hr_limit = limit\<rparr>)))))"

definition query_rejection :: "'j json_lib \<Rightarrow> 'j \<Rightarrow> string \<Rightarrow> string \<Rightarrow> event_name \<times> 'j wire_value option list" where
  "query_rejection J request_id operation code =
     (if operation = ''answer'' then answer_error_ev else history_error_ev,
      record_with J QueryErrorData_record
        [(''request_id'', Some (VJson request_id)),
         (''message'', Some (VText ''Worker query quota exceeded; retry after the connection drains.'')),
         (''code'', Some (VText code))])"

section \<open>What is admitted\<close>

lemma failing_Inr [simp]: "failing m = Inr x \<longleftrightarrow> m = Inr x"
  by (cases m) (simp_all add: failing_def)

lemma refused_Inr [simp]: "refused m = Inr x \<longleftrightarrow> m = Inr x"
  by (cases m) (auto simp: refused_def split: exn.split)

lemma input_content_read:
  assumes "input_content content = Inr parts"
  shows "parts \<noteq> [] \<and> (\<forall>part \<in> set parts. cn_raw part \<noteq> [])"
proof -
  have read: "map_result (\<lambda>part. if text_of (member_at RequestContent_record part ''raw'') = [] then Inl e else model_content part) ps = Inr qs
      \<Longrightarrow> length qs = length ps \<and> (\<forall>part \<in> set qs. cn_raw part \<noteq> [])" for ps qs e
  proof (induction ps arbitrary: qs)
    case (Cons p ps)
    then obtain q qs' where q: "text_of (member_at RequestContent_record p ''raw'') \<noteq> []" "model_content p = Inr q"
      and rest: "qs = q # qs'" "length qs' = length ps \<and> (\<forall>part \<in> set qs'. cn_raw part \<noteq> [])"
      by (auto simp: and_then_eq_Inr split: if_splits)
    from q have "cn_raw q \<noteq> []" by (auto simp: model_content_def and_then_eq_Inr Let_def)
    with rest show ?case by simp
  qed simp
  from assms obtain ps where ps: "ps \<noteq> []" and
    mapped: "map_result (\<lambda>part. if text_of (member_at RequestContent_record part ''raw'') = [] then Inl (InvalidArgument ''content raw must not be empty'') else model_content part) ps = Inr parts"
    by (auto simp: input_content_def split: option.splits if_splits)
  from read [OF mapped] ps show ?thesis by auto
qed

lemma categories_read: "check_categories W items = Inr () \<Longrightarrow> (category, values) \<in> set items \<Longrightarrow>
    js_is_object (jw_json W) values \<and> category \<in> {''model'', ''confirmation'', ''tools''}"
proof (induction items)
  case (Cons item items)
  then show ?case by (cases item) (auto split: if_splits)
qed simp

text \<open>
  C30. Whatever a payload contains, an input that is admitted carries a request identity of 1 to 128 bytes, is a user
  message with at least one part and no empty part, or a continuation or compaction with no content at all; it
  never names a role, a tool call or a result, and its options are objects of known categories.
\<close>

theorem input_admission:
  assumes "parse_input W payload = Inr input"
  shows "in_request_id input \<noteq> [] \<and> length (in_request_id input) \<le> 128 \<and>
    (in_has_message input \<longleftrightarrow> in_operation input = MessageInput) \<and>
    (\<exists>content. in_message input = default_message\<lparr>mi_role := ''user'', mi_content := content\<rparr> \<and>
       (if in_has_message input then content \<noteq> [] \<and> (\<forall>part \<in> set content. cn_raw part \<noteq> []) else content = [])) \<and>
    (\<forall>name \<in> {''role'', ''invokes'', ''invoke_return'', ''type'', ''text''}. js_find (jw_json W) payload name = None) \<and>
    (in_options input = js_object (jw_json W) [] \<or>
     (\<forall>(category, values) \<in> set (json_items W (in_options input)).
        js_is_object (jw_json W) values \<and> category \<in> {''model'', ''confirmation'', ''tools''}))"
proof -
  have "\<not> bad_options W payload" using assms by (auto simp: parse_input_def)
  with assms obtain request operation content where
    request: "wire_from_json W PayloadRequest_record payload [] = Inr request"
    and checked: "check_request_id (text_of (member_at PayloadRequest_record request ''request_id'')) = Inr ()"
    and content: "(if operation = MessageInput then
        failing (input_content (map_option (\<lambda>v. records_of (Some v)) (member_at PayloadRequest_record request ''content'')))
      else Inr []) = Inr content"
    and input: "input_options W (json_of (member_at PayloadRequest_record request ''options''))
        \<lparr>in_request_id = text_of (member_at PayloadRequest_record request ''request_id''), in_operation = operation,
         in_has_message = (operation = MessageInput), in_message = default_message\<lparr>mi_role := ''user'', mi_content := content\<rparr>,
         in_options = js_object (jw_json W) []\<rparr> = Inr input"
    unfolding parse_input_def Let_def by (auto simp only: if_False and_then_eq_Inr failing_Inr refused_Inr sum.inject unit_eq)
  have "strict_record PayloadRequest_record" using published_record [of PayloadRequest_record] by (simp add: wire_records_def)
  then have forbidden: "\<forall>name \<in> set payload_forbidden. js_find (jw_json W) payload name = None"
    using record_accepted [OF request] by (simp add: PayloadRequest_record_def)
  have parts: "if operation = MessageInput then content \<noteq> [] \<and> (\<forall>part \<in> set content. cn_raw part \<noteq> []) else content = []"
    using content input_content_read by (auto split: if_splits)
  from input checked parts forbidden show ?thesis
    by (auto simp: input_options_def check_request_id_def payload_forbidden_def and_then_eq_Inr split: option.splits if_splits dest: categories_read)
qed

section \<open>What is sent is what is admitted\<close>

definition request_part :: "'j json_lib \<Rightarrow> 'j content \<Rightarrow> 'j wire_value option list" where
  "request_part J part =
     record_with J RequestContent_record
       [(''type'', Some (VEnum (wire_content_type (cn_type part)))), (''modality'', Some (VEnum (wire_modality (cn_modality part)))),
        (''raw'', Some (VText (cn_raw part))), (''extras'', map_option VJson (cn_extras part))]"

definition message_request :: "'j json_lib \<Rightarrow> string \<Rightarrow> 'j content list \<Rightarrow> 'j wire_value option list" where
  "message_request J request_id parts =
     record_with J PayloadRequest_record
       [(''operation'', Some (VEnum ''message'')), (''request_id'', Some (VText request_id)),
        (''content'', Some (VVector (map (\<lambda>part. VRecord (request_part J part)) parts)))]"

lemmas member_defs = record_with_def set_member_def field_defs

lemma request_part_members: "request_part J part =
    [Some (VEnum (wire_content_type (cn_type part))), Some (VEnum (wire_modality (cn_modality part))), Some (VText (cn_raw part)),
     map_option VJson (cn_extras part)]"
  by (simp add: request_part_def RequestContent_record_def member_defs)

lemma message_request_members: "message_request J request_id parts =
    [Some (VEnum ''message''), Some (VText request_id), Some (VVector (map (\<lambda>part. VRecord (request_part J part)) parts)),
     None, None, None, None, None, None, None]"
  by (simp add: message_request_def PayloadRequest_record_def member_defs)

lemma plain_fits: "json_fits W no_constraints AnyShape j"
  by (simp add: json_fits_def check_constraints_def check_object_def check_length_def check_range_def check_constant_def no_constraints_def split: option.split)

lemma object_fits: "js_is_object (jw_json W) j \<Longrightarrow> json_fits W (no_constraints\<lparr>wc_object_only := True\<rparr>) AnyShape j"
  by (simp add: json_fits_def check_constraints_def check_object_def check_length_def check_range_def check_constant_def no_constraints_def split: option.split)

lemma spelled:
  "wire_content_type t \<in> set ContentType_spellings" "wire_modality m \<in> set Modality_spellings"
  by (cases t; simp add: wire_content_type_def ContentType_spellings_def) (cases m; simp add: wire_modality_def Modality_spellings_def)

context wire_laws
begin

lemma request_part_conforms:
  assumes "case cn_extras part of None \<Rightarrow> True | Some extras \<Rightarrow> js_is_object (jw_json W) extras"
  shows "record_ok W RequestContent_record (request_part (jw_json W) part)"
  using assms
  by (cases "cn_extras part")
    (simp_all add: request_part_members RequestContent_record_def field_defs is_required_def Let_def string_kind plain_fits object_fits spelled
      object_not_null rules_hold_def nothing_ignored_def check_expected_def)

lemma message_request_conforms:
  assumes "\<forall>part \<in> set parts. case cn_extras part of None \<Rightarrow> True | Some extras \<Rightarrow> js_is_object (jw_json W) extras"
  shows "record_ok W PayloadRequest_record (message_request (jw_json W) request_id parts)"
proof -
  have "values_ok W (WRecord RequestContent_record) (map (\<lambda>part. VRecord (request_part (jw_json W) part)) parts)"
    using assms by (induction parts) (auto intro: request_part_conforms)
  then show ?thesis
    by (simp add: message_request_members PayloadRequest_record_def field_defs is_required_def Let_def string_kind array_kind plain_fits
      InputOperation_spellings_def rules_hold_def nothing_ignored_def rule_matches_def field_present_def payload_rules_def operation_rule_def
      check_expected_def)
qed

end

lemma model_content_part: "model_content (request_part J part) = Inr part"
proof -
  have "json_of (map_option VJson e) = e" for e :: "'a option" by (cases e) simp_all
  then show ?thesis
    by (cases "cn_type part"; cases "cn_modality part")
      (simp_all add: model_content_def request_part_members member_at_def RequestContent_record_def field_defs wire_content_type_def wire_modality_def)
qed

text \<open>
  Round trip of a user message through the wire: the payload that encodes a message of at least one part, none of
  them empty, is admitted as a message with exactly those parts, their encodings, media categories, bytes and
  metadata unchanged.
\<close>

theorem message_admitted:
  assumes "wire_laws W" "request_id \<noteq> []" "length request_id \<le> 128" "parts \<noteq> []"
    and "\<forall>part \<in> set parts. cn_raw part \<noteq> [] \<and> (case cn_extras part of None \<Rightarrow> True | Some extras \<Rightarrow> js_is_object (jw_json W) extras)"
  shows "parse_input W (wire_to_json (jw_json W) PayloadRequest_record (message_request (jw_json W) request_id parts)) =
    Inr \<lparr>in_request_id = request_id, in_operation = MessageInput, in_has_message = True,
      in_message = default_message\<lparr>mi_role := ''user'', mi_content := parts\<rparr>, in_options = js_object (jw_json W) []\<rparr>"
proof -
  let ?J = "jw_json W"
  let ?request = "message_request ?J request_id parts"
  have "wire_from_json W PayloadRequest_record (wire_to_json ?J PayloadRequest_record ?request) [] = Inr ?request"
    by (rule published_roundtrip [OF assms(1)])
      (use assms(5) wire_laws.message_request_conforms [OF assms(1)] in \<open>auto simp: wire_records_def\<close>)
  moreover have "js_find ?J (wire_to_json ?J PayloadRequest_record ?request) ''options'' = None"
  proof -
    have "json_laws ?J" using assms(1) by (simp add: wire_laws_def)
    note laws = json_laws.find_set [OF this] json_laws.set_object [OF this] json_laws.object_kind [OF this] json_laws.find_object [OF this]
    show ?thesis by (simp add: wire_to_json_def PayloadRequest_record_def message_request_members field_defs is_required_def laws)
  qed
  moreover have "map_result (\<lambda>part. if text_of (member_at RequestContent_record part ''raw'') = [] then Inl e else model_content part)
      (map (request_part ?J) ps) = Inr ps" if "\<forall>part \<in> set ps. cn_raw part \<noteq> []" for ps e
    using that
  proof (induction ps)
    case (Cons p ps)
    then show ?case
      by (simp add: model_content_part) (simp add: request_part_members member_at_def RequestContent_record_def field_defs)
  qed simp
  ultimately show ?thesis
    using assms(2-5)
    by (simp add: parse_input_def bad_options_def refused_def failing_def check_request_id_def member_at_def message_request_members
      PayloadRequest_record_def field_defs input_operation_of_def input_content_def input_options_def comp_def Let_def)
qed

section \<open>Examples\<close>

definition hello :: "json content" where
  "hello = default_content\<lparr>cn_raw := ''hello'', cn_extras := Some (JObject [(''k'', JNull)])\<rparr>"

lemma plain_json [simp]: "jw_json json_wire_values = json_values" "js_is_object json_values (JObject kvs)" "js_object json_values kvs = JObject kvs"
  by (simp_all add: json_wire_values_def json_values_def)

definition continue_input :: "json input" where
  "continue_input = \<lparr>in_request_id = ''q1'', in_operation = ContinueInput, in_has_message = False,
     in_message = default_message\<lparr>mi_role := ''user''\<rparr>, in_options = JObject []\<rparr>"

lemma no_options: "js_is_object json_values continue_json \<and> js_find json_values continue_json ''options'' = None"
  by (simp add: continue_json_def json_values_def)

lemma continue_admitted: "parse_input json_wire_values continue_json = Inr continue_input"
  by (simp add: parse_input_def bad_options_def continue_read failing_def refused_def no_options)
    (simp add: failing_def continue_members_def member_at_def PayloadRequest_record_def
      field_defs check_request_id_def input_operation_of_def input_options_def continue_input_def default_message_def)

theorem input_admission_witness:
  "parse_input json_wire_values continue_json = Inr continue_input \<and> length (in_request_id continue_input) \<le> 128 \<and>
   mi_content (in_message continue_input) = [] \<and> js_find json_values continue_json ''role'' = None"
proof -
  have "\<not> in_has_message continue_input" by (simp add: continue_input_def)
  with input_admission [OF continue_admitted] show ?thesis by (auto simp: continue_admitted)
qed

theorem message_admitted_witness:
  "parse_input json_wire_values (wire_to_json json_values PayloadRequest_record (message_request json_values ''q1'' [hello])) =
     Inr \<lparr>in_request_id = ''q1'', in_operation = MessageInput, in_has_message = True,
       in_message = default_message\<lparr>mi_role := ''user'', mi_content := [hello]\<rparr>, in_options = JObject []\<rparr>"
  using message_admitted [OF json_wire_values.wire_laws_axioms, of "''q1''" "[hello]"]
  by (simp add: hello_def default_content_def)

end
