(* ===== verification/Core_Confirm.thy ===== *)
theory Core_Confirm
  imports Core_Wire
begin

text \<open>
  \<^verbatim>\<open>core/src/confirmation.cpp\<close>: the confirmation modes, the scope of one run that arbitrates approval against
  cancellation, and the coroutine that answers a confirmation request, alone or by asking the operator over the
  network. The listener of \<^verbatim>\<open>core/src/application.cpp\<close> makes it the handler of the gate in \<^verbatim>\<open>tools\<close>.

  The coroutine is a task of \<open>Tool_Sets\<close>: between its segments the run may be cancelled. The exchange with the
  peer, identities, encoding and parsing are operations of an environment that may answer anything.
\<close>

section \<open>Modes\<close>

datatype confirmation_mode = AskMode | ApproveMode | DenyMode

definition mode_options :: "'j json_lib \<Rightarrow> 'j" where
  "mode_options J =
     js_array J [js_object J [(''name'', js_string J ''mode''),
       (''options'', js_array J [js_string J ''ask'', js_string J ''approve'', js_string J ''deny''])]]"

definition current_mode :: "'j json_lib \<Rightarrow> confirmation_mode \<Rightarrow> 'j" where
  "current_mode J mode =
     js_object J [(''mode'', js_string J (case mode of AskMode \<Rightarrow> ''ask'' | ApproveMode \<Rightarrow> ''approve'' | DenyMode \<Rightarrow> ''deny''))]"

fun select_mode :: "'j json_lib \<Rightarrow> (string \<times> 'j) list \<Rightarrow> confirmation_mode \<Rightarrow> confirmation_mode result" where
  "select_mode J [] selected = Inr selected"
| "select_mode J ((name, value) # rest) selected =
     (if name \<noteq> ''mode'' then Inl (InvalidArgument (''unsupported confirmation option: '' @ name))
      else if js_equal J value (js_string J ''ask'') then select_mode J rest AskMode
      else if js_equal J value (js_string J ''approve'') then select_mode J rest ApproveMode
      else if js_equal J value (js_string J ''deny'') then select_mode J rest DenyMode
      else Inl (InvalidArgument ''confirmation mode must be ask, approve or deny''))"

definition handle_options :: "'j json_wire \<Rightarrow> 'j \<Rightarrow> confirmation_mode \<Rightarrow> confirmation_mode result" where
  "handle_options W options mode =
     (if \<not> js_is_object (jw_json W) options then Inl (InvalidArgument ''confirmation options must be an object'')
      else select_mode (jw_json W) (json_items W options) mode)"

section \<open>The scope of a run\<close>

record confirmation_scope =
  cs_stopping :: bool
  cs_stop_requested :: bool

definition settle_approval :: "bool \<Rightarrow> confirmation_scope \<Rightarrow> bool" where
  "settle_approval approved scope \<longleftrightarrow> approved \<and> \<not> cs_stopping scope"

text \<open>A scope object is a number; its mode never changes and is passed along with it.\<close>

record ('w, 'j) confirm_env =
  cv_scope :: "nat \<Rightarrow> 'w \<Rightarrow> confirmation_scope"
  cv_set_scope :: "nat \<Rightarrow> confirmation_scope \<Rightarrow> 'w \<Rightarrow> 'w"
  cv_new_identity :: "'w \<Rightarrow> 'w \<times> string"
  cv_dump :: "'j \<Rightarrow> string result"
  cv_parse :: "string \<Rightarrow> 'j result"
  cv_exchange :: "string \<Rightarrow> ('w, string result) task"
  cv_what :: "exn \<Rightarrow> string"

text \<open>Cancelling closes the scope under its lock and requests the stop after it.\<close>

definition cancel_scope :: "('w, 'j) confirm_env \<Rightarrow> nat \<Rightarrow> ('w, unit) task" where
  "cancel_scope E sid =
     Suspend (\<lambda>w. (cv_set_scope E sid ((cv_scope E sid w)\<lparr>cs_stopping := True\<rparr>) w,
       Suspend (\<lambda>w. (cv_set_scope E sid ((cv_scope E sid w)\<lparr>cs_stop_requested := True\<rparr>) w, Done ()))))"

section \<open>Confirming a call\<close>

definition confirmation_request ::
  "'j json_lib \<Rightarrow> 'j invoke_query \<Rightarrow> string \<Rightarrow> string \<Rightarrow> string \<Rightarrow> string \<Rightarrow> 'j wire_value option list" where
  "confirmation_request J query worker_id session_id run_id confirmation_id =
     record_with J ConfirmationRequestEnvelope_record
       [(''data'', Some (VRecord (record_with J ConfirmationRequest_record
          [(''worker_id'', Some (VText worker_id)), (''session_id'', Some (VText session_id)), (''run_id'', Some (VText run_id)),
           (''confirmation_id'', Some (VText confirmation_id)), (''call'', Some (VRecord (wire_call J query)))])))]"

definition reply_data :: "'j wire_value option list \<Rightarrow> 'j wire_value option list" where
  "reply_data reply =
     (case member_at ConfirmationResponseEnvelope_record reply ''data'' of Some v \<Rightarrow> record_members v | None \<Rightarrow> [])"

definition correlated :: "string \<Rightarrow> string \<Rightarrow> string \<Rightarrow> string \<Rightarrow> 'j wire_value option list \<Rightarrow> bool" where
  "correlated worker_id session_id run_id confirmation_id data \<longleftrightarrow>
     text_of (member_at ConfirmationResponse_record data ''worker_id'') = worker_id \<and>
     text_of (member_at ConfirmationResponse_record data ''session_id'') = session_id \<and>
     text_of (member_at ConfirmationResponse_record data ''run_id'') = run_id \<and>
     text_of (member_at ConfirmationResponse_record data ''confirmation_id'') = confirmation_id"

definition read_reply ::
  "'j json_wire \<Rightarrow> ('w, 'j) confirm_env \<Rightarrow> string \<Rightarrow> string \<Rightarrow> string \<Rightarrow> string \<Rightarrow> string \<Rightarrow> 'j wire_value option list result" where
  "read_reply W E worker_id session_id run_id confirmation_id wire =
     and_then (cv_parse E wire) (\<lambda>j.
     and_then (wire_from_json W ConfirmationResponseEnvelope_record j []) (\<lambda>reply.
     if correlated worker_id session_id run_id confirmation_id (reply_data reply) then Inr (reply_data reply)
     else Inl (InvalidArgument ''confirmation correlation mismatch'')))"

definition settle_reply :: "('w, 'j) confirm_env \<Rightarrow> nat \<Rightarrow> 'j confirm_event \<Rightarrow> 'j wire_value option list \<Rightarrow> ('w, exn + 'j confirm_event) task" where
  "settle_reply E sid event data =
     (let approved = (text_of (member_at ConfirmationResponse_record data ''decision'') = ''approved'');
          reason = (case member_at ConfirmationResponse_record data ''reason'' of None \<Rightarrow> ''operator decision'' | m \<Rightarrow> text_of m) in
      ask (\<lambda>w.
        if settle_approval approved (cv_scope E sid w) then Done (Inr (event\<lparr>ce_decision := Approved, ce_reason := reason\<rparr>))
        else ask (\<lambda>w.
          if approved \<or> cs_stop_requested (cv_scope E sid w) then Done (Inr (event\<lparr>ce_reason := ''run cancelled during confirmation''\<rparr>))
          else Done (Inr (event\<lparr>ce_reason := reason\<rparr>)))))"

definition ask_operator ::
  "'j json_wire \<Rightarrow> ('w, 'j) confirm_env \<Rightarrow> nat \<Rightarrow> 'j confirm_event \<Rightarrow> string \<Rightarrow> string \<Rightarrow> string \<Rightarrow> ('w, exn + 'j confirm_event) task" where
  "ask_operator W E sid event worker_id session_id run_id =
     Suspend (\<lambda>w. case cv_new_identity E w of (w', confirmation_id) \<Rightarrow> (w',
       case cv_dump E (wire_to_json (jw_json W) ConfirmationRequestEnvelope_record
           (confirmation_request (jw_json W) (ce_query event) worker_id session_id run_id confirmation_id)) of
         Inl e \<Rightarrow> Done (Inl e)
       | Inr encoded \<Rightarrow>
           if length encoded > 1024 * 1024 then
             Done (Inr (event\<lparr>ce_reason := ''confirmation request exceeds the 1 MiB transport budget; invocation denied''\<rparr>))
           else bind_task (cv_exchange E encoded) (\<lambda>answer.
             case and_then answer (read_reply W E worker_id session_id run_id confirmation_id) of
               Inl e \<Rightarrow> Done (Inr (event\<lparr>ce_reason := ''confirmation failed: '' @ cv_what E e\<rparr>))
             | Inr data \<Rightarrow> settle_reply E sid event data)))"

definition confirm ::
  "'j json_wire \<Rightarrow> ('w, 'j) confirm_env \<Rightarrow> 'j confirm_event \<Rightarrow> (nat \<times> confirmation_mode) option \<Rightarrow> bool \<Rightarrow> string \<Rightarrow> string \<Rightarrow> string \<Rightarrow>
   ('w, exn + 'j confirm_event) task" where
  "confirm W E event0 scope endpoint worker_id session_id run_id =
     (let event = event0\<lparr>ce_decision := Denied, ce_reason := ''confirmation endpoint is not configured''\<rparr>;
          cancelled = Done (Inr (event\<lparr>ce_reason := ''run cancelled before confirmation''\<rparr>)) in
      case scope of
        None \<Rightarrow> cancelled
      | Some (sid, mode) \<Rightarrow> ask (\<lambda>w.
          if cs_stop_requested (cv_scope E sid w) then cancelled
          else case mode of
            DenyMode \<Rightarrow> Done (Inr (event\<lparr>ce_reason := ''confirmation policy denies the invocation''\<rparr>))
          | ApproveMode \<Rightarrow> ask (\<lambda>w.
              if settle_approval True (cv_scope E sid w) then
                Done (Inr (event\<lparr>ce_decision := Approved, ce_reason := ''confirmation policy approves the invocation''\<rparr>))
              else Done (Inr (event\<lparr>ce_reason := ''run cancelled during confirmation''\<rparr>)))
          | AskMode \<Rightarrow> if \<not> endpoint then Done (Inr event) else ask_operator W E sid event worker_id session_id run_id))"

section \<open>The listener of the worker\<close>

record 'w worker_view =
  wv_alive :: "'w \<Rightarrow> bool"
  wv_scope :: "'w \<Rightarrow> (nat \<times> confirmation_mode) option"
  wv_run_id :: "'w \<Rightarrow> string"
  wv_worker_id :: string
  wv_session_id :: string
  wv_endpoint :: bool

definition confirmation_listener ::
  "'j json_wire \<Rightarrow> ('w, 'j) confirm_env \<Rightarrow> 'w worker_view \<Rightarrow> 'j confirm_event \<Rightarrow> ('w, 'j thrown + 'j confirm_event) task" where
  "confirmation_listener W E V event =
     ask (\<lambda>w. if \<not> wv_alive V w then Done (Inr (event\<lparr>ce_decision := Denied, ce_reason := ''worker no longer available''\<rparr>))
       else ask (\<lambda>w.
         bind_task (confirm W E event (wv_scope V w) (wv_endpoint V) (wv_worker_id V) (wv_session_id V) (wv_run_id V w)) (\<lambda>r.
           case r of Inl e \<Rightarrow> Done (Inl (StdException (cv_what E e))) | Inr answered \<Rightarrow> Done (Inr answered))))"

section \<open>Approval needs an answer\<close>

lemma response_members:
  assumes "record_typed ConfirmationResponseEnvelope_record reply"
  obtains type worker session run confirmation decision reason
  where "reply = [type, Some (VRecord [Some (VText worker), Some (VText session), Some (VText run), Some (VText confirmation),
    Some (VEnum decision), reason])]"
  using assms
  by (cases reply) (auto simp: ConfirmationResponseEnvelope_record_def ConfirmationResponse_record_def field_defs neq_Nil_conv
    split: option.splits list.splits elim!: value_typed.elims members_typed.elims)

lemma reply_read:
  assumes "read_reply W E worker session run confirmation wire = Inr data"
  obtains j type decision reason where "cv_parse E wire = Inr j"
    "wire_from_json W ConfirmationResponseEnvelope_record j [] = Inr [type, Some (VRecord data)]"
    "data = [Some (VText worker), Some (VText session), Some (VText run), Some (VText confirmation), Some (VEnum decision), reason]"
proof -
  from assms obtain j reply where j: "cv_parse E wire = Inr j" and reply: "wire_from_json W ConfirmationResponseEnvelope_record j [] = Inr reply"
    and data: "correlated worker session run confirmation (reply_data reply)" "data = reply_data reply"
    by (auto simp: read_reply_def and_then_eq_Inr split: if_splits)
  have "strict_record ConfirmationResponseEnvelope_record"
    using published_record [of ConfirmationResponseEnvelope_record] by (simp add: wire_records_def)
  with record_accepted [OF reply] have "record_typed ConfirmationResponseEnvelope_record reply" by simp
  then show thesis
    by (rule response_members) (use that j reply data in
      \<open>auto simp: correlated_def reply_data_def member_at_def ConfirmationResponseEnvelope_record_def ConfirmationResponse_record_def field_defs\<close>)
qed

lemma settle_reply_approves:
  assumes "Inr answered \<in> outcomes (settle_reply E sid event data)" "ce_decision answered = Approved" "ce_decision event \<noteq> Approved"
  shows "text_of (member_at ConfirmationResponse_record data ''decision'') = ''approved'' \<and> (\<exists>w. \<not> cs_stopping (cv_scope E sid w))"
proof (rule ccontr)
  assume "\<not> ?thesis"
  then have "\<not> settle_approval (text_of (member_at ConfirmationResponse_record data ''decision'') = ''approved'') (cv_scope E sid w)" for w
    by (auto simp: settle_approval_def)
  with assms show False by (auto simp: settle_reply_def Let_def split: if_splits)
qed

text \<open>An operator's approval: a reply to this very request that decodes and carries all four identifiers.\<close>

definition operator_approved ::
  "'j json_wire \<Rightarrow> ('w, 'j) confirm_env \<Rightarrow> 'j invoke_query \<Rightarrow> string \<Rightarrow> string \<Rightarrow> string \<Rightarrow> bool" where
  "operator_approved W E query worker_id session_id run_id \<longleftrightarrow>
     (\<exists>w confirmation_id encoded wire j type reason. confirmation_id = snd (cv_new_identity E w) \<and>
        cv_dump E (wire_to_json (jw_json W) ConfirmationRequestEnvelope_record
          (confirmation_request (jw_json W) query worker_id session_id run_id confirmation_id)) = Inr encoded \<and>
        Inr wire \<in> outcomes (cv_exchange E encoded) \<and> cv_parse E wire = Inr j \<and>
        wire_from_json W ConfirmationResponseEnvelope_record j [] =
          Inr [type, Some (VRecord [Some (VText worker_id), Some (VText session_id), Some (VText run_id), Some (VText confirmation_id),
            Some (VEnum ''approved''), reason])])"

lemma ask_operator_approves:
  assumes "Inr answered \<in> outcomes (ask_operator W E sid event worker_id session_id run_id)" "ce_decision answered = Approved"
    "ce_decision event \<noteq> Approved"
  shows "operator_approved W E (ce_query event) worker_id session_id run_id \<and> (\<exists>w. \<not> cs_stopping (cv_scope E sid w))"
proof -
  let ?dump = "\<lambda>confirmation_id. cv_dump E (wire_to_json (jw_json W) ConfirmationRequestEnvelope_record
      (confirmation_request (jw_json W) (ce_query event) worker_id session_id run_id confirmation_id))"
  let ?rest = "\<lambda>confirmation_id. case ?dump confirmation_id of Inl e \<Rightarrow> Done (Inl e) | Inr encoded \<Rightarrow>
      if length encoded > 1024 * 1024 then
        Done (Inr (event\<lparr>ce_reason := ''confirmation request exceeds the 1 MiB transport budget; invocation denied''\<rparr>))
      else bind_task (cv_exchange E encoded) (\<lambda>answer.
        case and_then answer (read_reply W E worker_id session_id run_id confirmation_id) of
          Inl e \<Rightarrow> Done (Inr (event\<lparr>ce_reason := ''confirmation failed: '' @ cv_what E e\<rparr>))
        | Inr data \<Rightarrow> settle_reply E sid event data)"
  from assms(1) obtain w where "Inr answered \<in> outcomes (snd (case cv_new_identity E w of (w', confirmation_id) \<Rightarrow> (w', ?rest confirmation_id)))"
    by (auto simp only: ask_operator_def outcomes_Suspend UN_iff)
  moreover obtain w' confirmation_id where w: "cv_new_identity E w = (w', confirmation_id)" by (cases "cv_new_identity E w")
  ultimately have sent: "Inr answered \<in> outcomes (?rest confirmation_id)" by simp
  obtain encoded where encoded: "?dump confirmation_id = Inr encoded" using sent by (cases "?dump confirmation_id") simp_all
  have "\<not> length encoded > 1024 * 1024" using sent assms(2, 3) by (cases "length encoded > 1024 * 1024") (auto simp: encoded)
  with sent encoded obtain answer where answer: "answer \<in> outcomes (cv_exchange E encoded)"
    and settled: "Inr answered \<in> outcomes (case and_then answer (read_reply W E worker_id session_id run_id confirmation_id) of
      Inl e \<Rightarrow> Done (Inr (event\<lparr>ce_reason := ''confirmation failed: '' @ cv_what E e\<rparr>)) | Inr data \<Rightarrow> settle_reply E sid event data)"
    by auto
  from settled assms(2, 3) obtain data where data: "and_then answer (read_reply W E worker_id session_id run_id confirmation_id) = Inr data"
    and approves: "Inr answered \<in> outcomes (settle_reply E sid event data)"
    by (auto split: sum.splits)
  from data obtain wire where wire: "answer = Inr wire" "read_reply W E worker_id session_id run_id confirmation_id wire = Inr data"
    by (auto simp: and_then_eq_Inr)
  from wire(2) obtain j type decision reason where reply: "cv_parse E wire = Inr j"
    "wire_from_json W ConfirmationResponseEnvelope_record j [] = Inr [type, Some (VRecord data)]"
    "data = [Some (VText worker_id), Some (VText session_id), Some (VText run_id), Some (VText confirmation_id), Some (VEnum decision), reason]"
    by (rule reply_read)
  from settle_reply_approves [OF approves assms(2, 3)] have "decision = ''approved''" "\<exists>w. \<not> cs_stopping (cv_scope E sid w)"
    by (auto simp: reply(3) member_at_def ConfirmationResponse_record_def field_defs)
  with w encoded answer wire(1) reply show ?thesis unfolding operator_approved_def by (metis snd_conv)
qed

lemma confirm_approves:
  assumes "Inr answered \<in> outcomes (confirm W E event scope endpoint worker_id session_id run_id)" "ce_decision answered = Approved"
  shows "\<exists>sid mode. scope = Some (sid, mode) \<and> (\<exists>w. \<not> cs_stopping (cv_scope E sid w)) \<and>
    (mode = ApproveMode \<or> mode = AskMode \<and> endpoint \<and> operator_approved W E (ce_query event) worker_id session_id run_id)"
proof (cases scope)
  case None
  with assms show ?thesis by (simp add: confirm_def Let_def)
next
  case (Some entry)
  obtain sid mode where scope: "scope = Some (sid, mode)" using Some by (cases entry) simp
  let ?event = "event\<lparr>ce_decision := Denied, ce_reason := ''confirmation endpoint is not configured''\<rparr>"
  show ?thesis
  proof (cases mode)
    case AskMode
    with assms scope have "endpoint \<and> Inr answered \<in> outcomes (ask_operator W E sid ?event worker_id session_id run_id)"
      by (auto simp: confirm_def Let_def split: if_splits)
    with ask_operator_approves [of answered W E sid ?event worker_id session_id run_id] assms(2) AskMode scope show ?thesis by auto
  qed (use assms scope in \<open>auto simp: confirm_def settle_approval_def Let_def split: if_splits\<close>)
qed


text \<open>
  With the denying policy, or with no scope at all, no call that needs confirmation runs: whatever subscriptions
  the gate meets, when every handler is the worker's listener and every scope it can see denies, the security check of
  a tool that relies on the default gate answers no.
\<close>

theorem denying_policy_refuses:
  assumes "\<forall>slot. cb_handler B slot = confirmation_listener W E V"
    and "\<forall>w. case wv_scope V w of None \<Rightarrow> True | Some (sid, mode) \<Rightarrow> mode = DenyMode"
    and "iq_security query = RequireConfirm"
    and "Inr (allowed, reason) \<in> outcomes (default_security_check B query)"
  shows "\<not> allowed"
proof -
  have "ce_decision answered \<noteq> Approved" if answered: "Inr answered \<in> outcomes (confirmation_listener W E V event)" for event answered
  proof
    assume "ce_decision answered = Approved"
    with answered obtain w where "Inr answered \<in> outcomes (confirm W E event (wv_scope V w) (wv_endpoint V) (wv_worker_id V) (wv_session_id V) (wv_run_id V w))"
      by (auto simp: confirmation_listener_def outcomes_bind_sum simp del: outcomes_bind split: if_splits)
    from confirm_approves [OF this \<open>ce_decision answered = Approved\<close>] spec [OF assms(2), of w] show False by auto
  qed
  then have "never_approves B" using assms(1) by (simp add: never_approves_def)
  with unconfirmed_gate [of B query] assms(3, 4) show ?thesis by auto
qed

section \<open>Examples\<close>

definition approval :: "json wire_value option list" where
  "approval = [Some (VEnum ''confirmation_response''),
     Some (VRecord [Some (VText ''w''), Some (VText ''s''), Some (VText ''r''), Some (VText ''c1''), Some (VEnum ''approved''), None])]"

definition operator_env :: "(unit, json) confirm_env" where
  "operator_env = \<lparr>cv_scope = (\<lambda>_ _. \<lparr>cs_stopping = False, cs_stop_requested = False\<rparr>), cv_set_scope = (\<lambda>_ _ w. w),
     cv_new_identity = (\<lambda>w. (w, ''c1'')), cv_dump = (\<lambda>_. Inr ''q''),
     cv_parse = (\<lambda>_. Inr (wire_to_json json_values ConfirmationResponseEnvelope_record approval)),
     cv_exchange = (\<lambda>_. Done (Inr ''a'')), cv_what = (\<lambda>_. [])\<rparr>"




definition denying_bus :: "(unit, json) confirm_bus" where
  "denying_bus = \<lparr>cb_slots = (\<lambda>_. [0]), cb_connected = (\<lambda>_ _. True),
     cb_handler = (\<lambda>_. confirmation_listener json_wire_values operator_env
       \<lparr>wv_alive = (\<lambda>_. True), wv_scope = (\<lambda>_. Some (0, DenyMode)), wv_run_id = (\<lambda>_. ''r''), wv_worker_id = ''w'', wv_session_id = ''s'',
        wv_endpoint = True\<rparr>)\<rparr>"

theorem denying_policy_refuses_witness:
  "\<exists>reason. Inr (False, reason) \<in> outcomes (default_security_check denying_bus ((default_query json_values)\<lparr>iq_security := RequireConfirm\<rparr>))"
proof -
  let ?check = "default_security_check denying_bus ((default_query json_values)\<lparr>iq_security := RequireConfirm\<rparr>)"
  have "\<exists>allowed reason. snd (run_task ?check ()) = Inr (allowed, reason)"
    by (simp add: default_security_check_def publish_event_def denying_bus_def confirmation_listener_def confirm_def operator_env_def for_query_def)
      blast
  then obtain allowed reason where answer: "Inr (allowed, reason) \<in> outcomes ?check" by (metis run_outcome)
  have "\<not> allowed"
    by (rule denying_policy_refuses [OF _ _ _ answer]) (auto simp: denying_bus_def)
  with answer show ?thesis by auto
qed

end
