(* ===== verification/Core_Display.thy ===== *)
theory Core_Display
  imports Core_Wire
begin

text \<open>
  \<^verbatim>\<open>core/src/display.cpp\<close>: the bounded projections the worker publishes. Diagnostic previews, tool calls and
  results, response previews, history pages with their cursor, and exact answers read page by page.

  Encoding to bytes, the digest behind a fingerprint and the remaining queries of the JSON library are operations
  of an environment. A projected record is the list of its members, as in \<open>Core_Wire\<close>.
\<close>

record 'j display_env =
  de_wire :: "'j json_wire"
  de_dump :: "'j \<Rightarrow> string result"
  de_primitive :: "'j \<Rightarrow> bool"
  de_erase :: "string \<Rightarrow> 'j \<Rightarrow> 'j"
  de_hash :: "string list \<Rightarrow> string result"

abbreviation de_json :: "'j display_env \<Rightarrow> 'j json_lib" where
  "de_json D \<equiv> jw_json (de_wire D)"

section \<open>Text prefixes\<close>

definition continuation_byte :: "char \<Rightarrow> bool" where
  "continuation_byte c \<longleftrightarrow> byte_val c div 64 = 2"

text \<open>The loop that moves an end back to a code point boundary, not before a given position.\<close>

fun code_point_end :: "string \<Rightarrow> nat \<Rightarrow> nat \<Rightarrow> nat" where
  "code_point_end s low n =
     (if n > low \<and> n < length s \<and> continuation_byte (s ! n) then code_point_end s low (n - 1) else n)"

declare code_point_end.simps [simp del]

definition display_prefix :: "string \<Rightarrow> nat \<Rightarrow> string" where
  "display_prefix s count = take (code_point_end s 0 (min (length s) count)) s"

definition text_in :: "'j json_lib \<Rightarrow> 'j \<Rightarrow> string" where
  "text_in J j = (case js_get_string J j of Inl _ \<Rightarrow> [] | Inr s \<Rightarrow> s)"

definition items_in :: "'j json_lib \<Rightarrow> 'j \<Rightarrow> 'j list" where
  "items_in J j = (case js_get_array J j of Inl _ \<Rightarrow> [] | Inr xs \<Rightarrow> xs)"

definition flag :: "'j json_lib \<Rightarrow> string \<Rightarrow> 'j" where
  "flag J key = js_object J [(key, js_bool J True)]"

section \<open>Diagnostic previews\<close>

text \<open>What an entry leaves in the previewed object beside its own preview.\<close>

definition note_truncated :: "'j json_lib \<Rightarrow> string \<Rightarrow> 'j \<Rightarrow> 'j \<Rightarrow> 'j" where
  "note_truncated J key item result =
     (if js_is_string J item \<and> length (text_in J item) > 1024 then
        let marked = js_set J ''display_truncated'' (js_bool J True) result in
        if key = ''raw'' then
          js_set J ''bytes'' (js_number J (int (length (text_in J item)))) (js_set J ''truncated'' (js_bool J True) marked)
        else marked
      else result)"

function (sequential) preview :: "'j json_wire \<Rightarrow> 'j \<Rightarrow> nat \<Rightarrow> nat \<Rightarrow> 'j \<times> nat"
  and preview_items :: "'j json_wire \<Rightarrow> 'j list \<Rightarrow> nat \<Rightarrow> nat \<Rightarrow> 'j list \<Rightarrow> 'j list \<times> nat"
  and preview_entries :: "'j json_wire \<Rightarrow> (string \<times> 'j) list \<Rightarrow> nat \<Rightarrow> nat \<Rightarrow> 'j \<Rightarrow> 'j \<times> nat" where
  "preview W value depth remaining =
     (if remaining = 0 \<or> depth > 12 then (flag (jw_json W) ''omitted'', remaining)
      else if js_is_string (jw_json W) value then
        (js_string (jw_json W) (if length (text_in (jw_json W) value) \<le> 1024 then text_in (jw_json W) value
           else display_prefix (text_in (jw_json W) value) 1024), remaining - 1)
      else if js_is_array (jw_json W) value then
        let items = items_in (jw_json W) value; (result, left) = preview_items W items depth (remaining - 1) [] in
        (js_array (jw_json W) (if length result < length items
           then result @ [js_object (jw_json W) [(''omitted_items'', js_number (jw_json W) (int (length items - length result)))]]
           else result), left)
      else if js_is_object (jw_json W) value then
        let (result, left) = preview_entries W (json_items W value) depth (remaining - 1) (js_object (jw_json W) []) in
        (if length (jw_keys W result) < length (jw_keys W value)
         then js_set (jw_json W) ''display_truncated'' (js_bool (jw_json W) True) result else result, left)
      else (value, remaining - 1))"
| "preview_items W [] depth remaining result = (result, remaining)"
| "preview_items W (item # items) depth remaining result =
     (if length result \<ge> 64 \<or> remaining = 0 \<or> depth > 12 then (result, remaining)
      else let (shown, left) = preview W item (depth + 1) remaining in preview_items W items depth left (result @ [shown]))"
| "preview_entries W [] depth remaining result = (result, remaining)"
| "preview_entries W ((key, item) # entries) depth remaining result =
     (if length (jw_keys W result) \<ge> 64 \<or> remaining = 0 \<or> depth > 12 then (result, remaining)
      else if length key > 128 then preview_entries W entries depth remaining result
      else let (shown, left) = preview W item (depth + 1) remaining in
        preview_entries W entries depth left (note_truncated (jw_json W) key item (js_set (jw_json W) key shown result)))"
  by pat_completeness auto
termination
  by (relation "inv_image (less_than <*lex*> less_than) (\<lambda>x. case x of
        Inl (W, value, depth, remaining) \<Rightarrow> (14 - depth, Suc 0)
      | Inr (Inl (W, items, depth, remaining, result)) \<Rightarrow> (13 - depth, Suc (Suc (length items)))
      | Inr (Inr (W, entries, depth, remaining, result)) \<Rightarrow> (13 - depth, Suc (Suc (length entries))))") auto

text \<open>The loops inside \<open>preview\<close> only run at a depth up to 12; their depth test is for termination.\<close>

definition bounded_preview :: "'j display_env \<Rightarrow> 'j \<Rightarrow> nat \<Rightarrow> 'j result" where
  "bounded_preview D value maximum =
     (let result = fst (preview (de_wire D) value 0 128) in
      and_then (de_dump D result) (\<lambda>encoded. Inr (if length encoded > maximum then flag (de_json D) ''display_omitted'' else result)))"

text \<open>The binary searches for the longest candidate that fits, in \<^verbatim>\<open>encoded_prefix\<close> and \<^verbatim>\<open>display_step\<close>.\<close>

function largest_fitting :: "(nat \<Rightarrow> bool result) \<Rightarrow> nat \<Rightarrow> nat \<Rightarrow> nat result" where
  "largest_fitting fitting low high =
     (if low < high then
        let middle = low + (high - low + 1) div 2 in
        and_then (fitting middle) (\<lambda>ok. if ok then largest_fitting fitting middle high else largest_fitting fitting low (middle - 1))
      else Inr low)"
  by pat_completeness auto
termination
  by (relation "measure (\<lambda>(fitting, low, high). high - low)") auto

declare largest_fitting.simps [simp del]

definition encoded_size :: "'j display_env \<Rightarrow> 'j \<Rightarrow> nat result" where
  "encoded_size D j = and_then (de_dump D j) (\<lambda>encoded. Inr (length encoded))"

definition encoded_prefix :: "'j display_env \<Rightarrow> string \<Rightarrow> nat \<Rightarrow> string result" where
  "encoded_prefix D s maximum =
     (let high = min (length s) (maximum - 2);
          fitting = (\<lambda>n. and_then (encoded_size D (js_string (de_json D) (display_prefix s n))) (\<lambda>size. Inr (size \<le> maximum))) in
      and_then (fitting high) (\<lambda>ok.
        if ok then Inr (display_prefix s high)
        else and_then (largest_fitting fitting 0 high) (\<lambda>low. Inr (display_prefix s low))))"

fun annotate_status :: "'j display_env \<Rightarrow> 'j \<Rightarrow> string list \<Rightarrow> 'j \<Rightarrow> 'j result" where
  "annotate_status D value [] result = Inr result"
| "annotate_status D value (key # keys) result =
     (case js_find (de_json D) value key of
        Some item \<Rightarrow>
          if de_primitive D item then
            and_then (bounded_preview D item 256) (\<lambda>shown. annotate_status D value keys (js_set (de_json D) key shown result))
          else annotate_status D value keys result
      | None \<Rightarrow> annotate_status D value keys result)"

fun annotate_error :: "'j display_env \<Rightarrow> 'j \<Rightarrow> string list \<Rightarrow> 'j \<Rightarrow> 'j result" where
  "annotate_error D error [] projected = Inr projected"
| "annotate_error D error (key # keys) projected =
     (case js_find (de_json D) error key of
        Some item \<Rightarrow>
          if js_is_string (de_json D) item then
            let original = text_in (de_json D) item in
            and_then (encoded_prefix D original (if key = ''stage'' then 128 else 1024)) (\<lambda>shown.
            let shorter = js_set (de_json D) key (js_string (de_json D) shown) projected in
            annotate_error D error keys
              (if shown \<noteq> original then js_set (de_json D) ''display_truncated'' (js_bool (de_json D) True) shorter else shorter))
          else annotate_error D error keys projected
      | None \<Rightarrow> annotate_error D error keys projected)"

definition annotations :: "'j display_env \<Rightarrow> 'j \<Rightarrow> 'j result" where
  "annotations D value =
     and_then (bounded_preview D value 512) (\<lambda>result.
     if \<not> js_is_object (de_json D) value then Inr result
     else
       and_then (annotate_status D value [''status'', ''loop_skipped''] result) (\<lambda>marked.
       case js_find (de_json D) value ''error'' of
         Some error \<Rightarrow>
           if js_is_object (de_json D) error then
             and_then (annotate_error D error [''stage'', ''message''] (js_object (de_json D) [])) (\<lambda>projected.
             Inr (js_set (de_json D) ''error'' projected marked))
           else Inr marked
       | None \<Rightarrow> Inr marked))"

definition optional_result :: "('a \<Rightarrow> 'b result) \<Rightarrow> 'a option \<Rightarrow> 'b option result" where
  "optional_result f m = (case m of None \<Rightarrow> Inr None | Some x \<Rightarrow> and_then (f x) (\<lambda>y. Inr (Some y)))"

section \<open>Calls, results and content\<close>

definition call_preview :: "'j display_env \<Rightarrow> 'j invoke_query \<Rightarrow> nat \<Rightarrow> 'j wire_value option list result" where
  "call_preview D call argument_budget =
     and_then (bounded_preview D (iq_arguments call) argument_budget) (\<lambda>arguments.
     and_then (optional_result (annotations D) (iq_extras call)) (\<lambda>extras.
     Inr (record_with (de_json D) Call_record
       [(''id'', Some (VText (iq_id call))), (''name'', Some (VText (iq_name call))),
        (''type'', Some (VEnum (wire_scheduling (iq_type call)))), (''security'', Some (VEnum (wire_security (iq_security call)))),
        (''arguments'', Some (VJson arguments)), (''extras'', map_option VJson extras)])))"

definition tool_content :: "'j display_env \<Rightarrow> 'j content \<Rightarrow> nat \<Rightarrow> 'j wire_value option list result" where
  "tool_content D content text_budget =
     and_then (encoded_prefix D (cn_raw content) text_budget) (\<lambda>raw.
     and_then (optional_result (\<lambda>extras. bounded_preview D extras 512) (cn_extras content)) (\<lambda>extras.
     Inr (record_with (de_json D) Content_record
       ([(''type'', Some (VEnum (wire_content_type (cn_type content)))), (''modality'', Some (VEnum (wire_modality (cn_modality content)))),
         (''raw'', Some (VText raw)), (''extras'', map_option VJson extras)] @
        (if raw \<noteq> cn_raw content then [(''truncated'', Some (VBoolean True)), (''bytes'', Some (VInteger (length (cn_raw content))))] else [])))))"

definition display_content :: "'j json_lib \<Rightarrow> 'j content \<Rightarrow> nat \<Rightarrow> 'j wire_value option list" where
  "display_content J part maximum =
     (let labels = [(''type'', Some (VEnum (wire_content_type (cn_type part)))), (''modality'', Some (VEnum (wire_modality (cn_modality part))))];
          budget = (if cn_modality part \<noteq> TextModality then min maximum 2048 else maximum);
          size = Some (VInteger (length (cn_raw part))) in
      record_with J Content_record
        (if cn_type part = BinaryContent then labels @ [(''raw'', Some (VText [])), (''omitted'', Some (VBoolean True)), (''bytes'', size)]
         else labels @ [(''raw'', Some (VText (display_prefix (cn_raw part) budget)))] @
           (if length (cn_raw part) > budget then [(''truncated'', Some (VBoolean True)), (''bytes'', size)] else [])))"

definition display_parts :: "'j json_lib \<Rightarrow> 'j content list \<Rightarrow> 'j wire_value option list list" where
  "display_parts J parts = map (\<lambda>part. display_content J part 4096) (take 4 parts)"

text \<open>The answer preview: parts while their encodings fit the remaining budget.\<close>

definition fitting_content :: "'j display_env \<Rightarrow> 'j content \<Rightarrow> nat \<Rightarrow> ('j wire_value option list \<times> nat) result" where
  "fitting_content D part remaining =
     (let maximum = min (length (cn_raw part)) (remaining - 256);
          size = (\<lambda>n. encoded_size D (wire_to_json (de_json D) Content_record (display_content (de_json D) part n))) in
      and_then (size maximum) (\<lambda>whole.
      and_then (if whole > remaining
                then largest_fitting (\<lambda>n. and_then (size n) (\<lambda>bytes. Inr (bytes \<le> remaining))) 0 maximum
                else Inr maximum) (\<lambda>n.
      and_then (size n) (\<lambda>bytes. Inr (display_content (de_json D) part n, bytes)))))"

fun preview_parts :: "'j display_env \<Rightarrow> 'j content list \<Rightarrow> nat \<Rightarrow> 'j wire_value option list list \<Rightarrow> 'j wire_value option list list result" where
  "preview_parts D [] remaining content = Inr content"
| "preview_parts D (part # parts) remaining content =
     (if length content \<ge> 128 \<or> remaining < 1024 then Inr content
      else and_then (fitting_content D part remaining) (\<lambda>(projected, bytes).
        if bytes > remaining then Inr content
        else preview_parts D parts (remaining - bytes) (content @ [projected])))"

definition display_step :: "'j display_env \<Rightarrow> 'j message_item \<Rightarrow> nat \<Rightarrow> nat \<Rightarrow> 'j wire_value option list result" where
  "display_step D response index answer_budget =
     and_then (preview_parts D (mi_content response) answer_budget []) (\<lambda>content.
     Inr (record_with (de_json D) HistoryStep_record
       [(''index'', Some (VInteger index)), (''content'', Some (VVector (map VRecord content))),
        (''tool_calls'', Some (VInteger (case mi_invokes response of None \<Rightarrow> 0 | Some calls \<Rightarrow> length calls))),
        (''omitted_parts'', Some (VInteger (length (mi_content response) - length content))),
        (''reasoning'', map_option (\<lambda>part. VRecord (display_content (de_json D) part 4096)) (mi_reasoning response))]))"

definition preview_projection :: "'j display_env \<Rightarrow> 'j message_item \<Rightarrow> nat \<Rightarrow> nat \<Rightarrow> 'j wire_value option list result" where
  "preview_projection D response step answer_budget =
     and_then (display_step D response step answer_budget) (\<lambda>projected.
     Inr (record_with (de_json D) ResponseProjection_record
       (map (\<lambda>name. (name, member_at HistoryStep_record projected name)) [''index'', ''content'', ''tool_calls'', ''omitted_parts'', ''reasoning''])))"
section \<open>Fingerprints and locators\<close>

definition hex_character :: "nat \<Rightarrow> char" where
  "hex_character n = ''0123456789abcdef'' ! n"

definition hex_text :: "string \<Rightarrow> string" where
  "hex_text digest = concat (map (\<lambda>c. [hex_character (byte_val c div 16), hex_character (byte_val c mod 16)]) digest)"

text \<open>The byte strings the digest is updated with, in order.\<close>

fun digest_input :: "'j display_env \<Rightarrow> 'j content list \<Rightarrow> string list result" where
  "digest_input D [] = Inr []"
| "digest_input D (part # parts) =
     and_then (de_dump D (js_object (de_json D)
       [(''type'', enum_to_json (de_json D) content_type_names (cn_type part)), (''modality'', modality_to_json (de_json D) (cn_modality part)),
        (''bytes'', js_number (de_json D) (int (length (cn_raw part))))])) (\<lambda>identity.
     and_then (digest_input D parts) (\<lambda>rest. Inr (identity # cn_raw part # rest)))"

definition fingerprint :: "'j display_env \<Rightarrow> 'j message_item \<Rightarrow> string result" where
  "fingerprint D response =
     and_then (digest_input D (mi_content response)) (\<lambda>updates.
     and_then (de_hash D updates) (\<lambda>digest. Inr (hex_text digest)))"

definition answer_locator :: "'j display_env \<Rightarrow> 'j agent_loop_step \<Rightarrow> nat \<Rightarrow> nat \<Rightarrow> string \<Rightarrow> 'j wire_value option list result" where
  "answer_locator D response turn step worker_id =
     and_then (fingerprint D (as_model_response response)) (\<lambda>print.
     Inr (record_with (de_json D) AnswerSource_record
       [(''worker_id'', Some (VText worker_id)), (''turn'', Some (VInteger turn)), (''step'', Some (VInteger step)),
        (''commit_sequence'', Some (VText (to_string (as_commit_sequence response)))), (''fingerprint'', Some (VText print))]))"

definition answer_source :: "'j display_env \<Rightarrow> 'j agent_loop_step \<Rightarrow> nat \<Rightarrow> nat \<Rightarrow> string \<Rightarrow> 'j result" where
  "answer_source D response turn step worker_id =
     and_then (answer_locator D response turn step worker_id) (\<lambda>r. Inr (wire_to_json (de_json D) AnswerSource_record r))"

section \<open>Display values\<close>

definition display_value :: "'j display_env \<Rightarrow> 'j \<Rightarrow> 'j" where
  "display_value D value = fst (preview (de_wire D) value 0 128)"

definition compact_summary_max_bytes :: nat where
  "compact_summary_max_bytes = 32 * 1024"

definition display_compact :: "'j display_env \<Rightarrow> 'j \<Rightarrow> 'j" where
  "display_compact D value =
     (case (if js_is_object (de_json D) value then js_find (de_json D) value ''summary'' else None) of
        None \<Rightarrow> display_value D value
      | Some summary \<Rightarrow>
          let result = display_value D (de_erase D ''summary'' value) in
          js_set (de_json D) ''summary''
            (if \<not> js_is_string (de_json D) summary then display_value D summary
             else if length (text_in (de_json D) summary) > compact_summary_max_bytes then
               js_object (de_json D) [(''display_omitted'', js_bool (de_json D) True),
                 (''bytes'', js_number (de_json D) (int (length (text_in (de_json D) summary)))),
                 (''reason'', js_string (de_json D) ''compact summary exceeds 32768 byte limit'')]
             else summary) result)"

definition omission_marker :: "'j json_lib \<Rightarrow> nat \<Rightarrow> 'j" where
  "omission_marker J n = wire_to_json J OmissionMarker_record (record_with J OmissionMarker_record [(''omitted_items'', Some (VInteger n))])"

definition with_marker :: "'j json_lib \<Rightarrow> 'j list \<Rightarrow> nat \<Rightarrow> 'j" where
  "with_marker J shown omitted = js_array J (if omitted > 0 then shown @ [omission_marker J omitted] else shown)"

definition display_calls :: "'j display_env \<Rightarrow> 'j invoke_query list \<Rightarrow> 'j result" where
  "display_calls D calls =
     (let count = min (length calls) 64; argument_budget = min 8192 (64 * 1024 div max count 1) in
      and_then (map_result (\<lambda>call. and_then (call_preview D call argument_budget) (\<lambda>r. Inr (wire_to_json (de_json D) Call_record r)))
        (take count calls)) (\<lambda>shown.
      Inr (with_marker (de_json D) shown (length calls - count))))"

definition display_result :: "'j display_env \<Rightarrow> nat \<Rightarrow> nat \<Rightarrow> 'j message_item \<Rightarrow> 'j wire_value option list result" where
  "display_result D argument_budget output_budget message =
     (let parts = min (length (mi_content message)) 4 in
      and_then (map_result (\<lambda>part. tool_content D part (output_budget div parts)) (take parts (mi_content message))) (\<lambda>content.
      and_then (optional_result (\<lambda>returned.
        and_then (call_preview D (ir_query returned) argument_budget) (\<lambda>query.
        and_then (tool_content D (ir_output returned) output_budget) (\<lambda>out.
        and_then (optional_result (annotations D) (ir_extras returned)) (\<lambda>extras.
        Inr (record_with (de_json D) Result_record
          [(''query'', Some (VRecord query)), (''output'', Some (VRecord out)), (''extras'', map_option VJson extras)])))))
        (mi_invoke_return message)) (\<lambda>provenance.
      and_then (optional_result (annotations D) (mi_extras message)) (\<lambda>extras.
      Inr (record_with (de_json D) ToolResultMessage_record
        ([(''type'', Some (VEnum (wire_message_type (mi_type message)))), (''role'', Some (VText (mi_role message))),
          (''content'', Some (VVector (map VRecord content))), (''invoke_return'', map_option VRecord provenance),
          (''extras'', map_option VJson extras)] @
         (if parts < length (mi_content message) then [(''omitted_parts'', Some (VInteger (length (mi_content message) - parts)))] else [])))))))"

definition display_results :: "'j display_env \<Rightarrow> 'j message_item list \<Rightarrow> 'j result" where
  "display_results D messages =
     (let count = min (length messages) 64; argument_budget = min 8192 (64 * 1024 div max count 1);
          output_budget = min 8192 (128 * 1024 div max count 1) in
      and_then (map_result (\<lambda>message. and_then (display_result D argument_budget output_budget message)
          (\<lambda>r. Inr (wire_to_json (de_json D) ToolResultMessage_record r))) (take count messages)) (\<lambda>shown.
      Inr (with_marker (de_json D) shown (length messages - count))))"

definition element_at :: "'a list \<Rightarrow> nat \<Rightarrow> 'a result" where
  "element_at xs i = (if i < length xs then Inr (xs ! i) else Inl (OutOfRange ''vector::at''))"

definition project_response :: "'j display_env \<Rightarrow> 'j agent_input_state \<Rightarrow> nat \<Rightarrow> nat \<Rightarrow> string \<Rightarrow> 'j result" where
  "project_response D state turn step worker_id =
     and_then (element_at (st_turns state) turn) (\<lambda>user_step.
     and_then (element_at (us_agent_loop_step user_step) step) (\<lambda>committed.
     let response = as_model_response committed in
     and_then (preview_projection D response step (512 * 1024)) (\<lambda>projected.
     and_then (if as_commit_sequence committed \<noteq> 0 then
         and_then (answer_locator D committed turn step worker_id) (\<lambda>locator.
         Inr [(''commit_sequence'', Some (VText (to_string (as_commit_sequence committed)))), (''answer_source'', Some (VRecord locator))])
       else Inr []) (\<lambda>committed_fields.
     and_then (optional_result (display_calls D) (mi_invokes response)) (\<lambda>invokes.
     Inr (wire_to_json (de_json D) ResponseProjection_record (fold (set_member ResponseProjection_record)
       (committed_fields @
        [(''type'', Some (VEnum (wire_message_type (mi_type response)))), (''role'', Some (VText (mi_role response)))] @
        (case mi_cost response of None \<Rightarrow> [] | Some cost \<Rightarrow>
          [(''cost'', Some (VRecord (record_with (de_json D) Usage_record
             [(''prompt'', Some (VInteger (tc_prompt cost))), (''generated'', Some (VInteger (tc_generated cost))),
              (''cache_hit'', Some (VInteger (tc_cache_hit cost)))])))]) @
        (case invokes of None \<Rightarrow> [] | Some calls \<Rightarrow> [(''invokes'', Some (VJson calls))]))
       projected)))))))"

section \<open>History pages\<close>

definition history_page_max_bytes :: nat where
  "history_page_max_bytes = history_event_max_bytes - 4 * 1024"

text \<open>A host-owned object attached to a message or step.\<close>

definition metadata_in :: "'j json_lib \<Rightarrow> 'j option \<Rightarrow> 'j option" where
  "metadata_in J extras = (case extras of Some j \<Rightarrow> if js_is_object J j then Some j else None | None \<Rightarrow> None)"

definition identity_in :: "'j json_wire \<Rightarrow> 'j option \<Rightarrow> string \<Rightarrow> string \<Rightarrow> 'j wire_value option list option result" where
  "identity_in W extras key path =
     (case metadata_in (jw_json W) extras of
        None \<Rightarrow> Inr None
      | Some metadata \<Rightarrow> optional_result (\<lambda>j. wire_from_json W ExecutionIdentity_record j path) (js_find (jw_json W) metadata key))"

definition internal_input :: "'j json_lib \<Rightarrow> 'j option \<Rightarrow> bool result" where
  "internal_input J extras =
     (case metadata_in J extras of
        None \<Rightarrow> Inr False
      | Some metadata \<Rightarrow>
          and_then (value_or J metadata ''simplex.internal_input'' (js_get_string J) []) (\<lambda>s. Inr (s = ''auto_compact_continue'')))"

definition project_turn :: "'j display_env \<Rightarrow> 'j user_loop_step \<Rightarrow> nat \<Rightarrow> nat \<Rightarrow> 'j wire_value option list result" where
  "project_turn D turn index first_step =
     (let input = us_user_input turn; parts = mi_content input in
      and_then (identity_in (de_wire D) (mi_extras input) ''simplex.source'' ''source'') (\<lambda>source.
      and_then (internal_input (de_json D) (mi_extras input)) (\<lambda>hidden.
      Inr (record_with (de_json D) HistoryTurn_record
        ([(''index'', Some (VInteger index)), (''user'', Some (VVector (map VRecord (display_parts (de_json D) parts)))),
          (''omitted_user_parts'', Some (VInteger (length parts - min (length parts) 4))),
          (''omitted_steps'', Some (VInteger (length (us_agent_loop_step turn) - first_step))),
          (''source'', map_option VRecord source)] @
         (if hidden then [(''user'', Some (VVector [])), (''omitted_user_parts'', Some (VInteger 0)),
            (''internal_input'', Some (VText ''auto_compact_continue''))] else []))))))"

definition project_step :: "'j display_env \<Rightarrow> 'j agent_loop_step \<Rightarrow> nat \<Rightarrow> nat \<Rightarrow> string \<Rightarrow> 'j wire_value option list result" where
  "project_step D committed turn index worker_id =
     and_then (display_step D (as_model_response committed) index (96 * 1024)) (\<lambda>step.
     and_then (if as_commit_sequence committed \<noteq> 0 \<and> worker_id \<noteq> []
       then and_then (answer_locator D committed turn index worker_id) (\<lambda>locator. Inr [(''answer_source'', Some (VRecord locator))])
       else Inr []) (\<lambda>located.
     and_then (identity_in (de_wire D) (as_extras committed) ''simplex.execution'' ''execution'') (\<lambda>execution.
     Inr (fold (set_member HistoryStep_record)
       ((if as_commit_sequence committed \<noteq> 0 then [(''commit_sequence'', Some (VText (to_string (as_commit_sequence committed))))] else []) @
        located @ [(''execution'', map_option VRecord execution)]) step))))"

text \<open>The steps of a turn that still fit; \<open>used\<close> is what the page needs without them.\<close>

fun step_scan ::
  "'j display_env \<Rightarrow> nat \<Rightarrow> string \<Rightarrow> nat \<Rightarrow> nat \<Rightarrow> 'j agent_loop_step list \<Rightarrow> nat \<Rightarrow> 'j wire_value option list list \<Rightarrow>
   ('j wire_value option list list \<times> nat \<times> nat) result" where
  "step_scan D turn worker_id used turn_bytes [] index steps = Inr (steps, turn_bytes, index)"
| "step_scan D turn worker_id used turn_bytes (committed # rest) index steps =
     and_then (project_step D committed turn index worker_id) (\<lambda>step.
     and_then (encoded_size D (wire_to_json (de_json D) HistoryStep_record step)) (\<lambda>size.
     let bytes = size + (if steps = [] then 0 else 1) in
     if used + turn_bytes + bytes > history_page_max_bytes then Inr (steps, turn_bytes, index)
     else step_scan D turn worker_id used (turn_bytes + bytes) rest (index + 1) (steps @ [step])))"

fun turn_scan ::
  "'j display_env \<Rightarrow> nat \<Rightarrow> nat \<Rightarrow> string \<Rightarrow> (nat \<times> 'j user_loop_step) list \<Rightarrow> 'j wire_value option list list \<Rightarrow> nat \<Rightarrow> nat \<Rightarrow>
   ('j wire_value option list list \<times> nat \<times> nat) result" where
  "turn_scan D start request_step worker_id [] turns page_bytes next_turn = Inr (turns, next_turn, 0)"
| "turn_scan D start request_step worker_id ((index, turn) # rest) turns page_bytes next_turn =
     (let first_step = (if index = start then request_step else 0); total_steps = length (us_agent_loop_step turn) in
      if first_step > total_steps then Inl (InvalidArgument ''history step is outside the selected turn'')
      else
        and_then (project_turn D turn index first_step) (\<lambda>projected.
        and_then (encoded_size D (wire_to_json (de_json D) HistoryTurn_record projected)) (\<lambda>turn_bytes.
        let separator_bytes = (if turns = [] then 0 else 1) in
        if page_bytes + separator_bytes + turn_bytes > history_page_max_bytes then
          if turns = [] then Inl (LengthError ''history turn exceeds the display budget'') else Inr (turns, next_turn, 0)
        else
          and_then (step_scan D index worker_id (page_bytes + separator_bytes) turn_bytes
            (drop first_step (us_agent_loop_step turn)) first_step []) (\<lambda>(steps, used_bytes, step_index).
          if step_index = first_step \<and> step_index < total_steps then
            if turns = [] then Inl (LengthError ''history step exceeds the display budget'') else Inr (turns, next_turn, 0)
          else
            let shown = turns @ [fold (set_member HistoryTurn_record)
                  [(''steps'', Some (VVector (map VRecord steps))), (''omitted_steps'', Some (VInteger (total_steps - step_index)))] projected] in
            if step_index < total_steps then Inr (shown, index, step_index)
            else turn_scan D start request_step worker_id rest shown (page_bytes + separator_bytes + used_bytes) (index + 1)))))"

definition history_page_record ::
  "'j display_env \<Rightarrow> 'j agent_input_state \<Rightarrow> history_request \<Rightarrow> nat \<Rightarrow> string \<Rightarrow> 'j wire_value option list result" where
  "history_page_record D state request revision worker_id =
     (let available = length (st_turns state) in
      if hr_start request \<ge> available \<and> hr_step request \<noteq> 0 then
        Inl (InvalidArgument ''history step is outside the available turns'')
      else
        let start = min (hr_start request) available; last_turn = start + min (hr_limit request) (available - start);
            page = record_with (de_json D) HistoryPage_record
              [(''request_id'', Some (VText (hr_request_id request))), (''revision'', Some (VInteger revision)),
               (''start'', Some (VInteger start)), (''step'', Some (VInteger (hr_step request))),
               (''next'', Some (VInteger available)), (''next_step'', Some (VInteger size_max)), (''total'', Some (VInteger available))] in
        and_then (encoded_size D (wire_to_json (de_json D) HistoryPage_record page)) (\<lambda>page_bytes.
        if page_bytes > history_page_max_bytes then Inl (LengthError ''history page metadata exceeds the display budget'')
        else
          and_then (turn_scan D start (hr_step request) worker_id
            (map (\<lambda>i. (i, st_turns state ! i)) [start..<last_turn]) [] page_bytes start) (\<lambda>(turns, next_turn, next_step).
          Inr (fold (set_member HistoryPage_record)
            [(''turns'', Some (VVector (map VRecord turns))), (''next'', Some (VInteger next_turn)),
             (''next_step'', Some (VInteger next_step))] page))))"

definition history_page :: "'j display_env \<Rightarrow> 'j agent_input_state \<Rightarrow> history_request \<Rightarrow> nat \<Rightarrow> string \<Rightarrow> 'j result" where
  "history_page D state request revision worker_id =
     and_then (history_page_record D state request revision worker_id) (\<lambda>page.
     Inr (wire_to_json (de_json D) HistoryPage_record page))"

section \<open>Exact answers\<close>

definition answer_page_bytes :: nat where
  "answer_page_bytes = 32 * 1024"

definition locate_answer :: "'j display_env \<Rightarrow> 'j agent_input_state \<Rightarrow> 'j wire_value option list \<Rightarrow> 'j agent_loop_step result" where
  "locate_answer D state locator =
     (let turn = integer_or 0 (member_at AnswerSource_record locator ''turn''); step = integer_or 0 (member_at AnswerSource_record locator ''step'') in
      if turn \<ge> length (st_turns state) \<or> step \<ge> length (us_agent_loop_step (st_turns state ! turn)) then
        Inl (InvalidArgument ''answer source expired after state replacement'')
      else
        let committed = us_agent_loop_step (st_turns state ! turn) ! step in
        if text_of (member_at AnswerSource_record locator ''commit_sequence'') \<noteq> to_string (as_commit_sequence committed)
           \<or> as_commit_sequence committed = 0 then
          Inl (InvalidArgument ''answer commit identity does not match'')
        else
          and_then (fingerprint D (as_model_response committed)) (\<lambda>print.
          if text_of (member_at AnswerSource_record locator ''fingerprint'') \<noteq> print then
            Inl (InvalidArgument ''answer content changed; refresh history before reading it'')
          else Inr committed))"

definition answer_cursor :: "nat \<Rightarrow> nat result" where
  "answer_cursor value =
     (if value > size_max then Inl (InvalidArgument ''answer cursor must be a nonnegative safe integer'') else Inr value)"

definition answer_segment ::
  "'j json_lib \<Rightarrow> string \<Rightarrow> 'j wire_value option list \<Rightarrow> 'j content list \<Rightarrow> nat \<Rightarrow> nat \<Rightarrow> 'j wire_value option list result" where
  "answer_segment J request_id locator parts part_index offset =
     (if part_index \<ge> length parts then Inl (InvalidArgument ''answer part is unavailable'')
      else
        let part = parts ! part_index; raw = cn_raw part in
        if cn_type part = BinaryContent then Inl (InvalidArgument ''binary answer content is not available as text'')
        else if offset > length raw \<or> (offset < length raw \<and> continuation_byte (raw ! offset)) then
          Inl (InvalidArgument ''answer offset is outside a UTF-8 boundary'')
        else
          let stop = code_point_end raw offset (offset + min answer_page_bytes (length raw - offset));
              finished = (stop = length raw) in
          Inr (record_with J AnswerPage_record
            [(''request_id'', Some (VText request_id)), (''source'', Some (VRecord locator)), (''part'', Some (VInteger part_index)),
             (''offset'', Some (VInteger offset)), (''next_offset'', Some (VInteger stop)), (''bytes'', Some (VInteger (length raw))),
             (''total_parts'', Some (VInteger (length parts))),
             (''next_part'', Some (VInteger (if finished then part_index + 1 else part_index))),
             (''done'', Some (VBoolean (finished \<and> part_index + 1 = length parts))),
             (''type'', Some (VEnum (wire_content_type (cn_type part)))), (''modality'', Some (VEnum (wire_modality (cn_modality part)))),
             (''raw'', Some (VText (substr raw offset (stop - offset))))]))"

definition answer_page :: "'j display_env \<Rightarrow> 'j agent_input_state \<Rightarrow> 'j \<Rightarrow> string \<Rightarrow> 'j result" where
  "answer_page D state query worker_id =
     and_then (refused (wire_from_json (de_wire D) PayloadRequest_record query [])) (\<lambda>request.
     let request_id = text_of (member_at PayloadRequest_record request ''request_id'') in
     if text_of (member_at PayloadRequest_record request ''operation'') \<noteq> ''answer'' then Inl (InvalidArgument ''expected answer query'')
     else if request_id = [] \<or> length request_id > 128 then Inl (InvalidArgument ''invalid request_id'')
     else case member_at PayloadRequest_record request ''source'' of
       None \<Rightarrow> Inl (InvalidArgument ''answer source is unavailable in this worker'')
     | Some v \<Rightarrow>
         let locator = record_members v in
         if text_of (member_at AnswerSource_record locator ''worker_id'') \<noteq> worker_id then
           Inl (InvalidArgument ''answer source is unavailable in this worker'')
         else
           and_then (locate_answer D state locator) (\<lambda>committed.
           and_then (answer_cursor (integer_or 0 (member_at PayloadRequest_record request ''part''))) (\<lambda>part_index.
           and_then (answer_cursor (integer_or 0 (member_at PayloadRequest_record request ''offset''))) (\<lambda>offset.
           and_then (answer_segment (de_json D) request_id locator (mi_content (as_model_response committed)) part_index offset) (\<lambda>page.
           Inr (wire_to_json (de_json D) AnswerPage_record page))))))"

section \<open>Code point boundaries\<close>

lemma code_point_end_bounds: "low \<le> n \<Longrightarrow> low \<le> code_point_end s low n \<and> code_point_end s low n \<le> n"
proof (induction s low n rule: code_point_end.induct)
  case (1 s low n)
  show ?case
  proof (cases "n > low \<and> n < length s \<and> continuation_byte (s ! n)")
    case True
    then have "low \<le> n - 1" by linarith
    from "1.IH" [OF True this] True show ?thesis by (auto simp: code_point_end.simps [of s low n])
  qed (use 1 in \<open>auto simp: code_point_end.simps [of s low n]\<close>)
qed

lemma code_point_end_boundary:
  "low \<le> n \<Longrightarrow> n \<le> length s \<Longrightarrow> code_point_end s low n = low \<or> code_point_end s low n = length s \<or>
     \<not> continuation_byte (s ! code_point_end s low n)"
proof (induction s low n rule: code_point_end.induct)
  case (1 s low n)
  show ?case
  proof (cases "n > low \<and> n < length s \<and> continuation_byte (s ! n)")
    case True
    then have "low \<le> n - 1" "n - 1 \<le> length s" by linarith+
    from "1.IH" [OF True this] True show ?thesis by (simp add: code_point_end.simps [of s low n])
  qed (use 1 in \<open>auto simp: code_point_end.simps [of s low n]\<close>)
qed

lemma code_point_end_least:
  "low < m \<Longrightarrow> m \<le> n \<Longrightarrow> n \<le> length s \<Longrightarrow> m = length s \<or> \<not> continuation_byte (s ! m) \<Longrightarrow> m \<le> code_point_end s low n"
proof (induction s low n rule: code_point_end.induct)
  case (1 s low n)
  show ?case
  proof (cases "n > low \<and> n < length s \<and> continuation_byte (s ! n)")
    case True
    with 1 have "m \<noteq> n" by auto
    with "1.prems" have "m \<le> n - 1" "n - 1 \<le> length s" by linarith+
    from "1.IH" [OF True "1.prems"(1) this "1.prems"(4)] True show ?thesis by (simp add: code_point_end.simps [of s low n])
  qed (use 1 in \<open>auto simp: code_point_end.simps [of s low n]\<close>)
qed

text \<open>Text in which a code point has at most three continuation bytes, as in UTF-8.\<close>

definition short_code_points :: "string \<Rightarrow> bool" where
  "short_code_points s \<longleftrightarrow> (\<forall>i < length s - 3. \<exists>j < 4. \<not> continuation_byte (s ! (i + j)))"

lemma next_boundary:
  assumes "short_code_points s" "low < n" "n \<le> length s" "n = length s \<or> low + 4 \<le> n"
  shows "low < code_point_end s low n"
proof (cases "n = length s")
  case True
  with assms(2) code_point_end_least [of low n n s] show ?thesis by simp
next
  case False
  with assms have "low + 1 < length s - 3" "low + 4 \<le> n" by auto
  with assms(1) obtain j where "j < 4" "\<not> continuation_byte (s ! (low + 1 + j))" unfolding short_code_points_def by blast
  with \<open>low + 4 \<le> n\<close> assms(3) code_point_end_least [of low "low + 1 + j" n s] show ?thesis by simp
qed

section \<open>Reading an answer page by page\<close>

text \<open>A client that asks for one part of an answer, page after page, over the wire.\<close>

definition answer_query :: "'j json_lib \<Rightarrow> string \<Rightarrow> 'j wire_value option list \<Rightarrow> nat \<Rightarrow> nat \<Rightarrow> 'j wire_value option list" where
  "answer_query J request_id locator part offset =
     record_with J PayloadRequest_record
       [(''operation'', Some (VEnum ''answer'')), (''request_id'', Some (VText request_id)), (''source'', Some (VRecord locator)),
        (''part'', Some (VInteger part)), (''offset'', Some (VInteger offset))]"

fun fetch_part :: "'j display_env \<Rightarrow> 'j agent_input_state \<Rightarrow> string \<Rightarrow> string \<Rightarrow> 'j wire_value option list \<Rightarrow> nat \<Rightarrow> nat \<Rightarrow> nat \<Rightarrow> string option" where
  "fetch_part D state worker_id request_id locator part offset 0 = None"
| "fetch_part D state worker_id request_id locator part offset (Suc fuel) =
     (case answer_page D state (wire_to_json (de_json D) PayloadRequest_record (answer_query (de_json D) request_id locator part offset)) worker_id of
        Inl _ \<Rightarrow> None
      | Inr j \<Rightarrow>
          (case wire_from_json (de_wire D) AnswerPage_record j [] of
             Inl _ \<Rightarrow> None
           | Inr page \<Rightarrow>
               let raw = text_of (member_at AnswerPage_record page ''raw'') in
               if integer_or 0 (member_at AnswerPage_record page ''next_part'') \<noteq> part then Some raw
               else map_option ((@) raw)
                 (fetch_part D state worker_id request_id locator part (integer_or 0 (member_at AnswerPage_record page ''next_offset'')) fuel)))"

lemma answer_query_members: "answer_query J request_id locator part offset =
    [Some (VEnum ''answer''), Some (VText request_id), None, None, None, None, None, Some (VRecord locator), Some (VInteger part), Some (VInteger offset)]"
  by (simp add: answer_query_def PayloadRequest_record_def member_defs)

definition locator_members :: "string \<Rightarrow> nat \<Rightarrow> nat \<Rightarrow> nat \<Rightarrow> string \<Rightarrow> 'j wire_value option list" where
  "locator_members worker_id turn step sequence print =
     [Some (VText worker_id), Some (VInteger turn), Some (VInteger step), Some (VText (to_string sequence)), Some (VText print)]"

lemma answer_locator_members:
  "answer_locator D response turn step worker_id =
     and_then (fingerprint D (as_model_response response)) (\<lambda>print. Inr (locator_members worker_id turn step (as_commit_sequence response) print))"
  by (simp add: answer_locator_def AnswerSource_record_def member_defs locator_members_def)

definition page_members :: "string \<Rightarrow> 'j wire_value option list \<Rightarrow> 'j content list \<Rightarrow> nat \<Rightarrow> nat \<Rightarrow> nat \<Rightarrow> 'j wire_value option list" where
  "page_members request_id locator parts part offset stop =
     [Some (VText request_id), Some (VRecord locator), Some (VInteger part), Some (VInteger offset),
      Some (VText (substr (cn_raw (parts ! part)) offset (stop - offset))), Some (VEnum (wire_content_type (cn_type (parts ! part)))),
      Some (VEnum (wire_modality (cn_modality (parts ! part)))), Some (VInteger (length (cn_raw (parts ! part)))), Some (VInteger stop),
      Some (VInteger (if stop = length (cn_raw (parts ! part)) then part + 1 else part)), Some (VInteger (length parts)),
      Some (VBoolean (stop = length (cn_raw (parts ! part)) \<and> part + 1 = length parts))]"

lemma answer_segment_members:
  assumes "part < length parts" "cn_type (parts ! part) \<noteq> BinaryContent" "offset \<le> length (cn_raw (parts ! part))"
    "offset = length (cn_raw (parts ! part)) \<or> \<not> continuation_byte (cn_raw (parts ! part) ! offset)"
  shows "answer_segment J request_id locator parts part offset = Inr (page_members request_id locator parts part offset
    (code_point_end (cn_raw (parts ! part)) offset (offset + min answer_page_bytes (length (cn_raw (parts ! part)) - offset))))"
  using assms by (auto simp: answer_segment_def Let_def AnswerPage_record_def member_defs page_members_def)

context wire_laws
begin

lemma locator_conforms:
  "turn \<le> size_max \<Longrightarrow> step \<le> size_max \<Longrightarrow> record_ok W AnswerSource_record (locator_members worker_id turn step sequence print)"
  by (simp add: locator_members_def AnswerSource_record_def field_defs is_required_def Let_def string_kind number_not_null plain_fits
    rules_hold_def nothing_ignored_def check_expected_def)

lemma encoded_record_not_null: "\<not> js_is_null (jw_json W) (encode_one (jw_json W) (WRecord r) (VRecord members))"
proof -
  obtain n fs u fb rs ex where "r = WireRecord n fs u fb rs ex" by (cases r)
  then show ?thesis by (simp add: object_not_null encode_fields_object object_kind)
qed

lemma answer_query_conforms:
  assumes "record_ok W AnswerSource_record locator" "part \<le> size_max" "offset \<le> size_max"
  shows "record_ok W PayloadRequest_record (answer_query (jw_json W) request_id locator part offset)"
  using assms encoded_record_not_null [of AnswerSource_record locator]
  by (simp add: answer_query_members PayloadRequest_record_def field_defs is_required_def Let_def string_kind number_not_null plain_fits
      InputOperation_spellings_def rules_hold_def nothing_ignored_def rule_matches_def field_present_def payload_rules_def operation_rule_def
      check_expected_def)

lemma page_conforms:
  assumes "record_ok W AnswerSource_record locator" "part < length parts" "length parts \<le> size_max" "offset \<le> size_max" "stop \<le> size_max"
    "length (cn_raw (parts ! part)) \<le> size_max"
  shows "record_ok W AnswerPage_record (page_members request_id locator parts part offset stop)"
  using assms encoded_record_not_null [of AnswerSource_record locator]
  by (simp add: page_members_def AnswerPage_record_def field_defs is_required_def Let_def string_kind number_not_null bool_not_null plain_fits spelled
      rules_hold_def nothing_ignored_def check_expected_def)

end

text \<open>The state has the answer the locator names.\<close>

definition committed_at :: "'j agent_input_state \<Rightarrow> nat \<Rightarrow> nat \<Rightarrow> 'j agent_loop_step \<Rightarrow> bool" where
  "committed_at state turn step committed \<longleftrightarrow>
     turn < length (st_turns state) \<and> step < length (us_agent_loop_step (st_turns state ! turn)) \<and>
     us_agent_loop_step (st_turns state ! turn) ! step = committed \<and> as_commit_sequence committed \<noteq> 0"

lemma located:
  assumes "committed_at state turn step committed" "fingerprint D (as_model_response committed) = Inr print"
  shows "locate_answer D state (locator_members worker_id turn step (as_commit_sequence committed) print) = Inr committed"
  using assms
  by (auto simp: locate_answer_def committed_at_def locator_members_def member_at_def AnswerSource_record_def field_defs Let_def)

lemma answer_page_read:
  assumes "wire_laws (de_wire D)" "request_id \<noteq> []" "length request_id \<le> 128"
    and committed: "committed_at state turn step committed" "fingerprint D (as_model_response committed) = Inr print"
    and locator: "locator = locator_members worker_id turn step (as_commit_sequence committed) print"
    and parts: "parts = mi_content (as_model_response committed)" "part < length parts" "cn_type (parts ! part) \<noteq> BinaryContent"
    and raw: "raw = cn_raw (parts ! part)" "offset \<le> length raw" "offset = length raw \<or> \<not> continuation_byte (raw ! offset)"
    and sizes: "turn \<le> size_max" "step \<le> size_max" "length parts \<le> size_max" "length raw \<le> size_max"
  shows "\<exists>j. answer_page D state (wire_to_json (de_json D) PayloadRequest_record (answer_query (de_json D) request_id locator part offset)) worker_id = Inr j \<and>
    wire_from_json (de_wire D) AnswerPage_record j [] =
      Inr (page_members request_id locator parts part offset (code_point_end raw offset (offset + min answer_page_bytes (length raw - offset))))"
proof -
  let ?W = "de_wire D" and ?J = "de_json D"
  let ?query = "answer_query ?J request_id locator part offset"
  let ?stop = "code_point_end raw offset (offset + min answer_page_bytes (length raw - offset))"
  let ?page = "page_members request_id locator parts part offset ?stop"
  have locator_ok: "record_ok ?W AnswerSource_record locator"
    unfolding locator using sizes by (intro wire_laws.locator_conforms [OF assms(1)])
  have stop: "?stop \<le> size_max"
    using code_point_end_bounds [of offset "offset + min answer_page_bytes (length raw - offset)" raw] raw sizes by linarith
  have "wire_from_json ?W PayloadRequest_record (wire_to_json ?J PayloadRequest_record ?query) [] = Inr ?query"
    by (rule published_roundtrip [OF assms(1) _ wire_laws.answer_query_conforms [OF assms(1) locator_ok]])
      (use parts raw sizes in \<open>auto simp: wire_records_def\<close>)
  moreover have "locate_answer D state locator = Inr committed" unfolding locator by (rule located [OF committed])
  moreover have "answer_segment ?J request_id locator parts part offset = Inr ?page"
    using answer_segment_members [of part parts offset ?J request_id locator] parts raw by simp
  moreover have "offset \<le> size_max" "part \<le> size_max" using raw parts sizes by linarith+
  ultimately have "answer_page D state (wire_to_json ?J PayloadRequest_record ?query) worker_id = Inr (wire_to_json ?J AnswerPage_record ?page)"
    using assms(2, 3) parts(1) locator
    by (simp add: answer_page_def refused_def answer_query_members member_at_def PayloadRequest_record_def AnswerSource_record_def field_defs
      locator_members_def answer_cursor_def Let_def)
  moreover have "wire_from_json ?W AnswerPage_record (wire_to_json ?J AnswerPage_record ?page) [] = Inr ?page"
    by (rule published_roundtrip [OF assms(1) _ wire_laws.page_conforms [OF assms(1) locator_ok]])
      (use parts raw sizes stop in \<open>auto simp: wire_records_def\<close>)
  ultimately show ?thesis by blast
qed

lemma page_projections:
  "text_of (member_at AnswerPage_record (page_members request_id locator parts part offset stop) ''raw'') = substr (cn_raw (parts ! part)) offset (stop - offset)"
  "integer_or 0 (member_at AnswerPage_record (page_members request_id locator parts part offset stop) ''next_part'') =
     (if stop = length (cn_raw (parts ! part)) then part + 1 else part)"
  "integer_or 0 (member_at AnswerPage_record (page_members request_id locator parts part offset stop) ''next_offset'') = stop"
  by (simp_all add: page_members_def member_at_def AnswerPage_record_def field_defs)

lemma fetch_rest:
  assumes "wire_laws (de_wire D)" "request_id \<noteq> []" "length request_id \<le> 128"
    and committed: "committed_at state turn step committed" "fingerprint D (as_model_response committed) = Inr print"
    and locator: "locator = locator_members worker_id turn step (as_commit_sequence committed) print"
    and parts: "parts = mi_content (as_model_response committed)" "part < length parts" "cn_type (parts ! part) \<noteq> BinaryContent"
    and raw: "raw = cn_raw (parts ! part)" "short_code_points raw"
    and sizes: "turn \<le> size_max" "step \<le> size_max" "length parts \<le> size_max" "length raw \<le> size_max"
    and offset: "offset \<le> length raw" "offset = length raw \<or> \<not> continuation_byte (raw ! offset)" "length raw - offset < fuel"
  shows "fetch_part D state worker_id request_id locator part offset fuel = Some (drop offset raw)"
  using offset
proof (induction fuel arbitrary: offset)
  case (Suc fuel)
  define limit where "limit = offset + min answer_page_bytes (length raw - offset)"
  define stop where "stop = code_point_end raw offset limit"
  obtain j where page: "answer_page D state (wire_to_json (de_json D) PayloadRequest_record (answer_query (de_json D) request_id locator part offset)) worker_id = Inr j"
    "wire_from_json (de_wire D) AnswerPage_record j [] = Inr (page_members request_id locator parts part offset stop)"
    using answer_page_read [OF assms(1-3) committed locator parts raw(1) Suc.prems(1, 2) sizes] unfolding stop_def limit_def by blast
  have limit: "offset \<le> limit" "limit \<le> length raw" using Suc.prems(1) by (simp_all add: limit_def)
  have stop: "offset \<le> stop" "stop \<le> limit" using code_point_end_bounds [OF limit(1), of raw] by (simp_all add: stop_def)
  show ?case
  proof (cases "stop = length raw")
    case True
    then have "substr raw offset (stop - offset) = drop offset raw" by (simp add: substr_def)
    with True page show ?thesis by (simp add: page_projections raw(1) [symmetric])
  next
    case False
    have "offset < limit" using False stop limit Suc.prems(1) by (auto simp: limit_def answer_page_bytes_def)
    moreover have "limit = length raw \<or> offset + 4 \<le> limit" using Suc.prems(1) by (auto simp: limit_def answer_page_bytes_def)
    ultimately have progress: "offset < stop" using next_boundary [OF raw(2) _ limit(2), of offset] by (simp add: stop_def)
    have "\<not> continuation_byte (raw ! stop)"
      using code_point_end_boundary [OF limit, folded stop_def] False progress by auto
    with progress stop limit Suc.prems(3) have "fetch_part D state worker_id request_id locator part stop fuel = Some (drop stop raw)"
      by (intro Suc.IH) auto
    moreover have "substr raw offset (stop - offset) @ drop stop raw = drop offset raw"
      using stop by (metis append_take_drop_id drop_drop le_add_diff_inverse2 substr_def)
    ultimately show ?thesis using False page by (simp add: page_projections raw(1) [symmetric])
  qed
qed simp

text \<open>
  C28. Exact answers: a client that reads one textual part of a committed response page by page, following the
  cursor of each reply over the wire, always gets a next page, stops after at most as many pages as the part has
  bytes, and ends with exactly the bytes of the part, provided no code point is longer than UTF-8 allows.
\<close>

theorem answer_pages_exact:
  assumes "wire_laws (de_wire D)" "request_id \<noteq> []" "length request_id \<le> 128"
    and "committed_at state turn step committed" "answer_locator D committed turn step worker_id = Inr locator"
    and "parts = mi_content (as_model_response committed)" "part < length parts" "cn_type (parts ! part) \<noteq> BinaryContent"
    and "raw = cn_raw (parts ! part)" "short_code_points raw" "raw = [] \<or> \<not> continuation_byte (raw ! 0)"
    and "turn \<le> size_max" "step \<le> size_max" "length parts \<le> size_max" "length raw \<le> size_max" "length raw < fuel"
  shows "fetch_part D state worker_id request_id locator part 0 fuel = Some raw"
proof -
  from assms(5) obtain print where print: "fingerprint D (as_model_response committed) = Inr print"
    and locator: "locator = locator_members worker_id turn step (as_commit_sequence committed) print"
    by (auto simp: answer_locator_members and_then_eq_Inr)
  from fetch_rest [OF assms(1-4) print locator assms(6-10) assms(12-15), of 0 fuel] assms(11, 16) show ?thesis by auto
qed

section \<open>Examples of answers\<close>

definition answer_env :: "json display_env" where
  "answer_env = \<lparr>de_wire = json_wire_values, de_dump = (\<lambda>_. Inr ''{}''), de_primitive = (\<lambda>_. True), de_erase = (\<lambda>_ j. j), de_hash = (\<lambda>_. Inr ''h'')\<rparr>"

definition answer_step :: "json agent_loop_step" where
  "answer_step = default_agent_step\<lparr>as_commit_sequence := 7,
     as_model_response := default_message\<lparr>mi_content := [default_content\<lparr>cn_raw := ''an answer''\<rparr>]\<rparr>\<rparr>"

definition answer_state :: "json agent_input_state \<Rightarrow> json agent_input_state" where
  "answer_state s = s\<lparr>st_turns := [default_user_step\<lparr>us_agent_loop_step := [answer_step]\<rparr>]\<rparr>"

lemma ascii_code_points: "\<forall>c \<in> set s. \<not> continuation_byte c \<Longrightarrow> short_code_points s"
  unfolding short_code_points_def by (metis add.right_neutral diff_le_self less_le_trans nth_mem zero_less_numeral)

theorem answer_pages_exact_witness:
  "\<exists>locator state. fetch_part answer_env (answer_state state) ''w'' ''q'' locator 0 0 10 = Some ''an answer''"
proof -
  let ?locator = "locator_members ''w'' 0 0 7 (hex_text ''h'')"
  have locator: "answer_locator answer_env answer_step 0 0 ''w'' = Inr ?locator"
    by (simp add: answer_locator_members answer_step_def fingerprint_def answer_env_def)
  have ascii: "\<forall>c \<in> set ''an answer''. \<not> continuation_byte c" by (simp add: continuation_byte_def)
  have raw: "short_code_points ''an answer''" by (rule ascii_code_points [OF ascii])
  have "fetch_part answer_env (answer_state state) ''w'' ''q'' ?locator 0 0 10 = Some ''an answer''" for state
    by (rule answer_pages_exact [of answer_env "''q''" "answer_state state" 0 0 answer_step "''w''" ?locator "mi_content (as_model_response answer_step)" 0])
      (use locator raw ascii in \<open>simp_all add: answer_env_def json_wire_values.wire_laws_axioms committed_at_def answer_state_def answer_step_def
        default_content_def size_max_def\<close>)
  then show ?thesis by blast
qed

section \<open>The history cursor\<close>

definition turn_index :: "'j wire_value option list \<Rightarrow> nat" where
  "turn_index t = integer_or 0 (member_at HistoryTurn_record t ''index'')"

definition step_index :: "'j wire_value option list \<Rightarrow> nat" where
  "step_index s = integer_or 0 (member_at HistoryStep_record s ''index'')"

definition shown_steps :: "'j wire_value option list list \<Rightarrow> (nat \<times> nat) list" where
  "shown_steps turns = concat (map (\<lambda>t. map (\<lambda>s. (turn_index t, step_index s)) (records_of (member_at HistoryTurn_record t ''steps''))) turns)"

text \<open>All steps from a cursor on, in order.\<close>

definition steps_from :: "'j user_loop_step list \<Rightarrow> nat \<Rightarrow> nat \<Rightarrow> (nat \<times> nat) list" where
  "steps_from turns start step =
     concat (map (\<lambda>i. map (Pair i) [(if i = start then step else 0)..<length (us_agent_loop_step (turns ! i))]) [start..<length turns])"

lemma steps_from_split:
  assumes "i < length turns"
  shows "steps_from turns i step = map (Pair i) [step..<length (us_agent_loop_step (turns ! i))] @ steps_from turns (Suc i) 0"
proof -
  have "concat (map (\<lambda>j. map (Pair j) [(if j = i then step else 0)..<length (us_agent_loop_step (turns ! j))]) [Suc i..<length turns]) =
      steps_from turns (Suc i) 0"
    unfolding steps_from_def by (intro arg_cong [where f = concat] map_cong) auto
  with assms show ?thesis by (simp add: steps_from_def upt_conv_Cons)
qed

lemma steps_from_cut:
  assumes "i < length turns" "step \<le> j" "j \<le> length (us_agent_loop_step (turns ! i))"
  shows "steps_from turns i step = map (Pair i) [step..<j] @ steps_from turns i j"
proof -
  let ?n = "length (us_agent_loop_step (turns ! i))"
  have "[step..<?n] = [step..<j] @ [j..<?n]" using upt_add_eq_append [of step j "?n - j"] assms by simp
  with assms(1) show ?thesis by (simp add: steps_from_split)
qed

lemma steps_from_past: "length turns \<le> i \<Longrightarrow> steps_from turns i step = []"
  by (simp add: steps_from_def)

lemma project_step_index:
  assumes "project_step D committed turn index worker_id = Inr step"
  shows "step_index step = index"
  using assms
  by (auto simp: project_step_def display_step_def and_then_eq_Inr step_index_def member_at_def HistoryStep_record_def member_defs split: if_splits)

lemma project_turn_index:
  assumes "project_turn D turn index first_step = Inr projected"
  shows "length projected = 7" "turn_index (fold (set_member HistoryTurn_record) [(''steps'', Some (VVector (map VRecord steps))), (''omitted_steps'', m)] projected) = index"
    "records_of (member_at HistoryTurn_record
      (fold (set_member HistoryTurn_record) [(''steps'', Some (VVector (map VRecord steps))), (''omitted_steps'', m)] projected) ''steps'') = steps"
  using assms
  by (auto simp: project_turn_def and_then_eq_Inr Let_def turn_index_def member_at_def HistoryTurn_record_def member_defs comp_def split: if_splits)

lemma step_scan_indices:
  assumes "step_scan D turn worker_id used turn_bytes rest index steps = Inr (result, bytes, stop)"
  shows "\<exists>new. result = steps @ new \<and> map step_index new = [index..<stop] \<and> index \<le> stop \<and> stop \<le> index + length rest"
  using assms
proof (induction rest arbitrary: turn_bytes index steps)
  case Nil
  then show ?case by simp
next
  case (Cons committed rest)
  from Cons.prems obtain step size where step: "project_step D committed turn index worker_id = Inr step"
    and size: "encoded_size D (wire_to_json (de_json D) HistoryStep_record step) = Inr size"
    by (auto simp: and_then_eq_Inr)
  let ?bytes = "size + (if steps = [] then 0 else 1)"
  show ?case
  proof (cases "used + turn_bytes + ?bytes > history_page_max_bytes")
    case True
    with Cons.prems step size show ?thesis by (simp add: Let_def split: if_splits)
  next
    case False
    with Cons.prems step size have "step_scan D turn worker_id used (turn_bytes + ?bytes) rest (index + 1) (steps @ [step]) = Inr (result, bytes, stop)"
      by (simp add: Let_def)
    from Cons.IH [OF this] obtain new where new: "result = (steps @ [step]) @ new" "map step_index new = [index + 1..<stop]"
      "index + 1 \<le> stop" "stop \<le> index + 1 + length rest" by blast
    then have "map step_index (step # new) = [index..<stop]" using project_step_index [OF step] by (simp add: upt_conv_Cons)
    with new show ?thesis by (intro exI [of _ "step # new"]) simp
  qed
qed

lemma turn_scan_steps:
  assumes "turn_scan D start request_step worker_id (map (\<lambda>i. (i, turns ! i)) [i..<last_turn]) acc page_bytes i = Inr (result, next_turn, next_step)"
    and "start \<le> i" "i \<le> last_turn" "last_turn \<le> length turns" "acc = [] \<longleftrightarrow> i = start"
  shows "\<exists>new. result = acc @ new \<and> i \<le> next_turn \<and> next_turn \<le> length turns \<and>
    (i < last_turn \<longrightarrow> shown_steps new @ steps_from turns next_turn next_step = steps_from turns i (if i = start then request_step else 0)) \<and>
    (i = last_turn \<longrightarrow> new = [] \<and> next_turn = i \<and> next_step = 0) \<and>
    (next_step \<noteq> 0 \<longrightarrow> next_turn < length turns \<and> next_step < length (us_agent_loop_step (turns ! next_turn))) \<and>
    (acc = [] \<and> i < last_turn \<longrightarrow> i < next_turn \<or> next_turn = i \<and> request_step < next_step)"
  using assms
proof (induction "last_turn - i" arbitrary: i acc page_bytes)
  case 0
  then show ?case by auto
next
  case (Suc n)
  then have i: "i < last_turn" "[i..<last_turn] = i # [Suc i..<last_turn]" by (simp_all add: upt_conv_Cons)
  let ?turn = "turns ! i"
  let ?first = "if i = start then request_step else 0"
  let ?total = "length (us_agent_loop_step ?turn)"
  let ?separator = "if acc = [] then 0 else 1"
  have first: "?first \<le> ?total" using Suc.prems(1) by (auto simp: i(2) Let_def split: if_splits)
  obtain projected where projected: "project_turn D ?turn i ?first = Inr projected"
    using Suc.prems(1) first by (cases "project_turn D ?turn i ?first") (auto simp: i(2) Let_def)
  obtain turn_bytes where turn_bytes: "encoded_size D (wire_to_json (de_json D) HistoryTurn_record projected) = Inr turn_bytes"
    using Suc.prems(1) first projected by (cases "encoded_size D (wire_to_json (de_json D) HistoryTurn_record projected)") (auto simp: i(2) Let_def)
  note known = i(2) first projected turn_bytes
  have stopped: ?case if "acc \<noteq> []" "result = acc" "next_turn = i" "next_step = 0"
    using that Suc.prems i by (intro exI [of _ "[]"]) (auto simp: shown_steps_def)
  show ?case
  proof (cases "page_bytes + ?separator + turn_bytes > history_page_max_bytes")
    case True
    with Suc.prems(1) first have "acc \<noteq> [] \<and> result = acc \<and> next_turn = i \<and> next_step = 0"
      by (simp add: i(2) projected turn_bytes Let_def split: if_splits)
    with stopped show ?thesis by blast
  next
    case room: False
    let ?scan = "step_scan D i worker_id (page_bytes + ?separator) turn_bytes (drop ?first (us_agent_loop_step ?turn)) ?first []"
    obtain steps used_bytes stop where scan: "?scan = Inr (steps, used_bytes, stop)"
      using Suc.prems(1) first room by (cases ?scan) (auto simp: i(2) projected turn_bytes Let_def)
    from step_scan_indices [OF scan] first have steps: "map step_index steps = [?first..<stop]" "?first \<le> stop" "stop \<le> ?total" by auto
    let ?shown = "fold (set_member HistoryTurn_record)
      [(''steps'', Some (VVector (map VRecord steps))), (''omitted_steps'', Some (VInteger (?total - stop)))] projected"
    have "shown_steps [?shown] = map (Pair i) [?first..<stop]"
      using steps(1) [symmetric] by (simp add: shown_steps_def project_turn_index(2, 3) [OF projected, simplified] comp_def)
    then have cut: "shown_steps [?shown] @ steps_from turns i stop = steps_from turns i ?first"
      using steps_from_cut [of i turns ?first stop] steps i Suc.prems by simp
    show ?thesis
    proof (cases "stop = ?first \<and> stop < ?total")
      case True
      with Suc.prems(1) first room scan have "acc \<noteq> [] \<and> result = acc \<and> next_turn = i \<and> next_step = 0"
        by (simp add: i(2) projected turn_bytes Let_def split: if_splits)
      with stopped show ?thesis by blast
    next
      case some: False
      show ?thesis
      proof (cases "stop < ?total")
        case True
        with Suc.prems(1) first room scan some have "result = acc @ [?shown] \<and> next_turn = i \<and> next_step = stop"
          by (simp add: i(2) projected turn_bytes Let_def split: if_splits)
        with cut some True steps i Suc.prems show ?thesis by (intro exI [of _ "[?shown]"]) auto
      next
        case False
        with steps have stop: "stop = ?total" by simp
        have rest: "turn_scan D start request_step worker_id (map (\<lambda>i. (i, turns ! i)) [Suc i..<last_turn]) (acc @ [?shown])
            (page_bytes + ?separator + used_bytes) (Suc i) = Inr (result, next_turn, next_step)"
          using Suc.prems(1) first room scan some False by (simp add: i(2) projected turn_bytes Let_def split: if_splits)
        have "n = last_turn - Suc i" "start \<le> Suc i" "Suc i \<le> last_turn" "acc @ [?shown] = [] \<longleftrightarrow> Suc i = start"
          using Suc.hyps(2) Suc.prems(2) i by auto
        from Suc.hyps(1) [OF this(1) rest this(2, 3) Suc.prems(4) this(4)] Suc.prems(2)
        obtain new where new: "result = (acc @ [?shown]) @ new" "Suc i \<le> next_turn" "next_turn \<le> length turns"
          "Suc i < last_turn \<longrightarrow> shown_steps new @ steps_from turns next_turn next_step = steps_from turns (Suc i) 0"
          "Suc i = last_turn \<longrightarrow> new = [] \<and> next_turn = Suc i \<and> next_step = 0"
          "next_step \<noteq> 0 \<longrightarrow> next_turn < length turns \<and> next_step < length (us_agent_loop_step (turns ! next_turn))" by (auto simp del: fold_simps)
        have tail: "shown_steps new @ steps_from turns next_turn next_step = steps_from turns (Suc i) 0"
          using new(4, 5) i by (cases "Suc i = last_turn") (auto simp: shown_steps_def)
        have "steps_from turns i stop = steps_from turns (Suc i) 0" using steps_from_split [of i turns stop] i Suc.prems by (simp add: stop)
        with cut tail have "shown_steps (?shown # new) @ steps_from turns next_turn next_step = steps_from turns i ?first"
          by (simp add: shown_steps_def)
        with new i show ?thesis by (intro exI [of _ "?shown # new"]) auto
      qed
    qed
  qed
qed

text \<open>A client that follows the cursor until the turns are exhausted.\<close>

fun fetch_history ::
  "'j display_env \<Rightarrow> 'j agent_input_state \<Rightarrow> nat \<Rightarrow> string \<Rightarrow> string \<Rightarrow> nat \<Rightarrow> nat \<Rightarrow> nat \<Rightarrow> nat \<Rightarrow> (nat \<times> nat) list result option" where
  "fetch_history D state revision worker_id request_id limit start step 0 = None"
| "fetch_history D state revision worker_id request_id limit start step (Suc fuel) =
     (case history_page_record D state \<lparr>hr_request_id = request_id, hr_start = start, hr_step = step, hr_limit = limit\<rparr> revision worker_id of
        Inl e \<Rightarrow> Some (Inl e)
      | Inr page \<Rightarrow>
          let shown = shown_steps (records_of (member_at HistoryPage_record page ''turns''));
              next_turn = integer_or 0 (member_at HistoryPage_record page ''next'');
              next_step = integer_or 0 (member_at HistoryPage_record page ''next_step'') in
          if next_turn \<ge> integer_or 0 (member_at HistoryPage_record page ''total'') then Some (Inr shown)
          else map_option (\<lambda>rest. and_then rest (\<lambda>later. Inr (shown @ later)))
            (fetch_history D state revision worker_id request_id limit next_turn next_step fuel))"

lemma history_page_steps:
  assumes page: "history_page_record D state request revision worker_id = Inr page" and "0 < hr_limit request"
  defines "turns \<equiv> st_turns state"
  obtains shown next_turn next_step where "records_of (member_at HistoryPage_record page ''turns'') = shown"
    "integer_or 0 (member_at HistoryPage_record page ''next'') = next_turn" "integer_or 0 (member_at HistoryPage_record page ''next_step'') = next_step"
    "integer_or 0 (member_at HistoryPage_record page ''total'') = length turns"
    "shown_steps shown @ steps_from turns next_turn next_step = steps_from turns (hr_start request) (hr_step request)"
    "next_turn \<le> length turns" "hr_start request < length turns \<longrightarrow>
       hr_start request < next_turn \<or> next_turn = hr_start request \<and> hr_step request < next_step \<and> next_step < length (us_agent_loop_step (turns ! next_turn))"
    "length turns \<le> hr_start request \<longrightarrow> next_turn = length turns"
proof -
  let ?start = "min (hr_start request) (length turns)"
  let ?last = "?start + min (hr_limit request) (length turns - ?start)"
  from page obtain page_bytes shown next_turn next_step where
    scan: "turn_scan D ?start (hr_step request) worker_id (map (\<lambda>i. (i, turns ! i)) [?start..<?last]) [] page_bytes ?start = Inr (shown, next_turn, next_step)"
    and members: "page = [Some (VText (hr_request_id request)), Some (VInteger revision), Some (VInteger ?start), Some (VInteger (hr_step request)),
      Some (VInteger next_turn), Some (VInteger next_step), Some (VInteger (length turns)), Some (VVector (map VRecord shown))]"
    by (auto simp: history_page_record_def Let_def and_then_eq_Inr turns_def HistoryPage_record_def member_defs split: if_splits)
  from turn_scan_steps [OF scan] have steps: "?start \<le> next_turn" "next_turn \<le> length turns"
      "?start < ?last \<longrightarrow> shown_steps shown @ steps_from turns next_turn next_step = steps_from turns ?start (hr_step request)"
      "?start = ?last \<longrightarrow> shown = [] \<and> next_turn = ?start \<and> next_step = 0"
      "next_step \<noteq> 0 \<longrightarrow> next_turn < length turns \<and> next_step < length (us_agent_loop_step (turns ! next_turn))"
      "?start < ?last \<longrightarrow> ?start < next_turn \<or> next_turn = ?start \<and> hr_step request < next_step" by auto
  have "shown_steps shown @ steps_from turns next_turn next_step = steps_from turns (hr_start request) (hr_step request)"
  proof (cases "hr_start request < length turns")
    case True
    with assms(2) have "?start < ?last" "?start = hr_start request" by simp_all
    with steps(3) show ?thesis by simp
  next
    case False
    then have "?start = ?last" by simp
    with steps(4) False show ?thesis by (simp add: steps_from_past shown_steps_def)
  qed
  moreover have "hr_start request < length turns \<longrightarrow>
      hr_start request < next_turn \<or> next_turn = hr_start request \<and> hr_step request < next_step \<and> next_step < length (us_agent_loop_step (turns ! next_turn))"
    using steps(5, 6) assms(2) by auto
  moreover have "length turns \<le> hr_start request \<longrightarrow> next_turn = length turns" using steps(1, 2) by auto
  ultimately show thesis
    using steps(2) by (intro that [of shown next_turn next_step]) (simp_all add: members member_at_def HistoryPage_record_def field_defs comp_def)
qed

lemma fetch_history_steps:
  assumes "0 < limit"
  shows "(fetch_history D state revision worker_id request_id limit start step fuel = Some (Inr found) \<longrightarrow> found = steps_from (st_turns state) start step) \<and>
    (length (steps_from (st_turns state) start step) + (length (st_turns state) - start) < fuel \<longrightarrow>
       fetch_history D state revision worker_id request_id limit start step fuel \<noteq> None)"
proof (induction fuel arbitrary: start step found)
  case (Suc fuel)
  let ?turns = "st_turns state"
  let ?request = "\<lparr>hr_request_id = request_id, hr_start = start, hr_step = step, hr_limit = limit\<rparr>"
  show ?case
  proof (cases "history_page_record D state ?request revision worker_id")
    case (Inr page)
    from history_page_steps [OF Inr] assms obtain shown next_turn next_step where
      shown: "records_of (member_at HistoryPage_record page ''turns'') = shown"
      "integer_or 0 (member_at HistoryPage_record page ''next'') = next_turn" "integer_or 0 (member_at HistoryPage_record page ''next_step'') = next_step"
      "integer_or 0 (member_at HistoryPage_record page ''total'') = length ?turns"
      and steps: "shown_steps shown @ steps_from ?turns next_turn next_step = steps_from ?turns start step" "next_turn \<le> length ?turns"
      and progress: "start < length ?turns \<longrightarrow>
        start < next_turn \<or> next_turn = start \<and> step < next_step \<and> next_step < length (us_agent_loop_step (?turns ! next_turn))"
        "length ?turns \<le> start \<longrightarrow> next_turn = length ?turns"
      by auto
    show ?thesis
    proof (cases "next_turn = length ?turns")
      case True
      with steps(1) have "shown_steps shown = steps_from ?turns start step" by (simp add: steps_from_past)
      with True Inr shown show ?thesis by simp
    next
      case False
      with steps progress have more: "start < length ?turns" "next_turn < length ?turns" by (auto simp: not_less)
      have rest: "fetch_history D state revision worker_id request_id limit start step (Suc fuel) =
          map_option (\<lambda>rest. and_then rest (\<lambda>later. Inr (shown_steps shown @ later)))
            (fetch_history D state revision worker_id request_id limit next_turn next_step fuel)"
        using Inr shown more by simp
      have "length (steps_from ?turns next_turn next_step) + (length ?turns - next_turn) < length (steps_from ?turns start step) + (length ?turns - start)"
      proof (cases "start < next_turn")
        case True
        have "length (steps_from ?turns next_turn next_step) \<le> length (steps_from ?turns start step)" using steps(1) by (metis length_append le_add2)
        with True more show ?thesis by linarith
      next
        case False
        with progress more have "next_turn = start" "step < next_step" "next_step < length (us_agent_loop_step (?turns ! start))" by auto
        with more show ?thesis by (simp add: steps_from_split)
      qed
      moreover have "found = steps_from ?turns start step"
        if "fetch_history D state revision worker_id request_id limit start step (Suc fuel) = Some (Inr found)"
      proof -
        from that [unfolded rest] obtain later where "fetch_history D state revision worker_id request_id limit next_turn next_step fuel = Some (Inr later)"
          "found = shown_steps shown @ later" by (auto simp: and_then_eq_Inr)
        with Suc.IH [of next_turn next_step later] steps(1) show ?thesis by simp
      qed
      ultimately show ?thesis using Suc.IH [of next_turn next_step found] rest by auto
    qed
  qed simp
qed simp

text \<open>
  C29. The history cursor loses nothing and repeats nothing: a client that follows it from the beginning ends after a
  bounded number of pages, and unless a page is refused it has seen every step of every turn exactly once and in
  order, however the byte budget cuts the pages.
\<close>

theorem history_pages_cover:
  assumes "0 < limit" "length (steps_from (st_turns state) 0 0) + length (st_turns state) < fuel"
  shows "\<exists>r. fetch_history D state revision worker_id request_id limit 0 0 fuel = Some r \<and>
    (\<forall>found. r = Inr found \<longrightarrow> found = concat (map (\<lambda>i. map (Pair i) [0..<length (us_agent_loop_step (st_turns state ! i))]) [0..<length (st_turns state)]))"
proof -
  have all: "steps_from (st_turns state) 0 0 = concat (map (\<lambda>i. map (Pair i) [0..<length (us_agent_loop_step (st_turns state ! i))]) [0..<length (st_turns state)])"
    by (simp add: steps_from_def cong: if_cong)
  from fetch_history_steps [OF assms(1), of D state revision worker_id request_id 0 0 fuel] assms(2)
  obtain r where "fetch_history D state revision worker_id request_id limit 0 0 fuel = Some r" by auto
  with fetch_history_steps [OF assms(1), of D state revision worker_id request_id 0 0 fuel] all show ?thesis by auto
qed

theorem history_pages_cover_witness:
  "\<exists>state r. fetch_history answer_env (answer_state state) 0 ''w'' ''q'' 10 0 0 3 = Some r \<and>
     (case r of Inl _ \<Rightarrow> True | Inr found \<Rightarrow> found = [(0, 0)])"
proof -
  have small: "length (steps_from (st_turns (answer_state state)) 0 0) + length (st_turns (answer_state state)) < 3" for state
    by (simp add: answer_state_def steps_from_def)
  fix state
  obtain r where r: "fetch_history answer_env (answer_state state) 0 ''w'' ''q'' 10 0 0 3 = Some r"
    "\<forall>found. r = Inr found \<longrightarrow> found = concat (map (\<lambda>i. map (Pair i)
       [0..<length (us_agent_loop_step (st_turns (answer_state state) ! i))]) [0..<length (st_turns (answer_state state))])"
    using history_pages_cover [of 10 "answer_state state" 3 answer_env 0 "''w''" "''q''"] small [of state] by auto
  then have "case r of Inl _ \<Rightarrow> True | Inr found \<Rightarrow> found = [(0, 0)]" by (auto simp: answer_state_def split: sum.split)
  with r(1) show ?thesis by blast
qed

section \<open>Projected batches are valid events\<close>

context json_laws
begin

lemma preview_entries_object: "jw_json W = J \<Longrightarrow> js_is_object J result \<Longrightarrow> js_is_object J (fst (preview_entries W entries depth remaining result))"
proof (induction entries arbitrary: remaining result)
  case (Cons entry entries)
  then show ?case by (cases entry) (auto simp: split_beta note_truncated_def Let_def set_object)
qed simp

lemma previewed_not_null:
  assumes "jw_json W = J" "\<not> js_is_null J value"
  shows "\<not> js_is_null J (fst (preview W value depth remaining))"
  using assms(2) preview_entries_object [OF assms(1) object_kind(1)] object_not_null set_object
  by (auto simp: assms(1) split_beta Let_def flag_def object_kind string_kind array_kind)

end

lemma previewed_object:
  assumes "wire_laws W" "js_is_object (jw_json W) value"
  shows "js_is_object (jw_json W) (fst (preview W value 0 128))"
proof -
  have laws: "json_laws (jw_json W)" using assms(1) by (simp add: wire_laws_def)
  show ?thesis
    using assms(2) json_laws.preview_entries_object [OF laws refl json_laws.object_kind(1) [OF laws]] json_laws.set_object [OF laws]
      json_laws.object_not_array [OF laws] wire_laws.object_not_string [OF assms(1)]
    by (auto simp: split_beta Let_def flag_def json_laws.object_kind [OF laws])
qed

lemma bounded_preview_not_null:
  assumes "wire_laws (de_wire D)" "bounded_preview D value maximum = Inr shown" "\<not> js_is_null (de_json D) value"
  shows "\<not> js_is_null (de_json D) shown"
proof -
  have laws: "json_laws (de_json D)" using assms(1) by (simp add: wire_laws_def)
  from json_laws.previewed_not_null [OF laws refl assms(3)] assms(2) json_laws.object_kind(2) [OF laws] show ?thesis
    by (auto simp: bounded_preview_def and_then_eq_Inr Let_def flag_def simp del: preview.simps split: if_splits)
qed

lemma annotations_not_null:
  assumes "wire_laws (de_wire D)" "annotations D value = Inr shown" "\<not> js_is_null (de_json D) value"
  shows "\<not> js_is_null (de_json D) shown"
proof -
  have laws: "json_laws (de_json D)" using assms(1) by (simp add: wire_laws_def)
  from assms(2) obtain result where result: "bounded_preview D value 512 = Inr result" by (auto simp: annotations_def and_then_eq_Inr)
  show ?thesis
  proof (cases "js_is_object (de_json D) value")
    case False
    with assms result bounded_preview_not_null [OF assms(1) result assms(3)] show ?thesis by (simp add: annotations_def)
  next
    case True
    have previewed: "js_is_object (de_json D) result"
      using result True previewed_object [OF assms(1) True] json_laws.object_kind(1) [OF laws]
      by (auto simp: bounded_preview_def and_then_eq_Inr Let_def flag_def simp del: preview.simps split: if_splits)
    have status: "annotate_status D value keys r = Inr marked \<Longrightarrow> js_is_object (de_json D) r \<Longrightarrow> js_is_object (de_json D) marked" for keys r marked
      by (induction keys arbitrary: r) (auto simp: and_then_eq_Inr json_laws.set_object [OF laws] split: option.splits if_splits)
    from assms(2) result True obtain marked where marked: "annotate_status D value [''status'', ''loop_skipped''] result = Inr marked"
      and shown: "shown = marked \<or> (\<exists>projected. shown = js_set (de_json D) ''error'' projected marked)"
      by (auto simp: annotations_def and_then_eq_Inr simp del: annotate_status.simps annotate_error.simps split: option.splits if_splits)
    from status [OF marked previewed] shown show ?thesis
      using json_laws.set_object [OF laws] json_laws.object_not_null [OF laws] by auto
  qed
qed

text \<open>What the wire asks of stored calls: attached metadata is never null.\<close>

definition extras_present :: "'j json_lib \<Rightarrow> 'j option \<Rightarrow> bool" where
  "extras_present J extras \<longleftrightarrow> (case extras of None \<Rightarrow> True | Some j \<Rightarrow> \<not> js_is_null J j)"

lemma call_spelled:
  "wire_scheduling t \<in> set CallScheduling_spellings" "wire_security s \<in> set CallSecurity_spellings"
  by (cases t; simp add: wire_scheduling_def CallScheduling_spellings_def) (cases s; simp add: wire_security_def CallSecurity_spellings_def)

lemma call_preview_conforms:
  assumes laws: "wire_laws (de_wire D)" and "call_preview D call budget = Inr r" "extras_present (de_json D) (iq_extras call)"
  shows "record_ok (de_wire D) Call_record r"
proof -
  have json: "json_laws (de_json D)" using laws by (simp add: wire_laws_def)
  from assms(2) obtain arguments extras where extras: "optional_result (annotations D) (iq_extras call) = Inr extras"
    and r: "r = [Some (VText (iq_id call)), Some (VText (iq_name call)), Some (VJson arguments), Some (VEnum (wire_scheduling (iq_type call))),
      Some (VEnum (wire_security (iq_security call))), map_option VJson extras]"
    by (auto simp: call_preview_def and_then_eq_Inr Call_record_def member_defs)
  have "extras_present (de_json D) extras"
    using extras assms(3) annotations_not_null [OF laws]
    by (auto simp: optional_result_def extras_present_def and_then_eq_Inr split: option.splits)
  then show ?thesis
    by (cases extras) (simp_all add: r Call_record_def field_defs is_required_def Let_def json_laws.string_kind [OF json] plain_fits call_spelled
      extras_present_def rules_hold_def nothing_ignored_def check_expected_def)
qed

context wire_laws
begin

text \<open>A batch of encoded records with the marker behind it passes the batch shape.\<close>

lemma encoded_batch:
  assumes "r \<in> set wire_records" "\<forall>members \<in> set batch. record_ok W r members" "''display_omitted'' \<notin> set (map wf_name (wr_fields r))" "n \<le> size_max"
  shows "check_shape W (ProjectedBatch r OmissionMarker_record) (with_marker (jw_json W) (map (wire_to_json (jw_json W) r) batch) n) path = Inr ()"
proof -
  let ?J = "jw_json W"
  have this_wire: "wire_laws W" by (rule wire_laws_axioms)
  have item: "js_find ?J (wire_to_json ?J r members) ''display_omitted'' = None" for members
    using assms(3) encode_fields_other [of "js_object ?J []" "''display_omitted''" "wr_fields r" members] object_kind(1) find_object [of "[]"]
    by (simp add: wire_to_json_def)
  let ?marker = "record_with ?J OmissionMarker_record [(''omitted_items'', Some (VInteger n))]"
  have marker: "?marker = [Some (VBoolean True), Some (VInteger n)]" by (simp add: OmissionMarker_record_def member_defs)
  have "record_ok W OmissionMarker_record ?marker"
    unfolding marker using assms(4)
    by (simp add: OmissionMarker_record_def field_defs is_required_def Let_def bool_not_null number_not_null plain_fits
      rules_hold_def nothing_ignored_def check_expected_def)
  then have marker_read: "wire_from_json W OmissionMarker_record (omission_marker ?J n) p = Inr ?marker" for p
    unfolding omission_marker_def by (intro published_roundtrip [OF this_wire]) (simp add: wire_records_def)
  have marked: "js_is_object ?J (omission_marker ?J n)" "js_find ?J (omission_marker ?J n) ''display_omitted'' \<noteq> None"
    unfolding omission_marker_def marker
    by (simp_all add: wire_to_json_def OmissionMarker_record_def field_defs is_required_def set_object find_set object_kind)
  have items: "check_batch W r OmissionMarker_record (map (wire_to_json ?J r) ms @ rest) index path = Inr () \<longleftrightarrow>
      check_batch W r OmissionMarker_record rest (index + length ms) path = Inr ()" if "\<forall>members \<in> set ms. record_ok W r members" for ms rest index
    using that
  proof (induction ms arbitrary: index)
    case (Cons members ms)
    then show ?case using item [of members] published_roundtrip [OF this_wire assms(1), of members] by simp
  qed simp
  show ?thesis
    using items [OF assms(2), of "[]" 0] items [OF assms(2), of "[omission_marker ?J n]" 0] marked marker_read
    by (simp add: with_marker_def array_kind array_read)
qed

end

text \<open>
  The tool calls the worker publishes are valid wire events: however many calls there are and whatever their
  arguments and annotations, the projected batch passes the validation registered for the event, at most 64 calls are
  shown, and a batch that was cut says exactly how many entries are missing.
\<close>

theorem tool_calls_valid:
  assumes "wire_laws (de_wire D)" "\<forall>call \<in> set calls. extras_present (de_json D) (iq_extras call)" "length calls \<le> size_max"
    and "display_calls D calls = Inr data"
  shows "validate_event_data (de_wire D) tool_calls_ev data = Inr () \<and>
    (\<exists>shown. data = with_marker (de_json D) shown (length calls - 64) \<and> length shown = min (length calls) 64)"
proof -
  let ?count = "min (length calls) 64"
  let ?budget = "min 8192 (64 * 1024 div max ?count 1)"
  from assms(4) obtain shown where shown: "map_result (\<lambda>call. and_then (call_preview D call ?budget) (\<lambda>r. Inr (wire_to_json (de_json D) Call_record r)))
      (take ?count calls) = Inr shown" and data: "data = with_marker (de_json D) shown (length calls - ?count)"
    by (auto simp: display_calls_def Let_def and_then_eq_Inr)
  have "\<exists>batch. shown = map (wire_to_json (de_json D) Call_record) batch \<and> (\<forall>r \<in> set batch. record_ok (de_wire D) Call_record r)"
    if "map_result (\<lambda>call. and_then (call_preview D call ?budget) (\<lambda>r. Inr (wire_to_json (de_json D) Call_record r))) cs = Inr shown"
      "set cs \<subseteq> set calls" for cs shown
    using that
  proof (induction cs arbitrary: shown)
    case (Cons call cs)
    then obtain r rest where r: "call_preview D call ?budget = Inr r" "shown = wire_to_json (de_json D) Call_record r # rest"
      "map_result (\<lambda>call. and_then (call_preview D call ?budget) (\<lambda>r. Inr (wire_to_json (de_json D) Call_record r))) cs = Inr rest"
      by (auto simp: and_then_eq_Inr)
    from Cons.IH [OF r(3)] Cons.prems(2) obtain batch where "rest = map (wire_to_json (de_json D) Call_record) batch"
      "\<forall>r \<in> set batch. record_ok (de_wire D) Call_record r" by auto
    with r call_preview_conforms [OF assms(1) r(1)] assms(2) Cons.prems(2) show ?case by (intro exI [of _ "r # batch"]) auto
  qed simp
  from this [OF shown] obtain batch where batch: "shown = map (wire_to_json (de_json D) Call_record) batch"
    "\<forall>r \<in> set batch. record_ok (de_wire D) Call_record r" by (meson set_take_subset)
  have "check_shape (de_wire D) (ProjectedBatch Call_record OmissionMarker_record) data ''data'' = Inr ()"
    unfolding data batch(1) by (rule wire_laws.encoded_batch [OF assms(1)])
      (use batch(2) assms(3) in \<open>auto simp: wire_records_def Call_record_def field_defs\<close>)
  then have "validate_event_data (de_wire D) tool_calls_ev data = Inr ()" by (simp add: validate_event_data_def accept_batch_checks)
  moreover have "length calls - ?count = length calls - 64" by simp
  ultimately show ?thesis using data map_result_length [OF shown] by auto
qed

theorem tool_calls_valid_witness:
  "\<exists>data. display_calls answer_env [default_query json_values] = Inr data \<and> validate_event_data json_wire_values tool_calls_ev data = Inr ()"
proof -
  obtain data where data: "display_calls answer_env [default_query json_values] = Inr data"
    by (simp add: display_calls_def call_preview_def bounded_preview_def answer_env_def optional_result_def default_query_def del: preview.simps)
  have "wire_laws (de_wire answer_env)" by (simp add: answer_env_def json_wire_values.wire_laws_axioms)
  from tool_calls_valid [OF this _ _ data] data show ?thesis
    by (auto simp: extras_present_def default_query_def size_max_def) (simp add: answer_env_def)
qed

end
