(* ===== verification/File_Base64.thy ===== *)
theory File_Base64
  imports Prelude "HOL-Library.Word"
begin

text \<open>
  The Base64 codec of \<^verbatim>\<open>utils/fileio/src/base64.cpp\<close>. The shifts and masks of the code act on \<^verbatim>\<open>int\<close> values
  below 2 to the 14th, so they are the bit operations on \<^typ>\<open>nat\<close>; a cast to \<^verbatim>\<open>char\<close> keeps the low eight bits. The
  largest size of a string is a parameter. The codec is shown to be a bijection between byte strings and the
  canonical padded texts: the decoder accepts exactly what the encoder writes.
\<close>

unbundle bit_operations_syntax

section \<open>The alphabet\<close>

definition alphabet :: string where
  "alphabet = ''ABCDEFGHIJKLMNOPQRSTUVWXYZabcdefghijklmnopqrstuvwxyz0123456789+/''"

definition base64_digit :: "char \<Rightarrow> int" where
  "base64_digit character =
     (let c = int (byte_val character) in
      if 65 \<le> c \<and> c \<le> 90 then c - 65
      else if 97 \<le> c \<and> c \<le> 122 then c - 97 + 26
      else if 48 \<le> c \<and> c \<le> 57 then c - 48 + 52
      else if character = CHR ''+'' then 62
      else if character = CHR ''/'' then 63
      else - 1)"

definition required_digit :: "char \<Rightarrow> nat result" where
  "required_digit character =
     (if base64_digit character < 0 then Inl (InvalidArgument ''invalid Base64 character or padding'')
      else Inr (nat (base64_digit character)))"

section \<open>Encoding\<close>

text \<open>The loop over whole groups of three bytes, and the group that the tail pads.\<close>

fun encode_groups :: "string \<Rightarrow> string" where
  "encode_groups (x # y # z # rest) =
     (let a = byte_val x; b = byte_val y; c = byte_val z in
      [alphabet ! drop_bit 2 a,
       alphabet ! (push_bit 4 (a AND 3) OR drop_bit 4 b),
       alphabet ! (push_bit 2 (b AND 15) OR drop_bit 6 c),
       alphabet ! (c AND 63)] @ encode_groups rest)"
| "encode_groups [x, y] =
     (let a = byte_val x; b = byte_val y in
      [alphabet ! drop_bit 2 a,
       alphabet ! (push_bit 4 (a AND 3) OR drop_bit 4 b),
       alphabet ! push_bit 2 (b AND 15),
       CHR ''=''])"
| "encode_groups [x] =
     (let a = byte_val x in
      [alphabet ! drop_bit 2 a, alphabet ! push_bit 4 (a AND 3), CHR ''='', CHR ''=''])"
| "encode_groups [] = []"

definition base64_encode :: "nat \<Rightarrow> string \<Rightarrow> string result" where
  "base64_encode max_size bytes =
     (let groups = length bytes div 3; tail = length bytes mod 3; padding_group = (if tail = 0 then 0 else 4) in
      if groups > (max_size - padding_group) div 4 then
        Inl (LengthError ''Base64 output exceeds maximum string size'')
      else Inr (encode_groups bytes))"

section \<open>Decoding\<close>

text \<open>One turn of the loop; \<open>more\<close> says that the group is not the last one.\<close>

definition decode_group :: "char \<Rightarrow> char \<Rightarrow> char \<Rightarrow> char \<Rightarrow> bool \<Rightarrow> string result" where
  "decode_group p q r s more =
     and_then (required_digit p) (\<lambda>first.
     and_then (required_digit q) (\<lambda>second.
       let third_padding = (r = CHR ''=''); fourth_padding = (s = CHR ''='') in
       if (third_padding \<or> fourth_padding) \<and> more then Inl (InvalidArgument ''Base64 padding must end the input'')
       else if third_padding then
         if \<not> fourth_padding \<or> second AND 15 \<noteq> 0 then Inl (InvalidArgument ''invalid Base64 padding bits'')
         else Inr [char_of (push_bit 2 first OR drop_bit 4 second)]
       else
         and_then (required_digit r) (\<lambda>third.
           let two = [char_of (push_bit 2 first OR drop_bit 4 second), char_of (push_bit 4 second OR drop_bit 2 third)] in
           if fourth_padding then
             if third AND 3 \<noteq> 0 then Inl (InvalidArgument ''invalid Base64 padding bits'') else Inr two
           else and_then (required_digit s) (\<lambda>fourth. Inr (two @ [char_of (push_bit 6 third OR fourth)])))))"

fun decode_groups :: "string \<Rightarrow> string result" where
  "decode_groups (p # q # r # s # rest) =
     and_then (decode_group p q r s (rest \<noteq> [])) (\<lambda>bytes.
     and_then (decode_groups rest) (\<lambda>more. Inr (bytes @ more)))"
| "decode_groups _ = Inr []"

definition base64_decode :: "string \<Rightarrow> string result" where
  "base64_decode encoded =
     (if length encoded mod 4 \<noteq> 0 then Inl (InvalidArgument ''Base64 length must be a multiple of four'')
      else decode_groups encoded)"

section \<open>Digits and bits\<close>

lemma alphabet_bytes: "map byte_val alphabet = [65..<91] @ [97..<123] @ [48..<58] @ [43, 47]"
  by (simp add: alphabet_def upt_rec)

lemma length_alphabet [simp]: "length alphabet = 64"
  by (simp add: alphabet_def)

lemma alphabet_nth:
  assumes "i < 64"
  shows "byte_val (alphabet ! i) =
    (if i < 26 then 65 + i else if i < 52 then 71 + i else if i < 62 then i - 4 else if i = 62 then 43 else 47)"
proof -
  have "byte_val (alphabet ! i) = map byte_val alphabet ! i"
    using assms by simp
  then show ?thesis
    using assms unfolding alphabet_bytes by (auto simp: nth_append nth_Cons split: nat.splits)
qed

lemma byte_val_eq_iff: "byte_val c = byte_val d \<longleftrightarrow> c = d"
  by simp

lemma base64_digit_alphabet [simp]: "i < 64 \<Longrightarrow> base64_digit (alphabet ! i) = int i"
  using byte_val_eq_iff [of "alphabet ! i" "CHR ''+''"] byte_val_eq_iff [of "alphabet ! i" "CHR ''/''"]
  by (auto simp: base64_digit_def Let_def alphabet_nth split: if_splits)

lemma base64_digit_nonneg:
  assumes "0 \<le> base64_digit c"
  shows "nat (base64_digit c) < 64 \<and> alphabet ! nat (base64_digit c) = c"
proof -
  have "nat (base64_digit c) < 64"
    by (auto simp: base64_digit_def Let_def split: if_splits)
  moreover have "byte_val (alphabet ! nat (base64_digit c)) = byte_val c"
    using assms calculation by (auto simp: alphabet_nth base64_digit_def Let_def split: if_splits)
  ultimately show ?thesis by (simp add: byte_val_eq_iff)
qed

lemma required_digit_iff: "required_digit c = Inr d \<longleftrightarrow> d < 64 \<and> c = alphabet ! d"
  using base64_digit_nonneg [of c] by (auto simp: required_digit_def)

lemma alphabet_not_padding: "i < 64 \<Longrightarrow> alphabet ! i \<noteq> CHR ''=''"
  using byte_val_eq_iff [of "alphabet ! i" "CHR ''=''"] by (auto simp: alphabet_nth split: if_splits)

lemma or_eq_plus: "y < 2 ^ n \<Longrightarrow> push_bit n x OR y = x * 2 ^ n + (y::nat)"
proof -
  assume y: "y < 2 ^ n"
  have "push_bit n x AND y = 0"
  proof (rule bit_eqI)
    fix k
    have "n \<le> k \<Longrightarrow> \<not> bit y k"
      using y by (metis bit_take_bit_iff linorder_not_less take_bit_nat_eq_self)
    then show "bit (push_bit n x AND y) k \<longleftrightarrow> bit 0 k"
      by (auto simp: bit_simps)
  qed
  then show ?thesis by (metis disjunctive_add_eq_or push_bit_eq_mult)
qed

lemma and_mask_eq: "a AND 3 = a mod 4" "a AND 15 = a mod 16" "a AND 63 = (a::nat) mod 64"
  using take_bit_eq_mask [of 2 a] take_bit_eq_mask [of 4 a] take_bit_eq_mask [of 6 a]
  by (simp_all add: take_bit_eq_mod mask_eq_exp_minus_1)

text \<open>The bit operations of the codec as arithmetic.\<close>

lemma codec_arith:
  "drop_bit 2 a = a div 4" "drop_bit 4 a = a div 16" "drop_bit 6 a = (a::nat) div 64"
  "push_bit 4 b = b * 16" "push_bit 2 b = (b::nat) * 4" "push_bit 6 b = b * 64"
  by (simp_all add: drop_bit_eq_div push_bit_eq_mult)

lemma codec_or:
  "d < 16 \<Longrightarrow> c * 16 OR d = c * 16 + (d::nat)"
  "d < 4 \<Longrightarrow> c * 4 OR d = c * 4 + d"
  "d < 64 \<Longrightarrow> c * 64 OR d = c * 64 + d"
  using or_eq_plus [of d 4 c] or_eq_plus [of d 2 c] or_eq_plus [of d 6 c] by (simp_all add: push_bit_eq_mult)

lemma byte_div [simp]: "byte_val x div 16 < 16" "byte_val x div 64 < 4" "byte_val x div 4 < 64"
  using byte_val_less [of x] by linarith+

lemmas codec_bits = Let_def codec_arith codec_or and_mask_eq

section \<open>One group\<close>

lemma of_char_char_of [simp]: "byte_val (char_of (n::nat)) = n mod 256"
  by simp

lemma decode_group_full:
  assumes "a < 64" "b < 64" "c < 64" "d < 64"
  shows "decode_group (alphabet ! a) (alphabet ! b) (alphabet ! c) (alphabet ! d) more =
    Inr [char_of (a * 4 + b div 16), char_of (b * 16 + c div 4), char_of (c * 64 + d)]"
  using assms by (simp add: decode_group_def required_digit_def alphabet_not_padding codec_bits)

lemma decode_group_two:
  assumes "a < 64" "b < 64" "c < 64"
  shows "decode_group (alphabet ! a) (alphabet ! b) (alphabet ! c) (CHR ''='') False =
    (if c mod 4 = 0 then Inr [char_of (a * 4 + b div 16), char_of (b * 16 + c div 4)]
     else Inl (InvalidArgument ''invalid Base64 padding bits''))"
  using assms
  by (simp add: decode_group_def required_digit_def alphabet_not_padding codec_bits)

lemma decode_group_one:
  assumes "a < 64" "b < 64"
  shows "decode_group (alphabet ! a) (alphabet ! b) (CHR ''='') (CHR ''='') False =
    (if b mod 16 = 0 then Inr [char_of (a * 4 + b div 16)]
     else Inl (InvalidArgument ''invalid Base64 padding bits''))"
  using assms by (simp add: decode_group_def required_digit_def codec_bits)

text \<open>The three shapes of a group the decoder accepts.\<close>

lemma decode_group_cases:
  assumes "decode_group p q r s more = Inr bytes"
  obtains (full) a b c d where "a < 64" "b < 64" "c < 64" "d < 64"
      "p = alphabet ! a" "q = alphabet ! b" "r = alphabet ! c" "s = alphabet ! d"
  | (two) a b c where "a < 64" "b < 64" "c < 64" "p = alphabet ! a" "q = alphabet ! b" "r = alphabet ! c"
      "s = CHR ''=''" "c mod 4 = 0" "\<not> more"
  | (one) a b where "a < 64" "b < 64" "p = alphabet ! a" "q = alphabet ! b"
      "r = CHR ''=''" "s = CHR ''=''" "b mod 16 = 0" "\<not> more"
proof -
  obtain a b where ab: "a < 64" "b < 64" "p = alphabet ! a" "q = alphabet ! b"
    using assms by (auto simp: decode_group_def and_then_eq_Inr required_digit_iff)
  show thesis
  proof (cases "r = CHR ''=''")
    case True
    with assms ab show thesis
      by (intro one [of a b])
        (auto simp: decode_group_def required_digit_def Let_def and_mask_eq split: if_splits)
  next
    case r: False
    with assms ab obtain c where c: "c < 64" "r = alphabet ! c"
      by (auto simp: decode_group_def and_then_eq_Inr required_digit_iff Let_def split: if_splits)
    show thesis
    proof (cases "s = CHR ''=''")
      case True
      with assms ab c r show thesis
        by (intro two [of a b c])
          (auto simp: decode_group_def required_digit_def Let_def and_mask_eq split: if_splits)
    next
      case False
      with assms ab c r obtain d where "d < 64" "s = alphabet ! d"
        by (auto simp: decode_group_def and_then_eq_Inr required_digit_iff Let_def split: if_splits)
      with ab c show thesis by (intro full [of a b c d])
    qed
  qed
qed

section \<open>The codec is a bijection\<close>

lemma encode_full:
  "encode_groups (x # y # z # rest) =
     [alphabet ! (byte_val x div 4), alphabet ! (byte_val x mod 4 * 16 + byte_val y div 16),
      alphabet ! (byte_val y mod 16 * 4 + byte_val z div 64), alphabet ! (byte_val z mod 64)] @ encode_groups rest"
  by (simp add: codec_bits)

lemma encode_two:
  "encode_groups [x, y] =
     [alphabet ! (byte_val x div 4), alphabet ! (byte_val x mod 4 * 16 + byte_val y div 16),
      alphabet ! (byte_val y mod 16 * 4), CHR ''='']"
  by (simp add: codec_bits)

lemma encode_one:
  "encode_groups [x] =
     [alphabet ! (byte_val x div 4), alphabet ! (byte_val x mod 4 * 16), CHR ''='', CHR ''='']"
  by (simp add: codec_bits)

lemma digits_of_bytes:
  assumes "a < 256" "b < 256" "c < (256::nat)"
  shows "a div 4 * 4 + (a mod 4 * 16 + b div 16) div 16 = a"
    "((a mod 4 * 16 + b div 16) * 16 + (b mod 16 * 4 + c div 64) div 4) mod 256 = b"
    "((b mod 16 * 4 + c div 64) * 64 + c mod 64) mod 256 = c"
    "a mod 4 * 16 + b div 16 < 64" "b mod 16 * 4 + c div 64 < 64"
proof -
  have d: "b div 16 < 16" "c div 64 < 4" using assms by simp_all
  have e: "(a mod 4 * 16 + b div 16) div 16 = a mod 4" "(b mod 16 * 4 + c div 64) div 4 = b mod 16"
    using d by simp_all
  show "a div 4 * 4 + (a mod 4 * 16 + b div 16) div 16 = a"
    unfolding e by simp
  have "(a mod 4 * 16 + b div 16) * 16 + b mod 16 = a mod 4 * 256 + b"
    using div_mult_mod_eq [of b 16] by (simp add: algebra_simps)
  then show "((a mod 4 * 16 + b div 16) * 16 + (b mod 16 * 4 + c div 64) div 4) mod 256 = b"
    unfolding e using assms by simp
  have "(b mod 16 * 4 + c div 64) * 64 + c mod 64 = b mod 16 * 256 + c"
    using div_mult_mod_eq [of c 64] by (simp add: algebra_simps)
  then show "((b mod 16 * 4 + c div 64) * 64 + c mod 64) mod 256 = c"
    using assms by simp
  show "a mod 4 * 16 + b div 16 < 64" "b mod 16 * 4 + c div 64 < 64"
    using d mod_less_divisor [of 4 a] mod_less_divisor [of 16 b] by linarith+
qed

lemma bytes_of_digits:
  assumes "a < 64" "b < 64" "c < 64" "d < (64::nat)"
  shows "(a * 4 + b div 16) mod 256 div 4 = a"
    "(a * 4 + b div 16) mod 256 mod 4 * 16 + (b * 16 + c div 4) mod 256 div 16 = b"
    "(b * 16 + c div 4) mod 256 mod 16 * 4 + (c * 64 + d) mod 256 div 64 = c"
    "(c * 64 + d) mod 256 mod 64 = d"
proof -
  have l: "b div 16 < 4" "c div 4 < 16" using assms by simp_all
  have s: "(b * 16 + c div 4) mod 256 = b mod 16 * 16 + c div 4"
    "(c * 64 + d) mod 256 = c mod 4 * 64 + d" "(a * 4 + b div 16) mod 256 = a * 4 + b div 16"
    using l assms mod_mult2_eq [of "b * 16 + c div 4" 16 16] mod_mult2_eq [of "c * 64 + d" 64 4] by simp_all
  show "(a * 4 + b div 16) mod 256 div 4 = a" unfolding s using l by simp
  show "(a * 4 + b div 16) mod 256 mod 4 * 16 + (b * 16 + c div 4) mod 256 div 16 = b"
    unfolding s using l by simp
  show "(b * 16 + c div 4) mod 256 mod 16 * 4 + (c * 64 + d) mod 256 div 64 = c"
    unfolding s using l assms by simp
  show "(c * 64 + d) mod 256 mod 64 = d" unfolding s using assms by simp
qed

lemma decode_encode: "decode_groups (encode_groups bytes) = Inr bytes"
proof (induction bytes rule: encode_groups.induct)
  case (1 x y z rest)
  note arith = digits_of_bytes [OF byte_val_less [of x] byte_val_less [of y] byte_val_less [of z]]
  have "decode_group (alphabet ! (byte_val x div 4)) (alphabet ! (byte_val x mod 4 * 16 + byte_val y div 16))
      (alphabet ! (byte_val y mod 16 * 4 + byte_val z div 64)) (alphabet ! (byte_val z mod 64)) (encode_groups rest \<noteq> [])
    = Inr [x, y, z]"
    using arith by (subst decode_group_full) (simp_all add: char_of_eq_iff take_bit_eq_mod)
  with 1 show ?case by (simp add: encode_full del: encode_groups.simps)
next
  case (2 x y)
  note arith = digits_of_bytes [OF byte_val_less [of x] byte_val_less [of y], of 0]
  have "decode_group (alphabet ! (byte_val x div 4)) (alphabet ! (byte_val x mod 4 * 16 + byte_val y div 16))
      (alphabet ! (byte_val y mod 16 * 4)) (CHR ''='') False = Inr [x, y]"
    using arith by (subst decode_group_two) (simp_all add: char_of_eq_iff take_bit_eq_mod)
  then show ?case by (simp add: encode_two del: encode_groups.simps)
next
  case (3 x)
  note arith = digits_of_bytes [OF byte_val_less [of x], of 0 0]
  have "decode_group (alphabet ! (byte_val x div 4)) (alphabet ! (byte_val x mod 4 * 16))
      (CHR ''='') (CHR ''='') False = Inr [x]"
    using arith by (subst decode_group_one) (simp_all add: char_of_eq_iff)
  then show ?case by (simp add: encode_one del: encode_groups.simps)
qed simp

lemma encode_decode: "decode_groups s = Inr bytes \<Longrightarrow> length s mod 4 = 0 \<Longrightarrow> encode_groups bytes = s"
proof (induction s arbitrary: bytes rule: decode_groups.induct)
  case (1 p q r s rest)
  obtain xs ys where xs: "decode_group p q r s (rest \<noteq> []) = Inr xs"
    and ys: "decode_groups rest = Inr ys" and bytes: "bytes = xs @ ys"
    using "1.prems" by (auto simp: and_then_eq_Inr)
  have rest: "encode_groups ys = rest"
    using "1.IH" [OF xs ys] "1.prems" by (simp add: mod_Suc split: if_splits)
  from xs show ?case
  proof (cases rule: decode_group_cases)
    case (full a b c d)
    note arith = bytes_of_digits [OF full(1-4)]
    have "xs = [char_of (a * 4 + b div 16), char_of (b * 16 + c div 4), char_of (c * 64 + d)]"
      using xs full by (simp add: decode_group_full)
    then show ?thesis
      using full rest arith by (simp add: bytes encode_full del: encode_groups.simps)
  next
    case (two a b c)
    note arith = bytes_of_digits [OF two(1-3), of 0]
    have "xs = [char_of (a * 4 + b div 16), char_of (b * 16 + c div 4)]"
      using xs two by (simp add: decode_group_two)
    moreover have "c * 64 mod 256 = 0" using two(8) by presburger
    ultimately show ?thesis
      using two ys arith by (simp add: bytes encode_two del: encode_groups.simps)
  next
    case (one a b)
    note arith = bytes_of_digits [OF one(1,2), of 0 0]
    have "xs = [char_of (a * 4 + b div 16)]"
      using xs one by (simp add: decode_group_one)
    moreover have "b * 16 mod 256 = 0" using one(7) by presburger
    ultimately show ?thesis
      using one ys arith by (simp add: bytes encode_one del: encode_groups.simps)
  qed
qed auto

lemma encode_length: "length (encode_groups bytes) = length bytes div 3 * 4 + (if length bytes mod 3 = 0 then 0 else 4)"
proof (induction bytes rule: encode_groups.induct)
  case (1 x y z rest)
  have "length (x # y # z # rest) div 3 = Suc (length rest div 3)" "length (x # y # z # rest) mod 3 = length rest mod 3"
    by simp_all
  with 1 show ?case by (simp add: encode_full del: encode_groups.simps)
qed (simp_all add: Let_def)

lemma base64_encode_iff:
  assumes "4 \<le> max_size"
  shows "base64_encode max_size bytes = Inr s \<longleftrightarrow> s = encode_groups bytes \<and> length s \<le> max_size"
proof -
  have "length bytes div 3 \<le> (max_size - k) div 4 \<longleftrightarrow> length bytes div 3 * 4 + k \<le> max_size" if "k \<le> 4" for k
    using assms that by (auto simp: less_eq_div_iff_mult_less_eq)
  from this [of 0] this [of 4] show ?thesis
    by (auto simp: base64_encode_def Let_def encode_length not_less split: if_splits)
qed

text \<open>
  C39. Base64 is canonical in both directions: a text is what the encoder writes for some bytes exactly when the
  decoder reads those bytes from it and the text fits the largest string. So decoding undoes encoding, every
  accepted text is the only encoding of its bytes, and nothing else (white space, another alphabet, missing
  padding, non-zero unused bits) is accepted. The hypothesis says that a string can hold one group.
\<close>

theorem base64_canonical:
  assumes "4 \<le> max_size"
  shows "base64_encode max_size bytes = Inr s \<longleftrightarrow> base64_decode s = Inr bytes \<and> length s \<le> max_size"
proof -
  have "length (encode_groups bytes) mod 4 = 0"
    by (simp add: encode_length)
  then have "base64_decode s = Inr bytes \<longleftrightarrow> s = encode_groups bytes"
    using encode_decode decode_encode by (metis base64_decode_def sum.distinct(1))
  then show ?thesis by (simp add: base64_encode_iff [OF assms])
qed

theorem base64_canonical_witness:
  "base64_encode 64 ''Simplex!'' = Inr ''U2ltcGxleCE='' \<and> base64_decode ''U2ltcGxleCE='' = Inr ''Simplex!''"
proof -
  have "base64_encode 64 ''Simplex!'' = Inr ''U2ltcGxleCE=''" by code_simp
  then show ?thesis using base64_canonical [of 64 "''Simplex!''" "''U2ltcGxleCE=''"] by simp
qed

text \<open>What the decoder refuses, by the first thing wrong with it.\<close>

lemma base64_decode_errors:
  "base64_decode ''TWE'' = Inl (InvalidArgument ''Base64 length must be a multiple of four'')"
  "base64_decode ''TW E'' = Inl (InvalidArgument ''invalid Base64 character or padding'')"
  "base64_decode ''TQ==TWFu'' = Inl (InvalidArgument ''Base64 padding must end the input'')"
  "base64_decode ''TQ=u'' = Inl (InvalidArgument ''invalid Base64 padding bits'')"
  "base64_decode ''TR=='' = Inl (InvalidArgument ''invalid Base64 padding bits'')"
  "base64_decode ''TWF='' = Inl (InvalidArgument ''invalid Base64 padding bits'')"
  by code_simp+

end
