(* ===== verification/File_Publish.thy ===== *)
theory File_Publish
  imports Staged_Replace File_Base64
begin

text \<open>
  The other file helpers of \<^verbatim>\<open>utils/fileio\<close>: reading a prefix (\<^verbatim>\<open>read_prefix.cpp\<close>), atomic writing
  (\<^verbatim>\<open>atomic_write.cpp\<close>), new files that never overwrite (\<^verbatim>\<open>new_file.cpp\<close>), snapshots and their replacement
  (\<^verbatim>\<open>replace_existing.cpp\<close>), and the Base64 file helpers built on them. System calls are parameters as in
  \<open>Staged_Replace\<close>: they may fail at any point, and the state is the directory entry of the destination with the
  private temporary file beside it. The locale \<open>publisher\<close> is the contract the writing helpers share: the entry
  changes exactly when the helper reports publication, and then to the given content.
\<close>

section \<open>Reading a prefix\<close>

text \<open>The calls of \<^verbatim>\<open>read\<close> ask for at most 8192 bytes; what a call delivers beyond the request stays unread.\<close>

function read_loop :: "nat \<Rightarrow> string \<Rightarrow> string \<Rightarrow> descriptor \<Rightarrow> string result" where
  "read_loop max_bytes operation bytes d =
     (if length bytes < max_bytes then
        (case d of
           [] \<Rightarrow> Inr bytes
         | Interrupted # d' \<Rightarrow> read_loop max_bytes operation bytes d'
         | ReadFailed e # d' \<Rightarrow> Inl (SystemError e operation)
         | Delivered s # d' \<Rightarrow>
             if s = [] then Inr bytes
             else
               let request = min (max_bytes - length bytes) 8192 in
               read_loop max_bytes operation (bytes @ take request s) (unread (drop request s) d'))
      else Inr bytes)"
  by pat_completeness auto
termination
  by (relation "measures [\<lambda>(_, _, _, d). length (delivered d), \<lambda>(_, _, _, d). length d]")
    (auto simp: unread_def split: if_splits)

declare read_loop.simps [simp del]

record prefix_env =
  pe_open :: "nat + descriptor"
  pe_stat :: "nat + file_stat"

definition read_prefix :: "prefix_env \<Rightarrow> string \<Rightarrow> nat \<Rightarrow> string result" where
  "read_prefix env path max_bytes =
     and_then (checked_path path) (\<lambda>_.
     and_then (os (pe_open env) ''open file prefix'') (\<lambda>file.
     and_then (os (pe_stat env) ''inspect file prefix'') (\<lambda>status.
     if \<not> s_isreg (st_mode status) then Inl (SystemError EOPNOTSUPP ''file prefix requires a regular file'')
     else read_loop max_bytes ''read file prefix'' [] file)))"

section \<open>Atomic writing\<close>

text \<open>The directory entry of the destination and the private file beside it.\<close>

record write_dir =
  entry :: "string option"
  temporary :: "string option"

record write_env =
  we_absolute :: "nat option"
  we_create_directories :: "nat option"
  we_open_directory :: "nat option"
  we_mkostemp :: "nat option"
  we_writes :: "write_outcome list"
  we_fsync :: "nat option"
  we_close :: "nat option"
  we_unlink :: "nat option"
  we_rename :: "nat option"
  we_sync_directory :: "nat option"

text \<open>
  \<^verbatim>\<open>FileBuffer\<close>: the bytes not yet written, the content of the private file, and the outcomes of the writes to come
  (a count that is not positive is a failure).
\<close>

record file_buffer =
  fb_pending :: string
  fb_written :: string
  fb_writes :: "write_outcome list"

fun sync_bytes :: "string \<Rightarrow> string \<Rightarrow> write_outcome list \<Rightarrow> bool \<times> string \<times> write_outcome list" where
  "sync_bytes [] written ws = (True, written, ws)"
| "sync_bytes bytes written [] = (True, written @ bytes, [])"
| "sync_bytes bytes written (WriteInterrupted # ws) = sync_bytes bytes written ws"
| "sync_bytes bytes written (WriteFailed e # ws) = (False, written, ws)"
| "sync_bytes bytes written (Wrote n # ws) = sync_bytes (drop (Suc n) bytes) (written @ take (Suc n) bytes) ws"

definition fb_sync :: "file_buffer \<Rightarrow> bool \<times> file_buffer" where
  "fb_sync b =
     (let (ok, written, ws) = sync_bytes (fb_pending b) (fb_written b) (fb_writes b) in
      (ok, b\<lparr>fb_pending := (if ok then [] else fb_pending b), fb_written := written, fb_writes := ws\<rparr>))"

definition kFileBuffer :: nat where "kFileBuffer = 8192"

text \<open>One byte put into the stream, through \<^verbatim>\<open>overflow\<close> when the buffer is full.\<close>

definition fb_put :: "char \<Rightarrow> file_buffer \<Rightarrow> bool \<times> file_buffer" where
  "fb_put c b =
     (if length (fb_pending b) < kFileBuffer then (True, b\<lparr>fb_pending := fb_pending b @ [c]\<rparr>)
      else
        let (ok, b') = fb_sync b in
        if ok then (True, b'\<lparr>fb_pending := fb_pending b' @ [c]\<rparr>) else (False, b'))"

fun fb_puts :: "string \<Rightarrow> file_buffer \<Rightarrow> bool \<times> file_buffer" where
  "fb_puts [] b = (True, b)"
| "fb_puts (c # cs) b = (let (ok, b') = fb_put c b in if ok then fb_puts cs b' else (False, b'))"

text \<open>
  A writer callback streams some chunks and returns or throws; \<^const>\<open>None\<close> is an empty \<^verbatim>\<open>std::function\<close>. A failed
  write throws from the stream, whose exceptions are enabled.
\<close>

type_synonym stream_writer = "(string list \<times> exn option) option"

definition stream_failure :: exn where
  "stream_failure = OtherException ''basic_ios::clear: iostream error''"

fun call_writer :: "string list \<times> exn option \<Rightarrow> file_buffer \<Rightarrow> unit result \<times> file_buffer" where
  "call_writer ([], failure) b = (case failure of None \<Rightarrow> Inr () | Some e \<Rightarrow> Inl e, b)"
| "call_writer (chunk # chunks, failure) b =
     (let (ok, b') = fb_puts chunk b in
      if ok then call_writer (chunks, failure) b' else (Inl stream_failure, b'))"

definition write_failure :: "nat option \<Rightarrow> string \<Rightarrow> unit result" where
  "write_failure failure operation =
     (case failure of Some e \<Rightarrow> Inl (AtomicWriteError e operation False) | None \<Rightarrow> Inr ())"

text \<open>From the created private file to its closing.\<close>

definition fill_temporary :: "write_env \<Rightarrow> string list \<times> exn option \<Rightarrow> unit result \<times> string" where
  "fill_temporary env writer =
     (let (r, b) = call_writer writer \<lparr>fb_pending = [], fb_written = [], fb_writes = we_writes env\<rparr> in
      case r of
        Inl e \<Rightarrow> (Inl e, fb_written b)
      | Inr _ \<Rightarrow>
          let (ok, b') = fb_sync b in
          if \<not> ok then (Inl stream_failure, fb_written b')
          else
            (and_then (write_failure (we_fsync env) ''sync file'') (\<lambda>_. write_failure (we_close env) ''close file''),
             fb_written b'))"

text \<open>The destructor of \<^verbatim>\<open>Impl\<close> removes the private file of an unpublished write and ignores failure.\<close>

definition unlink_temporary :: "write_env \<Rightarrow> write_dir \<Rightarrow> write_dir" where
  "unlink_temporary env d = (if we_unlink env = None then d\<lparr>temporary := None\<rparr> else d)"

definition StagedWrite :: "write_env \<Rightarrow> stream_writer \<Rightarrow> write_dir \<Rightarrow> unit result \<times> write_dir" where
  "StagedWrite env writer d =
     (case writer of
        None \<Rightarrow> (Inl (InvalidArgument ''atomic_write requires a writer callback''), d)
      | Some w \<Rightarrow>
          (case and_then (os_ok (we_absolute env) ''cannot make absolute path'') (\<lambda>_.
                and_then (os_ok (we_create_directories env) ''cannot create directories'') (\<lambda>_.
                and_then (write_failure (we_open_directory env) ''open file directory'') (\<lambda>_.
                write_failure (we_mkostemp env) ''create temporary file''))) of
             Inl e \<Rightarrow> (Inl e, d)
           | Inr _ \<Rightarrow>
               let (r, content) = fill_temporary env w; d' = d\<lparr>temporary := Some content\<rparr> in
               case r of Inl e \<Rightarrow> (Inl e, unlink_temporary env d') | Inr _ \<Rightarrow> (Inr (), d')))"

text \<open>\<^verbatim>\<open>StagedWrite::publish\<close>; the flag says whether it has published.\<close>

definition publish_write :: "write_env \<Rightarrow> bool \<times> write_dir \<Rightarrow> unit result \<times> bool \<times> write_dir" where
  "publish_write env s =
     (let (published, d) = s in
      if published then (Inl (LogicError ''staged file is already published''), s)
      else case we_rename env of
        Some e \<Rightarrow> (Inl (SystemError e ''cannot rename''), s)
      | None \<Rightarrow>
          (case we_sync_directory env of
             Some e \<Rightarrow> Inl (AtomicWriteError e ''file replaced, but directory sync failed'' True)
           | None \<Rightarrow> Inr (),
           True, d\<lparr>entry := temporary d, temporary := None\<rparr>))"

definition atomic_write :: "write_env \<Rightarrow> stream_writer \<Rightarrow> write_dir \<Rightarrow> unit result \<times> write_dir" where
  "atomic_write env writer d =
     (case StagedWrite env writer d of
        (Inl e, d') \<Rightarrow> (Inl e, d')
      | (Inr _, d') \<Rightarrow>
          let (r, published, d'') = publish_write env (False, d') in
          (r, if published then d'' else unlink_temporary env d''))"

section \<open>New files\<close>

definition EEXIST :: nat where "EEXIST = 17"

record export_env =
  ee_absolute :: "nat + string"
  ee_open_directory :: "nat option"
  ee_openat :: "nat option"
  ee_fsync :: "nat option"
  ee_linkat :: "nat option"
  ee_unlinkat :: "nat option"
  ee_sync_directory :: "nat option"
  ee_destroy :: "nat option"

text \<open>The part of a path after its last slash.\<close>

definition filename :: "string \<Rightarrow> string" where
  "filename path = rev (takeWhile (\<lambda>c. c \<noteq> CHR ''/'') (rev path))"

text \<open>A live \<^verbatim>\<open>NewFile\<close>: whether it still owns its temporary name, and whether it has published.\<close>

record new_file =
  nf_owns :: bool
  nf_published :: bool

definition NewFile :: "export_env \<Rightarrow> write_dir \<Rightarrow> (new_file \<times> write_dir) result" where
  "NewFile env d =
     and_then (os (ee_absolute env) ''cannot make absolute path'') (\<lambda>path.
     if CHR 0x00 \<in> set path \<or> filename path = [] \<or> filename path = ''.'' \<or> filename path = ''..'' then
       Inl (InvalidArgument ''invalid export file path'')
     else
       and_then (write_failure (ee_open_directory env) ''open export parent directory'') (\<lambda>_.
       and_then (write_failure (ee_openat env) ''create export temporary file'') (\<lambda>_.
         Inr (\<lparr>nf_owns = True, nf_published = False\<rparr>, d\<lparr>temporary := Some []\<rparr>))))"

fun append_bytes :: "string \<Rightarrow> string \<Rightarrow> write_outcome list \<Rightarrow> unit result \<times> string" where
  "append_bytes [] written ws = (Inr (), written)"
| "append_bytes bytes written [] = (Inr (), written @ bytes)"
| "append_bytes bytes written (WriteInterrupted # ws) = append_bytes bytes written ws"
| "append_bytes bytes written (WriteFailed e # ws) =
     (Inl (AtomicWriteError e ''write export temporary file'' False), written)"
| "append_bytes bytes written (Wrote n # ws) = append_bytes (drop (Suc n) bytes) (written @ take (Suc n) bytes) ws"

definition temporary_text :: "write_dir \<Rightarrow> string" where
  "temporary_text d = (case temporary d of Some s \<Rightarrow> s | None \<Rightarrow> [])"

definition nf_append :: "write_outcome list \<Rightarrow> string \<Rightarrow> new_file \<times> write_dir \<Rightarrow> unit result \<times> new_file \<times> write_dir" where
  "nf_append ws bytes s =
     (let (f, d) = s in
      if nf_published f then (Inl (LogicError ''export is already published''), s)
      else
        let (r, content) = append_bytes bytes (temporary_text d) ws in
        (r, f, d\<lparr>temporary := Some content\<rparr>))"

text \<open>\<^verbatim>\<open>linkat\<close> refuses a name that exists.\<close>

definition link_entry :: "export_env \<Rightarrow> write_dir \<Rightarrow> write_dir result" where
  "link_entry env d =
     and_then (write_failure (if entry d \<noteq> None then Some EEXIST else ee_linkat env) ''publish export without overwrite'')
       (\<lambda>_. Inr (d\<lparr>entry := Some (temporary_text d)\<rparr>))"

definition nf_publish :: "export_env \<Rightarrow> new_file \<times> write_dir \<Rightarrow> unit result \<times> new_file \<times> write_dir" where
  "nf_publish env s =
     (let (f, d) = s in
      if nf_published f then (Inl (LogicError ''export is already published''), s)
      else
        case and_then (write_failure (ee_fsync env) ''sync export file'') (\<lambda>_. link_entry env d) of
          Inl e \<Rightarrow> (Inl e, s)
        | Inr d1 \<Rightarrow>
            let f1 = f\<lparr>nf_published := True\<rparr> in
            (case ee_unlinkat env of
               Some e \<Rightarrow> (Inl (AtomicWriteError e ''export published but temporary cleanup failed'' True), f1, d1)
             | None \<Rightarrow>
                 (case ee_sync_directory env of
                    Some e \<Rightarrow> Inl (AtomicWriteError e ''export published but directory sync failed'' True)
                  | None \<Rightarrow> Inr (),
                  f1\<lparr>nf_owns := False\<rparr>, d1\<lparr>temporary := None\<rparr>)))"

definition nf_destroy :: "export_env \<Rightarrow> new_file \<times> write_dir \<Rightarrow> write_dir" where
  "nf_destroy env s =
     (let (f, d) = s in if nf_owns f \<and> ee_destroy env = None then d\<lparr>temporary := None\<rparr> else d)"

text \<open>
  The export of \<^verbatim>\<open>hub_remote_call/src/receive.cpp\<close>: append every page, publish, and destroy the file in any case. A
  page arrives with the outcomes of its writes, or as the exception of a refused or lost page.
\<close>

fun append_pages :: "(exn + string \<times> write_outcome list) list \<Rightarrow> new_file \<times> write_dir \<Rightarrow> unit result \<times> new_file \<times> write_dir" where
  "append_pages [] s = (Inr (), s)"
| "append_pages (Inl e # pages) s = (Inl e, s)"
| "append_pages (Inr (text, ws) # pages) s =
     (let (r, s') = nf_append ws text s in case r of Inl e \<Rightarrow> (Inl e, s') | Inr _ \<Rightarrow> append_pages pages s')"

definition export_file ::
  "export_env \<Rightarrow> (exn + string \<times> write_outcome list) list \<Rightarrow> write_dir \<Rightarrow> unit result \<times> write_dir" where
  "export_file env pages d =
     (case NewFile env d of
        Inl e \<Rightarrow> (Inl e, d)
      | Inr s \<Rightarrow>
          let (r, s') = append_pages pages s in
          let (r', s'') = (case r of Inl e \<Rightarrow> (Inl e, s') | Inr _ \<Rightarrow> nf_publish env s') in
          (r', nf_destroy env s''))"

section \<open>Replacing an existing file\<close>

record editable_snapshot =
  sn_bytes :: string
  sn_identity :: file_identity

record snapshot_env =
  xs_open :: "nat + descriptor"
  xs_stat :: "nat + file_stat"
  xs_after :: "nat + file_stat"

definition read_editable_file :: "snapshot_env \<Rightarrow> string \<Rightarrow> nat \<Rightarrow> editable_snapshot result" where
  "read_editable_file env path max_bytes =
     (if max_bytes = size_max then Inl (InvalidArgument ''editable file limit leaves no lookahead byte'')
      else
        and_then (checked_path path) (\<lambda>_.
        and_then (os (xs_open env) ''open editable file'') (\<lambda>source.
        and_then (checked_regular (xs_stat env)) (\<lambda>opened.
        and_then (read_loop (max_bytes + 1) ''read editable file'' [] source) (\<lambda>bytes.
        if length bytes > max_bytes then Inl (LengthError ''editable file exceeds the configured byte limit'')
        else
          and_then (os (xs_after env) ''inspect read file'') (\<lambda>after_read.
          if \<not> same_file opened after_read \<or> st_size opened \<noteq> length bytes then
            Inl (ReplaceConflict ''file changed during initial read'')
          else Inr \<lparr>sn_bytes = bytes, sn_identity = identity_of opened\<rparr>))))))"

text \<open>The comparison loop of \<^verbatim>\<open>replace_existing.cpp\<close> and the read of one byte more.\<close>

fun expect_end :: "descriptor \<Rightarrow> unit result" where
  "expect_end [] = Inr ()"
| "expect_end (Interrupted # d) = expect_end d"
| "expect_end (ReadFailed e # d) = Inl (SystemError e ''compare editable file'')"
| "expect_end (Delivered s # d) = (if s = [] then Inr () else Inl (ReplaceConflict ''file grew before replacement''))"

function compare_snapshot :: "string \<Rightarrow> descriptor \<Rightarrow> unit result" where
  "compare_snapshot expected d =
     (if expected = [] then expect_end d
      else
        (case d of
           [] \<Rightarrow> Inl (ReplaceConflict ''file contents changed before replacement'')
         | Interrupted # d' \<Rightarrow> compare_snapshot expected d'
         | ReadFailed e # d' \<Rightarrow> Inl (SystemError e ''compare editable file'')
         | Delivered s # d' \<Rightarrow>
             let request = min 8192 (length expected); chunk = take request s in
             if s = [] \<or> chunk \<noteq> take (length chunk) expected then
               Inl (ReplaceConflict ''file contents changed before replacement'')
             else compare_snapshot (drop (length chunk) expected) (unread (drop request s) d')))"
  by pat_completeness auto
termination
  by (relation "measures [\<lambda>(expected, d). length expected, \<lambda>(expected, d). length d]") auto

declare compare_snapshot.simps [simp del]

record exist_env =
  xe_open :: "nat + descriptor"
  xe_stat :: "nat + file_stat"
  xe_compared_stat :: "nat + file_stat"
  xe_open_directory :: "nat option"
  xe_mkostemp :: "nat option"
  xe_writes :: "write_outcome list"
  xe_created_stat :: "nat + file_stat"
  xe_fchown :: "nat option"
  xe_fchmod :: "nat option"
  xe_fsync :: "nat option"
  xe_close :: "nat option"
  xe_current_stat :: "nat + file_stat"
  xe_rename :: "nat option"
  xe_sync_directory :: "nat option"
  xe_unlink :: "nat option"

text \<open>Up to the creation of the private file: everything that is checked of the file to be replaced.\<close>

definition verify_existing :: "exist_env \<Rightarrow> string \<Rightarrow> editable_snapshot \<Rightarrow> file_stat result" where
  "verify_existing env path expected =
     and_then (checked_path path) (\<lambda>_.
     and_then (os (xe_open env) ''open editable file'') (\<lambda>source.
     and_then (checked_regular (xe_stat env)) (\<lambda>original.
     if identity_of original \<noteq> sn_identity expected then
       Inl (ReplaceConflict ''file identity changed after initial read'')
     else if st_size original \<noteq> length (sn_bytes expected) then
       Inl (ReplaceConflict ''file size changed before replacement'')
     else
       and_then (compare_snapshot (sn_bytes expected) source) (\<lambda>_.
       and_then (os (xe_compared_stat env) ''inspect compared file'') (\<lambda>after_compare.
       if \<not> same_file original after_compare then Inl (ReplaceConflict ''file changed during comparison'')
       else Inr original)))))"

definition keep_owner :: "exist_env \<Rightarrow> file_stat \<Rightarrow> unit result" where
  "keep_owner env original =
     and_then (os (xe_created_stat env) ''inspect replacement file'') (\<lambda>created.
     if st_uid created \<noteq> st_uid original \<or> st_gid created \<noteq> st_gid original then
       os_ok (xe_fchown env) ''preserve editable file owner''
     else Inr ())"

text \<open>From the filled private file to the last check before the rename.\<close>

definition seal_replacement :: "exist_env \<Rightarrow> file_stat \<Rightarrow> unit result" where
  "seal_replacement env original =
     and_then (keep_owner env original) (\<lambda>_.
     and_then (os_ok (xe_fchmod env) ''preserve editable file permissions'') (\<lambda>_.
     and_then (os_ok (xe_fsync env) ''sync replacement file'') (\<lambda>_.
     and_then (os_ok (xe_close env) ''close replacement file'') (\<lambda>_.
     and_then
       (case xe_current_stat env of
          Inl e \<Rightarrow> if e = ENOENT then Inl (ReplaceConflict ''file disappeared before replacement'')
                  else Inl (SystemError e ''inspect file before replacement'')
        | Inr current \<Rightarrow> Inr current) (\<lambda>current.
     if \<not> same_file original current then Inl (ReplaceConflict ''file changed before replacement'')
     else os_ok (xe_rename env) ''publish replacement file'')))))"

definition replace_existing_file ::
  "exist_env \<Rightarrow> string \<Rightarrow> editable_snapshot \<Rightarrow> string \<Rightarrow> write_dir \<Rightarrow> unit result \<times> write_dir" where
  "replace_existing_file env path expected new_text d =
     (case and_then (verify_existing env path expected) (\<lambda>original.
           and_then (os_ok (xe_open_directory env) ''open editable file directory'') (\<lambda>_.
           and_then (os_ok (xe_mkostemp env) ''create replacement file'') (\<lambda>_. Inr original))) of
        Inl e \<Rightarrow> (Inl e, d)
      | Inr original \<Rightarrow>
          (case and_then (write_all new_text (xe_writes env)) (\<lambda>_. seal_replacement env original) of
             Inl e \<Rightarrow>
               (Inl e, d\<lparr>temporary := (if xe_unlink env = None then None
                                   else Some (fst (snd (sync_bytes new_text [] (xe_writes env)))))\<rparr>)
           | Inr _ \<Rightarrow>
               (case xe_sync_directory env of
                  Some e \<Rightarrow> Inl (AtomicWriteError e ''replacement published, but directory sync failed'' True)
                | None \<Rightarrow> Inr (),
                d\<lparr>entry := Some new_text, temporary := None\<rparr>)))"

section \<open>The contract of a publishing helper\<close>

text \<open>A result that tells the caller that the destination was replaced.\<close>

fun published_result :: "unit result \<Rightarrow> bool" where
  "published_result (Inr _) = True"
| "published_result (Inl (AtomicWriteError _ _ published)) = published"
| "published_result (Inl _) = False"

text \<open>
  A helper that publishes one content: the entry changes exactly when the result says so. A caller may then run it
  again under any calls (\<open>again\<close>) and knows from the results alone what the destination holds.
\<close>

locale publisher =
  fixes run :: "'env \<Rightarrow> write_dir \<Rightarrow> unit result \<times> write_dir"
    and content :: string
  assumes exact: "run env d = (r, d') \<Longrightarrow> entry d' = (if published_result r then Some content else entry d)"
begin

fun again :: "'env list \<Rightarrow> write_dir \<Rightarrow> unit result list \<times> write_dir" where
  "again [] d = ([], d)"
| "again (env # envs) d = (let (r, d') = run env d; (rs, d'') = again envs d' in (r # rs, d''))"

lemma again_exact:
  "again envs d = (rs, d') \<Longrightarrow> entry d' = (if \<exists>r \<in> set rs. published_result r then Some content else entry d)"
proof (induction envs arbitrary: d rs)
  case (Cons env envs)
  obtain r d1 where r: "run env d = (r, d1)" by fastforce
  obtain rs1 where "again envs d1 = (rs1, d')" "rs = r # rs1"
    using Cons.prems r by (auto split: prod.splits)
  with Cons.IH [OF this(1)] exact [OF r] show ?case by auto
qed auto

lemma old_or_new: "run env d = (r, d') \<Longrightarrow> entry d' = entry d \<or> entry d' = Some content"
  by (auto dest: exact split: if_splits)

end

text \<open>One that moreover publishes only where nothing exists.\<close>

locale exclusive_publisher = publisher +
  assumes fresh: "run env d = (r, d') \<Longrightarrow> published_result r \<Longrightarrow> entry d = None"
begin

lemma never_overwrites: "again envs d = (rs, d') \<Longrightarrow> entry d = Some s \<Longrightarrow> entry d' = Some s"
proof (induction envs arbitrary: d rs)
  case (Cons env envs)
  obtain r d1 where r: "run env d = (r, d1)" by fastforce
  obtain rs1 where "again envs d1 = (rs1, d')"
    using Cons.prems r by (auto split: prod.splits)
  moreover have "entry d1 = Some s"
    using exact [OF r] fresh [OF r] Cons.prems(2) by auto
  ultimately show ?case by (rule Cons.IH)
qed simp

end

section \<open>The buffer loses nothing\<close>

lemma sync_bytes_True: "sync_bytes bytes written ws = (True, written', ws') \<Longrightarrow> written' = written @ bytes"
  by (induction bytes written ws rule: sync_bytes.induct) auto

lemma fb_sync_True: "fb_sync b = (True, b') \<Longrightarrow> fb_written b' = fb_written b @ fb_pending b \<and> fb_pending b' = []"
  by (auto simp: fb_sync_def dest: sync_bytes_True split: prod.splits)

lemma fb_put_True:
  "fb_put c b = (True, b') \<Longrightarrow> fb_written b' @ fb_pending b' = fb_written b @ fb_pending b @ [c]"
  by (auto simp: fb_put_def dest!: fb_sync_True split: prod.splits if_splits)

lemma fb_puts_True:
  "fb_puts cs b = (True, b') \<Longrightarrow> fb_written b' @ fb_pending b' = fb_written b @ fb_pending b @ cs"
proof (induction cs arbitrary: b)
  case (Cons c cs)
  then obtain b1 where b1: "fb_put c b = (True, b1)" "fb_puts cs b1 = (True, b')"
    by (auto split: prod.splits if_splits)
  then show ?case using Cons.IH [OF b1(2)] fb_put_True [OF b1(1)] by (metis append.assoc append_Cons append_Nil)
qed simp

lemma call_writer_Inr:
  "call_writer w b = (Inr u, b') \<Longrightarrow>
   snd w = None \<and> fb_written b' @ fb_pending b' = fb_written b @ fb_pending b @ concat (fst w)"
proof (induction w b rule: call_writer.induct)
  case (2 chunk chunks failure b)
  obtain b1 where b1: "fb_puts chunk b = (True, b1)" "call_writer (chunks, failure) b1 = (Inr u, b')"
    using "2.prems" by (auto split: prod.splits if_splits)
  from "2.IH" [OF b1(1) [symmetric] refl _ b1(2)] fb_puts_True [OF b1(1)] show ?case
    by (metis append.assoc concat.simps(2) fst_conv snd_conv)
qed (auto split: option.splits)

lemma call_writer_Inl:
  "call_writer w b = (Inl e, b') \<Longrightarrow> e = stream_failure \<or> snd w = Some e"
  by (induction w b rule: call_writer.induct) (auto split: option.splits prod.splits if_splits)

lemma fill_temporary_Inr:
  "fill_temporary env w = (Inr u, content) \<Longrightarrow> content = concat (fst w) \<and> snd w = None"
  by (auto simp: fill_temporary_def and_then_eq_Inr dest!: call_writer_Inr fb_sync_True
      split: prod.splits sum.splits if_splits)

section \<open>Atomic writing is exact\<close>

lemma published_result_failures [simp]:
  "write_failure f op = Inl e \<Longrightarrow> \<not> published_result (Inl e)"
  "os_ok f op = Inl e \<Longrightarrow> \<not> published_result (Inl e)"
  "os x op = Inl e \<Longrightarrow> \<not> published_result (Inl e)"
  by (auto simp: write_failure_def os_ok_def os_def split: option.splits sum.splits)

lemma and_then_eq_Inl: "and_then m f = Inl e \<longleftrightarrow> m = Inl e \<or> (\<exists>x. m = Inr x \<and> f x = Inl e)"
  by (cases m) auto

lemma fill_temporary_Inl:
  assumes "fill_temporary env w = (Inl e, content)" "snd w = None \<or> \<not> published_result (Inl (the (snd w)))"
  shows "\<not> published_result (Inl e)"
proof -
  obtain r b where r: "call_writer w \<lparr>fb_pending = [], fb_written = [], fb_writes = we_writes env\<rparr> = (r, b)"
    by fastforce
  show ?thesis
  proof (cases r)
    case (Inl e')
    then show ?thesis
      using assms r call_writer_Inl [OF r [unfolded Inl]] by (auto simp: fill_temporary_def stream_failure_def)
  next
    case (Inr u)
    with assms r show ?thesis
      by (auto simp: fill_temporary_def and_then_eq_Inl stream_failure_def split: prod.splits if_splits)
  qed
qed

lemma StagedWrite_Inr:
  "StagedWrite env (Some w) d = (Inr u, d') \<Longrightarrow> d' = d\<lparr>temporary := Some (concat (fst w))\<rparr> \<and> snd w = None"
  by (auto simp: StagedWrite_def Let_def dest: fill_temporary_Inr split: sum.splits prod.splits)

lemma StagedWrite_Inl:
  assumes "StagedWrite env (Some w) d = (Inl e, d')" "snd w = None \<or> \<not> published_result (Inl (the (snd w)))"
  shows "entry d' = entry d \<and> \<not> published_result (Inl e) \<and>
    (we_unlink env = None \<longrightarrow> temporary d' \<in> {None, temporary d})"
proof (cases "and_then (os_ok (we_absolute env) ''cannot make absolute path'') (\<lambda>_.
    and_then (os_ok (we_create_directories env) ''cannot create directories'') (\<lambda>_.
    and_then (write_failure (we_open_directory env) ''open file directory'') (\<lambda>_.
    write_failure (we_mkostemp env) ''create temporary file'')))")
  case (Inl e')
  then have "\<not> published_result (Inl e')"
    by (auto simp: and_then_eq_Inl)
  with Inl assms(1) show ?thesis by (simp add: StagedWrite_def)
next
  case (Inr u)
  obtain r content where "fill_temporary env w = (r, content)" by fastforce
  then show ?thesis
    using Inr assms fill_temporary_Inl [of env w e content]
    by (cases r) (auto simp: StagedWrite_def Let_def unlink_temporary_def)
qed

lemma publish_write_cases:
  "publish_write env (False, d) = (r, published, d') \<Longrightarrow>
   published_result r = published \<and> d' = (if published then d\<lparr>entry := temporary d, temporary := None\<rparr> else d)"
  by (auto simp: publish_write_def split: option.splits)

lemma atomic_write_outcome:
  assumes "atomic_write env (Some (chunks, failure)) d = (r, d')"
    and "failure = None \<or> \<not> published_result (Inl (the failure))"
  shows "entry d' = (if published_result r then Some (concat chunks) else entry d) \<and>
    (published_result r \<longrightarrow> failure = None \<and> temporary d' = None) \<and>
    (we_unlink env = None \<longrightarrow> temporary d' \<in> {None, temporary d})"
proof -
  obtain s d1 where s: "StagedWrite env (Some (chunks, failure)) d = (s, d1)" by fastforce
  show ?thesis
  proof (cases s)
    case (Inl e)
    then show ?thesis
      using assms s StagedWrite_Inl [OF s [unfolded Inl]] by (auto simp: atomic_write_def)
  next
    case (Inr u)
    obtain r1 p d2 where p: "publish_write env (False, d1) = (r1, p, d2)" by (metis prod_cases3)
    show ?thesis
      using assms(1) s Inr p publish_write_cases [OF p] StagedWrite_Inr [OF s [unfolded Inr]]
      by (auto simp: atomic_write_def unlink_temporary_def)
  qed
qed

interpretation written: publisher "\<lambda>env. atomic_write env (Some (chunks, None))" "concat chunks" for chunks
  by unfold_locales (auto dest: atomic_write_outcome)

text \<open>
  C36. Whatever the system calls and the writer callback do, \<^verbatim>\<open>atomic_write\<close> replaces the destination exactly when it
  returns or throws an error that says published, and then by exactly the bytes the callback streamed; otherwise
  the destination is as before. A throwing callback never publishes. No private file stays behind unless the calls
  that remove it fail. The hypothesis excludes a callback that itself throws an error saying published.
\<close>

theorem atomic_write_exact:
  assumes "atomic_write env (Some (chunks, failure)) d = (r, d')"
    and "failure = None \<or> \<not> published_result (Inl (the failure))"
  shows "entry d' = (if published_result r then Some (concat chunks) else entry d) \<and>
    (published_result r \<longrightarrow> failure = None \<and> temporary d' = None) \<and>
    (we_unlink env = None \<longrightarrow> temporary d' \<in> {None, temporary d})"
  using assms by (rule atomic_write_outcome)

definition working_env :: "write_outcome list \<Rightarrow> write_env" where
  "working_env ws =
     \<lparr>we_absolute = None, we_create_directories = None, we_open_directory = None, we_mkostemp = None, we_writes = ws,
      we_fsync = None, we_close = None, we_unlink = None, we_rename = None, we_sync_directory = None\<rparr>"

theorem atomic_write_exact_witness:
  "atomic_write (working_env [WriteInterrupted, Wrote 0]\<lparr>we_sync_directory := Some 5\<rparr>) (Some ([''ab'', ''c''], None))
      \<lparr>entry = Some ''old'', temporary = None\<rparr> =
     (Inl (AtomicWriteError 5 ''file replaced, but directory sync failed'' True), \<lparr>entry = Some ''abc'', temporary = None\<rparr>)
   \<and> entry \<lparr>entry = Some ''abc'', temporary = None\<rparr> = Some (concat [''ab'', ''c''])"
proof -
  have run: "atomic_write (working_env [WriteInterrupted, Wrote 0]\<lparr>we_sync_directory := Some 5\<rparr>) (Some ([''ab'', ''c''], None))
      \<lparr>entry = Some ''old'', temporary = None\<rparr> =
     (Inl (AtomicWriteError 5 ''file replaced, but directory sync failed'' True), \<lparr>entry = Some ''abc'', temporary = None\<rparr>)"
    by code_simp
  then show ?thesis using atomic_write_exact [OF run] by simp
qed
section \<open>New files never overwrite\<close>

lemma write_failure_simps [simp]:
  "write_failure None op = Inr ()" "write_failure (Some e) op = Inl (AtomicWriteError e op False)"
  by (simp_all add: write_failure_def)

lemma append_bytes_Inr: "append_bytes bytes written ws = (Inr u, s) \<Longrightarrow> s = written @ bytes"
  by (induction bytes written ws rule: append_bytes.induct) auto

lemma append_bytes_Inl: "append_bytes bytes written ws = (Inl e, s) \<Longrightarrow> \<not> published_result (Inl e)"
  by (induction bytes written ws rule: append_bytes.induct) auto

text \<open>What every step before publication keeps.\<close>

definition collecting :: "write_dir \<Rightarrow> string \<Rightarrow> new_file \<times> write_dir \<Rightarrow> bool" where
  "collecting d body s \<longleftrightarrow> nf_owns (fst s) \<and> \<not> nf_published (fst s) \<and> entry (snd s) = entry d \<and> temporary (snd s) = Some body"

lemma nf_append_collecting:
  "nf_append ws bytes s = (r, s') \<Longrightarrow> collecting d body s \<Longrightarrow>
   (case r of Inl e \<Rightarrow> \<not> published_result (Inl e) \<and> (\<exists>part. collecting d part s') | Inr _ \<Rightarrow> collecting d (body @ bytes) s')"
  by (auto simp: nf_append_def collecting_def temporary_text_def
      dest: append_bytes_Inr append_bytes_Inl split: prod.splits sum.splits)

text \<open>A page that did not arrive is not itself the report of a publication.\<close>

abbreviation pages_ok :: "(exn + string \<times> write_outcome list) list \<Rightarrow> bool" where
  "pages_ok pages \<equiv> list_all (\<lambda>p. case p of Inl e \<Rightarrow> \<not> published_result (Inl e) | Inr _ \<Rightarrow> True) pages"

fun pages_text :: "(exn + string \<times> write_outcome list) list \<Rightarrow> string" where
  "pages_text [] = []"
| "pages_text (Inl e # pages) = []"
| "pages_text (Inr (text, ws) # pages) = text @ pages_text pages"

lemma append_pages_collecting:
  "append_pages pages s = (r, s') \<Longrightarrow> collecting d body s \<Longrightarrow> pages_ok pages \<Longrightarrow>
   (case r of Inl e \<Rightarrow> \<not> published_result (Inl e) \<and> (\<exists>part. collecting d part s')
    | Inr _ \<Rightarrow> collecting d (body @ pages_text pages) s')"
proof (induction pages s arbitrary: body rule: append_pages.induct)
  case (3 page ws pages s)
  obtain q s1 where q: "nf_append ws page s = (q, s1)" by (metis surj_pair)
  show ?case
  proof (cases q)
    case (Inl e)
    then show ?thesis using "3.prems" q nf_append_collecting [OF q "3.prems"(2)] by auto
  next
    case (Inr u)
    have "append_pages pages s1 = (r, s')" "collecting d (body @ page) s1" "pages_ok pages"
      using "3.prems" q Inr nf_append_collecting [OF q "3.prems"(2)] by auto
    from "3.IH" [OF q [symmetric] refl Inr this] show ?thesis by (cases r) simp_all
  qed
qed auto

lemma nf_publish_collecting:
  assumes "nf_publish env s = (r, s')" "collecting d body s"
  shows "entry (snd s') = (if published_result r then Some body else entry d) \<and>
    (published_result r \<longrightarrow> entry d = None) \<and> (r = Inr () \<longrightarrow> temporary (snd s') = None)"
  using assms
  by (cases "ee_fsync env"; cases "entry d"; cases "ee_linkat env"; cases "ee_unlinkat env"; cases "ee_sync_directory env")
    (auto simp: nf_publish_def collecting_def link_entry_def temporary_text_def Let_def split: prod.splits)

lemma nf_destroy_entry [simp]: "entry (nf_destroy env s) = entry (snd s)"
  by (auto simp: nf_destroy_def split: prod.splits)

lemma NewFile_cases:
  "NewFile env d = Inr s \<Longrightarrow> collecting d [] s"
  "NewFile env d = Inl e \<Longrightarrow> \<not> published_result (Inl e)"
  by (auto simp: NewFile_def collecting_def and_then_eq_Inr and_then_eq_Inl split: if_splits)

lemma export_file_outcome:
  assumes "export_file env pages d = (r, d')" "pages_ok pages"
  shows "entry d' = (if published_result r then Some (pages_text pages) else entry d) \<and>
    (published_result r \<longrightarrow> entry d = None)"
proof (cases "NewFile env d")
  case (Inl e)
  then show ?thesis using assms NewFile_cases(2) [OF Inl] by (simp add: export_file_def)
next
  case (Inr s)
  obtain q s1 where q: "append_pages pages s = (q, s1)" by (metis surj_pair)
  note q' = append_pages_collecting [OF q NewFile_cases(1) [OF Inr] assms(2)]
  show ?thesis
  proof (cases q)
    case (Inl e)
    then show ?thesis using assms Inr q q' by (auto simp: export_file_def collecting_def)
  next
    case u: (Inr u)
    obtain r1 s2 where p: "nf_publish env s1 = (r1, s2)" by (metis surj_pair)
    then show ?thesis
      using assms Inr q q' u nf_publish_collecting [OF p] by (auto simp: export_file_def)
  qed
qed

text \<open>The pages of a complete export, with any outcomes of their writes.\<close>

abbreviation arrived :: "(nat \<Rightarrow> write_outcome list) \<Rightarrow> string list \<Rightarrow> (exn + string \<times> write_outcome list) list" where
  "arrived outcomes texts \<equiv> map (\<lambda>(i, page). Inr (page, outcomes i)) (enumerate 0 texts)"

lemma pages_text_arrived: "pages_text (map (\<lambda>(i, page). Inr (page, outcomes i)) (enumerate n texts)) = concat texts"
  by (induction texts arbitrary: n) auto

interpretation exported: exclusive_publisher
  "\<lambda>(env, outcomes). export_file env (arrived outcomes texts)" "concat texts" for texts
proof
  fix env :: "export_env \<times> (nat \<Rightarrow> write_outcome list)" and d r d'
  assume run: "(case env of (env, outcomes) \<Rightarrow> export_file env (arrived outcomes texts)) d = (r, d')"
  obtain e outcomes where "env = (e, outcomes)" by fastforce
  with run have run: "export_file e (arrived outcomes texts) d = (r, d')" by simp
  have "pages_ok (arrived outcomes texts)" by (auto simp: list_all_iff)
  note out = export_file_outcome [OF run this, unfolded pages_text_arrived]
  from out show "entry d' = (if published_result r then Some (concat texts) else entry d)" by simp
  from out show "published_result r \<Longrightarrow> entry d = None" by simp
qed
section \<open>Reading\<close>

text \<open>Reading from a descriptor that neither fails nor ends early gives the first bytes of the file.\<close>

lemma faultless_unread: "faultless (Delivered s # d) \<Longrightarrow> faultless (unread t d)"
  by (auto simp: faultless_def steady_def unread_def)

lemma delivered_unread: "delivered (unread s d) = s @ delivered d"
  by (simp add: unread_def)

lemma read_loop_reads_as:
  "faultless d \<Longrightarrow> length bytes \<le> max_bytes \<Longrightarrow>
   read_loop max_bytes operation bytes d = Inr (take max_bytes (bytes @ delivered d))"
proof (induction max_bytes operation bytes d rule: read_loop.induct)
  case (1 max_bytes operation bytes d)
  show ?case
  proof (cases "length bytes < max_bytes")
    case more: True
    show ?thesis
    proof (cases d)
      case Nil
      with 1 show ?thesis by (subst read_loop.simps) simp
    next
      case (Cons out d')
      show ?thesis
      proof (cases out)
        case Interrupted
        have "faultless d'" using 1(3) Cons by (auto simp: faultless_def steady_def)
        with 1(1) [OF more Cons Interrupted] more Cons Interrupted show ?thesis
          by (subst read_loop.simps) simp
      next
        case (ReadFailed e)
        with 1(3) Cons show ?thesis by (auto simp: faultless_def)
      next
        case (Delivered s)
        let ?request = "min (max_bytes - length bytes) 8192"
        have s: "s \<noteq> []" using 1(3) Cons Delivered by (auto simp: faultless_def steady_def)
        have "faultless (unread (drop ?request s) d')"
          using 1(3) Cons Delivered by (auto intro: faultless_unread)
        moreover have "length (bytes @ take ?request s) \<le> max_bytes" using more by auto
        ultimately have "read_loop max_bytes operation (bytes @ take ?request s) (unread (drop ?request s) d') =
            Inr (take max_bytes ((bytes @ take ?request s) @ delivered (unread (drop ?request s) d')))"
          using 1(2) [OF more Cons Delivered s refl] by blast
        moreover have "(bytes @ take ?request s) @ delivered (unread (drop ?request s) d') = bytes @ delivered d"
          using Cons Delivered by (simp only: delivered_unread append_assoc delivered.simps) simp
        moreover have "read_loop max_bytes operation bytes d =
            read_loop max_bytes operation (bytes @ take ?request s) (unread (drop ?request s) d')"
          using more Cons Delivered s by (subst read_loop.simps) (simp add: Let_def)
        ultimately show ?thesis by metis
      qed
    qed
  next
    case False
    with 1(4) show ?thesis by (subst read_loop.simps) simp
  qed
qed


section \<open>Snapshots and their replacement\<close>

text \<open>
  A comparison that succeeds has read exactly the expected bytes and then the end of the file: reading the same
  descriptor with room for one byte more gives the expected bytes back.
\<close>

lemma expect_end_read:
  "expect_end d = Inr u \<Longrightarrow> read_loop max_bytes operation bytes d = Inr bytes"
proof (induction d rule: expect_end.induct)
  case (2 d)
  then show ?case by (subst read_loop.simps) simp
qed (subst read_loop.simps, simp split: if_splits)+

lemma compare_snapshot_read:
  "compare_snapshot expected d = Inr u \<Longrightarrow> length bytes + length expected < max_bytes \<Longrightarrow>
   read_loop max_bytes operation bytes d = Inr (bytes @ expected)"
proof (induction expected d arbitrary: bytes rule: compare_snapshot.induct)
  case (1 expected d)
  show ?case
  proof (cases "expected = []")
    case True
    with 1(3) have "expect_end d = Inr u" by (simp add: compare_snapshot.simps)
    with True show ?thesis by (simp add: expect_end_read)
  next
    case more: False
    with 1(3) obtain out d' where d: "d = out # d'"
      by (cases d) (auto simp: compare_snapshot.simps)
    show ?thesis
    proof (cases out)
      case Interrupted
      have "compare_snapshot expected d' = Inr u"
        using 1(3) more unfolding d Interrupted by (subst (asm) compare_snapshot.simps) simp
      from 1(1) [OF more d Interrupted this 1(4)] 1(4) d Interrupted show ?thesis
        by (subst read_loop.simps) simp
    next
      case (ReadFailed e)
      with 1(3) more show ?thesis unfolding d by (subst (asm) compare_snapshot.simps) simp
    next
      case (Delivered s)
      let ?r = "min 8192 (length expected)" and ?q = "min (max_bytes - length bytes) 8192"
      have s: "s \<noteq> []" "take ?r s = take (length (take ?r s)) expected"
        and rest: "compare_snapshot (drop (length (take ?r s)) expected) (unread (drop ?r s) d') = Inr u"
        using 1(3) more unfolding d Delivered
        by (subst (asm) compare_snapshot.simps; auto simp: Let_def split: if_splits)+
      have "expected = take ?r s @ drop (length (take ?r s)) expected"
        using s(2) by (metis append_take_drop_id)
      moreover have "read_loop max_bytes operation (bytes @ take ?r s) (unread (drop ?r s) d') =
          Inr ((bytes @ take ?r s) @ drop (length (take ?r s)) expected)"
        using 1(2) [OF more d Delivered refl refl _ rest] s 1(4) by auto
      moreover have "take ?q s = take ?r s \<and> drop ?q s = drop ?r s"
      proof (cases "length s \<le> ?r \<or> ?r = 8192")
        case True
        with 1(4) show ?thesis by (auto simp: min_def)
      next
        case False
        then have "drop (length (take ?r s)) expected = []" "drop ?r s \<noteq> []" by auto
        with rest show ?thesis by (simp add: compare_snapshot.simps [of "[]"] unread_def)
      qed
      moreover have "read_loop max_bytes operation bytes d =
          read_loop max_bytes operation (bytes @ take ?q s) (unread (drop ?q s) d')"
        using 1(4) s(1) unfolding d Delivered by (subst read_loop.simps) (simp add: Let_def)
      ultimately show ?thesis by (metis append_assoc)
    qed
  qed
qed

lemma write_all_Inl: "write_all bytes ws = Inl e \<Longrightarrow> \<not> published_result (Inl e)"
  by (induction bytes ws rule: write_all.induct) (auto split: if_splits write_outcome.splits)

lemma compare_snapshot_Inl: "compare_snapshot expected d = Inl e \<Longrightarrow> \<not> published_result (Inl e)"
proof (induction expected d rule: compare_snapshot.induct)
  case (1 expected d)
  have "expect_end d = Inl e \<Longrightarrow> \<not> published_result (Inl e)"
    by (induction d rule: expect_end.induct) (auto split: if_splits)
  with 1(1,2) 1(3) [unfolded compare_snapshot.simps [of expected d]] show ?case
    by (auto simp: Let_def split: if_splits list.splits read_outcome.splits)
qed

lemma checked_regular_Inl: "checked_regular f = Inl e \<Longrightarrow> \<not> published_result (Inl e)"
  by (auto simp: checked_regular_def and_then_eq_Inl split: if_splits)

lemma verify_existing_Inl: "verify_existing env path expected = Inl e \<Longrightarrow> \<not> published_result (Inl e)"
  by (auto simp: verify_existing_def and_then_eq_Inl checked_path_def dest: compare_snapshot_Inl checked_regular_Inl
      split: if_splits)

lemma verify_existing_Inr:
  assumes "verify_existing env path expected = Inr original"
  shows "\<exists>source. xe_open env = Inr source \<and> xe_stat env = Inr original \<and> identity_of original = sn_identity expected \<and>
    (\<forall>op. read_loop (Suc (length (sn_bytes expected))) op [] source = Inr (sn_bytes expected))"
  using assms compare_snapshot_read [of "sn_bytes expected" _ _ "[]" "Suc (length (sn_bytes expected))"]
  by (auto simp: verify_existing_def and_then_eq_Inr checked_regular_def os_def split: if_splits sum.splits)

lemma seal_replacement_Inl: "seal_replacement env original = Inl e \<Longrightarrow> \<not> published_result (Inl e)"
  by (auto simp: seal_replacement_def keep_owner_def and_then_eq_Inl split: if_splits sum.splits)

lemma seal_replacement_Inr:
  "seal_replacement env original = Inr u \<Longrightarrow> \<exists>current. xe_current_stat env = Inr current \<and> same_file original current"
  by (auto simp: seal_replacement_def and_then_eq_Inr split: if_splits sum.splits)

lemma replace_existing_outcome:
  assumes "replace_existing_file env path expected new_text d = (r, d')"
  shows "entry d' = (if published_result r then Some new_text else entry d) \<and>
    (xe_unlink env = None \<longrightarrow> temporary d' \<in> {None, temporary d}) \<and>
    (published_result r \<longrightarrow> (\<exists>source original current.
       xe_open env = Inr source \<and> xe_stat env = Inr original \<and> identity_of original = sn_identity expected \<and>
       (\<forall>op. read_loop (Suc (length (sn_bytes expected))) op [] source = Inr (sn_bytes expected)) \<and>
       xe_current_stat env = Inr current \<and> same_file original current))"
proof (cases "and_then (verify_existing env path expected) (\<lambda>original.
    and_then (os_ok (xe_open_directory env) ''open editable file directory'') (\<lambda>_.
    and_then (os_ok (xe_mkostemp env) ''create replacement file'') (\<lambda>_. Inr original)))")
  case (Inl e)
  then have "\<not> published_result (Inl e)"
    by (auto simp: and_then_eq_Inl dest: verify_existing_Inl)
  with Inl assms show ?thesis by (simp add: replace_existing_file_def)
next
  case (Inr original)
  then have v: "verify_existing env path expected = Inr original" by (auto simp: and_then_eq_Inr)
  show ?thesis
  proof (cases "and_then (write_all new_text (xe_writes env)) (\<lambda>_. seal_replacement env original)")
    case (Inl e)
    then have "\<not> published_result (Inl e)"
      by (auto simp: and_then_eq_Inl dest: write_all_Inl seal_replacement_Inl)
    with Inl Inr assms show ?thesis by (auto simp: replace_existing_file_def)
  next
    case u: (Inr u)
    then have "seal_replacement env original = Inr u" by (auto simp: and_then_eq_Inr)
    note facts = seal_replacement_Inr [OF this] verify_existing_Inr [OF v]
    have "(case xe_sync_directory env of
          Some e \<Rightarrow> Inl (AtomicWriteError e ''replacement published, but directory sync failed'' True) | None \<Rightarrow> Inr (),
        d\<lparr>entry := Some new_text, temporary := None\<rparr>) = (r, d')"
      using assms by (simp add: replace_existing_file_def Inr u)
    with facts show ?thesis by (cases "xe_sync_directory env") auto
  qed
qed

interpretation replaced: publisher "\<lambda>(env, path, expected). replace_existing_file env path expected new_text" new_text for new_text
  by unfold_locales (auto dest: replace_existing_outcome split: prod.splits)

text \<open>
  C37. Whatever the system calls do, a file is replaced exactly when \<^verbatim>\<open>replace_existing_file\<close> returns or throws an error that
  says published, and then by exactly the given bytes. It is replaced only if the file opened for the comparison had the
  identity of the snapshot, gave exactly the bytes of the snapshot when read again to its end, and was still the same
  file under the destination's name at the last look before the rename. No private file stays behind if unlinking works.
\<close>

theorem replace_existing_verified:
  assumes "replace_existing_file env path expected new_text d = (r, d')"
  shows "entry d' = (if published_result r then Some new_text else entry d) \<and>
    (xe_unlink env = None \<longrightarrow> temporary d' \<in> {None, temporary d}) \<and>
    (published_result r \<longrightarrow> (\<exists>source original current.
       xe_open env = Inr source \<and> xe_stat env = Inr original \<and> identity_of original = sn_identity expected \<and>
       (\<forall>op. read_loop (Suc (length (sn_bytes expected))) op [] source = Inr (sn_bytes expected)) \<and>
       xe_current_stat env = Inr current \<and> same_file original current))"
  using assms by (rule replace_existing_outcome)

definition quiet_env :: "descriptor \<Rightarrow> file_stat \<Rightarrow> exist_env" where
  "quiet_env source st =
     \<lparr>xe_open = Inr source, xe_stat = Inr st, xe_compared_stat = Inr st, xe_open_directory = None, xe_mkostemp = None,
      xe_writes = [Wrote 0], xe_created_stat = Inr st, xe_fchown = None, xe_fchmod = None, xe_fsync = None, xe_close = None,
      xe_current_stat = Inr st, xe_rename = None, xe_sync_directory = None, xe_unlink = None\<rparr>"

theorem replace_existing_verified_witness:
  "replace_existing_file (quiet_env [Delivered ''o'', Interrupted, Delivered ''ld''] (plain_stat 3)) ''/f''
      \<lparr>sn_bytes = ''old'', sn_identity = identity_of (plain_stat 3)\<rparr> ''new'' \<lparr>entry = Some ''old'', temporary = None\<rparr>
     = (Inr (), \<lparr>entry = Some ''new'', temporary = None\<rparr>)
   \<and> entry \<lparr>entry = Some ''new'', temporary = None\<rparr> = Some ''new''"
proof -
  have run: "replace_existing_file (quiet_env [Delivered ''o'', Interrupted, Delivered ''ld''] (plain_stat 3)) ''/f''
      \<lparr>sn_bytes = ''old'', sn_identity = identity_of (plain_stat 3)\<rparr> ''new'' \<lparr>entry = Some ''old'', temporary = None\<rparr>
     = (Inr (), \<lparr>entry = Some ''new'', temporary = None\<rparr>)"
    by (simp add: replace_existing_file_def verify_existing_def quiet_env_def plain_stat_def checked_path_def os_def os_ok_def
        checked_regular_def s_isreg_def special_bits_def identity_of_def compare_snapshot.simps unread_def same_file_def
        seal_replacement_def keep_owner_def)
  then show ?thesis using replace_existing_verified [OF run] by simp
qed

section \<open>Clients\<close>

definition base64_encode_file :: "prefix_env \<Rightarrow> nat \<Rightarrow> string \<Rightarrow> string result" where
  "base64_encode_file env max_size path = and_then (read_prefix env path size_max) (base64_encode max_size)"

definition base64_decode_file :: "write_env \<Rightarrow> string \<Rightarrow> write_dir \<Rightarrow> unit result \<times> write_dir" where
  "base64_decode_file env encoded d =
     (case base64_decode encoded of
        Inl e \<Rightarrow> (Inl e, d)
      | Inr bytes \<Rightarrow> atomic_write env (Some ([bytes], None)) d)"

text \<open>
  \<^verbatim>\<open>publish\<close> of \<^verbatim>\<open>manager/src/service.cpp\<close>: no component of the path may be a symbolic link; an existing file is
  read and replaced, a new one is written.
\<close>

datatype path_status = StatusFailed nat | IsSymlink | PlainStatus

fun ordinary_path :: "path_status list \<Rightarrow> unit result" where
  "ordinary_path [] = Inr ()"
| "ordinary_path (StatusFailed e # ps) = (if e \<noteq> ENOENT then Inl (SystemError e []) else ordinary_path ps)"
| "ordinary_path (IsSymlink # ps) = Inl (OtherException ''managed paths must not contain symbolic links'')"
| "ordinary_path (PlainStatus # ps) = ordinary_path ps"

record control_env =
  ce_components :: "path_status list"
  ce_exists :: "nat + bool"
  ce_snapshot :: snapshot_env
  ce_replace :: exist_env
  ce_write :: write_env

definition publish_control :: "control_env \<Rightarrow> string \<Rightarrow> string \<Rightarrow> write_dir \<Rightarrow> unit result \<times> write_dir" where
  "publish_control env path bytes d =
     (case and_then (ordinary_path (ce_components env)) (\<lambda>_. os (ce_exists env) ''cannot get file status'') of
        Inl e \<Rightarrow> (Inl e, d)
      | Inr True \<Rightarrow>
          (case read_editable_file (ce_snapshot env) path (size_max - 1) of
             Inl e \<Rightarrow> (Inl e, d)
           | Inr previous \<Rightarrow> replace_existing_file (ce_replace env) path previous bytes d)
      | Inr False \<Rightarrow> atomic_write (ce_write env) (Some ([bytes], None)) d)"

lemma read_loop_Inl: "read_loop max_bytes operation bytes d = Inl e \<Longrightarrow> \<not> published_result (Inl e)"
proof (induction max_bytes operation bytes d rule: read_loop.induct)
  case (1 max_bytes operation bytes d)
  from 1(1,2) 1(3) [unfolded read_loop.simps [of max_bytes operation bytes d]] show ?case
    by (auto simp: Let_def split: if_splits list.splits read_outcome.splits)
qed

lemma read_editable_Inl: "read_editable_file env path max_bytes = Inl e \<Longrightarrow> \<not> published_result (Inl e)"
  by (auto simp: read_editable_file_def and_then_eq_Inl checked_path_def dest: read_loop_Inl checked_regular_Inl
      split: if_splits)

lemma ordinary_path_Inl: "ordinary_path ps = Inl e \<Longrightarrow> \<not> published_result (Inl e)"
  by (induction ps rule: ordinary_path.induct) (auto split: if_splits)

lemma publish_control_exact:
  assumes "publish_control env path bytes d = (r, d')"
  shows "entry d' = (if published_result r then Some bytes else entry d)"
proof (cases "and_then (ordinary_path (ce_components env)) (\<lambda>_. os (ce_exists env) ''cannot get file status'')")
  case (Inl e)
  then have "\<not> published_result (Inl e)"
    by (auto simp: and_then_eq_Inl dest: ordinary_path_Inl)
  with Inl assms show ?thesis by (simp add: publish_control_def)
next
  case (Inr exists)
  show ?thesis
  proof (cases exists)
    case True
    then show ?thesis
      using assms Inr replace_existing_outcome
      by (auto simp: publish_control_def dest: read_editable_Inl split: sum.splits)
  next
    case False
    then show ?thesis
      using assms Inr written.exact [of _ "[bytes]"] by (auto simp: publish_control_def)
  qed
qed

interpretation control: publisher "\<lambda>env. publish_control env path bytes" bytes for path bytes
  by unfold_locales (rule publish_control_exact)

lemma base64_decode_file_exact:
  assumes "base64_decode_file env encoded d = (r, d')"
  shows "entry d' = (if published_result r then Some (projr (base64_decode encoded)) else entry d) \<and>
    (published_result r \<longrightarrow> \<not> isl (base64_decode encoded))"
proof (cases "base64_decode encoded")
  case (Inl e)
  have "decode_group p q r s more = Inl e \<Longrightarrow> \<not> published_result (Inl e)" for p q r s more
    by (auto simp: decode_group_def required_digit_def and_then_eq_Inl Let_def split: if_splits)
  then have "decode_groups encoded = Inl e \<Longrightarrow> \<not> published_result (Inl e)"
    by (induction encoded rule: decode_groups.induct) (auto simp: and_then_eq_Inl)
  with Inl assms show ?thesis
    by (auto simp: base64_decode_file_def base64_decode_def split: if_splits)
next
  case (Inr bytes)
  with assms written.exact [of env "[bytes]" d r d'] show ?thesis
    by (auto simp: base64_decode_file_def)
qed

text \<open>A file encoded to Base64 and decoded into another gives its bytes back, whenever the destination is published.\<close>

theorem base64_file_roundtrip:
  assumes "base64_encode_file env max_size path = Inr encoded" "4 \<le> max_size"
    and "pe_open env = Inr source" "reads_as source bytes" "length bytes \<le> size_max"
    and "base64_decode_file env' encoded d = (r, d')" "published_result r"
  shows "entry d' = Some bytes"
proof -
  have "read_loop size_max ''read file prefix'' [] source = Inr bytes"
    using read_loop_reads_as [of source "[]" size_max] assms(4,5) by (simp add: reads_as_def)
  with assms(1,3) have "base64_encode max_size bytes = Inr encoded"
    by (auto simp: base64_encode_file_def read_prefix_def and_then_eq_Inr os_def split: if_splits)
  then have "encoded = encode_groups bytes"
    using assms(2) by (simp add: base64_encode_iff)
  then have "base64_decode encoded = Inr bytes"
    by (simp add: base64_decode_def encode_length decode_encode)
  with base64_decode_file_exact [OF assms(6)] assms(7) show ?thesis by simp
qed

end
