(* ===== verification/Endpoint_Sse.thy ===== *)
theory Endpoint_Sse
  imports Prelude
begin

text \<open>
  The framing of server-sent events, \<^verbatim>\<open>SSEResponseHandler\<close> of \<^verbatim>\<open>endpoint/include/endpoint/request.hpp\<close>: bytes arrive in
  chunks, are cut into lines and grouped into events, and a rolling window bounds what is kept. The channel to the
  consumer is a parameter of each call: the number of sends it accepts before it is closed, if it is. The decoder of an event is a
  parameter as well, it may throw. The published events are shown to be those of the whole stream, for every chunking and
  every window; an encoder for events is the reference the framing is checked against.
\<close>

section \<open>Lines\<close>

type_synonym line_info = "string \<times> string"

type_synonym sse_message = "line_info list"

abbreviation newline :: char where "newline \<equiv> CHR 0x0A"

abbreviation carriage_return :: char where "carriage_return \<equiv> CHR 0x0D"

definition blank_line :: line_info where "blank_line = ([], [])"

definition is_blank :: "line_info \<Rightarrow> bool" where "is_blank l \<longleftrightarrow> fst l = []"

definition strip_return :: "string \<Rightarrow> string" where
  "strip_return line = (if line \<noteq> [] \<and> last line = carriage_return then butlast line else line)"

text \<open>One line without its terminator: nothing for a comment.\<close>

definition parse_line :: "string \<Rightarrow> line_info list" where
  "parse_line raw =
     (let line = strip_return raw in
      if line = [] then [blank_line]
      else if hd line = CHR '':'' then []
      else
        let field = takeWhile (\<lambda>c. c \<noteq> CHR '':'') line; rest = dropWhile (\<lambda>c. c \<noteq> CHR '':'') line in
        if rest = [] then [(line, [])]
        else
          let after = tl rest in
          [(field, if after \<noteq> [] \<and> hd after = CHR '' '' then tl after else after)])"

text \<open>The loop of \<^verbatim>\<open>_split_line\<close>: the lines that are complete, and the bytes left in the buffer.\<close>

function split_lines :: "string \<Rightarrow> line_info list \<times> string" where
  "split_lines buffer =
     (let line = takeWhile (\<lambda>c. c \<noteq> newline) buffer; rest = dropWhile (\<lambda>c. c \<noteq> newline) buffer in
      if rest = [] then ([], buffer)
      else let (ls, left) = split_lines (tl rest) in (parse_line line @ ls, left))"
  by pat_completeness auto
termination
proof (relation "measure length", simp)
  fix buffer line rest :: string
  assume "rest = dropWhile (\<lambda>c. c \<noteq> newline) buffer" "rest \<noteq> []"
  then have "length rest \<le> length buffer" "0 < length rest"
    by (simp_all add: length_dropWhile_le)
  then have "length (tl rest) < length buffer" unfolding length_tl by linarith
  then show "(tl rest, buffer) \<in> measure length" by simp
qed

declare split_lines.simps [simp del]

section \<open>The handler\<close>

datatype sse_state = RUNNING | RESUMABLE | ERROR | DONE

record sse_handler =
  sh_buffer :: string
  sh_lines :: "line_info list"
  sh_next_line :: nat
  sh_base :: nat
  sh_line_window :: nat
  sh_state :: sse_state

definition SSEResponseHandler :: "nat \<Rightarrow> sse_handler" where
  "SSEResponseHandler line_window =
     \<lparr>sh_buffer = [], sh_lines = [], sh_next_line = 0, sh_base = 0, sh_line_window = line_window, sh_state = RUNNING\<rparr>"

definition split_line :: "sse_handler \<Rightarrow> sse_handler" where
  "split_line h = (let (ls, left) = split_lines (sh_buffer h) in h\<lparr>sh_lines := sh_lines h @ ls, sh_buffer := left\<rparr>)"

text \<open>\<^verbatim>\<open>_next_message\<close>; the empty message means that no complete event is there.\<close>

definition next_message :: "sse_handler \<Rightarrow> sse_message \<times> sse_handler" where
  "next_message h =
     (let unread = drop (sh_next_line h - sh_base h) (sh_lines h);
          first = sh_next_line h - sh_base h + length (takeWhile is_blank unread);
          slice = takeWhile (\<lambda>l. \<not> is_blank l) (dropWhile is_blank unread);
          last_line = first + length slice in
      if last_line \<ge> length (sh_lines h) then ([], h\<lparr>sh_next_line := sh_base h + first\<rparr>)
      else (slice, h\<lparr>sh_next_line := sh_base h + last_line + 1\<rparr>))"

definition trim :: "sse_handler \<Rightarrow> sse_handler" where
  "trim h =
     (let consumed = sh_next_line h - sh_base h in
      if consumed > sh_line_window h then
        h\<lparr>sh_lines := drop (consumed - sh_line_window h) (sh_lines h), sh_base := sh_base h + (consumed - sh_line_window h)\<rparr>
      else h)"

definition sse_finish :: "sse_state \<Rightarrow> sse_handler \<Rightarrow> sse_handler" where
  "sse_finish state h = h\<lparr>sh_state := state\<rparr>"

datatype sse_failure = SseAborted sse_state | DecodeFault exn

lemma next_message_decreases:
  assumes "next_message h = (m, h')" "m \<noteq> []"
  shows "sh_base h' + length (sh_lines h') - sh_next_line h' < sh_base h + length (sh_lines h) - sh_next_line h"
proof -
  let ?first = "sh_next_line h - sh_base h + length (takeWhile is_blank (drop (sh_next_line h - sh_base h) (sh_lines h)))"
  have "h' = h\<lparr>sh_next_line := sh_base h + (?first + length m) + 1\<rparr>" "?first + length m < length (sh_lines h)"
    using assms by (auto simp: next_message_def Let_def split: if_splits)
  then show ?thesis by auto
qed

text \<open>
  The message loop of \<^verbatim>\<open>put\<close>: \<open>sends\<close> says after how many sends the channel is closed, and with which state
  (\<^const>\<open>None\<close>: it stays open), and \<open>decode\<close> is \<^verbatim>\<open>_handle_message\<close>. The result has the products that reached the
  channel.
\<close>

type_synonym closing = "(nat \<times> sse_state) option"

function put_messages ::
  "(sse_message \<Rightarrow> exn + 'p) \<Rightarrow> closing \<Rightarrow> sse_handler \<Rightarrow> 'p list \<times> sse_failure option \<times> sse_handler" where
  "put_messages decode sends h =
     (let (message, h1) = next_message h in
      if message = [] then ([], None, h1)
      else
        case decode message of
          Inl e \<Rightarrow> ([], Some (DecodeFault e), h1)
        | Inr product \<Rightarrow>
            (case sends of
               Some (0, state) \<Rightarrow> ([], Some (SseAborted state), sse_finish state h1)
             | _ \<Rightarrow>
                 let (products, failure, h2) = put_messages decode (map_option (map_prod (\<lambda>n. n - 1) id) sends) h1 in
                 (product # products, failure, h2)))"
  by pat_completeness auto
termination
  by (relation "measure (\<lambda>(_, _, h). sh_base h + length (sh_lines h) - sh_next_line h)")
    (auto dest: next_message_decreases [OF sym])

declare put_messages.simps [simp del]

definition sse_put ::
  "(sse_message \<Rightarrow> exn + 'p) \<Rightarrow> closing \<Rightarrow> string \<Rightarrow> sse_handler \<Rightarrow> 'p list \<times> sse_failure option \<times> sse_handler" where
  "sse_put decode sends payload h =
     (let (products, failure, h1) = put_messages decode sends (split_line (h\<lparr>sh_buffer := sh_buffer h @ payload\<rparr>)) in
      case failure of
        None \<Rightarrow> (products, None, trim h1)
      | Some (SseAborted s) \<Rightarrow> (products, failure, h1)
      | Some (DecodeFault e) \<Rightarrow> (products, failure, sse_finish ERROR h1))"



definition sse_clear :: "sse_handler \<Rightarrow> sse_handler" where
  "sse_clear h = h\<lparr>sh_buffer := [], sh_lines := [], sh_next_line := 0, sh_base := 0, sh_state := RUNNING\<rparr>"

text \<open>A producer that feeds the chunks of a stream and stops at the first failure.\<close>

fun sse_feed ::
  "(sse_message \<Rightarrow> exn + 'p) \<Rightarrow> (string \<times> closing) list \<Rightarrow> sse_handler \<Rightarrow> 'p list \<times> sse_failure option \<times> sse_handler" where
  "sse_feed decode [] h = ([], None, h)"
| "sse_feed decode ((chunk, sends) # chunks) h =
     (let (products, failure, h1) = sse_put decode sends chunk h in
      if failure \<noteq> None then (products, failure, h1)
      else let (more, failure', h2) = sse_feed decode chunks h1 in (products @ more, failure', h2))"

section \<open>Reference: the events of a whole stream\<close>

function frames :: "line_info list \<Rightarrow> sse_message list \<times> line_info list" where
  "frames ls =
     (let started = dropWhile is_blank ls; rest = dropWhile (\<lambda>l. \<not> is_blank l) started in
      if rest = [] then ([], started)
      else let (ms, left) = frames (tl rest) in (takeWhile (\<lambda>l. \<not> is_blank l) started # ms, left))"
  by pat_completeness auto
termination
proof (relation "measure length", simp)
  fix ls started rest :: "line_info list"
  assume "started = dropWhile is_blank ls" "rest = dropWhile (\<lambda>l. \<not> is_blank l) started" "rest \<noteq> []"
  then have "length rest \<le> length ls" "0 < length rest"
    by (auto intro: le_trans [OF length_dropWhile_le length_dropWhile_le])
  then have "length (tl rest) < length ls" unfolding length_tl by linarith
  then show "(tl rest, ls) \<in> measure length" by simp
qed

declare frames.simps [simp del]

definition sse_events :: "string \<Rightarrow> sse_message list" where
  "sse_events stream = fst (frames (fst (split_lines stream)))"

text \<open>Both passes can be resumed where they stopped.\<close>

declare dropWhile_eq_Nil_conv [simp del]

lemma dropWhile_tl_append:
  assumes "dropWhile P xs \<noteq> []"
  shows "dropWhile P (xs @ ys) = dropWhile P xs @ ys" "takeWhile P (xs @ ys) = takeWhile P xs"
  using assms by (auto simp: dropWhile_append takeWhile_append dropWhile_eq_Nil_conv)

lemma split_lines_append:
  "split_lines (a @ b) =
     (let (l1, left) = split_lines a; (l2, left') = split_lines (left @ b) in (l1 @ l2, left'))"
proof (induction a rule: split_lines.induct)
  case (1 a)
  let ?P = "\<lambda>c. c \<noteq> newline"
  show ?case
  proof (cases "dropWhile ?P a = []")
    case True
    then have "split_lines a = ([], a)" by (subst split_lines.simps) simp
    then show ?thesis by simp
  next
    case False
    note d = dropWhile_tl_append [OF False, of b]
    have a: "split_lines a = (let (ls, left) = split_lines (tl (dropWhile ?P a)) in (parse_line (takeWhile ?P a) @ ls, left))"
      using False by (simp only: split_lines.simps [of a] Let_def if_False)
    have ab: "split_lines (a @ b) =
        (let (ls, left) = split_lines (tl (dropWhile ?P a) @ b) in (parse_line (takeWhile ?P a) @ ls, left))"
      using False by (simp only: split_lines.simps [of "a @ b"] Let_def d) simp
    show ?thesis
      unfolding a ab using "1.IH" [OF refl refl False] by (simp split: prod.splits)
  qed
qed

lemma frames_dropWhile: "frames (dropWhile is_blank xs @ ys) = frames (xs @ ys)"
proof -
  have "dropWhile is_blank (dropWhile is_blank xs @ ys) = dropWhile is_blank (xs @ ys)"
    by (induction xs) auto
  then show ?thesis by (simp only: frames.simps [of "dropWhile is_blank xs @ ys"] frames.simps [of "xs @ ys"])
qed

lemma frames_append:
  "frames (a @ b) = (let (ms, left) = frames a; (ms', left') = frames (left @ b) in (ms @ ms', left'))"
proof (induction a rule: frames.induct)
  case (1 a)
  let ?N = "\<lambda>l. \<not> is_blank l"
  let ?s = "dropWhile is_blank a"
  show ?case
  proof (cases "dropWhile ?N ?s = []")
    case True
    then have "frames a = ([], ?s)" by (subst frames.simps) simp
    then show ?thesis by (simp add: frames_dropWhile)
  next
    case False
    then have "?s \<noteq> []" by (metis dropWhile.simps(1))
    note d = dropWhile_tl_append [OF this, of b] dropWhile_tl_append [OF False, of b]
    have a: "frames a = (let (ms, left) = frames (tl (dropWhile ?N ?s)) in (takeWhile ?N ?s # ms, left))"
      using False by (simp only: frames.simps [of a] Let_def if_False)
    have ab: "frames (a @ b) = (let (ms, left) = frames (tl (dropWhile ?N ?s) @ b) in (takeWhile ?N ?s # ms, left))"
      using False by (simp only: frames.simps [of "a @ b"] Let_def d) simp
    show ?thesis
      unfolding a ab using "1.IH" [OF refl refl False] by (simp split: prod.splits)
  qed
qed

section \<open>The handler refines the reference\<close>

definition cursor_ok :: "sse_handler \<Rightarrow> bool" where
  "cursor_ok h \<longleftrightarrow> sh_base h \<le> sh_next_line h \<and> sh_next_line h \<le> sh_base h + length (sh_lines h)"

definition pending :: "sse_handler \<Rightarrow> line_info list" where
  "pending h = drop (sh_next_line h - sh_base h) (sh_lines h)"

lemma next_message_pending:
  assumes "cursor_ok h"
  shows "case next_message h of (m, h') \<Rightarrow>
    cursor_ok h' \<and> sh_buffer h' = sh_buffer h \<and> sh_line_window h' = sh_line_window h \<and>
    (let started = dropWhile is_blank (pending h); rest = dropWhile (\<lambda>l. \<not> is_blank l) started in
     if rest = [] then m = [] \<and> pending h' = started
     else m = takeWhile (\<lambda>l. \<not> is_blank l) started \<and> m \<noteq> [] \<and> pending h' = tl rest)"
proof -
  let ?N = "\<lambda>l. \<not> is_blank l" and ?p = "pending h"
  let ?s = "dropWhile is_blank ?p"
  define k where "k = sh_next_line h - sh_base h"
  have k: "k \<le> length (sh_lines h)" "sh_next_line h = sh_base h + k" "?p = drop k (sh_lines h)"
    using assms by (auto simp: cursor_ok_def k_def pending_def)
  have len: "length (takeWhile is_blank ?p) + length (takeWhile ?N ?s) + length (dropWhile ?N ?s) = length (sh_lines h) - k"
    using takeWhile_dropWhile_id [of is_blank ?p] takeWhile_dropWhile_id [of ?N ?s] k(3)
    by (metis length_append length_drop add.assoc)
  have s: "drop (length (takeWhile is_blank ?p)) ?p = ?s" "drop (length (takeWhile ?N ?s)) ?s = dropWhile ?N ?s"
    by (simp_all add: dropWhile_eq_drop)
  have L: "length (sh_lines h) = k + length (takeWhile is_blank ?p) + length (takeWhile ?N ?s) + length (dropWhile ?N ?s)"
    using len k(1) by linarith
  have next_eq: "next_message h =
      (if dropWhile ?N ?s = [] then ([], h\<lparr>sh_next_line := sh_base h + (k + length (takeWhile is_blank ?p))\<rparr>)
       else (takeWhile ?N ?s, h\<lparr>sh_next_line := sh_base h + (k + length (takeWhile is_blank ?p) + length (takeWhile ?N ?s)) + 1\<rparr>))"
    using L by (simp add: next_message_def Let_def k_def [symmetric] k(3) [symmetric])
  show ?thesis
  proof (cases "dropWhile ?N ?s = []")
    case True
    have "drop (k + length (takeWhile is_blank ?p)) (sh_lines h) = ?s"
      using s(1) k(3) by (simp add: drop_drop add.commute)
    with True L show ?thesis by (simp add: next_eq cursor_ok_def pending_def [of "_\<lparr>sh_next_line := _\<rparr>"])
  next
    case False
    have "drop (Suc (k + length (takeWhile is_blank ?p) + length (takeWhile ?N ?s))) (sh_lines h)
        = drop 1 (drop (length (takeWhile ?N ?s)) (drop (length (takeWhile is_blank ?p)) (drop k (sh_lines h))))"
      by (simp add: drop_drop ac_simps)
    also have "\<dots> = tl (dropWhile ?N ?s)"
      by (simp only: k(3) [symmetric] s) (simp add: drop_Suc)
    finally have "drop (Suc (k + length (takeWhile is_blank ?p) + length (takeWhile ?N ?s))) (sh_lines h) = tl (dropWhile ?N ?s)" .
    moreover have "takeWhile ?N ?s \<noteq> []"
      using False by (metis dropWhile.simps(1) hd_dropWhile takeWhile_eq_Nil_iff)
    moreover have "Suc 0 \<le> length (dropWhile ?N ?s)" using False by (simp add: Suc_le_eq)
    ultimately show ?thesis
      using False L by (simp add: Let_def add.assoc next_eq cursor_ok_def pending_def [of "_\<lparr>sh_next_line := _\<rparr>"])
  qed
qed
lemma put_messages_frames:
  assumes "cursor_ok h"
  shows "case put_messages (\<lambda>m. Inr (f m)) None h of (products, failure, h') \<Rightarrow>
    products = map f (fst (frames (pending h))) \<and> failure = None \<and> cursor_ok h' \<and>
    pending h' = snd (frames (pending h)) \<and> sh_buffer h' = sh_buffer h \<and> sh_line_window h' = sh_line_window h"
  using assms
proof (induction "length (pending h)" arbitrary: h rule: less_induct)
  case less
  let ?s = "dropWhile is_blank (pending h)" and ?N = "\<lambda>l. \<not> is_blank l"
  obtain m h1 where m: "next_message h = (m, h1)" by fastforce
  note next_one = next_message_pending [OF less.prems, unfolded m Let_def, simplified]
  show ?case
  proof (cases "dropWhile ?N ?s = []")
    case True
    moreover have "frames (pending h) = ([], ?s)" using True by (subst frames.simps) simp
    ultimately show ?thesis using next_one m by (subst put_messages.simps) simp
  next
    case False
    have fr: "frames (pending h) = (case frames (tl (dropWhile ?N ?s)) of (ms, left) \<Rightarrow> (takeWhile ?N ?s # ms, left))"
      using False by (subst frames.simps) (simp add: Let_def)
    have "length (tl (dropWhile ?N ?s)) < length (pending h)"
    proof -
      have "length (dropWhile ?N ?s) \<le> length (pending h)"
        by (rule le_trans [OF length_dropWhile_le length_dropWhile_le])
      with False show ?thesis unfolding length_tl by (cases "dropWhile ?N ?s") auto
    qed
    with next_one False have "length (pending h1) < length (pending h)" "cursor_ok h1" by auto
    from less.hyps [OF this] next_one False m fr show ?thesis
      by (subst put_messages.simps) (simp split: prod.splits)
  qed
qed

lemma trim_pending:
  assumes "cursor_ok h"
  shows "pending (trim h) = pending h \<and> cursor_ok (trim h) \<and> sh_buffer (trim h) = sh_buffer h \<and>
    sh_line_window (trim h) = sh_line_window h \<and> sh_next_line (trim h) - sh_base (trim h) \<le> sh_line_window h"
proof (cases "sh_next_line h - sh_base h > sh_line_window h")
  case True
  define consumed where "consumed = sh_next_line h - sh_base h"
  have n: "sh_next_line h = sh_base h + consumed" "consumed \<le> length (sh_lines h)" "consumed > sh_line_window h"
    using True assms by (auto simp: consumed_def cursor_ok_def)
  then show ?thesis
    by (simp add: trim_def Let_def pending_def cursor_ok_def drop_drop)
next
  case False
  with assms show ?thesis by (simp add: trim_def Let_def)
qed

text \<open>What a handler has left over after the bytes \<open>stream\<close>.\<close>

definition carries :: "string \<Rightarrow> sse_handler \<Rightarrow> bool" where
  "carries stream h \<longleftrightarrow> cursor_ok h \<and> sh_buffer h = snd (split_lines stream) \<and>
     pending h = snd (frames (fst (split_lines stream)))"

lemma sse_put_carries:
  assumes "carries stream h"
  shows "case sse_put (\<lambda>m. Inr (f m)) None chunk h of (products, failure, h') \<Rightarrow>
    map f (sse_events (stream @ chunk)) = map f (sse_events stream) @ products \<and> failure = None \<and> carries (stream @ chunk) h' \<and>
    sh_line_window h' = sh_line_window h \<and> sh_next_line h' - sh_base h' \<le> sh_line_window h"
proof -
  obtain l1 left where s: "split_lines stream = (l1, left)" by fastforce
  obtain l2 left' where c: "split_lines (left @ chunk) = (l2, left')" by fastforce
  obtain ms p where f: "frames l1 = (ms, p)" by fastforce
  obtain ms' p' where g: "frames (p @ l2) = (ms', p')" by fastforce
  let ?h = "split_line (h\<lparr>sh_buffer := sh_buffer h @ chunk\<rparr>)"
  have h: "sh_buffer h = left" "pending h = p" "cursor_ok h" using assms s f by (auto simp: carries_def)
  have split: "?h = h\<lparr>sh_buffer := left', sh_lines := sh_lines h @ l2\<rparr>"
    using h c by (simp add: split_line_def)
  have "pending ?h = p @ l2" "cursor_ok ?h" "sh_buffer ?h = left'" "sh_line_window ?h = sh_line_window h"
    using h by (auto simp: split pending_def cursor_ok_def)
  moreover obtain ps failure h' where put: "put_messages (\<lambda>m. Inr (f m)) None ?h = (ps, failure, h')" by (metis prod_cases3)
  moreover note put_messages_frames [OF calculation(2), where f = f, unfolded put]
  ultimately have p: "ps = map f ms'" "failure = None" "cursor_ok h'" "pending h' = p'" "sh_buffer h' = left'"
    "sh_line_window h' = sh_line_window h"
    using g by auto
  have whole: "split_lines (stream @ chunk) = (l1 @ l2, left')" "frames (l1 @ l2) = (ms @ ms', p')"
    using s c f g by (simp_all add: split_lines_append [of stream] frames_append [of l1])
  show ?thesis
    using trim_pending [OF p(3)] p put whole s f
    by (simp add: sse_put_def sse_events_def carries_def Let_def)
qed

lemma carries_empty:
  "pending h = [] \<Longrightarrow> cursor_ok h \<Longrightarrow> sh_buffer h = [] \<Longrightarrow> carries [] h"
  by (simp add: carries_def split_lines.simps frames.simps)

lemma sse_feed_carries:
  assumes "carries stream h"
  shows "case sse_feed (\<lambda>m. Inr (f m)) (map (\<lambda>c. (c, None)) chunks) h of (products, failure, h') \<Rightarrow>
    map f (sse_events (stream @ concat chunks)) = map f (sse_events stream) @ products \<and> failure = None \<and>
    carries (stream @ concat chunks) h' \<and> sh_line_window h' = sh_line_window h \<and>
    (chunks \<noteq> [] \<longrightarrow> sh_next_line h' - sh_base h' \<le> sh_line_window h)"
  using assms
proof (induction chunks arbitrary: stream h)
  case (Cons chunk chunks)
  obtain ps failure h1 where put: "sse_put (\<lambda>m. Inr (f m)) None chunk h = (ps, failure, h1)" by (metis prod_cases3)
  note one = sse_put_carries [OF Cons.prems, where f = f and chunk = chunk, unfolded put, simplified]
  from one have "carries (stream @ chunk) h1" by simp
  note rest = Cons.IH [OF this]
  show ?case
    using rest one put by (cases chunks) (auto split: prod.splits)
qed simp

lemma sse_events_Nil [simp]: "sse_events [] = []"
  by (simp add: sse_events_def split_lines.simps frames.simps)
section \<open>The reference reads back what a server writes\<close>

definition encode_line :: "line_info \<Rightarrow> string" where
  "encode_line l = fst l @ '': '' @ snd l @ [newline]"

definition encode_event :: "sse_message \<Rightarrow> string" where
  "encode_event m = concat (map encode_line m) @ [newline]"

text \<open>A field with a name, without the characters the format gives a meaning to.\<close>

definition plain_line :: "line_info \<Rightarrow> bool" where
  "plain_line l \<longleftrightarrow> fst l \<noteq> [] \<and> CHR '':'' \<notin> set (fst l) \<and> newline \<notin> set (fst l) \<and> newline \<notin> set (snd l) \<and>
     (snd l = [] \<or> last (snd l) \<noteq> carriage_return)"

definition plain_event :: "sse_message \<Rightarrow> bool" where
  "plain_event m \<longleftrightarrow> m \<noteq> [] \<and> list_all plain_line m"

lemma while_until:
  "c \<notin> set xs \<Longrightarrow> takeWhile (\<lambda>x. x \<noteq> c) (xs @ c # ys) = xs"
  "c \<notin> set xs \<Longrightarrow> dropWhile (\<lambda>x. x \<noteq> c) (xs @ c # ys) = c # ys"
  by (induction xs) auto

lemma split_lines_step:
  assumes "newline \<notin> set line"
  shows "split_lines (line @ newline # rest) = (parse_line line @ fst (split_lines rest), snd (split_lines rest))"
  by (subst split_lines.simps) (simp add: while_until [OF assms] split: prod.splits)

lemma parse_plain:
  assumes "plain_line l"
  shows "parse_line (fst l @ '': '' @ snd l) = [l]"
proof -
  obtain f v where l: "l = (f, v)" by fastforce
  have f: "f \<noteq> []" "CHR '':'' \<notin> set f" using assms l by (auto simp: plain_line_def)
  have "strip_return (f @ '': '' @ v) = f @ '': '' @ v"
    using assms l by (auto simp: strip_return_def plain_line_def last_append)
  moreover note while_until [OF f(2), of "CHR '' '' # v"]
  moreover have "hd (f @ '': '' @ v) \<noteq> CHR '':''" using f by (cases f) auto
  ultimately show ?thesis using f by (simp add: parse_line_def l)
qed

lemma split_encoded_lines:
  "list_all plain_line m \<Longrightarrow>
   split_lines (concat (map encode_line m) @ rest) = (m @ fst (split_lines rest), snd (split_lines rest))"
proof (induction m)
  case (Cons l m)
  have "newline \<notin> set (fst l @ '': '' @ snd l)" using Cons.prems by (auto simp: plain_line_def)
  from split_lines_step [OF this, of "concat (map encode_line m) @ rest"] Cons parse_plain [of l]
  show ?case by (simp add: encode_line_def [of l])
qed simp

lemma split_encoded:
  "list_all plain_event ms \<Longrightarrow>
   split_lines (concat (map encode_event ms)) = (concat (map (\<lambda>m. m @ [blank_line]) ms), [])"
proof (induction ms)
  case (Cons m ms)
  have "split_lines (newline # concat (map encode_event ms)) =
      (blank_line # fst (split_lines (concat (map encode_event ms))), snd (split_lines (concat (map encode_event ms))))"
    using split_lines_step [of "[]" "concat (map encode_event ms)"] by (simp add: parse_line_def strip_return_def)
  with Cons split_encoded_lines [of m "newline # concat (map encode_event ms)"] show ?case
    by (simp add: encode_event_def [of m] plain_event_def [of m])
qed (simp add: split_lines.simps)

lemma frames_encoded:
  "list_all plain_event ms \<Longrightarrow> frames (concat (map (\<lambda>m. m @ [blank_line]) ms)) = (ms, [])"
proof (induction ms)
  case (Cons m ms)
  have m: "m \<noteq> []" "\<forall>l \<in> set m. \<not> is_blank l"
    using Cons.prems by (auto simp: plain_event_def list_all_iff plain_line_def is_blank_def)
  let ?ls = "m @ blank_line # concat (map (\<lambda>m. m @ [blank_line]) ms)"
  have "dropWhile is_blank ?ls = ?ls" using m by (cases m) auto
  moreover have "takeWhile (\<lambda>l. \<not> is_blank l) ?ls = m"
    "dropWhile (\<lambda>l. \<not> is_blank l) ?ls = blank_line # concat (map (\<lambda>m. m @ [blank_line]) ms)"
    using m by (auto simp: takeWhile_append dropWhile_append2 is_blank_def blank_line_def)
  ultimately show ?case using Cons by (subst frames.simps) simp
qed (simp add: frames.simps)

lemma sse_events_encode: "list_all plain_event ms \<Longrightarrow> sse_events (concat (map encode_event ms)) = ms"
  by (simp add: sse_events_def split_encoded frames_encoded)

section \<open>Properties\<close>

lemma carries_start: "carries [] (SSEResponseHandler w)" "sse_clear h = SSEResponseHandler (sh_line_window h)"
  by (auto intro!: carries_empty simp: SSEResponseHandler_def pending_def cursor_ok_def sse_clear_def)


lemma sse_feed_start:
  "carries [] h \<Longrightarrow>
   \<exists>h'. sse_feed (\<lambda>m. Inr (f m)) (map (\<lambda>c. (c, None)) chunks) h = (map f (sse_events (concat chunks)), None, h') \<and>
     carries (concat chunks) h' \<and> sh_line_window h' = sh_line_window h \<and>
     (chunks \<noteq> [] \<longrightarrow> sh_next_line h' - sh_base h' \<le> sh_line_window h)"
  using sse_feed_carries [of "[]" h f chunks] by (auto split: prod.splits)


text \<open>
  Whatever the chunking, the window and the decoder's products, the events a server writes as named fields are
  published exactly, in order and with nothing else, if the names and values avoid the characters of the format.
\<close>

theorem sse_roundtrip:
  assumes "list_all plain_event ms" "concat chunks = concat (map encode_event ms)"
  shows "\<exists>h. sse_feed (\<lambda>m. Inr (f m)) (map (\<lambda>c. (c, None)) chunks) (SSEResponseHandler window) = (map f ms, None, h)"
  using sse_feed_start [OF carries_start(1) [of window], of f chunks] sse_events_encode [OF assms(1)] assms(2) by auto

theorem sse_roundtrip_witness:
  "\<exists>h. sse_feed (\<lambda>m. Inr (hd m)) (map (\<lambda>c. (c, None)) [''data: 1'', [newline, newline]]) (SSEResponseHandler 0)
     = (map hd [[(''data'', ''1'')]], None, h)"
  by (rule sse_roundtrip)
    (simp_all add: plain_event_def plain_line_def encode_event_def encode_line_def)

end
