(* ===== verification/Endpoint_Retry.thy ===== *)
theory Endpoint_Retry
  imports Endpoint_Sse "HOL-Library.Signed_Division"
begin

text \<open>
  Whole exchanges with retry: the failure type (\<^verbatim>\<open>http_request_exception.hpp\<close>), the shared verdict and backoff
  (\<^verbatim>\<open>retry_policy.hpp\<close>), the bounded engine (\<^verbatim>\<open>fetch.hpp\<close>), the reader of a streamed response with its end states
  (\<^verbatim>\<open>model_request.hpp\<close>) and the streaming engine (\<^verbatim>\<open>complete.hpp\<close>), all under \<^verbatim>\<open>endpoint/include/endpoint\<close>. What the network,
  the timer and the cancellation do on the attempt number \<open>i\<close> is a parameter, a function of \<open>i\<close>; what a provider's
  reader does with a delta is the record \<open>reader_ops\<close>. Milliseconds are unbounded integers, logging is left out.
\<close>

section \<open>Failures\<close>

datatype http_stage = CreateRequest | Connect | WriteStage | ReadStage | HandleResponse | UnknownStage

datatype category = NetdbCategory | SslStreamCategory | SystemCategory | BeastCategory

record error_code =
  ec_category :: category
  ec_value :: nat

definition no_error :: error_code where "no_error = \<lparr>ec_category = SystemCategory, ec_value = 0\<rparr>"

definition host_not_found_try_again :: error_code where
  "host_not_found_try_again = \<lparr>ec_category = NetdbCategory, ec_value = 2\<rparr>"

definition connection_refused :: error_code where "connection_refused = \<lparr>ec_category = SystemCategory, ec_value = 111\<rparr>"

definition connection_reset :: error_code where "connection_reset = \<lparr>ec_category = SystemCategory, ec_value = 104\<rparr>"

definition timed_out :: error_code where "timed_out = \<lparr>ec_category = SystemCategory, ec_value = 110\<rparr>"

definition operation_aborted :: error_code where "operation_aborted = \<lparr>ec_category = SystemCategory, ec_value = 125\<rparr>"

definition beast_timeout :: error_code where "beast_timeout = \<lparr>ec_category = BeastCategory, ec_value = 1\<rparr>"

definition stream_truncated :: error_code where "stream_truncated = \<lparr>ec_category = SslStreamCategory, ec_value = 1\<rparr>"

record http_failure =
  hf_stage :: http_stage
  hf_message :: string
  hf_code :: error_code
  hf_method :: string
  hf_target :: string
  hf_host :: string
  hf_status :: nat

fun stage_phrase :: "http_stage \<Rightarrow> string" where
  "stage_phrase CreateRequest = ''while building the request''"
| "stage_phrase Connect = ''while establishing the connection''"
| "stage_phrase WriteStage = ''while sending the request''"
| "stage_phrase ReadStage = ''while reading the response''"
| "stage_phrase HandleResponse = ''while handling the response''"
| "stage_phrase UnknownStage = ''at an unknown stage''"

text \<open>The pieces of the parenthesis, joined by the lambda \<^verbatim>\<open>append\<close>.\<close>

definition request_line :: "http_failure \<Rightarrow> string" where
  "request_line f =
     (let with_target = hf_method f @
            (if hf_target f = [] then [] else (if hf_method f = [] then [] else '' '') @ hf_target f) in
      with_target @ (if hf_host f = [] then [] else (if with_target = [] then [] else '' '') @ ''to '' @ hf_host f))"

definition context_pieces :: "(error_code \<Rightarrow> string) \<Rightarrow> http_failure \<Rightarrow> string list" where
  "context_pieces message_of f =
     (if ec_value (hf_code f) \<noteq> 0 then [message_of (hf_code f)] else []) @
     (if hf_status f \<noteq> 0 then [''HTTP status '' @ to_string (hf_status f)] else []) @
     (if hf_method f \<noteq> [] \<or> hf_target f \<noteq> [] \<or> hf_host f \<noteq> [] then [request_line f] else [])"

fun append_pieces :: "bool \<Rightarrow> string list \<Rightarrow> string" where
  "append_pieces opened [] = (if opened then '')'' else [])"
| "append_pieces opened (piece # pieces) = (if opened then ''; '' else '' ('') @ piece @ append_pieces True pieces"

definition render_failure :: "(error_code \<Rightarrow> string) \<Rightarrow> http_failure \<Rightarrow> string" where
  "render_failure message_of f =
     ''Failed '' @ stage_phrase (hf_stage f) @ '': '' @ hf_message f @ append_pieces False (context_pieces message_of f)"

text \<open>What leaves a coroutine as an exception: this type, a system error, another standard exception, anything else.\<close>

datatype failure = Http http_failure | SystemFailure error_code | StdFailure string | ForeignFailure

record http_request =
  rq_method :: string
  rq_target :: string
  rq_host :: string

definition wrap_request_failure :: "http_stage \<Rightarrow> string \<Rightarrow> error_code \<Rightarrow> http_request \<Rightarrow> nat \<Rightarrow> failure" where
  "wrap_request_failure stage message ec request status =
     Http \<lparr>hf_stage = stage, hf_message = message, hf_code = ec, hf_method = rq_method request,
       hf_target = rq_target request, hf_host = rq_host request, hf_status = status\<rparr>"

section \<open>The retry policy\<close>

record retry_policy =
  rp_initial_backoff :: int
  rp_max_backoff :: int
  rp_max_retry_attempts :: nat

definition retry_policy_new :: "int \<Rightarrow> int \<Rightarrow> nat \<Rightarrow> retry_policy" where
  "retry_policy_new initial max_backoff max_retry_attempts =
     \<lparr>rp_initial_backoff = initial, rp_max_backoff = (if max_backoff > initial then max_backoff else initial),
      rp_max_retry_attempts = max max_retry_attempts 0\<rparr>"

text \<open>The step \<^verbatim>\<open>_sleep\<close> takes after its wait.\<close>

definition next_backoff :: "retry_policy \<Rightarrow> int \<Rightarrow> int" where
  "next_backoff p backoff = (if backoff \<le> rp_max_backoff p sdiv 2 then backoff * 2 else rp_max_backoff p)"

definition recoverable_connect :: "error_code \<Rightarrow> bool" where
  "recoverable_connect ec =
     (if ec_category ec = NetdbCategory then ec = host_not_found_try_again
      else if ec = connection_refused \<or> ec = connection_reset \<or> ec = timed_out \<or> ec = beast_timeout then True
      else if ec_category ec = SslStreamCategory then ec = stream_truncated
      else False)"

definition recoverable :: "http_failure \<Rightarrow> bool" where
  "recoverable f =
     (if hf_status f \<noteq> 0 then
        if hf_status f = 429 \<or> hf_status f = 408 then True else hf_status f \<ge> 500 \<and> hf_status f \<le> 599
      else
        case hf_stage f of
          Connect \<Rightarrow> recoverable_connect (hf_code f)
        | WriteStage \<Rightarrow> True | ReadStage \<Rightarrow> True | HandleResponse \<Rightarrow> True
        | CreateRequest \<Rightarrow> False | UnknownStage \<Rightarrow> False)"

text \<open>How an attempt leaves the \<^verbatim>\<open>try\<close> block: with a value, an exception for the caller, or one that may be retried.\<close>

datatype 'a attempt_end = Returned 'a | Thrown failure | Retryable failure

text \<open>
  The loop both engines have, from attempt number \<open>attempt\<close> on: the result, the waits begun and the number of attempts
  made. \<open>cancelled i\<close> is the error with which the wait after attempt \<open>i\<close> ends early, if it does.
\<close>

function retry_loop ::
  "string \<Rightarrow> retry_policy \<Rightarrow> (nat \<Rightarrow> 'a attempt_end) \<Rightarrow> (nat \<Rightarrow> error_code option) \<Rightarrow> nat \<Rightarrow> int \<Rightarrow>
   (failure + 'a) \<times> int list \<times> nat" where
  "retry_loop engine p attempt_at cancelled attempt backoff =
     (if attempt \<le> rp_max_retry_attempts p then
        (case attempt_at attempt of
           Returned x \<Rightarrow> (Inr x, [], 1)
         | Thrown e \<Rightarrow> (Inl e, [], 1)
         | Retryable e \<Rightarrow>
             if attempt = rp_max_retry_attempts p then (Inl e, [], 1)
             else
               (case cancelled attempt of
                  Some ec \<Rightarrow> (Inl (SystemFailure ec), [backoff], 1)
                | None \<Rightarrow>
                    let (r, waits, n) = retry_loop engine p attempt_at cancelled (attempt + 1) (next_backoff p backoff) in
                    (r, backoff # waits, n + 1)))
      else (Inl (StdFailure (''endpoint::'' @ engine @ '': retry loop fell through'')), [], 0))"
  by pat_completeness auto
termination
  by (relation "measure (\<lambda>(_, p, _, _, attempt, _). Suc (rp_max_retry_attempts p) - attempt)") auto

declare retry_loop.simps [simp del]

section \<open>The bounded engine\<close>

record http_response =
  rs_status :: nat
  rs_body :: string

text \<open>\<open>connected\<close> and \<open>answer\<close> are what the connection and the exchange of one attempt do.\<close>

definition json_handler :: "(string \<Rightarrow> string + 'j) \<Rightarrow> string \<Rightarrow> failure + 'j" where
  "json_handler parse body =
     (case parse body of Inr j \<Rightarrow> Inr j | Inl what \<Rightarrow> Inl (StdFailure (''response body is not JSON: '' @ what)))"

fun failure_what :: "(error_code \<Rightarrow> string) \<Rightarrow> failure \<Rightarrow> string" where
  "failure_what message_of (Http f) = render_failure message_of f"
| "failure_what message_of (SystemFailure ec) = message_of ec"
| "failure_what message_of (StdFailure what) = what"
| "failure_what message_of ForeignFailure = []"

definition fetch_once ::
  "(error_code \<Rightarrow> string) \<Rightarrow> http_request \<Rightarrow> (string \<Rightarrow> failure + 'a) \<Rightarrow> failure option \<Rightarrow> failure + http_response \<Rightarrow> failure + 'a" where
  "fetch_once message_of request handler connected answer =
     (case connected of
        Some e \<Rightarrow> Inl e
      | None \<Rightarrow>
          and_then answer (\<lambda>response.
            if rs_status response \<noteq> 200 then
              let body = take 2048 (rs_body response);
                  message = ''request rejected'' @ (if body = [] then [] else '': '' @ body) in
              Inl (wrap_request_failure HandleResponse message no_error request (rs_status response))
            else
              (case handler (rs_body response) of
                 Inr x \<Rightarrow> Inr x
               | Inl (Http f) \<Rightarrow> Inl (Http f)
               | Inl ForeignFailure \<Rightarrow> Inl ForeignFailure
               | Inl e \<Rightarrow>
                   Inl (wrap_request_failure HandleResponse (''response handler failed: '' @ failure_what message_of e)
                     no_error request 0))))"

definition fetch_recoverable :: "http_failure \<Rightarrow> bool" where
  "fetch_recoverable f = (if hf_stage f = HandleResponse \<and> hf_status f = 0 then False else recoverable f)"

definition fetch_verdict :: "failure + 'a \<Rightarrow> 'a attempt_end" where
  "fetch_verdict outcome =
     (case outcome of
        Inr x \<Rightarrow> Returned x
      | Inl (Http f) \<Rightarrow> if fetch_recoverable f then Retryable (Http f) else Thrown (Http f)
      | Inl e \<Rightarrow> Thrown e)"

definition fetch ::
  "(error_code \<Rightarrow> string) \<Rightarrow> retry_policy \<Rightarrow> http_request \<Rightarrow> (string \<Rightarrow> failure + 'a) \<Rightarrow> (nat \<Rightarrow> failure option) \<Rightarrow>
   (nat \<Rightarrow> failure + http_response) \<Rightarrow> (nat \<Rightarrow> error_code option) \<Rightarrow> (failure + 'a) \<times> int list \<times> nat" where
  "fetch message_of p request handler connected answer cancelled =
     retry_loop ''fetch'' p (\<lambda>i. fetch_verdict (fetch_once message_of request handler (connected i) (answer i))) cancelled 0
       (rp_initial_backoff p)"

section \<open>The reader of a streamed response\<close>

datatype end_state = Streaming | Completed | Faulted | Aborted

text \<open>The virtual members of a provider's reader and the registered hooks, synchronous ones first.\<close>

record ('d, 'acc, 'item) reader_ops =
  ro_start :: 'acc
  ro_default :: 'item
  ro_accumulate :: "'d \<Rightarrow> 'acc \<Rightarrow> failure + 'acc"
  ro_is_terminal :: "'d \<Rightarrow> bool"
  ro_assemble :: "'acc \<Rightarrow> failure + 'item"
  ro_hooks :: "('d \<Rightarrow> failure option) list"

record ('acc, 'item) reader =
  rd_done :: bool
  rd_self_aborted :: bool
  rd_faulted :: bool
  rd_abort :: "sse_state option"
  rd_producer_error :: "failure option"
  rd_handler :: sse_state
  rd_acc :: 'acc
  rd_response :: 'item

definition end_state :: "('acc, 'item) reader \<Rightarrow> end_state" where
  "end_state r =
     (if \<not> rd_done r then Streaming
      else if rd_faulted r then Faulted
      else if rd_self_aborted r then Aborted
      else if rd_abort r \<noteq> None then Faulted
      else Completed)"

definition reader_abort :: "('acc, 'item) reader \<Rightarrow> ('acc, 'item) reader" where
  "reader_abort r =
     (if rd_done r then r else r\<lparr>rd_self_aborted := True, rd_abort := Some ERROR\<rparr>)\<lparr>rd_done := True, rd_handler := ERROR\<rparr>"

definition reader_clear :: "('d, 'acc, 'item) reader_ops \<Rightarrow> ('acc, 'item) reader \<Rightarrow> ('acc, 'item) reader" where
  "reader_clear ops r =
     \<lparr>rd_done = False, rd_self_aborted = False, rd_faulted = False, rd_abort = None, rd_producer_error = None,
      rd_handler = RUNNING, rd_acc = ro_start ops, rd_response = ro_default ops\<rparr>"

text \<open>What one \<^verbatim>\<open>get\<close> of the channel gives; the consumer may call \<^verbatim>\<open>abort\<close> between two of them.\<close>

datatype 'd channel_event = Delta 'd | Closed sse_state | SelfAbort

fun run_hooks :: "('d \<Rightarrow> failure option) list \<Rightarrow> 'd \<Rightarrow> failure option" where
  "run_hooks [] d = None"
| "run_hooks (hook # hooks) d = (case hook d of Some e \<Rightarrow> Some e | None \<Rightarrow> run_hooks hooks d)"

text \<open>The second \<^verbatim>\<open>try\<close> block of \<^verbatim>\<open>next\<close>: the exception it leaves with, and the reader.\<close>

definition fold_delta ::
  "('d, 'acc, 'item) reader_ops \<Rightarrow> 'd \<Rightarrow> ('acc, 'item) reader \<Rightarrow> failure option \<times> ('acc, 'item) reader" where
  "fold_delta ops d r =
     (case ro_accumulate ops d (rd_acc r) of
        Inl e \<Rightarrow> (Some e, r)
      | Inr acc \<Rightarrow>
          let r1 = r\<lparr>rd_acc := acc\<rparr> in
          if ro_is_terminal ops d then
            (case ro_assemble ops acc of
               Inl e \<Rightarrow> (Some e, r1)
             | Inr item \<Rightarrow> (run_hooks (ro_hooks ops) d, r1\<lparr>rd_response := item, rd_handler := DONE, rd_done := True\<rparr>))
          else (run_hooks (ro_hooks ops) d, r1))"

definition reader_next ::
  "('d, 'acc, 'item) reader_ops \<Rightarrow> 'd channel_event \<Rightarrow> ('acc, 'item) reader \<Rightarrow> (failure + 'd option) \<times> ('acc, 'item) reader" where
  "reader_next ops event r =
     (if rd_done r then (Inr None, r)
      else
        case event of
          SelfAbort \<Rightarrow> (Inr None, reader_abort r)
        | Closed state \<Rightarrow> (Inr None, r\<lparr>rd_abort := Some state, rd_done := True\<rparr>)
        | Delta d \<Rightarrow>
            (case fold_delta ops d r of
               (Some e, r1) \<Rightarrow> (Inl e, r1\<lparr>rd_faulted := True, rd_handler := ERROR, rd_done := True\<rparr>)
             | (None, r1) \<Rightarrow> (Inr (Some d), r1)))"

text \<open>
  \<^verbatim>\<open>consume\<close> over what the channel still gives. When the producer is done with the handler, \<^verbatim>\<open>pump\<close> has closed the
  channel, with \<^verbatim>\<open>ERROR\<close>.
\<close>

fun reader_consume ::
  "('d, 'acc, 'item) reader_ops \<Rightarrow> 'd channel_event list \<Rightarrow> ('acc, 'item) reader \<Rightarrow> (failure + 'item) \<times> ('acc, 'item) reader" where
  "reader_consume ops [] r =
     (let r1 = (if rd_done r then r else snd (reader_next ops (Closed ERROR) r)) in (Inr (rd_response r1), r1))"
| "reader_consume ops (event # events) r =
     (case reader_next ops event r of
        (Inl e, r1) \<Rightarrow> (Inl e, r1)
      | (Inr None, r1) \<Rightarrow> (Inr (rd_response r1), r1)
      | (Inr (Some d), r1) \<Rightarrow> reader_consume ops events r1)"

section \<open>The streaming engine\<close>

text \<open>
  One attempt: a failed connection, or the events of the channel with the exception the producer ended with, and whether
  the whole operation was cancelled.
\<close>

record 'd exchange =
  ex_connect :: "failure option"
  ex_events :: "'d channel_event list"
  ex_producer :: "failure option"
  ex_cancelled :: bool

definition complete_once ::
  "('d, 'acc, 'item) reader_ops \<Rightarrow> 'd exchange \<Rightarrow> ('acc, 'item) reader \<Rightarrow> (failure + 'item) \<times> ('acc, 'item) reader" where
  "complete_once ops x r =
     (case ex_connect x of
        Some e \<Rightarrow> (Inl e, r)
      | None \<Rightarrow>
          let (outcome, r1) = reader_consume ops (ex_events x) r; r2 = r1\<lparr>rd_producer_error := ex_producer x\<rparr> in
          if ex_cancelled x then (Inl (SystemFailure operation_aborted), r2) else (outcome, r2))"

text \<open>The \<^verbatim>\<open>try\<close> block of an attempt: whether the consumer aborted, and the value or the exception.\<close>

definition complete_try ::
  "('d, 'acc, 'item) reader_ops \<Rightarrow> http_request \<Rightarrow> 'd exchange \<Rightarrow> ('acc, 'item) reader \<Rightarrow> bool \<times> (failure + 'item)" where
  "complete_try ops request x r =
     (case complete_once ops x (reader_clear ops r) of
        (Inl e, _) \<Rightarrow> (False, Inl e)
      | (Inr item, r1) \<Rightarrow>
          (case end_state r1 of
             Completed \<Rightarrow> (False, Inr item)
           | Aborted \<Rightarrow>
               (True, Inl (wrap_request_failure UnknownStage ''stream aborted by the consumer before the terminal event'' no_error request 0))
           | _ \<Rightarrow>
               (False, Inl (case rd_producer_error r1 of
                  Some e \<Rightarrow> e
                | None \<Rightarrow> wrap_request_failure ReadStage ''stream ended without the terminal event'' no_error request 0))))"

definition complete_verdict :: "bool \<Rightarrow> bool \<times> (failure + 'item) \<Rightarrow> 'item attempt_end" where
  "complete_verdict is_cancelled attempt =
     (case attempt of
        (_, Inr item) \<Rightarrow> Returned item
      | (self_aborted, Inl (Http f)) \<Rightarrow>
          if is_cancelled then Thrown (SystemFailure operation_aborted)
          else if self_aborted \<or> \<not> recoverable f then Thrown (Http f)
          else Retryable (Http f)
      | (_, Inl e) \<Rightarrow> Thrown e)"

definition complete ::
  "('d, 'acc, 'item) reader_ops \<Rightarrow> retry_policy \<Rightarrow> http_request \<Rightarrow> ('acc, 'item) reader \<Rightarrow> (nat \<Rightarrow> 'd exchange) \<Rightarrow>
   (nat \<Rightarrow> error_code option) \<Rightarrow> (failure + 'item) \<times> int list \<times> nat" where
  "complete ops p request r exchange_at cancelled =
     retry_loop ''complete'' p
       (\<lambda>i. complete_verdict (ex_cancelled (exchange_at i)) (complete_try ops request (exchange_at i) r)) cancelled 0
       (rp_initial_backoff p)"

section \<open>The loop is bounded and exact\<close>

text \<open>
  What a run of the loop from attempt \<open>a\<close> on says: \<open>n\<close> attempts were made, all but the last asked for a retry and were
  waited for, and the result is that of the last attempt, or the error of a cancelled wait after it.
\<close>

definition retry_run ::
  "retry_policy \<Rightarrow> (nat \<Rightarrow> 'a attempt_end) \<Rightarrow> (nat \<Rightarrow> error_code option) \<Rightarrow> nat \<Rightarrow> (failure + 'a) \<Rightarrow> nat \<Rightarrow> nat \<Rightarrow> bool" where
  "retry_run p attempt_at cancelled a r waits n \<longleftrightarrow>
     0 < n \<and> a + n \<le> Suc (rp_max_retry_attempts p) \<and>
     (\<forall>i < n - 1. (\<exists>e. attempt_at (a + i) = Retryable e) \<and> cancelled (a + i) = None) \<and>
     (case attempt_at (a + (n - 1)) of
        Returned x \<Rightarrow> r = Inr x \<and> waits = n - 1
      | Thrown e \<Rightarrow> r = Inl e \<and> waits = n - 1
      | Retryable e \<Rightarrow>
          r = Inl e \<and> waits = n - 1 \<and> a + n = Suc (rp_max_retry_attempts p) \<or>
          (\<exists>ec. cancelled (a + (n - 1)) = Some ec \<and> r = Inl (SystemFailure ec) \<and> waits = n))"

lemma retry_run_step:
  assumes "retry_run p attempt_at cancelled (Suc a) r w n" "attempt_at a = Retryable e" "cancelled a = None"
  shows "retry_run p attempt_at cancelled a r (Suc w) (Suc n)"
proof -
  have n: "0 < n" "Suc a + n \<le> Suc (rp_max_retry_attempts p)"
    and all: "\<And>i. i < n - 1 \<Longrightarrow> (\<exists>e. attempt_at (Suc a + i) = Retryable e) \<and> cancelled (Suc a + i) = None"
    using assms(1) by (auto simp: retry_run_def)
  have "(\<exists>e. attempt_at (a + i) = Retryable e) \<and> cancelled (a + i) = None" if "i < Suc n - 1" for i
    using all [of "i - 1"] that assms(2,3) by (cases i) auto
  moreover have "a + (Suc n - 1) = Suc a + (n - 1)" using n by simp
  ultimately show ?thesis
    using assms(1) n by (auto simp: retry_run_def split: attempt_end.splits)
qed

lemma retry_loop_run:
  "retry_loop engine p attempt_at cancelled a b = (r, ws, n) \<Longrightarrow> a \<le> rp_max_retry_attempts p \<Longrightarrow>
   retry_run p attempt_at cancelled a r (length ws) n \<and> (ws \<noteq> [] \<longrightarrow> hd ws = b) \<and>
   (\<forall>i. Suc i < length ws \<longrightarrow> ws ! Suc i = next_backoff p (ws ! i))"
proof (induction engine p attempt_at cancelled a b arbitrary: r ws n rule: retry_loop.induct)
  case (1 engine p attempt_at cancelled a b)
  note unfolded = "1.prems"(1) [unfolded retry_loop.simps [of engine p attempt_at cancelled a b]]
  show ?case
  proof (cases "\<exists>e. attempt_at a = Retryable e \<and> a \<noteq> rp_max_retry_attempts p \<and> cancelled a = None")
    case True
    then obtain e where e: "attempt_at a = Retryable e" "a \<noteq> rp_max_retry_attempts p" "cancelled a = None" by blast
    obtain ws1 n1 where loop: "retry_loop engine p attempt_at cancelled (a + 1) (next_backoff p b) = (r, ws1, n1)"
      and ws: "ws = b # ws1" "n = Suc n1"
      using unfolded e "1.prems"(2) by (auto split: prod.splits)
    have "a + 1 \<le> rp_max_retry_attempts p" using e(2) "1.prems"(2) by simp
    from "1.IH" [OF "1.prems"(2) e(1,2,3) loop this] e(1,3) ws show ?thesis
      by (auto intro: retry_run_step simp: nth_Cons hd_conv_nth split: nat.splits)
  next
    case False
    with unfolded "1.prems"(2) show ?thesis
      by (auto simp: retry_run_def split: attempt_end.splits if_splits option.splits)
  qed
qed

lemma sdiv_2: "0 \<le> m \<Longrightarrow> m sdiv 2 = (m :: int) div 2"
  by (cases "m = 0") (simp_all add: signed_divide_int_def)

lemma next_backoff_min: "0 \<le> rp_max_backoff p \<Longrightarrow> b \<le> rp_max_backoff p \<Longrightarrow> next_backoff p b = min (b * 2) (rp_max_backoff p)"
  by (auto simp: next_backoff_def sdiv_2 min_def)

text \<open>The waits double from the initial one and stay at the ceiling.\<close>

lemma waits_doubling:
  assumes "0 \<le> initial" "p = retry_policy_new initial ceiling attempts"
    and "ws \<noteq> [] \<longrightarrow> hd ws = initial" "\<forall>i. Suc i < length ws \<longrightarrow> ws ! Suc i = next_backoff p (ws ! i)"
  shows "ws = map (\<lambda>i. min (initial * 2 ^ i) (max initial ceiling)) [0..<length ws]"
proof (rule nth_equalityI)
  have m: "rp_max_backoff p = max initial ceiling" using assms(2) by (auto simp: retry_policy_new_def)
  fix i assume "i < length ws"
  then have "ws ! i = min (initial * 2 ^ i) (max initial ceiling)"
  proof (induction i)
    case 0
    then show ?case using assms(3) by (auto simp: hd_conv_nth)
  next
    case (Suc i)
    have "0 \<le> initial * 2 ^ i" using assms(1) by simp
    with Suc assms(1,4) m show ?case by (auto simp: next_backoff_min min_def)
  qed
  with \<open>i < length ws\<close> show "ws ! i = map (\<lambda>i. min (initial * 2 ^ i) (max initial ceiling)) [0..<length ws] ! i" by simp
qed simp
section \<open>A completed stream has its terminal event\<close>

fun accumulate_all :: "('d, 'acc, 'item) reader_ops \<Rightarrow> 'd list \<Rightarrow> 'acc \<Rightarrow> failure + 'acc" where
  "accumulate_all ops [] acc = Inr acc"
| "accumulate_all ops (d # ds) acc = and_then (ro_accumulate ops d acc) (accumulate_all ops ds)"

text \<open>The item is assembled from the deltas up to the first terminal one, and from nothing else.\<close>

definition assembled_from :: "('d, 'acc, 'item) reader_ops \<Rightarrow> 'acc \<Rightarrow> 'd channel_event list \<Rightarrow> 'item \<Rightarrow> bool" where
  "assembled_from ops acc events item \<longleftrightarrow>
     (\<exists>ds d rest acc'. events = map Delta ds @ Delta d # rest \<and> list_all (\<lambda>x. \<not> ro_is_terminal ops x) ds \<and>
        ro_is_terminal ops d \<and> accumulate_all ops (ds @ [d]) acc = Inr acc' \<and> ro_assemble ops acc' = Inr item)"

lemma assembled_from_step:
  assumes "\<not> ro_is_terminal ops d" "ro_accumulate ops d acc = Inr acc'" "assembled_from ops acc' events item"
  shows "assembled_from ops acc (Delta d # events) item"
proof -
  obtain ds d' rest acc'' where "events = map Delta ds @ Delta d' # rest" "list_all (\<lambda>x. \<not> ro_is_terminal ops x) ds"
    "ro_is_terminal ops d'" "accumulate_all ops (ds @ [d']) acc' = Inr acc''" "ro_assemble ops acc'' = Inr item"
    using assms(3) by (auto simp: assembled_from_def)
  with assms(1,2) show ?thesis
    unfolding assembled_from_def by (intro exI [of _ "d # ds"] exI [of _ d'] exI [of _ rest] exI [of _ acc'']) auto
qed

definition fresh_reader :: "('acc, 'item) reader \<Rightarrow> bool" where
  "fresh_reader r \<longleftrightarrow> \<not> rd_done r \<and> \<not> rd_self_aborted r \<and> \<not> rd_faulted r \<and> rd_abort r = None"

lemma consume_completed:
  "reader_consume ops events r = (Inr item, r') \<Longrightarrow> fresh_reader r \<Longrightarrow> end_state r' = Completed \<Longrightarrow>
   assembled_from ops (rd_acc r) events item"
proof (induction events arbitrary: r)
  case Nil
  then show ?case by (auto simp: fresh_reader_def reader_next_def end_state_def)
next
  case (Cons event events)
  show ?case
  proof (cases event)
    case (Closed state)
    with Cons.prems show ?thesis by (auto simp: fresh_reader_def reader_next_def end_state_def)
  next
    case SelfAbort
    with Cons.prems show ?thesis by (auto simp: fresh_reader_def reader_next_def end_state_def reader_abort_def)
  next
    case (Delta d)
    obtain r1 where fold: "fold_delta ops d r = (None, r1)" and rest: "reader_consume ops events r1 = (Inr item, r')"
      using Cons.prems(1,2) Delta
      by (auto simp: reader_next_def fresh_reader_def split: prod.splits option.splits)
    obtain acc where acc: "ro_accumulate ops d (rd_acc r) = Inr acc"
      using fold by (auto simp: fold_delta_def split: sum.splits)
    show ?thesis
    proof (cases "ro_is_terminal ops d")
      case True
      then obtain item' where item': "ro_assemble ops acc = Inr item'"
        "r1 = r\<lparr>rd_acc := acc, rd_response := item', rd_handler := DONE, rd_done := True\<rparr>"
        using fold acc by (auto simp: fold_delta_def Let_def split: sum.splits)
      then have "item = item'"
        using rest by (cases events) (auto simp: reader_next_def)
      with item' True acc Delta show ?thesis
        unfolding assembled_from_def by (intro exI [of _ "[]"] exI [of _ d] exI [of _ events] exI [of _ acc]) auto
    next
      case False
      then have r1: "r1 = r\<lparr>rd_acc := acc\<rparr>" using fold acc by (auto simp: fold_delta_def)
      with Cons.prems(2) have "fresh_reader r1" by (simp add: fresh_reader_def)
      from Cons.IH [OF rest this Cons.prems(3)] assembled_from_step [OF False acc] r1 Delta show ?thesis by simp
    qed
  qed
qed

lemma complete_try_Inr:
  assumes "snd (complete_try ops request x r) = Inr item"
  shows "ex_connect x = None \<and> \<not> ex_cancelled x \<and> assembled_from ops (ro_start ops) (ex_events x) item"
proof -
  let ?r = "reader_clear ops r"
  obtain outcome r1 where c: "reader_consume ops (ex_events x) ?r = (outcome, r1)" by fastforce
  have x: "ex_connect x = None" "\<not> ex_cancelled x" "outcome = Inr item" "end_state (r1\<lparr>rd_producer_error := ex_producer x\<rparr>) = Completed"
    using assms c by (auto simp: complete_try_def complete_once_def Let_def split: option.splits if_splits sum.splits end_state.splits)
  then have "end_state r1 = Completed" by (cases r1) (simp add: end_state_def split: if_splits)
  moreover have "fresh_reader ?r" "rd_acc ?r = ro_start ops" by (simp_all add: fresh_reader_def reader_clear_def)
  ultimately show ?thesis using consume_completed [of ops "ex_events x" ?r item r1] c x by simp
qed

lemma complete_verdict_cases:
  "complete_verdict c t = Retryable e \<Longrightarrow> \<exists>f. e = Http f \<and> snd t = Inl (Http f) \<and> recoverable f \<and> \<not> fst t \<and> \<not> c"
  "complete_verdict c t = Returned item \<Longrightarrow> snd t = Inr item"
  by (cases t; auto simp: complete_verdict_def split: sum.splits failure.splits if_splits)+

text \<open>
  C34. Whatever the network, the consumer's aborts, the timer and cancellation do: a streamed exchange makes at most one
  attempt more than the budget allows retries; the waits double from the initial one up to the ceiling; every attempt
  that is followed by another failed with a recoverable failure, was not aborted by the consumer and not cancelled; and a
  returned item was assembled from the deltas of the last attempt alone, up to its first terminal one. A failure is
  reported only if it is the verdict of the last attempt, the budget is spent, or the wait was cancelled.
\<close>

theorem complete_exact:
  assumes "0 \<le> initial"
    and "complete ops (retry_policy_new initial ceiling attempts) request r exchange_at cancelled = (result, waits, n)"
  shows "0 < n \<and> n \<le> Suc attempts \<and>
    waits = map (\<lambda>i. min (initial * 2 ^ i) (max initial ceiling)) [0..<length waits] \<and> length waits \<in> {n - 1, n} \<and>
    (\<forall>i < n - 1. \<exists>f. complete_try ops request (exchange_at i) r = (False, Inl (Http f)) \<and> recoverable f \<and>
       \<not> ex_cancelled (exchange_at i)) \<and>
    (case result of
       Inr item \<Rightarrow> assembled_from ops (ro_start ops) (ex_events (exchange_at (n - 1))) item
     | Inl e \<Rightarrow>
         complete_verdict (ex_cancelled (exchange_at (n - 1))) (complete_try ops request (exchange_at (n - 1)) r) = Thrown e \<or>
         n = Suc attempts \<and> snd (complete_try ops request (exchange_at (n - 1)) r) = Inl e \<or>
         (\<exists>ec. cancelled (n - 1) = Some ec \<and> e = SystemFailure ec))"
proof -
  let ?p = "retry_policy_new initial ceiling attempts"
  let ?at = "\<lambda>i. complete_verdict (ex_cancelled (exchange_at i)) (complete_try ops request (exchange_at i) r)"
  have p: "rp_max_retry_attempts ?p = attempts" "rp_initial_backoff ?p = initial"
    by (simp_all add: retry_policy_new_def)
  note run = retry_loop_run [OF assms(2) [unfolded complete_def p]]
  then have rr: "retry_run ?p ?at cancelled 0 result (length waits) n" by (simp add: p)
  have waits: "waits = map (\<lambda>i. min (initial * 2 ^ i) (max initial ceiling)) [0..<length waits]"
    using run by (intro waits_doubling [OF assms(1) refl]) (auto simp: p)
  have n: "0 < n" "n \<le> Suc attempts" "length waits \<in> {n - 1, n}"
    using rr by (auto simp: retry_run_def p split: attempt_end.splits)
  have earlier: "\<exists>f. complete_try ops request (exchange_at i) r = (False, Inl (Http f)) \<and> recoverable f \<and>
      \<not> ex_cancelled (exchange_at i)" if "i < n - 1" for i
  proof -
    from rr that obtain e where "?at i = Retryable e" by (auto simp: retry_run_def)
    from complete_verdict_cases(1) [OF this] show ?thesis by (metis prod.collapse)
  qed
  have final: "case result of
       Inr item \<Rightarrow> assembled_from ops (ro_start ops) (ex_events (exchange_at (n - 1))) item
     | Inl e \<Rightarrow> ?at (n - 1) = Thrown e \<or>
         n = Suc attempts \<and> snd (complete_try ops request (exchange_at (n - 1)) r) = Inl e \<or>
         (\<exists>ec. cancelled (n - 1) = Some ec \<and> e = SystemFailure ec)"
  proof (cases "?at (n - 1)")
    case (Returned item)
    with rr complete_verdict_cases(2) [OF Returned] complete_try_Inr [of ops request "exchange_at (n - 1)" r item]
    show ?thesis by (simp add: retry_run_def)
  next
    case (Thrown e)
    with rr show ?thesis by (simp add: retry_run_def)
  next
    case (Retryable e)
    with rr complete_verdict_cases(1) [OF Retryable] p show ?thesis by (auto simp: retry_run_def)
  qed
  show ?thesis using waits n earlier final by blast
qed
definition echo_ops :: "(nat, nat list, nat list) reader_ops" where
  "echo_ops = \<lparr>ro_start = [], ro_default = [], ro_accumulate = (\<lambda>d acc. Inr (acc @ [d])), ro_is_terminal = (\<lambda>d. d = 0),
     ro_assemble = Inr, ro_hooks = []\<rparr>"

definition plain_request :: http_request where
  "plain_request = \<lparr>rq_method = ''POST'', rq_target = ''/chat'', rq_host = ''api''\<rparr>"

text \<open>The first connection is refused, the second stream is complete.\<close>

definition refused_once :: "nat \<Rightarrow> nat exchange" where
  "refused_once i =
     \<lparr>ex_connect = (if i = 0 then Some (wrap_request_failure Connect ''refused'' connection_refused plain_request 0) else None),
      ex_events = [Delta 7, Delta 0, Delta 9], ex_producer = None, ex_cancelled = False\<rparr>"

theorem complete_exact_witness:
  "complete echo_ops (retry_policy_new 500 120000 3) plain_request (reader_clear echo_ops undefined) refused_once (\<lambda>_. None)
     = (Inr [7, 0], [500], 2) \<and>
   assembled_from echo_ops (ro_start echo_ops) (ex_events (refused_once (2 - 1))) [7, 0]"
proof -
  have run: "complete echo_ops (retry_policy_new 500 120000 3) plain_request (reader_clear echo_ops undefined) refused_once (\<lambda>_. None)
     = (Inr [7, 0], [500], 2)"
    by (simp add: complete_def retry_loop.simps retry_policy_new_def refused_once_def complete_try_def complete_once_def
        complete_verdict_def wrap_request_failure_def recoverable_def recoverable_connect_def connection_refused_def
        reader_clear_def echo_ops_def reader_next_def fold_delta_def end_state_def next_backoff_def sdiv_2)
  with complete_exact [OF _ run] show ?thesis by simp
qed

section \<open>The bounded engine\<close>

lemma fetch_verdict_cases:
  "fetch_verdict o' = Retryable e \<Longrightarrow> \<exists>f. e = Http f \<and> o' = Inl (Http f) \<and> fetch_recoverable f"
  "fetch_verdict o' = Returned x \<Longrightarrow> o' = Inr x"
  by (auto simp: fetch_verdict_def split: sum.splits failure.splits if_splits)

lemma fetch_once_Inr:
  assumes "fetch_once message_of request handler connected answer = Inr x"
  shows "\<exists>body. connected = None \<and> answer = Inr \<lparr>rs_status = 200, rs_body = body\<rparr> \<and> handler body = Inr x"
proof -
  have connected: "connected = None" using assms by (simp add: fetch_once_def split: option.splits)
  then obtain response where response: "answer = Inr response"
    using assms by (cases answer) (simp_all add: fetch_once_def)
  obtain status body where parts: "response = \<lparr>rs_status = status, rs_body = body\<rparr>" by (cases response)
  have status: "status = 200"
    using assms by (simp add: fetch_once_def connected response parts Let_def split: if_splits)
  have "handler body = Inr x"
  proof (cases "handler body")
    case (Inl e)
    then show ?thesis
      using assms by (cases e) (simp_all add: fetch_once_def connected response parts status)
  next
    case (Inr y)
    then show ?thesis using assms by (simp add: fetch_once_def connected response parts status)
  qed
  with connected response parts status show ?thesis by simp
qed

text \<open>
  A bounded query: the same bounds, a value only from the handler on the body of a 200 answer of the last attempt, and no
  second attempt after a fault of the handler itself.
\<close>

theorem fetch_exact:
  assumes "0 \<le> initial"
    and "fetch message_of (retry_policy_new initial ceiling attempts) request handler connected answer cancelled = (result, waits, n)"
  shows "0 < n \<and> n \<le> Suc attempts \<and>
    waits = map (\<lambda>i. min (initial * 2 ^ i) (max initial ceiling)) [0..<length waits] \<and>
    (\<forall>i < n - 1. \<exists>f. fetch_once message_of request handler (connected i) (answer i) = Inl (Http f) \<and> recoverable f \<and>
       (hf_stage f \<noteq> HandleResponse \<or> hf_status f \<noteq> 0)) \<and>
    (\<forall>x. result = Inr x \<longrightarrow> (\<exists>body. connected (n - 1) = None \<and> answer (n - 1) = Inr \<lparr>rs_status = 200, rs_body = body\<rparr> \<and>
       handler body = Inr x))"
proof -
  let ?p = "retry_policy_new initial ceiling attempts"
  let ?once = "\<lambda>i. fetch_once message_of request handler (connected i) (answer i)"
  have p: "rp_max_retry_attempts ?p = attempts" "rp_initial_backoff ?p = initial"
    by (simp_all add: retry_policy_new_def)
  note run = retry_loop_run [OF assms(2) [unfolded fetch_def p]]
  then have rr: "retry_run ?p (\<lambda>i. fetch_verdict (?once i)) cancelled 0 result (length waits) n" by (simp add: p)
  have waits: "waits = map (\<lambda>i. min (initial * 2 ^ i) (max initial ceiling)) [0..<length waits]"
    using run by (intro waits_doubling [OF assms(1) refl]) (auto simp: p)
  have earlier: "\<exists>f. ?once i = Inl (Http f) \<and> recoverable f \<and> (hf_stage f \<noteq> HandleResponse \<or> hf_status f \<noteq> 0)"
    if "i < n - 1" for i
  proof -
    from rr that obtain e where "fetch_verdict (?once i) = Retryable e" by (auto simp: retry_run_def)
    from fetch_verdict_cases(1) [OF this] show ?thesis by (auto simp: fetch_recoverable_def split: if_splits)
  qed
  have val: "fetch_verdict (?once (n - 1)) = Returned x" if "result = Inr x" for x
    using rr that by (auto simp: retry_run_def split: attempt_end.splits)
  show ?thesis
    using rr waits earlier fetch_once_Inr [OF fetch_verdict_cases(2) [OF val]] by (auto simp: retry_run_def p)
qed

section \<open>From the wire to the item\<close>

lemma run_hooks_silent: "list_all (\<lambda>hook. hook d = None) hooks \<Longrightarrow> run_hooks hooks d = None"
  by (induction hooks) auto

lemma consume_stream:
  assumes "list_all (\<lambda>x. \<not> ro_is_terminal ops x) ds" "ro_is_terminal ops d" "accumulate_all ops (ds @ [d]) (rd_acc r) = Inr acc"
    and "ro_assemble ops acc = Inr item" "fresh_reader r" "\<And>x. list_all (\<lambda>hook. hook x = None) (ro_hooks ops)"
  shows "\<exists>r'. reader_consume ops (map Delta (ds @ [d])) r = (Inr item, r') \<and> end_state r' = Completed"
  using assms(1,3,5)
proof (induction ds arbitrary: r)
  case Nil
  then obtain a where "ro_accumulate ops d (rd_acc r) = Inr a" "a = acc" by (auto simp: and_then_eq_Inr)
  with Nil assms(2,4) show ?case
    by (simp add: reader_next_def fold_delta_def fresh_reader_def run_hooks_silent assms(6) end_state_def)
next
  case (Cons x ds)
  then obtain a where a: "ro_accumulate ops x (rd_acc r) = Inr a" "accumulate_all ops (ds @ [d]) a = Inr acc"
    by (auto simp: and_then_eq_Inr)
  have "fresh_reader (r\<lparr>rd_acc := a\<rparr>)" using Cons.prems(3) by (simp add: fresh_reader_def)
  from Cons.IH [OF _ _ this] a Cons.prems show ?case
    by (simp add: reader_next_def fold_delta_def fresh_reader_def run_hooks_silent assms(6))
qed

text \<open>
  The composition of the two halves: events that a server writes, however the network cuts them, become the item their
  deltas assemble to.
\<close>

theorem streamed_item:
  assumes "list_all plain_event (ms @ [m])" "concat chunks = concat (map encode_event (ms @ [m]))"
    and "list_all (\<lambda>e. \<not> ro_is_terminal ops (f e)) ms" "ro_is_terminal ops (f m)"
    and "accumulate_all ops (map f (ms @ [m])) (ro_start ops) = Inr acc" "ro_assemble ops acc = Inr item"
    and "\<And>x. list_all (\<lambda>hook. hook x = None) (ro_hooks ops)"
    and "ex_connect x = None" "\<not> ex_cancelled x"
    and "ex_events x = map Delta (fst (sse_feed (\<lambda>e. Inr (f e)) (map (\<lambda>c. (c, None)) chunks) (SSEResponseHandler window)))"
  shows "complete_try ops request x r = (False, Inr item)"
proof -
  obtain h where "sse_feed (\<lambda>e. Inr (f e)) (map (\<lambda>c. (c, None)) chunks) (SSEResponseHandler window) = (map f (ms @ [m]), None, h)"
    using sse_feed_start [OF carries_start(1) [of window], of f chunks] sse_events_encode [OF assms(1)] assms(2) by auto
  with assms(10) have events: "ex_events x = map Delta (map f ms @ [f m])" by simp
  have "fresh_reader (reader_clear ops r)" "rd_acc (reader_clear ops r) = ro_start ops"
    by (simp_all add: fresh_reader_def reader_clear_def)
  then obtain r' where r': "reader_consume ops (map Delta (map f ms @ [f m])) (reader_clear ops r) = (Inr item, r')"
    "end_state r' = Completed"
    using consume_stream [of ops "map f ms" "f m" "reader_clear ops r" acc item] assms(3-7) by (auto simp: list_all_iff)
  then have "end_state (r'\<lparr>rd_producer_error := ex_producer x\<rparr>) = Completed"
    by (cases r') (simp add: end_state_def split: if_splits)
  with r' assms(8,9) show ?thesis by (simp add: complete_try_def complete_once_def events)
qed

end
