(* ===== verification/Endpoint_Config.thy ===== *)
theory Endpoint_Config
  imports Endpoint_Retry Model_IO "HOL-Library.Char_ord" "HOL-Library.List_Lexorder"
begin

text \<open>
  Where a request goes: the configuration of a provider (\<^verbatim>\<open>dataclass/include/dataclass/endpoint_config.hpp\<close>) with its JSON
  form, and what \<^verbatim>\<open>endpoint/include/endpoint/model_request.hpp\<close> makes of it: host, port and target, the transport headers, and
  the folding of connection failures. The JSON library, the header fields of a request and the connection itself are
  parameters; the locales \<open>header_laws\<close> and \<open>config_laws\<close> say what is relied on.
\<close>

section \<open>Configuration\<close>

datatype auth_scheme = NoAuth | Bearer | CustomHeader

definition auth_scheme_names :: "(auth_scheme \<times> string) list" where
  "auth_scheme_names = [(NoAuth, ''none''), (Bearer, ''bearer''), (CustomHeader, ''custom_header'')]"

record 'j endpoint_auth =
  ea_scheme :: auth_scheme
  ea_api_key :: string
  ea_header_name :: string
  ea_extras :: "'j option"

definition default_auth :: "'j endpoint_auth" where
  "default_auth = \<lparr>ea_scheme = Bearer, ea_api_key = [], ea_header_name = ''x-api-key'', ea_extras = None\<rparr>"

definition auth_to_json :: "'j json_lib \<Rightarrow> 'j endpoint_auth \<Rightarrow> 'j" where
  "auth_to_json J a =
     write_optional J ''extras'' (\<lambda>e. e) (ea_extras a)
       (js_object J [(''scheme'', enum_to_json J auth_scheme_names (ea_scheme a)),
                     (''api_key'', js_string J (ea_api_key a)),
                     (''header_name'', js_string J (ea_header_name a))])"

definition auth_from_json :: "'j json_lib \<Rightarrow> 'j \<Rightarrow> 'j endpoint_auth \<Rightarrow> 'j endpoint_auth result" where
  "auth_from_json J j a =
     and_then (read_field J j ''scheme'' (enum_from_json J auth_scheme_names) (ea_scheme a)) (\<lambda>scheme.
     and_then (read_field J j ''api_key'' (js_get_string J) (ea_api_key a)) (\<lambda>key.
     and_then (read_field J j ''header_name'' (js_get_string J) (ea_header_name a)) (\<lambda>header.
     and_then (read_optional J j ''extras'' Inr) (\<lambda>extras.
       Inr \<lparr>ea_scheme = scheme, ea_api_key = key, ea_header_name = header, ea_extras = extras\<rparr>))))"

text \<open>The extra headers are a \<^verbatim>\<open>std::map\<close>: an association list with ascending keys.\<close>

record 'j model_endpoint =
  me_base_url :: string
  me_request_path :: string
  me_auth :: "'j endpoint_auth"
  me_user_agent :: string
  me_extra_headers :: "(string \<times> string) list"
  me_extras :: "'j option"

definition default_endpoint :: "'j model_endpoint" where
  "default_endpoint =
     \<lparr>me_base_url = [], me_request_path = ''/chat/completions'', me_auth = default_auth, me_user_agent = ''simplex-cpp'',
      me_extra_headers = [], me_extras = None\<rparr>"

text \<open>\<open>get_map\<close> is the library's conversion of an object to a map of strings.\<close>

definition endpoint_to_json :: "'j json_lib \<Rightarrow> 'j model_endpoint \<Rightarrow> 'j" where
  "endpoint_to_json J e =
     write_optional J ''extras'' (\<lambda>x. x) (me_extras e)
       (js_object J [(''base_url'', js_string J (me_base_url e)),
                     (''request_path'', js_string J (me_request_path e)),
                     (''auth'', auth_to_json J (me_auth e)),
                     (''user_agent'', js_string J (me_user_agent e)),
                     (''extra_headers'', js_object J (map (\<lambda>(k, v). (k, js_string J v)) (me_extra_headers e)))])"

definition endpoint_from_json ::
  "'j json_lib \<Rightarrow> ('j \<Rightarrow> (string \<times> string) list result) \<Rightarrow> 'j \<Rightarrow> 'j model_endpoint \<Rightarrow> 'j model_endpoint result" where
  "endpoint_from_json J get_map j e =
     and_then (read_field J j ''base_url'' (js_get_string J) (me_base_url e)) (\<lambda>url.
     and_then (read_field J j ''request_path'' (js_get_string J) (me_request_path e)) (\<lambda>path.
     and_then (read_field J j ''auth'' (\<lambda>v. auth_from_json J v (me_auth e)) (me_auth e)) (\<lambda>auth.
     and_then (read_field J j ''user_agent'' (js_get_string J) (me_user_agent e)) (\<lambda>agent.
     and_then (read_field J j ''extra_headers'' get_map (me_extra_headers e)) (\<lambda>headers.
     and_then (read_optional J j ''extras'' Inr) (\<lambda>extras.
       Inr \<lparr>me_base_url = url, me_request_path = path, me_auth = auth, me_user_agent = agent,
            me_extra_headers = headers, me_extras = extras\<rparr>))))))"

section \<open>Resolution\<close>

record resolved_endpoint =
  re_host :: string
  re_port :: string
  re_target :: string
  re_tls :: bool

definition default_port :: "bool \<Rightarrow> string" where
  "default_port tls = (if tls then ''443'' else ''80'')"

definition authority :: "resolved_endpoint \<Rightarrow> string" where
  "authority r = (if re_port r = default_port (re_tls r) then re_host r else re_host r @ '':'' @ re_port r)"

text \<open>\<^verbatim>\<open>rest.rfind(scheme, 0) == 0\<close> tests for the prefix, as \<open>starts_with\<close> does.\<close>

definition strip_scheme :: "string \<Rightarrow> string \<times> bool" where
  "strip_scheme url =
     (if starts_with url ''wss://'' then (drop 6 url, True)
      else if starts_with url ''ws://'' then (drop 5 url, False)
      else if starts_with url ''https://'' then (drop 8 url, True)
      else if starts_with url ''http://'' then (drop 7 url, False)
      else (url, True))"

text \<open>The split at the last colon.\<close>

definition split_port :: "string \<Rightarrow> string \<Rightarrow> string \<times> string" where
  "split_port port auth =
     (if CHR '':'' \<in> set auth then
        (rev (drop 1 (dropWhile (\<lambda>c. c \<noteq> CHR '':'') (rev auth))), rev (takeWhile (\<lambda>c. c \<noteq> CHR '':'') (rev auth)))
      else (auth, port))"

definition strip_slashes :: "string \<Rightarrow> string" where
  "strip_slashes s = rev (dropWhile (\<lambda>c. c = CHR ''/'') (rev (dropWhile (\<lambda>c. c = CHR ''/'') s)))"

definition join_target :: "string \<Rightarrow> string \<Rightarrow> string" where
  "join_target prefix_text request_path =
     (let p = (if request_path = [] then ''/'' else request_path);
          path = (if hd p \<noteq> CHR ''/'' then CHR ''/'' # p else p);
          clean_prefix = strip_slashes prefix_text in
      if clean_prefix = [] then path else CHR ''/'' # clean_prefix @ path)"

definition resolve_endpoint :: "'j model_endpoint \<Rightarrow> failure + resolved_endpoint" where
  "resolve_endpoint e =
     (let (rest, tls) = strip_scheme (me_base_url e);
          auth = takeWhile (\<lambda>c. c \<noteq> CHR ''/'') rest;
          prefix_text = drop 1 (dropWhile (\<lambda>c. c \<noteq> CHR ''/'') rest);
          (host, port) = split_port (default_port tls) auth in
      if host = [] then
        Inl (Http \<lparr>hf_stage = CreateRequest, hf_message = ''base_url resolves to no host: '' @ [CHR 0x22] @ me_base_url e @ [CHR 0x22],
          hf_code = no_error, hf_method = [], hf_target = [], hf_host = [], hf_status = 0\<rparr>)
      else Inr \<lparr>re_host = host, re_port = port, re_target = join_target prefix_text (me_request_path e), re_tls = tls\<rparr>)"

section \<open>Transport headers\<close>

text \<open>\<open>set\<close> is \<^verbatim>\<open>request.set\<close> of the HTTP library.\<close>

definition credential :: "'j endpoint_auth \<Rightarrow> (string \<times> string) option" where
  "credential a =
     (case ea_scheme a of
        Bearer \<Rightarrow> if ea_api_key a \<noteq> [] then Some (''Authorization'', ''Bearer '' @ ea_api_key a) else None
      | CustomHeader \<Rightarrow> if ea_api_key a \<noteq> [] \<and> ea_header_name a \<noteq> [] then Some (ea_header_name a, ea_api_key a) else None
      | NoAuth \<Rightarrow> None)"

definition apply_transport_headers :: "(string \<Rightarrow> string \<Rightarrow> 'r \<Rightarrow> 'r) \<Rightarrow> 'j model_endpoint \<Rightarrow> 'r \<Rightarrow> 'r" where
  "apply_transport_headers set_field e request =
     (let r1 = (case credential (me_auth e) of Some (name, v) \<Rightarrow> set_field name v request | None \<Rightarrow> request);
          r2 = (if me_user_agent e \<noteq> [] then set_field ''User-Agent'' (me_user_agent e) r1 else r1) in
      fold (\<lambda>(name, v). set_field name v) (me_extra_headers e) r2)"

section \<open>Connecting\<close>

definition connect :: "(error_code \<Rightarrow> string) \<Rightarrow> resolved_endpoint \<Rightarrow> failure + 's \<Rightarrow> failure + 's" where
  "connect message_of resolved outcome =
     (let fold_failure = (\<lambda>what ec. Inl (Http \<lparr>hf_stage = Connect, hf_message = what, hf_code = ec, hf_method = [],
            hf_target = re_target resolved, hf_host = re_host resolved, hf_status = 0\<rparr>)) in
      case outcome of
        Inr stream \<Rightarrow> Inr stream
      | Inl (SystemFailure ec) \<Rightarrow> fold_failure (message_of ec) ec
      | Inl ForeignFailure \<Rightarrow> fold_failure ''unknown error'' no_error
      | Inl e \<Rightarrow> fold_failure (failure_what message_of e) no_error)"

section \<open>Round trip\<close>

definition wf_endpoint :: "'j json_lib \<Rightarrow> 'j model_endpoint \<Rightarrow> bool" where
  "wf_endpoint J e \<longleftrightarrow>
     no_null J (ea_extras (me_auth e)) \<and> no_null J (me_extras e) \<and>
     sorted (map fst (me_extra_headers e)) \<and> distinct (map fst (me_extra_headers e))"

locale config_laws = json_laws J for J :: "'j json_lib" +
  fixes get_map :: "'j \<Rightarrow> (string \<times> string) list result"
  assumes map_read: "sorted (map fst kvs) \<Longrightarrow> distinct (map fst kvs) \<Longrightarrow>
    get_map (js_object J (map (\<lambda>(k, v). (k, js_string J v)) kvs)) = Inr kvs"
begin

lemma auth_fields:
  "has_fields (auth_to_json J a)
     (case ea_extras a of
        None \<Rightarrow> map_of [(''scheme'', enum_to_json J auth_scheme_names (ea_scheme a)), (''api_key'', js_string J (ea_api_key a)),
                      (''header_name'', js_string J (ea_header_name a))]
      | Some x \<Rightarrow> (map_of [(''scheme'', enum_to_json J auth_scheme_names (ea_scheme a)), (''api_key'', js_string J (ea_api_key a)),
                      (''header_name'', js_string J (ea_header_name a))])(''extras'' \<mapsto> x))"
  unfolding auth_to_json_def by (intro has_fields_optional has_fields_object) simp

lemma auth_roundtrip:
  assumes "no_null J (ea_extras a)"
  shows "auth_from_json J (auth_to_json J a) a' = Inr a"
proof -
  have scheme: "enum_from_json J auth_scheme_names (enum_to_json J auth_scheme_names (ea_scheme a)) = Inr (ea_scheme a)"
    by (rule enum_written) (cases "ea_scheme a"; simp add: auth_scheme_names_def)+
  show ?thesis
    using assms scheme
    by (cases "ea_extras a")
      (simp_all add: auth_from_json_def read_field_has [OF auth_fields] read_optional_has [OF auth_fields] string_read no_null_def)
qed

lemma endpoint_roundtrip:
  assumes "wf_endpoint J e"
  shows "endpoint_from_json J get_map (endpoint_to_json J e) e' = Inr e"
proof -
  let ?kvs = "[(''base_url'', js_string J (me_base_url e)), (''request_path'', js_string J (me_request_path e)),
     (''auth'', auth_to_json J (me_auth e)), (''user_agent'', js_string J (me_user_agent e)),
     (''extra_headers'', js_object J (map (\<lambda>(k, v). (k, js_string J v)) (me_extra_headers e)))]"
  have f: "has_fields (endpoint_to_json J e) (case me_extras e of None \<Rightarrow> map_of ?kvs | Some x \<Rightarrow> (map_of ?kvs)(''extras'' \<mapsto> x))"
    unfolding endpoint_to_json_def by (intro has_fields_optional has_fields_object) simp
  show ?thesis
    using assms auth_roundtrip [of "me_auth e" "me_auth e'"] map_read [of "me_extra_headers e"]
    by (cases "me_extras e")
      (simp_all add: endpoint_from_json_def read_field_has [OF f] read_optional_has [OF f] string_read wf_endpoint_def no_null_def)
qed

end

definition json_map :: "json \<Rightarrow> (string \<times> string) list result" where
  "json_map j =
     (case j of
        JObject kvs \<Rightarrow> map_result (\<lambda>(k, v). case v of JString s \<Rightarrow> Inr (k, s) | _ \<Rightarrow> Inl JsonTypeError) kvs
      | _ \<Rightarrow> Inl JsonTypeError)"

interpretation json_config: config_laws json_values json_map
proof unfold_locales
  fix kvs :: "(string \<times> string) list"
  show "json_map (js_object json_values (map (\<lambda>(k, v). (k, js_string json_values v)) kvs)) = Inr kvs"
    by (induction kvs) (auto simp: json_map_def json_values_def)
qed

text \<open>A configuration is read back as it was written, whatever it is read into.\<close>

lemma endpoint_json_roundtrip:
  "wf_endpoint json_values e \<Longrightarrow> endpoint_from_json json_values json_map (endpoint_to_json json_values e) e' = Inr e"
  by (rule json_config.endpoint_roundtrip)

section \<open>What resolution gives\<close>

text \<open>A URL by its parts: an optional scheme, a host, an optional port, an optional path.\<close>

datatype url_scheme = NoScheme | Ws | Wss | HttpScheme | HttpsScheme

fun scheme_text :: "url_scheme \<Rightarrow> string" where
  "scheme_text NoScheme = []"
| "scheme_text Ws = ''ws://''"
| "scheme_text Wss = ''wss://''"
| "scheme_text HttpScheme = ''http://''"
| "scheme_text HttpsScheme = ''https://''"

definition scheme_tls :: "url_scheme \<Rightarrow> bool" where
  "scheme_tls s \<longleftrightarrow> s \<notin> {Ws, HttpScheme}"

definition url_text :: "url_scheme \<Rightarrow> string \<Rightarrow> string option \<Rightarrow> string option \<Rightarrow> string" where
  "url_text s host port path =
     scheme_text s @ host @ (case port of None \<Rightarrow> [] | Some p \<Rightarrow> CHR '':'' # p) @ (case path of None \<Rightarrow> [] | Some q \<Rightarrow> CHR ''/'' # q)"

definition plain_host :: "string \<Rightarrow> bool" where
  "plain_host host \<longleftrightarrow> host \<noteq> [] \<and> CHR ''/'' \<notin> set host \<and> CHR '':'' \<notin> set host"

definition plain_port :: "string option \<Rightarrow> bool" where
  "plain_port port \<longleftrightarrow> (\<forall>p. port = Some p \<longrightarrow> p \<noteq> [] \<and> CHR ''/'' \<notin> set p \<and> CHR '':'' \<notin> set p)"

lemma colon_slash:
  assumes "plain_host host" "plain_port port" "w @ '':/'' @ rest = host @ (case port of None \<Rightarrow> [] | Some p \<Rightarrow> CHR '':'' # p) @ tail"
    and "CHR '':'' \<notin> set w" "CHR ''/'' \<notin> set w" "tail = [] \<or> hd tail = CHR ''/''"
  shows False
proof -
  let ?g = "dropWhile (\<lambda>c. c \<noteq> CHR '':'' \<and> c \<noteq> CHR ''/'')"
  have l: "?g (w @ '':/'' @ rest) = '':/'' @ rest"
    using assms(4,5) by (subst dropWhile_append2) auto
  have h: "?g (host @ x) = ?g x" for x
    using assms(1) by (subst dropWhile_append2) (auto simp: plain_host_def)
  show False
  proof (cases port)
    case None
    have tail: "?g tail = tail" using assms(6) by (cases tail) auto
    have "?g (w @ '':/'' @ rest) = ?g (host @ tail)" using assms(3) None by simp
    then have "'':/'' @ rest = tail" unfolding l h tail .
    with assms(6) show False by auto
  next
    case (Some p)
    with assms(2) have p: "p \<noteq> []" "hd p \<noteq> CHR ''/''"
      unfolding plain_port_def using hd_in_set by metis+
    have "?g (w @ '':/'' @ rest) = ?g (host @ CHR '':'' # p @ tail)" using assms(3) Some by simp
    then have "'':/'' @ rest = CHR '':'' # p @ tail" unfolding l h by simp
    with p show False by (cases p) auto
  qed
qed

lemma strip_scheme_url:
  assumes "plain_host host" "plain_port port"
  shows "strip_scheme (url_text s host port path) =
    (host @ (case port of None \<Rightarrow> [] | Some p \<Rightarrow> CHR '':'' # p) @ (case path of None \<Rightarrow> [] | Some q \<Rightarrow> CHR ''/'' # q), scheme_tls s)"
proof -
  let ?tail = "case path of None \<Rightarrow> [] | Some q \<Rightarrow> CHR ''/'' # q"
  let ?rest = "host @ (case port of None \<Rightarrow> [] | Some p \<Rightarrow> CHR '':'' # p) @ ?tail"
  have "?tail = [] \<or> hd ?tail = CHR ''/''" by (cases path) auto
  note no = colon_slash [OF assms _ _ _ this]
  have split: "\<exists>rest. start @ rest = ?rest" if "starts_with ?rest start" for start
    using that unfolding starts_with_def by (metis append_take_drop_id)
  have none: "\<not> starts_with ?rest ''wss://''" "\<not> starts_with ?rest ''ws://''" "\<not> starts_with ?rest ''https://''" "\<not> starts_with ?rest ''http://''"
    using split [of "''wss://''"] split [of "''ws://''"] split [of "''https://''"] split [of "''http://''"]
      no [of "''wss''" "''/'' @ _"] no [of "''ws''" "''/'' @ _"] no [of "''https''" "''/'' @ _"] no [of "''http''" "''/'' @ _"]
    by auto
  show ?thesis
  proof (cases s)
    case NoScheme
    with none show ?thesis by (simp add: strip_scheme_def url_text_def scheme_tls_def)
  qed (simp_all add: strip_scheme_def url_text_def starts_with_def scheme_tls_def)
qed

section \<open>Which headers are sent\<close>

text \<open>A field of the request is found under every spelling \<open>lower\<close> identifies, and setting it replaces what was there.\<close>

locale header_laws =
  fixes get_field :: "string \<Rightarrow> 'r \<Rightarrow> string option"
    and set_field :: "string \<Rightarrow> string \<Rightarrow> 'r \<Rightarrow> 'r"
    and lower :: "string \<Rightarrow> string"
  assumes field_set: "get_field n (set_field m v r) = (if lower n = lower m then Some v else get_field n r)"
begin

lemma field_fold:
  "get_field n (fold (\<lambda>(m, v). set_field m v) kvs r) =
     (case find (\<lambda>(m, v). lower n = lower m) (rev kvs) of Some (m, v) \<Rightarrow> Some v | None \<Rightarrow> get_field n r)"
  by (induction kvs rule: rev_induct) (auto simp: field_set split: option.splits)

lemma transport_headers:
  "get_field n (apply_transport_headers set_field e r) =
     (case find (\<lambda>(m, v). lower n = lower m) (rev (me_extra_headers e)) of
        Some (m, v) \<Rightarrow> Some v
      | None \<Rightarrow>
          if me_user_agent e \<noteq> [] \<and> lower n = lower ''User-Agent'' then Some (me_user_agent e)
          else case credential (me_auth e) of
                 Some (m, v) \<Rightarrow> if lower n = lower m then Some v else get_field n r
               | None \<Rightarrow> get_field n r)"
  by (auto simp: apply_transport_headers_def Let_def field_fold field_set split: option.splits)

lemma no_key_no_credential:
  assumes "ea_scheme (me_auth e) = NoAuth \<or> ea_api_key (me_auth e) = []"
    and "\<forall>(m, v) \<in> set (me_extra_headers e). lower n \<noteq> lower m" "lower n \<noteq> lower ''User-Agent''"
  shows "get_field n (apply_transport_headers set_field e r) = get_field n r"
proof -
  have "credential (me_auth e) = None" using assms(1) by (auto simp: credential_def split: auth_scheme.splits)
  moreover have "find (\<lambda>(m, v). lower n = lower m) (rev (me_extra_headers e)) = None"
    using assms(2) by (auto simp: find_None_iff)
  ultimately show ?thesis using assms(3) by (simp add: transport_headers)
qed

end

definition lower_char :: "char \<Rightarrow> char" where
  "lower_char c = (if CHR ''A'' \<le> c \<and> c \<le> CHR ''Z'' then char_of (of_char c + 32 :: nat) else c)"

interpretation field_map: header_laws "\<lambda>n r. r (map lower_char n)" "\<lambda>n v r. r(map lower_char n \<mapsto> v)" "map lower_char"
  by unfold_locales simp

text \<open>An extra header wins over the standard one under any spelling of its name; without a key no credential is sent.\<close>

lemma extra_header_wins:
  assumes "(m, v) \<in> set (me_extra_headers e)" "map lower_char n = map lower_char m"
    and "\<forall>(m', v') \<in> set (me_extra_headers e). map lower_char m' = map lower_char m \<longrightarrow> v' = v"
  shows "apply_transport_headers (\<lambda>n v r. r(map lower_char n \<mapsto> v)) e r (map lower_char n) = Some v"
proof -
  have "find (\<lambda>(m, v). map lower_char n = map lower_char m) (rev (me_extra_headers e)) \<noteq> None"
    using assms(1,2) by (auto simp: find_None_iff)
  then obtain m' v' where f: "find (\<lambda>(m, v). map lower_char n = map lower_char m) (rev (me_extra_headers e)) = Some (m', v')"
    by auto
  then have "(m', v') \<in> set (me_extra_headers e)" "map lower_char n = map lower_char m'"
    by (auto simp: find_Some_iff) (metis nth_mem set_rev length_rev)
  with assms(2,3) have "v' = v" by auto
  with f show ?thesis using field_map.transport_headers [where n = n and e = e and r = r] by simp
qed

lemma keyless_sends_none:
  assumes "ea_api_key (me_auth e) = []" "me_extra_headers e = []"
  shows "apply_transport_headers (\<lambda>n v r. r(map lower_char n \<mapsto> v)) e Map.empty (map lower_char ''Authorization'') = None"
  using assms field_map.no_key_no_credential [of e "''Authorization''" Map.empty] by (simp add: lower_char_def)

lemma split_authority:
  assumes "plain_host host" "plain_port port" "tail = [] \<or> hd tail = CHR ''/''"
  defines "auth \<equiv> host @ (case port of None \<Rightarrow> [] | Some p \<Rightarrow> CHR '':'' # p)"
  shows "takeWhile (\<lambda>c. c \<noteq> CHR ''/'') (auth @ tail) = auth" "dropWhile (\<lambda>c. c \<noteq> CHR ''/'') (auth @ tail) = tail"
    and "split_port standard auth = (host, case port of None \<Rightarrow> standard | Some p \<Rightarrow> p)"
proof -
  have no: "\<forall>c \<in> set auth. c \<noteq> CHR ''/''"
    using assms(1,2) by (auto simp: auth_def plain_host_def plain_port_def split: option.splits)
  have tail: "takeWhile (\<lambda>c. c \<noteq> CHR ''/'') tail = []" "dropWhile (\<lambda>c. c \<noteq> CHR ''/'') tail = tail"
    using assms(3) by (cases tail; auto)+
  show "takeWhile (\<lambda>c. c \<noteq> CHR ''/'') (auth @ tail) = auth" "dropWhile (\<lambda>c. c \<noteq> CHR ''/'') (auth @ tail) = tail"
    using no tail by (simp_all add: takeWhile_append2 dropWhile_append2)
  show "split_port standard auth = (host, case port of None \<Rightarrow> standard | Some p \<Rightarrow> p)"
  proof (cases port)
    case None
    with assms(1) show ?thesis by (simp add: split_port_def auth_def plain_host_def)
  next
    case (Some p)
    with assms(2) have p: "\<forall>c \<in> set (rev p). c \<noteq> CHR '':''" by (auto simp: plain_port_def)
    have t: "takeWhile (\<lambda>c. c \<noteq> CHR '':'') (rev p @ CHR '':'' # rev host) = rev p"
      using p by (subst takeWhile_append2) auto
    have d: "dropWhile (\<lambda>c. c \<noteq> CHR '':'') (rev p @ CHR '':'' # rev host) = CHR '':'' # rev host"
      using p by (subst dropWhile_append2) auto
    from Some t d show ?thesis by (simp add: split_port_def auth_def)
  qed
qed

text \<open>The target is absolute, and its prefix neither begins nor ends with a slash.\<close>

lemma strip_slashes_ends: "strip_slashes s = [] \<or> hd (strip_slashes s) \<noteq> CHR ''/'' \<and> last (strip_slashes s) \<noteq> CHR ''/''"
proof (cases "strip_slashes s = []")
  case False
  define t where "t = dropWhile (\<lambda>c. c = CHR ''/'') s"
  have eq: "strip_slashes s = rev (dropWhile (\<lambda>c. c = CHR ''/'') (rev t))" by (simp add: strip_slashes_def t_def)
  with False have ne: "dropWhile (\<lambda>c. c = CHR ''/'') (rev t) \<noteq> []" by simp
  have last: "last (strip_slashes s) \<noteq> CHR ''/''" using hd_dropWhile [OF ne] ne by (simp add: eq last_rev)
  obtain u where "strip_slashes s @ u = t"
    unfolding eq by (metis rev_append rev_rev_ident takeWhile_dropWhile_id)
  then have "hd (strip_slashes s) = hd t" "t \<noteq> []" using False by auto
  moreover from this(2) have "hd t \<noteq> CHR ''/''" unfolding t_def by (rule hd_dropWhile)
  ultimately show ?thesis using last by simp
qed simp

lemma join_target_absolute: "\<exists>rest. join_target p q = CHR ''/'' # rest"
  by (cases q) (auto simp: join_target_def Let_def)

text \<open>
  An endpoint is resolved as its URL is written: for every scheme, host, port and path (the host and the port
  without colons and slashes) the host is the host, the port the written one or that of the scheme, encryption is used
  unless the scheme is \<^verbatim>\<open>http\<close> or \<^verbatim>\<open>ws\<close>, and the target is the path without its outer slashes followed by the request path, with
  one slash before each. Resolving the authority of the result again gives the same host and port.
\<close>

theorem resolve_endpoint_exact:
  assumes "plain_host host" "plain_port port" "me_base_url e = url_text s host port path"
  shows "resolve_endpoint e = Inr \<lparr>re_host = host, re_port = (case port of None \<Rightarrow> default_port (scheme_tls s) | Some p \<Rightarrow> p),
      re_target = join_target (case path of None \<Rightarrow> [] | Some q \<Rightarrow> q) (me_request_path e), re_tls = scheme_tls s\<rparr> \<and>
    (\<forall>r. resolve_endpoint e = Inr r \<longrightarrow>
      resolve_endpoint (e\<lparr>me_base_url := (if scheme_tls s then ''https://'' else ''http://'') @ authority r\<rparr>) =
        Inr (r\<lparr>re_target := join_target [] (me_request_path e)\<rparr>))"
proof -
  have first: "resolve_endpoint x = Inr \<lparr>re_host = host, re_port = (case pt of None \<Rightarrow> default_port (scheme_tls sc) | Some p \<Rightarrow> p),
      re_target = join_target (case pa of None \<Rightarrow> [] | Some q \<Rightarrow> q) (me_request_path x), re_tls = scheme_tls sc\<rparr>"
    if pt: "plain_port pt" and x: "me_base_url x = url_text sc host pt pa" for x :: "'a model_endpoint" and pt pa sc
  proof -
    have tail: "(case pa of None \<Rightarrow> [] | Some q \<Rightarrow> CHR ''/'' # q) = [] \<or> hd (case pa of None \<Rightarrow> [] | Some q \<Rightarrow> CHR ''/'' # q) = CHR ''/''"
      by (cases pa) auto
    have "drop 1 (case pa of None \<Rightarrow> [] | Some q \<Rightarrow> CHR ''/'' # q) = (case pa of None \<Rightarrow> [] | Some q \<Rightarrow> q)" by (cases pa) auto
    moreover have "host \<noteq> []" using assms(1) by (simp add: plain_host_def)
    ultimately show ?thesis
      using split_authority(1,2) [OF assms(1) pt tail] split_authority(3) [OF assms(1) pt tail, of "default_port (scheme_tls sc)"]
      by (simp add: resolve_endpoint_def x strip_scheme_url [OF assms(1) pt] Let_def)
  qed
  let ?tls = "scheme_tls s" and ?port = "case port of None \<Rightarrow> default_port (scheme_tls s) | Some p \<Rightarrow> p"
  let ?sc = "if ?tls then HttpsScheme else HttpScheme"
  let ?pt = "if ?port = default_port ?tls then None else Some ?port"
  have pt: "plain_port ?pt" using assms(2) by (auto simp: plain_port_def split: option.splits)
  have sc: "scheme_tls ?sc = ?tls" by (auto simp: scheme_tls_def)
  have url: "(if ?tls then ''https://'' else ''http://'') @ authority \<lparr>re_host = host, re_port = ?port, re_target = t, re_tls = ?tls\<rparr> =
      url_text ?sc host ?pt None" for t
    by (auto simp: url_text_def authority_def)
  from first [OF pt, of "e\<lparr>me_base_url := url_text ?sc host ?pt None\<rparr>" ?sc None] sc
  have again: "resolve_endpoint (e\<lparr>me_base_url := url_text ?sc host ?pt None\<rparr>) =
      Inr \<lparr>re_host = host, re_port = ?port, re_target = join_target [] (me_request_path e), re_tls = ?tls\<rparr>"
    by (auto split: if_splits)
  show ?thesis using first [OF assms(2,3)] again url by simp
qed

theorem resolve_endpoint_exact_witness:
  "resolve_endpoint ((default_endpoint :: json model_endpoint)\<lparr>me_base_url := ''http://localhost:8080/v1/''\<rparr>) =
     Inr \<lparr>re_host = ''localhost'', re_port = ''8080'', re_target = ''/v1/chat/completions'', re_tls = False\<rparr>"
  using resolve_endpoint_exact [of "''localhost''" "Some ''8080''" "(default_endpoint :: json model_endpoint)\<lparr>me_base_url := ''http://localhost:8080/v1/''\<rparr>"
      HttpScheme "Some ''v1/''", THEN conjunct1]
  by (simp add: plain_host_def plain_port_def url_text_def scheme_tls_def join_target_def strip_slashes_def default_endpoint_def)

text \<open>An IPv6 address without a port is cut at its last colon, inside the brackets.\<close>

lemma resolve_endpoint_ipv6:
  "resolve_endpoint (default_endpoint\<lparr>me_base_url := ''http://[::1]/v1''\<rparr>) =
     Inr \<lparr>re_host = ''[:'', re_port = ''1]'', re_target = ''/v1/chat/completions'', re_tls = False\<rparr>"
  by (simp add: resolve_endpoint_def strip_scheme_def starts_with_def split_port_def join_target_def strip_slashes_def default_endpoint_def)

end
