(* ===== verification/Spec2Isabelle.thy ===== *)
theory Spec2Isabelle
  imports Text_StreamRead Text_Utf8Probe Stream_Edit Loop_Hooks Loop_Statistic Tool_Batch Core_Confirm Core_Compact
    File_Publish Endpoint_Config
begin

text \<open>
  \<^bold>\<open>A verification development for Simplex, a C++ agent harness.\<close>

  Simplex runs conversations between a user, a language model and tools. The \<^verbatim>\<open>loop\<close> library drives
  one request: it recovers or admits a session, asks the model (\<^verbatim>\<open>llm\<close>), commits each response into
  the session record (\<^verbatim>\<open>dataclass\<close>), dispatches the tool calls of the response (\<^verbatim>\<open>tools\<close>), projects
  their results back and settles the record that \<^verbatim>\<open>persistence\<close> stores. Hooks observe and edit at
  fixed points through \<^verbatim>\<open>utils/eventbus\<close>. The built-in text tools read and edit files through
  \<^verbatim>\<open>textedit\<close>. \<^verbatim>\<open>core\<close> and \<^verbatim>\<open>manager\<close> host the loop, \<^verbatim>\<open>hub\<close> is a separate TypeScript front end.

  \<^bold>\<open>Theories.\<close> All sources are under \<^verbatim>\<open>src/\<close>.

  \<^item> \<open>Prelude\<close>: C++ exceptions as values (\<open>exn\<close>, \<open>result\<close>), byte strings, list lemmas.
  \<^item> \<open>Text_LineBreak\<close>, \<open>Text_LineIndex\<close>: \<^verbatim>\<open>textedit/src/line_break.hpp\<close> and \<^verbatim>\<open>line_index.cpp\<close>. The three
    terminators, line counting, the chunk probe, and the line/column index, a bijection with offsets.
  \<^item> \<open>Text_Display\<close>: \<^verbatim>\<open>textedit/src/display.hpp\<close>, the budgeted UTF-8 writer: its output is well-formed
    UTF-8 within budget, and replacement is reported exactly.
  \<^item> \<open>Text_Utf8Probe\<close>: \<^verbatim>\<open>textedit/src/utf8_probe.cpp\<close>, the text classifier, characterised exactly.
  \<^item> \<open>Text_Read\<close>: \<^verbatim>\<open>textedit/src/read.cpp\<close> and \<^verbatim>\<open>bounded_read.cpp\<close>, in-memory selections.
  \<^item> \<open>Text_StreamRead\<close>: \<^verbatim>\<open>textedit/src/stream_read.cpp\<close> and \<^verbatim>\<open>stream_read_sinks.hpp\<close>. The chunked readers
    equal the in-memory ones for every way the file is split into chunks. The locale \<open>chunk_sink\<close> is the
    contract between the scan and its three sinks, each of which interprets it.
  \<^item> \<open>Text_Edit\<close>, \<open>Text_Matcher\<close>: \<^verbatim>\<open>textedit/src/edit.cpp\<close> and the streaming matcher and candidate writer of
    \<^verbatim>\<open>stream_edit.cpp\<close>. The in-memory edit is characterised by the occurrences of the old text; the matcher
    finds the same occurrences from any chunking. The locales \<open>staged_file\<close> and \<open>staged_total\<close> are the contract
    between the writer and the file it stages.
  \<^item> \<open>Staged_Replace\<close>: \<^verbatim>\<open>utils/fileio/src/staged_replace.cpp\<close>, candidate files, verification against the
    current source and publication, over system calls that may do anything; it interprets those locales.
  \<^item> \<open>Edit_Preview\<close>: the bounded previews of a streamed edit, equal to the excerpts of the in-memory edit. The
    locale \<open>row_cursor\<close> is what the preview relies on in a table of rows.
  \<^item> \<open>File_Base64\<close>: \<^verbatim>\<open>utils/fileio/src/base64.cpp\<close>. Encoding and strict decoding are inverse partial functions.
  \<^item> \<open>File_Publish\<close>: the other file helpers (\<^verbatim>\<open>read_prefix.cpp\<close>, \<^verbatim>\<open>atomic_write.cpp\<close>, \<^verbatim>\<open>new_file.cpp\<close>,
    \<^verbatim>\<open>replace_existing.cpp\<close>) with two callers, over system calls that may fail anywhere. The locale \<open>publisher\<close>
    (the destination changes exactly when the result says so) and its extension \<open>exclusive_publisher\<close> (never an
    existing file) are the contract; each helper interprets one of them.
  \<^item> \<open>Stream_Edit\<close>: \<^verbatim>\<open>textedit/src/stream_edit.cpp\<close>, one whole edit of a file: it returns, replaces only what it
    has read again, reports exactly whether it replaced, and on an undisturbed file equals the in-memory edit.
  \<^item> \<open>Prompt_Template\<close>: \<^verbatim>\<open>dataclass/include/dataclass/prompt_template.hpp\<close>. Layout invariant over all
    reachable prompts, prefix stability of permitted mutations, exact spans.
  \<^item> \<open>Json_Api\<close>: what the code uses of \<^verbatim>\<open>nlohmann::json\<close>, as a record of operations with its laws in the
    locale \<open>json_laws\<close>, interpreted on a datatype of JSON values.
  \<^item> \<open>Model_IO\<close>: \<^verbatim>\<open>dataclass/include/dataclass/model_io.hpp\<close>, every session record with its JSON form;
    the whole session round-trips; the exchange regions are append-only or per-writer.
  \<^item> \<open>Loop_State\<close>, \<open>Loop_Run\<close>: \<^verbatim>\<open>loop/src/loop.cpp\<close> with \<^verbatim>\<open>contracts.hpp\<close> and \<^verbatim>\<open>events.hpp\<close>, and
    \<^verbatim>\<open>LLMModel::integrate\<close>. A run is a composition of steps on a configuration (world, session,
    result), each returning or throwing; the environment is a record of operations on the world that may
    do anything. A small assertion calculus (\<open>triple\<close>) carries one invariant, \<open>progress\<close>, through the
    whole run. The locale \<open>model_adapter\<close> states what the loop relies on in a model and is interpreted on
    the generic integration.
  \<^item> \<open>Loop_Hooks\<close>: \<^verbatim>\<open>utils/eventbus/include/eventbus/event_bus.hpp\<close>, \<^verbatim>\<open>loop/src/hook_registry.cpp\<close> and
    \<^verbatim>\<open>hook_interface.cpp\<close>. The registry accounts for every slot on the bus after any sequence of operations. The
    locale \<open>hook_contract\<close> is what it relies on in a hook, interpreted on the way the hooks of the repository
    subscribe.
  \<^item> \<open>Loop_Statistic\<close>: \<^verbatim>\<open>loop/intrinsic/hooks/context_statistic/src/hook.cpp\<close>. The counters in the session refine a ledger
    of committed responses. The locale \<open>number_laws\<close> extends \<open>json_laws\<close> by the integers of the JSON library.

  \<^item> \<open>Tool_Failure\<close>: \<^verbatim>\<open>tools/include/tools/invoke_exception.hpp\<close>, failures, their records, and the rule that a
    record answers the call of the layer that returns it.
  \<^item> \<open>Tool_Sets\<close>: \<^verbatim>\<open>toolsets.hpp\<close>, \<^verbatim>\<open>security_check.hpp\<close>, \<^verbatim>\<open>tool_skill.hpp\<close> and the propagating publish of the
    asynchronous bus. Coroutines are trees of segments (\<open>task\<close>); \<open>outcomes\<close> ranges over every world the segments
    may meet. The default gate fails closed.
  \<^item> \<open>Tool_Registry\<close>, \<open>Tool_Batch\<close>: \<^verbatim>\<open>registry.hpp\<close>. Registration with its invariant over reachable tables; a
    batch as a step relation over all interleavings, with an invariant (\<open>batch_ok\<close>) for the answers, one for
    the schedule (\<open>schedule_ok\<close>) and a well-founded multiset of the work left.

  \<^item> \<open>Core_Outbox\<close>: \<^verbatim>\<open>core/include/core/event_outbox.hpp\<close> and \<^verbatim>\<open>event_admission.hpp\<close>, the ledger of outgoing
    events: bounds, the lifecycle reserve, the order of what is sent and the accounts of what is not.
  \<^item> \<open>Wire_Codec\<close>: \<^verbatim>\<open>protocol/include/protocol/descriptor.hpp\<close> and \<^verbatim>\<open>codec.hpp\<close>. Descriptors are data and the
    codec one family of functions over them; the locale \<open>wire_laws\<close> extends \<open>json_laws\<close>. Round trip and type safety
    for every descriptor that meets a decidable well-formedness test.
  \<^item> \<open>Wire_Records\<close>: \<^verbatim>\<open>wire.hpp\<close> and \<^verbatim>\<open>wire.cpp\<close>, all records with their rules and the event registry; each
    descriptor passes the test by evaluation, and what the outbox queues decodes.
  \<^item> \<open>Core_Wire\<close>: \<^verbatim>\<open>core/src/wire.cpp\<close> and \<^verbatim>\<open>protocol.cpp\<close>. Conversions between session and wire records, and the
    admission of payloads and history queries: exactly which inputs are accepted, as what, and how the others are
    refused.
  \<^item> \<open>Core_Confirm\<close>: \<^verbatim>\<open>core/src/confirmation.cpp\<close> and the listener of \<^verbatim>\<open>application.cpp\<close>. The confirming coroutine as
    a task over all interleavings with cancellation, composed with the gate of \<open>Tool_Sets\<close>: what runs was approved
    by a policy or by a matching answer.
  \<^item> \<open>Core_Display\<close>: \<^verbatim>\<open>core/src/display.cpp\<close>, bounded projections of a session. Clients that page through an answer
    or a history take fuel, one unit per page; each page makes progress, so the size of the answer, or the number
    of steps, is enough, and what they collect is the whole.
  \<^item> \<open>Core_Compact\<close>: \<^verbatim>\<open>core/src/compact.cpp\<close> and the extraction of the summary. A planned compaction keeps its
    budget whatever the model answers, so the host never refuses the replacement.

  \<^item> \<open>Endpoint_Sse\<close>: the handler of server-sent events of \<^verbatim>\<open>endpoint/include/endpoint/request.hpp\<close>. It refines
    the events of the whole stream, for every chunking, window and reconnect.
  \<^item> \<open>Endpoint_Retry\<close>: \<^verbatim>\<open>http_request_exception.hpp\<close>, \<^verbatim>\<open>retry_policy.hpp\<close>, \<^verbatim>\<open>fetch.hpp\<close>, \<^verbatim>\<open>complete.hpp\<close> and the reader of
    \<^verbatim>\<open>model_request.hpp\<close>. Attempts are bounded by the budget, waits double to a ceiling, only recoverable failures are
    retried, and a returned item comes from one attempt.
  \<^item> \<open>Endpoint_Config\<close>: \<^verbatim>\<open>endpoint_config.hpp\<close> and, of \<^verbatim>\<open>model_request.hpp\<close>, \<^verbatim>\<open>resolve_endpoint\<close>, \<^verbatim>\<open>apply_transport_headers\<close> and
    \<^verbatim>\<open>connect\<close>. A configuration is read back as it was written, a base URL is resolved to the host, port and path it is
    written with (an IPv6 address without a port excepted), and extra headers win over the standard ones. The laws of the
    JSON map and of the header fields are the locales \<open>config_laws\<close> and \<open>header_laws\<close>.

  \<^bold>\<open>Conventions.\<close> A \<^verbatim>\<open>std::string\<close> is a list of bytes (\<open>char\<close>), \<^verbatim>\<open>size_t\<close> a \<open>nat\<close> with \<open>size_max\<close> written
  out where the code tests or saturates against it. Exceptions are \<open>Inl\<close>. A file being streamed is the list of outcomes of
  \<^verbatim>\<open>SequentialFile::next\<close>. Loops over data are structural recursions; the exchange loop, which without a
  cap need not end, takes fuel, and a capped run is shown to finish when the fuel exceeds the cap.

  \<^bold>\<open>Not modelled.\<close> Logging, the Asio cancellation bridge inside one model request (the request is an
  operation of the environment that may fail with any error), cancellation of a running batch, races inside
  one segment of a coroutine, re-entrant changes of the hook registry, floating-point values (parameters), and the
  components listed as such in the manifest: connections and TLS, the request writers and stream decoders of the
  providers, SQLite persistence, process control, the session host's event loop and the manager around their modelled
  parts, extension loading, the TypeScript hub and the Python helpers. What remains of these is mostly wiring over
  the operating system, third-party libraries or other languages, whose behaviour would have to be assumed.
\<close>

end
